(* ===== verification/Prelude.thy ===== *)
theory Prelude imports Main "HOL-Library.Word" begin

text \<open>
  What every component of the kernel model shares: the names of the machine types, the
  three-way outcome of a fallible operation, the bounded search loop \<open>for i in lo..hi\<close>,
  the byte-wise bitmap of \<open>core/frames.rs\<close> and \<open>core/tcmkfs.rs\<close>, wrapping subtraction of
  unsigned counters, and little-endian integers.
\<close>

unbundle bit_operations_syntax

named_theorems state_defs
  \<comment> \<open>the definitions of the state updates, for proofs that unfold an operation\<close>

type_synonym byte = "8 word"

text \<open>
  The result of an operation that may fail with an error value or panic (an index out of
  bounds, or a raw pointer access outside its array, which the model counts as a panic).
\<close>

datatype ('e, 'a) outcome = Ok 'a | Err 'e | Panic

fun is_ok :: "('e, 'a) outcome \<Rightarrow> bool" where
  "is_ok (Ok x) = True"
| "is_ok r = False"

section \<open>Unsigned machine arithmetic\<close>

definition w32 :: "nat \<Rightarrow> nat" where
  "w32 n = n mod 2 ^ 32"

definition wsub :: "nat \<Rightarrow> nat \<Rightarrow> nat \<Rightarrow> nat" where
  \<comment> \<open>\<open>a.wrapping_sub(b)\<close> on integers of \<open>w\<close> bits\<close>
  "wsub w a b = (a + (2 ^ w - b mod 2 ^ w)) mod 2 ^ w"

lemma w32_id [simp]: "n < 2 ^ 32 \<Longrightarrow> w32 n = n"
  by (simp add: w32_def)

lemma w32_less [simp]: "w32 n < 2 ^ 32" "w32 n < 4294967296"
  by (simp_all add: w32_def)

lemma wsub_le: "b \<le> a \<Longrightarrow> a < 2 ^ w \<Longrightarrow> wsub w a b = a - b"
proof -
  assume ba: "b \<le> a" and a: "a < 2 ^ w"
  then have "a + (2 ^ w - b mod 2 ^ w) = (a - b) + 2 ^ w" by simp
  then show ?thesis using a by (simp add: wsub_def)
qed

lemma wsub_gt: "a < b \<Longrightarrow> b < 2 ^ w \<Longrightarrow> wsub w a b = 2 ^ w - (b - a)"
  by (simp add: wsub_def)

section \<open>The search loop\<close>

text \<open>\<open>for i in lo..hi { if P(i) { return Some(i) } } None\<close>\<close>

function find_slot :: "(nat \<Rightarrow> bool) \<Rightarrow> nat \<Rightarrow> nat \<Rightarrow> nat option" where
  "find_slot P lo hi = (if lo < hi then (if P lo then Some lo else find_slot P (Suc lo) hi) else None)"
  by pat_completeness auto
termination
  by (relation "measure (\<lambda>(P, lo, hi). hi - lo)") auto

declare find_slot.simps [simp del]

lemma find_slot_Some:
  "find_slot P lo hi = Some i \<Longrightarrow> lo \<le> i \<and> i < hi \<and> P i \<and> (\<forall>j. lo \<le> j \<and> j < i \<longrightarrow> \<not> P j)"
proof (induction P lo hi rule: find_slot.induct)
  case (1 P lo hi)
  show ?case
  proof (cases "lo < hi \<and> \<not> P lo")
    case True
    then have "find_slot P (Suc lo) hi = Some i"
      using "1.prems" by (simp add: find_slot.simps [of P lo hi])
    with True "1.IH" have IH: "Suc lo \<le> i \<and> i < hi \<and> P i \<and> (\<forall>j. Suc lo \<le> j \<and> j < i \<longrightarrow> \<not> P j)"
      by simp
    then have "\<not> P j" if "lo \<le> j" "j < i" for j
      using that True by (cases "j = lo") auto
    with IH show ?thesis by simp
  next
    case False
    with "1.prems" show ?thesis
      by (auto simp: find_slot.simps [of P lo hi] split: if_splits)
  qed
qed

lemma find_slot_None: "find_slot P lo hi = None \<longleftrightarrow> (\<forall>j. lo \<le> j \<and> j < hi \<longrightarrow> \<not> P j)"
proof (induction P lo hi rule: find_slot.induct)
  case (1 P lo hi)
  show ?case
  proof (cases "lo < hi \<and> \<not> P lo")
    case True
    with "1.IH" have IH: "find_slot P (Suc lo) hi = None \<longleftrightarrow> (\<forall>j. Suc lo \<le> j \<and> j < hi \<longrightarrow> \<not> P j)"
      by simp
    have "(\<forall>j. Suc lo \<le> j \<and> j < hi \<longrightarrow> \<not> P j) \<longleftrightarrow> (\<forall>j. lo \<le> j \<and> j < hi \<longrightarrow> \<not> P j)"
      using True by (metis Suc_leD not_less_eq_eq le_antisym)
    with IH True show ?thesis by (simp add: find_slot.simps [of P lo hi])
  next
    case False
    then show ?thesis by (auto simp: find_slot.simps [of P lo hi])
  qed
qed

lemma find_slot_first:
  "lo \<le> i \<Longrightarrow> i < hi \<Longrightarrow> P i \<Longrightarrow> (\<And>j. lo \<le> j \<Longrightarrow> j < i \<Longrightarrow> \<not> P j) \<Longrightarrow> find_slot P lo hi = Some i"
  by (metis find_slot_None find_slot_Some linorder_neqE_nat not_None_eq)

lemma find_slot_exists: "lo \<le> i \<Longrightarrow> i < hi \<Longrightarrow> P i \<Longrightarrow> \<exists>j. find_slot P lo hi = Some j"
  by (meson find_slot_None not_None_eq)

section \<open>Lists updated by index\<close>

lemma nth_list_update_if: "i < length xs \<Longrightarrow> xs[i := x] ! j = (if i = j then x else xs ! j)"
  by simp

lemma card_filter_update:
  assumes "finite A" "i \<in> A" "\<And>j. j \<in> A \<Longrightarrow> j \<noteq> i \<Longrightarrow> Q j = P j"
  shows "card {j \<in> A. Q j} + (if P i then 1 else 0) = card {j \<in> A. P j} + (if Q i then 1 else 0)"
proof -
  let ?R = "{j \<in> A - {i}. P j}"
  have fin: "finite ?R" and ni: "i \<notin> ?R" using assms(1) by auto
  have P: "{j \<in> A. P j} = (if P i then insert i ?R else ?R)" using assms(2) by auto
  have Q: "{j \<in> A. Q j} = (if Q i then insert i ?R else ?R)"
    using assms(2,3) by (cases "Q i") auto
  show ?thesis using fin ni by (simp add: P Q)
qed

section \<open>Bitmaps\<close>

text \<open>
  Bit \<open>i\<close> of a bitmap is bit \<open>i % 8\<close> of byte \<open>i / 8\<close>, tested with \<open>byte & (1 << (i % 8))\<close> and
  written with \<open>byte | mask\<close> or \<open>byte & !mask\<close>.
\<close>

definition bm_get :: "byte list \<Rightarrow> nat \<Rightarrow> bool" where
  "bm_get bm i \<longleftrightarrow> (bm ! (i div 8)) AND push_bit (i mod 8) 1 \<noteq> 0"

definition bm_set :: "byte list \<Rightarrow> nat \<Rightarrow> bool \<Rightarrow> byte list" where
  "bm_set bm i v =
     (let old = bm ! (i div 8); mask = push_bit (i mod 8) 1 in
      bm[i div 8 := (if v then old OR mask else old AND NOT mask)])"

lemma bm_get_bit: "bm_get bm i \<longleftrightarrow> bit (bm ! (i div 8)) (i mod 8)"
  by (simp add: bm_get_def bit_iff_and_push_bit_not_eq_0)

lemma length_bm_set [simp]: "length (bm_set bm i v) = length bm"
  by (simp add: bm_set_def Let_def)

lemma bm_get_set:
  assumes "i < 8 * length bm"
  shows "bm_get (bm_set bm i v) j = (if i = j then v else bm_get bm j)"
proof (cases "i div 8 = j div 8")
  case True
  have len: "i div 8 < length bm" using assms by simp
  have "i mod 8 = j mod 8 \<longleftrightarrow> i = j" using True by (metis div_mult_mod_eq)
  moreover have "i mod 8 < 8" "j mod 8 < 8" by simp_all
  ultimately show ?thesis using True len
    by (auto simp: bm_get_bit bm_set_def Let_def bit_simps)
next
  case False
  then show ?thesis by (auto simp: bm_get_bit bm_set_def Let_def)
qed

lemma bm_get_zero [simp]: "i < 8 * n \<Longrightarrow> \<not> bm_get (replicate n 0) i"
  by (simp add: bm_get_bit less_mult_imp_div_less mult.commute)

end
