(* ===== verification/Interfaces.thy ===== *)
theory Interfaces imports Prelude begin

text \<open>
  The contracts several components of the kernel share, each a locale that the providing
  component interprets on its own definitions:

  \<^item> \<open>slot_pool\<close>: a table of numbered slots with a first-fit allocator (page frames, pipes,
    disk blocks);
  \<^item> \<open>ref_counted\<close>: objects with an owner count (shared page frames, pipe ends);
  \<^item> \<open>bounded_fifo\<close>: a bounded queue that refuses when full (the message ring).
\<close>

section \<open>First-fit slot tables\<close>

text \<open>Allocating \<open>n\<close> slots in a row, for any allocator.\<close>

fun alloc_n :: "('s \<Rightarrow> (nat \<times> 's) option) \<Rightarrow> nat \<Rightarrow> 's \<Rightarrow> (nat list \<times> 's) option" where
  "alloc_n al 0 s = Some ([], s)"
| "alloc_n al (Suc n) s =
     (case al s of None \<Rightarrow> None
      | Some (i, s') \<Rightarrow>
          (case alloc_n al n s' of None \<Rightarrow> None | Some (is, s'') \<Rightarrow> Some (i # is, s'')))"

locale slot_pool =
  fixes inv :: "'s \<Rightarrow> bool"
    and used :: "'s \<Rightarrow> nat \<Rightarrow> bool"
    and cap :: "'s \<Rightarrow> nat"
    and sole :: "'s \<Rightarrow> nat \<Rightarrow> bool"
    and alloc :: "'s \<Rightarrow> (nat \<times> 's) option"
    and release :: "nat \<Rightarrow> 's \<Rightarrow> 's"
  assumes alloc_first: "inv s \<Longrightarrow> alloc s = Some (i, s') \<Longrightarrow>
      i < cap s \<and> \<not> used s i \<and> (\<forall>j<i. used s j)"
    and alloc_marks: "inv s \<Longrightarrow> alloc s = Some (i, s') \<Longrightarrow> j < cap s \<Longrightarrow>
      used s' j = (j = i \<or> used s j)"
    and alloc_inv: "inv s \<Longrightarrow> alloc s = Some (i, s') \<Longrightarrow> inv s' \<and> cap s' = cap s"
    and alloc_full: "inv s \<Longrightarrow> alloc s = None \<longleftrightarrow> (\<forall>i<cap s. used s i)"
    and release_marks: "inv s \<Longrightarrow> used s i \<Longrightarrow> i < cap s \<Longrightarrow> sole s i \<Longrightarrow> j < cap s \<Longrightarrow>
      used (release i s) j = (j \<noteq> i \<and> used s j)"
    and release_inv: "inv s \<Longrightarrow> used s i \<Longrightarrow> i < cap s \<Longrightarrow> sole s i \<Longrightarrow>
      inv (release i s) \<and> cap (release i s) = cap s"
begin

lemma alloc_n_fresh:
  "inv s \<Longrightarrow> alloc_n alloc n s = Some (is, s') \<Longrightarrow>
     length is = n \<and> distinct is \<and> (\<forall>i\<in>set is. i < cap s \<and> \<not> used s i)"
proof (induction n arbitrary: s "is" s')
  case 0
  then show ?case by simp
next
  case (Suc n)
  then obtain i t is' where a: "alloc s = Some (i, t)" and n: "alloc_n alloc n t = Some (is', s')"
    and "is": "is = i # is'" by (auto split: option.splits)
  have t: "inv t" "cap t = cap s" using alloc_inv [OF Suc.prems(1) a] by auto
  have IH: "length is' = n \<and> distinct is' \<and> (\<forall>i\<in>set is'. i < cap t \<and> \<not> used t i)"
    by (rule Suc.IH [OF t(1) n])
  then show ?case
    using alloc_first [OF Suc.prems(1) a] alloc_marks [OF Suc.prems(1) a] t(2) "is" by auto
qed

lemma alloc_release_restores:
  assumes "inv s" "alloc s = Some (i, s')" "sole s' i" "j < cap s"
  shows "used (release i s') j = used s j"
proof -
  have s': "inv s'" "cap s' = cap s" using alloc_inv [OF assms(1,2)] by auto
  have i: "i < cap s" "\<not> used s i" using alloc_first [OF assms(1,2)] by auto
  have "used s' i" using alloc_marks [OF assms(1,2)] i by simp
  with release_marks [OF s'(1) _ _ assms(3)] alloc_marks [OF assms(1,2,4)] i s' assms(4)
  show ?thesis by auto
qed

lemma release_makes_room:
  assumes "inv s" "used s i" "i < cap s" "sole s i"
  obtains j s' where "alloc (release i s) = Some (j, s')" "j \<le> i"
proof -
  have r: "inv (release i s)" "cap (release i s) = cap s" using release_inv [OF assms] by auto
  have free: "\<not> used (release i s) i" using release_marks [OF assms assms(3)] by simp
  then have "alloc (release i s) \<noteq> None" using alloc_full [OF r(1)] r(2) assms(3) by auto
  then obtain j s' where a: "alloc (release i s) = Some (j, s')" by auto
  have "j \<le> i" using alloc_first [OF r(1) a] free by (meson not_le)
  with a show thesis by (rule that)
qed

end

section \<open>Owner counts\<close>

locale ref_counted =
  fixes inv :: "'s \<Rightarrow> bool"
    and count :: "'s \<Rightarrow> nat \<Rightarrow> nat"
    and limit :: nat
    and retain :: "nat \<Rightarrow> 's \<Rightarrow> 's"
    and release :: "nat \<Rightarrow> 's \<Rightarrow> 's"
  assumes retain_count: "inv s \<Longrightarrow> 0 < count s i \<Longrightarrow> count s i < limit \<Longrightarrow>
      count (retain i s) j = (if j = i then count s i + 1 else count s j)"
    and retain_inv: "inv s \<Longrightarrow> 0 < count s i \<Longrightarrow> count s i < limit \<Longrightarrow> inv (retain i s)"
    and release_count: "inv s \<Longrightarrow> 0 < count s i \<Longrightarrow>
      count (release i s) j = (if j = i then count s i - 1 else count s j)"
    and release_inv: "inv s \<Longrightarrow> 0 < count s i \<Longrightarrow> inv (release i s)"
begin

lemma retain_n:
  "inv s \<Longrightarrow> 0 < count s i \<Longrightarrow> count s i + n \<le> limit \<Longrightarrow>
     inv ((retain i ^^ n) s) \<and>
     count ((retain i ^^ n) s) j = (if j = i then count s i + n else count s j)"
proof (induction n arbitrary: j)
  case 0
  then show ?case by simp
next
  case (Suc n)
  let ?t = "(retain i ^^ n) s"
  have "inv ?t" and c: "\<And>j. count ?t j = (if j = i then count s i + n else count s j)"
    using Suc by auto
  with Suc.prems show ?case by (simp add: retain_count retain_inv)
qed

lemma release_n:
  "inv s \<Longrightarrow> n \<le> count s i \<Longrightarrow>
     inv ((release i ^^ n) s) \<and>
     count ((release i ^^ n) s) j = (if j = i then count s i - n else count s j)"
proof (induction n arbitrary: j)
  case 0
  then show ?case by simp
next
  case (Suc n)
  let ?t = "(release i ^^ n) s"
  have "inv ?t" and c: "\<And>j. count ?t j = (if j = i then count s i - n else count s j)"
    using Suc by auto
  with Suc.prems show ?case by (simp add: release_count release_inv)
qed

text \<open>As many releases as there were retains leave every count as it was.\<close>

lemma retain_release_balanced:
  assumes "inv s" "0 < count s i" "count s i + n \<le> limit"
  shows "count ((release i ^^ n) ((retain i ^^ n) s)) j = count s j"
proof -
  have r: "inv ((retain i ^^ n) s)" "count ((retain i ^^ n) s) i = count s i + n"
    using retain_n [OF assms, of i] by auto
  show ?thesis using release_n [OF r(1), of n i j] r(2) retain_n [OF assms, of j] by auto
qed

end

section \<open>Bounded queues\<close>

locale bounded_fifo =
  fixes inv :: "'s \<Rightarrow> bool"
    and content :: "'s \<Rightarrow> 'a list"
    and room :: nat
    and put :: "'a \<Rightarrow> 's \<Rightarrow> bool \<times> 's"
    and get :: "'s \<Rightarrow> ('a \<times> 's) option"
  assumes put_content: "inv s \<Longrightarrow> put x s = (ok, s') \<Longrightarrow>
      ok = (length (content s) < room) \<and>
      content s' = (if ok then content s @ [x] else content s)"
    and put_inv: "inv s \<Longrightarrow> put x s = (ok, s') \<Longrightarrow> inv s'"
    and get_content: "inv s \<Longrightarrow>
      (case get s of None \<Rightarrow> content s = [] | Some (x, s') \<Rightarrow> content s = x # content s')"
    and get_inv: "inv s \<Longrightarrow> get s = Some (x, s') \<Longrightarrow> inv s'"
begin

lemma get_Some: "inv s \<Longrightarrow> get s = Some (x, s') \<Longrightarrow> content s = x # content s'"
  using get_content [of s] by simp

lemma get_None: "inv s \<Longrightarrow> get s = None \<longleftrightarrow> content s = []"
  using get_content [of s] by (auto split: option.splits)

text \<open>Nothing overtakes: what is put last comes out after everything that was queued.\<close>

lemma put_behind_get:
  assumes "inv s" "put x s = (True, s')" "content s \<noteq> []"
  obtains y t where "get s' = Some (y, t)" "content t = tl (content s) @ [x]" "y = hd (content s)"
proof -
  have c: "content s' = content s @ [x]" and i: "inv s'"
    using put_content [OF assms(1,2)] put_inv [OF assms(1,2)] by auto
  then have "get s' \<noteq> None" using get_None by auto
  then obtain y t where g: "get s' = Some (y, t)" by auto
  have "content s' = y # content t" by (rule get_Some [OF i g])
  then have "content t = tl (content s) @ [x]" "y = hd (content s)"
    using c assms(3) by (cases "content s"; simp)+
  with g show thesis by (rule that)
qed

end

end
