(* ===== verification/Frames.thy ===== *)
theory Frames imports Interfaces begin

text \<open>
  The physical page-frame allocator, \<^verbatim>\<open>kernel/src/level0a/core/frames.rs\<close>: a bitmap over the
  pool of 4096 frames from 16 MiB on, an owner count per frame (for copy-on-write), and the
  counters the shell reports.  The statics of the file are the fields of \<open>frames\<close>; the bytes of
  physical memory, which \<open>alloc\<close> clears, are the field \<open>fr_mem\<close>.  A \<open>usize\<close> is a natural
  number, and the one subtraction on a counter (\<open>USED.fetch_sub\<close>) wraps at 64 bits.
\<close>

section \<open>State\<close>

abbreviation FRAME_SIZE :: nat where "FRAME_SIZE \<equiv> 4096"
abbreviation POOL_START :: nat where "POOL_START \<equiv> 16777216"
abbreviation POOL_FRAMES :: nat where "POOL_FRAMES \<equiv> 4096"

record frames =
  fr_bitmap :: "byte list"
  fr_refs :: "byte list"
  fr_used :: nat
  fr_peak :: nat
  fr_cow_copies :: nat
  fr_cow_reuses :: nat
  fr_demand_fills :: nat
  fr_mem :: "nat \<Rightarrow> byte"

definition frames_init :: "(nat \<Rightarrow> byte) \<Rightarrow> frames" where
  "frames_init mem =
     \<lparr>fr_bitmap = replicate (POOL_FRAMES div 8) 0, fr_refs = replicate POOL_FRAMES 0,
      fr_used = 0, fr_peak = 0, fr_cow_copies = 0, fr_cow_reuses = 0, fr_demand_fills = 0,
      fr_mem = mem\<rparr>"

section \<open>Operations\<close>

definition frames_bit :: "frames \<Rightarrow> nat \<Rightarrow> bool" where
  "frames_bit s index = bm_get (fr_bitmap s) index"

definition index_of :: "nat \<Rightarrow> nat option" where
  "index_of phys =
     (if phys < POOL_START then None
      else (let index = (phys - POOL_START) div FRAME_SIZE in
            if index \<ge> POOL_FRAMES then None else Some index))"

definition frames_refs :: "frames \<Rightarrow> nat \<Rightarrow> byte" where
  "frames_refs s index = fr_refs s ! index"

definition set_refs :: "nat \<Rightarrow> byte \<Rightarrow> frames \<Rightarrow> frames" where
  "set_refs index value s = s\<lparr>fr_refs := (fr_refs s)[index := value]\<rparr>"

definition frames_set_bit :: "nat \<Rightarrow> bool \<Rightarrow> frames \<Rightarrow> frames" where
  "frames_set_bit index value s = s\<lparr>fr_bitmap := bm_set (fr_bitmap s) index value\<rparr>"

definition frames_alloc :: "frames \<Rightarrow> (nat \<times> frames) option" where
  "frames_alloc s =
     (case find_slot (\<lambda>i. \<not> frames_bit s i) 0 POOL_FRAMES of
        None \<Rightarrow> None
      | Some i \<Rightarrow>
          (let s1 = set_refs i 1 (frames_set_bit i True s);
               used = fr_used s1 + 1;
               phys = POOL_START + i * FRAME_SIZE
           in Some (phys,
                s1\<lparr>fr_used := used, fr_peak := max (fr_peak s1) used,
                   fr_mem := (\<lambda>a. if phys \<le> a \<and> a < phys + FRAME_SIZE then 0 else fr_mem s a)\<rparr>)))"

definition frames_share :: "nat \<Rightarrow> frames \<Rightarrow> bool \<times> frames" where
  "frames_share phys s =
     (case index_of phys of
        None \<Rightarrow> (False, s)
      | Some index \<Rightarrow>
          (let current = frames_refs s index in
           if \<not> frames_bit s index \<or> current = 0 \<or> current = 255 then (False, s)
           else (True, set_refs index (current + 1) s)))"

definition frames_refcount :: "nat \<Rightarrow> frames \<Rightarrow> byte" where
  "frames_refcount phys s = (case index_of phys of Some i \<Rightarrow> frames_refs s i | None \<Rightarrow> 0)"

definition frames_free :: "nat \<Rightarrow> frames \<Rightarrow> frames" where
  "frames_free phys s =
     (case index_of phys of
        None \<Rightarrow> s
      | Some index \<Rightarrow>
          if \<not> frames_bit s index then s
          else (let current = frames_refs s index in
                if current > 1 then set_refs index (current - 1) s
                else (let s1 = frames_set_bit index False (set_refs index 0 s)
                      in s1\<lparr>fr_used := wsub 64 (fr_used s1) 1\<rparr>)))"

definition frames_shared :: "frames \<Rightarrow> nat" where
  "frames_shared s = length (filter (\<lambda>i. frames_bit s i \<and> frames_refs s i > 1) [0..<POOL_FRAMES])"

definition note_cow_copy :: "frames \<Rightarrow> frames" where
  "note_cow_copy s = s\<lparr>fr_cow_copies := fr_cow_copies s + 1\<rparr>"

definition note_cow_reuse :: "frames \<Rightarrow> frames" where
  "note_cow_reuse s = s\<lparr>fr_cow_reuses := fr_cow_reuses s + 1\<rparr>"

definition note_demand_fill :: "frames \<Rightarrow> frames" where
  "note_demand_fill s = s\<lparr>fr_demand_fills := fr_demand_fills s + 1\<rparr>"

definition frames_free_count :: "frames \<Rightarrow> nat" where
  "frames_free_count s = wsub 64 POOL_FRAMES (fr_used s)"

lemmas frames_ops = set_refs_def frames_set_bit_def frames_bit_def frames_refs_def
declare frames_ops [state_defs]

section \<open>Invariant\<close>

text \<open>
  A frame is marked in the bitmap exactly when it has an owner, and \<open>USED\<close> is the number of
  marked frames.
\<close>

definition frames_inv :: "frames \<Rightarrow> bool" where
  "frames_inv s \<longleftrightarrow>
     length (fr_bitmap s) = POOL_FRAMES div 8 \<and> length (fr_refs s) = POOL_FRAMES \<and>
     (\<forall>i<POOL_FRAMES. frames_bit s i \<longleftrightarrow> frames_refs s i \<noteq> 0) \<and>
     fr_used s = card {i \<in> {..<POOL_FRAMES}. frames_bit s i} \<and>
     fr_used s \<le> fr_peak s \<and> fr_peak s \<le> POOL_FRAMES"

definition frames_count :: "frames \<Rightarrow> nat \<Rightarrow> nat" where
  "frames_count s i = (if i < POOL_FRAMES then unat (frames_refs s i) else 0)"

definition frame_addr :: "nat \<Rightarrow> nat" where
  "frame_addr i = POOL_START + i * FRAME_SIZE"

lemma index_of_addr [simp]: "i < POOL_FRAMES \<Longrightarrow> index_of (frame_addr i) = Some i"
  by (simp add: index_of_def frame_addr_def)

lemma frame_addr_eq [simp]: "frame_addr i = frame_addr j \<longleftrightarrow> i = j"
  by (simp add: frame_addr_def)

lemma index_of_Some_less: "index_of phys = Some i \<Longrightarrow> i < POOL_FRAMES"
  by (auto simp: index_of_def Let_def split: if_splits)

lemma frames_inv_init: "frames_inv (frames_init mem)"
  by (simp add: frames_inv_def frames_init_def frames_ops)

lemma frames_bit_set:
  "length (fr_bitmap s) = POOL_FRAMES div 8 \<Longrightarrow> i < POOL_FRAMES \<Longrightarrow>
     frames_bit (frames_set_bit i v s) j = (if i = j then v else frames_bit s j)"
  by (simp add: frames_bit_def frames_set_bit_def bm_get_set)

lemma unat_255: "unat w = 255 \<Longrightarrow> w = (255 :: byte)"
proof -
  assume "unat w = 255"
  then have "unat w = unat (255 :: byte)" by simp
  then show ?thesis by (simp only: word_unat_eq_iff)
qed

lemma unat_inc: "w \<noteq> (255 :: byte) \<Longrightarrow> unat (w + 1) = unat w + 1"
proof -
  assume "w \<noteq> 255"
  then have "unat w \<noteq> 255" using unat_255 by blast
  moreover have "unat w < 256" using unsigned_less [of w, where 'a = nat] by simp
  ultimately show ?thesis by (simp add: unat_word_ariths)
qed

lemma unat_dec: "w \<noteq> (0 :: byte) \<Longrightarrow> unat (w - 1) = unat w - 1"
  by (metis unat_minus_one)

lemma byte_gt_1: "(1 :: byte) < w \<longleftrightarrow> 1 < unat w"
  by (simp add: word_less_nat_alt)

lemma frames_alloc_Some:
  assumes "frames_inv s" "frames_alloc s = Some (phys, s')"
  shows "\<exists>i. phys = frame_addr i \<and> i < POOL_FRAMES \<and> \<not> frames_bit s i \<and>
    (\<forall>j<i. frames_bit s j) \<and> frames_inv s' \<and>
    (\<forall>j. frames_bit s' j = (j = i \<or> frames_bit s j)) \<and>
    (\<forall>j. frames_refs s' j = (if j = i then 1 else frames_refs s j)) \<and>
    fr_mem s' = (\<lambda>a. if phys \<le> a \<and> a < phys + FRAME_SIZE then 0 else fr_mem s a)"
proof -
  obtain i where i: "find_slot (\<lambda>i. \<not> frames_bit s i) 0 POOL_FRAMES = Some i"
    using assms(2) by (cases "find_slot (\<lambda>i. \<not> frames_bit s i) 0 POOL_FRAMES")
      (simp_all add: frames_alloc_def)
  have phys: "phys = frame_addr i"
    using assms(2) i by (simp add: frames_alloc_def Let_def frame_addr_def)
  have s': "s' = (let s1 = set_refs i 1 (frames_set_bit i True s) in
       s1\<lparr>fr_used := fr_used s1 + 1, fr_peak := max (fr_peak s1) (fr_used s1 + 1),
          fr_mem := (\<lambda>a. if phys \<le> a \<and> a < phys + FRAME_SIZE then 0 else fr_mem s a)\<rparr>)"
    using assms(2) i by (auto simp: frames_alloc_def Let_def frames_ops)
  have i': "i < POOL_FRAMES" "\<not> frames_bit s i" "\<forall>j<i. frames_bit s j"
    using find_slot_Some [OF i] by auto
  have len: "length (fr_bitmap s) = POOL_FRAMES div 8" "length (fr_refs s) = POOL_FRAMES"
    using assms(1) by (auto simp: frames_inv_def)
  have bit: "\<forall>j. frames_bit s' j = (j = i \<or> frames_bit s j)"
    using len i' by (auto simp: s' Let_def frames_ops bm_get_set)
  have refs: "\<forall>j. frames_refs s' j = (if j = i then 1 else frames_refs s j)"
    using len i' by (auto simp: s' Let_def frames_ops)
  have "card {j \<in> {..<POOL_FRAMES}. frames_bit s' j} = card {j \<in> {..<POOL_FRAMES}. frames_bit s j} + 1"
    using card_filter_update [of "{..<POOL_FRAMES}" i "frames_bit s'" "frames_bit s"] i' bit by simp
  moreover have "card {j \<in> {..<POOL_FRAMES}. frames_bit s' j} \<le> POOL_FRAMES"
    by (rule order_trans [OF card_mono [of "{..<POOL_FRAMES}"]]) auto
  ultimately have "frames_inv s'"
    using assms(1) i' bit refs by (auto simp: frames_inv_def s' Let_def set_refs_def frames_set_bit_def)
  moreover have "fr_mem s' = (\<lambda>a. if phys \<le> a \<and> a < phys + FRAME_SIZE then 0 else fr_mem s a)"
    by (simp add: s' Let_def)
  ultimately show ?thesis using phys i' bit refs by blast
qed


lemma frames_alloc_None:
  "frames_alloc s = None \<longleftrightarrow> (\<forall>i<POOL_FRAMES. frames_bit s i)"
  using find_slot_None [of "\<lambda>i. \<not> frames_bit s i" 0 POOL_FRAMES]
  by (cases "find_slot (\<lambda>i. \<not> frames_bit s i) 0 POOL_FRAMES")
    (simp_all add: frames_alloc_def Let_def)

lemma frames_count_pos:
  "frames_inv s \<Longrightarrow> 0 < frames_count s i \<longleftrightarrow> i < POOL_FRAMES \<and> frames_bit s i"
  by (simp add: frames_inv_def frames_count_def unat_gt_0)

lemma set_refs_inv:
  assumes "frames_inv s" "i < POOL_FRAMES" "frames_bit s i" "v \<noteq> 0"
  shows "frames_inv (set_refs i v s)"
proof -
  have bit: "frames_bit (set_refs i v s) = frames_bit s"
    by (simp add: frames_ops fun_eq_iff)
  have refs: "frames_refs (set_refs i v s) j = (if j = i then v else frames_refs s j)" for j
    using assms(1,2) by (simp add: frames_ops frames_inv_def)
  show ?thesis using assms
    unfolding frames_inv_def bit refs by (simp add: set_refs_def)
qed

lemma frames_share_count:
  assumes "frames_inv s" "0 < frames_count s i" "frames_count s i < 255"
  shows "fst (frames_share (frame_addr i) s)"
    and "frames_inv (snd (frames_share (frame_addr i) s))"
    and "frames_count (snd (frames_share (frame_addr i) s)) j =
      (if j = i then frames_count s i + 1 else frames_count s j)"
proof -
  have i: "i < POOL_FRAMES" "frames_bit s i" using assms frames_count_pos by auto
  have ne: "frames_refs s i \<noteq> 0" "frames_refs s i \<noteq> 255"
    using assms i by (auto simp: frames_count_def)
  then have sh: "frames_share (frame_addr i) s = (True, set_refs i (frames_refs s i + 1) s)"
    using i by (simp add: frames_share_def Let_def)
  have "frames_refs s i + 1 \<noteq> 0" using unat_inc [OF ne(2)] by (metis add_is_0 one_neq_zero unat_0)
  with sh i assms(1) show "fst (frames_share (frame_addr i) s)"
    "frames_inv (snd (frames_share (frame_addr i) s))"
    by (simp_all add: set_refs_inv)
  have "length (fr_refs s) = POOL_FRAMES" using assms(1) by (simp add: frames_inv_def)
  then show "frames_count (snd (frames_share (frame_addr i) s)) j =
      (if j = i then frames_count s i + 1 else frames_count s j)"
    using i unat_inc [OF ne(2)] by (simp add: sh frames_count_def frames_ops)
qed

lemma frames_share_refused:
  "frames_inv s \<Longrightarrow> i < POOL_FRAMES \<Longrightarrow> frames_count s i = 0 \<or> frames_count s i = 255 \<Longrightarrow>
     frames_share (frame_addr i) s = (False, s)"
  using unat_255 [of "frames_refs s i"] by (auto simp: frames_share_def frames_count_def Let_def unat_eq_zero)

lemma frames_free_count_gen:
  assumes "frames_inv s" "0 < frames_count s i"
  shows "frames_inv (frames_free (frame_addr i) s)"
    and "frames_count (frames_free (frame_addr i) s) j =
      (if j = i then frames_count s i - 1 else frames_count s j)"
    and "frames_bit (frames_free (frame_addr i) s) j =
      (if j = i then 1 < frames_count s i else frames_bit s j)"
proof -
  have i: "i < POOL_FRAMES" "frames_bit s i" using assms frames_count_pos by auto
  have len: "length (fr_bitmap s) = POOL_FRAMES div 8" "length (fr_refs s) = POOL_FRAMES"
    using assms(1) by (auto simp: frames_inv_def)
  have ne: "frames_refs s i \<noteq> 0" using assms i by (auto simp: frames_count_def)
  have "frames_inv (frames_free (frame_addr i) s) \<and>
    frames_count (frames_free (frame_addr i) s) j =
      (if j = i then frames_count s i - 1 else frames_count s j) \<and>
    frames_bit (frames_free (frame_addr i) s) j =
      (if j = i then 1 < frames_count s i else frames_bit s j)"
  proof (cases "1 < frames_count s i")
    case True
    then have gt: "1 < frames_refs s i" using i by (simp add: frames_count_def byte_gt_1)
    then have fr: "frames_free (frame_addr i) s = set_refs i (frames_refs s i - 1) s"
      using i by (simp add: frames_free_def Let_def)
    have "frames_refs s i - 1 \<noteq> 0" using gt by auto
    with fr i assms(1) have inv: "frames_inv (frames_free (frame_addr i) s)"
      by (simp add: set_refs_inv)
    show ?thesis using inv fr i len unat_dec [OF ne] True
      by (simp add: frames_count_def frames_ops)
  next
    case False
    then have one: "frames_count s i = 1" using assms(2) by simp
    then have ngt: "\<not> 1 < frames_refs s i" using i by (simp add: frames_count_def byte_gt_1)
    define t where "t = frames_set_bit i False (set_refs i 0 s)"
    have fr: "frames_free (frame_addr i) s = t\<lparr>fr_used := wsub 64 (fr_used s) 1\<rparr>"
      using i ngt by (simp add: frames_free_def Let_def t_def frames_ops)
    have bit: "frames_bit (frames_free (frame_addr i) s) j = (j \<noteq> i \<and> frames_bit s j)" for j
      unfolding fr using len i by (auto simp: t_def frames_ops bm_get_set)
    have refs: "frames_refs (frames_free (frame_addr i) s) j = (if j = i then 0 else frames_refs s j)" for j
      unfolding fr using len i by (auto simp: t_def frames_ops)
    have "card {k \<in> {..<POOL_FRAMES}. frames_bit (frames_free (frame_addr i) s) k} + 1
        = card {k \<in> {..<POOL_FRAMES}. frames_bit s k}"
      using card_filter_update [of "{..<POOL_FRAMES}" i
          "frames_bit (frames_free (frame_addr i) s)" "frames_bit s"] i bit by simp
    moreover have "fr_used s \<le> POOL_FRAMES" using assms(1) by (simp add: frames_inv_def)
    ultimately have "frames_inv (frames_free (frame_addr i) s)"
      using assms(1) i bit refs
      by (auto simp: frames_inv_def fr t_def frames_ops wsub_le)
    then show ?thesis using bit refs one by (auto simp: frames_count_def)
  qed
  then show "frames_inv (frames_free (frame_addr i) s)"
    "frames_count (frames_free (frame_addr i) s) j =
      (if j = i then frames_count s i - 1 else frames_count s j)"
    "frames_bit (frames_free (frame_addr i) s) j =
      (if j = i then 1 < frames_count s i else frames_bit s j)" by auto
qed


section \<open>Interfaces provided\<close>

definition alloc_frame :: "frames \<Rightarrow> (nat \<times> frames) option" where
  \<comment> \<open>\<open>alloc\<close> with the frame's number for its address\<close>
  "alloc_frame s =
     (case frames_alloc s of None \<Rightarrow> None
      | Some (phys, s') \<Rightarrow> Some ((phys - POOL_START) div FRAME_SIZE, s'))"

lemma alloc_frame_Some:
  assumes "frames_inv s" "alloc_frame s = Some (i, s')"
  shows "i < POOL_FRAMES" "\<not> frames_bit s i" "\<forall>j<i. frames_bit s j" "frames_inv s'"
    "frames_bit s' j = (j = i \<or> frames_bit s j)"
proof -
  obtain phys where a: "frames_alloc s = Some (phys, s')" and i: "i = (phys - POOL_START) div FRAME_SIZE"
    using assms(2) by (auto simp: alloc_frame_def split: option.splits)
  obtain k where k: "phys = frame_addr k" "k < POOL_FRAMES" "\<not> frames_bit s k"
    "\<forall>j<k. frames_bit s j" "frames_inv s'" "\<forall>j. frames_bit s' j = (j = k \<or> frames_bit s j)"
    using frames_alloc_Some [OF assms(1) a] by blast
  then have "i = k" by (simp add: i frame_addr_def)
  with k show "i < POOL_FRAMES" "\<not> frames_bit s i" "\<forall>j<i. frames_bit s j" "frames_inv s'"
    "frames_bit s' j = (j = i \<or> frames_bit s j)" by blast+
qed

interpretation frame_pool: slot_pool frames_inv frames_bit "\<lambda>_. POOL_FRAMES"
  "\<lambda>s i. frames_count s i = 1" alloc_frame "\<lambda>i. frames_free (frame_addr i)"
proof
  show "\<And>s i s'. frames_inv s \<Longrightarrow> alloc_frame s = Some (i, s') \<Longrightarrow>
      i < POOL_FRAMES \<and> \<not> frames_bit s i \<and> (\<forall>j<i. frames_bit s j)"
    using alloc_frame_Some by blast
  show "\<And>s i s' j. frames_inv s \<Longrightarrow> alloc_frame s = Some (i, s') \<Longrightarrow> j < POOL_FRAMES \<Longrightarrow>
      frames_bit s' j = (j = i \<or> frames_bit s j)"
    using alloc_frame_Some by blast
  show "\<And>s i s'. frames_inv s \<Longrightarrow> alloc_frame s = Some (i, s') \<Longrightarrow>
      frames_inv s' \<and> POOL_FRAMES = POOL_FRAMES"
    using alloc_frame_Some by blast
  show "\<And>s. frames_inv s \<Longrightarrow> (alloc_frame s = None) = (\<forall>i<POOL_FRAMES. frames_bit s i)"
    by (simp add: frames_alloc_None [symmetric] alloc_frame_def split: option.split)
  show "\<And>s i j. frames_inv s \<Longrightarrow> frames_bit s i \<Longrightarrow> i < POOL_FRAMES \<Longrightarrow> frames_count s i = 1 \<Longrightarrow>
      j < POOL_FRAMES \<Longrightarrow> frames_bit (frames_free (frame_addr i) s) j = (j \<noteq> i \<and> frames_bit s j)"
    by (simp add: frames_free_count_gen)
  show "\<And>s i. frames_inv s \<Longrightarrow> frames_bit s i \<Longrightarrow> i < POOL_FRAMES \<Longrightarrow> frames_count s i = 1 \<Longrightarrow>
      frames_inv (frames_free (frame_addr i) s) \<and> POOL_FRAMES = POOL_FRAMES"
    by (simp add: frames_free_count_gen)
qed

interpretation frame_owners: ref_counted frames_inv frames_count 255
  "\<lambda>i s. snd (frames_share (frame_addr i) s)" "\<lambda>i. frames_free (frame_addr i)"
  by unfold_locales (simp_all add: frames_share_count frames_free_count_gen)

section \<open>Runs\<close>

datatype frame_op = FAlloc | FShare nat | FFree nat | FCowCopy | FCowReuse | FDemand

fun frame_step :: "frame_op \<Rightarrow> frames \<Rightarrow> frames" where
  "frame_step FAlloc s = (case frames_alloc s of None \<Rightarrow> s | Some (_, s') \<Rightarrow> s')"
| "frame_step (FShare phys) s = snd (frames_share phys s)"
| "frame_step (FFree phys) s = frames_free phys s"
| "frame_step FCowCopy s = note_cow_copy s"
| "frame_step FCowReuse s = note_cow_reuse s"
| "frame_step FDemand s = note_demand_fill s"

lemma frames_by_index:
  assumes "index_of phys = Some i"
  shows "frames_share phys = frames_share (frame_addr i)" "frames_free phys = frames_free (frame_addr i)"
  using assms index_of_Some_less [OF assms]
  by (rule_tac ext, simp add: frames_share_def frames_free_def)+

lemma frames_unowned:
  assumes "frames_inv s" "i < POOL_FRAMES" "\<not> 0 < frames_count s i"
  shows "snd (frames_share (frame_addr i) s) = s" "frames_free (frame_addr i) s = s"
proof -
  have nb: "\<not> frames_bit s i" using assms frames_count_pos [OF assms(1), of i] by simp
  with assms show "snd (frames_share (frame_addr i) s) = s" "frames_free (frame_addr i) s = s"
    by (simp_all add: frames_share_def frames_free_def Let_def)
qed

lemma frame_step_inv: "frames_inv s \<Longrightarrow> frames_inv (frame_step op s)"
proof (cases op)
  case FAlloc
  assume inv: "frames_inv s"
  show ?thesis
  proof (cases "frames_alloc s")
    case (Some r)
    obtain p s' where r: "r = (p, s')" by (cases r)
    have "frames_inv s'" using frames_alloc_Some [OF inv, of p s'] Some r by blast
    then show ?thesis using Some r FAlloc by simp
  qed (use inv FAlloc in simp)
next
  case (FShare phys)
  assume inv: "frames_inv s"
  show ?thesis
  proof (cases "index_of phys")
    case (Some i)
    have "frames_inv (snd (frames_share (frame_addr i) s))"
      using frames_share_count(2) [OF inv, of i] frames_share_refused [OF inv, of i]
        index_of_Some_less [OF Some] inv unsigned_less [of "frames_refs s i", where 'a = nat]
      by (cases "frames_count s i = 0 \<or> frames_count s i = 255")
        (auto simp: frames_count_def)
    then show ?thesis using FShare frames_by_index [OF Some] by simp
  qed (use inv FShare in \<open>simp add: frames_share_def\<close>)
next
  case (FFree phys)
  assume inv: "frames_inv s"
  show ?thesis
  proof (cases "index_of phys")
    case (Some i)
    then show ?thesis using FFree frames_by_index [OF Some] inv
        frames_free_count_gen(1) [OF inv, of i] frames_unowned [OF inv, of i] index_of_Some_less
      by (metis frame_step.simps(3))
  qed (use inv FFree in \<open>simp add: frames_free_def\<close>)
qed (simp_all add: frames_inv_def note_cow_copy_def note_cow_reuse_def note_demand_fill_def frames_ops)


lemma frame_run_inv: "frames_inv s \<Longrightarrow> frames_inv (fold frame_step ops s)"
  by (induction ops arbitrary: s) (simp_all add: frame_step_inv)

lemma frames_refcount_addr:
  "i < POOL_FRAMES \<Longrightarrow> frames_refcount (frame_addr i) s = of_nat (frames_count s i)"
  by (simp add: frames_refcount_def frames_count_def)

lemma frames_alloc_zero_first:
  "frames_alloc (frames_init mem) = Some (POOL_START, snd (the (frames_alloc (frames_init mem))))"
proof -
  have "find_slot (\<lambda>i. \<not> frames_bit (frames_init mem) i) 0 POOL_FRAMES = Some 0"
    by (rule find_slot_first) (simp_all add: frames_init_def frames_ops)
  then show ?thesis by (simp add: frames_alloc_def Let_def)
qed

section \<open>Properties\<close>

text \<open>
  Property C11. Whatever sequence of allocations, shares, releases and counter updates runs from the boot
  state, with any addresses, a frame is marked in the bitmap exactly when it has an owner, and
  \<open>used\<close> is the number of marked frames, at most \<open>peak\<close>, at most 4096.
\<close>

theorem frames_reachable_inv: "frames_inv (fold frame_step ops (frames_init mem))"
  by (rule frame_run_inv [OF frames_inv_init])

text \<open>
  A fresh frame is page-aligned inside the pool, belonged to nobody, has one owner afterwards, reads
  as zeroes in all its 4096 bytes, and its allocation changes no other frame's owners and no
  byte outside it: nothing of an earlier process is visible to the next one.
\<close>

theorem frames_alloc_isolates:
  assumes "frames_inv s" "frames_alloc s = Some (phys, s')"
  shows "POOL_START \<le> phys \<and> phys + FRAME_SIZE \<le> POOL_START + POOL_FRAMES * FRAME_SIZE \<and>
    phys mod FRAME_SIZE = 0 \<and>
    frames_refcount phys s = 0 \<and> frames_refcount phys s' = 1 \<and>
    (\<forall>a. phys \<le> a \<and> a < phys + FRAME_SIZE \<longrightarrow> fr_mem s' a = 0) \<and>
    (\<forall>a. a < phys \<or> phys + FRAME_SIZE \<le> a \<longrightarrow> fr_mem s' a = fr_mem s a) \<and>
    (\<forall>j. frame_addr j \<noteq> phys \<longrightarrow> frames_count s' j = frames_count s j)"
proof -
  obtain i where i: "phys = frame_addr i" "i < POOL_FRAMES" "\<not> frames_bit s i"
    and refs: "\<forall>j. frames_refs s' j = (if j = i then 1 else frames_refs s j)"
    and mem: "fr_mem s' = (\<lambda>a. if phys \<le> a \<and> a < phys + FRAME_SIZE then 0 else fr_mem s a)"
    using frames_alloc_Some [OF assms] by blast
  have "frames_count s i = 0" using i frames_count_pos [OF assms(1), of i] by simp
  moreover have "frames_count s' i = 1" using i refs by (simp add: frames_count_def)
  moreover have "frames_count s' j = frames_count s j" if "frame_addr j \<noteq> phys" for j
    using that refs i by (auto simp: frames_count_def)
  moreover have "POOL_START \<le> phys" "phys mod FRAME_SIZE = 0"
    "phys + FRAME_SIZE \<le> POOL_START + POOL_FRAMES * FRAME_SIZE"
    using i(2) by (simp_all add: i(1) frame_addr_def mod_add_left_eq [symmetric])
  ultimately show ?thesis using i by (simp add: frames_refcount_addr mem)
qed

theorem frames_alloc_isolates_witness:
  "frames_refcount POOL_START (snd (the (frames_alloc (frames_init (\<lambda>_. 7))))) = 1 \<and>
   fr_mem (snd (the (frames_alloc (frames_init (\<lambda>_. 7))))) (POOL_START + 4095) = 0"
  using frames_alloc_isolates [OF frames_inv_init frames_alloc_zero_first, of "\<lambda>_. 7"] by simp

text \<open>
  Copy-on-write life cycle: a frame that was allocated once and shared \<open>n\<close> times (\<open>n < 255\<close>)
  survives any \<open>n\<close> releases with the exact owner count, goes back to the pool with the release
  of its last owner and with none before, and no other frame is affected by any of it.
\<close>

theorem frames_last_owner_frees:
  assumes "frames_inv s" "frames_alloc s = Some (phys, s1)" "n < 255" "k \<le> n + 1"
  defines "t \<equiv> (frames_free phys ^^ k) (((\<lambda>u. snd (frames_share phys u)) ^^ n) s1)"
  shows "frames_inv t \<and> frames_refcount phys t = of_nat (n + 1 - k) \<and>
    (\<forall>i. frame_addr i = phys \<longrightarrow> frames_bit t i = (k \<le> n)) \<and>
    (\<forall>j. frame_addr j \<noteq> phys \<longrightarrow> frames_count t j = frames_count s j)"
proof -
  obtain i where i: "phys = frame_addr i" "i < POOL_FRAMES" and inv: "frames_inv s1"
    and refs: "\<forall>j. frames_refs s1 j = (if j = i then 1 else frames_refs s j)"
    using frames_alloc_Some [OF assms(1,2)] by blast
  have c1: "frames_count s1 j = (if j = i then 1 else frames_count s j)" for j
    using refs i by (simp add: frames_count_def)
  let ?u = "((\<lambda>u. snd (frames_share (frame_addr i) u)) ^^ n) s1"
  have u: "frames_inv ?u" "frames_count ?u j = (if j = i then n + 1 else frames_count s j)" for j
    using frame_owners.retain_n [OF inv, of i n] c1 assms(3) by auto
  have t: "frames_inv t" "frames_count t j = (if j = i then n + 1 - k else frames_count s j)" for j
    using frame_owners.release_n [OF u(1), of k i] u(2) assms(4) by (auto simp: t_def i(1))
  have "frames_bit t i = (k \<le> n)" using frames_count_pos [OF t(1), of i] t(2) i by auto
  with t i(2) show ?thesis unfolding i(1) by (simp add: frames_refcount_addr del: of_nat_add of_nat_diff)
qed

theorem frames_last_owner_frees_witness:
  "frames_refcount POOL_START
     ((frames_free POOL_START ^^ 2) (((\<lambda>u. snd (frames_share POOL_START u)) ^^ 2)
        (snd (the (frames_alloc (frames_init (\<lambda>_. 0))))))) = 1"
  using frames_last_owner_frees [OF frames_inv_init frames_alloc_zero_first, of 2 2 "\<lambda>_. 0"] by simp

end
