(* ===== verification/Pipe.thy ===== *)
theory Pipe imports Interfaces begin

text \<open>
  Pipes, \<^verbatim>\<open>kernel/src/level0a/core/pipe.rs\<close>: four in-kernel byte rings with counted read and
  write ends.  \<open>pipe_end\<close> is the struct \<open>Pipe\<close>, \<open>pipes\<close> the statics \<open>PIPES\<close> and \<open>BUFFERS\<close>.
  The positions \<open>head\<close> and \<open>tail\<close> run modulo \<open>PIPE_CAPACITY + 1\<close> while the buffer is indexed
  modulo \<open>PIPE_CAPACITY\<close>; the model keeps both moduli as the code has them.
\<close>

section \<open>State\<close>

abbreviation (input) MAX_PIPES :: nat where "MAX_PIPES \<equiv> 4"
abbreviation (input) PIPE_CAPACITY :: nat where "PIPE_CAPACITY \<equiv> 1024"

record pipe_state =
  p_used :: bool
  p_head :: nat
  p_tail :: nat
  p_writers :: nat
  p_readers :: nat

definition pipe_new :: pipe_state where
  "pipe_new = \<lparr>p_used = False, p_head = 0, p_tail = 0, p_writers = 0, p_readers = 0\<rparr>"

record pipes =
  pipe_tab :: "pipe_state list"
  pipe_bufs :: "byte list"

definition pipes_init :: pipes where
  "pipes_init = \<lparr>pipe_tab = replicate MAX_PIPES pipe_new,
                 pipe_bufs = replicate (MAX_PIPES * PIPE_CAPACITY) 0\<rparr>"

abbreviation pipe_at :: "pipes \<Rightarrow> nat \<Rightarrow> pipe_state" where
  "pipe_at s i \<equiv> pipe_tab s ! i"

definition set_pipe :: "nat \<Rightarrow> pipe_state \<Rightarrow> pipes \<Rightarrow> pipes" where
  "set_pipe i p s = s\<lparr>pipe_tab := (pipe_tab s)[i := p]\<rparr>"

section \<open>Operations\<close>

definition pipe_create :: "pipes \<Rightarrow> (nat \<times> pipes) option" where
  "pipe_create s =
     (case find_slot (\<lambda>i. \<not> p_used (pipe_at s i)) 0 MAX_PIPES of
        None \<Rightarrow> None
      | Some i \<Rightarrow>
          Some (i, set_pipe i \<lparr>p_used = True, p_head = 0, p_tail = 0, p_writers = 1, p_readers = 1\<rparr> s))"

text \<open>\<open>info\<close> subtracts with \<open>wrapping_sub\<close> at the width \<open>w\<close> of a \<open>usize\<close>.\<close>

definition pipe_info :: "nat \<Rightarrow> nat \<Rightarrow> pipes \<Rightarrow> (nat \<times> nat \<times> nat) option" where
  "pipe_info w index s =
     (if index \<ge> MAX_PIPES then None
      else (let pipe = pipe_at s index in
            if \<not> p_used pipe then None
            else Some (wsub w (p_head pipe) (p_tail pipe) mod (PIPE_CAPACITY + 1),
                       p_writers pipe, p_readers pipe)))"

fun pipe_write_loop :: "nat \<Rightarrow> nat \<Rightarrow> byte list \<Rightarrow> nat \<Rightarrow> nat \<Rightarrow> byte list \<Rightarrow> nat \<times> nat \<times> byte list" where
  "pipe_write_loop index tail [] head written bufs = (head, written, bufs)"
| "pipe_write_loop index tail (b # bytes) head written bufs =
     (let next = (head + 1) mod (PIPE_CAPACITY + 1) in
      if next = tail then (head, written, bufs)
      else pipe_write_loop index tail bytes next (written + 1)
             (bufs[index * PIPE_CAPACITY + head mod PIPE_CAPACITY := b]))"

definition pipe_write :: "nat \<Rightarrow> byte list \<Rightarrow> pipes \<Rightarrow> nat \<times> pipes" where
  "pipe_write index bytes s =
     (if index \<ge> MAX_PIPES \<or> \<not> p_used (pipe_at s index) then (0, s)
      else if p_readers (pipe_at s index) = 0 then (0, s)
      else (let pipe = pipe_at s index;
                (head, written, bufs) =
                  pipe_write_loop index (p_tail pipe) bytes (p_head pipe) 0 (pipe_bufs s)
            in (written, (set_pipe index (pipe\<lparr>p_head := head\<rparr>) s)\<lparr>pipe_bufs := bufs\<rparr>)))"

text \<open>\<open>room\<close> is \<open>out.len() - read\<close>, the part of the caller's buffer still to fill.\<close>

fun pipe_read_loop :: "nat \<Rightarrow> nat \<Rightarrow> byte list \<Rightarrow> nat \<Rightarrow> nat \<Rightarrow> nat \<times> byte list" where
  "pipe_read_loop index head bufs tail 0 = (tail, [])"
| "pipe_read_loop index head bufs tail (Suc room) =
     (if tail = head then (tail, [])
      else (let b = bufs ! (index * PIPE_CAPACITY + tail mod PIPE_CAPACITY);
                (tail', out) = pipe_read_loop index head bufs ((tail + 1) mod (PIPE_CAPACITY + 1)) room
            in (tail', b # out)))"

text \<open>The bytes delivered; their number is the value \<open>read\<close> returns.\<close>

definition pipe_read :: "nat \<Rightarrow> nat \<Rightarrow> pipes \<Rightarrow> byte list \<times> pipes" where
  "pipe_read index out_len s =
     (if index \<ge> MAX_PIPES \<or> \<not> p_used (pipe_at s index) then ([], s)
      else (let pipe = pipe_at s index;
                (tail, out) = pipe_read_loop index (p_head pipe) (pipe_bufs s) (p_tail pipe) out_len
            in (out, set_pipe index (pipe\<lparr>p_tail := tail\<rparr>) s)))"

definition pipe_close_end :: "nat \<Rightarrow> bool \<Rightarrow> pipes \<Rightarrow> pipes" where
  "pipe_close_end index writer s =
     (if index \<ge> MAX_PIPES \<or> \<not> p_used (pipe_at s index) then s
      else (let pipe = pipe_at s index;
                pipe = (if writer
                        then (if p_writers pipe > 0 then pipe\<lparr>p_writers := p_writers pipe - 1\<rparr> else pipe)
                        else (if p_readers pipe > 0 then pipe\<lparr>p_readers := p_readers pipe - 1\<rparr> else pipe));
                pipe = (if p_writers pipe = 0 \<and> p_readers pipe = 0 then pipe\<lparr>p_used := False\<rparr> else pipe)
            in set_pipe index pipe s))"

definition pipe_add_ref :: "nat \<Rightarrow> bool \<Rightarrow> pipes \<Rightarrow> pipes" where
  "pipe_add_ref index writer s =
     (if index \<ge> MAX_PIPES \<or> \<not> p_used (pipe_at s index) then s
      else (let pipe = pipe_at s index in
            set_pipe index
              (if writer then pipe\<lparr>p_writers := p_writers pipe + 1\<rparr>
               else pipe\<lparr>p_readers := p_readers pipe + 1\<rparr>) s))"

definition pipe_open_count :: "pipes \<Rightarrow> nat" where
  "pipe_open_count s = length (filter p_used (pipe_tab s))"

section \<open>Invariant and abstraction\<close>

definition pipe_ok :: "pipe_state \<Rightarrow> bool" where
  "pipe_ok p \<longleftrightarrow> p_head p \<le> PIPE_CAPACITY \<and> p_tail p \<le> PIPE_CAPACITY \<and>
     (p_used p \<longleftrightarrow> 0 < p_writers p \<or> 0 < p_readers p)"

definition pipes_inv :: "pipes \<Rightarrow> bool" where
  "pipes_inv s \<longleftrightarrow> length (pipe_tab s) = MAX_PIPES \<and>
     length (pipe_bufs s) = MAX_PIPES * PIPE_CAPACITY \<and> (\<forall>i<MAX_PIPES. pipe_ok (pipe_at s i))"

text \<open>The number of bytes waiting, and the bytes a reader would get.\<close>

definition pipe_len :: "pipe_state \<Rightarrow> nat" where
  "pipe_len p = (p_head p + (PIPE_CAPACITY + 1) - p_tail p) mod (PIPE_CAPACITY + 1)"

definition ring_cell :: "nat \<Rightarrow> nat \<Rightarrow> nat \<Rightarrow> nat" where
  "ring_cell index tail k = index * PIPE_CAPACITY + ((tail + k) mod (PIPE_CAPACITY + 1)) mod PIPE_CAPACITY"

definition pipe_content :: "pipes \<Rightarrow> nat \<Rightarrow> byte list" where
  "pipe_content s i =
     map (\<lambda>k. pipe_bufs s ! ring_cell i (p_tail (pipe_at s i)) k) [0..<pipe_len (pipe_at s i)]"

lemma pipe_content_length [simp]: "length (pipe_content s i) = pipe_len (pipe_at s i)"
  by (simp add: pipe_content_def)

lemma pipe_content_nth: "k < pipe_len (pipe_at s i) \<Longrightarrow>
    pipe_content s i ! k = pipe_bufs s ! ring_cell i (p_tail (pipe_at s i)) k"
  by (simp add: pipe_content_def)

lemma pipes_inv_init: "pipes_inv pipes_init"
  by (simp add: pipes_inv_def pipes_init_def pipe_ok_def pipe_new_def)

lemma pipe_at_set: "i < length (pipe_tab s) \<Longrightarrow> pipe_at (set_pipe i p s) j = (if i = j then p else pipe_at s j)"
  by (simp add: set_pipe_def)

lemma set_pipe_inv: "pipes_inv s \<Longrightarrow> i < MAX_PIPES \<Longrightarrow> pipe_ok p \<Longrightarrow> pipes_inv (set_pipe i p s)"
  by (auto simp: pipes_inv_def set_pipe_def nth_list_update)


section \<open>The two loops\<close>

lemma ring_len_if:
  "h \<le> 1024 \<Longrightarrow> t \<le> 1024 \<Longrightarrow>
     (h + 1025 - t) mod 1025 = (if t \<le> h then h - t else h + 1025 - t)" for h t :: nat
  by (auto simp: le_mod_geq)

lemma ring_len_top: "t \<le> 1024 \<Longrightarrow> (2049 - t) mod 1025 = 1024 - t" for t :: nat
  by (simp add: le_mod_geq)

lemma ring_len_tail: "h \<le> 1024 \<Longrightarrow> t < 1024 \<Longrightarrow>
    (1024 + h - t) mod 1025 = (if t < h then h - Suc t else 1024 + h - t)" for h t :: nat
  by (auto simp: le_mod_geq)

lemma ring_step_if: "h \<le> 1024 \<Longrightarrow> Suc h mod 1025 = (if h = 1024 then 0 else Suc h)"
  by auto

lemma ring_step_le: "Suc h mod 1025 \<le> 1024"
  using mod_less_divisor [of 1025 "Suc h"] by linarith

lemma ring_cell_step: "ring_cell i (Suc h mod 1025) k = ring_cell i h (Suc k)"
proof -
  have "(Suc h mod 1025 + k) mod 1025 = (Suc h + k) mod 1025" by (rule mod_add_left_eq)
  then show ?thesis by (simp add: ring_cell_def)
qed

lemma ring_cell_less: "i < MAX_PIPES \<Longrightarrow> ring_cell i h k < MAX_PIPES * PIPE_CAPACITY"
proof -
  assume "i < MAX_PIPES"
  moreover have "((h + k) mod 1025) mod 1024 < (1024 :: nat)" by simp
  ultimately show ?thesis unfolding ring_cell_def by linarith
qed

lemma ring_full:
  "h \<le> 1024 \<Longrightarrow> t \<le> 1024 \<Longrightarrow> Suc h mod 1025 = t \<longleftrightarrow> (h + 1025 - t) mod 1025 = (1024 :: nat)"
  by (cases "h = 1024") (auto simp: ring_len_if ring_len_top ring_step_if)

lemma ring_len_step:
  "h \<le> 1024 \<Longrightarrow> t \<le> 1024 \<Longrightarrow> Suc h mod 1025 \<noteq> t \<Longrightarrow>
     (Suc h mod 1025 + 1025 - t) mod 1025 = Suc ((h + 1025 - t) mod 1025)"
proof (cases "h = 1024")
  case False
  assume "h \<le> 1024" "t \<le> 1024" "Suc h mod 1025 \<noteq> t"
  with False show ?thesis using ring_len_if [of h t] ring_len_if [of "Suc h" t]
    by (auto split: if_splits)
qed (auto simp: ring_len_if ring_len_top)

lemma pipe_write_loop_result:
  assumes "pipe_write_loop i t bs h w bufs = (h', w', bufs')"
    and "h \<le> 1024" "t \<le> 1024" "i < MAX_PIPES" "length bufs = MAX_PIPES * PIPE_CAPACITY"
    and "n = min (length bs) (1024 - (h + 1025 - t) mod 1025)"
  shows "w' = w + n \<and> h' = (h + n) mod 1025 \<and> length bufs' = length bufs \<and>
    (\<forall>c. (\<forall>k<n. ring_cell i h k \<noteq> c) \<longrightarrow> bufs' ! c = bufs ! c) \<and>
    (\<forall>k<n. (\<forall>k'. k < k' \<and> k' < n \<longrightarrow> ring_cell i h k' \<noteq> ring_cell i h k) \<longrightarrow>
       bufs' ! ring_cell i h k = bs ! k)"
  using assms
proof (induction bs arbitrary: h w bufs n)
  case Nil
  then show ?case by simp
next
  case (Cons b bs)
  show ?case
  proof (cases "Suc h mod 1025 = t")
    case True
    then show ?thesis using Cons.prems ring_full [of h t] by simp
  next
    case False
    define m where "m = min (length bs) (1024 - (Suc h mod 1025 + 1025 - t) mod 1025)"
    let ?n = "Suc h mod 1025" and ?c = "ring_cell i h 0"
    have "ring_cell i h 0 = i * 1024 + h mod 1024" using Cons.prems(2) by (simp add: ring_cell_def)
    then have w: "pipe_write_loop i t bs ?n (Suc w) (bufs[?c := b]) = (h', w', bufs')"
      using Cons.prems(1) False by simp
    have lt: "(h + 1025 - t) mod 1025 < 1024"
      using ring_full [OF Cons.prems(2,3)] False mod_less_divisor [of 1025 "h + 1025 - t"] by linarith
    then have "1024 - (h + 1025 - t) mod 1025 = Suc (1023 - (h + 1025 - t) mod 1025)" by arith
    then have n: "n = Suc m"
      using ring_len_step [OF Cons.prems(2,3) False] by (simp add: Cons.prems(6) m_def)
    have IH: "w' = Suc w + m" "h' = (?n + m) mod 1025" "length bufs' = length (bufs[?c := b])"
      "\<And>c. (\<forall>k<m. ring_cell i ?n k \<noteq> c) \<Longrightarrow> bufs' ! c = bufs[?c := b] ! c"
      "\<And>k. k < m \<Longrightarrow> (\<forall>k'. k < k' \<and> k' < m \<longrightarrow> ring_cell i ?n k' \<noteq> ring_cell i ?n k) \<Longrightarrow>
         bufs' ! ring_cell i ?n k = bs ! k"
      using Cons.IH [OF w ring_step_le Cons.prems(3,4) _ m_def] Cons.prems(5) by auto
    have c: "?c < length bufs" using ring_cell_less [OF Cons.prems(4)] Cons.prems(5) by simp
    have old: "bufs' ! c = bufs ! c" if "\<forall>k<n. ring_cell i h k \<noteq> c" for c
      using IH(4) [of c] that by (auto simp: n ring_cell_step)
    have new: "bufs' ! ring_cell i h k = (b # bs) ! k"
      if "k < n" "\<forall>k'. k < k' \<and> k' < n \<longrightarrow> ring_cell i h k' \<noteq> ring_cell i h k" for k
    proof (cases k)
      case 0
      then show ?thesis using IH(4) [of ?c] that c by (auto simp: n ring_cell_step)
    next
      case (Suc j)
      then show ?thesis using IH(5) [of j] that by (auto simp: n ring_cell_step)
    qed
    have "h' = (h + n) mod 1025" unfolding IH(2) n by (subst mod_add_left_eq) simp
    with IH(1,3) old new show ?thesis by (simp add: n)
  qed
qed

lemma pipe_read_loop_result:
  assumes "pipe_read_loop i h bufs t m = (t', out)" "h \<le> 1024" "t \<le> 1024"
    and "n = min m ((h + 1025 - t) mod 1025)"
  shows "t' = (t + n) mod 1025 \<and> out = map (\<lambda>k. bufs ! ring_cell i t k) [0..<n]"
  using assms
proof (induction m arbitrary: t t' out n)
  case 0
  then show ?case by simp
next
  case (Suc m)
  show ?case
  proof (cases "t = h")
    case True
    then show ?thesis using Suc.prems by simp
  next
    case False
    define k where "k = min m ((h + 1025 - Suc t mod 1025) mod 1025)"
    obtain out' where r: "pipe_read_loop i h bufs (Suc t mod 1025) m = (t', out')"
      and out: "out = bufs ! (i * 1024 + t mod 1024) # out'"
      using Suc.prems(1) False by (auto split: prod.splits)
    have "(h + 1025 - t) mod 1025 = Suc ((h + 1025 - Suc t mod 1025) mod 1025)"
      using False Suc.prems(2,3) by (cases "t = 1024") (auto simp: ring_len_if ring_len_tail)
    then have n: "n = Suc k" by (simp add: Suc.prems(4) k_def)
    have IH: "t' = (Suc t mod 1025 + k) mod 1025"
      "out' = map (\<lambda>j. bufs ! ring_cell i (Suc t mod 1025) j) [0..<k]"
      using Suc.IH [OF r Suc.prems(2) ring_step_le k_def] by auto
    have "t' = (t + n) mod 1025" unfolding IH(1) n by (subst mod_add_left_eq) simp
    moreover have "ring_cell i t 0 = i * 1024 + t mod 1024"
      using Suc.prems(3) by (simp add: ring_cell_def)
    ultimately show ?thesis
      by (simp add: out IH(2) n ring_cell_step upt_conv_Cons map_Suc_upt [symmetric] del: upt_Suc)
  qed
qed


section \<open>The operations\<close>

lemma pipe_len_le: "pipe_len p \<le> PIPE_CAPACITY"
  using mod_less_divisor [of 1025 "p_head p + 1025 - p_tail p"] by (simp add: pipe_len_def)

lemma pipes_inv_at: "pipes_inv s \<Longrightarrow> i < MAX_PIPES \<Longrightarrow> pipe_ok (pipe_at s i)"
  by (simp add: pipes_inv_def)

lemma ring_len_add:
  "h \<le> 1024 \<Longrightarrow> t \<le> 1024 \<Longrightarrow> n \<le> 1024 - (h + 1025 - t) mod 1025 \<Longrightarrow>
     ((h + n) mod 1025 + 1025 - t) mod 1025 = (h + 1025 - t) mod 1025 + n" for h t n :: nat
proof -
  assume a: "h \<le> 1024" "t \<le> 1024" "n \<le> 1024 - (h + 1025 - t) mod 1025"
  have m: "(h + n) mod 1025 = (if h + n \<le> 1024 then h + n else h + n - 1025)"
    using a by (auto simp: le_mod_geq)
  show ?thesis
    using a by (subst ring_len_if) (auto simp: m ring_len_if split: if_splits)
qed

lemma ring_len_sub:
  "h \<le> 1024 \<Longrightarrow> t \<le> 1024 \<Longrightarrow> n \<le> (h + 1025 - t) mod 1025 \<Longrightarrow>
     (h + 1025 - (t + n) mod 1025) mod 1025 = (h + 1025 - t) mod 1025 - n" for h t n :: nat
proof -
  assume a: "h \<le> 1024" "t \<le> 1024" "n \<le> (h + 1025 - t) mod 1025"
  have l: "n \<le> (if t \<le> h then h - t else h + 1025 - t)" using a ring_len_if by auto
  then have m: "(t + n) mod 1025 = (if t + n \<le> 1024 then t + n else t + n - 1025)"
    using a(1,2) by (auto simp: le_mod_geq split: if_splits)
  then have "(t + n) mod 1025 \<le> 1024" using l a(1,2) by (auto split: if_splits)
  then show ?thesis
    using a(1,2) l by (subst ring_len_if) (auto simp: m ring_len_if split: if_splits)
qed

text \<open>How a write to an open pipe with a reader changes the pipe and its cells.\<close>

lemma pipe_write_result:
  assumes "pipes_inv s" "i < MAX_PIPES" "p_used (pipe_at s i)" "0 < p_readers (pipe_at s i)"
    and "pipe_write i bs s = (w, s')"
  defines "p \<equiv> pipe_at s i"
  shows "w = min (length bs) (PIPE_CAPACITY - pipe_len p)"
    and "pipe_at s' i = p\<lparr>p_head := (p_head p + w) mod 1025\<rparr>"
    and "j \<noteq> i \<Longrightarrow> pipe_at s' j = pipe_at s j"
    and "\<forall>k<w. ring_cell i (p_head p) k \<noteq> c \<Longrightarrow> pipe_bufs s' ! c = pipe_bufs s ! c"
    and "k < w \<Longrightarrow> \<forall>k'. k < k' \<and> k' < w \<longrightarrow> ring_cell i (p_head p) k' \<noteq> ring_cell i (p_head p) k \<Longrightarrow>
      pipe_bufs s' ! ring_cell i (p_head p) k = bs ! k"
    and "pipes_inv s'"
proof -
  obtain h bufs where l: "pipe_write_loop i (p_tail p) bs (p_head p) 0 (pipe_bufs s) = (h, w, bufs)"
    and s': "s' = (set_pipe i (p\<lparr>p_head := h\<rparr>) s)\<lparr>pipe_bufs := bufs\<rparr>"
    using assms(2-5) by (auto simp: pipe_write_def p_def Let_def split: prod.splits)
  have ok: "pipe_ok p" unfolding p_def by (rule pipes_inv_at [OF assms(1,2)])
  then have b: "p_head p \<le> 1024" "p_tail p \<le> 1024" by (auto simp: pipe_ok_def)
  have len: "length (pipe_tab s) = MAX_PIPES" "length (pipe_bufs s) = MAX_PIPES * PIPE_CAPACITY"
    using assms(1) by (auto simp: pipes_inv_def)
  note r = pipe_write_loop_result [OF l b assms(2) len(2) refl]
  show w: "w = min (length bs) (PIPE_CAPACITY - pipe_len p)" using r by (simp add: pipe_len_def)
  have h: "h = (p_head p + w) mod 1025" using r by simp
  show "pipe_at s' i = p\<lparr>p_head := (p_head p + w) mod 1025\<rparr>"
    using assms(2) len by (simp add: s' h set_pipe_def)
  show "pipe_at s' j = pipe_at s j" if "j \<noteq> i" using that by (simp add: s' set_pipe_def)
  show "pipe_bufs s' ! c = pipe_bufs s ! c" if "\<forall>k<w. ring_cell i (p_head p) k \<noteq> c"
    using that r by (simp add: s')
  show "pipe_bufs s' ! ring_cell i (p_head p) k = bs ! k"
    if "k < w" "\<forall>k'. k < k' \<and> k' < w \<longrightarrow> ring_cell i (p_head p) k' \<noteq> ring_cell i (p_head p) k"
    using that r by (simp add: s')
  have "h \<le> 1024" using h mod_less_divisor [of 1025 "p_head p + w"] by simp
  then have "pipe_ok (p\<lparr>p_head := h\<rparr>)" using ok by (simp add: pipe_ok_def)
  then have "pipes_inv (set_pipe i (p\<lparr>p_head := h\<rparr>) s)" by (rule set_pipe_inv [OF assms(1,2)])
  then show "pipes_inv s'" using r len by (simp add: s' pipes_inv_def set_pipe_def)
qed

lemma take_upt_min: "take m [0..<n] = [0..<min m n]"
  by (rule nth_equalityI) auto

lemma pipe_read_result:
  assumes "pipes_inv s" "i < MAX_PIPES" "p_used (pipe_at s i)" "pipe_read i m s = (out, s')"
  defines "p \<equiv> pipe_at s i"
  shows "out = take m (pipe_content s i)"
    and "pipe_at s' i = p\<lparr>p_tail := (p_tail p + length out) mod 1025\<rparr>"
    and "j \<noteq> i \<Longrightarrow> pipe_at s' j = pipe_at s j" and "pipe_bufs s' = pipe_bufs s"
    and "pipe_content s' i = drop m (pipe_content s i)" and "pipes_inv s'"
proof -
  obtain t where l: "pipe_read_loop i (p_head p) (pipe_bufs s) (p_tail p) m = (t, out)"
    and s': "s' = set_pipe i (p\<lparr>p_tail := t\<rparr>) s"
    using assms(2-4) by (auto simp: pipe_read_def p_def Let_def split: prod.splits)
  have ok: "pipe_ok p" unfolding p_def by (rule pipes_inv_at [OF assms(1,2)])
  then have b: "p_head p \<le> 1024" "p_tail p \<le> 1024" by (auto simp: pipe_ok_def)
  have len: "length (pipe_tab s) = MAX_PIPES" using assms(1) by (auto simp: pipes_inv_def)
  define n where "n = min m (pipe_len p)"
  have r: "t = (p_tail p + n) mod 1025"
    "out = map (\<lambda>k. pipe_bufs s ! ring_cell i (p_tail p) k) [0..<n]"
    using pipe_read_loop_result [OF l b, of n] by (auto simp: n_def pipe_len_def)
  show "out = take m (pipe_content s i)"
    by (simp add: r(2) n_def pipe_content_def p_def take_map take_upt_min)
  show at: "pipe_at s' i = p\<lparr>p_tail := (p_tail p + length out) mod 1025\<rparr>"
    using assms(2) len by (simp add: s' r set_pipe_def)
  show "pipe_at s' j = pipe_at s j" if "j \<noteq> i" using that by (simp add: s' set_pipe_def)
  show bufs: "pipe_bufs s' = pipe_bufs s" by (simp add: s' set_pipe_def)
  have "pipe_len (pipe_at s' i) = pipe_len p - n"
    using ring_len_sub [OF b, of n] by (simp add: at r(2) pipe_len_def n_def)
  moreover have "ring_cell i ((p_tail p + n) mod 1025) k = ring_cell i (p_tail p) (n + k)" for k
    unfolding ring_cell_def by (simp add: mod_add_left_eq [of "p_tail p + n" 1025 k, simplified] add.assoc)
  moreover have "drop m (map f [0..<pipe_len p]) = map (\<lambda>k. f (n + k)) [0..<pipe_len p - n]" for f :: "nat \<Rightarrow> byte"
    by (rule nth_equalityI) (auto simp: n_def min_def)
  ultimately show "pipe_content s' i = drop m (pipe_content s i)"
    by (simp add: pipe_content_def at bufs r(2) flip: p_def)
  have "t \<le> 1024" using r(1) mod_less_divisor [of 1025 "p_tail p + n"] by simp
  then show "pipes_inv s'" using ok set_pipe_inv [OF assms(1,2)] by (simp add: s' pipe_ok_def)
qed


section \<open>First in, first out, as far as the ring does not wrap\<close>

lemma ring_cell_flat: "t + k \<le> 1024 \<Longrightarrow> ring_cell i t k = i * 1024 + (t + k) mod 1024"
  by (simp add: ring_cell_def)

lemma ring_cell_inj:
  assumes "ring_cell i t a = ring_cell i t b" "a < b" "t + b \<le> 1024"
  shows "t = 0 \<and> a = 0 \<and> b = 1024"
proof -
  have "(t + a) mod 1024 = (t + b) mod 1024" using assms by (simp add: ring_cell_flat)
  moreover have "(t + a) mod 1024 = t + a" using assms(2,3) by simp
  ultimately show ?thesis using assms(2,3) by (cases "t + b = 1024") auto
qed

lemma pipe_write_content:
  assumes "pipes_inv s" "i < MAX_PIPES" "p_used (pipe_at s i)" "0 < p_readers (pipe_at s i)"
    and "pipe_write i bs s = (w, s')"
    and "p_tail (pipe_at s i) + pipe_len (pipe_at s i) + w \<le> 1025"
  shows "pipe_content s' i = pipe_content s i @ take w bs"
proof -
  define p where "p = pipe_at s i"
  note r = pipe_write_result [OF assms(1-5), folded p_def]
  have b: "p_head p \<le> 1024" "p_tail p \<le> 1024"
    using pipes_inv_at [OF assms(1,2)] by (auto simp: pipe_ok_def p_def)
  have w: "w \<le> 1024 - pipe_len p" "w \<le> length bs" using r(1) by auto
  have flat: "p_tail p + pipe_len p + w \<le> 1025" using assms(6) by (simp add: p_def)
  have len': "pipe_len (pipe_at s' i) = pipe_len p + w"
    using ring_len_add [OF b, of w] w(1) by (simp add: r(2) pipe_len_def)
  have hd: "(p_tail p + pipe_len p) mod 1025 = p_head p"
    using b by (auto simp: pipe_len_def ring_len_if)
  have cell: "ring_cell i (p_head p) k = ring_cell i (p_tail p) (pipe_len p + k)" for k
  proof -
    have "(p_head p + k) mod 1025 = (p_tail p + (pipe_len p + k)) mod 1025"
      unfolding hd [symmetric] by (subst mod_add_left_eq) (simp add: add.assoc)
    then show ?thesis by (simp add: ring_cell_def)
  qed
  have ne: "ring_cell i (p_tail p) a \<noteq> ring_cell i (p_tail p) b" if "a < b" "b < pipe_len p + w" for a b
    using ring_cell_inj [of i "p_tail p" a b] that flat w(1) pipe_len_le [of p] by auto
  have old: "pipe_bufs s' ! ring_cell i (p_tail p) k = pipe_bufs s ! ring_cell i (p_tail p) k"
    if "k < pipe_len p" for k
  proof (rule r(4), intro allI impI)
    fix k' assume "k' < w"
    then show "ring_cell i (p_head p) k' \<noteq> ring_cell i (p_tail p) k"
      using ne [of k "pipe_len p + k'"] that by (simp add: cell)
  qed
  have new: "pipe_bufs s' ! ring_cell i (p_tail p) (pipe_len p + k) = bs ! k" if "k < w" for k
  proof -
    have "ring_cell i (p_head p) k' \<noteq> ring_cell i (p_head p) k" if "k < k'" "k' < w" for k'
      using ne [of "pipe_len p + k" "pipe_len p + k'"] that by (simp add: cell)
    then show ?thesis using r(5) [OF that] by (simp add: cell)
  qed
  show ?thesis
  proof (rule nth_equalityI)
    show "length (pipe_content s' i) = length (pipe_content s i @ take w bs)"
      using w(2) by (simp add: len' flip: p_def)
    fix k assume "k < length (pipe_content s' i)"
    then have k: "k < pipe_len p + w" by (simp add: len')
    then have nth': "pipe_content s' i ! k = pipe_bufs s' ! ring_cell i (p_tail p) k"
      using len' by (simp add: pipe_content_nth r(2))
    show "pipe_content s' i ! k = (pipe_content s i @ take w bs) ! k"
    proof (cases "k < pipe_len p")
      case True
      then show ?thesis using old [OF True]
        by (simp add: nth' nth_append pipe_content_nth flip: p_def)
    next
      case False
      then obtain j where j: "k = pipe_len p + j" using le_Suc_ex not_less by blast
      then show ?thesis using new [of j] k nth' unfolding j by (simp add: nth_append flip: p_def)
    qed
  qed
qed

text \<open>
  Once the bytes waiting reach past position 1024, positions 1024 and 0 share one cell: the
  byte written last is read twice.
\<close>

lemma pipe_wrapped_cells:
  assumes "t \<le> 1024" "1025 < t + n"
  shows "ring_cell i t (1024 - t) = ring_cell i t (1025 - t)" "1025 - t < n"
  using assms by (auto simp: ring_cell_def)

lemma pipe_wrapped_content:
  assumes "pipes_inv s" "i < MAX_PIPES" "1025 < p_tail (pipe_at s i) + pipe_len (pipe_at s i)"
  shows "pipe_content s i ! (1024 - p_tail (pipe_at s i)) = pipe_content s i ! (1025 - p_tail (pipe_at s i))"
proof -
  have "p_tail (pipe_at s i) \<le> 1024" using pipes_inv_at [OF assms(1,2)] by (simp add: pipe_ok_def)
  then show ?thesis
    using pipe_wrapped_cells(1) [OF _ assms(3)] pipe_wrapped_cells(2) [OF _ assms(3)] assms(3)
    by (simp add: pipe_content_nth)
qed

lemma pipe_create_Some:
  assumes "pipes_inv s" "pipe_create s = Some (i, s')"
  shows "i < MAX_PIPES \<and> \<not> p_used (pipe_at s i) \<and> (\<forall>j<i. p_used (pipe_at s j)) \<and> pipes_inv s' \<and>
    pipe_at s' i = \<lparr>p_used = True, p_head = 0, p_tail = 0, p_writers = 1, p_readers = 1\<rparr> \<and>
    (\<forall>j. j \<noteq> i \<longrightarrow> pipe_at s' j = pipe_at s j) \<and> pipe_bufs s' = pipe_bufs s"
proof -
  let ?n = "\<lparr>p_used = True, p_head = 0, p_tail = 0, p_writers = 1, p_readers = 1\<rparr>"
  have f: "find_slot (\<lambda>i. \<not> p_used (pipe_at s i)) 0 MAX_PIPES = Some i" and s': "s' = set_pipe i ?n s"
    using assms(2) by (auto simp: pipe_create_def split: option.splits)
  have i: "i < MAX_PIPES" "\<not> p_used (pipe_at s i)" "\<forall>j<i. p_used (pipe_at s j)"
    using find_slot_Some [OF f] by auto
  moreover have "pipes_inv s'" unfolding s' by (rule set_pipe_inv [OF assms(1) i(1)]) (simp add: pipe_ok_def)
  moreover have "length (pipe_tab s) = MAX_PIPES" using assms(1) by (simp add: pipes_inv_def)
  ultimately show ?thesis by (simp add: s' set_pipe_def)
qed

lemma pipe_create_None: "pipe_create s = None \<longleftrightarrow> (\<forall>i<MAX_PIPES. p_used (pipe_at s i))"
  using find_slot_None [of "\<lambda>i. \<not> p_used (pipe_at s i)" 0 MAX_PIPES]
  by (auto simp: pipe_create_def split: option.splits)


section \<open>Interfaces provided\<close>

text \<open>One end of pipe \<open>i\<close>: how many descriptors hold it.\<close>

definition end_count :: "bool \<Rightarrow> pipes \<Rightarrow> nat \<Rightarrow> nat" where
  "end_count writer s i =
     (if i < MAX_PIPES \<and> p_used (pipe_at s i)
      then (if writer then p_writers (pipe_at s i) else p_readers (pipe_at s i)) else 0)"

lemma pipe_add_ref_pipe:
  assumes "pipes_inv s" "i < MAX_PIPES" "p_used (pipe_at s i)"
  shows "pipe_at (pipe_add_ref i wr s) j =
      (if j \<noteq> i then pipe_at s j
       else if wr then (pipe_at s i)\<lparr>p_writers := p_writers (pipe_at s i) + 1\<rparr>
       else (pipe_at s i)\<lparr>p_readers := p_readers (pipe_at s i) + 1\<rparr>)"
    and "pipes_inv (pipe_add_ref i wr s)"
    and "pipe_bufs (pipe_add_ref i wr s) = pipe_bufs s"
  using assms set_pipe_inv [OF assms(1,2)] pipes_inv_at [OF assms(1,2)]
  by (auto simp: pipe_add_ref_def Let_def pipes_inv_def pipe_ok_def set_pipe_def)

lemma pipe_used_update: "p_used q \<Longrightarrow> q\<lparr>p_used := True\<rparr> = q"
  by (cases q) simp

lemma pipe_close_end_pipe:
  assumes "pipes_inv s" "i < MAX_PIPES" "0 < end_count wr s i"
  defines "p \<equiv> pipe_at s i"
  defines "q \<equiv> (if wr then p\<lparr>p_writers := p_writers p - 1\<rparr> else p\<lparr>p_readers := p_readers p - 1\<rparr>)"
  shows "pipe_at (pipe_close_end i wr s) j =
      (if j \<noteq> i then pipe_at s j
       else q\<lparr>p_used := 0 < p_writers q \<or> 0 < p_readers q\<rparr>)"
    and "pipes_inv (pipe_close_end i wr s)"
    and "pipe_bufs (pipe_close_end i wr s) = pipe_bufs s"
proof -
  let ?q = "q\<lparr>p_used := 0 < p_writers q \<or> 0 < p_readers q\<rparr>"
  have u: "p_used p" and c: "0 < (if wr then p_writers p else p_readers p)"
    using assms(3) by (auto simp: end_count_def p_def split: if_splits)
  have uq: "p_used q" using u by (simp add: q_def)
  have cl: "pipe_close_end i wr s = set_pipe i ?q s"
    using assms(2) u c uq by (auto simp: pipe_close_end_def Let_def q_def p_def pipe_used_update)
  have ok: "pipe_ok ?q" using pipes_inv_at [OF assms(1,2)] by (auto simp: pipe_ok_def q_def p_def)
  have len: "length (pipe_tab s) = MAX_PIPES" using assms(1) by (simp add: pipes_inv_def)
  show "pipe_at (pipe_close_end i wr s) j = (if j \<noteq> i then pipe_at s j else ?q)"
    unfolding cl using len assms(2) by (simp add: set_pipe_def)
  show "pipes_inv (pipe_close_end i wr s)" unfolding cl by (rule set_pipe_inv [OF assms(1,2) ok])
  show "pipe_bufs (pipe_close_end i wr s) = pipe_bufs s" unfolding cl by (simp add: set_pipe_def)
qed

lemma pipe_close_end_count:
  assumes "pipes_inv s" "0 < end_count wr s i"
  shows "end_count wr' (pipe_close_end i wr s) j =
     (if j = i \<and> wr' = wr then end_count wr s i - 1 else end_count wr' s j)"
proof -
  have i: "i < MAX_PIPES" "p_used (pipe_at s i)"
    using assms(2) by (auto simp: end_count_def split: if_splits)
  show ?thesis
    using pipe_close_end_pipe(1) [OF assms(1) i(1) assms(2), of j] i assms(2)
    by (auto simp: end_count_def)
qed

lemma pipe_add_ref_count:
  assumes "pipes_inv s" "0 < end_count wr s i"
  shows "end_count wr' (pipe_add_ref i wr s) j =
     (if j = i \<and> wr' = wr then end_count wr s i + 1 else end_count wr' s j)"
proof -
  have i: "i < MAX_PIPES" "p_used (pipe_at s i)"
    using assms(2) by (auto simp: end_count_def split: if_splits)
  show ?thesis
    using pipe_add_ref_pipe(1) [OF assms(1) i, of wr j] i by (auto simp: end_count_def)
qed

lemma end_count_used: "0 < end_count wr s i \<Longrightarrow> i < MAX_PIPES \<and> p_used (pipe_at s i)"
  by (auto simp: end_count_def split: if_splits)

interpretation pipe_writers: ref_counted pipes_inv "end_count True" "2 ^ 64 - 1"
  "\<lambda>i. pipe_add_ref i True" "\<lambda>i. pipe_close_end i True"
  using pipe_add_ref_count pipe_close_end_count pipe_add_ref_pipe(2) pipe_close_end_pipe(2)
    end_count_used
  by unfold_locales auto

interpretation pipe_readers: ref_counted pipes_inv "end_count False" "2 ^ 64 - 1"
  "\<lambda>i. pipe_add_ref i False" "\<lambda>i. pipe_close_end i False"
  using pipe_add_ref_count pipe_close_end_count pipe_add_ref_pipe(2) pipe_close_end_pipe(2)
    end_count_used
  by unfold_locales auto

definition pipe_destroy :: "nat \<Rightarrow> pipes \<Rightarrow> pipes" where
  \<comment> \<open>both ends closed, as by the last process that holds the pipe\<close>
  "pipe_destroy i s = pipe_close_end i False (pipe_close_end i True s)"


lemma pipe_destroy_result:
  assumes "pipes_inv s" "i < MAX_PIPES" "end_count True s i = 1" "end_count False s i = 1"
  shows "pipes_inv (pipe_destroy i s)"
    and "p_used (pipe_at (pipe_destroy i s) j) = (j \<noteq> i \<and> p_used (pipe_at s j))"
proof -
  let ?t = "pipe_close_end i True s"
  have t: "pipes_inv ?t" by (rule pipe_close_end_pipe(2)) (use assms in auto)
  have c: "0 < end_count False ?t i" "end_count False ?t i = 1" "end_count True ?t i = 0"
    using pipe_close_end_count [OF assms(1), of True i] assms(3,4) by auto
  show "pipes_inv (pipe_destroy i s)"
    unfolding pipe_destroy_def by (rule pipe_close_end_pipe(2) [OF t assms(2) c(1)])
  have u: "p_used (pipe_at ?t i)" using end_count_used [OF c(1)] by simp
  have w: "p_writers (pipe_at ?t i) = 0" "p_readers (pipe_at ?t i) = 1"
    using c(2,3) u assms(2) by (auto simp: end_count_def)
  show "p_used (pipe_at (pipe_destroy i s) j) = (j \<noteq> i \<and> p_used (pipe_at s j))"
    unfolding pipe_destroy_def
    using pipe_close_end_pipe(1) [OF t assms(2) c(1), of j]
      pipe_close_end_pipe(1) [OF assms(1,2), of True j] assms(3) w by auto
qed

interpretation pipe_pool: slot_pool pipes_inv "\<lambda>s i. p_used (pipe_at s i)" "\<lambda>_. MAX_PIPES"
  "\<lambda>s i. end_count True s i = 1 \<and> end_count False s i = 1" pipe_create pipe_destroy
proof
  show "\<And>s i s' j. pipes_inv s \<Longrightarrow> pipe_create s = Some (i, s') \<Longrightarrow> j < MAX_PIPES \<Longrightarrow>
      p_used (pipe_at s' j) = (j = i \<or> p_used (pipe_at s j))"
  proof -
    fix s i s' j assume "pipes_inv s" "pipe_create s = Some (i, s')"
    from pipe_create_Some [OF this] show "p_used (pipe_at s' j) = (j = i \<or> p_used (pipe_at s j))"
      by (cases "j = i") auto
  qed
  show "\<And>s i s'. pipes_inv s \<Longrightarrow> pipe_create s = Some (i, s') \<Longrightarrow>
      i < MAX_PIPES \<and> \<not> p_used (pipe_at s i) \<and> (\<forall>j<i. p_used (pipe_at s j))"
    using pipe_create_Some by blast
  show "\<And>s i s'. pipes_inv s \<Longrightarrow> pipe_create s = Some (i, s') \<Longrightarrow> pipes_inv s' \<and> MAX_PIPES = MAX_PIPES"
    using pipe_create_Some by blast
qed (simp_all only: pipe_create_None pipe_destroy_result simp_thms)


section \<open>Properties\<close>

text \<open>
  Property C13. First in, first out: on an open pipe with a reader, as long as the bytes waiting together with
  the new ones do not run past the end of the ring, a write accepts every byte, and reading
  afterwards returns the bytes that waited followed by the new ones, in order and complete.
\<close>

theorem pipe_fifo_roundtrip:
  assumes "pipes_inv s" "i < MAX_PIPES" "p_used (pipe_at s i)" "0 < p_readers (pipe_at s i)"
    and "pipe_len (pipe_at s i) + length bs \<le> PIPE_CAPACITY"
    and "p_tail (pipe_at s i) + pipe_len (pipe_at s i) + length bs \<le> PIPE_CAPACITY + 1"
  shows "fst (pipe_write i bs s) = length bs \<and>
    fst (pipe_read i (pipe_len (pipe_at s i) + length bs) (snd (pipe_write i bs s))) =
      pipe_content s i @ bs"
proof -
  obtain w s' where wr: "pipe_write i bs s = (w, s')" by fastforce
  have w: "w = length bs" using pipe_write_result(1) [OF assms(1-4) wr] assms(5) by simp
  have c: "pipe_content s' i = pipe_content s i @ bs"
    using pipe_write_content [OF assms(1-4) wr] assms(6) w by simp
  have s': "pipes_inv s'" "p_used (pipe_at s' i)"
    using pipe_write_result(6,2) [OF assms(1-4) wr] assms(3) by auto
  obtain out t where rd: "pipe_read i (pipe_len (pipe_at s i) + length bs) s' = (out, t)" by fastforce
  have "out = take (pipe_len (pipe_at s i) + length bs) (pipe_content s' i)"
    by (rule pipe_read_result(1) [OF s'(1) assms(2) s'(2) rd])
  then show ?thesis using wr rd w c by simp
qed

definition fresh_pipe :: pipes where
  "fresh_pipe = snd (the (pipe_create pipes_init))"

lemma fresh_pipe_state:
  "pipe_create pipes_init = Some (0, fresh_pipe) \<and> pipes_inv fresh_pipe \<and>
   pipe_at fresh_pipe 0 = \<lparr>p_used = True, p_head = 0, p_tail = 0, p_writers = 1, p_readers = 1\<rparr>"
proof -
  have "find_slot (\<lambda>i. \<not> p_used (pipe_at pipes_init i)) 0 MAX_PIPES = Some 0"
    by (rule find_slot_first) (simp_all add: pipes_init_def pipe_new_def)
  then have "pipe_create pipes_init = Some (0, fresh_pipe)"
    by (simp add: pipe_create_def fresh_pipe_def)
  then show ?thesis using pipe_create_Some [OF pipes_inv_init] by blast
qed

lemmas fresh_pipe_facts = fresh_pipe_state [THEN conjunct2, THEN conjunct1]
  fresh_pipe_state [THEN conjunct2, THEN conjunct2]

lemma fresh_pipe_len: "pipe_len (pipe_at fresh_pipe 0) = 0"
  by (simp add: fresh_pipe_facts pipe_len_def)

theorem pipe_fifo_roundtrip_witness:
  "fst (pipe_write 0 [72, 105] fresh_pipe) = 2 \<and>
   fst (pipe_read 0 2 (snd (pipe_write 0 [72, 105] fresh_pipe))) = [72, 105]"
  using pipe_fifo_roundtrip [of fresh_pipe 0 "[72, 105]"]
  by (simp add: fresh_pipe_facts pipe_len_def pipe_content_def numeral_2_eq_2)

text \<open>
  Property C14. Where the ring wraps, data is lost: an open, empty pipe whose read position has moved on takes a
  write that runs past the end of the ring and reports every byte as written, but the byte at
  ring position 1024 reads back as the one that follows it, because the positions wrap at
  \<open>PIPE_CAPACITY + 1\<close> and the buffer at \<open>PIPE_CAPACITY\<close>.
\<close>

theorem pipe_wrap_corrupts:
  assumes "pipes_inv s" "i < MAX_PIPES" "p_used (pipe_at s i)" "0 < p_readers (pipe_at s i)"
    and "pipe_len (pipe_at s i) = 0" "length bs \<le> PIPE_CAPACITY"
    and "PIPE_CAPACITY + 1 < p_tail (pipe_at s i) + length bs"
  defines "k \<equiv> PIPE_CAPACITY - p_tail (pipe_at s i)"
  shows "fst (pipe_write i bs s) = length bs \<and>
    (let out = fst (pipe_read i (length bs) (snd (pipe_write i bs s))) in
     length out = length bs \<and> out ! k = out ! (k + 1) \<and> (bs ! k \<noteq> bs ! (k + 1) \<longrightarrow> out \<noteq> bs))"
proof -
  obtain w s' where wr: "pipe_write i bs s = (w, s')" by fastforce
  note r = pipe_write_result [OF assms(1-4) wr]
  have w: "w = length bs" using r(1) assms(5,6) by simp
  have b: "p_head (pipe_at s i) \<le> 1024" "p_tail (pipe_at s i) \<le> 1024"
    using pipes_inv_at [OF assms(1,2)] by (auto simp: pipe_ok_def)
  have len: "pipe_len (pipe_at s' i) = length bs"
    using ring_len_add [OF b, of w] assms(5,6) by (simp add: r(2) pipe_len_def w)
  have s': "pipes_inv s'" "p_used (pipe_at s' i)" "p_tail (pipe_at s' i) = p_tail (pipe_at s i)"
    using r(6,2) assms(3) by auto
  obtain out t where rd: "pipe_read i (length bs) s' = (out, t)" by fastforce
  have out: "out = pipe_content s' i"
    using pipe_read_result(1) [OF s'(1) assms(2) s'(2) rd] len by simp
  have "pipe_content s' i ! k = pipe_content s' i ! (k + 1)"
  proof -
    have "1025 - p_tail (pipe_at s i) = k + 1" using b(2) by (simp add: k_def)
    then show ?thesis
      using pipe_wrapped_content [OF s'(1) assms(2)] assms(7) len s'(3) by (simp add: k_def)
  qed
  then show ?thesis using wr rd w out len by (auto simp: Let_def)
qed


text \<open>The pipe after 1000 bytes went through it.\<close>

definition moved_pipe :: pipes where
  "moved_pipe = snd (pipe_read 0 1000 (snd (pipe_write 0 (replicate 1000 7) fresh_pipe)))"

lemma moved_pipe_state:
  "pipes_inv moved_pipe \<and> pipe_at moved_pipe 0 =
     \<lparr>p_used = True, p_head = 1000, p_tail = 1000, p_writers = 1, p_readers = 1\<rparr>"
proof -
  define a where "a = snd (pipe_write 0 (replicate 1000 7) fresh_pipe)"
  obtain w where w: "pipe_write 0 (replicate 1000 7) fresh_pipe = (w, a)"
    unfolding a_def by (metis prod.collapse)
  have f: "pipes_inv fresh_pipe" "(0 :: nat) < MAX_PIPES" "p_used (pipe_at fresh_pipe 0)"
    "0 < p_readers (pipe_at fresh_pipe 0)" by (simp_all add: fresh_pipe_facts)
  note r = pipe_write_result [OF f w]
  have a: "pipes_inv a" "pipe_at a 0 =
      \<lparr>p_used = True, p_head = 1000, p_tail = 0, p_writers = 1, p_readers = 1\<rparr>"
    using r(1,2,6) by (simp_all add: fresh_pipe_facts pipe_len_def)
  then have u: "p_used (pipe_at a 0)" and l: "pipe_len (pipe_at a 0) = 1000"
    by (simp_all add: pipe_len_def)
  obtain out where rd: "pipe_read 0 1000 a = (out, moved_pipe)"
    unfolding moved_pipe_def a_def by (metis prod.collapse)
  note q = pipe_read_result [OF a(1) f(2) u rd]
  have "length out = 1000" using l by (simp add: q(1))
  then show ?thesis using q(2,6) by (simp add: a(2))
qed

theorem pipe_wrap_corrupts_witness:
  "fst (pipe_write 0 (map of_nat [0..<100]) moved_pipe) = 100 \<and>
   fst (pipe_read 0 100 (snd (pipe_write 0 (map of_nat [0..<100]) moved_pipe))) \<noteq> map of_nat [0..<100]"
proof -
  have "map of_nat [0..<100] ! 24 \<noteq> (map of_nat [0..<100] ! 25 :: byte)" by simp
  then show ?thesis
    using pipe_wrap_corrupts [of moved_pipe 0 "map of_nat [0..<100]"] moved_pipe_state
    by (simp add: pipe_len_def Let_def del: upt_Suc upt_rec_numeral)
qed

text \<open>
  Ends are counted: after \<open>n\<close> more descriptors took an end of an open pipe and \<open>k\<close> holders of
  that end closed theirs, the end has exactly the remaining number of holders, the other end and
  all other pipes keep theirs, and the slot is free exactly when both ends are without a holder.
\<close>

theorem pipe_end_counting:
  assumes "pipes_inv s" "0 < end_count wr s i" "k \<le> end_count wr s i + n"
    and "end_count wr s i + n < 2 ^ 64"
  defines "t \<equiv> (pipe_close_end i wr ^^ k) ((pipe_add_ref i wr ^^ n) s)"
  shows "pipes_inv t \<and> end_count wr t i = end_count wr s i + n - k \<and>
    (\<forall>j wr'. (j, wr') \<noteq> (i, wr) \<longrightarrow> end_count wr' t j = end_count wr' s j) \<and>
    p_used (pipe_at t i) = (0 < end_count True t i \<or> 0 < end_count False t i)"
proof -
  have add: "pipes_inv ((pipe_add_ref i wr ^^ n) s) \<and>
      end_count wr ((pipe_add_ref i wr ^^ n) s) i = end_count wr s i + n"
    using pipe_writers.retain_n [OF assms(1), of i n i] pipe_readers.retain_n [OF assms(1), of i n i]
      assms(2,4) by (cases wr) auto
  then have t: "pipes_inv t \<and> end_count wr t i = end_count wr s i + n - k"
    using pipe_writers.release_n [of _ k i i] pipe_readers.release_n [of _ k i i] assms(3)
    by (cases wr) (auto simp: t_def)
  have frame_add: "end_count wr' ((pipe_add_ref i wr ^^ m) s) j = end_count wr' s j"
    if "(j, wr') \<noteq> (i, wr)" "m \<le> n" for j wr' m
    using that(2)
  proof (induction m)
    case (Suc m)
    let ?u = "(pipe_add_ref i wr ^^ m) s"
    have "pipes_inv ?u" "0 < end_count wr ?u i"
      using pipe_writers.retain_n [OF assms(1), of i m i] pipe_readers.retain_n [OF assms(1), of i m i]
        assms(2,4) Suc.prems by (cases wr; auto)+
    then show ?case using Suc that(1) by (auto simp: pipe_add_ref_count)
  qed simp
  have frame_close: "end_count wr' ((pipe_close_end i wr ^^ m) ((pipe_add_ref i wr ^^ n) s)) j =
      end_count wr' s j" if "(j, wr') \<noteq> (i, wr)" "m \<le> k" for j wr' m
    using that(2)
  proof (induction m)
    case 0
    then show ?case using frame_add that(1) by simp
  next
    case (Suc m)
    let ?u = "(pipe_close_end i wr ^^ m) ((pipe_add_ref i wr ^^ n) s)"
    have "pipes_inv ?u" "0 < end_count wr ?u i"
      using pipe_writers.release_n [of _ m i i] pipe_readers.release_n [of _ m i i] add assms(3) Suc.prems
      by (cases wr; auto)+
    then show ?case using Suc that(1) by (auto simp: pipe_close_end_count)
  qed
  have i: "i < MAX_PIPES" using end_count_used [OF assms(2)] by simp
  have "pipe_ok (pipe_at t i)" using pipes_inv_at [of t i] t i by blast
  then have "p_used (pipe_at t i) = (0 < end_count True t i \<or> 0 < end_count False t i)"
    using i by (auto simp: pipe_ok_def end_count_def)
  then show ?thesis using t frame_close [of _ _ k] unfolding t_def by blast
qed

theorem pipe_end_counting_witness:
  "p_used (pipe_at ((pipe_close_end 0 True ^^ 2) ((pipe_add_ref 0 True ^^ 1) fresh_pipe)) 0) \<and>
   end_count True ((pipe_close_end 0 True ^^ 2) ((pipe_add_ref 0 True ^^ 1) fresh_pipe)) 0 = 0"
proof -
  have e: "end_count wr fresh_pipe 0 = 1" for wr by (simp add: end_count_def fresh_pipe_facts)
  show ?thesis
    using pipe_end_counting [OF fresh_pipe_facts(1), of True 0 2 1] e by fastforce
qed

text \<open>
  The number of waiting bytes that \<open>info\<close> reports on a 64-bit machine is right as long as the
  write position has not wrapped below the read position, and too large by 16, modulo 1025,
  once it has: a pipe with 1009 bytes waiting is then reported empty.
\<close>

theorem pipe_info_pending:
  assumes "pipes_inv s" "i < MAX_PIPES" "p_used (pipe_at s i)"
  shows "pipe_info 64 i s =
    Some ((if p_tail (pipe_at s i) \<le> p_head (pipe_at s i) then pipe_len (pipe_at s i)
           else (pipe_len (pipe_at s i) + 16) mod (PIPE_CAPACITY + 1)),
          p_writers (pipe_at s i), p_readers (pipe_at s i))"
proof -
  define h t where "h = p_head (pipe_at s i)" and "t = p_tail (pipe_at s i)"
  have b: "h \<le> 1024" "t \<le> 1024" using pipes_inv_at [OF assms(1,2)] by (auto simp: pipe_ok_def h_def t_def)
  have "wsub 64 h t mod 1025 = (if t \<le> h then pipe_len (pipe_at s i) else (pipe_len (pipe_at s i) + 16) mod 1025)"
  proof (cases "t \<le> h")
    case True
    then show ?thesis using b by (simp add: wsub_le pipe_len_def ring_len_if flip: h_def t_def)
  next
    case False
    then have "wsub 64 h t = 2 ^ 64 - (t - h)" using b by (simp add: wsub_gt)
    also have "\<dots> = 1025 * 17996823486545903 + (1041 + h - t)" using False b by simp
    finally have "wsub 64 h t mod 1025 = (1041 + h - t) mod 1025" by (simp only: mod_mult_self4)
    then show ?thesis using False b by (simp add: pipe_len_def ring_len_if flip: h_def t_def)
  qed
  then show ?thesis using assms(2,3) by (simp add: pipe_info_def Let_def h_def t_def)
qed

theorem pipe_info_pending_witness:
  "pipe_info 64 0 fresh_pipe = Some (0, 1, 1)"
  using pipe_info_pending [of fresh_pipe 0] by (simp add: fresh_pipe_facts pipe_len_def)

end
