(* ===== verification/Fd.thy ===== *)
theory Fd imports Pipe begin

text \<open>
  Descriptor tables, \<^verbatim>\<open>kernel/src/level0a/core/fd.rs\<close>, and the call that opens a pipe,
  \<^verbatim>\<open>create_pipe\<close> in \<^verbatim>\<open>kernel/src/level0a/kernel_api.rs\<close>.  \<open>fd_entry\<close> is the struct
  \<open>FileDescriptor\<close>; the state \<open>fds\<close> holds the tables of all tasks and the pipes their entries
  refer to.  The task whose table is used (\<open>scheduler::current_id\<close>) is the argument \<open>cur\<close>.
\<close>

section \<open>State\<close>

abbreviation (input) MAX_FDS :: nat where "MAX_FDS \<equiv> 16"
abbreviation (input) FIRST_FREE_FD :: nat where "FIRST_FREE_FD \<equiv> 3"
abbreviation (input) FD_TASKS :: nat where "FD_TASKS \<equiv> 8"  \<comment> \<open>\<open>scheduler::MAX_TASKS\<close>\<close>

datatype fd_kind = File | PipeRead | PipeWrite

record fd_entry =
  fd_used :: bool
  fd_kind :: fd_kind
  fd_node :: nat
  fd_offset :: nat

definition fd_empty :: fd_entry where
  "fd_empty = \<lparr>fd_used = False, fd_kind = File, fd_node = 0, fd_offset = 0\<rparr>"

record fds =
  fd_tables :: "fd_entry list list"
  fd_pipes :: pipes

abbreviation fd_at :: "fds \<Rightarrow> nat \<Rightarrow> nat \<Rightarrow> fd_entry" where
  "fd_at s task i \<equiv> fd_tables s ! task ! i"

definition set_fd :: "nat \<Rightarrow> nat \<Rightarrow> fd_entry \<Rightarrow> fds \<Rightarrow> fds" where
  "set_fd task i e s = s\<lparr>fd_tables := (fd_tables s)[task := (fd_tables s ! task)[i := e]]\<rparr>"

definition fd_init :: "fds \<Rightarrow> fds" where
  "fd_init s = s\<lparr>fd_tables := replicate FD_TASKS (replicate MAX_FDS fd_empty)\<rparr>"

section \<open>Operations\<close>

definition fd_retain :: "fd_entry \<Rightarrow> fds \<Rightarrow> fds" where
  "fd_retain e s =
     (case fd_kind e of
        PipeRead \<Rightarrow> s\<lparr>fd_pipes := pipe_add_ref (fd_node e) False (fd_pipes s)\<rparr>
      | PipeWrite \<Rightarrow> s\<lparr>fd_pipes := pipe_add_ref (fd_node e) True (fd_pipes s)\<rparr>
      | File \<Rightarrow> s)"

definition fd_release :: "fd_entry \<Rightarrow> fds \<Rightarrow> fds" where
  "fd_release e s =
     (case fd_kind e of
        PipeRead \<Rightarrow> s\<lparr>fd_pipes := pipe_close_end (fd_node e) False (fd_pipes s)\<rparr>
      | PipeWrite \<Rightarrow> s\<lparr>fd_pipes := pipe_close_end (fd_node e) True (fd_pipes s)\<rparr>
      | File \<Rightarrow> s)"

definition fd_copy_entry :: "nat \<Rightarrow> nat \<Rightarrow> nat \<Rightarrow> fds \<Rightarrow> fds" where
  \<comment> \<open>one round of the loop of \<open>clone_into\<close>\<close>
  "fd_copy_entry cur child i s =
     (let entry = fd_at s cur i;
          s = set_fd child i entry s
      in if fd_used entry then fd_retain entry s else s)"

definition fd_clone_into :: "nat \<Rightarrow> nat \<Rightarrow> fds \<Rightarrow> fds" where
  "fd_clone_into cur child s =
     (if child \<ge> FD_TASKS then s else fold (fd_copy_entry cur child) [0..<MAX_FDS] s)"

definition fd_drop_entry :: "nat \<Rightarrow> nat \<Rightarrow> fds \<Rightarrow> fds" where
  \<comment> \<open>one round of the loop of \<open>close_all\<close>\<close>
  "fd_drop_entry task i s =
     (let entry = fd_at s task i in
      if \<not> fd_used entry then s else set_fd task i fd_empty (fd_release entry s))"

definition fd_close_all :: "nat \<Rightarrow> fds \<Rightarrow> fds" where
  "fd_close_all task s =
     (if task \<ge> FD_TASKS then s else fold (fd_drop_entry task) [0..<MAX_FDS] s)"

definition fd_free_slot :: "nat \<Rightarrow> fds \<Rightarrow> nat option" where
  "fd_free_slot cur s = find_slot (\<lambda>i. \<not> fd_used (fd_at s cur i)) FIRST_FREE_FD MAX_FDS"

definition fd_allocate :: "nat \<Rightarrow> nat \<Rightarrow> fds \<Rightarrow> nat option \<times> fds" where
  "fd_allocate cur node s =
     (case fd_free_slot cur s of
        None \<Rightarrow> (None, s)
      | Some i \<Rightarrow> (Some i, set_fd cur i \<lparr>fd_used = True, fd_kind = File, fd_node = node, fd_offset = 0\<rparr> s))"

definition fd_get :: "nat \<Rightarrow> nat \<Rightarrow> fds \<Rightarrow> fd_entry option" where
  "fd_get cur i s =
     (if i \<ge> MAX_FDS then None
      else if fd_used (fd_at s cur i) then Some (fd_at s cur i) else None)"

definition fd_allocate_pipe :: "nat \<Rightarrow> nat \<Rightarrow> fd_kind \<Rightarrow> fds \<Rightarrow> nat option \<times> fds" where
  "fd_allocate_pipe cur pipe kind s =
     (case fd_free_slot cur s of
        None \<Rightarrow> (None, s)
      | Some i \<Rightarrow> (Some i, set_fd cur i \<lparr>fd_used = True, fd_kind = kind, fd_node = pipe, fd_offset = 0\<rparr> s))"

definition fd_dup :: "nat \<Rightarrow> nat \<Rightarrow> fds \<Rightarrow> nat option \<times> fds" where
  "fd_dup cur oldfd s =
     (if oldfd \<ge> MAX_FDS \<or> \<not> fd_used (fd_at s cur oldfd) then (None, s)
      else (let entry = fd_at s cur oldfd in
            case fd_free_slot cur s of
              None \<Rightarrow> (None, s)
            | Some i \<Rightarrow> (Some i, fd_retain entry (set_fd cur i entry s))))"

definition fd_dup2 :: "nat \<Rightarrow> nat \<Rightarrow> nat \<Rightarrow> fds \<Rightarrow> nat option \<times> fds" where
  "fd_dup2 cur oldfd newfd s =
     (if oldfd \<ge> MAX_FDS \<or> newfd \<ge> MAX_FDS \<or> \<not> fd_used (fd_at s cur oldfd) then (None, s)
      else if oldfd = newfd then (Some newfd, s)
      else (let entry = fd_at s cur oldfd;
                previous = fd_at s cur newfd;
                s = (if fd_used previous then fd_release previous s else s)
            in (Some newfd, fd_retain entry (set_fd cur newfd entry s))))"

text \<open>\<open>offset += delta\<close> on a 64-bit \<open>usize\<close>, without overflow checks.\<close>

definition fd_advance :: "nat \<Rightarrow> nat \<Rightarrow> nat \<Rightarrow> fds \<Rightarrow> fds" where
  "fd_advance cur i delta s =
     (if i \<ge> MAX_FDS then s
      else if fd_used (fd_at s cur i)
      then set_fd cur i ((fd_at s cur i)\<lparr>fd_offset := (fd_offset (fd_at s cur i) + delta) mod 2 ^ 64\<rparr>) s
      else s)"

definition fd_close :: "nat \<Rightarrow> nat \<Rightarrow> fds \<Rightarrow> bool \<times> fds" where
  "fd_close cur i s =
     (if i \<ge> MAX_FDS then (False, s)
      else (let entry = fd_at s cur i in
            if \<not> fd_used entry then (False, s)
            else (True, set_fd cur i fd_empty (fd_release entry s))))"

definition fd_open_count :: "nat \<Rightarrow> fds \<Rightarrow> nat" where
  "fd_open_count cur s = length (filter (\<lambda>i. fd_used (fd_at s cur i)) [0..<MAX_FDS])"

text \<open>\<open>kernel_api::create_pipe\<close>: both ends or nothing.\<close>

definition create_pipe :: "nat \<Rightarrow> fds \<Rightarrow> (nat \<times> nat) option \<times> fds" where
  "create_pipe cur s =
     (case pipe_create (fd_pipes s) of
        None \<Rightarrow> (None, s)
      | Some (index, ps) \<Rightarrow>
          (let s = s\<lparr>fd_pipes := ps\<rparr> in
           case fd_allocate_pipe cur index PipeRead s of
             (None, s) \<Rightarrow>
               (None, s\<lparr>fd_pipes := pipe_close_end index True (pipe_close_end index False (fd_pipes s))\<rparr>)
           | (Some read_fd, s) \<Rightarrow>
               (case fd_allocate_pipe cur index PipeWrite s of
                  (None, s) \<Rightarrow>
                    (let s = snd (fd_close cur read_fd s)
                     in (None, s\<lparr>fd_pipes := pipe_close_end index True (fd_pipes s)\<rparr>))
                | (Some write_fd, s) \<Rightarrow> (Some (read_fd, write_fd), s))))"

section \<open>Holders of a pipe end\<close>

definition holds :: "bool \<Rightarrow> nat \<Rightarrow> fd_entry \<Rightarrow> bool" where
  "holds wr p e \<longleftrightarrow> fd_used e \<and> fd_node e = p \<and> fd_kind e = (if wr then PipeWrite else PipeRead)"

definition holders :: "bool \<Rightarrow> nat \<Rightarrow> fds \<Rightarrow> nat" where
  "holders wr p s = card {x \<in> {..<FD_TASKS} \<times> {..<MAX_FDS}. holds wr p (fd_at s (fst x) (snd x))}"

definition fd_shape :: "fds \<Rightarrow> bool" where
  "fd_shape s \<longleftrightarrow> length (fd_tables s) = FD_TASKS \<and> (\<forall>t<FD_TASKS. length (fd_tables s ! t) = MAX_FDS) \<and>
     pipes_inv (fd_pipes s)"

text \<open>Every pipe end has exactly as many holders as its counter says.\<close>

definition fd_inv :: "fds \<Rightarrow> bool" where
  "fd_inv s \<longleftrightarrow> fd_shape s \<and> (\<forall>p wr. end_count wr (fd_pipes s) p = holders wr p s)"

lemma fd_at_set:
  "fd_shape s \<Longrightarrow> t < FD_TASKS \<Longrightarrow> i < MAX_FDS \<Longrightarrow>
     fd_at (set_fd t i e s) t' i' = (if t' = t \<and> i' = i then e else fd_at s t' i')"
  by (auto simp: set_fd_def fd_shape_def nth_list_update)

lemma set_fd_pipes [simp]: "fd_pipes (set_fd t i e s) = fd_pipes s"
  by (simp add: set_fd_def)

lemma set_fd_shape [simp]: "fd_shape s \<Longrightarrow> t < FD_TASKS \<Longrightarrow> fd_shape (set_fd t i e s)"
  by (auto simp: set_fd_def fd_shape_def nth_list_update)

lemma fd_pipes_shape: "fd_shape s \<Longrightarrow> pipes_inv ps \<Longrightarrow> fd_shape (s\<lparr>fd_pipes := ps\<rparr>)"
  by (simp add: fd_shape_def)

lemma holders_cong: "fd_tables s' = fd_tables s \<Longrightarrow> holders wr p s' = holders wr p s"
  by (simp add: holders_def)

lemma holders_pipes [simp]: "holders wr p (s\<lparr>fd_pipes := ps\<rparr>) = holders wr p s"
  by (rule holders_cong) simp

lemma holders_set_fd:
  assumes "fd_shape s" "t < FD_TASKS" "i < MAX_FDS"
  shows "holders wr p (set_fd t i e s) + (if holds wr p (fd_at s t i) then 1 else 0) =
     holders wr p s + (if holds wr p e then 1 else 0)"
proof -
  let ?Q = "\<lambda>x. holds wr p (fd_at (set_fd t i e s) (fst x) (snd x))"
  let ?P = "\<lambda>x. holds wr p (fd_at s (fst x) (snd x))"
  have e: "fd_at (set_fd t i e s) t i = e" using fd_at_set [OF assms] by simp
  have h: "?Q x = ?P x" if "x \<in> {..<FD_TASKS} \<times> {..<MAX_FDS}" "x \<noteq> (t, i)" for x
    using fd_at_set [OF assms, of e "fst x" "snd x"] that(2) by (cases x) auto
  have fm: "finite ({..<FD_TASKS} \<times> {..<MAX_FDS})" "(t, i) \<in> {..<FD_TASKS} \<times> {..<MAX_FDS}"
    using assms by auto
  have "card {x \<in> {..<FD_TASKS} \<times> {..<MAX_FDS}. ?Q x} + (if ?P (t, i) then 1 else 0) =
      card {x \<in> {..<FD_TASKS} \<times> {..<MAX_FDS}. ?P x} + (if ?Q (t, i) then 1 else 0)"
    by (rule card_filter_update [OF fm h])
  then show ?thesis unfolding holders_def by (simp only: e fst_conv snd_conv)
qed

lemma fd_free_slot_Some:
  "fd_free_slot cur s = Some i \<Longrightarrow> FIRST_FREE_FD \<le> i \<and> i < MAX_FDS \<and> \<not> fd_used (fd_at s cur i) \<and>
     (\<forall>j. FIRST_FREE_FD \<le> j \<and> j < i \<longrightarrow> fd_used (fd_at s cur j))"
  using find_slot_Some [of "\<lambda>i. \<not> fd_used (fd_at s cur i)" FIRST_FREE_FD MAX_FDS i]
  by (auto simp: fd_free_slot_def)

lemma fd_free_slot_None:
  "fd_free_slot cur s = None \<longleftrightarrow> (\<forall>i. FIRST_FREE_FD \<le> i \<and> i < MAX_FDS \<longrightarrow> fd_used (fd_at s cur i))"
  by (simp add: fd_free_slot_def find_slot_None)


section \<open>Preservation\<close>

text \<open>The pipe end an entry names has a holder.\<close>

definition backed :: "fd_entry \<Rightarrow> pipes \<Rightarrow> bool" where
  "backed e ps \<longleftrightarrow> (\<forall>wr p. holds wr p e \<longrightarrow> 0 < end_count wr ps p)"

lemma holds_cases:
  "fd_used e \<Longrightarrow> fd_kind e = File \<Longrightarrow> \<not> holds wr p e"
  "fd_used e \<Longrightarrow> fd_kind e = PipeRead \<Longrightarrow> holds wr p e = (\<not> wr \<and> p = fd_node e)"
  "fd_used e \<Longrightarrow> fd_kind e = PipeWrite \<Longrightarrow> holds wr p e = (wr \<and> p = fd_node e)"
  "\<not> fd_used e \<Longrightarrow> \<not> holds wr p e"
  by (auto simp: holds_def)

lemma holds_end [simp]:
  "holds wr p \<lparr>fd_used = True, fd_kind = PipeRead, fd_node = q, fd_offset = n\<rparr> = (wr = False \<and> p = q)"
  "holds wr p \<lparr>fd_used = True, fd_kind = PipeWrite, fd_node = q, fd_offset = n\<rparr> = (wr = True \<and> p = q)"
  by (auto simp: holds_def)

lemma holds_empty [simp]: "\<not> holds wr p fd_empty"
  by (simp add: holds_def fd_empty_def)

lemma fd_retain_result:
  assumes "pipes_inv (fd_pipes s)" "fd_used e" "backed e (fd_pipes s)"
  shows "pipes_inv (fd_pipes (fd_retain e s))" "fd_tables (fd_retain e s) = fd_tables s"
    "end_count wr (fd_pipes (fd_retain e s)) p = end_count wr (fd_pipes s) p + (if holds wr p e then 1 else 0)"
  using assms
  by (cases "fd_kind e"; auto simp: fd_retain_def backed_def holds_cases pipe_add_ref_count
      intro: pipe_writers.retain_inv pipe_readers.retain_inv pipe_add_ref_pipe(2) dest: end_count_used)+

lemma fd_release_result:
  assumes "pipes_inv (fd_pipes s)" "fd_used e" "backed e (fd_pipes s)"
  shows "pipes_inv (fd_pipes (fd_release e s))" "fd_tables (fd_release e s) = fd_tables s"
    "end_count wr (fd_pipes (fd_release e s)) p = end_count wr (fd_pipes s) p - (if holds wr p e then 1 else 0)"
  using assms
  by (cases "fd_kind e"; auto simp: fd_release_def backed_def holds_cases pipe_close_end_count
      intro: pipe_writers.release_inv pipe_readers.release_inv)+

lemma fd_inv_shape: "fd_inv s \<Longrightarrow> fd_shape s"
  by (simp add: fd_inv_def)

lemma fd_inv_pipes: "fd_inv s \<Longrightarrow> pipes_inv (fd_pipes s)"
  by (simp add: fd_inv_def fd_shape_def)

lemma fd_inv_holders: "fd_inv s \<Longrightarrow> end_count wr (fd_pipes s) p = holders wr p s"
  by (simp add: fd_inv_def)

lemma holder_counted:
  assumes "t < FD_TASKS" "i < MAX_FDS" "holds wr p (fd_at s t i)"
  shows "0 < holders wr p s"
proof -
  have "(t, i) \<in> {x \<in> {..<FD_TASKS} \<times> {..<MAX_FDS}. holds wr p (fd_at s (fst x) (snd x))}"
    using assms by simp
  then have "{x \<in> {..<FD_TASKS} \<times> {..<MAX_FDS}. holds wr p (fd_at s (fst x) (snd x))} \<noteq> {}" by blast
  moreover have "finite {x \<in> {..<FD_TASKS} \<times> {..<MAX_FDS}. holds wr p (fd_at s (fst x) (snd x))}" by simp
  ultimately show ?thesis unfolding holders_def by (simp only: card_gt_0_iff simp_thms)
qed

lemma fd_inv_backed:
  "fd_inv s \<Longrightarrow> t < FD_TASKS \<Longrightarrow> i < MAX_FDS \<Longrightarrow> backed (fd_at s t i) (fd_pipes s)"
  unfolding backed_def using holder_counted fd_inv_holders by metis

text \<open>Giving up an entry, and filling an unused one with a copy of a backed one.\<close>

text \<open>
  While a pipe is being opened some ends are counted that no descriptor holds yet: \<open>X\<close> is the
  set of these.
\<close>

definition fd_balance :: "(bool \<times> nat) set \<Rightarrow> fds \<Rightarrow> bool" where
  "fd_balance X s \<longleftrightarrow> fd_shape s \<and>
     (\<forall>p wr. end_count wr (fd_pipes s) p = holders wr p s + (if (wr, p) \<in> X then 1 else 0))"

lemma fd_balance_none: "fd_balance {} s = fd_inv s"
  by (simp add: fd_balance_def fd_inv_def)

lemma fd_drop_balance:
  assumes b: "fd_balance X s" and t: "t < FD_TASKS" "i < MAX_FDS" and u: "fd_used (fd_at s t i)"
  shows "fd_balance X (set_fd t i fd_empty (fd_release (fd_at s t i) s))"
proof -
  let ?e = "fd_at s t i" let ?s = "fd_release ?e s"
  have sh0: "fd_shape s" and cnt: "\<And>wr p. end_count wr (fd_pipes s) p = holders wr p s + (if (wr, p) \<in> X then 1 else 0)"
    using b by (simp_all add: fd_balance_def)
  have bk: "backed ?e (fd_pipes s)"
    unfolding backed_def using holder_counted [OF t] cnt by (metis add_gr_0)
  have pi: "pipes_inv (fd_pipes s)" using sh0 by (simp add: fd_shape_def)
  note r = fd_release_result [OF pi u bk]
  have sh: "fd_shape ?s" using sh0 r(1,2) by (simp add: fd_shape_def)
  have e: "fd_at ?s t i = ?e" using r(2) by simp
  have "end_count wr (fd_pipes ?s) p = holders wr p (set_fd t i fd_empty ?s) + (if (wr, p) \<in> X then 1 else 0)"
    for wr p
    using holders_set_fd [OF sh t, of wr p fd_empty] holders_cong [OF r(2), of wr p]
      r(3) [of wr p] cnt [of wr p] e by (cases "holds wr p ?e") auto
  then show ?thesis using sh t by (simp add: fd_balance_def)
qed

lemma fd_drop_inv:
  "fd_inv s \<Longrightarrow> t < FD_TASKS \<Longrightarrow> i < MAX_FDS \<Longrightarrow> fd_used (fd_at s t i) \<Longrightarrow>
     fd_inv (set_fd t i fd_empty (fd_release (fd_at s t i) s))"
  using fd_drop_balance [of "{}"] by (simp add: fd_balance_none)

lemma fd_place_balance:
  assumes b: "fd_balance X s" and t: "t < FD_TASKS" "i < MAX_FDS" and u: "\<not> fd_used (fd_at s t i)"
    and e: "\<And>wr' p'. holds wr' p' e = (wr' = wr \<and> p' = p)" and X: "(wr, p) \<in> X"
  shows "fd_balance (X - {(wr, p)}) (set_fd t i e s)"
proof -
  have sh: "fd_shape s" and cnt: "\<And>wr p. end_count wr (fd_pipes s) p = holders wr p s + (if (wr, p) \<in> X then 1 else 0)"
    using b by (simp_all add: fd_balance_def)
  have "holders wr' p' (set_fd t i e s) = holders wr' p' s + (if wr' = wr \<and> p' = p then 1 else 0)" for wr' p'
    using holders_set_fd [OF sh t, of wr' p' e] u e by (simp add: holds_cases)
  then show ?thesis using sh t cnt X by (auto simp: fd_balance_def)
qed

lemma fd_close_end_balance:
  assumes b: "fd_balance X s" and X: "(wr, p) \<in> X"
  shows "fd_balance (X - {(wr, p)}) (s\<lparr>fd_pipes := pipe_close_end p wr (fd_pipes s)\<rparr>)"
proof -
  have sh: "fd_shape s" and cnt: "\<And>wr p. end_count wr (fd_pipes s) p = holders wr p s + (if (wr, p) \<in> X then 1 else 0)"
    using b by (simp_all add: fd_balance_def)
  have pi: "pipes_inv (fd_pipes s)" using sh by (simp add: fd_shape_def)
  have pos: "0 < end_count wr (fd_pipes s) p" using cnt X by simp
  have "pipes_inv (pipe_close_end p wr (fd_pipes s))"
    using pipe_close_end_pipe(2) [OF pi _ pos] end_count_used [OF pos] by blast
  then show ?thesis using sh X cnt by (auto simp: fd_balance_def fd_shape_def pipe_close_end_count [OF pi pos])
qed

lemma fd_create_balance:
  assumes inv: "fd_inv s" and c: "pipe_create (fd_pipes s) = Some (p, ps)"
  shows "fd_balance {(True, p), (False, p)} (s\<lparr>fd_pipes := ps\<rparr>)"
proof -
  note cr = pipe_create_Some [OF fd_inv_pipes [OF inv] c]
  have "end_count wr ps q = end_count wr (fd_pipes s) q + (if q = p then 1 else 0)" for wr q
    using cr by (auto simp: end_count_def)
  then show ?thesis using cr fd_inv_shape [OF inv] fd_inv_holders [OF inv]
    by (auto simp: fd_balance_def fd_shape_def)
qed

lemma fd_copy_inv:
  assumes inv: "fd_inv s" and t: "t < FD_TASKS" "i < MAX_FDS" and u: "\<not> fd_used (fd_at s t i)"
    and e: "fd_used e" "backed e (fd_pipes s)"
  shows "fd_inv (fd_retain e (set_fd t i e s))"
proof -
  let ?s = "set_fd t i e s"
  have sh: "fd_shape s" using fd_inv_shape [OF inv] .
  note r = fd_retain_result [of ?s e, unfolded set_fd_pipes, OF fd_inv_pipes [OF inv] e]
  have "holders wr p ?s = holders wr p s + (if holds wr p e then 1 else 0)" for wr p
    using holders_set_fd [OF sh t, of wr p e] u by (simp add: holds_cases)
  then have "end_count wr (fd_pipes (fd_retain e ?s)) p = holders wr p (fd_retain e ?s)" for wr p
    using r(3) [of wr p] fd_inv_holders [OF inv, of wr p] holders_cong [OF r(2), of wr p] by simp
  moreover have "fd_shape (fd_retain e ?s)" using set_fd_shape [OF sh t(1)] r(1,2) by (simp add: fd_shape_def)
  ultimately show ?thesis by (simp add: fd_inv_def)
qed

text \<open>Entries that name no pipe end do not count.\<close>

lemma fd_set_file_inv:
  assumes inv: "fd_inv s" and t: "t < FD_TASKS" "i < MAX_FDS"
    and e: "\<And>wr p. holds wr p e = holds wr p (fd_at s t i)"
  shows "fd_inv (set_fd t i e s)"
proof -
  have "holders wr p (set_fd t i e s) = holders wr p s" for wr p
    using holders_set_fd [OF fd_inv_shape [OF inv] t, of wr p e] e by simp
  then show ?thesis using inv t by (simp add: fd_inv_def)
qed


section \<open>Every operation keeps the balance\<close>

lemma fd_release_tables [simp]: "fd_tables (fd_release e s) = fd_tables s" "fd_tables (fd_retain e s) = fd_tables s"
  by (simp_all add: fd_release_def fd_retain_def split: fd_kind.splits)

lemma fd_drop_entry_inv:
  "fd_inv s \<Longrightarrow> t < FD_TASKS \<Longrightarrow> i < MAX_FDS \<Longrightarrow> fd_inv (fd_drop_entry t i s)"
  by (simp add: fd_drop_entry_def Let_def fd_drop_inv)

lemma fd_drop_entry_at:
  assumes "fd_shape s" "t < FD_TASKS" "i < MAX_FDS"
  shows "fd_at (fd_drop_entry t i s) t' i' =
    (if t' = t \<and> i' = i then (if fd_used (fd_at s t i) then fd_empty else fd_at s t i) else fd_at s t' i')"
  using assms by (auto simp: fd_drop_entry_def Let_def set_fd_def fd_shape_def nth_list_update)

lemma fd_close_all_result:
  assumes inv: "fd_inv s" and t: "t < FD_TASKS"
  shows "fd_inv (fd_close_all t s)"
    "\<And>i. i < MAX_FDS \<Longrightarrow> \<not> fd_used (fd_at (fd_close_all t s) t i)"
    "\<And>t' i. t' \<noteq> t \<Longrightarrow> fd_at (fd_close_all t s) t' i = fd_at s t' i"
proof -
  have "fd_inv (fold (fd_drop_entry t) [0..<n] s) \<and>
    (\<forall>i<n. \<not> fd_used (fd_at (fold (fd_drop_entry t) [0..<n] s) t i)) \<and>
    (\<forall>t' i. t' \<noteq> t \<longrightarrow> fd_at (fold (fd_drop_entry t) [0..<n] s) t' i = fd_at s t' i)" if "n \<le> MAX_FDS" for n
    using that
  proof (induction n)
    case (Suc n)
    let ?s = "fold (fd_drop_entry t) [0..<n] s"
    have IH: "fd_inv ?s" "\<forall>i<n. \<not> fd_used (fd_at ?s t i)" "\<forall>t' i. t' \<noteq> t \<longrightarrow> fd_at ?s t' i = fd_at s t' i"
      using Suc by auto
    have n: "n < 16" using Suc.prems by simp
    show ?case using fd_drop_entry_inv [OF IH(1) t n] fd_drop_entry_at [OF fd_inv_shape [OF IH(1)] t n] IH
      by (auto simp: less_Suc_eq fd_empty_def)
  qed (use inv in simp)
  from this [of 16] t show "fd_inv (fd_close_all t s)"
    "\<And>i. i < MAX_FDS \<Longrightarrow> \<not> fd_used (fd_at (fd_close_all t s) t i)"
    "\<And>t' i. t' \<noteq> t \<Longrightarrow> fd_at (fd_close_all t s) t' i = fd_at s t' i"
    by (auto simp: fd_close_all_def)
qed

lemma fd_copy_entry_step:
  assumes inv: "fd_inv s" and t: "cur < FD_TASKS" "child < FD_TASKS" "cur \<noteq> child" and i: "i < MAX_FDS"
    and u: "\<not> fd_used (fd_at s child i)"
  shows "fd_inv (fd_copy_entry cur child i s)"
    "fd_at (fd_copy_entry cur child i s) t' i' = (if t' = child \<and> i' = i then fd_at s cur i else fd_at s t' i')"
proof -
  have "fd_used (fd_at s cur i) \<Longrightarrow> fd_inv (fd_retain (fd_at s cur i) (set_fd child i (fd_at s cur i) s))"
    by (rule fd_copy_inv [OF inv t(2) i u _ fd_inv_backed [OF inv t(1) i]])
  moreover have "\<not> fd_used (fd_at s cur i) \<Longrightarrow> fd_inv (set_fd child i (fd_at s cur i) s)"
    by (rule fd_set_file_inv [OF inv t(2) i]) (simp add: u holds_cases)
  ultimately show "fd_inv (fd_copy_entry cur child i s)" by (simp add: fd_copy_entry_def Let_def)
  show "fd_at (fd_copy_entry cur child i s) t' i' = (if t' = child \<and> i' = i then fd_at s cur i else fd_at s t' i')"
    using fd_at_set [OF fd_inv_shape [OF inv] t(2) i] by (simp add: fd_copy_entry_def Let_def)
qed

lemma fd_clone_into_result:
  assumes inv: "fd_inv s" and t: "cur < FD_TASKS" "child < FD_TASKS" "cur \<noteq> child"
    and u: "\<forall>i<MAX_FDS. \<not> fd_used (fd_at s child i)"
  shows "fd_inv (fd_clone_into cur child s)"
    "\<And>i. i < MAX_FDS \<Longrightarrow> fd_at (fd_clone_into cur child s) child i = fd_at s cur i"
    "\<And>t' i. t' \<noteq> child \<Longrightarrow> fd_at (fd_clone_into cur child s) t' i = fd_at s t' i"
proof -
  have "fd_inv (fold (fd_copy_entry cur child) [0..<n] s) \<and>
    (\<forall>i<MAX_FDS. fd_at (fold (fd_copy_entry cur child) [0..<n] s) child i =
        (if i < n then fd_at s cur i else fd_at s child i)) \<and>
    (\<forall>t' i. t' \<noteq> child \<longrightarrow> fd_at (fold (fd_copy_entry cur child) [0..<n] s) t' i = fd_at s t' i)"
    if "n \<le> MAX_FDS" for n
    using that
  proof (induction n)
    case (Suc n)
    let ?s = "fold (fd_copy_entry cur child) [0..<n] s"
    have IH: "fd_inv ?s" "\<forall>i<MAX_FDS. fd_at ?s child i = (if i < n then fd_at s cur i else fd_at s child i)"
      "\<forall>t' i. t' \<noteq> child \<longrightarrow> fd_at ?s t' i = fd_at s t' i" using Suc by auto
    have n: "n < 16" "\<not> fd_used (fd_at ?s child n)" using Suc.prems IH(2) u by auto
    show ?case using fd_copy_entry_step [OF IH(1) t n] IH t(3)
      by (auto simp: less_Suc_eq)
  qed (use inv in simp)
  from this [of 16] t show "fd_inv (fd_clone_into cur child s)"
    "\<And>i. i < MAX_FDS \<Longrightarrow> fd_at (fd_clone_into cur child s) child i = fd_at s cur i"
    "\<And>t' i. t' \<noteq> child \<Longrightarrow> fd_at (fd_clone_into cur child s) t' i = fd_at s t' i"
    by (auto simp: fd_clone_into_def)
qed


lemma fd_allocate_inv:
  assumes "fd_inv s" "cur < FD_TASKS"
  shows "fd_inv (snd (fd_allocate cur node s))"
proof (cases "fd_free_slot cur s")
  case (Some i)
  then show ?thesis using fd_free_slot_Some [OF Some] assms
    by (auto simp: fd_allocate_def holds_def intro!: fd_set_file_inv split: if_splits)
qed (use assms in \<open>simp add: fd_allocate_def\<close>)

lemma fd_advance_inv:
  assumes "fd_inv s" "cur < FD_TASKS"
  shows "fd_inv (fd_advance cur i delta s)"
  using assms by (auto simp: fd_advance_def holds_def intro!: fd_set_file_inv)

lemma fd_close_inv:
  assumes "fd_inv s" "cur < FD_TASKS"
  shows "fd_inv (snd (fd_close cur i s))"
  using assms fd_drop_inv [OF assms] by (simp add: fd_close_def Let_def)

lemma fd_dup_inv:
  assumes "fd_inv s" "cur < FD_TASKS"
  shows "fd_inv (snd (fd_dup cur i s))"
proof (cases "i \<ge> MAX_FDS \<or> \<not> fd_used (fd_at s cur i) \<or> fd_free_slot cur s = None")
  case False
  then obtain j where j: "fd_free_slot cur s = Some j" by auto
  then show ?thesis using False fd_free_slot_Some [OF j] assms fd_inv_backed [OF assms]
    by (auto simp: fd_dup_def Let_def intro!: fd_copy_inv)
qed (use assms in \<open>auto simp: fd_dup_def Let_def\<close>)

lemma set_fd_twice: "set_fd t i e (set_fd t i e' s) = set_fd t i e s"
proof -
  have "xs[i := ys, i := zs] = xs[i := zs]" for xs :: "'a list" and i ys zs by simp
  then show ?thesis
    by (cases "t < length (fd_tables s)") (simp_all add: set_fd_def list_update_beyond)
qed

lemma fd_dup2_result:
  assumes inv: "fd_inv s" and t: "cur < FD_TASKS"
    and o: "oldfd < MAX_FDS" "newfd < MAX_FDS" "fd_used (fd_at s cur oldfd)" "oldfd \<noteq> newfd"
  shows "fst (fd_dup2 cur oldfd newfd s) = Some newfd"
    "fd_inv (snd (fd_dup2 cur oldfd newfd s))"
    "fd_at (snd (fd_dup2 cur oldfd newfd s)) t' i =
      (if t' = cur \<and> i = newfd then fd_at s cur oldfd else fd_at s t' i)"
proof -
  let ?e = "fd_at s cur oldfd" and ?p = "fd_at s cur newfd"
  define u where "u = (if fd_used ?p then fd_release ?p s else s)"
  have d: "fd_dup2 cur oldfd newfd s = (Some newfd, fd_retain ?e (set_fd cur newfd ?e u))"
    using o by (simp add: fd_dup2_def Let_def u_def)
  show "fst (fd_dup2 cur oldfd newfd s) = Some newfd" by (simp add: d)
  define v where "v = (if fd_used ?p then set_fd cur newfd fd_empty u else u)"
  have sv: "set_fd cur newfd ?e u = set_fd cur newfd ?e v" by (simp add: v_def set_fd_twice)
  have iv: "fd_inv v" using inv fd_drop_inv [OF inv t o(2)] by (simp add: v_def u_def)
  have su: "fd_shape u" "fd_tables u = fd_tables s"
    using iv fd_inv_shape [OF inv] fd_inv_shape [OF iv]
    by (auto simp: u_def v_def fd_shape_def set_fd_def split: if_splits)
  have av: "fd_at v t' i = (if t' = cur \<and> i = newfd \<and> fd_used ?p then fd_empty else fd_at s t' i)" for t' i
    using fd_at_set [OF su(1) t o(2)] su(2) by (simp add: v_def)
  have "fd_inv (fd_retain ?e (set_fd cur newfd ?e v))"
  proof (rule fd_copy_inv [OF iv t o(2)])
    show "\<not> fd_used (fd_at v cur newfd)" by (simp add: av fd_empty_def)
    show "backed ?e (fd_pipes v)" using fd_inv_backed [OF iv t o(1)] o(4) av by simp
  qed (rule o(3))
  then show "fd_inv (snd (fd_dup2 cur oldfd newfd s))" by (simp add: d sv)
  show "fd_at (snd (fd_dup2 cur oldfd newfd s)) t' i =
      (if t' = cur \<and> i = newfd then fd_at s cur oldfd else fd_at s t' i)"
    using fd_at_set [OF su(1) t o(2)] su(2) by (simp add: d)
qed

lemma fd_dup2_inv:
  assumes "fd_inv s" "cur < FD_TASKS"
  shows "fd_inv (snd (fd_dup2 cur oldfd newfd s))"
proof (cases "oldfd \<ge> MAX_FDS \<or> newfd \<ge> MAX_FDS \<or> \<not> fd_used (fd_at s cur oldfd) \<or> oldfd = newfd")
  case True
  then show ?thesis using assms by (auto simp: fd_dup2_def)
next
  case False
  then show ?thesis using fd_dup2_result(2) [OF assms] by simp
qed

text \<open>What the tasks see of the tables decides the number of holders.\<close>

lemma holders_get:
  assumes "\<And>t i. t < FD_TASKS \<Longrightarrow> i < MAX_FDS \<Longrightarrow> fd_get t i s' = fd_get t i s"
  shows "holders wr p s' = holders wr p s"
proof -
  have "holds wr p (fd_at u t i) \<longleftrightarrow> (\<exists>e. fd_get t i u = Some e \<and> holds wr p e)" if "i < MAX_FDS" for t i u
    using that by (auto simp: fd_get_def holds_def)
  then have "{x \<in> {..<FD_TASKS} \<times> {..<MAX_FDS}. holds wr p (fd_at s' (fst x) (snd x))} =
      {x \<in> {..<FD_TASKS} \<times> {..<MAX_FDS}. holds wr p (fd_at s (fst x) (snd x))}"
    using assms by auto
  then show ?thesis unfolding holders_def by (simp only:)
qed

text \<open>
  Opening a pipe succeeds with the two lowest free numbers, or leaves what every task sees and
  every counter as it was.
\<close>

definition pipe_opened :: "nat \<Rightarrow> nat \<Rightarrow> nat \<Rightarrow> fds \<Rightarrow> fds \<Rightarrow> bool" where
  "pipe_opened cur r w s s' \<longleftrightarrow>
     FIRST_FREE_FD \<le> r \<and> r < w \<and> w < MAX_FDS \<and>
     (\<forall>i. FIRST_FREE_FD \<le> i \<and> i < w \<and> i \<noteq> r \<longrightarrow> fd_used (fd_at s cur i)) \<and>
     \<not> fd_used (fd_at s cur r) \<and> \<not> fd_used (fd_at s cur w) \<and>
     (\<exists>p. pipe_create (fd_pipes s) = Some (p, fd_pipes s') \<and>
        fd_at s' cur r = \<lparr>fd_used = True, fd_kind = PipeRead, fd_node = p, fd_offset = 0\<rparr> \<and>
        fd_at s' cur w = \<lparr>fd_used = True, fd_kind = PipeWrite, fd_node = p, fd_offset = 0\<rparr>) \<and>
     (\<forall>t i. (t, i) \<noteq> (cur, r) \<and> (t, i) \<noteq> (cur, w) \<longrightarrow> fd_at s' t i = fd_at s t i)"

lemma create_pipe_cases:
  assumes inv: "fd_inv s" and t: "cur < FD_TASKS" and res: "create_pipe cur s = (x, s')"
  shows "fd_inv s' \<and> (case x of None \<Rightarrow> \<forall>t i. fd_get t i s' = fd_get t i s | Some (r, w) \<Rightarrow> pipe_opened cur r w s s')"
proof (cases "pipe_create (fd_pipes s)")
  case None
  then show ?thesis using inv res by (auto simp: create_pipe_def)
next
  case (Some y)
  obtain p ps where y: "y = (p, ps)" by force
  note c = Some [unfolded y]
  define s1 where "s1 = s\<lparr>fd_pipes := ps\<rparr>"
  have b1: "fd_balance {(True, p), (False, p)} s1" using fd_create_balance [OF inv c] by (simp add: s1_def)
  then have sh1: "fd_shape s1" by (simp add: fd_balance_def)
  have tab1: "fd_tables s1 = fd_tables s" by (simp add: s1_def)
  show ?thesis
  proof (cases "fd_free_slot cur s1")
    case None
    define s2 where "s2 = s1\<lparr>fd_pipes := pipe_close_end p True (pipe_close_end p False ps)\<rparr>"
    have "fd_balance ({(True, p), (False, p)} - {(False, p)} - {(True, p)}) s2"
      using fd_close_end_balance [OF fd_close_end_balance [OF b1, of False p], of True p]
      by (simp add: s1_def s2_def)
    moreover have "{(True, p), (False, p)} - {(False, p)} - {(True, p)} = {}" by auto
    moreover have "create_pipe cur s = (None, s2)"
      using None c by (simp add: create_pipe_def fd_allocate_pipe_def s1_def s2_def)
    ultimately show ?thesis using res by (simp add: fd_balance_none fd_get_def s2_def tab1)
  next
    case (Some r)
    note fr = fd_free_slot_Some [OF Some, unfolded tab1]
    let ?er = "\<lparr>fd_used = True, fd_kind = PipeRead, fd_node = p, fd_offset = 0\<rparr>"
    let ?ew = "\<lparr>fd_used = True, fd_kind = PipeWrite, fd_node = p, fd_offset = 0\<rparr>"
    define s2 where "s2 = set_fd cur r ?er s1"
    have r: "r < MAX_FDS" "\<not> fd_used (fd_at s1 cur r)" using fr tab1 by auto
    have X: "{(True, p), (False, p)} - {(False, p)} = {(True, p)}" by auto
    have b2: "fd_balance {(True, p)} s2"
      using fd_place_balance [OF b1 t r, of ?er False p] X by (simp add: s2_def)
    then have sh2: "fd_shape s2" by (simp add: fd_balance_def)
    have at2: "fd_at s2 t' i = (if t' = cur \<and> i = r then ?er else fd_at s t' i)" for t' i
      using fd_at_set [OF sh1 t r(1)] tab1 by (simp add: s2_def)
    have al1: "fd_allocate_pipe cur p PipeRead s1 = (Some r, s2)"
      using Some by (simp add: fd_allocate_pipe_def s2_def)
    show ?thesis
    proof (cases "fd_free_slot cur s2")
      case None
      define s3 where "s3 = set_fd cur r fd_empty (fd_release ?er s2)"
      define s4 where "s4 = s3\<lparr>fd_pipes := pipe_close_end p True (fd_pipes s3)\<rparr>"
      have cl: "fd_close cur r s2 = (True, s3)"
        using r(1) at2 by (simp add: fd_close_def Let_def s3_def)
      have b3: "fd_balance {(True, p)} s3" using fd_drop_balance [OF b2 t r(1)] at2 by (simp add: s3_def)
      have i4: "fd_inv s4"
        using fd_close_end_balance [OF b3, of True p] by (simp add: s4_def fd_balance_none)
      have none: "fd_allocate_pipe cur p PipeWrite s2 = (None, s2)"
        using None by (simp add: fd_allocate_pipe_def)
      have "create_pipe cur s = (None, s4)"
        using c al1 none cl by (simp add: create_pipe_def s1_def [symmetric] s4_def)
      moreover have "fd_at s4 t' i = (if t' = cur \<and> i = r then fd_empty else fd_at s t' i)" for t' i
        using fd_at_set [of s2 cur r fd_empty t' i] sh2 t r(1) at2
        by (simp add: s4_def s3_def set_fd_def)
      ultimately show ?thesis using res i4 fr by (auto simp: fd_get_def fd_empty_def)
    next
      case (Some w)
      note fw = fd_free_slot_Some [OF Some]
      define s3 where "s3 = set_fd cur w ?ew s2"
      have wr: "w \<noteq> r" "w < MAX_FDS" "3 \<le> w" "\<not> fd_used (fd_at s2 cur w)" using fw at2 by auto
      have lt: "r < w"
      proof (rule ccontr)
        assume "\<not> r < w"
        then have "fd_used (fd_at s cur w)" using fr wr by simp
        then show False using wr at2 by simp
      qed
      have b3: "fd_balance {} s3" using fd_place_balance [OF b2 t wr(2,4), of ?ew True p] by (simp add: s3_def)
      have at3: "fd_at s3 t' i = (if t' = cur \<and> i = w then ?ew else if t' = cur \<and> i = r then ?er else fd_at s t' i)"
        for t' i using fd_at_set [OF sh2 t wr(2)] at2 by (simp add: s3_def)
      have "create_pipe cur s = (Some (r, w), s3)"
        using c al1 Some by (simp add: create_pipe_def s1_def [symmetric] fd_allocate_pipe_def [of _ _ PipeWrite] s3_def)
      moreover have "pipe_opened cur r w s s3"
      proof -
        have "fd_used (fd_at s cur i)" if "3 \<le> i" "i < w" "i \<noteq> r" for i
          using fw at2 that by (metis (no_types, lifting))
        moreover have "fd_pipes s3 = ps" by (simp add: s3_def s2_def s1_def)
        ultimately show ?thesis using fr wr lt c at2 [of cur w] by (simp add: pipe_opened_def at3)
      qed
      ultimately show ?thesis using res b3 by (simp add: fd_balance_none)
    qed
  qed
qed


section \<open>Runs\<close>

text \<open>
  One call on the tables.  \<open>fork\<close> copies into the table of a task it has just started, whose
  slot has no descriptors: a task that ends gives up all of them first.
\<close>

datatype fd_op =
    FdFork nat nat | FdExit nat | FdOpen nat nat | FdPipe nat | FdDup nat nat | FdDup2 nat nat nat
  | FdAdvance nat nat nat | FdClose nat nat

fun fd_op_ok :: "fd_op \<Rightarrow> fds \<Rightarrow> bool" where
  "fd_op_ok (FdFork cur child) s =
     (cur < FD_TASKS \<and> child < FD_TASKS \<and> cur \<noteq> child \<and> list_all (\<lambda>i. \<not> fd_used (fd_at s child i)) [0..<MAX_FDS])"
| "fd_op_ok (FdExit task) s = (task < FD_TASKS)"
| "fd_op_ok (FdOpen cur node) s = (cur < FD_TASKS)"
| "fd_op_ok (FdPipe cur) s = (cur < FD_TASKS)"
| "fd_op_ok (FdDup cur i) s = (cur < FD_TASKS)"
| "fd_op_ok (FdDup2 cur i j) s = (cur < FD_TASKS)"
| "fd_op_ok (FdAdvance cur i d) s = (cur < FD_TASKS)"
| "fd_op_ok (FdClose cur i) s = (cur < FD_TASKS)"

fun fd_do :: "fd_op \<Rightarrow> fds \<Rightarrow> fds" where
  "fd_do (FdFork cur child) s = fd_clone_into cur child s"
| "fd_do (FdExit task) s = fd_close_all task s"
| "fd_do (FdOpen cur node) s = snd (fd_allocate cur node s)"
| "fd_do (FdPipe cur) s = snd (create_pipe cur s)"
| "fd_do (FdDup cur i) s = snd (fd_dup cur i s)"
| "fd_do (FdDup2 cur i j) s = snd (fd_dup2 cur i j s)"
| "fd_do (FdAdvance cur i d) s = fd_advance cur i d s"
| "fd_do (FdClose cur i) s = snd (fd_close cur i s)"

inductive fd_reachable :: "fds \<Rightarrow> bool" where
  boot: "fd_reachable (fd_init \<lparr>fd_tables = [], fd_pipes = pipes_init\<rparr>)"
| step: "fd_reachable s \<Longrightarrow> fd_op_ok a s \<Longrightarrow> fd_reachable (fd_do a s)"

lemma fd_init_inv: "fd_inv (fd_init \<lparr>fd_tables = [], fd_pipes = pipes_init\<rparr>)"
proof -
  let ?s = "fd_init \<lparr>fd_tables = [], fd_pipes = pipes_init\<rparr>"
  have "fd_at ?s t i = fd_empty" if "t < FD_TASKS" "i < MAX_FDS" for t i
    using that by (simp add: fd_init_def)
  then have none: "{x \<in> {..<FD_TASKS} \<times> {..<MAX_FDS}. holds wr p (fd_at ?s (fst x) (snd x))} = {}" for wr p
    by auto
  have "holders wr p ?s = 0" for wr p unfolding holders_def none by simp
  moreover have "end_count wr pipes_init p = 0" for wr p
    by (simp add: end_count_def pipes_init_def pipe_new_def)
  moreover have "fd_shape ?s" using pipes_inv_init by (simp add: fd_shape_def fd_init_def)
  ultimately show ?thesis by (simp add: fd_inv_def) (simp add: fd_init_def)
qed

lemma fd_do_inv: "fd_inv s \<Longrightarrow> fd_op_ok a s \<Longrightarrow> fd_inv (fd_do a s)"
  using fd_clone_into_result(1) fd_close_all_result(1) fd_allocate_inv fd_dup_inv fd_dup2_inv
    fd_advance_inv fd_close_inv create_pipe_cases [OF _ _ prod.collapse [symmetric]]
  by (cases a) (simp_all add: list_all_iff)

lemma fd_reachable_fd_inv: "fd_reachable s \<Longrightarrow> fd_inv s"
  by (induction rule: fd_reachable.induct) (simp_all add: fd_init_inv fd_do_inv)

section \<open>Properties\<close>

text \<open>
  Property C18. Descriptors own pipe ends: in every state reached from boot by opening, duplicating,
  redirecting, closing, forking and exiting tasks, the counter of each end of each pipe is the
  number of descriptors, over all tasks, that hold it, and a pipe is in use exactly when some
  descriptor holds one of its ends.  So no pipe leaks and none is freed under a holder.
\<close>

theorem fd_ends_owned:
  assumes "fd_reachable s" and "p < MAX_PIPES"
  shows "p_writers (pipe_at (fd_pipes s) p) = holders True p s \<and>
    p_readers (pipe_at (fd_pipes s) p) = holders False p s \<and>
    (p_used (pipe_at (fd_pipes s) p) \<longleftrightarrow>
       (\<exists>t<FD_TASKS. \<exists>i<MAX_FDS. holds True p (fd_at s t i) \<or> holds False p (fd_at s t i)))"
proof -
  have inv: "fd_inv s" using fd_reachable_fd_inv [OF assms(1)] .
  have ok: "pipe_ok (pipe_at (fd_pipes s) p)" using pipes_inv_at [OF fd_inv_pipes [OF inv] assms(2)] .
  have c: "end_count wr (fd_pipes s) p = holders wr p s" for wr using fd_inv_holders [OF inv] .
  have pos: "0 < holders wr p s \<longleftrightarrow> (\<exists>t<FD_TASKS. \<exists>i<MAX_FDS. holds wr p (fd_at s t i))" for wr
  proof
    assume "0 < holders wr p s"
    then have "{x \<in> {..<FD_TASKS} \<times> {..<MAX_FDS}. holds wr p (fd_at s (fst x) (snd x))} \<noteq> {}"
      unfolding holders_def by (metis card.empty less_irrefl)
    then show "\<exists>t<FD_TASKS. \<exists>i<MAX_FDS. holds wr p (fd_at s t i)" by auto
  qed (use holder_counted in blast)
  show ?thesis
    using c [of True] c [of False] ok assms(2) pos [of True] pos [of False]
    by (cases "p_used (pipe_at (fd_pipes s) p)") (auto simp: end_count_def pipe_ok_def)
qed

text \<open>Task 2 has opened a pipe: 3 is its read end, 4 its write end.\<close>

definition boot_fds :: fds where
  "boot_fds = fd_init \<lparr>fd_tables = [], fd_pipes = pipes_init\<rparr>"

definition demo_fds :: fds where
  "demo_fds = snd (create_pipe 2 boot_fds)"

lemma demo_fds_reachable: "fd_reachable demo_fds"
  using fd_reachable.step [OF fd_reachable.boot, of "FdPipe 2"] by (simp add: demo_fds_def boot_fds_def)

theorem fd_ends_owned_witness:
  "p_writers (pipe_at (fd_pipes demo_fds) 0) = holders True 0 demo_fds"
  using fd_ends_owned [OF demo_fds_reachable, of 0] by simp

lemma demo_fds_open: "create_pipe 2 boot_fds = (Some (3, 4), demo_fds)"
  and demo_fds_at: "fd_at demo_fds 2 3 = \<lparr>fd_used = True, fd_kind = PipeRead, fd_node = 0, fd_offset = 0\<rparr>"
    "fd_at demo_fds 2 4 = \<lparr>fd_used = True, fd_kind = PipeWrite, fd_node = 0, fd_offset = 0\<rparr>"
    "i < MAX_FDS \<Longrightarrow> \<not> fd_used (fd_at demo_fds 3 i)"
    "\<not> fd_used (fd_at demo_fds 2 2)"
proof -
  have f: "find_slot (\<lambda>i. \<not> p_used (pipe_at pipes_init i)) 0 MAX_PIPES = Some 0"
    by (rule find_slot_first) (simp_all add: pipes_init_def pipe_new_def)
  let ?ps = "set_pipe 0 \<lparr>p_used = True, p_head = 0, p_tail = 0, p_writers = 1, p_readers = 1\<rparr> pipes_init"
  define s1 where "s1 = boot_fds\<lparr>fd_pipes := ?ps\<rparr>"
  let ?er = "\<lparr>fd_used = True, fd_kind = PipeRead, fd_node = 0, fd_offset = 0\<rparr>"
  let ?ew = "\<lparr>fd_used = True, fd_kind = PipeWrite, fd_node = 0, fd_offset = 0\<rparr>"
  have b: "fd_at boot_fds t i = fd_empty" if "t < 8" "i < 16" for t i
    using that by (simp add: boot_fds_def fd_init_def)
  have sh: "fd_shape boot_fds" using fd_inv_shape [OF fd_init_inv] by (simp add: boot_fds_def)
  have s1: "fd_tables s1 = fd_tables boot_fds" by (simp add: s1_def)
  have sh1: "fd_shape s1" using sh set_pipe_inv [OF pipes_inv_init, of 0]
    by (simp add: fd_shape_def pipe_ok_def s1_def)
  have at2: "fd_at (set_fd 2 3 ?er s1) t i = (if t = 2 \<and> i = 3 then ?er else fd_at boot_fds t i)" for t i
    using fd_at_set [OF sh1, of 2 3 ?er t i] s1 by simp
  have f1: "fd_free_slot 2 s1 = Some 3"
    unfolding fd_free_slot_def by (rule find_slot_first) (simp_all add: s1 b fd_empty_def)
  have f2: "fd_free_slot 2 (set_fd 2 3 ?er s1) = Some 4"
    unfolding fd_free_slot_def
  proof (rule find_slot_first)
    fix j assume "3 \<le> j" "j < (4 :: nat)"
    then have "j = 3" by simp
    then show "\<not> \<not> fd_used (fd_at (set_fd 2 3 ?er s1) 2 j)" by (simp add: at2)
  qed (simp_all add: at2 b fd_empty_def)
  have r: "create_pipe 2 boot_fds = (Some (3, 4), set_fd 2 4 ?ew (set_fd 2 3 ?er s1))"
    using f f1 f2 by (simp add: create_pipe_def pipe_create_def boot_fds_def fd_init_def fd_allocate_pipe_def s1_def)
  then have d: "demo_fds = set_fd 2 4 ?ew (set_fd 2 3 ?er s1)" by (simp add: demo_fds_def)
  have at3: "fd_at demo_fds t i = (if t = 2 \<and> i = 4 then ?ew else if t = 2 \<and> i = 3 then ?er else fd_at boot_fds t i)" for t i
    using fd_at_set [OF set_fd_shape [OF sh1, of 2 3 ?er], of 2 4 ?ew t i] at2 unfolding d by simp
  show "create_pipe 2 boot_fds = (Some (3, 4), demo_fds)" using r d by simp
  show "fd_at demo_fds 2 3 = ?er" "fd_at demo_fds 2 4 = ?ew" "i < 16 \<Longrightarrow> \<not> fd_used (fd_at demo_fds 3 i)"
    "\<not> fd_used (fd_at demo_fds 2 2)"
    by (simp_all add: at3 b fd_empty_def)
qed

lemma demo_fds_inv: "fd_inv demo_fds"
  using fd_reachable_fd_inv [OF demo_fds_reachable] .

text \<open>
  Redirection: \<open>dup2\<close> makes the new number refer to exactly what the old one refers to and
  changes no other descriptor of any task; the balance of owners is kept, so what the new number
  held before is given up and a pipe that both share stays open.  Closing the new number
  afterwards leaves the others as they were, with the new number back to its default.
\<close>

theorem fd_dup2_redirects:
  assumes "fd_inv s" "cur < FD_TASKS" "oldfd < MAX_FDS" "newfd < MAX_FDS" "oldfd \<noteq> newfd"
    and "fd_get cur oldfd s = Some e" and "fd_dup2 cur oldfd newfd s = (r, s')"
  shows "r = Some newfd \<and> fd_inv s' \<and> fd_get cur newfd s' = Some e \<and>
    (\<forall>t i. (t, i) \<noteq> (cur, newfd) \<longrightarrow> fd_get t i s' = fd_get t i s) \<and>
    (case fd_close cur newfd s' of (ok, s'') \<Rightarrow> ok \<and> fd_inv s'' \<and>
       (\<forall>t<FD_TASKS. \<forall>i<MAX_FDS. fd_get t i s'' = (if (t, i) = (cur, newfd) then None else fd_get t i s)))"
proof -
  have e: "fd_used (fd_at s cur oldfd)" "e = fd_at s cur oldfd"
    using assms(6) by (auto simp: fd_get_def split: if_splits)
  note d = fd_dup2_result [OF assms(1-4) e(1) assms(5)]
  have s': "r = Some newfd" "fd_inv s'" using d(1,2) assms(7) by simp_all
  have at': "fd_at s' t i = (if t = cur \<and> i = newfd then e else fd_at s t i)" for t i
    using d(3) [of t i] assms(7) e(2) by simp
  obtain ok s'' where cl: "fd_close cur newfd s' = (ok, s'')" by force
  have u: "fd_used (fd_at s' cur newfd)" using at' e by simp
  have s'': "ok" "s'' = set_fd cur newfd fd_empty (fd_release (fd_at s' cur newfd) s')"
    using cl u assms(4) by (simp_all add: fd_close_def Let_def)
  have inv'': "fd_inv s''" using fd_drop_inv [OF s'(2) assms(2,4) u] s''(2) by simp
  have sh: "fd_shape (fd_release (fd_at s' cur newfd) s')"
    using fd_inv_shape [OF s'(2)] fd_release_result(1) [OF fd_inv_pipes [OF s'(2)] u fd_inv_backed [OF s'(2) assms(2,4)]]
    by (simp add: fd_shape_def)
  have "fd_at s'' t i = (if t = cur \<and> i = newfd then fd_empty else fd_at s t i)" for t i
    using fd_at_set [OF sh assms(2,4)] at' by (simp add: s''(2))
  then show ?thesis using s' s'' inv'' cl at' assms(4) e by (auto simp: fd_get_def fd_empty_def)
qed

theorem fd_dup2_redirects_witness:
  "fst (fd_dup2 2 4 0 demo_fds) = Some 0 \<and> fd_get 2 0 (snd (fd_dup2 2 4 0 demo_fds)) = fd_get 2 4 demo_fds"
proof -
  have g: "fd_get 2 4 demo_fds = Some (fd_at demo_fds 2 4)" by (simp add: fd_get_def demo_fds_at)
  show ?thesis
    using fd_dup2_redirects [OF demo_fds_inv _ _ _ _ g prod.collapse [symmetric], of 0] g by simp
qed

text \<open>
  Fork and exit balance: after \<open>fork\<close> the child sees exactly its parent's descriptors and
  each pipe end has as many more holders as the parent has descriptors on it; when the child
  exits, however it exits, every counter and every other task's table is what it was before.
\<close>

theorem fd_fork_exit_balanced:
  assumes "fd_inv s" "cur < FD_TASKS" "child < FD_TASKS" "cur \<noteq> child"
    and "\<forall>i<MAX_FDS. \<not> fd_used (fd_at s child i)"
  defines "s1 \<equiv> fd_clone_into cur child s"
  defines "s2 \<equiv> fd_close_all child s1"
  shows "(\<forall>i<MAX_FDS. fd_get child i s1 = fd_get cur i s) \<and>
    (\<forall>t i. t \<noteq> child \<longrightarrow> fd_get t i s1 = fd_get t i s \<and> fd_get t i s2 = fd_get t i s) \<and>
    (\<forall>i<MAX_FDS. fd_get child i s2 = None) \<and>
    (\<forall>wr p. end_count wr (fd_pipes s1) p = end_count wr (fd_pipes s) p +
        card {i \<in> {..<MAX_FDS}. holds wr p (fd_at s cur i)}) \<and>
    (\<forall>wr p. end_count wr (fd_pipes s2) p = end_count wr (fd_pipes s) p)"
proof -
  note c = fd_clone_into_result [OF assms(1-5), folded s1_def]
  note x = fd_close_all_result [OF c(1) assms(3), folded s2_def]
  have get2: "fd_get t i s2 = fd_get t i s" if "t < FD_TASKS" "i < MAX_FDS" for t i
    using x(2,3) c(3) assms(5) that by (cases "t = child") (auto simp: fd_get_def)
  have "holders wr p s2 = holders wr p s" for wr p by (rule holders_get [OF get2])
  then have e2: "end_count wr (fd_pipes s2) p = end_count wr (fd_pipes s) p" for wr p
    using fd_inv_holders [OF x(1)] fd_inv_holders [OF assms(1)] by simp
  have e1: "holders wr p s1 = holders wr p s + card {i \<in> {..<MAX_FDS}. holds wr p (fd_at s cur i)}" for wr p
  proof -
    let ?A = "{..<FD_TASKS} \<times> {..<MAX_FDS}"
    let ?H = "{x \<in> ?A. holds wr p (fd_at s (fst x) (snd x))}"
    let ?I = "{i \<in> {..<MAX_FDS}. holds wr p (fd_at s cur i)}"
    have "{x \<in> ?A. holds wr p (fd_at s1 (fst x) (snd x))} = ?H \<union> Pair child ` ?I"
      using c(2,3) assms(3,5) by (auto simp: holds_cases image_iff) (metis holds_cases(4))+
    moreover have "?H \<inter> Pair child ` ?I = {}" using assms(5) by (auto simp: holds_cases)
    moreover have "card (Pair child ` ?I) = card ?I" by (rule card_image) (simp add: inj_on_def)
    moreover have "card (?H \<union> Pair child ` ?I) = card ?H + card (Pair child ` ?I)"
      by (rule card_Un_disjoint) (use calculation in auto)
    ultimately show ?thesis unfolding holders_def by (simp only:)
  qed
  show ?thesis using c x e2 e1 fd_inv_holders [OF c(1)] fd_inv_holders [OF assms(1)]
    by (simp add: fd_get_def)
qed

theorem fd_fork_exit_balanced_witness:
  "end_count True (fd_pipes (fd_close_all 3 (fd_clone_into 2 3 demo_fds))) 0 = end_count True (fd_pipes demo_fds) 0"
  using fd_fork_exit_balanced [OF demo_fds_inv, of 2 3] demo_fds_at(3) by simp

text \<open>
  Opening a pipe connects its two descriptors or changes nothing: on success the call
  returns the two lowest free numbers, one for each end of a pipe that was free, and up to 1024
  bytes written through the second are read through the first, in order; on failure every task
  sees the descriptors it had and every end has the holders it had.
\<close>

theorem create_pipe_connects:
  assumes "fd_inv s" "cur < FD_TASKS" and "create_pipe cur s = (x, s')"
  shows "fd_inv s' \<and>
    (case x of
       None \<Rightarrow> (\<forall>t i. fd_get t i s' = fd_get t i s) \<and> (\<forall>wr p. end_count wr (fd_pipes s') p = end_count wr (fd_pipes s) p)
     | Some (r, w) \<Rightarrow> pipe_opened cur r w s s' \<and> fd_node (fd_at s' cur r) = fd_node (fd_at s' cur w) \<and>
         (\<forall>bs. length bs \<le> PIPE_CAPACITY \<longrightarrow>
            (case pipe_write (fd_node (fd_at s' cur w)) bs (fd_pipes s') of
               (n, ps) \<Rightarrow> n = length bs \<and> fst (pipe_read (fd_node (fd_at s' cur r)) (length bs) ps) = bs)))"
proof (cases x)
  case None
  have c: "fd_inv s'" "\<forall>t i. fd_get t i s' = fd_get t i s"
    using create_pipe_cases [OF assms] None by auto
  then have "holders wr p s' = holders wr p s" for wr p using holders_get by blast
  then show ?thesis using c None fd_inv_holders [OF c(1)] fd_inv_holders [OF assms(1)] by simp
next
  case (Some y)
  obtain r w where y: "y = (r, w)" by force
  have c: "fd_inv s'" "pipe_opened cur r w s s'" using create_pipe_cases [OF assms] Some y by auto
  obtain p where p: "pipe_create (fd_pipes s) = Some (p, fd_pipes s')"
    "fd_node (fd_at s' cur r) = p" "fd_node (fd_at s' cur w) = p"
    using c(2) by (auto simp: pipe_opened_def)
  note cr = pipe_create_Some [OF fd_inv_pipes [OF assms(1)] p(1)]
  have i: "pipes_inv (fd_pipes s')" "p < MAX_PIPES" "p_used (pipe_at (fd_pipes s') p)"
    "0 < p_readers (pipe_at (fd_pipes s') p)" "pipe_len (pipe_at (fd_pipes s') p) = 0"
    "p_tail (pipe_at (fd_pipes s') p) = 0"
    using cr by (auto simp: pipe_len_def)
  have "n = length bs \<and> fst (pipe_read p (length bs) ps) = bs"
    if "length bs \<le> PIPE_CAPACITY" "pipe_write p bs (fd_pipes s') = (n, ps)" for bs n ps
  proof -
    note wr = pipe_write_result [OF i(1-4) that(2)]
    have n: "n = length bs" using wr(1) i(5) that(1) by simp
    have "pipe_content ps p = pipe_content (fd_pipes s') p @ take n bs"
      by (rule pipe_write_content [OF i(1-4) that(2)]) (use i(5,6) n that(1) in simp)
    then have ct: "pipe_content ps p = bs" using n i(5) by (simp add: pipe_content_def)
    have ps: "pipes_inv ps" "p_used (pipe_at ps p)" using wr(6,2) i(3) by auto
    obtain out t where rd: "pipe_read p (length bs) ps = (out, t)" by fastforce
    have "out = take (length bs) (pipe_content ps p)" by (rule pipe_read_result(1) [OF ps(1) i(2) ps(2) rd])
    then show ?thesis using rd ct n by simp
  qed
  then show ?thesis using c Some y p(2,3) by (auto split: prod.splits)
qed

theorem create_pipe_connects_witness:
  "fst (pipe_write 0 [72, 105] (fd_pipes demo_fds)) = 2 \<and>
   fst (pipe_read 0 2 (snd (pipe_write 0 [72, 105] (fd_pipes demo_fds)))) = [72, 105]"
proof -
  obtain n ps where w: "pipe_write 0 [72, 105] (fd_pipes demo_fds) = (n, ps)" by force
  have len: "length [72, 105 :: byte] = 2" by simp
  have c: "case pipe_write 0 bs (fd_pipes demo_fds) of
      (n, ps) \<Rightarrow> n = length bs \<and> fst (pipe_read 0 (length bs) ps) = bs" if "length bs \<le> PIPE_CAPACITY" for bs
    using create_pipe_connects [OF fd_init_inv _ demo_fds_open [unfolded boot_fds_def]] that
    by (simp only: option.case prod.case demo_fds_at fd_entry.select_convs)
  show ?thesis using c [of "[72, 105]"] w len by (simp add: numeral_2_eq_2)
qed

end
