(* ===== verification/Kmalloc.thy ===== *)
theory Kmalloc imports Prelude begin

text \<open>
  The kernel heap, \<^verbatim>\<open>kernel/src/level0a/core/kmalloc.rs\<close>: a bump allocator over 4 MiB at
  8 MiB that never frees.  Its only state is \<open>NEXT_FREE\<close>.  Addresses and sizes are 64-bit
  words, with the wrap-around of the alignment arithmetic and the overflow test of
  \<open>checked_add\<close>.
\<close>

type_synonym usize = "64 word"

abbreviation HEAP_START :: usize where "HEAP_START \<equiv> 8388608"
abbreviation HEAP_END :: usize where "HEAP_END \<equiv> 12582912"

definition is_power_of_two :: "usize \<Rightarrow> bool" where
  "is_power_of_two n \<longleftrightarrow> list_ex (\<lambda>k. n = 2 ^ k) [0..<64]"

definition checked_add :: "usize \<Rightarrow> usize \<Rightarrow> usize option" where
  "checked_add a b = (if unat a + unat b < 2 ^ 64 then Some (a + b) else None)"

definition kmalloc_aligned :: "usize \<Rightarrow> usize \<Rightarrow> usize \<Rightarrow> (usize \<times> usize) option" where
  "kmalloc_aligned sz align next_free =
     (if sz = 0 \<or> \<not> is_power_of_two align then None
      else (let current = next_free;
                start = (current + align - 1) AND NOT (align - 1) in
            case checked_add start sz of
              None \<Rightarrow> None
            | Some fin \<Rightarrow> if fin > HEAP_END then None else Some (start, fin)))"

definition kmalloc :: "usize \<Rightarrow> usize \<Rightarrow> (usize \<times> usize) option" where
  "kmalloc sz next_free = kmalloc_aligned sz 16 next_free"

definition used_bytes :: "usize \<Rightarrow> usize" where
  "used_bytes next_free = next_free - HEAP_START"

definition free_bytes :: "usize \<Rightarrow> usize" where
  "free_bytes next_free = HEAP_END - next_free"

text \<open>Requests in a row; a refused request leaves the heap as it is.\<close>

fun kmalloc_run :: "(usize \<times> usize) list \<Rightarrow> usize \<Rightarrow> (usize \<times> usize) list \<times> usize" where
  "kmalloc_run [] h = ([], h)"
| "kmalloc_run ((sz, align) # rs) h =
     (case kmalloc_aligned sz align h of
        None \<Rightarrow> kmalloc_run rs h
      | Some (p, h') \<Rightarrow> (let (bs, h'') = kmalloc_run rs h' in ((p, sz) # bs, h'')))"

section \<open>Alignment\<close>

lemma is_power_of_two_iff: "is_power_of_two n \<longleftrightarrow> (\<exists>k<64. n = 2 ^ k)"
  by (auto simp: is_power_of_two_def list_ex_iff)

lemma clear_low_bits: "(x :: usize) AND NOT (mask k) = push_bit k (drop_bit k x)"
  by (rule bit_eqI) (auto simp: bit_simps)

lemma unat_clear_low_bits:
  fixes x :: usize
  shows "unat (x AND NOT (mask k)) = unat x div 2 ^ k * 2 ^ k"
proof -
  have x: "unat x < 2 ^ 64" using unsigned_less [of x, where 'a = nat] by simp
  then have "unat x div 2 ^ k * 2 ^ k < 2 ^ 64"
    by (simp add: le_less_trans [OF div_times_less_eq_dividend])
  with x show ?thesis
    by (simp add: clear_low_bits unsigned_push_bit_eq unsigned_drop_bit_eq
        push_bit_eq_mult [where 'a = nat] drop_bit_eq_div [where 'a = nat] take_bit_eq_mod)
qed

lemma unat_power_of_two: "k < 64 \<Longrightarrow> unat ((2 :: usize) ^ k) = 2 ^ k"
proof -
  assume k: "k < 64"
  have "unat ((2 :: usize) ^ k) = unat (word_of_nat (2 ^ k) :: usize)" by simp
  also have "\<dots> = 2 ^ k" by (subst unsigned_of_nat) (use k in \<open>simp add: take_bit_nat_eq_self\<close>)
  finally show ?thesis .
qed

lemma unat_round_base:
  assumes "unat (h :: usize) \<le> unat HEAP_END" "k < 64"
  shows "unat (h + 2 ^ k - 1) = unat h + 2 ^ k - 1"
proof -
  have "(2 :: nat) ^ k \<le> 2 ^ 63" using assms(2) by (intro power_increasing) auto
  then have "unat h + 2 ^ k < 2 ^ 64" using assms by simp
  moreover have "unat ((2 :: usize) ^ k) = 2 ^ k" using assms(2) by (rule unat_power_of_two)
  ultimately have e: "unat (h + 2 ^ k) = unat h + 2 ^ k" by (subst unat_word_ariths) simp
  moreover have "0 < unat h + 2 ^ k" by simp
  ultimately have "h + 2 ^ k \<noteq> 0" by (metis unat_0 less_irrefl)
  then show ?thesis using e by (simp add: unat_minus_one)
qed

lemma round_up_bounds:
  fixes n a :: nat
  assumes "0 < a"
  shows "n \<le> (n + a - 1) div a * a" "(n + a - 1) div a * a < n + a"
proof -
  have "(n + a - 1) div a * a + (n + a - 1) mod a = n + a - 1" by simp
  moreover have "(n + a - 1) mod a \<le> a - 1" using assms by (simp add: less_Suc_eq_le [symmetric])
  ultimately show "n \<le> (n + a - 1) div a * a" "(n + a - 1) div a * a < n + a"
    using assms by linarith+
qed

lemma checked_add_Some: "checked_add a b = Some c \<Longrightarrow> unat c = unat a + unat b"
  by (auto simp: checked_add_def unat_word_ariths split: if_splits)

text \<open>The allocated block starts at the next multiple of the alignment.\<close>

lemma kmalloc_aligned_Some:
  assumes "kmalloc_aligned sz align h = Some (p, h')" "unat h \<le> unat HEAP_END"
  shows "is_power_of_two align \<and> 0 < unat sz \<and> unat align dvd unat p \<and>
    unat h \<le> unat p \<and> unat p < unat h + unat align \<and>
    unat h' = unat p + unat sz \<and> unat h' \<le> unat HEAP_END"
proof -
  have sz: "sz \<noteq> 0" and pw: "is_power_of_two align"
    using assms(1) by (auto simp: kmalloc_aligned_def split: if_splits)
  then obtain k where k: "k < 64" "align = 2 ^ k" by (auto simp: is_power_of_two_iff)
  have a: "unat align = 2 ^ k" using unat_power_of_two k by simp
  have m: "align - 1 = mask k" using k by (simp add: mask_eq_exp_minus_1)
  have p: "p = (h + align - 1) AND NOT (align - 1)" and c: "checked_add p sz = Some h'"
    and h': "\<not> h' > HEAP_END"
    using assms(1) sz pw by (auto simp: kmalloc_aligned_def Let_def split: option.splits if_splits)
  have up: "unat p = (unat h + 2 ^ k - 1) div 2 ^ k * 2 ^ k"
    unfolding p m unat_clear_low_bits using unat_round_base [OF assms(2) k(1)] by (simp add: k(2))
  have "unat h \<le> unat p" "unat p < unat h + unat align"
    using round_up_bounds [of "2 ^ k" "unat h"] by (simp_all only: up a) simp_all
  moreover have "unat align dvd unat p" by (simp add: up a)
  moreover have "0 < unat sz" using sz by (simp add: unat_gt_0)
  moreover have "unat h' \<le> unat HEAP_END" using h' by (simp add: word_less_nat_alt not_less)
  ultimately show ?thesis using pw checked_add_Some [OF c] by blast
qed

lemma kmalloc_run_bounds:
  assumes "kmalloc_run rs h = (bs, h')" "unat h \<le> unat HEAP_END"
  shows "unat h \<le> unat h' \<and> unat h' \<le> unat HEAP_END \<and>
    (\<forall>(p, n)\<in>set bs. 0 < unat n \<and> unat h \<le> unat p \<and> unat p + unat n \<le> unat h') \<and>
    sorted_wrt (\<lambda>(p, n) (q, m). unat p + unat n \<le> unat q) bs"
  using assms
proof (induction rs h arbitrary: bs h' rule: kmalloc_run.induct)
  case (1 h)
  then show ?case by simp
next
  case (2 sz align rs h)
  show ?case
  proof (cases "kmalloc_aligned sz align h")
    case None
    with 2 show ?thesis by simp
  next
    case (Some r)
    obtain p t where r: "r = (p, t)" by (cases r)
    obtain bs' where bs: "kmalloc_run rs t = (bs', h')" "bs = (p, sz) # bs'"
      using 2(3) Some r by (auto split: prod.splits)
    have al: "0 < unat sz" "unat h \<le> unat p" "unat t = unat p + unat sz"
      "unat t \<le> unat HEAP_END"
      using kmalloc_aligned_Some [of sz align h p t] Some r 2(4) by auto
    have IH: "unat t \<le> unat h'" "unat h' \<le> unat HEAP_END"
      "\<forall>(p, n)\<in>set bs'. 0 < unat n \<and> unat t \<le> unat p \<and> unat p + unat n \<le> unat h'"
      "sorted_wrt (\<lambda>(p, n) (q, m). unat p + unat n \<le> unat q) bs'"
      using 2(2) [OF Some r [symmetric] bs(1) al(4)] by auto
    show ?thesis unfolding bs(2) using IH al by (auto split: prod.splits)
  qed
qed


section \<open>Property\<close>

text \<open>
  Property C12. Every block the heap hands out over any sequence of requests lies inside the 4 MiB heap, and no
  two blocks overlap: each ends before the next begins.
\<close>

theorem kmalloc_blocks_disjoint:
  assumes "kmalloc_run rs HEAP_START = (bs, h)"
  shows "sorted_wrt (\<lambda>(p, n) (q, m). unat p + unat n \<le> unat q) bs \<and>
    (\<forall>(p, n)\<in>set bs. unat HEAP_START \<le> unat p \<and> unat p + unat n \<le> unat HEAP_END) \<and>
    unat (used_bytes h) + unat (free_bytes h) = unat (HEAP_END - HEAP_START)"
proof -
  have b: "unat HEAP_START \<le> unat h" "unat h \<le> unat HEAP_END"
    "\<forall>(p, n)\<in>set bs. 0 < unat n \<and> unat HEAP_START \<le> unat p \<and> unat p + unat n \<le> unat h"
    "sorted_wrt (\<lambda>(p, n) (q, m). unat p + unat n \<le> unat q) bs"
    using kmalloc_run_bounds [OF assms] by simp_all
  have "unat (used_bytes h) = unat h - unat HEAP_START" "unat (free_bytes h) = unat HEAP_END - unat h"
    using b(1,2) by (simp_all only: used_bytes_def free_bytes_def unat_sub_if' word_le_nat_alt if_True)
  with b show ?thesis by fastforce
qed

theorem kmalloc_blocks_disjoint_witness:
  "kmalloc_run [(100, 16), (0, 16), (8, 64)] HEAP_START = ([(8388608, 100), (8388736, 8)], 8388744) \<and>
   unat (used_bytes 8388744) + unat (free_bytes 8388744) = unat (HEAP_END - HEAP_START)"
proof -
  have r: "kmalloc_run [(100, 16), (0, 16), (8, 64)] HEAP_START
      = ([(8388608, 100), (8388736, 8)], 8388744)"
  proof -
    have "is_power_of_two 16" "is_power_of_two 64"
      unfolding is_power_of_two_iff by (rule exI [of _ 4], simp) (rule exI [of _ 6], simp)
    then show ?thesis by (simp add: kmalloc_aligned_def checked_add_def)
  qed
  then show ?thesis using kmalloc_blocks_disjoint [OF r] by blast
qed

end
