(* ===== verification/Sched.thy ===== *)
theory Sched imports Kmalloc begin

text \<open>
  The task scheduler, \<^verbatim>\<open>kernel/src/level0a/core/scheduler.rs\<close>, with the tick and heartbeat
  counters of \<^verbatim>\<open>kernel/src/level0a/pit.rs\<close> it reads and writes.

  The record \<open>task\<close> is the struct \<open>Task\<close>, \<open>sched\<close> the statics of the file, the heap pointer
  that \<open>spawn\<close> draws stacks from, the PIT counters, and the two registers a switch loads
  (kernel stack and CR3).  A context switch stores the outgoing stack pointer, which the
  functions that switch take as the argument \<open>rsp\<close>; the contents of the stacks are not modelled.
  A call that blocks (\<open>sleep_ticks\<close>, \<open>wait_for_task\<close>, \<open>wait_for_io\<close>) is split at its \<open>yield_now\<close>:
  what it does before the task gives the CPU away, and what it does each time it runs again.
\<close>

section \<open>State\<close>

abbreviation (input) MAX_TASKS :: nat where "MAX_TASKS \<equiv> 8"
abbreviation (input) IDLE_TASK :: nat where "IDLE_TASK \<equiv> 0"
abbreviation (input) TASK_STACK_SIZE :: nat where "TASK_STACK_SIZE \<equiv> 16384"

datatype task_state = Unused | Ready | Running | Blocked | Waiting | IoWait | Terminated

record task =
  t_state :: task_state
  t_sp :: nat
  t_name :: string
  t_kstack :: nat
  t_resume :: nat
  t_in_user :: bool
  t_space :: nat
  t_wake :: nat
  t_wait_for :: nat
  t_exit :: nat
  t_nice :: int
  t_credits :: nat
  t_parent :: nat
  t_waitable :: bool
  t_stack_top :: nat
  t_cpu_ticks :: nat

definition task_empty :: task where
  "task_empty =
     \<lparr>t_state = Unused, t_sp = 0, t_name = '''', t_kstack = 0, t_resume = 0, t_in_user = False,
      t_space = 0, t_wake = 0, t_wait_for = 0, t_exit = 0, t_nice = 0, t_credits = 0,
      t_parent = 0, t_waitable = False, t_stack_top = 0, t_cpu_ticks = 0\<rparr>"

record sched =
  tasks :: "task list"
  current :: nat
  task_count :: nat
  need_resched :: bool
  switches :: nat
  io_waits :: nat
  preemptions :: nat
  preempt_lock :: nat
  next_free :: usize
  ticks :: nat
  heartbeat :: nat
  beat_suppressed_until :: nat
  hw_kstack :: nat
  cr3 :: nat
  kernel_cr3 :: nat

abbreviation task_at :: "sched \<Rightarrow> nat \<Rightarrow> task" where "task_at s i \<equiv> tasks s ! i"
abbreviation state_at :: "sched \<Rightarrow> nat \<Rightarrow> task_state" where "state_at s i \<equiv> t_state (tasks s ! i)"

definition upd_task :: "nat \<Rightarrow> (task \<Rightarrow> task) \<Rightarrow> sched \<Rightarrow> sched" where
  "upd_task i f s = s\<lparr>tasks := (tasks s)[i := f (tasks s ! i)]\<rparr>"

definition set_state :: "nat \<Rightarrow> task_state \<Rightarrow> sched \<Rightarrow> sched" where
  "set_state i st s = upd_task i (\<lambda>t. t\<lparr>t_state := st\<rparr>) s"

text \<open>The statics before \<open>init\<close>, with a heap pointer and a kernel CR3.\<close>

definition sched_boot :: "usize \<Rightarrow> nat \<Rightarrow> sched" where
  "sched_boot heap kcr3 =
     \<lparr>tasks = replicate MAX_TASKS task_empty, current = 0, task_count = 0, need_resched = False,
      switches = 0, io_waits = 0, preemptions = 0, preempt_lock = 0, next_free = heap, ticks = 0,
      heartbeat = 0, beat_suppressed_until = 0, hw_kstack = 0, cr3 = kcr3, kernel_cr3 = kcr3\<rparr>"

definition sched_init :: "sched \<Rightarrow> sched" where
  "sched_init s =
     (upd_task 0 (\<lambda>t. t\<lparr>t_state := Running, t_name := ''idle''\<rparr>) s)\<lparr>current := 0, task_count := 1\<rparr>"

section \<open>Priorities\<close>

text \<open>\<open>nice\<close> is an \<open>i8\<close>, so the match below covers its whole range.\<close>

definition slice_ticks :: "int \<Rightarrow> nat" where
  "slice_ticks nice =
     (if nice \<le> - 10 then 8 else if nice \<le> - 1 then 4 else if nice \<le> 4 then 2 else 1)"

definition refill_credits :: "nat \<Rightarrow> sched \<Rightarrow> sched" where
  "refill_credits count s =
     fold (\<lambda>i. upd_task i (\<lambda>t. t\<lparr>t_credits := slice_ticks (t_nice t)\<rparr>)) [0..<count] s"

definition on_timer_tick :: "sched \<Rightarrow> sched" where
  "on_timer_tick s =
     (let cur = current s;
          s1 = upd_task cur (\<lambda>t. t\<lparr>t_cpu_ticks := w32 (t_cpu_ticks t + 1)\<rparr>) s in
      if t_credits (task_at s1 cur) > 1
      then upd_task cur (\<lambda>t. t\<lparr>t_credits := t_credits t - 1\<rparr>) s1
      else (upd_task cur (\<lambda>t. t\<lparr>t_credits := 0\<rparr>) s1)\<lparr>need_resched := True\<rparr>)"

definition set_nice :: "nat \<Rightarrow> int \<Rightarrow> sched \<Rightarrow> (string, unit) outcome \<times> sched" where
  "set_nice index value s =
     (if index \<ge> MAX_TASKS then (Err ''gecersiz gorev numarasi'', s)
      else (let clamped = max (- 20) (min 19 value) in
            if state_at s index = Unused then (Err ''gorev yok'', s)
            else (Ok (), upd_task index (\<lambda>t. t\<lparr>t_nice := clamped\<rparr>) s)))"

section \<open>Slots\<close>

text \<open>\<open>bootstrap_stack\<close> pushes the entry address, six registers and RFLAGS.\<close>

definition bootstrap_stack :: "nat \<Rightarrow> nat" where
  "bootstrap_stack stack_top = stack_top - 8 * 8"

text \<open>
  The slot is an \<open>Unused\<close> one below \<open>TASK_COUNT\<close>, or the next one; its stacks are reused when
  it had some, and allocated otherwise.
\<close>

definition spawn_slot :: "sched \<Rightarrow> (nat \<times> sched) option" where
  "spawn_slot s =
     (let count = task_count s in
      case find_slot (\<lambda>i. state_at s i = Unused) 0 count of
        Some i \<Rightarrow> Some (i, s)
      | None \<Rightarrow> if count \<ge> MAX_TASKS then None else Some (count, s\<lparr>task_count := count + 1\<rparr>))"

definition spawn_stacks :: "nat \<Rightarrow> sched \<Rightarrow> (nat \<times> nat) option \<times> sched" where
  "spawn_stacks index s =
     (if t_stack_top (task_at s index) \<noteq> 0
      then (Some (t_stack_top (task_at s index), t_kstack (task_at s index)), s)
      else (case kmalloc_aligned (of_nat TASK_STACK_SIZE) 16 (next_free s) of
              None \<Rightarrow> (None, s)
            | Some (stack, h) \<Rightarrow>
                (case kmalloc_aligned (of_nat TASK_STACK_SIZE) 16 h of
                   None \<Rightarrow> (None, s\<lparr>next_free := h\<rparr>)
                 | Some (kstack, h') \<Rightarrow>
                     (Some (unat stack + TASK_STACK_SIZE, unat kstack + TASK_STACK_SIZE),
                      s\<lparr>next_free := h'\<rparr>))))"

definition spawn_inner :: "string \<Rightarrow> bool \<Rightarrow> sched \<Rightarrow> nat option \<times> sched" where
  "spawn_inner name waitable s =
     (case spawn_slot s of
        None \<Rightarrow> (None, s)
      | Some (index, s1) \<Rightarrow>
          (case spawn_stacks index s1 of
             (None, s2) \<Rightarrow> (None, s2)
           | (Some (stack_top, kstack_top), s2) \<Rightarrow>
               (Some index,
                upd_task index (\<lambda>t. t\<lparr>t_nice := 0, t_credits := slice_ticks 0, t_cpu_ticks := 0,
                  t_state := Ready, t_sp := bootstrap_stack stack_top, t_stack_top := stack_top,
                  t_name := name, t_kstack := kstack_top, t_resume := 0, t_in_user := False,
                  t_space := 0, t_wake := 0, t_wait_for := 0, t_exit := 0,
                  t_parent := current s2, t_waitable := waitable\<rparr>) s2)))"

definition spawn :: "string \<Rightarrow> sched \<Rightarrow> nat option \<times> sched" where
  "spawn name s = spawn_inner name False s"

definition spawn_child :: "string \<Rightarrow> sched \<Rightarrow> nat option \<times> sched" where
  "spawn_child name s = spawn_inner name True s"

definition release_slot :: "nat \<Rightarrow> sched \<Rightarrow> sched" where
  "release_slot index s =
     upd_task index (\<lambda>t. t\<lparr>t_state := Unused, t_waitable := False, t_wait_for := 0,
                           t_credits := 0, t_name := ''''\<rparr>) s"

definition parent_alive :: "sched \<Rightarrow> nat \<Rightarrow> nat \<Rightarrow> bool" where
  "parent_alive s count parent \<longleftrightarrow>
     parent < count \<and> state_at s parent \<noteq> Unused \<and> state_at s parent \<noteq> Terminated"

definition reap_orphans :: "sched \<Rightarrow> sched" where
  "reap_orphans s =
     (let count = task_count s in
      fold (\<lambda>i s. if state_at s i \<noteq> Terminated \<or> \<not> t_waitable (task_at s i) then s
                  else if parent_alive s count (t_parent (task_at s i)) then s
                  else release_slot i s) [0..<count] s)"


section \<open>Wake-up, choice and switch\<close>

text \<open>\<open>now.wrapping_sub(t) < 0x8000_0000\<close>: the tick \<open>t\<close> is not in the future.\<close>

definition tick_reached :: "nat \<Rightarrow> nat \<Rightarrow> bool" where
  "tick_reached now t \<longleftrightarrow> wsub 32 now t < 2 ^ 31"

definition wake_one :: "nat \<Rightarrow> nat \<Rightarrow> sched \<Rightarrow> sched" where
  "wake_one now i s =
     (case state_at s i of
        Blocked \<Rightarrow> if tick_reached now (t_wake (task_at s i)) then set_state i Ready s else s
      | Waiting \<Rightarrow>
          (let target = wsub 64 (t_wait_for (task_at s i)) 1 in
           if state_at s target = Terminated
           then upd_task i (\<lambda>t. t\<lparr>t_state := Ready, t_wait_for := 0\<rparr>) s else s)
      | _ \<Rightarrow> s)"

definition wake_expired :: "nat \<Rightarrow> sched \<Rightarrow> sched" where
  "wake_expired count s = fold (wake_one (ticks s)) [0..<count] s"

definition eligible :: "sched \<Rightarrow> nat \<Rightarrow> bool" where
  "eligible s c \<longleftrightarrow> state_at s c = Ready \<and> c \<noteq> IDLE_TASK \<and> t_credits (task_at s c) \<noteq> 0"

text \<open>One pass: the offsets \<open>1..=count\<close> from the current task, cyclically.\<close>

definition scan_ready :: "nat \<Rightarrow> nat \<Rightarrow> sched \<Rightarrow> nat option" where
  "scan_ready cur count s =
     map_option (\<lambda>offset. (cur + offset) mod count)
       (find_slot (\<lambda>offset. eligible s ((cur + offset) mod count)) 1 (count + 1))"

definition pick_fallback :: "nat \<Rightarrow> sched \<Rightarrow> nat" where
  "pick_fallback cur s =
     (if cur \<noteq> IDLE_TASK \<and> state_at s cur = Running \<and> t_credits (task_at s cur) > 0 then cur
      else if state_at s IDLE_TASK = Ready \<or> state_at s IDLE_TASK = Running then IDLE_TASK
      else cur)"

definition pick_next :: "nat \<Rightarrow> sched \<Rightarrow> nat \<times> sched" where
  "pick_next cur s =
     (let count = task_count s;
          s1 = wake_expired count s in
      case scan_ready cur count s1 of
        Some c \<Rightarrow> (c, s1)
      | None \<Rightarrow>
          (let s2 = refill_credits count s1 in
           case scan_ready cur count s2 of
             Some c \<Rightarrow> (c, s2)
           | None \<Rightarrow> (pick_fallback cur s2, s2)))"

text \<open>\<open>pit::beat\<close>; the shared copy of the counter is the same number.\<close>

definition beat :: "sched \<Rightarrow> sched" where
  "beat s =
     (if beat_suppressed_until s \<noteq> 0 \<and> ticks s < beat_suppressed_until s then s
      else s\<lparr>beat_suppressed_until := 0, heartbeat := w32 (heartbeat s + 1)\<rparr>)"

definition suppress_heartbeat :: "nat \<Rightarrow> sched \<Rightarrow> sched" where
  "suppress_heartbeat n s = s\<lparr>beat_suppressed_until := w32 (ticks s + n)\<rparr>"

definition switch_to_task :: "nat \<Rightarrow> nat \<Rightarrow> nat \<Rightarrow> sched \<Rightarrow> sched" where
  "switch_to_task rsp cur next s =
     (let s = (if state_at s cur = Running then set_state cur Ready s else s);
          s = (if cur \<noteq> IDLE_TASK
               then upd_task cur (\<lambda>t. t\<lparr>t_credits := t_credits t - 1\<rparr>) s else s);
          s = (if next = IDLE_TASK then refill_credits (task_count s) s else s);
          s = (set_state next Running s)\<lparr>current := next, switches := switches s + 1\<rparr>;
          kstack = t_kstack (task_at s next);
          s = (if kstack \<noteq> 0 then s\<lparr>hw_kstack := kstack\<rparr> else s);
          space = t_space (task_at s next);
          s = s\<lparr>cr3 := (if space \<noteq> 0 then space else kernel_cr3 s)\<rparr>
      in upd_task cur (\<lambda>t. t\<lparr>t_sp := rsp\<rparr>) s)"

definition yield_now :: "nat \<Rightarrow> sched \<Rightarrow> sched" where
  "yield_now rsp s0 =
     (let s = beat (s0\<lparr>need_resched := False\<rparr>);
          cur = current s;
          (next, s) = pick_next cur s in
      if next = cur then s else switch_to_task rsp cur next s)"

definition preempt_from_timer :: "nat \<Rightarrow> sched \<Rightarrow> sched" where
  "preempt_from_timer rsp s =
     (if task_count s < 2 then s
      else if preempt_lock s \<noteq> 0 then s
      else if \<not> need_resched s then s
      else yield_now rsp (s\<lparr>preemptions := preemptions s + 1\<rparr>))"

definition preempt_disable :: "sched \<Rightarrow> sched" where
  "preempt_disable s = s\<lparr>preempt_lock := preempt_lock s + 1\<rparr>"

definition preempt_enable :: "sched \<Rightarrow> sched" where
  "preempt_enable s = s\<lparr>preempt_lock := wsub 64 (preempt_lock s) 1\<rparr>"

text \<open>The part of \<open>pit::on_tick\<close> that concerns the scheduler: count, then charge the task.\<close>

definition pit_on_tick :: "sched \<Rightarrow> sched" where
  "pit_on_tick s = on_timer_tick (s\<lparr>ticks := w32 (ticks s + 1)\<rparr>)"

section \<open>Blocking calls\<close>

text \<open>\<open>None\<close>: the call only yields; otherwise the tick to wake at.\<close>

definition sleep_begin :: "nat \<Rightarrow> sched \<Rightarrow> nat option \<times> sched" where
  "sleep_begin n s =
     (let cur = current s in
      if cur = 0 \<or> n = 0 then (None, s)
      else (let wake = w32 (ticks s + n) in
            (Some wake, upd_task cur (\<lambda>t. t\<lparr>t_wake := wake, t_state := Blocked\<rparr>) s)))"

text \<open>Each time the sleeper runs again: back to its caller, or another \<open>yield_now\<close>.\<close>

definition sleep_resume :: "nat \<Rightarrow> sched \<Rightarrow> bool \<times> sched" where
  "sleep_resume wake s =
     (if tick_reached (ticks s) wake then (True, set_state (current s) Running s) else (False, s))"

datatype io_wait = IoDone bool | IoAsleep nat

definition io_arm :: "bool \<Rightarrow> nat \<Rightarrow> sched \<Rightarrow> io_wait \<times> sched" where
  "io_arm ready deadline s =
     (if ready then (IoDone True, s)
      else (IoAsleep deadline, (set_state (current s) IoWait s)\<lparr>io_waits := io_waits s + 1\<rparr>))"

definition wait_for_io_begin :: "bool \<Rightarrow> nat \<Rightarrow> sched \<Rightarrow> io_wait \<times> sched" where
  "wait_for_io_begin ready timeout s =
     (if current s = 0 then (IoDone ready, s)
      else io_arm ready (w32 (ticks s + timeout)) s)"

definition wait_for_io_resume :: "bool \<Rightarrow> nat \<Rightarrow> sched \<Rightarrow> io_wait \<times> sched" where
  "wait_for_io_resume ready deadline s =
     (if ready then (IoDone True, set_state (current s) Running s)
      else if tick_reached (ticks s) deadline then (IoDone False, set_state (current s) Running s)
      else io_arm ready deadline s)"

definition wake_io_waiters :: "sched \<Rightarrow> nat \<times> sched" where
  "wake_io_waiters s =
     fold (\<lambda>i (woken, s). if state_at s i = IoWait then (woken + 1, set_state i Ready s) else (woken, s))
       [0..<task_count s] (0, s)"

datatype wait_result = WaitDone "nat option" | WaitAsleep nat

definition wait_for_task_begin :: "nat \<Rightarrow> sched \<Rightarrow> wait_result \<times> sched" where
  "wait_for_task_begin child s =
     (let cur = current s in
      if child \<ge> task_count s \<or> child = cur \<or> cur = 0 then (WaitDone None, s)
      else if state_at s child = Unused then (WaitDone None, s)
      else if state_at s child = Terminated
      then (WaitDone (Some (t_exit (task_at s child))), release_slot child s)
      else (WaitAsleep child,
            upd_task cur (\<lambda>t. t\<lparr>t_wait_for := child + 1, t_state := Waiting\<rparr>) s))"

definition wait_for_task_resume :: "nat \<Rightarrow> sched \<Rightarrow> wait_result \<times> sched" where
  "wait_for_task_resume child s =
     (if state_at s child = Terminated
      then (WaitDone (Some (t_exit (task_at s child))), release_slot child s)
      else (WaitAsleep child, s))"

definition finished_child :: "nat \<Rightarrow> sched \<Rightarrow> nat option" where
  "finished_child parent s =
     find_slot (\<lambda>i. i \<noteq> parent \<and> t_parent (task_at s i) = parent \<and> state_at s i = Terminated) 0 (task_count s)"

definition reap_finished_child :: "nat \<Rightarrow> sched \<Rightarrow> (nat \<times> nat) option \<times> sched" where
  "reap_finished_child parent s =
     (case finished_child parent s of
        None \<Rightarrow> (None, s)
      | Some i \<Rightarrow> (Some (i, t_exit (task_at s i)), release_slot i s))"

datatype wait_any_result = AnyDone "(nat \<times> nat) option" | AnyAsleep nat

definition wait_for_any_begin :: "sched \<Rightarrow> wait_any_result \<times> sched" where
  "wait_for_any_begin s =
     (let cur = current s in
      case reap_finished_child cur s of
        (Some r, s') \<Rightarrow> (AnyDone (Some r), s')
      | (None, s') \<Rightarrow>
          (case find_slot (\<lambda>i. i \<noteq> cur \<and> t_parent (task_at s' i) = cur \<and> state_at s' i \<noteq> Unused)
                  0 (task_count s') of
             None \<Rightarrow> (AnyDone None, s')
           | Some i \<Rightarrow>
               (case wait_for_task_begin i s' of
                  (WaitDone r, s'') \<Rightarrow> (AnyDone (map_option (Pair i) r), s'')
                | (WaitAsleep c, s'') \<Rightarrow> (AnyAsleep c, s''))))"

definition has_children :: "nat \<Rightarrow> sched \<Rightarrow> bool" where
  "has_children index s \<longleftrightarrow>
     list_ex (\<lambda>i. i \<noteq> index \<and> t_parent (task_at s i) = index \<and> state_at s i \<noteq> Unused) [0..<task_count s]"

section \<open>Termination\<close>

text \<open>
  The critical sections of \<open>terminate_current\<close> and \<open>terminate\<close>; closing the descriptors, windows
  and the address space is composed around them where those components are in scope.
\<close>

definition mark_current_terminated :: "sched \<Rightarrow> sched" where
  "mark_current_terminated s =
     (let cur = current s;
          s = set_state cur Terminated s;
          s = (if \<not> t_waitable (task_at s cur) then release_slot cur s else s)
      in reap_orphans s)"

definition mark_terminated :: "nat \<Rightarrow> sched \<Rightarrow> (string, nat) outcome \<times> sched" where
  "mark_terminated index s =
     (if index = 0 then (Err ''idle gorevi sonlandirilamaz'', s)
      else if index \<ge> MAX_TASKS then (Err ''gecersiz gorev numarasi'', s)
      else if index = current s then (Err ''calisan gorev bu yoldan sonlandirilamaz'', s)
      else (case state_at s index of
              Unused \<Rightarrow> (Err ''gorev yok'', s)
            | Terminated \<Rightarrow> (Err ''gorev zaten sonlandirilmis'', s)
            | _ \<Rightarrow>
                (let s = set_state index Terminated s;
                     space = t_space (task_at s index);
                     s = upd_task index (\<lambda>t. t\<lparr>t_space := 0\<rparr>) s
                 in (Ok space, if \<not> t_waitable (task_at s index) then release_slot index s else s))))"

section \<open>Accessors that write\<close>

definition set_current_in_user_mode :: "bool \<Rightarrow> sched \<Rightarrow> sched" where
  "set_current_in_user_mode flag s = upd_task (current s) (\<lambda>t. t\<lparr>t_in_user := flag\<rparr>) s"

definition set_current_address_space :: "nat \<Rightarrow> sched \<Rightarrow> sched" where
  "set_current_address_space c s = upd_task (current s) (\<lambda>t. t\<lparr>t_space := c\<rparr>) s"

definition set_current_exit_code :: "nat \<Rightarrow> sched \<Rightarrow> sched" where
  "set_current_exit_code code s = upd_task (current s) (\<lambda>t. t\<lparr>t_exit := code\<rparr>) s"

definition set_address_space :: "nat \<Rightarrow> nat \<Rightarrow> sched \<Rightarrow> sched" where
  "set_address_space index c s =
     (if index \<ge> MAX_TASKS then s else upd_task index (\<lambda>t. t\<lparr>t_space := c\<rparr>) s)"

definition sleeping_count :: "sched \<Rightarrow> nat" where
  "sleeping_count s = length (filter (\<lambda>i. state_at s i = Blocked) [0..<task_count s])"

definition user_task_count :: "sched \<Rightarrow> nat" where
  "user_task_count s =
     length (filter (\<lambda>i. t_in_user (task_at s i) \<and> state_at s i \<noteq> Terminated) [0..<task_count s])"

end
