(* ===== verification/SchedInv.thy ===== *)
theory SchedInv imports Sched begin

text \<open>
  The invariant of the scheduler: what waking, choosing and switching make of the task table,
  that every operation preserves the invariant, and the step relation with its reachable states.
\<close>

section \<open>Invariant\<close>

definition sched_inv :: "sched \<Rightarrow> bool" where
  "sched_inv s \<longleftrightarrow>
     length (tasks s) = MAX_TASKS \<and> 0 < task_count s \<and> task_count s \<le> MAX_TASKS \<and>
     current s < task_count s \<and>
     (\<forall>i<MAX_TASKS. task_count s \<le> i \<longrightarrow> state_at s i = Unused) \<and>
     state_at s IDLE_TASK = (if current s = IDLE_TASK then Running else Ready) \<and>
     (\<forall>i<MAX_TASKS. state_at s i = Running \<longrightarrow> i = current s) \<and>
     (\<forall>i<MAX_TASKS. state_at s i = Waiting \<longrightarrow>
        0 < t_wait_for (task_at s i) \<and> t_wait_for (task_at s i) \<le> task_count s) \<and>
     (\<forall>i<MAX_TASKS. t_credits (task_at s i) \<le> 8)"

lemma sched_invD:
  assumes "sched_inv s"
  shows "length (tasks s) = MAX_TASKS" "0 < task_count s" "task_count s \<le> MAX_TASKS"
    "current s < task_count s"
    "\<And>i. i < MAX_TASKS \<Longrightarrow> task_count s \<le> i \<Longrightarrow> state_at s i = Unused"
    "state_at s IDLE_TASK = (if current s = IDLE_TASK then Running else Ready)"
    "\<And>i. i < MAX_TASKS \<Longrightarrow> state_at s i = Running \<Longrightarrow> i = current s"
    "\<And>i. i < MAX_TASKS \<Longrightarrow> state_at s i = Waiting \<Longrightarrow>
      0 < t_wait_for (task_at s i) \<and> t_wait_for (task_at s i) \<le> task_count s"
    "\<And>i. i < MAX_TASKS \<Longrightarrow> t_credits (task_at s i) \<le> 8"
  using assms unfolding sched_inv_def by blast+

lemma slice_ticks_bounds [simp]: "0 < slice_ticks n" "slice_ticks n \<le> 8" "slice_ticks n \<noteq> 0"
  by (simp_all add: slice_ticks_def)

lemma upd_task_simps [simp]:
  "current (upd_task i f s) = current s" "task_count (upd_task i f s) = task_count s"
  "ticks (upd_task i f s) = ticks s" "length (tasks (upd_task i f s)) = length (tasks s)"
  "next_free (upd_task i f s) = next_free s" "kernel_cr3 (upd_task i f s) = kernel_cr3 s"
  by (simp_all add: upd_task_def)

lemma task_at_upd [simp]:
  "i < length (tasks s) \<Longrightarrow> task_at (upd_task i f s) j = (if i = j then f (task_at s i) else task_at s j)"
  by (simp add: upd_task_def)

lemma set_state_simps [simp]:
  "current (set_state i st s) = current s" "task_count (set_state i st s) = task_count s"
  "ticks (set_state i st s) = ticks s" "length (tasks (set_state i st s)) = length (tasks s)"
  "next_free (set_state i st s) = next_free s" "kernel_cr3 (set_state i st s) = kernel_cr3 s"
  by (simp_all add: set_state_def)

lemma task_at_set_state [simp]:
  "i < length (tasks s) \<Longrightarrow>
     task_at (set_state i st s) j = (if i = j then (task_at s i)\<lparr>t_state := st\<rparr> else task_at s j)"
  by (simp add: set_state_def)

text \<open>Two states that differ in their task tables only.\<close>

definition same_ctl :: "sched \<Rightarrow> sched \<Rightarrow> bool" where
  "same_ctl s s' \<longleftrightarrow> s' = s\<lparr>tasks := tasks s'\<rparr> \<and> length (tasks s') = length (tasks s)"

lemma same_ctl_refl [simp]: "same_ctl s s"
  by (simp add: same_ctl_def)

lemma same_ctl_trans: "same_ctl s t \<Longrightarrow> same_ctl t u \<Longrightarrow> same_ctl s u"
  unfolding same_ctl_def by (metis sched.surjective sched.update_convs(1))

lemma same_ctl_upd [simp]: "same_ctl s (upd_task i f s)" "same_ctl s (set_state i st s)"
  by (simp_all add: same_ctl_def upd_task_def set_state_def)

lemma same_ctl_eqs:
  assumes "same_ctl s s'"
  shows "current s' = current s" "task_count s' = task_count s" "ticks s' = ticks s"
    "length (tasks s') = length (tasks s)" "next_free s' = next_free s" "kernel_cr3 s' = kernel_cr3 s"
    "heartbeat s' = heartbeat s" "switches s' = switches s"
proof -
  obtain ts where s': "s' = s\<lparr>tasks := ts\<rparr>" and l: "length (tasks s') = length (tasks s)"
    using assms unfolding same_ctl_def by metis
  show "current s' = current s" "task_count s' = task_count s" "ticks s' = ticks s"
    "next_free s' = next_free s" "kernel_cr3 s' = kernel_cr3 s"
    "heartbeat s' = heartbeat s" "switches s' = switches s"
    "length (tasks s') = length (tasks s)" using l by (simp_all add: s')
qed

lemma fold_upd_task:
  assumes "n \<le> length (tasks s)"
  shows "same_ctl s (fold (\<lambda>i. upd_task i (f i)) [0..<n] s) \<and>
    (\<forall>j<length (tasks s). task_at (fold (\<lambda>i. upd_task i (f i)) [0..<n] s) j =
      (if j < n then f j (task_at s j) else task_at s j))"
  using assms
proof (induction n)
  case (Suc n)
  let ?t = "fold (\<lambda>i. upd_task i (f i)) [0..<n] s"
  have IH: "same_ctl s ?t" "\<forall>j<length (tasks s). task_at ?t j =
      (if j < n then f j (task_at s j) else task_at s j)" using Suc by auto
  have "length (tasks ?t) = length (tasks s)" using same_ctl_eqs(4) [OF IH(1)] .
  then show ?case using IH Suc.prems same_ctl_trans [OF IH(1)] by auto
qed simp

lemma refill_result:
  assumes "n \<le> length (tasks s)"
  shows "same_ctl s (refill_credits n s)"
    and "j < length (tasks s) \<Longrightarrow> task_at (refill_credits n s) j =
      (if j < n then (task_at s j)\<lparr>t_credits := slice_ticks (t_nice (task_at s j))\<rparr> else task_at s j)"
  using fold_upd_task [OF assms, of "\<lambda>_ t. t\<lparr>t_credits := slice_ticks (t_nice t)\<rparr>"]
  by (auto simp: refill_credits_def)

section \<open>Waking\<close>

text \<open>What \<open>wake_expired\<close> makes of task \<open>i\<close>, read off the state before it.\<close>

definition woken :: "sched \<Rightarrow> nat \<Rightarrow> task" where
  "woken s i = (let t = task_at s i in
     case t_state t of
       Blocked \<Rightarrow> if tick_reached (ticks s) (t_wake t) then t\<lparr>t_state := Ready\<rparr> else t
     | Waiting \<Rightarrow> if state_at s (t_wait_for t - 1) = Terminated
                 then t\<lparr>t_state := Ready, t_wait_for := 0\<rparr> else t
     | _ \<Rightarrow> t)"

lemma wake_one_result:
  assumes "i < length (tasks s)"
    and "state_at s i = Waiting \<Longrightarrow> 0 < t_wait_for (task_at s i) \<and> t_wait_for (task_at s i) \<le> MAX_TASKS"
  shows "wake_one (ticks s) i s = upd_task i (\<lambda>_. woken s i) s"
proof -
  have id: "upd_task i (\<lambda>_. task_at s i) s = s" by (simp add: upd_task_def)
  have w: "state_at s i = Waiting \<Longrightarrow> wsub 64 (t_wait_for (task_at s i)) 1 = t_wait_for (task_at s i) - 1"
    using assms(2) by (intro wsub_le) auto
  show ?thesis
    by (cases "state_at s i")
      (auto simp: wake_one_def woken_def Let_def id set_state_def upd_task_def dest: w)
qed

lemma woken_Terminated: "t_state (woken s i) = Terminated \<longleftrightarrow> state_at s i = Terminated"
  by (auto simp: woken_def Let_def split: task_state.splits if_splits)

lemma wake_expired_result:
  assumes "sched_inv s"
  shows "same_ctl s (wake_expired (task_count s) s)"
    and "j < MAX_TASKS \<Longrightarrow> task_at (wake_expired (task_count s) s) j =
      (if j < task_count s then woken s j else task_at s j)"
proof -
  have len: "length (tasks s) = 8" "task_count s \<le> 8" using assms by (auto simp: sched_inv_def)
  have "same_ctl s (fold (wake_one (ticks s)) [0..<n] s) \<and>
    (\<forall>j<8. task_at (fold (wake_one (ticks s)) [0..<n] s) j = (if j < n then woken s j else task_at s j))"
    if "n \<le> task_count s" for n
    using that
  proof (induction n)
    case (Suc n)
    let ?t = "fold (wake_one (ticks s)) [0..<n] s"
    have IH: "same_ctl s ?t" "\<forall>j<8. task_at ?t j = (if j < n then woken s j else task_at s j)"
      using Suc by auto
    note eqs = same_ctl_eqs [OF IH(1)]
    have n: "n < 8" "n < length (tasks ?t)" using Suc.prems len eqs by auto
    have wait: "state_at s n = Waiting \<Longrightarrow> 0 < t_wait_for (task_at s n) \<and> t_wait_for (task_at s n) \<le> 8"
      using sched_invD(8) [OF assms n(1)] len(2) by linarith
    have same: "task_at ?t n = task_at s n" using IH(2) n by simp
    have "wake_one (ticks ?t) n ?t = upd_task n (\<lambda>_. woken ?t n) ?t"
      using wake_one_result [of n ?t] n wait same by auto
    moreover have "woken ?t n = woken s n"
    proof (cases "state_at s n = Waiting")
      case True
      then have "t_wait_for (task_at s n) - 1 < 8" using wait by auto
      then have "state_at ?t (t_wait_for (task_at s n) - 1) = Terminated \<longleftrightarrow>
          state_at s (t_wait_for (task_at s n) - 1) = Terminated"
        using IH(2) woken_Terminated by auto
      then show ?thesis using True by (simp add: woken_def Let_def same)
    qed (simp add: woken_def Let_def same eqs split: task_state.splits)
    ultimately have e: "fold (wake_one (ticks s)) [0..<Suc n] s = upd_task n (\<lambda>_. woken s n) ?t"
      by (simp add: eqs)
    show ?case unfolding e using IH n same_ctl_trans [OF IH(1)] by (auto simp: less_Suc_eq)
  qed (simp add: len)
  from this [of "task_count s"] show "same_ctl s (wake_expired (task_count s) s)"
    "j < MAX_TASKS \<Longrightarrow> task_at (wake_expired (task_count s) s) j =
      (if j < task_count s then woken s j else task_at s j)"
    by (auto simp: wake_expired_def)
qed


section \<open>Preservation\<close>

text \<open>What may become of entry \<open>i\<close> without breaking the invariant.\<close>

definition task_change_ok :: "sched \<Rightarrow> nat \<Rightarrow> task \<Rightarrow> bool" where
  "task_change_ok s i t \<longleftrightarrow>
     (task_count s \<le> i \<longrightarrow> t_state t = Unused) \<and>
     (i = IDLE_TASK \<longrightarrow> t_state t = state_at s IDLE_TASK) \<and>
     (t_state t = Running \<longrightarrow> i = current s) \<and>
     (t_state t = Waiting \<longrightarrow> 0 < t_wait_for t \<and> t_wait_for t \<le> task_count s) \<and>
     t_credits t \<le> 8"

lemma task_change_refl:
  assumes "sched_inv s" "i < MAX_TASKS"
  shows "task_change_ok s i (task_at s i)"
proof -
  note d = sched_invD [OF assms(1)]
  show ?thesis unfolding task_change_ok_def
    using d(5,7,8,9) [OF assms(2)] by blast
qed

lemma sched_inv_table:
  assumes inv: "sched_inv s" and ctl: "same_ctl s s'"
    and ok: "\<And>i. i < MAX_TASKS \<Longrightarrow> task_change_ok s i (task_at s' i)"
  shows "sched_inv s'"
proof -
  note e = same_ctl_eqs [OF ctl] and d = sched_invD [OF inv]
  have "state_at s' 0 = state_at s 0" using ok [of 0] by (simp add: task_change_ok_def)
  then show ?thesis
    unfolding sched_inv_def using e d(1-4,6) ok by (simp add: task_change_ok_def)
qed

lemma sched_inv_upd:
  assumes "sched_inv s" "i < MAX_TASKS" "task_change_ok s i (f (task_at s i))"
  shows "sched_inv (upd_task i f s)"
  using assms by (intro sched_inv_table [OF assms(1)]) (auto simp: sched_invD(1) task_change_refl)

lemma sched_inv_set_state:
  assumes "sched_inv s" "i < MAX_TASKS" "task_change_ok s i ((task_at s i)\<lparr>t_state := st\<rparr>)"
  shows "sched_inv (set_state i st s)"
  unfolding set_state_def using assms by (rule sched_inv_upd)

text \<open>The invariant reads the table, the current task and the count only.\<close>

lemma sched_inv_cong:
  "tasks s' = tasks s \<Longrightarrow> current s' = current s \<Longrightarrow> task_count s' = task_count s \<Longrightarrow>
     sched_inv s' \<longleftrightarrow> sched_inv s"
  by (simp add: sched_inv_def)

lemma sched_inv_ctl [simp]:
  "sched_inv (s\<lparr>need_resched := b\<rparr>) = sched_inv s"
  "sched_inv (s\<lparr>preemptions := n\<rparr>) = sched_inv s"
  "sched_inv (s\<lparr>io_waits := n\<rparr>) = sched_inv s"
  "sched_inv (s\<lparr>preempt_lock := n\<rparr>) = sched_inv s"
  "sched_inv (s\<lparr>next_free := h\<rparr>) = sched_inv s"
  "sched_inv (s\<lparr>ticks := n\<rparr>) = sched_inv s"
  "sched_inv (s\<lparr>heartbeat := n\<rparr>) = sched_inv s"
  "sched_inv (s\<lparr>beat_suppressed_until := n\<rparr>) = sched_inv s"
  "sched_inv (s\<lparr>switches := n\<rparr>) = sched_inv s"
  "sched_inv (s\<lparr>hw_kstack := n\<rparr>) = sched_inv s"
  "sched_inv (s\<lparr>cr3 := n\<rparr>) = sched_inv s"
  by (simp_all add: sched_inv_def)

lemma woken_state:
  "t_state (woken s i) = Ready \<or> t_state (woken s i) = state_at s i"
  "state_at s i \<in> {Unused, Ready, Running, IoWait, Terminated} \<Longrightarrow> woken s i = task_at s i"
  by (auto simp: woken_def Let_def split: task_state.splits)

lemma woken_fields [simp]: "t_credits (woken s i) = t_credits (task_at s i)"
    "t_nice (woken s i) = t_nice (task_at s i)"
  by (auto simp: woken_def Let_def split: task_state.splits)

lemma woken_wait:
  "t_state (woken s i) = Waiting \<Longrightarrow> state_at s i = Waiting \<and> woken s i = task_at s i"
  by (auto simp: woken_def Let_def split: task_state.splits if_splits)

lemma woken_Running: "t_state (woken s i) = Running \<Longrightarrow> state_at s i = Running"
  by (auto simp: woken_def Let_def split: task_state.splits if_splits)

lemma idle_awake: "sched_inv s \<Longrightarrow> woken s 0 = task_at s 0"
  by (rule woken_state(2)) (simp add: sched_invD(6))

lemma wake_expired_inv:
  assumes "sched_inv s"
  shows "sched_inv (wake_expired (task_count s) s)"
proof (rule sched_inv_table [OF assms wake_expired_result(1) [OF assms]])
  fix i assume i: "i < MAX_TASKS"
  note d = sched_invD [OF assms]
  show "task_change_ok s i (task_at (wake_expired (task_count s) s) i)"
  proof (cases "i < task_count s")
    case True
    have "i = 0 \<Longrightarrow> t_state (woken s i) = state_at s 0" using idle_awake [OF assms] by simp
    moreover have "t_state (woken s i) = Running \<Longrightarrow> i = current s" using woken_Running d(7) [OF i] by blast
    moreover have "t_state (woken s i) = Waiting \<Longrightarrow>
        0 < t_wait_for (woken s i) \<and> t_wait_for (woken s i) \<le> task_count s"
      using woken_wait [of s i] d(8) [OF i] by simp
    ultimately have "task_change_ok s i (woken s i)"
      unfolding task_change_ok_def using True d(9) [OF i] by simp
    then show ?thesis using True by (simp add: wake_expired_result(2) [OF assms i])
  next
    case False
    then show ?thesis
      by (simp add: wake_expired_result(2) [OF assms i] task_change_refl [OF assms i])
  qed
qed

lemma refill_inv:
  assumes "sched_inv s" "n \<le> task_count s"
  shows "sched_inv (refill_credits n s)"
proof -
  note d = sched_invD [OF assms(1)]
  have n: "n \<le> length (tasks s)" using d(1,3) assms(2) by simp
  show ?thesis
  proof (rule sched_inv_table [OF assms(1) refill_result(1) [OF n]])
    fix i assume i: "i < MAX_TASKS"
    then show "task_change_ok s i (task_at (refill_credits n s) i)"
      using task_change_refl [OF assms(1) i] d(1)
      by (auto simp: refill_result(2) [OF n] task_change_ok_def)
  qed
qed


section \<open>Choosing\<close>

text \<open>How many places after \<open>cur\<close>, going round, \<open>c\<close> comes; a full round for \<open>cur\<close> itself.\<close>

definition ahead :: "nat \<Rightarrow> nat \<Rightarrow> nat \<Rightarrow> nat" where
  "ahead count cur c = (if cur < c then c - cur else c + count - cur)"

lemma ahead_bounds: "cur < count \<Longrightarrow> c < count \<Longrightarrow> 1 \<le> ahead count cur c \<and> ahead count cur c \<le> count"
  by (auto simp: ahead_def)

lemma ahead_mod: "cur < count \<Longrightarrow> c < count \<Longrightarrow> (cur + ahead count cur c) mod count = c"
  by (auto simp: ahead_def)

lemma ahead_of_mod:
  assumes "cur < count" "1 \<le> off" "off \<le> count"
  shows "ahead count cur ((cur + off) mod count) = off"
proof (cases "cur + off < count")
  case True
  then show ?thesis using assms by (simp add: ahead_def)
next
  case False
  then have "(cur + off) mod count = cur + off - count" using assms by (simp add: mod_if)
  then show ?thesis using assms False by (simp add: ahead_def)
qed

lemma scan_Some:
  assumes "scan_ready cur count s = Some c" "cur < count"
  shows "c < count" "eligible s c"
    "\<And>j. j < count \<Longrightarrow> eligible s j \<Longrightarrow> ahead count cur c \<le> ahead count cur j"
proof -
  obtain off where f: "find_slot (\<lambda>off. eligible s ((cur + off) mod count)) 1 (count + 1) = Some off"
    and c: "c = (cur + off) mod count" using assms(1) by (auto simp: scan_ready_def)
  have o: "1 \<le> off" "off \<le> count" "eligible s c"
      "\<And>o'. 1 \<le> o' \<Longrightarrow> o' < off \<Longrightarrow> \<not> eligible s ((cur + o') mod count)"
    using find_slot_Some [OF f] c by auto
  show "c < count" "eligible s c" using assms(2) o(3) c by auto
  fix j assume j: "j < count" "eligible s j"
  have "\<not> ahead count cur j < off"
    using o(4) [of "ahead count cur j"] ahead_bounds [OF assms(2) j(1)] ahead_mod [OF assms(2) j(1)] j(2)
    by auto
  then show "ahead count cur c \<le> ahead count cur j"
    using ahead_of_mod [OF assms(2) o(1,2)] c by simp
qed

lemma scan_None:
  assumes "scan_ready cur count s = None" "cur < count" "j < count"
  shows "\<not> eligible s j"
proof -
  have "\<forall>o'. 1 \<le> o' \<and> o' < count + 1 \<longrightarrow> \<not> eligible s ((cur + o') mod count)"
    using assms(1) by (simp add: scan_ready_def find_slot_None)
  then show ?thesis
    using ahead_bounds [OF assms(2,3)] ahead_mod [OF assms(2,3)] by (metis less_Suc_eq_le Suc_eq_plus1)
qed

text \<open>
  The table \<open>pick_next\<close> leaves: woken, and with fresh credits for all when no ready task had
  any left.
\<close>

definition out_of_credits :: "sched \<Rightarrow> bool" where
  "out_of_credits s \<longleftrightarrow> (\<forall>i<task_count s. \<not> (t_state (woken s i) = Ready \<and> i \<noteq> IDLE_TASK \<and> t_credits (task_at s i) \<noteq> 0))"

definition picked_task :: "sched \<Rightarrow> nat \<Rightarrow> task" where
  "picked_task s i =
     (if i < task_count s
      then if out_of_credits s then (woken s i)\<lparr>t_credits := slice_ticks (t_nice (task_at s i))\<rparr> else woken s i
      else task_at s i)"

lemma eligible_woken:
  assumes "sched_inv s" "i < task_count s"
  shows "eligible (wake_expired (task_count s) s) i \<longleftrightarrow>
     t_state (woken s i) = Ready \<and> i \<noteq> IDLE_TASK \<and> t_credits (task_at s i) \<noteq> 0"
proof -
  have "i < MAX_TASKS" using sched_invD(3) [OF assms(1)] assms(2) by simp
  then show ?thesis using assms(2) by (simp add: eligible_def wake_expired_result(2) [OF assms(1)])
qed

lemma pick_next_result:
  assumes inv: "sched_inv s" and p: "pick_next (current s) s = (n, s')"
  shows "same_ctl s s'" "sched_inv s'" "\<And>i. i < MAX_TASKS \<Longrightarrow> task_at s' i = picked_task s i"
    "(\<exists>i<task_count s. eligible s' i) \<Longrightarrow> scan_ready (current s) (task_count s) s' = Some n"
    "\<not> (\<exists>i<task_count s. eligible s' i) \<Longrightarrow> n = pick_fallback (current s) s' \<and> out_of_credits s"
proof -
  note d = sched_invD [OF inv]
  let ?n = "task_count s" and ?s1 = "wake_expired (task_count s) s"
  let ?s2 = "refill_credits ?n ?s1"
  note w = wake_expired_result [OF inv] and ew = same_ctl_eqs [OF wake_expired_result(1) [OF inv]]
  have n: "?n \<le> length (tasks ?s1)" using d(1,3) ew by simp
  note r = refill_result [OF n]
  have some: "\<not> out_of_credits s \<longleftrightarrow> (\<exists>i<?n. eligible ?s1 i)"
    unfolding out_of_credits_def using eligible_woken [OF inv] by blast
  have scan: "scan_ready (current s) ?n t = None \<longleftrightarrow> \<not> (\<exists>i<?n. eligible t i)" for t
    using scan_None [OF _ d(4)] scan_Some [OF _ d(4)] by (cases "scan_ready (current s) ?n t") blast+
  have s': "s' = (if out_of_credits s then ?s2 else ?s1)"
    using p some scan [of ?s1] by (auto simp: pick_next_def Let_def split: option.splits)
  show "same_ctl s s'" using s' w(1) same_ctl_trans [OF w(1) r(1)] by auto
  show "sched_inv s'" using s' wake_expired_inv [OF inv] refill_inv [OF wake_expired_inv [OF inv], of ?n] ew by auto
  show "task_at s' i = picked_task s i" if "i < MAX_TASKS" for i
    using that s' w(2) [OF that] r(2) [of i] d(1) ew by (auto simp: picked_task_def)
  show "scan_ready (current s) ?n s' = Some n" if "\<exists>i<?n. eligible s' i"
    using that p some scan [of ?s1] scan [of ?s2] s'
    by (auto simp: pick_next_def Let_def split: option.splits if_splits)
  show "n = pick_fallback (current s) s' \<and> out_of_credits s" if "\<not> (\<exists>i<?n. eligible s' i)"
    using that p some scan [of ?s1] scan [of ?s2] s'
    by (auto simp: pick_next_def Let_def split: option.splits if_splits)
qed


lemma pick_next_bound:
  assumes inv: "sched_inv s" and p: "pick_next (current s) s = (n, s')"
  shows "n < task_count s"
    and "n \<noteq> current s \<Longrightarrow> state_at s' n = Ready"
    and "n \<noteq> IDLE_TASK \<Longrightarrow> t_credits (task_at s' n) \<noteq> 0 \<or> n = current s"
proof -
  note r = pick_next_result [OF inv p] and d = sched_invD [OF inv]
  note e = same_ctl_eqs [OF r(1)] and d' = sched_invD [OF r(2)]
  have "n < task_count s \<and> (n \<noteq> current s \<longrightarrow> state_at s' n = Ready) \<and>
      (n \<noteq> IDLE_TASK \<longrightarrow> t_credits (task_at s' n) \<noteq> 0 \<or> n = current s)"
  proof (cases "\<exists>i<task_count s. eligible s' i")
    case True
    then show ?thesis using scan_Some [OF r(4) [OF True] d(4)] by (auto simp: eligible_def)
  next
    case False
    then have "n = current s \<or> n = 0" using r(5) by (auto simp: pick_fallback_def split: if_splits)
    then show ?thesis using d(2,4) d'(6) e by auto
  qed
  then show "n < task_count s" "n \<noteq> current s \<Longrightarrow> state_at s' n = Ready"
    "n \<noteq> IDLE_TASK \<Longrightarrow> t_credits (task_at s' n) \<noteq> 0 \<or> n = current s" by auto
qed

text \<open>The table after a switch.\<close>

definition switched_task :: "sched \<Rightarrow> nat \<Rightarrow> nat \<Rightarrow> task \<Rightarrow> task" where
  "switched_task s n i t =
     (let t = (if i = current s \<and> t_state t = Running then t\<lparr>t_state := Ready\<rparr> else t);
          t = (if i = current s \<and> i \<noteq> IDLE_TASK then t\<lparr>t_credits := t_credits t - 1\<rparr> else t);
          t = (if n = IDLE_TASK \<and> i < task_count s then t\<lparr>t_credits := slice_ticks (t_nice t)\<rparr> else t)
      in if i = n then t\<lparr>t_state := Running\<rparr> else t)"

lemma switch_to_task_result:
  assumes len: "length (tasks s) = MAX_TASKS" "task_count s \<le> MAX_TASKS" "current s < MAX_TASKS"
    and n: "n < MAX_TASKS" "n \<noteq> current s"
  shows "current (switch_to_task rsp (current s) n s) = n"
    "task_count (switch_to_task rsp (current s) n s) = task_count s"
    "ticks (switch_to_task rsp (current s) n s) = ticks s"
    "length (tasks (switch_to_task rsp (current s) n s)) = MAX_TASKS"
    "\<And>i. i < MAX_TASKS \<Longrightarrow> task_at (switch_to_task rsp (current s) n s) i =
      (if i = current s then (switched_task s n i (task_at s i))\<lparr>t_sp := rsp\<rparr>
       else switched_task s n i (task_at s i))"
proof -
  let ?c = "current s"
  define s1 where "s1 = (if state_at s ?c = Running then set_state ?c Ready s else s)"
  define s2 where "s2 = (if ?c \<noteq> IDLE_TASK then upd_task ?c (\<lambda>t. t\<lparr>t_credits := t_credits t - 1\<rparr>) s1 else s1)"
  define s3 where "s3 = (if n = IDLE_TASK then refill_credits (task_count s2) s2 else s2)"
  have c1: "same_ctl s s1" by (simp add: s1_def)
  have c2: "same_ctl s s2" using c1 by (auto simp: s2_def intro: same_ctl_trans)
  note e1 = same_ctl_eqs [OF c1] and e2 = same_ctl_eqs [OF c2]
  have n2: "task_count s2 \<le> length (tasks s2)" using e2 len by simp
  note r = refill_result [OF n2]
  have c3: "same_ctl s s3" using c2 r(1) by (auto simp: s3_def intro: same_ctl_trans)
  note e3 = same_ctl_eqs [OF c3]
  have t1: "task_at s1 i = (if i = ?c \<and> state_at s ?c = Running then (task_at s i)\<lparr>t_state := Ready\<rparr> else task_at s i)"
    for i using len by (simp add: s1_def)
  have t2: "task_at s2 i = (if i = ?c \<and> i \<noteq> 0
      then (task_at s1 i)\<lparr>t_credits := t_credits (task_at s1 i) - 1\<rparr> else task_at s1 i)" for i
    using len e1 by (simp add: s2_def)
  have t3: "task_at s3 i = (if n = 0 \<and> i < task_count s
      then (task_at s2 i)\<lparr>t_credits := slice_ticks (t_nice (task_at s2 i))\<rparr> else task_at s2 i)" if "i < MAX_TASKS" for i
    using len e2 r(2) [of i] that by (auto simp: s3_def)
  have hw: "(if b then t\<lparr>hw_kstack := x\<rparr> else t) = t\<lparr>hw_kstack := if b then x else hw_kstack t\<rparr>" for b x and t :: sched
    by simp
  have "\<exists>h k. switch_to_task rsp ?c n s =
      upd_task ?c (\<lambda>t. t\<lparr>t_sp := rsp\<rparr>)
        (set_state n Running s3\<lparr>current := n, switches := switches s3 + 1,
           hw_kstack := h, cr3 := k\<rparr>)"
    unfolding switch_to_task_def Let_def s1_def [symmetric] s2_def [symmetric] s3_def [symmetric] hw
    by (intro exI, rule refl)
  then obtain h k where sw: "switch_to_task rsp ?c n s =
      upd_task ?c (\<lambda>t. t\<lparr>t_sp := rsp\<rparr>)
        (set_state n Running s3\<lparr>current := n, switches := switches s3 + 1,
           hw_kstack := h, cr3 := k\<rparr>)" by blast
  show "current (switch_to_task rsp ?c n s) = n"
    "task_count (switch_to_task rsp ?c n s) = task_count s"
    "ticks (switch_to_task rsp ?c n s) = ticks s"
    "length (tasks (switch_to_task rsp ?c n s)) = MAX_TASKS"
    using e3 len by (simp_all add: sw set_state_def upd_task_def)
  fix i assume i: "i < MAX_TASKS"
  have "task_at (switch_to_task rsp ?c n s) i =
      (let t = (if i = n then (task_at s3 i)\<lparr>t_state := Running\<rparr> else task_at s3 i) in
       if i = ?c then t\<lparr>t_sp := rsp\<rparr> else t)"
    using e3 len n i by (simp add: sw set_state_def upd_task_def Let_def nth_list_update)
  then show "task_at (switch_to_task rsp ?c n s) i =
      (if i = ?c then (switched_task s n i (task_at s i))\<lparr>t_sp := rsp\<rparr>
       else switched_task s n i (task_at s i))"
    using n i by (simp add: t3 t2 t1 switched_task_def Let_def)
qed


lemma switched_fields [simp]:
  "t_wait_for (switched_task s n i t) = t_wait_for t"
  "t_state (switched_task s n i t) =
     (if i = n then Running else if i = current s \<and> t_state t = Running then Ready else t_state t)"
  "t_credits (switched_task s n i t) =
     (if n = IDLE_TASK \<and> i < task_count s then slice_ticks (t_nice t)
      else if i = current s \<and> i \<noteq> IDLE_TASK then t_credits t - 1 else t_credits t)"
  by (simp_all add: switched_task_def Let_def)

lemma switch_to_task_inv:
  assumes inv: "sched_inv s" and n: "n < task_count s" "n \<noteq> current s"
  shows "sched_inv (switch_to_task rsp (current s) n s)" (is "sched_inv ?s'")
proof -
  note d = sched_invD [OF inv]
  have m: "current s < MAX_TASKS" "n < MAX_TASKS" using d(3,4) n by simp_all
  note r = switch_to_task_result [OF d(1,3) m n(2), where rsp = rsp]
  have st: "state_at ?s' i = t_state (switched_task s n i (task_at s i))"
    "t_wait_for (task_at ?s' i) = t_wait_for (task_at s i)"
    "t_credits (task_at ?s' i) = t_credits (switched_task s n i (task_at s i))" if "i < MAX_TASKS" for i
    using r(5) [OF that] by simp_all
  have "state_at ?s' i = Unused" if "i < MAX_TASKS" "task_count s \<le> i" for i
    using st(1) [OF that(1)] d(4,5) that n by simp
  moreover have "state_at ?s' 0 = (if n = 0 then Running else Ready)"
    using st(1) [of 0] d(6) by auto
  moreover have "i = n" if "i < MAX_TASKS" "state_at ?s' i = Running" for i
    using st(1) [OF that(1)] d(7) [OF that(1)] that(2) by (auto split: if_splits)
  moreover have "0 < t_wait_for (task_at ?s' i) \<and> t_wait_for (task_at ?s' i) \<le> task_count s"
    if "i < MAX_TASKS" "state_at ?s' i = Waiting" for i
    using st [OF that(1)] d(8) [OF that(1)] that(2) by (auto split: if_splits)
  moreover have "t_credits (task_at ?s' i) \<le> 8" if "i < MAX_TASKS" for i
    using st(3) [OF that] d(9) [OF that] by auto
  ultimately show ?thesis unfolding sched_inv_def r(1,2,4) using d(2,3) n by blast
qed

lemma beat_fields [simp]:
  "tasks (beat s) = tasks s" "current (beat s) = current s" "task_count (beat s) = task_count s"
  "ticks (beat s) = ticks s"
  by (simp_all add: beat_def)

lemma yield_now_cases:
  assumes inv: "sched_inv s"
  obtains n s1 s2 where "s1 = beat (s\<lparr>need_resched := False\<rparr>)" "sched_inv s1" "tasks s1 = tasks s"
    "current s1 = current s" "task_count s1 = task_count s" "ticks s1 = ticks s"
    "pick_next (current s1) s1 = (n, s2)" "sched_inv s2" "current s2 = current s" "task_count s2 = task_count s"
    "n < task_count s"
    "yield_now rsp s = (if n = current s then s2 else switch_to_task rsp (current s2) n s2)"
proof -
  let ?s1 = "beat (s\<lparr>need_resched := False\<rparr>)"
  obtain n s2 where p: "pick_next (current ?s1) ?s1 = (n, s2)" by force
  have i1: "sched_inv ?s1" using inv by (simp add: sched_inv_def)
  note r = pick_next_result [OF i1 p]
  note e = same_ctl_eqs [OF r(1)]
  have "yield_now rsp s = (if n = current s then s2 else switch_to_task rsp (current s2) n s2)"
    using p e by (simp add: yield_now_def Let_def)
  then show thesis
    using that [of ?s1 n s2] i1 p r(2) e pick_next_bound(1) [OF i1 p] by simp
qed

lemma yield_now_inv: "sched_inv s \<Longrightarrow> sched_inv (yield_now rsp s)"
proof -
  assume inv: "sched_inv s"
  obtain n s1 s2 where y: "sched_inv s2" "current s2 = current s" "task_count s2 = task_count s" "n < task_count s"
    "yield_now rsp s = (if n = current s then s2 else switch_to_task rsp (current s2) n s2)"
    by (rule yield_now_cases [OF inv, of rsp])
  then show ?thesis using switch_to_task_inv [OF y(1), of n rsp] by simp
qed

section \<open>The other operations\<close>

lemma release_slot_inv:
  assumes "sched_inv s" "i < MAX_TASKS" "i \<noteq> IDLE_TASK"
  shows "sched_inv (release_slot i s)"
  unfolding release_slot_def using assms by (intro sched_inv_upd) (auto simp: task_change_ok_def)

lemma reap_orphans_inv:
  assumes "sched_inv s"
  shows "sched_inv (reap_orphans s)"
proof -
  let ?f = "\<lambda>i t. if state_at t i \<noteq> Terminated \<or> \<not> t_waitable (task_at t i) then t
                  else if parent_alive t (task_count s) (t_parent (task_at t i)) then t
                  else release_slot i t"
  have "sched_inv (fold ?f [0..<n] s)" if "n \<le> MAX_TASKS" for n
    using that
  proof (induction n)
    case (Suc n)
    let ?t = "fold ?f [0..<n] s"
    have IH: "sched_inv ?t" using Suc by simp
    have "state_at ?t 0 \<noteq> Terminated" using sched_invD(6) [OF IH] by (simp split: if_splits)
    then have "state_at ?t n = Terminated \<Longrightarrow> n \<noteq> 0" by (cases "n = 0") simp_all
    then show ?case using IH release_slot_inv [OF IH, of n] Suc.prems by auto
  qed (use assms in simp)
  then show ?thesis using sched_invD(3) [OF assms] by (simp add: reap_orphans_def Let_def)
qed

lemma current_less: "sched_inv s \<Longrightarrow> current s < MAX_TASKS"
  using sched_invD(3,4) [of s] by simp

lemma cur_state_inv:
  assumes "sched_inv s" "current s \<noteq> IDLE_TASK \<or> st = Running" "st \<noteq> Waiting"
  shows "sched_inv (set_state (current s) st s)"
  using assms sched_invD(4,6,9) [OF assms(1)] current_less [OF assms(1)]
  by (intro sched_inv_set_state) (auto simp: task_change_ok_def)

lemma mark_current_terminated_inv:
  assumes "sched_inv s" "current s \<noteq> IDLE_TASK"
  shows "sched_inv (mark_current_terminated s)"
proof -
  let ?t = "set_state (current s) Terminated s"
  have t: "sched_inv ?t" using assms by (intro cur_state_inv) auto
  then show ?thesis
    using reap_orphans_inv release_slot_inv [OF t current_less [OF assms(1)] assms(2)]
    by (simp add: mark_current_terminated_def Let_def)
qed

lemma mark_terminated_inv:
  assumes "sched_inv s" "mark_terminated i s = (r, s')"
  shows "sched_inv s'"
proof (cases "i = 0 \<or> i \<ge> MAX_TASKS \<or> i = current s \<or> state_at s i = Unused \<or> state_at s i = Terminated")
  case True
  then show ?thesis using assms
    by (auto simp: mark_terminated_def split: if_splits task_state.splits)
next
  case False
  let ?t = "upd_task i (\<lambda>t. t\<lparr>t_space := 0\<rparr>) (set_state i Terminated s)"
  have c: "i < task_count s" using False sched_invD(5) [OF assms(1), of i] by force
  have a: "sched_inv (set_state i Terminated s)"
    using False c sched_invD(9) [OF assms(1)] by (intro sched_inv_set_state [OF assms(1)]) (auto simp: task_change_ok_def)
  have t: "sched_inv ?t" using False a c sched_invD(1) [OF assms(1)] sched_invD(9) [OF assms(1)]
    by (intro sched_inv_upd) (auto simp: task_change_ok_def)
  have "s' = (if \<not> t_waitable (task_at ?t i) then release_slot i ?t else ?t)"
    using assms(2) False by (auto simp: mark_terminated_def Let_def split: task_state.splits)
  then show ?thesis using t release_slot_inv [OF t, of i] False by auto
qed


lemma spawn_inner_inv:
  assumes inv: "sched_inv s" and sp: "spawn_inner name w s = (r, s')"
  shows "sched_inv s'"
proof (cases "spawn_slot s")
  case None
  then show ?thesis using assms by (simp add: spawn_inner_def)
next
  case (Some p)
  obtain i s1 where p: "p = (i, s1)" by force
  note d = sched_invD [OF inv]
  have s1: "sched_inv s1 \<and> i < task_count s1 \<and> i \<noteq> 0"
  proof (cases "find_slot (\<lambda>i. state_at s i = Unused) 0 (task_count s)")
    case None
    then have "i = task_count s" "s1 = s\<lparr>task_count := task_count s + 1\<rparr>" "task_count s < MAX_TASKS"
      using Some p by (auto simp: spawn_slot_def Let_def split: if_splits)
    moreover have "0 < t_wait_for (task_at s j) \<and> t_wait_for (task_at s j) \<le> task_count s + 1"
      if "j < MAX_TASKS" "state_at s j = Waiting" for j using d(8) [OF that] by simp
    ultimately show ?thesis using d(1-7,9) by (simp add: sched_inv_def)
  next
    case (Some j)
    then have "i = j" "s1 = s" using \<open>spawn_slot s = Some p\<close> p by (auto simp: spawn_slot_def Let_def)
    moreover have "j < task_count s" "state_at s j = Unused" using find_slot_Some [OF Some] by auto
    ultimately show ?thesis using inv d(6) by (cases "j = 0") (auto split: if_splits)
  qed
  obtain so s2 where st: "spawn_stacks i s1 = (so, s2)" by force
  have s2: "sched_inv s2 \<and> task_count s2 = task_count s1 \<and> current s2 = current s1"
    using st s1 by (auto simp: spawn_stacks_def split: if_splits option.splits prod.splits)
  show ?thesis
  proof (cases so)
    case None
    then show ?thesis using sp Some p st s2 by (simp add: spawn_inner_def)
  next
    case (Some pr)
    obtain t k where "pr = (t, k)" by force
    moreover have "i < MAX_TASKS" using s1 sched_invD(3) [of s1] by simp
    ultimately show ?thesis using sp \<open>spawn_slot s = Some p\<close> p st Some s2 s1
      by (auto simp: spawn_inner_def task_change_ok_def intro!: sched_inv_upd)
  qed
qed

lemma wake_io_waiters_inv:
  assumes "sched_inv s"
  shows "sched_inv (snd (wake_io_waiters s))"
proof -
  let ?f = "\<lambda>i (woken, s). if state_at s i = IoWait then (woken + 1 :: nat, set_state i Ready s) else (woken, s)"
  have "sched_inv (snd (fold ?f [0..<n] (0, s)))
      \<and> task_count (snd (fold ?f [0..<n] (0, s))) = task_count s" if "n \<le> task_count s" for n
    using that
  proof (induction n)
    case (Suc n)
    obtain k t where t: "fold ?f [0..<n] (0, s) = (k, t)" by force
    have IH: "sched_inv t" "task_count t = task_count s" using Suc t by auto
    have n: "n < MAX_TASKS" using Suc.prems sched_invD(3) [OF assms] by simp
    have "state_at t 0 \<noteq> IoWait" using sched_invD(6) [OF IH(1)] by (simp split: if_splits)
    then have n0: "state_at t n = IoWait \<Longrightarrow> n \<noteq> 0" by (cases "n = 0") simp_all
    have "state_at t n = IoWait \<Longrightarrow> sched_inv (set_state n Ready t)"
      using n n0 Suc.prems IH(2) sched_invD(9) [OF IH(1) n]
      by (intro sched_inv_set_state [OF IH(1)]) (auto simp: task_change_ok_def)
    then show ?case using IH by (simp add: t)
  qed (use assms in simp)
  then show ?thesis by (simp add: wake_io_waiters_def)
qed

lemma set_nice_inv:
  assumes "sched_inv s"
  shows "sched_inv (snd (set_nice i v s))"
  using assms task_change_refl [OF assms, of i]
  by (auto simp: set_nice_def Let_def task_change_ok_def intro!: sched_inv_upd)

lemma neutral_upd_inv:
  assumes "sched_inv s" "i < MAX_TASKS" "\<And>t. t_state (f t) = t_state t" "\<And>t. t_wait_for (f t) = t_wait_for t"
    "\<And>t. t_credits (f t) \<le> t_credits t"
  shows "sched_inv (upd_task i f s)"
proof -
  have "t_credits (f (task_at s i)) \<le> 8"
    using assms(5) [of "task_at s i"] sched_invD(9) [OF assms(1,2)] by (rule order_trans)
  then show ?thesis
    using task_change_refl [OF assms(1,2)] assms(3,4) by (intro sched_inv_upd [OF assms(1,2)]) (simp add: task_change_ok_def)
qed

lemma on_timer_tick_inv:
  assumes "sched_inv s"
  shows "sched_inv (on_timer_tick s)"
proof -
  note c = current_less [OF assms]
  have a: "sched_inv (upd_task (current s) (\<lambda>t. t\<lparr>t_cpu_ticks := w32 (t_cpu_ticks t + 1)\<rparr>) s)" (is "sched_inv ?t")
    by (rule neutral_upd_inv [OF assms c]) simp_all
  have "sched_inv (upd_task (current s) (\<lambda>t. t\<lparr>t_credits := t_credits t - 1\<rparr>) ?t)"
    "sched_inv (upd_task (current s) (\<lambda>t. t\<lparr>t_credits := 0\<rparr>) ?t)"
    by (rule neutral_upd_inv [OF a c]; simp)+
  then show ?thesis by (simp add: on_timer_tick_def Let_def)
qed

lemma wait_for_task_begin_inv:
  assumes "sched_inv s" "wait_for_task_begin child s = (r, s')"
  shows "sched_inv s'"
proof (cases "child \<ge> task_count s \<or> child = current s \<or> current s = 0 \<or> state_at s child = Unused")
  case True
  then show ?thesis using assms by (auto simp: wait_for_task_begin_def Let_def split: if_splits)
next
  case False
  note d = sched_invD [OF assms(1)] and c = current_less [OF assms(1)]
  have m: "child < MAX_TASKS" using False d(3) by simp
  have "state_at s 0 \<noteq> Terminated" using d(6) by (simp split: if_splits)
  then have c0: "state_at s child = Terminated \<Longrightarrow> child \<noteq> 0" by (cases "child = 0") simp_all
  have "sched_inv (upd_task (current s) (\<lambda>t. t\<lparr>t_wait_for := child + 1, t_state := Waiting\<rparr>) s)"
    using False d(4,9) c by (intro sched_inv_upd [OF assms(1) c]) (auto simp: task_change_ok_def)
  then show ?thesis using assms False release_slot_inv [OF assms(1) m c0]
    by (auto simp: wait_for_task_begin_def Let_def split: if_splits)
qed

lemma finished_child_not_idle:
  assumes "sched_inv s" "finished_child p s = Some i"
  shows "i < MAX_TASKS" "i \<noteq> 0"
proof -
  have i: "i < task_count s" "state_at s i = Terminated"
    using find_slot_Some [OF assms(2) [unfolded finished_child_def]] by auto
  have "state_at s 0 \<noteq> Terminated" using sched_invD(6) [OF assms(1)] by (simp split: if_splits)
  then show "i \<noteq> 0" using i by (cases "i = 0") simp_all
  show "i < MAX_TASKS" using i sched_invD(3) [OF assms(1)] by simp
qed

lemma reap_finished_child_inv:
  "sched_inv s \<Longrightarrow> reap_finished_child p s = (r, s') \<Longrightarrow> sched_inv s'"
  using finished_child_not_idle [of s p] release_slot_inv [of s]
  by (auto simp: reap_finished_child_def split: option.splits)

lemma wait_for_any_begin_inv:
  assumes "sched_inv s" "wait_for_any_begin s = (r, s')"
  shows "sched_inv s'"
proof -
  obtain r1 s1 where "reap_finished_child (current s) s = (r1, s1)" by force
  then show ?thesis using assms reap_finished_child_inv [OF assms(1)] wait_for_task_begin_inv [of s1]
    by (auto simp: wait_for_any_begin_def Let_def split: option.splits prod.splits wait_result.splits)
qed


section \<open>Runs\<close>

text \<open>
  One call of the scheduler's interface.  The calls that block are split as in the model; the
  idle task never exits and never reaches the resumption of \<open>wait_for_io\<close>.
\<close>

datatype sched_op =
    OTick | OYield nat | OPreempt nat | OPreemptOff | OPreemptOn
  | OSpawn string | OSpawnChild string | ONice nat int
  | OSleep nat | OSleepAgain nat | OIoWait bool nat | OIoAgain bool nat | OIoWake
  | OWait nat | OWaitAgain nat | OWaitAny | OReap nat | OExit | OKill nat
  | OUserMode bool | OExitCode nat | OSpace nat | OSetSpace nat nat | OSuppressBeat nat

fun sched_op_ok :: "sched_op \<Rightarrow> sched \<Rightarrow> bool" where
  "sched_op_ok OExit s = (current s \<noteq> IDLE_TASK)"
| "sched_op_ok (OIoAgain r d) s = (current s \<noteq> IDLE_TASK)"
| "sched_op_ok (OWaitAgain c) s = (c < task_count s)"
| "sched_op_ok _ s = True"

fun sched_do :: "sched_op \<Rightarrow> sched \<Rightarrow> sched" where
  "sched_do OTick s = pit_on_tick s"
| "sched_do (OYield rsp) s = yield_now rsp s"
| "sched_do (OPreempt rsp) s = preempt_from_timer rsp s"
| "sched_do OPreemptOff s = preempt_disable s"
| "sched_do OPreemptOn s = preempt_enable s"
| "sched_do (OSpawn n) s = snd (spawn n s)"
| "sched_do (OSpawnChild n) s = snd (spawn_child n s)"
| "sched_do (ONice i v) s = snd (set_nice i v s)"
| "sched_do (OSleep n) s = snd (sleep_begin n s)"
| "sched_do (OSleepAgain w) s = snd (sleep_resume w s)"
| "sched_do (OIoWait r n) s = snd (wait_for_io_begin r n s)"
| "sched_do (OIoAgain r d) s = snd (wait_for_io_resume r d s)"
| "sched_do OIoWake s = snd (wake_io_waiters s)"
| "sched_do (OWait c) s = snd (wait_for_task_begin c s)"
| "sched_do (OWaitAgain c) s = snd (wait_for_task_resume c s)"
| "sched_do OWaitAny s = snd (wait_for_any_begin s)"
| "sched_do (OReap p) s = snd (reap_finished_child p s)"
| "sched_do OExit s = mark_current_terminated s"
| "sched_do (OKill i) s = snd (mark_terminated i s)"
| "sched_do (OUserMode b) s = set_current_in_user_mode b s"
| "sched_do (OExitCode c) s = set_current_exit_code c s"
| "sched_do (OSpace c) s = set_current_address_space c s"
| "sched_do (OSetSpace i c) s = set_address_space i c s"
| "sched_do (OSuppressBeat n) s = suppress_heartbeat n s"

inductive sched_step :: "sched \<Rightarrow> sched_op \<Rightarrow> sched \<Rightarrow> bool" where
  "sched_op_ok a s \<Longrightarrow> sched_step s a (sched_do a s)"

inductive_cases sched_stepE: "sched_step s a s'"
inductive_simps sched_step_iff: "sched_step s a s'"

inductive sched_reachable :: "usize \<Rightarrow> nat \<Rightarrow> sched \<Rightarrow> bool" for heap :: usize and kcr3 :: nat where
  boot: "sched_reachable heap kcr3 (sched_init (sched_boot heap kcr3))"
| step: "sched_reachable heap kcr3 s \<Longrightarrow> sched_step s a s' \<Longrightarrow> sched_reachable heap kcr3 s'"

lemma sched_init_inv: "sched_inv (sched_init (sched_boot heap kcr3))"
  by (auto simp: sched_inv_def sched_init_def sched_boot_def task_empty_def upd_task_def nth_list_update split: if_splits)

lemma sched_do_inv:
  assumes inv: "sched_inv s" and ok: "sched_op_ok a s"
  shows "sched_inv (sched_do a s)"
proof (cases a)
  case (OSleep n)
  then show ?thesis using inv current_less [OF inv] sched_invD(4,9) [OF inv]
    by (auto simp: sleep_begin_def Let_def task_change_ok_def intro!: sched_inv_upd)
next
  case (OIoWait r n)
  then show ?thesis using inv cur_state_inv [OF inv, of IoWait]
    by (simp add: wait_for_io_begin_def io_arm_def)
next
  case (OIoAgain r n)
  then show ?thesis using inv ok cur_state_inv [OF inv, of IoWait] cur_state_inv [OF inv, of Running]
    by (simp add: wait_for_io_resume_def io_arm_def)
next
  case (OWaitAgain c)
  have "state_at s 0 \<noteq> Terminated" using sched_invD(6) [OF inv] by (simp split: if_splits)
  then have "state_at s c = Terminated \<Longrightarrow> c \<noteq> 0" by (cases "c = 0") simp_all
  then show ?thesis using OWaitAgain inv ok release_slot_inv [OF inv, of c] sched_invD(3) [OF inv]
    by (simp add: wait_for_task_resume_def)
next
  case (OSpawn n)
  then show ?thesis using spawn_inner_inv [OF inv] by (simp add: spawn_def) (metis prod.collapse)
next
  case (OSpawnChild n)
  then show ?thesis using spawn_inner_inv [OF inv] by (simp add: spawn_child_def) (metis prod.collapse)
next
  case (OPreempt rsp)
  then show ?thesis using inv by (simp add: preempt_from_timer_def yield_now_inv)
next
  case (OUserMode b)
  then show ?thesis using neutral_upd_inv [OF inv current_less [OF inv]]
    by (simp add: set_current_in_user_mode_def)
next
  case (OExitCode c)
  then show ?thesis using neutral_upd_inv [OF inv current_less [OF inv]]
    by (simp add: set_current_exit_code_def)
next
  case (OSpace c)
  then show ?thesis using neutral_upd_inv [OF inv current_less [OF inv]]
    by (simp add: set_current_address_space_def)
next
  case (OSetSpace i c)
  then show ?thesis using inv neutral_upd_inv [OF inv, of i]
    by (simp add: set_address_space_def)
qed (use inv ok in \<open>simp_all add: pit_on_tick_def on_timer_tick_inv yield_now_inv preempt_disable_def
    preempt_enable_def set_nice_inv sleep_resume_def cur_state_inv wake_io_waiters_inv
    mark_current_terminated_inv suppress_heartbeat_def
    wait_for_task_begin_inv [OF inv prod.collapse [symmetric]]
    wait_for_any_begin_inv [OF inv prod.collapse [symmetric]]
    reap_finished_child_inv [OF inv prod.collapse [symmetric]]
    mark_terminated_inv [OF inv prod.collapse [symmetric]]\<close>)

lemma sched_reachable_sched_inv: "sched_reachable heap kcr3 s \<Longrightarrow> sched_inv s"
proof (induction rule: sched_reachable.induct)
  case boot
  show ?case by (rule sched_init_inv)
next
  case (step s a s')
  then show ?case by (auto simp: sched_step_iff sched_do_inv)
qed

section \<open>Concrete tables\<close>

lemma sched_inv_by_table:
  assumes "length (tasks s) = MAX_TASKS" "task_count s \<le> MAX_TASKS" "current s < task_count s"
    and "state_at s IDLE_TASK = (if current s = IDLE_TASK then Running else Ready)"
    and "\<forall>i\<in>{0,1,2,3,4,5,6,7}. task_change_ok s i (task_at s i)"
  shows "sched_inv s"
proof -
  have "{0,1,2,3,4,5,6,7} = {i. i < (8 :: nat)}" by auto
  with assms(5) have "\<And>i. i < 8 \<Longrightarrow> task_change_ok s i (task_at s i)" by blast
  then show ?thesis
    unfolding sched_inv_def task_change_ok_def using assms(1-4) by auto
qed

end
