(* ===== verification/SchedFair.thy ===== *)
theory SchedFair imports SchedInv begin

text \<open>
  The properties of the scheduler: its table is consistent in every reachable state, its choice
  is work-conserving and round-robin, no ready task starves, and a waiting task meets the exit
  of its child.
\<close>

section \<open>Fairness\<close>

text \<open>
  How long a ready task \<open>c\<close> can still be passed over.  While it has credits, the scan reaches it
  at the latest after one round.  Without credits it waits for the refill, and every switch
  before that uses up a credit of somebody: \<open>spare_credits\<close> is what is left to use up.
\<close>

definition spare_credits :: "sched \<Rightarrow> nat" where
  "spare_credits s =
     (\<Sum>i\<in>{1..<MAX_TASKS}. if i = current s then t_credits (task_at s i) - 1 else t_credits (task_at s i))"

definition wait_bound :: "nat \<Rightarrow> sched \<Rightarrow> nat" where
  "wait_bound c s =
     (if t_credits (task_at s c) = 0 then 8 + spare_credits s else ahead (task_count s) (current s) c)"

lemma spare_credits_mono:
  assumes "current s' = current s"
    and "\<And>i. 1 \<le> i \<Longrightarrow> i < MAX_TASKS \<Longrightarrow> t_credits (task_at s' i) \<le> t_credits (task_at s i)"
  shows "spare_credits s' \<le> spare_credits s"
  unfolding spare_credits_def using assms by (intro sum_mono) (auto intro: diff_le_mono)

lemma wait_bound_le:
  assumes "sched_inv s" "c < task_count s"
  shows "wait_bound c s \<le> 64"
proof -
  note d = sched_invD [OF assms(1)]
  have "(if i = current s then t_credits (task_at s i) - 1 else t_credits (task_at s i)) \<le> 8"
    if "i \<in> {1..<8}" for i using that d(9) [of i] by auto
  then have "spare_credits s \<le> of_nat (card {1..<8::nat}) * 8"
    unfolding spare_credits_def by (intro sum_bounded_above) blast
  then show ?thesis using ahead_bounds [OF d(4) assms(2)] d(3) by (auto simp: wait_bound_def)
qed


text \<open>
  The caller of \<open>yield_now\<close> hands the processor over unless the wake-up pass finds it ready
  again itself: it is running, or asleep, or has ended.
\<close>

definition hands_over :: "sched \<Rightarrow> bool" where
  "hands_over s \<longleftrightarrow> t_state (woken s (current s)) \<noteq> Ready"

lemma woken_cong: "tasks s' = tasks s \<Longrightarrow> ticks s' = ticks s \<Longrightarrow> woken s' i = woken s i"
  unfolding woken_def by (simp only:)

lemma ahead_less: "cur < count \<Longrightarrow> c < count \<Longrightarrow> c \<noteq> cur \<Longrightarrow> ahead count cur c < count"
  by (auto simp: ahead_def)

lemma ahead_between:
  "cur < count \<Longrightarrow> n < count \<Longrightarrow> c < count \<Longrightarrow> n \<noteq> c \<Longrightarrow> ahead count cur n \<le> ahead count cur c \<Longrightarrow>
     n \<noteq> cur \<Longrightarrow> ahead count n c < ahead count cur c"
  by (auto simp: ahead_def split: if_splits)

text \<open>A ready task is a candidate of the choice, before or after the refill.\<close>

lemma pick_next_ready:
  assumes inv: "sched_inv s" and p: "pick_next (current s) s = (n, s')"
    and c: "c < task_count s" "c \<noteq> IDLE_TASK" "state_at s c = Ready"
  shows "scan_ready (current s) (task_count s) s' = Some n" "eligible s' n" "state_at s' c = Ready"
    "t_credits (task_at s' c) = 0 \<longleftrightarrow> t_credits (task_at s c) = 0 \<and> \<not> out_of_credits s"
    "t_credits (task_at s' c) \<noteq> 0 \<Longrightarrow> ahead (task_count s) (current s) n \<le> ahead (task_count s) (current s) c"
proof -
  note r = pick_next_result [OF inv p] and d = sched_invD [OF inv]
  have m: "c < MAX_TASKS" using c d(3) by simp
  have w: "woken s c = task_at s c" using c(3) by (intro woken_state(2)) simp
  have out: "out_of_credits s \<Longrightarrow> t_credits (task_at s c) = 0" using c w by (auto simp: out_of_credits_def)
  have t: "task_at s' c = (if out_of_credits s then (task_at s c)\<lparr>t_credits := slice_ticks (t_nice (task_at s c))\<rparr>
      else task_at s c)"
    using r(3) [OF m] c(1) w by (simp add: picked_task_def)
  show st: "state_at s' c = Ready" using t c(3) by simp
  show cr: "t_credits (task_at s' c) = 0 \<longleftrightarrow> t_credits (task_at s c) = 0 \<and> \<not> out_of_credits s"
    using t by auto
  have "\<exists>i<task_count s. eligible s' i"
  proof (cases "out_of_credits s")
    case True
    then have "eligible s' c" using t c by (simp add: eligible_def)
    then show ?thesis using c(1) by blast
  next
    case False
    then obtain i where i: "i < task_count s" "t_state (woken s i) = Ready" "i \<noteq> 0" "t_credits (task_at s i) \<noteq> 0"
      by (auto simp: out_of_credits_def)
    have "i < MAX_TASKS" using i(1) d(3) by simp
    then have "task_at s' i = woken s i" using r(3) False i(1) by (simp add: picked_task_def)
    then have "eligible s' i" using i by (simp add: eligible_def)
    then show ?thesis using i(1) by blast
  qed
  then show sc: "scan_ready (current s) (task_count s) s' = Some n" by (rule r(4))
  show "eligible s' n" using scan_Some(2) [OF sc d(4)] .
  show "ahead (task_count s) (current s) n \<le> ahead (task_count s) (current s) c"
    if "t_credits (task_at s' c) \<noteq> 0"
    using scan_Some(3) [OF sc d(4) c(1)] that st c(2) by (simp add: eligible_def)
qed

text \<open>One handover: the ready task is chosen, or its bound shrinks.\<close>

lemma yield_progress:
  assumes inv: "sched_inv s" and c: "c < task_count s" "c \<noteq> IDLE_TASK" "state_at s c = Ready"
    and cur: "current s \<noteq> c"
  shows "current (yield_now rsp s) = c \<or>
    (state_at (yield_now rsp s) c = Ready \<and> task_count (yield_now rsp s) = task_count s \<and>
     wait_bound c (yield_now rsp s) \<le> wait_bound c s \<and>
     (hands_over s \<longrightarrow> wait_bound c (yield_now rsp s) < wait_bound c s))"
proof -
  obtain n s1 s2 where s1: "sched_inv s1" "tasks s1 = tasks s" "current s1 = current s"
      "task_count s1 = task_count s" "ticks s1 = ticks s"
    and p: "pick_next (current s1) s1 = (n, s2)"
    and s2: "sched_inv s2" "current s2 = current s" "task_count s2 = task_count s" "n < task_count s"
    and y: "yield_now rsp s = (if n = current s then s2 else switch_to_task rsp (current s2) n s2)"
    by (rule yield_now_cases [OF inv, of rsp])
  note d = sched_invD [OF inv] and d2 = sched_invD [OF s2(1)]
  note r = pick_next_result [OF s1(1) p, unfolded s1]
  have c1: "c < task_count s1" "state_at s1 c = Ready" using c s1 by simp_all
  note k = pick_next_ready [OF s1(1) p c1(1) c(2) c1(2), unfolded s1]
  have m: "c < MAX_TASKS" "n < MAX_TASKS" "current s < MAX_TASKS" using c s2(4) d(3,4) by simp_all
  have n0: "n \<noteq> 0" "t_credits (task_at s2 n) \<noteq> 0" using k(2) by (auto simp: eligible_def)
  have ooc: "out_of_credits s1 = out_of_credits s"
    using s1 woken_cong [OF s1(2,5)] by (simp add: out_of_credits_def)
  have tk: "task_at s2 i = picked_task s i" if "i < MAX_TASKS" for i
    using r(3) [OF that] s1 woken_cong [OF s1(2,5)] by (simp add: picked_task_def ooc)
  have same: "t_credits (task_at s2 i) = t_credits (task_at s i)" if "i < MAX_TASKS" "\<not> out_of_credits s" for i
    using tk [OF that(1)] that(2) by (simp add: picked_task_def)
  consider "n = c" | "n = current s" "n \<noteq> c" | "n \<noteq> current s" "n \<noteq> c" by blast
  then show ?thesis
  proof cases
    case 1
    then show ?thesis using y cur s2 m switch_to_task_result(1) [OF d2(1,3)] by auto
  next
    case 2
    have e: "yield_now rsp s = s2" using y 2 by simp
    have "\<not> hands_over s" using k(2) 2 tk [OF m(3)] d(4)
      by (auto simp: hands_over_def eligible_def picked_task_def split: if_splits)
    moreover have "wait_bound c s2 \<le> wait_bound c s"
    proof (cases "out_of_credits s")
      case True
      then have "t_credits (task_at s2 c) \<noteq> 0" using k(4) ooc by simp
      then have "ahead (task_count s) (current s) (current s) \<le> ahead (task_count s) (current s) c"
        using k(5) 2 by simp
      then show ?thesis using ahead_less [OF d(4) c(1)] cur by (simp add: ahead_def)
    next
      case False
      have "spare_credits s2 \<le> spare_credits s"
        using s2(2) same [OF _ False] by (intro spare_credits_mono) simp_all
      then show ?thesis using same [OF m(1) False] s2 by (simp add: wait_bound_def)
    qed
    ultimately show ?thesis using e k(3) s2 by simp
  next
    case 3
    have ne: "n \<noteq> current s2" using 3 s2 by simp
    have m2: "current s2 < MAX_TASKS" using s2 m by simp
    note sw = switch_to_task_result [OF d2(1,3) m2 m(2) ne, where rsp = rsp]
    have e: "yield_now rsp s = switch_to_task rsp (current s2) n s2" using y 3 by simp
    let ?t = "switch_to_task rsp (current s2) n s2"
    have cr: "t_credits (task_at ?t i) = (if i = current s \<and> i \<noteq> 0 then t_credits (task_at s2 i) - 1
        else t_credits (task_at s2 i))" if "i < MAX_TASKS" for i
      using sw(5) [OF that] n0 s2 by simp
    have st: "state_at ?t c = Ready" using sw(5) [OF m(1)] 3 k(3) cur s2 by simp
    have "wait_bound c ?t < wait_bound c s"
    proof (cases "t_credits (task_at s2 c) = 0")
      case False
      then have less: "ahead (task_count s) n c < ahead (task_count s) (current s) c"
        using ahead_between [OF d(4) s2(4) c(1)] 3 k(5) by blast
      moreover have "ahead (task_count s) n c < 8" using ahead_less [OF s2(4) c(1)] 3 d(3) by simp
      ultimately show ?thesis using False cr [OF m(1)] cur sw(1,2) s2 by (auto simp: wait_bound_def)
    next
      case True
      then have no: "\<not> out_of_credits s" and z: "t_credits (task_at s c) = 0" using k(4) ooc by auto
      have "spare_credits ?t < spare_credits s"
        unfolding spare_credits_def
      proof (rule sum_strict_mono_ex1)
        show "\<forall>i\<in>{1..<8}. (if i = current ?t then t_credits (task_at ?t i) - 1 else t_credits (task_at ?t i))
            \<le> (if i = current s then t_credits (task_at s i) - 1 else t_credits (task_at s i))"
          using cr same [OF _ no] sw(1) by auto
        show "\<exists>i\<in>{1..<8}. (if i = current ?t then t_credits (task_at ?t i) - 1 else t_credits (task_at ?t i))
            < (if i = current s then t_credits (task_at s i) - 1 else t_credits (task_at s i))"
          using n0 m(2) 3 cr [OF m(2)] same [OF m(2) no] sw(1) by (intro bexI [of _ n]) auto
      qed simp
      then show ?thesis using True z cr [OF m(1)] cur by (simp add: wait_bound_def)
    qed
    then show ?thesis using e st sw(2) s2 by simp
  qed
qed


text \<open>Between two handovers: \<open>c\<close> keeps its state and nobody gains credits.\<close>

definition calm :: "nat \<Rightarrow> sched \<Rightarrow> sched \<Rightarrow> bool" where
  "calm c s s' \<longleftrightarrow>
     current s' = current s \<and> task_count s' = task_count s \<and> length (tasks s') = length (tasks s) \<and>
     state_at s' c = state_at s c \<and> t_credits (task_at s' c) = t_credits (task_at s c) \<and>
     (\<forall>i<MAX_TASKS. t_credits (task_at s' i) \<le> t_credits (task_at s i))"

lemma calm_trans: "calm c s t \<Longrightarrow> calm c t u \<Longrightarrow> calm c s u"
  unfolding calm_def by (metis order_trans)

lemma calm_bound: "calm c s s' \<Longrightarrow> wait_bound c s' \<le> wait_bound c s"
  using spare_credits_mono [of s' s] by (simp add: calm_def wait_bound_def)

lemma calm_ctl:
  "tasks s' = tasks s \<Longrightarrow> current s' = current s \<Longrightarrow> task_count s' = task_count s \<Longrightarrow>
     calm c s s'"
  by (simp add: calm_def)

lemma calm_upd:
  assumes "length (tasks s) = MAX_TASKS" "i < MAX_TASKS" "state_at s c \<noteq> Terminated"
    and "t_credits (f (task_at s i)) \<le> t_credits (task_at s i)"
    and "i = c \<Longrightarrow> t_state (f (task_at s i)) = t_state (task_at s i) \<and>
      t_credits (f (task_at s i)) = t_credits (task_at s i)"
  shows "calm c s (upd_task i f s)"
  using assms by (auto simp: calm_def)

lemma calm_set_state:
  assumes "length (tasks s) = MAX_TASKS" "i < MAX_TASKS" "state_at s c \<noteq> Terminated" "i \<noteq> c"
  shows "calm c s (set_state i st s)"
  unfolding set_state_def using assms by (intro calm_upd) auto

lemma calm_release:
  assumes "length (tasks s) = MAX_TASKS" "i < MAX_TASKS" "state_at s c \<noteq> Terminated" "i \<noteq> c"
  shows "calm c s (release_slot i s)"
  unfolding release_slot_def using assms by (intro calm_upd) auto

lemma calm_fold:
  assumes "\<And>i t. i < n \<Longrightarrow> length (tasks t) = MAX_TASKS \<Longrightarrow> state_at t c \<noteq> Terminated \<Longrightarrow> calm c t (f i t)"
    and "length (tasks s) = MAX_TASKS" "state_at s c \<noteq> Terminated"
  shows "calm c s (fold f [0..<n] s)"
  using assms(1)
proof (induction n)
  case 0
  then show ?case using assms(3) by (simp add: calm_ctl)
next
  case (Suc n)
  then have IH: "calm c s (fold f [0..<n] s)" by simp
  then have "calm c (fold f [0..<n] s) (f n (fold f [0..<n] s))"
    using Suc.prems [of n] assms(2,3) by (simp add: calm_def)
  then show ?case using calm_trans [OF IH] by simp
qed

lemma calm_reap_orphans:
  assumes "length (tasks s) = MAX_TASKS" "state_at s c \<noteq> Terminated" "task_count s \<le> MAX_TASKS"
  shows "calm c s (reap_orphans s)"
  unfolding reap_orphans_def Let_def
proof (rule calm_fold)
  fix i t assume t: "i < task_count s" "length (tasks t) = MAX_TASKS" "state_at t c \<noteq> Terminated"
  then have "state_at t i = Terminated \<Longrightarrow> i \<noteq> c" by auto
  then show "calm c t (if state_at t i \<noteq> Terminated \<or> \<not> t_waitable (task_at t i) then t
      else if parent_alive t (task_count s) (t_parent (task_at t i)) then t else release_slot i t)"
    using t assms(3) calm_release [of t i c] calm_ctl [of t t c] by auto
qed (use assms in auto)

lemma calm_wake_io:
  assumes "length (tasks s) = MAX_TASKS" "state_at s c \<noteq> IoWait" "n \<le> MAX_TASKS"
    "state_at s c \<noteq> Terminated"
  shows "calm c s (snd (fold (\<lambda>i (woken, s). if state_at s i = IoWait then (woken + 1 :: nat, set_state i Ready s)
       else (woken, s)) [0..<n] (0, s)))"
  using assms(3)
proof (induction n)
  case 0
  then show ?case using assms by (simp add: calm_ctl)
next
  case (Suc n)
  let ?f = "\<lambda>i (woken, s). if state_at s i = IoWait then (woken + 1 :: nat, set_state i Ready s) else (woken, s)"
  obtain k t where t: "fold ?f [0..<n] (0, s) = (k, t)" by force
  have IH: "calm c s t" using Suc t by simp
  then have l: "length (tasks t) = 8" "state_at t c \<noteq> IoWait" "state_at t c \<noteq> Terminated"
    using assms by (simp_all add: calm_def)
  have "state_at t n = IoWait \<Longrightarrow> n \<noteq> c" using l by auto
  then have "state_at t n = IoWait \<Longrightarrow> calm c t (set_state n Ready t)"
    using calm_set_state [OF l(1) _ l(3)] Suc.prems by simp
  then show ?case using calm_trans [OF IH] IH by (simp add: t)
qed


text \<open>Everything but a switch, the start of a task and the killing of \<open>c\<close> is calm.\<close>

fun switches_task :: "sched_op \<Rightarrow> sched \<Rightarrow> bool" where
  "switches_task (OYield rsp) s = True"
| "switches_task (OPreempt rsp) s = (2 \<le> task_count s \<and> preempt_lock s = 0 \<and> need_resched s)"
| "switches_task _ s = False"

fun spares :: "nat \<Rightarrow> sched_op \<Rightarrow> bool" where
  "spares c (OSpawn n) = False"
| "spares c (OSpawnChild n) = False"
| "spares c (OKill i) = (i \<noteq> c)"
| "spares c _ = True"

lemma calm_wait_begin:
  assumes inv: "sched_inv s" and c: "state_at s c \<noteq> Terminated" "current s \<noteq> c"
  shows "calm c s (snd (wait_for_task_begin child s))"
proof -
  note d = sched_invD [OF inv] and m = current_less [OF inv]
  have "state_at s child = Terminated \<Longrightarrow> child \<noteq> c" using c by auto
  then show ?thesis
    using d(1,3) m c calm_release [OF d(1) _ c(1), of child]
    by (auto simp: wait_for_task_begin_def Let_def calm_ctl intro!: calm_upd)
qed

lemma calm_reap_child:
  assumes inv: "sched_inv s" and c: "state_at s c \<noteq> Terminated"
  shows "calm c s (snd (reap_finished_child p s))"
proof -
  note d = sched_invD [OF inv]
  show ?thesis
  proof (cases "finished_child p s")
    case None
    then show ?thesis using c by (simp add: reap_finished_child_def calm_ctl)
  next
    case (Some i)
    then have "state_at s i = Terminated"
      using find_slot_Some [OF Some [unfolded finished_child_def]] by simp
    then have "i \<noteq> c" using c by auto
    then show ?thesis using Some calm_release [OF d(1) finished_child_not_idle(1) [OF inv Some] c]
      by (simp add: reap_finished_child_def)
  qed
qed

lemma calm_wait_any:
  assumes inv: "sched_inv s" and c: "state_at s c \<noteq> Terminated" "current s \<noteq> c"
  shows "calm c s (snd (wait_for_any_begin s))"
proof -
  obtain r s1 where r: "reap_finished_child (current s) s = (r, s1)" by force
  have s1: "calm c s s1" "sched_inv s1"
    using calm_reap_child [OF inv c(1), of "current s"] reap_finished_child_inv [OF inv r] r by auto
  then have "calm c s1 (snd (wait_for_task_begin i s1))" for i
    using c by (intro calm_wait_begin) (auto simp: calm_def)
  then have "calm c s (snd (wait_for_task_begin i s1))" for i using calm_trans [OF s1(1)] by blast
  then show ?thesis using s1(1) r
    by (auto simp: wait_for_any_begin_def Let_def split: option.splits prod.splits wait_result.splits)
      (metis snd_conv)+
qed

lemma calm_kill:
  assumes inv: "sched_inv s" and c: "state_at s c \<noteq> Terminated" "i \<noteq> c"
  shows "calm c s (snd (mark_terminated i s))"
proof (cases "i = 0 \<or> i \<ge> MAX_TASKS \<or> i = current s \<or> state_at s i = Unused \<or> state_at s i = Terminated")
  case True
  then show ?thesis using c by (auto simp: mark_terminated_def calm_ctl split: task_state.splits)
next
  case False
  note d = sched_invD [OF inv]
  let ?a = "set_state i Terminated s" and ?t = "upd_task i (\<lambda>t. t\<lparr>t_space := 0\<rparr>) (set_state i Terminated s)"
  have m: "i < MAX_TASKS" using False by simp
  have a: "calm c s ?a" using calm_set_state [OF d(1) m c(1)] c(2) by simp
  have t: "calm c s ?t" by (rule calm_trans [OF a calm_upd]) (use d(1) m c in auto)
  have "calm c s (release_slot i ?t)"
    by (rule calm_trans [OF t calm_release]) (use d(1) m c in auto)
  moreover have "snd (mark_terminated i s) = (if \<not> t_waitable (task_at ?t i) then release_slot i ?t else ?t)"
    using False by (auto simp: mark_terminated_def Let_def split: task_state.splits)
  ultimately show ?thesis using t by auto
qed

lemma calm_exit:
  assumes inv: "sched_inv s" and c: "state_at s c \<noteq> Terminated" "current s \<noteq> c"
  shows "calm c s (mark_current_terminated s)"
proof -
  note d = sched_invD [OF inv] and m = current_less [OF inv]
  define t where "t = set_state (current s) Terminated s"
  define u where "u = (if \<not> t_waitable (task_at t (current s)) then release_slot (current s) t else t)"
  have t: "calm c s t" unfolding t_def by (rule calm_set_state) (use d(1) m c in auto)
  have u: "calm c s u" using t calm_trans [OF t calm_release [of t "current s" c]] d(1) m c
    by (auto simp: u_def calm_def)
  have "calm c u (reap_orphans u)" using u c(1) d(1,3) by (intro calm_reap_orphans) (auto simp: calm_def)
  moreover have "mark_current_terminated s = reap_orphans u"
    unfolding mark_current_terminated_def Let_def u_def t_def by (rule refl)
  ultimately show ?thesis using calm_trans [OF u] by simp
qed

lemma calm_tick:
  assumes inv: "sched_inv s" and c: "state_at s c \<noteq> Terminated" "current s \<noteq> c"
  shows "calm c s (pit_on_tick s)"
proof -
  note d = sched_invD [OF inv] and m = current_less [OF inv]
  define t where "t = s\<lparr>ticks := w32 (ticks s + 1)\<rparr>"
  define u where "u = upd_task (current t) (\<lambda>t. t\<lparr>t_cpu_ticks := w32 (t_cpu_ticks t + 1)\<rparr>) t"
  have t: "calm c s t" using c(1) by (simp add: t_def calm_ctl)
  have tu: "calm c t u" unfolding u_def by (rule calm_upd) (use t d(1) m c in \<open>auto simp: calm_def\<close>)
  have u: "calm c s u" by (rule calm_trans [OF t tu])
  have l: "length (tasks u) = 8" "current u = current s" "state_at u c \<noteq> Terminated" "current t = current s"
    using t u c(1) d(1) by (auto simp: calm_def)
  have "calm c u (upd_task (current s) (\<lambda>t. t\<lparr>t_credits := t_credits t - 1\<rparr>) u)"
    "calm c u ((upd_task (current s) (\<lambda>t. t\<lparr>t_credits := 0\<rparr>) u)\<lparr>need_resched := True\<rparr>)"
    using l c m calm_upd [of u "current s" c] by (auto simp: calm_def)
  moreover have "pit_on_tick s =
      (if t_credits (task_at u (current t)) > 1
       then upd_task (current t) (\<lambda>t. t\<lparr>t_credits := t_credits t - 1\<rparr>) u
       else (upd_task (current t) (\<lambda>t. t\<lparr>t_credits := 0\<rparr>) u)\<lparr>need_resched := True\<rparr>)"
    unfolding pit_on_tick_def on_timer_tick_def Let_def u_def t_def by (rule refl)
  ultimately show ?thesis using calm_trans [OF u] l(4) by simp
qed

lemma calm_step:
  assumes inv: "sched_inv s" and ok: "sched_op_ok a s" "\<not> switches_task a s" "spares c a"
    and io: "a = OIoWake \<Longrightarrow> state_at s c \<noteq> IoWait"
    and c: "state_at s c \<noteq> Terminated" "current s \<noteq> c"
  shows "calm c s (sched_do a s)"
proof -
  note d = sched_invD [OF inv] and m = current_less [OF inv]
  note st = calm_set_state [OF d(1) m c] and up = calm_upd [OF d(1) m c(1)]
  show ?thesis
  proof (cases a)
    case (ONice i v)
    then show ?thesis using c calm_upd [OF d(1) _ c(1), of i]
      by (auto simp: set_nice_def Let_def calm_ctl)
  next
    case (OIoWait r n)
    then show ?thesis using st [of IoWait] c by (simp add: wait_for_io_begin_def io_arm_def calm_def)
  next
    case (OIoAgain r n)
    then show ?thesis using st [of IoWait] st [of Running] c
      by (simp add: wait_for_io_resume_def io_arm_def calm_def)
  next
    case (OWaitAgain i)
    have "state_at s i = Terminated \<Longrightarrow> i \<noteq> c" using c by auto
    then show ?thesis using OWaitAgain ok(1) d(3) c calm_release [OF d(1) _ c(1), of i]
      by (auto simp: wait_for_task_resume_def calm_ctl)
  next
    case (OSetSpace i x)
    then show ?thesis using c calm_upd [OF d(1) _ c(1), of i] by (auto simp: set_address_space_def calm_ctl)
  qed (use ok io c st up d(1,3) in \<open>auto simp: calm_ctl calm_tick [OF inv c] preempt_from_timer_def preempt_disable_def
      preempt_enable_def sleep_begin_def sleep_resume_def Let_def wake_io_waiters_def calm_wake_io
      calm_wait_begin [OF inv c] calm_wait_any [OF inv c] calm_reap_child [OF inv c(1)] calm_exit [OF inv c]
      calm_kill [OF inv c(1)] set_current_in_user_mode_def set_current_exit_code_def
      set_current_address_space_def suppress_heartbeat_def\<close>)
qed


fun sched_run :: "sched_op list \<Rightarrow> sched \<Rightarrow> sched" where
  "sched_run [] s = s"
| "sched_run (a # as) s = sched_run as (sched_do a s)"

fun run_ok :: "sched_op list \<Rightarrow> sched \<Rightarrow> bool" where
  "run_ok [] s = True"
| "run_ok (a # as) s = (sched_op_ok a s \<and> run_ok as (sched_do a s))"

text \<open>The number of handovers in a run.\<close>

fun handovers :: "sched_op list \<Rightarrow> sched \<Rightarrow> nat" where
  "handovers [] s = 0"
| "handovers (a # as) s =
     (if switches_task a s \<and> hands_over s then 1 else 0) + handovers as (sched_do a s)"

lemma switch_progress:
  assumes inv: "sched_inv s" and c: "c < task_count s" "c \<noteq> IDLE_TASK" "state_at s c = Ready" "current s \<noteq> c"
    and sw: "switches_task a s"
  shows "current (sched_do a s) = c \<or>
    (state_at (sched_do a s) c = Ready \<and> task_count (sched_do a s) = task_count s \<and>
     wait_bound c (sched_do a s) + (if hands_over s then 1 else 0) \<le> wait_bound c s)"
proof -
  let ?s = "s\<lparr>preemptions := preemptions s + 1\<rparr>"
  have "spare_credits ?s = spare_credits s"
    unfolding spare_credits_def by (intro sum.cong) simp_all
  then have "wait_bound c ?s = wait_bound c s" "hands_over ?s = hands_over s"
    using woken_cong [of ?s s] by (simp_all add: wait_bound_def hands_over_def)
  then show ?thesis
    using sw yield_progress [OF inv c] yield_progress [of ?s c] inv c
    by (cases a) (fastforce simp: preempt_from_timer_def)+
qed

lemma run_progress:
  assumes "sched_inv s" "c < task_count s" "c \<noteq> IDLE_TASK" "state_at s c = Ready"
    and "run_ok as s" "\<forall>a\<in>set as. spares c a"
    and "\<forall>k\<le>length as. current (sched_run (take k as) s) \<noteq> c"
  shows "handovers as s < wait_bound c s"
  using assms
proof (induction as arbitrary: s)
  case Nil
  have "1 \<le> wait_bound c s"
    using ahead_bounds [OF sched_invD(4) [OF Nil.prems(1)] Nil.prems(2)] by (simp add: wait_bound_def)
  then show ?case by simp
next
  case (Cons a as)
  let ?t = "sched_do a s"
  have ne: "current s \<noteq> c" using Cons.prems(7) by force
  have ne': "\<forall>k\<le>length as. current (sched_run (take k as) ?t) \<noteq> c"
    using Cons.prems(7) by (metis Suc_le_mono length_Cons sched_run.simps(2) take_Suc_Cons)
  then have net: "current ?t \<noteq> c" by force
  have it: "sched_inv ?t" using sched_do_inv Cons.prems by simp
  have "state_at ?t c = Ready \<and> task_count ?t = task_count s \<and>
      wait_bound c ?t + (if switches_task a s \<and> hands_over s then 1 else 0) \<le> wait_bound c s"
  proof (cases "switches_task a s")
    case True
    then show ?thesis using switch_progress [OF Cons.prems(1-4) ne True] net by auto
  next
    case False
    then have "calm c s ?t" using calm_step [OF Cons.prems(1) _ False _ _ _ ne] Cons.prems by simp
    then show ?thesis using calm_bound False Cons.prems(4) by (simp add: calm_def)
  qed
  moreover from this have "handovers as ?t < wait_bound c ?t"
    using Cons.IH [OF it] Cons.prems ne' by simp
  ultimately show ?case by simp
qed


section \<open>Properties\<close>

text \<open>
  Property C15. In every state the scheduler reaches from boot, by whatever sequence of its calls and
  timer ticks, at most the current task is marked running, the idle task is always ready or
  running (so a choice always exists), every waiting task waits for a slot of the table, slots
  beyond the count are unused, and no task has more credits than the longest slice.
\<close>

theorem sched_table_consistent:
  assumes "sched_reachable heap kcr3 s"
  shows "length (tasks s) = MAX_TASKS \<and> current s < task_count s \<and> task_count s \<le> MAX_TASKS \<and>
    state_at s IDLE_TASK = (if current s = IDLE_TASK then Running else Ready) \<and>
    (\<forall>i<MAX_TASKS. (state_at s i = Running \<longrightarrow> i = current s) \<and>
       (task_count s \<le> i \<longrightarrow> state_at s i = Unused) \<and> t_credits (task_at s i) \<le> 8 \<and>
       (state_at s i = Waiting \<longrightarrow> 0 < t_wait_for (task_at s i) \<and> t_wait_for (task_at s i) \<le> task_count s))"
  using sched_invD [OF sched_reachable_sched_inv [OF assms]] by blast

lemma sched_reachable_run:
  "sched_reachable heap kcr3 s \<Longrightarrow> run_ok as s \<Longrightarrow> sched_reachable heap kcr3 (sched_run as s)"
  by (induction as arbitrary: s) (auto intro: sched_reachable.step sched_step.intros)

definition demo_run :: sched where
  "demo_run = sched_run [OSpawnChild ''a'', OSpawn ''b'', OTick, OYield 1, OTick] (sched_init (sched_boot 0 4096))"

lemma demo_run_reachable: "sched_reachable 0 4096 demo_run"
  unfolding demo_run_def by (rule sched_reachable_run [OF sched_reachable.boot]) simp

text \<open>Task 1 runs, tasks 2 and 3 are ready with one credit each.\<close>

definition demo_sched :: sched where
  "demo_sched = (sched_boot 0 4096)
     \<lparr>tasks := [task_empty\<lparr>t_state := Ready\<rparr>, task_empty\<lparr>t_state := Running, t_credits := 2\<rparr>,
         task_empty\<lparr>t_state := Ready, t_credits := 1\<rparr>, task_empty\<lparr>t_state := Ready, t_credits := 1\<rparr>,
         task_empty, task_empty, task_empty, task_empty],
      current := 1, task_count := 4\<rparr>"

lemmas sched_eval = demo_sched_def sched_boot_def task_empty_def yield_now_def pick_next_def Let_def beat_def
  w32_def wake_expired_def wake_one_def upt_rec scan_ready_def find_slot.simps eligible_def
  switch_to_task_def set_state_def upd_task_def pit_on_tick_def on_timer_tick_def

lemma demo_sched_inv: "sched_inv demo_sched"
  by (rule sched_inv_by_table) (simp_all add: demo_sched_def sched_boot_def task_empty_def task_change_ok_def)

lemma demo_bound: "wait_bound 3 demo_sched = 2"
  by (simp add: wait_bound_def ahead_def demo_sched_def sched_boot_def task_empty_def)
lemma demo_handovers: "handovers [OYield 1, OTick, OYield 2] demo_sched = 2"
  by (simp add: sched_eval hands_over_def woken_def)

theorem sched_table_consistent_witness:
  "current demo_run < task_count demo_run \<and> task_count demo_run \<le> MAX_TASKS"
  using sched_table_consistent [OF demo_run_reachable] by blast

text \<open>
  The choice is work-conserving and round-robin: when any task but idle is ready
  after the expired sleepers and finished waits are woken, the scheduler chooses a ready task
  with credits, never idle, and it is the first such task after the current one in table order;
  idle is chosen only when nothing else is ready and the current task does not run on.
\<close>

theorem sched_work_conserving:
  assumes "sched_inv s" and "pick_next (current s) s = (n, s')"
  shows "n < task_count s \<and> sched_inv s' \<and>
    ((\<exists>i<task_count s. i \<noteq> IDLE_TASK \<and> state_at s' i = Ready) \<longrightarrow>
       eligible s' n \<and>
       (\<forall>j<task_count s. eligible s' j \<longrightarrow>
          ahead (task_count s) (current s) n \<le> ahead (task_count s) (current s) j)) \<and>
    (n = IDLE_TASK \<longrightarrow>
       (\<forall>i<task_count s. i \<noteq> IDLE_TASK \<longrightarrow> state_at s' i \<noteq> Ready) \<and>
       (current s = IDLE_TASK \<or> state_at s' (current s) \<noteq> Running))"
proof -
  note r = pick_next_result [OF assms] and d = sched_invD [OF assms(1)]
  let ?E = "\<exists>i<task_count s. eligible s' i"
  have tk: "out_of_credits s \<Longrightarrow> i < task_count s \<Longrightarrow> t_credits (task_at s' i) \<noteq> 0" for i
    using r(3) [of i] d(3) by (simp add: picked_task_def)
  have ready: ?E if "i < task_count s" "i \<noteq> 0" "state_at s' i = Ready" for i
  proof (rule ccontr)
    assume n: "\<not> ?E"
    then have "t_credits (task_at s' i) \<noteq> 0" using r(5) tk that by blast
    then show False using n that by (auto simp: eligible_def)
  qed
  have chosen: "eligible s' n \<and> (\<forall>j<task_count s. eligible s' j \<longrightarrow>
      ahead (task_count s) (current s) n \<le> ahead (task_count s) (current s) j)" if ?E
    using scan_Some(2,3) [OF r(4) [OF that] d(4)] by blast
  moreover have "\<not> eligible s' 0" by (simp add: eligible_def)
  ultimately have n0: "n = 0 \<Longrightarrow> \<not> ?E" by blast
  have "current s = 0 \<or> state_at s' (current s) \<noteq> Running" if "n = 0"
    using r(5) [OF n0 [OF that]] tk [OF _ d(4)] that by (auto simp: pick_fallback_def split: if_splits)
  then show ?thesis
    using ready r(2) chosen n0 pick_next_bound(1) [OF assms] by blast
qed

theorem sched_work_conserving_witness:
  "fst (pick_next (current demo_sched) demo_sched) < task_count demo_sched"
  using sched_work_conserving [OF demo_sched_inv prod.collapse [symmetric]]
  by blast

text \<open>
  Property C16. No ready task starves: from any state that satisfies the invariant, whatever the running tasks and the
  timer do (ticks, yields, preemptions, sleeps, waits, exits, kills of other tasks, changes of
  priority), a task that is ready gets the processor within \<open>wait_bound\<close> handovers, which is
  never more than 64, provided no new task is started and nobody kills it meanwhile.
\<close>

theorem sched_no_starvation:
  assumes "sched_inv s" and "c < task_count s" "c \<noteq> IDLE_TASK" "state_at s c = Ready"
    and "run_ok as s" and "\<forall>a\<in>set as. spares c a" and "wait_bound c s \<le> handovers as s"
  shows "wait_bound c s \<le> 64 \<and> (\<exists>k\<le>length as. current (sched_run (take k as) s) = c)"
  using run_progress [OF assms(1-6)] assms(7) wait_bound_le [OF assms(1,2)]
  by (meson not_less)

theorem sched_no_starvation_witness:
  "\<exists>k\<le>length [OYield 1, OTick, OYield 2].
     current (sched_run (take k [OYield 1, OTick, OYield 2]) demo_sched) = 3"
proof -
  have "3 < task_count demo_sched" "state_at demo_sched 3 = Ready" 
    by (simp_all add: demo_sched_def task_empty_def)
  then show ?thesis
    using sched_no_starvation [OF demo_sched_inv, of 3 "[OYield 1, OTick, OYield 2]"] demo_handovers demo_bound
    by simp
qed

lemma reap_orphans_keeps:
  assumes "length (tasks s) = MAX_TASKS" "task_count s \<le> MAX_TASKS"
    and "state_at s i \<noteq> Terminated \<or> \<not> t_waitable (task_at s i) \<or>
      (parent_alive s (task_count s) (t_parent (task_at s i)))"
  shows "task_at (reap_orphans s) i = task_at s i" "task_count (reap_orphans s) = task_count s"
proof -
  let ?f = "\<lambda>i t. if state_at t i \<noteq> Terminated \<or> \<not> t_waitable (task_at t i) then t
                  else if parent_alive t (task_count s) (t_parent (task_at t i)) then t
                  else release_slot i t"
  have "task_count (fold ?f [0..<n] s) = task_count s \<and> length (tasks (fold ?f [0..<n] s)) = MAX_TASKS \<and>
      task_at (fold ?f [0..<n] s) i = task_at s i \<and>
      (\<forall>j. state_at s j \<noteq> Terminated \<longrightarrow> state_at (fold ?f [0..<n] s) j = state_at s j)" if "n \<le> MAX_TASKS" for n
    using that
  proof (induction n)
    case (Suc n)
    let ?t = "fold ?f [0..<n] s"
    have IH: "task_count ?t = task_count s" "length (tasks ?t) = MAX_TASKS" "task_at ?t i = task_at s i"
      "\<forall>j. state_at s j \<noteq> Terminated \<longrightarrow> state_at ?t j = state_at s j" using Suc by auto
    have "parent_alive s (task_count s) p \<Longrightarrow> parent_alive ?t (task_count s) p" for p
      using IH(4) by (simp add: parent_alive_def)
    moreover have "state_at s n \<noteq> Terminated \<Longrightarrow> state_at ?t n \<noteq> Terminated" using IH(4) by simp
    ultimately show ?case using IH assms(3) Suc.prems by (auto simp: release_slot_def)
  qed (use assms in simp)
  from this [of "task_count s"] assms(2) show "task_at (reap_orphans s) i = task_at s i" "task_count (reap_orphans s) = task_count s"
    by (simp_all add: reap_orphans_def Let_def)
qed

text \<open>
  Property C17. Waiting for a task and its exit meet only when the task is waitable: if task \<open>a\<close>
  waits for the current task \<open>b\<close> and \<open>b\<close> exits, then the next wake-up pass makes \<open>a\<close> ready and
  its call returns \<open>b\<close>'s exit code, provided \<open>b\<close> was started as a waitable child of a live
  parent; if \<open>b\<close> is not waitable its slot is unused at once, the pass leaves \<open>a\<close> waiting, and
  the call, were it resumed, would only wait again.
\<close>

theorem sched_wait_meets_exit:
  assumes inv: "sched_inv s" and b: "current s = b" "b \<noteq> IDLE_TASK"
    and a: "a < task_count s" "a \<noteq> b" "state_at s a = Waiting" "t_wait_for (task_at s a) = b + 1"
  defines "s' \<equiv> mark_current_terminated s"
  shows "(t_waitable (task_at s b) \<and> t_parent (task_at s b) \<noteq> b \<and>
        parent_alive s (task_count s) (t_parent (task_at s b)) \<longrightarrow>
        state_at (wake_expired (task_count s) s') a = Ready \<and>
        fst (wait_for_task_resume b s') = WaitDone (Some (t_exit (task_at s b)))) \<and>
    (\<not> t_waitable (task_at s b) \<longrightarrow>
        state_at s' b = Unused \<and> state_at (wake_expired (task_count s) s') a = Waiting \<and>
        wait_for_task_resume b s' = (WaitAsleep b, s'))"
proof -
  note d = sched_invD [OF inv]
  define t where "t = set_state b Terminated s"
  define u where "u = (if \<not> t_waitable (task_at t b) then release_slot b t else t)"
  have s': "s' = reap_orphans u"
    unfolding s'_def mark_current_terminated_def Let_def u_def t_def b by (rule refl)
  have m: "a < MAX_TASKS" "b < MAX_TASKS" using a d(3,4) b by simp_all
  have l: "length (tasks u) = MAX_TASKS" "task_count u = task_count s" using d(1) by (simp_all add: u_def t_def release_slot_def)
  have ua: "task_at u a = task_at s a" using a m d(1) by (simp add: u_def t_def release_slot_def)
  have inv': "sched_inv s'" unfolding s'_def using mark_current_terminated_inv [OF inv] b by simp
  have sa: "task_at s' a = task_at s a" and cnt: "task_count s' = task_count s"
    using reap_orphans_keeps [OF l(1), of a] l(2) d(3) ua a(3) by (simp_all add: s')
  note w = wake_expired_result(2) [OF inv' m(1), unfolded cnt]
  show ?thesis
  proof (intro conjI impI)
    assume p: "t_waitable (task_at s b) \<and> t_parent (task_at s b) \<noteq> b \<and>
        parent_alive s (task_count s) (t_parent (task_at s b))"
    have ub: "task_at u b = (task_at s b)\<lparr>t_state := Terminated\<rparr>" using p m d(1) by (simp add: u_def t_def)
    have "parent_alive u (task_count s) (t_parent (task_at s b))"
      using p m d(1) by (simp add: parent_alive_def u_def t_def release_slot_def)
    then have sb: "task_at s' b = (task_at s b)\<lparr>t_state := Terminated\<rparr>"
      using reap_orphans_keeps(1) [OF l(1), of b] l(2) d(3) ub by (simp add: s')
    show "state_at (wake_expired (task_count s) s') a = Ready"
      using w a sa sb by (simp add: woken_def Let_def)
    show "fst (wait_for_task_resume b s') = WaitDone (Some (t_exit (task_at s b)))"
      using sb by (simp add: wait_for_task_resume_def)
  next
    assume p: "\<not> t_waitable (task_at s b)"
    have ub: "state_at u b = Unused" using p m d(1) by (simp add: u_def t_def release_slot_def)
    then show sb: "state_at s' b = Unused"
      using reap_orphans_keeps(1) [OF l(1), of b] l(2) d(3) by (simp add: s')
    show "state_at (wake_expired (task_count s) s') a = Waiting"
      using w a sa sb by (simp add: woken_def Let_def)
    show "wait_for_task_resume b s' = (WaitAsleep b, s')" using sb by (simp add: wait_for_task_resume_def)
  qed
qed

text \<open>Task 2 waits for its child 1, which runs.\<close>

definition demo_wait :: sched where
  "demo_wait = (sched_boot 0 4096)
     \<lparr>tasks := [task_empty\<lparr>t_state := Ready\<rparr>,
         task_empty\<lparr>t_state := Running, t_parent := 2, t_waitable := True, t_exit := 7\<rparr>,
         task_empty\<lparr>t_state := Waiting, t_wait_for := 2\<rparr>,
         task_empty, task_empty, task_empty, task_empty, task_empty],
      current := 1, task_count := 3\<rparr>"

lemma demo_wait_inv: "sched_inv demo_wait"
  by (rule sched_inv_by_table) (simp_all add: demo_wait_def sched_boot_def task_empty_def task_change_ok_def)

theorem sched_wait_meets_exit_witness:
  "state_at (wake_expired (task_count demo_wait) (mark_current_terminated demo_wait)) 2 = Ready \<and>
   fst (wait_for_task_resume 1 (mark_current_terminated demo_wait)) = WaitDone (Some 7)"
proof -
  have "current demo_wait = 1" "2 < task_count demo_wait" "state_at demo_wait 2 = Waiting"
    "t_wait_for (task_at demo_wait 2) = 1 + 1" "t_waitable (task_at demo_wait 1)"
    "t_parent (task_at demo_wait 1) = 2" "parent_alive demo_wait (task_count demo_wait) 2"
    "t_exit (task_at demo_wait 1) = 7"
    by (simp_all add: demo_wait_def sched_boot_def task_empty_def parent_alive_def)
  then show ?thesis using sched_wait_meets_exit [OF demo_wait_inv, of 1 2] by simp
qed


section \<open>Waiting for a device\<close>

lemma yield_passes_over:
  assumes inv: "sched_inv s" and c: "c < MAX_TASKS" "state_at s c = IoWait" "current s \<noteq> c"
  shows "state_at (yield_now rsp s) c = IoWait" "current (yield_now rsp s) \<noteq> c"
proof -
  obtain n s1 s2 where s1: "sched_inv s1" "tasks s1 = tasks s" "current s1 = current s"
      "task_count s1 = task_count s" "ticks s1 = ticks s"
    and p: "pick_next (current s1) s1 = (n, s2)"
    and s2: "sched_inv s2" "current s2 = current s" "task_count s2 = task_count s" "n < task_count s"
    and y: "yield_now rsp s = (if n = current s then s2 else switch_to_task rsp (current s2) n s2)"
    by (rule yield_now_cases [OF inv, of rsp])
  note d2 = sched_invD [OF s2(1)]
  have "woken s1 c = task_at s1 c" using c(2) s1(2) by (intro woken_state(2)) simp
  then have st: "state_at s2 c = IoWait"
    using pick_next_result(3) [OF s1(1) p c(1)] c(2) s1(2) by (simp add: picked_task_def)
  have nc: "n \<noteq> c"
  proof
    assume "n = c"
    then have "n \<noteq> current s1" using c(3) s1(3) by simp
    then show False using pick_next_bound(2) [OF s1(1) p] st \<open>n = c\<close> by simp
  qed
  show "state_at (yield_now rsp s) c = IoWait" "current (yield_now rsp s) \<noteq> c"
  proof (atomize (full), cases "n = current s")
    case True
    then show "state_at (yield_now rsp s) c = IoWait \<and> current (yield_now rsp s) \<noteq> c"
      using y st c(3) s2(2) by simp
  next
    case False
    have m: "current s2 < MAX_TASKS" "n < MAX_TASKS" "n \<noteq> current s2" using d2(3,4) s2 False by simp_all
    note sw = switch_to_task_result [OF d2(1,3) m, where rsp = rsp]
    show "state_at (yield_now rsp s) c = IoWait \<and> current (yield_now rsp s) \<noteq> c"
      using y False sw(1) sw(5) [OF c(1)] st nc c(3) s2(2) by simp
  qed
qed

lemma spawn_inner_other:
  assumes inv: "sched_inv s" and sp: "spawn_inner name w s = (r, s')" and c: "c < MAX_TASKS" "state_at s c \<noteq> Unused"
  shows "task_at s' c = task_at s c" "current s' = current s"
proof -
  have "task_at s' c = task_at s c \<and> current s' = current s"
  proof (cases "spawn_slot s")
    case None
    then show ?thesis using sp by (simp add: spawn_inner_def)
  next
    case (Some q)
    obtain i s1 where q: "q = (i, s1)" by force
    have s1: "tasks s1 = tasks s" "current s1 = current s"
      using Some q by (auto simp: spawn_slot_def Let_def split: option.splits if_splits)
    have ic: "i \<noteq> c"
    proof (cases "find_slot (\<lambda>i. state_at s i = Unused) 0 (task_count s)")
      case None
      then have "i = task_count s" using Some q by (auto simp: spawn_slot_def Let_def split: if_splits)
      then show ?thesis using sched_invD(5) [OF inv c(1)] c(2) by auto
    next
      case (Some j)
      then show ?thesis using \<open>spawn_slot s = Some q\<close> q find_slot_Some [OF Some] c(2)
        by (auto simp: spawn_slot_def Let_def)
    qed
    obtain so s2 where st: "spawn_stacks i s1 = (so, s2)" by force
    have s2: "tasks s2 = tasks s1" "current s2 = current s1"
      using st by (auto simp: spawn_stacks_def split: if_splits option.splits prod.splits)
    show ?thesis
      using sp Some q st s1 s2 ic by (auto simp: spawn_inner_def upd_task_def split: option.splits prod.splits)
  qed
  then show "task_at s' c = task_at s c" "current s' = current s" by auto
qed

lemma io_wait_step:
  assumes inv: "sched_inv s" and c: "c < MAX_TASKS" "state_at s c = IoWait" "current s \<noteq> c"
    and ok: "sched_op_ok a s" and a: "a \<noteq> OIoWake" "a \<noteq> OKill c"
  shows "state_at (sched_do a s) c = IoWait \<and> current (sched_do a s) \<noteq> c"
proof (cases a)
  case (OYield rsp)
  then show ?thesis using yield_passes_over [OF inv c] by simp
next
  case (OPreempt rsp)
  have i: "sched_inv (s\<lparr>preemptions := preemptions s + 1\<rparr>)" using inv by simp
  show ?thesis using OPreempt c yield_passes_over [OF i] by (simp add: preempt_from_timer_def)
next
  case (OSpawn n)
  then show ?thesis using spawn_inner_other [OF inv prod.collapse [symmetric] c(1)] c by (simp add: spawn_def)
next
  case (OSpawnChild n)
  then show ?thesis using spawn_inner_other [OF inv prod.collapse [symmetric] c(1)] c by (simp add: spawn_child_def)
qed (use calm_step [OF inv ok _ _ _ _ c(3)] a c(2,3) in \<open>simp_all add: calm_def\<close>)

text \<open>
  The time limit of \<open>wait_for_io\<close> has no effect: a task that has gone to sleep in it is not
  woken by the passing of its deadline, nor by anything the other tasks or the timer do; it
  stays asleep until a device interrupt runs \<open>wake_io_waiters\<close> or somebody kills it.  The
  check of the deadline, which comes after the call of \<open>yield_now\<close>, is therefore never reached
  when no interrupt comes.
\<close>

theorem sched_io_timeout_dead:
  assumes "sched_inv s" "c < MAX_TASKS" "state_at s c = IoWait" "current s \<noteq> c"
    and "run_ok as s" and "OIoWake \<notin> set as" "OKill c \<notin> set as"
  shows "state_at (sched_run as s) c = IoWait \<and> current (sched_run as s) \<noteq> c"
  using assms
proof (induction as arbitrary: s)
  case (Cons a as)
  have "sched_inv (sched_do a s)" using sched_do_inv Cons.prems by simp
  moreover have "state_at (sched_do a s) c = IoWait \<and> current (sched_do a s) \<noteq> c"
    by (rule io_wait_step [OF Cons.prems(1-4)]) (use Cons.prems in auto)
  ultimately show ?case using Cons.IH Cons.prems by simp
qed simp

text \<open>Task 1 reads the disk with a time limit of 200 ticks and gives the processor away.\<close>

definition demo_io :: sched where
  "demo_io = yield_now 0 (snd (wait_for_io_begin False 200 demo_sched))"

lemma demo_io_inv: "sched_inv demo_io"
proof -
  have "sched_inv (sched_do (OYield 0) (sched_do (OIoWait False 200) demo_sched))"
    by (intro sched_do_inv demo_sched_inv) simp_all
  then show ?thesis by (simp add: demo_io_def)
qed

lemma demo_io_asleep: "state_at demo_io 1 = IoWait" "current demo_io = 2"
  by (simp_all add: demo_io_def wait_for_io_begin_def io_arm_def sched_eval)

theorem sched_io_timeout_dead_witness:
  "state_at (sched_run (replicate 1000 OTick) demo_io) 1 = IoWait"
proof -
  have "run_ok (replicate n OTick) s" for n s by (induction n arbitrary: s) simp_all
  then show ?thesis
    using sched_io_timeout_dead [OF demo_io_inv, of 1 "replicate 1000 OTick"] demo_io_asleep by simp
qed

end
