(* ===== verification/Ring.thy ===== *)
theory Ring imports Interfaces begin

text \<open>
  Ring buffers: an array of \<open>N\<close> cells with a head and a tail that run modulo \<open>N\<close>, of which one cell
  stays free.  \<open>ring_list\<close> is the queue such a ring holds; the lemmas say what the two updates do
  to it.  The message ring, the event queue, the key queues and the launch queue are such rings.
\<close>

definition ring_len :: "nat \<Rightarrow> nat \<Rightarrow> nat \<Rightarrow> nat" where
  "ring_len N head tail = (head + N - tail) mod N"

definition ring_list :: "nat \<Rightarrow> 'a list \<Rightarrow> nat \<Rightarrow> nat \<Rightarrow> 'a list" where
  "ring_list N buf head tail = map (\<lambda>k. buf ! ((tail + k) mod N)) [0..<ring_len N head tail]"

lemma length_ring_list [simp]: "length (ring_list N buf h t) = ring_len N h t"
  by (simp add: ring_list_def)

lemma ring_len_at: "h < N \<Longrightarrow> t < N \<Longrightarrow> ring_len N h t = (if t \<le> h then h - t else h + N - t)"
  by (auto simp: ring_len_def le_mod_geq)

lemma ring_next_if: "h < N \<Longrightarrow> (h + 1) mod N = (if h = N - 1 then 0 else h + 1)" for h :: nat
  by (cases "h = N - 1") (simp_all add: mod_if)

lemma ring_full_iff:
  assumes "h < N" "t < N"
  shows "(h + 1) mod N = t \<longleftrightarrow> ring_len N h t = N - 1"
  unfolding ring_len_at [OF assms] ring_next_if [OF assms(1)] using assms by (cases "h = N - 1") auto

lemma ring_len_less: "h < N \<Longrightarrow> ring_len N h t < N"
  unfolding ring_len_def by (rule mod_less_divisor) simp

lemma ring_len_0_iff: "h < N \<Longrightarrow> t < N \<Longrightarrow> ring_len N h t = 0 \<longleftrightarrow> t = h"
  by (auto simp: ring_len_at)

lemma ring_len_put:
  assumes "h < N" "t < N" "(h + 1) mod N \<noteq> t"
  shows "ring_len N ((h + 1) mod N) t = Suc (ring_len N h t)"
proof -
  have n: "(h + 1) mod N < N" using assms(1) by (intro mod_less_divisor) simp
  show ?thesis using assms unfolding ring_len_at [OF n assms(2)] ring_len_at [OF assms(1,2)]
    by (auto simp: mod_Suc split: if_splits)
qed

lemma ring_len_get:
  assumes "h < N" "t < N" "t \<noteq> h"
  shows "ring_len N h t = Suc (ring_len N h ((t + 1) mod N))"
proof -
  have n: "(t + 1) mod N < N" using assms(1) by (intro mod_less_divisor) simp
  show ?thesis using assms unfolding ring_len_at [OF assms(1) n] ring_len_at [OF assms(1,2)]
    by (auto simp: mod_Suc split: if_splits)
qed

lemma ring_cell_distinct: "t < N \<Longrightarrow> k < d \<Longrightarrow> d < N \<Longrightarrow> (t + k) mod N \<noteq> (t + d) mod (N :: nat)"
  by (auto simp: mod_if split: if_splits)

lemma ring_tail_len: "h < N \<Longrightarrow> t < N \<Longrightarrow> (t + ring_len N h t) mod N = h"
  by (auto simp: ring_len_at mod_if)

lemma ring_put:
  assumes "length buf = N" "h < N" "t < N" "(h + 1) mod N \<noteq> t"
  shows "ring_list N (buf[h := x]) ((h + 1) mod N) t = ring_list N buf h t @ [x]"
proof -
  have len: "ring_len N h t < N" by (rule ring_len_less [OF assms(2)])
  have h: "(t + ring_len N h t) mod N = h" by (rule ring_tail_len [OF assms(2,3)])
  have "h \<noteq> (t + k) mod N" if "k < ring_len N h t" for k
    using ring_cell_distinct [OF assms(3) that len] h by simp
  then have "buf[h := x] ! ((t + k) mod N) = buf ! ((t + k) mod N)" if "k < ring_len N h t" for k
    using that by (intro nth_list_update_neq) blast
  then show ?thesis using h assms(1,2) unfolding ring_list_def ring_len_put [OF assms(2-4)] by simp
qed

lemma ring_get:
  assumes "h < N" "t < N" "t \<noteq> h"
  shows "ring_list N buf h t = buf ! t # ring_list N buf h ((t + 1) mod N)"
proof -
  have "ring_list N buf h t = map (\<lambda>k. buf ! ((t + k) mod N)) (0 # map Suc [0..<ring_len N h ((t + 1) mod N)])"
    unfolding ring_list_def ring_len_get [OF assms] by (simp only: upt_conv_Cons map_Suc_upt zero_less_Suc)
  moreover have "((t + 1) mod N + k) mod N = (t + Suc k) mod N" for k by (subst mod_add_left_eq) simp
  ultimately show ?thesis using assms(2) by (simp add: ring_list_def)
qed

lemma ring_empty: "h < N \<Longrightarrow> ring_list N buf h h = []"
  by (simp add: ring_list_def ring_len_def)

text \<open>Clearing a cell outside the queue does not show.\<close>

lemma ring_clear:
  assumes "h < N" "t < N" "t \<noteq> h"
  shows "ring_list N (buf[t := x]) h ((t + 1) mod N) = ring_list N buf h ((t + 1) mod N)"
proof -
  have len: "Suc (ring_len N h ((t + 1) mod N)) < N" using ring_len_get [OF assms] ring_len_less [OF assms(1), of t] by simp
  have "t \<noteq> ((t + 1) mod N + k) mod N" if "k < ring_len N h ((t + 1) mod N)" for k
  proof -
    have "((t + 1) mod N + k) mod N = (t + Suc k) mod N" by (subst mod_add_left_eq) simp
    moreover have "(t + 0) mod N \<noteq> (t + Suc k) mod N" by (rule ring_cell_distinct [OF assms(2)]) (use that len in simp_all)
    ultimately show ?thesis using assms(2) by simp
  qed
  then have "buf[t := x] ! (((t + 1) mod N + k) mod N) = buf ! (((t + 1) mod N + k) mod N)" if "k < ring_len N h ((t + 1) mod N)" for k
    using that by (intro nth_list_update_neq) blast
  then show ?thesis by (simp add: ring_list_def)
qed

end
