(* ===== verification/Ipc.thy ===== *)
theory Ipc imports Ring begin

text \<open>
  The channel between the layers, \<^verbatim>\<open>kernel/src/level0b2/ipc.rs\<close>: the shared status area, the
  message ring that producers fill without ever waiting, and the history of the messages that
  were taken out.  \<open>ipc\<close> holds the statics of the file; the counters are \<open>u32\<close> and wrap.  The
  tick a message is stamped with is the argument \<open>tick\<close>.
\<close>

section \<open>State\<close>

abbreviation (input) RING_SIZE :: nat where "RING_SIZE \<equiv> 32"
abbreviation (input) HISTORY_SIZE :: nat where "HISTORY_SIZE \<equiv> 8"
abbreviation (input) SHARED_MAGIC :: nat where "SHARED_MAGIC \<equiv> 0x544D4B00"

record shared_area =
  sh_magic :: nat
  sh_heartbeat :: nat
  sh_ticks :: nat
  sh_tasks :: nat
  sh_switches :: nat
  sh_level0a_status :: nat

definition shared_init :: shared_area where
  "shared_init = \<lparr>sh_magic = SHARED_MAGIC, sh_heartbeat = 0, sh_ticks = 0, sh_tasks = 0,
                  sh_switches = 0, sh_level0a_status = 0\<rparr>"

definition shared_is_valid :: "shared_area \<Rightarrow> bool" where
  "shared_is_valid a \<longleftrightarrow> sh_magic a = SHARED_MAGIC"

datatype msg_kind = BootComplete | AppStart | AppExit | Fault | Throttled | HealthChange | Note

record message =
  m_kind :: msg_kind
  m_task :: nat
  m_a :: nat
  m_b :: nat
  m_tick :: nat
  m_text :: string

definition msg_empty :: message where
  "msg_empty = \<lparr>m_kind = Note, m_task = 0, m_a = 0, m_b = 0, m_tick = 0, m_text = ''''\<rparr>"

record ipc =
  ring :: "message list"
  ring_head :: nat
  ring_tail :: nat
  hist :: "message list"
  hist_len :: nat
  hist_next :: nat
  posted :: nat
  consumed :: nat
  dropped :: nat
  high_water :: nat

definition ipc_init :: ipc where
  "ipc_init = \<lparr>ring = replicate RING_SIZE msg_empty, ring_head = 0, ring_tail = 0,
               hist = replicate HISTORY_SIZE msg_empty, hist_len = 0, hist_next = 0,
               posted = 0, consumed = 0, dropped = 0, high_water = 0\<rparr>"

section \<open>Operations\<close>

definition post :: "msg_kind \<Rightarrow> nat \<Rightarrow> nat \<Rightarrow> nat \<Rightarrow> string \<Rightarrow> nat \<Rightarrow> ipc \<Rightarrow> bool \<times> ipc" where
  "post kind task a b text tick s =
     (let message = \<lparr>m_kind = kind, m_task = task, m_a = a, m_b = b, m_tick = tick, m_text = text\<rparr>;
          head = ring_head s;
          next = (head + 1) mod RING_SIZE in
      if next = ring_tail s then (False, s\<lparr>dropped := w32 (dropped s + 1)\<rparr>)
      else (let depth = (next + RING_SIZE - ring_tail s) mod RING_SIZE in
            (True, s\<lparr>ring := (ring s)[head := message], ring_head := next,
                     posted := w32 (posted s + 1), high_water := max (high_water s) depth\<rparr>)))"

definition remember :: "message \<Rightarrow> ipc \<Rightarrow> ipc" where
  "remember message s =
     (let slot = hist_next s in
      s\<lparr>hist := (hist s)[slot := message], hist_next := (slot + 1) mod HISTORY_SIZE,
        hist_len := (if hist_len s < HISTORY_SIZE then hist_len s + 1 else hist_len s)\<rparr>)"

definition poll :: "ipc \<Rightarrow> (message \<times> ipc) option" where
  "poll s =
     (let tail = ring_tail s in
      if tail = ring_head s then None
      else (let message = ring s ! tail in
            Some (message, remember message
              (s\<lparr>ring_tail := (tail + 1) mod RING_SIZE, consumed := w32 (consumed s + 1)\<rparr>))))"

definition history :: "nat \<Rightarrow> ipc \<Rightarrow> message option" where
  "history index s =
     (if index \<ge> hist_len s then None
      else Some (hist s ! ((hist_next s + HISTORY_SIZE - 1 - index) mod HISTORY_SIZE)))"

definition depth :: "ipc \<Rightarrow> nat" where
  "depth s = (ring_head s + RING_SIZE - ring_tail s) mod RING_SIZE"

definition ring_capacity :: nat where
  "ring_capacity = RING_SIZE - 1"

section \<open>The ring as a queue\<close>

definition ipc_inv :: "ipc \<Rightarrow> bool" where
  "ipc_inv s \<longleftrightarrow> length (ring s) = RING_SIZE \<and> ring_head s < RING_SIZE \<and> ring_tail s < RING_SIZE \<and>
     length (hist s) = HISTORY_SIZE \<and> hist_next s < HISTORY_SIZE \<and> hist_len s \<le> HISTORY_SIZE \<and>
     high_water s \<le> ring_capacity \<and> posted s < 2 ^ 32 \<and> consumed s < 2 ^ 32 \<and> dropped s < 2 ^ 32"

definition queued :: "ipc \<Rightarrow> message list" where
  "queued s = map (\<lambda>k. ring s ! ((ring_tail s + k) mod RING_SIZE)) [0..<depth s]"

lemma queued_length [simp]: "length (queued s) = depth s"
  by (simp add: queued_def)

lemma ipc_inv_init: "ipc_inv ipc_init"
  by (simp add: ipc_inv_def ipc_init_def ring_capacity_def)

lemma queued_ring:
  "depth s = ring_len RING_SIZE (ring_head s) (ring_tail s)" "queued s = ring_list RING_SIZE (ring s) (ring_head s) (ring_tail s)"
  by (simp_all add: depth_def queued_def ring_len_def ring_list_def)

lemma depth_le: "ipc_inv s \<Longrightarrow> depth s \<le> ring_capacity"
  using ring_len_less [of "ring_head s" RING_SIZE "ring_tail s"] by (simp add: queued_ring ring_capacity_def ipc_inv_def)

lemma post_result:
  assumes inv: "ipc_inv s" and p: "post kd tk a b tx tick s = (ok, s')"
  shows "ok \<longleftrightarrow> depth s < ring_capacity"
    and "queued s' = (if ok then queued s @ [\<lparr>m_kind = kd, m_task = tk, m_a = a, m_b = b, m_tick = tick, m_text = tx\<rparr>]
                      else queued s)"
    and "ipc_inv s'"
    and "posted s' = (if ok then w32 (posted s + 1) else posted s)"
    and "dropped s' = (if ok then dropped s else w32 (dropped s + 1))"
    and "consumed s' = consumed s" "hist s' = hist s" "hist_len s' = hist_len s" "hist_next s' = hist_next s"
proof -
  let ?m = "\<lparr>m_kind = kd, m_task = tk, m_a = a, m_b = b, m_tick = tick, m_text = tx\<rparr>"
  let ?h = "ring_head s" and ?t = "ring_tail s"
  have b: "?h < 32" "?t < 32" "length (ring s) = 32" using inv by (auto simp: ipc_inv_def)
  have cap: "depth s < ring_capacity \<longleftrightarrow> Suc ?h mod 32 \<noteq> ?t"
    using ring_full_iff [OF b(1,2)] depth_le [OF inv] by (auto simp: queued_ring ring_capacity_def)
  show ok: "ok \<longleftrightarrow> depth s < ring_capacity"
    using p cap by (auto simp: post_def Let_def split: if_splits)
  show "posted s' = (if ok then w32 (posted s + 1) else posted s)"
    "dropped s' = (if ok then dropped s else w32 (dropped s + 1))"
    "consumed s' = consumed s" "hist s' = hist s" "hist_len s' = hist_len s" "hist_next s' = hist_next s"
    using p by (auto simp: post_def Let_def split: if_splits)
  show "ipc_inv s'"
  proof (cases ok)
    case True
    have "(Suc ?h mod 32 + 32 - ?t) mod 32 \<le> 31"
      using mod_less_divisor [of 32 "Suc ?h mod 32 + 32 - ?t"] by linarith
    then show ?thesis using p inv True
      by (auto simp: post_def Let_def ipc_inv_def ring_capacity_def split: if_splits)
  next
    case False
    then show ?thesis using p inv by (auto simp: post_def Let_def ipc_inv_def split: if_splits)
  qed
  show "queued s' = (if ok then queued s @ [?m] else queued s)"
  proof (cases ok)
    case False
    then have "ring s' = ring s" "ring_head s' = ?h" "ring_tail s' = ?t"
      using p by (auto simp: post_def Let_def split: if_splits)
    then show ?thesis using False by (simp add: queued_def depth_def)
  next
    case True
    then have ne: "Suc ?h mod 32 \<noteq> ?t" using ok cap by simp
    have s': "ring s' = (ring s)[?h := ?m]" "ring_head s' = Suc ?h mod 32" "ring_tail s' = ?t"
      using p True by (auto simp: post_def Let_def split: if_splits)
    show ?thesis using ring_put [OF b(3,1,2), of ?m] ne True s' by (simp add: queued_ring)
  qed
qed

lemma poll_None: "ipc_inv s \<Longrightarrow> poll s = None \<longleftrightarrow> queued s = []"
proof -
  assume inv: "ipc_inv s"
  then have b: "ring_head s < 32" "ring_tail s < 32" by (auto simp: ipc_inv_def)
  have "ring_tail s = ring_head s \<longleftrightarrow> queued s = []"
    using ring_len_0_iff [OF b] by (simp add: queued_ring ring_list_def)
  then show ?thesis by (auto simp: poll_def Let_def)
qed

lemma poll_result:
  assumes inv: "ipc_inv s" and p: "poll s = Some (m, s')"
  shows "queued s = m # queued s'" "ipc_inv s'"
    "posted s' = posted s" "dropped s' = dropped s" "consumed s' = w32 (consumed s + 1)"
    "hist s' = (hist s)[hist_next s := m]" "hist_next s' = Suc (hist_next s) mod HISTORY_SIZE"
    "hist_len s' = min HISTORY_SIZE (hist_len s + 1)"
proof -
  let ?h = "ring_head s" and ?t = "ring_tail s"
  have b: "?h < 32" "?t < 32" using inv by (auto simp: ipc_inv_def)
  have ne: "?t \<noteq> ?h" and m: "m = ring s ! ?t" and s': "s' = remember m (s\<lparr>ring_tail := Suc ?t mod 32, consumed := w32 (consumed s + 1)\<rparr>)"
    using p by (auto simp: poll_def Let_def split: if_splits)
  have f: "ring s' = ring s" "ring_head s' = ?h" "ring_tail s' = Suc ?t mod 32" by (simp_all add: s' remember_def Let_def)
  show "queued s = m # queued s'" using ring_get [OF b ne, of "ring s"] m f by (simp add: queued_ring)
  show "ipc_inv s'" using inv by (auto simp: ipc_inv_def s' remember_def Let_def)
  show "posted s' = posted s" "dropped s' = dropped s" "consumed s' = w32 (consumed s + 1)"
    "hist s' = (hist s)[hist_next s := m]" "hist_next s' = Suc (hist_next s) mod HISTORY_SIZE"
    by (simp_all add: s' remember_def Let_def)
  show "hist_len s' = min HISTORY_SIZE (hist_len s + 1)"
    using inv by (auto simp: s' remember_def Let_def ipc_inv_def)
qed

text \<open>The ring implements the bounded queue.\<close>

definition post_message :: "message \<Rightarrow> ipc \<Rightarrow> bool \<times> ipc" where
  "post_message m = post (m_kind m) (m_task m) (m_a m) (m_b m) (m_text m) (m_tick m)"

lemma message_eta [simp]:
  "\<lparr>m_kind = m_kind m, m_task = m_task m, m_a = m_a m, m_b = m_b m, m_tick = m_tick m, m_text = m_text m\<rparr> = m"
  by simp

interpretation ipc_ring: bounded_fifo ipc_inv queued ring_capacity post_message poll
proof
  show "\<And>s x ok s'. ipc_inv s \<Longrightarrow> post_message x s = (ok, s') \<Longrightarrow>
      ok = (length (queued s) < ring_capacity) \<and> queued s' = (if ok then queued s @ [x] else queued s)"
    using post_result(1,2) by (fastforce simp: post_message_def)
  show "\<And>s. ipc_inv s \<Longrightarrow>
      (case poll s of None \<Rightarrow> queued s = [] | Some (x, s') \<Rightarrow> queued s = x # queued s')"
    using poll_None poll_result(1) by (auto split: option.splits)
qed (auto simp: post_message_def dest: post_result(3) poll_result(2))


section \<open>Runs\<close>

datatype ipc_op = Post message | Poll

text \<open>The messages accepted and the messages taken out by a run.\<close>

fun ipc_run :: "ipc_op list \<Rightarrow> ipc \<Rightarrow> message list \<times> message list \<times> ipc" where
  "ipc_run [] s = ([], [], s)"
| "ipc_run (Post m # as) s =
     (let (ok, s1) = post_message m s; (ins, outs, s2) = ipc_run as s1
      in (if ok then m # ins else ins, outs, s2))"
| "ipc_run (Poll # as) s =
     (case poll s of
        None \<Rightarrow> ipc_run as s
      | Some (m, s1) \<Rightarrow> (let (ins, outs, s2) = ipc_run as s1 in (ins, m # outs, s2)))"

text \<open>The history holds the last messages taken out, the newest last.\<close>

definition hist_holds :: "message list \<Rightarrow> ipc \<Rightarrow> bool" where
  "hist_holds outs s \<longleftrightarrow> hist_len s = min HISTORY_SIZE (length outs) \<and>
     (\<forall>i<hist_len s. hist s ! ((hist_next s + HISTORY_SIZE - 1 - i) mod HISTORY_SIZE) = rev outs ! i)"

lemma hist_slot_step:
  assumes "n < 8" "i < 7"
  shows "(Suc n mod 8 + 8 - 1 - Suc i) mod 8 = (n + 8 - 1 - i) mod (8 :: nat)"
    "(n + 8 - 1 - i) mod 8 \<noteq> n" "(Suc n mod 8 + 8 - 1) mod 8 = n"
proof -
  have "(n + 8 - 1 - i) mod 8 = (if i < n then n - 1 - i else n + 7 - i)"
    using assms by (auto simp: mod_if)
  then show "(n + 8 - 1 - i) mod 8 \<noteq> n" using assms by auto
  have n: "Suc n mod 8 = (if n = 7 then 0 else Suc n)" using assms by auto
  then show "(Suc n mod 8 + 8 - 1) mod 8 = n" using assms by (auto simp: mod_if)
  show "(Suc n mod 8 + 8 - 1 - Suc i) mod 8 = (n + 8 - 1 - i) mod 8"
    unfolding n using assms by (auto simp: mod_if)
qed

lemma poll_hist:
  assumes inv: "ipc_inv s" and p: "poll s = Some (m, s')" and h: "hist_holds outs s"
  shows "hist_holds (outs @ [m]) s'"
proof -
  note r = poll_result [OF inv p]
  have b: "hist_next s < 8" "length (hist s) = 8" using inv by (auto simp: ipc_inv_def)
  have "hist s' ! ((hist_next s' + 8 - 1 - i) mod 8) = rev (outs @ [m]) ! i" if i: "i < hist_len s'" for i
  proof (cases i)
    case 0
    then show ?thesis using hist_slot_step(3) [OF b(1), of 0] b r(6,7) by simp
  next
    case (Suc j)
    have j: "j < 7" "j < hist_len s" using i Suc r(8) h by (auto simp: hist_holds_def)
    then have "hist s ! ((hist_next s + 8 - 1 - j) mod 8) = rev outs ! j" using h by (simp add: hist_holds_def)
    then show ?thesis using Suc hist_slot_step(1,2) [OF b(1) j(1)] r(6,7) by simp
  qed
  then show ?thesis using r(8) h by (auto simp: hist_holds_def)
qed

lemma w32_add [simp]: "w32 (w32 a + b) = w32 (a + b)" "w32 (a + w32 b) = w32 (a + b)"
  "w32 (Suc (w32 a)) = w32 (Suc a)"
  by (simp_all add: w32_def mod_simps)

fun posts :: "ipc_op list \<Rightarrow> nat" where
  "posts [] = 0"
| "posts (Post m # as) = Suc (posts as)"
| "posts (Poll # as) = posts as"

lemma ipc_run_result:
  assumes "ipc_inv s" "hist_holds old s" "ipc_run as s = (ins, outs, s')"
  shows "ipc_inv s' \<and> queued s @ ins = outs @ queued s' \<and> hist_holds (old @ outs) s' \<and>
    posted s' = w32 (posted s + length ins) \<and> consumed s' = w32 (consumed s + length outs) \<and>
    length ins \<le> posts as \<and> dropped s' = w32 (dropped s + (posts as - length ins))"
  using assms
proof (induction as s arbitrary: old ins outs s' rule: ipc_run.induct)
  case (1 s)
  then show ?case by (auto simp: ipc_inv_def)
next
  case (2 m as s)
  obtain ok s1 where p: "post_message m s = (ok, s1)" by force
  note r = post_result [OF "2.prems"(1) p [unfolded post_message_def]]
  obtain ins1 where run: "ipc_run as s1 = (ins1, outs, s')" and ins: "ins = (if ok then m # ins1 else ins1)"
    using "2.prems"(3) p by (auto split: prod.splits if_splits)
  have h: "hist_holds old s1" using "2.prems"(2) r(7-9) by (simp add: hist_holds_def)
  have IH: "ipc_inv s' \<and> queued s1 @ ins1 = outs @ queued s' \<and> hist_holds (old @ outs) s' \<and>
    posted s' = w32 (posted s1 + length ins1) \<and> consumed s' = w32 (consumed s1 + length outs) \<and>
    length ins1 \<le> posts as \<and> dropped s' = w32 (dropped s1 + (posts as - length ins1))"
    using "2.IH" [OF p [symmetric] refl r(3) h run] by simp
  then show ?case using r(2,4-6) ins by (cases ok) (auto simp: Suc_diff_le)
next
  case (3 as s)
  show ?case
  proof (cases "poll s")
    case None
    then show ?thesis using "3.IH"(1) [OF None "3.prems"(1,2)] "3.prems"(3) by simp
  next
    case (Some x)
    obtain m s1 where x: "x = (m, s1)" by force
    note r = poll_result [OF "3.prems"(1) Some [unfolded x]]
    obtain outs1 where run: "ipc_run as s1 = (ins, outs1, s')" and outs: "outs = m # outs1"
      using "3.prems"(3) Some x by (auto split: prod.splits)
    have h: "hist_holds (old @ [m]) s1" by (rule poll_hist [OF "3.prems"(1) Some [unfolded x] "3.prems"(2)])
    have "ipc_inv s' \<and> queued s1 @ ins = outs1 @ queued s' \<and> hist_holds ((old @ [m]) @ outs1) s' \<and>
      posted s' = w32 (posted s1 + length ins) \<and> consumed s' = w32 (consumed s1 + length outs1) \<and>
      length ins \<le> posts as \<and> dropped s' = w32 (dropped s1 + (posts as - length ins))"
      using "3.IH"(2) [OF Some x [symmetric] r(2) h run] x by simp
    then show ?thesis using r(1,3-5) outs by (auto simp: add.commute)
  qed
qed

section \<open>Properties\<close>

text \<open>
  Property C19. The message ring delivers: over any sequence of posts and polls from boot, the accepted
  messages are exactly the delivered ones followed by those still queued, in order, with at most
  31 queued; every post that was not accepted is counted as dropped, every accepted and every
  delivered one is counted (modulo \<open>2 ^ 32\<close>), and \<open>history\<close> shows the last eight delivered, the
  newest first.
\<close>

theorem ipc_delivery:
  "case ipc_run as ipc_init of (ins, outs, s) \<Rightarrow>
     ins = outs @ queued s \<and> depth s \<le> ring_capacity \<and> high_water s \<le> ring_capacity \<and>
     posted s = w32 (length ins) \<and> consumed s = w32 (length outs) \<and>
     dropped s = w32 (posts as - length ins) \<and>
     (\<forall>i. history i s = (if i < min HISTORY_SIZE (length outs) then Some (rev outs ! i) else None))"
proof -
  obtain ins outs s where run: "ipc_run as ipc_init = (ins, outs, s)" by (metis prod_cases3)
  have "hist_holds [] ipc_init" by (simp add: hist_holds_def ipc_init_def)
  then have r: "ipc_inv s" "queued ipc_init @ ins = outs @ queued s" "hist_holds outs s"
    "posted s = w32 (posted ipc_init + length ins)" "consumed s = w32 (consumed ipc_init + length outs)"
    "dropped s = w32 (dropped ipc_init + (posts as - length ins))"
    using ipc_run_result [OF ipc_inv_init _ run, of "[]"] by auto
  have "queued ipc_init = []" by (simp add: queued_def depth_def ipc_init_def)
  then show ?thesis using run r depth_le [OF r(1)]
    by (auto simp: ipc_init_def history_def hist_holds_def ipc_inv_def)
qed

end
