(* ===== verification/LoadBalancer.thy ===== *)
theory LoadBalancer imports Ipc begin

text \<open>
  The load balancer, \<^verbatim>\<open>kernel/src/level0b2/load_balancer.rs\<close>: every system call and exception
  is counted per channel and per task, once a second the window is rolled into rates, and a
  task over its quota is told to give the processor away first.  \<open>lb\<close> holds the statics; an
  over-quota call may leave a message in the ring, so the operations act on a pair of \<open>lb\<close> and
  \<open>ipc\<close> states.  All counters are \<open>u32\<close> and wrap.
\<close>

section \<open>State\<close>

datatype channel = PosixFile | PosixMem | Gui | Nt | Exception

fun channel_index :: "channel \<Rightarrow> nat" where
  "channel_index PosixFile = 0"
| "channel_index PosixMem = 1"
| "channel_index Gui = 2"
| "channel_index Nt = 3"
| "channel_index Exception = 4"

abbreviation (input) CHANNELS :: nat where "CHANNELS \<equiv> 5"
abbreviation (input) LB_TASKS :: nat where "LB_TASKS \<equiv> 8"  \<comment> \<open>\<open>scheduler::MAX_TASKS\<close>\<close>
abbreviation (input) WINDOW_TICKS :: nat where "WINDOW_TICKS \<equiv> 100"
abbreviation (input) TASK_QUOTA :: nat where "TASK_QUOTA \<equiv> 4000"
abbreviation (input) CHANNEL_SATURATION :: nat where "CHANNEL_SATURATION \<equiv> 8000"
abbreviation (input) REPORT_EVERY :: nat where "REPORT_EVERY \<equiv> 5"

record lb =
  total :: "nat list"
  window :: "nat list"
  rate :: "nat list"
  peak :: "nat list"
  task_total :: "nat list"
  task_window :: "nat list"
  task_rate :: "nat list"
  task_throttles :: "nat list"
  task_last_report :: "nat list"
  window_start :: nat
  windows_rolled :: nat
  throttles :: nat
  saturated :: nat
  busiest_task :: nat

definition lb_init :: lb where
  "lb_init = \<lparr>total = replicate CHANNELS 0, window = replicate CHANNELS 0, rate = replicate CHANNELS 0,
     peak = replicate CHANNELS 0, task_total = replicate LB_TASKS 0, task_window = replicate LB_TASKS 0,
     task_rate = replicate LB_TASKS 0, task_throttles = replicate LB_TASKS 0,
     task_last_report = replicate LB_TASKS 0, window_start = 0, windows_rolled = 0, throttles = 0,
     saturated = 0, busiest_task = 0\<rparr>"

datatype verdict = Pass | Throttle

section \<open>Operations\<close>

text \<open>\<open>fetch_add(1)\<close> on one counter of an array.\<close>

definition bump :: "nat \<Rightarrow> nat list \<Rightarrow> nat list" where
  "bump i xs = xs[i := w32 (xs ! i + 1)]"

definition report_quota :: "nat \<Rightarrow> nat \<Rightarrow> nat \<Rightarrow> nat \<Rightarrow> lb \<times> ipc \<Rightarrow> lb \<times> ipc" where
  \<comment> \<open>the report of \<open>note_call\<close>, at the first call over the quota\<close>
  "report_quota task in_window hits tick si =
     (case si of (s, i) \<Rightarrow>
        if in_window = TASK_QUOTA + 1
        then (let win = windows_rolled s; last = task_last_report s ! task in
              if last = 0 \<or> wsub 32 win last \<ge> REPORT_EVERY
              then (s\<lparr>task_last_report := (task_last_report s)[task := max win 1]\<rparr>,
                    snd (post Throttled task in_window hits
                      ''gorev cagri kotasini asti, CPU birakmaya zorlandi'' tick i))
              else (s, i))
        else (s, i))"

definition note_call :: "channel \<Rightarrow> nat \<Rightarrow> nat \<Rightarrow> lb \<times> ipc \<Rightarrow> verdict \<times> lb \<times> ipc" where
  "note_call channel task tick si =
     (case si of (s, i) \<Rightarrow>
        let index = channel_index channel;
            s = s\<lparr>total := bump index (total s), window := bump index (window s)\<rparr> in
        if task \<ge> LB_TASKS then (Pass, s, i)
        else (let s = s\<lparr>task_total := bump task (task_total s), task_window := bump task (task_window s)\<rparr>;
                  in_window = task_window s ! task in
              if in_window \<le> TASK_QUOTA then (Pass, s, i)
              else (let s = s\<lparr>throttles := w32 (throttles s + 1),
                              task_throttles := bump task (task_throttles s)\<rparr>;
                        hits = task_throttles s ! task
                    in (Throttle, report_quota task in_window hits tick (s, i)))))"

definition roll_channel :: "nat \<Rightarrow> nat \<times> lb \<Rightarrow> nat \<times> lb" where
  "roll_channel i ms =
     (case ms of (sat, s) \<Rightarrow>
        let count = window s ! i in
        (if count \<ge> CHANNEL_SATURATION then sat OR push_bit i 1 else sat,
         s\<lparr>window := (window s)[i := 0], rate := (rate s)[i := count],
           peak := (peak s)[i := max (peak s ! i) count]\<rparr>))"

definition roll_task :: "nat \<Rightarrow> (nat \<times> nat) \<times> lb \<Rightarrow> (nat \<times> nat) \<times> lb" where
  "roll_task t bs =
     (case bs of ((busiest, busiest_rate), s) \<Rightarrow>
        let count = task_window s ! t;
            s = s\<lparr>task_window := (task_window s)[t := 0], task_rate := (task_rate s)[t := count]\<rparr> in
        (if count > busiest_rate then (t, count) else (busiest, busiest_rate), s))"

definition on_tick :: "nat \<Rightarrow> lb \<Rightarrow> lb" where
  "on_tick ticks s =
     (if wsub 32 ticks (window_start s) < WINDOW_TICKS then s
      else (let s = s\<lparr>window_start := ticks, windows_rolled := w32 (windows_rolled s + 1)\<rparr>;
                (sat, s) = fold roll_channel [0..<CHANNELS] (0, s);
                s = s\<lparr>saturated := sat\<rparr>;
                ((busiest, _), s) = fold roll_task [0..<LB_TASKS] ((0, 0), s)
            in s\<lparr>busiest_task := busiest\<rparr>))"

definition is_saturated :: "nat \<Rightarrow> lb \<Rightarrow> bool" where
  "is_saturated channel s \<longleftrightarrow> saturated s AND push_bit channel 1 \<noteq> 0"

definition any_saturated :: "lb \<Rightarrow> bool" where
  "any_saturated s \<longleftrightarrow> saturated s \<noteq> 0"

definition call_count :: "lb \<Rightarrow> nat" where
  "call_count s = w32 (sum_list (map (\<lambda>i. total s ! i) [0..<CHANNELS]))"

section \<open>Counting\<close>

lemma is_saturated_bit: "is_saturated i s \<longleftrightarrow> bit (saturated s) i"
  unfolding is_saturated_def by (rule bit_iff_and_push_bit_not_eq_0 [symmetric])

definition lb_shape :: "lb \<Rightarrow> bool" where
  "lb_shape s \<longleftrightarrow> length (total s) = CHANNELS \<and> length (window s) = CHANNELS \<and> length (rate s) = CHANNELS \<and>
     length (peak s) = CHANNELS \<and> length (task_total s) = LB_TASKS \<and> length (task_window s) = LB_TASKS \<and>
     length (task_rate s) = LB_TASKS \<and> length (task_throttles s) = LB_TASKS \<and>
     length (task_last_report s) = LB_TASKS"

lemma channel_index_less [simp]: "channel_index c < 5"
  by (cases c) simp_all

lemma length_bump [simp]: "length (bump i xs) = length xs"
  by (simp add: bump_def)

lemma bump_nth [simp]: "i < length xs \<Longrightarrow> bump i xs ! j = (if i = j then w32 (xs ! i + 1) else xs ! j)"
  by (simp add: bump_def)

lemma report_quota_fields [simp]:
  "total (fst (report_quota t w h k si)) = total (fst si)"
  "window (fst (report_quota t w h k si)) = window (fst si)"
  "rate (fst (report_quota t w h k si)) = rate (fst si)"
  "peak (fst (report_quota t w h k si)) = peak (fst si)"
  "task_total (fst (report_quota t w h k si)) = task_total (fst si)"
  "task_window (fst (report_quota t w h k si)) = task_window (fst si)"
  "task_rate (fst (report_quota t w h k si)) = task_rate (fst si)"
  "task_throttles (fst (report_quota t w h k si)) = task_throttles (fst si)"
  "length (task_last_report (fst (report_quota t w h k si))) = length (task_last_report (fst si))"
  "window_start (fst (report_quota t w h k si)) = window_start (fst si)"
  by (simp_all add: report_quota_def Let_def split: prod.splits)

lemma note_call_result:
  assumes "lb_shape (fst si)" "note_call c t k si = (v, si')"
  shows "lb_shape (fst si')" "window (fst si') = bump (channel_index c) (window (fst si))"
    "total (fst si') = bump (channel_index c) (total (fst si))"
    "task_window (fst si') = (if t < LB_TASKS then bump t (task_window (fst si)) else task_window (fst si))"
    "v = Throttle \<longleftrightarrow> t < LB_TASKS \<and> w32 (task_window (fst si) ! t + 1) > TASK_QUOTA"
    "peak (fst si') = peak (fst si)" "window_start (fst si') = window_start (fst si)"
proof -
  obtain s i where si: "si = (s, i)" by force
  have r: "si' = (fst si', snd si')" by simp
  have "lb_shape (fst si') \<and> window (fst si') = bump (channel_index c) (window s) \<and>
    total (fst si') = bump (channel_index c) (total s) \<and>
    task_window (fst si') = (if t < 8 then bump t (task_window s) else task_window s) \<and>
    (v = Throttle \<longleftrightarrow> t < 8 \<and> w32 (task_window s ! t + 1) > 4000) \<and>
    peak (fst si') = peak s \<and> window_start (fst si') = window_start s"
    using assms unfolding si
    by (auto simp: note_call_def Let_def lb_shape_def split: if_splits)
  then show "lb_shape (fst si')" "window (fst si') = bump (channel_index c) (window (fst si))"
    "total (fst si') = bump (channel_index c) (total (fst si))"
    "task_window (fst si') = (if t < LB_TASKS then bump t (task_window (fst si)) else task_window (fst si))"
    "v = Throttle \<longleftrightarrow> t < LB_TASKS \<and> w32 (task_window (fst si) ! t + 1) > TASK_QUOTA"
    "peak (fst si') = peak (fst si)" "window_start (fst si') = window_start (fst si)"
    by (simp_all add: si)
qed


type_synonym call = "channel \<times> nat \<times> nat"  \<comment> \<open>channel, task, tick\<close>

abbreviation call_task :: "call \<Rightarrow> nat" where "call_task c \<equiv> fst (snd c)"

fun lb_run :: "call list \<Rightarrow> lb \<times> ipc \<Rightarrow> verdict list \<times> lb \<times> ipc" where
  "lb_run [] si = ([], si)"
| "lb_run ((c, t, k) # calls) si =
     (let (v, si') = note_call c t k si; (vs, si'') = lb_run calls si' in (v # vs, si''))"

definition calls_of :: "nat \<Rightarrow> call list \<Rightarrow> nat" where
  "calls_of t calls = length (filter (\<lambda>c. call_task c = t) calls)"

definition calls_on :: "nat \<Rightarrow> call list \<Rightarrow> nat" where
  "calls_on i calls = length (filter (\<lambda>c. channel_index (fst c) = i) calls)"

lemma calls_of_le: "calls_of t calls \<le> length calls" "calls_on i calls \<le> length calls"
  by (simp_all add: calls_of_def calls_on_def)

lemma lb_run_result:
  assumes "lb_shape (fst si)" "lb_run calls si = (vs, si')"
    and "\<And>t. t < LB_TASKS \<Longrightarrow> task_window (fst si) ! t + length calls < 2 ^ 32"
    and "\<And>i. i < CHANNELS \<Longrightarrow> window (fst si) ! i + length calls < 2 ^ 32"
  shows "lb_shape (fst si') \<and> length vs = length calls \<and> window_start (fst si') = window_start (fst si) \<and>
    peak (fst si') = peak (fst si) \<and>
    (\<forall>t<LB_TASKS. task_window (fst si') ! t = task_window (fst si) ! t + calls_of t calls) \<and>
    (\<forall>i<CHANNELS. window (fst si') ! i = window (fst si) ! i + calls_on i calls) \<and>
    (\<forall>k<length calls. vs ! k = Throttle \<longleftrightarrow> call_task (calls ! k) < LB_TASKS \<and>
       TASK_QUOTA < task_window (fst si) ! call_task (calls ! k) + calls_of (call_task (calls ! k)) (take (Suc k) calls))"
  using assms
proof (induction calls si arbitrary: vs si' rule: lb_run.induct)
  case (1 si)
  then show ?case by (simp add: calls_of_def calls_on_def)
next
  case (2 c t k calls si)
  obtain v s1 where n: "note_call c t k si = (v, s1)" by (cases "note_call c t k si")
  obtain vs1 where run: "lb_run calls s1 = (vs1, si')" and vs: "vs = v # vs1"
    using "2.prems"(2) n by (auto split: prod.splits)
  note r = note_call_result [OF "2.prems"(1) n]
  have len: "length (window (fst si)) = 5" "length (task_window (fst si)) = 8"
    using "2.prems"(1) by (auto simp: lb_shape_def)
  have b: "task_window (fst si) ! t' + Suc (length calls) < 2 ^ 32" if "t' < 8" for t'
    using "2.prems"(3) [OF that] by simp
  have b': "window (fst si) ! i + Suc (length calls) < 2 ^ 32" if "i < 5" for i
    using "2.prems"(4) [OF that] by simp
  have tw: "task_window (fst s1) ! t' = task_window (fst si) ! t' + (if t' = t then 1 else 0)" if "t' < 8" for t'
    using b [OF that] that r(4) len by auto
  have cw: "window (fst s1) ! i = window (fst si) ! i + (if channel_index c = i then 1 else 0)" if "i < 5" for i
    using b' [OF that] that r(2) len by auto
  have v: "v = Throttle \<longleftrightarrow> t < 8 \<and> 4000 < task_window (fst si) ! t + 1" using r(5) b [of t] by auto
  have IH: "lb_shape (fst si') \<and> length vs1 = length calls \<and> window_start (fst si') = window_start (fst s1) \<and>
    peak (fst si') = peak (fst s1) \<and>
    (\<forall>t<8. task_window (fst si') ! t = task_window (fst s1) ! t + calls_of t calls) \<and>
    (\<forall>i<5. window (fst si') ! i = window (fst s1) ! i + calls_on i calls) \<and>
    (\<forall>k<length calls. vs1 ! k = Throttle \<longleftrightarrow> call_task (calls ! k) < 8 \<and>
       4000 < task_window (fst s1) ! call_task (calls ! k) + calls_of (call_task (calls ! k)) (take (Suc k) calls))"
  proof (rule "2.IH" [OF n [symmetric] refl r(1) run])
    show "task_window (fst s1) ! t' + length calls < 2 ^ 32" if "t' < 8" for t'
      using tw [OF that] b [OF that] by auto
    show "window (fst s1) ! i + length calls < 2 ^ 32" if "i < 5" for i
      using cw [OF that] b' [OF that] by auto
  qed
  have "vs ! j = Throttle \<longleftrightarrow> call_task (((c, t, k) # calls) ! j) < 8 \<and>
      4000 < task_window (fst si) ! call_task (((c, t, k) # calls) ! j) +
        calls_of (call_task (((c, t, k) # calls) ! j)) (take (Suc j) ((c, t, k) # calls))"
    if j: "j < Suc (length calls)" for j
  proof (cases j)
    case 0
    then show ?thesis using v vs by (simp add: calls_of_def)
  next
    case (Suc i)
    then show ?thesis using IH j vs tw [of "call_task (calls ! i)"] by (auto simp: calls_of_def)
  qed
  then show ?case using IH r(6,7) tw cw vs by (auto simp: calls_of_def calls_on_def)
qed

lemma roll_channels:
  assumes "lb_shape s" "n \<le> CHANNELS"
  shows "case fold roll_channel [0..<n] (0, s) of (sat, s') \<Rightarrow>
    lb_shape s' \<and> task_window s' = task_window s \<and> task_rate s' = task_rate s \<and>
    (\<forall>i. bit sat i \<longleftrightarrow> i < n \<and> CHANNEL_SATURATION \<le> window s ! i) \<and>
    (\<forall>i<CHANNELS. window s' ! i = (if i < n then 0 else window s ! i) \<and>
       rate s' ! i = (if i < n then window s ! i else rate s ! i) \<and>
       peak s' ! i = (if i < n then max (peak s ! i) (window s ! i) else peak s ! i))"
  using assms(2)
proof (induction n)
  case 0
  then show ?case using assms(1) by simp
next
  case (Suc n)
  obtain sat s1 where f: "fold roll_channel [0..<n] (0, s) = (sat, s1)" by force
  have IH: "lb_shape s1" "task_window s1 = task_window s" "task_rate s1 = task_rate s"
    "\<forall>i. bit sat i \<longleftrightarrow> i < n \<and> 8000 \<le> window s ! i"
    "\<forall>i<5. window s1 ! i = (if i < n then 0 else window s ! i) \<and>
       rate s1 ! i = (if i < n then window s ! i else rate s ! i) \<and>
       peak s1 ! i = (if i < n then max (peak s ! i) (window s ! i) else peak s ! i)"
    using Suc f by auto
  have n: "n < 5" using Suc.prems by simp
  have w: "window s1 ! n = window s ! n" "peak s1 ! n = peak s ! n" using IH(5) n by auto
  have len: "length (window s1) = 5" "length (rate s1) = 5" "length (peak s1) = 5" using IH(1) by (auto simp: lb_shape_def)
  have "bit (if 8000 \<le> window s ! n then sat OR push_bit n 1 else sat) i \<longleftrightarrow> i < Suc n \<and> 8000 \<le> window s ! i" for i
    using IH(4) by (auto simp: bit_simps less_Suc_eq)
  moreover define s2 where "s2 = s1\<lparr>window := (window s1)[n := 0], rate := (rate s1)[n := window s ! n],
      peak := (peak s1)[n := max (peak s ! n) (window s ! n)]\<rparr>"
  have step: "fold roll_channel [0..<Suc n] (0, s) = (if 8000 \<le> window s ! n then sat OR push_bit n 1 else sat, s2)"
    using f by (simp add: roll_channel_def [of n] Let_def w s2_def)
  have sh: "lb_shape s2" "task_window s2 = task_window s" "task_rate s2 = task_rate s"
    using IH(1-3) by (simp_all add: lb_shape_def s2_def)
  have tab: "\<forall>i<5. window s2 ! i = (if i < Suc n then 0 else window s ! i) \<and>
       rate s2 ! i = (if i < Suc n then window s ! i else rate s ! i) \<and>
       peak s2 ! i = (if i < Suc n then max (peak s ! i) (window s ! i) else peak s ! i)"
    using IH(5) n len by (auto simp: s2_def nth_list_update less_Suc_eq)
  ultimately show ?case unfolding step using sh tab by simp
qed

lemma roll_tasks:
  assumes "lb_shape s" "n \<le> LB_TASKS"
  shows "case fold roll_task [0..<n] ((0, 0), s) of ((b, r), s') \<Rightarrow>
    lb_shape s' \<and> window s' = window s \<and> rate s' = rate s \<and> peak s' = peak s \<and> saturated s' = saturated s \<and>
    window_start s' = window_start s \<and> windows_rolled s' = windows_rolled s \<and>
    b < LB_TASKS \<and> (r = 0 \<longrightarrow> b = 0) \<and> (0 < r \<longrightarrow> b < n \<and> r = task_window s ! b) \<and> (\<forall>t<n. task_window s ! t \<le> r) \<and>
    (\<forall>t<LB_TASKS. task_window s' ! t = (if t < n then 0 else task_window s ! t) \<and>
       task_rate s' ! t = (if t < n then task_window s ! t else task_rate s ! t))"
  using assms(2)
proof (induction n)
  case 0
  then show ?case using assms(1) by simp
next
  case (Suc n)
  obtain b r s1 where f: "fold roll_task [0..<n] ((0, 0), s) = ((b, r), s1)"
    by (cases "fold roll_task [0..<n] ((0, 0), s)") auto
  have IH: "lb_shape s1" "window s1 = window s" "rate s1 = rate s" "peak s1 = peak s" "saturated s1 = saturated s"
    "window_start s1 = window_start s" "windows_rolled s1 = windows_rolled s" "b < 8"
    "r = 0 \<longrightarrow> b = 0" "0 < r \<longrightarrow> b < n \<and> r = task_window s ! b" "\<forall>t<n. task_window s ! t \<le> r"
    "\<forall>t<8. task_window s1 ! t = (if t < n then 0 else task_window s ! t) \<and>
       task_rate s1 ! t = (if t < n then task_window s ! t else task_rate s ! t)"
    using Suc f by auto
  have n: "n < 8" using Suc.prems by simp
  have w: "task_window s1 ! n = task_window s ! n" using IH(12) n by auto
  have len: "length (task_window s1) = 8" "length (task_rate s1) = 8" using IH(1) by (auto simp: lb_shape_def)
  define s2 where "s2 = s1\<lparr>task_window := (task_window s1)[n := 0], task_rate := (task_rate s1)[n := task_window s ! n]\<rparr>"
  have step: "fold roll_task [0..<Suc n] ((0, 0), s) =
      (if task_window s ! n > r then (n, task_window s ! n) else (b, r), s2)"
    using f by (simp add: roll_task_def [of n] Let_def w s2_def)
  have sh: "lb_shape s2" "window s2 = window s" "rate s2 = rate s" "peak s2 = peak s"
    "saturated s2 = saturated s" "window_start s2 = window_start s" "windows_rolled s2 = windows_rolled s"
    using IH(1-7) by (simp_all add: lb_shape_def s2_def)
  have tab: "\<forall>t<8. task_window s2 ! t = (if t < Suc n then 0 else task_window s ! t) \<and>
       task_rate s2 ! t = (if t < Suc n then task_window s ! t else task_rate s ! t)"
    using IH(12) n len by (auto simp: s2_def nth_list_update less_Suc_eq)
  show ?case
  proof (cases "task_window s ! n > r")
    case True
    then have "\<forall>t<Suc n. task_window s ! t \<le> task_window s ! n"
      using IH(11) by (auto simp: less_Suc_eq intro: order.trans less_imp_le)
    then show ?thesis unfolding step using True sh tab n by simp
  next
    case False
    then have "\<forall>t<Suc n. task_window s ! t \<le> r" using IH(11) by (simp add: less_Suc_eq)
    moreover have "0 < r \<longrightarrow> b < Suc n \<and> r = task_window s ! b" using IH(10) by auto
    ultimately show ?thesis unfolding step using False sh tab IH(8,9) by simp
  qed
qed


definition fresh_window :: "lb \<Rightarrow> bool" where
  "fresh_window s \<longleftrightarrow> lb_shape s \<and> (\<forall>t<LB_TASKS. task_window s ! t = 0) \<and> (\<forall>i<CHANNELS. window s ! i = 0)"

lemma fresh_window_init: "fresh_window lb_init"
  by (simp add: fresh_window_def lb_shape_def lb_init_def)

section \<open>Properties\<close>

text \<open>
  Property C20. The quota is exact: in a window in which fewer than \<open>2 ^ 32\<close> calls are made, a call is told
  to give the processor away exactly when its task has made more than 4000 calls in that window,
  counting this one; calls by a number outside the task table are never throttled, and every
  call gets its verdict.
\<close>

theorem lb_quota_exact:
  assumes "fresh_window (fst si)" and "length calls < 2 ^ 32" and "lb_run calls si = (vs, si')"
  shows "length vs = length calls \<and>
    (\<forall>k<length calls. vs ! k = Throttle \<longleftrightarrow>
       call_task (calls ! k) < LB_TASKS \<and> TASK_QUOTA < calls_of (call_task (calls ! k)) (take (Suc k) calls))"
proof -
  have "lb_shape (fst si)" "\<And>t. t < 8 \<Longrightarrow> task_window (fst si) ! t = 0" "\<And>i. i < 5 \<Longrightarrow> window (fst si) ! i = 0"
    using assms(1) by (auto simp: fresh_window_def)
  then show ?thesis using lb_run_result [OF _ assms(3)] assms(2) by auto
qed

theorem lb_quota_exact_witness:
  "fst (lb_run [(Gui, 1, 0), (Nt, 9, 0)] (lb_init, ipc_init)) ! 1 \<noteq> Throttle"
  using lb_quota_exact [of "(lb_init, ipc_init)" "[(Gui, 1, 0), (Nt, 9, 0)]", OF _ _ prod.collapse [symmetric]]
    fresh_window_init by simp

text \<open>
  The roll measures: when at least 100 ticks (modulo \<open>2 ^ 32\<close>) have passed since the window
  began, the rates become the numbers of calls made in it per channel and per task, a channel is
  saturated exactly when it had 8000 calls or more, the peak keeps the largest rate, the busiest
  task is one with the largest rate, and every window starts again from zero; a tick that comes
  earlier changes nothing.
\<close>

theorem lb_roll_measures:
  assumes "fresh_window (fst si)" and "length calls < 2 ^ 32" and "lb_run calls si = (vs, si')"
  shows "if wsub 32 now (window_start (fst si)) < WINDOW_TICKS then on_tick now (fst si') = fst si'
    else (let s = on_tick now (fst si') in
      fresh_window s \<and> window_start s = now \<and> windows_rolled s = w32 (windows_rolled (fst si') + 1) \<and>
      (\<forall>i<CHANNELS. rate s ! i = calls_on i calls \<and>
         (is_saturated i s \<longleftrightarrow> CHANNEL_SATURATION \<le> calls_on i calls) \<and>
         peak s ! i = max (peak (fst si) ! i) (calls_on i calls)) \<and>
      (\<forall>t<LB_TASKS. task_rate s ! t = calls_of t calls) \<and>
      busiest_task s < LB_TASKS \<and> (\<forall>t<LB_TASKS. task_rate s ! t \<le> task_rate s ! busiest_task s))"
proof -
  have "lb_shape (fst si)" "\<And>t. t < 8 \<Longrightarrow> task_window (fst si) ! t = 0" "\<And>i. i < 5 \<Longrightarrow> window (fst si) ! i = 0"
    using assms(1) by (auto simp: fresh_window_def)
  then have run: "lb_shape (fst si')" "window_start (fst si') = window_start (fst si)" "peak (fst si') = peak (fst si)"
    "\<And>t. t < 8 \<Longrightarrow> task_window (fst si') ! t = calls_of t calls"
    "\<And>i. i < 5 \<Longrightarrow> window (fst si') ! i = calls_on i calls"
    using lb_run_result [OF _ assms(3)] assms(2) by auto
  show ?thesis
  proof (cases "wsub 32 now (window_start (fst si)) < WINDOW_TICKS")
    case True
    then show ?thesis using run(2) by (simp add: on_tick_def)
  next
    case False
    define s1 where "s1 = (fst si')\<lparr>window_start := now, windows_rolled := w32 (windows_rolled (fst si') + 1)\<rparr>"
    have s1: "lb_shape s1" "window s1 = window (fst si')" "task_window s1 = task_window (fst si')" "peak s1 = peak (fst si')"
      using run(1) by (simp_all add: s1_def lb_shape_def)
    obtain sat s2 where f2: "fold roll_channel [0..<5] (0, s1) = (sat, s2)" by force
    note c = roll_channels [OF s1(1), of 5, unfolded f2, simplified]
    have keep: "window_start s2 = now \<and> windows_rolled s2 = w32 (windows_rolled (fst si') + 1)"
    proof -
      have "window_start (snd (fold roll_channel is (m, s))) = window_start s \<and>
        windows_rolled (snd (fold roll_channel is (m, s))) = windows_rolled s" for "is" m s
        by (induction "is" arbitrary: m s) (simp_all add: roll_channel_def Let_def)
      from this [of "[0..<5]" 0 s1] show ?thesis using f2 by (simp add: s1_def)
    qed
    define s3 where "s3 = s2\<lparr>saturated := sat\<rparr>"
    have "lb_shape s2" using c by blast
    then have sh3: "lb_shape s3" by (simp add: s3_def lb_shape_def)
    obtain b r s4 where f4: "fold roll_task [0..<8] ((0, 0), s3) = ((b, r), s4)"
      by (cases "fold roll_task [0..<8] ((0, 0), s3)") auto
    note t = roll_tasks [OF sh3, of 8, unfolded f4, simplified]
    have on: "on_tick now (fst si') = s4\<lparr>busiest_task := b\<rparr>"
      using False run(2) f2 [unfolded s1_def] f4 [unfolded s3_def] by (simp add: on_tick_def)
    have tr: "task_rate s4 ! t = calls_of t calls" if "t < 8" for t
      using t c run(4) s1(3) that by (simp add: s3_def)
    have tw: "task_window s3 ! t = calls_of t calls" if "t < 8" for t
      using c run(4) s1(3) that by (simp add: s3_def)
    have busy: "task_rate s4 ! t' \<le> task_rate s4 ! b" if "t' < 8" for t'
      using t tr [OF that] tr [of b] tw [OF that] tw [of b] that by (cases "r = 0") auto
    have cr: "rate s4 ! i = calls_on i calls" "peak s4 ! i = max (peak (fst si) ! i) (calls_on i calls)"
      "window s4 ! i = 0" if "i < 5" for i
      using t c run(3,5) s1 that by (simp_all add: s3_def)
    have sat: "is_saturated i (s4\<lparr>busiest_task := b\<rparr>) \<longleftrightarrow> 8000 \<le> calls_on i calls" if "i < 5" for i
      using t c run(5) s1 that by (simp add: s3_def is_saturated_bit)
    have "lb_shape s4" using t by blast
    then have "lb_shape (s4\<lparr>busiest_task := b\<rparr>)" by (simp add: lb_shape_def)
    then show ?thesis using False t c cr tr sat busy keep
      by (simp add: on Let_def fresh_window_def s3_def)
  qed
qed

theorem lb_roll_measures_witness:
  "rate (on_tick 100 (fst (snd (lb_run [(Gui, 1, 0), (Nt, 1, 0)] (lb_init, ipc_init))))) ! 2 = 1"
proof -
  have w: "\<not> wsub 32 100 (window_start lb_init) < WINDOW_TICKS" by (simp add: wsub_def lb_init_def)
  have "calls_on 2 [(Gui, 1, 0), (Nt, 1, 0)] = 1" by (simp add: calls_on_def)
  then show ?thesis
    using lb_roll_measures [of "(lb_init, ipc_init)" "[(Gui, 1, 0), (Nt, 1, 0)]", OF _ _ prod.collapse [symmetric], of 100]
      fresh_window_init w by (simp add: Let_def del: lb_run.simps)
qed

end
