(* ===== verification/Monitor.thy ===== *)
theory Monitor imports LoadBalancer begin

text \<open>
  The fault-tolerance layer: the state monitor \<^verbatim>\<open>kernel/src/level0b2/state_monitor.rs\<close>, the
  fallback interface \<^verbatim>\<open>kernel/src/level0b2/fallback.rs\<close> and the dispatcher
  \<^verbatim>\<open>kernel/src/level0b2/dispatcher.rs\<close> (x86-64 system-call numbers).  The monitor reads the
  shared area and keeps the statics of its file in \<open>monitor\<close>.  What is printed goes to a log
  of items; user memory is a function from addresses to bytes.  The two translators a call is
  dispatched to and the delivery of signals are arguments of the dispatcher, functions on its
  state.
\<close>

section \<open>State monitor\<close>

abbreviation (input) DEAD_THRESHOLD_TICKS :: nat where "DEAD_THRESHOLD_TICKS \<equiv> 300"
abbreviation (input) BUSY_THRESHOLD_TICKS :: nat where "BUSY_THRESHOLD_TICKS \<equiv> 150"

datatype health = Healthy | Busy | Dead

text \<open>The codes \<open>report_health\<close> gives the states order them by severity.\<close>

fun health_code :: "health \<Rightarrow> nat" where
  "health_code Healthy = 0"
| "health_code Busy = 1"
| "health_code Dead = 2"

lemma health_code_inj: "health_code a = health_code b \<longleftrightarrow> a = b"
  by (cases a; cases b) simp_all

instantiation health :: linorder
begin

definition less_eq_health :: "health \<Rightarrow> health \<Rightarrow> bool" where
  "less_eq_health a b \<longleftrightarrow> health_code a \<le> health_code b"

definition less_health :: "health \<Rightarrow> health \<Rightarrow> bool" where
  "less_health a b \<longleftrightarrow> health_code a < health_code b"

instance
  by standard (auto simp: less_eq_health_def less_health_def health_code_inj)

end

record monitor =
  last_heartbeat :: nat
  last_beat_tick :: nat
  fallback_active :: bool
  last_reported :: nat
  dead_events :: nat
  recoveries :: nat
  last_stall :: nat

definition monitor_init :: monitor where
  "monitor_init = \<lparr>last_heartbeat = 0, last_beat_tick = 0, fallback_active = False, last_reported = 0,
                   dead_events = 0, recoveries = 0, last_stall = 0\<rparr>"

datatype log_item =
    Line string            \<comment> \<open>a line of \<open>emergency\<close>\<close>
  | Blank
  | CoService "byte list"  \<comment> \<open>text written for a caller in fallback mode\<close>
  | CoServiceNt "byte list"
  | UnsupportedCall nat nat

type_synonym log = "log_item list"

definition emergency :: "string list \<Rightarrow> log \<Rightarrow> log" where
  "emergency ls out = out @ map Line ls"

definition level0a_dead :: "nat \<Rightarrow> ipc \<times> log \<Rightarrow> ipc \<times> log" where
  "level0a_dead now io =
     (case io of (i, out) \<Rightarrow>
       (snd (post HealthChange 0 2 0 ''Level-0a olu -- Co-Service devraldi'' now i),
        emergency [''Level-0a YANIT VERMIYOR (heartbeat kayboldu).'',
          ''Fallback Interface devrede - Co-Service'ler ile minimal mod.''] (out @ [Blank])))"

definition level0a_recovered :: "nat \<Rightarrow> nat \<Rightarrow> ipc \<times> log \<Rightarrow> ipc \<times> log" where
  "level0a_recovered stalled now io =
     (case io of (i, out) \<Rightarrow>
       (snd (post HealthChange 0 0 stalled ''Level-0a toparlandi -- normal moda donuldu'' now i),
        emergency [''Level-0a nabzi geri geldi -- denetim ana katmana devrediliyor.'',
          ''Co-Service modu kapandi.''] (out @ [Blank])))"

definition health :: "monitor \<Rightarrow> health" where
  "health m = (if fallback_active m then Dead
               else if last_stall m > BUSY_THRESHOLD_TICKS then Busy else Healthy)"

definition report_health :: "nat \<Rightarrow> monitor \<times> ipc \<times> log \<Rightarrow> monitor \<times> ipc \<times> log" where
  "report_health now mio =
     (case mio of (m, i, out) \<Rightarrow>
        let state = health_code (health m); last = last_reported m; m = m\<lparr>last_reported := state\<rparr> in
        if last = state then (m, i, out)
        else if state = 1
        then (m, snd (post HealthChange 0 1 0 ''Level-0a mesgul -- nabiz gecikiyor'' now i), out)
        else (m, i, out))"

definition monitor_tick :: "shared_area \<Rightarrow> monitor \<times> ipc \<times> log \<Rightarrow> monitor \<times> ipc \<times> log" where
  "monitor_tick shared mio =
     (case mio of (m, i, out) \<Rightarrow>
        let heartbeat = sh_heartbeat shared; now = sh_ticks shared in
        if heartbeat \<noteq> last_heartbeat m
        then (let m = m\<lparr>last_heartbeat := heartbeat, last_beat_tick := now, last_stall := 0\<rparr> in
              if fallback_active m
              then (let m = m\<lparr>fallback_active := False, recoveries := w32 (recoveries m + 1)\<rparr>
                    in report_health now (m, level0a_recovered (last_stall m) now (i, out)))
              else report_health now (m, i, out))
        else (let stalled = wsub 32 now (last_beat_tick m); m = m\<lparr>last_stall := stalled\<rparr> in
              if stalled \<ge> DEAD_THRESHOLD_TICKS \<and> \<not> fallback_active m
              then report_health now (m\<lparr>fallback_active := True, dead_events := w32 (dead_events m + 1)\<rparr>,
                                      level0a_dead now (i, out))
              else report_health now (m, i, out)))"

definition level0a_is_dead :: "monitor \<Rightarrow> bool" where
  "level0a_is_dead m = fallback_active m"

section \<open>Fallback interface\<close>

record frame =
  f_number :: nat
  f_arg1 :: nat
  f_arg2 :: nat
  f_arg3 :: nat
  f_ret :: nat

text \<open>A negative \<open>i32\<close> result, sign-extended into the 64-bit return register.\<close>

definition i32_ret :: "int \<Rightarrow> nat" where
  "i32_ret r = nat (r mod 2 ^ 64)"

text \<open>\<open>arg3 as i32\<close>: the low 32 bits, read as a signed number.\<close>

definition as_i32 :: "nat \<Rightarrow> int" where
  "as_i32 n = (let v = int (n mod 2 ^ 32) in if v < 2 ^ 31 then v else v - 2 ^ 32)"

definition user_bytes :: "(nat \<Rightarrow> byte) \<Rightarrow> nat \<Rightarrow> nat \<Rightarrow> byte list" where
  "user_bytes mem buf len = map (\<lambda>i. mem (buf + i)) [0..<len]"

record co_state =
  co_log :: log
  co_unsupported :: nat
  co_yields :: nat  \<comment> \<open>how often \<open>yield_now\<close> was called\<close>

definition note_unsupported :: "nat \<Rightarrow> co_state \<Rightarrow> co_state" where
  "note_unsupported number s =
     (let count = w32 (co_unsupported s + 1); s = s\<lparr>co_unsupported := count\<rparr> in
      if count = 1 \<or> count mod 512 = 0 then s\<lparr>co_log := co_log s @ [UnsupportedCall number count]\<rparr> else s)"

definition emulate_syscall :: "(nat \<Rightarrow> byte) \<Rightarrow> frame \<Rightarrow> co_state \<Rightarrow> frame \<times> co_state" where
  "emulate_syscall mem frame s =
     (let number = f_number frame;
          (result, s) =
            (if number = 4  \<comment> \<open>\<open>SYS_WRITE\<close>\<close>
             then (if f_arg2 frame = 0 then (- 38, s)
                   else (as_i32 (f_arg3 frame),
                         s\<lparr>co_log := co_log s @ [CoService (user_bytes mem (f_arg2 frame) (f_arg3 frame))]\<rparr>))
             else if number = 1  \<comment> \<open>\<open>SYS_EXIT\<close>\<close>
             then (0, s\<lparr>co_log := emergency
                       [''sys_exit fallback modunda yok sayildi (gorev zaten durdu).''] (co_log s)\<rparr>)
             else if number = 0x506 \<or> number = 0x503  \<comment> \<open>\<open>SYS_YIELD\<close>, \<open>SYS_WIN_FLUSH\<close>\<close>
             then (0, s\<lparr>co_yields := co_yields s + 1\<rparr>)
             else if number = 0x504 \<or> number = 0x505 \<or> number = 0x502 \<or> number = 0x507
             then (0, s)
             else (- 38, note_unsupported number s))
      in (frame\<lparr>f_ret := i32_ret result\<rparr>, s))"

definition emulate_nt_syscall :: "(nat \<Rightarrow> byte) \<Rightarrow> frame \<Rightarrow> co_state \<Rightarrow> frame \<times> co_state" where
  "emulate_nt_syscall mem frame s =
     (let number = f_number frame;
          (status, s) =
            (if number = 0x1001  \<comment> \<open>\<open>NT_WRITE_CONSOLE\<close>\<close>
             then (if f_arg2 frame = 0 then (0xC0000005, s)
                   else (0, s\<lparr>co_log := co_log s @ [CoServiceNt (user_bytes mem (f_arg2 frame) (f_arg3 frame))]\<rparr>))
             else if number = 0x1000  \<comment> \<open>\<open>NT_TERMINATE_PROCESS\<close>\<close>
             then (0, s\<lparr>co_log := emergency [''NtTerminateProcess fallback modunda yok sayildi.''] (co_log s)\<rparr>)
             else (0xC0000002, s\<lparr>co_log := emergency [''Fallback modunda desteklenmeyen NT servisi.''] (co_log s)\<rparr>))
      in (frame\<lparr>f_ret := status\<rparr>, s))"

section \<open>Dispatcher\<close>

text \<open>The x86-64 numbers of \<open>read\<close>, \<open>write\<close>, \<open>open\<close>, \<open>close\<close> and \<open>brk\<close> are 0, 1, 2, 3 and 12.\<close>

definition classify :: "nat \<Rightarrow> channel" where
  "classify number =
     (if number = 0 \<or> number = 1 \<or> number = 2 \<or> number = 3 then PosixFile
      else if number = 12 then PosixMem
      else if 0x500 \<le> number \<and> number \<le> 0x5FF then Gui
      else PosixFile)"

record 'p controller =
  ct_lb :: lb
  ct_ipc :: ipc
  ct_mon :: monitor
  ct_co :: co_state
  ct_rest :: 'p  \<comment> \<open>the state of the translators\<close>

text \<open>Counting the call, and giving the processor away when it is over the quota.\<close>

definition admit :: "channel \<Rightarrow> nat \<Rightarrow> nat \<Rightarrow> 'p controller \<Rightarrow> 'p controller" where
  "admit ch task tick c =
     (case note_call ch task tick (ct_lb c, ct_ipc c) of
        (v, l, i) \<Rightarrow>
          let c = c\<lparr>ct_lb := l, ct_ipc := i\<rparr> in
          if v = Throttle then c\<lparr>ct_co := (ct_co c)\<lparr>co_yields := co_yields (ct_co c) + 1\<rparr>\<rparr> else c)"

definition handle_syscall ::
  "(frame \<Rightarrow> 'p controller \<Rightarrow> frame \<times> 'p controller) \<Rightarrow> (frame \<Rightarrow> 'p controller \<Rightarrow> frame \<times> 'p controller) \<Rightarrow>
     (nat \<Rightarrow> byte) \<Rightarrow> nat \<Rightarrow> nat \<Rightarrow> frame \<Rightarrow> 'p controller \<Rightarrow> frame \<times> 'p controller" where
  "handle_syscall posix_dispatch deliver_pending mem task tick frame c =
     (let c = admit (classify (f_number frame)) task tick c in
      if level0a_is_dead (ct_mon c)
      then (case emulate_syscall mem frame (ct_co c) of (frame, co) \<Rightarrow> (frame, c\<lparr>ct_co := co\<rparr>))
      else (case posix_dispatch frame c of (frame, c) \<Rightarrow> deliver_pending frame c))"

definition handle_nt_syscall ::
  "(frame \<Rightarrow> 'p controller \<Rightarrow> frame \<times> 'p controller) \<Rightarrow> (frame \<Rightarrow> 'p controller \<Rightarrow> frame \<times> 'p controller) \<Rightarrow>
     (nat \<Rightarrow> byte) \<Rightarrow> nat \<Rightarrow> nat \<Rightarrow> frame \<Rightarrow> 'p controller \<Rightarrow> frame \<times> 'p controller" where
  "handle_nt_syscall nt_dispatch deliver_pending mem task tick frame c =
     (let c = admit Nt task tick c in
      if level0a_is_dead (ct_mon c)
      then (case emulate_nt_syscall mem frame (ct_co c) of (frame, co) \<Rightarrow> (frame, c\<lparr>ct_co := co\<rparr>))
      else (case nt_dispatch frame c of (frame, c) \<Rightarrow> deliver_pending frame c))"

section \<open>What the monitor computes\<close>

text \<open>A sequence of observations of the shared area: heartbeat and tick.\<close>

fun monitor_run :: "shared_area list \<Rightarrow> monitor \<times> ipc \<times> log \<Rightarrow> monitor \<times> ipc \<times> log" where
  "monitor_run [] mio = mio"
| "monitor_run (a # as) mio = monitor_run as (monitor_tick a mio)"

lemma report_health_fields:
  "report_health now (m, i, out) = (m', i', out') \<Longrightarrow>
     m' = m\<lparr>last_reported := health_code (health m)\<rparr> \<and> out' = out"
  by (auto simp: report_health_def Let_def split: if_splits)


lemma monitor_tick_same:
  assumes "sh_heartbeat a = last_heartbeat m" "monitor_tick a (m, io) = (m', io')"
  shows "last_heartbeat m' = last_heartbeat m" "last_beat_tick m' = last_beat_tick m" "recoveries m' = recoveries m"
    "last_stall m' = wsub 32 (sh_ticks a) (last_beat_tick m)"
    "fallback_active m' \<longleftrightarrow> fallback_active m \<or> DEAD_THRESHOLD_TICKS \<le> last_stall m'"
    "dead_events m' = (if fallback_active m' \<and> \<not> fallback_active m then w32 (dead_events m + 1) else dead_events m)"
  using assms by (cases io; cases io'; force simp: monitor_tick_def Let_def report_health_def
      level0a_dead_def split: if_splits)+

lemma monitor_tick_beat:
  assumes "sh_heartbeat a \<noteq> last_heartbeat m" "monitor_tick a (m, io) = (m', io')"
  shows "last_heartbeat m' = sh_heartbeat a" "last_beat_tick m' = sh_ticks a" "last_stall m' = 0"
    "\<not> fallback_active m'" "dead_events m' = dead_events m"
    "recoveries m' = (if fallback_active m then w32 (recoveries m + 1) else recoveries m)"
  using assms by (cases io; cases io'; force simp: monitor_tick_def Let_def report_health_def
      level0a_recovered_def split: if_splits)+

lemma monitor_run_append: "monitor_run (as @ bs) mio = monitor_run bs (monitor_run as mio)"
  by (induction as arbitrary: mio) simp_all

lemma monitor_silence:
  assumes "sh_heartbeat a \<noteq> last_heartbeat (fst mio)" "\<forall>b\<in>set bs. sh_heartbeat b = sh_heartbeat a"
    and "sorted (map sh_ticks (a # bs))" "\<forall>b\<in>set (a # bs). sh_ticks b < 2 ^ 32"
  shows "case monitor_run (a # bs) mio of (m, _) \<Rightarrow>
    last_heartbeat m = sh_heartbeat a \<and> last_beat_tick m = sh_ticks a \<and>
    last_stall m = sh_ticks (last (a # bs)) - sh_ticks a \<and>
    (fallback_active m \<longleftrightarrow> DEAD_THRESHOLD_TICKS \<le> last_stall m) \<and>
    dead_events m = (if fallback_active m then w32 (dead_events (fst mio) + 1) else dead_events (fst mio)) \<and>
    recoveries m = (if fallback_active (fst mio) then w32 (recoveries (fst mio) + 1) else recoveries (fst mio))"
  using assms(2-4)
proof (induction bs rule: rev_induct)
  case Nil
  obtain m io where mio: "mio = (m, io)" by (cases mio)
  obtain m' io' where t: "monitor_tick a (m, io) = (m', io')" by (cases "monitor_tick a (m, io)")
  then show ?case using monitor_tick_beat [OF _ t] assms(1) by (simp add: mio)
next
  case (snoc b bs)
  obtain m io where run: "monitor_run (a # bs) mio = (m, io)" by (cases "monitor_run (a # bs) mio")
  have srt: "sorted (map sh_ticks (a # bs))" using snoc.prems(2) by (simp add: sorted_append)
  have IH: "last_heartbeat m = sh_heartbeat a" "last_beat_tick m = sh_ticks a"
    "last_stall m = sh_ticks (last (a # bs)) - sh_ticks a"
    "fallback_active m \<longleftrightarrow> DEAD_THRESHOLD_TICKS \<le> last_stall m"
    "dead_events m = (if fallback_active m then w32 (dead_events (fst mio) + 1) else dead_events (fst mio))"
    "recoveries m = (if fallback_active (fst mio) then w32 (recoveries (fst mio) + 1) else recoveries (fst mio))"
    using snoc.IH snoc.prems srt run by auto
  obtain m' io' where t: "monitor_tick b (m, io) = (m', io')" by (cases "monitor_tick b (m, io)")
  have hb: "sh_heartbeat b = last_heartbeat m" using snoc.prems(1) IH(1) by simp
  note r = monitor_tick_same [OF hb t]
  have run': "monitor_run (a # bs @ [b]) mio = (m', io')"
    using run t by (simp add: monitor_run_append [of "a # bs" "[b]", simplified])
  have le: "sh_ticks (last (a # bs)) \<le> sh_ticks b" "sh_ticks a \<le> sh_ticks b" "sh_ticks b < 2 ^ 32"
    using snoc.prems(2,3) by (auto simp: sorted_append)
  have st: "last_stall m' = sh_ticks b - sh_ticks a" using r(4) IH(2) le wsub_le by simp
  have "DEAD_THRESHOLD_TICKS \<le> last_stall m \<Longrightarrow> DEAD_THRESHOLD_TICKS \<le> last_stall m'"
    using IH(3) st le(1) by linarith
  then have fa: "fallback_active m' \<longleftrightarrow> DEAD_THRESHOLD_TICKS \<le> last_stall m'" using r(5) IH(4) by blast
  have "fallback_active m \<Longrightarrow> fallback_active m'" using r(5) by blast
  with fa show ?case using run' r(1-3,6) IH(1,2,5,6) st by auto
qed

section \<open>Properties\<close>

text \<open>
  The verdict is exact: from any state, after an observation in which the heartbeat has
  changed and any number of later observations, at growing ticks, in which it has not, the
  state is Dead when the last change lies 300 ticks or more back, Busy when it lies more than
  150 back, and Healthy otherwise; a silence is counted as one failure and its end as one
  recovery; so the severity only grows during a silence and falls back with the first beat.
\<close>

theorem monitor_verdict_exact:
  assumes "sh_heartbeat a \<noteq> last_heartbeat (fst mio)" "\<forall>b\<in>set bs. sh_heartbeat b = sh_heartbeat a"
    and "sorted (map sh_ticks (a # bs))" "\<forall>b\<in>set (a # bs). sh_ticks b < 2 ^ 32"
  shows "case monitor_run (a # bs) mio of (m, _) \<Rightarrow>
    (let silent = sh_ticks (last (a # bs)) - sh_ticks a in
       health m = (if DEAD_THRESHOLD_TICKS \<le> silent then Dead
                   else if BUSY_THRESHOLD_TICKS < silent then Busy else Healthy) \<and>
       dead_events m = (if health m = Dead then w32 (dead_events (fst mio) + 1) else dead_events (fst mio)) \<and>
       recoveries m = (if health (fst mio) = Dead then w32 (recoveries (fst mio) + 1) else recoveries (fst mio)) \<and>
       health m \<ge> health (fst (monitor_run (a # butlast bs) mio)))"
proof -
  obtain m io where run: "monitor_run (a # bs) mio = (m, io)" by (cases "monitor_run (a # bs) mio")
  obtain n jo where run': "monitor_run (a # butlast bs) mio = (n, jo)"
    by (cases "monitor_run (a # butlast bs) mio")
  have dead: "health x = Dead \<longleftrightarrow> fallback_active x" for x by (simp add: health_def)
  note f = monitor_silence [OF assms, unfolded run, simplified]
  have sub: "\<forall>b\<in>set (butlast bs). sh_heartbeat b = sh_heartbeat a" "\<forall>b\<in>set (a # butlast bs). sh_ticks b < 2 ^ 32"
    using assms(2,4) by (auto dest: in_set_butlastD)
  have srt: "sorted (map sh_ticks (a # butlast bs))"
    using assms(3) by (cases bs rule: rev_cases) (simp_all add: sorted_append)
  note g = monitor_silence [OF assms(1) sub(1) srt sub(2), unfolded run', simplified]
  have "sh_ticks (last (a # butlast bs)) \<le> sh_ticks (last (a # bs))"
    using assms(3) by (cases bs rule: rev_cases) (auto simp: sorted_append)
  then have "last_stall n \<le> last_stall m" using f g by (auto split: if_splits)
  then have mono: "health n \<le> health m"
    using f g by (auto simp: health_def less_eq_health_def)
  show ?thesis using run run' f dead mono by (auto simp: Let_def health_def)
qed

definition shared_at :: "nat \<Rightarrow> nat \<Rightarrow> shared_area" where
  "shared_at beat now = shared_init\<lparr>sh_heartbeat := beat, sh_ticks := now\<rparr>"

theorem monitor_verdict_exact_witness:
  "health (fst (monitor_run [shared_at 1 10, shared_at 1 200, shared_at 1 400] (monitor_init, ipc_init, []))) = Dead"
proof -
  obtain m io where run: "monitor_run [shared_at 1 10, shared_at 1 200, shared_at 1 400] (monitor_init, ipc_init, []) = (m, io)"
    by (cases "monitor_run [shared_at 1 10, shared_at 1 200, shared_at 1 400] (monitor_init, ipc_init, [])")
  have "sh_heartbeat (shared_at 1 10) \<noteq> last_heartbeat (fst (monitor_init, ipc_init, []))"
    "\<forall>b\<in>set [shared_at 1 200, shared_at 1 400]. sh_heartbeat b = sh_heartbeat (shared_at 1 10)"
    "sorted (map sh_ticks [shared_at 1 10, shared_at 1 200, shared_at 1 400])"
    "\<forall>b\<in>set [shared_at 1 10, shared_at 1 200, shared_at 1 400]. sh_ticks b < 2 ^ 32"
    by (simp_all add: shared_at_def monitor_init_def)
  note monitor_verdict_exact [OF this, unfolded run]
  then have "health m = Dead" by (simp add: Let_def shared_at_def)
  then show ?thesis by (simp only: run fst_conv)
qed

text \<open>
  The report of a recovery says nothing about the silence it ends: when the heartbeat comes
  back in fallback mode, one message is queued (if there is room) whose second argument, meant
  to be the length of the silence in ticks, is 0 whatever it was, because the length is reset
  before it is read.
\<close>

theorem recovery_reports_zero:
  assumes "fallback_active m" and "sh_heartbeat a \<noteq> last_heartbeat m" and "ipc_inv i" and "depth i < ring_capacity"
  shows "case monitor_tick a (m, i, out) of (m', i', out') \<Rightarrow>
    health m' = Healthy \<and>
    queued i' = queued i @ [\<lparr>m_kind = HealthChange, m_task = 0, m_a = 0, m_b = 0, m_tick = sh_ticks a,
                             m_text = ''Level-0a toparlandi -- normal moda donuldu''\<rparr>]"
proof -
  obtain ok i1 where p: "post HealthChange 0 0 0 ''Level-0a toparlandi -- normal moda donuldu'' (sh_ticks a) i = (ok, i1)"
    by (cases "post HealthChange 0 0 0 ''Level-0a toparlandi -- normal moda donuldu'' (sh_ticks a) i")
  note r = post_result(1,2) [OF assms(3) p]
  show ?thesis using assms r p
    by (auto simp: monitor_tick_def Let_def level0a_recovered_def report_health_def health_def)
qed

theorem recovery_reports_zero_witness:
  "m_b (last (queued (fst (snd (monitor_tick (shared_at 7 5000)
     (monitor_init\<lparr>fallback_active := True, last_stall := 4000\<rparr>, ipc_init, [])))))) = 0"
proof -
  have "depth ipc_init < ring_capacity" by (simp add: depth_def ipc_init_def ring_capacity_def)
  then show ?thesis
    using recovery_reports_zero [of "monitor_init\<lparr>fallback_active := True, last_stall := 4000\<rparr>" "shared_at 7 5000" ipc_init "[]"]
      ipc_inv_init by (auto simp: shared_at_def monitor_init_def split: prod.splits)
qed


definition demo_controller :: "unit controller" where
  "demo_controller = \<lparr>ct_lb = lb_init, ct_ipc = ipc_init, ct_mon = monitor_init\<lparr>fallback_active := True\<rparr>,
     ct_co = \<lparr>co_log = [], co_unsupported = 0, co_yields = 0\<rparr>, ct_rest = ()\<rparr>"


end
