(* ===== verification/Mmu.thy ===== *)
theory Mmu imports Kmalloc begin

text \<open>
  The page-table walk of \<^verbatim>\<open>kernel/src/level0a/core/mmu_x86_64.rs\<close> that decides whether an address
  may be touched on behalf of a Ring 3 program.  The paging state is the root table (CR3) and the
  physical memory the tables live in, read one 64-bit entry at a time.
\<close>

section \<open>State\<close>

abbreviation (input) PTE_PRESENT :: "64 word" where "PTE_PRESENT \<equiv> push_bit 0 1"
abbreviation (input) PTE_WRITABLE :: "64 word" where "PTE_WRITABLE \<equiv> push_bit 1 1"
abbreviation (input) PTE_USER :: "64 word" where "PTE_USER \<equiv> push_bit 2 1"
abbreviation (input) PTE_HUGE :: "64 word" where "PTE_HUGE \<equiv> push_bit 7 1"
abbreviation (input) ADDR_MASK :: "64 word" where "ADDR_MASK \<equiv> 0x000FFFFFFFFFF000"

record paging =
  pg_root :: "64 word"
  pg_mem :: "64 word \<Rightarrow> 64 word"

definition table_entry :: "paging \<Rightarrow> 64 word \<Rightarrow> 64 word \<Rightarrow> 64 word" where
  \<comment> \<open>\<open>table_entry(table, index).read()\<close>\<close>
  "table_entry pg table index = pg_mem pg (table + 8 * index)"

section \<open>The walk\<close>

definition is_user_accessible :: "paging \<Rightarrow> usize \<Rightarrow> bool" where
  "is_user_accessible pg addr =
     (let pml4 = pg_root pg AND ADDR_MASK;
          pml4_e = table_entry pg pml4 (drop_bit 39 addr AND 0x1FF) in
      if pml4_e AND PTE_PRESENT = 0 \<or> pml4_e AND PTE_USER = 0 then False
      else let pdpt = pml4_e AND ADDR_MASK;
               pdpt_e = table_entry pg pdpt (drop_bit 30 addr AND 0x1FF) in
      if pdpt_e AND PTE_PRESENT = 0 \<or> pdpt_e AND PTE_USER = 0 then False
      else let pd = pdpt_e AND ADDR_MASK;
               pd_e = table_entry pg pd (drop_bit 21 addr AND 0x1FF) in
      if pd_e AND PTE_PRESENT = 0 \<or> pd_e AND PTE_USER = 0 then False
      else if pd_e AND PTE_HUGE \<noteq> 0 then True
      else let pt = pd_e AND ADDR_MASK;
               pt_e = table_entry pg pt (drop_bit 12 addr AND 0x1FF) in
      pt_e AND PTE_PRESENT \<noteq> 0 \<and> pt_e AND PTE_USER \<noteq> 0)"

text \<open>A canonical address repeats bit 47 in the bits above it; the CPU refuses any other.\<close>

definition canonical :: "usize \<Rightarrow> bool" where
  "canonical a \<longleftrightarrow> signed_take_bit 47 a = a"

text \<open>The walk looks at bits 12 to 47 only.\<close>

lemma walk_index:
  fixes a b :: usize
  assumes "\<And>n. 12 \<le> n \<Longrightarrow> n < 48 \<Longrightarrow> bit a n = bit b n" "k \<in> {12, 21, 30, 39}"
  shows "drop_bit k a AND 0x1FF = drop_bit k b AND 0x1FF"
proof (rule bit_word_eqI)
  fix n
  have m: "(0x1FF :: usize) = mask 9" by (simp add: mask_eq_exp_minus_1)
  have "bit a (k + n) = bit b (k + n)" if "n < 9"
    using assms that by (intro assms(1)) auto
  then show "bit (drop_bit k a AND 0x1FF) n = bit (drop_bit k b AND 0x1FF) n"
    unfolding m by (auto simp: bit_simps)
qed

lemma is_user_accessible_cong:
  assumes "\<And>n. 12 \<le> n \<Longrightarrow> n < 48 \<Longrightarrow> bit a n = bit b n"
  shows "is_user_accessible pg a = is_user_accessible pg b"
proof -
  have "drop_bit 39 a AND 0x1FF = drop_bit 39 b AND 0x1FF"
       "drop_bit 30 a AND 0x1FF = drop_bit 30 b AND 0x1FF"
       "drop_bit 21 a AND 0x1FF = drop_bit 21 b AND 0x1FF"
       "drop_bit 12 a AND 0x1FF = drop_bit 12 b AND 0x1FF"
    by (rule walk_index [OF assms]; simp)+
  then show ?thesis unfolding is_user_accessible_def by (simp only:)
qed

end
