(* ===== verification/Signal.thy ===== *)
theory Signal imports Mmu SchedInv begin

text \<open>
  Signals: \<^verbatim>\<open>kernel/src/level0b1/signal.rs\<close> on x86-64, with the register frames of
  \<^verbatim>\<open>kernel/src/arch/x86_64/regs.rs\<close> and the signal frame that
  \<^verbatim>\<open>kernel/src/arch/x86_64/usermode.rs\<close> builds on the Ring 3 stack.

  \<open>signals\<close> holds the statics of the file, indexed by task and signal number as the code does.
  Registers are \<open>64 word\<close> values, the pending mask is a \<open>32 word\<close>; the word above the system-call
  frame, where the entry stub keeps the Ring 3 stack pointer, is the field \<open>sf_user_rsp\<close> of the
  frame.  The memory of the calling program is a function from addresses to bytes.  Subtractions
  wrap (the release profile).  \<open>exit_current_task\<close> does not return: it is the value \<open>Exits code\<close>.
\<close>

section \<open>Register frames\<close>

record syscall_frame =
  sf_r15 :: "64 word"
  sf_r14 :: "64 word"
  sf_r13 :: "64 word"
  sf_r12 :: "64 word"
  sf_r11 :: "64 word"
  sf_r10 :: "64 word"
  sf_r9 :: "64 word"
  sf_r8 :: "64 word"
  sf_rbp :: "64 word"
  sf_rdi :: "64 word"
  sf_rsi :: "64 word"
  sf_rdx :: "64 word"
  sf_rcx :: "64 word"
  sf_rbx :: "64 word"
  sf_rax :: "64 word"
  sf_user_rsp :: "64 word"

record user_context =
  uc_rax :: "64 word"
  uc_rbx :: "64 word"
  uc_rcx :: "64 word"
  uc_rdx :: "64 word"
  uc_rsi :: "64 word"
  uc_rdi :: "64 word"
  uc_rbp :: "64 word"
  uc_r8 :: "64 word"
  uc_r9 :: "64 word"
  uc_r10 :: "64 word"
  uc_r11 :: "64 word"
  uc_r12 :: "64 word"
  uc_r13 :: "64 word"
  uc_r14 :: "64 word"
  uc_r15 :: "64 word"
  uc_rip :: "64 word"
  uc_rsp :: "64 word"
  uc_rflags :: "64 word"

definition user_context_zero :: user_context where
  "user_context_zero =
     \<lparr>uc_rax = 0, uc_rbx = 0, uc_rcx = 0, uc_rdx = 0, uc_rsi = 0, uc_rdi = 0, uc_rbp = 0,
      uc_r8 = 0, uc_r9 = 0, uc_r10 = 0, uc_r11 = 0, uc_r12 = 0, uc_r13 = 0, uc_r14 = 0,
      uc_r15 = 0, uc_rip = 0, uc_rsp = 0, uc_rflags = 0\<rparr>"

definition redirect :: "64 word \<Rightarrow> 64 word \<Rightarrow> user_context \<Rightarrow> user_context" where
  "redirect ip sp c = c\<lparr>uc_rip := ip, uc_rsp := sp\<rparr>"

definition frame_user_context :: "syscall_frame \<Rightarrow> user_context" where
  "frame_user_context f =
     \<lparr>uc_rax = sf_rax f, uc_rbx = sf_rbx f, uc_rcx = sf_rcx f, uc_rdx = sf_rdx f,
      uc_rsi = sf_rsi f, uc_rdi = sf_rdi f, uc_rbp = sf_rbp f, uc_r8 = sf_r8 f, uc_r9 = sf_r9 f,
      uc_r10 = sf_r10 f, uc_r11 = sf_r11 f, uc_r12 = sf_r12 f, uc_r13 = sf_r13 f,
      uc_r14 = sf_r14 f, uc_r15 = sf_r15 f, uc_rip = sf_rcx f, uc_rsp = sf_user_rsp f,
      uc_rflags = sf_r11 f\<rparr>"

definition set_user_context :: "user_context \<Rightarrow> syscall_frame \<Rightarrow> syscall_frame" where
  "set_user_context c f =
     f\<lparr>sf_rax := uc_rax c, sf_rbx := uc_rbx c, sf_rdx := uc_rdx c, sf_rsi := uc_rsi c,
       sf_rdi := uc_rdi c, sf_rbp := uc_rbp c, sf_r8 := uc_r8 c, sf_r9 := uc_r9 c,
       sf_r10 := uc_r10 c, sf_r12 := uc_r12 c, sf_r13 := uc_r13 c, sf_r14 := uc_r14 c,
       sf_r15 := uc_r15 c, sf_rcx := uc_rip c, sf_r11 := uc_rflags c, sf_user_rsp := uc_rsp c\<rparr>"

definition frame_number :: "syscall_frame \<Rightarrow> 32 word" where
  "frame_number f = ucast (sf_rax f)"

definition frame_args :: "syscall_frame \<Rightarrow> usize list" where
  "frame_args f = [sf_rdi f, sf_rsi f, sf_rdx f, sf_r10 f, sf_r8 f]"

definition frame_set_return :: "usize \<Rightarrow> syscall_frame \<Rightarrow> syscall_frame" where
  "frame_set_return v f = f\<lparr>sf_rax := v\<rparr>"

lemma set_user_context_user_context: "set_user_context (frame_user_context f) g = f"
  by (cases f, cases g) (simp add: set_user_context_def frame_user_context_def)

section \<open>State\<close>

abbreviation (input) SIG_DFL :: usize where "SIG_DFL \<equiv> 0"
abbreviation (input) SIG_IGN :: usize where "SIG_IGN \<equiv> 1"
abbreviation (input) SIGKILL :: nat where "SIGKILL \<equiv> 9"
abbreviation (input) MAX_SIGNAL :: nat where "MAX_SIGNAL \<equiv> 31"

record disposition =
  d_handler :: usize
  d_restorer :: usize

definition disposition_default :: disposition where
  "disposition_default = \<lparr>d_handler = SIG_DFL, d_restorer = 0\<rparr>"

datatype signal_error = InvalidSignal | NoSuchTask | Uncatchable

record signals =
  sg_disp :: "disposition list list"
  sg_pending :: "32 word list"
  sg_saved :: "user_context list"
  sg_in_handler :: "bool list"
  sg_delivered :: nat
  sg_sent :: nat

definition signals_init :: signals where
  "signals_init =
     \<lparr>sg_disp = replicate MAX_TASKS (replicate (MAX_SIGNAL + 1) disposition_default),
      sg_pending = replicate MAX_TASKS 0, sg_saved = replicate MAX_TASKS user_context_zero,
      sg_in_handler = replicate MAX_TASKS False, sg_delivered = 0, sg_sent = 0\<rparr>"

text \<open>A call returns, ends the task with an exit code, or panics.\<close>

datatype 'a flow = Returns 'a | Exits nat | Panics

type_synonym umem = "usize \<Rightarrow> byte"

definition signo_valid :: "nat \<Rightarrow> bool" where
  "signo_valid signo \<longleftrightarrow> signo \<ge> 1 \<and> signo \<le> MAX_SIGNAL"

definition default_terminates :: "nat \<Rightarrow> bool" where
  "default_terminates signo = True"

definition sig_bit :: "nat \<Rightarrow> 32 word" where
  "sig_bit signo = push_bit signo 1"

text \<open>\<open>u32::trailing_zeros\<close>: the lowest set bit, 32 when there is none.\<close>

definition trailing_zeros :: "32 word \<Rightarrow> nat" where
  "trailing_zeros m = (case find_slot (bit m) 0 32 of Some i \<Rightarrow> i | None \<Rightarrow> 32)"

section \<open>Sending and registering\<close>

definition sig_raise ::
  "nat \<Rightarrow> nat \<Rightarrow> sched \<Rightarrow> signals \<Rightarrow> (signal_error, unit) outcome flow \<times> sched \<times> signals" where
  "sig_raise target signo s sg =
     (if \<not> signo_valid signo then (Returns (Err InvalidSignal), s, sg)
      else if target \<ge> MAX_TASKS then (Returns (Err NoSuchTask), s, sg)
      else if state_at s target = Unused \<or> state_at s target = Terminated
      then (Returns (Err NoSuchTask), s, sg)
      else let sg = sg\<lparr>sg_sent := w32 (sg_sent sg + 1)\<rparr> in
      if signo = SIGKILL
      then (if target = current s then (Exits (128 + SIGKILL), s, sg)
            else case mark_terminated target s of
                   (Ok _, s') \<Rightarrow> (Returns (Ok ()), s', sg)
                 | (_, s') \<Rightarrow> (Returns (Err NoSuchTask), s', sg))
      else (Returns (Ok ()), s,
            sg\<lparr>sg_pending := (sg_pending sg)[target := sg_pending sg ! target OR sig_bit signo]\<rparr>))"

definition set_handler ::
  "paging \<Rightarrow> nat \<Rightarrow> nat \<Rightarrow> usize \<Rightarrow> usize \<Rightarrow> signals \<Rightarrow> (signal_error, usize) outcome \<times> signals" where
  "set_handler pg task signo handler restorer sg =
     (if \<not> signo_valid signo then (Err InvalidSignal, sg)
      else if signo = SIGKILL then (Err Uncatchable, sg)
      else if task \<ge> MAX_TASKS then (Err NoSuchTask, sg)
      else if handler \<noteq> SIG_DFL \<and> handler \<noteq> SIG_IGN \<and>
              (\<not> is_user_accessible pg handler \<or> \<not> is_user_accessible pg restorer)
      then (Err InvalidSignal, sg)
      else (Ok (d_handler (sg_disp sg ! task ! signo)),
            sg\<lparr>sg_disp := (sg_disp sg)[task :=
                 (sg_disp sg ! task)[signo := \<lparr>d_handler = handler, d_restorer = restorer\<rparr>]]\<rparr>))"

definition clone_into :: "nat \<Rightarrow> sched \<Rightarrow> signals \<Rightarrow> signals" where
  "clone_into child s sg =
     (let parent = current s in
      if child \<ge> MAX_TASKS \<or> parent \<ge> MAX_TASKS then sg
      else sg\<lparr>sg_disp := (sg_disp sg)[child := sg_disp sg ! parent],
              sg_in_handler := (sg_in_handler sg)[child := False],
              sg_pending := (sg_pending sg)[child := 0]\<rparr>)"

definition sig_reset :: "nat \<Rightarrow> signals \<Rightarrow> signals" where
  "sig_reset task sg =
     (if task \<ge> MAX_TASKS then sg
      else sg\<lparr>sg_disp := (sg_disp sg)[task := replicate (MAX_SIGNAL + 1) disposition_default],
              sg_in_handler := (sg_in_handler sg)[task := False],
              sg_pending := (sg_pending sg)[task := 0]\<rparr>)"

definition pending_mask :: "nat \<Rightarrow> signals \<Rightarrow> 32 word" where
  "pending_mask task sg = (if task \<ge> MAX_TASKS then 0 else sg_pending sg ! task)"

definition handled_mask :: "nat \<Rightarrow> signals \<Rightarrow> 32 word" where
  "handled_mask task sg =
     (if task \<ge> MAX_TASKS then 0
      else fold (\<lambda>signo m. let d = sg_disp sg ! task ! signo in
                   if d_handler d \<noteq> SIG_DFL \<and> d_handler d \<noteq> SIG_IGN then m OR sig_bit signo else m)
             [1..<MAX_SIGNAL + 1] 0)"

section \<open>Delivery\<close>

definition store64 :: "usize \<Rightarrow> 64 word \<Rightarrow> umem \<Rightarrow> umem" where
  "store64 a v m = (\<lambda>x. if unat (x - a) < 8 then ucast (drop_bit (8 * unat (x - a)) v) else m x)"

definition load64 :: "umem \<Rightarrow> usize \<Rightarrow> 64 word" where
  "load64 m a = word_rcat (map (\<lambda>i. m (a + of_nat i)) [7, 6, 5, 4, 3, 2, 1, 0])"

definition signal_sp :: "usize \<Rightarrow> usize" where
  "signal_sp rsp = ((rsp - 128) AND NOT 0xF) - 8"

definition build_signal_frame ::
  "paging \<Rightarrow> nat \<Rightarrow> usize \<Rightarrow> usize \<Rightarrow> user_context \<Rightarrow> umem \<Rightarrow> (user_context \<times> umem) option" where
  "build_signal_frame pg signo handler restorer c m =
     (let sp = signal_sp (uc_rsp c) in
      if \<not> is_user_accessible pg sp \<or> \<not> is_user_accessible pg (sp + 7) then None
      else Some (redirect handler sp (c\<lparr>uc_rdi := of_nat signo\<rparr>), store64 sp restorer m))"

lemma card_bits_clear:
  fixes m :: "32 word"
  assumes "bit m n"
  shows "card {i. bit (m AND NOT (sig_bit n)) i} < card {i. bit m i}"
proof (rule psubset_card_mono)
  have "{i. bit m i} \<subseteq> {..<32}" by (auto dest: bit_imp_le_length)
  then show "finite {i. bit m i}" using finite_subset by blast
  have "\<not> bit (m AND NOT (sig_bit n)) n"
    using assms bit_imp_le_length [OF assms] by (simp add: sig_bit_def bit_simps)
  then show "{i. bit (m AND NOT (sig_bit n)) i} \<subset> {i. bit m i}" using assms by (auto simp: bit_and_iff)
qed

lemma trailing_zeros_bit:
  assumes "m \<noteq> 0"
  shows "bit m (trailing_zeros m)" "trailing_zeros m < 32" "\<And>j. j < trailing_zeros m \<Longrightarrow> \<not> bit m j"
proof -
  obtain k where "bit m k" using assms by (metis bit_eqI bit_0_eq bot_apply bot_bool_def)
  moreover from this have "k < 32" by (auto dest: bit_imp_le_length)
  ultimately obtain i where i: "find_slot (bit m) 0 32 = Some i"
    using find_slot_exists [of 0 k 32 "bit m"] by auto
  from find_slot_Some [OF this] i
  show "bit m (trailing_zeros m)" "trailing_zeros m < 32" "\<And>j. j < trailing_zeros m \<Longrightarrow> \<not> bit m j"
    by (auto simp: trailing_zeros_def)
qed

text \<open>The loop of \<open>deliver_pending\<close>; every iteration clears a bit of the mask.\<close>

function deliver_loop ::
  "paging \<Rightarrow> nat \<Rightarrow> syscall_frame \<Rightarrow> signals \<Rightarrow> umem \<Rightarrow>
     unit flow \<times> syscall_frame \<times> signals \<times> umem" where
  "deliver_loop pg task frame sg m =
     (if \<not> task < length (sg_pending sg) then (Panics, frame, sg, m)
      else let mask = sg_pending sg ! task in
      if mask = 0 then (Returns (), frame, sg, m)
      else let signo = trailing_zeros mask;
               sg = sg\<lparr>sg_pending := (sg_pending sg)[task := sg_pending sg ! task AND NOT (sig_bit signo)]\<rparr>;
               d = sg_disp sg ! task ! signo in
      if d_handler d = SIG_IGN then deliver_loop pg task frame sg m
      else if d_handler d = SIG_DFL
      then (if default_terminates signo
            then (Exits (128 + signo), frame, sg\<lparr>sg_delivered := w32 (sg_delivered sg + 1)\<rparr>, m)
            else deliver_loop pg task frame sg m)
      else let context = frame_user_context frame;
               sg = sg\<lparr>sg_saved := (sg_saved sg)[task := context]\<rparr> in
      (case build_signal_frame pg signo (d_handler d) (d_restorer d) context m of
         None \<Rightarrow> (Exits (128 + signo), frame, sg, m)
       | Some (context, m) \<Rightarrow>
           (Returns (), set_user_context context frame,
            sg\<lparr>sg_in_handler := (sg_in_handler sg)[task := True],
               sg_delivered := w32 (sg_delivered sg + 1)\<rparr>, m)))"
  by pat_completeness auto
termination
  by (relation "measure (\<lambda>(pg, task, frame, sg, m). card {i. bit (sg_pending sg ! task) i})")
     (auto simp: card_bits_clear trailing_zeros_bit)

declare deliver_loop.simps [simp del]

definition deliver_pending ::
  "paging \<Rightarrow> sched \<Rightarrow> syscall_frame \<Rightarrow> signals \<Rightarrow> umem \<Rightarrow>
     unit flow \<times> syscall_frame \<times> signals \<times> umem" where
  "deliver_pending pg s frame sg m =
     (if \<not> t_in_user (task_at s (current s)) then (Returns (), frame, sg, m)
      else let task = current s in
      if task \<ge> MAX_TASKS then (Returns (), frame, sg, m)
      else if sg_in_handler sg ! task then (Returns (), frame, sg, m)
      else deliver_loop pg task frame sg m)"

definition sigreturn :: "sched \<Rightarrow> syscall_frame \<Rightarrow> signals \<Rightarrow> bool \<times> syscall_frame \<times> signals" where
  "sigreturn s frame sg =
     (let task = current s in
      if task \<ge> MAX_TASKS then (False, frame, sg)
      else if \<not> sg_in_handler sg ! task then (False, frame, sg)
      else (True, set_user_context (sg_saved sg ! task) frame,
            sg\<lparr>sg_in_handler := (sg_in_handler sg)[task := False]\<rparr>))"


section \<open>Facts of the operations\<close>

definition sig_wf :: "signals \<Rightarrow> bool" where
  "sig_wf sg \<longleftrightarrow>
     length (sg_disp sg) = MAX_TASKS \<and> length (sg_pending sg) = MAX_TASKS \<and>
     length (sg_saved sg) = MAX_TASKS \<and> length (sg_in_handler sg) = MAX_TASKS"

lemma sig_wfD:
  assumes "sig_wf sg"
  shows "length (sg_disp sg) = MAX_TASKS" "length (sg_pending sg) = MAX_TASKS"
    "length (sg_saved sg) = MAX_TASKS" "length (sg_in_handler sg) = MAX_TASKS"
  using assms by (auto simp: sig_wf_def)

text \<open>The mask after the signals up to and including \<open>n\<close> are gone.\<close>

definition mask_above :: "nat \<Rightarrow> 32 word \<Rightarrow> 32 word" where
  "mask_above n m = m AND NOT (mask (Suc n))"

lemma bit_sig_bit [simp]: "bit (sig_bit n) i \<longleftrightarrow> i = n \<and> i < 32"
  by (auto simp: sig_bit_def bit_simps)

lemma clear_lowest: "m \<noteq> 0 \<Longrightarrow> m AND NOT (sig_bit (trailing_zeros m)) = mask_above (trailing_zeros m) m"
  using trailing_zeros_bit [of m]
  by (intro bit_word_eqI) (auto simp: mask_above_def bit_simps less_Suc_eq)

text \<open>
  What the loop does, by the lowest pending signal that is not ignored.  Nothing but the pending
  mask of the task has changed when it gets there.
\<close>

definition first_due :: "nat \<Rightarrow> signals \<Rightarrow> nat \<Rightarrow> bool" where
  "first_due task sg n \<longleftrightarrow>
     bit (sg_pending sg ! task) n \<and> d_handler (sg_disp sg ! task ! n) \<noteq> SIG_IGN \<and>
     (\<forall>j<n. bit (sg_pending sg ! task) j \<longrightarrow> d_handler (sg_disp sg ! task ! j) = SIG_IGN)"

definition drop_pending :: "nat \<Rightarrow> nat \<Rightarrow> signals \<Rightarrow> signals" where
  "drop_pending task n sg =
     sg\<lparr>sg_pending := (sg_pending sg)[task := mask_above n (sg_pending sg ! task)]\<rparr>"

definition deliver_signal ::
  "paging \<Rightarrow> nat \<Rightarrow> nat \<Rightarrow> syscall_frame \<Rightarrow> signals \<Rightarrow> umem \<Rightarrow>
     unit flow \<times> syscall_frame \<times> signals \<times> umem" where
  "deliver_signal pg task n frame sg m =
     (let d = sg_disp sg ! task ! n in
      if d_handler d = SIG_DFL
      then (Exits (128 + n), frame, sg\<lparr>sg_delivered := w32 (sg_delivered sg + 1)\<rparr>, m)
      else let sg = sg\<lparr>sg_saved := (sg_saved sg)[task := frame_user_context frame]\<rparr> in
      (case build_signal_frame pg n (d_handler d) (d_restorer d) (frame_user_context frame) m of
         None \<Rightarrow> (Exits (128 + n), frame, sg, m)
       | Some (context, m) \<Rightarrow>
           (Returns (), set_user_context context frame,
            sg\<lparr>sg_in_handler := (sg_in_handler sg)[task := True],
               sg_delivered := w32 (sg_delivered sg + 1)\<rparr>, m)))"

lemma drop_pending_le:
  assumes "j < n" "task < length (sg_pending sg)"
  shows "drop_pending task n (drop_pending task j sg) = drop_pending task n sg"
proof -
  have "mask_above n (mask_above j m) = mask_above n m" for m
    using assms(1) by (intro bit_word_eqI) (auto simp: mask_above_def bit_simps)
  with assms(2) show ?thesis by (simp add: drop_pending_def)
qed

lemma first_due_drop:
  assumes "first_due task sg n" "task < length (sg_pending sg)" "j < n"
  shows "first_due task (drop_pending task j sg) n"
  using assms bit_imp_le_length [of "sg_pending sg ! task" n]
  by (auto simp: first_due_def drop_pending_def mask_above_def bit_simps)

lemma deliver_loop_due:
  "first_due task sg n \<Longrightarrow> task < length (sg_pending sg) \<Longrightarrow>
     deliver_loop pg task frame sg m = deliver_signal pg task n frame (drop_pending task n sg) m"
proof (induction pg task frame sg m rule: deliver_loop.induct)
  case (1 pg task frame sg m)
  let ?mask = "sg_pending sg ! task"
  let ?k = "trailing_zeros ?mask"
  let ?sg = "sg\<lparr>sg_pending := (sg_pending sg)[task := ?mask AND NOT (sig_bit ?k)]\<rparr>"
  have n: "bit ?mask n" using "1.prems"(1) by (simp add: first_due_def)
  then have nz: "?mask \<noteq> 0" by auto
  note tz = trailing_zeros_bit [OF nz]
  have sg: "?sg = drop_pending task ?k sg" by (simp add: drop_pending_def clear_lowest [OF nz])
  have "?k \<le> n" using tz(3) [of n] n by (cases "n < ?k") auto
  show ?case
  proof (cases "?k = n")
    case True
    have ni: "d_handler (sg_disp sg ! task ! n) \<noteq> SIG_IGN" using "1.prems"(1) by (simp add: first_due_def)
    have cl: "?mask AND NOT (sig_bit n) = mask_above n ?mask" using clear_lowest [OF nz] True by simp
    show ?thesis
      using "1.prems"(2) nz ni True cl
      by (simp add: deliver_loop.simps [of pg task frame sg] deliver_signal_def drop_pending_def
            default_terminates_def Let_def)
  next
    case False
    with \<open>?k \<le> n\<close> have k: "?k < n" by simp
    then have ign: "d_handler (sg_disp sg ! task ! ?k) = SIG_IGN"
      using "1.prems"(1) tz(1) by (simp add: first_due_def)
    have "deliver_loop pg task frame ?sg m = deliver_signal pg task n frame (drop_pending task n ?sg) m"
    proof (rule "1.IH"(1))
      show "first_due task ?sg n"
        unfolding sg by (rule first_due_drop [OF "1.prems" k])
    qed (use "1.prems" nz ign in simp_all)
    then show ?thesis
      using "1.prems"(2) nz ign drop_pending_le [OF k "1.prems"(2)]
      by (simp add: deliver_loop.simps [of pg task frame sg] sg [symmetric] Let_def)
  qed
qed

lemma deliver_loop_quiet:
  "\<forall>n. bit (sg_pending sg ! task) n \<longrightarrow> d_handler (sg_disp sg ! task ! n) = SIG_IGN \<Longrightarrow>
     task < length (sg_pending sg) \<Longrightarrow>
     deliver_loop pg task frame sg m =
       (Returns (), frame, sg\<lparr>sg_pending := (sg_pending sg)[task := 0]\<rparr>, m)"
proof (induction pg task frame sg m rule: deliver_loop.induct)
  case (1 pg task frame sg m)
  let ?mask = "sg_pending sg ! task"
  let ?k = "trailing_zeros ?mask"
  let ?sg = "sg\<lparr>sg_pending := (sg_pending sg)[task := ?mask AND NOT (sig_bit ?k)]\<rparr>"
  show ?case
  proof (cases "?mask = 0")
    case True
    then have "(sg_pending sg)[task := 0] = sg_pending sg" by (metis list_update_id)
    with True "1.prems"(2) show ?thesis by (simp add: deliver_loop.simps [of pg task frame sg])
  next
    case False
    then have ign: "d_handler (sg_disp sg ! task ! ?k) = SIG_IGN"
      using "1.prems"(1) trailing_zeros_bit(1) by blast
    have "deliver_loop pg task frame ?sg m =
            (Returns (), frame, ?sg\<lparr>sg_pending := (sg_pending ?sg)[task := 0]\<rparr>, m)"
    proof (rule "1.IH"(1))
      show "\<forall>n. bit (sg_pending ?sg ! task) n \<longrightarrow> d_handler (sg_disp ?sg ! task ! n) = SIG_IGN"
        using "1.prems" by (auto simp: bit_and_iff)
    qed (use "1.prems" False ign in simp_all)
    then show ?thesis
      using "1.prems"(2) False ign
      by (simp add: deliver_loop.simps [of pg task frame sg] Let_def)
  qed
qed

lemma no_due_quiet:
  assumes "\<nexists>n. first_due task sg n"
  shows "\<forall>n. bit (sg_pending sg ! task) n \<longrightarrow> d_handler (sg_disp sg ! task ! n) = SIG_IGN"
proof (rule ccontr)
  assume "\<not> ?thesis"
  then obtain n where "bit (sg_pending sg ! task) n \<and> d_handler (sg_disp sg ! task ! n) \<noteq> SIG_IGN"
    by blast
  then obtain k where "bit (sg_pending sg ! task) k \<and> d_handler (sg_disp sg ! task ! k) \<noteq> SIG_IGN"
    and "\<forall>j<k. \<not> (bit (sg_pending sg ! task) j \<and> d_handler (sg_disp sg ! task ! j) \<noteq> SIG_IGN)"
    using exists_least_iff [of "\<lambda>n. bit (sg_pending sg ! task) n \<and> d_handler (sg_disp sg ! task ! n) \<noteq> SIG_IGN"]
    by blast
  then have "first_due task sg k" by (auto simp: first_due_def)
  with assms show False by blast
qed

section \<open>Every operation, in any order\<close>

datatype sig_call =
  Raise nat nat
  | SetHandler nat nat usize usize
  | CloneInto nat
  | Reset nat
  | Deliver syscall_frame
  | Sigreturn syscall_frame

definition sig_do :: "paging \<Rightarrow> umem \<Rightarrow> sched \<Rightarrow> sig_call \<Rightarrow> signals \<Rightarrow> signals" where
  "sig_do pg m s c sg =
     (case c of
        Raise target signo \<Rightarrow> snd (snd (sig_raise target signo s sg))
      | SetHandler task signo h r \<Rightarrow> snd (set_handler pg task signo h r sg)
      | CloneInto child \<Rightarrow> clone_into child s sg
      | Reset task \<Rightarrow> sig_reset task sg
      | Deliver f \<Rightarrow> fst (snd (snd (deliver_pending pg s f sg m)))
      | Sigreturn f \<Rightarrow> snd (snd (sigreturn s f sg)))"

inductive sig_reachable :: "signals \<Rightarrow> bool" where
  init: "sig_reachable signals_init"
| step: "sig_reachable sg \<Longrightarrow> sched_inv s \<Longrightarrow> sig_reachable (sig_do pg m s c sg)"

text \<open>The calls that end the handler of \<open>task\<close> or give its slot to another program.\<close>

definition ends_handler :: "nat \<Rightarrow> sched \<Rightarrow> sig_call \<Rightarrow> bool" where
  "ends_handler task s c =
     (case c of CloneInto child \<Rightarrow> child = task | Reset t \<Rightarrow> t = task
      | Sigreturn f \<Rightarrow> current s = task | _ \<Rightarrow> False)"

inductive sig_run :: "nat \<Rightarrow> signals \<Rightarrow> signals \<Rightarrow> bool" for task where
  none: "sig_run task sg sg"
| call: "sig_run task sg sg' \<Longrightarrow> \<not> ends_handler task s c \<Longrightarrow> sig_run task sg (sig_do pg m s c sg')"

text \<open>A real handler, or the default, is at its place in the table; 0 and SIGKILL never.\<close>

definition sig_inv :: "signals \<Rightarrow> bool" where
  "sig_inv sg \<longleftrightarrow>
     sig_wf sg \<and>
     (\<forall>t<MAX_TASKS. length (sg_disp sg ! t) = MAX_SIGNAL + 1 \<and>
        (\<forall>n\<in>{0, SIGKILL}. \<not> bit (sg_pending sg ! t) n \<and> sg_disp sg ! t ! n = disposition_default))"

lemma sig_invD:
  assumes "sig_inv sg"
  shows "sig_wf sg" "\<And>t. t < MAX_TASKS \<Longrightarrow> length (sg_disp sg ! t) = MAX_SIGNAL + 1"
    "\<And>t. t < MAX_TASKS \<Longrightarrow> \<not> bit (sg_pending sg ! t) SIGKILL"
    "\<And>t. t < MAX_TASKS \<Longrightarrow> sg_disp sg ! t ! SIGKILL = disposition_default"
  using assms unfolding sig_inv_def by blast+

text \<open>The loop and the delivery touch one task's mask, saved context and flag.\<close>

lemma deliver_loop_frame:
  assumes "sig_wf sg" "task < MAX_TASKS" "deliver_loop pg task frame sg m = (r, frame', sg', m')"
  shows "sg_disp sg' = sg_disp sg \<and> sig_wf sg' \<and>
    (\<forall>t. t \<noteq> task \<longrightarrow> sg_pending sg' ! t = sg_pending sg ! t \<and> sg_saved sg' ! t = sg_saved sg ! t \<and>
       sg_in_handler sg' ! t = sg_in_handler sg ! t) \<and>
    (\<forall>n. bit (sg_pending sg' ! task) n \<longrightarrow> bit (sg_pending sg ! task) n)"
proof (cases "\<exists>n. first_due task sg n")
  case True
  then obtain n where "first_due task sg n" by blast
  from deliver_loop_due [OF this] assms
  have "deliver_signal pg task n frame (drop_pending task n sg) m = (r, frame', sg', m')"
    by (simp add: sig_wf_def)
  then show ?thesis using assms(1,2)
    by (auto simp: deliver_signal_def drop_pending_def sig_wf_def Let_def mask_above_def bit_and_iff
        split: if_splits option.splits)
next
  case False
  from deliver_loop_quiet [OF no_due_quiet [OF this]] assms show ?thesis
    by (auto simp: sig_wf_def)
qed

lemma deliver_pending_frame:
  assumes "sig_wf sg" "deliver_pending pg s frame sg m = (r, frame', sg', m')"
  shows "sg_disp sg' = sg_disp sg \<and> sig_wf sg' \<and>
    (\<forall>t. t \<noteq> current s \<or> sg_in_handler sg ! t \<longrightarrow>
       sg_pending sg' ! t = sg_pending sg ! t \<and> sg_saved sg' ! t = sg_saved sg ! t \<and>
       sg_in_handler sg' ! t = sg_in_handler sg ! t) \<and>
    (\<forall>t n. bit (sg_pending sg' ! t) n \<longrightarrow> bit (sg_pending sg ! t) n)"
proof (cases "t_in_user (task_at s (current s)) \<and> current s < MAX_TASKS \<and> \<not> sg_in_handler sg ! current s")
  case True
  then have "deliver_loop pg (current s) frame sg m = (r, frame', sg', m')"
    using assms(2) by (simp add: deliver_pending_def)
  from deliver_loop_frame [OF assms(1) _ this] True show ?thesis by metis
next
  case False
  then show ?thesis using assms by (auto simp: deliver_pending_def Let_def split: if_splits)
qed

lemma nth_update_if: "i < length xs \<Longrightarrow> xs[i := x] ! j = (if j = i then x else xs ! j)"
  by simp

lemma sig_inv_init: "sig_inv signals_init"
  by (simp add: sig_inv_def sig_wf_def signals_init_def)

lemma sig_inv_raise: "sig_inv sg \<Longrightarrow> sig_inv (snd (snd (sig_raise target signo s sg)))"
  by (auto simp: sig_raise_def sig_inv_def sig_wf_def signo_valid_def nth_update_if bit_or_iff Let_def
      split: if_splits outcome.splits prod.splits)

lemma sig_inv_set_handler: "sig_inv sg \<Longrightarrow> sig_inv (snd (set_handler pg task signo h r sg))"
  by (auto simp: set_handler_def sig_inv_def sig_wf_def signo_valid_def nth_update_if)

lemma sig_inv_clone: "sig_inv sg \<Longrightarrow> sig_inv (clone_into child s sg)"
  by (auto simp: clone_into_def sig_inv_def sig_wf_def nth_update_if Let_def)

lemma sig_inv_reset: "sig_inv sg \<Longrightarrow> sig_inv (sig_reset task sg)"
  by (auto simp: sig_reset_def sig_inv_def sig_wf_def nth_update_if)

lemma sig_inv_deliver:
  assumes "sig_inv sg"
  shows "sig_inv (fst (snd (snd (deliver_pending pg s f sg m))))"
proof -
  obtain r f' sg' m' where d: "deliver_pending pg s f sg m = (r, f', sg', m')"
    by (cases "deliver_pending pg s f sg m") auto
  from deliver_pending_frame [OF sig_invD(1) [OF assms] d] assms d show ?thesis
    by (auto simp: sig_inv_def)
qed

lemma sig_inv_sigreturn: "sig_inv sg \<Longrightarrow> sig_inv (snd (snd (sigreturn s f sg)))"
  by (auto simp: sigreturn_def sig_inv_def sig_wf_def Let_def)

lemma sig_inv_do: "sig_inv sg \<Longrightarrow> sig_inv (sig_do pg m s c sg)"
  by (cases c) (simp_all add: sig_do_def sig_inv_raise sig_inv_set_handler sig_inv_clone sig_inv_reset
      sig_inv_deliver sig_inv_sigreturn)

lemma sig_reachable_inv: "sig_reachable sg \<Longrightarrow> sig_inv sg"
  by (induction rule: sig_reachable.induct) (simp_all add: sig_inv_init sig_inv_do)

lemma sig_run_keeps:
  "sig_run task sg sg' \<Longrightarrow> sig_inv sg \<Longrightarrow> task < MAX_TASKS \<Longrightarrow> sg_in_handler sg ! task \<Longrightarrow>
     sig_inv sg' \<and> sg_in_handler sg' ! task \<and> sg_saved sg' ! task = sg_saved sg ! task"
proof (induction rule: sig_run.induct)
  case (none sg)
  then show ?case by simp
next
  case (call sg sg' s c pg m)
  then have inv: "sig_inv sg'" and h: "sg_in_handler sg' ! task"
    and sv: "sg_saved sg' ! task = sg_saved sg ! task" by auto
  note wf = sig_wfD [OF sig_invD(1) [OF inv]]
  have "sg_in_handler (sig_do pg m s c sg') ! task \<and>
        sg_saved (sig_do pg m s c sg') ! task = sg_saved sg' ! task"
  proof (cases c)
    case (Deliver f)
    obtain r f' sg2 m' where d: "deliver_pending pg s f sg' m = (r, f', sg2, m')"
      by (cases "deliver_pending pg s f sg' m") auto
    from deliver_pending_frame [OF sig_invD(1) [OF inv] d] h Deliver d show ?thesis
      by (simp add: sig_do_def) metis
  qed (use h call.hyps(2) wf call.prems in \<open>auto simp: sig_do_def ends_handler_def sig_raise_def
         set_handler_def clone_into_def sig_reset_def sigreturn_def Let_def split: outcome.splits prod.splits\<close>)
  with inv sv show ?case by (simp add: sig_inv_do)
qed

lemma bit_handled_fold:
  assumes "n \<le> 31" "i \<le> 32"
  shows "bit (fold (\<lambda>signo m. let d = ds ! signo in
            if d_handler d \<noteq> SIG_DFL \<and> d_handler d \<noteq> SIG_IGN then m OR sig_bit signo else m)
          [1..<n + 1] 0) i \<longleftrightarrow> 1 \<le> i \<and> i \<le> n \<and> d_handler (ds ! i) \<notin> {SIG_DFL, SIG_IGN}"
  using assms(1)
proof (induction n)
  case 0
  then show ?case by simp
next
  case (Suc n)
  have "[1..<Suc n + 1] = [1..<n + 1] @ [Suc n]" by simp
  with Suc show ?case
    by (auto simp: bit_or_iff Let_def le_Suc_eq simp del: upt_Suc)
qed

lemma bit_handled_mask:
  "task < MAX_TASKS \<Longrightarrow> bit (handled_mask task sg) i \<longleftrightarrow>
     1 \<le> i \<and> i \<le> MAX_SIGNAL \<and> d_handler (sg_disp sg ! task ! i) \<notin> {SIG_DFL, SIG_IGN}"
  using bit_handled_fold [of 31 i "sg_disp sg ! task"] bit_imp_le_length [of "handled_mask task sg" i]
  by (cases "i \<le> 32") (auto simp: handled_mask_def simp del: upt_Suc)

lemma mark_terminated_live:
  assumes "sched_inv s" "t < MAX_TASKS" "t \<noteq> 0" "t \<noteq> current s"
    "state_at s t \<noteq> Unused" "state_at s t \<noteq> Terminated"
  shows "\<exists>sp s'. mark_terminated t s = (Ok sp, s') \<and> state_at s' t \<in> {Terminated, Unused}"
  using assms sched_invD(1) [OF assms(1)]
  by (auto simp: mark_terminated_def set_state_def upd_task_def release_slot_def Let_def
      split: task_state.splits)


lemma signal_sp_mod: "signal_sp rsp mod 16 = 8"
proof -
  let ?x = "(rsp - 128) AND NOT 0xF :: usize"
  let ?w = "drop_bit 4 (rsp - 128) - 1 :: usize"
  have m: "(0xF :: usize) = mask 4" by (simp add: mask_eq_exp_minus_1)
  have b8: "bit (8 :: usize) n \<longleftrightarrow> n = 3" for n
    using bit_exp_iff [of 3 n, where 'a = usize] by auto
  have "?x = push_bit 4 (drop_bit 4 (rsp - 128))"
    unfolding m by (rule bit_word_eqI) (auto simp: bit_simps)
  then have "?x - 8 = push_bit 4 ?w + 8" by (simp add: push_bit_eq_mult algebra_simps)
  also have "\<dots> = push_bit 4 ?w OR 8"
  proof (rule disjunctive_add)
    fix n show "\<not> bit (push_bit 4 ?w) n \<or> \<not> bit (8 :: usize) n"
      unfolding b8 by (auto simp: bit_simps)
  qed
  finally have "take_bit 4 (?x - 8) = 8"
    by (simp only:) (rule bit_word_eqI, unfold bit_take_bit_iff bit_or_iff b8, auto simp: bit_simps)
  then show ?thesis by (simp add: signal_sp_def take_bit_eq_mod)
qed

lemma store64_at: "i < 8 \<Longrightarrow> store64 a v m (a + of_nat i) = ucast (drop_bit (8 * i) v)"
  by (simp add: store64_def unat_of_nat)

section \<open>SIGKILL\<close>

text \<open>
  Property C39.  Whatever sequence of signal calls has run, \<open>SIGKILL\<close> is never pending and never
  has a handler, for any task; sending it to a live task other than the idle task kills that
  task during the call, whether or not the target would ever make a system call: a sender that
  is the target leaves through the exit path with code 137, and for another target the slot is
  \<open>Terminated\<close> or free on return.
\<close>

theorem sigkill_always_kills:
  assumes "sig_reachable sg" "sched_inv s" "t < MAX_TASKS" "t \<noteq> IDLE_TASK"
    "state_at s t \<noteq> Unused" "state_at s t \<noteq> Terminated"
  shows "\<not> bit (pending_mask t sg) SIGKILL \<and> \<not> bit (handled_mask t sg) SIGKILL \<and>
    (case sig_raise t SIGKILL s sg of (r, s', sg') \<Rightarrow>
       if t = current s then r = Exits 137
       else r = Returns (Ok ()) \<and> state_at s' t \<in> {Terminated, Unused})"
proof -
  note inv = sig_reachable_inv [OF assms(1)]
  have masks: "\<not> bit (pending_mask t sg) SIGKILL" "\<not> bit (handled_mask t sg) SIGKILL"
    using sig_invD(3,4) [OF inv assms(3)] assms(3)
    by (simp_all add: pending_mask_def bit_handled_mask disposition_default_def)
  have raise: "case sig_raise t SIGKILL s sg of (r, s', sg') \<Rightarrow>
       if t = current s then r = Exits 137
       else r = Returns (Ok ()) \<and> state_at s' t \<in> {Terminated, Unused}"
  proof (cases "t = current s")
    case True
    then show ?thesis using assms by (simp add: sig_raise_def signo_valid_def Let_def)
  next
    case False
    with mark_terminated_live [OF assms(2-4) _ assms(5,6)] obtain sp s'
      where "mark_terminated t s = (Ok sp, s')" "state_at s' t \<in> {Terminated, Unused}" by blast
    with False assms show ?thesis by (simp add: sig_raise_def signo_valid_def Let_def)
  qed
  show ?thesis by (intro conjI masks raise)
qed

definition sig_sched :: sched where
  "sig_sched = (sched_boot 0 4096)
     \<lparr>tasks := [task_empty\<lparr>t_state := Ready\<rparr>, task_empty\<lparr>t_state := Ready\<rparr>,
                task_empty\<lparr>t_state := Running, t_in_user := True\<rparr>] @ replicate 5 task_empty,
      current := 2, task_count := 3\<rparr>"

lemma sig_sched_inv: "sched_inv sig_sched"
  by (rule sched_inv_by_table) (simp_all add: sig_sched_def sched_boot_def task_empty_def task_change_ok_def)

lemma sig_sched_facts:
  "current sig_sched = 2" "t_in_user (task_at sig_sched 2)" "state_at sig_sched 2 = Running"
  by (simp_all add: sig_sched_def)

definition sig_paging :: paging where
  \<comment> \<open>every entry present, writable and open to Ring 3\<close>
  "sig_paging = \<lparr>pg_root = 4096, pg_mem = (\<lambda>_. 7)\<rparr>"

lemma sig_paging_open [simp]: "is_user_accessible sig_paging a"
  by (simp add: is_user_accessible_def sig_paging_def table_entry_def Let_def)

theorem sigkill_always_kills_witness:
  "fst (sig_raise 2 SIGKILL sig_sched (sig_do sig_paging (\<lambda>_. 0) sig_sched (SetHandler 2 12 4096 8192) signals_init)) = Exits 137"
proof -
  have "sig_reachable (sig_do sig_paging (\<lambda>_. 0) sig_sched (SetHandler 2 12 4096 8192) signals_init)"
    by (intro sig_reachable.intros sig_sched_inv)
  from sigkill_always_kills [OF this sig_sched_inv, of 2] show ?thesis
    by (simp add: sig_sched_facts split: prod.splits)
qed

section \<open>Delivery\<close>

text \<open>
  On the way back to Ring 3, a task that is not inside a handler gets the lowest
  pending signal that it does not ignore, say \<open>n\<close>.  With no handler the task exits with code
  \<open>128 + n\<close>.  With a handler and a usable stack the frame resumes at the handler with \<open>n\<close> in RDI
  and the other argument registers and RFLAGS as they were, the return address on the stack is the
  registered trampoline, the stack is aligned as after a \<open>call\<close> (8 modulo 16), exactly the
  signals up to \<open>n\<close> have left the mask, and until the handler is done a second delivery changes
  nothing.
\<close>

theorem signal_delivery_order:
  assumes "sig_wf sg" "t_in_user (task_at s (current s))" "current s < MAX_TASKS"
    "\<not> sg_in_handler sg ! current s" "first_due (current s) sg n"
  shows "case deliver_pending pg s f sg m of (r, f', sg', m') \<Rightarrow>
    sg_pending sg' ! current s = mask_above n (sg_pending sg ! current s) \<and>
    (let d = sg_disp sg ! current s ! n; sp = signal_sp (sf_user_rsp f) in
     if d_handler d = SIG_DFL then r = Exits (128 + n) \<and> f' = f \<and> m' = m
     else if \<not> is_user_accessible pg sp \<or> \<not> is_user_accessible pg (sp + 7)
     then r = Exits (128 + n) \<and> f' = f \<and> m' = m
     else r = Returns () \<and>
       f' = f\<lparr>sf_rcx := d_handler d, sf_rdi := of_nat n, sf_user_rsp := sp\<rparr> \<and>
       (\<forall>i<8. m' (sp + of_nat i) = ucast (drop_bit (8 * i) (d_restorer d))) \<and>
       sp mod 16 = 8 \<and>
       (\<forall>pg2 f2 m2. deliver_pending pg2 s f2 sg' m2 = (Returns (), f2, sg', m2)))"
proof -
  note wf = sig_wfD [OF assms(1)]
  let ?t = "current s" let ?sp = "signal_sp (sf_user_rsp f)"
  let ?d = "sg_disp sg ! ?t ! n"
  have run: "deliver_pending pg s f sg m = deliver_signal pg ?t n f (drop_pending ?t n sg) m"
    using assms deliver_loop_due [OF assms(5)] wf by (simp add: deliver_pending_def Let_def)
  have due: "d_handler ?d \<noteq> SIG_IGN" using assms(5) by (simp add: first_due_def)
  have sp: "?sp mod 16 = 8" by (rule signal_sp_mod)
  have mem: "\<forall>i<8. store64 ?sp v m (?sp + of_nat i) = ucast (drop_bit (8 * i) v)" for v
    by (simp add: store64_at)
  show ?thesis
    unfolding run using wf assms(3) due sp mem
    by (simp add: deliver_signal_def build_signal_frame_def drop_pending_def Let_def redirect_def
        frame_user_context_def set_user_context_def deliver_pending_def)
qed


definition sig_demo_frame :: syscall_frame where
  "sig_demo_frame = \<lparr>sf_r15 = 0, sf_r14 = 0, sf_r13 = 0, sf_r12 = 0, sf_r11 = 514, sf_r10 = 0,
     sf_r9 = 0, sf_r8 = 0, sf_rbp = 0, sf_rdi = 3, sf_rsi = 0, sf_rdx = 0, sf_rcx = 12582920,
     sf_rbx = 0, sf_rax = 42, sf_user_rsp = 12586000\<rparr>"

definition sig_demo :: signals where
  \<comment> \<open>a handler for signal 12, then signals 15 and 12 arrive\<close>
  "sig_demo = foldl (\<lambda>sg c. sig_do sig_paging (\<lambda>_. 0) sig_sched c sg) signals_init
     [SetHandler 2 12 4096 8192, Raise 2 15, Raise 2 12]"

lemma sig_demo_reachable: "sig_reachable sig_demo"
  unfolding sig_demo_def foldl.simps by (intro sig_reachable.intros sig_sched_inv)

lemma sig_demo_state:
  "sig_wf sig_demo" "\<not> sg_in_handler sig_demo ! 2"
  "sg_disp sig_demo ! 2 ! 12 = \<lparr>d_handler = 4096, d_restorer = 8192\<rparr>"
  "sg_pending sig_demo ! 2 = sig_bit 15 OR sig_bit 12"
  using sig_invD(1) [OF sig_reachable_inv [OF sig_demo_reachable]]
  by (simp_all add: sig_demo_def sig_do_def signals_init_def set_handler_def sig_raise_def
      signo_valid_def sig_sched_facts Let_def)

lemma sig_demo_due: "first_due 2 sig_demo 12"
  by (auto simp: first_due_def sig_demo_state bit_or_iff)

theorem signal_delivery_order_witness:
  "sf_rcx (fst (snd (deliver_pending sig_paging sig_sched sig_demo_frame sig_demo (\<lambda>_. 0)))) = 4096"
  using signal_delivery_order [of sig_demo sig_sched 12, where pg = sig_paging and f = sig_demo_frame
      and m = "\<lambda>_. 0"]
  by (simp add: sig_sched_facts sig_demo_state sig_demo_due Let_def split: prod.splits)

section \<open>The handler returns\<close>

lemma deliver_entered:
  assumes "sig_wf sg" "current s < MAX_TASKS" "\<not> sg_in_handler sg ! current s"
    "deliver_pending pg s f sg m = (r, f1, sg1, m1)" "sg_in_handler sg1 ! current s"
  shows "sg_saved sg1 ! current s = frame_user_context f \<and> (\<exists>v. m1 = store64 (signal_sp (sf_user_rsp f)) v m)"
proof -
  note wf = sig_wfD [OF assms(1)]
  let ?t = "current s"
  have run: "deliver_loop pg ?t f sg m = (r, f1, sg1, m1)"
    using assms by (auto simp: deliver_pending_def Let_def split: if_splits)
  show ?thesis
  proof (cases "\<exists>n. first_due ?t sg n")
    case True
    then obtain n where "first_due ?t sg n" by blast
    from deliver_loop_due [OF this] run wf assms(2)
    have "deliver_signal pg ?t n f (drop_pending ?t n sg) m = (r, f1, sg1, m1)" by simp
    then show ?thesis using wf assms(2,3,5)
      by (auto simp: deliver_signal_def build_signal_frame_def drop_pending_def Let_def frame_user_context_def
          split: if_splits)
  next
    case False
    from deliver_loop_quiet [OF no_due_quiet [OF this]] run wf assms(2,3,5)
    show ?thesis by auto
  qed
qed

lemma store64_above:
  assumes "152 \<le> rsp" "rsp - 128 \<le> a"
  shows "store64 (signal_sp rsp) v m a = m a"
proof -
  let ?x = "rsp - 128 :: usize"
  have m: "(0xF :: usize) = mask 4" by (simp add: mask_eq_exp_minus_1)
  have x: "24 \<le> unat ?x" using assms(1) by (simp add: unat_sub word_le_nat_alt)
  have "(?x AND NOT 0xF) + take_bit 4 ?x = (?x AND NOT 0xF) OR take_bit 4 ?x"
    unfolding m by (rule disjunctive_add) (auto simp: bit_simps)
  also have "\<dots> = ?x" unfolding m by (rule bit_word_eqI) (auto simp: bit_simps)
  finally have e: "?x AND NOT 0xF = ?x - take_bit 4 ?x" by (simp only: eq_diff_eq)
  have low: "unat (take_bit 4 ?x) = unat ?x mod 16"
    by (simp add: unsigned_take_bit_eq) (simp add: take_bit_eq_mod)
  then have "take_bit 4 ?x \<le> ?x" by (simp only: word_le_nat_alt mod_less_eq_dividend)
  then have y: "unat (?x AND NOT 0xF) = 16 * (unat ?x div 16)"
    unfolding e by (simp only: unat_sub low minus_mod_eq_mult_div)
  define z where "z = (?x AND NOT 0xF)"
  have z: "unat z = 16 * (unat ?x div 16)" using y by (simp only: z_def)
  then have "8 \<le> z" using x by (simp add: word_le_nat_alt)
  then have "unat (signal_sp rsp) = unat z - 8"
    unfolding signal_sp_def z_def [symmetric] by (subst unat_sub) simp_all
  moreover have "16 * (unat ?x div 16) \<le> unat ?x" "unat ?x < 16 * (unat ?x div 16) + 16" by simp_all
  ultimately have sp: "unat (signal_sp rsp) + 8 \<le> unat ?x" using x z by linarith
  then have "unat (a - signal_sp rsp) = unat a - unat (signal_sp rsp)"
    using assms(2) by (intro unat_sub) (simp add: word_le_nat_alt)
  moreover have "unat ?x \<le> unat a" using assms(2) by (simp only: word_le_nat_alt)
  ultimately have "\<not> unat (a - signal_sp rsp) < 8" using sp by linarith
  then show ?thesis by (simp add: store64_def)
qed

text \<open>
  Property C40.  A handler that returns through the trampoline is invisible to the program: after
  a delivery that entered a handler, and after any signal calls of any tasks in between that do
  not end this handler (further signals, new handlers, other tasks' deliveries and forks), the
  \<open>sigreturn\<close> of the task puts back the whole frame the delivery found, whatever the registers at
  the \<open>sigreturn\<close> were, and leaves the handler without touching the pending signals.  The frame
  built on the user stack has left everything from the red zone (128 bytes below the stack
  pointer) upward as it was.
\<close>

theorem signal_roundtrip:
  assumes "sig_reachable sg" "current s < MAX_TASKS" "\<not> sg_in_handler sg ! current s"
    "deliver_pending pg s f sg m = (Returns (), f1, sg1, m1)" "sg_in_handler sg1 ! current s"
    "sig_run (current s) sg1 sg2" "current s2 = current s"
  shows "(case sigreturn s2 f2 sg2 of (ok, f3, sg3) \<Rightarrow>
      ok \<and> f3 = f \<and> \<not> sg_in_handler sg3 ! current s \<and> sg_pending sg3 = sg_pending sg2) \<and>
    (152 \<le> sf_user_rsp f \<longrightarrow> (\<forall>a\<ge>sf_user_rsp f - 128. m1 a = m a))"
proof -
  note inv = sig_reachable_inv [OF assms(1)]
  have inv1: "sig_inv sg1"
    using sig_inv_deliver [OF inv, of pg s f m] assms(4) by simp
  from deliver_entered [OF sig_invD(1) [OF inv] assms(2-5)]
  have saved: "sg_saved sg1 ! current s = frame_user_context f"
    and mem: "\<exists>v. m1 = store64 (signal_sp (sf_user_rsp f)) v m" by auto
  from sig_run_keeps [OF assms(6) inv1 assms(2,5)] saved
  have later: "sig_inv sg2" "sg_in_handler sg2 ! current s" "sg_saved sg2 ! current s = frame_user_context f"
    by auto
  have ret: "case sigreturn s2 f2 sg2 of (ok, f3, sg3) \<Rightarrow>
      ok \<and> f3 = f \<and> \<not> sg_in_handler sg3 ! current s \<and> sg_pending sg3 = sg_pending sg2"
    using later assms(2,7) sig_wfD [OF sig_invD(1) [OF later(1)]]
    by (simp add: sigreturn_def Let_def set_user_context_user_context)
  show ?thesis using ret mem store64_above by auto
qed

theorem signal_roundtrip_witness:
  "fst (snd (sigreturn sig_sched (sig_demo_frame\<lparr>sf_rax := 7\<rparr>)
     (sig_do sig_paging (\<lambda>_. 0) sig_sched (Raise 2 12)
        (fst (snd (snd (deliver_pending sig_paging sig_sched sig_demo_frame sig_demo (\<lambda>_. 0)))))))) =
   sig_demo_frame"
proof -
  let ?d = "deliver_pending sig_paging sig_sched sig_demo_frame sig_demo (\<lambda>_. 0)"
  have run: "?d = deliver_signal sig_paging 2 12 sig_demo_frame (drop_pending 2 12 sig_demo) (\<lambda>_. 0)"
    using deliver_loop_due [OF sig_demo_due] sig_wfD [OF sig_demo_state(1)]
    by (simp add: deliver_pending_def sig_sched_facts sig_demo_state Let_def)
  obtain f1 sg1 m1 where d: "?d = (Returns (), f1, sg1, m1)" "sg_in_handler sg1 ! 2"
    unfolding run using sig_wfD [OF sig_demo_state(1)]
    by (simp add: deliver_signal_def drop_pending_def sig_demo_state build_signal_frame_def Let_def)
  have more: "sig_run 2 sg1 (sig_do sig_paging (\<lambda>_. 0) sig_sched (Raise 2 12) sg1)"
    by (intro sig_run.intros) (simp add: ends_handler_def)
  have "case sigreturn sig_sched (sig_demo_frame\<lparr>sf_rax := 7\<rparr>)
               (sig_do sig_paging (\<lambda>_. 0) sig_sched (Raise 2 12) sg1) of (ok, f3, sg3) \<Rightarrow> f3 = sig_demo_frame"
    using signal_roundtrip [OF sig_demo_reachable _ _ d(1) _ _ refl, of "sig_do sig_paging (\<lambda>_. 0) sig_sched (Raise 2 12) sg1"
        "sig_demo_frame\<lparr>sf_rax := 7\<rparr>"] d(2) more
    by (simp add: sig_sched_facts sig_demo_state split: prod.splits)
  then show ?thesis by (simp add: d(1) split: prod.splits)
qed

section \<open>Addresses the page walk cannot tell apart\<close>

lemma flip_bits:
  "bit (h XOR push_bit 63 1 :: usize) n \<longleftrightarrow> (if n = 63 then \<not> bit h 63 else bit h n)"
  using bit_exp_iff [of 63 n, where 'a = usize]
  by (cases "n < 64") (auto simp: bit_xor_iff push_bit_eq_mult dest: bit_imp_le_length)

lemma noncanonical_flip:
  assumes "canonical h"
  shows "\<not> canonical (h XOR push_bit 63 1)"
proof
  assume f: "canonical (h XOR push_bit 63 1)"
  have top: "bit h 63 \<longleftrightarrow> bit h 47" if "canonical h" for h :: usize
  proof -
    have "bit (signed_take_bit 47 h) 63 \<longleftrightarrow> bit h 47" by (simp add: bit_signed_take_bit_iff min_def)
    with that show ?thesis by (simp add: canonical_def)
  qed
  show False using top [OF assms] top [OF f] unfolding flip_bits by simp
qed


text \<open>
  The check that keeps a handler inside the user area looks at bits 12 to 47 of
  the address only, so it also accepts addresses that no x86-64 CPU can use: for every canonical
  handler that \<open>set_handler\<close> accepts, it accepts the non-canonical address with bit 63 flipped,
  and the next delivery of the signal (on any usable stack) puts that address into RCX, from where
  \<open>sysretq\<close> takes the instruction pointer in Ring 0.
\<close>

theorem noncanonical_handler_delivered:
  assumes "sig_wf sg" "length (sg_disp sg ! task) = MAX_SIGNAL + 1" "canonical h" "h \<notin> {SIG_DFL, SIG_IGN}"
    "set_handler pg task signo h r sg = (Ok old, sg1)"
    "t_in_user (task_at s task)" "current s = task" "\<not> sg_in_handler sg ! task"
    "sg_pending sg ! task = sig_bit signo" "\<And>a. is_user_accessible pg' a"
  shows "\<exists>sg2. set_handler pg task signo (h XOR push_bit 63 1) r sg = (Ok old, sg2) \<and>
    \<not> canonical (h XOR push_bit 63 1) \<and>
    sf_rcx (fst (snd (deliver_pending pg' s f sg2 m))) = h XOR push_bit 63 1"
proof -
  define h' where "h' = (h XOR push_bit 63 1 :: usize)"
  note wf = sig_wfD [OF assms(1)]
  have nc: "\<not> canonical h'" unfolding h'_def by (rule noncanonical_flip [OF assms(3)])
  then have h': "h' \<noteq> 0" "h' \<noteq> 1" by (auto simp: canonical_def)
  have v: "signo_valid signo" "signo \<noteq> SIGKILL" "task < MAX_TASKS" "is_user_accessible pg h"
      "is_user_accessible pg r" "old = d_handler (sg_disp sg ! task ! signo)"
    using assms(4,5) by (auto simp: set_handler_def split: if_splits)
  then have same: "is_user_accessible pg h'"
    using is_user_accessible_cong [of h h' pg] unfolding h'_def flip_bits by simp
  define sg2 where "sg2 = sg\<lparr>sg_disp := (sg_disp sg)[task :=
                 (sg_disp sg ! task)[signo := \<lparr>d_handler = h', d_restorer = r\<rparr>]]\<rparr>"
  have set: "set_handler pg task signo h' r sg = (Ok old, sg2)"
    using v same by (simp add: set_handler_def sg2_def)
  have signo: "signo < 32" using v(1) by (simp add: signo_valid_def)
  have slot: "sg_disp sg2 ! task ! signo = \<lparr>d_handler = h', d_restorer = r\<rparr>"
    "sg_pending sg2 = sg_pending sg" "sg_in_handler sg2 = sg_in_handler sg"
    using wf v(3) assms(2) signo by (simp_all add: sg2_def)
  have due: "first_due task sg2 signo"
    using h' signo assms(9) by (auto simp: first_due_def slot)
  have "deliver_pending pg' s f sg2 m = deliver_signal pg' task signo f (drop_pending task signo sg2) m"
    using assms(6-8) v(3) wf deliver_loop_due [OF due] by (simp add: deliver_pending_def slot Let_def)
  then have "sf_rcx (fst (snd (deliver_pending pg' s f sg2 m))) = h'"
    using h' assms(10)
    by (simp add: deliver_signal_def drop_pending_def slot build_signal_frame_def redirect_def
        set_user_context_def Let_def)
  with set nc show ?thesis unfolding h'_def by blast
qed

theorem noncanonical_handler_delivered_witness:
  "\<exists>h sg. \<not> canonical h \<and> sf_rcx (fst (snd (deliver_pending sig_paging sig_sched sig_demo_frame sg (\<lambda>_. 0)))) = h"
proof -
  let ?sg = "sig_do sig_paging (\<lambda>_. 0) sig_sched (Raise 2 12) signals_init"
  have wf: "sig_wf ?sg" "length (sg_disp ?sg ! 2) = MAX_SIGNAL + 1"
    using sig_inv_do [OF sig_inv_init] sig_invD(1,2) by simp_all
  have st: "\<not> sg_in_handler ?sg ! 2" "sg_pending ?sg ! 2 = sig_bit 12"
    by (simp_all add: sig_do_def signals_init_def sig_raise_def signo_valid_def sig_sched_facts Let_def)
  obtain old sg1 where s: "set_handler sig_paging 2 12 4096 8192 ?sg = (Ok old, sg1)"
    by (simp add: set_handler_def signo_valid_def)
  have "canonical 4096" by (simp add: canonical_def)
  from noncanonical_handler_delivered [OF wf this _ s, of sig_sched sig_paging sig_demo_frame "\<lambda>_. 0"] st
  show ?thesis by (auto simp: sig_sched_facts)
qed

end
