(* ===== verification/Block.thy ===== *)
theory Block imports Prelude begin

text \<open>
  The block layer, \<^verbatim>\<open>kernel/src/level0a/drivers/block.rs\<close>: a table of functions that a driver
  registers, and the calls of the file system that go through it.  A driver is a record of
  functions on the state of the device, of any type \<open>'d\<close>; a read writes into the caller's buffer,
  also when it fails half way, so it returns the buffer.

  \<open>healthy\<close> is what the file system relies on: inside a region the device stores the sectors
  that were written and returns them.
\<close>

section \<open>State\<close>

abbreviation (input) SECTOR_SIZE :: nat where "SECTOR_SIZE \<equiv> 512"

datatype block_error = NoDevice | OutOfRange | BufferTooSmall | DeviceError | Timeout

record 'd driver =
  drv_name :: string
  drv_read :: "nat \<Rightarrow> nat \<Rightarrow> byte list \<Rightarrow> 'd \<Rightarrow> (block_error, unit) outcome \<times> byte list \<times> 'd"
  drv_write :: "nat \<Rightarrow> nat \<Rightarrow> byte list \<Rightarrow> 'd \<Rightarrow> (block_error, unit) outcome \<times> 'd"
  drv_sectors :: "'d \<Rightarrow> nat"

record 'd block =
  blk_driver :: "'d driver option"
  blk_dev :: 'd
  blk_sectors_read :: nat
  blk_sectors_written :: nat

section \<open>Operations\<close>

definition block_init :: "bool \<Rightarrow> 'd driver \<Rightarrow> 'd block \<Rightarrow> bool \<times> 'd block" where
  \<comment> \<open>\<open>found\<close> is the result of the driver's own \<open>init\<close>\<close>
  "block_init found drv b = (if \<not> found then (False, b) else (True, b\<lparr>blk_driver := Some drv\<rparr>))"

definition block_available :: "'d block \<Rightarrow> bool" where
  "block_available b = (blk_driver b \<noteq> None)"

definition sector_count :: "'d block \<Rightarrow> nat" where
  "sector_count b = (case blk_driver b of Some d \<Rightarrow> drv_sectors d (blk_dev b) | None \<Rightarrow> 0)"

definition capacity_mib :: "'d block \<Rightarrow> nat" where
  "capacity_mib b = sector_count b div 2 div 1024"

definition block_read ::
  "nat \<Rightarrow> nat \<Rightarrow> byte list \<Rightarrow> 'd block \<Rightarrow> (block_error, unit) outcome \<times> byte list \<times> 'd block" where
  "block_read lba count buf b =
     (case blk_driver b of
        None \<Rightarrow> (Err NoDevice, buf, b)
      | Some d \<Rightarrow>
          (case drv_read d lba count buf (blk_dev b) of
             (Ok _, buf', dev) \<Rightarrow>
               (Ok (), buf', b\<lparr>blk_dev := dev,
                  blk_sectors_read := (blk_sectors_read b + count) mod 2 ^ 64\<rparr>)
           | (Err e, buf', dev) \<Rightarrow> (Err e, buf', b\<lparr>blk_dev := dev\<rparr>)
           | (Panic, buf', dev) \<Rightarrow> (Panic, buf', b\<lparr>blk_dev := dev\<rparr>)))"

definition block_write ::
  "nat \<Rightarrow> nat \<Rightarrow> byte list \<Rightarrow> 'd block \<Rightarrow> (block_error, unit) outcome \<times> 'd block" where
  "block_write lba count buf b =
     (case blk_driver b of
        None \<Rightarrow> (Err NoDevice, b)
      | Some d \<Rightarrow>
          (case drv_write d lba count buf (blk_dev b) of
             (Ok _, dev) \<Rightarrow>
               (Ok (), b\<lparr>blk_dev := dev,
                  blk_sectors_written := (blk_sectors_written b + count) mod 2 ^ 64\<rparr>)
           | (Err e, dev) \<Rightarrow> (Err e, b\<lparr>blk_dev := dev\<rparr>)
           | (Panic, dev) \<Rightarrow> (Panic, b\<lparr>blk_dev := dev\<rparr>)))"

definition read_sector ::
  "nat \<Rightarrow> byte list \<Rightarrow> 'd block \<Rightarrow> (block_error, unit) outcome \<times> byte list \<times> 'd block" where
  "read_sector lba buf b = block_read lba 1 buf b"

definition write_sector :: "nat \<Rightarrow> byte list \<Rightarrow> 'd block \<Rightarrow> (block_error, unit) outcome \<times> 'd block" where
  "write_sector lba buf b = block_write lba 1 buf b"

section \<open>Runs of sectors\<close>

text \<open>The bytes of \<open>n\<close> sectors from \<open>lba\<close>, and a disk after a write of a buffer.\<close>

definition sectors_at :: "(nat \<Rightarrow> byte list) \<Rightarrow> nat \<Rightarrow> nat \<Rightarrow> byte list" where
  "sectors_at f lba n = concat (map (\<lambda>k. f (lba + k)) [0..<n])"

definition put_sectors :: "nat \<Rightarrow> nat \<Rightarrow> byte list \<Rightarrow> (nat \<Rightarrow> byte list) \<Rightarrow> nat \<Rightarrow> byte list" where
  "put_sectors lba n buf f l =
     (if lba \<le> l \<and> l < lba + n then take SECTOR_SIZE (drop ((l - lba) * SECTOR_SIZE) buf) else f l)"

lemma sectors_at_Suc: "sectors_at f lba (Suc n) = sectors_at f lba n @ f (lba + n)"
  by (simp add: sectors_at_def)

lemma length_sectors_at: "(\<And>l. length (f l) = SECTOR_SIZE) \<Longrightarrow> length (sectors_at f lba n) = n * SECTOR_SIZE"
  by (induction n) (simp_all add: sectors_at_Suc, simp add: sectors_at_def)

lemma sectors_at_put_same:
  "n * SECTOR_SIZE \<le> length buf \<Longrightarrow> k \<le> n \<Longrightarrow>
     sectors_at (put_sectors lba n buf f) lba k = take (k * SECTOR_SIZE) buf"
proof (induction k)
  case 0
  then show ?case by (simp add: sectors_at_def)
next
  case (Suc k)
  have "take (k * SECTOR_SIZE) buf @ take SECTOR_SIZE (drop (k * SECTOR_SIZE) buf) =
        take (k * SECTOR_SIZE + SECTOR_SIZE) buf"
    by (simp only: take_add)
  with Suc show ?case by (simp add: sectors_at_Suc put_sectors_def add.commute)
qed

lemma sectors_at_cong:
  "(\<And>l. lba \<le> l \<Longrightarrow> l < lba + n \<Longrightarrow> f l = g l) \<Longrightarrow> sectors_at f lba n = sectors_at g lba n"
  by (auto simp: sectors_at_def intro!: arg_cong [where f = concat])

lemma sectors_at_put_other:
  "lba' + m \<le> lba \<or> lba + n \<le> lba' \<Longrightarrow> sectors_at (put_sectors lba n buf f) lba' m = sectors_at f lba' m"
  by (rule sectors_at_cong) (auto simp: put_sectors_def)

lemma length_put_sectors:
  "(\<And>l. length (f l) = SECTOR_SIZE) \<Longrightarrow> n * SECTOR_SIZE \<le> length buf \<Longrightarrow>
     length (put_sectors lba n buf f l) = SECTOR_SIZE"
proof -
  assume f: "\<And>l. length (f l) = SECTOR_SIZE" and b: "n * SECTOR_SIZE \<le> length buf"
  have "SECTOR_SIZE \<le> length buf - (l - lba) * SECTOR_SIZE" if "lba \<le> l" "l < lba + n"
  proof -
    have "Suc (l - lba) * SECTOR_SIZE \<le> n * SECTOR_SIZE" using that by (intro mult_le_mono1) simp
    with b show ?thesis by simp
  qed
  with f show ?thesis by (auto simp: put_sectors_def)
qed

section \<open>A healthy device\<close>

text \<open>
  \<open>sect d l\<close> is sector \<open>l\<close> of a device in state \<open>d\<close>, \<open>ok\<close> what the driver keeps true of it and
  \<open>reg\<close> the run of sectors, from the first to the one after the last, that the claim is about.
\<close>

definition inside :: "nat \<times> nat \<Rightarrow> nat \<Rightarrow> nat \<Rightarrow> bool" where
  "inside reg lba n \<longleftrightarrow> fst reg \<le> lba \<and> lba + n \<le> snd reg"

definition healthy ::
  "'d driver \<Rightarrow> ('d \<Rightarrow> bool) \<Rightarrow> ('d \<Rightarrow> nat \<Rightarrow> byte list) \<Rightarrow> nat \<times> nat \<Rightarrow> bool" where
  "healthy drv ok sect reg \<longleftrightarrow>
     (\<forall>d l. ok d \<longrightarrow> length (sect d l) = SECTOR_SIZE) \<and>
     (\<forall>d lba n buf. ok d \<longrightarrow> 0 < n \<longrightarrow> n < 256 \<longrightarrow> inside reg lba n \<longrightarrow> n * SECTOR_SIZE \<le> length buf \<longrightarrow>
        (\<exists>d'. drv_read drv lba n buf d =
                (Ok (), sectors_at (sect d) lba n @ drop (n * SECTOR_SIZE) buf, d') \<and>
              ok d' \<and> sect d' = sect d)) \<and>
     (\<forall>d lba n buf. ok d \<longrightarrow> 0 < n \<longrightarrow> n < 256 \<longrightarrow> inside reg lba n \<longrightarrow> n * SECTOR_SIZE \<le> length buf \<longrightarrow>
        (\<exists>d'. drv_write drv lba n buf d = (Ok (), d') \<and> ok d' \<and>
              sect d' = put_sectors lba n buf (sect d)))"

lemma healthyD:
  assumes "healthy drv ok sect reg" "ok d"
  shows "length (sect d l) = SECTOR_SIZE"
    "0 < n \<Longrightarrow> n < 256 \<Longrightarrow> inside reg lba n \<Longrightarrow> n * SECTOR_SIZE \<le> length buf \<Longrightarrow>
       \<exists>d'. drv_read drv lba n buf d =
              (Ok (), sectors_at (sect d) lba n @ drop (n * SECTOR_SIZE) buf, d') \<and>
            ok d' \<and> sect d' = sect d"
    "0 < n \<Longrightarrow> n < 256 \<Longrightarrow> inside reg lba n \<Longrightarrow> n * SECTOR_SIZE \<le> length buf \<Longrightarrow>
       \<exists>d'. drv_write drv lba n buf d = (Ok (), d') \<and> ok d' \<and> sect d' = put_sectors lba n buf (sect d)"
  using assms unfolding healthy_def by blast+

text \<open>The registered driver is healthy, and the device shows the sectors \<open>f\<close>.\<close>

definition shows_disk ::
  "('d \<Rightarrow> bool) \<Rightarrow> ('d \<Rightarrow> nat \<Rightarrow> byte list) \<Rightarrow> nat \<times> nat \<Rightarrow> 'd block \<Rightarrow> (nat \<Rightarrow> byte list) \<Rightarrow> bool" where
  "shows_disk ok sect reg b f \<longleftrightarrow>
     (\<exists>drv. blk_driver b = Some drv \<and> healthy drv ok sect reg) \<and> ok (blk_dev b) \<and> sect (blk_dev b) = f"

lemma shows_disk_length: "shows_disk ok sect reg b f \<Longrightarrow> length (f l) = SECTOR_SIZE"
  by (auto simp: shows_disk_def healthyD(1))

lemma shows_disk_available: "shows_disk ok sect reg b f \<Longrightarrow> block_available b"
  by (auto simp: shows_disk_def block_available_def)

lemma block_read_healthy:
  assumes "shows_disk ok sect reg b f" "0 < n" "n < 256" "inside reg lba n" "length buf = n * SECTOR_SIZE"
  shows "\<exists>b'. block_read lba n buf b = (Ok (), sectors_at f lba n, b') \<and> shows_disk ok sect reg b' f"
proof -
  obtain drv where drv: "blk_driver b = Some drv" "healthy drv ok sect reg"
    and b: "ok (blk_dev b)" "sect (blk_dev b) = f" using assms(1) by (auto simp: shows_disk_def)
  from healthyD(2) [OF drv(2) b(1) assms(2-4), of buf] assms(5)
  obtain d' where "drv_read drv lba n buf (blk_dev b) = (Ok (), sectors_at f lba n, d')"
      "ok d'" "sect d' = f" using b(2) by auto
  then show ?thesis using drv by (simp add: block_read_def shows_disk_def)
qed

lemma block_write_healthy:
  assumes "shows_disk ok sect reg b f" "0 < n" "n < 256" "inside reg lba n" "n * SECTOR_SIZE \<le> length buf"
  shows "\<exists>b'. block_write lba n buf b = (Ok (), b') \<and> shows_disk ok sect reg b' (put_sectors lba n buf f)"
proof -
  obtain drv where drv: "blk_driver b = Some drv" "healthy drv ok sect reg"
    and b: "ok (blk_dev b)" "sect (blk_dev b) = f" using assms(1) by (auto simp: shows_disk_def)
  from healthyD(3) [OF drv(2) b(1) assms(2-5)]
  obtain d' where "drv_write drv lba n buf (blk_dev b) = (Ok (), d')"
      "ok d'" "sect d' = put_sectors lba n buf f" using b(2) by auto
  then show ?thesis using drv by (simp add: block_write_def shows_disk_def)
qed

text \<open>
  A healthy driver keeps every sector outside the region: what holds of it for any region holds
  for one with the outside pinned.
\<close>

lemma healthy_confined:
  assumes "healthy drv ok sect reg" "fst reg \<le> fst sub" "snd sub \<le> snd reg"
  shows "healthy drv (\<lambda>d. ok d \<and> (\<forall>l. \<not> inside sub l 1 \<longrightarrow> sect d l = g l)) sect sub"
proof -
  have sub: "inside reg lba n" if "inside sub lba n" for lba n using that assms(2,3) by (simp add: inside_def)
  have out: "put_sectors lba n buf f l = f l" if "inside sub lba n" "\<not> inside sub l 1" for lba n buf f l
    using that by (auto simp: inside_def put_sectors_def)
  show ?thesis
    unfolding healthy_def
  proof (intro conjI allI impI)
    fix d l assume "ok d \<and> (\<forall>l. \<not> inside sub l 1 \<longrightarrow> sect d l = g l)"
    then show "length (sect d l) = SECTOR_SIZE" using healthyD(1) [OF assms(1)] by blast
  next
    fix d lba n buf
    assume d: "ok d \<and> (\<forall>l. \<not> inside sub l 1 \<longrightarrow> sect d l = g l)" and n: "0 < n" "n < 256" "inside sub lba n"
      "n * SECTOR_SIZE \<le> length (buf :: byte list)"
    from healthyD(2) [OF assms(1) conjunct1 [OF d] n(1,2) sub [OF n(3)] n(4)]
    show "\<exists>d'. drv_read drv lba n buf d = (Ok (), sectors_at (sect d) lba n @ drop (n * SECTOR_SIZE) buf, d') \<and>
         (ok d' \<and> (\<forall>l. \<not> inside sub l 1 \<longrightarrow> sect d' l = g l)) \<and> sect d' = sect d" using d by auto
    from healthyD(3) [OF assms(1) conjunct1 [OF d] n(1,2) sub [OF n(3)] n(4)]
    show "\<exists>d'. drv_write drv lba n buf d = (Ok (), d') \<and> (ok d' \<and> (\<forall>l. \<not> inside sub l 1 \<longrightarrow> sect d' l = g l)) \<and>
         sect d' = put_sectors lba n buf (sect d)" using d out [OF n(3)] by auto
  qed
qed

section \<open>A driver for a disk in memory\<close>

text \<open>Shows that a healthy driver exists; the witnesses run on it.\<close>

definition ram_driver :: "nat \<Rightarrow> (nat \<Rightarrow> byte list) driver" where
  "ram_driver cap =
     \<lparr>drv_name = ''ram'',
      drv_read = (\<lambda>lba n buf d. (Ok (), sectors_at d lba n @ drop (n * SECTOR_SIZE) buf, d)),
      drv_write = (\<lambda>lba n buf d. (Ok (), put_sectors lba n buf d)),
      drv_sectors = (\<lambda>_. cap)\<rparr>"

lemma ram_healthy: "healthy (ram_driver cap) (\<lambda>d. \<forall>l. length (d l) = SECTOR_SIZE) (\<lambda>d. d) reg"
  by (simp add: healthy_def ram_driver_def length_put_sectors)

end
