(* ===== verification/Tcmkfs.thy ===== *)
theory Tcmkfs imports Block begin

text \<open>
  The file system of the kernel, \<^verbatim>\<open>kernel/src/level0a/core/tcmkfs.rs\<close>: data and operations.

  \<open>fs\<close> holds the statics of the file and the block layer it calls.  Numbers are \<open>nat\<close>s, a \<open>u32\<close>
  sum wrapped with \<open>w32\<close>; names and paths are lists of bytes.  The inode table is kept as records
  and encoded to bytes where the code writes the memory of its \<open>repr(C)\<close> array to the disk.  The
  time of day (\<open>rtc::unix_time\<close>) and the partition found at boot are arguments.  An index out of
  the bounds of an array is \<open>Panic\<close>.
\<close>

section \<open>Constants and errors\<close>

abbreviation (input) MAGIC :: nat where "MAGIC \<equiv> 0x4B4D4354"
abbreviation (input) VERSION :: nat where "VERSION \<equiv> 2"
abbreviation (input) BLOCK_SIZE :: nat where "BLOCK_SIZE \<equiv> 4096"
abbreviation (input) SECTORS_PER_BLOCK :: nat where "SECTORS_PER_BLOCK \<equiv> 8"
abbreviation (input) MAX_INODES :: nat where "MAX_INODES \<equiv> 64"
abbreviation (input) INODE_SIZE :: nat where "INODE_SIZE \<equiv> 256"
abbreviation (input) INODE_TABLE_SECTOR :: nat where "INODE_TABLE_SECTOR \<equiv> 1"
abbreviation (input) BITMAP_SECTOR :: nat where "BITMAP_SECTOR \<equiv> 33"
abbreviation (input) BITMAP_SECTORS :: nat where "BITMAP_SECTORS \<equiv> 4"
abbreviation (input) MAX_BLOCKS :: nat where "MAX_BLOCKS \<equiv> 16384"
abbreviation (input) DATA_START_SECTOR :: nat where "DATA_START_SECTOR \<equiv> 4096"
abbreviation (input) DIRECT_BLOCKS :: nat where "DIRECT_BLOCKS \<equiv> 40"
abbreviation (input) MAX_FILE_SIZE :: nat where "MAX_FILE_SIZE \<equiv> 163840"
abbreviation (input) MAX_NAME :: nat where "MAX_NAME \<equiv> 64"
abbreviation (input) KIND_FREE :: nat where "KIND_FREE \<equiv> 0"
abbreviation (input) KIND_FILE :: nat where "KIND_FILE \<equiv> 1"
abbreviation (input) KIND_DIR :: nat where "KIND_DIR \<equiv> 2"
abbreviation (input) ROOT_INODE :: nat where "ROOT_INODE \<equiv> 0"
abbreviation (input) MAX_DEPTH :: nat where "MAX_DEPTH \<equiv> 8"
abbreviation (input) PATH_MAX :: nat where "PATH_MAX \<equiv> 521"
abbreviation (input) SLASH :: byte where "SLASH \<equiv> 47"
abbreviation (input) DOT :: byte where "DOT \<equiv> 46"

datatype fs_error =
  FsNoDevice | NoPartition | NotFormatted | NotMounted | Io | Full | TooManyFiles | NameTooLong
  | FileTooLarge | NotFound | Exists | BadVersion | BadPath | NotEmpty | TooDeep

text \<open>The operator \<open>?\<close>, on a result and the state it leaves.\<close>

definition and_then ::
  "('e, 'a) outcome \<times> 's \<Rightarrow> ('a \<Rightarrow> 's \<Rightarrow> ('e, 'b) outcome \<times> 's) \<Rightarrow> ('e, 'b) outcome \<times> 's" where
  "and_then r k = (case r of (Ok x, s) \<Rightarrow> k x s | (Err e, s) \<Rightarrow> (Err e, s) | (Panic, s) \<Rightarrow> (Panic, s))"

lemma and_then_simps [simp]:
  "and_then (Ok x, s) k = k x s" "and_then (Err e, s) k = (Err e, s)" "and_then (Panic, s) k = (Panic, s)"
  by (simp_all add: and_then_def)

lemma and_then_Ok:
  "and_then r k = (Ok y, s') \<Longrightarrow> \<exists>x s. r = (Ok x, s) \<and> k x s = (Ok y, s')"
  by (auto simp: and_then_def split: outcome.splits prod.splits)

fun io_result :: "(block_error, unit) outcome \<Rightarrow> (fs_error, unit) outcome" where
  "io_result (Ok x) = Ok ()"
| "io_result (Err e) = Err Io"
| "io_result Panic = Panic"

section \<open>On-disk structures\<close>

record super_block =
  sb_magic :: nat
  sb_version :: nat
  sb_total_blocks :: nat
  sb_free_blocks :: nat
  sb_inode_count :: nat
  sb_file_count :: nat
  sb_block_size :: nat
  sb_data_start :: nat
  sb_label :: "byte list"

record inode =
  i_kind :: nat
  i_size :: nat
  i_mtime :: nat
  i_flags :: nat
  i_parent :: nat
  i_name :: "byte list"
  i_blocks :: "nat list"
  i_pad :: "byte list"

definition inode_empty :: inode where
  "inode_empty =
     \<lparr>i_kind = KIND_FREE, i_size = 0, i_mtime = 0, i_flags = 0, i_parent = 0,
      i_name = replicate MAX_NAME 0, i_blocks = replicate DIRECT_BLOCKS 0, i_pad = replicate 12 0\<rparr>"

text \<open>Little-endian words of 32 bits.\<close>

definition le32 :: "nat \<Rightarrow> byte list" where
  "le32 n = map (\<lambda>k. of_nat (n div 256 ^ k)) [0, 1, 2, 3]"

definition rd32 :: "byte list \<Rightarrow> nat \<Rightarrow> nat" where
  "rd32 bs off =
     unat (bs ! off) + 256 * (unat (bs ! (off + 1)) + 256 * (unat (bs ! (off + 2)) + 256 * unat (bs ! (off + 3))))"

definition encode_inode :: "inode \<Rightarrow> byte list" where
  "encode_inode i =
     le32 (i_kind i) @ le32 (i_size i) @ le32 (i_mtime i) @ le32 (i_flags i) @ le32 (i_parent i) @
     i_name i @ concat (map le32 (i_blocks i)) @ i_pad i"

definition decode_inode :: "byte list \<Rightarrow> inode" where
  "decode_inode bs =
     \<lparr>i_kind = rd32 bs 0, i_size = rd32 bs 4, i_mtime = rd32 bs 8, i_flags = rd32 bs 12,
      i_parent = rd32 bs 16, i_name = take MAX_NAME (drop 20 bs),
      i_blocks = map (\<lambda>k. rd32 bs (84 + 4 * k)) [0..<DIRECT_BLOCKS], i_pad = take 12 (drop 244 bs)\<rparr>"

definition encode_super :: "super_block \<Rightarrow> byte list" where
  "encode_super sb =
     le32 (sb_magic sb) @ le32 (sb_version sb) @ le32 (sb_total_blocks sb) @ le32 (sb_free_blocks sb) @
     le32 (sb_inode_count sb) @ le32 (sb_file_count sb) @ le32 (sb_block_size sb) @
     le32 (sb_data_start sb) @ sb_label sb"

definition decode_super :: "byte list \<Rightarrow> super_block" where
  "decode_super bs =
     \<lparr>sb_magic = rd32 bs 0, sb_version = rd32 bs 4, sb_total_blocks = rd32 bs 8,
      sb_free_blocks = rd32 bs 12, sb_inode_count = rd32 bs 16, sb_file_count = rd32 bs 20,
      sb_block_size = rd32 bs 24, sb_data_start = rd32 bs 28, sb_label = take 16 (drop 32 bs)\<rparr>"

section \<open>State\<close>

record 'd fs =
  fs_inodes :: "inode list"
  fs_bitmap :: "byte list"
  fs_scratch :: "byte list"
  fs_mounted :: bool
  fs_lba :: nat
  fs_total :: nat
  fs_free :: nat
  fs_writes :: nat
  fs_blk :: "'d block"

definition fs_init :: "'d block \<Rightarrow> 'd fs" where
  "fs_init blk =
     \<lparr>fs_inodes = replicate MAX_INODES inode_empty, fs_bitmap = replicate 2048 0,
      fs_scratch = replicate BLOCK_SIZE 0, fs_mounted = False, fs_lba = 0, fs_total = 0,
      fs_free = 0, fs_writes = 0, fs_blk = blk\<rparr>"

definition capacity_blocks :: "nat \<Rightarrow> nat" where
  "capacity_blocks partition_sectors =
     (if partition_sectors \<le> DATA_START_SECTOR then 0
      else min ((partition_sectors - DATA_START_SECTOR) div SECTORS_PER_BLOCK) MAX_BLOCKS)"

section \<open>Raw sector transfers\<close>

definition fs_read_sectors ::
  "nat \<Rightarrow> nat \<Rightarrow> byte list \<Rightarrow> 'd fs \<Rightarrow> (fs_error, unit) outcome \<times> byte list \<times> 'd fs" where
  "fs_read_sectors lba n buf s =
     (case block_read lba n buf (fs_blk s) of (r, buf', blk) \<Rightarrow> (io_result r, buf', s\<lparr>fs_blk := blk\<rparr>))"

definition fs_write_sectors ::
  "nat \<Rightarrow> nat \<Rightarrow> byte list \<Rightarrow> 'd fs \<Rightarrow> (fs_error, unit) outcome \<times> 'd fs" where
  "fs_write_sectors lba n buf s =
     (case block_write lba n buf (fs_blk s) of (r, blk) \<Rightarrow> (io_result r, s\<lparr>fs_blk := blk\<rparr>))"

definition read_super :: "'d fs \<Rightarrow> (fs_error, super_block) outcome \<times> 'd fs" where
  "read_super s =
     (case fs_read_sectors (fs_lba s) 1 (replicate SECTOR_SIZE 0) s of
        (Ok _, sector, s) \<Rightarrow> (Ok (decode_super sector), s)
      | (Err e, _, s) \<Rightarrow> (Err e, s)
      | (Panic, _, s) \<Rightarrow> (Panic, s))"

definition write_super :: "super_block \<Rightarrow> 'd fs \<Rightarrow> (fs_error, unit) outcome \<times> 'd fs" where
  "write_super sb s =
     fs_write_sectors (fs_lba s) 1
       (encode_super sb @ drop (length (encode_super sb)) (replicate SECTOR_SIZE 0)) s"

text \<open>The inode table goes to and from the disk in four chunks of eight sectors.\<close>

definition inode_bytes :: "inode list \<Rightarrow> byte list" where
  "inode_bytes is = concat (map encode_inode is)"

fun flush_inode_chunks :: "nat list \<Rightarrow> 'd fs \<Rightarrow> (fs_error, unit) outcome \<times> 'd fs" where
  "flush_inode_chunks [] s = (Ok (), s)"
| "flush_inode_chunks (chunk # cs) s =
     and_then (fs_write_sectors (w32 (fs_lba s + INODE_TABLE_SECTOR + chunk * 8)) 8
                 (take (8 * SECTOR_SIZE) (drop (chunk * 8 * SECTOR_SIZE) (inode_bytes (fs_inodes s)))) s)
       (\<lambda>_. flush_inode_chunks cs)"

definition flush_inodes :: "'d fs \<Rightarrow> (fs_error, unit) outcome \<times> 'd fs" where
  "flush_inodes s = flush_inode_chunks [0..<4] s"

definition put_inode_chunk :: "nat \<Rightarrow> byte list \<Rightarrow> inode list \<Rightarrow> inode list" where
  "put_inode_chunk chunk buf is =
     take (16 * chunk) is @ map (\<lambda>k. decode_inode (take INODE_SIZE (drop (INODE_SIZE * k) buf))) [0..<16]
       @ drop (16 * chunk + 16) is"

fun load_inode_chunks :: "nat list \<Rightarrow> 'd fs \<Rightarrow> (fs_error, unit) outcome \<times> 'd fs" where
  "load_inode_chunks [] s = (Ok (), s)"
| "load_inode_chunks (chunk # cs) s =
     (case fs_read_sectors (w32 (fs_lba s + INODE_TABLE_SECTOR + chunk * 8)) 8
             (take (8 * SECTOR_SIZE) (drop (chunk * 8 * SECTOR_SIZE) (inode_bytes (fs_inodes s)))) s of
        (r, buf, s) \<Rightarrow>
          and_then (r, s\<lparr>fs_inodes := put_inode_chunk chunk buf (fs_inodes s)\<rparr>) (\<lambda>_. load_inode_chunks cs))"

definition load_inodes :: "'d fs \<Rightarrow> (fs_error, unit) outcome \<times> 'd fs" where
  "load_inodes s = load_inode_chunks [0..<4] s"

definition flush_bitmap :: "'d fs \<Rightarrow> (fs_error, unit) outcome \<times> 'd fs" where
  "flush_bitmap s = fs_write_sectors (w32 (fs_lba s + BITMAP_SECTOR)) BITMAP_SECTORS (fs_bitmap s) s"

definition load_bitmap :: "'d fs \<Rightarrow> (fs_error, unit) outcome \<times> 'd fs" where
  "load_bitmap s =
     (case fs_read_sectors (w32 (fs_lba s + BITMAP_SECTOR)) BITMAP_SECTORS (fs_bitmap s) s of
        (r, buf, s) \<Rightarrow> (r, s\<lparr>fs_bitmap := buf\<rparr>))"

definition block_lba :: "'d fs \<Rightarrow> nat \<Rightarrow> nat" where
  "block_lba s index = w32 (fs_lba s + DATA_START_SECTOR + index * SECTORS_PER_BLOCK)"

definition read_block :: "nat \<Rightarrow> 'd fs \<Rightarrow> (fs_error, unit) outcome \<times> 'd fs" where
  \<comment> \<open>the callers pass \<open>SCRATCH\<close> as the buffer\<close>
  "read_block index s =
     (case fs_read_sectors (block_lba s index) SECTORS_PER_BLOCK (fs_scratch s) s of
        (r, buf, s) \<Rightarrow> (r, s\<lparr>fs_scratch := buf\<rparr>))"

definition write_block :: "nat \<Rightarrow> 'd fs \<Rightarrow> (fs_error, unit) outcome \<times> 'd fs" where
  "write_block index s =
     (let s = s\<lparr>fs_writes := w32 (fs_writes s + 1)\<rparr> in
      fs_write_sectors (block_lba s index) SECTORS_PER_BLOCK (fs_scratch s) s)"

section \<open>The block bitmap\<close>

definition bit_get :: "'d fs \<Rightarrow> nat \<Rightarrow> bool" where
  "bit_get s index = bm_get (fs_bitmap s) index"

definition bit_set :: "nat \<Rightarrow> bool \<Rightarrow> 'd fs \<Rightarrow> 'd fs" where
  "bit_set index value s = s\<lparr>fs_bitmap := bm_set (fs_bitmap s) index value\<rparr>"

definition alloc_block :: "'d fs \<Rightarrow> (nat \<times> 'd fs) option" where
  "alloc_block s =
     (case find_slot (\<lambda>i. \<not> bit_get s i) 0 (fs_total s) of
        None \<Rightarrow> None
      | Some i \<Rightarrow> Some (i, (bit_set i True s)\<lparr>fs_free := wsub 32 (fs_free s) 1\<rparr>))"

definition free_block :: "nat \<Rightarrow> 'd fs \<Rightarrow> (fs_error, unit) outcome \<times> 'd fs" where
  \<comment> \<open>a block number beyond the bitmap is a raw access outside it\<close>
  "free_block index s =
     (if \<not> index < 8 * length (fs_bitmap s) then (Panic, s)
      else if bit_get s index
      then (Ok (), (bit_set index False s)\<lparr>fs_free := w32 (fs_free s + 1)\<rparr>)
      else (Ok (), s))"

section \<open>Names and paths\<close>

definition inode_ref :: "'d fs \<Rightarrow> nat \<Rightarrow> inode option" where
  "inode_ref s index = (if index \<ge> MAX_INODES then None else Some (fs_inodes s ! index))"

definition upd_inode :: "nat \<Rightarrow> (inode \<Rightarrow> inode) \<Rightarrow> 'd fs \<Rightarrow> 'd fs" where
  "upd_inode index f s = s\<lparr>fs_inodes := (fs_inodes s)[index := f (fs_inodes s ! index)]\<rparr>"

text \<open>\<open>str::from_utf8\<close> accepts exactly the sequences of the Unicode standard's table 3-7.\<close>

definition cont_byte :: "byte \<Rightarrow> bool" where
  "cont_byte b \<longleftrightarrow> 0x80 \<le> b \<and> b \<le> 0xBF"

fun utf8_valid :: "byte list \<Rightarrow> bool" where
  "utf8_valid [] = True"
| "utf8_valid (a # r) =
     (if a < 0x80 then utf8_valid r
      else case r of [] \<Rightarrow> False | b # r \<Rightarrow>
        if 0xC2 \<le> a \<and> a \<le> 0xDF then cont_byte b \<and> utf8_valid r
        else case r of [] \<Rightarrow> False | c # r \<Rightarrow>
          if 0xE0 \<le> a \<and> a \<le> 0xEF
          then cont_byte b \<and> cont_byte c \<and> (a = 0xE0 \<longrightarrow> 0xA0 \<le> b) \<and> (a = 0xED \<longrightarrow> b \<le> 0x9F) \<and> utf8_valid r
          else case r of [] \<Rightarrow> False | d # r \<Rightarrow>
            0xF0 \<le> a \<and> a \<le> 0xF4 \<and> cont_byte b \<and> cont_byte c \<and> cont_byte d \<and>
            (a = 0xF0 \<longrightarrow> 0x90 \<le> b) \<and> (a = 0xF4 \<longrightarrow> b \<le> 0x8F) \<and> utf8_valid r)"

definition name_of :: "inode \<Rightarrow> byte list" where
  "name_of i = (let n = takeWhile (\<lambda>b. b \<noteq> 0) (i_name i) in if utf8_valid n then n else [])"

definition entry_mtime :: "'d fs \<Rightarrow> nat \<Rightarrow> nat option" where
  "entry_mtime s index =
     (case inode_ref s index of None \<Rightarrow> None
      | Some i \<Rightarrow> if i_kind i \<noteq> KIND_FILE then None else Some (i_mtime i))"

definition entry_size :: "'d fs \<Rightarrow> nat \<Rightarrow> nat option" where
  "entry_size s index =
     (case inode_ref s index of None \<Rightarrow> None
      | Some i \<Rightarrow> if i_kind i \<noteq> KIND_FILE then None else Some (i_size i))"

definition parent_of :: "'d fs \<Rightarrow> nat \<Rightarrow> nat option" where
  "parent_of s index =
     (case inode_ref s index of None \<Rightarrow> None
      | Some i \<Rightarrow> if i_kind i = KIND_FREE then None else Some (i_parent i))"

definition entry_kind :: "'d fs \<Rightarrow> nat \<Rightarrow> nat option" where
  "entry_kind s index =
     (case inode_ref s index of None \<Rightarrow> None
      | Some i \<Rightarrow> if i_kind i = KIND_FREE then None else Some (i_kind i))"

definition child_of :: "'d fs \<Rightarrow> nat \<Rightarrow> byte list \<Rightarrow> nat option" where
  "child_of s parent name =
     (if name = [] then Some parent
      else find_slot (\<lambda>i. let n = fs_inodes s ! i in
             i_kind n \<noteq> KIND_FREE \<and> i_parent n = parent \<and> i \<noteq> ROOT_INODE \<and> name_of n = name)
           0 MAX_INODES)"

text \<open>\<open>path.split('/')\<close>\<close>

fun split_slash :: "byte list \<Rightarrow> byte list list" where
  "split_slash [] = [[]]"
| "split_slash (b # bs) =
     (if b = SLASH then [] # split_slash bs
      else case split_slash bs of p # ps \<Rightarrow> (b # p) # ps | [] \<Rightarrow> [[b]])"

fun resolve_parts :: "'d fs \<Rightarrow> byte list list \<Rightarrow> nat \<Rightarrow> nat \<Rightarrow> nat option" where
  "resolve_parts s [] current depth = Some current"
| "resolve_parts s (part # ps) current depth =
     (if part = [] \<or> part = [DOT] then resolve_parts s ps current depth
      else if depth + 1 > MAX_DEPTH then None
      else case inode_ref s current of None \<Rightarrow> None | Some i \<Rightarrow>
        if i_kind i \<noteq> KIND_DIR then None
        else case child_of s current part of None \<Rightarrow> None
             | Some c \<Rightarrow> resolve_parts s ps c (depth + 1))"

definition resolve :: "'d fs \<Rightarrow> byte list \<Rightarrow> nat option" where
  "resolve s path = resolve_parts s (split_slash path) ROOT_INODE 0"

definition lookup :: "'d fs \<Rightarrow> byte list \<Rightarrow> nat option" where
  "lookup s path =
     (case resolve s path of None \<Rightarrow> None
      | Some index \<Rightarrow> (case inode_ref s index of None \<Rightarrow> None
                       | Some i \<Rightarrow> if i_kind i = KIND_FILE then Some index else None))"

text \<open>\<open>trim_end_matches('/')\<close>, and the parts before and after the last slash.\<close>

definition trim_end :: "byte list \<Rightarrow> byte list" where
  "trim_end p = rev (dropWhile (\<lambda>b. b = SLASH) (rev p))"

definition split_last :: "byte list \<Rightarrow> byte list \<times> byte list" where
  "split_last p =
     (let leaf = rev (takeWhile (\<lambda>b. b \<noteq> SLASH) (rev p)) in
      (take (length p - length leaf - 1) p, leaf))"

definition split_parent :: "'d fs \<Rightarrow> byte list \<Rightarrow> (fs_error, nat \<times> byte list) outcome" where
  "split_parent s path =
     (let trimmed = trim_end path; (dir, leaf) = split_last trimmed in
      if leaf = [] \<or> length leaf \<ge> MAX_NAME then Err NameTooLong
      else if length (filter (\<lambda>p. p \<noteq> [] \<and> p \<noteq> [DOT]) (split_slash trimmed)) > MAX_DEPTH then Err TooDeep
      else case resolve s (if dir = [] then [SLASH] else dir) of
             None \<Rightarrow> Err BadPath
           | Some parent \<Rightarrow>
               (case inode_ref s parent of None \<Rightarrow> Err BadPath
                | Some i \<Rightarrow> if i_kind i \<noteq> KIND_DIR then Err BadPath else Ok (parent, leaf)))"

text \<open>The chain from an inode up to the root, the inode first.\<close>

fun parent_chain :: "'d fs \<Rightarrow> nat \<Rightarrow> nat \<Rightarrow> nat list option" where
  "parent_chain s 0 current = (if current = ROOT_INODE then Some [] else None)"
| "parent_chain s (Suc left) current =
     (if current = ROOT_INODE then Some []
      else case inode_ref s current of None \<Rightarrow> None | Some i \<Rightarrow>
        if i_parent i = current then None
        else map_option (\<lambda>c. current # c) (parent_chain s left (i_parent i)))"

fun join_names :: "'d fs \<Rightarrow> nat list \<Rightarrow> byte list \<Rightarrow> byte list option" where
  "join_names s [] acc = Some acc"
| "join_names s (i # is) acc =
     (case inode_ref s i of None \<Rightarrow> None | Some n \<Rightarrow>
        if length acc + 1 + length (name_of n) \<ge> PATH_MAX then None
        else join_names s is (acc @ SLASH # name_of n))"

definition path_of :: "'d fs \<Rightarrow> nat \<Rightarrow> byte list option" where
  "path_of s index =
     (if index = ROOT_INODE then Some [SLASH]
      else case parent_chain s MAX_DEPTH index of None \<Rightarrow> None
           | Some chain \<Rightarrow>
               (case join_names s (rev chain) [] of None \<Rightarrow> None
                | Some p \<Rightarrow> if utf8_valid p then Some p else None))"

section \<open>Directories and files\<close>

definition allocate_inode ::
  "nat \<Rightarrow> nat \<Rightarrow> byte list \<Rightarrow> nat \<Rightarrow> 'd fs \<Rightarrow> (fs_error, nat) outcome \<times> 'd fs" where
  \<comment> \<open>the callers have checked that the name is shorter than \<open>MAX_NAME\<close>; a longer one is an index
      out of bounds\<close>
  "allocate_inode now parent name kind s =
     (case find_slot (\<lambda>i. i_kind (fs_inodes s ! i) = KIND_FREE \<and> i \<noteq> ROOT_INODE) 0 MAX_INODES of
        None \<Rightarrow> (Err TooManyFiles, s)
      | Some i \<Rightarrow>
          if length name > MAX_NAME then (Panic, s)
          else (Ok i, upd_inode i (\<lambda>_. inode_empty\<lparr>i_kind := kind, i_parent := w32 parent, i_mtime := now,
                       i_name := name @ drop (length name) (i_name inode_empty)\<rparr>) s))"

definition make_entry ::
  "nat \<Rightarrow> nat \<Rightarrow> byte list \<Rightarrow> 'd fs \<Rightarrow> (fs_error, nat) outcome \<times> 'd fs" where
  \<comment> \<open>the common body of \<open>mkdir\<close> and \<open>create\<close>\<close>
  "make_entry now kind path s =
     (if \<not> fs_mounted s then (Err NotMounted, s)
      else if resolve s path \<noteq> None then (Err Exists, s)
      else and_then (split_parent s path, s) (\<lambda>(parent, leaf) s.
           and_then (allocate_inode now parent leaf kind s) (\<lambda>index s.
           and_then (flush_inodes s) (\<lambda>_ s. (Ok index, s)))))"

definition mkdir :: "nat \<Rightarrow> byte list \<Rightarrow> 'd fs \<Rightarrow> (fs_error, nat) outcome \<times> 'd fs" where
  "mkdir now path s = make_entry now KIND_DIR path s"

definition create :: "nat \<Rightarrow> byte list \<Rightarrow> 'd fs \<Rightarrow> (fs_error, nat) outcome \<times> 'd fs" where
  "create now path s = make_entry now KIND_FILE path s"

definition has_entries :: "'d fs \<Rightarrow> nat \<Rightarrow> bool" where
  "has_entries s index =
     (\<exists>i\<in>set [0..<MAX_INODES]. (i_kind (fs_inodes s ! i) \<noteq> KIND_FREE \<and> i_parent (fs_inodes s ! i) = index) \<and> i \<noteq> index)"

definition rmdir :: "byte list \<Rightarrow> 'd fs \<Rightarrow> (fs_error, unit) outcome \<times> 'd fs" where
  "rmdir path s =
     (if \<not> fs_mounted s then (Err NotMounted, s)
      else case resolve s path of None \<Rightarrow> (Err NotFound, s)
      | Some index \<Rightarrow>
          if index = ROOT_INODE then (Err BadPath, s)
          else case inode_ref s index of None \<Rightarrow> (Err NotFound, s)
          | Some i \<Rightarrow>
              if i_kind i \<noteq> KIND_DIR then (Err NotFound, s)
              else if has_entries s index then (Err NotEmpty, s)
              else flush_inodes (upd_inode index (\<lambda>_. inode_empty) s))"

definition file_count :: "'d fs \<Rightarrow> nat" where
  "file_count s = length (filter (\<lambda>i. i_kind (fs_inodes s ! i) = KIND_FILE) [0..<MAX_INODES])"

definition block_count :: "nat \<Rightarrow> nat" where
  "block_count n = (n + BLOCK_SIZE - 1) div BLOCK_SIZE"

function free_blocks_from :: "nat list \<Rightarrow> nat \<Rightarrow> nat \<Rightarrow> 'd fs \<Rightarrow> (fs_error, unit) outcome \<times> 'd fs" where
  "free_blocks_from bs i used s =
     (if i < used then
        (if \<not> i < length bs then (Panic, s)
         else and_then (free_block (bs ! i) s) (\<lambda>_. free_blocks_from bs (Suc i) used))
      else (Ok (), s))"
  by pat_completeness auto
termination by (relation "measure (\<lambda>(bs, i, used, s). used - i)") auto

declare free_blocks_from.simps [simp del]

definition remove :: "nat \<Rightarrow> 'd fs \<Rightarrow> (fs_error, unit) outcome \<times> 'd fs" where
  "remove index s =
     (if \<not> fs_mounted s then (Err NotMounted, s)
      else case inode_ref s index of None \<Rightarrow> (Err NotFound, s)
      | Some inode \<Rightarrow>
          if i_kind inode \<noteq> KIND_FILE then (Err NotFound, s)
          else and_then (free_blocks_from (i_blocks inode) 0 (block_count (i_size inode)) s) (\<lambda>_ s.
               and_then (flush_inodes (upd_inode index (\<lambda>_. inode_empty) s)) (\<lambda>_. flush_bitmap)))"

section \<open>Reading and writing\<close>

text \<open>One turn of the loops moves \<open>chunk\<close> bytes of the block that holds \<open>position\<close>.\<close>

definition chunk_at :: "nat \<Rightarrow> nat \<Rightarrow> nat" where
  "chunk_at position left = min (BLOCK_SIZE - position mod BLOCK_SIZE) left"

lemma chunk_at_bounds:
  "0 < left \<Longrightarrow> 0 < chunk_at p left" "chunk_at p left \<le> left" "p mod BLOCK_SIZE + chunk_at p left \<le> BLOCK_SIZE"
proof -
  have m: "p mod BLOCK_SIZE < BLOCK_SIZE" by (rule mod_less_divisor) simp
  show "0 < left \<Longrightarrow> 0 < chunk_at p left" unfolding chunk_at_def using m by linarith
  show "chunk_at p left \<le> left" unfolding chunk_at_def by linarith
  show "p mod BLOCK_SIZE + chunk_at p left \<le> BLOCK_SIZE" unfolding chunk_at_def using m by linarith
qed

lemma chunk_progress: "d < n \<Longrightarrow> n - (d + chunk_at p (n - d)) < n - d"
  using chunk_at_bounds(1) [of "n - d" p] by linarith

function read_loop ::
  "inode \<Rightarrow> nat \<Rightarrow> nat \<Rightarrow> nat \<Rightarrow> byte list \<Rightarrow> 'd fs \<Rightarrow> (fs_error, nat) outcome \<times> byte list \<times> 'd fs" where
  "read_loop inode offset to_read done buf s =
     (if done < to_read then
        let position = offset + done; chunk = chunk_at position (to_read - done);
            in_block = position mod BLOCK_SIZE in
        if \<not> position div BLOCK_SIZE < length (i_blocks inode) then (Panic, buf, s)
        else case read_block (i_blocks inode ! (position div BLOCK_SIZE)) s of
          (Ok _, s) \<Rightarrow>
            read_loop inode offset to_read (done + chunk)
              (take done buf @ take chunk (drop in_block (fs_scratch s)) @ drop (done + chunk) buf) s
        | (Err e, s) \<Rightarrow> (Err e, buf, s)
        | (Panic, s) \<Rightarrow> (Panic, buf, s)
      else (Ok done, buf, s))"
  by pat_completeness auto
termination
  by (relation "measure (\<lambda>(inode, offset, to_read, done, buf, s). to_read - done)")
     (simp_all only: wf_measure in_measure split_conv chunk_progress)

declare read_loop.simps [simp del]

definition fs_read ::
  "nat \<Rightarrow> nat \<Rightarrow> byte list \<Rightarrow> 'd fs \<Rightarrow> (fs_error, nat) outcome \<times> byte list \<times> 'd fs" where
  "fs_read index offset buf s =
     (if \<not> fs_mounted s then (Err NotMounted, buf, s)
      else case inode_ref s index of None \<Rightarrow> (Err NotFound, buf, s)
      | Some inode \<Rightarrow>
          if i_kind inode \<noteq> KIND_FILE then (Err NotFound, buf, s)
          else let sz = i_size inode in
          if offset \<ge> sz then (Ok 0, buf, s)
          else read_loop inode offset (min (sz - offset) (length buf)) 0 buf s)"

definition set_block :: "nat \<Rightarrow> nat \<Rightarrow> nat \<Rightarrow> 'd fs \<Rightarrow> 'd fs" where
  "set_block index k b = upd_inode index (\<lambda>n. n\<lparr>i_blocks := (i_blocks n)[k := b]\<rparr>)"

function rollback :: "nat \<Rightarrow> nat \<Rightarrow> nat \<Rightarrow> 'd fs \<Rightarrow> (fs_error, unit) outcome \<times> 'd fs" where
  "rollback index j i s =
     (if j < i then
        (if \<not> j < length (i_blocks (fs_inodes s ! index)) then (Panic, s)
         else and_then (free_block (i_blocks (fs_inodes s ! index) ! j) s)
                (\<lambda>_ s. rollback index (Suc j) i (set_block index j 0 s)))
      else (Ok (), s))"
  by pat_completeness auto
termination by (relation "measure (\<lambda>(index, j, i, s). i - j)") auto

declare rollback.simps [simp del]

function write_alloc :: "nat \<Rightarrow> nat \<Rightarrow> nat \<Rightarrow> nat \<Rightarrow> 'd fs \<Rightarrow> (fs_error, unit) outcome \<times> 'd fs" where
  "write_alloc index have_n i needed s =
     (if i < needed then
        (case alloc_block s of
           Some (block, s) \<Rightarrow>
             if \<not> i < length (i_blocks (fs_inodes s ! index)) then (Panic, s)
             else write_alloc index have_n (Suc i) needed (set_block index i block s)
         | None \<Rightarrow> and_then (rollback index have_n i s) (\<lambda>_ s. (Err Full, s)))
      else (Ok (), s))"
  by pat_completeness auto
termination by (relation "measure (\<lambda>(index, have_n, i, needed, s). needed - i)") auto

declare write_alloc.simps [simp del]

text \<open>
  The scratch block before the new bytes go in: read from the disk for a partial write of a block
  the file had, zero for a partial write of a new one.
\<close>

definition load_scratch :: "nat \<Rightarrow> nat \<Rightarrow> nat \<Rightarrow> nat \<Rightarrow> 'd fs \<Rightarrow> (fs_error, unit) outcome \<times> 'd fs" where
  "load_scratch index have_n block_index chunk s =
     (if chunk < BLOCK_SIZE then
        if block_index < have_n then
          (if \<not> block_index < length (i_blocks (fs_inodes s ! index)) then (Panic, s)
           else read_block (i_blocks (fs_inodes s ! index) ! block_index) s)
        else (Ok (), s\<lparr>fs_scratch := replicate BLOCK_SIZE 0\<rparr>)
      else (Ok (), s))"

function write_loop ::
  "nat \<Rightarrow> nat \<Rightarrow> nat \<Rightarrow> byte list \<Rightarrow> nat \<Rightarrow> 'd fs \<Rightarrow> (fs_error, nat) outcome \<times> 'd fs" where
  "write_loop index offset have_n data done s =
     (if done < length data then
        let position = (offset + done) mod 2 ^ 64; chunk = chunk_at position (length data - done);
            in_block = position mod BLOCK_SIZE; block_index = position div BLOCK_SIZE in
        and_then (load_scratch index have_n block_index chunk s) (\<lambda>_ s.
          let s = s\<lparr>fs_scratch := take in_block (fs_scratch s) @ take chunk (drop done data)
                                   @ drop (in_block + chunk) (fs_scratch s)\<rparr> in
          if \<not> block_index < length (i_blocks (fs_inodes s ! index)) then (Panic, s)
          else and_then (write_block (i_blocks (fs_inodes s ! index) ! block_index) s)
                 (\<lambda>_. write_loop index offset have_n data (done + chunk)))
      else (Ok done, s))"
  by pat_completeness auto
termination
  by (relation "measure (\<lambda>(index, offset, have_n, data, done, s). length data - done)")
     (simp_all only: wf_measure in_measure split_conv chunk_progress)

declare write_loop.simps [simp del]

definition fs_write ::
  "nat \<Rightarrow> nat \<Rightarrow> nat \<Rightarrow> byte list \<Rightarrow> 'd fs \<Rightarrow> (fs_error, nat) outcome \<times> 'd fs" where
  "fs_write now index offset data s =
     (if \<not> fs_mounted s then (Err NotMounted, s)
      else case inode_ref s index of None \<Rightarrow> (Err NotFound, s)
      | Some inode \<Rightarrow>
          if i_kind inode \<noteq> KIND_FILE then (Err NotFound, s)
          else let end_pos = (offset + length data) mod 2 ^ 64 in
          if end_pos > MAX_FILE_SIZE then (Err FileTooLarge, s)
          else let have_n = block_count (i_size inode) in
            and_then (write_alloc index have_n have_n (block_count end_pos) s) (\<lambda>_ s.
            and_then (write_loop index offset have_n data 0 s) (\<lambda>done_n s.
              let s = upd_inode index (\<lambda>n. n\<lparr>i_size := (if end_pos > i_size n then end_pos else i_size n),
                                            i_mtime := now\<rparr>) s in
            and_then (flush_inodes s) (\<lambda>_ s.
            and_then (flush_bitmap s) (\<lambda>_ s. (Ok done_n, s))))))"

definition write_all :: "nat \<Rightarrow> byte list \<Rightarrow> byte list \<Rightarrow> 'd fs \<Rightarrow> (fs_error, nat) outcome \<times> 'd fs" where
  "write_all now name data s =
     and_then (case lookup s name of
                 Some i \<Rightarrow> and_then (remove i s) (\<lambda>_. create now name)
               | None \<Rightarrow> create now name s)
       (\<lambda>index. fs_write now index 0 data)"

section \<open>Formatting and mounting\<close>

definition format_label :: "byte list \<Rightarrow> byte list" where
  "format_label label = take 15 label @ replicate (16 - length (take 15 label)) 0"

fun make_dirs :: "nat \<Rightarrow> byte list list \<Rightarrow> 'd fs \<Rightarrow> (fs_error, unit) outcome \<times> 'd fs" where
  "make_dirs now [] s = (Ok (), s)"
| "make_dirs now (d # ds) s = and_then (mkdir now d s) (\<lambda>_. make_dirs now ds)"

definition skeleton_dirs :: "byte list list" where
  "skeleton_dirs = [map (of_nat \<circ> of_char) ''/home'', map (of_nat \<circ> of_char) ''/tmp'']"

definition format_disk ::
  "nat \<Rightarrow> (nat \<times> nat) option \<Rightarrow> byte list \<Rightarrow> 'd fs \<Rightarrow> (fs_error, unit) outcome \<times> 'd fs" where
  "format_disk now part label s =
     (case part of None \<Rightarrow> (Err NoPartition, s)
      | Some (lba, sectors) \<Rightarrow>
          if \<not> block_available (fs_blk s) then (Err FsNoDevice, s)
          else let total = capacity_blocks sectors;
                   s = s\<lparr>fs_lba := lba, fs_total := total, fs_free := total,
                         fs_inodes := replicate MAX_INODES inode_empty,
                         fs_bitmap := replicate 2048 0\<rparr>;
                   sb = \<lparr>sb_magic = MAGIC, sb_version = VERSION, sb_total_blocks = total,
                         sb_free_blocks = total, sb_inode_count = MAX_INODES, sb_file_count = 0,
                         sb_block_size = BLOCK_SIZE, sb_data_start = DATA_START_SECTOR,
                         sb_label = format_label label\<rparr>;
                   s = upd_inode ROOT_INODE (\<lambda>n. n\<lparr>i_kind := KIND_DIR, i_parent := ROOT_INODE, i_mtime := now\<rparr>) s in
            and_then (flush_inodes s) (\<lambda>_ s.
            and_then (flush_bitmap s) (\<lambda>_ s.
            and_then (write_super sb s) (\<lambda>_ s.
            make_dirs now skeleton_dirs (s\<lparr>fs_mounted := True\<rparr>)))))"

definition count_free :: "'d fs \<Rightarrow> nat \<Rightarrow> nat" where
  "count_free s n = length (filter (\<lambda>i. \<not> bit_get s i) [0..<n])"

definition mount :: "(nat \<times> nat) option \<Rightarrow> 'd fs \<Rightarrow> (fs_error, unit) outcome \<times> 'd fs" where
  "mount part s =
     (case part of None \<Rightarrow> (Err NoPartition, s)
      | Some (lba, sectors) \<Rightarrow>
          if \<not> block_available (fs_blk s) then (Err FsNoDevice, s)
          else and_then (read_super (s\<lparr>fs_lba := lba\<rparr>)) (\<lambda>sb s.
            if sb_magic sb \<noteq> MAGIC then (Err NotFormatted, s)
            else if sb_version sb \<noteq> VERSION then (Err BadVersion, s)
            else let total = min (sb_total_blocks sb) (capacity_blocks sectors) in
              and_then (load_inodes (s\<lparr>fs_total := total\<rparr>)) (\<lambda>_ s.
              and_then (load_bitmap s) (\<lambda>_ s.
                (Ok (), s\<lparr>fs_free := count_free s total, fs_mounted := True\<rparr>)))))"

definition fs_sync :: "'d fs \<Rightarrow> (fs_error, unit) outcome \<times> 'd fs" where
  "fs_sync s =
     (if \<not> fs_mounted s then (Err NotMounted, s)
      else and_then (flush_inodes s) (\<lambda>_ s.
           and_then (flush_bitmap s) (\<lambda>_ s.
           and_then (read_super s) (\<lambda>sb s.
             write_super (sb\<lparr>sb_free_blocks := fs_free s, sb_file_count := file_count s\<rparr>) s))))"

definition used_kib :: "'d fs \<Rightarrow> nat" where
  "used_kib s = w32 (wsub 32 (fs_total s) (fs_free s) * 4)"

definition total_kib :: "'d fs \<Rightarrow> nat" where
  "total_kib s = w32 (fs_total s * 4)"

end
