(* ===== verification/TcmkfsDisk.thy ===== *)
theory TcmkfsDisk imports Tcmkfs begin

text \<open>
  The file system of \<^verbatim>\<open>core/tcmkfs.rs\<close> on the disk: the encodings of inodes and superblock and
  their inverses, what the flushes leave on a healthy device, and mounting as the inverse of the
  flushes.
\<close>

section \<open>Encodings\<close>

lemma length_le32 [simp]: "length (le32 n) = 4"
  by (simp add: le32_def)

lemma rd32_drop: "off + 3 < length bs \<Longrightarrow> rd32 bs off = rd32 (drop off bs) 0"
  by (simp add: rd32_def)

lemma rd32_le32:
  assumes "n < 2 ^ 32"
  shows "rd32 (le32 n @ r) 0 = n"
proof -
  have b: "unat (of_nat m :: byte) = m mod 256" for m by (simp add: unat_of_nat)
  have "n div 256 ^ 3 < 256" using assms by (simp add: less_mult_imp_div_less)
  then have lt: "n div 16777216 < 256" by simp
  have top: "n div 16777216 = n div 256 div 256 div 256" and mid: "n div 65536 = n div 256 div 256"
    by (simp_all add: div_mult2_eq [symmetric])
  have e: "x mod 256 + 256 * (x div 256) = x" for x :: nat by simp
  have "rd32 (le32 n @ r) 0 =
        n mod 256 + 256 * (n div 256 mod 256 + 256 * (n div 65536 mod 256 + 256 * (n div 16777216)))"
    using lt by (simp add: rd32_def le32_def b)
  also have "\<dots> = n" by (simp only: top mid e)
  finally show ?thesis .
qed

lemma length_concat_le32 [simp]: "length (concat (map le32 xs)) = 4 * length xs"
  by (induction xs) simp_all

lemma rd32_concat:
  "k < length xs \<Longrightarrow> \<forall>x\<in>set xs. x < 2 ^ 32 \<Longrightarrow> rd32 (concat (map le32 xs) @ r) (4 * k) = xs ! k"
proof (induction xs arbitrary: k)
  case Nil
  then show ?case by simp
next
  case (Cons x xs)
  show ?case
  proof (cases k)
    case 0
    then show ?thesis using Cons.prems(2) by (simp add: rd32_le32)
  next
    case (Suc j)
    then have "rd32 (concat (map le32 (x # xs)) @ r) (4 * k) = rd32 (concat (map le32 xs) @ r) (4 * j)"
      using Cons.prems(1) by (subst (1 2) rd32_drop) simp_all
    then show ?thesis using Suc Cons by simp
  qed
qed

text \<open>What the code can have in memory: the fields fit, the arrays have their lengths.\<close>

definition inode_ok :: "inode \<Rightarrow> bool" where
  "inode_ok i \<longleftrightarrow>
     i_kind i < 2 ^ 32 \<and> i_size i < 2 ^ 32 \<and> i_mtime i < 2 ^ 32 \<and> i_flags i < 2 ^ 32 \<and> i_parent i < 2 ^ 32 \<and>
     length (i_name i) = MAX_NAME \<and> length (i_blocks i) = DIRECT_BLOCKS \<and>
     (\<forall>b\<in>set (i_blocks i). b < 2 ^ 32) \<and> length (i_pad i) = 12"

lemma inode_okD:
  assumes "inode_ok i"
  shows "length (i_name i) = MAX_NAME" "length (i_blocks i) = DIRECT_BLOCKS" "i_parent i < 2 ^ 32"
  using assms by (simp_all add: inode_ok_def)

lemma inode_ok_empty [simp]: "inode_ok inode_empty"
  by (simp add: inode_ok_def inode_empty_def)

lemma length_encode_inode [simp]: "inode_ok i \<Longrightarrow> length (encode_inode i) = INODE_SIZE"
  by (simp add: encode_inode_def inode_ok_def)

lemma decode_encode_inode: 
  assumes "inode_ok i"
  shows "decode_inode (encode_inode i) = i"
proof -
  note ok = assms [unfolded inode_ok_def]
  have fields: "rd32 (encode_inode i) 0 = i_kind i" "rd32 (encode_inode i) 4 = i_size i"
      "rd32 (encode_inode i) 8 = i_mtime i" "rd32 (encode_inode i) 12 = i_flags i"
      "rd32 (encode_inode i) 16 = i_parent i"
    using ok by (simp_all add: rd32_drop [of 4] rd32_drop [of 8] rd32_drop [of 12] rd32_drop [of 16]
        encode_inode_def rd32_le32)
  have "drop 84 (encode_inode i) = concat (map le32 (i_blocks i)) @ i_pad i"
    using ok by (simp add: encode_inode_def)
  then have "rd32 (encode_inode i) (84 + 4 * k) = i_blocks i ! k" if "k < 40" for k
    using rd32_concat [of k "i_blocks i" "i_pad i"] that ok length_encode_inode [OF assms]
      rd32_drop [of "84 + 4 * k" "encode_inode i"] rd32_drop [of "4 * k" "concat (map le32 (i_blocks i)) @ i_pad i"]
    by (simp add: add.commute [of 84] flip: drop_drop)
  then have "map (\<lambda>k. rd32 (encode_inode i) (84 + 4 * k)) [0..<40] = i_blocks i"
    using ok by (intro nth_equalityI) simp_all
  moreover have "take 64 (drop 20 (encode_inode i)) = i_name i" "take 12 (drop 244 (encode_inode i)) = i_pad i"
    using ok by (simp_all add: encode_inode_def)
  ultimately show ?thesis using fields by (simp add: decode_inode_def)
qed

definition super_ok :: "super_block \<Rightarrow> bool" where
  "super_ok sb \<longleftrightarrow>
     sb_magic sb < 2 ^ 32 \<and> sb_version sb < 2 ^ 32 \<and> sb_total_blocks sb < 2 ^ 32 \<and>
     sb_free_blocks sb < 2 ^ 32 \<and> sb_inode_count sb < 2 ^ 32 \<and> sb_file_count sb < 2 ^ 32 \<and>
     sb_block_size sb < 2 ^ 32 \<and> sb_data_start sb < 2 ^ 32 \<and> length (sb_label sb) = 16"

lemma length_encode_super [simp]: "super_ok sb \<Longrightarrow> length (encode_super sb) = 48"
  by (simp add: encode_super_def super_ok_def)

lemma decode_encode_super:
  assumes "super_ok sb"
  shows "decode_super (encode_super sb @ r) = sb"
  using assms
  by (simp add: decode_super_def super_ok_def rd32_drop [of 4] rd32_drop [of 8] rd32_drop [of 12]
      rd32_drop [of 16] rd32_drop [of 20] rd32_drop [of 24] rd32_drop [of 28] encode_super_def rd32_le32)

section \<open>The inode table as bytes\<close>

lemma length_inode_bytes: "\<forall>i\<in>set is. inode_ok i \<Longrightarrow> length (inode_bytes is) = INODE_SIZE * length is"
  by (induction "is") (simp_all add: inode_bytes_def)

lemma inode_bytes_append: "inode_bytes (xs @ ys) = inode_bytes xs @ inode_bytes ys"
  by (simp add: inode_bytes_def)

lemma inode_bytes_at:
  assumes "\<forall>i\<in>set is. inode_ok i" "k < length is"
  shows "take INODE_SIZE (drop (INODE_SIZE * k) (inode_bytes is)) = encode_inode (is ! k)"
proof -
  have "inode_bytes is = inode_bytes (take k is @ is ! k # drop (Suc k) is)"
    using assms(2) by (rule arg_cong [OF id_take_nth_drop])
  also have "\<dots> = inode_bytes (take k is) @ encode_inode (is ! k) @ inode_bytes (drop (Suc k) is)"
    by (simp only: inode_bytes_def map_append concat_append list.map concat.simps)
  finally have "inode_bytes is = inode_bytes (take k is) @ encode_inode (is ! k) @ inode_bytes (drop (Suc k) is)" .
  moreover have "length (inode_bytes (take k is)) = INODE_SIZE * k"
  proof -
    have "\<forall>i\<in>set (take k is). inode_ok i" using assms(1) set_take_subset by fast
    from length_inode_bytes [OF this] assms(2) show ?thesis by simp
  qed
  moreover have "length (encode_inode (is ! k)) = INODE_SIZE" using assms by simp
  ultimately show ?thesis by simp
qed

lemma inode_chunk_decoded:
  assumes "\<forall>i\<in>set is. inode_ok i" "16 * c + 16 \<le> length is"
  shows "map (\<lambda>k. decode_inode (take INODE_SIZE (drop (INODE_SIZE * k)
           (take 4096 (drop (c * 8 * SECTOR_SIZE) (inode_bytes is)))))) [0..<16] =
         take 16 (drop (16 * c) is)"
proof (rule nth_equalityI)
  show "length (map (\<lambda>k. decode_inode (take INODE_SIZE (drop (INODE_SIZE * k)
           (take 4096 (drop (c * 8 * SECTOR_SIZE) (inode_bytes is)))))) [0..<16]) =
        length (take 16 (drop (16 * c) is))" using assms(2) by simp
  fix k assume "k < length (map (\<lambda>k. decode_inode (take INODE_SIZE (drop (INODE_SIZE * k)
           (take 4096 (drop (c * 8 * SECTOR_SIZE) (inode_bytes is)))))) [0..<16])"
  then have k: "k < 16" by simp
  then have "256 * k + 256 \<le> 4096" by simp
  then have "take INODE_SIZE (drop (INODE_SIZE * k) (take 4096 (drop (c * 8 * SECTOR_SIZE) (inode_bytes is)))) =
        take INODE_SIZE (drop (INODE_SIZE * (16 * c + k)) (inode_bytes is))"
    by (simp add: drop_take min_def distrib_left add.commute)
  also have "\<dots> = encode_inode (is ! (16 * c + k))"
    using inode_bytes_at [OF assms(1), of "16 * c + k"] k assms(2) by simp
  finally show "map (\<lambda>k. decode_inode (take INODE_SIZE (drop (INODE_SIZE * k)
           (take 4096 (drop (c * 8 * SECTOR_SIZE) (inode_bytes is)))))) [0..<16] ! k =
        take 16 (drop (16 * c) is) ! k"
    using k assms by (simp add: decode_encode_inode)
qed


section \<open>Transfers on a healthy device\<close>

text \<open>
  The caches have their sizes, the partition lies on the device, and the device, driven by a
  healthy driver, shows the sectors \<open>f\<close>.
\<close>

definition fs_wf :: "'d fs \<Rightarrow> bool" where
  "fs_wf s \<longleftrightarrow>
     length (fs_inodes s) = MAX_INODES \<and> (\<forall>i\<in>set (fs_inodes s). inode_ok i) \<and>
     length (fs_bitmap s) = 2048 \<and> length (fs_scratch s) = BLOCK_SIZE"

definition fs_geom :: "nat \<times> nat \<Rightarrow> 'd fs \<Rightarrow> bool" where
  "fs_geom reg s \<longleftrightarrow>
     fst reg \<le> fs_lba s \<and> fs_lba s + DATA_START_SECTOR + fs_total s * SECTORS_PER_BLOCK \<le> snd reg \<and> snd reg < 2 ^ 32 \<and>
     fs_total s \<le> MAX_BLOCKS"

definition fs_disk ::
  "('d \<Rightarrow> bool) \<Rightarrow> ('d \<Rightarrow> nat \<Rightarrow> byte list) \<Rightarrow> nat \<times> nat \<Rightarrow> (nat \<Rightarrow> byte list) \<Rightarrow> 'd fs \<Rightarrow> bool" where
  "fs_disk ok sect reg f s \<longleftrightarrow> fs_wf s \<and> fs_geom reg s \<and> shows_disk ok sect reg (fs_blk s) f"

lemma fs_wfD:
  assumes "fs_wf s"
  shows "length (fs_inodes s) = MAX_INODES" "\<forall>i\<in>set (fs_inodes s). inode_ok i"
    "length (fs_bitmap s) = 2048" "length (fs_scratch s) = BLOCK_SIZE"
    "length (inode_bytes (fs_inodes s)) = 16384" "\<And>i. i < MAX_INODES \<Longrightarrow> inode_ok (fs_inodes s ! i)"
proof -
  show l: "length (fs_inodes s) = MAX_INODES" "\<forall>i\<in>set (fs_inodes s). inode_ok i"
    "length (fs_bitmap s) = 2048" "length (fs_scratch s) = BLOCK_SIZE" using assms by (auto simp: fs_wf_def)
  show "length (inode_bytes (fs_inodes s)) = 16384" using length_inode_bytes [OF l(2)] l(1) by simp
  show "\<And>i. i < MAX_INODES \<Longrightarrow> inode_ok (fs_inodes s ! i)" using l(1,2) by simp
qed

lemma fs_geomD:
  assumes "fs_geom reg s"
  shows "fs_lba s + DATA_START_SECTOR + fs_total s * SECTORS_PER_BLOCK \<le> snd reg" "snd reg < 2 ^ 32"
    "fs_total s \<le> MAX_BLOCKS" "fst reg \<le> fs_lba s \<and> fs_lba s + DATA_START_SECTOR \<le> snd reg"
  using assms unfolding fs_geom_def by linarith+

lemma fs_diskD:
  assumes "fs_disk ok sect reg f s"
  shows "fs_wf s" "fs_geom reg s" "shows_disk ok sect reg (fs_blk s) f" "\<And>l. length (f l) = SECTOR_SIZE"
  using assms shows_disk_length [of ok sect reg "fs_blk s" f] by (simp_all add: fs_disk_def)

lemma block_lba_exact:
  assumes "fs_geom reg s" "b < fs_total s"
  shows "block_lba s b = fs_lba s + DATA_START_SECTOR + b * SECTORS_PER_BLOCK"
    "inside reg (block_lba s b) SECTORS_PER_BLOCK"
proof -
  have "b * 8 + 8 \<le> fs_total s * 8" using assms(2) by linarith
  with fs_geomD [OF assms(1)] have "fs_lba s + 4096 + b * 8 + 8 \<le> snd reg" "snd reg < 2 ^ 32" "fst reg \<le> fs_lba s" by linarith+
  then show "block_lba s b = fs_lba s + DATA_START_SECTOR + b * SECTORS_PER_BLOCK"
    "inside reg (block_lba s b) SECTORS_PER_BLOCK" by (simp_all add: block_lba_def inside_def)
qed

text \<open>Two writes of adjacent runs are one.\<close>

lemma put_sectors_adjacent:
  "put_sectors (a + m) n (take (n * SECTOR_SIZE) (drop (m * SECTOR_SIZE) buf)) (put_sectors a m buf f) =
   put_sectors a (m + n) buf f"
proof
  fix l
  consider "l < a" | "a \<le> l" "l < a + m" | "a + m \<le> l" "l < a + m + n" | "a + m + n \<le> l" by linarith
  then show "put_sectors (a + m) n (take (n * SECTOR_SIZE) (drop (m * SECTOR_SIZE) buf)) (put_sectors a m buf f) l =
        put_sectors a (m + n) buf f l"
  proof cases
    case 3
    let ?j = "l - (a + m)"
    have j: "l - a = ?j + m" "?j < n" using 3 by auto
    then have "?j * SECTOR_SIZE + SECTOR_SIZE \<le> n * SECTOR_SIZE" by linarith
    then have "take SECTOR_SIZE (drop (?j * SECTOR_SIZE) (take (n * SECTOR_SIZE) (drop (m * SECTOR_SIZE) buf))) =
          take SECTOR_SIZE (drop ((l - a) * SECTOR_SIZE) buf)"
      by (simp add: j(1) drop_take min_def algebra_simps)
    with 3 show ?thesis by (simp add: put_sectors_def)
  qed (auto simp: put_sectors_def)
qed

lemma put_sectors_0 [simp]: "put_sectors a 0 buf f = f"
  by (rule ext) (auto simp: put_sectors_def)

lemma fs_write_sectors_healthy:
  assumes "shows_disk ok sect reg (fs_blk s) f" "0 < n" "n < 256" "inside reg lba n" "n * SECTOR_SIZE \<le> length buf"
  shows "\<exists>blk. fs_write_sectors lba n buf s = (Ok (), s\<lparr>fs_blk := blk\<rparr>) \<and>
     shows_disk ok sect reg blk (put_sectors lba n buf f)"
  using block_write_healthy [OF assms] by (auto simp: fs_write_sectors_def)

lemma fs_read_sectors_healthy:
  assumes "shows_disk ok sect reg (fs_blk s) f" "0 < n" "n < 256" "inside reg lba n" "length buf = n * SECTOR_SIZE"
  shows "\<exists>blk. fs_read_sectors lba n buf s = (Ok (), sectors_at f lba n, s\<lparr>fs_blk := blk\<rparr>) \<and>
     shows_disk ok sect reg blk f"
  using block_read_healthy [OF assms] by (auto simp: fs_read_sectors_def)

lemma flush_inode_chunks_healthy:
  assumes "fs_wf s" "fst reg \<le> fs_lba s \<and> fs_lba s + DATA_START_SECTOR \<le> snd reg" "snd reg < 2 ^ 32" "c + n \<le> 4"
    "shows_disk ok sect reg (fs_blk s) (put_sectors (fs_lba s + 1) (8 * c) (inode_bytes (fs_inodes s)) f)"
  shows "\<exists>blk. flush_inode_chunks [c..<c + n] s = (Ok (), s\<lparr>fs_blk := blk\<rparr>) \<and>
     shows_disk ok sect reg blk (put_sectors (fs_lba s + 1) (8 * (c + n)) (inode_bytes (fs_inodes s)) f)"
  using assms
proof (induction n arbitrary: c s)
  case 0
  then show ?case by (intro exI [of _ "fs_blk s"]) simp
next
  case (Suc n)
  let ?b = "inode_bytes (fs_inodes s)" and ?lba = "fs_lba s + 1 + 8 * c"
  have lba: "w32 (fs_lba s + 1 + c * 8) = ?lba" "inside reg ?lba 8"
    using Suc.prems(2-4) by (simp_all add: mult.commute inside_def)
  have len: "8 * SECTOR_SIZE \<le> length (take (8 * SECTOR_SIZE) (drop (c * 8 * SECTOR_SIZE) ?b))"
    using fs_wfD(5) [OF Suc.prems(1)] Suc.prems(4) by simp
  from fs_write_sectors_healthy [OF Suc.prems(5) _ _ lba(2) len] obtain blk where
    w: "fs_write_sectors ?lba 8 (take (8 * SECTOR_SIZE) (drop (c * 8 * SECTOR_SIZE) ?b)) s = (Ok (), s\<lparr>fs_blk := blk\<rparr>)"
    and d: "shows_disk ok sect reg blk (put_sectors ?lba 8 (take (8 * SECTOR_SIZE) (drop (c * 8 * SECTOR_SIZE) ?b))
         (put_sectors (fs_lba s + 1) (8 * c) ?b f))" by auto
  let ?s = "s\<lparr>fs_blk := blk\<rparr>"
  have "c * 8 * SECTOR_SIZE = 8 * c * SECTOR_SIZE" "8 * c + 8 = 8 * Suc c" by simp_all
  with d have "shows_disk ok sect reg blk (put_sectors (fs_lba s + 1) (8 * Suc c) ?b f)"
    by (simp only: put_sectors_adjacent)
  then have d': "shows_disk ok sect reg (fs_blk ?s) (put_sectors (fs_lba ?s + 1) (8 * Suc c) (inode_bytes (fs_inodes ?s)) f)"
    by simp
  have wf: "fs_wf ?s" using Suc.prems(1) by (simp add: fs_wf_def)
  from Suc.IH [OF wf _ Suc.prems(3) _ d'] Suc.prems(2,4) obtain blk' where
    "flush_inode_chunks [Suc c..<Suc c + n] ?s = (Ok (), ?s\<lparr>fs_blk := blk'\<rparr>)"
    "shows_disk ok sect reg blk' (put_sectors (fs_lba s + 1) (8 * (Suc c + n)) ?b f)" by auto
  moreover have "[c..<c + Suc n] = c # [Suc c..<Suc c + n]" by (simp add: upt_conv_Cons)
  ultimately show ?case using w lba(1) by (intro exI [of _ blk']) simp
qed

lemma flush_inodes_healthy:
  assumes "fs_disk ok sect reg f s"
  shows "\<exists>blk. flush_inodes s = (Ok (), s\<lparr>fs_blk := blk\<rparr>) \<and>
     fs_disk ok sect reg (put_sectors (fs_lba s + 1) 32 (inode_bytes (fs_inodes s)) f) (s\<lparr>fs_blk := blk\<rparr>)"
proof -
  note d = fs_diskD [OF assms] and g = fs_geomD [OF fs_diskD(2) [OF assms]]
  from flush_inode_chunks_healthy [OF d(1) g(4) g(2), of 0 4 ok sect f] d(3)
  obtain blk where "flush_inodes s = (Ok (), s\<lparr>fs_blk := blk\<rparr>)"
    "shows_disk ok sect reg blk (put_sectors (fs_lba s + 1) 32 (inode_bytes (fs_inodes s)) f)"
    by (auto simp: flush_inodes_def)
  then show ?thesis using d by (auto simp: fs_disk_def fs_wf_def fs_geom_def)
qed

lemma flush_bitmap_healthy:
  assumes "fs_disk ok sect reg f s"
  shows "\<exists>blk. flush_bitmap s = (Ok (), s\<lparr>fs_blk := blk\<rparr>) \<and>
     fs_disk ok sect reg (put_sectors (fs_lba s + 33) 4 (fs_bitmap s) f) (s\<lparr>fs_blk := blk\<rparr>)"
proof -
  note d = fs_diskD [OF assms] and g = fs_geomD [OF fs_diskD(2) [OF assms]]
  have lba: "w32 (fs_lba s + 33) = fs_lba s + 33" "inside reg (fs_lba s + 33) 4" using g(2,4) by (simp_all add: inside_def)
  from fs_write_sectors_healthy [OF d(3) _ _ lba(2), of "fs_bitmap s"] fs_wfD(3) [OF d(1)]
  show ?thesis using d lba by (auto simp: flush_bitmap_def fs_disk_def fs_wf_def fs_geom_def)
qed

lemma read_super_healthy:
  assumes "shows_disk ok sect reg (fs_blk s) f" "inside reg (fs_lba s) 1"
  shows "\<exists>blk. read_super s = (Ok (decode_super (f (fs_lba s))), s\<lparr>fs_blk := blk\<rparr>) \<and> shows_disk ok sect reg blk f"
proof -
  from fs_read_sectors_healthy [OF assms(1) _ _ assms(2), of "replicate SECTOR_SIZE 0"]
  show ?thesis by (auto simp: read_super_def sectors_at_def)
qed

definition super_sector :: "super_block \<Rightarrow> byte list" where
  "super_sector sb = encode_super sb @ replicate 464 0"

lemma write_super_healthy:
  assumes "fs_disk ok sect reg f s" "super_ok sb"
  shows "\<exists>blk. write_super sb s = (Ok (), s\<lparr>fs_blk := blk\<rparr>) \<and>
     fs_disk ok sect reg (f(fs_lba s := super_sector sb)) (s\<lparr>fs_blk := blk\<rparr>)"
proof -
  note d = fs_diskD [OF assms(1)] and g = fs_geomD [OF fs_diskD(2) [OF assms(1)]]
  have len: "length (super_sector sb) = 512" using assms(2) by (simp add: super_sector_def)
  have "put_sectors (fs_lba s) 1 (super_sector sb) f = f(fs_lba s := super_sector sb)"
    using len by (intro ext) (auto simp: put_sectors_def)
  moreover have "write_super sb s = fs_write_sectors (fs_lba s) 1 (super_sector sb) s"
    using assms(2) by (simp add: write_super_def super_sector_def)
  ultimately show ?thesis
    using fs_write_sectors_healthy [OF d(3), of 1 "fs_lba s" "super_sector sb"] d g(4) len
    by (auto simp: fs_disk_def fs_wf_def fs_geom_def inside_def)
qed

section \<open>Mounting\<close>

lemma sectors_at_add: "sectors_at f a (m + n) = sectors_at f a m @ sectors_at f (a + m) n"
proof (induction n)
  case 0
  then show ?case by (simp add: sectors_at_def)
next
  case (Suc n)
  then show ?case by (simp add: sectors_at_Suc add.assoc)
qed

lemma sectors_at_part:
  assumes "\<And>l. length (f l) = SECTOR_SIZE" "m + n \<le> k"
  shows "sectors_at f (a + m) n = take (n * SECTOR_SIZE) (drop (m * SECTOR_SIZE) (sectors_at f a k))"
proof -
  obtain r where "k = m + n + r" using assms(2) le_Suc_ex by blast
  then show ?thesis
    by (simp add: sectors_at_add length_sectors_at [of f, OF assms(1)] add.assoc)
qed

text \<open>What the inode table, the bitmap and the superblock on the disk say of the caches.\<close>

definition on_disk :: "(nat \<Rightarrow> byte list) \<Rightarrow> 'd fs \<Rightarrow> bool" where
  "on_disk f s \<longleftrightarrow>
     sectors_at f (fs_lba s + 1) 32 = inode_bytes (fs_inodes s) \<and>
     sectors_at f (fs_lba s + 33) 4 = fs_bitmap s \<and>
     sb_magic (decode_super (f (fs_lba s))) = MAGIC \<and>
     sb_version (decode_super (f (fs_lba s))) = VERSION \<and>
     sb_total_blocks (decode_super (f (fs_lba s))) = fs_total s"

lemma load_inode_chunks_healthy:
  assumes "fs_wf s" "fst reg \<le> fs_lba s \<and> fs_lba s + DATA_START_SECTOR \<le> snd reg" "snd reg < 2 ^ 32" "c + n \<le> 4"
    "shows_disk ok sect reg (fs_blk s) f"
    "sectors_at f (fs_lba s + 1) 32 = inode_bytes is" "\<forall>i\<in>set is. inode_ok i" "length is = MAX_INODES"
  shows "\<exists>blk. load_inode_chunks [c..<c + n] s =
       (Ok (), s\<lparr>fs_blk := blk, fs_inodes := take (16 * c) (fs_inodes s) @ take (16 * n) (drop (16 * c) is)
                                   @ drop (16 * (c + n)) (fs_inodes s)\<rparr>) \<and>
     shows_disk ok sect reg blk f"
  using assms(1-6)
proof (induction n arbitrary: c s)
  case 0
  then show ?case by (intro exI [of _ "fs_blk s"]) simp
next
  case (Suc n)
  note len = shows_disk_length [OF Suc.prems(5)]
  let ?lba = "fs_lba s + 1 + 8 * c"
  have lba: "w32 (fs_lba s + 1 + c * 8) = ?lba" "inside reg ?lba 8"
    using Suc.prems(2-4) by (simp_all add: mult.commute inside_def)
  have old: "length (take (8 * SECTOR_SIZE) (drop (c * 8 * SECTOR_SIZE) (inode_bytes (fs_inodes s)))) = 8 * SECTOR_SIZE"
    using fs_wfD(5) [OF Suc.prems(1)] Suc.prems(4) by simp
  have "sectors_at f ?lba 8 = take (8 * SECTOR_SIZE) (drop (8 * c * SECTOR_SIZE) (inode_bytes is))"
    unfolding Suc.prems(6) [symmetric] by (rule sectors_at_part [OF len]) (use Suc.prems(4) in simp)
  then have buf: "sectors_at f ?lba 8 = take 4096 (drop (c * 8 * SECTOR_SIZE) (inode_bytes is))"
    by (simp add: mult.commute)
  from fs_read_sectors_healthy [OF Suc.prems(5) _ _ lba(2) old] obtain blk where
    r: "fs_read_sectors ?lba 8 (take (8 * SECTOR_SIZE) (drop (c * 8 * SECTOR_SIZE) (inode_bytes (fs_inodes s)))) s =
        (Ok (), sectors_at f ?lba 8, s\<lparr>fs_blk := blk\<rparr>)"
    and d: "shows_disk ok sect reg blk f" by auto
  define is' where "is' = take (16 * c) (fs_inodes s) @ take 16 (drop (16 * c) is) @ drop (16 * c + 16) (fs_inodes s)"
  have put: "put_inode_chunk c (sectors_at f ?lba 8) (fs_inodes s) = is'"
    using inode_chunk_decoded [OF assms(7), of c] Suc.prems(4) assms(8) buf
    by (simp add: put_inode_chunk_def is'_def)
  let ?s = "s\<lparr>fs_blk := blk, fs_inodes := is'\<rparr>"
  have len': "length is' = MAX_INODES"
    using Suc.prems(1,4) assms(8) by (simp add: is'_def fs_wf_def)
  have "set is' \<subseteq> set (fs_inodes s) \<union> set is"
    by (auto simp: is'_def dest: in_set_takeD in_set_dropD)
  then have "fs_wf ?s" using Suc.prems(1) assms(7) len' by (auto simp: fs_wf_def)
  from Suc.IH [OF this _ Suc.prems(3), of "Suc c"] Suc.prems(2,4,6) d obtain blk' where
    IH: "load_inode_chunks [Suc c..<Suc c + n] ?s =
       (Ok (), ?s\<lparr>fs_blk := blk', fs_inodes := take (16 * Suc c) is' @ take (16 * n) (drop (16 * Suc c) is)
                                   @ drop (16 * (Suc c + n)) is'\<rparr>)"
      "shows_disk ok sect reg blk' f" by auto
  have "take (16 * Suc c) is' = take (16 * c) (fs_inodes s) @ take 16 (drop (16 * c) is)"
    "drop (16 * (Suc c + n)) is' = drop (16 * (c + Suc n)) (fs_inodes s)"
    using Suc.prems(1,4) assms(8) by (simp_all add: is'_def fs_wf_def algebra_simps)
  moreover have "take 16 (drop (16 * c) is) @ take (16 * n) (drop (16 * Suc c) is) = take (16 * Suc n) (drop (16 * c) is)"
    using take_add [of 16 "16 * n" "drop (16 * c) is"] by (simp add: add.commute)
  ultimately have "take (16 * Suc c) is' @ take (16 * n) (drop (16 * Suc c) is) @ drop (16 * (Suc c + n)) is' =
      take (16 * c) (fs_inodes s) @ take (16 * Suc n) (drop (16 * c) is) @ drop (16 * (c + Suc n)) (fs_inodes s)"
    by (metis append_assoc)
  moreover have "[c..<c + Suc n] = c # [Suc c..<Suc c + n]" by (simp add: upt_conv_Cons)
  ultimately show ?case using r lba(1) put IH by (intro exI [of _ blk']) simp
qed

text \<open>
  A mount reads back what is on the disk, whatever the caches held before, and counts the free
  blocks again.
\<close>

lemma mount_reads_back:
  assumes "fs_disk ok sect reg f s" "on_disk f s" "fs_total s = capacity_blocks sectors"
    "fs_wf s0" "shows_disk ok sect reg (fs_blk s0) f"
  shows "\<exists>blk. mount (Some (fs_lba s, sectors)) s0 =
      (Ok (), s0\<lparr>fs_lba := fs_lba s, fs_total := fs_total s, fs_inodes := fs_inodes s,
                 fs_bitmap := fs_bitmap s, fs_free := count_free s (fs_total s), fs_mounted := True,
                 fs_blk := blk\<rparr>) \<and> shows_disk ok sect reg blk f"
proof -
  note d = fs_diskD [OF assms(1)] and g = fs_geomD [OF fs_diskD(2) [OF assms(1)]]
  note disk = assms(2) [unfolded on_disk_def]
  let ?s1 = "s0\<lparr>fs_lba := fs_lba s\<rparr>"
  from read_super_healthy [of ok sect reg ?s1 f] assms(5) g(4) obtain b1 where
    r1: "read_super ?s1 = (Ok (decode_super (f (fs_lba s))), ?s1\<lparr>fs_blk := b1\<rparr>)"
    and b1: "shows_disk ok sect reg b1 f" by (auto simp: inside_def)
  let ?s2 = "?s1\<lparr>fs_blk := b1, fs_total := fs_total s\<rparr>"
  have wf2: "fs_wf ?s2" using assms(4) by (simp add: fs_wf_def)
  from load_inode_chunks_healthy [OF wf2, of reg 0 4 ok sect f "fs_inodes s"] g(2,4) b1 disk
    fs_wfD(1,2) [OF d(1)] fs_wfD(1) [OF assms(4)]
  obtain b2 where r2: "load_inodes ?s2 = (Ok (), ?s2\<lparr>fs_blk := b2, fs_inodes := fs_inodes s\<rparr>)"
    and b2: "shows_disk ok sect reg b2 f" by (auto simp: load_inodes_def)
  let ?s3 = "?s2\<lparr>fs_blk := b2, fs_inodes := fs_inodes s\<rparr>"
  have lba: "w32 (fs_lba s + 33) = fs_lba s + 33" "inside reg (fs_lba s + 33) 4" using g(2,4) by (simp_all add: inside_def)
  from fs_read_sectors_healthy [of ok sect reg ?s3 f 4 "fs_lba s + 33" "fs_bitmap ?s3"] b2 lba
    fs_wfD(3) [OF assms(4)] disk
  obtain b3 where r3: "load_bitmap ?s3 = (Ok (), ?s3\<lparr>fs_blk := b3, fs_bitmap := fs_bitmap s\<rparr>)"
    and b3: "shows_disk ok sect reg b3 f" by (auto simp: load_bitmap_def)
  have "min (sb_total_blocks (decode_super (f (fs_lba s)))) (capacity_blocks sectors) = fs_total s"
    using disk assms(3) by simp
  then show ?thesis
    using r1 r2 r3 b3 disk shows_disk_available [OF assms(5)]
    by (intro exI [of _ b3]) (simp add: mount_def count_free_def bit_get_def Let_def)
qed

end
