(* ===== verification/TcmkfsAlloc.thy ===== *)
theory TcmkfsAlloc imports TcmkfsDisk Interfaces begin

text \<open>
  Block allocation in \<^verbatim>\<open>core/tcmkfs.rs\<close>: the bitmap as a slot table, and which inode owns which
  block through an allocation, its rollback and the freeing of a file.
\<close>

section \<open>The bitmap is a slot table\<close>

definition bitmap_ok :: "'d fs \<Rightarrow> bool" where
  "bitmap_ok s \<longleftrightarrow> length (fs_bitmap s) = 2048 \<and> fs_total s \<le> MAX_BLOCKS \<and> fs_free s = count_free s (fs_total s)"

lemma bit_get_set: "i < 8 * length (fs_bitmap s) \<Longrightarrow> bit_get (bit_set i v s) j = (if i = j then v else bit_get s j)"
  by (simp add: bit_get_def bit_set_def bm_get_set)

lemma bit_get_update [simp]:
  "bit_get (s\<lparr>fs_free := x\<rparr>) j = bit_get s j" "bit_get (s\<lparr>fs_inodes := y\<rparr>) j = bit_get s j"
  "bit_get (upd_inode index g s) j = bit_get s j" "bit_get (set_block index k b s) j = bit_get s j"
  by (simp_all add: bit_get_def upd_inode_def set_block_def)

lemma bit_set_fields [simp]:
  "fs_inodes (bit_set i v s) = fs_inodes s" "fs_total (bit_set i v s) = fs_total s"
  "length (fs_bitmap (bit_set i v s)) = length (fs_bitmap s)" "fs_scratch (bit_set i v s) = fs_scratch s"
  "fs_blk (bit_set i v s) = fs_blk s" "fs_lba (bit_set i v s) = fs_lba s" "fs_free (bit_set i v s) = fs_free s"
  "fs_mounted (bit_set i v s) = fs_mounted s" "fs_writes (bit_set i v s) = fs_writes s"
  by (simp_all add: bit_set_def)

lemma count_free_cong: "(\<And>i. i < n \<Longrightarrow> bit_get s i = bit_get s' i) \<Longrightarrow> count_free s n = count_free s' n"
  unfolding count_free_def by (metis (mono_tags, lifting) atLeastLessThan_iff atLeastLessThan_upt filter_cong)

lemma count_free_update [simp]:
  "count_free (s\<lparr>fs_free := x\<rparr>) n = count_free s n" "count_free (s\<lparr>fs_inodes := y\<rparr>) n = count_free s n"
  "count_free (upd_inode index g s) n = count_free s n" "count_free (set_block index k b s) n = count_free s n"
  by (simp_all add: count_free_def)

lemma count_free_card: "count_free s n = card {i \<in> {..<n}. \<not> bit_get s i}"
proof -
  have "count_free s n = card (set (filter (\<lambda>i. \<not> bit_get s i) [0..<n]))"
    unfolding count_free_def by (rule distinct_card [symmetric]) simp
  also have "set (filter (\<lambda>i. \<not> bit_get s i) [0..<n]) = {i \<in> {..<n}. \<not> bit_get s i}" by auto
  finally show ?thesis .
qed

lemma count_free_le: "count_free s n \<le> n"
  unfolding count_free_def using length_filter_le [of _ "[0..<n]"] by simp

lemma count_free_change:
  assumes "i < n" "bit_get s i" "\<not> bit_get s' i" "\<And>j. j < n \<Longrightarrow> j \<noteq> i \<Longrightarrow> bit_get s' j = bit_get s j"
  shows "count_free s' n = count_free s n + 1"
  using card_filter_update [of "{..<n}" i "\<lambda>j. \<not> bit_get s' j" "\<lambda>j. \<not> bit_get s j"] assms
  by (simp add: count_free_card)

lemma alloc_block_Some:
  assumes "bitmap_ok s" "alloc_block s = Some (b, s')"
  shows "b < fs_total s" "\<not> bit_get s b" "\<And>j. j < b \<Longrightarrow> bit_get s j"
    "\<And>j. bit_get s' j = (j = b \<or> bit_get s j)" "bitmap_ok s'"
    "s' = (bit_set b True s)\<lparr>fs_free := fs_free s - 1\<rparr>" "fs_free s = fs_free s' + 1"
proof -
  note ok = assms(1) [unfolded bitmap_ok_def]
  from assms(2) have f: "find_slot (\<lambda>i. \<not> bit_get s i) 0 (fs_total s) = Some b"
    and s': "s' = (bit_set b True s)\<lparr>fs_free := wsub 32 (fs_free s) 1\<rparr>"
    by (auto simp: alloc_block_def split: option.splits)
  from find_slot_Some [OF f] show b: "b < fs_total s" "\<not> bit_get s b" "\<And>j. j < b \<Longrightarrow> bit_get s j" by auto
  have bnd: "b < 8 * length (fs_bitmap s)" using ok b(1) by simp
  show bits: "\<And>j. bit_get s' j = (j = b \<or> bit_get s j)" using bit_get_set [OF bnd] by (auto simp: s')
  have cnt: "count_free s (fs_total s) = count_free s' (fs_total s) + 1"
    by (rule count_free_change [of b]) (use b bits in auto)
  have "fs_free s \<le> 16384" using ok count_free_le [of s "fs_total s"] by linarith
  then have "wsub 32 (fs_free s) 1 = fs_free s - 1" using cnt ok by (intro wsub_le) simp_all
  then show eq: "s' = (bit_set b True s)\<lparr>fs_free := fs_free s - 1\<rparr>" using s' by simp
  show "bitmap_ok s'" "fs_free s = fs_free s' + 1" using ok cnt by (simp_all add: eq bitmap_ok_def)
qed

lemma alloc_block_None: "alloc_block s = None \<longleftrightarrow> (\<forall>i<fs_total s. bit_get s i)"
  by (auto simp: alloc_block_def find_slot_None split: option.splits dest: find_slot_Some)

lemma alloc_block_full: "bitmap_ok s \<Longrightarrow> alloc_block s = None \<longleftrightarrow> fs_free s = 0"
proof -
  assume ok: "bitmap_ok s"
  have "count_free s (fs_total s) = 0 \<longleftrightarrow> (\<forall>i<fs_total s. bit_get s i)"
    by (auto simp: count_free_def filter_empty_conv)
  then show ?thesis using ok by (simp add: alloc_block_None bitmap_ok_def)
qed

lemma free_block_used:
  assumes "bitmap_ok s" "b < fs_total s" "bit_get s b"
  shows "free_block b s = (Ok (), (bit_set b False s)\<lparr>fs_free := fs_free s + 1\<rparr>)"
    "bitmap_ok ((bit_set b False s)\<lparr>fs_free := fs_free s + 1\<rparr>)"
    "\<And>j. bit_get ((bit_set b False s)\<lparr>fs_free := fs_free s + 1\<rparr>) j = (j \<noteq> b \<and> bit_get s j)"
proof -
  note ok = assms(1) [unfolded bitmap_ok_def]
  have bnd: "b < 8 * length (fs_bitmap s)" using ok assms(2) by simp
  show bits: "\<And>j. bit_get ((bit_set b False s)\<lparr>fs_free := fs_free s + 1\<rparr>) j = (j \<noteq> b \<and> bit_get s j)"
    using bit_get_set [OF bnd] by auto
  have cnt: "count_free ((bit_set b False s)\<lparr>fs_free := fs_free s + 1\<rparr>) (fs_total s) = count_free s (fs_total s) + 1"
    by (rule count_free_change [of b]) (use assms bits in auto)
  have "count_free s (fs_total s) \<le> 16384" using ok count_free_le [of s "fs_total s"] by linarith
  then have "w32 (fs_free s + 1) = fs_free s + 1" using ok by (intro w32_id) simp
  then show "free_block b s = (Ok (), (bit_set b False s)\<lparr>fs_free := fs_free s + 1\<rparr>)"
    using bnd assms(3) by (simp add: free_block_def)
  show "bitmap_ok ((bit_set b False s)\<lparr>fs_free := fs_free s + 1\<rparr>)" using ok cnt by (simp add: bitmap_ok_def)
qed

interpretation fs_pool: slot_pool bitmap_ok bit_get fs_total "\<lambda>_ _. True" alloc_block "\<lambda>b s. snd (free_block b s)"
proof
  fix s s' :: "'a fs" and i j :: nat
  show "bitmap_ok s \<Longrightarrow> alloc_block s = Some (i, s') \<Longrightarrow> i < fs_total s \<and> \<not> bit_get s i \<and> (\<forall>j<i. bit_get s j)"
    using alloc_block_Some(1-3) by blast
  show "bitmap_ok s \<Longrightarrow> alloc_block s = Some (i, s') \<Longrightarrow> j < fs_total s \<Longrightarrow> bit_get s' j = (j = i \<or> bit_get s j)"
    using alloc_block_Some(4) by blast
  show "bitmap_ok s \<Longrightarrow> alloc_block s = Some (i, s') \<Longrightarrow> bitmap_ok s' \<and> fs_total s' = fs_total s"
    using alloc_block_Some(5,6) by fastforce
  show "bitmap_ok s \<Longrightarrow> (alloc_block s = None) = (\<forall>i<fs_total s. bit_get s i)"
    by (rule alloc_block_None)
  show "bitmap_ok s \<Longrightarrow> bit_get s i \<Longrightarrow> i < fs_total s \<Longrightarrow> True \<Longrightarrow> j < fs_total s \<Longrightarrow>
      bit_get (snd (free_block i s)) j = (j \<noteq> i \<and> bit_get s j)"
    using free_block_used(1,3) by fastforce
  show "bitmap_ok s \<Longrightarrow> bit_get s i \<Longrightarrow> i < fs_total s \<Longrightarrow> True \<Longrightarrow>
      bitmap_ok (snd (free_block i s)) \<and> fs_total (snd (free_block i s)) = fs_total s"
    using free_block_used(1,2) by fastforce
qed


section \<open>Who owns which block\<close>

abbreviation blk_at :: "'d fs \<Rightarrow> nat \<Rightarrow> nat \<Rightarrow> nat" where "blk_at s i k \<equiv> i_blocks (fs_inodes s ! i) ! k"
abbreviation kind_at :: "'d fs \<Rightarrow> nat \<Rightarrow> nat" where "kind_at s i \<equiv> i_kind (fs_inodes s ! i)"
abbreviation size_at :: "'d fs \<Rightarrow> nat \<Rightarrow> nat" where "size_at s i \<equiv> i_size (fs_inodes s ! i)"

text \<open>
  \<open>own i\<close> is the set of block slots that inode \<open>i\<close> holds.  A bit is set exactly for an owned
  block, no block is owned twice, the slots a file does not hold are zero, and the count of free
  blocks is right.
\<close>

definition fs_own :: "(nat \<Rightarrow> nat set) \<Rightarrow> 'd fs \<Rightarrow> bool" where
  "fs_own own s \<longleftrightarrow>
     fs_wf s \<and> bitmap_ok s \<and>
     (\<forall>i<MAX_INODES. own i \<subseteq> {..<DIRECT_BLOCKS} \<and> (kind_at s i \<noteq> KIND_FILE \<longrightarrow> own i = {}) \<and>
        (kind_at s i = KIND_FILE \<longrightarrow> (\<forall>k<DIRECT_BLOCKS. k \<notin> own i \<longrightarrow> blk_at s i k = 0))) \<and>
     (\<forall>i<MAX_INODES. \<forall>k\<in>own i. blk_at s i k < fs_total s) \<and>
     (\<forall>b<fs_total s. bit_get s b \<longleftrightarrow> (\<exists>i<MAX_INODES. \<exists>k\<in>own i. blk_at s i k = b)) \<and>
     (\<forall>i<MAX_INODES. \<forall>j<MAX_INODES. \<forall>k\<in>own i. \<forall>l\<in>own j. blk_at s i k = blk_at s j l \<longrightarrow> i = j \<and> k = l)"

lemma fs_ownD:
  assumes "fs_own own s"
  shows "fs_wf s" "bitmap_ok s" "\<And>i. i < MAX_INODES \<Longrightarrow> own i \<subseteq> {..<DIRECT_BLOCKS}"
    "\<And>i. i < MAX_INODES \<Longrightarrow> kind_at s i \<noteq> KIND_FILE \<Longrightarrow> own i = {}"
    "\<And>i k. i < MAX_INODES \<Longrightarrow> kind_at s i = KIND_FILE \<Longrightarrow> k < DIRECT_BLOCKS \<Longrightarrow> k \<notin> own i \<Longrightarrow> blk_at s i k = 0"
    "\<And>i k. i < MAX_INODES \<Longrightarrow> k \<in> own i \<Longrightarrow> blk_at s i k < fs_total s"
    "\<And>b. b < fs_total s \<Longrightarrow> bit_get s b \<longleftrightarrow> (\<exists>i<MAX_INODES. \<exists>k\<in>own i. blk_at s i k = b)"
    "\<And>i j k l. i < MAX_INODES \<Longrightarrow> j < MAX_INODES \<Longrightarrow> k \<in> own i \<Longrightarrow> l \<in> own j \<Longrightarrow>
       blk_at s i k = blk_at s j l \<Longrightarrow> i = j \<and> k = l"
proof -
  note d = assms [unfolded fs_own_def]
  note c = d [THEN conjunct2, THEN conjunct2]
  show "fs_wf s" "bitmap_ok s" using d by simp_all
  note c1 = c [THEN conjunct1, rule_format]
  show "\<And>i. i < MAX_INODES \<Longrightarrow> own i \<subseteq> {..<DIRECT_BLOCKS}"
    "\<And>i. i < MAX_INODES \<Longrightarrow> kind_at s i \<noteq> KIND_FILE \<Longrightarrow> own i = {}"
    "\<And>i k. i < MAX_INODES \<Longrightarrow> kind_at s i = KIND_FILE \<Longrightarrow> k < DIRECT_BLOCKS \<Longrightarrow> k \<notin> own i \<Longrightarrow> blk_at s i k = 0"
    using c1 by simp_all
  show "\<And>i k. i < MAX_INODES \<Longrightarrow> k \<in> own i \<Longrightarrow> blk_at s i k < fs_total s"
    using c [THEN conjunct2, THEN conjunct1] by simp
  show "\<And>b. b < fs_total s \<Longrightarrow> bit_get s b \<longleftrightarrow> (\<exists>i<MAX_INODES. \<exists>k\<in>own i. blk_at s i k = b)"
    using c [THEN conjunct2, THEN conjunct2, THEN conjunct1] by simp
  show "\<And>i j k l. i < MAX_INODES \<Longrightarrow> j < MAX_INODES \<Longrightarrow> k \<in> own i \<Longrightarrow> l \<in> own j \<Longrightarrow>
       blk_at s i k = blk_at s j l \<Longrightarrow> i = j \<and> k = l"
    using c [THEN conjunct2, THEN conjunct2, THEN conjunct2] by blast
qed

lemma fs_own_bit:
  assumes "fs_own own s" "i < MAX_INODES" "k \<in> own i"
  shows "bit_get s (blk_at s i k)"
  using fs_ownD(6,7) [OF assms(1)] assms(2,3) by blast

lemma inode_ok_set_block:
  assumes "inode_ok n" "b < 2 ^ 32"
  shows "inode_ok (n\<lparr>i_blocks := (i_blocks n)[k := b]\<rparr>)"
  using assms set_update_subset_insert [of "i_blocks n" k b] unfolding inode_ok_def by auto

lemma fs_wf_upd_inode:
  assumes "fs_wf s" "inode_ok (g (fs_inodes s ! index))"
  shows "fs_wf (upd_inode index g s)"
  using assms set_update_subset_insert [of "fs_inodes s" index "g (fs_inodes s ! index)"]
  by (auto simp: fs_wf_def upd_inode_def)

lemma set_block_at:
  assumes "fs_wf s" "index < MAX_INODES" "k < DIRECT_BLOCKS"
  shows "b < 2 ^ 32 \<Longrightarrow> fs_wf (set_block index k b s)"
    "\<And>i l. i < MAX_INODES \<Longrightarrow> l < DIRECT_BLOCKS \<Longrightarrow>
       blk_at (set_block index k b s) i l = (if i = index \<and> l = k then b else blk_at s i l)"
    "\<And>i. i < MAX_INODES \<Longrightarrow> kind_at (set_block index k b s) i = kind_at s i"
    "\<And>i. i < MAX_INODES \<Longrightarrow> size_at (set_block index k b s) i = size_at s i"
proof -
  note wf = fs_wfD [OF assms(1)]
  have ok: "inode_ok (fs_inodes s ! index)" using wf(6) assms(2) by simp
  show "fs_wf (set_block index k b s)" if "b < 2 ^ 32"
    unfolding set_block_def by (rule fs_wf_upd_inode [OF assms(1)]) (rule inode_ok_set_block [OF ok that])
  show "\<And>i l. i < MAX_INODES \<Longrightarrow> l < DIRECT_BLOCKS \<Longrightarrow>
       blk_at (set_block index k b s) i l = (if i = index \<and> l = k then b else blk_at s i l)"
    using inode_okD(2) [OF ok] assms(2,3) wf(1) by (auto simp: set_block_def upd_inode_def nth_list_update)
  show "\<And>i. i < MAX_INODES \<Longrightarrow> kind_at (set_block index k b s) i = kind_at s i"
    "\<And>i. i < MAX_INODES \<Longrightarrow> size_at (set_block index k b s) i = size_at s i"
    using assms(2) wf(1) by (auto simp: set_block_def upd_inode_def nth_list_update)
qed

text \<open>One block more for an inode, and one block less.\<close>

lemma fs_own_alloc:
  assumes "fs_own own s" "alloc_block s = Some (b, s')" "index < MAX_INODES" "kind_at s index = KIND_FILE"
    "k < DIRECT_BLOCKS" "k \<notin> own index"
  shows "fs_own (own(index := insert k (own index))) (set_block index k b s')"
proof -
  note D = fs_ownD [OF assms(1)]
  note a = alloc_block_Some [OF D(2) assms(2)]
  let ?s = "set_block index k b s'"
  have in_s': "fs_inodes s' = fs_inodes s" "fs_total s' = fs_total s" "fs_scratch s' = fs_scratch s" "fs_wf s'"
    using a(5) D(1) by (simp_all add: a(6) fs_wf_def bitmap_ok_def)
  have b: "b < 2 ^ 32" using a(1) D(2) by (simp add: bitmap_ok_def)
  note sb = set_block_at [OF in_s'(4) assms(3,5), where b = b]
  have wf: "fs_wf ?s" using sb(1) b by simp
  have bm: "bitmap_ok ?s" using a(5) by (simp add: bitmap_ok_def set_block_def upd_inode_def count_free_def bit_get_def)
  have tot: "fs_total ?s = fs_total s" using in_s'(2) by (simp add: set_block_def upd_inode_def)
  have at: "blk_at ?s i l = (if i = index \<and> l = k then b else blk_at s i l)" if "i < 64" "l < 40" for i l
    using sb(2) [OF that] in_s'(1) by simp
  have kind: "kind_at ?s i = kind_at s i" if "i < 64" for i using sb(3) [OF that] in_s'(1) by simp
  have fresh: "blk_at s i l \<noteq> b" if "i < 64" "l \<in> own i" for i l
    using fs_own_bit [OF assms(1) that] a(2) by auto
  have lt: "l < 40" if "i < 64" "l \<in> own i" for i l using D(3) [OF that(1)] that(2) by auto
  let ?own = "own(index := insert k (own index))"
  have mem: "l \<in> ?own i \<longleftrightarrow> l \<in> own i \<or> i = index \<and> l = k" for i l by auto
  have 1: "?own i \<subseteq> {..<40}" if "i < 64" for i using D(3) [OF that] assms(5) by auto
  have 2: "?own i = {}" if "i < 64" "kind_at ?s i \<noteq> KIND_FILE" for i
    using D(4) [OF that(1)] that kind assms(4) by auto
  have 3: "blk_at ?s i l = 0" if "i < 64" "kind_at ?s i = KIND_FILE" "l < 40" "l \<notin> ?own i" for i l
    using D(5) [OF that(1) _ that(3)] that kind at mem by auto
  have 4: "blk_at ?s i l < fs_total ?s" if "i < 64" "l \<in> ?own i" for i l
    using that at [of i l] D(6) a(1) tot mem lt assms(5) by auto
  have 5: "bit_get ?s c \<longleftrightarrow> (\<exists>i<64. \<exists>l\<in>?own i. blk_at ?s i l = c)" if "c < fs_total ?s" for c
  proof -
    have "bit_get ?s c \<longleftrightarrow> c = b \<or> (\<exists>i<64. \<exists>l\<in>own i. blk_at s i l = c)"
      using a(4) D(7) that tot by simp
    also have "\<dots> \<longleftrightarrow> (\<exists>i<64. \<exists>l\<in>?own i. blk_at ?s i l = c)"
    proof
      assume "c = b \<or> (\<exists>i<64. \<exists>l\<in>own i. blk_at s i l = c)"
      then show "\<exists>i<64. \<exists>l\<in>?own i. blk_at ?s i l = c"
      proof
        assume "c = b"
        then show ?thesis using at [of index k] assms(3,5) by (intro exI [of _ index]) auto
      next
        assume "\<exists>i<64. \<exists>l\<in>own i. blk_at s i l = c"
        then obtain i l where il: "i < 64" "l \<in> own i" "blk_at s i l = c" by blast
        then have "blk_at ?s i l = c" using at [OF il(1) lt [OF il(1,2)]] assms(6) by auto
        then show ?thesis using il mem by blast
      qed
    next
      assume "\<exists>i<64. \<exists>l\<in>?own i. blk_at ?s i l = c"
      then obtain i l where il: "i < 64" "l \<in> own i \<or> i = index \<and> l = k" "blk_at ?s i l = c"
        using mem by blast
      then show "c = b \<or> (\<exists>i<64. \<exists>l\<in>own i. blk_at s i l = c)"
      proof (cases "i = index \<and> l = k")
        case True
        then show ?thesis using at [of i l] il assms(5) by simp
      next
        case False
        then have "l \<in> own i" using il(2) by blast
        then show ?thesis using at [OF il(1) lt [OF il(1)]] il(1,3) False by auto
      qed
    qed
    finally show ?thesis .
  qed
  have 6: "i = j \<and> l = m" if "i < 64" "j < 64" "l \<in> ?own i" "m \<in> ?own j" "blk_at ?s i l = blk_at ?s j m" for i j l m
  proof -
    have "l < 40" "m < 40" using that mem lt assms(5) by blast+
    then show ?thesis
      using that(5) at [OF that(1)] at [OF that(2)] that(3,4) mem fresh that(1,2) D(8) [OF that(1,2), of l m]
      by (smt (verit))
  qed
  show ?thesis unfolding fs_own_def using wf bm 1 2 3 4 5 6 by blast
qed


lemma fs_own_shrink:
  assumes "fs_own own s" "index < MAX_INODES" "K \<subseteq> own index" "fs_wf s'" "bitmap_ok s'"
    and tot: "fs_total s' = fs_total s"
    and other: "\<And>i. i < MAX_INODES \<Longrightarrow> i \<noteq> index \<Longrightarrow> fs_inodes s' ! i = fs_inodes s ! i"
    and isfile: "kind_at s' index = KIND_FILE \<Longrightarrow>
       kind_at s index = KIND_FILE \<and> (\<forall>k<DIRECT_BLOCKS. blk_at s' index k = (if k \<in> K then blk_at s index k else 0))"
    and none: "kind_at s' index \<noteq> KIND_FILE \<Longrightarrow> K = {}"
    and bits: "\<And>b. b < fs_total s \<Longrightarrow>
       bit_get s' b \<longleftrightarrow> bit_get s b \<and> \<not> (\<exists>k\<in>own index - K. blk_at s index k = b)"
  shows "fs_own (own(index := K)) s'"
proof -
  note D = fs_ownD [OF assms(1)]
  let ?own = "own(index := K)"
  have sub: "k \<in> own i" if "k \<in> ?own i" for i k using that assms(3) by (auto split: if_splits)
  have lt: "k < 40" if "i < 64" "k \<in> own i" for i k using D(3) [OF that(1)] that(2) by auto
  have at: "blk_at s' i k = blk_at s i k" if "i < 64" "k \<in> ?own i" for i k
  proof (cases "i = index")
    case True
    then have "k \<in> K" using that by simp
    then have "kind_at s' index = KIND_FILE" using none by auto
    from isfile [OF this] show ?thesis using True \<open>k \<in> K\<close> lt [OF that(1) sub [OF that(2)]] by simp
  next
    case False
    then show ?thesis using other that by simp
  qed
  have 1: "?own i \<subseteq> {..<40}" if "i < 64" for i using lt [OF that] sub by blast
  have 2: "?own i = {}" if "i < 64" "kind_at s' i \<noteq> KIND_FILE" for i
    using D(4) [OF that(1)] other that none by (cases "i = index") auto
  have 3: "blk_at s' i k = 0" if "i < 64" "kind_at s' i = KIND_FILE" "k < 40" "k \<notin> ?own i" for i k
    using D(5) [OF that(1) _ that(3)] other that isfile by (cases "i = index") auto
  have 4: "blk_at s' i k < fs_total s'" if "i < 64" "k \<in> ?own i" for i k
    using D(6) [OF that(1) sub [OF that(2)]] at [OF that] tot by simp
  have 5: "bit_get s' b \<longleftrightarrow> (\<exists>i<64. \<exists>k\<in>?own i. blk_at s' i k = b)" if b: "b < fs_total s'" for b
  proof
    assume "bit_get s' b"
    then have set: "bit_get s b" and gone: "\<not> (\<exists>k\<in>own index - K. blk_at s index k = b)" using bits b tot by auto
    from set D(7) b tot obtain i k where ik: "i < 64" "k \<in> own i" "blk_at s i k = b" by auto
    then have "k \<in> ?own i" using gone by (cases "i = index") auto
    then show "\<exists>i<64. \<exists>k\<in>?own i. blk_at s' i k = b" using at ik by blast
  next
    assume "\<exists>i<64. \<exists>k\<in>?own i. blk_at s' i k = b"
    then obtain i k where ik: "i < 64" "k \<in> ?own i" "blk_at s i k = b" using at by metis
    then have "bit_get s b" using fs_own_bit [OF assms(1) ik(1) sub [OF ik(2)]] by simp
    moreover have "\<not> (\<exists>l\<in>own index - K. blk_at s index l = b)"
    proof
      assume "\<exists>l\<in>own index - K. blk_at s index l = b"
      then obtain l where l: "l \<in> own index" "l \<notin> K" "blk_at s index l = b" by blast
      with D(8) [OF ik(1) assms(2) sub [OF ik(2)] l(1)] ik(2,3) show False by auto
    qed
    ultimately show "bit_get s' b" using bits b tot by simp
  qed
  have 6: "i = j \<and> k = l" if "i < 64" "j < 64" "k \<in> ?own i" "l \<in> ?own j" "blk_at s' i k = blk_at s' j l" for i j k l
    using D(8) [OF that(1,2) sub [OF that(3)] sub [OF that(4)]] at [OF that(1,3)] at [OF that(2,4)] that(5) by simp
  show ?thesis unfolding fs_own_def using assms(4,5) 1 2 3 4 5 6 by blast
qed

lemma fs_own_release:
  assumes "fs_own own s" "index < MAX_INODES" "k \<in> own index"
  shows "\<exists>s1. free_block (blk_at s index k) s = (Ok (), s1) \<and> fs_inodes s1 = fs_inodes s \<and>
     fs_own (own(index := own index - {k})) (set_block index k 0 s1)"
proof -
  note D = fs_ownD [OF assms(1)]
  let ?b = "blk_at s index k"
  let ?s1 = "(bit_set ?b False s)\<lparr>fs_free := fs_free s + 1\<rparr>"
  have b: "?b < fs_total s" "bit_get s ?b" using D(6) fs_own_bit [OF assms(1)] assms(2,3) by auto
  note f = free_block_used [OF D(2) b]
  have k: "k < 40" and isfile: "kind_at s index = KIND_FILE" using D(3,4) [OF assms(2)] assms(3) by auto
  have wf1: "fs_wf ?s1" using D(1) by (simp add: fs_wf_def)
  note sb = set_block_at [OF wf1 assms(2) k, where b = 0]
  have "fs_own (own(index := own index - {k})) (set_block index k 0 ?s1)"
  proof (rule fs_own_shrink [OF assms(1,2)])
    show "fs_wf (set_block index k 0 ?s1)" using sb(1) by simp
    show "bitmap_ok (set_block index k 0 ?s1)"
      using f(2) by (simp add: bitmap_ok_def set_block_def upd_inode_def)
    show "fs_inodes (set_block index k 0 ?s1) ! i = fs_inodes s ! i" if "i \<noteq> index" for i
      using that by (simp add: set_block_def upd_inode_def)
    show "kind_at s index = KIND_FILE \<and> (\<forall>l<40. blk_at (set_block index k 0 ?s1) index l =
        (if l \<in> own index - {k} then blk_at s index l else 0))"
      using isfile sb(2) [OF assms(2)] D(5) [OF assms(2) isfile] by auto
    show "own index - {k} = {}" if "kind_at (set_block index k 0 ?s1) index \<noteq> KIND_FILE"
      using that sb(3) [OF assms(2)] isfile by simp
    show "bit_get (set_block index k 0 ?s1) b \<longleftrightarrow> bit_get s b \<and>
        \<not> (\<exists>l\<in>own index - (own index - {k}). blk_at s index l = b)" for b
      using f(3) assms(3) by auto
  qed (auto simp: set_block_def upd_inode_def)
  with f(1) show ?thesis by (intro exI [of _ ?s1]) simp
qed

text \<open>The inode table and the owned slots determine the bitmap and the count.\<close>

lemma fs_own_bitmap_unique:
  fixes s s' :: "'d fs"
  assumes "fs_own own s" "fs_own own s'" "fs_inodes s' = fs_inodes s" "fs_total s' = fs_total s"
    "\<And>b. fs_total s \<le> b \<Longrightarrow> b < 16384 \<Longrightarrow> bit_get s' b = bit_get s b"
  shows "fs_bitmap s' = fs_bitmap s" "fs_free s' = fs_free s"
proof -
  have bits: "bit_get s' b = bit_get s b" if "b < 16384" for b
    using fs_ownD(7) [OF assms(1)] fs_ownD(7) [OF assms(2)] assms(3-5) that by (cases "b < fs_total s") auto
  have len: "length (fs_bitmap s) = 2048" "length (fs_bitmap s') = 2048"
    using fs_ownD(2) [OF assms(1)] fs_ownD(2) [OF assms(2)] by (simp_all add: bitmap_ok_def)
  show eq: "fs_bitmap s' = fs_bitmap s"
  proof (rule nth_equalityI)
    fix i assume "i < length (fs_bitmap s')"
    then have i: "i < 2048" using len by simp
    show "fs_bitmap s' ! i = fs_bitmap s ! i"
    proof (rule bit_word_eqI)
      fix n assume n: "n < LENGTH(8)"
      have "bit (fs_bitmap t ! i) n = bit_get t (8 * i + n)" for t :: "'d fs"
        using n by (simp add: bit_get_def bm_get_bit)
      then show "bit (fs_bitmap s' ! i) n = bit (fs_bitmap s ! i) n" using bits [of "8 * i + n"] i n by simp
    qed
  qed (simp add: len)
  then show "fs_free s' = fs_free s"
    using fs_ownD(2) [OF assms(1)] fs_ownD(2) [OF assms(2)] assms(4)
    by (simp add: bitmap_ok_def count_free_def bit_get_def)
qed

section \<open>Allocating for a write, and rolling back\<close>

text \<open>
  Fields that allocation and rollback leave alone, and the bits outside the partition.
\<close>

definition same_rest :: "'d fs \<Rightarrow> 'd fs \<Rightarrow> bool" where
  "same_rest s s' \<longleftrightarrow>
     fs_total s' = fs_total s \<and> fs_scratch s' = fs_scratch s \<and> fs_blk s' = fs_blk s \<and> fs_lba s' = fs_lba s \<and>
     fs_mounted s' = fs_mounted s \<and> fs_writes s' = fs_writes s \<and>
     (\<forall>b\<ge>fs_total s. b < 16384 \<longrightarrow> bit_get s' b = bit_get s b)"

lemma same_rest_refl [simp]: "same_rest s s"
  by (simp add: same_rest_def)

lemma same_rest_trans: "same_rest s s' \<Longrightarrow> same_rest s' s'' \<Longrightarrow> same_rest s s''"
  by (auto simp: same_rest_def)

lemma same_rest_set_block [simp]: "same_rest s (set_block index k b s)"
  by (simp add: same_rest_def) (simp add: set_block_def upd_inode_def)

lemma same_rest_alloc:
  assumes "bitmap_ok s" "alloc_block s = Some (b, s')"
  shows "same_rest s s'"
  using alloc_block_Some(1,4,6) [OF assms] by (simp add: same_rest_def)

lemma same_rest_free:
  assumes "bitmap_ok s" "b < fs_total s" "bit_get s b" "free_block b s = (r, s')"
  shows "same_rest s s'"
  using free_block_used(1,3) [OF assms(1-3)] assms(2,4) by (auto simp: same_rest_def)


text \<open>One inode changes, and only in its block slots from \<open>K\<close>.\<close>

definition blocks_differ :: "nat \<Rightarrow> nat set \<Rightarrow> 'd fs \<Rightarrow> 'd fs \<Rightarrow> bool" where
  "blocks_differ index K s s' \<longleftrightarrow>
     length (fs_inodes s') = length (fs_inodes s) \<and>
     (\<forall>n<MAX_INODES. n \<noteq> index \<longrightarrow> fs_inodes s' ! n = fs_inodes s ! n) \<and>
     fs_inodes s' ! index = (fs_inodes s ! index)\<lparr>i_blocks := i_blocks (fs_inodes s' ! index)\<rparr> \<and>
     length (i_blocks (fs_inodes s' ! index)) = length (i_blocks (fs_inodes s ! index)) \<and>
     (\<forall>k<DIRECT_BLOCKS. k \<notin> K \<longrightarrow> blk_at s' index k = blk_at s index k)"

lemma blocks_differ_refl [simp]: "blocks_differ index K s s"
  by (simp add: blocks_differ_def)

lemma blocks_differ_trans:
  assumes "blocks_differ index K s s'" "blocks_differ index L s' s''"
  shows "blocks_differ index (K \<union> L) s s''"
proof -
  note a = assms [unfolded blocks_differ_def]
  have "fs_inodes s'' ! index = (fs_inodes s ! index)\<lparr>i_blocks := i_blocks (fs_inodes s'' ! index)\<rparr>"
    using a by (metis inode.surjective inode.update_convs(7))
  with a show ?thesis by (simp add: blocks_differ_def)
qed

lemma blocks_differ_mono: "blocks_differ index K s s' \<Longrightarrow> K \<subseteq> L \<Longrightarrow> blocks_differ index L s s'"
  by (auto simp: blocks_differ_def)

lemma blocks_differ_set_block:
  assumes "fs_inodes t = fs_inodes s" "fs_wf s" "index < MAX_INODES"
  shows "blocks_differ index {k} s (set_block index k b t)"
  using fs_wfD(1) [OF assms(2)] assms(1,3) by (simp add: blocks_differ_def set_block_def upd_inode_def)

lemma blocks_differ_same:
  assumes "blocks_differ index K s s'" "fs_wf s" "index < MAX_INODES"
    "\<And>k. k \<in> K \<Longrightarrow> k < DIRECT_BLOCKS \<Longrightarrow> blk_at s' index k = blk_at s index k"
  shows "fs_inodes s' = fs_inodes s"
proof -
  note a = assms(1) [unfolded blocks_differ_def]
  have len: "length (i_blocks (fs_inodes s ! index)) = 40"
    using inode_okD(2) fs_wfD(6) [OF assms(2,3)] by auto
  have "i_blocks (fs_inodes s' ! index) = i_blocks (fs_inodes s ! index)"
  proof (rule nth_equalityI)
    fix k assume "k < length (i_blocks (fs_inodes s' ! index))"
    then show "blk_at s' index k = blk_at s index k" using a len assms(4) by (cases "k \<in> K") auto
  qed (use a in simp)
  then have "fs_inodes s' ! index = fs_inodes s ! index" using a by simp
  then have "fs_inodes s' ! n = fs_inodes s ! n" if "n < 64" for n
    using a that by (cases "n = index") simp_all
  then show ?thesis using a fs_wfD(1) [OF assms(2)] by (intro nth_equalityI) simp_all
qed

lemma blocks_differ_kind:
  "blocks_differ index K s s' \<Longrightarrow> i < MAX_INODES \<Longrightarrow> kind_at s' i = kind_at s i"
  "blocks_differ index K s s' \<Longrightarrow> i < MAX_INODES \<Longrightarrow> size_at s' i = size_at s i"
  unfolding blocks_differ_def by (cases "i = index"; metis inode.select_convs inode.surjective inode.update_convs(7))+

lemma rollback_releases:
  assumes "fs_own own s" "index < MAX_INODES" "{j..<i} \<subseteq> own index"
  shows "\<exists>s'. rollback index j i s = (Ok (), s') \<and> same_rest s s' \<and>
     fs_own (own(index := own index - {j..<i})) s' \<and> blocks_differ index {j..<i} s s'"
  using assms
proof (induction index j i s arbitrary: own rule: rollback.induct)
  case (1 index j i s)
  show ?case
  proof (cases "j < i")
    case False
    then show ?thesis using "1.prems" by (simp add: rollback.simps)
  next
    case True
    note D = fs_ownD [OF "1.prems"(1)]
    have j: "j \<in> own index" using "1.prems"(3) True by auto
    have j40: "j < 40" using D(3) [OF "1.prems"(2)] j by auto
    have len: "length (i_blocks (fs_inodes s ! index)) = 40" 
      using inode_okD(2) fs_wfD(6) [OF D(1)] "1.prems"(2) by auto
    from fs_own_release [OF "1.prems"(1,2) j] obtain s1 where
      f: "free_block (blk_at s index j) s = (Ok (), s1)" "fs_inodes s1 = fs_inodes s"
      and own1: "fs_own (own(index := own index - {j})) (set_block index j 0 s1)" by blast
    let ?t = "set_block index j 0 s1" and ?own = "own(index := own index - {j})"
    have same: "same_rest s ?t"
      using same_rest_free [OF D(2) D(6) [OF "1.prems"(2) j] fs_own_bit [OF "1.prems"(1,2) j] f(1)]
        same_rest_trans same_rest_set_block by blast
    have diff: "blocks_differ index {j} s ?t" by (rule blocks_differ_set_block [OF f(2) D(1) "1.prems"(2)])
    have sub: "{Suc j..<i} \<subseteq> ?own index" using "1.prems"(3) by auto
    have "\<exists>s'. rollback index (Suc j) i ?t = (Ok (), s') \<and> same_rest ?t s' \<and>
       fs_own (?own(index := ?own index - {Suc j..<i})) s' \<and> blocks_differ index {Suc j..<i} ?t s'"
      by (rule "1.IH"(1) [OF True _ own1 "1.prems"(2) sub]) (use len j40 in simp)
    then obtain s' where s': "rollback index (Suc j) i ?t = (Ok (), s')" "same_rest ?t s'"
       "fs_own (?own(index := ?own index - {Suc j..<i})) s'" "blocks_differ index {Suc j..<i} ?t s'" by blast
    have "?own(index := ?own index - {Suc j..<i}) = own(index := own index - {j..<i})"
      using True by (auto simp: fun_eq_iff)
    then have own': "fs_own (own(index := own index - {j..<i})) s'" using s'(3) by (simp only:)
    have run: "rollback index j i s = (Ok (), s')"
      using True len j40 f(1) s'(1) by (simp add: rollback.simps [of index j i s])
    have "blocks_differ index {j..<i} s s'"
      using blocks_differ_mono [OF blocks_differ_trans [OF diff s'(4)]] True by simp
    with run same_rest_trans [OF same s'(2)] own' show ?thesis by blast
  qed
qed

text \<open>
  \<open>write_alloc\<close> extends the owned prefix of the file to \<open>needed\<close> blocks when there are that many
  free ones; otherwise it gives back what it took.
\<close>

lemma write_alloc_enough:
  assumes "fs_own own s" "index < MAX_INODES" "kind_at s index = KIND_FILE" "own index = {..<i}"
    "i \<le> needed" "needed \<le> DIRECT_BLOCKS" "needed - i \<le> fs_free s"
  shows "\<exists>s'. write_alloc index have_n i needed s = (Ok (), s') \<and> same_rest s s' \<and>
     fs_own (own(index := {..<needed})) s' \<and> blocks_differ index {i..<needed} s s' \<and>
     fs_free s' = fs_free s - (needed - i)"
  using assms
proof (induction index have_n i needed s arbitrary: own rule: write_alloc.induct)
  case (1 index have_n i needed s)
  show ?case
  proof (cases "i < needed")
    case False
    then have "needed = i" using "1.prems"(5) by simp
    then have "own(index := {..<needed}) = own" using "1.prems"(4) fun_upd_triv by metis
    with False "1.prems"(1) show ?thesis
      by (intro exI [of _ s]) (simp add: write_alloc.simps [of index have_n i needed s] del: fun_upd_apply)
  next
    case True
    note D = fs_ownD [OF "1.prems"(1)]
    have "fs_free s \<noteq> 0" using True "1.prems"(7) by simp
    then obtain b s1 where a: "alloc_block s = Some (b, s1)"
      using alloc_block_full [OF D(2)] by (cases "alloc_block s") auto
    note A = alloc_block_Some [OF D(2) a]
    have in1: "fs_inodes s1 = fs_inodes s" by (simp add: A(6))
    have i40: "i < 40" using True "1.prems"(6) by simp
    have len: "length (i_blocks (fs_inodes s1 ! index)) = 40"
      using inode_okD(2) fs_wfD(6) [OF D(1)] "1.prems"(2) in1 by auto
    let ?t = "set_block index i b s1" and ?own = "own(index := insert i (own index))"
    have own1: "fs_own ?own ?t"
      by (rule fs_own_alloc [OF "1.prems"(1) a "1.prems"(2,3) i40]) (simp add: "1.prems"(4))
    have diff: "blocks_differ index {i} s ?t" by (rule blocks_differ_set_block [OF in1 D(1) "1.prems"(2)])
    have same: "same_rest s ?t" using same_rest_alloc [OF D(2) a] same_rest_trans same_rest_set_block by blast
    have free: "fs_free ?t = fs_free s - 1" by (simp add: A(6) set_block_def upd_inode_def)
    have ownI: "?own index = {..<Suc i}" using "1.prems"(4) by (simp add: lessThan_Suc)
    have kind: "kind_at ?t index = KIND_FILE" using blocks_differ_kind(1) [OF diff "1.prems"(2)] "1.prems"(3) by simp
    have "\<exists>s'. write_alloc index have_n (Suc i) needed ?t = (Ok (), s') \<and> same_rest ?t s' \<and>
       fs_own (?own(index := {..<needed})) s' \<and> blocks_differ index {Suc i..<needed} ?t s' \<and>
       fs_free s' = fs_free ?t - (needed - Suc i)"
      by (rule "1.IH"(1) [OF True a refl _ own1 "1.prems"(2) kind ownI])
         (use True len i40 free "1.prems"(6,7) in simp_all)
    then obtain s' where s': "write_alloc index have_n (Suc i) needed ?t = (Ok (), s')" "same_rest ?t s'"
       "fs_own (?own(index := {..<needed})) s'" "blocks_differ index {Suc i..<needed} ?t s'"
       "fs_free s' = fs_free ?t - (needed - Suc i)" by blast
    have run: "write_alloc index have_n i needed s = (Ok (), s')"
      using True a len i40 s'(1) by (simp add: write_alloc.simps [of index have_n i needed s])
    have own': "fs_own (own(index := {..<needed})) s'" using s'(3) by simp
    have "blocks_differ index {i..<needed} s s'"
      using blocks_differ_mono [OF blocks_differ_trans [OF diff s'(4)]] True by simp
    moreover have "fs_free s' = fs_free s - (needed - i)" using s'(5) free True by simp
    ultimately show ?thesis using run own' same_rest_trans [OF same s'(2)] by blast
  qed
qed

lemma write_alloc_short:
  assumes "fs_own own s" "index < MAX_INODES" "kind_at s index = KIND_FILE" "own index = {..<i}" "have_n \<le> i"
    "needed \<le> DIRECT_BLOCKS" "fs_free s < needed - i"
  shows "\<exists>s'. write_alloc index have_n i needed s = (Err Full, s') \<and> same_rest s s' \<and>
     fs_own (own(index := {..<have_n})) s' \<and> blocks_differ index {have_n..<needed} s s'"
  using assms
proof (induction index have_n i needed s arbitrary: own rule: write_alloc.induct)
  case (1 index have_n i needed s)
  have True: "i < needed" using "1.prems"(7) by simp
  note D = fs_ownD [OF "1.prems"(1)]
  show ?case
  proof (cases "alloc_block s")
    case None
    have sub: "{have_n..<i} \<subseteq> own index" unfolding "1.prems"(4) by auto
    from rollback_releases [OF "1.prems"(1,2) sub] obtain s' where
      r: "rollback index have_n i s = (Ok (), s')" "same_rest s s'"
         "fs_own (own(index := own index - {have_n..<i})) s'" "blocks_differ index {have_n..<i} s s'" by blast
    have "own index - {have_n..<i} = {..<have_n}" unfolding "1.prems"(4) using "1.prems"(5) by auto
    with r None True show ?thesis
      using blocks_differ_mono [OF r(4), of "{have_n..<needed}"]
      by (intro exI [of _ s']) (simp add: write_alloc.simps [of index have_n i needed s] del: fun_upd_apply)
  next
    case (Some p)
    then obtain b s1 where a: "alloc_block s = Some (b, s1)" by (cases p) auto
    note A = alloc_block_Some [OF D(2) a]
    have in1: "fs_inodes s1 = fs_inodes s" by (simp add: A(6))
    have i40: "i < 40" using True "1.prems"(6) by simp
    have len: "length (i_blocks (fs_inodes s1 ! index)) = 40"
      using inode_okD(2) fs_wfD(6) [OF D(1)] "1.prems"(2) in1 by auto
    let ?t = "set_block index i b s1" and ?own = "own(index := insert i (own index))"
    have own1: "fs_own ?own ?t"
      by (rule fs_own_alloc [OF "1.prems"(1) a "1.prems"(2,3) i40]) (simp add: "1.prems"(4))
    have diff: "blocks_differ index {i} s ?t" by (rule blocks_differ_set_block [OF in1 D(1) "1.prems"(2)])
    have same: "same_rest s ?t" using same_rest_alloc [OF D(2) a] same_rest_trans same_rest_set_block by blast
    have free: "fs_free s = fs_free ?t + 1" using A(7) by (simp add: set_block_def upd_inode_def)
    have ownI: "?own index = {..<Suc i}" using "1.prems"(4) by (simp add: lessThan_Suc)
    have kind: "kind_at ?t index = KIND_FILE" using blocks_differ_kind(1) [OF diff "1.prems"(2)] "1.prems"(3) by simp
    have "\<exists>s'. write_alloc index have_n (Suc i) needed ?t = (Err Full, s') \<and> same_rest ?t s' \<and>
       fs_own (?own(index := {..<have_n})) s' \<and> blocks_differ index {have_n..<needed} ?t s'"
      by (rule "1.IH"(1) [OF True a refl _ own1 "1.prems"(2) kind ownI])
         (use True len i40 free "1.prems"(5,6,7) in simp_all)
    then obtain s' where s': "write_alloc index have_n (Suc i) needed ?t = (Err Full, s')" "same_rest ?t s'"
       "fs_own (?own(index := {..<have_n})) s'" "blocks_differ index {have_n..<needed} ?t s'" by blast
    have run: "write_alloc index have_n i needed s = (Err Full, s')"
      using True a len i40 s'(1) by (simp add: write_alloc.simps [of index have_n i needed s])
    have own': "fs_own (own(index := {..<have_n})) s'" using s'(3) by simp
    have "{i} \<union> {have_n..<needed} = {have_n..<needed}" using True "1.prems"(5) by auto
    with blocks_differ_trans [OF diff s'(4)] have "blocks_differ index {have_n..<needed} s s'" by simp
    then show ?thesis using run own' same_rest_trans [OF same s'(2)] by blast
  qed
qed

end
