(* ===== verification/TcmkfsData.thy ===== *)
theory TcmkfsData imports TcmkfsAlloc begin

text \<open>
  The contents of files in \<^verbatim>\<open>core/tcmkfs.rs\<close>: a file is the list of bytes in its blocks, up to its
  size; \<open>fs_read\<close> returns a part of that list and \<open>fs_write\<close> replaces one.
\<close>

section \<open>Bytes of a block list\<close>

definition data_byte :: "(nat \<Rightarrow> byte list) \<Rightarrow> 'd fs \<Rightarrow> nat list \<Rightarrow> nat \<Rightarrow> byte" where
  "data_byte f s bs p = sectors_at f (block_lba s (bs ! (p div BLOCK_SIZE))) SECTORS_PER_BLOCK ! (p mod BLOCK_SIZE)"

definition file_data :: "(nat \<Rightarrow> byte list) \<Rightarrow> 'd fs \<Rightarrow> nat \<Rightarrow> byte list" where
  "file_data f s i = map (data_byte f s (i_blocks (fs_inodes s ! i))) [0..<size_at s i]"

lemma file_data_length [simp]: "length (file_data f s i) = size_at s i"
  by (simp add: file_data_def)

lemma file_data_nth: "p < size_at s i \<Longrightarrow> file_data f s i ! p = data_byte f s (i_blocks (fs_inodes s ! i)) p"
  by (simp add: file_data_def)

text \<open>The transfer loops touch the scratch block, the write counter and the device only.\<close>

definition io_only :: "'d fs \<Rightarrow> 'd fs \<Rightarrow> bool" where
  "io_only s s' \<longleftrightarrow>
     fs_inodes s' = fs_inodes s \<and> fs_bitmap s' = fs_bitmap s \<and> fs_lba s' = fs_lba s \<and>
     fs_total s' = fs_total s \<and> fs_free s' = fs_free s \<and> fs_mounted s' = fs_mounted s"

lemma io_onlyD:
  assumes "io_only s s'"
  shows "fs_inodes s' = fs_inodes s" "fs_bitmap s' = fs_bitmap s" "fs_lba s' = fs_lba s" "fs_total s' = fs_total s"
    "fs_free s' = fs_free s" "fs_mounted s' = fs_mounted s" "block_lba s' = block_lba s" "data_byte f s' = data_byte f s"
  using assms by (simp_all add: io_only_def block_lba_def data_byte_def fun_eq_iff)

lemma io_only_trans: "io_only s s' \<Longrightarrow> io_only s' s'' \<Longrightarrow> io_only s s''"
  by (simp add: io_only_def)

lemma io_only_refl [simp]: "io_only s s"
  by (simp add: io_only_def)

lemma io_only_update [simp]:
  "io_only s (s\<lparr>fs_scratch := x\<rparr>)" "io_only s (s\<lparr>fs_blk := y\<rparr>)" "io_only s (s\<lparr>fs_writes := z\<rparr>)"
  by (simp_all add: io_only_def)

lemma read_block_healthy:
  assumes "fs_disk ok sect reg f s" "b < fs_total s"
  shows "\<exists>s'. read_block b s = (Ok (), s') \<and> fs_scratch s' = sectors_at f (block_lba s b) SECTORS_PER_BLOCK \<and>
     io_only s s' \<and> fs_disk ok sect reg f s'"
proof -
  note d = fs_diskD [OF assms(1)]
  note lba = block_lba_exact [OF d(2) assms(2)]
  from fs_read_sectors_healthy [OF d(3) _ _ lba(2), of "fs_scratch s"] fs_wfD(4) [OF d(1)]
  obtain blk where r: "fs_read_sectors (block_lba s b) 8 (fs_scratch s) s =
      (Ok (), sectors_at f (block_lba s b) 8, s\<lparr>fs_blk := blk\<rparr>)" "shows_disk ok sect reg blk f" by auto
  have "length (sectors_at f (block_lba s b) 8) = 4096" using length_sectors_at [of f] d(4) by simp
  then show ?thesis using r d(1,2) by (simp add: read_block_def fs_disk_def fs_wf_def fs_geom_def io_only_def)
qed

lemma write_block_healthy:
  assumes "fs_disk ok sect reg f s" "b < fs_total s"
  shows "\<exists>s'. write_block b s = (Ok (), s') \<and> fs_scratch s' = fs_scratch s \<and> io_only s s' \<and>
     fs_disk ok sect reg (put_sectors (block_lba s b) SECTORS_PER_BLOCK (fs_scratch s) f) s'"
proof -
  note d = fs_diskD [OF assms(1)]
  note lba = block_lba_exact [OF d(2) assms(2)]
  let ?s = "s\<lparr>fs_writes := w32 (fs_writes s + 1)\<rparr>"
  have lba': "block_lba ?s b = block_lba s b" by (simp add: block_lba_def)
  from fs_write_sectors_healthy [of ok sect reg ?s f 8 "block_lba s b" "fs_scratch s"] fs_wfD(4) [OF d(1)] d(3) lba(2)
  obtain blk where r: "fs_write_sectors (block_lba s b) 8 (fs_scratch s) ?s = (Ok (), ?s\<lparr>fs_blk := blk\<rparr>)"
    "shows_disk ok sect reg blk (put_sectors (block_lba s b) 8 (fs_scratch s) f)" by auto
  then show ?thesis using d(1,2) lba'
    by (simp add: write_block_def fs_disk_def fs_wf_def fs_geom_def io_only_def Let_def)
qed

text \<open>Different blocks lie on different sectors.\<close>

lemma block_lba_apart:
  assumes "fs_geom reg s" "b < fs_total s" "c < fs_total s" "b \<noteq> c"
  shows "block_lba s b + SECTORS_PER_BLOCK \<le> block_lba s c \<or> block_lba s c + SECTORS_PER_BLOCK \<le> block_lba s b"
  using block_lba_exact(1) [OF assms(1,2)] block_lba_exact(1) [OF assms(1,3)] assms(4) by linarith

lemma within_block:
  assumes "p mod BLOCK_SIZE + k < BLOCK_SIZE"
  shows "(p + k) div BLOCK_SIZE = p div BLOCK_SIZE" "(p + k) mod BLOCK_SIZE = p mod BLOCK_SIZE + k"
proof -
  define q r where "q = p div 4096" and "r = p mod 4096"
  have e: "p + k = q * 4096 + (r + k)" by (simp add: q_def r_def)
  have r: "r + k < 4096" using assms by (simp add: r_def)
  have "(q * 4096 + (r + k)) div 4096 = q" "(q * 4096 + (r + k)) mod 4096 = r + k"
    using r by simp_all
  then show "(p + k) div BLOCK_SIZE = p div BLOCK_SIZE" "(p + k) mod BLOCK_SIZE = p mod BLOCK_SIZE + k"
    by (simp_all only: e q_def r_def)
qed

section \<open>Reading\<close>

lemma read_loop_data:
  assumes "fs_disk ok sect reg f s" "length (i_blocks n) = DIRECT_BLOCKS"
    "\<And>k. k < block_count (offset + to_read) \<Longrightarrow> i_blocks n ! k < fs_total s"
    "offset + to_read \<le> MAX_FILE_SIZE" "d \<le> to_read" "to_read \<le> length buf"
  shows "\<exists>s'. read_loop n offset to_read d buf s =
       (Ok to_read, take d buf @ map (data_byte f s (i_blocks n)) [offset + d..<offset + to_read]
          @ drop to_read buf, s') \<and>
     io_only s s' \<and> fs_disk ok sect reg f s'"
  using assms
proof (induction n offset to_read d buf s rule: read_loop.induct)
  case (1 n offset to_read d buf s)
  show ?case
  proof (cases "d < to_read")
    case False
    then have "d = to_read" using "1.prems"(5) by simp
    then show ?thesis using "1.prems"(1) by (intro exI [of _ s]) (simp add: read_loop.simps [of n offset to_read to_read])
  next
    case True
    let ?p = "offset + d"
    define c where "c = chunk_at ?p (to_read - d)"
    have c: "0 < c" "d + c \<le> to_read" "?p mod 4096 + c \<le> 4096"
      using chunk_at_bounds [where left = "to_read - d" and p = ?p] True by (auto simp: c_def)
    have bi: "?p div 4096 < block_count (offset + to_read)"
      unfolding block_count_def using True by (simp add: div_le_mono div_less_iff_less_mult) 
    have bi40: "?p div 4096 < 40" using "1.prems"(4) True by (simp add: div_less_iff_less_mult)
    let ?b = "i_blocks n ! (?p div 4096)"
    from read_block_healthy [OF "1.prems"(1) "1.prems"(3) [OF bi]] obtain s1 where
      r: "read_block ?b s = (Ok (), s1)" "fs_scratch s1 = sectors_at f (block_lba s ?b) 8" "io_only s s1"
         "fs_disk ok sect reg f s1" by blast
    let ?chunk = "take c (drop (?p mod 4096) (fs_scratch s1))"
    let ?buf = "take d buf @ ?chunk @ drop (d + c) buf"
    have len: "length (fs_scratch s1) = 4096" using fs_diskD(1) [OF r(4)] by (simp add: fs_wf_def)
    have chunk: "?chunk = map (data_byte f s (i_blocks n)) [?p..<?p + c]"
    proof (rule nth_equalityI)
      show "length ?chunk = length (map (data_byte f s (i_blocks n)) [?p..<?p + c])" using len c(3) by simp
      fix k assume "k < length ?chunk"
      then have k: "k < c" by simp
      then have "?p mod 4096 + k < 4096" using c(3) by linarith
      then have "(?p + k) div 4096 = ?p div 4096" "(?p + k) mod 4096 = ?p mod 4096 + k"
        by (rule within_block)+
      then show "?chunk ! k = map (data_byte f s (i_blocks n)) [?p..<?p + c] ! k"
        using k len c(3) by (simp add: data_byte_def r(2))
    qed
    have lb: "length ?buf = length buf" using c "1.prems"(5,6) len by simp
    have "\<exists>s'. read_loop n offset to_read (d + c) ?buf s1 =
       (Ok to_read, take (d + c) ?buf @ map (data_byte f s1 (i_blocks n)) [offset + (d + c)..<offset + to_read]
          @ drop to_read ?buf, s') \<and> io_only s1 s' \<and> fs_disk ok sect reg f s'"
      unfolding c_def
      by (rule "1.IH" [OF True refl refl refl _ r(1) [symmetric] refl])
         (use r(3,4) "1.prems" bi40 c lb io_onlyD(4) [OF r(3)] in \<open>simp_all add: c_def\<close>)
    then obtain s' where s': "read_loop n offset to_read (d + c) ?buf s1 =
       (Ok to_read, take (d + c) ?buf @ map (data_byte f s1 (i_blocks n)) [offset + (d + c)..<offset + to_read]
          @ drop to_read ?buf, s')" "io_only s1 s'" "fs_disk ok sect reg f s'" by blast
    have "take (d + c) ?buf = take d buf @ map (data_byte f s (i_blocks n)) [?p..<?p + c]"
      using c "1.prems"(6) len by (simp add: chunk [symmetric])
    moreover have "drop to_read ?buf = drop to_read buf" using c "1.prems"(6) len by simp
    moreover have "[?p..<offset + to_read] = [?p..<?p + c] @ [offset + (d + c)..<offset + to_read]"
      using c(2) upt_add_eq_append [of ?p "?p + c" "to_read - d - c"] by (simp add: add.assoc)
    moreover have "read_loop n offset to_read d buf s = read_loop n offset to_read (d + c) ?buf s1"
      using True "1.prems"(2) bi40 r(1) by (simp add: read_loop.simps [of n offset to_read d] c_def Let_def)
    ultimately show ?thesis
      using s' io_only_trans [OF r(3) s'(2)] io_onlyD(8) [OF r(3)] by (intro exI [of _ s']) simp
  qed
qed

section \<open>Writing\<close>

text \<open>
  \<open>untouched\<close>: outside the blocks \<open>K\<close> of the list the disk is as it was.
\<close>

definition untouched :: "(nat \<Rightarrow> byte list) \<Rightarrow> 'd fs \<Rightarrow> nat list \<Rightarrow> nat set \<Rightarrow> (nat \<Rightarrow> byte list) \<Rightarrow> bool" where
  "untouched f s bs K f' \<longleftrightarrow>
     (\<forall>l. (\<forall>k\<in>K. \<not> (block_lba s (bs ! k) \<le> l \<and> l < block_lba s (bs ! k) + SECTORS_PER_BLOCK)) \<longrightarrow> f' l = f l)"

lemma untouched_refl [simp]: "untouched f s bs K f"
  by (simp add: untouched_def)

lemma untouched_trans:
  "untouched f s bs K f' \<Longrightarrow> untouched f' s bs L f'' \<Longrightarrow> K \<union> L \<subseteq> M \<Longrightarrow> untouched f s bs M f''"
  unfolding untouched_def by (metis UnCI subsetD)

lemma data_byte_put:
  assumes "fs_geom reg s" "bs ! k < fs_total s" "bs ! (p div BLOCK_SIZE) < fs_total s"
    "bs ! k = bs ! (p div BLOCK_SIZE) \<Longrightarrow> p div BLOCK_SIZE = k" "length buf = BLOCK_SIZE"
  shows "data_byte (put_sectors (block_lba s (bs ! k)) SECTORS_PER_BLOCK buf f) s bs p =
     (if p div BLOCK_SIZE = k then buf ! (p mod BLOCK_SIZE) else data_byte f s bs p)"
proof (cases "p div BLOCK_SIZE = k")
  case True
  have "sectors_at (put_sectors (block_lba s (bs ! k)) 8 buf f) (block_lba s (bs ! k)) 8 = take (8 * 512) buf"
    by (rule sectors_at_put_same) (simp_all add: assms(5))
  then show ?thesis using True assms(5) by (simp add: data_byte_def)
next
  case False
  then have "bs ! k \<noteq> bs ! (p div 4096)" using assms(4) by blast
  from block_lba_apart [OF assms(1-3) this]
  show ?thesis using False by (auto simp: data_byte_def sectors_at_put_other)
qed

text \<open>What the scratch block holds when the new bytes go in.\<close>

lemma load_scratch_healthy:
  assumes "fs_disk ok sect reg f s" "have_n \<le> DIRECT_BLOCKS" "length (i_blocks (fs_inodes s ! index)) = DIRECT_BLOCKS"
    "k < have_n \<Longrightarrow> blk_at s index k < fs_total s"
  shows "\<exists>s'. load_scratch index have_n k c s = (Ok (), s') \<and> io_only s s' \<and> fs_disk ok sect reg f s' \<and>
     length (fs_scratch s') = BLOCK_SIZE \<and>
     (c < BLOCK_SIZE \<longrightarrow> k < have_n \<longrightarrow> fs_scratch s' = sectors_at f (block_lba s (blk_at s index k)) SECTORS_PER_BLOCK)"
proof (cases "c < 4096 \<and> k < have_n")
  case True
  from read_block_healthy [OF assms(1) assms(4)] True obtain s1 where
    "read_block (blk_at s index k) s = (Ok (), s1)" "fs_scratch s1 = sectors_at f (block_lba s (blk_at s index k)) 8"
    "io_only s s1" "fs_disk ok sect reg f s1" by blast
  moreover from this have "length (fs_scratch s1) = 4096" using fs_diskD(1) fs_wfD(4) by blast
  ultimately show ?thesis using True assms(2,3) by (intro exI [of _ s1]) (simp add: load_scratch_def)
next
  case False
  have "fs_disk ok sect reg f (s\<lparr>fs_scratch := replicate 4096 0\<rparr>)"
    using assms(1) by (simp add: fs_disk_def fs_wf_def fs_geom_def)
  then show ?thesis using False assms(1) fs_wfD(4) [OF fs_diskD(1) [OF assms(1)]]
    by (cases "c < 4096") (auto simp: load_scratch_def)
qed

text \<open>One turn of the write loop.\<close>

definition turn_block :: "nat \<Rightarrow> nat \<Rightarrow> byte list \<Rightarrow> nat \<Rightarrow> byte list \<Rightarrow> byte list" where
  "turn_block ib c data d scratch = take ib scratch @ take c (drop d data) @ drop (ib + c) scratch"

lemma write_turn:
  assumes "fs_disk ok sect reg f s" "length (i_blocks (fs_inodes s ! index)) = DIRECT_BLOCKS" "have_n \<le> DIRECT_BLOCKS"
    "\<And>k. k < needed \<Longrightarrow> blk_at s index k < fs_total s" "have_n \<le> needed" "needed \<le> DIRECT_BLOCKS"
    "d < length data" "p = offset + d" "p div BLOCK_SIZE < needed" "offset + length data \<le> MAX_FILE_SIZE"
    "c = chunk_at p (length data - d)"
  shows "\<exists>s1 B. write_loop index offset have_n data d s = write_loop index offset have_n data (d + c) s1 \<and>
     io_only s s1 \<and> length B = BLOCK_SIZE \<and>
     fs_disk ok sect reg (put_sectors (block_lba s (blk_at s index (p div BLOCK_SIZE))) SECTORS_PER_BLOCK B f) s1 \<and>
     (\<forall>x<BLOCK_SIZE. p mod BLOCK_SIZE \<le> x \<longrightarrow> x < p mod BLOCK_SIZE + c \<longrightarrow> B ! x = data ! (d + (x - p mod BLOCK_SIZE))) \<and>
     (\<forall>x<BLOCK_SIZE. \<not> (p mod BLOCK_SIZE \<le> x \<and> x < p mod BLOCK_SIZE + c) \<longrightarrow> p div BLOCK_SIZE < have_n \<longrightarrow>
        B ! x = sectors_at f (block_lba s (blk_at s index (p div BLOCK_SIZE))) SECTORS_PER_BLOCK ! x)"
proof -
  let ?k = "p div 4096" and ?ib = "p mod 4096"
  have c: "0 < c" "d + c \<le> length data" "?ib + c \<le> 4096"
    using chunk_at_bounds [where left = "length data - d" and p = p] assms(7,11) by auto
  have p64: "(offset + d) mod 2 ^ 64 = p" using assms(7,8,10) by simp
  have k: "blk_at s index ?k < fs_total s" "?k < 40" using assms(4,6,9) by auto
  from load_scratch_healthy [OF assms(1,3,2) k(1), of c] obtain s1 where
    l: "load_scratch index have_n ?k c s = (Ok (), s1)" "io_only s s1" "fs_disk ok sect reg f s1"
       "length (fs_scratch s1) = 4096"
    and old: "c < 4096 \<longrightarrow> ?k < have_n \<longrightarrow> fs_scratch s1 = sectors_at f (block_lba s (blk_at s index ?k)) 8"
    by blast
  define B where "B = turn_block ?ib c data d (fs_scratch s1)"
  have lenB: "length B = 4096" using l(4) c by (simp add: B_def turn_block_def)
  let ?s2 = "s1\<lparr>fs_scratch := B\<rparr>"
  have d2: "fs_disk ok sect reg f ?s2" using l(3) lenB by (simp add: fs_disk_def fs_wf_def fs_geom_def)
  have at: "fs_inodes s1 = fs_inodes s" "fs_total s1 = fs_total s" "block_lba s1 = block_lba s"
    using io_onlyD [OF l(2)] by auto
  have "block_lba ?s2 = block_lba s" using at(3) by (simp add: block_lba_def fun_eq_iff)
  with write_block_healthy [OF d2, of "blk_at s index ?k"] k at obtain s3 where
    w: "write_block (blk_at s index ?k) ?s2 = (Ok (), s3)" "io_only ?s2 s3"
       "fs_disk ok sect reg (put_sectors (block_lba s (blk_at s index ?k)) 8 B f) s3" by auto
  have run: "write_loop index offset have_n data d s = write_loop index offset have_n data (d + c) s3"
    using assms(2,7) p64 l(1) w(1) k(2) at
    by (simp add: write_loop.simps [of index offset have_n data d] assms(11) [symmetric] Let_def
        B_def [unfolded turn_block_def] turn_block_def)
  have "io_only s s3" using l(2) w(2) io_only_update(1) io_only_trans by blast
  moreover have "B ! x = data ! (d + (x - ?ib))" if "?ib \<le> x" "x < ?ib + c" for x
  proof -
    define y where "y = x - ?ib"
    have y: "x = ?ib + y" "y < c" unfolding y_def using that by linarith+
    have len: "length (take ?ib (fs_scratch s1)) = ?ib" "length (take c (drop d data)) = c" using c l(4) by auto
    have "B ! x = (take c (drop d data) @ drop (?ib + c) (fs_scratch s1)) ! y"
      unfolding B_def turn_block_def y(1)
      by (rule nth_append_length_plus [of "take ?ib (fs_scratch s1)" _ y, unfolded len(1)])
    also have "\<dots> = data ! (d + y)" using y(2) len(2) c(2) by (simp add: nth_append)
    finally show ?thesis using y(1) by simp
  qed
  moreover have "B ! x = sectors_at f (block_lba s (blk_at s index ?k)) 8 ! x"
    if "x < 4096" "\<not> (?ib \<le> x \<and> x < ?ib + c)" "?k < have_n" for x
  proof -
    have "c < 4096" using that(1,2) c(3) by linarith
    then have "fs_scratch s1 = sectors_at f (block_lba s (blk_at s index ?k)) 8" using old that(3) by simp
    moreover have "B ! x = fs_scratch s1 ! x"
      using that(1,2) c l(4) by (auto simp: B_def turn_block_def nth_append)
    ultimately show ?thesis by simp
  qed
  ultimately show ?thesis using run w(3) lenB by (intro exI [of _ s3] exI [of _ B]) simp
qed


lemma write_loop_data:
  assumes "fs_disk ok sect reg f s" "length (i_blocks (fs_inodes s ! index)) = DIRECT_BLOCKS"
    "have_n \<le> n" "n \<le> DIRECT_BLOCKS" "\<And>k. k < n \<Longrightarrow> blk_at s index k < fs_total s"
    "\<And>k l. k < n \<Longrightarrow> l < n \<Longrightarrow> blk_at s index k = blk_at s index l \<Longrightarrow> k = l"
    "d \<le> length data" "offset + length data \<le> n * BLOCK_SIZE"
  shows "\<exists>f' s'. write_loop index offset have_n data d s = (Ok (length data), s') \<and> io_only s s' \<and>
     fs_disk ok sect reg f' s' \<and> untouched f s (i_blocks (fs_inodes s ! index)) {..<n} f' \<and>
     (\<forall>p. offset + d \<le> p \<longrightarrow> p < offset + length data \<longrightarrow>
        data_byte f' s (i_blocks (fs_inodes s ! index)) p = data ! (p - offset)) \<and>
     (\<forall>p. p div BLOCK_SIZE < n \<longrightarrow> \<not> (offset + d \<le> p \<and> p < offset + length data) \<longrightarrow>
        p div BLOCK_SIZE < have_n \<or> p div BLOCK_SIZE < (offset + d) div BLOCK_SIZE \<longrightarrow>
        data_byte f' s (i_blocks (fs_inodes s ! index)) p = data_byte f s (i_blocks (fs_inodes s ! index)) p)"
  using assms
proof (induction "length data - d" arbitrary: d s f rule: less_induct)
  case (less d s f)
  let ?bs = "i_blocks (fs_inodes s ! index)"
  show ?case
  proof (cases "d < length data")
    case False
    then have "d = length data" using less.prems(7) by simp
    then show ?thesis using less.prems(1)
      by (intro exI [of _ f] exI [of _ s]) (simp add: write_loop.simps [of index offset have_n data "length data"])
  next
    case True
    define p0 where "p0 = offset + d"
    define c where "c = chunk_at p0 (length data - d)"
    let ?k = "p0 div 4096" and ?ib = "p0 mod 4096"
    have c: "0 < c" "d + c \<le> length data" "?ib + c \<le> 4096"
      using chunk_at_bounds [where left = "length data - d" and p = p0] True by (auto simp: c_def)
    have end_lt: "p0 < n * 4096" using True less.prems(8) by (simp add: p0_def)
    then have k: "?k < n" by (simp add: div_less_iff_less_mult)
    have "offset + length data \<le> 163840" using less.prems(4,8) by simp
    from write_turn [OF less.prems(1,2) _ less.prems(5,3,4) True p0_def k this c_def] less.prems(3,4)
    obtain s1 B where
      run: "write_loop index offset have_n data d s = write_loop index offset have_n data (d + c) s1"
      and io: "io_only s s1" and lenB: "length B = 4096"
      and disk: "fs_disk ok sect reg (put_sectors (block_lba s (?bs ! ?k)) 8 B f) s1"
      and new: "\<And>x. x < 4096 \<Longrightarrow> ?ib \<le> x \<Longrightarrow> x < ?ib + c \<Longrightarrow> B ! x = data ! (d + (x - ?ib))"
      and old: "\<And>x. x < 4096 \<Longrightarrow> \<not> (?ib \<le> x \<and> x < ?ib + c) \<Longrightarrow> ?k < have_n \<Longrightarrow>
          B ! x = sectors_at f (block_lba s (?bs ! ?k)) 8 ! x" by (auto simp: le_trans)
    note I = io_onlyD [OF io]
    let ?f1 = "put_sectors (block_lba s (?bs ! ?k)) 8 B f"
    have un1: "untouched f s ?bs {..<n} ?f1" using k by (auto simp: untouched_def put_sectors_def)
    have byte1: "data_byte ?f1 s ?bs p = (if p div 4096 = ?k then B ! (p mod 4096) else data_byte f s ?bs p)"
      if "p div 4096 < n" for p
      by (rule data_byte_put [OF fs_diskD(2) [OF less.prems(1)] less.prems(5) [OF k] less.prems(5) [OF that] _ lenB])
         (use less.prems(6) [OF that k] in auto)
    have "\<exists>f' s'. write_loop index offset have_n data (d + c) s1 = (Ok (length data), s') \<and> io_only s1 s' \<and>
     fs_disk ok sect reg f' s' \<and> untouched ?f1 s1 (i_blocks (fs_inodes s1 ! index)) {..<n} f' \<and>
     (\<forall>p. offset + (d + c) \<le> p \<longrightarrow> p < offset + length data \<longrightarrow>
        data_byte f' s1 (i_blocks (fs_inodes s1 ! index)) p = data ! (p - offset)) \<and>
     (\<forall>p. p div BLOCK_SIZE < n \<longrightarrow> \<not> (offset + (d + c) \<le> p \<and> p < offset + length data) \<longrightarrow>
        p div BLOCK_SIZE < have_n \<or> p div BLOCK_SIZE < (offset + (d + c)) div BLOCK_SIZE \<longrightarrow>
        data_byte f' s1 (i_blocks (fs_inodes s1 ! index)) p = data_byte ?f1 s1 (i_blocks (fs_inodes s1 ! index)) p)"
      by (rule less.hyps [OF _ disk]) (use True c less.prems I in simp_all)
    then obtain f' s' where R: "write_loop index offset have_n data (d + c) s1 = (Ok (length data), s')" "io_only s1 s'"
       "fs_disk ok sect reg f' s'" "untouched ?f1 s ?bs {..<n} f'"
       and R1: "\<And>p. offset + (d + c) \<le> p \<Longrightarrow> p < offset + length data \<Longrightarrow> data_byte f' s ?bs p = data ! (p - offset)"
       and R2: "\<And>p. p div BLOCK_SIZE < n \<Longrightarrow> \<not> (offset + (d + c) \<le> p \<and> p < offset + length data) \<Longrightarrow>
          p div BLOCK_SIZE < have_n \<or> p div BLOCK_SIZE < (offset + (d + c)) div BLOCK_SIZE \<Longrightarrow>
          data_byte f' s ?bs p = data_byte ?f1 s ?bs p"
      unfolding untouched_def I by blast
    have data: "data_byte f' s ?bs p = data ! (p - offset)" if p: "offset + d \<le> p" "p < offset + length data" for p
    proof (cases "offset + (d + c) \<le> p")
      case True
      then show ?thesis using R1 p by simp
    next
      case False
      define y where "y = p - p0"
      have y: "p = p0 + y" "y < c" using False p by (auto simp: y_def p0_def)
      then have "?ib + y < 4096" using c(3) by linarith
      note W = within_block [OF this]
      have pk: "p div 4096 = ?k" "p mod 4096 = ?ib + y" using W y(1) by simp_all
      have "data_byte f' s ?bs p = data_byte ?f1 s ?bs p"
      proof (cases "d + c < length data")
        case True
        then have "?ib + c = 4096" using c(3) by (auto simp: c_def chunk_at_def min_def split: if_splits)
        moreover have "p0 = ?k * 4096 + ?ib" by simp
        moreover have "offset + (d + c) = p0 + c" by (simp add: p0_def)
        ultimately have "offset + (d + c) = ?k * 4096 + (?ib + c)" by (metis add.assoc)
        then have "offset + (d + c) = Suc ?k * 4096" using \<open>?ib + c = 4096\<close> by simp
        then have "(offset + (d + c)) div 4096 = Suc ?k" by simp
        then show ?thesis using R2 [of p] pk k False by simp
      next
        case False
        with c(2) have "d + c = length data" by simp
        with R(1) have "s' = s1" by (simp add: write_loop.simps [of index offset have_n data "length data"])
        have "fs_disk ok sect reg ?f1 s1" "fs_disk ok sect reg f' s1" using disk R(3) \<open>s' = s1\<close> by simp_all
        then have "f' = ?f1" by (auto simp: fs_disk_def shows_disk_def)
        then show ?thesis by simp
      qed
      also have "\<dots> = B ! (?ib + y)" using byte1 [of p] pk k by simp
      also have "\<dots> = data ! (d + y)" using new [of "?ib + y"] \<open>?ib + y < 4096\<close> y(2) by simp
      finally show ?thesis using y(1) by (simp add: p0_def)
    qed
    have keep: "data_byte f' s ?bs p = data_byte f s ?bs p"
      if p: "p div 4096 < n" "\<not> (offset + d \<le> p \<and> p < offset + length data)" "p div 4096 < have_n \<or> p div 4096 < ?k" for p
    proof -
      have "?k \<le> (offset + (d + c)) div 4096" by (simp add: p0_def div_le_mono)
      then have "data_byte f' s ?bs p = data_byte ?f1 s ?bs p" using R2 [of p] p by auto
      also have "\<dots> = data_byte f s ?bs p"
      proof (cases "p div 4096 = ?k")
        case True
        then have kh: "?k < have_n" using p(3) by simp
        have "\<not> (?ib \<le> p mod 4096 \<and> p mod 4096 < ?ib + c)"
        proof
          assume a: "?ib \<le> p mod 4096 \<and> p mod 4096 < ?ib + c"
          have "p = ?k * 4096 + p mod 4096" "p0 = ?k * 4096 + ?ib" using True div_mult_mod_eq [of p 4096] by simp_all
          then have "p0 \<le> p \<and> p < p0 + c" using a by linarith
          then show False using p(2) c(2) by (simp add: p0_def)
        qed
        then have "B ! (p mod 4096) = sectors_at f (block_lba s (?bs ! ?k)) 8 ! (p mod 4096)"
          using old [of "p mod 4096"] kh by simp
        then show ?thesis using byte1 [OF p(1)] True by (simp add: data_byte_def)
      next
        case False
        then show ?thesis using byte1 [OF p(1)] by simp
      qed
      finally show ?thesis .
    qed
    have "untouched f s ?bs {..<n} f'" using untouched_trans [OF un1 R(4)] by simp
    then show ?thesis
      using run R(1,3) io_only_trans [OF io R(2)] data keep
      by (intro exI [of _ f'] exI [of _ s']) (simp add: p0_def)
  qed
qed

end
