(* ===== verification/TcmkfsRun.thy ===== *)
theory TcmkfsRun imports TcmkfsData begin

text \<open>
  The operations of \<^verbatim>\<open>core/tcmkfs.rs\<close> on a healthy device, whole: \<open>fs_sound\<close> says that the
  caches are well formed, that every block has at most one owner and the bitmap marks exactly the
  owned ones, and that the disk holds what the caches hold.  Every operation keeps it, returns
  without panic or I/O error, and does to the files what it says.
\<close>

section \<open>Soundness of a mounted file system\<close>

definition held :: "'d fs \<Rightarrow> nat \<Rightarrow> nat set" where
  "held s i = (if kind_at s i = KIND_FILE then {..<block_count (size_at s i)} else {})"

definition fs_sound ::
  "('d \<Rightarrow> bool) \<Rightarrow> ('d \<Rightarrow> nat \<Rightarrow> byte list) \<Rightarrow> nat \<times> nat \<Rightarrow> (nat \<Rightarrow> byte list) \<Rightarrow> 'd fs \<Rightarrow> bool" where
  "fs_sound ok sect reg f s \<longleftrightarrow>
     fs_disk ok sect reg f s \<and> on_disk f s \<and> fs_own (held s) s \<and>
     (\<forall>i<MAX_INODES. kind_at s i = KIND_FILE \<longrightarrow> size_at s i \<le> MAX_FILE_SIZE)"

lemma fs_soundD:
  assumes "fs_sound ok sect reg f s"
  shows "fs_disk ok sect reg f s" "on_disk f s" "fs_own (held s) s"
    "\<And>i. i < MAX_INODES \<Longrightarrow> kind_at s i = KIND_FILE \<Longrightarrow> size_at s i \<le> MAX_FILE_SIZE"
  using assms by (simp_all add: fs_sound_def)

lemma block_count_le: "n \<le> k * BLOCK_SIZE \<Longrightarrow> block_count n \<le> k"
  unfolding block_count_def by (simp add: less_Suc_eq_le [symmetric] div_less_iff_less_mult)

lemma block_count_40: "n \<le> MAX_FILE_SIZE \<Longrightarrow> block_count n \<le> DIRECT_BLOCKS"
  by (rule block_count_le) simp

lemma block_count_cover: "n \<le> block_count n * BLOCK_SIZE"
proof -
  have "n + 4095 = (n + 4095) div 4096 * 4096 + (n + 4095) mod 4096" by simp
  moreover have "(n + 4095) mod 4096 \<le> 4095" using mod_less_divisor [of 4096 "n + 4095"] by linarith
  ultimately have "n \<le> (n + 4095) div 4096 * 4096" by linarith
  then show ?thesis by (simp add: block_count_def)
qed

lemma block_count_in: "p < n \<Longrightarrow> p div BLOCK_SIZE < block_count n"
  using block_count_cover [of n] by (simp add: div_less_iff_less_mult)

lemma block_count_mono: "m \<le> n \<Longrightarrow> block_count m \<le> block_count n"
  unfolding block_count_def by (rule div_le_mono) simp

lemma block_count_max: "block_count (max m n) = max (block_count m) (block_count n)"
  using block_count_mono [of m n] block_count_mono [of n m] by (auto simp: max_def)

lemma fs_own_cong:
  assumes "fs_own own s" "fs_wf s'" "fs_bitmap s' = fs_bitmap s" "fs_total s' = fs_total s" "fs_free s' = fs_free s"
    and at: "\<And>i. i < MAX_INODES \<Longrightarrow> kind_at s' i = kind_at s i"
      "\<And>i. i < MAX_INODES \<Longrightarrow> i_blocks (fs_inodes s' ! i) = i_blocks (fs_inodes s ! i)"
      "\<And>i. i < MAX_INODES \<Longrightarrow> own' i = own i"
  shows "fs_own own' s'"
proof -
  have bits: "bit_get s' = bit_get s" using assms(3) by (simp add: fun_eq_iff bit_get_def)
  then have bm: "bitmap_ok s'" using fs_ownD(2) [OF assms(1)] assms(3-5) by (simp add: bitmap_ok_def count_free_def)
  note D = fs_ownD [OF assms(1)]
  have 1: "own' i \<subseteq> {..<40}" if "i < 64" for i using D(3) [OF that] at(3) [OF that] by simp
  have 2: "own' i = {}" if "i < 64" "kind_at s' i \<noteq> KIND_FILE" for i
    using D(4) [OF that(1)] that(2) at(1,3) [OF that(1)] by simp
  have 3: "blk_at s' i k = 0" if "i < 64" "kind_at s' i = KIND_FILE" "k < 40" "k \<notin> own' i" for i k
    using D(5) [OF that(1) _ that(3)] that(2,4) at [OF that(1)] by simp
  have 4: "blk_at s' i k < fs_total s'" if "i < 64" "k \<in> own' i" for i k
    using D(6) [OF that(1)] that(2) at(2,3) [OF that(1)] assms(4) by simp
  have 5: "bit_get s' b \<longleftrightarrow> (\<exists>i<64. \<exists>k\<in>own' i. blk_at s' i k = b)" if "b < fs_total s'" for b
  proof -
    have "(\<exists>i<64. \<exists>k\<in>own' i. blk_at s' i k = b) \<longleftrightarrow> (\<exists>i<64. \<exists>k\<in>own i. blk_at s i k = b)"
      by (intro arg_cong [where f = Ex] ext conj_cong refl bex_cong) (simp_all add: at(2,3))
    then show ?thesis using D(7) [of b] that assms(4) bits by simp
  qed
  have 6: "i = j \<and> k = l" if "i < 64" "j < 64" "k \<in> own' i" "l \<in> own' j" "blk_at s' i k = blk_at s' j l" for i j k l
    using D(8) [OF that(1,2), of k l] that(3-5) at(2,3) [OF that(1)] at(2,3) [OF that(2)] by simp
  show ?thesis unfolding fs_own_def using assms(2) bm 1 2 3 4 5 6 by blast
qed

text \<open>A change of the disk that spares a block spares its bytes.\<close>

lemma data_byte_cong:
  assumes "block_lba s' (bs' ! (p div BLOCK_SIZE)) = block_lba s (bs ! (p div BLOCK_SIZE))"
    "\<And>l. block_lba s (bs ! (p div BLOCK_SIZE)) \<le> l \<Longrightarrow> l < block_lba s (bs ! (p div BLOCK_SIZE)) + SECTORS_PER_BLOCK \<Longrightarrow> f' l = f l"
  shows "data_byte f' s' bs' p = data_byte f s bs p"
  unfolding data_byte_def assms(1) using sectors_at_cong [of _ 8 f' f] assms(2) by metis

section \<open>The flushes\<close>

lemma on_disk_meta:
  assumes "fs_disk ok sect reg f s" "sb_magic (decode_super (f (fs_lba s))) = MAGIC"
    "sb_version (decode_super (f (fs_lba s))) = VERSION" "sb_total_blocks (decode_super (f (fs_lba s))) = fs_total s"
  shows "sectors_at f (fs_lba s + 33) 4 = fs_bitmap s \<Longrightarrow>
       on_disk (put_sectors (fs_lba s + 1) 32 (inode_bytes (fs_inodes s)) f) s"
    "sectors_at f (fs_lba s + 1) 32 = inode_bytes (fs_inodes s) \<Longrightarrow>
       on_disk (put_sectors (fs_lba s + 33) 4 (fs_bitmap s) f) s"
proof -
  note wf = fs_wfD [OF fs_diskD(1) [OF assms(1)]]
  have "sectors_at (put_sectors (fs_lba s + 1) 32 (inode_bytes (fs_inodes s)) f) (fs_lba s + 1) 32 = inode_bytes (fs_inodes s)"
    using sectors_at_put_same [of 32 "inode_bytes (fs_inodes s)" 32] wf(5) by simp
  moreover have "sectors_at (put_sectors (fs_lba s + 1) 32 (inode_bytes (fs_inodes s)) f) (fs_lba s + 33) 4 = sectors_at f (fs_lba s + 33) 4"
    by (rule sectors_at_put_other) simp
  moreover have "put_sectors (fs_lba s + 1) 32 (inode_bytes (fs_inodes s)) f (fs_lba s) = f (fs_lba s)"
    by (simp add: put_sectors_def)
  ultimately show "sectors_at f (fs_lba s + 33) 4 = fs_bitmap s \<Longrightarrow>
       on_disk (put_sectors (fs_lba s + 1) 32 (inode_bytes (fs_inodes s)) f) s"
    using assms(2-4) by (simp add: on_disk_def)
  have "sectors_at (put_sectors (fs_lba s + 33) 4 (fs_bitmap s) f) (fs_lba s + 33) 4 = fs_bitmap s"
    using sectors_at_put_same [of 4 "fs_bitmap s" 4] wf(3) by simp
  moreover have "sectors_at (put_sectors (fs_lba s + 33) 4 (fs_bitmap s) f) (fs_lba s + 1) 32 = sectors_at f (fs_lba s + 1) 32"
    by (rule sectors_at_put_other) simp
  moreover have "put_sectors (fs_lba s + 33) 4 (fs_bitmap s) f (fs_lba s) = f (fs_lba s)"
    by (simp add: put_sectors_def)
  ultimately show "sectors_at f (fs_lba s + 1) 32 = inode_bytes (fs_inodes s) \<Longrightarrow>
       on_disk (put_sectors (fs_lba s + 33) 4 (fs_bitmap s) f) s"
    using assms(2-4) by (simp add: on_disk_def)
qed

text \<open>What is on the disk after the caches changed from \<open>s\<close> to \<open>t\<close> and the inode table was flushed.\<close>

lemma flush_inodes_saves:
  assumes "on_disk f s" "fs_disk ok sect reg f t" "fs_bitmap t = fs_bitmap s" "fs_lba t = fs_lba s" "fs_total t = fs_total s"
  shows "\<exists>f' blk. flush_inodes t = (Ok (), t\<lparr>fs_blk := blk\<rparr>) \<and> fs_disk ok sect reg f' (t\<lparr>fs_blk := blk\<rparr>) \<and>
     on_disk f' (t\<lparr>fs_blk := blk\<rparr>) \<and> (\<forall>l. fs_lba s + 37 \<le> l \<longrightarrow> f' l = f l)"
proof -
  from flush_inodes_healthy [OF assms(2)] obtain blk where
    r: "flush_inodes t = (Ok (), t\<lparr>fs_blk := blk\<rparr>)"
       "fs_disk ok sect reg (put_sectors (fs_lba t + 1) 32 (inode_bytes (fs_inodes t)) f) (t\<lparr>fs_blk := blk\<rparr>)" by blast
  note disk = assms(1) [unfolded on_disk_def]
  have "on_disk (put_sectors (fs_lba t + 1) 32 (inode_bytes (fs_inodes t)) f) t"
    by (rule on_disk_meta(1) [OF assms(2)]) (use disk assms(3-5) in auto)
  then show ?thesis using r assms(4)
    by (intro exI [of _ "put_sectors (fs_lba t + 1) 32 (inode_bytes (fs_inodes t)) f"] exI [of _ blk])
       (auto simp: on_disk_def put_sectors_def)
qed

lemma flush_both_saves:
  assumes "on_disk f s" "fs_disk ok sect reg f0 t" "f0 (fs_lba s) = f (fs_lba s)" "fs_lba t = fs_lba s" "fs_total t = fs_total s"
  shows "\<exists>f' blk. and_then (flush_inodes t) (\<lambda>_. flush_bitmap) = (Ok (), t\<lparr>fs_blk := blk\<rparr>) \<and>
     fs_disk ok sect reg f' (t\<lparr>fs_blk := blk\<rparr>) \<and> on_disk f' (t\<lparr>fs_blk := blk\<rparr>) \<and>
     (\<forall>l. fs_lba s + 37 \<le> l \<longrightarrow> f' l = f0 l)"
proof -
  note disk = assms(1) [unfolded on_disk_def]
  let ?f1 = "put_sectors (fs_lba t + 1) 32 (inode_bytes (fs_inodes t)) f0"
  from flush_inodes_healthy [OF assms(2)] obtain b1 where
    r1: "flush_inodes t = (Ok (), t\<lparr>fs_blk := b1\<rparr>)" "fs_disk ok sect reg ?f1 (t\<lparr>fs_blk := b1\<rparr>)" by blast
  let ?t1 = "t\<lparr>fs_blk := b1\<rparr>"
  from flush_bitmap_healthy [OF r1(2)] obtain b2 where
    r2: "flush_bitmap ?t1 = (Ok (), t\<lparr>fs_blk := b2\<rparr>)"
      "fs_disk ok sect reg (put_sectors (fs_lba t + 33) 4 (fs_bitmap t) ?f1) (t\<lparr>fs_blk := b2\<rparr>)" by auto
  have "sectors_at ?f1 (fs_lba ?t1 + 1) 32 = inode_bytes (fs_inodes ?t1)"
    using sectors_at_put_same [of 32 "inode_bytes (fs_inodes t)" 32] fs_wfD(5) [OF fs_diskD(1) [OF assms(2)]] by simp
  moreover have "?f1 (fs_lba t) = f0 (fs_lba t)" by (simp add: put_sectors_def)
  ultimately have "on_disk (put_sectors (fs_lba ?t1 + 33) 4 (fs_bitmap ?t1) ?f1) ?t1"
    by (intro on_disk_meta(2) [OF r1(2)]) (use disk assms(3-5) in auto)
  then show ?thesis using r1(1) r2 assms(4)
    by (intro exI [of _ "put_sectors (fs_lba t + 33) 4 (fs_bitmap t) ?f1"] exI [of _ b2])
       (auto simp: on_disk_def put_sectors_def)
qed

lemma fs_sound_data_kept:
  assumes "fs_sound ok sect reg f s" "fs_lba s' = fs_lba s" "j < MAX_INODES" "kind_at s j = KIND_FILE"
    "fs_inodes s' ! j = fs_inodes s ! j" "\<And>l. fs_lba s + 37 \<le> l \<Longrightarrow> f' l = f l"
  shows "file_data f' s' j = file_data f s j"
proof -
  note S = fs_soundD [OF assms(1)]
  have "data_byte f' s' (i_blocks (fs_inodes s ! j)) p = data_byte f s (i_blocks (fs_inodes s ! j)) p"
    if "p < size_at s j" for p
  proof (rule data_byte_cong)
    have "p div 4096 \<in> held s j" using block_count_in [OF that] assms(4) by (simp add: held_def)
    then have "blk_at s j (p div 4096) < fs_total s" using fs_ownD(6) [OF S(3) assms(3)] by blast
    from block_lba_exact(1) [OF fs_diskD(2) [OF S(1)] this]
    have "fs_lba s + 37 \<le> block_lba s (blk_at s j (p div 4096))" by simp
    then show "f' l = f l" if "block_lba s (blk_at s j (p div 4096)) \<le> l" for l using assms(6) that by simp
  qed (simp add: block_lba_def assms(2))
  then show ?thesis using assms(5) by (simp add: file_data_def)
qed

section \<open>Writing a file\<close>

lemma same_rest_disk:
  assumes "fs_disk ok sect reg f s" "same_rest s s'" "fs_wf s'"
  shows "fs_disk ok sect reg f s'" "block_lba s' = block_lba s"
  using assms by (simp_all add: same_rest_def fs_disk_def fs_geom_def block_lba_def fun_eq_iff)

text \<open>The allocation phase: the file holds \<open>max have needed\<close> blocks after it.\<close>

lemma write_alloc_fits:
  assumes "fs_sound ok sect reg f s" "index < MAX_INODES" "kind_at s index = KIND_FILE" "needed \<le> DIRECT_BLOCKS"
    "needed - block_count (size_at s index) \<le> fs_free s"
  shows "\<exists>s'. write_alloc index (block_count (size_at s index)) (block_count (size_at s index)) needed s = (Ok (), s') \<and>
     same_rest s s' \<and> fs_own ((held s)(index := {..<max (block_count (size_at s index)) needed})) s' \<and>
     blocks_differ index {block_count (size_at s index)..<needed} s s' \<and>
     fs_free s' = fs_free s - (needed - block_count (size_at s index))"
proof -
  note S = fs_soundD [OF assms(1)]
  let ?h = "block_count (size_at s index)"
  have own: "held s index = {..<?h}" using assms(3) by (simp add: held_def)
  show ?thesis
  proof (cases "needed \<le> ?h")
    case True
    then have "(held s)(index := {..<max ?h needed}) = held s" using own by (simp add: max_def fun_upd_idem)
    then show ?thesis using True S(3) by (intro exI [of _ s]) (simp add: write_alloc.simps)
  next
    case False
    then show ?thesis
      using write_alloc_enough [OF S(3) assms(2,3) own _ assms(4,5), of ?h] by (simp add: max_def)
  qed
qed

definition file_part :: "nat \<Rightarrow> byte list \<Rightarrow> byte list \<Rightarrow> byte list" where
  \<comment> \<open>the list with the bytes from \<open>offset\<close> replaced by \<open>data\<close>\<close>
  "file_part offset data old = take offset old @ data @ drop (offset + length data) old"

lemma fs_write_ok:
  assumes sound: "fs_sound ok sect reg f s" and m: "fs_mounted s" and index: "index < MAX_INODES"
    and isfile: "kind_at s index = KIND_FILE" and fits: "offset + length data \<le> MAX_FILE_SIZE"
    and room: "block_count (offset + length data) - block_count (size_at s index) \<le> fs_free s"
    and now: "now < 2 ^ 32"
  shows "\<exists>f' s'. fs_write now index offset data s = (Ok (length data), s') \<and> fs_sound ok sect reg f' s' \<and>
     fs_mounted s' \<and> fs_lba s' = fs_lba s \<and> fs_total s' = fs_total s \<and>
     fs_free s' = fs_free s - (block_count (offset + length data) - block_count (size_at s index)) \<and>
     size_at s' index = max (size_at s index) (offset + length data) \<and>
     (\<forall>i<MAX_INODES. i \<noteq> index \<longrightarrow> fs_inodes s' ! i = fs_inodes s ! i) \<and>
     fs_inodes s' ! index = (fs_inodes s ! index)\<lparr>i_size := size_at s' index, i_mtime := now,
        i_blocks := i_blocks (fs_inodes s' ! index)\<rparr> \<and>
     (\<forall>p. offset \<le> p \<longrightarrow> p < offset + length data \<longrightarrow> data_byte f' s' (i_blocks (fs_inodes s' ! index)) p = data ! (p - offset)) \<and>
     (\<forall>p < size_at s index. \<not> (offset \<le> p \<and> p < offset + length data) \<longrightarrow>
        data_byte f' s' (i_blocks (fs_inodes s' ! index)) p = data_byte f s (i_blocks (fs_inodes s ! index)) p) \<and>
     (\<forall>j<MAX_INODES. j \<noteq> index \<longrightarrow> kind_at s j = KIND_FILE \<longrightarrow> file_data f' s' j = file_data f s j)"
proof -
  note S = fs_soundD [OF sound]
  define e where "e = offset + length data"
  define h where "h = block_count (size_at s index)"
  define n where "n = max h (block_count e)"
  have e40: "block_count e \<le> 40" using block_count_40 fits by (simp add: e_def)
  have h40: "h \<le> 40" using block_count_40 S(4) [OF index isfile] by (simp add: h_def)
  have n40: "n \<le> 40" "h \<le> n" using e40 h40 by (simp_all add: n_def)
  from write_alloc_fits [OF sound index isfile e40] room obtain s1 where
    a: "write_alloc index h h (block_count e) s = (Ok (), s1)" and same: "same_rest s s1"
    and own1: "fs_own ((held s)(index := {..<n})) s1" and diff: "blocks_differ index {h..<block_count e} s s1"
    and free1: "fs_free s1 = fs_free s - (block_count e - h)"
    unfolding h_def [symmetric] n_def [symmetric] e_def [symmetric] by blast
  note D1 = fs_ownD [OF own1] and R1 = same [unfolded same_rest_def]
  have tot1: "fs_total s1 = fs_total s" "fs_lba s1 = fs_lba s" "fs_mounted s1" using R1 m by simp_all
  note disk1 = same_rest_disk [OF S(1) same D1(1)]
  let ?bs = "i_blocks (fs_inodes s1 ! index)"
  have len: "length ?bs = 40" using inode_okD(2) fs_wfD(6) [OF D1(1) index] by blast
  have blk: "k < n \<Longrightarrow> ?bs ! k < fs_total s1" for k using D1(6) [OF index] by simp
  have inj: "k < n \<Longrightarrow> l < n \<Longrightarrow> ?bs ! k = ?bs ! l \<Longrightarrow> k = l" for k l using D1(8) [OF index index] by simp
  have cover: "offset + length data \<le> n * 4096"
    using block_count_cover [of e] mult_le_mono1 [of "block_count e" n 4096] by (simp add: e_def n_def)
  from write_loop_data [OF disk1(1) len n40(2,1) blk inj le0 cover] obtain f2 s2 where
    w: "write_loop index offset h data 0 s1 = (Ok (length data), s2)" and io: "io_only s1 s2"
    and disk2: "fs_disk ok sect reg f2 s2" and un: "untouched f s1 ?bs {..<n} f2"
    and new: "\<forall>p. offset + 0 \<le> p \<longrightarrow> p < offset + length data \<longrightarrow> data_byte f2 s1 ?bs p = data ! (p - offset)"
    and keep: "\<forall>p. p div 4096 < n \<longrightarrow> \<not> (offset + 0 \<le> p \<and> p < offset + length data) \<longrightarrow>
        p div 4096 < h \<or> p div 4096 < (offset + 0) div 4096 \<longrightarrow> data_byte f2 s1 ?bs p = data_byte f s1 ?bs p"
    by blast
  note I = io_onlyD [OF io]
  define g :: "inode \<Rightarrow> inode" where "g = (\<lambda>i. i\<lparr>i_size := (if e > i_size i then e else i_size i), i_mtime := now\<rparr>)"
  let ?s3 = "upd_inode index g s2"
  have in2: "fs_inodes s2 = fs_inodes s1" by (rule I)
  have size1: "size_at s1 index = size_at s index" "kind_at s1 index = KIND_FILE"
    using blocks_differ_kind [OF diff index] isfile by simp_all
  have e32: "e < 2 ^ 32" "size_at s index < 2 ^ 32" using fits S(4) [OF index isfile] by (simp_all add: e_def)
  have "inode_ok (g (fs_inodes s2 ! index))"
    using fs_wfD(6) [OF D1(1) index] e32 now unfolding g_def in2 inode_ok_def by simp
  then have wf3: "fs_wf ?s3" by (rule fs_wf_upd_inode [OF fs_diskD(1) [OF disk2]])
  have fields3: "fs_lba ?s3 = fs_lba s" "fs_total ?s3 = fs_total s" "fs_mounted ?s3" "fs_bitmap ?s3 = fs_bitmap s1"
    "fs_free ?s3 = fs_free s1" "fs_blk ?s3 = fs_blk s2"
    using I tot1 by (simp_all add: upd_inode_def)
  have disk3: "fs_disk ok sect reg f2 ?s3"
    using disk2 wf3 fields3 tot1 I by (simp add: fs_disk_def fs_geom_def)
  have far: "fs_lba s + 4096 \<le> block_lba s1 (?bs ! k)" if "k < n" for k
    using block_lba_exact(1) [OF fs_diskD(2) [OF disk1(1)] blk [OF that]] tot1 by simp
  have "f2 (fs_lba s) = f (fs_lba s)"
    using un far unfolding untouched_def by (meson lessThan_iff le_add1 not_less order_trans add_le_same_cancel1 not_numeral_le_zero)
  from flush_both_saves [OF S(2) disk3 this fields3(1,2)] obtain f' blk where
    fl: "and_then (flush_inodes ?s3) (\<lambda>_. flush_bitmap) = (Ok (), ?s3\<lparr>fs_blk := blk\<rparr>)"
    and disk': "fs_disk ok sect reg f' (?s3\<lparr>fs_blk := blk\<rparr>)" and saved: "on_disk f' (?s3\<lparr>fs_blk := blk\<rparr>)"
    and far': "\<And>l. fs_lba s + 37 \<le> l \<Longrightarrow> f' l = f2 l" by blast
  define s' where "s' = ?s3\<lparr>fs_blk := blk\<rparr>"
  have in': "fs_inodes s' ! i = (if i = index then g (fs_inodes s1 ! index) else fs_inodes s1 ! i)" if "i < 64" for i
    using that fs_wfD(1) [OF D1(1)] in2 by (simp add: s'_def upd_inode_def)
  have run: "fs_write now index offset data s = (Ok (length data), s')"
  proof -
    have e64: "(offset + length data) mod 2 ^ 64 = e" "\<not> e > 163840" using fits by (simp_all add: e_def)
    from and_then_Ok [OF fl] obtain x s4 where "flush_inodes ?s3 = (Ok x, s4)" "flush_bitmap s4 = (Ok (), s')"
      by (auto simp: s'_def)
    then show ?thesis
      using m index isfile a w e64 by (simp add: fs_write_def inode_ref_def h_def Let_def g_def)
  qed
  have kind': "kind_at s' i = kind_at s i" if "i < 64" for i
    using in' [OF that] blocks_differ_kind(1) [OF diff that] size1 isfile by (auto simp: g_def)
  have size': "size_at s' i = (if i = index then max (size_at s index) e else size_at s i)" if "i < 64" for i
    using in' [OF that] blocks_differ_kind(2) [OF diff that] size1 by (auto simp: g_def max_def)
  have blocks': "i_blocks (fs_inodes s' ! i) = i_blocks (fs_inodes s1 ! i)" if "i < 64" for i
    using in' [OF that] by (simp add: g_def)
  have held': "held s' i = ((held s)(index := {..<n})) i" if "i < 64" for i
    using kind' [OF that] size' [OF that] isfile
    by (auto simp: held_def n_def h_def block_count_max)
  have own': "fs_own (held s') s'"
  proof (rule fs_own_cong [OF own1])
    show "fs_wf s'" using disk' unfolding s'_def fs_disk_def by blast
    show "fs_bitmap s' = fs_bitmap s1" "fs_total s' = fs_total s1" "fs_free s' = fs_free s1"
      using fields3 tot1 by (simp_all add: s'_def)
    show "kind_at s' i = kind_at s1 i" if "i < 64" for i using in' [OF that] by (simp add: g_def)
    show "i_blocks (fs_inodes s' ! i) = i_blocks (fs_inodes s1 ! i)" if "i < 64" for i using blocks' [OF that] .
  qed (rule held')
  have sound': "fs_sound ok sect reg f' s'"
    unfolding fs_sound_def
  proof (intro conjI allI impI)
    show "fs_disk ok sect reg f' s'" "on_disk f' s'" "fs_own (held s') s'"
      using disk' saved own' by (simp_all add: s'_def)
    show "size_at s' i \<le> MAX_FILE_SIZE" if "i < 64" "kind_at s' i = KIND_FILE" for i
      using size' [OF that(1)] kind' [OF that(1)] S(4) [OF that(1)] that(2) fits S(4) [OF index isfile]
      by (simp add: e_def)
  qed
  have lba': "block_lba s' = block_lba s1" using fields3 tot1 by (simp add: block_lba_def fun_eq_iff s'_def)
  have byte': "data_byte f' s' (i_blocks (fs_inodes s' ! index)) p = data_byte f2 s1 ?bs p" if "p div 4096 < n" for p
    unfolding blocks' [OF index]
    by (rule data_byte_cong) (use lba' far [OF that] far' in auto)
  have new': "data_byte f' s' (i_blocks (fs_inodes s' ! index)) p = data ! (p - offset)"
    if "offset \<le> p" "p < offset + length data" for p
  proof -
    have "p div 4096 < n" using block_count_in [of p e] that(2) by (simp add: e_def n_def)
    with new that byte' show ?thesis by simp
  qed
  have keep': "data_byte f' s' (i_blocks (fs_inodes s' ! index)) p = data_byte f s (i_blocks (fs_inodes s ! index)) p"
    if "p < size_at s index" "\<not> (offset \<le> p \<and> p < offset + length data)" for p
  proof -
    have ph: "p div 4096 < h" using block_count_in [OF that(1)] by (simp add: h_def)
    have "data_byte f' s' (i_blocks (fs_inodes s' ! index)) p = data_byte f s1 ?bs p"
      using byte' [of p] keep ph n40(2) that(2) by simp
    also have "\<dots> = data_byte f s (i_blocks (fs_inodes s ! index)) p"
      using diff ph h40 disk1(2) by (simp add: data_byte_def blocks_differ_def)
    finally show ?thesis .
  qed
  have others: "file_data f' s' j = file_data f s j" if j: "j < 64" "j \<noteq> index" "kind_at s j = KIND_FILE" for j
  proof -
    have inj': "fs_inodes s' ! j = fs_inodes s ! j"
      using in' [OF j(1)] diff j by (simp add: blocks_differ_def)
    have "data_byte f' s' (i_blocks (fs_inodes s ! j)) p = data_byte f s (i_blocks (fs_inodes s ! j)) p"
      if "p < size_at s j" for p
    proof (rule data_byte_cong)
      let ?b = "blk_at s j (p div 4096)"
      have hj: "p div 4096 \<in> ((held s)(index := {..<n})) j"
        using block_count_in [OF that] j by (simp add: held_def)
      have inj1: "fs_inodes s1 ! j = fs_inodes s ! j" using diff j by (simp add: blocks_differ_def)
      have b: "?b < fs_total s1" using D1(6) [OF j(1) hj] inj1 by simp
      show "block_lba s' ?b = block_lba s ?b" using lba' disk1(2) by simp
      fix l assume l: "block_lba s ?b \<le> l" "l < block_lba s ?b + 8"
      have "fs_lba s + 37 \<le> l"
        using block_lba_exact(1) [OF fs_diskD(2) [OF disk1(1)] b] disk1(2) tot1 l(1) by simp
      then have "f' l = f2 l" by (rule far')
      also have "f2 l = f l"
      proof -
        have "\<not> (block_lba s1 (?bs ! k) \<le> l \<and> l < block_lba s1 (?bs ! k) + 8)" if k: "k < n" for k
        proof -
          have "?bs ! k \<noteq> ?b"
            using D1(8) [OF index j(1), of k "p div 4096"] hj k inj1 j(2) by auto
          then show ?thesis
            using block_lba_apart [OF fs_diskD(2) [OF disk1(1)] blk [OF k] b] l disk1(2) by auto
        qed
        then show ?thesis using un unfolding untouched_def by blast
      qed
      finally show "f' l = f l" .
    qed
    then show ?thesis using inj' by (simp add: file_data_def)
  qed
  have frame: "fs_inodes s' ! index = (fs_inodes s ! index)\<lparr>i_size := size_at s' index, i_mtime := now,
        i_blocks := i_blocks (fs_inodes s' ! index)\<rparr>"
  proof -
    define bs where "bs = ?bs"
    have e1: "fs_inodes s1 ! index = (fs_inodes s ! index)\<lparr>i_blocks := bs\<rparr>"
      using diff unfolding blocks_differ_def bs_def by blast
    have "fs_inodes s' ! index = g (fs_inodes s1 ! index)" using in' [OF index] by simp
    also have "\<dots> = (fs_inodes s ! index)\<lparr>i_size := max (size_at s index) e, i_mtime := now, i_blocks := bs\<rparr>"
      unfolding e1 g_def by (cases "fs_inodes s ! index") (simp add: max_def)
    finally show ?thesis by simp
  qed
  have "fs_free s' = fs_free s - (block_count e - h)" using fields3 free1 by (simp add: s'_def)
  moreover have "fs_mounted s'" "fs_lba s' = fs_lba s" "fs_total s' = fs_total s" using fields3 by (simp_all add: s'_def)
  moreover have "\<forall>i<64. i \<noteq> index \<longrightarrow> fs_inodes s' ! i = fs_inodes s ! i"
    using in' diff by (simp add: blocks_differ_def)
  ultimately show ?thesis
    using run sound' size' [OF index] frame new' keep' others
    unfolding e_def [symmetric] h_def [symmetric]
    by (intro exI [of _ f'] exI [of _ s']) simp
qed

lemma fs_write_full:
  assumes "fs_sound ok sect reg f s" "fs_mounted s" "index < MAX_INODES" "kind_at s index = KIND_FILE"
    "offset + length data \<le> MAX_FILE_SIZE"
    "fs_free s < block_count (offset + length data) - block_count (size_at s index)"
  shows "fs_write now index offset data s = (Err Full, s)"
proof -
  note S = fs_soundD [OF assms(1)]
  let ?h = "block_count (size_at s index)" and ?n = "block_count (offset + length data)"
  have own: "held s index = {..<?h}" using assms(4) by (simp add: held_def)
  from write_alloc_short [OF S(3) assms(3,4) own order_refl block_count_40 [OF assms(5)] assms(6)] obtain s' where
    a: "write_alloc index ?h ?h ?n s = (Err Full, s')" and same: "same_rest s s'"
    and own': "fs_own ((held s)(index := {..<?h})) s'" and diff: "blocks_differ index {?h..<?n} s s'" by blast
  have upd: "(held s)(index := {..<?h}) = held s" using own by (simp add: fun_upd_idem)
  have kind': "kind_at s' index = KIND_FILE" using blocks_differ_kind(1) [OF diff assms(3)] assms(4) by simp
  have inodes: "fs_inodes s' = fs_inodes s"
  proof (rule blocks_differ_same [OF diff fs_ownD(1) [OF S(3)] assms(3)])
    fix k assume "k \<in> {?h..<?n}" "k < 40"
    then have "k \<notin> held s index" using own by simp
    with fs_ownD(5) [OF S(3) assms(3,4) \<open>k < 40\<close>] fs_ownD(5) [OF own' assms(3) kind' \<open>k < 40\<close>] upd
    show "blk_at s' index k = blk_at s index k" by simp
  qed
  note R = same [unfolded same_rest_def]
  have "fs_bitmap s' = fs_bitmap s" "fs_free s' = fs_free s"
    using fs_own_bitmap_unique [OF S(3) own' [unfolded upd] inodes] R by auto
  with inodes R have "s' = s" by simp
  then show ?thesis using a assms by (simp add: fs_write_def inode_ref_def Let_def)
qed

section \<open>Reading a file\<close>

lemma fs_read_ok:
  assumes "fs_sound ok sect reg f s" "fs_mounted s" "index < MAX_INODES" "kind_at s index = KIND_FILE"
  shows "\<exists>s'. fs_read index offset buf s =
      (let got = take (length buf) (drop offset (file_data f s index)) in
       (Ok (length got), got @ drop (length got) buf, s')) \<and>
    io_only s s' \<and> fs_sound ok sect reg f s'"
proof (cases "offset \<ge> size_at s index")
  case True
  then show ?thesis using assms by (intro exI [of _ s]) (simp add: fs_read_def inode_ref_def Let_def)
next
  case False
  note S = fs_soundD [OF assms(1)]
  let ?n = "fs_inodes s ! index" and ?r = "min (size_at s index - offset) (length buf)"
  have len: "length (i_blocks ?n) = 40" using inode_okD(2) fs_wfD(6) [OF fs_diskD(1) [OF S(1)] assms(3)] by blast
  have end_le: "offset + ?r \<le> size_at s index" using False by simp
  have blk: "i_blocks ?n ! k < fs_total s" if "k < block_count (offset + ?r)" for k
    using fs_ownD(6) [OF S(3) assms(3), of k] that block_count_mono [OF end_le] assms(4) by (simp add: held_def)
  from read_loop_data [OF S(1) len blk, where offset = offset and to_read = ?r and d = 0 and buf = buf] end_le S(4) [OF assms(3,4)] obtain s' where
    r: "read_loop ?n offset ?r 0 buf s = (Ok ?r, map (data_byte f s (i_blocks ?n)) [offset..<offset + ?r] @ drop ?r buf, s')"
    and io: "io_only s s'" and disk: "fs_disk ok sect reg f s'" by auto
  have got: "take (length buf) (drop offset (file_data f s index)) = map (data_byte f s (i_blocks ?n)) [offset..<offset + ?r]"
    using False by (simp add: file_data_def drop_map take_map min_def)
  note I = io_onlyD [OF io]
  have "fs_own (held s') s'"
    by (rule fs_own_cong [OF S(3)]) (use disk I in \<open>simp_all add: fs_disk_def held_def\<close>)
  then have "fs_sound ok sect reg f s'"
    using disk S(2,4) I by (simp add: fs_sound_def on_disk_def)
  then show ?thesis
    using r io got False assms by (intro exI [of _ s']) (simp add: fs_read_def inode_ref_def Let_def)
qed

end
