(* ===== verification/TcmkfsOps.thy ===== *)
theory TcmkfsOps imports TcmkfsRun begin

text \<open>
  The operations of \<^verbatim>\<open>core/tcmkfs.rs\<close> that change the inode table: \<open>remove\<close>, \<open>mkdir\<close>, \<open>create\<close>,
  \<open>rmdir\<close>, and the ones on the whole disk, \<open>format_disk\<close>, \<open>fs_sync\<close> and \<open>mount\<close>.
\<close>

section \<open>Removing a file\<close>

lemma free_blocks_from_ok:
  assumes "bitmap_ok s" "\<And>k. i \<le> k \<Longrightarrow> k < used \<Longrightarrow> bs ! k < fs_total s \<and> bit_get s (bs ! k)"
    "\<And>k l. i \<le> k \<Longrightarrow> k < used \<Longrightarrow> i \<le> l \<Longrightarrow> l < used \<Longrightarrow> bs ! k = bs ! l \<Longrightarrow> k = l" "used \<le> length bs"
  shows "\<exists>s'. free_blocks_from bs i used s = (Ok (), s') \<and> bitmap_ok s' \<and> same_rest s s' \<and> fs_inodes s' = fs_inodes s \<and>
     fs_free s' = fs_free s + (used - i) \<and>
     (\<forall>b. bit_get s' b \<longleftrightarrow> bit_get s b \<and> \<not> (\<exists>k. i \<le> k \<and> k < used \<and> bs ! k = b))"
  using assms
proof (induction bs i used s rule: free_blocks_from.induct)
  case (1 bs i used s)
  show ?case
  proof (cases "i < used")
    case False
    then show ?thesis using "1.prems"(1) by (intro exI [of _ s]) (auto simp: free_blocks_from.simps [of bs i used s])
  next
    case True
    have b: "bs ! i < fs_total s" "bit_get s (bs ! i)" using "1.prems"(2) [of i] True by auto
    let ?t = "(bit_set (bs ! i) False s)\<lparr>fs_free := fs_free s + 1\<rparr>"
    note f = free_block_used [OF "1.prems"(1) b]
    have same: "same_rest s ?t" by (rule same_rest_free [OF "1.prems"(1) b f(1)])
    have len: "i < length bs" using True "1.prems"(4) by simp
    have "\<exists>s'. free_blocks_from bs (Suc i) used ?t = (Ok (), s') \<and> bitmap_ok s' \<and> same_rest ?t s' \<and>
       fs_inodes s' = fs_inodes ?t \<and> fs_free s' = fs_free ?t + (used - Suc i) \<and>
       (\<forall>b. bit_get s' b \<longleftrightarrow> bit_get ?t b \<and> \<not> (\<exists>k. Suc i \<le> k \<and> k < used \<and> bs ! k = b))"
    proof (rule "1.IH" [OF True])
      show "\<not> \<not> i < length bs" using len by simp
      show "bs ! k < fs_total ?t \<and> bit_get ?t (bs ! k)" if "Suc i \<le> k" "k < used" for k
        using "1.prems"(2) [of k] "1.prems"(3) [of i k] f(3) that by fastforce
      show "k = l" if "Suc i \<le> k" "k < used" "Suc i \<le> l" "l < used" "bs ! k = bs ! l" for k l
        using "1.prems"(3) [of k l] that by simp
    qed (use f(2) "1.prems"(4) in simp_all)
    then obtain s' where s': "free_blocks_from bs (Suc i) used ?t = (Ok (), s')" "bitmap_ok s'" "same_rest ?t s'"
       "fs_inodes s' = fs_inodes ?t" "fs_free s' = fs_free ?t + (used - Suc i)"
       "\<forall>b. bit_get s' b \<longleftrightarrow> bit_get ?t b \<and> \<not> (\<exists>k. Suc i \<le> k \<and> k < used \<and> bs ! k = b)" by blast
    have bits: "bit_get s' b \<longleftrightarrow> bit_get s b \<and> \<not> (\<exists>k. i \<le> k \<and> k < used \<and> bs ! k = b)" for b
    proof -
      define P where "P j \<longleftrightarrow> (\<exists>k. j \<le> k \<and> k < used \<and> bs ! k = b)" for j
      have "P i \<longleftrightarrow> bs ! i = b \<or> P (Suc i)"
        unfolding P_def using True by (metis Suc_leD Suc_le_eq le_neq_implies_less order_refl)
      moreover have "bit_get s' b \<longleftrightarrow> bit_get ?t b \<and> \<not> P (Suc i)" using s'(6) unfolding P_def by blast
      ultimately show ?thesis using f(3) [of b] unfolding P_def [symmetric] by auto
    qed
    have run: "free_blocks_from bs i used s = (Ok (), s')"
      using True len f(1) s'(1) by (simp add: free_blocks_from.simps [of bs i used s])
    have "fs_inodes s' = fs_inodes s" "fs_free s' = fs_free s + (used - i)" using s'(4,5) True by simp_all
    then show ?thesis
      by (intro exI [of _ s'] conjI allI run s'(2) same_rest_trans [OF same s'(3)] bits)
  qed
qed

lemma on_disk_cong:
  assumes "on_disk f s" "fs_inodes s' = fs_inodes s" "fs_bitmap s' = fs_bitmap s" "fs_lba s' = fs_lba s" "fs_total s' = fs_total s"
  shows "on_disk f s'"
  using assms by (simp add: on_disk_def)

text \<open>A change of one inode to one that holds no blocks.\<close>

lemma empty_own:
  assumes "fs_own own s" "index < MAX_INODES" "fs_wf s'" "bitmap_ok s'" "fs_total s' = fs_total s"
    "\<And>i. i < MAX_INODES \<Longrightarrow> i \<noteq> index \<Longrightarrow> fs_inodes s' ! i = fs_inodes s ! i"
    "kind_at s' index = KIND_FILE \<Longrightarrow> (\<forall>k<DIRECT_BLOCKS. blk_at s' index k = 0)"
    "kind_at s' index = KIND_FILE \<Longrightarrow> kind_at s index = KIND_FILE \<or> own index = {}"
    "\<And>b. b < fs_total s \<Longrightarrow> bit_get s' b \<longleftrightarrow> bit_get s b \<and> \<not> (\<exists>k\<in>own index. blk_at s index k = b)"
  shows "fs_own (own(index := {})) s'"
proof -
  note D = fs_ownD [OF assms(1)]
  let ?own = "own(index := {})"
  have at: "fs_inodes s' ! i = fs_inodes s ! i" "k \<in> own i" "i \<noteq> index" if "i < 64" "k \<in> ?own i" for i k
    using that assms(6) by (auto split: if_splits)
  have 1: "?own i \<subseteq> {..<40}" if "i < 64" for i using D(3) [OF that] by auto
  have 2: "?own i = {}" if "i < 64" "kind_at s' i \<noteq> KIND_FILE" for i
    using D(4) [OF that(1)] assms(6) that by (cases "i = index") auto
  have 3: "blk_at s' i k = 0" if "i < 64" "kind_at s' i = KIND_FILE" "k < 40" "k \<notin> ?own i" for i k
    using D(5) [OF that(1) _ that(3)] assms(6,7) that by (cases "i = index") auto
  have 4: "blk_at s' i k < fs_total s'" if "i < 64" "k \<in> ?own i" for i k
    using D(6) [OF that(1)] at [OF that] assms(5) by simp
  have 5: "bit_get s' b \<longleftrightarrow> (\<exists>i<64. \<exists>k\<in>?own i. blk_at s' i k = b)" if b: "b < fs_total s'" for b
  proof
    assume "bit_get s' b"
    then have set: "bit_get s b" and gone: "\<not> (\<exists>k\<in>own index. blk_at s index k = b)" using assms(5,9) b by auto
    from set D(7) b assms(5) obtain i k where ik: "i < 64" "k \<in> own i" "blk_at s i k = b" by auto
    then have "i \<noteq> index" using gone by blast
    then have "k \<in> ?own i" "blk_at s' i k = b" using ik assms(6) by auto
    then show "\<exists>i<64. \<exists>k\<in>?own i. blk_at s' i k = b" using ik(1) by blast
  next
    assume "\<exists>i<64. \<exists>k\<in>?own i. blk_at s' i k = b"
    then obtain i k where ik: "i < 64" "k \<in> ?own i" "blk_at s' i k = b" by blast
    note a = at [OF ik(1,2)]
    have bk: "blk_at s i k = b" using a(1) ik(3) by simp
    have "bit_get s b" using fs_own_bit [OF assms(1) ik(1) a(2)] bk by simp
    moreover have "\<not> (\<exists>l\<in>own index. blk_at s index l = b)"
      using D(8) [OF ik(1) assms(2) a(2)] bk a(3) by metis
    ultimately show "bit_get s' b" using assms(5,9) b by simp
  qed
  have 6: "i = j \<and> k = l" if "i < 64" "j < 64" "k \<in> ?own i" "l \<in> ?own j" "blk_at s' i k = blk_at s' j l" for i j k l
    using D(8) [OF that(1,2) at(2) [OF that(1,3)] at(2) [OF that(2,4)]] at(1) [OF that(1,3)] at(1) [OF that(2,4)] that(5) by simp
  show ?thesis unfolding fs_own_def using assms(3,4) 1 2 3 4 5 6 by blast
qed

lemma fs_remove_ok:
  assumes "fs_sound ok sect reg f s" "fs_mounted s" "index < MAX_INODES" "kind_at s index = KIND_FILE"
  shows "\<exists>f' s'. remove index s = (Ok (), s') \<and> fs_sound ok sect reg f' s' \<and> fs_mounted s' \<and>
     fs_lba s' = fs_lba s \<and> fs_total s' = fs_total s \<and>
     fs_inodes s' = (fs_inodes s)[index := inode_empty] \<and>
     fs_free s' = fs_free s + block_count (size_at s index) \<and>
     (\<forall>j<MAX_INODES. j \<noteq> index \<longrightarrow> kind_at s j = KIND_FILE \<longrightarrow> file_data f' s' j = file_data f s j)"
proof -
  note S = fs_soundD [OF assms(1)] and D = fs_ownD [OF fs_soundD(3) [OF assms(1)]]
  let ?bs = "i_blocks (fs_inodes s ! index)" and ?u = "block_count (size_at s index)"
  have own: "held s index = {..<?u}" using assms(4) by (simp add: held_def)
  have len: "length ?bs = 40" using inode_okD(2) fs_wfD(6) [OF D(1) assms(3)] by blast
  have u: "?u \<le> length ?bs" using block_count_40 S(4) [OF assms(3,4)] len by simp
  have "\<exists>s'. free_blocks_from ?bs 0 ?u s = (Ok (), s') \<and> bitmap_ok s' \<and> same_rest s s' \<and> fs_inodes s' = fs_inodes s \<and>
     fs_free s' = fs_free s + (?u - 0) \<and>
     (\<forall>b. bit_get s' b \<longleftrightarrow> bit_get s b \<and> \<not> (\<exists>k. 0 \<le> k \<and> k < ?u \<and> ?bs ! k = b))"
  proof (rule free_blocks_from_ok [OF D(2) _ _ u])
    show "?bs ! k < fs_total s \<and> bit_get s (?bs ! k)" if "k < ?u" for k
      using D(6) [OF assms(3)] fs_own_bit [OF S(3) assms(3)] own that by simp
    show "k = l" if "k < ?u" "l < ?u" "?bs ! k = ?bs ! l" for k l
      using D(8) [OF assms(3,3), of k l] own that by simp
  qed
  then obtain s1 where r: "free_blocks_from ?bs 0 ?u s = (Ok (), s1)" "bitmap_ok s1" "same_rest s s1"
    "fs_inodes s1 = fs_inodes s" "fs_free s1 = fs_free s + ?u"
    and bits: "\<forall>b. bit_get s1 b \<longleftrightarrow> bit_get s b \<and> \<not> (\<exists>k. 0 \<le> k \<and> k < ?u \<and> ?bs ! k = b)" by auto
  note R = r(3) [unfolded same_rest_def]
  let ?s2 = "upd_inode index (\<lambda>_. inode_empty) s1"
  have wf1: "fs_wf s1" using D(1) r(2,4) R by (simp add: fs_wf_def bitmap_ok_def)
  have wf2: "fs_wf ?s2" by (rule fs_wf_upd_inode [OF wf1]) simp
  have disk2: "fs_disk ok sect reg f ?s2"
    using S(1) wf2 R by (simp add: fs_disk_def fs_geom_def upd_inode_def)
  have fields: "fs_lba ?s2 = fs_lba s" "fs_total ?s2 = fs_total s" "fs_mounted ?s2" "fs_free ?s2 = fs_free s + ?u"
    using R r(5) assms(2) by (simp_all add: upd_inode_def)
  from flush_both_saves [OF S(2) disk2 refl fields(1,2)] obtain f' blk where
    fl: "and_then (flush_inodes ?s2) (\<lambda>_. flush_bitmap) = (Ok (), ?s2\<lparr>fs_blk := blk\<rparr>)"
    and disk': "fs_disk ok sect reg f' (?s2\<lparr>fs_blk := blk\<rparr>)" and saved: "on_disk f' (?s2\<lparr>fs_blk := blk\<rparr>)"
    and far': "\<And>l. fs_lba s + 37 \<le> l \<Longrightarrow> f' l = f l" by blast
  define s' where "s' = ?s2\<lparr>fs_blk := blk\<rparr>"
  have in': "fs_inodes s' = (fs_inodes s)[index := inode_empty]" using r(4) by (simp add: s'_def upd_inode_def)
  have at': "fs_inodes s' ! i = (if i = index then inode_empty else fs_inodes s ! i)" if "i < 64" for i
    using that fs_wfD(1) [OF D(1)] by (simp add: in')
  have run: "remove index s = (Ok (), s')"
    using assms r(1) fl by (simp add: remove_def inode_ref_def s'_def)
  have wf': "fs_wf s'" using disk' unfolding s'_def fs_disk_def by blast
  have "fs_own ((held s)(index := {})) s'"
  proof (rule empty_own [OF S(3) assms(3) wf'])
    show "bitmap_ok s'" using r(2) by (simp add: s'_def bitmap_ok_def upd_inode_def count_free_def bit_get_def)
    show "bit_get s' b \<longleftrightarrow> bit_get s b \<and> \<not> (\<exists>k\<in>held s index. blk_at s index k = b)" for b
      using bits own by (auto simp: s'_def bit_get_def upd_inode_def)
  qed (use at' assms(3) fields in \<open>simp_all add: inode_empty_def s'_def\<close>)
  then have own': "fs_own (held s') s'"
    by (rule fs_own_cong) (use wf' at' assms(3) in \<open>auto simp: held_def inode_empty_def\<close>)
  have disk2': "fs_disk ok sect reg f' s'" unfolding s'_def by (rule disk')
  have saved': "on_disk f' s'" unfolding s'_def by (rule saved)
  have size': "size_at s' i \<le> 163840" if "i < 64" "kind_at s' i = KIND_FILE" for i
    using that S(4) [OF that(1)] by (cases "i = index") (simp_all add: at' inode_empty_def)
  have "fs_sound ok sect reg f' s'"
    using disk2' saved' own' size' by (simp add: fs_sound_def)
  moreover have "file_data f' s' j = file_data f s j" if "j < 64" "j \<noteq> index" "kind_at s j = KIND_FILE" for j
    by (rule fs_sound_data_kept [OF assms(1) _ that(1,3)]) (use at' that far' fields in \<open>simp_all add: s'_def\<close>)
  moreover have rest: "fs_mounted s'" "fs_lba s' = fs_lba s" "fs_total s' = fs_total s" "fs_free s' = fs_free s + ?u"
    using fields by (simp_all add: s'_def)
  ultimately show ?thesis using run in'
    by (intro exI [of _ f'] exI [of _ s'] conjI) (assumption | simp)+
qed

section \<open>Directory entries\<close>

text \<open>An inode that is not a file becomes one that holds no blocks, and the table is flushed.\<close>

lemma inode_change_saved:
  assumes "fs_sound ok sect reg f s" "index < MAX_INODES" "kind_at s index \<noteq> KIND_FILE" "inode_ok n"
    "i_kind n = KIND_FILE \<Longrightarrow> i_size n = 0 \<and> i_blocks n = replicate DIRECT_BLOCKS 0"
  shows "\<exists>f' blk. flush_inodes (upd_inode index (\<lambda>_. n) s) = (Ok (), (upd_inode index (\<lambda>_. n) s)\<lparr>fs_blk := blk\<rparr>) \<and>
     fs_sound ok sect reg f' ((upd_inode index (\<lambda>_. n) s)\<lparr>fs_blk := blk\<rparr>) \<and>
     (\<forall>l. fs_lba s + 37 \<le> l \<longrightarrow> f' l = f l)"
proof -
  note S = fs_soundD [OF assms(1)] and D = fs_ownD [OF fs_soundD(3) [OF assms(1)]]
  let ?t = "upd_inode index (\<lambda>_. n) s"
  have wf: "fs_wf ?t" by (rule fs_wf_upd_inode [OF D(1)]) (rule assms(4))
  have fields: "fs_bitmap ?t = fs_bitmap s" "fs_lba ?t = fs_lba s" "fs_total ?t = fs_total s" "fs_free ?t = fs_free s"
    by (simp_all add: upd_inode_def)
  have disk: "fs_disk ok sect reg f ?t"
    using S(1) wf by (simp add: fs_disk_def fs_geom_def upd_inode_def)
  from flush_inodes_saves [OF S(2) disk fields(1-3)] obtain f' blk where
    fl: "flush_inodes ?t = (Ok (), ?t\<lparr>fs_blk := blk\<rparr>)" and disk': "fs_disk ok sect reg f' (?t\<lparr>fs_blk := blk\<rparr>)"
    and saved: "on_disk f' (?t\<lparr>fs_blk := blk\<rparr>)" and far: "\<forall>l. fs_lba s + 37 \<le> l \<longrightarrow> f' l = f l" by blast
  define s' where "s' = ?t\<lparr>fs_blk := blk\<rparr>"
  have at': "fs_inodes s' ! i = (if i = index then n else fs_inodes s ! i)" if "i < 64" for i
    using that fs_wfD(1) [OF D(1)] by (simp add: s'_def upd_inode_def)
  have fields': "fs_bitmap s' = fs_bitmap s" "fs_total s' = fs_total s" "fs_free s' = fs_free s"
    by (simp_all add: s'_def upd_inode_def)
  have wf': "fs_wf s'" using disk' unfolding s'_def fs_disk_def by blast
  have bits: "bit_get s' = bit_get s" using fields'(1) by (simp add: fun_eq_iff bit_get_def)
  have none: "held s index = {}" using assms(3) by (simp add: held_def)
  have "fs_own ((held s)(index := {})) s'"
  proof (rule empty_own [OF S(3) assms(2) wf' _ fields'(2)])
    show "bitmap_ok s'" using D(2) bits fields' by (simp add: bitmap_ok_def count_free_def)
    show "kind_at s' index = KIND_FILE \<Longrightarrow> \<forall>k<DIRECT_BLOCKS. blk_at s' index k = 0"
      using assms(5) at' [OF assms(2)] by simp
  qed (use at' bits none in simp_all)
  then have own': "fs_own (held s') s'"
    by (rule fs_own_cong)
      (use wf' at' assms(2,5) in \<open>auto simp: held_def block_count_def\<close>)
  have size': "size_at s' i \<le> 163840" if "i < 64" "kind_at s' i = KIND_FILE" for i
    using that S(4) [OF that(1)] assms(5) by (cases "i = index") (simp_all add: at')
  have d2: "fs_disk ok sect reg f' s'" "on_disk f' s'" unfolding s'_def by (rule disk', rule saved)
  have "fs_sound ok sect reg f' s'" using d2 own' size' by (simp add: fs_sound_def)
  then show ?thesis using fl far unfolding s'_def by blast
qed

lemma split_parent_ok:
  assumes "split_parent s path = Ok (parent, leaf)"
  shows "leaf \<noteq> [] \<and> length leaf < MAX_NAME \<and> parent < MAX_INODES \<and> kind_at s parent = KIND_DIR"
  using assms by (auto simp: split_parent_def inode_ref_def Let_def split: prod.splits if_splits option.splits)

lemma split_parent_no_panic: "split_parent s path \<noteq> Panic"
  by (auto simp: split_parent_def Let_def split: prod.splits if_splits option.splits)

definition entry_inode :: "nat \<Rightarrow> nat \<Rightarrow> nat \<Rightarrow> byte list \<Rightarrow> inode" where
  "entry_inode now kind parent leaf =
     inode_empty\<lparr>i_kind := kind, i_parent := parent, i_mtime := now,
                 i_name := leaf @ replicate (MAX_NAME - length leaf) 0\<rparr>"

lemma entry_inode_ok:
  "now < 2 ^ 32 \<Longrightarrow> kind < 2 ^ 32 \<Longrightarrow> parent < 2 ^ 32 \<Longrightarrow> length leaf \<le> MAX_NAME \<Longrightarrow>
     inode_ok (entry_inode now kind parent leaf)"
  by (simp add: entry_inode_def inode_ok_def inode_empty_def)

lemma make_entry_done:
  assumes "fs_sound ok sect reg f s" "fs_mounted s" "now < 2 ^ 32" "kind < 2 ^ 32"
    "resolve s path = None" "split_parent s path = Ok (parent, leaf)"
    "find_slot (\<lambda>i. i_kind (fs_inodes s ! i) = KIND_FREE \<and> i \<noteq> ROOT_INODE) 0 MAX_INODES = Some i"
  shows "\<exists>f' s'. make_entry now kind path s = (Ok i, s') \<and> fs_sound ok sect reg f' s' \<and>
     (\<forall>l. fs_lba s + 37 \<le> l \<longrightarrow> f' l = f l) \<and>
     s' = s\<lparr>fs_inodes := (fs_inodes s)[i := entry_inode now kind parent leaf], fs_blk := fs_blk s'\<rparr>"
proof -
  note sp = split_parent_ok [OF assms(6)]
  have i: "i < 64" "kind_at s i \<noteq> KIND_FILE" using find_slot_Some [OF assms(7)] by auto
  let ?n = "entry_inode now kind parent leaf"
  have n: "inode_ok ?n" by (rule entry_inode_ok) (use assms sp in simp_all)
  have "inode_empty\<lparr>i_kind := kind, i_parent := w32 parent, i_mtime := now,
          i_name := leaf @ drop (length leaf) (i_name inode_empty)\<rparr> = ?n"
    using sp by (simp add: entry_inode_def inode_empty_def)
  then have al: "allocate_inode now parent leaf kind s = (Ok i, upd_inode i (\<lambda>_. ?n) s)"
    using assms(7) sp by (simp add: allocate_inode_def)
  have nofile: "i_kind ?n = KIND_FILE \<Longrightarrow> i_size ?n = 0 \<and> i_blocks ?n = replicate DIRECT_BLOCKS 0"
    by (simp add: entry_inode_def inode_empty_def)
  from inode_change_saved [OF assms(1) i n nofile] obtain f' blk where
    fl: "flush_inodes (upd_inode i (\<lambda>_. ?n) s) = (Ok (), (upd_inode i (\<lambda>_. ?n) s)\<lparr>fs_blk := blk\<rparr>)"
    and sound: "fs_sound ok sect reg f' ((upd_inode i (\<lambda>_. ?n) s)\<lparr>fs_blk := blk\<rparr>)"
    and far: "\<forall>l. fs_lba s + 37 \<le> l \<longrightarrow> f' l = f l" by blast
  define s' where "s' = (upd_inode i (\<lambda>_. ?n) s)\<lparr>fs_blk := blk\<rparr>"
  show ?thesis
  proof (intro exI conjI)
    show "make_entry now kind path s = (Ok i, s')"
      using assms al fl by (simp add: make_entry_def s'_def)
    show "fs_sound ok sect reg f' s'" unfolding s'_def by (rule sound)
    show "s' = s\<lparr>fs_inodes := (fs_inodes s)[i := ?n], fs_blk := fs_blk s'\<rparr>" by (simp add: s'_def upd_inode_def)
  qed (rule far)
qed

lemma rmdir_done:
  assumes "fs_sound ok sect reg f s" "fs_mounted s" "resolve s path = Some i" "i \<noteq> ROOT_INODE" "i < MAX_INODES"
    "kind_at s i = KIND_DIR" "\<not> has_entries s i"
  shows "\<exists>f' s'. rmdir path s = (Ok (), s') \<and> fs_sound ok sect reg f' s' \<and>
     (\<forall>l. fs_lba s + 37 \<le> l \<longrightarrow> f' l = f l) \<and>
     s' = s\<lparr>fs_inodes := (fs_inodes s)[i := inode_empty], fs_blk := fs_blk s'\<rparr>"
proof -
  have "kind_at s i \<noteq> KIND_FILE" using assms(6) by simp
  from inode_change_saved [OF assms(1,5) this inode_ok_empty] obtain f' blk where
    fl: "flush_inodes (upd_inode i (\<lambda>_. inode_empty) s) = (Ok (), (upd_inode i (\<lambda>_. inode_empty) s)\<lparr>fs_blk := blk\<rparr>)"
    and sound: "fs_sound ok sect reg f' ((upd_inode i (\<lambda>_. inode_empty) s)\<lparr>fs_blk := blk\<rparr>)"
    and far: "\<forall>l. fs_lba s + 37 \<le> l \<longrightarrow> f' l = f l" by (auto simp: inode_empty_def)
  define s' where "s' = (upd_inode i (\<lambda>_. inode_empty) s)\<lparr>fs_blk := blk\<rparr>"
  show ?thesis
  proof (intro exI conjI)
    show "rmdir path s = (Ok (), s')" using assms fl by (simp add: rmdir_def inode_ref_def s'_def)
    show "fs_sound ok sect reg f' s'" unfolding s'_def by (rule sound)
    show "s' = s\<lparr>fs_inodes := (fs_inodes s)[i := inode_empty], fs_blk := fs_blk s'\<rparr>" by (simp add: s'_def upd_inode_def)
  qed (rule far)
qed

section \<open>Sync\<close>

lemma rd32_less [simp]: "rd32 bs off < 2 ^ 32" "rd32 bs off < 4294967296"
proof -
  have b: "unat (x :: byte) \<le> 255" for x using unsigned_less [of x, where 'a = nat] by simp
  show "rd32 bs off < 2 ^ 32" "rd32 bs off < 4294967296" unfolding rd32_def
    using b [of "bs ! off"] b [of "bs ! (off + 1)"] b [of "bs ! (off + 2)"] b [of "bs ! (off + 3)"] by simp_all
qed

lemma super_ok_decode: "length bs = SECTOR_SIZE \<Longrightarrow> super_ok (decode_super bs)"
  by (simp add: super_ok_def decode_super_def)

lemma decode_super_sector: "super_ok sb \<Longrightarrow> decode_super (super_sector sb) = sb"
  by (simp add: super_sector_def decode_encode_super)

lemma and_then_assoc: "and_then (and_then r k) h = and_then r (\<lambda>x s. and_then (k x s) h)"
  by (simp add: and_then_def split: prod.splits outcome.splits)

lemma file_count_le: "file_count s \<le> MAX_INODES"
  unfolding file_count_def using length_filter_le [of "\<lambda>i. i_kind (fs_inodes s ! i) = KIND_FILE" "[0..<MAX_INODES]"] by simp

lemma fs_free_le: "fs_sound ok sect reg f s \<Longrightarrow> fs_free s \<le> fs_total s"
  using fs_ownD(2) [OF fs_soundD(3), of ok sect reg f s] count_free_le [of s "fs_total s"] by (simp add: bitmap_ok_def)

lemma sectors_at_upd_other: "l < a \<or> a + n \<le> l \<Longrightarrow> sectors_at (f(l := x)) a n = sectors_at f a n"
  by (rule sectors_at_cong) auto

lemma fs_sound_blk:
  assumes "fs_sound ok sect reg f s" "shows_disk ok sect reg blk f'" "on_disk f' s"
  shows "fs_sound ok sect reg f' (s\<lparr>fs_blk := blk\<rparr>)"
proof -
  note S = fs_soundD [OF assms(1)]
  have "fs_own (held (s\<lparr>fs_blk := blk\<rparr>)) (s\<lparr>fs_blk := blk\<rparr>)"
    by (rule fs_own_cong [OF S(3)]) (use fs_ownD(1) [OF S(3)] in \<open>simp_all add: held_def fs_wf_def\<close>)
  then show ?thesis using S assms(2,3)
    by (simp add: fs_sound_def fs_disk_def fs_wf_def fs_geom_def on_disk_def)
qed

lemma fs_sync_ok:
  assumes "fs_sound ok sect reg f s" "fs_mounted s"
  shows "\<exists>f' blk. fs_sync s = (Ok (), s\<lparr>fs_blk := blk\<rparr>) \<and> fs_sound ok sect reg f' (s\<lparr>fs_blk := blk\<rparr>) \<and>
     (\<forall>l. fs_lba s + 37 \<le> l \<longrightarrow> f' l = f l) \<and>
     sb_free_blocks (decode_super (f' (fs_lba s))) = fs_free s \<and>
     sb_file_count (decode_super (f' (fs_lba s))) = file_count s"
proof -
  note S = fs_soundD [OF assms(1)]
  from flush_both_saves [OF S(2,1) refl refl refl] obtain f1 b1 where
    r1: "and_then (flush_inodes s) (\<lambda>_. flush_bitmap) = (Ok (), s\<lparr>fs_blk := b1\<rparr>)"
    and d1: "fs_disk ok sect reg f1 (s\<lparr>fs_blk := b1\<rparr>)" and o1: "on_disk f1 (s\<lparr>fs_blk := b1\<rparr>)"
    and far: "\<forall>l. fs_lba s + 37 \<le> l \<longrightarrow> f1 l = f l" by blast
  have "inside reg (fs_lba s) 1" using fs_geomD(4) [OF fs_diskD(2) [OF S(1)]] by (simp add: inside_def)
  with read_super_healthy [of ok sect reg "s\<lparr>fs_blk := b1\<rparr>" f1] fs_diskD(3) [OF d1] obtain b2 where
    r2: "read_super (s\<lparr>fs_blk := b1\<rparr>) = (Ok (decode_super (f1 (fs_lba s))), s\<lparr>fs_blk := b2\<rparr>)"
    and b2: "shows_disk ok sect reg b2 f1" by auto
  have d2: "fs_disk ok sect reg f1 (s\<lparr>fs_blk := b2\<rparr>)" using d1 b2 by (simp add: fs_disk_def fs_wf_def fs_geom_def)
  let ?sb = "(decode_super (f1 (fs_lba s)))\<lparr>sb_free_blocks := fs_free s, sb_file_count := file_count s\<rparr>"
  have "fs_free s \<le> 16384" using fs_free_le [OF assms(1)] fs_geomD(3) [OF fs_diskD(2) [OF S(1)]] by simp
  then have sb: "super_ok ?sb"
    using super_ok_decode [OF fs_diskD(4) [OF d1]] file_count_le [of s] by (simp add: super_ok_def)
  from write_super_healthy [OF d2 sb] obtain b3 where
    r3: "write_super ?sb (s\<lparr>fs_blk := b2\<rparr>) = (Ok (), s\<lparr>fs_blk := b3\<rparr>)"
    and d3: "fs_disk ok sect reg (f1(fs_lba s := super_sector ?sb)) (s\<lparr>fs_blk := b3\<rparr>)" by auto
  let ?f' = "f1(fs_lba s := super_sector ?sb)"
  have dec: "decode_super (?f' (fs_lba s)) = ?sb" using decode_super_sector [OF sb] by simp
  have "on_disk ?f' s"
    using o1 decode_super_sector [OF sb] by (simp add: on_disk_def sectors_at_upd_other)
  with fs_sound_blk [OF assms(1)] fs_diskD(3) [OF d3] have "fs_sound ok sect reg ?f' (s\<lparr>fs_blk := b3\<rparr>)" by simp
  moreover have "fs_sync s = (Ok (), s\<lparr>fs_blk := b3\<rparr>)"
  proof -
    have "fs_sync s = and_then (and_then (flush_inodes s) (\<lambda>_. flush_bitmap)) (\<lambda>_ s.
        and_then (read_super s) (\<lambda>sb s. write_super (sb\<lparr>sb_free_blocks := fs_free s, sb_file_count := file_count s\<rparr>) s))"
      using assms(2) by (simp add: fs_sync_def and_then_assoc)
    then show ?thesis using r1 r2 r3 by (simp add: file_count_def)
  qed
  ultimately show ?thesis using far dec by (intro exI [of _ ?f'] exI [of _ b3]) simp
qed

section \<open>Formatting\<close>

definition root_inode :: "nat \<Rightarrow> inode" where
  "root_inode now = inode_empty\<lparr>i_kind := KIND_DIR, i_parent := ROOT_INODE, i_mtime := now\<rparr>"

definition fresh_super :: "nat \<Rightarrow> byte list \<Rightarrow> super_block" where
  "fresh_super tot label =
     \<lparr>sb_magic = MAGIC, sb_version = VERSION, sb_total_blocks = tot, sb_free_blocks = tot,
      sb_inode_count = MAX_INODES, sb_file_count = 0, sb_block_size = BLOCK_SIZE,
      sb_data_start = DATA_START_SECTOR, sb_label = format_label label\<rparr>"

lemma fresh_super_ok: "tot \<le> MAX_BLOCKS \<Longrightarrow> super_ok (fresh_super tot label)"
  by (simp add: super_ok_def fresh_super_def format_label_def)

definition fresh_fs :: "nat \<Rightarrow> nat \<Rightarrow> nat \<Rightarrow> 'd fs \<Rightarrow> 'd fs" where
  "fresh_fs now lba tot s =
     s\<lparr>fs_lba := lba, fs_total := tot, fs_free := tot,
       fs_inodes := (replicate MAX_INODES inode_empty)[ROOT_INODE := root_inode now],
       fs_bitmap := replicate 2048 0\<rparr>"

lemma capacity_blocks_fits:
  assumes "lba + max sectors DATA_START_SECTOR \<le> cap"
  shows "lba + DATA_START_SECTOR + capacity_blocks sectors * SECTORS_PER_BLOCK \<le> cap" "capacity_blocks sectors \<le> MAX_BLOCKS"
proof -
  have "min ((sectors - 4096) div 8) 16384 * 8 \<le> sectors - 4096" by linarith
  then show "lba + DATA_START_SECTOR + capacity_blocks sectors * SECTORS_PER_BLOCK \<le> cap"
    using assms by (auto simp: capacity_blocks_def)
  show "capacity_blocks sectors \<le> MAX_BLOCKS" by (simp add: capacity_blocks_def)
qed

lemma fresh_fs_at: "i < MAX_INODES \<Longrightarrow> fs_inodes (fresh_fs now lba tot s) ! i = (if i = 0 then root_inode now else inode_empty)"
  by (simp add: fresh_fs_def)

lemma fresh_fs_wf:
  assumes "fs_wf s" "now < 2 ^ 32"
  shows "fs_wf (fresh_fs now lba tot s)"
proof -
  have "inode_ok (root_inode now)" using assms(2) by (simp add: inode_ok_def root_inode_def inode_empty_def)
  then have "\<forall>i\<in>set ((replicate 64 inode_empty)[0 := root_inode now]). inode_ok i"
    by (auto dest!: set_update_subset_insert [THEN subsetD])
  then show ?thesis using assms(1) by (simp add: fs_wf_def fresh_fs_def)
qed

lemma fresh_fs_own:
  assumes "fs_wf s" "now < 2 ^ 32" "tot \<le> MAX_BLOCKS"
  shows "fs_own (\<lambda>_. {}) (fresh_fs now lba tot s)"
proof -
  let ?t = "fresh_fs now lba tot s"
  have bits: "\<not> bit_get ?t b" if "b < 16384" for b using that by (simp add: bit_get_def fresh_fs_def)
  have "count_free ?t tot = tot"
    using bits assms(3) by (simp add: count_free_def filter_id_conv [THEN iffD2])
  then have bm: "bitmap_ok ?t" using assms(3) by (simp add: bitmap_ok_def fresh_fs_def)
  have tt: "fs_total ?t = tot" by (simp add: fresh_fs_def)
  have "blk_at ?t i k = 0" if "i < 64" "k < 40" for i k
    using that by (simp add: fresh_fs_at root_inode_def inode_empty_def)
  then show ?thesis unfolding fs_own_def
    using fresh_fs_wf [OF assms(1,2)] bm bits tt assms(3) by simp
qed

lemma format_flushes:
  assumes "fs_wf s" "shows_disk ok sect reg (fs_blk s) f" "now < 2 ^ 32"
    "fst reg \<le> lba" "lba + max sectors DATA_START_SECTOR \<le> snd reg" "snd reg < 2 ^ 32"
  shows "\<exists>f' blk. format_disk now (Some (lba, sectors)) label s =
       make_dirs now skeleton_dirs ((fresh_fs now lba (capacity_blocks sectors) s)\<lparr>fs_blk := blk, fs_mounted := True\<rparr>) \<and>
     fs_sound ok sect reg f' ((fresh_fs now lba (capacity_blocks sectors) s)\<lparr>fs_blk := blk, fs_mounted := True\<rparr>)"
proof -
  let ?tot = "capacity_blocks sectors" and ?sb = "fresh_super (capacity_blocks sectors) label"
  define t where "t = fresh_fs now lba ?tot s"
  note fits = capacity_blocks_fits [OF assms(5)]
  have fields: "fs_lba t = lba" "fs_total t = ?tot" "fs_blk t = fs_blk s" "fs_bitmap t = replicate 2048 0"
    by (simp_all add: t_def fresh_fs_def)
  have wf: "fs_wf t" unfolding t_def by (rule fresh_fs_wf [OF assms(1,3)])
  have disk: "fs_disk ok sect reg f t"
    using wf assms(2,4,6) fits fields by (simp add: fs_disk_def fs_geom_def)
  have sb: "super_ok ?sb" by (rule fresh_super_ok [OF fits(2)])
  let ?f1 = "put_sectors (fs_lba t + 1) 32 (inode_bytes (fs_inodes t)) f"
  from flush_inodes_healthy [OF disk] obtain b1 where
    r1: "flush_inodes t = (Ok (), t\<lparr>fs_blk := b1\<rparr>)" "fs_disk ok sect reg ?f1 (t\<lparr>fs_blk := b1\<rparr>)" by blast
  let ?f2 = "put_sectors (fs_lba t + 33) 4 (fs_bitmap t) ?f1"
  from flush_bitmap_healthy [OF r1(2)] obtain b2 where
    r2: "flush_bitmap (t\<lparr>fs_blk := b1\<rparr>) = (Ok (), t\<lparr>fs_blk := b2\<rparr>)" "fs_disk ok sect reg ?f2 (t\<lparr>fs_blk := b2\<rparr>)" by auto
  let ?f3 = "?f2(fs_lba t := super_sector ?sb)"
  from write_super_healthy [OF r2(2) sb] obtain b3 where
    r3: "write_super ?sb (t\<lparr>fs_blk := b2\<rparr>) = (Ok (), t\<lparr>fs_blk := b3\<rparr>)" "fs_disk ok sect reg ?f3 (t\<lparr>fs_blk := b3\<rparr>)" by auto
  define s' where "s' = t\<lparr>fs_blk := b3, fs_mounted := True\<rparr>"
  have run: "format_disk now (Some (lba, sectors)) label s = make_dirs now skeleton_dirs s'"
  proof -
    have "upd_inode ROOT_INODE (\<lambda>n. n\<lparr>i_kind := KIND_DIR, i_parent := ROOT_INODE, i_mtime := now\<rparr>)
      (s\<lparr>fs_lba := lba, fs_total := ?tot, fs_free := ?tot,
         fs_inodes := replicate MAX_INODES inode_empty, fs_bitmap := replicate 2048 0\<rparr>) = t"
      by (simp add: upd_inode_def t_def fresh_fs_def root_inode_def)
    moreover have "\<lparr>sb_magic = MAGIC, sb_version = VERSION, sb_total_blocks = ?tot,
                         sb_free_blocks = ?tot, sb_inode_count = MAX_INODES, sb_file_count = 0,
                         sb_block_size = BLOCK_SIZE, sb_data_start = DATA_START_SECTOR,
                         sb_label = format_label label\<rparr> = ?sb" by (simp add: fresh_super_def)
    ultimately show ?thesis
      using shows_disk_available [OF assms(2)] r1(1) r2(1) r3(1)
      by (simp add: format_disk_def Let_def s'_def)
  qed
  have tables: "sectors_at ?f3 (lba + 1) 32 = inode_bytes (fs_inodes t)" "sectors_at ?f3 (lba + 33) 4 = fs_bitmap t"
  proof -
    have "sectors_at ?f3 (lba + 1) 32 = sectors_at ?f1 (lba + 1) 32"
      using fields(1) by (simp add: sectors_at_upd_other sectors_at_put_other)
    then show "sectors_at ?f3 (lba + 1) 32 = inode_bytes (fs_inodes t)"
      using sectors_at_put_same [of 32 "inode_bytes (fs_inodes t)" 32] fs_wfD(5) [OF wf] fields(1) by simp
    have "sectors_at ?f3 (lba + 33) 4 = sectors_at ?f2 (lba + 33) 4"
      using fields(1) by (simp add: sectors_at_upd_other)
    then show "sectors_at ?f3 (lba + 33) 4 = fs_bitmap t"
      using sectors_at_put_same [of 4 "fs_bitmap t" 4] fs_wfD(3) [OF wf] fields(1) by simp
  qed
  have "decode_super (?f3 lba) = ?sb" using decode_super_sector [OF sb] fields(1) by simp
  then have saved: "on_disk ?f3 s'"
    using tables fields by (simp add: on_disk_def s'_def fresh_super_def)
  have disk': "fs_disk ok sect reg ?f3 s'" using r3(2) by (simp add: fs_disk_def s'_def fs_wf_def fs_geom_def)
  have own: "fs_own (\<lambda>_. {}) t" unfolding t_def by (rule fresh_fs_own [OF assms(1,3) fits(2)])
  have nofile: "kind_at s' i \<noteq> KIND_FILE" if "i < 64" for i
    using that by (simp add: s'_def t_def fresh_fs_at root_inode_def inode_empty_def)
  have "fs_own (held s') s'"
    by (rule fs_own_cong [OF own])
      (use disk' nofile in \<open>simp_all add: s'_def held_def fs_disk_def\<close>)
  then have "fs_sound ok sect reg ?f3 s'"
    using disk' saved nofile unfolding fs_sound_def by blast
  with run show ?thesis unfolding s'_def t_def by blast
qed

text \<open>The two directories a new file system starts with.\<close>

lemma name_of_entry:
  assumes "0 \<notin> set leaf" "utf8_valid leaf"
  shows "name_of (entry_inode now kind parent leaf) = leaf"
proof -
  have "takeWhile (\<lambda>b. b \<noteq> 0) (leaf @ replicate n 0) = leaf" for n
  proof -
    have "\<And>b. b \<in> set leaf \<Longrightarrow> b \<noteq> 0" using assms(1) by metis
    then have "takeWhile (\<lambda>b. b \<noteq> 0) (leaf @ replicate n 0) = leaf @ takeWhile (\<lambda>b. b \<noteq> 0) (replicate n 0)"
      by (rule takeWhile_append2)
    then show ?thesis by (cases n) simp_all
  qed
  then show ?thesis using assms(2) by (simp add: name_of_def entry_inode_def)
qed

lemma entry_inode_fields [simp]:
  "i_kind (entry_inode now kind parent leaf) = kind" "i_parent (entry_inode now kind parent leaf) = parent"
  "i_size (entry_inode now kind parent leaf) = 0"
  by (simp_all add: entry_inode_def inode_empty_def)

lemma child_of_None:
  "name \<noteq> [] \<Longrightarrow>
   (\<And>j. j < MAX_INODES \<Longrightarrow> j \<noteq> 0 \<Longrightarrow> kind_at s j \<noteq> KIND_FREE \<Longrightarrow> i_parent (fs_inodes s ! j) = p \<Longrightarrow>
      name_of (fs_inodes s ! j) \<noteq> name) \<Longrightarrow> child_of s p name = None"
  by (auto simp: child_of_def find_slot_None Let_def)

text \<open>A path \<open>/leaf\<close> of one component.\<close>

lemma split_slash_plain: "SLASH \<notin> set p \<Longrightarrow> split_slash p = [p]"
  by (induction p) auto

lemma resolve_top:
  assumes "SLASH \<notin> set leaf" "leaf \<noteq> []" "leaf \<noteq> [DOT]" "kind_at s 0 = KIND_DIR"
  shows "resolve s (SLASH # leaf) = child_of s 0 leaf"
  using assms
  by (simp add: resolve_def split_slash_plain inode_ref_def split: option.splits)

lemma split_parent_top:
  assumes "SLASH \<notin> set leaf" "leaf \<noteq> []" "leaf \<noteq> [DOT]" "length leaf < MAX_NAME" "kind_at s 0 = KIND_DIR"
  shows "split_parent s (SLASH # leaf) = Ok (0, leaf)"
proof -
  have rev_tw: "takeWhile (\<lambda>b. b \<noteq> SLASH) (rev leaf @ [SLASH]) = rev leaf"
    using assms(1) by (subst takeWhile_append2) auto
  have "dropWhile (\<lambda>b. b = SLASH) (rev (SLASH # leaf)) = rev (SLASH # leaf)"
  proof -
    obtain x xs where x: "rev leaf = x # xs" using assms(2) by (cases "rev leaf") simp_all
    then have "x \<in> set leaf" by (metis list.set_intros(1) set_rev)
    then have "x \<noteq> SLASH" using assms(1) by blast
    then show ?thesis using x by simp
  qed
  then have t: "trim_end (SLASH # leaf) = SLASH # leaf" by (simp add: trim_end_def)
  have l: "split_last (SLASH # leaf) = ([], leaf)"
    using rev_tw by (simp add: split_last_def)
  have "resolve s [SLASH] = Some 0" by (simp add: resolve_def)
  then show ?thesis using t l assms by (simp add: split_parent_def split_slash_plain inode_ref_def)
qed

definition home_name :: "byte list" where "home_name = map (of_nat \<circ> of_char) ''home''"
definition tmp_name :: "byte list" where "tmp_name = map (of_nat \<circ> of_char) ''tmp''"

lemma skeleton_names:
  "skeleton_dirs = [SLASH # home_name, SLASH # tmp_name]"
  "home_name = [104, 111, 109, 101]" "tmp_name = [116, 109, 112]"
  by (simp_all add: skeleton_dirs_def home_name_def tmp_name_def)

lemma name_of_home: "name_of (entry_inode now kind parent home_name) = home_name"
  by (rule name_of_entry) (simp_all add: skeleton_names)

lemma make_entry_top:
  assumes "fs_sound ok sect reg f s" "fs_mounted s" "now < 2 ^ 32" "kind < 2 ^ 32" "kind_at s 0 = KIND_DIR"
    "SLASH \<notin> set leaf" "leaf \<noteq> []" "leaf \<noteq> [DOT]" "length leaf < MAX_NAME" "child_of s 0 leaf = None"
    "0 < i" "i < MAX_INODES" "kind_at s i = KIND_FREE" "\<And>j. 0 < j \<Longrightarrow> j < i \<Longrightarrow> kind_at s j \<noteq> KIND_FREE"
  shows "\<exists>f' s'. make_entry now kind (SLASH # leaf) s = (Ok i, s') \<and> fs_sound ok sect reg f' s' \<and>
     s' = s\<lparr>fs_inodes := (fs_inodes s)[i := entry_inode now kind 0 leaf], fs_blk := fs_blk s'\<rparr>"
proof -
  have free: "find_slot (\<lambda>i. i_kind (fs_inodes s ! i) = KIND_FREE \<and> i \<noteq> ROOT_INODE) 0 MAX_INODES = Some i"
    by (rule find_slot_first) (use assms(11-14) in auto)
  have r: "resolve s (SLASH # leaf) = None" using resolve_top [OF assms(6,7,8,5)] assms(10) by simp
  have sp: "split_parent s (SLASH # leaf) = Ok (0, leaf)" by (rule split_parent_top [OF assms(6-9,5)])
  from make_entry_done [OF assms(1-4) r sp free] show ?thesis by blast
qed

lemma format_ok:
  assumes "fs_wf s" "shows_disk ok sect reg (fs_blk s) f" "now < 2 ^ 32"
    "fst reg \<le> lba" "lba + max sectors DATA_START_SECTOR \<le> snd reg" "snd reg < 2 ^ 32"
  shows "\<exists>f' s'. format_disk now (Some (lba, sectors)) label s = (Ok (), s') \<and> fs_sound ok sect reg f' s' \<and>
     fs_mounted s' \<and> fs_lba s' = lba \<and> fs_total s' = capacity_blocks sectors \<and> fs_free s' = capacity_blocks sectors \<and>
     fs_inodes s' = (replicate MAX_INODES inode_empty)
        [0 := root_inode now, 1 := entry_inode now KIND_DIR 0 home_name, 2 := entry_inode now KIND_DIR 0 tmp_name]"
proof -
  let ?is = "(replicate MAX_INODES inode_empty)[0 := root_inode now]"
  from format_flushes [OF assms] obtain f0 blk where
    run: "format_disk now (Some (lba, sectors)) label s =
       make_dirs now skeleton_dirs ((fresh_fs now lba (capacity_blocks sectors) s)\<lparr>fs_blk := blk, fs_mounted := True\<rparr>)"
    and s0: "fs_sound ok sect reg f0 ((fresh_fs now lba (capacity_blocks sectors) s)\<lparr>fs_blk := blk, fs_mounted := True\<rparr>)"
    by blast
  define t where "t = (fresh_fs now lba (capacity_blocks sectors) s)\<lparr>fs_blk := blk, fs_mounted := True\<rparr>"
  have sound: "fs_sound ok sect reg f0 t" using s0 unfolding t_def .
  have ft: "fs_inodes t = ?is" "fs_mounted t" "fs_lba t = lba" "fs_total t = capacity_blocks sectors" "fs_free t = capacity_blocks sectors"
    by (simp_all add: t_def fresh_fs_def)
  have at: "fs_inodes t ! i = (if i = 0 then root_inode now else inode_empty)" if "i < 64" for i
    using that by (simp add: ft)
  have k0: "kind_at t 0 = KIND_DIR" by (simp add: at root_inode_def)
  have "child_of t 0 home_name = None"
    by (rule child_of_None) (simp_all add: at inode_empty_def skeleton_names)
  then obtain f1 s1 where
    r1: "mkdir now (SLASH # home_name) t = (Ok 1, s1)" and s1: "fs_sound ok sect reg f1 s1"
    and e1: "s1 = t\<lparr>fs_inodes := (fs_inodes t)[1 := entry_inode now KIND_DIR 0 home_name], fs_blk := fs_blk s1\<rparr>"
    using make_entry_top [OF sound ft(2) assms(3) _ k0, of KIND_DIR home_name 1]
    by (force simp: at inode_empty_def skeleton_names(2) mkdir_def)
  have f1: "fs_inodes s1 = ?is[1 := entry_inode now KIND_DIR 0 home_name]" "fs_mounted s1" "fs_lba s1 = lba"
      "fs_total s1 = capacity_blocks sectors" "fs_free s1 = capacity_blocks sectors"
    by (subst e1, simp add: ft)+
  have at1: "fs_inodes s1 ! i = (if i = 0 then root_inode now else if i = 1 then entry_inode now KIND_DIR 0 home_name else inode_empty)"
    if "i < 64" for i
    using that by (simp add: f1)
  have k1: "kind_at s1 0 = KIND_DIR" by (simp add: at1 root_inode_def)
  have "child_of s1 0 tmp_name = None"
  proof (rule child_of_None)
    show "name_of (fs_inodes s1 ! j) \<noteq> tmp_name" if "j < 64" "j \<noteq> 0" "kind_at s1 j \<noteq> KIND_FREE" for j
      using that by (cases "j = 1") (simp_all add: at1 name_of_home inode_empty_def, simp add: skeleton_names)
  qed (simp add: skeleton_names)
  then obtain f2 s2 where
    r2: "mkdir now (SLASH # tmp_name) s1 = (Ok 2, s2)" and s2: "fs_sound ok sect reg f2 s2"
    and e2: "s2 = s1\<lparr>fs_inodes := (fs_inodes s1)[2 := entry_inode now KIND_DIR 0 tmp_name], fs_blk := fs_blk s2\<rparr>"
    using make_entry_top [OF s1 f1(2) assms(3) _ k1, of KIND_DIR tmp_name 2]
    by (force simp: at1 inode_empty_def skeleton_names(3) mkdir_def)
  have f2: "fs_inodes s2 = ?is[1 := entry_inode now KIND_DIR 0 home_name, 2 := entry_inode now KIND_DIR 0 tmp_name]"
      "fs_mounted s2" "fs_lba s2 = lba" "fs_total s2 = capacity_blocks sectors" "fs_free s2 = capacity_blocks sectors"
    by (subst e2, simp add: f1)+
  have "format_disk now (Some (lba, sectors)) label s = (Ok (), s2)"
    using run r1 r2 unfolding t_def [symmetric] by (simp add: skeleton_names(1))
  then show ?thesis using s2 f2 by blast
qed

end
