(* ===== verification/TcmkfsSpec.thy ===== *)
theory TcmkfsSpec imports TcmkfsOps begin

text \<open>
  What the file system promises, without inodes and blocks: a table of entries with a kind, a
  parent, a name and the contents, and a number of free blocks.  \<open>view\<close> abstracts a sound file
  system to it, \<open>a_step\<close> says what an operation may answer and do, and the operations of
  \<^verbatim>\<open>core/tcmkfs.rs\<close> refine it.
\<close>

section \<open>The abstract file system\<close>

record a_entry =
  a_kind :: nat
  a_parent :: nat
  a_name :: "byte list"
  a_data :: "byte list"

record a_fs =
  a_tree :: "nat \<Rightarrow> a_entry option"
  a_free :: nat

definition view :: "(nat \<Rightarrow> byte list) \<Rightarrow> 'd fs \<Rightarrow> a_fs" where
  "view f s =
     \<lparr>a_tree = (\<lambda>i. if i < MAX_INODES \<and> kind_at s i \<noteq> KIND_FREE
        then Some \<lparr>a_kind = kind_at s i, a_parent = i_parent (fs_inodes s ! i), a_name = name_of (fs_inodes s ! i),
                   a_data = (if kind_at s i = KIND_FILE then file_data f s i else [])\<rparr>
        else None),
      a_free = fs_free s\<rparr>"

definition a_child :: "a_fs \<Rightarrow> nat \<Rightarrow> byte list \<Rightarrow> nat option" where
  "a_child a p name =
     (if name = [] then Some p
      else find_slot (\<lambda>i. i \<noteq> ROOT_INODE \<and> (case a_tree a i of None \<Rightarrow> False | Some e \<Rightarrow> a_parent e = p \<and> a_name e = name)) 0 MAX_INODES)"

fun a_walk :: "a_fs \<Rightarrow> byte list list \<Rightarrow> nat \<Rightarrow> nat option" where
  "a_walk a [] i = Some i"
| "a_walk a (c # cs) i =
     (case a_tree a i of None \<Rightarrow> None
      | Some e \<Rightarrow> if a_kind e \<noteq> KIND_DIR then None
                  else (case a_child a i c of None \<Rightarrow> None | Some j \<Rightarrow> a_walk a cs j))"

definition components :: "byte list \<Rightarrow> byte list list" where
  "components path = filter (\<lambda>p. p \<noteq> [] \<and> p \<noteq> [DOT]) (split_slash path)"

definition a_resolve :: "a_fs \<Rightarrow> byte list \<Rightarrow> nat option" where
  "a_resolve a path = (if length (components path) \<le> MAX_DEPTH then a_walk a (components path) ROOT_INODE else None)"

definition a_split_parent :: "a_fs \<Rightarrow> byte list \<Rightarrow> (fs_error, nat \<times> byte list) outcome" where
  "a_split_parent a path =
     (let trimmed = trim_end path; (dir, leaf) = split_last trimmed in
      if leaf = [] \<or> length leaf \<ge> MAX_NAME then Err NameTooLong
      else if length (components trimmed) > MAX_DEPTH then Err TooDeep
      else case a_resolve a (if dir = [] then [SLASH] else dir) of
             None \<Rightarrow> Err BadPath
           | Some parent \<Rightarrow>
               (case a_tree a parent of None \<Rightarrow> Err BadPath
                | Some e \<Rightarrow> if a_kind e \<noteq> KIND_DIR then Err BadPath else Ok (parent, leaf)))"

text \<open>A name is kept up to its first zero byte.\<close>

definition stored_name :: "byte list \<Rightarrow> byte list" where
  "stored_name leaf = (let n = takeWhile (\<lambda>b. b \<noteq> 0) leaf in if utf8_valid n then n else [])"

type_synonym fs_answer = "(fs_error, nat \<times> byte list) outcome"

definition a_make :: "nat \<Rightarrow> byte list \<Rightarrow> a_fs \<Rightarrow> fs_answer \<times> a_fs" where
  "a_make kind path a =
     (if a_resolve a path \<noteq> None then (Err Exists, a)
      else case a_split_parent a path of Err e \<Rightarrow> (Err e, a) | Panic \<Rightarrow> (Panic, a)
      | Ok (parent, leaf) \<Rightarrow>
          (case find_slot (\<lambda>i. a_tree a i = None \<and> i \<noteq> ROOT_INODE) 0 MAX_INODES of
             None \<Rightarrow> (Err TooManyFiles, a)
           | Some i \<Rightarrow> (Ok (i, []), a\<lparr>a_tree := (a_tree a)(i \<mapsto>
                \<lparr>a_kind = kind, a_parent = parent, a_name = stored_name leaf, a_data = []\<rparr>)\<rparr>)))"

definition a_has_entries :: "a_fs \<Rightarrow> nat \<Rightarrow> bool" where
  "a_has_entries a index =
     (\<exists>i\<in>set [0..<MAX_INODES]. i \<noteq> index \<and> (case a_tree a i of None \<Rightarrow> False | Some e \<Rightarrow> a_parent e = index))"

definition a_rmdir :: "byte list \<Rightarrow> a_fs \<Rightarrow> fs_answer \<times> a_fs" where
  "a_rmdir path a =
     (case a_resolve a path of None \<Rightarrow> (Err NotFound, a)
      | Some i \<Rightarrow>
          if i = ROOT_INODE then (Err BadPath, a)
          else case a_tree a i of None \<Rightarrow> (Err NotFound, a)
          | Some e \<Rightarrow>
              if a_kind e \<noteq> KIND_DIR then (Err NotFound, a)
              else if a_has_entries a i then (Err NotEmpty, a)
              else (Ok (0, []), a\<lparr>a_tree := (a_tree a)(i := None)\<rparr>))"

definition a_file :: "a_fs \<Rightarrow> nat \<Rightarrow> a_entry option" where
  "a_file a i = (case a_tree a i of None \<Rightarrow> None | Some e \<Rightarrow> if a_kind e = KIND_FILE then Some e else None)"

definition a_remove :: "nat \<Rightarrow> a_fs \<Rightarrow> fs_answer \<times> a_fs" where
  "a_remove i a =
     (case a_file a i of None \<Rightarrow> (Err NotFound, a)
      | Some e \<Rightarrow> (Ok (0, []), a\<lparr>a_tree := (a_tree a)(i := None),
                                a_free := a_free a + block_count (length (a_data e))\<rparr>))"

definition a_read :: "nat \<Rightarrow> nat \<Rightarrow> byte list \<Rightarrow> a_fs \<Rightarrow> fs_answer \<times> a_fs" where
  "a_read i offset buf a =
     (case a_file a i of None \<Rightarrow> (Err NotFound, a)
      | Some e \<Rightarrow> (let got = take (length buf) (drop offset (a_data e)) in
                   (Ok (length got, got @ drop (length got) buf), a)))"

text \<open>
  A write past the end of the file leaves a gap of unspecified bytes: the blocks it takes are
  not cleared.
\<close>

definition a_write :: "nat \<Rightarrow> nat \<Rightarrow> byte list \<Rightarrow> byte list \<Rightarrow> a_fs \<Rightarrow> fs_answer \<times> a_fs" where
  "a_write i offset data gap a =
     (case a_file a i of None \<Rightarrow> (Err NotFound, a)
      | Some e \<Rightarrow>
          let need = block_count (offset + length data) - block_count (length (a_data e)) in
          if offset + length data > MAX_FILE_SIZE then (Err FileTooLarge, a)
          else if need > a_free a then (Err Full, a)
          else (Ok (length data, []),
                a\<lparr>a_tree := (a_tree a)(i \<mapsto> e\<lparr>a_data := file_part offset data (a_data e @ gap)\<rparr>),
                  a_free := a_free a - need\<rparr>))"

datatype fs_op =
  OpMkdir nat "byte list" | OpCreate nat "byte list" | OpRmdir "byte list" | OpRemove nat
  | OpRead nat nat "byte list" | OpWrite nat nat nat "byte list" | OpSync

fun a_step :: "fs_op \<Rightarrow> a_fs \<Rightarrow> fs_answer \<times> a_fs \<Rightarrow> bool" where
  "a_step (OpMkdir now path) a r \<longleftrightarrow> r = a_make KIND_DIR path a"
| "a_step (OpCreate now path) a r \<longleftrightarrow> r = a_make KIND_FILE path a"
| "a_step (OpRmdir path) a r \<longleftrightarrow> r = a_rmdir path a"
| "a_step (OpRemove i) a r \<longleftrightarrow> r = a_remove i a"
| "a_step (OpRead i offset buf) a r \<longleftrightarrow> r = a_read i offset buf a"
| "a_step (OpWrite now i offset data) a r \<longleftrightarrow>
     (\<exists>gap. (\<forall>e. a_file a i = Some e \<longrightarrow> length gap = offset - length (a_data e)) \<and> r = a_write i offset data gap a)"
| "a_step OpSync a r \<longleftrightarrow> r = (Ok (0, []), a)"

section \<open>The operations of the code\<close>

fun answer :: "('a \<Rightarrow> nat \<times> byte list) \<Rightarrow> (fs_error, 'a) outcome \<times> 's \<Rightarrow> fs_answer \<times> 's" where
  "answer g (Ok x, s) = (Ok (g x), s)"
| "answer g (Err e, s) = (Err e, s)"
| "answer g (Panic, s) = (Panic, s)"

fun fs_step :: "fs_op \<Rightarrow> 'd fs \<Rightarrow> fs_answer \<times> 'd fs" where
  "fs_step (OpMkdir now path) s = answer (\<lambda>i. (i, [])) (mkdir now path s)"
| "fs_step (OpCreate now path) s = answer (\<lambda>i. (i, [])) (create now path s)"
| "fs_step (OpRmdir path) s = answer (\<lambda>_. (0, [])) (rmdir path s)"
| "fs_step (OpRemove i) s = answer (\<lambda>_. (0, [])) (remove i s)"
| "fs_step (OpRead i offset buf) s =
     (case fs_read i offset buf s of (r, buf', s') \<Rightarrow> answer (\<lambda>n. (n, buf')) (r, s'))"
| "fs_step (OpWrite now i offset data) s = answer (\<lambda>n. (n, [])) (fs_write now i offset data s)"
| "fs_step OpSync s = answer (\<lambda>_. (0, [])) (fs_sync s)"

text \<open>The arguments the callers can pass: the clock is a \<open>u32\<close>, offsets and lengths do not wrap.\<close>

fun op_ok :: "fs_op \<Rightarrow> bool" where
  "op_ok (OpMkdir now path) \<longleftrightarrow> now < 2 ^ 32"
| "op_ok (OpCreate now path) \<longleftrightarrow> now < 2 ^ 32"
| "op_ok (OpWrite now i offset data) \<longleftrightarrow> now < 2 ^ 32 \<and> offset + length data < 2 ^ 64"
| "op_ok (OpRmdir path) \<longleftrightarrow> True"
| "op_ok (OpRemove i) \<longleftrightarrow> True"
| "op_ok (OpRead i offset buf) \<longleftrightarrow> True"
| "op_ok OpSync \<longleftrightarrow> True"

section \<open>Path resolution\<close>

lemma view_tree: "a_tree (view f s) i = (if i < MAX_INODES \<and> kind_at s i \<noteq> KIND_FREE
        then Some \<lparr>a_kind = kind_at s i, a_parent = i_parent (fs_inodes s ! i), a_name = name_of (fs_inodes s ! i),
                   a_data = (if kind_at s i = KIND_FILE then file_data f s i else [])\<rparr>
        else None)"
  by (simp add: view_def)

lemma view_free: "a_free (view f s) = fs_free s"
  by (simp add: view_def)

lemma find_slot_cong:
  assumes "\<And>i. lo \<le> i \<Longrightarrow> i < hi \<Longrightarrow> P i = Q i"
  shows "find_slot P lo hi = find_slot Q lo hi"
proof (cases "find_slot Q lo hi")
  case None
  then have "\<forall>j. lo \<le> j \<and> j < hi \<longrightarrow> \<not> Q j" by (rule find_slot_None [THEN iffD1])
  then have "\<forall>j. lo \<le> j \<and> j < hi \<longrightarrow> \<not> P j" using assms by blast
  then have "find_slot P lo hi = None" by (rule find_slot_None [THEN iffD2])
  with None show ?thesis by simp
next
  case (Some j)
  have "find_slot P lo hi = Some j"
    by (rule find_slot_first) (use find_slot_Some [OF Some] assms in auto)
  with Some show ?thesis by simp
qed

lemma child_of_view: "child_of s p name = a_child (view f s) p name"
  unfolding child_of_def a_child_def
  by (simp only: Let_def) (intro if_cong refl find_slot_cong, auto simp: view_tree)

text \<open>The loop of \<open>resolve\<close> against the walk down the components of the path.\<close>

lemma resolve_parts_walk:
  "depth \<le> MAX_DEPTH \<Longrightarrow> resolve_parts s ps i depth =
     (let cs = filter (\<lambda>p. p \<noteq> [] \<and> p \<noteq> [DOT]) ps in
      if depth + length cs \<le> MAX_DEPTH then a_walk (view f s) cs i else None)"
proof (induction ps arbitrary: i depth)
  case Nil
  then show ?case by simp
next
  case (Cons p ps)
  show ?case
  proof (cases "p = [] \<or> p = [DOT]")
    case True
    then show ?thesis using Cons by auto
  next
    case False
    show ?thesis
    proof (cases "depth + 1 \<le> MAX_DEPTH")
      case True
      have step: "resolve_parts s ps c (depth + 1) =
          (if depth + 1 + length (filter (\<lambda>p. p \<noteq> [] \<and> p \<noteq> [DOT]) ps) \<le> MAX_DEPTH
           then a_walk (view f s) (filter (\<lambda>p. p \<noteq> [] \<and> p \<noteq> [DOT]) ps) c else None)" for c
        using Cons.IH [OF True] by (simp add: Let_def)
      show ?thesis
        using False True step
        by (auto simp: Let_def inode_ref_def view_tree child_of_view [of s _ _ f] split: option.split)
    qed (use False in simp)
  qed
qed

lemma resolve_view: "resolve s path = a_resolve (view f s) path"
  using resolve_parts_walk [of 0 s "split_slash path" ROOT_INODE f]
  by (simp add: resolve_def a_resolve_def components_def Let_def)

lemma split_parent_view: "split_parent s path = a_split_parent (view f s) path"
  unfolding split_parent_def a_split_parent_def components_def [symmetric]
  by (auto simp: Let_def resolve_view [of s _ f] inode_ref_def view_tree split: prod.split option.split)

section \<open>Refinement\<close>

lemma view_change:
  assumes "\<And>j. j < MAX_INODES \<Longrightarrow> j \<noteq> i \<Longrightarrow> fs_inodes s' ! j = fs_inodes s ! j"
    "\<And>j. j < MAX_INODES \<Longrightarrow> j \<noteq> i \<Longrightarrow> kind_at s j = KIND_FILE \<Longrightarrow> file_data f' s' j = file_data f s j"
  shows "view f' s' = (view f s)\<lparr>a_tree := (a_tree (view f s))(i := a_tree (view f' s') i), a_free := fs_free s'\<rparr>"
proof -
  have "a_tree (view f' s') = (a_tree (view f s))(i := a_tree (view f' s') i)"
  proof
    show "a_tree (view f' s') j = ((a_tree (view f s))(i := a_tree (view f' s') i)) j" for j
    proof (cases "j = i \<or> \<not> j < MAX_INODES")
      case True
      then show ?thesis by (auto simp: view_tree)
    next
      case False
      then have "a_tree (view f' s') j = a_tree (view f s) j" using assms [of j] by (simp add: view_tree)
      then show ?thesis using False by simp
    qed
  qed
  then show ?thesis by (simp add: view_def)
qed

lemma view_same:
  assumes "\<And>j. j < MAX_INODES \<Longrightarrow> fs_inodes s' ! j = fs_inodes s ! j" "fs_free s' = fs_free s"
    "\<And>j. j < MAX_INODES \<Longrightarrow> kind_at s j = KIND_FILE \<Longrightarrow> file_data f' s' j = file_data f s j"
  shows "view f' s' = view f s"
proof -
  have "a_tree (view f' s') j = a_tree (view f s) j" for j
    using assms(1,3) [of j] by (cases "j < MAX_INODES") (simp_all add: view_tree)
  then show ?thesis using assms(2) by (simp add: view_def fun_eq_iff)
qed

lemma stored_name_entry: "length leaf \<le> MAX_NAME \<Longrightarrow> name_of (entry_inode now kind parent leaf) = stored_name leaf"
proof -
  have "takeWhile (\<lambda>b. b \<noteq> 0) (leaf @ replicate n 0) = takeWhile (\<lambda>b. b \<noteq> 0) leaf" for n
    by (induction leaf) (cases n; simp_all)+
  then show ?thesis by (simp add: name_of_def stored_name_def entry_inode_def)
qed

lemma view_slot: "find_slot (\<lambda>i. a_tree (view f s) i = None \<and> i \<noteq> ROOT_INODE) 0 MAX_INODES =
    find_slot (\<lambda>i. i_kind (fs_inodes s ! i) = KIND_FREE \<and> i \<noteq> ROOT_INODE) 0 MAX_INODES"
  by (rule find_slot_cong) (simp add: view_tree)

lemmas view_slot_pos = view_slot [unfolded neq0_conv]

lemma has_entries_view: "has_entries s i = a_has_entries (view f s) i"
  by (auto simp: has_entries_def a_has_entries_def view_tree)

text \<open>What each lemma of this section states of an operation, its answer and the states.\<close>

definition refines ::
  "('d \<Rightarrow> bool) \<Rightarrow> ('d \<Rightarrow> nat \<Rightarrow> byte list) \<Rightarrow> nat \<times> nat \<Rightarrow> (nat \<Rightarrow> byte list) \<Rightarrow> 'd fs \<Rightarrow> fs_op \<Rightarrow> bool" where
  "refines ok sect reg f s op \<longleftrightarrow>
     (\<exists>r f' s'. fs_step op s = (r, s') \<and> fs_sound ok sect reg f' s' \<and> fs_mounted s' \<and>
        fs_lba s' = fs_lba s \<and> fs_total s' = fs_total s \<and> a_step op (view f s) (r, view f' s'))"

lemma refinesI:
  assumes "fs_step op s = (r, s')" "fs_sound ok sect reg f' s'" "fs_mounted s'"
    "fs_lba s' = fs_lba s" "fs_total s' = fs_total s" "a_step op (view f s) (r, view f' s')"
  shows "refines ok sect reg f s op"
  unfolding refines_def using assms by blast

lemma make_refines:
  assumes "fs_sound ok sect reg f s" "fs_mounted s" "now < 2 ^ 32" "kind < 2 ^ 32" "kind \<noteq> KIND_FREE"
  shows "\<exists>r f' s'. answer (\<lambda>i. (i, [])) (make_entry now kind path s) = (r, s') \<and> fs_sound ok sect reg f' s' \<and>
     fs_mounted s' \<and> fs_lba s' = fs_lba s \<and> fs_total s' = fs_total s \<and> (r, view f' s') = a_make kind path (view f s)"
proof (cases "a_resolve (view f s) path = None \<and> (\<exists>p. a_split_parent (view f s) path = Ok p) \<and>
     find_slot (\<lambda>i. a_tree (view f s) i = None \<and> i \<noteq> ROOT_INODE) 0 MAX_INODES \<noteq> None")
  case False
  obtain e where "make_entry now kind path s = (Err e, s)" "a_make kind path (view f s) = (Err e, view f s)"
  proof -
    have "\<exists>e. make_entry now kind path s = (Err e, s) \<and> a_make kind path (view f s) = (Err e, view f s)"
      using False assms(2) split_parent_no_panic [of s path]
      by (cases "a_split_parent (view f s) path")
        (auto simp: make_entry_def a_make_def resolve_view [of s _ f] split_parent_view [of s _ f] allocate_inode_def view_slot_pos)
    with that show thesis by blast
  qed
  then show ?thesis using assms(1,2) by (intro exI [of _ "Err e"] exI [of _ f] exI [of _ s]) simp
next
  case True
  then obtain parent leaf i where r: "resolve s path = None" and sp: "split_parent s path = Ok (parent, leaf)"
    and fs: "find_slot (\<lambda>i. i_kind (fs_inodes s ! i) = KIND_FREE \<and> i \<noteq> ROOT_INODE) 0 MAX_INODES = Some i"
    using resolve_view [of s path f] split_parent_view [of s path f] view_slot [of f s] by auto
  have i: "i < 64" using find_slot_Some [OF fs] by simp
  let ?n = "entry_inode now kind parent leaf"
  from make_entry_done [OF assms(1-4) r sp fs] obtain f' s' where
    run: "make_entry now kind path s = (Ok i, s')" and sound: "fs_sound ok sect reg f' s'"
    and far: "\<forall>l. fs_lba s + 37 \<le> l \<longrightarrow> f' l = f l"
    and eq: "s' = s\<lparr>fs_inodes := (fs_inodes s)[i := ?n], fs_blk := fs_blk s'\<rparr>" by blast
  have fields: "fs_inodes s' = (fs_inodes s)[i := ?n]" "fs_mounted s'" "fs_lba s' = fs_lba s"
    "fs_total s' = fs_total s" "fs_free s' = fs_free s" by (subst eq, simp add: assms(2))+
  have len: "length (fs_inodes s) = 64" using fs_wfD(1) fs_ownD(1) fs_soundD(3) [OF assms(1)] by blast
  have "view f' s' = (view f s)\<lparr>a_tree := (a_tree (view f s))(i := a_tree (view f' s') i), a_free := fs_free s'\<rparr>"
  proof (rule view_change)
    show "file_data f' s' j = file_data f s j" if "j < 64" "j \<noteq> i" "kind_at s j = KIND_FILE" for j
      by (rule fs_sound_data_kept [OF assms(1) fields(3) that(1,3)]) (use that(2) far fields(1) in auto)
  qed (simp add: fields(1))
  moreover have "a_tree (view f' s') i = Some \<lparr>a_kind = kind, a_parent = parent, a_name = stored_name leaf, a_data = []\<rparr>"
    using i len assms(5) split_parent_ok [OF sp] by (simp add: view_tree fields(1) stored_name_entry file_data_def)
  ultimately have "view f' s' = (view f s)\<lparr>a_tree := (a_tree (view f s))(i \<mapsto>
       \<lparr>a_kind = kind, a_parent = parent, a_name = stored_name leaf, a_data = []\<rparr>)\<rparr>"
    using fields(5) by (simp add: view_def)
  moreover have "a_make kind path (view f s) = (Ok (i, []), (view f s)\<lparr>a_tree := (a_tree (view f s))(i \<mapsto>
       \<lparr>a_kind = kind, a_parent = parent, a_name = stored_name leaf, a_data = []\<rparr>)\<rparr>)"
    using r sp fs by (simp add: a_make_def resolve_view [of s path f] split_parent_view [of s path f] view_slot_pos)
  ultimately show ?thesis using run sound fields
    by (intro exI [of _ "Ok (i, [])"] exI [of _ f'] exI [of _ s']) simp
qed

lemma rmdir_refines:
  assumes "fs_sound ok sect reg f s" "fs_mounted s"
  shows "refines ok sect reg f s (OpRmdir path)"
proof (cases "\<exists>i. resolve s path = Some i \<and> i \<noteq> ROOT_INODE \<and> i < MAX_INODES \<and> kind_at s i = KIND_DIR \<and> \<not> has_entries s i")
  case False
  then have "\<exists>e. rmdir path s = (Err e, s) \<and> a_rmdir path (view f s) = (Err e, view f s)"
    using assms(2)
    by (auto simp: rmdir_def a_rmdir_def inode_ref_def resolve_view [of s _ f] has_entries_view [of s _ f] view_tree
        split: option.splits if_splits)
  then obtain e where e: "rmdir path s = (Err e, s)" "a_rmdir path (view f s) = (Err e, view f s)" by blast
  have "fs_step (OpRmdir path) s = (Err e, s)" "a_step (OpRmdir path) (view f s) (Err e, view f s)" using e by simp_all
  then show ?thesis using assms by (intro refinesI) simp_all
next
  case True
  then obtain i where i: "resolve s path = Some i" "i \<noteq> 0" "i < 64" "kind_at s i = KIND_DIR" "\<not> has_entries s i" by blast
  from rmdir_done [OF assms i] obtain f' s' where
    run: "rmdir path s = (Ok (), s')" and sound: "fs_sound ok sect reg f' s'"
    and far: "\<forall>l. fs_lba s + 37 \<le> l \<longrightarrow> f' l = f l"
    and eq: "s' = s\<lparr>fs_inodes := (fs_inodes s)[i := inode_empty], fs_blk := fs_blk s'\<rparr>" by blast
  have fields: "fs_inodes s' = (fs_inodes s)[i := inode_empty]" "fs_mounted s'" "fs_lba s' = fs_lba s"
    "fs_total s' = fs_total s" "fs_free s' = fs_free s" by (subst eq, simp add: assms(2))+
  have len: "length (fs_inodes s) = 64" using fs_wfD(1) fs_ownD(1) fs_soundD(3) [OF assms(1)] by blast
  have "view f' s' = (view f s)\<lparr>a_tree := (a_tree (view f s))(i := a_tree (view f' s') i), a_free := fs_free s'\<rparr>"
  proof (rule view_change)
    show "file_data f' s' j = file_data f s j" if "j < 64" "j \<noteq> i" "kind_at s j = KIND_FILE" for j
      by (rule fs_sound_data_kept [OF assms(1) fields(3) that(1,3)]) (use that(2) far fields(1) in auto)
  qed (simp add: fields(1))
  moreover have "a_tree (view f' s') i = None" using i len by (simp add: view_tree fields(1) inode_empty_def)
  ultimately have "view f' s' = (view f s)\<lparr>a_tree := (a_tree (view f s))(i := None)\<rparr>"
    using fields(5) by (simp add: view_def)
  moreover have "a_rmdir path (view f s) = (Ok (0, []), (view f s)\<lparr>a_tree := (a_tree (view f s))(i := None)\<rparr>)"
    using i by (simp add: a_rmdir_def resolve_view [of s path f] has_entries_view [of s i f] view_tree)
  ultimately show ?thesis using run sound fields by (intro refinesI [where r = "Ok (0, [])" and f' = f']) simp_all
qed

lemma view_file:
  "a_file (view f s) i = (if i < MAX_INODES \<and> kind_at s i = KIND_FILE
     then Some \<lparr>a_kind = KIND_FILE, a_parent = i_parent (fs_inodes s ! i), a_name = name_of (fs_inodes s ! i),
                a_data = file_data f s i\<rparr> else None)"
  by (simp add: a_file_def view_tree)

lemma remove_refines:
  assumes "fs_sound ok sect reg f s" "fs_mounted s"
  shows "refines ok sect reg f s (OpRemove i)"
proof (cases "i < MAX_INODES \<and> kind_at s i = KIND_FILE")
  case False
  then have "remove i s = (Err NotFound, s)" "a_remove i (view f s) = (Err NotFound, view f s)"
    using assms(2) by (auto simp: remove_def a_remove_def inode_ref_def view_file)
  then show ?thesis using assms by (intro refinesI [where r = "Err NotFound" and s' = s and f' = f]) simp_all
next
  case True
  then have i: "i < 64" "kind_at s i = KIND_FILE" by auto
  from fs_remove_ok [OF assms i] obtain f' s' where
    run: "remove i s = (Ok (), s')" and sound: "fs_sound ok sect reg f' s'"
    and fields: "fs_mounted s'" "fs_lba s' = fs_lba s" "fs_total s' = fs_total s"
      "fs_inodes s' = (fs_inodes s)[i := inode_empty]" "fs_free s' = fs_free s + block_count (size_at s i)"
    and kept: "\<forall>j<MAX_INODES. j \<noteq> i \<longrightarrow> kind_at s j = KIND_FILE \<longrightarrow> file_data f' s' j = file_data f s j" by blast
  have len: "length (fs_inodes s) = 64" using fs_wfD(1) fs_ownD(1) fs_soundD(3) [OF assms(1)] by blast
  have "view f' s' = (view f s)\<lparr>a_tree := (a_tree (view f s))(i := a_tree (view f' s') i), a_free := fs_free s'\<rparr>"
    by (rule view_change) (use kept fields(4) in auto)
  moreover have "a_tree (view f' s') i = None" using i len by (simp add: view_tree fields(4) inode_empty_def)
  ultimately have "a_remove i (view f s) = (Ok (0, []), view f' s')"
    using i fields(5) by (simp add: a_remove_def view_file view_free)
  then show ?thesis using run sound fields by (intro refinesI [where r = "Ok (0, [])" and f' = f']) simp_all
qed

lemma read_refines:
  assumes "fs_sound ok sect reg f s" "fs_mounted s"
  shows "refines ok sect reg f s (OpRead i offset buf)"
proof (cases "i < MAX_INODES \<and> kind_at s i = KIND_FILE")
  case False
  then have "fs_read i offset buf s = (Err NotFound, buf, s)" "a_read i offset buf (view f s) = (Err NotFound, view f s)"
    using assms(2) by (auto simp: fs_read_def a_read_def inode_ref_def view_file)
  then show ?thesis using assms by (intro refinesI [where r = "Err NotFound" and s' = s and f' = f]) simp_all
next
  case True
  then have i: "i < 64" "kind_at s i = KIND_FILE" by auto
  let ?got = "take (length buf) (drop offset (file_data f s i))"
  from fs_read_ok [OF assms i, of offset buf] obtain s' where
    run: "fs_read i offset buf s = (Ok (length ?got), ?got @ drop (length ?got) buf, s')"
    and io: "io_only s s'" and sound: "fs_sound ok sect reg f s'" unfolding Let_def by blast
  note I = io_onlyD [OF io]
  have "view f s' = view f s"
  proof (rule view_same)
    show "file_data f s' j = file_data f s j" if "j < 64" "kind_at s j = KIND_FILE" for j
      by (rule fs_sound_data_kept [OF assms(1) _ that]) (use I in simp_all)
  qed (use I in simp_all)
  moreover have "a_read i offset buf (view f s) = (Ok (length ?got, ?got @ drop (length ?got) buf), view f s)"
    using i by (simp add: a_read_def view_file Let_def)
  ultimately show ?thesis using run sound I assms(2)
    by (intro refinesI [where r = "Ok (length ?got, ?got @ drop (length ?got) buf)" and s' = s' and f' = f]) simp_all
qed

lemma sync_refines:
  assumes "fs_sound ok sect reg f s" "fs_mounted s"
  shows "refines ok sect reg f s OpSync"
proof -
  from fs_sync_ok [OF assms] obtain f' blk where
    run: "fs_sync s = (Ok (), s\<lparr>fs_blk := blk\<rparr>)" and sound: "fs_sound ok sect reg f' (s\<lparr>fs_blk := blk\<rparr>)"
    and far: "\<forall>l. fs_lba s + 37 \<le> l \<longrightarrow> f' l = f l" by blast
  have "view f' (s\<lparr>fs_blk := blk\<rparr>) = view f s"
  proof (rule view_same)
    show "file_data f' (s\<lparr>fs_blk := blk\<rparr>) j = file_data f s j" if "j < 64" "kind_at s j = KIND_FILE" for j
      by (rule fs_sound_data_kept [OF assms(1) _ that]) (use far in simp_all)
  qed simp_all
  then show ?thesis using run sound assms(2)
    by (intro refinesI [where r = "Ok (0, [])" and f' = f']) simp_all
qed

lemma file_part_gap:
  assumes "length old = n" "length gap = offset - n" "length new = max n (offset + length data)"
    "\<And>p. offset \<le> p \<Longrightarrow> p < offset + length data \<Longrightarrow> new ! p = data ! (p - offset)"
    "\<And>p. p < n \<Longrightarrow> \<not> (offset \<le> p \<and> p < offset + length data) \<Longrightarrow> new ! p = old ! p"
    "\<And>p. n \<le> p \<Longrightarrow> p < offset \<Longrightarrow> new ! p = gap ! (p - n)"
  shows "new = file_part offset data (old @ gap)"
proof (rule nth_equalityI)
  define P where "P = take offset (old @ gap)"
  have l: "length P = offset" using assms(1,2) by (simp add: P_def)
  have eq: "file_part offset data (old @ gap) = P @ data @ drop (offset + length data) (old @ gap)"
    by (simp add: file_part_def P_def)
  show "length new = length (file_part offset data (old @ gap))"
    using assms(1-3) l by (simp add: eq max_def)
  show "new ! p = file_part offset data (old @ gap) ! p" if p: "p < length new" for p
  proof -
    consider "p < offset" | "offset \<le> p" "p < offset + length data" | "offset + length data \<le> p" by linarith
    then show ?thesis
    proof cases
      case 1
      then have "file_part offset data (old @ gap) ! p = (old @ gap) ! p" using l by (simp add: eq nth_append) (simp add: P_def nth_append)
      then show ?thesis using assms(5,6) [of p] assms(1) 1 by (cases "p < n") (simp_all add: nth_append)
    next
      case 2
      then have "p - offset < length data" by linarith
      then show ?thesis using 2 assms(4) [of p] l by (simp add: eq nth_append)
    next
      case 3
      then have "p < n" using p assms(3) by simp
      moreover have "\<not> p - offset < length data" using 3 by linarith
      moreover have "p - (offset + length data) < n - (offset + length data)" using 3 \<open>p < n\<close> by linarith
      ultimately have "file_part offset data (old @ gap) ! p = (old @ gap) ! p"
        using 3 l assms(1) \<open>p < n\<close> by (simp add: eq nth_append)
      then show ?thesis using 3 \<open>p < n\<close> assms(1) assms(5) [of p] by (simp add: nth_append)
    qed
  qed
qed

lemma write_refines:
  assumes "fs_sound ok sect reg f s" "fs_mounted s" "now < 2 ^ 32" "offset + length data < 2 ^ 64"
  shows "refines ok sect reg f s (OpWrite now i offset data)"
proof -
  let ?a = "view f s" and ?need = "block_count (offset + length data) - block_count (size_at s i)"
  have wrap: "(offset + length data) mod 2 ^ 64 = offset + length data" using assms(4) by simp
  consider "\<not> (i < MAX_INODES \<and> kind_at s i = KIND_FILE)"
    | "i < MAX_INODES" "kind_at s i = KIND_FILE" "offset + length data > MAX_FILE_SIZE"
    | "i < MAX_INODES" "kind_at s i = KIND_FILE" "offset + length data \<le> MAX_FILE_SIZE" "fs_free s < ?need"
    | "i < MAX_INODES" "kind_at s i = KIND_FILE" "offset + length data \<le> MAX_FILE_SIZE" "?need \<le> fs_free s"
    by linarith
  then show ?thesis
  proof cases
    case 4
    from fs_write_ok [OF assms(1,2) 4(1-4) assms(3)] obtain f' s' where
      run: "fs_write now i offset data s = (Ok (length data), s')" and sound: "fs_sound ok sect reg f' s'"
      and fields: "fs_mounted s'" "fs_lba s' = fs_lba s" "fs_total s' = fs_total s" "fs_free s' = fs_free s - ?need"
      and sz: "size_at s' i = max (size_at s i) (offset + length data)"
      and others: "\<forall>j<MAX_INODES. j \<noteq> i \<longrightarrow> fs_inodes s' ! j = fs_inodes s ! j"
      and this_one: "fs_inodes s' ! i = (fs_inodes s ! i)\<lparr>i_size := size_at s' i, i_mtime := now,
          i_blocks := i_blocks (fs_inodes s' ! i)\<rparr>"
      and new: "\<forall>p. offset \<le> p \<longrightarrow> p < offset + length data \<longrightarrow>
          data_byte f' s' (i_blocks (fs_inodes s' ! i)) p = data ! (p - offset)"
      and old: "\<forall>p < size_at s i. \<not> (offset \<le> p \<and> p < offset + length data) \<longrightarrow>
          data_byte f' s' (i_blocks (fs_inodes s' ! i)) p = data_byte f s (i_blocks (fs_inodes s ! i)) p"
      and kept: "\<forall>j<MAX_INODES. j \<noteq> i \<longrightarrow> kind_at s j = KIND_FILE \<longrightarrow> file_data f' s' j = file_data f s j"
      by (elim exE conjE) (rule that; assumption)
    define gap where "gap = map (data_byte f' s' (i_blocks (fs_inodes s' ! i))) [size_at s i..<offset]"
    have data': "file_data f' s' i = file_part offset data (file_data f s i @ gap)"
    proof (rule file_part_gap)
      show "length gap = offset - size_at s i" by (simp add: gap_def)
      show "file_data f' s' i ! p = data ! (p - offset)" if "offset \<le> p" "p < offset + length data" for p
        using new sz that by (simp add: file_data_nth)
      show "file_data f' s' i ! p = file_data f s i ! p" if "p < size_at s i" "\<not> (offset \<le> p \<and> p < offset + length data)" for p
        using old sz that by (simp add: file_data_nth)
      show "file_data f' s' i ! p = gap ! (p - size_at s i)" if "size_at s i \<le> p" "p < offset" for p
        using sz that by (simp add: file_data_nth gap_def)
    qed (simp_all add: sz)
    have at: "kind_at s' i = kind_at s i" "i_parent (fs_inodes s' ! i) = i_parent (fs_inodes s ! i)"
      "name_of (fs_inodes s' ! i) = name_of (fs_inodes s ! i)"
      by (subst this_one, simp add: name_of_def)+
    have "view f' s' = ?a\<lparr>a_tree := (a_tree ?a)(i := a_tree (view f' s') i), a_free := fs_free s'\<rparr>"
      by (rule view_change) (use kept others in auto)
    moreover have "a_tree (view f' s') i = Some \<lparr>a_kind = KIND_FILE, a_parent = i_parent (fs_inodes s ! i),
        a_name = name_of (fs_inodes s ! i), a_data = file_part offset data (file_data f s i @ gap)\<rparr>"
      using 4 at data' by (simp add: view_tree)
    ultimately have "a_write i offset data gap ?a = (Ok (length data, []), view f' s')"
      using 4 fields(4) by (simp add: a_write_def view_file view_free Let_def)
    moreover have "\<forall>e. a_file ?a i = Some e \<longrightarrow> length gap = offset - length (a_data e)"
      using 4 by (simp add: view_file gap_def)
    ultimately have "a_step (OpWrite now i offset data) ?a (Ok (length data, []), view f' s')"
      by (simp only: a_step.simps) metis
    then show ?thesis using run sound fields(1-3)
      by (intro refinesI [where r = "Ok (length data, [])" and f' = f']) simp_all
  next
    case 1
    then have e: "fs_write now i offset data s = (Err NotFound, s)" "\<And>gap. a_write i offset data gap ?a = (Err NotFound, ?a)"
      using assms(2) by (auto simp: fs_write_def a_write_def inode_ref_def view_file)
    then have "a_step (OpWrite now i offset data) ?a (Err NotFound, ?a)" using 1 by (auto simp: view_file)
    then show ?thesis using e assms by (intro refinesI [where r = "Err NotFound" and s' = s and f' = f]) simp_all
  next
    case 2
    then have e: "fs_write now i offset data s = (Err FileTooLarge, s)" "\<And>gap. a_write i offset data gap ?a = (Err FileTooLarge, ?a)"
      using assms(2) wrap by (auto simp: fs_write_def a_write_def inode_ref_def view_file)
    have "\<exists>gap :: byte list. \<forall>e. a_file ?a i = Some e \<longrightarrow> length gap = offset - length (a_data e)"
      by (rule exI [of _ "replicate (offset - size_at s i) (0 :: byte)"]) (simp add: view_file)
    then have "a_step (OpWrite now i offset data) ?a (Err FileTooLarge, ?a)" using e(2) by simp
    then show ?thesis using e assms by (intro refinesI [where r = "Err FileTooLarge" and s' = s and f' = f]) simp_all
  next
    case 3
    have run: "fs_write now i offset data s = (Err Full, s)" by (rule fs_write_full [OF assms(1,2) 3])
    have e: "a_write i offset data gap ?a = (Err Full, ?a)" for gap
      using 3 by (simp add: a_write_def view_file view_free Let_def)
    have "\<exists>gap :: byte list. \<forall>e. a_file ?a i = Some e \<longrightarrow> length gap = offset - length (a_data e)"
      by (rule exI [of _ "replicate (offset - size_at s i) (0 :: byte)"]) (simp add: view_file)
    then have "a_step (OpWrite now i offset data) ?a (Err Full, ?a)" using e by simp
    then show ?thesis using run assms by (intro refinesI [where r = "Err Full" and s' = s and f' = f]) simp_all
  qed
qed

lemma step_refines:
  assumes "fs_sound ok sect reg f s" "fs_mounted s" "op_ok op"
  shows "refines ok sect reg f s op"
proof (cases op)
  case (OpMkdir now path)
  then have "now < 2 ^ 32" "KIND_DIR < 2 ^ 32" "KIND_DIR \<noteq> KIND_FREE" using assms(3) by simp_all
  from make_refines [OF assms(1,2) this, of path] OpMkdir show ?thesis
    by (auto simp: mkdir_def intro: refinesI)
next
  case (OpCreate now path)
  then have "now < 2 ^ 32" "KIND_FILE < 2 ^ 32" "KIND_FILE \<noteq> KIND_FREE" using assms(3) by simp_all
  from make_refines [OF assms(1,2) this, of path] OpCreate show ?thesis
    by (auto simp: create_def intro: refinesI)
qed (use assms in \<open>auto simp: rmdir_refines remove_refines read_refines write_refines sync_refines\<close>)

end
