(* ===== verification/TcmkfsProps.thy ===== *)
theory TcmkfsProps imports TcmkfsSpec begin

text \<open>
  The properties of the file system: runs of operations refine the abstract file system, survive a
  remount, stay inside the partition, and keep every block with one owner.  The witnesses run
  on a disk in memory.
\<close>

section \<open>Runs of operations\<close>

fun fs_run :: "fs_op list \<Rightarrow> 'd fs \<Rightarrow> fs_answer list \<times> 'd fs" where
  "fs_run [] s = ([], s)"
| "fs_run (op # ops) s = (case fs_step op s of (r, s) \<Rightarrow> case fs_run ops s of (rs, s) \<Rightarrow> (r # rs, s))"

fun a_run :: "fs_op list \<Rightarrow> a_fs \<Rightarrow> fs_answer list \<times> a_fs \<Rightarrow> bool" where
  "a_run [] a out \<longleftrightarrow> out = ([], a)"
| "a_run (op # ops) a out \<longleftrightarrow>
     (\<exists>r a1 rs a2. a_step op a (r, a1) \<and> a_run ops a1 (rs, a2) \<and> out = (r # rs, a2))"

lemma run_refines:
  assumes "fs_sound ok sect reg f s" "fs_mounted s" "\<forall>op\<in>set ops. op_ok op"
  shows "\<exists>rs f' s'. fs_run ops s = (rs, s') \<and> fs_sound ok sect reg f' s' \<and> fs_mounted s' \<and>
     fs_lba s' = fs_lba s \<and> fs_total s' = fs_total s \<and> a_run ops (view f s) (rs, view f' s')"
  using assms
proof (induction ops arbitrary: f s)
  case Nil
  then show ?case by (intro exI [of _ "[]"] exI [of _ f] exI [of _ s]) simp
next
  case (Cons op ops)
  have "refines ok sect reg f s op" by (rule step_refines [OF Cons.prems(1,2)]) (use Cons.prems(3) in simp)
  then obtain r f1 s1 where step: "fs_step op s = (r, s1)" "a_step op (view f s) (r, view f1 s1)"
    and s1: "fs_sound ok sect reg f1 s1" "fs_mounted s1" "fs_lba s1 = fs_lba s" "fs_total s1 = fs_total s"
    unfolding refines_def by blast
  have "\<forall>op\<in>set ops. op_ok op" using Cons.prems(3) by simp
  from Cons.IH [OF s1(1,2) this] obtain rs f2 s2 where
    run: "fs_run ops s1 = (rs, s2)" "a_run ops (view f1 s1) (rs, view f2 s2)"
    and s2: "fs_sound ok sect reg f2 s2" "fs_mounted s2" "fs_lba s2 = fs_lba s1" "fs_total s2 = fs_total s1" by blast
  have "a_run (op # ops) (view f s) (r # rs, view f2 s2)" using step(2) run(2) by auto
  then show ?case using step(1) run(1) s1 s2
    by (intro exI [of _ "r # rs"] exI [of _ f2] exI [of _ s2]) simp
qed

lemma healthy_shows: "shows_disk ok sect reg b f \<Longrightarrow> \<exists>drv. blk_driver b = Some drv \<and> healthy drv ok sect reg"
  by (auto simp: shows_disk_def)

text \<open>Soundness on a device whose sectors outside the partition are pinned to what they are.\<close>

lemma fs_sound_confined:
  assumes "fs_sound ok sect reg f s" "sub = (fs_lba s, fs_lba s + DATA_START_SECTOR + fs_total s * SECTORS_PER_BLOCK)"
  shows "fs_sound (\<lambda>d. ok d \<and> (\<forall>l. \<not> inside sub l 1 \<longrightarrow> sect d l = f l)) sect sub f s"
proof -
  note S = fs_soundD [OF assms(1)]
  note d = fs_diskD [OF S(1)] and g = fs_geomD [OF fs_diskD(2) [OF S(1)]]
  obtain drv where drv: "blk_driver (fs_blk s) = Some drv" "healthy drv ok sect reg"
    and b: "ok (blk_dev (fs_blk s))" "sect (blk_dev (fs_blk s)) = f" using d(3) unfolding shows_disk_def by blast
  have sub: "fst reg \<le> fst sub" "snd sub \<le> snd reg" using g(1,4) assms(2) by simp_all
  have "healthy drv (\<lambda>d. ok d \<and> (\<forall>l. \<not> inside sub l 1 \<longrightarrow> sect d l = f l)) sect sub"
    by (rule healthy_confined [OF drv(2) sub])
  then have "shows_disk (\<lambda>d. ok d \<and> (\<forall>l. \<not> inside sub l 1 \<longrightarrow> sect d l = f l)) sect sub (fs_blk s) f"
    using drv(1) b by (simp add: shows_disk_def)
  moreover have "fs_geom sub s" using g sub assms(2) by (simp add: fs_geom_def)
  ultimately show ?thesis using S d(1) by (simp add: fs_sound_def fs_disk_def)
qed

lemma fs_sound_shows: "fs_sound ok sect reg f s \<Longrightarrow> ok (blk_dev (fs_blk s)) \<and> sect (blk_dev (fs_blk s)) = f"
  using fs_diskD(3) [OF fs_soundD(1), of ok sect reg f s] by (simp add: shows_disk_def)

section \<open>A disk in memory\<close>

definition ram_ok :: "(nat \<Rightarrow> byte list) \<Rightarrow> bool" where
  "ram_ok d \<longleftrightarrow> (\<forall>l. length (d l) = SECTOR_SIZE)"

definition ram_block :: "nat \<Rightarrow> (nat \<Rightarrow> byte list) block" where
  "ram_block n = \<lparr>blk_driver = Some (ram_driver n), blk_dev = (\<lambda>_. replicate SECTOR_SIZE 0),
     blk_sectors_read = 0, blk_sectors_written = 0\<rparr>"

lemma ram_shows: "shows_disk ram_ok (\<lambda>d. d) reg (ram_block n) (\<lambda>_. replicate SECTOR_SIZE 0)"
  using ram_healthy [of n reg] unfolding shows_disk_def ram_block_def ram_ok_def by simp

lemma fs_init_wf: "fs_wf (fs_init blk)"
  by (auto simp: fs_wf_def fs_init_def)

text \<open>A volume of two blocks at sector 8, freshly formatted, and with one empty file \<open>/a\<close>.\<close>

definition demo_fs :: "(nat \<Rightarrow> byte list) fs" where
  "demo_fs = snd (format_disk 7 (Some (8, 4112)) [] (fs_init (ram_block 5000)))"

definition demo_path :: "byte list" where "demo_path = [SLASH, 97]"

definition demo_file :: "(nat \<Rightarrow> byte list) fs" where
  "demo_file = snd (create 7 demo_path demo_fs)"

lemma demo_fs_sound:
  "\<exists>f. fs_sound ram_ok (\<lambda>d. d) (0, 5000) f demo_fs \<and> fs_mounted demo_fs \<and> fs_lba demo_fs = 8 \<and>
     fs_total demo_fs = 2 \<and> fs_free demo_fs = 2 \<and>
     fs_inodes demo_fs = (replicate MAX_INODES inode_empty)
        [0 := root_inode 7, 1 := entry_inode 7 KIND_DIR 0 home_name, 2 := entry_inode 7 KIND_DIR 0 tmp_name]"
proof -
  have c: "capacity_blocks 4112 = 2" by (simp add: capacity_blocks_def)
  have "(7 :: nat) < 2 ^ 32" "fst (0 :: nat, 5000 :: nat) \<le> 8" "8 + max 4112 DATA_START_SECTOR \<le> snd (0 :: nat, 5000 :: nat)"
    "snd (0 :: nat, 5000 :: nat) < 2 ^ 32" by simp_all
  from format_ok [OF fs_init_wf _ this, of ram_ok "\<lambda>d. d" "ram_block 5000" "\<lambda>_. replicate SECTOR_SIZE 0" "[]"]
    ram_shows [of "(0, 5000)" 5000]
  show ?thesis by (auto simp: demo_fs_def fs_init_def c)
qed

definition demo_inodes :: "inode list" where
  "demo_inodes = (replicate MAX_INODES inode_empty)
     [0 := root_inode 7, 1 := entry_inode 7 KIND_DIR 0 home_name, 2 := entry_inode 7 KIND_DIR 0 tmp_name]"

lemma demo_create:
  assumes "fs_sound ok sect reg f s" "fs_mounted s" "fs_inodes s = demo_inodes" "now < 2 ^ 32"
  shows "\<exists>f' s'. create now demo_path s = (Ok 3, s') \<and> fs_sound ok sect reg f' s' \<and>
     s' = s\<lparr>fs_inodes := demo_inodes[3 := entry_inode now KIND_FILE 0 [97]], fs_blk := fs_blk s'\<rparr>"
proof -
  have at: "fs_inodes s ! j = (if j = 0 then root_inode 7 else if j = 1 then entry_inode 7 KIND_DIR 0 home_name
      else if j = 2 then entry_inode 7 KIND_DIR 0 tmp_name else inode_empty)" if "j < 64" for j
    using that by (simp add: assms(3) demo_inodes_def)
  have k0: "kind_at s 0 = KIND_DIR" by (simp add: at root_inode_def)
  have names: "name_of (entry_inode 7 KIND_DIR 0 home_name) = home_name" "name_of (entry_inode 7 KIND_DIR 0 tmp_name) = tmp_name"
    by (rule name_of_entry; simp add: skeleton_names)+
  have none: "child_of s 0 [97] = None"
  proof (rule child_of_None)
    show "name_of (fs_inodes s ! j) \<noteq> [97]" if "j < 64" "j \<noteq> 0" "kind_at s j \<noteq> KIND_FREE" for j
      using that by (cases "j = 1"; cases "j = 2") (simp_all add: at names inode_empty_def, simp_all add: skeleton_names)
  qed simp
  have free: "kind_at s 3 = KIND_FREE" by (simp add: at inode_empty_def)
  have used: "kind_at s j \<noteq> KIND_FREE" if "0 < j" "j < 3" for j
    using that by (cases "j = 1"; cases "j = 2") (simp_all add: at)
  from make_entry_top [OF assms(1,2) _ _ k0 _ _ _ _ none _ _ free used, of now KIND_FILE] assms(3,4) show ?thesis
    by (auto simp: demo_path_def create_def)
qed

lemma demo_file_made:
  "\<exists>f. fs_sound ram_ok (\<lambda>d. d) (0, 5000) f demo_file \<and> fs_mounted demo_file \<and> fs_lba demo_file = 8 \<and>
     fs_total demo_file = 2 \<and> fs_free demo_file = 2 \<and> fs_inodes demo_file = demo_inodes[3 := entry_inode 7 KIND_FILE 0 [97]]"
proof -
  obtain f where f: "fs_sound ram_ok (\<lambda>d. d) (0, 5000) f demo_fs" "fs_mounted demo_fs" "fs_lba demo_fs = 8"
     "fs_total demo_fs = 2" "fs_free demo_fs = 2" and inodes: "fs_inodes demo_fs = demo_inodes"
    using demo_fs_sound unfolding demo_inodes_def by blast
  from demo_create [OF f(1,2) inodes, of 7] obtain f' s' where
    r: "create 7 demo_path demo_fs = (Ok 3, s')" "fs_sound ram_ok (\<lambda>d. d) (0, 5000) f' s'"
    and eq: "s' = demo_fs\<lparr>fs_inodes := demo_inodes[3 := entry_inode 7 KIND_FILE 0 [97]], fs_blk := fs_blk s'\<rparr>"
    by auto
  have s': "demo_file = s'" using r(1) by (simp add: demo_file_def)
  have "fs_mounted s'" "fs_lba s' = 8" "fs_total s' = 2" "fs_free s' = 2"
    "fs_inodes s' = demo_inodes[3 := entry_inode 7 KIND_FILE 0 [97]]" by (subst eq, simp add: f)+
  then show ?thesis using r(2) unfolding s' by blast
qed

lemma demo_file_sound:
  "\<exists>f. fs_sound ram_ok (\<lambda>d. d) (0, 5000) f demo_file \<and> fs_mounted demo_file \<and> fs_lba demo_file = 8 \<and>
     fs_total demo_file = 2 \<and> fs_free demo_file = 2 \<and> kind_at demo_file 3 = KIND_FILE \<and> size_at demo_file 3 = 0"
proof -
  have "length demo_inodes = 64" by (simp add: demo_inodes_def)
  then show ?thesis using demo_file_made by auto
qed

section \<open>Properties\<close>

text \<open>
  Property C6.  Every sequence of operations on a sound mounted file system answers, without a
  panic or an I/O error, what the abstract file system may answer, and leaves a sound file
  system that abstracts to the abstract outcome: a failed operation changes nothing, a removal
  gives back the blocks of the file, a write replaces exactly the bytes it names and touches no
  other file.
\<close>

theorem fs_refines:
  assumes "fs_sound ok sect reg f s" "fs_mounted s" "\<forall>op\<in>set ops. op_ok op"
  shows "\<exists>rs f' s'. fs_run ops s = (rs, s') \<and> fs_sound ok sect reg f' s' \<and> fs_mounted s' \<and>
     a_run ops (view f s) (rs, view f' s')"
  using run_refines [OF assms] by blast

theorem fs_refines_witness:
  "\<exists>f rs f' s'. fs_run [OpCreate 9 demo_path, OpWrite 9 3 100 [1, 2, 3], OpRead 3 100 [0, 0], OpSync] demo_fs = (rs, s') \<and>
     fs_sound ram_ok (\<lambda>d. d) (0, 5000) f' s' \<and> fs_mounted s' \<and>
     a_run [OpCreate 9 demo_path, OpWrite 9 3 100 [1, 2, 3], OpRead 3 100 [0, 0], OpSync] (view f demo_fs) (rs, view f' s')"
proof -
  obtain f where "fs_sound ram_ok (\<lambda>d. d) (0, 5000) f demo_fs" "fs_mounted demo_fs" using demo_fs_sound by blast
  from fs_refines [OF this, of "[OpCreate 9 demo_path, OpWrite 9 3 100 [1, 2, 3], OpRead 3 100 [0, 0], OpSync]"]
  show ?thesis by (intro exI [of _ f]) simp
qed

text \<open>
  Property C7.  What a formatted volume holds after any sequence of operations survives a power
  cycle: mounting the disk with any other contents of memory gives back the same entries,
  contents and free count.
\<close>

theorem remount_restores:
  assumes "fs_wf s" "shows_disk ok sect reg (fs_blk s) f" "now < 2 ^ 32"
    "fst reg \<le> lba" "lba + max sectors DATA_START_SECTOR \<le> snd reg" "snd reg < 2 ^ 32"
    "\<forall>op\<in>set ops. op_ok op"
  shows "\<exists>s1 rs s2 f2. format_disk now (Some (lba, sectors)) label s = (Ok (), s1) \<and> fs_run ops s1 = (rs, s2) \<and>
     fs_sound ok sect reg f2 s2 \<and>
     (\<forall>s0. fs_wf s0 \<longrightarrow> fs_blk s0 = fs_blk s2 \<longrightarrow>
        (\<exists>s3. mount (Some (lba, sectors)) s0 = (Ok (), s3) \<and> fs_mounted s3 \<and> view f2 s3 = view f2 s2))"
proof -
  from format_ok [OF assms(1-6), of label] obtain f1 s1 where
    fm: "format_disk now (Some (lba, sectors)) label s = (Ok (), s1)" and s1: "fs_sound ok sect reg f1 s1"
    "fs_mounted s1" "fs_lba s1 = lba" "fs_total s1 = capacity_blocks sectors" by blast
  from run_refines [OF s1(1,2) assms(7)] obtain rs f2 s2 where
    run: "fs_run ops s1 = (rs, s2)" and s2: "fs_sound ok sect reg f2 s2" "fs_lba s2 = lba" "fs_total s2 = capacity_blocks sectors"
    using s1(3,4) by auto
  note S = fs_soundD [OF s2(1)]
  have free: "fs_free s2 = count_free s2 (fs_total s2)" using fs_ownD(2) [OF S(3)] by (simp add: bitmap_ok_def)
  have "\<exists>s3. mount (Some (lba, sectors)) s0 = (Ok (), s3) \<and> fs_mounted s3 \<and> view f2 s3 = view f2 s2"
    if s0: "fs_wf s0" "fs_blk s0 = fs_blk s2" for s0
  proof -
    have "shows_disk ok sect reg (fs_blk s0) f2" using fs_diskD(3) [OF S(1)] s0(2) by simp
    from mount_reads_back [OF S(1,2) s2(3) s0(1) this] obtain blk where
      m: "mount (Some (fs_lba s2, sectors)) s0 =
      (Ok (), s0\<lparr>fs_lba := fs_lba s2, fs_total := fs_total s2, fs_inodes := fs_inodes s2,
                 fs_bitmap := fs_bitmap s2, fs_free := count_free s2 (fs_total s2), fs_mounted := True,
                 fs_blk := blk\<rparr>)" (is "_ = (_, ?s3)") by blast
    have "view f2 ?s3 = view f2 s2"
    proof (rule view_same)
      show "file_data f2 ?s3 j = file_data f2 s2 j" if "j < 64" "kind_at s2 j = KIND_FILE" for j
        by (rule fs_sound_data_kept [OF s2(1) _ that]) simp_all
    qed (simp_all add: free)
    then show ?thesis using m s2(2) by auto
  qed
  then show ?thesis using fm run s2(1) by blast
qed

theorem remount_restores_witness:
  "\<exists>s1 rs s2 f2. format_disk 7 (Some (8, 4112)) [] (fs_init (ram_block 5000)) = (Ok (), s1) \<and>
     fs_run [OpCreate 9 demo_path, OpWrite 9 3 0 [5]] s1 = (rs, s2) \<and>
     fs_sound ram_ok (\<lambda>d. d) (0, 5000) f2 s2 \<and>
     (\<forall>s0. fs_wf s0 \<longrightarrow> fs_blk s0 = fs_blk s2 \<longrightarrow>
        (\<exists>s3. mount (Some (8, 4112)) s0 = (Ok (), s3) \<and> fs_mounted s3 \<and> view f2 s3 = view f2 s2))"
proof (rule remount_restores)
  show "shows_disk ram_ok (\<lambda>d. d) (0, 5000) (fs_blk (fs_init (ram_block 5000))) (\<lambda>_. replicate SECTOR_SIZE 0)"
    using ram_shows by (simp add: fs_init_def)
qed (simp_all add: fs_init_wf)

text \<open>
  Property C8.  No sequence of operations changes a sector outside the partition: below its first
  sector (the partition table, other partitions) or past the last block of the volume.
\<close>

theorem fs_confined:
  assumes "fs_sound ok sect reg f s" "fs_mounted s" "\<forall>op\<in>set ops. op_ok op"
    "l < fs_lba s \<or> fs_lba s + DATA_START_SECTOR + fs_total s * SECTORS_PER_BLOCK \<le> l"
  shows "sect (blk_dev (fs_blk (snd (fs_run ops s)))) l = sect (blk_dev (fs_blk s)) l"
proof -
  let ?sub = "(fs_lba s, fs_lba s + DATA_START_SECTOR + fs_total s * SECTORS_PER_BLOCK)"
  from run_refines [OF fs_sound_confined [OF assms(1) refl] assms(2,3)] obtain rs f' s' where
    run: "fs_run ops s = (rs, s')"
    and s': "fs_sound (\<lambda>d. ok d \<and> (\<forall>l. \<not> inside ?sub l 1 \<longrightarrow> sect d l = f l)) sect ?sub f' s'" by blast
  have "\<not> inside ?sub l 1" using assms(4) by (auto simp: inside_def)
  then have "sect (blk_dev (fs_blk s')) l = f l" using fs_sound_shows [OF s'] by blast
  then show ?thesis using run fs_sound_shows [OF assms(1)] by simp
qed

theorem fs_confined_witness:
  "blk_dev (fs_blk (snd (fs_run [OpWrite 9 3 0 [5], OpSync] demo_file))) 0 = blk_dev (fs_blk demo_file) 0"
proof -
  obtain f where f: "fs_sound ram_ok (\<lambda>d. d) (0, 5000) f demo_file" "fs_mounted demo_file" "fs_lba demo_file = 8"
    using demo_file_sound by blast
  show ?thesis by (rule fs_confined [OF f(1,2)]) (simp_all add: f(3))
qed

text \<open>
  Property C9.  After any sequence of operations, the blocks in use are exactly the first
  blocks of the files, as many as their sizes ask for: no block belongs to two files or twice
  to one, none is marked used without an owner, and the free count is right.
\<close>

theorem fs_blocks_owned:
  assumes "fs_sound ok sect reg f s" "fs_mounted s" "\<forall>op\<in>set ops. op_ok op"
  shows "\<exists>s'. snd (fs_run ops s) = s' \<and>
     (\<forall>i<MAX_INODES. \<forall>j<MAX_INODES. \<forall>k<block_count (size_at s' i). \<forall>l<block_count (size_at s' j).
        kind_at s' i = KIND_FILE \<longrightarrow> kind_at s' j = KIND_FILE \<longrightarrow> blk_at s' i k = blk_at s' j l \<longrightarrow> i = j \<and> k = l) \<and>
     (\<forall>b<fs_total s'. bit_get s' b \<longleftrightarrow>
        (\<exists>i<MAX_INODES. kind_at s' i = KIND_FILE \<and> (\<exists>k<block_count (size_at s' i). blk_at s' i k = b))) \<and>
     fs_free s' = count_free s' (fs_total s')"
proof -
  from run_refines [OF assms] obtain rs f' s' where
    run: "fs_run ops s = (rs, s')" and s': "fs_sound ok sect reg f' s'" by blast
  note D = fs_ownD [OF fs_soundD(3) [OF s']]
  have held: "k \<in> held s' i \<longleftrightarrow> kind_at s' i = KIND_FILE \<and> k < block_count (size_at s' i)" for i k
    by (simp add: held_def)
  have 1: "i = j \<and> k = l"
    if "i < 64" "j < 64" "k < block_count (size_at s' i)" "l < block_count (size_at s' j)"
      "kind_at s' i = KIND_FILE" "kind_at s' j = KIND_FILE" "blk_at s' i k = blk_at s' j l" for i j k l
    using D(8) [OF that(1,2), of k l] that held by blast
  have 2: "bit_get s' b \<longleftrightarrow> (\<exists>i<64. kind_at s' i = KIND_FILE \<and> (\<exists>k<block_count (size_at s' i). blk_at s' i k = b))"
    if "b < fs_total s'" for b
    using D(7) [OF that] held by blast
  have 3: "fs_free s' = count_free s' (fs_total s')" using D(2) by (simp add: bitmap_ok_def)
  show ?thesis using run 1 2 3 by (intro exI [of _ s']) simp
qed

theorem fs_blocks_owned_witness:
  "\<exists>s'. snd (fs_run [OpWrite 9 3 0 [5], OpCreate 9 (demo_path @ [98])] demo_file) = s' \<and>
     (\<forall>i<MAX_INODES. \<forall>j<MAX_INODES. \<forall>k<block_count (size_at s' i). \<forall>l<block_count (size_at s' j).
        kind_at s' i = KIND_FILE \<longrightarrow> kind_at s' j = KIND_FILE \<longrightarrow> blk_at s' i k = blk_at s' j l \<longrightarrow> i = j \<and> k = l) \<and>
     (\<forall>b<fs_total s'. bit_get s' b \<longleftrightarrow>
        (\<exists>i<MAX_INODES. kind_at s' i = KIND_FILE \<and> (\<exists>k<block_count (size_at s' i). blk_at s' i k = b))) \<and>
     fs_free s' = count_free s' (fs_total s')"
proof -
  obtain f where f: "fs_sound ram_ok (\<lambda>d. d) (0, 5000) f demo_file" "fs_mounted demo_file"
    using demo_file_sound by blast
  show ?thesis by (rule fs_blocks_owned [OF f]) simp
qed

text \<open>
  Property C10.  A write that runs out of blocks answers \<open>Full\<close> and leaves the caches and the
  disk exactly as they were: every block taken for it is given back and its slot cleared.
\<close>

theorem write_full_unchanged:
  assumes "fs_sound ok sect reg f s" "fs_mounted s" "index < MAX_INODES" "kind_at s index = KIND_FILE"
    "offset + length data \<le> MAX_FILE_SIZE"
    "fs_free s < block_count (offset + length data) - block_count (size_at s index)"
  shows "fs_write now index offset data s = (Err Full, s)"
  by (rule fs_write_full [OF assms])

theorem write_full_unchanged_witness:
  "fs_write 9 3 9000 [5] demo_file = (Err Full, demo_file)"
proof -
  obtain f where f: "fs_sound ram_ok (\<lambda>d. d) (0, 5000) f demo_file" "fs_mounted demo_file" "fs_free demo_file = 2"
    "kind_at demo_file 3 = KIND_FILE" "size_at demo_file 3 = 0" using demo_file_sound by blast
  show ?thesis by (rule write_full_unchanged [OF f(1,2)]) (simp_all add: f(3-5) block_count_def)
qed

lemma write_read_back:
  assumes "fs_sound ok sect reg f s" "fs_mounted s" "now < 2 ^ 32" "offset + length data < 2 ^ 64"
    "fs_write now index offset data s = (Ok n, s1)" "length buf = length data"
  shows "n = length data \<and> (\<exists>s2. fs_read index offset buf s1 = (Ok (length data), data, s2))"
proof -
  have "refines ok sect reg f s (OpWrite now index offset data)" by (rule write_refines [OF assms(1-4)])
  then obtain f1 where s1: "fs_sound ok sect reg f1 s1" "fs_mounted s1"
    and st: "a_step (OpWrite now index offset data) (view f s) (Ok (n, []), view f1 s1)"
    using assms(5) unfolding refines_def by auto
  from st obtain gap where gap: "\<forall>e. a_file (view f s) index = Some e \<longrightarrow> length gap = offset - length (a_data e)"
    and w: "(Ok (n, []), view f1 s1) = a_write index offset data gap (view f s)" by auto
  from w obtain e where e: "a_file (view f s) index = Some e" by (auto simp: a_write_def split: option.splits)
  with w have n: "n = length data"
    and v: "a_tree (view f1 s1) index = Some (e\<lparr>a_data := file_part offset data (a_data e @ gap)\<rparr>)"
    by (auto simp: a_write_def Let_def split: if_splits)
  have len: "length (take offset (a_data e @ gap)) = offset" using gap e by simp
  have "a_kind e = KIND_FILE" using e by (auto simp: a_file_def split: option.splits if_splits)
  then have file1: "a_file (view f1 s1) index = Some (e\<lparr>a_data := file_part offset data (a_data e @ gap)\<rparr>)"
    using v by (simp add: a_file_def)
  have got: "take (length buf) (drop offset (file_part offset data (a_data e @ gap))) = data"
    using len assms(6) by (simp add: file_part_def)
  have "refines ok sect reg f1 s1 (OpRead index offset buf)" by (rule read_refines [OF s1])
  then obtain r f2 s2 where "fs_step (OpRead index offset buf) s1 = (r, s2)" "(r, view f2 s2) = a_read index offset buf (view f1 s1)"
    unfolding refines_def by auto
  with file1 got have "fs_step (OpRead index offset buf) s1 = (Ok (length data, data), s2)"
    using assms(6) by (simp add: a_read_def Let_def)
  moreover obtain r' buf' s2' where rd: "fs_read index offset buf s1 = (r', buf', s2')" by (cases "fs_read index offset buf s1")
  ultimately have "fs_read index offset buf s1 = (Ok (length data), data, s2)" by (cases r') auto
  then show ?thesis using n by blast
qed

text \<open>
  What a write stored, a read of the same range returns, whatever the offset and
  however many blocks it spans.
\<close>

theorem write_then_read:
  assumes "fs_sound ok sect reg f s" "fs_mounted s" "now < 2 ^ 32" "offset + length data < 2 ^ 64"
    "fs_write now index offset data s = (Ok n, s1)" "length buf = length data"
  shows "n = length data \<and> (\<exists>s2. fs_read index offset buf s1 = (Ok (length data), data, s2))"
  by (rule write_read_back [OF assms])

theorem write_then_read_witness:
  "\<exists>s1 s2. fs_write 9 3 4095 [5, 6] demo_file = (Ok 2, s1) \<and> fs_read 3 4095 [0, 0] s1 = (Ok 2, [5, 6], s2)"
proof -
  obtain f where f: "fs_sound ram_ok (\<lambda>d. d) (0, 5000) f demo_file" "fs_mounted demo_file" "fs_free demo_file = 2"
    "kind_at demo_file 3 = KIND_FILE" "size_at demo_file 3 = 0" using demo_file_sound by blast
  have "\<exists>f' s'. fs_write 9 3 4095 [5, 6] demo_file = (Ok (length [5, 6 :: byte]), s')"
    using fs_write_ok [OF f(1,2) _ f(4), of 4095 "[5, 6]" 9] f(3,5) by (auto simp: block_count_def)
  then obtain s1 where "fs_write 9 3 4095 [5, 6] demo_file = (Ok 2, s1)" by auto
  from write_then_read [OF f(1,2) _ _ this, of "[0, 0]"] this show ?thesis by auto
qed

text \<open>
  The loop of \<open>resolve\<close>, which counts the components as it goes down, finds what
  the reference walk down the components of the path finds; a path of more than eight
  components is not found.
\<close>

theorem resolve_is_walk: "resolve s path = a_resolve (view f s) path"
  by (rule resolve_view)

end
