(* ===== verification/Paging.thy ===== *)
theory Paging imports Mmu Frames begin

text \<open>
  Address spaces, \<^verbatim>\<open>kernel/src/level0a/core/mmu_x86_64.rs\<close>: every process has its own page tables,
  built from frames of the pool, with pages that are filled on first touch and shared copy-on-write
  after a fork.  The tables are words in the physical memory of \<open>Frames\<close>, and are read and written
  there as the code does.  \<open>mmu\<close> holds the frame pool, the CR3 register, \<open>KERNEL_CR3\<close> and the
  owners of the split tables, whose address in the kernel image is \<open>mm_split\<close>.  A flush of the TLB
  reloads CR3 with what it holds; the model has no TLB.
\<close>

section \<open>Words in memory\<close>

definition rd64 :: "(nat \<Rightarrow> byte) \<Rightarrow> nat \<Rightarrow> 64 word" where
  "rd64 m a = foldr (OR) (map (\<lambda>j. push_bit (8 * j) (ucast (m (a + j)))) [0..<8]) 0"

definition wr64 :: "nat \<Rightarrow> 64 word \<Rightarrow> (nat \<Rightarrow> byte) \<Rightarrow> nat \<Rightarrow> byte" where
  "wr64 a v m x = (if a \<le> x \<and> x < a + 8 then ucast (drop_bit (8 * (x - a)) v) else m x)"

lemma bit_foldr_or: "bit (foldr (OR) xs (0 :: 64 word)) n \<longleftrightarrow> (\<exists>x\<in>set xs. bit x n)"
  by (induction xs) (auto simp: bit_simps)

lemma bit_byte_at:
  assumes "r < 8" "k < 8"
  shows "bit (push_bit (8 * j) (ucast (x :: byte)) :: 64 word) (8 * k + r) \<longleftrightarrow> j = k \<and> bit x r"
proof -
  have len: "bit x i \<Longrightarrow> i < 8" for i using bit_imp_le_length [of x i] by simp
  consider "j < k" | "j = k" | "k < j" by linarith
  then show ?thesis
  proof cases
    case 1
    then have "\<not> 8 * k + r - 8 * j < 8" by linarith
    then show ?thesis using 1 len by (auto simp: bit_simps)
  next
    case 2
    then show ?thesis using assms by (auto simp: bit_simps)
  next
    case 3
    then have "\<not> 8 * j \<le> 8 * k + r" using assms by linarith
    then show ?thesis using 3 by (simp add: bit_simps)
  qed
qed

lemma bit_rd64:
  assumes "n < 64"
  shows "bit (rd64 m a) n \<longleftrightarrow> bit (m (a + n div 8)) (n mod 8)"
proof -
  have n: "n = 8 * (n div 8) + n mod 8" "n mod 8 < 8" "n div 8 < 8" using assms by (simp_all add: less_mult_imp_div_less)
  have "bit (rd64 m a) (8 * (n div 8) + n mod 8) \<longleftrightarrow> bit (m (a + n div 8)) (n mod 8)"
    unfolding rd64_def bit_foldr_or using bit_byte_at [OF n(2,3)] n(3) by auto
  then show ?thesis by simp
qed

lemma rd64_cong: "(\<And>x. a \<le> x \<Longrightarrow> x < a + 8 \<Longrightarrow> m x = m' x) \<Longrightarrow> rd64 m a = rd64 m' a"
  unfolding rd64_def by (intro arg_cong2 [where f = "foldr (OR)"] map_cong refl) simp

lemma rd64_wr64 [simp]: "rd64 (wr64 a v m) a = v"
proof (rule bit_word_eqI)
  fix n assume "n < LENGTH(64)"
  then have n: "n < 64" by simp
  define k where "k = n div 8"
  have k: "k < 8" "8 * k + n mod 8 = n" "n mod 8 < 8" using n by (simp_all add: k_def less_mult_imp_div_less)
  then have "bit (rd64 (wr64 a v m) a) n = bit (ucast (drop_bit (8 * k) v) :: byte) (n mod 8)"
    using n by (simp add: bit_rd64 wr64_def k_def [symmetric])
  also have "\<dots> = bit v n" using k by (simp add: bit_simps)
  finally show "bit (rd64 (wr64 a v m) a) n = bit v n" .
qed

lemma rd64_wr64_other: "b + 8 \<le> a \<or> a + 8 \<le> b \<Longrightarrow> rd64 (wr64 a v m) b = rd64 m b"
  by (rule rd64_cong) (auto simp: wr64_def)

definition mem_copy :: "nat \<Rightarrow> nat \<Rightarrow> nat \<Rightarrow> (nat \<Rightarrow> byte) \<Rightarrow> nat \<Rightarrow> byte" where
  \<comment> \<open>\<open>copy_nonoverlapping(src, dst, len)\<close>\<close>
  "mem_copy src dst len m x = (if dst \<le> x \<and> x < dst + len then m (src + (x - dst)) else m x)"

section \<open>State\<close>

abbreviation (input) PAGE_SIZE :: nat where "PAGE_SIZE \<equiv> 4096"
abbreviation (input) LARGE_PAGE_SIZE :: nat where "LARGE_PAGE_SIZE \<equiv> 2097152"
abbreviation (input) ENTRIES :: nat where "ENTRIES \<equiv> 512"
abbreviation (input) MAX_SPLITS :: nat where "MAX_SPLITS \<equiv> 8"
abbreviation (input) USER_MEM_START :: nat where "USER_MEM_START \<equiv> 12582912"
abbreviation (input) USER_PD_FIRST :: nat where "USER_PD_FIRST \<equiv> 6"
abbreviation (input) USER_PD_LAST :: nat where "USER_PD_LAST \<equiv> 7"
abbreviation (input) USER_MAP_SIZE :: nat where "USER_MAP_SIZE \<equiv> 524288"
abbreviation (input) PTE_COW :: "64 word" where "PTE_COW \<equiv> push_bit 9 1"
abbreviation (input) PTE_SHARED :: "64 word" where "PTE_SHARED \<equiv> push_bit 10 1"
abbreviation (input) PTE_DEMAND :: "64 word" where "PTE_DEMAND \<equiv> push_bit 11 1"

record mmu =
  mm_fr :: frames
  mm_cr3 :: nat
  mm_kernel :: nat
  mm_owner :: "nat option list"
  mm_split :: nat
  mm_wp :: bool

abbreviation mm_mem :: "mmu \<Rightarrow> nat \<Rightarrow> byte" where
  "mm_mem s \<equiv> fr_mem (mm_fr s)"

definition pte_at :: "mmu \<Rightarrow> nat \<Rightarrow> nat \<Rightarrow> 64 word" where
  \<comment> \<open>\<open>table_entry(table, index).read()\<close>\<close>
  "pte_at s table index = rd64 (mm_mem s) (table + 8 * index)"

definition put_word :: "nat \<Rightarrow> 64 word \<Rightarrow> mmu \<Rightarrow> mmu" where
  "put_word a v s = s\<lparr>mm_fr := (mm_fr s)\<lparr>fr_mem := wr64 a v (mm_mem s)\<rparr>\<rparr>"

definition put_pte :: "nat \<Rightarrow> nat \<Rightarrow> 64 word \<Rightarrow> mmu \<Rightarrow> mmu" where
  \<comment> \<open>\<open>table_entry(table, index).write(v)\<close>\<close>
  "put_pte table index v = put_word (table + 8 * index) v"

definition copy_bytes :: "nat \<Rightarrow> nat \<Rightarrow> nat \<Rightarrow> mmu \<Rightarrow> mmu" where
  "copy_bytes src dst len s = s\<lparr>mm_fr := (mm_fr s)\<lparr>fr_mem := mem_copy src dst len (mm_mem s)\<rparr>\<rparr>"

definition entry_addr :: "64 word \<Rightarrow> nat" where
  "entry_addr e = unat (e AND ADDR_MASK)"

text \<open>A page that is shared from now on, and one whose last owner may write it again.\<close>

definition make_cow :: "64 word \<Rightarrow> 64 word" where
  "make_cow page = page AND NOT PTE_WRITABLE OR PTE_COW"

definition make_writable :: "64 word \<Rightarrow> 64 word" where
  "make_writable entry = entry AND NOT PTE_COW OR PTE_WRITABLE"

definition mm_alloc :: "mmu \<Rightarrow> (nat \<times> mmu) option" where
  "mm_alloc s = (case frames_alloc (mm_fr s) of None \<Rightarrow> None | Some (f, fr) \<Rightarrow> Some (f, s\<lparr>mm_fr := fr\<rparr>))"

definition mm_free :: "nat \<Rightarrow> mmu \<Rightarrow> mmu" where
  "mm_free f s = s\<lparr>mm_fr := frames_free f (mm_fr s)\<rparr>"

section \<open>Operations\<close>

definition mmu_init :: "mmu \<Rightarrow> mmu" where
  "mmu_init s = s\<lparr>mm_kernel := entry_addr (of_nat (mm_cr3 s)), mm_wp := True\<rparr>"

definition switch_to :: "nat \<Rightarrow> mmu \<Rightarrow> mmu" where
  "switch_to cr3 s = (if cr3 = 0 then s\<lparr>mm_cr3 := mm_kernel s\<rparr> else s\<lparr>mm_cr3 := cr3\<rparr>)"

definition copy_table :: "nat \<Rightarrow> nat \<Rightarrow> mmu \<Rightarrow> mmu" where
  "copy_table src dst = copy_bytes src dst (8 * ENTRIES)"

definition user_pte :: "mmu \<Rightarrow> nat \<Rightarrow> nat \<Rightarrow> nat option" where
  \<comment> \<open>the address of the entry\<close>
  "user_pte s cr3 addr =
     (let pd_index = addr div LARGE_PAGE_SIZE in
      if \<not> (USER_PD_FIRST \<le> pd_index \<and> pd_index \<le> USER_PD_LAST) then None
      else let pdpt = entry_addr (pte_at s cr3 0); pd = entry_addr (pte_at s pdpt 0);
               entry = pte_at s pd pd_index in
      if entry AND PTE_PRESENT = 0 \<or> entry AND PTE_HUGE \<noteq> 0 then None
      else Some (entry_addr entry + 8 * ((addr div PAGE_SIZE) mod ENTRIES)))"

text \<open>The pages of one user page table go back to the pool, then the table itself.\<close>

definition free_pages :: "nat \<Rightarrow> mmu \<Rightarrow> mmu" where
  "free_pages pt s =
     fold (\<lambda>i s. let page = pte_at s pt i in
             if page AND PTE_PRESENT \<noteq> 0 then mm_free (entry_addr page) s else s) [0..<ENTRIES] s"

definition free_user_table :: "nat \<Rightarrow> nat \<Rightarrow> mmu \<Rightarrow> mmu" where
  "free_user_table pd pd_index s =
     (let entry = pte_at s pd pd_index in
      if entry AND PTE_PRESENT = 0 \<or> entry AND PTE_HUGE \<noteq> 0 then s
      else mm_free (entry_addr entry) (free_pages (entry_addr entry) s))"

definition destroy_user_space :: "nat \<Rightarrow> mmu \<Rightarrow> mmu" where
  "destroy_user_space cr3 s =
     (if cr3 = 0 \<or> cr3 = mm_kernel s then s
      else let pdpt = entry_addr (pte_at s cr3 0);
               s = (if pdpt \<noteq> 0 then
                      let pd = entry_addr (pte_at s pdpt 0);
                          s = (if pd \<noteq> 0
                               then mm_free pd (fold (free_user_table pd) [USER_PD_FIRST..<USER_PD_LAST + 1] s)
                               else s)
                      in mm_free pdpt s
                    else s)
           in mm_free cr3 s)"

definition table_flags :: "64 word" where
  "table_flags = PTE_PRESENT OR PTE_WRITABLE OR PTE_USER"

fun add_user_tables :: "nat \<Rightarrow> nat \<Rightarrow> nat list \<Rightarrow> mmu \<Rightarrow> nat option \<times> mmu" where
  "add_user_tables pml4 pd [] s = (Some pml4, s)"
| "add_user_tables pml4 pd (i # is) s =
     (case mm_alloc s of
        None \<Rightarrow> (None, destroy_user_space pml4 s)
      | Some (pt, s) \<Rightarrow> add_user_tables pml4 pd is (put_pte pd i (of_nat pt OR table_flags) s))"

definition create_user_space :: "mmu \<Rightarrow> nat option \<times> mmu" where
  "create_user_space s =
     (let kernel = mm_kernel s in
      if kernel = 0 then (None, s)
      else case mm_alloc s of None \<Rightarrow> (None, s)
      | Some (pml4, s) \<Rightarrow>
      (case mm_alloc s of None \<Rightarrow> (None, mm_free pml4 s)
       | Some (pdpt, s) \<Rightarrow>
      (case mm_alloc s of None \<Rightarrow> (None, mm_free pdpt (mm_free pml4 s))
       | Some (pd, s) \<Rightarrow>
          (let kernel_pdpt = entry_addr (pte_at s kernel 0);
               kernel_pd = entry_addr (pte_at s kernel_pdpt 0);
               s = copy_table kernel_pd pd (copy_table kernel_pdpt pdpt (copy_table kernel pml4 s));
               s = put_pte pml4 0 (of_nat pdpt OR table_flags) s;
               s = put_pte pdpt 0 (of_nat pd OR table_flags) s
           in add_user_tables pml4 pd [USER_PD_FIRST..<USER_PD_LAST + 1] s))))"

fun reserve_pages :: "nat \<Rightarrow> nat list \<Rightarrow> mmu \<Rightarrow> bool \<times> mmu" where
  "reserve_pages cr3 [] s = (True, s)"
| "reserve_pages cr3 (page # ps) s =
     (case user_pte s cr3 (page * PAGE_SIZE) of
        None \<Rightarrow> (False, s)
      | Some e \<Rightarrow>
          if rd64 (mm_mem s) e AND PTE_PRESENT \<noteq> 0 then reserve_pages cr3 ps s
          else reserve_pages cr3 ps (put_word e PTE_DEMAND s))"

definition reserve_user_range :: "nat \<Rightarrow> nat \<Rightarrow> nat \<Rightarrow> mmu \<Rightarrow> bool \<times> mmu" where
  "reserve_user_range cr3 start len s =
     (if len = 0 then (True, s)
      else reserve_pages cr3 [start div PAGE_SIZE..<(start + len - 1) div PAGE_SIZE + 1] s)"

definition current_space :: "mmu \<Rightarrow> nat" where
  "current_space s = entry_addr (of_nat (mm_cr3 s))"

definition handle_demand_fault :: "nat \<Rightarrow> mmu \<Rightarrow> bool \<times> mmu" where
  "handle_demand_fault vaddr s =
     (let cr3 = current_space s in
      if cr3 = 0 \<or> cr3 = mm_kernel s then (False, s)
      else case user_pte s cr3 vaddr of None \<Rightarrow> (False, s)
      | Some e \<Rightarrow>
          (let entry = rd64 (mm_mem s) e in
           if entry AND PTE_PRESENT \<noteq> 0 \<or> entry AND PTE_DEMAND = 0 then (False, s)
           else case mm_alloc s of None \<Rightarrow> (False, s)
           | Some (frame, s) \<Rightarrow>
               (let s = put_word e (of_nat frame OR table_flags) s
                in (True, s\<lparr>mm_fr := note_demand_fill (mm_fr s)\<rparr>))))"

definition handle_cow_fault :: "nat \<Rightarrow> mmu \<Rightarrow> bool \<times> mmu" where
  "handle_cow_fault vaddr s =
     (let cr3 = current_space s in
      if cr3 = 0 \<or> cr3 = mm_kernel s then (False, s)
      else case user_pte s cr3 vaddr of None \<Rightarrow> (False, s)
      | Some e \<Rightarrow>
          (let entry = rd64 (mm_mem s) e; frame = entry_addr entry in
           if entry AND PTE_PRESENT = 0 \<or> entry AND PTE_COW = 0 then (False, s)
           else if frames_refcount frame (mm_fr s) \<le> 1
           then (let s = put_word e (make_writable entry) s
                 in (True, s\<lparr>mm_fr := note_cow_reuse (mm_fr s)\<rparr>))
           else case mm_alloc s of None \<Rightarrow> (False, s)
           | Some (copy, s) \<Rightarrow>
               (let s = copy_bytes frame copy PAGE_SIZE s;
                    s = put_word e (of_nat copy OR table_flags) s;
                    s = mm_free frame s
                in (True, s\<lparr>mm_fr := note_cow_copy (mm_fr s)\<rparr>))))"

text \<open>The page-fault handler of \<^verbatim>\<open>idt/x86_64.rs\<close>, up to the exception it reports otherwise.\<close>

definition page_fault :: "64 word \<Rightarrow> nat \<Rightarrow> mmu \<Rightarrow> bool \<times> mmu" where
  "page_fault error_code vaddr s =
     (if error_code AND push_bit 0 1 = 0 then handle_demand_fault vaddr s
      else if error_code AND push_bit 1 1 \<noteq> 0 then handle_cow_fault vaddr s
      else (False, s))"

section \<open>Fork\<close>

text \<open>
  One entry of the parent's table: \<open>None\<close> where the copy stops because it cannot go on (the child
  is destroyed then).
\<close>

definition clone_page :: "nat \<Rightarrow> nat \<Rightarrow> nat \<times> nat \<Rightarrow> mmu \<Rightarrow> bool \<times> mmu" where
  "clone_page dst_cr3 src_pt ki s =
     (case ki of (pd_index, i) \<Rightarrow>
        let page = pte_at s src_pt i in
        if page AND PTE_SHARED \<noteq> 0 then (True, s)
        else if page AND PTE_PRESENT = 0 \<and> page AND PTE_DEMAND = 0 then (True, s)
        else case user_pte s dst_cr3 (pd_index * LARGE_PAGE_SIZE + i * PAGE_SIZE) of
          None \<Rightarrow> (False, s)
        | Some e \<Rightarrow>
            if page AND PTE_PRESENT = 0 then (True, put_word e page s)
            else (let frame = entry_addr page in
              case frames_share frame (mm_fr s) of
                (True, fr) \<Rightarrow>
                  (let shared = make_cow page
                   in (True, put_word e shared (put_pte src_pt i shared (s\<lparr>mm_fr := fr\<rparr>))))
              | (False, fr) \<Rightarrow>
                  (case mm_alloc (s\<lparr>mm_fr := fr\<rparr>) of
                     None \<Rightarrow> (False, s\<lparr>mm_fr := fr\<rparr>)
                   | Some (copy, s) \<Rightarrow>
                       (True, put_word e (of_nat copy OR table_flags) (copy_bytes frame copy PAGE_SIZE s)))))"

fun clone_pages :: "nat \<Rightarrow> nat \<Rightarrow> (nat \<times> nat) list \<Rightarrow> mmu \<Rightarrow> bool \<times> mmu" where
  "clone_pages dst_cr3 src_pt [] s = (True, s)"
| "clone_pages dst_cr3 src_pt (ki # kis) s =
     (case clone_page dst_cr3 src_pt ki s of
        (False, s) \<Rightarrow> (False, s)
      | (True, s) \<Rightarrow> clone_pages dst_cr3 src_pt kis s)"

fun clone_tables :: "nat \<Rightarrow> nat \<Rightarrow> nat list \<Rightarrow> mmu \<Rightarrow> bool \<times> mmu" where
  "clone_tables dst_cr3 src_pd [] s = (True, s)"
| "clone_tables dst_cr3 src_pd (k # ks) s =
     (let src_entry = pte_at s src_pd k in
      if src_entry AND PTE_PRESENT = 0 \<or> src_entry AND PTE_HUGE \<noteq> 0 then clone_tables dst_cr3 src_pd ks s
      else case clone_pages dst_cr3 (entry_addr src_entry) (map (Pair k) [0..<ENTRIES]) s of
             (False, s) \<Rightarrow> (False, s)
           | (True, s) \<Rightarrow> clone_tables dst_cr3 src_pd ks s)"

definition clone_user_space :: "nat \<Rightarrow> mmu \<Rightarrow> nat option \<times> mmu" where
  "clone_user_space src_cr3 s =
     (if src_cr3 = 0 \<or> src_cr3 = mm_kernel s then (None, s)
      else case create_user_space s of (None, s) \<Rightarrow> (None, s)
      | (Some dst_cr3, s) \<Rightarrow>
          (let src_pdpt = entry_addr (pte_at s src_cr3 0); src_pd = entry_addr (pte_at s src_pdpt 0) in
           case clone_tables dst_cr3 src_pd [USER_PD_FIRST..<USER_PD_LAST + 1] s of
             (False, s) \<Rightarrow> (None, destroy_user_space dst_cr3 s)
           | (True, s) \<Rightarrow> (Some dst_cr3, s)))"

section \<open>Mappings of the kernel and of windows\<close>

definition split_table_for :: "nat \<Rightarrow> mmu \<Rightarrow> nat option \<times> mmu" where
  "split_table_for pd_index s =
     (case find_slot (\<lambda>i. mm_owner s ! i = Some pd_index) 0 MAX_SPLITS of
        Some i \<Rightarrow> (Some (mm_split s + PAGE_SIZE * i), s)
      | None \<Rightarrow>
          (case find_slot (\<lambda>i. mm_owner s ! i = None) 0 MAX_SPLITS of
             Some i \<Rightarrow> (Some (mm_split s + PAGE_SIZE * i), s\<lparr>mm_owner := (mm_owner s)[i := Some pd_index]\<rparr>)
           | None \<Rightarrow> (None, s)))"

definition fill_split :: "nat \<Rightarrow> nat \<Rightarrow> mmu \<Rightarrow> mmu" where
  "fill_split pt pd_index =
     fold (\<lambda>i. put_pte pt i (of_nat (pd_index * LARGE_PAGE_SIZE + i * PAGE_SIZE) OR PTE_PRESENT OR PTE_WRITABLE)) [0..<ENTRIES]"

definition open_pages :: "nat \<Rightarrow> nat list \<Rightarrow> mmu \<Rightarrow> mmu" where
  "open_pages pt = fold (\<lambda>i s. put_pte pt i (pte_at s pt i OR PTE_USER OR PTE_WRITABLE) s)"

fun protect_tables :: "nat \<Rightarrow> nat \<Rightarrow> nat \<Rightarrow> nat list \<Rightarrow> mmu \<Rightarrow> bool \<times> mmu" where
  "protect_tables pd first_page last_page [] s = (True, s)"
| "protect_tables pd first_page last_page (k # ks) s =
     (let pd_entry = pte_at s pd k; page_lo = k * LARGE_PAGE_SIZE div PAGE_SIZE;
          pages = [max first_page page_lo - page_lo..<min last_page (page_lo + ENTRIES - 1) + 1 - page_lo] in
      if pd_entry AND PTE_HUGE \<noteq> 0 then
        (case split_table_for k s of
           (None, s) \<Rightarrow> (False, s)
         | (Some pt, s) \<Rightarrow>
             protect_tables pd first_page last_page ks
               (open_pages pt pages (put_pte pd k (of_nat pt OR table_flags) (fill_split pt k s))))
      else protect_tables pd first_page last_page ks (open_pages (entry_addr pd_entry) pages s))"

definition protect_user_range :: "nat \<Rightarrow> nat \<Rightarrow> mmu \<Rightarrow> mmu" where
  "protect_user_range start len s =
     (if len = 0 then s
      else let pml4 = current_space s; pdpt = entry_addr (pte_at s pml4 0); pd = entry_addr (pte_at s pdpt 0) in
      case protect_tables pd (start div PAGE_SIZE) ((start + len - 1) div PAGE_SIZE)
             [start div LARGE_PAGE_SIZE..<(start + len - 1) div LARGE_PAGE_SIZE + 1] s of
        (False, s) \<Rightarrow> s
      | (True, s) \<Rightarrow>
          (let s = put_pte pml4 0 (pte_at s pml4 0 OR PTE_USER) s
           in put_pte pdpt 0 (pte_at s pdpt 0 OR PTE_USER) s))"

fun map_pages :: "nat \<Rightarrow> nat \<Rightarrow> nat \<Rightarrow> nat list \<Rightarrow> mmu \<Rightarrow> bool \<times> mmu" where
  "map_pages cr3 vaddr phys [] s = (True, s)"
| "map_pages cr3 vaddr phys (i # is) s =
     (case user_pte s cr3 (vaddr + i * PAGE_SIZE) of
        None \<Rightarrow> (False, s)
      | Some e \<Rightarrow> map_pages cr3 vaddr phys is
                    (put_word e (of_nat (phys + i * PAGE_SIZE) OR table_flags OR PTE_SHARED) s))"

definition map_user_frames :: "nat \<Rightarrow> nat \<Rightarrow> nat \<Rightarrow> nat \<Rightarrow> mmu \<Rightarrow> bool \<times> mmu" where
  "map_user_frames cr3 vaddr phys len s =
     (if len = 0 then (True, s)
      else if cr3 = 0 \<or> cr3 = mm_kernel s then (True, protect_user_range phys len s)
      else if vaddr mod PAGE_SIZE \<noteq> 0 \<or> phys mod PAGE_SIZE \<noteq> 0 then (False, s)
      else map_pages cr3 vaddr phys [0..<(len + PAGE_SIZE - 1) div PAGE_SIZE] s)"

section \<open>Reports\<close>

definition count_pages :: "(64 word \<Rightarrow> bool) \<Rightarrow> nat \<Rightarrow> mmu \<Rightarrow> nat" where
  "count_pages P pd s =
     sum_list (map (\<lambda>k. let entry = pte_at s pd k in
        if entry AND PTE_PRESENT = 0 \<or> entry AND PTE_HUGE \<noteq> 0 then 0
        else length (filter (\<lambda>i. P (pte_at s (entry_addr entry) i)) [0..<ENTRIES])) [USER_PD_FIRST..<USER_PD_LAST + 1])"

definition user_pages :: "nat \<Rightarrow> mmu \<Rightarrow> nat" where
  "user_pages cr3 s =
     (if cr3 = 0 \<or> cr3 = mm_kernel s then 0
      else count_pages (\<lambda>e. e AND PTE_PRESENT \<noteq> 0) (entry_addr (pte_at s (entry_addr (pte_at s cr3 0)) 0)) s)"

definition report_pages :: "(64 word \<Rightarrow> bool) \<Rightarrow> nat \<Rightarrow> mmu \<Rightarrow> nat" where
  \<comment> \<open>the common body of \<open>reserved_pages\<close> and \<open>cow_pages\<close>\<close>
  "report_pages P cr3 s =
     (if cr3 = 0 \<or> cr3 = mm_kernel s then 0
      else let pdpt = entry_addr (pte_at s cr3 0) in
      if pdpt = 0 then 0
      else let pd = entry_addr (pte_at s pdpt 0) in
      if pd = 0 then 0 else count_pages P pd s)"

definition reserved_pages :: "nat \<Rightarrow> mmu \<Rightarrow> nat" where
  "reserved_pages = report_pages (\<lambda>e. e AND PTE_PRESENT = 0 \<and> e AND PTE_DEMAND \<noteq> 0)"

definition cow_pages :: "nat \<Rightarrow> mmu \<Rightarrow> nat" where
  "cow_pages = report_pages (\<lambda>e. e AND PTE_PRESENT \<noteq> 0 \<and> e AND PTE_COW \<noteq> 0)"

end
