(* ===== verification/PagingInv.thy ===== *)
theory PagingInv imports Paging begin

text \<open>
  The invariant of the address spaces of \<open>Paging\<close>: which frames are page tables of which space,
  and how many owners every frame has.  A \<open>space\<close> names the five table frames of a process by
  their numbers in the pool; \<open>held\<close> counts the references to frames that are in neither a table
  nor an entry yet, in the middle of an operation.
\<close>

section \<open>Entries\<close>

lemma and_flag: "(e :: 64 word) AND push_bit n 1 = 0 \<longleftrightarrow> \<not> (n < 64 \<and> bit e n)"
proof -
  have "e AND push_bit n 1 = 0 \<longleftrightarrow> (\<forall>k<64. \<not> bit (e AND push_bit n 1) k)"
    by (auto simp: bit_eq_iff)
  also have "\<dots> \<longleftrightarrow> \<not> (n < 64 \<and> bit e n)" by (auto simp: bit_simps)
  finally show ?thesis .
qed

lemma and_flags [simp]:
  "(e :: 64 word) AND 1 = 0 \<longleftrightarrow> \<not> bit e 0" "e AND 2 = 0 \<longleftrightarrow> \<not> bit e 1"
  "e AND 4 = 0 \<longleftrightarrow> \<not> bit e 2" "e AND 128 = 0 \<longleftrightarrow> \<not> bit e 7"
  "e AND 512 = 0 \<longleftrightarrow> \<not> bit e 9" "e AND 1024 = 0 \<longleftrightarrow> \<not> bit e 10" "e AND 2048 = 0 \<longleftrightarrow> \<not> bit e 11"
  using and_flag [of e 0] and_flag [of e 1] and_flag [of e 2] and_flag [of e 7] and_flag [of e 9] and_flag [of e 10]
    and_flag [of e 11] by simp_all

lemma flag_bits:
  "bit (PTE_PRESENT :: 64 word) n \<longleftrightarrow> n = 0" "bit PTE_WRITABLE n \<longleftrightarrow> n = 1" "bit PTE_USER n \<longleftrightarrow> n = 2"
  "bit PTE_COW n \<longleftrightarrow> n = 9" "bit PTE_SHARED n \<longleftrightarrow> n = 10" "bit PTE_DEMAND n \<longleftrightarrow> n = 11"
  by (auto simp only: bit_push_bit_iff bit_1_iff possible_bit_word) auto

definition frame_entry :: "nat \<Rightarrow> 64 word" where
  "frame_entry f = of_nat (frame_addr f) OR table_flags"

lemma frame_addr_word: "f < POOL_FRAMES \<Longrightarrow> (of_nat (frame_addr f) :: 64 word) = push_bit 12 (of_nat (4096 + f))"
proof -
  have "frame_addr f = 2 ^ 12 * (4096 + f)" by (simp add: frame_addr_def)
  then show ?thesis by (simp only: push_bit_eq_mult of_nat_mult of_nat_power of_nat_numeral mult.commute)
qed

lemma bit_frame_word:
  assumes "f < POOL_FRAMES"
  shows "bit (of_nat (frame_addr f) :: 64 word) n \<Longrightarrow> 12 \<le> n \<and> n < 52"
proof -
  assume b: "bit (of_nat (frame_addr f) :: 64 word) n"
  then have n: "n < 64" using bit_imp_le_length [of "of_nat (frame_addr f) :: 64 word" n] by simp
  have lt: "frame_addr f < 2 ^ 52" using assms by (simp add: frame_addr_def)
  have "bit (frame_addr f) n" using b by (simp add: bit_simps)
  then have "n < 52" using lt by (metis bit_take_bit_iff take_bit_nat_eq_self)
  moreover have "12 \<le> n" using b assms by (simp add: frame_addr_word bit_simps)
  ultimately show ?thesis by simp
qed

lemma bit_addr_mask: "bit ADDR_MASK n \<longleftrightarrow> 12 \<le> n \<and> n < 52"
proof -
  have "ADDR_MASK = push_bit 12 (mask 40 :: 64 word)" by (simp add: mask_eq_exp_minus_1 push_bit_eq_mult)
  moreover have "bit (push_bit 12 (mask 40 :: 64 word)) n \<longleftrightarrow> 12 \<le> n \<and> n < 52"
    by (auto simp only: bit_push_bit_iff bit_mask_iff possible_bit_word min_def len_bit0 len_bit1 len_num1 split: if_splits)
  ultimately show ?thesis by simp
qed

lemma bit_table_flags: "bit table_flags n \<longleftrightarrow> n \<in> {0, 1, 2}"
  by (auto simp only: table_flags_def bit_or_iff flag_bits insert_iff empty_iff)

lemma entry_addr_flags:
  assumes "\<And>n. 12 \<le> n \<Longrightarrow> n < 52 \<Longrightarrow> bit e n = bit e' n"
  shows "entry_addr e = entry_addr e'"
  unfolding entry_addr_def
  by (intro arg_cong [where f = unat] bit_word_eqI) (use assms in \<open>auto simp only: bit_and_iff bit_addr_mask\<close>)

lemma entry_addr_frame:
  assumes "f < POOL_FRAMES" "\<And>n. 12 \<le> n \<Longrightarrow> n < 52 \<Longrightarrow> bit e n = bit (of_nat (frame_addr f) :: 64 word) n"
  shows "entry_addr e = frame_addr f"
proof -
  have "e AND ADDR_MASK = of_nat (frame_addr f)"
    by (rule bit_word_eqI) (use assms(2) bit_frame_word [OF assms(1)] in \<open>auto simp only: bit_and_iff bit_addr_mask\<close>)
  moreover have "frame_addr f < 2 ^ 64" using assms(1) by (simp add: frame_addr_def)
  ultimately show ?thesis by (simp add: entry_addr_def unat_of_nat)
qed

lemma entry_addr_frame_entry [simp]: "f < POOL_FRAMES \<Longrightarrow> entry_addr (frame_entry f) = frame_addr f"
  by (rule entry_addr_frame) (auto simp: frame_entry_def bit_or_iff bit_table_flags)

lemma entry_addr_of_nat [simp]: "f < POOL_FRAMES \<Longrightarrow> entry_addr (of_nat (frame_addr f)) = frame_addr f"
  by (rule entry_addr_frame) auto

lemma bit_frame_entry:
  assumes "f < POOL_FRAMES" "n < 12"
  shows "bit (frame_entry f) n \<longleftrightarrow> n \<in> {0, 1, 2}"
  using bit_frame_word [OF assms(1), of n] assms(2) by (auto simp: frame_entry_def bit_or_iff bit_table_flags)

lemma bit_make:
  "n < 64 \<Longrightarrow> bit (make_cow e) n \<longleftrightarrow> n = 9 \<or> bit e n \<and> n \<noteq> 1"
  "n < 64 \<Longrightarrow> bit (make_writable e) n \<longleftrightarrow> n = 1 \<or> bit e n \<and> n \<noteq> 9"
  by (auto simp only: make_cow_def make_writable_def bit_or_iff bit_and_iff bit_not_iff flag_bits possible_bit_word len_bit0 len_bit1 len_num1)

lemma entry_addr_make [simp]: "entry_addr (make_cow e) = entry_addr e" "entry_addr (make_writable e) = entry_addr e"
  by (rule entry_addr_flags; simp add: bit_make)+

section \<open>Frames as words\<close>

definition fw :: "mmu \<Rightarrow> nat \<Rightarrow> nat \<Rightarrow> 64 word" where
  "fw s f k = pte_at s (frame_addr f) k"

definition slot_addr :: "nat \<Rightarrow> nat \<Rightarrow> nat" where
  "slot_addr f k = frame_addr f + 8 * k"

lemma fw_slot: "rd64 (mm_mem s) (slot_addr f k) = fw s f k"
  by (simp add: fw_def pte_at_def slot_addr_def)

lemma put_pte_slot: "put_pte (frame_addr f) k v = put_word (slot_addr f k) v"
  by (simp add: put_pte_def slot_addr_def)

lemma slot_addr_apart:
  assumes "j < ENTRIES" "k < ENTRIES" "f \<noteq> g \<or> j \<noteq> k"
  shows "slot_addr f j + 8 \<le> slot_addr g k \<or> slot_addr g k + 8 \<le> slot_addr f j"
proof -
  consider "f < g" | "g < f" | "f = g" "j < k" | "f = g" "k < j" using assms(3) by linarith
  then show ?thesis
  proof cases
    case 1
    then have "f * 4096 + 4096 \<le> g * 4096" by linarith
    then show ?thesis using assms(1) by (simp add: slot_addr_def frame_addr_def)
  next
    case 2
    then have "g * 4096 + 4096 \<le> f * 4096" by linarith
    then show ?thesis using assms(2) by (simp add: slot_addr_def frame_addr_def)
  qed (simp_all add: slot_addr_def)
qed

lemma fw_put_word:
  assumes "j < ENTRIES" "k < ENTRIES"
  shows "fw (put_word (slot_addr f j) v s) g k = (if f = g \<and> j = k then v else fw s g k)"
  using slot_addr_apart [OF assms, of f g]
  by (auto simp: fw_slot [symmetric] put_word_def rd64_wr64_other)

lemma frames_mem [simp]:
  "frames_inv (fr\<lparr>fr_mem := m\<rparr>) = frames_inv fr" "frames_count (fr\<lparr>fr_mem := m\<rparr>) = frames_count fr"
  by (simp_all add: frames_inv_def frames_count_def fun_eq_iff frames_ops)

lemma put_word_fields [simp]:
  "frames_inv (mm_fr (put_word a v s)) = frames_inv (mm_fr s)"
  "frames_count (mm_fr (put_word a v s)) = frames_count (mm_fr s)"
  "mm_cr3 (put_word a v s) = mm_cr3 s" "mm_kernel (put_word a v s) = mm_kernel s"
  "mm_owner (put_word a v s) = mm_owner s" "mm_split (put_word a v s) = mm_split s"
  by (simp_all add: put_word_def)

lemma copy_bytes_fields [simp]:
  "frames_inv (mm_fr (copy_bytes a b n s)) = frames_inv (mm_fr s)"
  "frames_count (mm_fr (copy_bytes a b n s)) = frames_count (mm_fr s)"
  "mm_cr3 (copy_bytes a b n s) = mm_cr3 s" "mm_kernel (copy_bytes a b n s) = mm_kernel s"
  "mm_owner (copy_bytes a b n s) = mm_owner s" "mm_split (copy_bytes a b n s) = mm_split s"
  by (simp_all add: copy_bytes_def)

lemma fw_copy_other:
  assumes "f \<noteq> g" "k < ENTRIES"
  shows "fw (copy_bytes a (frame_addr g) PAGE_SIZE s) f k = fw s f k"
proof -
  have "\<not> (frame_addr g \<le> x \<and> x < frame_addr g + 4096)" if "slot_addr f k \<le> x" "x < slot_addr f k + 8" for x
  proof -
    consider "f < g" | "g < f" using assms(1) by linarith
    then show ?thesis
    proof cases
      case 1
      then have "f * 4096 + 4096 \<le> g * 4096" by linarith
      then show ?thesis using that assms(2) by (simp add: slot_addr_def frame_addr_def)
    next
      case 2
      then have "g * 4096 + 4096 \<le> f * 4096" by linarith
      then show ?thesis using that assms(2) by (simp add: slot_addr_def frame_addr_def)
    qed
  qed
  then show ?thesis
    unfolding fw_slot [symmetric] by (intro rd64_cong) (auto simp: copy_bytes_def mem_copy_def)
qed

section \<open>Address spaces\<close>

record space =
  sp_pml4 :: nat
  sp_pdpt :: nat
  sp_pd :: nat
  sp_pt0 :: nat
  sp_pt1 :: nat

definition tabs :: "space \<Rightarrow> nat list" where
  "tabs x = [sp_pml4 x, sp_pdpt x, sp_pd x, sp_pt0 x, sp_pt1 x]"

definition cr3_of :: "space \<Rightarrow> nat" where
  "cr3_of x = frame_addr (sp_pml4 x)"

text \<open>Entry \<open>k\<close> of the 1024 user pages of a space.\<close>

definition pt_of :: "space \<Rightarrow> nat \<Rightarrow> nat" where
  "pt_of x k = (if k < ENTRIES then sp_pt0 x else sp_pt1 x)"

definition slot_of :: "space \<Rightarrow> nat \<Rightarrow> nat" where
  "slot_of x k = slot_addr (pt_of x k) (k mod ENTRIES)"

definition upte :: "mmu \<Rightarrow> space \<Rightarrow> nat \<Rightarrow> 64 word" where
  "upte s x k = fw s (pt_of x k) (k mod ENTRIES)"

lemma rd_slot_of [simp]: "rd64 (mm_mem s) (slot_of x k) = upte s x k"
  by (simp add: slot_of_def upte_def fw_slot)

definition chain_ok :: "mmu \<Rightarrow> space \<Rightarrow> bool" where
  "chain_ok s x \<longleftrightarrow>
     distinct (tabs x) \<and> (\<forall>f\<in>set (tabs x). f < POOL_FRAMES) \<and>
     fw s (sp_pml4 x) 0 = frame_entry (sp_pdpt x) \<and> fw s (sp_pdpt x) 0 = frame_entry (sp_pd x) \<and>
     fw s (sp_pd x) 6 = frame_entry (sp_pt0 x) \<and> fw s (sp_pd x) 7 = frame_entry (sp_pt1 x)"

lemma chain_okD:
  assumes "chain_ok s x"
  shows "distinct (tabs x)" "\<And>f. f \<in> set (tabs x) \<Longrightarrow> f < POOL_FRAMES"
    "fw s (sp_pml4 x) 0 = frame_entry (sp_pdpt x)" "fw s (sp_pdpt x) 0 = frame_entry (sp_pd x)"
    "fw s (sp_pd x) 6 = frame_entry (sp_pt0 x)" "fw s (sp_pd x) 7 = frame_entry (sp_pt1 x)"
    "sp_pml4 x < POOL_FRAMES" "sp_pdpt x < POOL_FRAMES" "sp_pd x < POOL_FRAMES" "sp_pt0 x < POOL_FRAMES" "sp_pt1 x < POOL_FRAMES"
  using assms by (auto simp: chain_ok_def tabs_def)

lemma pt_of_tabs: "pt_of x k \<in> {sp_pt0 x, sp_pt1 x}" "pt_of x k \<in> set (tabs x)"
  by (simp_all add: pt_of_def tabs_def)

text \<open>The walk of \<open>user_pte\<close> ends at the slot of the page.\<close>

lemma user_pte_space:
  assumes "chain_ok s x"
  shows "user_pte s (cr3_of x) va =
     (if 3072 \<le> va div PAGE_SIZE \<and> va div PAGE_SIZE < 4096 then Some (slot_of x (va div PAGE_SIZE - 3072)) else None)"
proof -
  note c = chain_okD [OF assms]
  define p where "p = va div 4096"
  have pd: "va div 2097152 = p div 512" by (simp add: p_def div_mult2_eq [symmetric])
  have e: "pte_at s (cr3_of x) 0 = frame_entry (sp_pdpt x)" "pte_at s (frame_addr (sp_pdpt x)) 0 = frame_entry (sp_pd x)"
    "pte_at s (frame_addr (sp_pd x)) 6 = frame_entry (sp_pt0 x)" "pte_at s (frame_addr (sp_pd x)) 7 = frame_entry (sp_pt1 x)"
    using c(3-6) by (simp_all add: fw_def cr3_of_def)
  have flags: "frame_entry f AND 1 \<noteq> 0" "frame_entry f AND 128 = 0" if "f < 4096" for f
    using bit_frame_entry [OF that] by simp_all
  consider "p < 3072" | "3072 \<le> p" "p < 3584" | "3584 \<le> p" "p < 4096" | "4096 \<le> p" by linarith
  then show ?thesis
  proof cases
    case 2
    then have "p div 512 = 6" "p mod 512 = p - 3072" by (simp_all add: div_nat_eqI mod_if le_mod_geq)
    moreover have "p - 3072 < 512" using 2 by linarith
    ultimately show ?thesis using 2 e c flags pd
      by (simp add: user_pte_def Let_def p_def [symmetric] slot_of_def pt_of_def slot_addr_def)
  next
    case 3
    then have "p div 512 = 7" by (simp add: div_nat_eqI)
    moreover have "\<not> p - 3072 < 512" using 3 by linarith
    moreover have "(p - 3072) mod 512 = p mod 512"
    proof -
      have "p mod 512 = (p - 3072 + 6 * 512) mod 512" using 3 by simp
      then show ?thesis by (simp only: mod_mult_self1)
    qed
    ultimately show ?thesis using 3 e c flags pd
      by (simp add: user_pte_def Let_def p_def [symmetric] slot_of_def pt_of_def slot_addr_def)
  next
    case 1
    then have "p div 512 < 6" by (simp add: div_less_iff_less_mult)
    then show ?thesis using 1 pd by (simp add: user_pte_def p_def [symmetric])
  next
    case 4
    then have "8 \<le> p div 512" by (simp add: less_eq_div_iff_mult_less_eq)
    then show ?thesis using 4 pd by (simp add: user_pte_def p_def [symmetric])
  qed
qed

section \<open>The invariant\<close>

lemma entry_addr_aligned: "entry_addr e mod 4096 = 0"
proof -
  have "\<not> bit (take_bit 12 (entry_addr e)) n" for n
    by (auto simp only: entry_addr_def bit_take_bit_iff bit_unsigned_iff bit_and_iff bit_addr_mask)
  then have "take_bit 12 (entry_addr e) = 0" by (simp add: bit_eq_iff)
  then show ?thesis by (simp add: take_bit_eq_mod)
qed

definition frame_of :: "64 word \<Rightarrow> nat option" where
  \<comment> \<open>the frame of the pool that an entry maps\<close>
  "frame_of e = (if bit e 0 then index_of (entry_addr e) else None)"

lemma frame_of_Some: "frame_of e = Some f \<longleftrightarrow> bit e 0 \<and> f < POOL_FRAMES \<and> entry_addr e = frame_addr f"
proof
  assume a: "frame_of e = Some f"
  then have i: "bit e 0" "index_of (entry_addr e) = Some f" by (auto simp: frame_of_def split: if_splits)
  have f: "f < 4096" by (rule index_of_Some_less [OF i(2)])
  have "16777216 \<le> entry_addr e" "(entry_addr e - 16777216) div 4096 = f"
    using i(2) by (auto simp: index_of_def Let_def split: if_splits)
  moreover have "(entry_addr e - 16777216) mod 4096 = 0"
  proof -
    have "4096 dvd entry_addr e" "(4096 :: nat) dvd 16777216" using entry_addr_aligned [of e] by (auto simp: dvd_eq_mod_eq_0)
    then show ?thesis by (metis dvd_diff_nat dvd_eq_mod_eq_0)
  qed
  ultimately have "entry_addr e - 16777216 = f * 4096" by (metis add.right_neutral div_mult_mod_eq)
  with \<open>16777216 \<le> entry_addr e\<close> i(1) f show "bit e 0 \<and> f < POOL_FRAMES \<and> entry_addr e = frame_addr f"
    by (simp add: frame_addr_def)
next
  assume "bit e 0 \<and> f < POOL_FRAMES \<and> entry_addr e = frame_addr f"
  then show "frame_of e = Some f" by (simp add: frame_of_def)
qed

lemma frame_of_frame_entry [simp]: "f < POOL_FRAMES \<Longrightarrow> frame_of (frame_entry f) = Some f"
  by (simp add: frame_of_Some bit_frame_entry)

lemma frame_of_make [simp]: "frame_of (make_cow e) = frame_of e" "frame_of (make_writable e) = frame_of e"
  by (simp_all add: frame_of_def bit_make)

definition table_frames :: "space set \<Rightarrow> nat set" where
  "table_frames C = (\<Union>x\<in>C. set (tabs x))"

definition entry_frame :: "mmu \<Rightarrow> space \<times> nat \<Rightarrow> nat option" where
  "entry_frame s p = frame_of (upte s (fst p) (snd p))"

definition entries :: "space set \<Rightarrow> (space \<times> nat) set" where
  "entries C = C \<times> {..<1024}"

definition refs :: "space set \<Rightarrow> mmu \<Rightarrow> nat \<Rightarrow> nat" where
  "refs C s f = card {p \<in> entries C. entry_frame s p = Some f}"

lemma finite_entries [simp]: "finite C \<Longrightarrow> finite (entries C)"
  by (simp add: entries_def)

definition paging_inv :: "space set \<Rightarrow> (nat \<Rightarrow> nat) \<Rightarrow> mmu \<Rightarrow> bool" where
  "paging_inv C held s \<longleftrightarrow>
     frames_inv (mm_fr s) \<and> finite C \<and> (\<forall>x\<in>C. chain_ok s x) \<and>
     (\<forall>x\<in>C. \<forall>y\<in>C. x \<noteq> y \<longrightarrow> set (tabs x) \<inter> set (tabs y) = {}) \<and>
     (\<forall>f<POOL_FRAMES. frames_count (mm_fr s) f = held f + (if f \<in> table_frames C then 1 else 0) + refs C s f) \<and>
     (\<forall>f\<in>table_frames C. held f = 0 \<and> refs C s f = 0) \<and>
     (\<forall>p\<in>entries C. \<forall>f. entry_frame s p = Some f \<longrightarrow> bit (upte s (fst p) (snd p)) 1 \<longrightarrow> refs C s f = 1)"

lemma paging_invD:
  assumes "paging_inv C held s"
  shows "frames_inv (mm_fr s)" "finite C" "\<And>x. x \<in> C \<Longrightarrow> chain_ok s x"
    "\<And>x y. x \<in> C \<Longrightarrow> y \<in> C \<Longrightarrow> x \<noteq> y \<Longrightarrow> set (tabs x) \<inter> set (tabs y) = {}"
    "\<And>f. f < POOL_FRAMES \<Longrightarrow> frames_count (mm_fr s) f = held f + (if f \<in> table_frames C then 1 else 0) + refs C s f"
    "\<And>f. f \<in> table_frames C \<Longrightarrow> held f = 0" "\<And>f. f \<in> table_frames C \<Longrightarrow> refs C s f = 0"
    "\<And>p f. p \<in> entries C \<Longrightarrow> entry_frame s p = Some f \<Longrightarrow> bit (upte s (fst p) (snd p)) 1 \<Longrightarrow> refs C s f = 1"
  using assms unfolding paging_inv_def by blast+

lemma paging_invI:
  assumes "frames_inv (mm_fr s)" "finite C" "\<And>x. x \<in> C \<Longrightarrow> chain_ok s x"
    "\<And>x y. x \<in> C \<Longrightarrow> y \<in> C \<Longrightarrow> x \<noteq> y \<Longrightarrow> set (tabs x) \<inter> set (tabs y) = {}"
    "\<And>f. f < POOL_FRAMES \<Longrightarrow> frames_count (mm_fr s) f = held f + (if f \<in> table_frames C then 1 else 0) + refs C s f"
    "\<And>f. f \<in> table_frames C \<Longrightarrow> held f = 0" "\<And>f. f \<in> table_frames C \<Longrightarrow> refs C s f = 0"
    "\<And>p f. p \<in> entries C \<Longrightarrow> entry_frame s p = Some f \<Longrightarrow> bit (upte s (fst p) (snd p)) 1 \<Longrightarrow> refs C s f = 1"
  shows "paging_inv C held s"
  unfolding paging_inv_def using assms by blast

lemma table_frames_less: "paging_inv C held s \<Longrightarrow> f \<in> table_frames C \<Longrightarrow> f < POOL_FRAMES"
  using paging_invD(3) chain_okD(2) by (force simp: table_frames_def)

text \<open>The invariant depends on the memory only through the words of the tables.\<close>

lemma upte_cong:
  "(\<And>f k. f \<in> set (tabs x) \<Longrightarrow> k < ENTRIES \<Longrightarrow> fw s' f k = fw s f k) \<Longrightarrow> upte s' x k = upte s x k"
  using pt_of_tabs(2) [of x k] by (simp add: upte_def)

lemma chain_ok_cong:
  assumes "\<And>f k. f \<in> set (tabs x) \<Longrightarrow> k < ENTRIES \<Longrightarrow> fw s' f k = fw s f k"
  shows "chain_ok s' x = chain_ok s x"
  using assms [of "sp_pml4 x" 0] assms [of "sp_pdpt x" 0] assms [of "sp_pd x" 6] assms [of "sp_pd x" 7]
  by (simp add: chain_ok_def tabs_def)

lemma refs_cong: "(\<And>p. p \<in> entries C \<Longrightarrow> entry_frame s' p = entry_frame s p) \<Longrightarrow> refs C s' f = refs C s f"
  unfolding refs_def by (intro arg_cong [where f = card] Collect_cong) auto

lemma paging_inv_cong:
  assumes "paging_inv C held s" "frames_inv (mm_fr s')"
    "\<And>f k. f \<in> table_frames C \<Longrightarrow> k < ENTRIES \<Longrightarrow> fw s' f k = fw s f k"
    "\<And>f. f < POOL_FRAMES \<Longrightarrow> frames_count (mm_fr s') f + held f = frames_count (mm_fr s) f + held' f"
    "\<And>f. f \<in> table_frames C \<Longrightarrow> held' f = 0"
  shows "paging_inv C held' s'"
proof -
  note D = paging_invD [OF assms(1)]
  have tab: "fw s' f k = fw s f k" if "x \<in> C" "f \<in> set (tabs x)" "k < 512" for x f k
    using assms(3) that by (auto simp: table_frames_def)
  have up: "upte s' x k = upte s x k" if "x \<in> C" for x k
    by (rule upte_cong) (rule tab [OF that])
  have ef: "entry_frame s' p = entry_frame s p" if "p \<in> entries C" for p
    using up that by (auto simp: entry_frame_def entries_def)
  have rf: "refs C s' f = refs C s f" for f by (rule refs_cong [OF ef])
  show ?thesis
  proof (rule paging_invI [OF assms(2) D(2)])
    show "chain_ok s' x" if "x \<in> C" for x using chain_ok_cong [OF tab [OF that]] D(3) [OF that] by blast
    show "frames_count (mm_fr s') f = held' f + (if f \<in> table_frames C then 1 else 0) + refs C s' f" if "f < POOL_FRAMES" for f
      using D(5) [OF that] assms(4) [OF that] rf [of f] by simp
    show "refs C s' f = 1" if "p \<in> entries C" "entry_frame s' p = Some f" "bit (upte s' (fst p) (snd p)) 1" for p f
    proof -
      have "fst p \<in> C" using that(1) by (auto simp: entries_def)
      then show ?thesis using D(8) [OF that(1), of f] that up ef rf by simp
    qed
  qed (use D assms(5) rf in auto)
qed

lemma paging_inv_fr:
  assumes "paging_inv C held s" "frames_inv fr" "fr_mem fr = mm_mem s" "frames_count fr = frames_count (mm_fr s)"
  shows "paging_inv C held (s\<lparr>mm_fr := fr\<rparr>)"
  by (rule paging_inv_cong [OF assms(1)])
    (use assms paging_invD(6) [OF assms(1)] in \<open>simp_all add: fw_def pte_at_def\<close>)

text \<open>Frames that no table or entry names can be written.\<close>

lemma paging_inv_copy:
  assumes "paging_inv C held s" "g \<notin> table_frames C"
  shows "paging_inv C held (copy_bytes a (frame_addr g) PAGE_SIZE s)"
  by (rule paging_inv_cong [OF assms(1)])
    (use assms paging_invD(1,6) [OF assms(1)] in \<open>auto intro!: fw_copy_other\<close>)

section \<open>Steps\<close>

lemma frame_range: "frame_addr g \<le> a \<and> a < frame_addr g + 4096 \<longleftrightarrow> (\<exists>o'<4096. a = frame_addr g + o')"
  by (metis le_add1 nat_add_left_cancel_less le_iff_add)

lemma slot_addr_outside:
  assumes "f \<noteq> g" "k < ENTRIES" "slot_addr f k \<le> x" "x < slot_addr f k + 8"
  shows "\<not> (frame_addr g \<le> x \<and> x < frame_addr g + 4096)"
proof -
  consider "f < g" | "g < f" using assms(1) by linarith
  then show ?thesis
  proof cases
    case 1
    then have "f * 4096 + 4096 \<le> g * 4096" by linarith
    then show ?thesis using assms(2-4) by (simp add: slot_addr_def frame_addr_def)
  next
    case 2
    then have "g * 4096 + 4096 \<le> f * 4096" by linarith
    then show ?thesis using assms(2-4) by (simp add: slot_addr_def frame_addr_def)
  qed
qed

lemma mm_alloc_inv:
  assumes "paging_inv C held s" "mm_alloc s = Some (a, s')"
  obtains g where "a = frame_addr g" "g < POOL_FRAMES" "held g = 0" "g \<notin> table_frames C" "refs C s g = 0"
    "paging_inv C (held(g := 1)) s'" "\<And>f k. f \<noteq> g \<Longrightarrow> k < ENTRIES \<Longrightarrow> fw s' f k = fw s f k"
    "\<And>k. k < ENTRIES \<Longrightarrow> fw s' g k = 0"
    "mm_mem s' = (\<lambda>x. if frame_addr g \<le> x \<and> x < frame_addr g + FRAME_SIZE then 0 else mm_mem s x)"
    "s' = s\<lparr>mm_fr := mm_fr s'\<rparr>"
proof -
  note D = paging_invD [OF assms(1)]
  obtain fr where fr: "frames_alloc (mm_fr s) = Some (a, fr)" and s': "s' = s\<lparr>mm_fr := fr\<rparr>"
    using assms(2) by (auto simp: mm_alloc_def split: option.splits)
  obtain g where g: "a = frame_addr g" "g < 4096" "\<not> frames_bit (mm_fr s) g" "frames_inv fr"
    and refs': "\<forall>j. frames_refs fr j = (if j = g then 1 else frames_refs (mm_fr s) j)"
    and mem: "fr_mem fr = (\<lambda>x. if a \<le> x \<and> x < a + FRAME_SIZE then 0 else mm_mem s x)"
    using frames_alloc_Some [OF D(1) fr] by blast
  have c0: "frames_count (mm_fr s) g = 0" using frames_count_pos [OF D(1), of g] g(3) by simp
  with D(5) [OF g(2)] have z: "held g = 0" "g \<notin> table_frames C" "refs C s g = 0" by (auto split: if_splits)
  have cnt: "frames_count fr f = (if f = g then 1 else frames_count (mm_fr s) f)" if "f < 4096" for f
    using refs' that by (simp add: frames_count_def)
  have fw': "fw s' f k = fw s f k" if "f \<noteq> g" "k < 512" for f k
    unfolding fw_slot [symmetric]
    by (rule rd64_cong) (use slot_addr_outside [OF that] mem g(1) s' in auto)
  have fw0: "fw s' g k = 0" if "k < 512" for k
  proof -
    have "fw s' g k = rd64 (\<lambda>_. 0) (slot_addr g k)"
      unfolding fw_slot [symmetric]
      by (rule rd64_cong) (use that mem g(1) s' in \<open>auto simp: slot_addr_def\<close>)
    also have "\<dots> = 0" by (simp add: rd64_def upt_rec)
    finally show ?thesis .
  qed
  have "paging_inv C (held(g := 1)) s'"
    by (rule paging_inv_cong [OF assms(1)])
      (use g s' cnt c0 z fw' D(6) in \<open>fastforce+\<close>)
  then show thesis using that [of g] g z fw' fw0 mem s' by simp
qed

lemma mm_free_inv:
  assumes "paging_inv C held s" "g < POOL_FRAMES" "0 < held g"
  shows "paging_inv C (held(g := held g - 1)) (mm_free (frame_addr g) s)"
    "fw (mm_free (frame_addr g) s) = fw s"
proof -
  note D = paging_invD [OF assms(1)]
  have mem: "mm_mem (mm_free a s) = mm_mem s" for a
    by (simp add: mm_free_def frames_free_def Let_def frames_ops split: option.splits)
  have fw: "fw (mm_free a s) = fw s" for a by (simp add: fun_eq_iff fw_def pte_at_def mem)
  then show "fw (mm_free (frame_addr g) s) = fw s" .
  have pos: "0 < frames_count (mm_fr s) g" using D(5) [OF assms(2)] assms(3) by simp
  note fc = frames_free_count_gen [OF D(1) pos]
  show "paging_inv C (held(g := held g - 1)) (mm_free (frame_addr g) s)"
    by (rule paging_inv_cong [OF assms(1)])
      (use fc fw assms D(6) pos in \<open>auto simp: mm_free_def\<close>)
qed

lemma mm_share_inv:
  assumes "paging_inv C held s" "f < POOL_FRAMES" "f \<notin> table_frames C" "0 < frames_count (mm_fr s) f"
    "frames_share (frame_addr f) (mm_fr s) = (True, fr)"
  shows "paging_inv C (held(f := held f + 1)) (s\<lparr>mm_fr := fr\<rparr>)" "fr_mem fr = mm_mem s"
proof -
  note D = paging_invD [OF assms(1)]
  have "frames_count (mm_fr s) f \<noteq> 255" using frames_share_refused [OF D(1) assms(2)] assms(5) by auto
  moreover have "frames_count (mm_fr s) f \<le> 255"
    using unsigned_less [of "frames_refs (mm_fr s) f", where 'a = nat] by (simp add: frames_count_def)
  ultimately have lt: "frames_count (mm_fr s) f < 255" by simp
  note sc = frames_share_count [OF D(1) assms(4) lt]
  show mem: "fr_mem fr = mm_mem s"
    using assms(5) by (auto simp: frames_share_def Let_def frames_ops split: option.splits if_splits)
  show "paging_inv C (held(f := held f + 1)) (s\<lparr>mm_fr := fr\<rparr>)"
    by (rule paging_inv_cong [OF assms(1)])
      (use sc assms(2,3,5) mem D(6) in \<open>auto simp: fw_def pte_at_def\<close>)
qed

text \<open>A write to an entry: its old frame becomes held, its new frame is no longer.\<close>

lemma slot_of_inj:
  assumes "paging_inv C held s" "x \<in> C" "y \<in> C" "k < 1024" "l < 1024"
    "pt_of x k = pt_of y l" "k mod ENTRIES = l mod ENTRIES"
  shows "x = y \<and> k = l"
proof -
  note D = paging_invD [OF assms(1)]
  have xy: "x = y"
    using D(4) [OF assms(2,3)] pt_of_tabs(2) [of x k] pt_of_tabs(2) [of y l] assms(6) by auto
  have d: "sp_pt0 x \<noteq> sp_pt1 x" using chain_okD(1) [OF D(3) [OF assms(2)]] by (simp add: tabs_def)
  then have "k < 512 \<longleftrightarrow> l < 512" using assms(6) xy by (auto simp: pt_of_def split: if_splits)
  moreover have "j mod 512 = j - 512" if "\<not> j < 512" "j < 1024" for j :: nat using that by (simp add: le_mod_geq)
  ultimately have "k = l" using assms(4,5,7) by (cases "k < 512") auto
  with xy show ?thesis ..
qed

lemma upte_put:
  assumes "paging_inv C held s" "x \<in> C" "y \<in> C" "k < 1024" "l < 1024"
  shows "upte (put_word (slot_of x k) v s) y l = (if y = x \<and> l = k then v else upte s y l)"
  using slot_of_inj [OF assms] by (auto simp: upte_def slot_of_def fw_put_word)

lemma chain_put:
  assumes "paging_inv C held s" "x \<in> C" "y \<in> C"
  shows "chain_ok (put_word (slot_of x k) v s) y"
proof -
  note D = paging_invD [OF assms(1)]
  have y: "chain_ok s y" by (rule D(3) [OF assms(3)])
  have "pt_of x k \<notin> {sp_pml4 y, sp_pdpt y, sp_pd y}"
  proof
    assume a: "pt_of x k \<in> {sp_pml4 y, sp_pdpt y, sp_pd y}"
    then have "pt_of x k \<in> set (tabs y)" by (auto simp: tabs_def)
    then have "x = y" using D(4) [OF assms(2,3)] pt_of_tabs(2) [of x k] by blast
    then show False using a chain_okD(1) [OF y] pt_of_tabs(1) [of x k] by (auto simp: tabs_def)
  qed
  then show ?thesis using y by (simp add: chain_ok_def slot_of_def fw_put_word)
qed

lemma refs_two:
  assumes "finite C" "p \<in> entries C" "q \<in> entries C" "p \<noteq> q" "entry_frame s p = Some f" "entry_frame s q = Some f"
  shows "2 \<le> refs C s f"
proof -
  have "card {p, q} \<le> refs C s f" unfolding refs_def by (rule card_mono) (use assms in auto)
  then show ?thesis using assms(4) by simp
qed

lemma refs_pos: "finite C \<Longrightarrow> p \<in> entries C \<Longrightarrow> entry_frame s p = Some f \<Longrightarrow> 0 < refs C s f"
proof -
  assume a: "finite C" "p \<in> entries C" "entry_frame s p = Some f"
  then have "p \<in> {p \<in> entries C. entry_frame s p = Some f}" by simp
  then show ?thesis unfolding refs_def using a(1) by (intro card_gt_0_iff [THEN iffD2] conjI) (blast, simp)
qed

lemma paging_inv_put:
  assumes inv: "paging_inv C held s" and x: "x \<in> C" and k: "k < 1024"
    and new: "\<And>f. frame_of v = Some f \<Longrightarrow> f \<notin> table_frames C \<and> (0 < held f \<or> frame_of (upte s x k) = Some f)"
    and alone: "\<And>f. frame_of v = Some f \<Longrightarrow> bit v 1 \<Longrightarrow> refs C s f = (if frame_of (upte s x k) = Some f then 1 else 0)"
    and others: "\<And>f p. frame_of v = Some f \<Longrightarrow> frame_of (upte s x k) \<noteq> Some f \<Longrightarrow> p \<in> entries C \<Longrightarrow>
       entry_frame s p = Some f \<Longrightarrow> \<not> bit (upte s (fst p) (snd p)) 1"
  shows "paging_inv C (\<lambda>f. held f + (if frame_of (upte s x k) = Some f then 1 else 0) - (if frame_of v = Some f then 1 else 0))
     (put_word (slot_of x k) v s)"
proof -
  note D = paging_invD [OF inv]
  let ?s = "put_word (slot_of x k) v s" and ?old = "frame_of (upte s x k)"
  have i: "(x, k) \<in> entries C" using x k by (simp add: entries_def)
  have up: "upte ?s (fst p) (snd p) = (if p = (x, k) then v else upte s (fst p) (snd p))" if "p \<in> entries C" for p
    using upte_put [OF inv x _ k, of "fst p" "snd p" v] that by (cases p) (auto simp: entries_def)
  have ef: "entry_frame ?s p = (if p = (x, k) then frame_of v else entry_frame s p)" if "p \<in> entries C" for p
    using up [OF that] by (simp add: entry_frame_def)
  have old: "entry_frame s (x, k) = ?old" by (simp add: entry_frame_def)
  have rf: "refs C ?s f + (if ?old = Some f then 1 else 0) = refs C s f + (if frame_of v = Some f then 1 else 0)" for f
    unfolding refs_def
    using card_filter_update [OF finite_entries [OF D(2)] i, of "\<lambda>p. entry_frame ?s p = Some f" "\<lambda>p. entry_frame s p = Some f"]
      ef [OF i] ef old by simp
  have oldref: "?old = Some f \<Longrightarrow> 0 < refs C s f" for f using refs_pos [OF D(2) i] old by simp
  show ?thesis
  proof (rule paging_invI)
    show "frames_inv (mm_fr ?s)" "finite C" using D by simp_all
    show "chain_ok ?s y" if "y \<in> C" for y by (rule chain_put [OF inv x that])
    show "set (tabs y) \<inter> set (tabs z) = {}" if "y \<in> C" "z \<in> C" "y \<noteq> z" for y z by (rule D(4) [OF that])
    show "frames_count (mm_fr ?s) f = held f + (if ?old = Some f then 1 else 0) - (if frame_of v = Some f then 1 else 0) +
        (if f \<in> table_frames C then 1 else 0) + refs C ?s f" if f: "f < 4096" for f
      using D(5) [OF f] rf [of f] new [of f] by (cases "frame_of v = Some f"; cases "?old = Some f") simp_all
    show "held f + (if ?old = Some f then 1 else 0) - (if frame_of v = Some f then 1 else 0) = 0" if "f \<in> table_frames C" for f
      using D(6,7) [OF that] oldref [of f] by auto
    show "refs C ?s f = 0" if "f \<in> table_frames C" for f
      using D(7) [OF that] rf [of f] new [of f] that oldref [of f] by (auto split: if_splits)
    show "refs C ?s f = 1" if p: "p \<in> entries C" "entry_frame ?s p = Some f" "bit (upte ?s (fst p) (snd p)) 1" for p f
    proof (cases "p = (x, k)")
      case True
      then have v: "frame_of v = Some f" "bit v 1" using p ef [OF i] up [OF i] by simp_all
      then show ?thesis using alone [OF v] rf [of f] by (auto split: if_splits)
    next
      case False
      then have b: "entry_frame s p = Some f" "bit (upte s (fst p) (snd p)) 1" using p ef up by simp_all
      have one: "refs C s f = 1" by (rule D(8) [OF p(1) b])
      have "?old \<noteq> Some f" using refs_two [OF D(2) p(1) i False b(1), unfolded old] one by auto
      moreover have "frame_of v \<noteq> Some f" using others [of f p] calculation p(1) b by blast
      ultimately show ?thesis using rf [of f] one by simp
    qed
  qed
qed

text \<open>A new space enters, and one leaves: its tables and what its entries map become held.\<close>

definition mapped :: "mmu \<Rightarrow> space \<Rightarrow> nat \<Rightarrow> nat" where
  "mapped s x f = card {k \<in> {..<1024}. frame_of (upte s x k) = Some f}"

lemma refs_insert:
  assumes "finite C" "x \<notin> C"
  shows "refs (insert x C) s f = refs C s f + mapped s x f"
proof -
  have "{p \<in> entries (insert x C). entry_frame s p = Some f} =
     {p \<in> entries C. entry_frame s p = Some f} \<union> Pair x ` {k \<in> {..<1024}. frame_of (upte s x k) = Some f}"
    by (auto simp: entries_def entry_frame_def)
  moreover have "{p \<in> entries C. entry_frame s p = Some f} \<inter> Pair x ` {k \<in> {..<1024}. frame_of (upte s x k) = Some f} = {}"
    using assms(2) by (auto simp: entries_def)
  moreover have "card (Pair x ` {k \<in> {..<1024}. frame_of (upte s x k) = Some f}) = mapped s x f"
    unfolding mapped_def by (rule card_image) (simp add: inj_on_def)
  ultimately show ?thesis
    using assms(1) by (simp add: refs_def card_Un_disjoint)
qed

lemma paging_inv_add:
  assumes "paging_inv C held s" "chain_ok s x" "\<And>f. f \<in> set (tabs x) \<Longrightarrow> held f = 1 \<and> f \<notin> table_frames C \<and> refs C s f = 0"
    "\<And>k. k < 1024 \<Longrightarrow> frame_of (upte s x k) = None"
  shows "paging_inv (insert x C) (\<lambda>f. if f \<in> set (tabs x) then 0 else held f) s"
proof -
  note D = paging_invD [OF assms(1)]
  have x: "x \<notin> C"
  proof
    assume "x \<in> C"
    then have "sp_pml4 x \<in> table_frames C" by (auto simp: table_frames_def tabs_def)
    then show False using assms(3) [of "sp_pml4 x"] by (simp add: tabs_def)
  qed
  have mp: "mapped s x f = 0" for f using assms(4) by (simp add: mapped_def)
  have rf: "refs (insert x C) s f = refs C s f" for f using refs_insert [OF D(2) x] mp by simp
  have tf: "table_frames (insert x C) = set (tabs x) \<union> table_frames C" by (simp add: table_frames_def)
  show ?thesis
  proof (rule paging_invI)
    show "set (tabs y) \<inter> set (tabs z) = {}" if "y \<in> insert x C" "z \<in> insert x C" "y \<noteq> z" for y z
    proof -
      have "set (tabs x) \<inter> set (tabs w) = {}" if "w \<in> C" for w
        using assms(3) that by (auto simp: table_frames_def)
      then show ?thesis using that D(4) by blast
    qed
    show "frames_count (mm_fr s) f = (if f \<in> set (tabs x) then 0 else held f) +
        (if f \<in> table_frames (insert x C) then 1 else 0) + refs (insert x C) s f" if "f < 4096" for f
      using D(5) [OF that] assms(3) [of f] by (auto simp: rf tf)
    show "refs (insert x C) s f = 1"
      if "p \<in> entries (insert x C)" "entry_frame s p = Some f" "bit (upte s (fst p) (snd p)) 1" for p f
    proof -
      have "p \<in> entries C" using that(1,2) assms(4) by (auto simp: entries_def entry_frame_def)
      then show ?thesis using D(8) that rf by simp
    qed
  qed (use D assms rf tf in auto)
qed

lemma paging_inv_retire:
  assumes "paging_inv C held s" "x \<in> C"
  shows "paging_inv (C - {x}) (\<lambda>f. held f + (if f \<in> set (tabs x) then 1 else 0) + mapped s x f) s"
proof -
  note D = paging_invD [OF assms(1)]
  let ?C = "C - {x}"
  have C: "C = insert x ?C" using assms(2) by blast
  have rf: "refs C s f = refs ?C s f + mapped s x f" for f
    using refs_insert [of ?C x s f] D(2) C by simp
  have tf: "f \<in> table_frames C \<longleftrightarrow> f \<in> set (tabs x) \<or> f \<in> table_frames ?C" for f
    using assms(2) by (auto simp: table_frames_def)
  have apart: "f \<notin> table_frames ?C" if "f \<in> set (tabs x)" for f
    using D(4) [OF assms(2)] that by (force simp: table_frames_def)
  show ?thesis
  proof (rule paging_invI)
    show "frames_count (mm_fr s) f = held f + (if f \<in> set (tabs x) then 1 else 0) + mapped s x f +
        (if f \<in> table_frames ?C then 1 else 0) + refs ?C s f" if "f < 4096" for f
      using D(5) [OF that] rf [of f] tf [of f] apart [of f] by auto
    show "held f + (if f \<in> set (tabs x) then 1 else 0) + mapped s x f = 0" if "f \<in> table_frames ?C" for f
      using D(6,7) [of f] rf [of f] tf [of f] apart [of f] that by auto
    show "refs ?C s f = 0" if "f \<in> table_frames ?C" for f
      using D(7) [of f] rf [of f] tf [of f] that by auto
    show "refs ?C s f = 1" if "p \<in> entries ?C" "entry_frame s p = Some f" "bit (upte s (fst p) (snd p)) 1" for p f
    proof -
      have "p \<in> entries C" using that(1) by (auto simp: entries_def)
      then have "refs C s f = 1" using D(8) that by blast
      moreover have "0 < refs ?C s f" using refs_pos [OF _ that(1,2)] D(2) by simp
      ultimately show ?thesis using rf [of f] by simp
    qed
  qed (use D in auto)
qed

end
