(* ===== verification/PagingOps.thy ===== *)
theory PagingOps imports PagingInv begin

text \<open>
  The operations of \<open>Paging\<close> on the invariant of \<open>PagingInv\<close>: each keeps it, and says which bytes
  of memory it leaves alone.
\<close>

section \<open>What an operation leaves alone\<close>

definition in_pool :: "nat \<Rightarrow> bool" where
  "in_pool a \<longleftrightarrow> POOL_START \<le> a \<and> a < POOL_START + POOL_FRAMES * FRAME_SIZE"

definition in_frame :: "nat \<Rightarrow> nat \<Rightarrow> bool" where
  "in_frame f a \<longleftrightarrow> frame_addr f \<le> a \<and> a < frame_addr f + FRAME_SIZE"

lemma in_frame_pool: "f < POOL_FRAMES \<Longrightarrow> in_frame f a \<Longrightarrow> in_pool a"
  by (auto simp: in_frame_def in_pool_def frame_addr_def)

lemma in_frame_unique: "in_frame f a \<Longrightarrow> in_frame g a \<Longrightarrow> f = g"
proof (rule ccontr)
  assume a: "in_frame f a" "in_frame g a" "f \<noteq> g"
  then consider "f < g" | "g < f" by linarith
  then show False
  proof cases
    case 1
    then have "f * 4096 + 4096 \<le> g * 4096" by linarith
    then show False using a by (simp add: in_frame_def frame_addr_def)
  next
    case 2
    then have "g * 4096 + 4096 \<le> f * 4096" by linarith
    then show False using a by (simp add: in_frame_def frame_addr_def)
  qed
qed

text \<open>Only bytes of the frames in \<open>W\<close> change; the registers and the kernel's own data do not.\<close>

definition writes :: "nat set \<Rightarrow> mmu \<Rightarrow> mmu \<Rightarrow> bool" where
  "writes W s s' \<longleftrightarrow>
     mm_cr3 s' = mm_cr3 s \<and> mm_kernel s' = mm_kernel s \<and> mm_owner s' = mm_owner s \<and> mm_split s' = mm_split s \<and>
     (\<forall>a. (\<forall>f\<in>W. \<not> in_frame f a) \<longrightarrow> mm_mem s' a = mm_mem s a)"

lemma writesD:
  assumes "writes W s s'"
  shows "mm_cr3 s' = mm_cr3 s" "mm_kernel s' = mm_kernel s" "\<And>a. (\<And>f. f \<in> W \<Longrightarrow> \<not> in_frame f a) \<Longrightarrow> mm_mem s' a = mm_mem s a"
  using assms unfolding writes_def by blast+

lemma writes_refl [simp]: "writes W s s"
  by (simp add: writes_def)

lemma writes_trans: "writes W s s' \<Longrightarrow> writes V s' s'' \<Longrightarrow> writes (W \<union> V) s s''"
  unfolding writes_def by (metis Un_iff)

lemma writes_mono: "writes W s s' \<Longrightarrow> W \<subseteq> V \<Longrightarrow> writes V s s'"
  unfolding writes_def by blast

lemma writes_put: "k < ENTRIES \<Longrightarrow> writes {f} s (put_word (slot_addr f k) v s)"
  by (auto simp: writes_def put_word_def wr64_def in_frame_def slot_addr_def)

lemma writes_copy: "writes {f} s (copy_bytes a (frame_addr f) PAGE_SIZE s)"
  by (auto simp: writes_def copy_bytes_def mem_copy_def in_frame_def)

lemma mm_free_mem [simp]: "mm_mem (mm_free a s) = mm_mem s"
  by (simp add: mm_free_def frames_free_def Let_def frames_ops split: option.splits)

lemma writes_free: "writes {} s (mm_free a s)"
  by (simp add: writes_def) (simp add: mm_free_def)

lemma writes_alloc:
  assumes "mm_mem s' = (\<lambda>x. if frame_addr g \<le> x \<and> x < frame_addr g + FRAME_SIZE then 0 else mm_mem s x)"
    "s' = s\<lparr>mm_fr := mm_fr s'\<rparr>"
  shows "writes {g} s s'"
proof -
  have "mm_cr3 s' = mm_cr3 s" "mm_kernel s' = mm_kernel s" "mm_owner s' = mm_owner s" "mm_split s' = mm_split s"
    by (subst assms(2), simp)+
  then show ?thesis using assms(1) by (auto simp: writes_def in_frame_def)
qed

lemma writes_slot_of: "writes {pt_of x k} s (put_word (slot_of x k) v s)"
  unfolding slot_of_def by (rule writes_put) simp

section \<open>The kernel's tables\<close>

text \<open>
  A page table outside the pool whose pages lie outside the pool as well: what the release of a
  half-built space may find in the entries it copied from the kernel.
\<close>

definition outside :: "nat \<Rightarrow> bool" where
  "outside a \<longleftrightarrow> a mod PAGE_SIZE = 0 \<and> index_of a = None"

definition harmless :: "mmu \<Rightarrow> 64 word \<Rightarrow> bool" where
  "harmless s e \<longleftrightarrow> \<not> bit e 0 \<or> bit e 7 \<or>
     outside (entry_addr e) \<and> (\<forall>i<ENTRIES. frame_of (pte_at s (entry_addr e) i) = None)"

definition kernel_ok :: "mmu \<Rightarrow> bool" where
  "kernel_ok s \<longleftrightarrow>
     mm_kernel s \<noteq> 0 \<and> outside (mm_kernel s) \<and> outside (entry_addr (pte_at s (mm_kernel s) 0)) \<and>
     outside (entry_addr (pte_at s (entry_addr (pte_at s (mm_kernel s) 0)) 0)) \<and>
     (\<forall>k\<in>{USER_PD_FIRST, USER_PD_LAST}. harmless s (pte_at s (entry_addr (pte_at s (entry_addr (pte_at s (mm_kernel s) 0)) 0)) k))"

lemma outside_not_pool:
  assumes "outside a" "a \<le> x" "x < a + PAGE_SIZE"
  shows "\<not> in_pool x"
proof -
  have "a < 16777216 \<or> 16777216 + 4096 * 4096 \<le> a"
  proof (rule ccontr)
    assume "\<not> ?thesis"
    then have "16777216 \<le> a" "a - 16777216 < 4096 * 4096" by linarith+
    then have "index_of a \<noteq> None" by (simp add: index_of_def Let_def div_less_iff_less_mult)
    then show False using assms(1) by (simp add: outside_def)
  qed
  moreover have "a mod 4096 = 0" using assms(1) by (simp add: outside_def)
  then obtain q where "a = 4096 * q" by (auto simp: mod_eq_0_iff_dvd dvd_def)
  ultimately show ?thesis using assms(2,3) by (auto simp: in_pool_def)
qed

lemma pte_at_outside:
  assumes "writes W s s'" "W \<subseteq> {..<POOL_FRAMES}" "outside a" "k < ENTRIES"
  shows "pte_at s' a k = pte_at s a k"
  unfolding pte_at_def
proof (rule rd64_cong)
  fix x assume "a + 8 * k \<le> x" "x < a + 8 * k + 8"
  then have "\<not> in_pool x" using outside_not_pool [OF assms(3)] assms(4) by simp
  then show "mm_mem s' x = mm_mem s x" using writesD(3) [OF assms(1), of x] in_frame_pool assms(2) by blast
qed

lemma harmless_writes:
  assumes "writes W s s'" "W \<subseteq> {..<POOL_FRAMES}" "harmless s e"
  shows "harmless s' e"
  using assms(3) pte_at_outside [OF assms(1,2)] by (auto simp: harmless_def)

lemma kernel_ok_writes:
  assumes "writes W s s'" "W \<subseteq> {..<POOL_FRAMES}" "kernel_ok s"
  shows "kernel_ok s'"
  using assms(3) pte_at_outside [OF assms(1,2)] writesD(2) [OF assms(1)] harmless_writes [OF assms(1,2)]
  by (simp add: kernel_ok_def)

lemma outside_frame: "f < POOL_FRAMES \<Longrightarrow> \<not> outside (frame_addr f)"
  by (simp add: outside_def)

lemma cr3_not_kernel:
  assumes "kernel_ok s" "chain_ok s x"
  shows "cr3_of x \<noteq> 0" "cr3_of x \<noteq> mm_kernel s"
  using assms outside_frame [OF chain_okD(7) [OF assms(2)]]
  by (auto simp: kernel_ok_def cr3_of_def frame_addr_def)

section \<open>Page faults\<close>

lemma upte_writes:
  assumes "writes W s s'" "W \<inter> set (tabs x) = {}"
  shows "upte s' x k = upte s x k"
proof (rule upte_cong)
  fix f j assume f: "f \<in> set (tabs x)" "j < ENTRIES"
  show "fw s' f j = fw s f j"
    unfolding fw_slot [symmetric]
  proof (rule rd64_cong)
    fix a assume a: "slot_addr f j \<le> a" "a < slot_addr f j + 8"
    then have "in_frame f a" using f(2) by (simp add: in_frame_def slot_addr_def)
    then have "\<not> in_frame g a" if "g \<in> W" for g using in_frame_unique [of f a g] f(1) that assms(2) by blast
    then show "mm_mem s' a = mm_mem s a" by (rule writesD(3) [OF assms(1)])
  qed
qed

text \<open>A fresh frame, held by the operation that asked for it.\<close>

definition fresh_frame :: "space set \<Rightarrow> (nat \<Rightarrow> nat) \<Rightarrow> mmu \<Rightarrow> nat \<Rightarrow> mmu \<Rightarrow> bool" where
  "fresh_frame C held s g s' \<longleftrightarrow>
     g < POOL_FRAMES \<and> held g = 0 \<and> g \<notin> table_frames C \<and> refs C s g = 0 \<and> frames_count (mm_fr s) g = 0 \<and>
     paging_inv C (held(g := 1)) s' \<and> writes {g} s s' \<and> (\<forall>k<ENTRIES. fw s' g k = 0) \<and>
     (\<forall>a. in_frame g a \<longrightarrow> mm_mem s' a = 0) \<and> (\<forall>y\<in>C. \<forall>l. upte s' y l = upte s y l) \<and> (\<forall>f. refs C s' f = refs C s f)"

lemma mm_alloc_fresh:
  assumes "paging_inv C held s" "mm_alloc s = Some (a, s')"
  shows "\<exists>g. a = frame_addr g \<and> fresh_frame C held s g s'"
proof (rule mm_alloc_inv [OF assms])
  fix g
  assume g: "a = frame_addr g" "g < POOL_FRAMES" "held g = 0" "g \<notin> table_frames C" "refs C s g = 0"
    and inv: "paging_inv C (held(g := 1)) s'" and fw: "\<And>k. k < ENTRIES \<Longrightarrow> fw s' g k = 0"
    and mem: "mm_mem s' = (\<lambda>x. if frame_addr g \<le> x \<and> x < frame_addr g + FRAME_SIZE then 0 else mm_mem s x)"
    and eq: "s' = s\<lparr>mm_fr := mm_fr s'\<rparr>"
  have w: "writes {g} s s'" by (rule writes_alloc [OF mem eq])
  have up: "upte s' y l = upte s y l" if "y \<in> C" for y l
    by (rule upte_writes [OF w]) (use g(4) that in \<open>auto simp: table_frames_def\<close>)
  have rf: "refs C s' f = refs C s f" for f
    by (rule refs_cong) (use up in \<open>auto simp: entry_frame_def entries_def\<close>)
  have "frames_count (mm_fr s) g = 0" using paging_invD(5) [OF assms(1) g(2)] g(3-5) by simp
  moreover have "mm_mem s' b = 0" if "in_frame g b" for b using mem that by (simp add: in_frame_def)
  ultimately show ?thesis using g inv fw w up rf unfolding fresh_frame_def by blast
qed

lemma fresh_frameD:
  assumes "fresh_frame C held s g s'"
  shows "g < POOL_FRAMES" "held g = 0" "g \<notin> table_frames C" "refs C s g = 0" "frames_count (mm_fr s) g = 0"
    "paging_inv C (held(g := 1)) s'" "writes {g} s s'" "\<And>k. k < ENTRIES \<Longrightarrow> fw s' g k = 0"
    "\<And>a. in_frame g a \<Longrightarrow> mm_mem s' a = 0" "\<And>y l. y \<in> C \<Longrightarrow> upte s' y l = upte s y l" "\<And>f. refs C s' f = refs C s f"
  using assms unfolding fresh_frame_def by blast+

text \<open>A held frame that nothing maps enters an empty entry.\<close>

lemma map_fresh:
  assumes "paging_inv C (held(g := 1)) s" "held g = 0" "g < POOL_FRAMES" "g \<notin> table_frames C" "refs C s g = 0" "x \<in> C" "k < 1024"
  shows "paging_inv C (\<lambda>f. held f + (if frame_of (upte s x k) = Some f then 1 else 0)) (put_word (slot_of x k) (frame_entry g) s)"
proof -
  let ?old = "frame_of (upte s x k)"
  have ne: "?old \<noteq> Some g"
    using refs_pos [OF paging_invD(2) [OF assms(1)], of "(x, k)" s g] assms(5-7) by (auto simp: entries_def entry_frame_def)
  have "paging_inv C (\<lambda>f. (held(g := 1)) f + (if ?old = Some f then 1 else 0) - (if frame_of (frame_entry g) = Some f then 1 else 0))
      (put_word (slot_of x k) (frame_entry g) s)"
  proof (rule paging_inv_put [OF assms(1,6,7)])
    show "refs C s f = (if ?old = Some f then 1 else 0)" if "frame_of (frame_entry g) = Some f" for f
      using that assms(3,5) ne by auto
    show "\<not> bit (upte s (fst p) (snd p)) 1"
      if "frame_of (frame_entry g) = Some f" "p \<in> entries C" "entry_frame s p = Some f" for f p
      using refs_pos [OF paging_invD(2) [OF assms(1)] that(2,3)] that(1) assms(3,5) by simp
  qed (use assms(3,4) in auto)
  moreover have "(\<lambda>f. (held(g := 1)) f + (if ?old = Some f then 1 else 0) - (if frame_of (frame_entry g) = Some f then 1 else 0)) =
      (\<lambda>f. held f + (if ?old = Some f then 1 else 0))"
    using assms(2,3) ne by auto
  ultimately show ?thesis by simp
qed

text \<open>The entry of page \<open>va\<close> in a live space.\<close>

definition user_index :: "nat \<Rightarrow> nat option" where
  "user_index va = (if 3072 \<le> va div PAGE_SIZE \<and> va div PAGE_SIZE < 4096 then Some (va div PAGE_SIZE - 3072) else None)"

lemma user_index_less: "user_index va = Some k \<Longrightarrow> k < 1024"
  by (auto simp: user_index_def split: if_splits)

lemma user_pte_index:
  assumes "chain_ok s x"
  shows "user_pte s (cr3_of x) va = map_option (slot_of x) (user_index va)"
  using user_pte_space [OF assms, of va] by (simp add: user_index_def)

lemma current_space_of:
  assumes "chain_ok s x" "mm_cr3 s = cr3_of x"
  shows "current_space s = cr3_of x"
  using assms chain_okD(7) [OF assms(1)] by (simp add: current_space_def cr3_of_def)

lemma paging_inv_note:
  assumes "paging_inv C held s"
  shows "paging_inv C held (s\<lparr>mm_fr := note_demand_fill (mm_fr s)\<rparr>)" "paging_inv C held (s\<lparr>mm_fr := note_cow_copy (mm_fr s)\<rparr>)"
    "paging_inv C held (s\<lparr>mm_fr := note_cow_reuse (mm_fr s)\<rparr>)"
  using paging_invD(1) [OF assms]
  by (auto intro!: paging_inv_fr [OF assms]
      simp: note_demand_fill_def note_cow_copy_def note_cow_reuse_def frames_inv_def frames_count_def frames_ops fun_eq_iff)

lemma writes_note:
  "writes {} s (s\<lparr>mm_fr := note_demand_fill (mm_fr s)\<rparr>)" "writes {} s (s\<lparr>mm_fr := note_cow_copy (mm_fr s)\<rparr>)"
  "writes {} s (s\<lparr>mm_fr := note_cow_reuse (mm_fr s)\<rparr>)"
  by (simp_all add: writes_def note_demand_fill_def note_cow_copy_def note_cow_reuse_def)

text \<open>
  A demand fault either changes nothing that counts, or maps a fresh zero frame, writable and
  alone.
\<close>

lemma demand_fault_ok:
  assumes "paging_inv C held s" "kernel_ok s" "x \<in> C" "mm_cr3 s = cr3_of x"
  shows "\<exists>r s'. handle_demand_fault va s = (r, s') \<and> paging_inv C held s' \<and>
     (if r then \<exists>k g. user_index va = Some k \<and> \<not> bit (upte s x k) 0 \<and> bit (upte s x k) 11 \<and> g < POOL_FRAMES \<and>
             frames_count (mm_fr s) g = 0 \<and> writes {g, pt_of x k} s s' \<and> upte s' x k = frame_entry g \<and>
             (\<forall>y\<in>C. \<forall>l<1024. (y, l) \<noteq> (x, k) \<longrightarrow> upte s' y l = upte s y l) \<and>
             (\<forall>a. in_frame g a \<longrightarrow> mm_mem s' a = 0)
      else s' = s)"
proof -
  note D = paging_invD [OF assms(1)]
  have x: "chain_ok s x" by (rule D(3) [OF assms(3)])
  note ck = cr3_not_kernel [OF assms(2) x]
  show ?thesis
  proof (cases "\<exists>k a s1. user_index va = Some k \<and> \<not> bit (upte s x k) 0 \<and> bit (upte s x k) 11 \<and> mm_alloc s = Some (a, s1)")
    case False
    then have "handle_demand_fault va s = (False, s)"
      using ck user_pte_index [OF x, of va]
      by (auto simp: handle_demand_fault_def current_space_of [OF x assms(4)] Let_def split: option.splits)
    then show ?thesis using assms(1) by (intro exI [of _ False] exI [of _ s]) simp
  next
    case True
    then obtain k a s1 where k: "user_index va = Some k" "\<not> bit (upte s x k) 0" "bit (upte s x k) 11"
      and al: "mm_alloc s = Some (a, s1)" by blast
    have k1024: "k < 1024" by (rule user_index_less [OF k(1)])
    obtain g where g: "a = frame_addr g" and fr: "fresh_frame C held s g s1" using mm_alloc_fresh [OF assms(1) al] by blast
    note F = fresh_frameD [OF fr]
    have w1: "writes {g} s s1" by (rule F(7))
    have up1: "upte s1 y l = upte s y l" if "y \<in> C" for y l by (rule F(10) [OF that])
    have rf: "refs C s1 g = 0" using F(4,11) by simp
    define s2 where "s2 = put_word (slot_of x k) (frame_entry g) s1"
    have "frame_of (upte s1 x k) = None" using k(2) up1 [OF assms(3)] by (simp add: frame_of_def)
    then have inv2: "paging_inv C held s2"
      using map_fresh [OF F(6,2,1,3) rf assms(3) k1024] by (simp add: s2_def)
    define s' where "s' = s2\<lparr>mm_fr := note_demand_fill (mm_fr s2)\<rparr>"
    have inv': "paging_inv C held s'" unfolding s'_def by (rule paging_inv_note(1) [OF inv2])
    have run: "handle_demand_fault va s = (True, s')"
      using ck user_pte_index [OF x, of va] k al g
      by (simp add: handle_demand_fault_def current_space_of [OF x assms(4)] s'_def s2_def frame_entry_def Let_def)
    have w2: "writes {pt_of x k} s1 s2" unfolding s2_def by (rule writes_slot_of)
    have w3: "writes {} s2 s'" unfolding s'_def by (rule writes_note(1))
    have "writes {g, pt_of x k} s s'"
      by (rule writes_mono [OF writes_trans [OF writes_trans [OF w1 w2] w3]]) auto
    moreover have up': "upte s' y l = (if y = x \<and> l = k then frame_entry g else upte s y l)" if "y \<in> C" "l < 1024" for y l
    proof -
      have "upte s' y l = upte s2 y l" by (rule upte_writes [OF w3]) simp
      then show ?thesis
        using upte_put [OF F(6) assms(3) that(1) k1024 that(2)] up1 [OF that(1)] by (simp add: s2_def)
    qed
    moreover have "mm_mem s' b = 0" if b: "in_frame g b" for b
    proof -
      have "pt_of x k \<noteq> g" using pt_of_tabs(2) [of x k] F(3) assms(3) by (auto simp: table_frames_def)
      then have "\<not> in_frame (pt_of x k) b" using in_frame_unique [OF b] by blast
      then have "mm_mem s2 b = mm_mem s1 b" using writesD(3) [OF w2] by simp
      moreover have "mm_mem s' b = mm_mem s2 b" using writesD(3) [OF w3] by simp
      ultimately show ?thesis using F(9) [OF b] by simp
    qed
    ultimately show ?thesis using run inv' k F(1,5) assms(3) k1024
      by (intro exI [of _ True] exI [of _ s']) auto
  qed
qed

text \<open>The page that an entry maps is out of reach of a write to other frames.\<close>

lemma page_kept:
  assumes "writes W s s'" "W \<subseteq> {..<POOL_FRAMES}" "bit e 0" "\<And>f. frame_of e = Some f \<Longrightarrow> f \<notin> W" "off < PAGE_SIZE"
  shows "mm_mem s' (entry_addr e + off) = mm_mem s (entry_addr e + off)"
proof (cases "frame_of e")
  case None
  then have "outside (entry_addr e)" using assms(3) entry_addr_aligned by (simp add: frame_of_def outside_def)
  then have "\<not> in_pool (entry_addr e + off)" by (rule outside_not_pool) (use assms(5) in simp_all)
  then show ?thesis using writesD(3) [OF assms(1)] in_frame_pool assms(2) by blast
next
  case (Some f)
  then have "in_frame f (entry_addr e + off)" using assms(5) by (simp add: frame_of_Some in_frame_def)
  then have "\<not> in_frame g (entry_addr e + off)" if "g \<in> W" for g
    using in_frame_unique assms(4) [OF Some] that by blast
  then show ?thesis using writesD(3) [OF assms(1)] by blast
qed

lemma copied_page:
  assumes "off < PAGE_SIZE"
  shows "mm_mem (copy_bytes a (frame_addr g) PAGE_SIZE s) (frame_addr g + off) = mm_mem s (a + off)"
  using assms by (simp add: copy_bytes_def mem_copy_def)

lemma cow_fault_ok:
  assumes "paging_inv C held s" "kernel_ok s" "x \<in> C" "mm_cr3 s = cr3_of x"
  shows "\<exists>r s'. handle_cow_fault va s = (r, s') \<and> paging_inv C held s' \<and>
     (if r then \<exists>k W. user_index va = Some k \<and> bit (upte s x k) 0 \<and> bit (upte s x k) 9 \<and>
             (upte s' x k = make_writable (upte s x k) \<or> frame_of (upte s x k) \<noteq> None \<and> (\<exists>g<POOL_FRAMES. upte s' x k = frame_entry g)) \<and>
             W \<subseteq> {..<POOL_FRAMES} \<and>
             (\<forall>f\<in>W. f = pt_of x k \<or> frames_count (mm_fr s) f = 0) \<and> writes W s s' \<and>
             (\<forall>y\<in>C. \<forall>l<1024. (y, l) \<noteq> (x, k) \<longrightarrow> upte s' y l = upte s y l) \<and>
             (\<forall>off<PAGE_SIZE. mm_mem s' (entry_addr (upte s' x k) + off) = mm_mem s (entry_addr (upte s x k) + off))
      else s' = s)"
proof -
  note D = paging_invD [OF assms(1)]
  have x: "chain_ok s x" by (rule D(3) [OF assms(3)])
  note ck = cr3_not_kernel [OF assms(2) x]
  let ?ref = "\<lambda>k. frames_refcount (entry_addr (upte s x k)) (mm_fr s)"
  show ?thesis
  proof (cases "\<exists>k. user_index va = Some k \<and> bit (upte s x k) 0 \<and> bit (upte s x k) 9 \<and> (?ref k \<le> 1 \<or> mm_alloc s \<noteq> None)")
    case False
    then have "handle_cow_fault va s = (False, s)"
      using ck user_pte_index [OF x, of va]
      by (auto simp: handle_cow_fault_def current_space_of [OF x assms(4)] Let_def split: option.splits)
    then show ?thesis using assms(1) by (intro exI [of _ False] exI [of _ s]) simp
  next
    case True
    then obtain k where k: "user_index va = Some k" "bit (upte s x k) 0" "bit (upte s x k) 9"
      and ways: "?ref k \<le> 1 \<or> mm_alloc s \<noteq> None" by blast
    have k1024: "k < 1024" by (rule user_index_less [OF k(1)])
    have i: "(x, k) \<in> entries C" using assms(3) k1024 by (simp add: entries_def)
    have pt: "pt_of x k \<in> table_frames C" using pt_of_tabs(2) [of x k] assms(3) by (auto simp: table_frames_def)
    have ptl: "pt_of x k < 4096" using chain_okD(2) [OF x pt_of_tabs(2)] .
    have nt: "f \<notin> table_frames C" "0 < refs C s f" if "frame_of (upte s x k) = Some f" for f
    proof -
      show "0 < refs C s f" using refs_pos [OF D(2) i] that by (simp add: entry_frame_def)
      then show "f \<notin> table_frames C" using D(7) [of f] by auto
    qed
    show ?thesis
    proof (cases "?ref k \<le> 1")
      case True
      define s2 where "s2 = put_word (slot_of x k) (make_writable (upte s x k)) s"
      have one: "refs C s f = 1" if f: "frame_of (upte s x k) = Some f" for f
      proof -
        have fl: "f < 4096" "entry_addr (upte s x k) = frame_addr f" using f by (simp_all add: frame_of_Some)
        have "(of_nat (frames_count (mm_fr s) f) :: byte) \<le> 1" using True fl frames_refcount_addr [OF fl(1), of "mm_fr s"] by simp
        moreover have "frames_count (mm_fr s) f \<le> 255"
          using unsigned_less [of "frames_refs (mm_fr s) f", where 'a = nat] by (simp add: frames_count_def)
        ultimately have "frames_count (mm_fr s) f \<le> 1" by (simp add: word_le_nat_alt unat_of_nat)
        then show ?thesis using D(5) [OF fl(1)] nt [OF f] by simp
      qed
      have "paging_inv C (\<lambda>f. held f + (if frame_of (upte s x k) = Some f then 1 else 0) -
          (if frame_of (make_writable (upte s x k)) = Some f then 1 else 0)) s2"
        unfolding s2_def
        by (rule paging_inv_put [OF assms(1,3) k1024]) (use nt one in auto)
      then have inv2: "paging_inv C held s2" by simp
      define s' where "s' = s2\<lparr>mm_fr := note_cow_reuse (mm_fr s2)\<rparr>"
      have run: "handle_cow_fault va s = (True, s')"
        using ck user_pte_index [OF x, of va] k True
        by (simp add: handle_cow_fault_def current_space_of [OF x assms(4)] s'_def s2_def Let_def)
      have w2: "writes {pt_of x k} s s2" unfolding s2_def by (rule writes_slot_of)
      have w3: "writes {} s2 s'" unfolding s'_def by (rule writes_note)
      have w: "writes {pt_of x k} s s'" using writes_trans [OF w2 w3] by simp
      have up': "upte s' y l = (if y = x \<and> l = k then make_writable (upte s x k) else upte s y l)" if "y \<in> C" "l < 1024" for y l
        using upte_writes [OF w3, of y l] upte_put [OF assms(1,3) that(1) k1024 that(2)] by (simp add: s2_def)
      have "mm_mem s' (entry_addr (upte s' x k) + off) = mm_mem s (entry_addr (upte s x k) + off)" if "off < 4096" for off
        using page_kept [OF w _ k(2) _ that] ptl pt nt(1) up' [OF assms(3) k1024] by fastforce
      moreover have "upte s' x k = make_writable (upte s x k)" using up' [OF assms(3) k1024] by simp
      ultimately show ?thesis using run paging_inv_note(3) [OF inv2] k w up' ptl
        unfolding s'_def [symmetric]
        by (intro exI [of _ True] exI [of _ s']) (auto intro!: exI [of _ "{pt_of x k}"])
    next
      case False
      then obtain a s1 where al: "mm_alloc s = Some (a, s1)" using ways by auto
      obtain g where g: "a = frame_addr g" and fr: "fresh_frame C held s g s1" using mm_alloc_fresh [OF assms(1) al] by blast
      note F = fresh_frameD [OF fr]
      have "frames_refcount (entry_addr (upte s x k)) (mm_fr s) \<noteq> 0" using False by auto
      then obtain f where f0: "index_of (entry_addr (upte s x k)) = Some f"
        by (auto simp: frames_refcount_def split: option.splits)
      then have f: "frame_of (upte s x k) = Some f" using k(2) by (simp add: frame_of_def)
      then have fa: "f < 4096" "entry_addr (upte s x k) = frame_addr f" by (simp_all add: frame_of_Some)
      define s2 where "s2 = copy_bytes (frame_addr f) (frame_addr g) PAGE_SIZE s1"
      define s3 where "s3 = put_word (slot_of x k) (frame_entry g) s2"
      define s4 where "s4 = mm_free (frame_addr f) s3"
      define s' where "s' = s4\<lparr>mm_fr := note_cow_copy (mm_fr s4)\<rparr>"
      have run: "handle_cow_fault va s = (True, s')"
        using ck user_pte_index [OF x, of va] k False al g fa
        by (simp add: handle_cow_fault_def current_space_of [OF x assms(4)] s'_def s2_def s3_def s4_def Let_def frame_entry_def)
      have inv2: "paging_inv C (held(g := 1)) s2" unfolding s2_def by (rule paging_inv_copy [OF F(6,3)])
      have w1: "writes {g} s s1" by (rule F(7))
      have w2: "writes {g} s1 s2" unfolding s2_def by (rule writes_copy)
      have w3: "writes {pt_of x k} s2 s3" unfolding s3_def by (rule writes_slot_of)
      have w4: "writes {} s3 s4" unfolding s4_def by (rule writes_free)
      have w5: "writes {} s4 s'" unfolding s'_def by (rule writes_note)
      have up2: "upte s2 y l = upte s y l" if "y \<in> C" for y l
        using upte_writes [OF w2, of y l] F(3,10) that by (auto simp: table_frames_def)
      have rf2: "refs C s2 h = refs C s h" for h
        by (rule refs_cong) (use up2 in \<open>auto simp: entry_frame_def entries_def\<close>)
      have "paging_inv C (\<lambda>h. held h + (if frame_of (upte s2 x k) = Some h then 1 else 0)) s3"
        unfolding s3_def by (rule map_fresh [OF inv2 F(2,1,3) _ assms(3) k1024]) (use rf2 F(4) in simp)
      then have inv3: "paging_inv C (held(f := held f + 1)) s3"
        using f up2 [OF assms(3)] by (simp add: fun_upd_def if_distrib [of "(+) _"] eq_commute [of f] cong: if_cong)
      have "paging_inv C ((held(f := held f + 1))(f := (held(f := held f + 1)) f - 1)) s4"
        unfolding s4_def by (rule mm_free_inv(1) [OF inv3 fa(1)]) simp
      then have inv4: "paging_inv C held s4" by simp
      have w: "writes {g, pt_of x k} s s'"
        by (rule writes_mono [OF writes_trans [OF writes_trans [OF writes_trans [OF writes_trans [OF w1 w2] w3] w4] w5]]) auto
      have up': "upte s' y l = (if y = x \<and> l = k then frame_entry g else upte s y l)" if "y \<in> C" "l < 1024" for y l
      proof -
        have "upte s' y l = upte s3 y l" using upte_writes [OF w5, of y l] upte_writes [OF w4, of y l] by simp
        then show ?thesis using upte_put [OF inv2 assms(3) that(1) k1024 that(2)] up2 [OF that(1)] by (simp add: s3_def)
      qed
      have "mm_mem s' (entry_addr (upte s' x k) + off) = mm_mem s (entry_addr (upte s x k) + off)" if off: "off < 4096" for off
      proof -
        have fr': "frame_of (frame_entry g) = Some g" "bit (frame_entry g) 0" using F(1) by (simp_all add: bit_frame_entry)
        have ne: "g \<noteq> pt_of x k" "f \<noteq> g" using F(3,4) pt nt(2) [OF f] by auto
        have "mm_mem s' (frame_addr g + off) = mm_mem s2 (frame_addr g + off)"
          using page_kept [OF writes_trans [OF writes_trans [OF w3 w4] w5] _ fr'(2) _ off] fr' ptl ne F(1) by auto
        also have "\<dots> = mm_mem s1 (frame_addr f + off)" unfolding s2_def by (rule copied_page [OF off])
        also have "\<dots> = mm_mem s (frame_addr f + off)"
          using page_kept [OF w1 _ k(2) _ off] F(1) f ne fa by auto
        finally show ?thesis using up' [OF assms(3) k1024] fa F(1) by simp
      qed
      moreover have "frame_of (upte s x k) \<noteq> None \<and> (\<exists>g<4096. upte s' x k = frame_entry g)"
        using up' [OF assms(3) k1024] F(1) f by auto
      ultimately show ?thesis using run paging_inv_note(2) [OF inv4] k w up' ptl F(1,5)
        unfolding s'_def [symmetric]
        by (intro exI [of _ True] exI [of _ s']) (auto intro!: exI [of _ "{g, pt_of x k}"])
    qed
  qed
qed

end
