(* ===== verification/PagingSpaces.thy ===== *)
theory PagingSpaces imports PagingOps begin

text \<open>
  Creation and destruction of address spaces: each keeps the invariant of \<open>PagingInv\<close>,
  and a failure half way gives every frame back.
\<close>

section \<open>Entries without a frame\<close>

text \<open>A value that maps no frame is written over one that maps none.\<close>

lemma blank_put:
  assumes "paging_inv C held s" "x \<in> C" "k < 1024" "frame_of (upte s x k) = None" "frame_of v = None"
  shows "paging_inv C held (put_word (slot_of x k) v s)"
  using paging_inv_put [OF assms(1-3), of v] assms(4,5) by simp

section \<open>Release\<close>

text \<open>How many entries of a list map a frame, and the counts after a release.\<close>

definition maps_in :: "mmu \<Rightarrow> nat \<Rightarrow> nat list \<Rightarrow> nat \<Rightarrow> nat" where
  "maps_in s pt is f = length (filter (\<lambda>i. frame_of (fw s pt i) = Some f) is)"

lemma mm_free_outside: "index_of a = None \<Longrightarrow> mm_free a s = s"
  by (simp add: mm_free_def frames_free_def)

definition free_entry :: "64 word \<Rightarrow> mmu \<Rightarrow> mmu" where
  "free_entry page s = (if bit page 0 then mm_free (entry_addr page) s else s)"

lemma free_entry_ok:
  assumes "paging_inv C held s" "\<And>f. frame_of e = Some f \<Longrightarrow> 0 < held f"
  shows "paging_inv C (\<lambda>f. held f - (if frame_of e = Some f then 1 else 0)) (free_entry e s)" "writes {} s (free_entry e s)"
    "fw (free_entry e s) = fw s"
proof -
  have "paging_inv C (\<lambda>f. held f - (if frame_of e = Some f then 1 else 0)) (free_entry e s) \<and> fw (free_entry e s) = fw s"
  proof (cases "frame_of e")
    case None
    then have "free_entry e s = s"
      by (auto simp: free_entry_def frame_of_def mm_free_outside split: if_splits)
    then show ?thesis using None assms(1) by simp
  next
    case (Some f)
    then have f: "bit e 0" "f < 4096" "entry_addr e = frame_addr f" by (simp_all add: frame_of_Some)
    have "(\<lambda>g. held g - (if frame_of e = Some g then 1 else 0)) = held(f := held f - 1)" using Some by auto
    then show ?thesis using mm_free_inv [OF assms(1) f(2) assms(2) [OF Some]] f by (simp add: free_entry_def)
  qed
  then show "paging_inv C (\<lambda>f. held f - (if frame_of e = Some f then 1 else 0)) (free_entry e s)" "fw (free_entry e s) = fw s" by auto
  show "writes {} s (free_entry e s)" using writes_free by (simp add: free_entry_def)
qed

lemma free_pages_fold:
  "free_pages (frame_addr pt) s = fold (\<lambda>i s. free_entry (fw s pt i) s) [0..<ENTRIES] s"
  by (simp add: free_pages_def free_entry_def fw_def Let_def)

lemma free_fold_ok:
  assumes "paging_inv C held s" "\<And>f. f < POOL_FRAMES \<Longrightarrow> maps_in s pt is f \<le> held f"
  shows "paging_inv C (\<lambda>f. held f - maps_in s pt is f) (fold (\<lambda>i s. free_entry (fw s pt i) s) is s) \<and>
     writes {} s (fold (\<lambda>i s. free_entry (fw s pt i) s) is s) \<and> fw (fold (\<lambda>i s. free_entry (fw s pt i) s) is s) = fw s"
  using assms
proof (induction "is" arbitrary: s held)
  case Nil
  then show ?case by (simp add: maps_in_def)
next
  case (Cons i "is")
  have pos: "0 < held f" if "frame_of (fw s pt i) = Some f" for f
    using Cons.prems(2) [of f] that by (auto simp: maps_in_def frame_of_Some)
  note E = free_entry_ok [OF Cons.prems(1) pos]
  let ?t = "free_entry (fw s pt i) s" and ?h = "\<lambda>f. held f - (if frame_of (fw s pt i) = Some f then 1 else 0)"
  have "maps_in ?t pt is f \<le> ?h f" if "f < 4096" for f
    using Cons.prems(2) [OF that] E(3) by (auto simp: maps_in_def)
  note IH = Cons.IH [OF E(1) this]
  have "(\<lambda>f. ?h f - maps_in ?t pt is f) = (\<lambda>f. held f - maps_in s pt (i # is) f)"
    using E(3) by (auto simp: maps_in_def)
  then show ?case using IH E(2,3) writes_trans [OF E(2)] by fastforce
qed

lemma free_table_ok:
  assumes "paging_inv C held s" "pt < POOL_FRAMES" "\<And>f. f < POOL_FRAMES \<Longrightarrow> maps_in s pt [0..<ENTRIES] f + (if f = pt then 1 else 0) \<le> held f"
  shows "paging_inv C (\<lambda>f. held f - maps_in s pt [0..<ENTRIES] f - (if f = pt then 1 else 0)) (mm_free (frame_addr pt) (free_pages (frame_addr pt) s)) \<and>
     writes {} s (mm_free (frame_addr pt) (free_pages (frame_addr pt) s)) \<and> fw (mm_free (frame_addr pt) (free_pages (frame_addr pt) s)) = fw s"
proof -
  have "maps_in s pt [0..<ENTRIES] f \<le> held f" if "f < 4096" for f using assms(3) [OF that] by simp
  note F = free_fold_ok [OF assms(1) this, folded free_pages_fold]
  let ?t = "free_pages (frame_addr pt) s" and ?h = "\<lambda>f. held f - maps_in s pt [0..<ENTRIES] f"
  have "0 < ?h pt" using assms(3) [OF assms(2)] by simp
  note M = mm_free_inv [OF conjunct1 [OF F] assms(2) this]
  have "?h(pt := ?h pt - 1) = (\<lambda>f. ?h f - (if f = pt then 1 else 0))" by auto
  then show ?thesis using M F writes_trans [of "{}" s ?t "{}"] writes_free by fastforce
qed

lemma mapped_split:
  "mapped s x f = maps_in s (sp_pt0 x) [0..<ENTRIES] f + maps_in s (sp_pt1 x) [0..<ENTRIES] f"
proof -
  let ?P = "\<lambda>k. frame_of (upte s x k) = Some f"
  have "mapped s x f = length (filter ?P [0..<512 + 512])"
    unfolding mapped_def by (subst distinct_length_filter) (auto intro: arg_cong [where f = card])
  also have "[0..<512 + 512] = [0..<512] @ map (\<lambda>i. i + 512) [0..<512]"
    by (simp only: upt_add_eq_append [OF le0] map_add_upt)
  also have "length (filter ?P ([0..<512] @ map (\<lambda>i. i + 512) [0..<512])) =
      length (filter ?P [0..<512]) + length (filter (\<lambda>k. ?P (k + 512)) [0..<512])"
    by (simp add: filter_map o_def)
  also have "filter ?P [0..<512] = filter (\<lambda>k. frame_of (fw s (sp_pt0 x) k) = Some f) [0..<512]"
    by (rule filter_cong) (simp_all add: upte_def pt_of_def)
  also have "filter (\<lambda>k. ?P (k + 512)) [0..<512] = filter (\<lambda>k. frame_of (fw s (sp_pt1 x) k) = Some f) [0..<512]"
    by (rule filter_cong) (simp_all add: upte_def pt_of_def)
  finally show ?thesis by (simp add: maps_in_def)
qed

section \<open>Destruction\<close>

lemma free_table_entry:
  assumes "fw s c k = frame_entry pt" "pt < POOL_FRAMES"
  shows "free_user_table (frame_addr c) k s = mm_free (frame_addr pt) (free_pages (frame_addr pt) s)"
  using assms bit_frame_entry [OF assms(2)] by (simp add: free_user_table_def fw_def [symmetric] Let_def)

lemma free_table_harmless:
  assumes "harmless s (fw s c k)"
  shows "free_user_table (frame_addr c) k s = s"
proof (cases "bit (fw s c k) 0 \<and> \<not> bit (fw s c k) 7")
  case False
  then show ?thesis by (auto simp: free_user_table_def fw_def [symmetric] Let_def)
next
  case True
  then have h: "outside (entry_addr (fw s c k))" "\<And>i. i < 512 \<Longrightarrow> frame_of (pte_at s (entry_addr (fw s c k)) i) = None"
    using assms by (auto simp: harmless_def)
  have "fold (\<lambda>i s. let page = pte_at s (entry_addr (fw t c k)) i
      in if page AND 1 \<noteq> 0 then mm_free (entry_addr page) s else s) is s = s"
    if "\<And>i. i \<in> set is \<Longrightarrow> frame_of (pte_at s (entry_addr (fw t c k)) i) = None" for "is" t
    using that
  proof (induction "is")
    case (Cons i "is")
    have "frame_of (pte_at s (entry_addr (fw t c k)) i) = None" using Cons.prems by simp
    then have "bit (pte_at s (entry_addr (fw t c k)) i) 0 \<Longrightarrow> mm_free (entry_addr (pte_at s (entry_addr (fw t c k)) i)) s = s"
      by (simp add: frame_of_def mm_free_outside)
    then show ?case using Cons by (simp add: Let_def)
  qed simp
  from this [of "[0..<512]" s] have "free_pages (entry_addr (fw s c k)) s = s" using h(2) by (simp add: free_pages_def)
  then show ?thesis using True h(1) by (simp add: free_user_table_def fw_def [symmetric] Let_def mm_free_outside outside_def)
qed

text \<open>The three frames of a chain leave after the user tables.\<close>

lemma destroy_chain:
  assumes "fw s a 0 = frame_entry b" "fw s b 0 = frame_entry c" "a < POOL_FRAMES" "b < POOL_FRAMES" "c < POOL_FRAMES"
    "frame_addr a \<noteq> mm_kernel s" "distinct [a, b, c]"
    "free_user_table (frame_addr c) 7 (free_user_table (frame_addr c) 6 s) = t"
    "paging_inv C held t" "0 < held a" "0 < held b" "0 < held c" "writes {} s t"
  shows "paging_inv C (\<lambda>f. held f - (if f \<in> {a, b, c} then 1 else 0)) (destroy_user_space (frame_addr a) s)"
    "writes {} s (destroy_user_space (frame_addr a) s)"
proof -
  have nz: "frame_addr a \<noteq> 0" "frame_addr b \<noteq> 0" "frame_addr c \<noteq> 0" by (simp_all add: frame_addr_def)
  have rng: "[6..<7 + 1] = [6, 7 :: nat]" by (simp add: upt_rec)
  have run: "destroy_user_space (frame_addr a) s = mm_free (frame_addr a) (mm_free (frame_addr b) (mm_free (frame_addr c) t))"
    using assms(1-6,8) nz by (simp only: destroy_user_space_def fw_def [symmetric] Let_def rng entry_addr_frame_entry fold.simps comp_def id_apply if_False if_True simp_thms)
  have 1: "paging_inv C (held(c := held c - 1)) (mm_free (frame_addr c) t)"
    by (rule mm_free_inv [OF assms(9,5,12)])
  have 2: "paging_inv C ((held(c := held c - 1))(b := held b - 1)) (mm_free (frame_addr b) (mm_free (frame_addr c) t))"
    using mm_free_inv(1) [OF 1 assms(4)] assms(7,11) by simp
  have 3: "paging_inv C ((held(c := held c - 1))(b := held b - 1, a := held a - 1))
      (mm_free (frame_addr a) (mm_free (frame_addr b) (mm_free (frame_addr c) t)))"
    using mm_free_inv(1) [OF 2 assms(3)] assms(7,10) by simp
  have "(held(c := held c - 1))(b := held b - 1, a := held a - 1) = (\<lambda>f. held f - (if f \<in> {a, b, c} then 1 else 0))"
    by auto
  with 3 run show "paging_inv C (\<lambda>f. held f - (if f \<in> {a, b, c} then 1 else 0)) (destroy_user_space (frame_addr a) s)" by simp
  show "writes {} s (destroy_user_space (frame_addr a) s)"
    unfolding run
    using writes_trans [OF writes_trans [OF writes_trans [OF assms(13) writes_free] writes_free] writes_free] by simp
qed

lemma destroy_ok:
  assumes "paging_inv C held s" "kernel_ok s" "x \<in> C"
  shows "paging_inv (C - {x}) held (destroy_user_space (cr3_of x) s)" "writes {} s (destroy_user_space (cr3_of x) s)"
proof -
  note x = paging_invD(3) [OF assms(1,3)]
  note c = chain_okD [OF x]
  define h0 where "h0 = (\<lambda>f. held f + (if f \<in> set (tabs x) then 1 else 0) + mapped s x f)"
  define h1 where "h1 = (\<lambda>f. h0 f - maps_in s (sp_pt0 x) [0..<ENTRIES] f - (if f = sp_pt0 x then 1 else 0))"
  define h2 where "h2 = (\<lambda>f. h1 f - maps_in s (sp_pt1 x) [0..<ENTRIES] f - (if f = sp_pt1 x then 1 else 0))"
  have d: "distinct [sp_pml4 x, sp_pdpt x, sp_pd x, sp_pt0 x, sp_pt1 x]" using c(1) by (simp add: tabs_def)
  have inv0: "paging_inv (C - {x}) h0 s" unfolding h0_def by (rule paging_inv_retire [OF assms(1,3)])
  let ?s1 = "free_user_table (frame_addr (sp_pd x)) 6 s"
  let ?s2 = "free_user_table (frame_addr (sp_pd x)) 7 ?s1"
  have 1: "paging_inv (C - {x}) h1 ?s1 \<and> writes {} s ?s1 \<and> fw ?s1 = fw s"
    unfolding free_table_entry [OF c(5,10)] h1_def
    by (rule free_table_ok [OF inv0 c(10)]) (auto simp: h0_def mapped_split tabs_def)
  have e7: "fw ?s1 (sp_pd x) 7 = frame_entry (sp_pt1 x)" using 1 c(6) by simp
  have m1: "maps_in ?s1 = maps_in s" using 1 by (auto simp: maps_in_def fun_eq_iff)
  have 2: "paging_inv (C - {x}) h2 ?s2 \<and> writes {} ?s1 ?s2 \<and> fw ?s2 = fw ?s1"
    unfolding free_table_entry [OF e7 c(11)] h2_def m1 [symmetric]
    by (rule free_table_ok [OF conjunct1 [OF 1] c(11)]) (use d in \<open>auto simp: h1_def h0_def mapped_split tabs_def m1\<close>)
  have w: "writes {} s ?s2" using writes_trans [of "{}" s ?s1 "{}" ?s2] 1 2 by simp
  have h2: "h2 f = held f + (if f \<in> {sp_pml4 x, sp_pdpt x, sp_pd x} then 1 else 0)" for f
    using d by (auto simp: h2_def h1_def h0_def mapped_split tabs_def)
  have pos: "0 < h2 (sp_pml4 x)" "0 < h2 (sp_pdpt x)" "0 < h2 (sp_pd x)" by (simp_all add: h2)
  have d3: "distinct [sp_pml4 x, sp_pdpt x, sp_pd x]" using d by simp
  note D = destroy_chain [OF c(3,4,7,8,9) cr3_not_kernel(2) [OF assms(2) x, unfolded cr3_of_def] d3 refl conjunct1 [OF 2] pos w]
  have "(\<lambda>f. h2 f - (if f \<in> {sp_pml4 x, sp_pdpt x, sp_pd x} then 1 else 0)) = held" by (auto simp: h2)
  then show "paging_inv (C - {x}) held (destroy_user_space (cr3_of x) s)" "writes {} s (destroy_user_space (cr3_of x) s)"
    using D by (simp_all add: cr3_of_def)
qed

section \<open>Creation\<close>

definition unused :: "space set \<Rightarrow> (nat \<Rightarrow> nat) \<Rightarrow> mmu \<Rightarrow> nat \<Rightarrow> bool" where
  "unused C held s g \<longleftrightarrow> g < POOL_FRAMES \<and> held g = 0 \<and> g \<notin> table_frames C \<and> refs C s g = 0"

lemma fresh_unused: "fresh_frame C held s g s' \<Longrightarrow> unused C held s g"
  by (simp add: fresh_frame_def unused_def)

lemma unused_count: "paging_inv C held s \<Longrightarrow> unused C held s g \<Longrightarrow> frames_count (mm_fr s) g = 0"
  using paging_invD(5) [of C held s g] by (simp add: unused_def)

text \<open>A frame in no table of \<open>C\<close> can be written.\<close>

lemma put_held:
  assumes "paging_inv C held s" "g \<notin> table_frames C" "k < ENTRIES"
  shows "paging_inv C held (put_word (slot_addr g k) v s)"
  by (rule paging_inv_cong [OF assms(1)])
    (use assms paging_invD(1,6) [OF assms(1)] in \<open>auto simp: fw_put_word\<close>)

lemma fw_writes:
  assumes "writes W s s'" "f \<notin> W" "k < ENTRIES"
  shows "fw s' f k = fw s f k"
  unfolding fw_slot [symmetric]
proof (rule rd64_cong)
  fix a assume a: "slot_addr f k \<le> a" "a < slot_addr f k + 8"
  then have "in_frame f a" using assms(3) by (simp add: in_frame_def slot_addr_def)
  then have "\<not> in_frame g a" if "g \<in> W" for g using in_frame_unique [of f a g] that assms(2) by blast
  then show "mm_mem s' a = mm_mem s a" by (rule writesD(3) [OF assms(1)])
qed

lemma refs_writes:
  assumes "writes W s s'" "W \<inter> table_frames C = {}"
  shows "refs C s' f = refs C s f"
proof (rule refs_cong)
  fix p assume "p \<in> entries C"
  then have "W \<inter> set (tabs (fst p)) = {}" using assms(2) by (force simp: entries_def table_frames_def)
  then show "entry_frame s' p = entry_frame s p" using upte_writes [OF assms(1)] by (simp add: entry_frame_def)
qed

lemma rd64_shift: "(\<And>j. j < 8 \<Longrightarrow> m (a + j) = m' (b + j)) \<Longrightarrow> rd64 m a = rd64 m' b"
  unfolding rd64_def by (intro arg_cong2 [where f = "foldr (OR)"] map_cong refl) simp

lemma fw_copy_table:
  assumes "k < ENTRIES"
  shows "fw (copy_table src (frame_addr g) s) g k = pte_at s src k"
  unfolding fw_slot [symmetric] pte_at_def
  by (rule rd64_shift) (use assms in \<open>simp add: copy_table_def copy_bytes_def mem_copy_def slot_addr_def add.assoc\<close>)

lemma copy_table_frame: "copy_table src (frame_addr g) = copy_bytes src (frame_addr g) PAGE_SIZE"
  by (simp add: copy_table_def fun_eq_iff)

lemma three_fresh:
  assumes "fresh_frame C held s a s1" "fresh_frame C (held(a := 1)) s1 b s2" "fresh_frame C (held(a := 1, b := 1)) s2 c s3"
  shows "distinct [a, b, c]" "unused C held s a" "unused C held s b" "unused C held s c"
    "paging_inv C (held(a := 1, b := 1, c := 1)) s3" "writes {a, b, c} s s3"
proof -
  note A = fresh_frameD [OF assms(1)] and B = fresh_frameD [OF assms(2)] and F = fresh_frameD [OF assms(3)]
  have ba: "b \<noteq> a" using B(2) by auto
  moreover have "c \<noteq> b" using F(2) by auto
  moreover have "c \<noteq> a" using F(2) ba by auto
  ultimately show d: "distinct [a, b, c]" by simp
  show "unused C held s a" "unused C held s b" "unused C held s c"
    using A B F d by (auto simp: unused_def)
  show "paging_inv C (held(a := 1, b := 1, c := 1)) s3" by (rule F(6))
  show "writes {a, b, c} s s3"
    by (rule writes_mono [OF writes_trans [OF writes_trans [OF A(7) B(7)] F(7)]]) auto
qed

text \<open>The chain of a new space, with the kernel's entries below it.\<close>

definition chain_start :: "space set \<Rightarrow> (nat \<Rightarrow> nat) \<Rightarrow> nat \<Rightarrow> nat \<Rightarrow> nat \<Rightarrow> mmu \<Rightarrow> bool" where
  "chain_start C held a b c s \<longleftrightarrow>
     distinct [a, b, c] \<and> {a, b, c} \<subseteq> {..<POOL_FRAMES} \<and> {a, b, c} \<inter> table_frames C = {} \<and> (\<forall>f\<in>{a, b, c}. refs C s f = 0) \<and>
     paging_inv C (held(a := 1, b := 1, c := 1)) s \<and> held a = 0 \<and> held b = 0 \<and> held c = 0 \<and>
     fw s a 0 = frame_entry b \<and> fw s b 0 = frame_entry c \<and> frame_addr a \<noteq> mm_kernel s"

lemma chain_startD:
  assumes "chain_start C held a b c s"
  shows "distinct [a, b, c]" "a < POOL_FRAMES" "b < POOL_FRAMES" "c < POOL_FRAMES" "{a, b, c} \<inter> table_frames C = {}"
    "\<And>f. f \<in> {a, b, c} \<Longrightarrow> refs C s f = 0" "paging_inv C (held(a := 1, b := 1, c := 1)) s"
    "held a = 0" "held b = 0" "held c = 0" "fw s a 0 = frame_entry b" "fw s b 0 = frame_entry c" "frame_addr a \<noteq> mm_kernel s"
  using assms unfolding chain_start_def by auto

text \<open>A failure before the first user table, and one before the second.\<close>

lemma destroy_start:
  assumes "chain_start C held a b c s" "harmless s (fw s c 6)" "harmless s (fw s c 7)"
  shows "paging_inv C held (destroy_user_space (frame_addr a) s)" "writes {} s (destroy_user_space (frame_addr a) s)"
proof -
  note S = chain_startD [OF assms(1)]
  have t: "free_user_table (frame_addr c) 7 (free_user_table (frame_addr c) 6 s) = s"
    using free_table_harmless [OF assms(2)] free_table_harmless [OF assms(3)] by simp
  let ?h = "held(a := 1, b := 1, c := 1)"
  have pos: "0 < ?h a" "0 < ?h b" "0 < ?h c" by simp_all
  note D = destroy_chain [OF S(11,12,2-4,13,1) t S(7) pos writes_refl]
  have "(\<lambda>f. ?h f - (if f \<in> {a, b, c} then 1 else 0)) = held" using S(8-10) by auto
  with D show "paging_inv C held (destroy_user_space (frame_addr a) s)" "writes {} s (destroy_user_space (frame_addr a) s)"
    by (simp_all only:)
qed

lemma maps_in_zero: "(\<And>i. i < ENTRIES \<Longrightarrow> fw s pt i = 0) \<Longrightarrow> maps_in s pt [0..<ENTRIES] f = 0"
  by (simp add: maps_in_def frame_of_def filter_empty_conv)

lemma destroy_half:
  assumes "chain_start C (held(d := 1)) a b c s" "held d = 0" "d < POOL_FRAMES" "d \<notin> {a, b, c}" "fw s c 6 = frame_entry d"
    "\<And>i. i < ENTRIES \<Longrightarrow> fw s d i = 0" "harmless s (fw s c 7)"
  shows "paging_inv C held (destroy_user_space (frame_addr a) s)" "writes {} s (destroy_user_space (frame_addr a) s)"
proof -
  note S = chain_startD [OF assms(1)]
  let ?h0 = "held(d := 1, a := 1, b := 1, c := 1)" and ?s1 = "free_user_table (frame_addr c) 6 s"
  note z = maps_in_zero [OF assms(6)]
  have 1: "paging_inv C (\<lambda>f. ?h0 f - 0 - (if f = d then 1 else 0)) ?s1 \<and> writes {} s ?s1 \<and> fw ?s1 = fw s"
    using free_table_ok [OF S(7) assms(3)] z assms(4) by (simp add: free_table_entry [OF assms(5,3)])
  have eq: "(\<lambda>f. ?h0 f - 0 - (if f = d then 1 else 0)) = held(a := 1, b := 1, c := 1)" using assms(2,4) by auto
  have "harmless ?s1 (fw ?s1 c 7)" using harmless_writes [of "{}" s ?s1, OF _ _ assms(7)] 1 by simp
  then have t: "free_user_table (frame_addr c) 7 ?s1 = ?s1" by (rule free_table_harmless)
  let ?h = "held(a := 1, b := 1, c := 1)"
  have inv: "paging_inv C ?h ?s1" using 1 eq by simp
  have w: "writes {} s ?s1" using 1 by blast
  have pos: "0 < ?h a" "0 < ?h b" "0 < ?h c" by simp_all
  note D = destroy_chain [OF S(11,12,2-4,13,1) t inv pos w]
  have "(\<lambda>f. ?h f - (if f \<in> {a, b, c} then 1 else 0)) = held" using S(8-10) assms(4) by auto
  with D show "paging_inv C held (destroy_user_space (frame_addr a) s)" "writes {} s (destroy_user_space (frame_addr a) s)"
    by (simp_all only:)
qed


text \<open>What a creation does: a space of its own, empty, or the frames as they were.\<close>

definition created :: "space set \<Rightarrow> (nat \<Rightarrow> nat) \<Rightarrow> mmu \<Rightarrow> nat option \<times> mmu \<Rightarrow> bool" where
  "created C held s rs \<longleftrightarrow>
     (case rs of
        (None, s') \<Rightarrow> paging_inv C held s' \<and> (\<exists>W. (\<forall>f\<in>W. unused C held s f) \<and> writes W s s')
      | (Some cr3, s') \<Rightarrow>
          \<exists>x. cr3 = cr3_of x \<and> x \<notin> C \<and> paging_inv (insert x C) held s' \<and> (\<forall>k<1024. upte s' x k = 0) \<and>
            (\<forall>f\<in>set (tabs x). unused C held s f) \<and> writes (set (tabs x)) s s')"

lemma add_user_tables_ok:
  assumes "chain_start C held a b c s" "harmless s (fw s c 6)" "harmless s (fw s c 7)"
  shows "case add_user_tables (frame_addr a) (frame_addr c) [6, 7] s of
      (None, s') \<Rightarrow> paging_inv C held s' \<and> (\<exists>W. (\<forall>f\<in>W. f \<in> {a, b, c} \<or> unused C held s f) \<and> writes W s s')
    | (Some cr3, s') \<Rightarrow>
        \<exists>d e. let x = \<lparr>sp_pml4 = a, sp_pdpt = b, sp_pd = c, sp_pt0 = d, sp_pt1 = e\<rparr> in
          cr3 = cr3_of x \<and> x \<notin> C \<and> paging_inv (insert x C) held s' \<and> (\<forall>k<1024. upte s' x k = 0) \<and>
          unused C held s d \<and> unused C held s e \<and> writes (set (tabs x)) s s'"
proof -
  note S = chain_startD [OF assms(1)]
  let ?h = "held(a := 1, b := 1, c := 1)"
  show ?thesis
  proof (cases "mm_alloc s")
    case None
    then have "add_user_tables (frame_addr a) (frame_addr c) [6, 7] s = (None, destroy_user_space (frame_addr a) s)" by simp
    moreover have "paging_inv C held (destroy_user_space (frame_addr a) s)" "writes {} s (destroy_user_space (frame_addr a) s)"
      by (rule destroy_start [OF assms])+
    ultimately show ?thesis by (auto intro!: exI [of _ "{}"])
  next
    case (Some p)
    obtain d' s1 where p: "p = (d', s1)" by (cases p)
    obtain d where d: "d' = frame_addr d" and fr: "fresh_frame C ?h s d s1"
      using mm_alloc_fresh [OF S(7)] Some p by blast
    note F = fresh_frameD [OF fr]
    have dn: "d \<noteq> a" "d \<noteq> b" "d \<noteq> c" using F(2) S(1) by (auto split: if_splits)
    have hd: "held d = 0" using F(2) dn by simp
    have ud: "unused C held s d" using F hd by (simp add: unused_def)
    define s2 where "s2 = put_word (slot_addr c 6) (frame_entry d) s1"
    have cn: "c \<notin> table_frames C" using S(5) by simp
    have w2: "writes {c} s1 s2" unfolding s2_def by (rule writes_put) simp
    have w02: "writes {d, c} s s2" by (rule writes_mono [OF writes_trans [OF F(7) w2]]) auto
    have Wp: "{d, c} \<subseteq> {..<4096}" using F(1) S(4) by simp
    have inv2: "paging_inv C (held(d := 1, a := 1, b := 1, c := 1)) s2"
      using put_held [OF F(6) cn, of 6 "frame_entry d"] dn by (simp add: s2_def fun_upd_twist)
    have fw2: "fw s2 f k = (if f = c \<and> k = 6 then frame_entry d else fw s1 f k)" if "k < 512" for f k
      using that by (auto simp: s2_def fw_put_word)
    have fw1: "fw s1 f k = fw s f k" if "f \<noteq> d" "k < 512" for f k
      by (rule fw_writes [OF F(7)]) (use that in simp_all)
    have st2: "chain_start C (held(d := 1)) a b c s2"
      unfolding chain_start_def
      using S F(4) dn inv2 fw2 fw1 refs_writes [OF w02] F(3) writesD(2) [OF w02]
      by (simp add: insert_commute)
    have e2: "fw s2 c 6 = frame_entry d" "harmless s2 (fw s2 c 7)" "\<And>i. i < 512 \<Longrightarrow> fw s2 d i = 0"
      using fw2 fw1 dn F(8) harmless_writes [OF w02 Wp assms(3)] by simp_all
    have run1: "add_user_tables (frame_addr a) (frame_addr c) [6, 7] s = add_user_tables (frame_addr a) (frame_addr c) [7] s2"
      using Some p d by (simp add: s2_def put_pte_slot frame_entry_def)
    show ?thesis
    proof (cases "mm_alloc s2")
      case None
      then have run: "add_user_tables (frame_addr a) (frame_addr c) [6, 7] s = (None, destroy_user_space (frame_addr a) s2)"
        using run1 by simp
      have dh: "paging_inv C held (destroy_user_space (frame_addr a) s2)" "writes {} s2 (destroy_user_space (frame_addr a) s2)"
        using destroy_half [OF st2 hd F(1) _ e2(1,3,2)] dn by simp_all
      have "writes ({d, c} \<union> {}) s (destroy_user_space (frame_addr a) s2)" by (rule writes_trans [OF w02 dh(2)])
      then show ?thesis using run dh(1) ud by (auto intro!: exI [of _ "{d, c}"])
    next
      case (Some q)
      obtain e' s3 where q: "q = (e', s3)" by (cases q)
      obtain e where e: "e' = frame_addr e" and fre: "fresh_frame C (held(d := 1, a := 1, b := 1, c := 1)) s2 e s3"
        using mm_alloc_fresh [OF inv2] Some q by blast
      note E = fresh_frameD [OF fre]
      have en: "e \<noteq> a" "e \<noteq> b" "e \<noteq> c" "e \<noteq> d" using E(2) by (auto split: if_splits)
      have he: "held e = 0" using E(2) en by simp
      have ue: "unused C held s e" using E he refs_writes [OF w02] F(3) cn by (simp add: unused_def insert_commute)
      define s4 where "s4 = put_word (slot_addr c 7) (frame_entry e) s3"
      define x where "x = \<lparr>sp_pml4 = a, sp_pdpt = b, sp_pd = c, sp_pt0 = d, sp_pt1 = e\<rparr>"
      have w4: "writes {c} s3 s4" unfolding s4_def by (rule writes_put) simp
      have w24: "writes {e, c} s2 s4" by (rule writes_mono [OF writes_trans [OF E(7) w4]]) auto
      have w: "writes (set (tabs x)) s s4" by (rule writes_mono [OF writes_trans [OF w02 w24]]) (auto simp: x_def tabs_def)
      have inv4: "paging_inv C (held(d := 1, a := 1, b := 1, c := 1, e := 1)) s4"
        using put_held [OF E(6) cn, of 7 "frame_entry e"] by (simp add: s4_def)
      have fw3: "fw s3 f k = fw s2 f k" if "f \<noteq> e" "k < 512" for f k
        by (rule fw_writes [OF E(7)]) (use that in simp_all)
      have fw4: "fw s4 f k = (if f = c \<and> k = 7 then frame_entry e else fw s3 f k)" if "k < 512" for f k
        using that by (auto simp: s4_def fw_put_word)
      have ch: "chain_ok s4 x"
        using S(1-4) F(1) E(1) dn en fw4 fw3 fw2 fw1 S(11,12) by (auto simp: chain_ok_def tabs_def x_def)
      have z: "upte s4 x k = 0" if "k < 1024" for k
      proof -
        have "k mod 512 < 512" by simp
        then show ?thesis using fw4 fw3 dn en E(8) e2(3) by (simp add: upte_def pt_of_def x_def)
      qed
      have rf: "refs C s4 f = refs C s f" for f
        using refs_writes [OF w24, of C f] refs_writes [OF w02, of C f] E(3) F(3) cn by simp
      have "paging_inv (insert x C) (\<lambda>f. if f \<in> set (tabs x) then 0 else (held(d := 1, a := 1, b := 1, c := 1, e := 1)) f) s4"
      proof (rule paging_inv_add [OF inv4 ch])
        show "(held(d := 1, a := 1, b := 1, c := 1, e := 1)) f = 1 \<and> f \<notin> table_frames C \<and> refs C s4 f = 0" if "f \<in> set (tabs x)" for f
          using that rf S(5,6) ud ue by (auto simp: x_def tabs_def unused_def)
        show "frame_of (upte s4 x k) = None" if "k < 1024" for k using z [OF that] by (simp add: frame_of_def)
      qed
      moreover have "(\<lambda>f. if f \<in> set (tabs x) then 0 else (held(d := 1, a := 1, b := 1, c := 1, e := 1)) f) = held"
        using hd he S(8-10) by (auto simp: x_def tabs_def)
      ultimately have inv: "paging_inv (insert x C) held s4" by simp
      have xC: "x \<notin> C" using cn by (auto simp: table_frames_def x_def tabs_def)
      have run: "add_user_tables (frame_addr a) (frame_addr c) [6, 7] s = (Some (cr3_of x), s4)"
        using run1 Some q e by (simp add: s4_def put_pte_slot frame_entry_def cr3_of_def x_def)
      show ?thesis
        using run inv xC z ud ue w unfolding x_def by (auto simp: Let_def)
    qed
  qed
qed

text \<open>The chain of the new space: three frames with the kernel's entries, linked to each other.\<close>

definition link_chain :: "nat \<Rightarrow> nat \<Rightarrow> nat \<Rightarrow> nat \<Rightarrow> nat \<Rightarrow> nat \<Rightarrow> mmu \<Rightarrow> mmu" where
  "link_chain k kp kd a b c s =
     put_word (slot_addr b 0) (frame_entry c) (put_word (slot_addr a 0) (frame_entry b)
       (copy_table kd (frame_addr c) (copy_table kp (frame_addr b) (copy_table k (frame_addr a) s))))"

lemma link_chain_ok:
  assumes "fresh_frame C held s a s1" "fresh_frame C (held(a := 1)) s1 b s2" "fresh_frame C (held(a := 1, b := 1)) s2 c s3"
    "outside (mm_kernel s)" "outside kp" "outside kd" "harmless s (pte_at s kd 6)" "harmless s (pte_at s kd 7)"
    "s5 = link_chain (mm_kernel s) kp kd a b c s3"
  shows "chain_start C held a b c s5" "harmless s5 (fw s5 c 6)" "harmless s5 (fw s5 c 7)" "writes {a, b, c} s s5"
proof -
  let ?k = "mm_kernel s"
  note T = three_fresh [OF assms(1-3)]
  have Tn: "a \<notin> table_frames C" "b \<notin> table_frames C" "c \<notin> table_frames C" "a < 4096" "b < 4096" "c < 4096"
    "held a = 0" "held b = 0" "held c = 0" "a \<noteq> b" "a \<noteq> c" "b \<noteq> c"
    using T(1-4) by (auto simp: unused_def)
  let ?h = "held(a := 1, b := 1, c := 1)"
  have Wp: "{a, b, c} \<subseteq> {..<4096}" using Tn by simp
  have rd3: "pte_at s3 x k = pte_at s x k" if "outside x" "k < 512" for x k by (rule pte_at_outside [OF T(6) Wp that])
  have kn3: "mm_kernel s3 = ?k" by (rule writesD(2) [OF T(6)])
  define s4 where "s4 = copy_table kd (frame_addr c) (copy_table kp (frame_addr b) (copy_table ?k (frame_addr a) s3))"
  have s5: "s5 = put_word (slot_addr b 0) (frame_entry c) (put_word (slot_addr a 0) (frame_entry b) s4)"
    by (simp add: assms(9) s4_def link_chain_def)
  have inv4: "paging_inv C ?h s4" unfolding s4_def copy_table_frame
    by (intro paging_inv_copy T(5) Tn)
  have inv5: "paging_inv C ?h s5" unfolding s5 by (intro put_held inv4 Tn) simp_all
  have w34: "writes {a, b, c} s3 s4"
    unfolding s4_def copy_table_frame
    by (rule writes_mono [OF writes_trans [OF writes_trans [OF writes_copy writes_copy] writes_copy]]) auto
  have w45: "writes {a, b, c} s4 s5"
    unfolding s5 by (rule writes_mono [OF writes_trans [OF writes_put writes_put]]) auto
  have w35: "writes {a, b, c} s3 s5" using writes_trans [OF w34 w45] by simp
  have w: "writes {a, b, c} s s5" using writes_trans [OF T(6) w35] by simp
  have fw5: "fw s5 f k = (if f = b \<and> k = 0 then frame_entry c else if f = a \<and> k = 0 then frame_entry b else fw s4 f k)" if "k < 512" for f k
    using that by (auto simp: s5 fw_put_word)
  have fw4: "fw s4 c k = pte_at s kd k" if "k < 512" for k
  proof -
    have w': "writes {a, b, c} s3 (copy_table kp (frame_addr b) (copy_table ?k (frame_addr a) s3))"
      unfolding copy_table_frame by (rule writes_mono [OF writes_trans [OF writes_copy writes_copy]]) auto
    show ?thesis using fw_copy_table [OF that] pte_at_outside [OF w' Wp assms(6) that] rd3 [OF assms(6) that] by (simp add: s4_def)
  qed
  have hl: "harmless s5 (fw s5 c 6)" "harmless s5 (fw s5 c 7)"
    using fw5 fw4 harmless_writes [OF w Wp assms(7)] harmless_writes [OF w Wp assms(8)] by simp_all
  have "frame_addr a \<noteq> mm_kernel s5"
    using writesD(2) [OF w] assms(4) outside_frame [OF Tn(4)] by auto
  then have st: "chain_start C held a b c s5"
    using T(1) Tn inv5 fw5 refs_writes [OF w] T(2-4) by (simp add: chain_start_def unused_def)
  show "chain_start C held a b c s5" "harmless s5 (fw s5 c 6)" "harmless s5 (fw s5 c 7)" "writes {a, b, c} s s5"
    using st hl w by simp_all
qed

lemma create_ok:
  assumes "paging_inv C held s" "kernel_ok s"
  shows "created C held s (create_user_space s)"
proof -
  let ?k = "mm_kernel s"
  define kp where "kp = entry_addr (pte_at s ?k 0)"
  define kd where "kd = entry_addr (pte_at s kp 0)"
  have K: "?k \<noteq> 0" "outside ?k" "outside kp" "outside kd" "harmless s (pte_at s kd 6)" "harmless s (pte_at s kd 7)"
    using assms(2) by (simp_all add: kernel_ok_def kp_def kd_def)
  show ?thesis
  proof (cases "mm_alloc s")
    case None
    then show ?thesis using K(1) assms(1) by (auto simp: create_user_space_def created_def intro!: exI [of _ "{}"])
  next
    case (Some p)
    obtain a' s1 where p: "p = (a', s1)" by (cases p)
    obtain a where a: "a' = frame_addr a" and fa: "fresh_frame C held s a s1"
      using mm_alloc_fresh [OF assms(1)] Some p by blast
    note A = fresh_frameD [OF fa]
    show ?thesis
    proof (cases "mm_alloc s1")
      case None
      then have run: "create_user_space s = (None, mm_free (frame_addr a) s1)"
        using K(1) Some p a by (simp add: create_user_space_def Let_def)
      have "paging_inv C held (mm_free (frame_addr a) s1)" using mm_free_inv(1) [OF A(6,1)] A(2) by (simp add: fun_upd_idem)
      moreover have "writes {a} s (mm_free (frame_addr a) s1)" using writes_trans [OF A(7) writes_free] by simp
      ultimately show ?thesis using run fresh_unused [OF fa] by (auto simp: created_def intro!: exI [of _ "{a}"])
    next
      case (Some q)
      note Some1 = \<open>mm_alloc s = Some p\<close> and Some2 = Some
      obtain b' s2 where q: "q = (b', s2)" by (cases q)
      obtain b where b: "b' = frame_addr b" and fb: "fresh_frame C (held(a := 1)) s1 b s2"
        using mm_alloc_fresh [OF A(6)] Some2 q by blast
      note B = fresh_frameD [OF fb]
      have ba: "b \<noteq> a" using B(2) by auto
      show ?thesis
      proof (cases "mm_alloc s2")
        case None
        then have run: "create_user_space s = (None, mm_free (frame_addr b) (mm_free (frame_addr a) s2))"
          using K(1) Some1 Some2 p q a b by (simp add: create_user_space_def Let_def)
        have 1: "paging_inv C (held(b := 1)) (mm_free (frame_addr a) s2)"
          using mm_free_inv(1) [OF B(6) A(1)] A(2) ba by (simp add: fun_upd_twist fun_upd_idem)
        have "paging_inv C held (mm_free (frame_addr b) (mm_free (frame_addr a) s2))"
          using mm_free_inv(1) [OF 1 B(1)] B(2) ba by (simp add: fun_upd_idem)
        moreover have "writes {a, b} s (mm_free (frame_addr b) (mm_free (frame_addr a) s2))"
          by (rule writes_mono [OF writes_trans [OF writes_trans [OF writes_trans [OF A(7) B(7)] writes_free] writes_free]]) auto
        moreover have "unused C held s b" using A B ba by (simp add: unused_def)
        ultimately show ?thesis using run fresh_unused [OF fa] by (auto simp: created_def intro!: exI [of _ "{a, b}"])
      next
        case (Some r)
        note Some3 = Some
        obtain c' s3 where r: "r = (c', s3)" by (cases r)
        obtain c where c: "c' = frame_addr c" and fc: "fresh_frame C (held(a := 1, b := 1)) s2 c s3"
          using mm_alloc_fresh [OF B(6)] Some3 r by blast
        note T = three_fresh [OF fa fb fc]
        define s5 where "s5 = link_chain ?k kp kd a b c s3"
        have Wp: "{a, b, c} \<subseteq> {..<4096}" and Tn: "held a = 0" "held b = 0" "held c = 0"
          "a \<notin> table_frames C" "b \<notin> table_frames C" "c \<notin> table_frames C"
          using T(2-4) by (auto simp: unused_def)
        have k3: "entry_addr (pte_at s3 ?k 0) = kp" "entry_addr (pte_at s3 kp 0) = kd" "mm_kernel s3 = ?k"
          using pte_at_outside [OF T(6) Wp K(2), of 0] pte_at_outside [OF T(6) Wp K(3), of 0] writesD(2) [OF T(6)]
          by (simp_all add: kp_def kd_def)
        have run: "create_user_space s = add_user_tables (frame_addr a) (frame_addr c) [6, 7] s5"
          using K(1) Some1 Some2 Some3 p q r a b c
          by (simp add: create_user_space_def Let_def k3 s5_def link_chain_def put_pte_slot frame_entry_def
              upt_rec [of 6] upt_rec [of 7] del: add_user_tables.simps)
        note L = link_chain_ok [OF fa fb fc K(2-6) s5_def]
        note st = L(1) and hl = L(2,3) and w = L(4)
        have uw: "unused C held s f" if "unused C held s5 f" for f
          using that refs_writes [OF w, of C f] Tn by (simp add: unused_def)
        note add = add_user_tables_ok [OF st hl, folded run]
        show ?thesis
        proof (cases "create_user_space s")
          case (Pair ro s')
          show ?thesis
          proof (cases ro)
            case None
            then obtain W where W: "paging_inv C held s'" "\<forall>f\<in>W. f \<in> {a, b, c} \<or> unused C held s5 f" "writes W s5 s'"
              using add Pair by auto
            have "\<forall>f\<in>{a, b, c} \<union> W. unused C held s f" using W(2) T(2-4) uw by auto
            then show ?thesis using W(1) writes_trans [OF w W(3)] None Pair unfolding created_def
              by (simp only: prod.case option.case) blast
          next
            case (Some cr3)
            then obtain d e where R: "let x = \<lparr>sp_pml4 = a, sp_pdpt = b, sp_pd = c, sp_pt0 = d, sp_pt1 = e\<rparr> in
              cr3 = cr3_of x \<and> x \<notin> C \<and> paging_inv (insert x C) held s' \<and> (\<forall>k<1024. upte s' x k = 0) \<and>
              unused C held s5 d \<and> unused C held s5 e \<and> writes (set (tabs x)) s5 s'"
              using add Pair by auto
            define x where "x = \<lparr>sp_pml4 = a, sp_pdpt = b, sp_pd = c, sp_pt0 = d, sp_pt1 = e\<rparr>"
            note R = R [folded x_def, unfolded Let_def]
            have tx: "set (tabs x) = {a, b, c, d, e}" by (auto simp: x_def tabs_def)
            have "writes (set (tabs x)) s s'"
              by (rule writes_mono [OF writes_trans [OF w]]) (use R tx in auto)
            moreover have "\<forall>f\<in>set (tabs x). unused C held s f" unfolding tx using R uw T(2-4) by auto
            ultimately show ?thesis using R Some Pair unfolding created_def by auto
          qed
        qed
      qed
    qed
  qed
qed

end
