(* ===== verification/PagingClone.thy ===== *)
theory PagingClone imports PagingSpaces begin

text \<open>
  What a process sees of its pages (\<open>pv\<close>), and the copy of a space for a fork: the child sees what
  the parent saw, and nothing else changes for anyone.
\<close>

section \<open>What a process sees\<close>

text \<open>
  The four forms an entry can have: nothing, a reservation, a page of the pool that is either
  writable or copy-on-write, and a page of a window, which lies outside the pool.
\<close>

definition entry_ok :: "64 word \<Rightarrow> bool" where
  "entry_ok e \<longleftrightarrow>
     (if bit e 0 then bit e 2 \<and> (bit e 10 \<longleftrightarrow> frame_of e = None) \<and> (bit e 1 \<longleftrightarrow> \<not> bit e 9)
      else e = 0 \<or> e = PTE_DEMAND)"

definition entries_ok :: "space set \<Rightarrow> mmu \<Rightarrow> bool" where
  "entries_ok C s \<longleftrightarrow> (\<forall>x\<in>C. \<forall>k<1024. entry_ok (upte s x k))"

lemma entries_okD: "entries_ok C s \<Longrightarrow> x \<in> C \<Longrightarrow> k < 1024 \<Longrightarrow> entry_ok (upte s x k)"
  by (simp add: entries_ok_def)

lemma bit_demand: "\<not> bit PTE_DEMAND 0" "bit PTE_DEMAND 11"
  by (simp_all only: flag_bits)

lemma entry_ok_zero [simp]: "entry_ok 0"
  by (simp add: entry_ok_def)

lemma entry_ok_demand: "entry_ok PTE_DEMAND"
  using bit_demand(1) by (simp add: entry_ok_def)

lemma entry_ok_frame: "g < POOL_FRAMES \<Longrightarrow> entry_ok (frame_entry g)"
  by (simp add: entry_ok_def bit_frame_entry)

lemma entry_ok_make: "entry_ok e \<Longrightarrow> bit e 0 \<Longrightarrow> entry_ok (make_cow e)" "entry_ok e \<Longrightarrow> bit e 0 \<Longrightarrow> entry_ok (make_writable e)"
  by (simp_all add: entry_ok_def bit_make)

lemma entry_ok_absent:
  assumes "entry_ok e" "\<not> bit e 0"
  shows "bit e 11 \<longleftrightarrow> e = PTE_DEMAND" "\<not> bit e 11 \<longleftrightarrow> e = 0" "\<not> bit e 10"
proof -
  have e: "e = 0 \<or> e = PTE_DEMAND" using assms by (simp add: entry_ok_def)
  have "PTE_DEMAND \<noteq> 0" using bit_demand(2) by (metis bit_0_eq bot_apply bot_bool_def)
  then show "bit e 11 \<longleftrightarrow> e = PTE_DEMAND" "\<not> bit e 11 \<longleftrightarrow> e = 0" using e bit_demand(2) by auto
  have "\<not> bit PTE_DEMAND 10" by (simp only: flag_bits)
  then show "\<not> bit e 10" using e by auto
qed

datatype page = Empty | Reserved | Data "nat \<Rightarrow> byte" | Window nat

definition page_of :: "mmu \<Rightarrow> 64 word \<Rightarrow> page" where
  "page_of s e =
     (if \<not> bit e 0 then if bit e 11 then Reserved else Empty
      else if bit e 10 then Window (entry_addr e)
      else Data (\<lambda>off. if off < PAGE_SIZE then mm_mem s (entry_addr e + off) else 0))"

definition pv :: "mmu \<Rightarrow> space \<Rightarrow> nat \<Rightarrow> page" where
  "pv s x k = page_of s (upte s x k)"

text \<open>What a child gets of a page of its parent.\<close>

fun child_page :: "page \<Rightarrow> page" where
  "child_page (Window a) = Empty"
| "child_page p = p"

lemma pv_Empty: "entry_ok (upte s x k) \<Longrightarrow> pv s x k = Empty \<longleftrightarrow> upte s x k = 0"
  using entry_ok_absent [of "upte s x k"] by (auto simp: pv_def page_of_def)

text \<open>Writes to tables and to frames that nobody uses change no page.\<close>

definition idle :: "space set \<Rightarrow> (nat \<Rightarrow> nat) \<Rightarrow> mmu \<Rightarrow> nat set \<Rightarrow> bool" where
  "idle C held s W \<longleftrightarrow> (\<forall>f\<in>W. f \<in> table_frames C \<or> unused C held s f)"

lemma idle_less: "paging_inv C held s \<Longrightarrow> idle C held s W \<Longrightarrow> W \<subseteq> {..<POOL_FRAMES}"
  using table_frames_less by (auto simp: idle_def unused_def)

lemma mapped_not_idle:
  assumes "paging_inv C held s" "idle C held s W" "x \<in> C" "k < 1024" "frame_of (upte s x k) = Some f"
  shows "f \<notin> W"
proof -
  have "0 < refs C s f"
    by (rule refs_pos [OF paging_invD(2) [OF assms(1)], of "(x, k)"]) (use assms(3-5) in \<open>simp_all add: entries_def entry_frame_def\<close>)
  then show ?thesis using assms(2) paging_invD(7) [OF assms(1), of f] by (auto simp: idle_def unused_def)
qed

lemma page_of_kept:
  assumes "paging_inv C held s" "idle C held s W" "writes W s s'" "x \<in> C" "k < 1024"
    "bit e 0 = bit (upte s x k) 0" "bit e 10 = bit (upte s x k) 10" "bit e 11 = bit (upte s x k) 11"
    "entry_addr e = entry_addr (upte s x k)"
  shows "page_of s' e = pv s x k"
proof -
  have "mm_mem s' (entry_addr (upte s x k) + off) = mm_mem s (entry_addr (upte s x k) + off)"
    if "off < 4096" "bit (upte s x k) 0" for off
    by (rule page_kept [OF assms(3) idle_less [OF assms(1,2)] that(2) mapped_not_idle [OF assms(1,2,4,5)] that(1)])
  then show ?thesis using assms(6-9) by (auto simp: pv_def page_of_def)
qed

lemma pv_kept:
  assumes "paging_inv C held s" "idle C held s W" "writes W s s'" "x \<in> C" "k < 1024" "upte s' x k = upte s x k"
  shows "pv s' x k = pv s x k"
  using page_of_kept [OF assms(1-5), of "upte s x k"] assms(6) by (simp add: pv_def)

lemma bit_make_flags:
  "bit (make_cow e) 0 = bit e 0" "bit (make_cow e) 10 = bit e 10" "bit (make_cow e) 11 = bit e 11"
  "bit (make_writable e) 0 = bit e 0" "bit (make_writable e) 10 = bit e 10" "bit (make_writable e) 11 = bit e 11"
  by (simp_all add: bit_make)

lemma page_of_make:
  "page_of s (make_cow e) = page_of s e" "page_of s (make_writable e) = page_of s e"
  by (simp_all add: page_of_def bit_make_flags cong: if_cong)

section \<open>Fork\<close>

text \<open>One page of the child: every other page of every space is as before.\<close>

definition cloned :: "space set \<Rightarrow> (nat \<Rightarrow> nat) \<Rightarrow> mmu \<Rightarrow> space \<Rightarrow> space \<Rightarrow> nat \<Rightarrow> bool \<times> mmu \<Rightarrow> bool" where
  "cloned C held s x d j rs \<longleftrightarrow>
     (case rs of (r, s') \<Rightarrow>
        paging_inv C held s' \<and> entries_ok C s' \<and> (\<exists>W. idle C held s W \<and> writes W s s') \<and>
        (\<forall>y\<in>C. \<forall>l<1024. (y, l) \<noteq> (d, j) \<longrightarrow> pv s' y l = pv s y l) \<and>
        pv s' d j = (if r then child_page (pv s x j) else Empty))"

lemma clonedI:
  assumes "paging_inv C held s'" "entries_ok C s'" "idle C held s W" "writes W s s'"
    "\<And>y l. y \<in> C \<Longrightarrow> l < 1024 \<Longrightarrow> (y, l) \<noteq> (d, j) \<Longrightarrow> pv s' y l = pv s y l"
    "pv s' d j = (if r then child_page (pv s x j) else Empty)"
  shows "cloned C held s x d j (r, s')"
  using assms by (auto simp: cloned_def)

lemma clone_index:
  assumes "k \<in> {6, 7}" "i < ENTRIES"
  shows "user_index (k * LARGE_PAGE_SIZE + i * PAGE_SIZE) = Some ((k - 6) * 512 + i)"
proof -
  have "(k * LARGE_PAGE_SIZE + i * PAGE_SIZE) div PAGE_SIZE = k * 512 + i"
  proof -
    have "k * LARGE_PAGE_SIZE + i * PAGE_SIZE = (k * 512 + i) * 4096" by simp
    then show ?thesis by (simp only: nonzero_mult_div_cancel_right)
  qed
  then show ?thesis using assms by (auto simp: user_index_def)
qed

lemma entries_ok_put:
  assumes "paging_inv C held s" "entries_ok C s" "x \<in> C" "k < 1024" "entry_ok v"
  shows "entries_ok C (put_word (slot_of x k) v s)"
  using assms(2,5) upte_put [OF assms(1,3) _ assms(4)] by (auto simp: entries_ok_def)

lemma slot_idle: "x \<in> C \<Longrightarrow> idle C held s {pt_of x k}"
  using pt_of_tabs(2) [of x k] by (auto simp: idle_def table_frames_def)

text \<open>A reservation is inherited as it is.\<close>

lemma clone_reserved:
  assumes "paging_inv C held s" "entries_ok C s" "x \<in> C" "d \<in> C" "j < 1024" "upte s d j = 0"
    "\<not> bit (upte s x j) 0" "bit (upte s x j) 11"
  shows "cloned C held s x d j (True, put_word (slot_of d j) (upte s x j) s)"
proof (rule clonedI [where W = "{pt_of d j}"])
  let ?e = "upte s x j" and ?s = "put_word (slot_of d j) (upte s x j) s"
  have ok: "entry_ok ?e" by (rule entries_okD [OF assms(2,3,5)])
  show "paging_inv C held ?s"
    by (rule blank_put [OF assms(1,4,5)]) (use assms(6,7) in \<open>simp_all add: frame_of_def\<close>)
  show "entries_ok C ?s" by (rule entries_ok_put [OF assms(1,2,4,5) ok])
  show i: "idle C held s {pt_of d j}" by (rule slot_idle [OF assms(4)])
  show w: "writes {pt_of d j} s ?s" by (rule writes_slot_of)
  show "pv ?s y l = pv s y l" if "y \<in> C" "l < 1024" "(y, l) \<noteq> (d, j)" for y l
    by (rule pv_kept [OF assms(1) i w that(1,2)]) (use upte_put [OF assms(1,4) that(1) assms(5) that(2)] that(3) in auto)
  show "pv ?s d j = (if True then child_page (pv s x j) else Empty)"
    using upte_put [OF assms(1,4,4,5,5)] assms(7,8) by (simp add: pv_def page_of_def)
qed

text \<open>A page of the pool is shared, copy-on-write in both spaces.\<close>

lemma cow_bits: "\<not> bit (make_cow e) 1"
  by (simp add: bit_make)

lemma clone_shared:
  assumes "paging_inv C held s" "entries_ok C s" "x \<in> C" "d \<in> C" "x \<noteq> d" "j < 1024" "upte s d j = 0"
    "frame_of (upte s x j) = Some f" "frames_share (frame_addr f) (mm_fr s) = (True, fr)"
  shows "cloned C held s x d j (True, put_word (slot_of d j) (make_cow (upte s x j)) (put_word (slot_of x j) (make_cow (upte s x j)) (s\<lparr>mm_fr := fr\<rparr>)))"
proof (rule clonedI [where W = "{pt_of x j, pt_of d j}"])
  let ?e = "upte s x j" and ?v = "make_cow (upte s x j)"
  define s1 where "s1 = s\<lparr>mm_fr := fr\<rparr>"
  define s2 where "s2 = put_word (slot_of x j) ?v s1"
  define s3 where "s3 = put_word (slot_of d j) ?v s2"
  have fold: "put_word (slot_of d j) ?v (put_word (slot_of x j) ?v (s\<lparr>mm_fr := fr\<rparr>)) = s3" by (simp add: s3_def s2_def s1_def)
  have e: "bit ?e 0" "f < 4096" "entry_addr ?e = frame_addr f" using assms(8) by (simp_all add: frame_of_Some)
  have ok: "entry_ok ?e" by (rule entries_okD [OF assms(2,3,6)])
  have pos: "0 < refs C s f"
    by (rule refs_pos [OF paging_invD(2) [OF assms(1)], of "(x, j)"]) (use assms(3,6,8) in \<open>simp_all add: entries_def entry_frame_def\<close>)
  have nt: "f \<notin> table_frames C" using paging_invD(7) [OF assms(1), of f] pos by auto
  have cnt: "0 < frames_count (mm_fr s) f" using paging_invD(5) [OF assms(1) e(2)] pos by simp
  note sh = mm_share_inv [OF assms(1) e(2) nt cnt assms(9), folded s1_def]
  have u1: "upte s1 y l = upte s y l" for y l using sh(2) by (simp add: upte_def fw_def pte_at_def s1_def)
  let ?h = "held(f := held f + 1)"
  have "paging_inv C (\<lambda>g. ?h g + (if frame_of (upte s1 x j) = Some g then 1 else 0) - (if frame_of ?v = Some g then 1 else 0)) s2"
    unfolding s2_def
  proof (rule paging_inv_put [OF sh(1) assms(3,6)])
    show "refs C s1 g = (if frame_of (upte s1 x j) = Some g then 1 else 0)" if "bit ?v 1" for g
      using that cow_bits by blast
  qed (use u1 assms(8) nt in auto)
  moreover have "(\<lambda>g. ?h g + (if frame_of (upte s1 x j) = Some g then 1 else 0) - (if frame_of ?v = Some g then 1 else 0)) = ?h"
    using u1 by auto
  ultimately have inv2: "paging_inv C ?h s2" by simp
  have u2: "upte s2 y l = (if y = x \<and> l = j then ?v else upte s y l)" if "y \<in> C" "l < 1024" for y l
    using upte_put [OF sh(1) assms(3) that(1) assms(6) that(2)] u1 by (simp add: s2_def)
  have d2: "upte s2 d j = 0" using u2 [OF assms(4,6)] assms(5,7) by simp
  have "paging_inv C (\<lambda>g. ?h g + (if frame_of (upte s2 d j) = Some g then 1 else 0) - (if frame_of ?v = Some g then 1 else 0)) s3"
    unfolding s3_def
  proof (rule paging_inv_put [OF inv2 assms(4,6)])
    show "refs C s2 g = (if frame_of (upte s2 d j) = Some g then 1 else 0)" if "bit ?v 1" for g
      using that cow_bits by blast
    show "\<not> bit (upte s2 (fst p) (snd p)) 1"
      if g: "frame_of ?v = Some g" "p \<in> entries C" "entry_frame s2 p = Some g" for g p
    proof
      assume b: "bit (upte s2 (fst p) (snd p)) 1"
      then have one: "refs C s2 g = 1" using paging_invD(8) [OF inv2 g(2,3)] by simp
      have x2: "upte s2 x j = ?v" using u2 [OF assms(3,6)] by simp
      then have "(x, j) \<noteq> p" using b cow_bits by auto
      moreover have "entry_frame s2 (x, j) = Some g" using x2 g(1) by (simp add: entry_frame_def)
      moreover have "(x, j) \<in> entries C" using assms(3,6) by (simp add: entries_def)
      ultimately have "2 \<le> refs C s2 g" using refs_two [OF paging_invD(2) [OF assms(1)]] g(2,3) by blast
      then show False using one by simp
    qed
  qed (use assms(8) nt in auto)
  moreover have "(\<lambda>g. ?h g + (if frame_of (upte s2 d j) = Some g then 1 else 0) - (if frame_of ?v = Some g then 1 else 0)) = held"
    using d2 assms(8) by (auto simp: frame_of_def [of 0])
  ultimately show "paging_inv C held (put_word (slot_of d j) ?v (put_word (slot_of x j) ?v (s\<lparr>mm_fr := fr\<rparr>)))" by (simp add: fold)
  have u3: "upte s3 y l = (if y = d \<and> l = j then ?v else upte s2 y l)" if "y \<in> C" "l < 1024" for y l
    using upte_put [OF inv2 assms(4) that(1) assms(6) that(2)] by (simp add: s3_def)
  show "entries_ok C (put_word (slot_of d j) ?v (put_word (slot_of x j) ?v (s\<lparr>mm_fr := fr\<rparr>)))"
    unfolding fold entries_ok_def using u3 u2 entry_ok_make(1) [OF ok e(1)] assms(2) by (simp add: entries_ok_def)
  show i: "idle C held s {pt_of x j, pt_of d j}"
    using slot_idle [OF assms(3)] slot_idle [OF assms(4)] by (simp add: idle_def)
  have "writes {} s s1" using sh(2) by (simp add: writes_def s1_def)
  then have w: "writes {pt_of x j, pt_of d j} s s3"
    unfolding s3_def s2_def by (intro writes_mono [OF writes_trans [OF writes_trans [OF _ writes_slot_of] writes_slot_of]]) auto
  then show "writes {pt_of x j, pt_of d j} s (put_word (slot_of d j) ?v (put_word (slot_of x j) ?v (s\<lparr>mm_fr := fr\<rparr>)))" by (simp add: fold)
  have pk: "page_of s3 (upte s3 y l) = pv s z l" if "y \<in> C" "z \<in> C" "l < 1024" "upte s3 y l = upte s z l \<or> upte s3 y l = make_cow (upte s z l)" for y z l
    by (rule page_of_kept [OF assms(1) i w that(2,3)]) (use that(4) in \<open>auto simp: bit_make_flags\<close>)
  show "pv (put_word (slot_of d j) ?v (put_word (slot_of x j) ?v (s\<lparr>mm_fr := fr\<rparr>))) y l = pv s y l"
    if "y \<in> C" "l < 1024" "(y, l) \<noteq> (d, j)" for y l
    using pk [OF that(1,1,2)] u3 [OF that(1,2)] u2 [OF that(1,2)] that(3) by (auto simp: fold pv_def)
  have "\<not> bit ?e 10" using ok e(1) assms(8) by (simp add: entry_ok_def)
  then have "child_page (pv s x j) = pv s x j" using e(1) by (simp add: pv_def page_of_def)
  then show "pv (put_word (slot_of d j) ?v (put_word (slot_of x j) ?v (s\<lparr>mm_fr := fr\<rparr>))) d j = (if True then child_page (pv s x j) else Empty)"
    using pk [OF assms(4,3,6)] u3 [OF assms(4,6)] by (simp add: fold pv_def)
qed


text \<open>A page that cannot be shared any more is copied.\<close>

lemma clone_copied:
  assumes "paging_inv C held s" "entries_ok C s" "x \<in> C" "d \<in> C" "x \<noteq> d" "j < 1024" "upte s d j = 0"
    "frame_of (upte s x j) = Some f" "mm_alloc s = Some (a, s1)"
  shows "cloned C held s x d j (True, put_word (slot_of d j) (of_nat a OR table_flags) (copy_bytes (frame_addr f) a PAGE_SIZE s1))"
proof -
  let ?e = "upte s x j"
  obtain g where g: "a = frame_addr g" and fr: "fresh_frame C held s g s1" using mm_alloc_fresh [OF assms(1,9)] by blast
  note F = fresh_frameD [OF fr]
  define s2 where "s2 = copy_bytes (frame_addr f) (frame_addr g) PAGE_SIZE s1"
  define s3 where "s3 = put_word (slot_of d j) (frame_entry g) s2"
  have fold: "put_word (slot_of d j) (of_nat a OR table_flags) (copy_bytes (frame_addr f) a PAGE_SIZE s1) = s3"
    by (simp add: s3_def s2_def g frame_entry_def)
  have e: "bit ?e 0" "f < 4096" "entry_addr ?e = frame_addr f" using assms(8) by (simp_all add: frame_of_Some)
  have ok: "entry_ok ?e" by (rule entries_okD [OF assms(2,3,6)])
  have inv2: "paging_inv C (held(g := 1)) s2" unfolding s2_def by (rule paging_inv_copy [OF F(6,3)])
  have w12: "writes {g} s1 s2" unfolding s2_def by (rule writes_copy)
  have w2: "writes {g} s s2" using writes_trans [OF F(7) w12] by simp
  have u2: "upte s2 y l = upte s y l" if "y \<in> C" for y l
    by (rule upte_writes [OF w2]) (use F(3) that in \<open>auto simp: table_frames_def\<close>)
  have r2: "refs C s2 g = 0" using refs_writes [OF w2, of C g] F(3,4) by simp
  have "paging_inv C (\<lambda>h. held h + (if frame_of (upte s2 d j) = Some h then 1 else 0)) s3"
    unfolding s3_def by (rule map_fresh [OF inv2 F(2,1,3) r2 assms(4,6)])
  then have inv3: "paging_inv C held s3" using u2 [OF assms(4)] assms(7) by (simp add: frame_of_def [of 0])
  have u3: "upte s3 y l = (if y = d \<and> l = j then frame_entry g else upte s y l)" if "y \<in> C" "l < 1024" for y l
    using upte_put [OF inv2 assms(4) that(1) assms(6) that(2)] u2 [OF that(1)] by (simp add: s3_def)
  have w23: "writes {pt_of d j} s2 s3" unfolding s3_def by (rule writes_slot_of)
  have w: "writes {g, pt_of d j} s s3" by (rule writes_mono [OF writes_trans [OF w2 w23]]) auto
  have i: "idle C held s {g, pt_of d j}"
    using slot_idle [OF assms(4)] fresh_unused [OF fr] by (simp add: idle_def)
  have mem: "mm_mem s3 (frame_addr g + off) = mm_mem s (frame_addr f + off)" if off: "off < 4096" for off
  proof -
    have "pt_of d j \<noteq> g" using pt_of_tabs(2) [of d j] F(3) assms(4) by (auto simp: table_frames_def)
    moreover have "in_frame g (frame_addr g + off)" using off by (simp add: in_frame_def)
    ultimately have "\<not> in_frame (pt_of d j) (frame_addr g + off)" using in_frame_unique by blast
    then have "mm_mem s3 (frame_addr g + off) = mm_mem s2 (frame_addr g + off)" using writesD(3) [OF w23] by simp
    also have "\<dots> = mm_mem s1 (frame_addr f + off)" unfolding s2_def by (rule copied_page [OF off])
    also have "\<dots> = mm_mem s (frame_addr f + off)"
    proof (rule writesD(3) [OF F(7)])
      have "f \<noteq> g" using mapped_not_idle [OF assms(1) i assms(3,6,8)] by simp
      moreover have "in_frame f (frame_addr f + off)" using off by (simp add: in_frame_def)
      ultimately show "\<not> in_frame h (frame_addr f + off)" if "h \<in> {g}" for h using in_frame_unique that by blast
    qed
    finally show ?thesis .
  qed
  have nw: "\<not> bit ?e 10" using ok e(1) assms(8) by (simp add: entry_ok_def)
  show ?thesis
    unfolding fold
  proof (rule clonedI [OF inv3 _ i w])
    show "entries_ok C s3" using u3 assms(2) entry_ok_frame [OF F(1)] by (simp add: entries_ok_def)
    show "pv s3 y l = pv s y l" if "y \<in> C" "l < 1024" "(y, l) \<noteq> (d, j)" for y l
      by (rule pv_kept [OF assms(1) i w that(1,2)]) (use u3 [OF that(1,2)] that(3) in auto)
    show "pv s3 d j = (if True then child_page (pv s x j) else Empty)"
      using u3 [OF assms(4,6)] bit_frame_entry [OF F(1)] F(1) e nw mem by (simp add: pv_def page_of_def cong: if_cong)
  qed
qed

lemma clone_page_ok:
  assumes "paging_inv C held s" "entries_ok C s" "x \<in> C" "d \<in> C" "x \<noteq> d" "k \<in> {6, 7}" "i < ENTRIES"
    "upte s d ((k - 6) * 512 + i) = 0"
  shows "cloned C held s x d ((k - 6) * 512 + i) (clone_page (cr3_of d) (frame_addr (pt_of x ((k - 6) * 512 + i))) (k, i) s)"
proof -
  define j where "j = (k - 6) * 512 + i"
  have j: "j < 1024" "j mod 512 = i" using assms(6,7) by (auto simp: j_def)
  let ?e = "upte s x j"
  note D = paging_invD [OF assms(1)]
  have ok: "entry_ok ?e" by (rule entries_okD [OF assms(2,3) j(1)])
  have rd: "pte_at s (frame_addr (pt_of x j)) i = ?e" using j(2) by (simp add: upte_def fw_def)
  have up: "user_pte s (cr3_of d) (k * LARGE_PAGE_SIZE + i * PAGE_SIZE) = Some (slot_of d j)"
    using user_pte_index [OF D(3) [OF assms(4)]] clone_index [OF assms(6,7)] by (simp add: j_def)
  have sl: "put_pte (frame_addr (pt_of x j)) i = put_word (slot_of x j)"
    using j(2) by (simp add: fun_eq_iff put_pte_slot slot_of_def)
  have d0: "upte s d j = 0" using assms(8) by (simp add: j_def)
  have dv: "pv s d j = Empty" using d0 by (simp add: pv_def page_of_def)
  have same: "cloned C held s x d j (r, s)" if "r \<longrightarrow> child_page (pv s x j) = Empty" for r
    by (rule clonedI [OF assms(1,2), where W = "{}"]) (use that dv in \<open>auto simp: idle_def\<close>)
  note run = clone_page_def [of "cr3_of d" "frame_addr (pt_of x j)" "(k, i)" s, unfolded prod.case rd Let_def up option.case sl, simplified]
  have "cloned C held s x d j (clone_page (cr3_of d) (frame_addr (pt_of x j)) (k, i) s)"
  proof -
    consider "bit ?e 10" | "\<not> bit ?e 10" "\<not> bit ?e 0" "\<not> bit ?e 11" | "\<not> bit ?e 10" "\<not> bit ?e 0" "bit ?e 11" | "\<not> bit ?e 10" "bit ?e 0"
      by blast
    then show ?thesis
    proof cases
      case 1
      then have "bit ?e 0" using entry_ok_absent(3) [OF ok] by blast
      then have "pv s x j = Window (entry_addr ?e)" using 1 by (simp add: pv_def page_of_def)
      then show ?thesis using 1 same [of True] by (simp add: run)
    next
      case 2
      then show ?thesis using same [of True] by (simp add: run pv_def page_of_def)
    next
      case 3
      then show ?thesis using clone_reserved [OF assms(1-4) j(1) d0] by (simp add: run)
    next
      case 4
      then obtain f where f: "frame_of ?e = Some f" using ok by (auto simp: entry_ok_def)
      then have fa: "entry_addr ?e = frame_addr f" by (simp add: frame_of_Some)
      obtain r fr where sh: "frames_share (frame_addr f) (mm_fr s) = (r, fr)" by (cases "frames_share (frame_addr f) (mm_fr s)")
      show ?thesis
      proof (cases r)
        case True
        then show ?thesis using clone_shared [OF assms(1-5) j(1) d0 f] sh 4 fa by (simp add: run)
      next
        case False
        then have "fr = mm_fr s" using sh by (auto simp: frames_share_def Let_def split: option.splits if_splits)
        then have s: "s\<lparr>mm_fr := fr\<rparr> = s" by simp
        show ?thesis
        proof (cases "mm_alloc s")
          case None
          then show ?thesis using same [of False] sh False 4 fa s by (simp add: run)
        next
          case (Some p)
          then show ?thesis using clone_copied [OF assms(1-5) j(1) d0 f] sh False 4 fa s by (cases p) (simp add: run)
        qed
      qed
    qed
  qed
  then show ?thesis by (simp add: j_def)
qed

text \<open>The pages of \<open>J\<close> are copied, unless the copy stopped before.\<close>

definition cloned_upto :: "space set \<Rightarrow> (nat \<Rightarrow> nat) \<Rightarrow> mmu \<Rightarrow> space \<Rightarrow> space \<Rightarrow> nat set \<Rightarrow> bool \<times> mmu \<Rightarrow> bool" where
  "cloned_upto C held s x d J rs \<longleftrightarrow>
     (case rs of (r, s') \<Rightarrow>
        paging_inv C held s' \<and> entries_ok C s' \<and> (\<exists>W\<subseteq>{..<POOL_FRAMES}. writes W s s') \<and>
        (\<forall>y\<in>C. \<forall>l<1024. \<not> (y = d \<and> l \<in> J) \<longrightarrow> pv s' y l = pv s y l) \<and>
        (r \<longrightarrow> (\<forall>l\<in>J. pv s' d l = child_page (pv s x l))))"

lemma cloned_uptoD:
  assumes "cloned_upto C held s x d J (r, s')"
  shows "paging_inv C held s'" "entries_ok C s'" "\<exists>W\<subseteq>{..<POOL_FRAMES}. writes W s s'"
    "\<And>y l. y \<in> C \<Longrightarrow> l < 1024 \<Longrightarrow> \<not> (y = d \<and> l \<in> J) \<Longrightarrow> pv s' y l = pv s y l"
    "\<And>l. r \<Longrightarrow> l \<in> J \<Longrightarrow> pv s' d l = child_page (pv s x l)"
  using assms unfolding cloned_upto_def by auto

lemma pool_writes_trans:
  assumes "\<exists>W\<subseteq>{..<POOL_FRAMES}. writes W s t" "\<exists>W\<subseteq>{..<POOL_FRAMES}. writes W t u"
  shows "\<exists>W\<subseteq>{..<POOL_FRAMES}. writes W s u"
proof -
  obtain W V where W: "W \<subseteq> {..<4096}" "writes W s t" and V: "V \<subseteq> {..<4096}" "writes V t u"
    using assms by blast
  show ?thesis by (rule exI [of _ "W \<union> V"]) (use W V writes_trans in auto)
qed

lemma cloned_upto_seq:
  assumes "cloned_upto C held s x d J (True, t)" "cloned_upto C held t x d K (r, u)" "J \<inter> K = {}" "x \<in> C" "d \<in> C" "x \<noteq> d"
    "J \<subseteq> {..<1024}" "K \<subseteq> {..<1024}"
  shows "cloned_upto C held s x d (J \<union> K) (r, u)"
proof -
  note A = cloned_uptoD [OF assms(1)] and B = cloned_uptoD [OF assms(2)]
  have "pv u y l = pv s y l" if "y \<in> C" "l < 1024" "\<not> (y = d \<and> l \<in> J \<union> K)" for y l
    using A(4) [OF that(1,2)] B(4) [OF that(1,2)] that(3) by auto
  moreover have "pv u d l = child_page (pv s x l)" if "r" "l \<in> J \<union> K" for l
  proof (cases "l \<in> J")
    case True
    then have "l < 1024" "l \<notin> K" using assms(3,7) by auto
    then show ?thesis using A(5) [OF TrueI True] B(4) [OF assms(5), of l] by simp
  next
    case False
    then have "l \<in> K" "l < 1024" using that(2) assms(8) by auto
    then show ?thesis using B(5) [OF that(1)] A(4) [OF assms(4)] assms(6) by simp
  qed
  ultimately show ?thesis
    using B(1,2) pool_writes_trans [OF A(3) B(3)] by (simp add: cloned_upto_def)
qed

lemma cloned_upto_refl:
  assumes "paging_inv C held s" "entries_ok C s"
  shows "cloned_upto C held s x d {} (True, s)"
  using assms by (auto simp: cloned_upto_def intro!: exI [of _ "{}"])

lemma cloned_upto_fail:
  assumes "cloned_upto C held s x d J (False, t)" "J \<subseteq> K"
  shows "cloned_upto C held s x d K (False, t)"
  using assms by (auto simp: cloned_upto_def)

lemma cloned_once:
  assumes "cloned C held s x d j rs" "paging_inv C held s"
  shows "cloned_upto C held s x d {j} rs"
proof -
  obtain r s' where rs: "rs = (r, s')" by (cases rs)
  obtain W where A: "paging_inv C held s'" "entries_ok C s'" "idle C held s W" "writes W s s'"
    and k: "\<forall>y\<in>C. \<forall>l<1024. (y, l) \<noteq> (d, j) \<longrightarrow> pv s' y l = pv s y l"
    and n: "pv s' d j = (if r then child_page (pv s x j) else Empty)"
    using assms(1) unfolding cloned_def rs prod.case by (elim exE conjE) (rule that; assumption)
  have "\<exists>W\<subseteq>{..<4096}. writes W s s'" using idle_less [OF assms(2) A(3)] A(4) by blast
  then show ?thesis using A(1,2) k n unfolding cloned_upto_def rs prod.case by simp
qed

lemma clone_pages_ok:
  assumes "paging_inv C held s" "entries_ok C s" "x \<in> C" "d \<in> C" "x \<noteq> d" "k \<in> {6, 7}" "set is \<subseteq> {..<ENTRIES}" "distinct is"
    "\<And>i. i \<in> set is \<Longrightarrow> pv s d ((k - 6) * 512 + i) = Empty"
  shows "cloned_upto C held s x d ((\<lambda>i. (k - 6) * 512 + i) ` set is)
     (clone_pages (cr3_of d) (frame_addr (pt_of x ((k - 6) * 512))) (map (Pair k) is) s)"
  using assms(1,2,7-9)
proof (induction "is" arbitrary: s)
  case Nil
  then show ?case by (simp add: cloned_upto_refl)
next
  case (Cons i "is")
  let ?idx = "\<lambda>i. (k - 6) * 512 + i"
  have i: "i < 512" "?idx i < 1024" using Cons.prems(3) assms(6) by auto
  have pt: "pt_of x (?idx i) = pt_of x (?idx 0)" using i(1) assms(6) by (auto simp: pt_of_def)
  have d0: "upte s d (?idx i) = 0"
    using Cons.prems(5) [of i] pv_Empty [OF entries_okD [OF Cons.prems(2) assms(4) i(2)]] by simp
  note step = clone_page_ok [OF Cons.prems(1,2) assms(3-6) i(1) d0]
  obtain r t where rt: "clone_page (cr3_of d) (frame_addr (pt_of x (?idx 0))) (k, i) s = (r, t)"
    by (cases "clone_page (cr3_of d) (frame_addr (pt_of x (?idx 0))) (k, i) s")
  have one: "cloned_upto C held s x d {?idx i} (r, t)" using cloned_once [OF step Cons.prems(1)] pt rt by simp
  show ?case
  proof (cases r)
    case False
    then show ?thesis using cloned_upto_fail [of C held s x d "{?idx i}" t "?idx ` set (i # is)"] one rt by simp
  next
    case True
    note T = cloned_uptoD [OF one]
    have "pv t d (?idx l) = Empty" if "l \<in> set is" for l
    proof -
      have "l < 512" "l \<noteq> i" using that Cons.prems(3,4) by auto
      then have "?idx l < 1024" "?idx l \<noteq> ?idx i" using assms(6) by auto
      then show ?thesis using T(4) [OF assms(4), of "?idx l"] Cons.prems(5) [of l] that by simp
    qed
    then have IH: "cloned_upto C held t x d (?idx ` set is)
        (clone_pages (cr3_of d) (frame_addr (pt_of x (?idx 0))) (map (Pair k) is) t)"
      using Cons.IH [OF T(1,2)] Cons.prems(3,4) by simp
    obtain r' u where ru: "clone_pages (cr3_of d) (frame_addr (pt_of x (?idx 0))) (map (Pair k) is) t = (r', u)"
      by (cases "clone_pages (cr3_of d) (frame_addr (pt_of x (?idx 0))) (map (Pair k) is) t")
    have "cloned_upto C held s x d ({?idx i} \<union> ?idx ` set is) (r', u)"
      by (rule cloned_upto_seq [OF one [unfolded True [THEN eq_True [THEN iffD2]]] IH [unfolded ru] _ assms(3-5)])
        (use Cons.prems(3,4) assms(6) in auto)
    then show ?thesis using rt ru True by simp
  qed
qed

lemma clone_tables_ok:
  assumes "paging_inv C held s" "entries_ok C s" "x \<in> C" "d \<in> C" "x \<noteq> d" "\<And>l. l < 1024 \<Longrightarrow> pv s d l = Empty"
  shows "cloned_upto C held s x d {..<1024} (clone_tables (cr3_of d) (frame_addr (sp_pd x)) [6, 7] s)"
proof -
  have idx: "(\<lambda>i. (6 - 6) * 512 + i) ` set [0..<512] = {..<512}" "(\<lambda>i. (7 - 6) * 512 + i) ` set [0..<512] = {512..<1024 :: nat}"
    using image_add_atLeastLessThan [of 512 0 "512 :: nat"] by (simp_all add: atLeast0LessThan)
  have e: "pte_at t (frame_addr (sp_pd x)) 6 = frame_entry (sp_pt0 x)" "pte_at t (frame_addr (sp_pd x)) 7 = frame_entry (sp_pt1 x)"
    "sp_pt0 x < 4096" "sp_pt1 x < 4096" if "paging_inv C held t" for t
    using chain_okD [OF paging_invD(3) [OF that assms(3)]] by (simp_all add: fw_def)
  obtain r t where rt: "clone_pages (cr3_of d) (frame_addr (sp_pt0 x)) (map (Pair 6) [0..<512]) s = (r, t)"
    by (cases "clone_pages (cr3_of d) (frame_addr (sp_pt0 x)) (map (Pair 6) [0..<512]) s")
  have "cloned_upto C held s x d ((\<lambda>i. (6 - 6) * 512 + i) ` set [0..<512])
      (clone_pages (cr3_of d) (frame_addr (pt_of x ((6 - 6) * 512))) (map (Pair 6) [0..<512]) s)"
    by (rule clone_pages_ok [OF assms(1-5)]) (use assms(6) in auto)
  then have 1: "cloned_upto C held s x d {..<512} (r, t)"
    unfolding idx using rt by (simp add: pt_of_def)
  note E = e [OF assms(1)]
  have b: "bit (frame_entry f) 0" "\<not> bit (frame_entry f) 7" if "f < 4096" for f using that by (simp_all add: bit_frame_entry)
  have run1: "clone_tables (cr3_of d) (frame_addr (sp_pd x)) [6, 7] s =
      (if r then clone_tables (cr3_of d) (frame_addr (sp_pd x)) [7] t else (False, t))"
    using E rt b by (simp add: Let_def)
  show ?thesis
  proof (cases r)
    case False
    then show ?thesis using cloned_upto_fail [of C held s x d "{..<512}" t "{..<1024}"] 1 run1 by simp
  next
    case True
    note T = cloned_uptoD [OF 1]
    obtain r' u where ru: "clone_pages (cr3_of d) (frame_addr (sp_pt1 x)) (map (Pair 7) [0..<512]) t = (r', u)"
      by (cases "clone_pages (cr3_of d) (frame_addr (sp_pt1 x)) (map (Pair 7) [0..<512]) t")
    have "cloned_upto C held t x d ((\<lambda>i. (7 - 6) * 512 + i) ` set [0..<512])
        (clone_pages (cr3_of d) (frame_addr (pt_of x ((7 - 6) * 512))) (map (Pair 7) [0..<512]) t)"
      by (rule clone_pages_ok [OF T(1,2) assms(3-5)]) (use assms(4,6) T(4) in auto)
    then have 2: "cloned_upto C held t x d {512..<1024} (r', u)"
      unfolding idx using ru by (simp add: pt_of_def)
    note E' = e [OF T(1)]
    have "clone_tables (cr3_of d) (frame_addr (sp_pd x)) [7] t = (r', u)"
      using E' ru b by (cases r') (simp_all add: Let_def)
    then have run: "clone_tables (cr3_of d) (frame_addr (sp_pd x)) [6, 7] s = (r', u)" using run1 True by simp
    have "cloned_upto C held s x d ({..<512} \<union> {512..<1024}) (r', u)"
      by (rule cloned_upto_seq [OF 1 [unfolded True [THEN eq_True [THEN iffD2]]] 2 _ assms(3-5)]) auto
    moreover have "{..<512} \<union> {512..<1024} = {..<1024 :: nat}" by auto
    ultimately show ?thesis using run by simp
  qed
qed


section \<open>A space and its view, operation by operation\<close>

text \<open>An operation that leaves the pages of the spaces in \<open>C\<close> as they are.\<close>

definition keeps :: "space set \<Rightarrow> mmu \<Rightarrow> mmu \<Rightarrow> bool" where
  "keeps C s s' \<longleftrightarrow> entries_ok C s' \<and> (\<exists>W\<subseteq>{..<POOL_FRAMES}. writes W s s') \<and> (\<forall>y\<in>C. \<forall>k<1024. pv s' y k = pv s y k)"

lemma keepsD:
  assumes "keeps C s s'"
  shows "entries_ok C s'" "\<exists>W\<subseteq>{..<POOL_FRAMES}. writes W s s'" "\<And>y k. y \<in> C \<Longrightarrow> k < 1024 \<Longrightarrow> pv s' y k = pv s y k"
  using assms by (auto simp: keeps_def)

lemma keeps_trans:
  assumes "keeps C s t" "keeps C t u"
  shows "keeps C s u"
  using pool_writes_trans [OF keepsD(2) [OF assms(1)] keepsD(2) [OF assms(2)]]
    keepsD(1) [OF assms(2)] keepsD(3) [OF assms(1)] keepsD(3) [OF assms(2)] by (simp add: keeps_def)

lemma keeps_idle:
  assumes "paging_inv C held s" "entries_ok C s" "idle C held s W" "W \<inter> table_frames C = {}" "writes W s s'"
  shows "keeps C s s'"
proof -
  have up: "upte s' y k = upte s y k" if "y \<in> C" for y k
    by (rule upte_writes [OF assms(5)]) (use assms(4) that in \<open>force simp: table_frames_def\<close>)
  have "pv s' y k = pv s y k" if "y \<in> C" "k < 1024" for y k
    by (rule pv_kept [OF assms(1,3,5) that up [OF that(1)]])
  moreover have "entries_ok C s'" using assms(2) up by (simp add: entries_ok_def)
  moreover have "\<exists>W\<subseteq>{..<4096}. writes W s s'" using idle_less [OF assms(1,3)] assms(5) by blast
  ultimately show ?thesis by (simp add: keeps_def)
qed

lemma unused_idle: "\<forall>f\<in>W. unused C held s f \<Longrightarrow> idle C held s W \<and> W \<inter> table_frames C = {}"
  by (auto simp: idle_def unused_def)

lemma create_keeps:
  assumes "paging_inv C held s" "kernel_ok s" "entries_ok C s"
  shows "case create_user_space s of
      (None, s') \<Rightarrow> paging_inv C held s' \<and> keeps C s s'
    | (Some cr3, s') \<Rightarrow> \<exists>x. cr3 = cr3_of x \<and> x \<notin> C \<and> paging_inv (insert x C) held s' \<and> keeps C s s' \<and>
        entries_ok (insert x C) s' \<and> (\<forall>k<1024. upte s' x k = 0)"
proof (cases "create_user_space s")
  case (Pair ro s')
  note cr = create_ok [OF assms(1,2), unfolded Pair created_def prod.case]
  show ?thesis
  proof (cases ro)
    case None
    then obtain W where W: "paging_inv C held s'" "\<forall>f\<in>W. unused C held s f" "writes W s s'"
      using cr by auto
    have "keeps C s s'" using keeps_idle [OF assms(1,3)] unused_idle [OF W(2)] W(3) by blast
    then show ?thesis using Pair None W(1) by simp
  next
    case (Some cr3)
    then obtain x where x: "cr3 = cr3_of x" "x \<notin> C" "paging_inv (insert x C) held s'" "\<forall>k<1024. upte s' x k = 0"
      "\<forall>f\<in>set (tabs x). unused C held s f" "writes (set (tabs x)) s s'"
      using cr by auto
    have k: "keeps C s s'" using keeps_idle [OF assms(1,3)] unused_idle [OF x(5)] x(6) by blast
    then have "entries_ok (insert x C) s'" using x(4) by (simp add: keeps_def entries_ok_def)
    then show ?thesis using Pair Some x k by auto
  qed
qed

lemma destroy_keeps:
  assumes "paging_inv C held s" "kernel_ok s" "entries_ok C s" "x \<in> C"
  shows "paging_inv (C - {x}) held (destroy_user_space (cr3_of x) s)" "keeps C s (destroy_user_space (cr3_of x) s)"
proof -
  note D = destroy_ok [OF assms(1,2,4)]
  show "paging_inv (C - {x}) held (destroy_user_space (cr3_of x) s)" by (rule D(1))
  show "keeps C s (destroy_user_space (cr3_of x) s)"
    by (rule keeps_idle [OF assms(1,3) _ _ D(2)]) (simp_all add: idle_def)
qed

lemma keeps_mono: "keeps C s s' \<Longrightarrow> D \<subseteq> C \<Longrightarrow> keeps D s s'"
  unfolding keeps_def entries_ok_def by blast

lemma kernel_ok_keeps: "keeps C s s' \<Longrightarrow> kernel_ok s \<Longrightarrow> kernel_ok s'"
  using kernel_ok_writes keepsD(2) by blast

lemma clone_keeps:
  assumes "paging_inv C held s" "kernel_ok s" "entries_ok C s" "x \<in> C"
  shows "case clone_user_space (cr3_of x) s of
      (None, s') \<Rightarrow> paging_inv C held s' \<and> keeps C s s'
    | (Some cr3, s') \<Rightarrow> \<exists>d. cr3 = cr3_of d \<and> d \<notin> C \<and> paging_inv (insert d C) held s' \<and> keeps C s s' \<and>
        entries_ok (insert d C) s' \<and> (\<forall>k<1024. pv s' d k = child_page (pv s x k))"
proof -
  note ck = cr3_not_kernel [OF assms(2) paging_invD(3) [OF assms(1,4)]]
  note cr = create_keeps [OF assms(1-3)]
  obtain ro t where rt: "create_user_space s = (ro, t)" by (cases "create_user_space s")
  show ?thesis
  proof (cases ro)
    case None
    then show ?thesis using cr rt ck by (simp add: clone_user_space_def)
  next
    case (Some cr3)
    then obtain d where d: "cr3 = cr3_of d" "d \<notin> C" "paging_inv (insert d C) held t" "keeps C s t"
      "entries_ok (insert d C) t" "\<forall>k<1024. upte t d k = 0"
      using cr rt by auto
    have xd: "x \<in> insert d C" "d \<in> insert d C" "x \<noteq> d" using assms(4) d(2) by auto
    have dv: "pv t d l = Empty" if "l < 1024" for l using d(6) that by (simp add: pv_def page_of_def)
    note c = chain_okD [OF paging_invD(3) [OF d(3) xd(1)]]
    have pd: "entry_addr (pte_at t (entry_addr (pte_at t (cr3_of x) 0)) 0) = frame_addr (sp_pd x)"
      using c by (simp add: fw_def [symmetric] cr3_of_def)
    obtain r u where ru: "clone_tables (cr3_of d) (frame_addr (sp_pd x)) [6, 7] t = (r, u)"
      by (cases "clone_tables (cr3_of d) (frame_addr (sp_pd x)) [6, 7] t")
    note T = cloned_uptoD [OF clone_tables_ok [OF d(3,5) xd, unfolded ru, OF dv]]
    have rng: "[6..<7 + 1] = [6, 7 :: nat]" by (simp add: upt_rec)
    have run: "clone_user_space (cr3_of x) s = (if r then (Some (cr3_of d), u) else (None, destroy_user_space (cr3_of d) u))"
      using ck rt Some d(1) pd ru by (simp add: clone_user_space_def Let_def rng del: upt_Suc clone_tables.simps)
    have "keeps C t u"
      using T(1-4) d(2) by (auto simp: keeps_def entries_ok_def)
    then have su: "keeps C s u" by (rule keeps_trans [OF d(4)])
    have ku: "kernel_ok u" by (rule kernel_ok_keeps [OF su assms(2)])
    show ?thesis
    proof (cases r)
      case True
      have "pv u d k = child_page (pv s x k)" if "k < 1024" for k
        using T(5) [of k] True that keepsD(3) [OF d(4) assms(4) that] by simp
      then show ?thesis using run True d(2) T(1,2) su by auto
    next
      case False
      note D = destroy_keeps [OF T(1) ku T(2) xd(2)]
      have "keeps C s (destroy_user_space (cr3_of d) u)"
        by (rule keeps_trans [OF su keeps_mono [OF D(2)]]) auto
      moreover have "insert d C - {d} = C" using d(2) by auto
      ultimately show ?thesis using run False D(1) by simp
    qed
  qed
qed

end
