(* ===== verification/PagingView.thy ===== *)
theory PagingView imports PagingClone begin

text \<open>
  The remaining operations on what a process sees (reservations, page faults, windows, stores), the
  system of all address spaces as a step relation, the abstract system of private page arrays, and
  the lemma for each operation that its steps are steps of the abstract system.
\<close>

text \<open>The user pages that a list of page numbers names, up to the first that is not one.\<close>

fun pages_named :: "nat list \<Rightarrow> nat set" where
  "pages_named [] = {}"
| "pages_named (p # ps) = (case user_index (p * PAGE_SIZE) of None \<Rightarrow> {} | Some k \<Rightarrow> insert k (pages_named ps))"

definition all_named :: "nat list \<Rightarrow> bool" where
  "all_named ps \<longleftrightarrow> (\<forall>p\<in>set ps. user_index (p * PAGE_SIZE) \<noteq> None)"

lemma reserve_pages_ok:
  assumes "paging_inv C held s" "x \<in> C"
  shows "\<exists>s'. reserve_pages (cr3_of x) ps s = (all_named ps, s') \<and> paging_inv C held s' \<and> writes {sp_pt0 x, sp_pt1 x} s s' \<and>
     (\<forall>y\<in>C. \<forall>k<1024. upte s' y k = (if y = x \<and> k \<in> pages_named ps \<and> \<not> bit (upte s x k) 0 then PTE_DEMAND else upte s y k))"
  using assms(1)
proof (induction ps arbitrary: s)
  case Nil
  then show ?case by (intro exI [of _ s]) (simp add: all_named_def)
next
  case (Cons p ps)
  have x: "chain_ok s x" by (rule paging_invD(3) [OF Cons.prems assms(2)])
  have dem: "frame_of PTE_DEMAND = None" "\<not> bit PTE_DEMAND 0" by (simp_all only: frame_of_def flag_bits) simp_all
  show ?case
  proof (cases "user_index (p * PAGE_SIZE)")
    case None
    then have "reserve_pages (cr3_of x) (p # ps) s = (False, s)" by (simp add: user_pte_index [OF x])
    then show ?thesis using Cons.prems None by (intro exI [of _ s]) (simp add: all_named_def)
  next
    case (Some k)
    have k: "k < 1024" by (rule user_index_less [OF Some])
    define t where "t = (if bit (upte s x k) 0 then s else put_word (slot_of x k) PTE_DEMAND s)"
    have run: "reserve_pages (cr3_of x) (p # ps) s = reserve_pages (cr3_of x) ps t"
      using Some by (simp add: user_pte_index [OF x] t_def)
    have inv: "paging_inv C held t"
      using Cons.prems blank_put [OF Cons.prems assms(2) k _ dem(1)] by (auto simp: t_def frame_of_def)
    have w: "writes {sp_pt0 x, sp_pt1 x} s t"
      using writes_mono [OF writes_slot_of [of x k s PTE_DEMAND]] pt_of_tabs(1) [of x k] by (auto simp: t_def)
    have up: "upte t y l = (if y = x \<and> l = k \<and> \<not> bit (upte s x k) 0 then PTE_DEMAND else upte s y l)" if "y \<in> C" "l < 1024" for y l
      using upte_put [OF Cons.prems assms(2) that(1) k that(2)] by (auto simp: t_def)
    from Cons.IH [OF inv] obtain s' where IH: "reserve_pages (cr3_of x) ps t = (all_named ps, s')" "paging_inv C held s'"
      "writes {sp_pt0 x, sp_pt1 x} t s'"
      "\<forall>y\<in>C. \<forall>l<1024. upte s' y l = (if y = x \<and> l \<in> pages_named ps \<and> \<not> bit (upte t x l) 0 then PTE_DEMAND else upte t y l)"
      by blast
    have "upte s' y l = (if y = x \<and> l \<in> pages_named (p # ps) \<and> \<not> bit (upte s x l) 0 then PTE_DEMAND else upte s y l)"
      if "y \<in> C" "l < 1024" for y l
      using IH(4) [rule_format, OF that] up [OF that] up [OF assms(2) that(2)] Some dem(2) by auto
    moreover have "writes {sp_pt0 x, sp_pt1 x} s s'" using writes_trans [OF w IH(3)] by simp
    ultimately show ?thesis using run IH(1,2) Some by (intro exI [of _ s']) (auto simp: all_named_def)
  qed
qed


text \<open>The other operations on the view.\<close>

definition reserve_page :: "page \<Rightarrow> page" where
  "reserve_page p = (case p of Empty \<Rightarrow> Reserved | _ \<Rightarrow> p)"

lemma page_of_demand: "page_of s PTE_DEMAND = Reserved"
  using bit_demand by (simp add: page_of_def)

lemma count_unused: "paging_inv C held s \<Longrightarrow> g < POOL_FRAMES \<Longrightarrow> frames_count (mm_fr s) g = 0 \<Longrightarrow> unused C held s g"
  using paging_invD(5) [of C held s g] by (auto simp: unused_def split: if_splits)

lemma reserve_keeps:
  assumes "paging_inv C held s" "kernel_ok s" "entries_ok C s" "x \<in> C"
  shows "\<exists>s'. reserve_pages (cr3_of x) ps s = (all_named ps, s') \<and> paging_inv C held s' \<and> entries_ok C s' \<and>
     (\<exists>W\<subseteq>{..<POOL_FRAMES}. writes W s s') \<and>
     (\<forall>y\<in>C. \<forall>k<1024. pv s' y k = (if y = x \<and> k \<in> pages_named ps then reserve_page (pv s y k) else pv s y k))"
proof -
  obtain s' where R: "reserve_pages (cr3_of x) ps s = (all_named ps, s')" "paging_inv C held s'" "writes {sp_pt0 x, sp_pt1 x} s s'"
    "\<forall>y\<in>C. \<forall>k<1024. upte s' y k = (if y = x \<and> k \<in> pages_named ps \<and> \<not> bit (upte s x k) 0 then PTE_DEMAND else upte s y k)"
    using reserve_pages_ok [OF assms(1,4), of ps] by (elim exE conjE) (rule that; assumption)
  have i: "idle C held s {sp_pt0 x, sp_pt1 x}" using assms(4) by (auto simp: idle_def table_frames_def tabs_def)
  have e: "entries_ok C s'" using R(4) assms(3) entry_ok_demand by (simp add: entries_ok_def)
  have v: "pv s' y k = (if y = x \<and> k \<in> pages_named ps then reserve_page (pv s y k) else pv s y k)" if "y \<in> C" "k < 1024" for y k
  proof (cases "y = x \<and> k \<in> pages_named ps \<and> \<not> bit (upte s x k) 0")
    case True
    then have "upte s' y k = PTE_DEMAND" using R(4) [rule_format, OF that] by (simp only: simp_thms if_True)
    then have "pv s' y k = Reserved" by (simp only: pv_def page_of_demand)
    moreover have "reserve_page (pv s y k) = Reserved" using True by (simp add: pv_def page_of_def reserve_page_def)
    ultimately show ?thesis using True by simp
  next
    case False
    have "pv s' y k = pv s y k" by (rule pv_kept [OF assms(1) i R(3) that]) (simp only: R(4) [rule_format, OF that] False if_False)
    moreover have "reserve_page (pv s y k) = pv s y k" if "bit (upte s y k) 0"
      using that by (simp add: pv_def page_of_def reserve_page_def)
    ultimately show ?thesis using False by auto
  qed
  have w: "\<exists>W\<subseteq>{..<4096}. writes W s s'" using idle_less [OF assms(1) i] R(3) by blast
  show ?thesis by (intro exI [of _ s'] conjI) (use R(1,2) e w v in simp_all)
qed

lemma demand_keeps:
  assumes "paging_inv C held s" "kernel_ok s" "entries_ok C s" "x \<in> C" "mm_cr3 s = cr3_of x"
  shows "\<exists>r s'. handle_demand_fault va s = (r, s') \<and> paging_inv C held s' \<and> entries_ok C s' \<and>
     (\<exists>W\<subseteq>{..<POOL_FRAMES}. writes W s s') \<and>
     (if r then \<exists>k. user_index va = Some k \<and> pv s x k = Reserved \<and>
        (\<forall>y\<in>C. \<forall>l<1024. pv s' y l = (if y = x \<and> l = k then Data (\<lambda>_. 0) else pv s y l))
      else s' = s)"
proof -
  obtain r s' where run: "handle_demand_fault va s = (r, s')" "paging_inv C held s'" and
    R: "if r then \<exists>k g. user_index va = Some k \<and> \<not> bit (upte s x k) 0 \<and> bit (upte s x k) 11 \<and> g < POOL_FRAMES \<and>
             frames_count (mm_fr s) g = 0 \<and> writes {g, pt_of x k} s s' \<and> upte s' x k = frame_entry g \<and>
             (\<forall>y\<in>C. \<forall>l<1024. (y, l) \<noteq> (x, k) \<longrightarrow> upte s' y l = upte s y l) \<and>
             (\<forall>a. in_frame g a \<longrightarrow> mm_mem s' a = 0)
      else s' = s"
    using demand_fault_ok [OF assms(1,2,4,5), of va] by (elim exE conjE) (rule that; assumption)
  show ?thesis
  proof (cases r)
    case False
    then show ?thesis using run R assms(3) by (intro exI [of _ False] exI [of _ s']) (auto intro!: exI [of _ "{}"])
  next
    case True
    then obtain k g where K: "user_index va = Some k" "\<not> bit (upte s x k) 0" "bit (upte s x k) 11" "g < POOL_FRAMES"
      "frames_count (mm_fr s) g = 0" "writes {g, pt_of x k} s s'" "upte s' x k = frame_entry g"
      "\<forall>y\<in>C. \<forall>l<1024. (y, l) \<noteq> (x, k) \<longrightarrow> upte s' y l = upte s y l" "\<forall>a. in_frame g a \<longrightarrow> mm_mem s' a = 0"
      using R by (simp only: if_True) (elim exE conjE, rule that; assumption)
    have i: "idle C held s {g, pt_of x k}"
      using slot_idle [OF assms(4), of held s k] count_unused [OF assms(1) K(4,5)] by (simp add: idle_def)
    have e: "entries_ok C s'"
      unfolding entries_ok_def
    proof (intro ballI allI impI)
      fix y l assume "y \<in> C" "l < (1024 :: nat)"
      then show "entry_ok (upte s' y l)"
        using K(7,8) entries_okD [OF assms(3)] entry_ok_frame [OF K(4)] by (cases "(y, l) = (x, k)") auto
    qed
    have "pv s' x k = Data (\<lambda>_. 0)"
      using K(4,7,9) bit_frame_entry [OF K(4)] by (auto simp: pv_def page_of_def in_frame_def)
    moreover have "pv s' y l = pv s y l" if "y \<in> C" "l < 1024" "\<not> (y = x \<and> l = k)" for y l
      by (rule pv_kept [OF assms(1) i K(6) that(1,2)]) (use K(8) that in auto)
    ultimately have v: "\<forall>y\<in>C. \<forall>l<1024. pv s' y l = (if y = x \<and> l = k then Data (\<lambda>_. 0) else pv s y l)" by auto
    have "pv s x k = Reserved" using K(2,3) by (simp add: pv_def page_of_def)
    moreover have "\<exists>W\<subseteq>{..<4096}. writes W s s'" using idle_less [OF assms(1) i] K(6) by blast
    ultimately show ?thesis using run e v True K(1) by (intro exI [of _ True] exI [of _ s']) simp
  qed
qed

lemma cow_keeps:
  assumes "paging_inv C held s" "kernel_ok s" "entries_ok C s" "x \<in> C" "mm_cr3 s = cr3_of x"
  shows "\<exists>r s'. handle_cow_fault va s = (r, s') \<and> paging_inv C held s' \<and> keeps C s s' \<and>
     (if r then \<exists>k. user_index va = Some k \<and> bit (upte s x k) 0 \<and> bit (upte s' x k) 0 \<and> bit (upte s' x k) 1 else s' = s)"
proof -
  obtain r s' where run: "handle_cow_fault va s = (r, s')" "paging_inv C held s'" and
    R: "if r then \<exists>k W. user_index va = Some k \<and> bit (upte s x k) 0 \<and> bit (upte s x k) 9 \<and>
             (upte s' x k = make_writable (upte s x k) \<or> frame_of (upte s x k) \<noteq> None \<and> (\<exists>g<POOL_FRAMES. upte s' x k = frame_entry g)) \<and>
             W \<subseteq> {..<POOL_FRAMES} \<and>
             (\<forall>f\<in>W. f = pt_of x k \<or> frames_count (mm_fr s) f = 0) \<and> writes W s s' \<and>
             (\<forall>y\<in>C. \<forall>l<1024. (y, l) \<noteq> (x, k) \<longrightarrow> upte s' y l = upte s y l) \<and>
             (\<forall>off<PAGE_SIZE. mm_mem s' (entry_addr (upte s' x k) + off) = mm_mem s (entry_addr (upte s x k) + off))
      else s' = s"
    using cow_fault_ok [OF assms(1,2,4,5), of va] by (elim exE conjE) (rule that; assumption)
  show ?thesis
  proof (cases r)
    case False
    then show ?thesis using run R assms(3)
      by (intro exI [of _ False] exI [of _ s']) (auto simp: keeps_def intro!: exI [of _ "{}"])
  next
    case True
    then obtain k W where K: "user_index va = Some k" "bit (upte s x k) 0" "bit (upte s x k) 9"
      "upte s' x k = make_writable (upte s x k) \<or> frame_of (upte s x k) \<noteq> None \<and> (\<exists>g<POOL_FRAMES. upte s' x k = frame_entry g)"
      "W \<subseteq> {..<POOL_FRAMES}" "\<forall>f\<in>W. f = pt_of x k \<or> frames_count (mm_fr s) f = 0" "writes W s s'"
      "\<forall>y\<in>C. \<forall>l<1024. (y, l) \<noteq> (x, k) \<longrightarrow> upte s' y l = upte s y l"
      "\<forall>off<PAGE_SIZE. mm_mem s' (entry_addr (upte s' x k) + off) = mm_mem s (entry_addr (upte s x k) + off)"
      using R by (simp only: if_True) (elim exE conjE, rule that; assumption)
    have k: "k < 1024" by (rule user_index_less [OF K(1)])
    have ok: "entry_ok (upte s x k)" by (rule entries_okD [OF assms(3,4) k])
    have i: "idle C held s W"
      unfolding idle_def
    proof
      fix f assume f: "f \<in> W"
      have "f < 4096" using K(5) f by auto
      then show "f \<in> table_frames C \<or> unused C held s f"
        using bspec [OF K(6) f] slot_idle [OF assms(4), of held s k] count_unused [OF assms(1), of f]
        by (elim disjE) (simp_all add: idle_def)
    qed
    have new: "entry_ok (upte s' x k) \<and> bit (upte s' x k) 0 \<and> bit (upte s' x k) 1 \<and> bit (upte s' x k) 10 = bit (upte s x k) 10"
    proof (cases "upte s' x k = make_writable (upte s x k)")
      case True
      then show ?thesis using entry_ok_make(2) [OF ok K(2)] K(2) by (simp add: bit_make)
    next
      case False
      then have K4: "frame_of (upte s x k) \<noteq> None" "\<exists>g<POOL_FRAMES. upte s' x k = frame_entry g" using K(4) by simp_all
      then obtain g where g: "g < POOL_FRAMES" "upte s' x k = frame_entry g" by blast
      have "\<not> bit (upte s x k) 10" using ok K(2) K4(1) by (simp add: entry_ok_def)
      then show ?thesis using g(2) entry_ok_frame [OF g(1)] bit_frame_entry [OF g(1)] by simp
    qed
    have wnd: "entry_addr (upte s' x k) = entry_addr (upte s x k)" if "bit (upte s x k) 10"
    proof -
      have "frame_of (upte s x k) = None" using ok K(2) that by (simp add: entry_ok_def)
      then have "upte s' x k = make_writable (upte s x k)" using K(4) by simp
      then show ?thesis by simp
    qed
    have e: "entries_ok C s'"
      unfolding entries_ok_def
    proof (intro ballI allI impI)
      fix y l assume "y \<in> C" "l < (1024 :: nat)"
      then show "entry_ok (upte s' y l)"
        using K(8) [rule_format, of y l] new entries_okD [OF assms(3), of y l] by (cases "(y, l) = (x, k)") auto
    qed
    have "pv s' y l = pv s y l" if "y \<in> C" "l < 1024" for y l
    proof (cases "y = x \<and> l = k")
      case True
      have f: "(\<lambda>off. if off < PAGE_SIZE then mm_mem s' (entry_addr (upte s' x k) + off) else 0) =
          (\<lambda>off. if off < PAGE_SIZE then mm_mem s (entry_addr (upte s x k) + off) else 0)"
        using K(9) by (simp cong: if_cong)
      show ?thesis unfolding pv_def page_of_def conjunct1 [OF True] conjunct2 [OF True] f
        using new wnd K(2) by simp
    next
      case False
      show ?thesis by (rule pv_kept [OF assms(1) i K(7) that]) (use K(8) that False in auto)
    qed
    moreover have "\<exists>W\<subseteq>{..<4096}. writes W s s'" using K(5,7) by blast
    ultimately have "keeps C s s'" using e by (simp add: keeps_def)
    then show ?thesis using run new True K(1,2) by (intro exI [of _ True] exI [of _ s']) simp
  qed
qed

section \<open>Windows\<close>

lemma bit_aligned_word:
  assumes "a mod 4096 = 0" "a < 2 ^ 52" "bit (of_nat a :: 64 word) n"
  shows "12 \<le> n \<and> n < 52"
proof -
  have b: "bit a n" using assms(3) by (simp add: bit_simps)
  have "n < 52" using b assms(2) by (metis bit_take_bit_iff take_bit_nat_eq_self)
  moreover have "take_bit 12 a = 0" using assms(1) by (simp add: take_bit_eq_mod)
  then have "\<not> n < 12" using b by (metis bit_0_eq bit_take_bit_iff bot_apply bot_bool_def)
  ultimately show ?thesis by simp
qed

definition window_entry :: "nat \<Rightarrow> 64 word" where
  "window_entry a = of_nat a OR table_flags OR PTE_SHARED"

lemma window_entry:
  assumes "a mod 4096 = 0" "a < 2 ^ 52" "index_of a = None"
  shows "entry_addr (window_entry a) = a" "frame_of (window_entry a) = None" "entry_ok (window_entry a)"
    "page_of s (window_entry a) = Window a"
proof -
  have hi: "bit (window_entry a) n \<longleftrightarrow> bit (of_nat a :: 64 word) n" if "12 \<le> n" for n
    using that by (auto simp only: window_entry_def bit_or_iff bit_table_flags flag_bits)
  have lo: "bit (window_entry a) n \<longleftrightarrow> n \<in> {0, 1, 2, 10}" if "n < 12" for n
  proof -
    have "\<not> bit (of_nat a :: 64 word) n" using bit_aligned_word [OF assms(1,2), of n] that by linarith
    then show ?thesis by (auto simp only: window_entry_def bit_or_iff bit_table_flags flag_bits insert_iff empty_iff)
  qed
  have "window_entry a AND ADDR_MASK = of_nat a"
    by (rule bit_word_eqI) (use hi bit_aligned_word [OF assms(1,2)] in \<open>auto simp only: bit_and_iff bit_addr_mask\<close>)
  moreover have "a < 2 ^ 64" using assms(2) by simp
  ultimately show e: "entry_addr (window_entry a) = a" by (simp add: entry_addr_def unat_of_nat)
  show f: "frame_of (window_entry a) = None" using e assms(3) by (simp add: frame_of_def)
  show "entry_ok (window_entry a)" using f lo by (simp add: entry_ok_def)
  show "page_of s (window_entry a) = Window a" using e lo by (simp add: page_of_def)
qed

text \<open>The view of the space after a window is mapped: from each page on, up to the first outside the region.\<close>

fun show_window :: "nat \<Rightarrow> nat \<Rightarrow> nat list \<Rightarrow> (nat \<Rightarrow> page) \<Rightarrow> bool \<times> (nat \<Rightarrow> page)" where
  "show_window va phys [] P = (True, P)"
| "show_window va phys (i # is) P =
     (case user_index (va + i * PAGE_SIZE) of
        None \<Rightarrow> (False, P)
      | Some k \<Rightarrow> show_window va phys is (P(k := Window (phys + i * PAGE_SIZE))))"

definition no_private :: "(nat \<Rightarrow> page) \<Rightarrow> nat \<Rightarrow> nat list \<Rightarrow> bool" where
  "no_private P va is \<longleftrightarrow> (\<forall>i\<in>set is. case user_index (va + i * PAGE_SIZE) of None \<Rightarrow> True | Some k \<Rightarrow> (\<forall>f. P k \<noteq> Data f))"

lemma window_keeps:
  assumes "paging_inv C held s" "kernel_ok s" "entries_ok C s" "x \<in> C" "phys mod PAGE_SIZE = 0"
    "\<And>i. i \<in> set is \<Longrightarrow> phys + i * PAGE_SIZE < 2 ^ 52 \<and> index_of (phys + i * PAGE_SIZE) = None"
    "no_private P va is" "\<And>k. k < 1024 \<Longrightarrow> P k = pv s x k"
  shows "\<exists>r s' P'. map_pages (cr3_of x) va phys is s = (r, s') \<and> show_window va phys is P = (r, P') \<and> paging_inv C held s' \<and>
     entries_ok C s' \<and> (\<exists>W\<subseteq>{..<POOL_FRAMES}. writes W s s') \<and>
     (\<forall>y\<in>C. \<forall>k<1024. pv s' y k = (if y = x then P' k else pv s y k))"
  using assms(1-3,6-)
proof (induction "is" arbitrary: s P)
  case Nil
  show ?case
    by (rule exI [of _ True], rule exI [of _ s], rule exI [of _ P]) (use Nil in \<open>auto intro!: exI [of _ "{}"]\<close>)
next
  case (Cons i "is")
  have x: "chain_ok s x" by (rule paging_invD(3) [OF Cons.prems(1) assms(4)])
  show ?case
  proof (cases "user_index (va + i * PAGE_SIZE)")
    case None
    then have "map_pages (cr3_of x) va phys (i # is) s = (False, s)" by (simp add: user_pte_index [OF x])
    then show ?thesis using None Cons.prems
      by (intro exI [of _ False] exI [of _ s] exI [of _ P]) (auto intro!: exI [of _ "{}"])
  next
    case (Some k)
    have k: "k < 1024" by (rule user_index_less [OF Some])
    let ?a = "phys + i * PAGE_SIZE"
    have a: "?a mod 4096 = 0" "?a < 2 ^ 52" "index_of ?a = None" using assms(5) Cons.prems(4) [of i] by auto
    note we = window_entry [OF a]
    define t where "t = put_word (slot_of x k) (window_entry ?a) s"
    have run: "map_pages (cr3_of x) va phys (i # is) s = map_pages (cr3_of x) va phys is t"
      using Some by (simp add: user_pte_index [OF x] t_def window_entry_def)
    have ok: "entry_ok (upte s x k)" by (rule entries_okD [OF Cons.prems(3) assms(4) k])
    have "\<forall>f. pv s x k \<noteq> Data f" using Cons.prems(5,6) Some k by (simp add: no_private_def)
    then have "bit (upte s x k) 0 \<longrightarrow> bit (upte s x k) 10" by (auto simp: pv_def page_of_def split: if_splits)
    then have old: "frame_of (upte s x k) = None" using ok by (auto simp: entry_ok_def frame_of_def)
    have inv: "paging_inv C held t" unfolding t_def by (rule blank_put [OF Cons.prems(1) assms(4) k old we(2)])
    have eok: "entries_ok C t" unfolding t_def by (rule entries_ok_put [OF Cons.prems(1,3) assms(4) k we(3)])
    have w: "writes {pt_of x k} s t" unfolding t_def by (rule writes_slot_of)
    have i: "idle C held s {pt_of x k}" by (rule slot_idle [OF assms(4)])
    have pw: "\<exists>W\<subseteq>{..<4096}. writes W s t" using idle_less [OF Cons.prems(1) i] w by blast
    have kt: "kernel_ok t" using pw kernel_ok_writes Cons.prems(2) by blast
    have vt: "pv t y l = (if y = x \<and> l = k then Window ?a else pv s y l)" if "y \<in> C" "l < 1024" for y l
    proof (cases "y = x \<and> l = k")
      case True
      then show ?thesis using upte_put [OF Cons.prems(1) assms(4) that(1) k that(2)] we(4) by (simp add: pv_def t_def)
    next
      case False
      have "pv t y l = pv s y l"
        by (rule pv_kept [OF Cons.prems(1) i w that])
          (use upte_put [OF Cons.prems(1) assms(4) that(1) k that(2)] False in \<open>auto simp: t_def\<close>)
      then show ?thesis using False by auto
    qed
    have np: "no_private (P(k := Window ?a)) va is"
      using Cons.prems(5) by (auto simp: no_private_def split: option.splits)
    have Pt: "(P(k := Window ?a)) l = pv t x l" if "l < 1024" for l using vt [OF assms(4) that] Cons.prems(6) [OF that] by simp
    have ph: "phys + j * PAGE_SIZE < 2 ^ 52 \<and> index_of (phys + j * PAGE_SIZE) = None" if "j \<in> set is" for j
      using Cons.prems(4) [of j] that by simp
    have "\<exists>r s' P'. map_pages (cr3_of x) va phys is t = (r, s') \<and> show_window va phys is (P(k := Window ?a)) = (r, P') \<and>
      paging_inv C held s' \<and> entries_ok C s' \<and> (\<exists>W\<subseteq>{..<POOL_FRAMES}. writes W t s') \<and>
      (\<forall>y\<in>C. \<forall>k<1024. pv s' y k = (if y = x then P' k else pv t y k))"
      by (rule Cons.IH [OF inv kt eok _ np]) (rule ph Pt; assumption)+
    then obtain r s' P' where IH: "map_pages (cr3_of x) va phys is t = (r, s')" "show_window va phys is (P(k := Window ?a)) = (r, P')"
      "paging_inv C held s'" "entries_ok C s'" "\<exists>W\<subseteq>{..<POOL_FRAMES}. writes W t s'"
      "\<forall>y\<in>C. \<forall>k<1024. pv s' y k = (if y = x then P' k else pv t y k)"
      by (elim exE conjE) (rule that; (assumption | blast))
    have "pv s' y l = (if y = x then P' l else pv s y l)" if "y \<in> C" "l < 1024" for y l
      using IH(6) [rule_format, OF that] vt [OF that] by auto
    then show ?thesis using run IH(1-4) Some pool_writes_trans [OF pw IH(5)]
      by (intro exI [of _ r] exI [of _ s'] exI [of _ P']) simp
  qed
qed

section \<open>Stores of the program\<close>

text \<open>
  A write of one byte in Ring 3 to the space that CR3 names: the processor faults (\<open>None\<close>) unless
  the page is present, writable and open to the user.
\<close>

definition user_store :: "nat \<Rightarrow> byte \<Rightarrow> mmu \<Rightarrow> mmu option" where
  "user_store va b s =
     (case user_pte s (current_space s) va of None \<Rightarrow> None
      | Some e \<Rightarrow>
          (let entry = rd64 (mm_mem s) e in
           if entry AND PTE_PRESENT = 0 \<or> entry AND PTE_WRITABLE = 0 \<or> entry AND PTE_USER = 0 then None
           else Some (s\<lparr>mm_fr := (mm_fr s)\<lparr>fr_mem := (mm_mem s)(entry_addr entry + va mod PAGE_SIZE := b)\<rparr>\<rparr>)))"

lemma store_keeps:
  assumes "paging_inv C held s" "kernel_ok s" "entries_ok C s" "x \<in> C" "mm_cr3 s = cr3_of x" "user_store va b s = Some s'"
    "\<And>k. user_index va = Some k \<Longrightarrow> \<exists>f. pv s x k = Data f"
  shows "\<exists>k f. user_index va = Some k \<and> pv s x k = Data f \<and> paging_inv C held s' \<and> entries_ok C s' \<and>
     (\<exists>W\<subseteq>{..<POOL_FRAMES}. writes W s s') \<and>
     (\<forall>y\<in>C. \<forall>l<1024. pv s' y l = (if y = x \<and> l = k then Data (f(va mod PAGE_SIZE := b)) else pv s y l))"
proof -
  have x: "chain_ok s x" by (rule paging_invD(3) [OF assms(1,4)])
  have ik: "user_index va = Some k \<and> bit (upte s x k) 0 \<and> bit (upte s x k) 1 \<and>
      s' = s\<lparr>mm_fr := (mm_fr s)\<lparr>fr_mem := (mm_mem s)(entry_addr (upte s x k) + va mod PAGE_SIZE := b)\<rparr>\<rparr>"
    if "user_index va = Some k" for k
    using assms(6) that
    by (auto simp: user_store_def current_space_of [OF x assms(5)] user_pte_index [OF x] Let_def split: if_splits)
  have "user_index va \<noteq> None"
  proof
    assume "user_index va = None"
    then show False using assms(6) by (simp add: user_store_def current_space_of [OF x assms(5)] user_pte_index [OF x])
  qed
  then obtain k where k: "user_index va = Some k" by blast
  note I = ik [OF k]
  have k1024: "k < 1024" by (rule user_index_less [OF k])
  obtain f where f: "pv s x k = Data f" using assms(7) [OF k] by blast
  have e: "bit (upte s x k) 0" "bit (upte s x k) 1" and nw: "\<not> bit (upte s x k) 10"
    using I f by (auto simp: pv_def page_of_def split: if_splits)
  have "frame_of (upte s x k) \<noteq> None" using entries_okD [OF assms(3,4) k1024] e(1) nw by (simp add: entry_ok_def)
  then obtain g where g: "frame_of (upte s x k) = Some g" by blast
  have ga: "g < 4096" "entry_addr (upte s x k) = frame_addr g" using g by (simp_all add: frame_of_Some)
  have p: "(x, k) \<in> entries C" "entry_frame s (x, k) = Some g" using assms(4) k1024 g by (simp_all add: entries_def entry_frame_def)
  have one: "refs C s g = 1" using paging_invD(8) [OF assms(1) p] e(2) by simp
  have nt: "g \<notin> table_frames C" using paging_invD(7) [OF assms(1), of g] one by auto
  let ?o = "va mod 4096"
  have s': "s' = s\<lparr>mm_fr := (mm_fr s)\<lparr>fr_mem := (mm_mem s)(frame_addr g + ?o := b)\<rparr>\<rparr>" using I ga by simp
  have w: "writes {g} s s'" by (auto simp: s' writes_def in_frame_def)
  have inv: "paging_inv C held s'"
  proof (rule paging_inv_cong [OF assms(1)])
    show "fw s' f k = fw s f k" if "f \<in> table_frames C" "k < 512" for f k
      by (rule fw_writes [OF w _ that(2)]) (use nt that in auto)
  qed (use paging_invD(1,6) [OF assms(1)] in \<open>auto simp: s'\<close>)
  have up: "upte s' y l = upte s y l" if "y \<in> C" for y l
    by (rule upte_writes [OF w]) (use nt that in \<open>auto simp: table_frames_def\<close>)
  have eok: "entries_ok C s'" using assms(3) up by (simp add: entries_ok_def)
  have pw: "\<exists>W\<subseteq>{..<4096}. writes W s s'" using w ga(1) by blast
  have v1: "pv s' x k = Data (f(?o := b))"
  proof -
    have "f = (\<lambda>off. if off < 4096 then mm_mem s (entry_addr (upte s x k) + off) else 0)"
      using f e(1) nw by (simp add: pv_def page_of_def)
    moreover have "?o < 4096" by simp
    ultimately have "(\<lambda>off. if off < 4096 then mm_mem s' (entry_addr (upte s x k) + off) else 0) = f(?o := b)"
      using ga(2) by (auto simp: s' fun_eq_iff)
    then show ?thesis using up [OF assms(4)] e(1) nw by (simp add: pv_def page_of_def)
  qed
  have v2: "pv s' y l = pv s y l" if "y \<in> C" "l < 1024" "\<not> (y = x \<and> l = k)" for y l
  proof -
    have q: "(y, l) \<in> entries C" "(x, k) \<noteq> (y, l)" using that by (auto simp: entries_def)
    have "frame_of (upte s y l) \<noteq> Some g"
      using refs_two [OF paging_invD(2) [OF assms(1)] p(1) q p(2)] one by (auto simp: entry_frame_def)
    then have "h \<notin> {g}" if "frame_of (upte s y l) = Some h" for h using that by auto
    moreover have "{g} \<subseteq> {..<4096}" using ga(1) by simp
    ultimately have "mm_mem s' (entry_addr (upte s y l) + off) = mm_mem s (entry_addr (upte s y l) + off)"
      if "off < 4096" "bit (upte s y l) 0" for off
      using page_kept [OF w _ that(2) _ that(1)] by blast
    then show ?thesis using up [OF that(1)] by (simp add: pv_def page_of_def cong: if_cong)
  qed
  show ?thesis
    by (rule exI [of _ k], rule exI [of _ f]) (use k f inv eok pw v1 v2 in auto)
qed

section \<open>The system of address spaces\<close>

definition page_at :: "mmu \<Rightarrow> nat \<Rightarrow> nat \<Rightarrow> page" where
  \<comment> \<open>user page \<open>k\<close> of the space \<open>cr3\<close>, found by the walk of the code\<close>
  "page_at s cr3 k =
     (case user_pte s cr3 (USER_MEM_START + k * PAGE_SIZE) of
        None \<Rightarrow> Empty | Some e \<Rightarrow> page_of s (rd64 (mm_mem s) e))"

type_synonym pstate = "nat set \<times> mmu"

definition spaces :: "pstate \<Rightarrow> nat \<Rightarrow> (nat \<Rightarrow> page) option" where
  "spaces st c = (if c \<in> fst st then Some (page_at (snd st) c) else None)"

definition loaded :: "mmu \<Rightarrow> nat option" where
  "loaded s = (if mm_cr3 s = mm_kernel s then None else Some (mm_cr3 s))"

datatype pop = Create "nat option" | Clone nat "nat option" | Destroy nat | Switch nat | Reserve nat nat nat bool
  | Fault "64 word" nat bool | Store nat byte | MapWindow nat nat nat nat bool

text \<open>
  The operations with the conditions their callers keep: a space that is destroyed is not the
  loaded one, a window consists of page frames outside the pool and covers no private page, and the
  program stores to its own pages.
\<close>

definition window_list :: "nat \<Rightarrow> nat list" where
  "window_list len = [0..<(len + PAGE_SIZE - 1) div PAGE_SIZE]"

inductive pstep :: "pop \<Rightarrow> pstate \<Rightarrow> pstate \<Rightarrow> bool" where
  create: "create_user_space s = (r, s') \<Longrightarrow>
     pstep (Create r) (L, s) (case r of None \<Rightarrow> L | Some c \<Rightarrow> insert c L, s')"
| clone: "src \<in> L \<Longrightarrow> clone_user_space src s = (r, s') \<Longrightarrow>
     pstep (Clone src r) (L, s) (case r of None \<Rightarrow> L | Some c \<Rightarrow> insert c L, s')"
| destroy: "c \<in> L \<Longrightarrow> c \<noteq> mm_cr3 s \<Longrightarrow> pstep (Destroy c) (L, s) (L - {c}, destroy_user_space c s)"
| switch: "c \<in> L \<or> c = 0 \<Longrightarrow> pstep (Switch c) (L, s) (L, switch_to c s)"
| reserve: "c \<in> L \<Longrightarrow> reserve_user_range c start len s = (r, s') \<Longrightarrow> pstep (Reserve c start len r) (L, s) (L, s')"
| fault: "page_fault err va s = (r, s') \<Longrightarrow> pstep (Fault err va r) (L, s) (L, s')"
| store: "user_store va b s = Some s' \<Longrightarrow> mm_cr3 s \<in> L \<Longrightarrow>
     (\<And>k. user_index va = Some k \<Longrightarrow> \<exists>f. page_at s (mm_cr3 s) k = Data f) \<Longrightarrow> pstep (Store va b) (L, s) (L, s')"
| window: "c \<in> L \<Longrightarrow> map_user_frames c va phys len s = (r, s') \<Longrightarrow>
     (\<And>i. i \<in> set (window_list len) \<Longrightarrow> phys + i * PAGE_SIZE < 2 ^ 52 \<and> index_of (phys + i * PAGE_SIZE) = None) \<Longrightarrow>
     no_private (page_at s c) va (window_list len) \<Longrightarrow> pstep (MapWindow c va phys len r) (L, s) (L, s')"

definition pinit :: "pstate \<Rightarrow> bool" where
  \<comment> \<open>after \<open>mmu::init\<close>, over the tables of the boot stub, with an empty pool\<close>
  "pinit st \<longleftrightarrow> (\<exists>s0 mem. st = ({}, mmu_init s0) \<and> mm_fr s0 = frames_init mem \<and>
     entry_addr (of_nat (mm_cr3 s0)) = mm_cr3 s0 \<and> kernel_ok (mmu_init s0))"

inductive preach :: "pstate \<Rightarrow> bool" where
  "pinit st \<Longrightarrow> preach st"
| "preach st \<Longrightarrow> pstep l st st' \<Longrightarrow> preach st'"

definition pinv :: "space set \<Rightarrow> pstate \<Rightarrow> bool" where
  "pinv C st \<longleftrightarrow> fst st = cr3_of ` C \<and> paging_inv C (\<lambda>_. 0) (snd st) \<and> kernel_ok (snd st) \<and> entries_ok C (snd st) \<and>
     entry_addr (of_nat (mm_kernel (snd st))) = mm_kernel (snd st) \<and>
     (mm_cr3 (snd st) = mm_kernel (snd st) \<or> mm_cr3 (snd st) \<in> fst st)"

lemma pinvD:
  assumes "pinv C (L, s)"
  shows "L = cr3_of ` C" "paging_inv C (\<lambda>_. 0) s" "kernel_ok s" "entries_ok C s"
    "entry_addr (of_nat (mm_kernel s)) = mm_kernel s" "mm_cr3 s = mm_kernel s \<or> mm_cr3 s \<in> L"
  using assms unfolding pinv_def fst_conv snd_conv by blast+

section \<open>The abstract system\<close>

text \<open>
  What processes may expect: every space is a private array of pages.  A fork copies them, a fault
  fills a reserved page with zeros or changes nothing, a store changes one byte of one page of one
  space.
\<close>

type_synonym a_pstate = "nat option \<times> (nat \<Rightarrow> (nat \<Rightarrow> page) option)"

definition abs_pstate :: "pstate \<Rightarrow> a_pstate" where
  "abs_pstate st = (loaded (snd st), spaces st)"

definition range_pages :: "nat \<Rightarrow> nat \<Rightarrow> nat list" where
  "range_pages start len = (if len = 0 then [] else [start div PAGE_SIZE..<(start + len - 1) div PAGE_SIZE + 1])"

fun a_pstep :: "pop \<Rightarrow> a_pstate \<Rightarrow> a_pstate \<Rightarrow> bool" where
  "a_pstep (Create None) (cur, A) (cur', A') \<longleftrightarrow> cur' = cur \<and> A' = A"
| "a_pstep (Create (Some c)) (cur, A) (cur', A') \<longleftrightarrow> cur' = cur \<and> A c = None \<and> A' = A(c \<mapsto> \<lambda>_. Empty)"
| "a_pstep (Clone src None) (cur, A) (cur', A') \<longleftrightarrow> cur' = cur \<and> A' = A"
| "a_pstep (Clone src (Some c)) (cur, A) (cur', A') \<longleftrightarrow>
     cur' = cur \<and> A c = None \<and> (\<exists>P. A src = Some P \<and> A' = A(c \<mapsto> \<lambda>k. child_page (P k)))"
| "a_pstep (Destroy c) (cur, A) (cur', A') \<longleftrightarrow> cur' = cur \<and> A' = A(c := None)"
| "a_pstep (Switch c) (cur, A) (cur', A') \<longleftrightarrow> cur' = (if c = 0 then None else Some c) \<and> A' = A"
| "a_pstep (Reserve c start len r) (cur, A) (cur', A') \<longleftrightarrow>
     cur' = cur \<and> r = all_named (range_pages start len) \<and>
     (\<exists>P. A c = Some P \<and> A' = A(c \<mapsto> \<lambda>k. if k \<in> pages_named (range_pages start len) then reserve_page (P k) else P k))"
| "a_pstep (Fault err va r) (cur, A) (cur', A') \<longleftrightarrow>
     cur' = cur \<and>
     (A' = A \<or> r \<and> \<not> bit err 0 \<and>
        (\<exists>c P k. cur = Some c \<and> A c = Some P \<and> user_index va = Some k \<and> P k = Reserved \<and> A' = A(c \<mapsto> P(k := Data (\<lambda>_. 0)))))"
| "a_pstep (Store va b) (cur, A) (cur', A') \<longleftrightarrow>
     cur' = cur \<and> (\<exists>c P k f. cur = Some c \<and> A c = Some P \<and> user_index va = Some k \<and> P k = Data f \<and>
        A' = A(c \<mapsto> P(k := Data (f(va mod PAGE_SIZE := b)))))"
| "a_pstep (MapWindow c va phys len r) (cur, A) (cur', A') \<longleftrightarrow>
     cur' = cur \<and> (\<exists>P. A c = Some P \<and>
        (if 0 < len \<and> va mod PAGE_SIZE = 0 \<and> phys mod PAGE_SIZE = 0
         then (r, the (A' c)) = show_window va phys (window_list len) P \<and> A' = A(c \<mapsto> the (A' c))
         else r = (len = 0) \<and> A' = A))"

section \<open>The view of the system\<close>

lemma page_at_space:
  assumes "chain_ok s x"
  shows "page_at s (cr3_of x) k = (if k < 1024 then pv s x k else Empty)"
proof -
  have "(12582912 + k * 4096) div 4096 = 3072 + k" by simp
  then have "user_index (USER_MEM_START + k * PAGE_SIZE) = (if k < 1024 then Some k else None)"
    by (auto simp: user_index_def)
  then show ?thesis by (simp add: page_at_def user_pte_index [OF assms] pv_def)
qed

lemma cr3_of_inj:
  assumes "paging_inv C held s" "x \<in> C" "y \<in> C" "cr3_of x = cr3_of y"
  shows "x = y"
proof -
  have "sp_pml4 x \<in> set (tabs x) \<inter> set (tabs y)" using assms(4) by (simp add: tabs_def cr3_of_def)
  then show ?thesis using paging_invD(4) [OF assms(1-3)] by blast
qed

lemma spaces_at:
  assumes "paging_inv C held s" "x \<in> C"
  shows "spaces (cr3_of ` C, s) (cr3_of x) = Some (\<lambda>k. if k < 1024 then pv s x k else Empty)"
  using assms page_at_space [OF paging_invD(3) [OF assms]] by (simp add: spaces_def fun_eq_iff)

lemma spaces_none: "c \<notin> L \<Longrightarrow> spaces (L, s) c = None"
  by (simp add: spaces_def)

lemma spaces_eqI:
  assumes "paging_inv C held s" "\<And>x. x \<in> C \<Longrightarrow> A (cr3_of x) = Some (\<lambda>k. if k < 1024 then pv s x k else Empty)"
    "\<And>c. c \<notin> cr3_of ` C \<Longrightarrow> A c = None"
  shows "spaces (cr3_of ` C, s) = A"
proof
  fix c show "spaces (cr3_of ` C, s) c = A c"
    using assms(2,3) spaces_at [OF assms(1)] spaces_none by (cases "c \<in> cr3_of ` C") (auto simp: spaces_none)
qed

lemma spaces_keep:
  assumes "paging_inv C held s" "paging_inv C held' s'" "\<And>y k. y \<in> C \<Longrightarrow> k < 1024 \<Longrightarrow> pv s' y k = pv s y k"
  shows "spaces (cr3_of ` C, s') = spaces (cr3_of ` C, s)"
  by (rule spaces_eqI [OF assms(2)]) (use spaces_at [OF assms(1)] assms(3) in \<open>auto simp: spaces_none cong: if_cong\<close>)

lemma spaces_upd:
  assumes "paging_inv C held s" "paging_inv C held' s'" "x \<in> C" "\<And>k. 1024 \<le> k \<Longrightarrow> Q k = Empty"
    "\<And>y k. y \<in> C \<Longrightarrow> k < 1024 \<Longrightarrow> pv s' y k = (if y = x then Q k else pv s y k)"
  shows "spaces (cr3_of ` C, s') = (spaces (cr3_of ` C, s))(cr3_of x \<mapsto> Q)"
proof (rule spaces_eqI [OF assms(2)])
  fix y assume y: "y \<in> C"
  show "((spaces (cr3_of ` C, s))(cr3_of x \<mapsto> Q)) (cr3_of y) = Some (\<lambda>k. if k < 1024 then pv s' y k else Empty)"
  proof (cases "y = x")
    case True
    then show ?thesis using assms(4,5) y by (auto simp: fun_eq_iff)
  next
    case False
    then have "cr3_of y \<noteq> cr3_of x" using cr3_of_inj [OF assms(1) y assms(3)] by blast
    then show ?thesis using False spaces_at [OF assms(1) y] assms(5) y by (simp cong: if_cong)
  qed
qed (use assms(3) in \<open>auto simp: spaces_none\<close>)

lemma spaces_insert:
  assumes "paging_inv C held s" "paging_inv (insert x C) held' s'" "x \<notin> C"
    "\<And>y k. y \<in> C \<Longrightarrow> k < 1024 \<Longrightarrow> pv s' y k = pv s y k" "Q = (\<lambda>k. if k < 1024 then pv s' x k else Empty)"
  shows "spaces (insert (cr3_of x) (cr3_of ` C), s') = (spaces (cr3_of ` C, s))(cr3_of x \<mapsto> Q)"
    "spaces (cr3_of ` C, s) (cr3_of x) = None"
proof -
  have ne: "cr3_of y \<noteq> cr3_of x" if "y \<in> C" for y
    using cr3_of_inj [OF assms(2), of y x] that assms(3) by auto
  then show "spaces (cr3_of ` C, s) (cr3_of x) = None" by (force intro: spaces_none)
  have "spaces (cr3_of ` insert x C, s') = (spaces (cr3_of ` C, s))(cr3_of x \<mapsto> Q)"
    by (rule spaces_eqI [OF assms(2)])
      (use ne spaces_at [OF assms(1)] assms(4,5) in \<open>auto simp: spaces_none cong: if_cong\<close>)
  then show "spaces (insert (cr3_of x) (cr3_of ` C), s') = (spaces (cr3_of ` C, s))(cr3_of x \<mapsto> Q)" by simp
qed

lemma spaces_remove:
  assumes "paging_inv C held s" "paging_inv (C - {x}) held' s'" "x \<in> C"
    "\<And>y k. y \<in> C \<Longrightarrow> k < 1024 \<Longrightarrow> pv s' y k = pv s y k"
  shows "spaces (cr3_of ` C - {cr3_of x}, s') = (spaces (cr3_of ` C, s))(cr3_of x := None)"
    "cr3_of ` C - {cr3_of x} = cr3_of ` (C - {x})"
proof -
  show im: "cr3_of ` C - {cr3_of x} = cr3_of ` (C - {x})"
  proof -
    have "inj_on cr3_of C" by (rule inj_onI) (rule cr3_of_inj [OF assms(1)])
    then show ?thesis using inj_on_image_set_diff [of cr3_of C C "{x}"] assms(3) by simp
  qed
  have ne: "cr3_of y \<noteq> cr3_of x" if "y \<in> C - {x}" for y
    using cr3_of_inj [OF assms(1), of y x] that assms(3) by auto
  show "spaces (cr3_of ` C - {cr3_of x}, s') = (spaces (cr3_of ` C, s))(cr3_of x := None)"
    unfolding im
  proof (rule spaces_eqI [OF assms(2)])
    show "((spaces (cr3_of ` C, s))(cr3_of x := None)) (cr3_of y) = Some (\<lambda>k. if k < 1024 then pv s' y k else Empty)"
      if "y \<in> C - {x}" for y
      using ne [OF that] spaces_at [OF assms(1), of y] assms(4) that by (simp cong: if_cong)
    show "((spaces (cr3_of ` C, s))(cr3_of x := None)) c = None" if "c \<notin> cr3_of ` (C - {x})" for c
      using that im [symmetric] by (auto simp: spaces_none)
  qed
qed

section \<open>Every step is a step of the abstract system\<close>

text \<open>One lemma per operation: the invariant holds again, and the view makes the abstract step.\<close>

definition good_step :: "pop \<Rightarrow> pstate \<Rightarrow> pstate \<Rightarrow> bool" where
  "good_step l st st' \<longleftrightarrow> (\<exists>C'. pinv C' st') \<and> a_pstep l (abs_pstate st) (abs_pstate st')"

lemma pinv_next:
  assumes "pinv C (L, s)" "L' = cr3_of ` C'" "paging_inv C' (\<lambda>_. 0) s'" "entries_ok C' s'" "\<exists>W\<subseteq>{..<POOL_FRAMES}. writes W s s'"
    "mm_cr3 s = mm_kernel s \<or> mm_cr3 s \<in> L'"
  shows "pinv C' (L', s')" "loaded s' = loaded s"
proof -
  note P = pinvD [OF assms(1)]
  obtain W where W: "W \<subseteq> {..<4096}" "writes W s s'" using assms(5) by blast
  have "kernel_ok s'" by (rule kernel_ok_writes [OF W(2,1) P(3)])
  then show "pinv C' (L', s')" using assms(2-4,6) P(5) writesD(1,2) [OF W(2)] by (simp add: pinv_def)
  show "loaded s' = loaded s" using writesD(1,2) [OF W(2)] by (simp add: loaded_def)
qed

lemma good_create:
  assumes "pinv C (L, s)" "create_user_space s = (r, s')"
  shows "good_step (Create r) (L, s) (case r of None \<Rightarrow> L | Some c \<Rightarrow> insert c L, s')"
proof -
  note P = pinvD [OF assms(1)]
  note cr = create_keeps [OF P(2-4), unfolded assms(2) prod.case]
  show ?thesis
  proof (cases r)
    case None
    then have K: "paging_inv C (\<lambda>_. 0) s'" "keeps C s s'" using cr by auto
    note N = pinv_next [OF assms(1) P(1) K(1) keepsD(1,2) [OF K(2)] P(6)]
    have "spaces (L, s') = spaces (L, s)" unfolding P(1) by (rule spaces_keep [OF P(2) K(1) keepsD(3) [OF K(2)]])
    then show ?thesis using None N by (auto simp: good_step_def abs_pstate_def)
  next
    case (Some c)
    then obtain x where x: "c = cr3_of x" "x \<notin> C" "paging_inv (insert x C) (\<lambda>_. 0) s'" "keeps C s s'"
      "entries_ok (insert x C) s'" "\<forall>k<1024. upte s' x k = 0" using cr by auto
    have e: "(\<lambda>_. Empty) = (\<lambda>k. if k < 1024 then pv s' x k else Empty)"
      using x(6) by (auto simp: pv_def page_of_def)
    note S = spaces_insert [OF P(2) x(3,2) keepsD(3) [OF x(4)] e]
    have L': "insert c L = cr3_of ` insert x C" using P(1) x(1) by simp
    have cur: "mm_cr3 s = mm_kernel s \<or> mm_cr3 s \<in> insert c L" using P(6) by blast
    note N = pinv_next [OF assms(1) L' x(3,5) keepsD(2) [OF x(4)] cur]
    show ?thesis using Some N S x(1) P(1) by (auto simp: good_step_def abs_pstate_def)
  qed
qed

lemma good_clone:
  assumes "pinv C (L, s)" "src \<in> L" "clone_user_space src s = (r, s')"
  shows "good_step (Clone src r) (L, s) (case r of None \<Rightarrow> L | Some c \<Rightarrow> insert c L, s')"
proof -
  note P = pinvD [OF assms(1)]
  obtain x where x: "x \<in> C" "src = cr3_of x" using assms(2) P(1) by blast
  note cl = clone_keeps [OF P(2-4) x(1), folded x(2), unfolded assms(3) prod.case]
  show ?thesis
  proof (cases r)
    case None
    then have K: "paging_inv C (\<lambda>_. 0) s'" "keeps C s s'" using cl by auto
    note N = pinv_next [OF assms(1) P(1) K(1) keepsD(1,2) [OF K(2)] P(6)]
    have "spaces (L, s') = spaces (L, s)" unfolding P(1) by (rule spaces_keep [OF P(2) K(1) keepsD(3) [OF K(2)]])
    then show ?thesis using None N by (auto simp: good_step_def abs_pstate_def)
  next
    case (Some c)
    then obtain d where d: "c = cr3_of d" "d \<notin> C" "paging_inv (insert d C) (\<lambda>_. 0) s'" "keeps C s s'"
      "entries_ok (insert d C) s'" "\<forall>k<1024. pv s' d k = child_page (pv s x k)" using cl by auto
    define P0 where "P0 = (\<lambda>k. if k < 1024 then pv s x k else Empty)"
    have e: "(\<lambda>k. child_page (P0 k)) = (\<lambda>k. if k < 1024 then pv s' d k else Empty)"
      using d(6) by (auto simp: P0_def)
    note S = spaces_insert [OF P(2) d(3,2) keepsD(3) [OF d(4)] e]
    have src: "spaces (L, s) src = Some P0" using spaces_at [OF P(2) x(1)] P(1) x(2) by (simp add: P0_def)
    have L': "insert c L = cr3_of ` insert d C" using P(1) d(1) by simp
    have cur: "mm_cr3 s = mm_kernel s \<or> mm_cr3 s \<in> insert c L" using P(6) by blast
    note N = pinv_next [OF assms(1) L' d(3,5) keepsD(2) [OF d(4)] cur]
    show ?thesis using Some N S src d(1) P(1) by (auto simp: good_step_def abs_pstate_def)
  qed
qed

lemma good_destroy:
  assumes "pinv C (L, s)" "c \<in> L" "c \<noteq> mm_cr3 s"
  shows "good_step (Destroy c) (L, s) (L - {c}, destroy_user_space c s)"
proof -
  note P = pinvD [OF assms(1)]
  obtain x where x: "x \<in> C" "c = cr3_of x" using assms(2) P(1) by blast
  note D = destroy_keeps [OF P(2-4) x(1), folded x(2)]
  note S = spaces_remove [OF P(2) D(1) x(1) keepsD(3) [OF D(2)]]
  have L': "L - {c} = cr3_of ` (C - {x})" using S(2) P(1) x(2) by simp
  have cur: "mm_cr3 s = mm_kernel s \<or> mm_cr3 s \<in> L - {c}" using P(6) assms(3) by blast
  have e: "entries_ok (C - {x}) (destroy_user_space c s)" using keepsD(1) [OF D(2)] by (simp add: entries_ok_def)
  note N = pinv_next [OF assms(1) L' D(1) e keepsD(2) [OF D(2)] cur]
  show ?thesis using N S x(2) P(1) by (auto simp: good_step_def abs_pstate_def)
qed

lemma good_switch:
  assumes "pinv C (L, s)" "c \<in> L \<or> c = 0"
  shows "good_step (Switch c) (L, s) (L, switch_to c s)"
proof -
  note P = pinvD [OF assms(1)]
  define v where "v = (if c = 0 then mm_kernel s else c)"
  have sw: "switch_to c s = s\<lparr>mm_cr3 := v\<rparr>" by (simp add: switch_to_def v_def)
  have fw: "fw (s\<lparr>mm_cr3 := v\<rparr>) = fw s" by (simp add: fun_eq_iff fw_def pte_at_def)
  have inv: "paging_inv C (\<lambda>_. 0) (s\<lparr>mm_cr3 := v\<rparr>)"
    by (rule paging_inv_cong [OF P(2)]) (use paging_invD(1) [OF P(2)] fw in simp_all)
  have up: "upte (s\<lparr>mm_cr3 := v\<rparr>) y k = upte s y k" for y k using fw by (simp add: upte_def)
  have pte: "pte_at (s\<lparr>mm_cr3 := v\<rparr>) = pte_at s" by (simp add: pte_at_def fun_eq_iff)
  have ko: "kernel_ok (s\<lparr>mm_cr3 := v\<rparr>)" using P(3) by (simp add: kernel_ok_def harmless_def pte)
  have eo: "entries_ok C (s\<lparr>mm_cr3 := v\<rparr>)" using P(4) up by (simp add: entries_ok_def)
  have new: "pinv C (L, s\<lparr>mm_cr3 := v\<rparr>)" using P assms(2) inv ko eo by (auto simp: pinv_def v_def)
  have "spaces (L, s\<lparr>mm_cr3 := v\<rparr>) = spaces (L, s)"
    unfolding P(1) by (rule spaces_keep [OF P(2) inv]) (simp add: pv_def page_of_def up cong: if_cong)
  moreover have "loaded (s\<lparr>mm_cr3 := v\<rparr>) = (if c = 0 then None else Some c)"
  proof (cases "c = 0")
    case False
    then obtain x where x: "x \<in> C" "c = cr3_of x" using assms(2) P(1) by blast
    then have "c \<noteq> mm_kernel s" using cr3_not_kernel(2) [OF P(3) paging_invD(3) [OF P(2) x(1)]] by simp
    then show ?thesis using False by (simp add: loaded_def v_def)
  qed (simp add: loaded_def v_def)
  ultimately show ?thesis using new by (auto simp: good_step_def abs_pstate_def sw)
qed


definition whole :: "mmu \<Rightarrow> space \<Rightarrow> nat \<Rightarrow> page" where
  "whole s x k = (if k < 1024 then pv s x k else Empty)"

lemma spaces_whole: "pinv C (L, s) \<Longrightarrow> x \<in> C \<Longrightarrow> spaces (L, s) (cr3_of x) = Some (whole s x)"
  using spaces_at [OF pinvD(2)] pinvD(1) by (simp add: whole_def fun_eq_iff)

text \<open>An operation on one page array.\<close>

lemma good_update:
  assumes "pinv C (L, s)" "x \<in> C" "paging_inv C (\<lambda>_. 0) s'" "entries_ok C s'" "\<exists>W\<subseteq>{..<POOL_FRAMES}. writes W s s'"
    "\<And>k. 1024 \<le> k \<Longrightarrow> Q k = Empty" "\<And>y k. y \<in> C \<Longrightarrow> k < 1024 \<Longrightarrow> pv s' y k = (if y = x then Q k else pv s y k)"
    "a_pstep l (loaded s, spaces (L, s)) (loaded s, (spaces (L, s))(cr3_of x \<mapsto> Q))"
  shows "good_step l (L, s) (L, s')"
proof -
  note P = pinvD [OF assms(1)]
  note N = pinv_next [OF assms(1) P(1) assms(3-5) P(6)]
  have "spaces (L, s') = (spaces (L, s))(cr3_of x \<mapsto> Q)"
    unfolding P(1) by (rule spaces_upd [OF P(2) assms(3,2,6,7)])
  then have "abs_pstate (L, s') = (loaded s, (spaces (L, s))(cr3_of x \<mapsto> Q))" using N(2) by (simp add: abs_pstate_def)
  moreover have "abs_pstate (L, s) = (loaded s, spaces (L, s))" by (simp add: abs_pstate_def)
  ultimately show ?thesis using N(1) assms(8) by (auto simp only: good_step_def)
qed

lemma pages_named_less: "k \<in> pages_named ps \<Longrightarrow> k < 1024"
  using user_index_less by (induction ps) (auto split: option.splits)

lemma good_reserve:
  assumes "pinv C (L, s)" "c \<in> L" "reserve_user_range c start len s = (r, s')"
  shows "good_step (Reserve c start len r) (L, s) (L, s')"
proof -
  note P = pinvD [OF assms(1)]
  obtain x where x: "x \<in> C" "c = cr3_of x" using assms(2) P(1) by blast
  let ?ps = "range_pages start len"
  have run: "reserve_user_range c start len s = reserve_pages c ?ps s"
    by (simp add: reserve_user_range_def range_pages_def)
  obtain s'' where R: "reserve_pages c ?ps s = (all_named ?ps, s'')" "paging_inv C (\<lambda>_. 0) s''" "entries_ok C s''"
     "\<exists>W\<subseteq>{..<POOL_FRAMES}. writes W s s''"
     "\<forall>y\<in>C. \<forall>k<1024. pv s'' y k = (if y = x \<and> k \<in> pages_named ?ps then reserve_page (pv s y k) else pv s y k)"
    using reserve_keeps [OF P(2-4) x(1), of ?ps, folded x(2)] by (elim exE conjE) (rule that; (assumption | blast))
  have eq: "r = all_named ?ps" "s'' = s'" using R(1) assms(3) run by simp_all
  let ?Q = "\<lambda>k. if k \<in> pages_named ?ps then reserve_page (whole s x k) else whole s x k"
  have big: "?Q k = Empty" if "1024 \<le> k" for k using pages_named_less [of k ?ps] that by (auto simp: whole_def)
  have up: "pv s' y k = (if y = x then ?Q k else pv s y k)" if "y \<in> C" "k < 1024" for y k
    using R(5) that eq by (auto simp: whole_def)
  have st: "a_pstep (Reserve c start len r) (loaded s, spaces (L, s)) (loaded s, (spaces (L, s))(cr3_of x \<mapsto> ?Q))"
    using spaces_whole [OF assms(1) x(1)] x(2) eq by auto
  show ?thesis by (rule good_update [OF assms(1) x(1) R(2-4) [unfolded eq] big up st])
qed

lemma fault_kernel:
  assumes "pinv C (L, s)" "mm_cr3 s = mm_kernel s"
  shows "page_fault err va s = (False, s)"
proof -
  have "current_space s = mm_kernel s" using pinvD(5) [OF assms(1)] assms(2) by (simp add: current_space_def)
  then show ?thesis by (simp add: page_fault_def handle_demand_fault_def handle_cow_fault_def)
qed

lemma good_fault:
  assumes "pinv C (L, s)" "page_fault err va s = (r, s')"
  shows "good_step (Fault err va r) (L, s) (L, s')"
proof -
  note P = pinvD [OF assms(1)]
  have same: "good_step (Fault err va r) (L, s) (L, s')"
    if "paging_inv C (\<lambda>_. 0) s'" "keeps C s s'"
  proof -
    note N = pinv_next [OF assms(1) P(1) that(1) keepsD(1,2) [OF that(2)] P(6)]
    have "spaces (L, s') = spaces (L, s)" unfolding P(1) by (rule spaces_keep [OF P(2) that(1) keepsD(3) [OF that(2)]])
    then show ?thesis using N by (auto simp: good_step_def abs_pstate_def)
  qed
  have refl: "keeps C s s" using P(4) by (auto simp: keeps_def intro!: exI [of _ "{}"])
  show ?thesis
  proof (cases "mm_cr3 s = mm_kernel s")
    case True
    then have "s' = s" using fault_kernel [OF assms(1)] assms(2) by simp
    then show ?thesis using same P(2) refl by simp
  next
    case False
    then obtain x where x: "x \<in> C" "mm_cr3 s = cr3_of x" using P(1,6) by blast
    show ?thesis
    proof (cases "bit err 0")
      case True
      then have "s' = s \<or> handle_cow_fault va s = (r, s')" using assms(2) by (auto simp: page_fault_def split: if_splits)
      then show ?thesis
      proof
        assume "s' = s"
        then show ?thesis using same P(2) refl by simp
      next
        assume "handle_cow_fault va s = (r, s')"
        then show ?thesis using same cow_keeps [OF P(2-4) x, of va] by auto
      qed
    next
      case False
      then have run: "handle_demand_fault va s = (r, s')" using assms(2) by (simp add: page_fault_def)
      obtain r0 s0 where R: "handle_demand_fault va s = (r0, s0)" "paging_inv C (\<lambda>_. 0) s0" "entries_ok C s0"
        "\<exists>W\<subseteq>{..<POOL_FRAMES}. writes W s s0"
        "if r0 then \<exists>k. user_index va = Some k \<and> pv s x k = Reserved \<and>
           (\<forall>y\<in>C. \<forall>l<1024. pv s0 y l = (if y = x \<and> l = k then Data (\<lambda>_. 0) else pv s y l)) else s0 = s"
        using demand_keeps [OF P(2-4) x, of va] by (elim exE conjE) (rule that; (assumption | blast))
      have eq: "r0 = r" "s0 = s'" using R(1) run by simp_all
      note R = R [unfolded eq]
      show ?thesis
      proof (cases r)
        case False
        then show ?thesis using same P(2) refl R(5) by simp
      next
        case True
        then obtain k where k: "user_index va = Some k" "pv s x k = Reserved"
          "\<forall>y\<in>C. \<forall>l<1024. pv s' y l = (if y = x \<and> l = k then Data (\<lambda>_. 0) else pv s y l)" using R(5) by auto
        let ?Q = "(whole s x)(k := Data (\<lambda>_. 0))"
        have k1024: "k < 1024" by (rule user_index_less [OF k(1)])
        have big: "?Q l = Empty" if "1024 \<le> l" for l using k1024 that by (simp add: whole_def)
        have up: "pv s' y l = (if y = x then ?Q l else pv s y l)" if "y \<in> C" "l < 1024" for y l
          using k(3) that by (auto simp: whole_def)
        have cur: "loaded s = Some (cr3_of x)" using \<open>mm_cr3 s \<noteq> mm_kernel s\<close> x(2) by (simp add: loaded_def)
        have wk: "whole s x k = Reserved" using k(2) k1024 by (simp add: whole_def)
        have st: "a_pstep (Fault err va r) (loaded s, spaces (L, s)) (loaded s, (spaces (L, s))(cr3_of x \<mapsto> ?Q))"
          using \<open>\<not> bit err 0\<close> True cur spaces_whole [OF assms(1) x(1)] k(1) wk by auto
        show ?thesis by (rule good_update [OF assms(1) x(1) R(2-4) big up st])
      qed
    qed
  qed
qed

lemma good_store:
  assumes "pinv C (L, s)" "user_store va b s = Some s'" "mm_cr3 s \<in> L"
    "\<And>k. user_index va = Some k \<Longrightarrow> \<exists>f. page_at s (mm_cr3 s) k = Data f"
  shows "good_step (Store va b) (L, s) (L, s')"
proof -
  note P = pinvD [OF assms(1)]
  obtain x where x: "x \<in> C" "mm_cr3 s = cr3_of x" using assms(3) P(1) by blast
  have chx: "chain_ok s x" by (rule paging_invD(3) [OF P(2) x(1)])
  have data: "\<exists>f. pv s x k = Data f" if "user_index va = Some k" for k
    using assms(4) [OF that] user_index_less [OF that] by (simp add: x(2) page_at_space [OF chx])
  have "\<exists>k f. user_index va = Some k \<and> pv s x k = Data f \<and> paging_inv C (\<lambda>_. 0) s' \<and> entries_ok C s' \<and>
     (\<exists>W\<subseteq>{..<POOL_FRAMES}. writes W s s') \<and>
     (\<forall>y\<in>C. \<forall>l<1024. pv s' y l = (if y = x \<and> l = k then Data (f(va mod PAGE_SIZE := b)) else pv s y l))"
    by (rule store_keeps [OF P(2-4) x assms(2)]) (rule data)
  then obtain k f where R: "user_index va = Some k" "pv s x k = Data f" "paging_inv C (\<lambda>_. 0) s'" "entries_ok C s'"
     "\<exists>W\<subseteq>{..<POOL_FRAMES}. writes W s s'"
     "\<forall>y\<in>C. \<forall>l<1024. pv s' y l = (if y = x \<and> l = k then Data (f(va mod PAGE_SIZE := b)) else pv s y l)"
    by (elim exE conjE) (rule that; (assumption | blast))
  let ?Q = "(whole s x)(k := Data (f(va mod PAGE_SIZE := b)))"
  have k1024: "k < 1024" by (rule user_index_less [OF R(1)])
  have big: "?Q l = Empty" if "1024 \<le> l" for l using k1024 that by (simp add: whole_def)
  have up: "pv s' y l = (if y = x then ?Q l else pv s y l)" if "y \<in> C" "l < 1024" for y l
    using R(6) that by (auto simp: whole_def)
  have cur: "loaded s = Some (cr3_of x)" using cr3_not_kernel(2) [OF P(3) chx] x(2) by (simp add: loaded_def)
  have wk: "whole s x k = Data f" using R(2) k1024 by (simp add: whole_def)
  have st: "a_pstep (Store va b) (loaded s, spaces (L, s)) (loaded s, (spaces (L, s))(cr3_of x \<mapsto> ?Q))"
    using cur spaces_whole [OF assms(1) x(1)] R(1) wk by auto
  show ?thesis by (rule good_update [OF assms(1) x(1) R(3-5) big up st])
qed

lemma show_window_big:
  "show_window va phys is P = (r, P') \<Longrightarrow> 1024 \<le> k \<Longrightarrow> P' k = P k"
proof (induction "is" arbitrary: P)
  case (Cons i "is")
  show ?case
  proof (cases "user_index (va + i * PAGE_SIZE)")
    case None
    then show ?thesis using Cons.prems by simp
  next
    case (Some j)
    then have "j < 1024" by (rule user_index_less)
    then show ?thesis using Cons Some by simp
  qed
qed simp

lemma good_window:
  assumes "pinv C (L, s)" "c \<in> L" "map_user_frames c va phys len s = (r, s')"
    "\<And>i. i \<in> set (window_list len) \<Longrightarrow> phys + i * PAGE_SIZE < 2 ^ 52 \<and> index_of (phys + i * PAGE_SIZE) = None"
    "no_private (page_at s c) va (window_list len)"
  shows "good_step (MapWindow c va phys len r) (L, s) (L, s')"
proof -
  note P = pinvD [OF assms(1)]
  obtain x where x: "x \<in> C" "c = cr3_of x" using assms(2) P(1) by blast
  have chx: "chain_ok s x" by (rule paging_invD(3) [OF P(2) x(1)])
  note ck = cr3_not_kernel [OF P(3) chx]
  show ?thesis
  proof (cases "0 < len \<and> va mod PAGE_SIZE = 0 \<and> phys mod PAGE_SIZE = 0")
    case False
    then have "s' = s" "r = (len = 0)" using assms(3) ck x(2) by (auto simp: map_user_frames_def split: if_splits)
    then show ?thesis using assms(1) False spaces_whole [OF assms(1) x(1)] x(2)
      unfolding good_step_def abs_pstate_def by auto
  next
    case True
    then have run: "map_pages c va phys (window_list len) s = (r, s')"
      using assms(3) ck x(2) by (auto simp: map_user_frames_def window_list_def)
    have np: "no_private (whole s x) va (window_list len)"
      using assms(5) by (simp add: no_private_def x(2) page_at_space [OF chx] whole_def cong: option.case_cong)
    have w: "whole s x k = pv s x k" if "k < 1024" for k using that by (simp add: whole_def)
    have "\<exists>r s' P'. map_pages (cr3_of x) va phys (window_list len) s = (r, s') \<and>
      show_window va phys (window_list len) (whole s x) = (r, P') \<and> paging_inv C (\<lambda>_. 0) s' \<and>
      entries_ok C s' \<and> (\<exists>W\<subseteq>{..<POOL_FRAMES}. writes W s s') \<and>
      (\<forall>y\<in>C. \<forall>k<1024. pv s' y k = (if y = x then P' k else pv s y k))"
      by (rule window_keeps [OF P(2-4) x(1) _ _ np]) (use True assms(4) w in auto)
    then obtain r0 s0 P' where R: "map_pages (cr3_of x) va phys (window_list len) s = (r0, s0)"
      "show_window va phys (window_list len) (whole s x) = (r0, P')" "paging_inv C (\<lambda>_. 0) s0" "entries_ok C s0"
      "\<exists>W\<subseteq>{..<POOL_FRAMES}. writes W s s0" "\<forall>y\<in>C. \<forall>k<1024. pv s0 y k = (if y = x then P' k else pv s y k)"
      by (elim exE conjE) (rule that; (assumption | blast))
    have eq: "r0 = r" "s0 = s'" using R(1) run x(2) by simp_all
    note R = R [unfolded eq]
    have big: "P' k = Empty" if "1024 \<le> k" for k
      using show_window_big [OF R(2) that] that by (simp add: whole_def)
    have up: "pv s' y k = (if y = x then P' k else pv s y k)" if "y \<in> C" "k < 1024" for y k using R(6) that by blast
      have st: "a_pstep (MapWindow c va phys len r) (loaded s, spaces (L, s)) (loaded s, (spaces (L, s))(cr3_of x \<mapsto> P'))"
      using True spaces_whole [OF assms(1) x(1)] x(2) R(2) by simp
    show ?thesis by (rule good_update [OF assms(1) x(1) R(3-5) big up st])
  qed
qed

lemma pinv_step: "pinv C st \<Longrightarrow> pstep l st st' \<Longrightarrow> good_step l st st'"
  by (erule pstep.cases)
    (auto intro: good_create good_clone good_destroy good_switch good_reserve good_fault good_store good_window simp del: a_pstep.simps)

lemma frames_count_init: "frames_count (frames_init mem) f = 0"
  by (simp add: frames_count_def frames_init_def frames_ops)

lemma pinv_init: "pinit st \<Longrightarrow> pinv {} st"
  by (auto simp: pinit_def pinv_def mmu_init_def entries_ok_def paging_inv_def frames_inv_init table_frames_def refs_def
      entries_def frames_count_init)

lemma preach_inv: "preach st \<Longrightarrow> \<exists>C. pinv C st"
  by (induction rule: preach.induct) (use pinv_init pinv_step in \<open>auto simp: good_step_def\<close>)

end
