(* ===== verification/PagingProps.thy ===== *)
theory PagingProps imports PagingView begin

text \<open>
  The properties of the address spaces, and a concrete run that their witnesses use.
\<close>

section \<open>The properties\<close>

text \<open>The entry of user page \<open>k\<close> in the space \<open>cr3\<close>, by the walk of the code.\<close>

definition entry_at :: "mmu \<Rightarrow> nat \<Rightarrow> nat \<Rightarrow> 64 word" where
  "entry_at s cr3 k =
     (case user_pte s cr3 (USER_MEM_START + k * PAGE_SIZE) of None \<Rightarrow> 0 | Some e \<Rightarrow> rd64 (mm_mem s) e)"

text \<open>The five frames of the tables of a space, and the entries that map a frame.\<close>

definition tables_at :: "mmu \<Rightarrow> nat \<Rightarrow> nat list" where
  "tables_at s cr3 =
     (let pdpt = entry_addr (pte_at s cr3 0); pd = entry_addr (pte_at s pdpt 0) in
      [cr3, pdpt, pd, entry_addr (pte_at s pd USER_PD_FIRST), entry_addr (pte_at s pd USER_PD_LAST)])"

definition uses :: "mmu \<Rightarrow> nat \<Rightarrow> nat \<Rightarrow> nat" where
  "uses s cr3 f =
     length (filter (\<lambda>t. t = frame_addr f) (tables_at s cr3)) +
     length (filter (\<lambda>k. frame_of (entry_at s cr3 k) = Some f) [0..<2 * ENTRIES])"

lemma entry_at_space:
  assumes "chain_ok s x" "k < 1024"
  shows "entry_at s (cr3_of x) k = upte s x k"
proof -
  have "(12582912 + k * 4096) div 4096 = 3072 + k" by simp
  then have "user_index (USER_MEM_START + k * PAGE_SIZE) = Some k" using assms(2) by (simp add: user_index_def)
  then show ?thesis by (simp add: entry_at_def user_pte_index [OF assms(1)])
qed

lemma tables_at_space:
  assumes "chain_ok s x"
  shows "tables_at s (cr3_of x) = map frame_addr (tabs x)"
  using chain_okD [OF assms] by (simp add: tables_at_def tabs_def Let_def fw_def [symmetric] cr3_of_def)

lemma uses_space:
  assumes "chain_ok s x"
  shows "uses s (cr3_of x) f = (if f \<in> set (tabs x) then 1 else 0) + mapped s x f"
proof -
  have d: "distinct (tabs x)" using chain_okD(1) [OF assms] .
  have "length (filter (\<lambda>t. t = frame_addr f) (map frame_addr ts)) = (if f \<in> set ts then 1 else 0)" if "distinct ts" for ts
    using that by (induction ts) auto
  then have 1: "length (filter (\<lambda>t. t = frame_addr f) (tables_at s (cr3_of x))) = (if f \<in> set (tabs x) then 1 else 0)"
    using d by (simp add: tables_at_space [OF assms])
  have "filter (\<lambda>k. frame_of (entry_at s (cr3_of x) k) = Some f) [0..<1024] = filter (\<lambda>k. frame_of (upte s x k) = Some f) [0..<1024]"
    by (rule filter_cong) (simp_all add: entry_at_space [OF assms])
  moreover have "mapped s x f = length (filter (\<lambda>k. frame_of (upte s x k) = Some f) [0..<1024])"
    unfolding mapped_def by (subst distinct_length_filter) (auto intro: arg_cong [where f = card])
  ultimately show ?thesis using 1 by (simp add: uses_def)
qed

lemma refs_sum: "finite C \<Longrightarrow> refs C s f = (\<Sum>x\<in>C. mapped s x f)"
proof (induction C rule: finite_induct)
  case empty
  then show ?case by (simp add: refs_def entries_def)
next
  case (insert x C)
  then show ?case using refs_insert [OF insert(1,2)] by simp
qed

lemma tables_sum:
  assumes "finite C" "\<And>x y. x \<in> C \<Longrightarrow> y \<in> C \<Longrightarrow> x \<noteq> y \<Longrightarrow> set (tabs x) \<inter> set (tabs y) = {}"
  shows "(if f \<in> table_frames C then 1 else 0) = (\<Sum>x\<in>C. if f \<in> set (tabs x) then 1 else (0 :: nat))"
  using assms
proof (induction C rule: finite_induct)
  case empty
  then show ?case by (simp add: table_frames_def)
next
  case (insert x C)
  have IH: "(if f \<in> table_frames C then 1 else 0) = (\<Sum>x\<in>C. if f \<in> set (tabs x) then 1 else (0 :: nat))"
    by (rule insert.IH) (use insert.prems in blast)
  have "f \<in> set (tabs x) \<Longrightarrow> f \<notin> table_frames C" using insert.prems insert.hyps(2) by (force simp: table_frames_def)
  moreover have "f \<in> table_frames (insert x C) \<longleftrightarrow> f \<in> set (tabs x) \<or> f \<in> table_frames C" by (simp add: table_frames_def)
  moreover have "(\<Sum>y\<in>insert x C. if f \<in> set (tabs y) then 1 else (0 :: nat)) =
      (if f \<in> set (tabs x) then 1 else 0) + (if f \<in> table_frames C then 1 else 0)"
    by (simp only: sum.insert [OF insert.hyps] IH)
  ultimately show ?case by simp
qed

lemma count_uses:
  assumes "pinv C (L, s)" "f < POOL_FRAMES"
  shows "frames_count (mm_fr s) f = (\<Sum>c\<in>L. uses s c f)"
proof -
  note P = pinvD [OF assms(1)]
  note D = paging_invD [OF P(2)]
  have "frames_count (mm_fr s) f = (\<Sum>x\<in>C. (if f \<in> set (tabs x) then 1 else 0) + mapped s x f)"
    using D(5) [OF assms(2)] tables_sum [OF D(2,4), of f] refs_sum [OF D(2)] by (simp add: sum.distrib)
  also have "\<dots> = (\<Sum>x\<in>C. uses s (cr3_of x) f)"
    by (rule sum.cong) (simp_all add: uses_space [OF D(3)])
  also have "\<dots> = (\<Sum>c\<in>L. uses s c f)"
    unfolding P(1) by (rule sum.reindex [symmetric, unfolded o_def]) (rule inj_onI, rule cr3_of_inj [OF P(2)])
  finally show ?thesis .
qed

lemma alloc_free_frame:
  assumes "paging_inv C held s" "f < POOL_FRAMES" "frames_count (mm_fr s) f = 0"
  shows "mm_alloc s \<noteq> None"
proof
  assume "mm_alloc s = None"
  then have "frames_alloc (mm_fr s) = None" by (auto simp: mm_alloc_def split: option.splits)
  then have "frames_bit (mm_fr s) f" using frames_alloc_None assms(2) by blast
  then show False using frames_count_pos [OF paging_invD(1) [OF assms(1)], of f] assms(2,3) by simp
qed

text \<open>A fault of a store to a page of the program is resolved as long as the pool has a frame.\<close>

lemma store_ok:
  assumes "chain_ok s x" "mm_cr3 s = cr3_of x" "user_index va = Some k"
  shows "user_store va b s = None \<longleftrightarrow> \<not> (bit (upte s x k) 0 \<and> bit (upte s x k) 1 \<and> bit (upte s x k) 2)"
  by (simp add: user_store_def current_space_of [OF assms(1,2)] user_pte_index [OF assms(1)] assms(3) Let_def)

lemma fault_resolved:
  assumes "pinv C (L, s)" "mm_cr3 s \<in> L" "user_index va = Some k" "page_at s (mm_cr3 s) k \<noteq> Empty"
    "f < POOL_FRAMES" "frames_count (mm_fr s) f = 0" "user_store va b s = None"
    "bit err 0 \<longleftrightarrow> bit (entry_at s (mm_cr3 s) k) 0" "bit err 1"
  shows "fst (page_fault err va s)" "user_store va b (snd (page_fault err va s)) \<noteq> None"
proof -
  note P = pinvD [OF assms(1)]
  obtain x where x: "x \<in> C" "mm_cr3 s = cr3_of x" using assms(2) P(1) by blast
  have chx: "chain_ok s x" by (rule paging_invD(3) [OF P(2) x(1)])
  note ck = cr3_not_kernel [OF P(3) chx]
  have k: "k < 1024" by (rule user_index_less [OF assms(3)])
  have ea: "entry_at s (mm_cr3 s) k = upte s x k" using entry_at_space [OF chx k] x(2) by simp
  have ok: "entry_ok (upte s x k)" by (rule entries_okD [OF P(4) x(1) k])
  have al: "mm_alloc s \<noteq> None" by (rule alloc_free_frame [OF P(2) assms(5,6)])
  have pv: "pv s x k \<noteq> Empty" using assms(4) k by (simp add: x(2) page_at_space [OF chx])
  have up: "user_pte s (cr3_of x) va = Some (slot_of x k)" using user_pte_index [OF chx] assms(3) by simp
  have "fst (page_fault err va s) \<and> user_store va b (snd (page_fault err va s)) \<noteq> None"
  proof (cases "bit (upte s x k) 0")
    case False
    then have b: "bit (upte s x k) 11" using pv by (auto simp: pv_def page_of_def split: if_splits)
    have pf: "page_fault err va s = handle_demand_fault va s" using assms(8) ea False by (simp add: page_fault_def)
    obtain a s1 where as1: "mm_alloc s = Some (a, s1)" using al by auto
    have "fst (handle_demand_fault va s)"
      using ck up False b as1 by (simp add: handle_demand_fault_def current_space_of [OF chx x(2)] Let_def)
    moreover obtain r s' where R: "handle_demand_fault va s = (r, s')" "paging_inv C (\<lambda>_. 0) s'" and
      K: "if r then \<exists>k g. user_index va = Some k \<and> \<not> bit (upte s x k) 0 \<and> bit (upte s x k) 11 \<and> g < POOL_FRAMES \<and>
             frames_count (mm_fr s) g = 0 \<and> writes {g, pt_of x k} s s' \<and> upte s' x k = frame_entry g \<and>
             (\<forall>y\<in>C. \<forall>l<1024. (y, l) \<noteq> (x, k) \<longrightarrow> upte s' y l = upte s y l) \<and>
             (\<forall>a. in_frame g a \<longrightarrow> mm_mem s' a = 0)
      else s' = s"
      using demand_fault_ok [OF P(2,3) x, of va] by (elim exE conjE) (rule that; assumption)
    ultimately have r: "r" by simp
    then obtain g W where g: "g < POOL_FRAMES" "upte s' x k = frame_entry g" "writes W s s'" using K assms(3) by auto
    have "mm_cr3 s' = cr3_of x" using writesD(1) [OF g(3)] x(2) by simp
    then have "user_store va b s' \<noteq> None"
      using store_ok [OF paging_invD(3) [OF R(2) x(1)] _ assms(3)] g(2) bit_frame_entry [OF g(1)] by simp
    then show ?thesis using pf R(1) r by simp
  next
    case True
    have "\<not> bit (upte s x k) 1"
      using store_ok [OF chx x(2) assms(3), of b] assms(7) True ok by (auto simp: entry_ok_def)
    then have c: "bit (upte s x k) 9" using ok True by (simp add: entry_ok_def)
    have pf: "page_fault err va s = handle_cow_fault va s" using assms(8,9) ea True by (simp add: page_fault_def)
    obtain a s1 where as1: "mm_alloc s = Some (a, s1)" using al by auto
    have "fst (handle_cow_fault va s)"
      using ck up True c as1 by (simp add: handle_cow_fault_def current_space_of [OF chx x(2)] Let_def)
    moreover obtain r s' where R: "handle_cow_fault va s = (r, s')" "paging_inv C (\<lambda>_. 0) s'" "keeps C s s'" and
      K: "if r then \<exists>k. user_index va = Some k \<and> bit (upte s x k) 0 \<and> bit (upte s' x k) 0 \<and> bit (upte s' x k) 1 else s' = s"
      using cow_keeps [OF P(2-4) x, of va] by (elim exE conjE) (rule that; assumption)
    ultimately have r: "r" by simp
    then have b: "bit (upte s' x k) 0" "bit (upte s' x k) 1" using K assms(3) by auto
    have "entry_ok (upte s' x k)" by (rule entries_okD [OF keepsD(1) [OF R(3)] x(1) k])
    then have b2: "bit (upte s' x k) 2" using b by (simp add: entry_ok_def)
    obtain W where "writes W s s'" using keepsD(2) [OF R(3)] by blast
    then have "mm_cr3 s' = cr3_of x" using writesD(1) x(2) by simp
    then have "user_store va b s' \<noteq> None"
      using store_ok [OF paging_invD(3) [OF R(2) x(1)] _ assms(3)] b b2 by simp
    then show ?thesis using pf R(1) r by simp
  qed
  then show "fst (page_fault err va s)" "user_store va b (snd (page_fault err va s)) \<noteq> None" by auto
qed

section \<open>A creation needs five frames\<close>

definition spare :: "mmu \<Rightarrow> nat" where
  "spare s = card {f \<in> {..<POOL_FRAMES}. frames_count (mm_fr s) f = 0}"

lemma spare_alloc:
  assumes "frames_inv (mm_fr s)" "Suc n \<le> spare s"
  shows "\<exists>a s'. mm_alloc s = Some (a, s') \<and> frames_inv (mm_fr s') \<and> n \<le> spare s'"
proof -
  have "{f \<in> {..<POOL_FRAMES}. frames_count (mm_fr s) f = 0} \<noteq> {}"
  proof
    assume "{f \<in> {..<POOL_FRAMES}. frames_count (mm_fr s) f = 0} = {}"
    then show False using assms(2) by (simp only: spare_def card.empty)
  qed
  then obtain f where f: "f < 4096" "frames_count (mm_fr s) f = 0" by blast
  have "\<not> frames_bit (mm_fr s) f" using frames_count_pos [OF assms(1), of f] f by simp
  then obtain a fr where al: "frames_alloc (mm_fr s) = Some (a, fr)"
    using frames_alloc_None [of "mm_fr s"] f(1) by (cases "frames_alloc (mm_fr s)") auto
  obtain i where i: "i < 4096" "frames_inv fr"
    and r: "\<forall>j. frames_refs fr j = (if j = i then 1 else frames_refs (mm_fr s) j)"
    using frames_alloc_Some [OF assms(1) al] by blast
  have "frames_count fr j = frames_count (mm_fr s) j" if "j < 4096" "j \<noteq> i" for j
    using r that by (simp add: frames_count_def)
  then have "{f \<in> {..<4096}. frames_count (mm_fr s) f = 0} - {i} \<subseteq> {f \<in> {..<4096}. frames_count fr f = 0}" by auto
  then have "card ({f \<in> {..<4096}. frames_count (mm_fr s) f = 0} - {i}) \<le> spare (s\<lparr>mm_fr := fr\<rparr>)"
    unfolding spare_def by (intro card_mono) simp_all
  moreover have "spare s - 1 \<le> card ({f \<in> {..<4096}. frames_count (mm_fr s) f = 0} - {i})"
    unfolding spare_def by (simp add: card_Diff_singleton_if)
  ultimately have "n \<le> spare (s\<lparr>mm_fr := fr\<rparr>)" using assms(2) by simp
  then show ?thesis using al i(2) by (simp add: mm_alloc_def)
qed

lemma spare_writes [simp]:
  "spare (put_word a v s) = spare s" "spare (put_pte t k v s) = spare s" "spare (copy_table a b s) = spare s"
  by (simp_all add: spare_def put_pte_def copy_table_def)

lemma writes_fields [simp]:
  "frames_inv (mm_fr (put_pte t k v s)) = frames_inv (mm_fr s)" "frames_inv (mm_fr (copy_table a b s)) = frames_inv (mm_fr s)"
  by (simp_all add: put_pte_def copy_table_def)

lemma create_some:
  assumes "frames_inv (mm_fr s)" "mm_kernel s \<noteq> 0" "Suc (Suc (Suc (Suc (Suc n)))) \<le> spare s"
  shows "\<exists>c s'. create_user_space s = (Some c, s') \<and> n \<le> spare s'"
proof -
  obtain a s1 where 1: "mm_alloc s = Some (a, s1)" "frames_inv (mm_fr s1)" "Suc (Suc (Suc (Suc n))) \<le> spare s1"
    using spare_alloc [OF assms(1,3)] by blast
  obtain b s2 where 2: "mm_alloc s1 = Some (b, s2)" "frames_inv (mm_fr s2)" "Suc (Suc (Suc n)) \<le> spare s2"
    using spare_alloc [OF 1(2,3)] by blast
  obtain c s3 where 3: "mm_alloc s2 = Some (c, s3)" "frames_inv (mm_fr s3)" "Suc (Suc n) \<le> spare s3"
    using spare_alloc [OF 2(2,3)] by blast
  define kp where "kp = entry_addr (pte_at s3 (mm_kernel s) 0)"
  define kd where "kd = entry_addr (pte_at s3 kp 0)"
  define s4 where "s4 = put_pte b 0 (of_nat c OR table_flags) (put_pte a 0 (of_nat b OR table_flags)
    (copy_table kd c (copy_table kp b (copy_table (mm_kernel s) a s3))))"
  have i4: "frames_inv (mm_fr s4)" "Suc (Suc n) \<le> spare s4" using 3 by (simp_all add: s4_def)
  obtain d s5 where 4: "mm_alloc s4 = Some (d, s5)" "frames_inv (mm_fr s5)" "Suc n \<le> spare s5"
    using spare_alloc [OF i4] by blast
  define s6 where "s6 = put_pte c 6 (of_nat d OR table_flags) s5"
  have i6: "frames_inv (mm_fr s6)" "Suc n \<le> spare s6" using 4 by (simp_all add: s6_def)
  obtain e s7 where 5: "mm_alloc s6 = Some (e, s7)" "frames_inv (mm_fr s7)" "n \<le> spare s7"
    using spare_alloc [OF i6] by blast
  have rng: "[6..<7 + 1] = [6, 7 :: nat]" by (simp add: upt_rec)
  have "create_user_space s = add_user_tables a c [6, 7] s4"
    using assms(2) 1(1) 2(1) 3(1)
    by (simp add: create_user_space_def Let_def rng kp_def [symmetric] kd_def [symmetric] s4_def del: add_user_tables.simps upt_Suc)
  also have "\<dots> = (Some a, put_pte c 7 (of_nat e OR table_flags) s7)"
    using 4(1) 5(1) by (simp add: s6_def)
  finally show ?thesis using 5(3) by simp
qed

lemma spare_reserve: "spare (snd (reserve_pages c ps s)) = spare s"
  by (induction ps arbitrary: s) (simp_all split: option.splits)

lemma spare_init: "spare (s\<lparr>mm_fr := frames_init mem\<rparr>) = POOL_FRAMES"
  by (simp add: spare_def frames_count_init)


section \<open>A concrete run\<close>

text \<open>
  The kernel's tables at 4096, empty; one space is created, its first page reserved, the space
  loaded; the first store faults, and is made.
\<close>

definition boot_mmu :: mmu where
  "boot_mmu = mmu_init \<lparr>mm_fr = frames_init (\<lambda>_. 0), mm_cr3 = 4096, mm_kernel = 0, mm_owner = replicate MAX_SPLITS None,
     mm_split = 0, mm_wp = False\<rparr>"

definition demo_space :: nat where
  "demo_space = the (fst (create_user_space boot_mmu))"

definition demo_loaded :: mmu where
  "demo_loaded = switch_to demo_space (snd (reserve_user_range demo_space USER_MEM_START PAGE_SIZE (snd (create_user_space boot_mmu))))"

definition demo_stored :: mmu where
  "demo_stored = the (user_store USER_MEM_START 7 (snd (page_fault 2 USER_MEM_START demo_loaded)))"

lemma rd64_zero: "rd64 (\<lambda>_. 0) a = 0"
  by (simp add: rd64_def upt_rec)

lemma boot_pinit: "pinit ({}, boot_mmu)"
proof -
  define s0 where "s0 = \<lparr>mm_fr = frames_init (\<lambda>_. 0), mm_cr3 = 4096, mm_kernel = 0, mm_owner = replicate MAX_SPLITS None,
     mm_split = 0, mm_wp = False\<rparr>"
  have e: "entry_addr (word_of_nat 4096) = 4096" by (simp add: entry_addr_def)
  have z: "entry_addr 0 = 0" by (simp add: entry_addr_def)
  have m: "mm_mem (mmu_init s0) = (\<lambda>_. 0)" by (simp add: s0_def mmu_init_def frames_init_def)
  have "kernel_ok (mmu_init s0)"
    using e z by (simp add: kernel_ok_def pte_at_def m rd64_zero outside_def index_of_def harmless_def)
      (simp add: mmu_init_def s0_def outside_def index_of_def)
  then show "pinit ({}, boot_mmu)"
    unfolding pinit_def by (intro exI [of _ s0] exI [of _ "\<lambda>_. 0"]) (use e in \<open>simp add: boot_mmu_def s0_def\<close>)
qed

lemma boot_reach: "preach ({}, boot_mmu)"
  by (rule preach.intros(1) [OF boot_pinit])

lemma step_good: "preach st \<Longrightarrow> pstep l st st' \<Longrightarrow> good_step l st st' \<and> preach st'"
  using preach_inv pinv_step preach.intros(2) by blast

lemma demo_loaded_facts:
  "preach ({demo_space}, demo_loaded)" "mm_cr3 demo_loaded = demo_space" "loaded demo_loaded = Some demo_space"
  "page_at demo_loaded demo_space 0 = Reserved" "\<exists>f<POOL_FRAMES. frames_count (mm_fr demo_loaded) f = 0"
proof -
  have fi: "frames_inv (mm_fr boot_mmu)" "spare boot_mmu = 4096" "mm_kernel boot_mmu \<noteq> 0"
    by (simp_all add: boot_mmu_def mmu_init_def frames_inv_init spare_def frames_count_init entry_addr_def)
  then obtain c s1 where cr: "create_user_space boot_mmu = (Some c, s1)" "1 \<le> spare s1"
    using create_some [of boot_mmu 1] by auto
  have c: "demo_space = c" using cr(1) by (simp add: demo_space_def)
  note S1 = step_good [OF boot_reach pstep.create [OF cr(1)]]
  have A1: "loaded s1 = loaded boot_mmu" "spaces ({c}, s1) = (spaces ({}, boot_mmu))(c \<mapsto> \<lambda>_. Empty)" "preach ({c}, s1)"
    using S1 by (auto simp: good_step_def abs_pstate_def)
  obtain r s2 where rs: "reserve_user_range c USER_MEM_START PAGE_SIZE s1 = (r, s2)"
    by (cases "reserve_user_range c USER_MEM_START PAGE_SIZE s1")
  note S2 = step_good [OF A1(3) pstep.reserve [OF _ rs], OF singletonI]
  have rp: "range_pages USER_MEM_START PAGE_SIZE = [3072]" by (simp add: range_pages_def)
  have pn: "pages_named [3072] = {0}" by (simp add: user_index_def)
  have A2: "spaces ({c}, s2) c = Some (\<lambda>k. if k = 0 then Reserved else Empty)" "preach ({c}, s2)"
    using S2 A1(2) by (auto simp: good_step_def abs_pstate_def rp pn reserve_page_def simp del: pages_named.simps)
  note S3 = step_good [OF A2(2) pstep.switch [OF disjI1, OF singletonI]]
  have l: "demo_loaded = switch_to c s2" using cr rs by (simp add: demo_loaded_def c)
  then have S3: "good_step (Switch c) ({c}, s2) ({c}, demo_loaded)" "preach ({c}, demo_loaded)" using S3 by auto
  then show "preach ({demo_space}, demo_loaded)" by (simp add: c)
  obtain C where C: "pinv C ({c}, demo_loaded)" using preach_inv [OF S3(2)] by blast
  then obtain x where x: "x \<in> C" "c = cr3_of x" using pinvD(1) [OF C] by blast
  have cn: "c \<noteq> 0" using cr3_not_kernel(1) [OF pinvD(3) [OF C] paging_invD(3) [OF pinvD(2) [OF C] x(1)]] x(2) by simp
  then show "mm_cr3 demo_loaded = demo_space" by (simp add: l c switch_to_def)
  have A3: "loaded demo_loaded = Some c" "spaces ({c}, demo_loaded) = spaces ({c}, s2)"
    using S3(1) cn by (auto simp: good_step_def abs_pstate_def)
  show "loaded demo_loaded = Some demo_space" using A3(1) c by simp
  have "spaces ({c}, demo_loaded) c = Some (\<lambda>k. if k = 0 then Reserved else Empty)" using A3(2) A2(1) by (simp only:)
  then show "page_at demo_loaded demo_space 0 = Reserved" by (simp add: spaces_def c)
  have "spare demo_loaded = spare s1"
  proof -
    have "spare s2 = spare s1"
      using spare_reserve [of c "range_pages USER_MEM_START PAGE_SIZE" s1] rs
      by (simp add: reserve_user_range_def range_pages_def)
    then show ?thesis by (simp add: l switch_to_def spare_def)
  qed
  then have "{f \<in> {..<4096}. frames_count (mm_fr demo_loaded) f = 0} \<noteq> {}"
    using cr(2) by (metis card.empty not_one_le_zero spare_def)
  then show "\<exists>f<POOL_FRAMES. frames_count (mm_fr demo_loaded) f = 0" by blast
qed


lemma demo_store_faults: "user_store USER_MEM_START b demo_loaded = None"
proof -
  obtain C where C: "pinv C ({demo_space}, demo_loaded)" using preach_inv [OF demo_loaded_facts(1)] by blast
  then obtain x where x: "x \<in> C" "demo_space = cr3_of x" using pinvD(1) [OF C] by blast
  have chx: "chain_ok demo_loaded x" by (rule paging_invD(3) [OF pinvD(2) [OF C] x(1)])
  have i: "user_index USER_MEM_START = Some 0" by (simp add: user_index_def)
  have "pv demo_loaded x 0 = Reserved"
    using demo_loaded_facts(4) by (simp add: x(2) page_at_space [OF chx])
  then have "\<not> bit (upte demo_loaded x 0) 0" by (auto simp: pv_def page_of_def split: if_splits)
  then show ?thesis using store_ok [OF chx _ i, of b] demo_loaded_facts(2) x(2) by simp
qed

lemma demo_entry: "\<not> bit (entry_at demo_loaded demo_space 0) 0"
  using demo_loaded_facts(4)
  by (auto simp: page_at_def entry_at_def page_of_def split: option.splits if_splits)

lemma demo_fault:
  "fst (page_fault 2 USER_MEM_START demo_loaded)"
  "user_store USER_MEM_START b (snd (page_fault 2 USER_MEM_START demo_loaded)) \<noteq> None"
proof -
  obtain C where C: "pinv C ({demo_space}, demo_loaded)" using preach_inv [OF demo_loaded_facts(1)] by blast
  obtain f where f: "f < 4096" "frames_count (mm_fr demo_loaded) f = 0" using demo_loaded_facts(5) by blast
  have b: "bit (2 :: 64 word) 0 \<longleftrightarrow> bit (entry_at demo_loaded (mm_cr3 demo_loaded) 0) 0" "bit (2 :: 64 word) 1"
    using demo_entry demo_loaded_facts(2) by simp_all
  have l: "mm_cr3 demo_loaded \<in> {demo_space}" "user_index USER_MEM_START = Some 0" "page_at demo_loaded (mm_cr3 demo_loaded) 0 \<noteq> Empty"
    using demo_loaded_facts(2,4) by (simp_all add: user_index_def)
  note F = fault_resolved [OF C l f demo_store_faults [of b] b]
  show "fst (page_fault 2 USER_MEM_START demo_loaded)" by (rule F(1))
  show "user_store USER_MEM_START b (snd (page_fault 2 USER_MEM_START demo_loaded)) \<noteq> None" by (rule F(2))
qed

text \<open>After the fault the first page of the space is one of zeros, and may be written.\<close>

definition demo_faulted :: mmu where
  "demo_faulted = snd (page_fault 2 USER_MEM_START demo_loaded)"

lemma demo_faulted_facts:
  "preach ({demo_space}, demo_faulted)" "mm_cr3 demo_faulted = demo_space" "loaded demo_faulted = Some demo_space"
  "page_at demo_faulted demo_space = (page_at demo_loaded demo_space)(0 := Data (\<lambda>_. 0))"
  "bit (entry_at demo_faulted demo_space 0) 1"
proof -
  define s1 where "s1 = snd (page_fault 2 USER_MEM_START demo_loaded)"
  have pf: "page_fault 2 USER_MEM_START demo_loaded = (True, s1)"
    using demo_fault(1) by (simp add: s1_def prod_eq_iff)
  note S1 = step_good [OF demo_loaded_facts(1) pstep.fault [OF pf]]
  have i: "user_index USER_MEM_START = Some 0" by (simp add: user_index_def)
  obtain s2 where st: "user_store USER_MEM_START 7 s1 = Some s2" using demo_fault(2) [of 7] by (auto simp: s1_def)
  obtain C where C: "pinv C ({demo_space}, s1)" using preach_inv S1 by blast
  have sp0: "spaces ({demo_space}, demo_loaded) demo_space = Some (page_at demo_loaded demo_space)" by (simp add: spaces_def)
  have ap: "a_pstep (Fault 2 USER_MEM_START True) (Some demo_space, spaces ({demo_space}, demo_loaded)) (loaded s1, spaces ({demo_space}, s1))"
    using S1 demo_loaded_facts(3) by (simp add: good_step_def abs_pstate_def)
  then have cur: "loaded s1 = Some demo_space" by simp
  have cr3: "mm_cr3 s1 = demo_space" using cur by (auto simp: loaded_def split: if_splits)
  obtain x where x: "x \<in> C" "demo_space = cr3_of x" using pinvD(1) [OF C] by blast
  have chx: "chain_ok s1 x" by (rule paging_invD(3) [OF pinvD(2) [OF C] x(1)])
  have pres: "bit (upte s1 x 0) 0" "bit (upte s1 x 0) 1"
    using store_ok [OF chx _ i, of 7] st cr3 x(2) by auto
  have up: "spaces ({demo_space}, s1) \<noteq> spaces ({demo_space}, demo_loaded)"
  proof
    assume "spaces ({demo_space}, s1) = spaces ({demo_space}, demo_loaded)"
    from fun_cong [OF this, of demo_space] have "page_at s1 demo_space = page_at demo_loaded demo_space" by (simp add: spaces_def)
    then have "pv s1 x 0 = Reserved" using demo_loaded_facts(4) page_at_space [OF chx, of 0] x(2) by simp
    then show False using pres by (simp add: pv_def page_of_def split: if_splits)
  qed
  then have "spaces ({demo_space}, s1) = (spaces ({demo_space}, demo_loaded))(demo_space \<mapsto> (page_at demo_loaded demo_space)(0 := Data (\<lambda>_. 0)))"
    using ap sp0 i by auto
  then have p1: "page_at s1 demo_space = (page_at demo_loaded demo_space)(0 := Data (\<lambda>_. 0))"
    by (auto simp: spaces_def dest: fun_cong [of _ _ demo_space])
  have f: "demo_faulted = s1" by (simp add: demo_faulted_def s1_def)
  show "preach ({demo_space}, demo_faulted)" "mm_cr3 demo_faulted = demo_space" "loaded demo_faulted = Some demo_space"
    "page_at demo_faulted demo_space = (page_at demo_loaded demo_space)(0 := Data (\<lambda>_. 0))"
    using S1 cr3 cur p1 by (simp_all add: f)
  show "bit (entry_at demo_faulted demo_space 0) 1" using entry_at_space [OF chx, of 0] pres x(2) by (simp add: f)
qed

text \<open>After the store, it holds the byte.\<close>

lemma demo_stored_facts:
  "preach ({demo_space}, demo_stored)" "page_at demo_stored demo_space 0 = Data ((\<lambda>_. 0)(0 := 7))"
proof -
  define s1 where "s1 = demo_faulted"
  note F = demo_faulted_facts [folded s1_def]
  note S1 = F(1) and cr3 = F(2) and cur = F(3) and p1 = F(4)
  have i: "user_index USER_MEM_START = Some 0" by (simp add: user_index_def)
  obtain s2 where st: "user_store USER_MEM_START 7 s1 = Some s2" using demo_fault(2) [of 7] by (auto simp: s1_def demo_faulted_def)
  have s2: "demo_stored = s2" using st by (simp add: demo_stored_def s1_def demo_faulted_def)
  have d: "\<exists>f. page_at s1 (mm_cr3 s1) k = Data f" if "user_index USER_MEM_START = Some k" for k
    using that i p1 cr3 by simp
  have S2: "good_step (Store USER_MEM_START 7) ({demo_space}, s1) ({demo_space}, s2) \<and> preach ({demo_space}, s2)"
    by (rule step_good [OF S1 pstep.store [OF st]]) (use cr3 d in auto)
  then show "preach ({demo_space}, demo_stored)" by (simp add: s2)
  have sp1: "spaces ({demo_space}, s1) demo_space = Some (page_at s1 demo_space)" by (simp add: spaces_def)
  have "a_pstep (Store USER_MEM_START 7) (Some demo_space, spaces ({demo_space}, s1)) (loaded s2, spaces ({demo_space}, s2))"
    using S2 cur by (simp add: good_step_def abs_pstate_def)
  then have "spaces ({demo_space}, s2) demo_space = Some ((page_at s1 demo_space)(0 := Data ((\<lambda>_. 0)(0 := 7))))"
    using sp1 i p1 by auto
  then show "page_at demo_stored demo_space 0 = Data ((\<lambda>_. 0)(0 := 7))" by (simp add: spaces_def s2)
qed


section \<open>Statements\<close>

text \<open>Property C1.  Address spaces are private: whatever the processes and the kernel do with them
  (creation, fork, release, switches, reservations, page faults, stores, window mappings, in any
  order from the boot on), each operation changes the pages the processes see exactly as the abstract
  system of private page arrays does.  So a forked child starts with the pages of its parent, and
  a store in one of them is not seen by the other, though they share frames.\<close>

theorem paging_refines:
  assumes "preach st" "pstep l st st'"
  shows "a_pstep l (abs_pstate st) (abs_pstate st')"
  using step_good [OF assms] by (simp add: good_step_def)

theorem paging_refines_witness:
  "\<exists>r s'. clone_user_space demo_space demo_stored = (r, s') \<and>
     page_at demo_stored demo_space 0 = Data ((\<lambda>_. 0)(0 := 7)) \<and>
     a_pstep (Clone demo_space r) (abs_pstate ({demo_space}, demo_stored))
       (abs_pstate (case r of None \<Rightarrow> {demo_space} | Some c \<Rightarrow> insert c {demo_space}, s'))"
proof -
  obtain r s' where rs: "clone_user_space demo_space demo_stored = (r, s')"
    by (cases "clone_user_space demo_space demo_stored")
  show ?thesis
    using paging_refines [OF demo_stored_facts(1) pstep.clone [OF singletonI rs]] rs demo_stored_facts(2) by blast
qed

text \<open>Property C2.  In every reachable state a frame of the pool has exactly as many owners as there are
  page tables and user entries that name it, over all living spaces.  So no frame leaks and none is
  released while it is used: when the last space is gone, every frame is free.\<close>

theorem frames_accounted:
  assumes "preach (L, s)" "f < POOL_FRAMES"
  shows "frames_count (mm_fr s) f = (\<Sum>c\<in>L. uses s c f)"
  using preach_inv [OF assms(1)] count_uses assms(2) by blast

theorem frames_accounted_witness:
  "frames_count (mm_fr demo_stored) 0 = uses demo_stored demo_space 0"
  using frames_accounted [OF demo_stored_facts(1), of 0] by simp

text \<open>Property C3.  A frame that some entry of a process can write has that entry as its only owner: no other
  entry, of this space or another, maps it, and it is no page table.  What is shared after a fork is
  read-only in all spaces, so every write to it faults first.\<close>

theorem writable_not_shared:
  assumes "preach (L, s)" "c \<in> L" "k < 2 * ENTRIES" "frame_of (entry_at s c k) = Some f" "entry_at s c k AND PTE_WRITABLE \<noteq> 0"
  shows "(\<Sum>d\<in>L. uses s d f) = 1"
proof -
  obtain C where C: "pinv C (L, s)" using preach_inv [OF assms(1)] by blast
  note P = pinvD [OF C]
  note D = paging_invD [OF P(2)]
  obtain x where x: "x \<in> C" "c = cr3_of x" using assms(2) P(1) by blast
  have k: "k < 1024" using assms(3) by simp
  have e: "entry_at s c k = upte s x k" using entry_at_space [OF D(3) [OF x(1)] k] x(2) by simp
  have p: "(x, k) \<in> entries C" "entry_frame s (x, k) = Some f" "bit (upte s x k) 1"
    using x(1) k assms(4,5) e by (simp_all add: entries_def entry_frame_def)
  have one: "refs C s f = 1" using D(8) [OF p(1,2)] p(3) by simp
  then have "f \<notin> table_frames C" using D(7) [of f] by auto
  moreover have f: "f < 4096" using assms(4) by (simp add: frame_of_Some)
  ultimately have "frames_count (mm_fr s) f = 1" using D(5) [OF f] one by simp
  then show ?thesis using count_uses [OF C f] by simp
qed

theorem writable_not_shared_witness:
  "\<exists>f. frame_of (entry_at demo_faulted demo_space 0) = Some f \<and> (\<Sum>d\<in>{demo_space}. uses demo_faulted d f) = 1"
proof -
  have w: "entry_at demo_faulted demo_space 0 AND PTE_WRITABLE \<noteq> 0" using demo_faulted_facts(5) by simp
  obtain C where C: "pinv C ({demo_space}, demo_faulted)" using preach_inv [OF demo_faulted_facts(1)] by blast
  obtain x where x: "x \<in> C" "demo_space = cr3_of x" using pinvD(1) [OF C] by blast
  have chx: "chain_ok demo_faulted x" by (rule paging_invD(3) [OF pinvD(2) [OF C] x(1)])
  have "page_at demo_faulted demo_space 0 = Data (\<lambda>_. 0)" using demo_faulted_facts(4) by simp
  then have "bit (upte demo_faulted x 0) 0" "\<not> bit (upte demo_faulted x 0) 10"
    using page_at_space [OF chx, of 0] x(2) by (auto simp: pv_def page_of_def split: if_splits)
  then have "frame_of (upte demo_faulted x 0) \<noteq> None"
    using entries_okD [OF pinvD(4) [OF C] x(1), of 0] by (simp add: entry_ok_def)
  then obtain f where "frame_of (entry_at demo_faulted demo_space 0) = Some f"
    using entry_at_space [OF chx, of 0] x(2) by auto
  then show ?thesis using writable_not_shared [OF demo_faulted_facts(1) singletonI _ _ w] by auto
qed

text \<open>Property C4.  The entries of a process are well typed: each user entry of each living space is empty, a
  reservation, a page of the pool open to the user that is either writable or copy-on-write, or a
  page of a window, which lies outside the pool.\<close>

theorem entries_typed:
  assumes "preach (L, s)" "c \<in> L" "k < 2 * ENTRIES"
  shows "entry_ok (entry_at s c k)"
proof -
  obtain C where C: "pinv C (L, s)" using preach_inv [OF assms(1)] by blast
  note P = pinvD [OF C]
  obtain x where x: "x \<in> C" "c = cr3_of x" using assms(2) P(1) by blast
  show ?thesis
    using entry_at_space [OF paging_invD(3) [OF P(2) x(1)], of k] entries_okD [OF P(4) x(1), of k] assms(3) x(2) by simp
qed

theorem entries_typed_witness: "entry_ok (entry_at demo_stored demo_space 0)"
  by (rule entries_typed [OF demo_stored_facts(1) singletonI]) simp

text \<open>Property C5.  A store of a program to a reserved or copy-on-write page succeeds after one page fault, as
  long as the pool has a free frame: the handler reports the fault as solved, and the same store
  does not fault again.\<close>

theorem store_fault_resolved:
  assumes "preach (L, s)" "mm_cr3 s \<in> L" "user_index va = Some k" "page_at s (mm_cr3 s) k \<noteq> Empty"
    "f < POOL_FRAMES" "frames_count (mm_fr s) f = 0" "user_store va b s = None"
    "bit err 0 \<longleftrightarrow> bit (entry_at s (mm_cr3 s) k) 0" "bit err 1"
  shows "fst (page_fault err va s) \<and> user_store va b (snd (page_fault err va s)) \<noteq> None"
proof -
  obtain C where "pinv C (L, s)" using preach_inv [OF assms(1)] by blast
  then show ?thesis using fault_resolved assms(2-) by blast
qed

theorem store_fault_resolved_witness:
  "fst (page_fault 2 USER_MEM_START demo_loaded) \<and>
     user_store USER_MEM_START 7 (snd (page_fault 2 USER_MEM_START demo_loaded)) \<noteq> None"
proof -
  obtain f where f: "f < 4096" "frames_count (mm_fr demo_loaded) f = 0" using demo_loaded_facts(5) by blast
  have b: "bit (2 :: 64 word) 0 \<longleftrightarrow> bit (entry_at demo_loaded (mm_cr3 demo_loaded) 0) 0" "bit (2 :: 64 word) 1"
    using demo_entry demo_loaded_facts(2) by simp_all
  have l: "mm_cr3 demo_loaded \<in> {demo_space}" "user_index USER_MEM_START = Some 0" "page_at demo_loaded (mm_cr3 demo_loaded) 0 \<noteq> Empty"
    using demo_loaded_facts(2,4) by (simp_all add: user_index_def)
  show ?thesis by (rule store_fault_resolved [OF demo_loaded_facts(1) l f demo_store_faults b])
qed

end
