(* ===== verification/Vfs.thy ===== *)
theory Vfs imports TcmkfsProps Kmalloc begin

text \<open>
  The name space over the image files and the disk, \<^verbatim>\<open>kernel/src/level0a/core/vfs.rs\<close>: a table of nodes
  that a lookup searches by path, each a file of the kernel image (read-only, its bytes are the
  list \<open>n_data\<close>) or an inode of the file system.  The time of day is an argument, as in \<open>Tcmkfs\<close>;
  the next free address of the heap is an argument of \<open>vfs_load\<close>, which reads a file into it.
  The table only grows and never changes a path (\<open>table_grows\<close>), which carries the properties.
\<close>

section \<open>Nodes\<close>

abbreviation (input) MAX_NODES :: nat where "MAX_NODES \<equiv> 32"
abbreviation (input) MAX_PATH :: nat where "MAX_PATH \<equiv> 64"

datatype vsource = Ram | Disk

record vnode =
  n_path :: "byte list"
  n_path_len :: nat
  n_size :: nat
  n_source :: vsource
  n_data :: "byte list"
  n_inode :: nat
  n_used :: bool

definition node_empty :: vnode where
  "node_empty = \<lparr>n_path = replicate MAX_PATH 0, n_path_len = 0, n_size = 0, n_source = Ram, n_data = [], n_inode = 0, n_used = False\<rparr>"

record 'd vfs =
  v_nodes :: "vnode list"
  v_count :: nat
  v_fs :: "'d fs"

definition vfs_init :: "'d fs \<Rightarrow> 'd vfs" where
  "vfs_init s = \<lparr>v_nodes = replicate MAX_NODES node_empty, v_count = 0, v_fs = s\<rparr>"

definition upd_node :: "nat \<Rightarrow> (vnode \<Rightarrow> vnode) \<Rightarrow> 'd vfs \<Rightarrow> 'd vfs" where
  "upd_node i g v = v\<lparr>v_nodes := (v_nodes v)[i := g (v_nodes v ! i)]\<rparr>"

definition set_path :: "vnode \<Rightarrow> byte list \<Rightarrow> vnode" where
  "set_path n path =
     (let len = min (length path) MAX_PATH in n\<lparr>n_path := take len path @ drop len (n_path n), n_path_len := len\<rparr>)"

definition node_path :: "vnode \<Rightarrow> byte list" where
  "node_path n = take (n_path_len n) (n_path n)"

definition mount_static :: "byte list \<Rightarrow> byte list \<Rightarrow> 'd vfs \<Rightarrow> nat option \<times> 'd vfs" where
  "mount_static path data v =
     (let index = v_count v in
      if index \<ge> MAX_NODES then (None, v)
      else (let node = (set_path node_empty path)\<lparr>n_size := length data, n_source := Ram, n_data := data, n_used := True\<rparr>
            in (Some index, (upd_node index (\<lambda>_. node) v)\<lparr>v_count := index + 1\<rparr>)))"

definition attach_disk_node :: "byte list \<Rightarrow> nat \<Rightarrow> nat \<Rightarrow> 'd vfs \<Rightarrow> nat option \<times> 'd vfs" where
  "attach_disk_node path ino sz v =
     (let index = v_count v in
      if index \<ge> MAX_NODES then (None, v)
      else (let node = (set_path node_empty path)\<lparr>n_size := sz, n_source := Disk, n_inode := ino, n_used := True\<rparr>
            in (Some index, (upd_node index (\<lambda>_. node) v)\<lparr>v_count := index + 1\<rparr>)))"

definition vfs_lookup :: "'d vfs \<Rightarrow> byte list \<Rightarrow> nat option" where
  "vfs_lookup v path = find_slot (\<lambda>i. n_used (v_nodes v ! i) \<and> node_path (v_nodes v ! i) = path) 0 (v_count v)"

definition node_at :: "'d vfs \<Rightarrow> nat \<Rightarrow> vnode option" where
  "node_at v index =
     (if index \<ge> v_count v then None
      else if n_used (v_nodes v ! index) then Some (v_nodes v ! index) else None)"

definition vfs_size :: "'d vfs \<Rightarrow> nat \<Rightarrow> nat option" where
  "vfs_size v node = map_option n_size (node_at v node)"

definition vfs_mtime :: "'d vfs \<Rightarrow> nat \<Rightarrow> nat option" where
  "vfs_mtime v node =
     (case node_at v node of None \<Rightarrow> None
      | Some n \<Rightarrow> (case n_source n of Ram \<Rightarrow> None | Disk \<Rightarrow> entry_mtime (v_fs v) (n_inode n)))"

definition vfs_source :: "'d vfs \<Rightarrow> nat \<Rightarrow> vsource option" where
  "vfs_source v node = map_option n_source (node_at v node)"

text \<open>The files of the disk enter the name space in the order of their inodes.\<close>

fun mount_inodes :: "nat list \<Rightarrow> nat \<Rightarrow> 'd vfs \<Rightarrow> nat \<times> 'd vfs" where
  "mount_inodes [] added v = (added, v)"
| "mount_inodes (ino # is) added v =
     (if entry_kind (v_fs v) ino \<noteq> Some KIND_FILE then mount_inodes is added v
      else case path_of (v_fs v) ino of
        None \<Rightarrow> mount_inodes is added v
      | Some p \<Rightarrow>
          if p = [] then mount_inodes is added v
          else if vfs_lookup v p \<noteq> None then mount_inodes is added v
          else case attach_disk_node p ino (case entry_size (v_fs v) ino of None \<Rightarrow> 0 | Some n \<Rightarrow> n) v of
            (None, v) \<Rightarrow> mount_inodes is added v
          | (Some _, v) \<Rightarrow> mount_inodes is (added + 1) v)"

definition mount_disk_files :: "'d vfs \<Rightarrow> nat \<times> 'd vfs" where
  "mount_disk_files v = (if \<not> fs_mounted (v_fs v) then (0, v) else mount_inodes [0..<MAX_INODES] 0 v)"

section \<open>Reading\<close>

text \<open>\<open>None\<close> is \<open>Err ()\<close>, apart from the panic of a read that leaves the block list of the inode.\<close>

definition vfs_read :: "nat \<Rightarrow> nat \<Rightarrow> byte list \<Rightarrow> 'd vfs \<Rightarrow> (unit, nat) outcome \<times> byte list \<times> 'd vfs" where
  "vfs_read node offset buf v =
     (case node_at v node of None \<Rightarrow> (Err (), buf, v)
      | Some n \<Rightarrow>
          (case n_source n of
             Ram \<Rightarrow> (if offset \<ge> n_size n then (Ok 0, buf, v)
                     else (let to_copy = min (n_size n - offset) (length buf)
                           in (Ok to_copy, take to_copy (drop offset (n_data n)) @ drop to_copy buf, v)))
           | Disk \<Rightarrow> (case fs_read (n_inode n) offset buf (v_fs v) of
                (Ok k, buf, s) \<Rightarrow> (Ok k, buf, v\<lparr>v_fs := s\<rparr>)
              | (Err _, buf, s) \<Rightarrow> (Err (), buf, v\<lparr>v_fs := s\<rparr>)
              | (Panic, buf, s) \<Rightarrow> (Panic, buf, v\<lparr>v_fs := s\<rparr>))))"

text \<open>The heap is never given back, so a fresh block still holds the zeros of the boot.\<close>

definition vfs_load :: "nat \<Rightarrow> usize \<Rightarrow> 'd vfs \<Rightarrow> (unit, byte list) outcome \<times> usize \<times> 'd vfs" where
  "vfs_load node heap v =
     (case node_at v node of None \<Rightarrow> (Err (), heap, v)
      | Some n \<Rightarrow>
          (case n_source n of
             Ram \<Rightarrow> (Ok (take (n_size n) (n_data n)), heap, v)
           | Disk \<Rightarrow>
               if n_size n = 0 then (Err (), heap, v)
               else (case kmalloc_aligned (of_nat (n_size n)) 16 heap of
                 None \<Rightarrow> (Err (), heap, v)
               | Some (_, heap) \<Rightarrow>
                   (case fs_read (n_inode n) 0 (replicate (n_size n) 0) (v_fs v) of
                      (Ok got, bytes, s) \<Rightarrow> (if got = n_size n then Ok bytes else Err (), heap, v\<lparr>v_fs := s\<rparr>)
                    | (Err _, _, s) \<Rightarrow> (Err (), heap, v\<lparr>v_fs := s\<rparr>)
                    | (Panic, _, s) \<Rightarrow> (Panic, heap, v\<lparr>v_fs := s\<rparr>)))))"

section \<open>Writing\<close>

definition on_fs :: "(fs_error, 'a) outcome \<times> 'd fs \<Rightarrow> 'd vfs \<Rightarrow> (fs_error, 'a) outcome \<times> 'd vfs" where
  "on_fs r v = (fst r, v\<lparr>v_fs := snd r\<rparr>)"

definition refresh_disk_node :: "byte list \<Rightarrow> 'd vfs \<Rightarrow> 'd vfs" where
  "refresh_disk_node path v =
     (case lookup (v_fs v) path of None \<Rightarrow> v
      | Some ino \<Rightarrow>
          (let sz = (case entry_size (v_fs v) ino of None \<Rightarrow> 0 | Some n \<Rightarrow> n) in
           case vfs_lookup v path of
             Some index \<Rightarrow> upd_node index (\<lambda>n. n\<lparr>n_inode := ino, n_size := sz, n_source := Disk\<rparr>) v
           | None \<Rightarrow> snd (attach_disk_node path ino sz v)))"

definition write_file :: "nat \<Rightarrow> byte list \<Rightarrow> byte list \<Rightarrow> 'd vfs \<Rightarrow> (fs_error, nat) outcome \<times> 'd vfs" where
  "write_file now path data v =
     (if (case vfs_lookup v path of None \<Rightarrow> False | Some index \<Rightarrow> vfs_source v index = Some Ram) then (Err Exists, v)
      else case on_fs (write_all now path data (v_fs v)) v of
        (Ok written, v) \<Rightarrow> (Ok written, refresh_disk_node path v)
      | (Err e, v) \<Rightarrow> (Err e, v)
      | (Panic, v) \<Rightarrow> (Panic, v))"

definition write_at :: "nat \<Rightarrow> nat \<Rightarrow> nat \<Rightarrow> byte list \<Rightarrow> 'd vfs \<Rightarrow> (fs_error, nat) outcome \<times> 'd vfs" where
  "write_at now node offset data v =
     (case node_at v node of None \<Rightarrow> (Err NotFound, v)
      | Some n \<Rightarrow>
          if n_source n \<noteq> Disk then (Err NotFound, v)
          else case on_fs (fs_write now (n_inode n) offset data (v_fs v)) v of
            (Ok written, v) \<Rightarrow>
              (let sz = (case entry_size (v_fs v) (n_inode n) of None \<Rightarrow> 0 | Some k \<Rightarrow> k)
               in (Ok written, upd_node node (\<lambda>n. n\<lparr>n_size := sz\<rparr>) v))
          | (Err e, v) \<Rightarrow> (Err e, v)
          | (Panic, v) \<Rightarrow> (Panic, v))"

definition create_file :: "nat \<Rightarrow> byte list \<Rightarrow> 'd vfs \<Rightarrow> (fs_error, nat) outcome \<times> 'd vfs" where
  "create_file now path v =
     (case vfs_lookup v path of Some index \<Rightarrow> (Ok index, v)
      | None \<Rightarrow>
          (case on_fs (create now path (v_fs v)) v of
             (Ok ino, v) \<Rightarrow>
               (case attach_disk_node path ino 0 v of
                  (None, v) \<Rightarrow> (Err TooManyFiles, v)
                | (Some index, v) \<Rightarrow> (Ok index, v))
           | (Err e, v) \<Rightarrow> (Err e, v)
           | (Panic, v) \<Rightarrow> (Panic, v)))"

definition vfs_mkdir :: "nat \<Rightarrow> byte list \<Rightarrow> 'd vfs \<Rightarrow> (fs_error, unit) outcome \<times> 'd vfs" where
  "vfs_mkdir now path v =
     (case on_fs (mkdir now path (v_fs v)) v of (Ok _, v) \<Rightarrow> (Ok (), v) | (Err e, v) \<Rightarrow> (Err e, v) | (Panic, v) \<Rightarrow> (Panic, v))"

definition vfs_rmdir :: "byte list \<Rightarrow> 'd vfs \<Rightarrow> (fs_error, unit) outcome \<times> 'd vfs" where
  "vfs_rmdir path v = on_fs (rmdir path (v_fs v)) v"

definition remove_file :: "byte list \<Rightarrow> 'd vfs \<Rightarrow> (fs_error, unit) outcome \<times> 'd vfs" where
  "remove_file path v =
     (case vfs_lookup v path of None \<Rightarrow> (Err NotFound, v)
      | Some index \<Rightarrow>
          (case node_at v index of None \<Rightarrow> (Err NotFound, v)
           | Some n \<Rightarrow>
               if n_source n \<noteq> Disk then (Err NotFound, v)
               else case on_fs (remove (n_inode n) (v_fs v)) v of
                 (Ok _, v) \<Rightarrow> (Ok (), upd_node index (\<lambda>n. n\<lparr>n_used := False\<rparr>) v)
               | (Err e, v) \<Rightarrow> (Err e, v)
               | (Panic, v) \<Rightarrow> (Panic, v)))"

definition vfs_path_of :: "'d vfs \<Rightarrow> nat \<Rightarrow> byte list option" where
  "vfs_path_of v node =
     (case node_at v node of None \<Rightarrow> None
      | Some n \<Rightarrow> if utf8_valid (node_path n) then Some (node_path n) else None)"

definition vfs_file_count :: "'d vfs \<Rightarrow> nat" where
  "vfs_file_count v = length (filter (\<lambda>i. node_at v i \<noteq> None) [0..<v_count v])"

text \<open>The lines of \<open>list\<close>, without their layout.\<close>

definition vfs_list :: "'d vfs \<Rightarrow> (byte list \<times> nat \<times> vsource) list" where
  "vfs_list v =
     concat (map (\<lambda>i. case (vfs_path_of v i, node_at v i) of
                        (Some path, Some n) \<Rightarrow> [(path, n_size n, n_source n)]
                      | _ \<Rightarrow> []) [0..<v_count v])"

section \<open>The node table\<close>

definition v_wf :: "'d vfs \<Rightarrow> bool" where
  "v_wf v \<longleftrightarrow> length (v_nodes v) = MAX_NODES \<and> v_count v \<le> MAX_NODES"

text \<open>What every operation does to the table: slots are only appended, and a node keeps its path.\<close>

definition slot_kept :: "vnode \<Rightarrow> vnode \<Rightarrow> bool" where
  "slot_kept n n' \<longleftrightarrow> node_path n' = node_path n \<and> (n_used n' \<longrightarrow> n_used n) \<and> (n_used n \<and> n_source n = Ram \<longrightarrow> n' = n)"

lemma slot_kept_trans: "slot_kept a b \<Longrightarrow> slot_kept b c \<Longrightarrow> slot_kept a c"
  unfolding slot_kept_def by metis

lemma slot_kept_refl [simp]: "slot_kept n n"
  by (simp add: slot_kept_def)

definition table_grows :: "'d vfs \<Rightarrow> 'd vfs \<Rightarrow> bool" where
  "table_grows v v' \<longleftrightarrow> v_wf v' \<and> v_count v \<le> v_count v' \<and>
     (\<forall>i<v_count v. slot_kept (v_nodes v ! i) (v_nodes v' ! i))"

lemma table_grows_refl: "v_wf v \<Longrightarrow> table_grows v v"
  by (simp add: table_grows_def)

lemma table_grows_trans: "table_grows v v' \<Longrightarrow> table_grows v' v'' \<Longrightarrow> table_grows v v''"
  unfolding table_grows_def by (meson less_le_trans order_trans slot_kept_trans)

lemma table_grows_fs [simp]: "table_grows v (v'\<lparr>v_fs := s\<rparr>) \<longleftrightarrow> table_grows v v'" "table_grows (v\<lparr>v_fs := s\<rparr>) v' \<longleftrightarrow> table_grows v v'"
  by (simp_all add: table_grows_def v_wf_def)

lemma v_wf_fs [simp]: "v_wf (v\<lparr>v_fs := s\<rparr>) \<longleftrightarrow> v_wf v"
  by (simp add: v_wf_def)

lemma lookup_fs [simp]: "vfs_lookup (v\<lparr>v_fs := s\<rparr>) p = vfs_lookup v p"
  by (simp add: vfs_lookup_def)

lemma node_at_fs [simp]: "node_at (v\<lparr>v_fs := s\<rparr>) i = node_at v i"
  by (simp add: node_at_def)

lemma table_grows_append: "v_wf v \<Longrightarrow> v_count v < MAX_NODES \<Longrightarrow> table_grows v ((upd_node (v_count v) (\<lambda>_. n) v)\<lparr>v_count := v_count v + 1\<rparr>)"
  by (simp add: table_grows_def v_wf_def upd_node_def)

lemma attach_grows: "v_wf v \<Longrightarrow> table_grows v (snd (attach_disk_node p ino sz v))"
  using table_grows_append [of v] by (simp add: attach_disk_node_def Let_def table_grows_refl)

lemma mount_static_grows: "v_wf v \<Longrightarrow> table_grows v (snd (mount_static p data v))"
  using table_grows_append [of v] by (simp add: mount_static_def Let_def table_grows_refl)

lemma table_grows_upd:
  assumes "v_wf v" "n_source (v_nodes v ! i) = Disk" "node_path (g (v_nodes v ! i)) = node_path (v_nodes v ! i)"
    "n_used (g (v_nodes v ! i)) \<Longrightarrow> n_used (v_nodes v ! i)"
  shows "table_grows v (upd_node i g v)"
proof -
  have k: "slot_kept (v_nodes v ! i) (g (v_nodes v ! i))" using assms(2-4) by (auto simp: slot_kept_def)
  have "slot_kept (v_nodes v ! j) ((v_nodes v)[i := g (v_nodes v ! i)] ! j)" for j
    using k by (cases "i < length (v_nodes v)") (auto simp: nth_list_update list_update_beyond)
  then show ?thesis using assms(1) by (simp add: table_grows_def v_wf_def upd_node_def)
qed

lemma table_growsD: "table_grows v v' \<Longrightarrow> v_wf v'"
  by (simp add: table_grows_def)

lemma mount_inodes_grows: "v_wf v \<Longrightarrow> table_grows v (snd (mount_inodes is n v))"
proof (induction "is" n v rule: mount_inodes.induct)
  case (2 ino "is" added v)
  note IH = "2.IH"
  show ?case
  proof (cases "entry_kind (v_fs v) ino = Some KIND_FILE \<and> (\<exists>p. path_of (v_fs v) ino = Some p \<and> p \<noteq> [] \<and> vfs_lookup v p = None)")
    case False
    then show ?thesis using "2.IH"(1-4) "2.prems" by (auto split: option.splits)
  next
    case True
    then obtain p where p: "path_of (v_fs v) ino = Some p" "p \<noteq> []" "vfs_lookup v p = None" by blast
    define sz where "sz = (case entry_size (v_fs v) ino of None \<Rightarrow> 0 | Some n \<Rightarrow> n)"
    obtain r w where a: "attach_disk_node p ino sz v = (r, w)" by (cases "attach_disk_node p ino sz v")
    then have g: "table_grows v w" using attach_grows [OF "2.prems", of p ino sz] by simp
    show ?thesis
    proof (cases r)
      case None
      then have "table_grows w (snd (mount_inodes is added w))"
        using IH(5) [of p r w] True p a g by (simp add: sz_def table_growsD)
      then show ?thesis using True p a None table_grows_trans [OF g] by (simp add: sz_def)
    next
      case (Some k)
      then have "table_grows w (snd (mount_inodes is (added + 1) w))"
        using IH(6) [of p r w k] True p a g by (simp add: sz_def table_growsD)
      then show ?thesis using True p a Some table_grows_trans [OF g] by (simp add: sz_def)
    qed
  qed
qed (simp add: table_grows_refl)

lemma lookup_Some:
  "vfs_lookup v p = Some i \<Longrightarrow> i < v_count v \<and> n_used (v_nodes v ! i) \<and> node_path (v_nodes v ! i) = p"
  unfolding vfs_lookup_def by (drule find_slot_Some) simp

lemma node_at_Some: "node_at v i = Some n \<longleftrightarrow> i < v_count v \<and> n_used (v_nodes v ! i) \<and> n = v_nodes v ! i"
  by (auto simp: node_at_def)

lemma on_fs_case:
  "(case on_fs r v of (Ok x, v) \<Rightarrow> f x v | (Err e, v) \<Rightarrow> g e v | (Panic, v) \<Rightarrow> h v) =
     (case r of (Ok x, s) \<Rightarrow> f x (v\<lparr>v_fs := s\<rparr>) | (Err e, s) \<Rightarrow> g e (v\<lparr>v_fs := s\<rparr>) | (Panic, s) \<Rightarrow> h (v\<lparr>v_fs := s\<rparr>))"
  by (simp add: on_fs_def split: prod.split outcome.split)

lemma refresh_grows:
  assumes "v_wf v" "\<And>i. vfs_lookup v p = Some i \<Longrightarrow> n_source (v_nodes v ! i) = Disk"
  shows "table_grows v (refresh_disk_node p v)"
  unfolding refresh_disk_node_def Let_def
  using assms attach_grows [OF assms(1)]
  by (auto split: option.split intro: table_grows_refl intro!: table_grows_upd simp: node_path_def)

section \<open>Runs of operations\<close>

datatype vfs_op =
  VMountStatic "byte list" "byte list" | VMountDisk | VRead nat nat "byte list" | VLoad nat usize
  | VWriteFile nat "byte list" "byte list" | VWriteAt nat nat nat "byte list" | VCreate nat "byte list"
  | VMkdir nat "byte list" | VRmdir "byte list" | VRemove "byte list"

fun vfs_step :: "vfs_op \<Rightarrow> 'd vfs \<Rightarrow> 'd vfs" where
  "vfs_step (VMountStatic p data) v = snd (mount_static p data v)"
| "vfs_step VMountDisk v = snd (mount_disk_files v)"
| "vfs_step (VRead node offset buf) v = snd (snd (vfs_read node offset buf v))"
| "vfs_step (VLoad node heap) v = snd (snd (vfs_load node heap v))"
| "vfs_step (VWriteFile now p data) v = snd (write_file now p data v)"
| "vfs_step (VWriteAt now node offset data) v = snd (write_at now node offset data v)"
| "vfs_step (VCreate now p) v = snd (create_file now p v)"
| "vfs_step (VMkdir now p) v = snd (vfs_mkdir now p v)"
| "vfs_step (VRmdir p) v = snd (vfs_rmdir p v)"
| "vfs_step (VRemove p) v = snd (remove_file p v)"

definition vfs_run :: "vfs_op list \<Rightarrow> 'd vfs \<Rightarrow> 'd vfs" where
  "vfs_run ops v = fold vfs_step ops v"

lemma read_state: "(snd (snd (vfs_read node offset buf v)))\<lparr>v_fs := v_fs v\<rparr> = v"
  by (cases "node_at v node") (simp_all add: vfs_read_def Let_def split: vsource.split outcome.split prod.split)

lemma load_state: "(snd (snd (vfs_load node heap v)))\<lparr>v_fs := v_fs v\<rparr> = v"
  by (cases "node_at v node") (simp_all add: vfs_load_def Let_def split: vsource.split outcome.split prod.split option.split)

lemma only_fs_grows: "v_wf v \<Longrightarrow> w\<lparr>v_fs := v_fs v\<rparr> = v \<Longrightarrow> table_grows v w"
  by (metis table_grows_fs(1) table_grows_refl)

lemma vfs_step_grows:
  assumes "v_wf v"
  shows "table_grows v (vfs_step op v)"
proof (cases op)
  case (VMountStatic p data)
  then show ?thesis by (simp add: mount_static_grows [OF assms])
next
  case VMountDisk
  then show ?thesis by (simp add: mount_disk_files_def mount_inodes_grows assms table_grows_refl)
next
  case (VRead node offset buf)
  then show ?thesis by (simp add: only_fs_grows [OF assms read_state])
next
  case (VLoad node heap)
  then show ?thesis by (simp add: only_fs_grows [OF assms load_state])
next
  case (VWriteFile now p data)
  show ?thesis
  proof (cases "\<exists>i. vfs_lookup v p = Some i \<and> vfs_source v i = Some Ram")
    case True
    then show ?thesis using VWriteFile assms by (auto simp: write_file_def table_grows_refl)
  next
    case False
    have d: "n_source (v_nodes v ! i) = Disk" if "vfs_lookup v p = Some i" for i
      using False that lookup_Some [OF that] by (cases "n_source (v_nodes v ! i)") (auto simp: vfs_source_def node_at_def)
    have g: "table_grows v (refresh_disk_node p (v\<lparr>v_fs := s\<rparr>))" for s
      using refresh_grows [of "v\<lparr>v_fs := s\<rparr>" p] d assms by simp
    have "(case vfs_lookup v p of None \<Rightarrow> False | Some index \<Rightarrow> vfs_source v index = Some Ram) = False"
      using False by (simp split: option.split)
    then show ?thesis using VWriteFile assms g
      by (simp add: write_file_def on_fs_case table_grows_refl split: prod.split outcome.split)
  qed
next
  case (VWriteAt now node offset data)
  have g: "table_grows v (upd_node node (\<lambda>n. n\<lparr>n_size := k\<rparr>) (v\<lparr>v_fs := s\<rparr>))" if "node_at v node = Some n" "n_source n = Disk" for n k s
    using table_grows_upd [of "v\<lparr>v_fs := s\<rparr>" node "\<lambda>n. n\<lparr>n_size := k\<rparr>"] assms that by (simp add: node_at_Some node_path_def)
  show ?thesis
    using VWriteAt assms g
    by (cases "node_at v node") (auto simp: write_at_def on_fs_case table_grows_refl Let_def split: prod.split outcome.split)
next
  case (VCreate now p)
  have g: "table_grows v (snd (attach_disk_node p ino k (v\<lparr>v_fs := s\<rparr>)))" for ino k s
    using attach_grows [of "v\<lparr>v_fs := s\<rparr>" p ino k] assms by simp
  have h: "table_grows v w" if "attach_disk_node p ino k (v\<lparr>v_fs := s\<rparr>) = (r, w)" for ino k s r w
    using g [of ino k s] that by simp
  obtain r s where c: "create now p (v_fs v) = (r, s)" by (cases "create now p (v_fs v)")
  have "table_grows v (snd (create_file now p v))"
  proof (cases "vfs_lookup v p = None \<and> is_ok r")
    case False
    then show ?thesis using assms c by (cases r) (auto simp: create_file_def on_fs_def table_grows_refl split: option.split)
  next
    case True
    then obtain ino where r: "r = Ok ino" by (cases r) auto
    obtain a w where a: "attach_disk_node p ino 0 (v\<lparr>v_fs := s\<rparr>) = (a, w)" by (cases "attach_disk_node p ino 0 (v\<lparr>v_fs := s\<rparr>)")
    then show ?thesis using True c r h [OF a] by (cases a) (simp_all add: create_file_def on_fs_def)
  qed
  then show ?thesis using VCreate by simp
next
  case (VMkdir now p)
  then show ?thesis using assms by (simp add: vfs_mkdir_def on_fs_case table_grows_refl split: prod.split outcome.split)
next
  case (VRmdir p)
  then show ?thesis using assms by (simp add: vfs_rmdir_def on_fs_def table_grows_refl)
next
  case (VRemove p)
  have g: "table_grows v (upd_node i (\<lambda>n. n\<lparr>n_used := False\<rparr>) (v\<lparr>v_fs := s\<rparr>))" if "node_at v i = Some n" "n_source n = Disk" for n i s
    using table_grows_upd [of "v\<lparr>v_fs := s\<rparr>" i "\<lambda>n. n\<lparr>n_used := False\<rparr>"] assms that by (simp add: node_at_Some node_path_def)
  have h: "table_grows v (snd (remove_file p v))" if "vfs_lookup v p = Some i" for i
    using assms g that by (cases "node_at v i") (auto simp: remove_file_def on_fs_case table_grows_refl split: prod.split outcome.split vsource.split)
  show ?thesis using VRemove assms h by (cases "vfs_lookup v p") (simp_all add: remove_file_def table_grows_refl)
qed

lemma vfs_run_grows: "v_wf v \<Longrightarrow> table_grows v (vfs_run ops v)"
proof (induction ops arbitrary: v)
  case Nil
  then show ?case by (simp add: vfs_run_def table_grows_refl)
next
  case (Cons op ops)
  have g: "table_grows v (vfs_step op v)" by (rule vfs_step_grows [OF Cons.prems])
  have "table_grows (vfs_step op v) (vfs_run ops (vfs_step op v))" by (rule Cons.IH [OF table_growsD [OF g]])
  then show ?case using table_grows_trans [OF g] by (simp add: vfs_run_def)
qed

lemma lookup_kept:
  assumes "table_grows v v'" "vfs_lookup v p = Some i" "n_used (v_nodes v' ! i)"
  shows "vfs_lookup v' p = Some i"
  unfolding vfs_lookup_def
proof (rule find_slot_first)
  note l = find_slot_Some [OF assms(2) [unfolded vfs_lookup_def]]
  have g: "j < v_count v \<Longrightarrow> node_path (v_nodes v' ! j) = node_path (v_nodes v ! j) \<and> (n_used (v_nodes v' ! j) \<longrightarrow> n_used (v_nodes v ! j))" for j
    using assms(1) unfolding table_grows_def slot_kept_def by blast
  show "i < v_count v'" using l assms(1) by (simp add: table_grows_def)
  show "n_used (v_nodes v' ! i) \<and> node_path (v_nodes v' ! i) = p" using l g [of i] assms(3) by simp
  show "\<not> (n_used (v_nodes v' ! j) \<and> node_path (v_nodes v' ! j) = p)" if "0 \<le> j" "j < i" for j
    using l g [of j] that by auto
qed simp

section \<open>Overwriting a file\<close>

lemma answer_Ok: "answer g (r, s) = (Ok y, s') \<Longrightarrow> \<exists>x. r = Ok x \<and> s' = s \<and> g x = y"
  by (cases r) simp_all

lemma answer_Err: "answer g (r, s) = (Err e, s') \<Longrightarrow> r = Err e \<and> s' = s"
  by (cases r) simp_all

lemma remove_runs:
  assumes "fs_sound ok sect reg f s" "fs_mounted s" "a_file (view f s) i = Some e"
  obtains f' s' where "remove i s = (Ok (), s')" "fs_sound ok sect reg f' s'" "fs_mounted s'"
    "view f' s' = (view f s)\<lparr>a_tree := (a_tree (view f s))(i := None), a_free := fs_free s + block_count (length (a_data e))\<rparr>"
proof -
  obtain r f' s' where st: "fs_step (OpRemove i) s = (r, s')" "fs_sound ok sect reg f' s'" "fs_mounted s'"
    "a_step (OpRemove i) (view f s) (r, view f' s')" using remove_refines [OF assms(1,2), of i] unfolding refines_def by blast
  obtain q t where q: "remove i s = (q, t)" by (cases "remove i s")
  have r: "r = Ok (0, [])" and v: "view f' s' = (view f s)\<lparr>a_tree := (a_tree (view f s))(i := None), a_free := fs_free s + block_count (length (a_data e))\<rparr>"
    using st(4) assms(3) by (simp_all add: a_remove_def view_free)
  have "remove i s = (Ok (), s')" using answer_Ok [of "\<lambda>_. (0, [])" q t] st(1) q r by auto
  then show thesis by (rule that [OF _ st(2,3) v])
qed

lemma a_make_not_full: "fst (a_make k p a) \<noteq> Err Full"
proof -
  have "a_split_parent a p \<noteq> Err Full" by (simp add: a_split_parent_def Let_def split: prod.split option.split)
  then show ?thesis by (auto simp: a_make_def split: option.split outcome.split prod.split)
qed

lemma a_make_Ok:
  "a_make k p a = (Ok (j, []), a') \<Longrightarrow> a_tree a j = None \<and>
     (\<exists>par nm. a' = a\<lparr>a_tree := (a_tree a)(j \<mapsto> \<lparr>a_kind = k, a_parent = par, a_name = nm, a_data = []\<rparr>)\<rparr>)"
  unfolding a_make_def
  by (auto split: option.splits outcome.splits prod.splits if_splits dest!: find_slot_Some)

lemma create_runs:
  assumes "fs_sound ok sect reg f s" "fs_mounted s" "now < 2 ^ 32"
  obtains f' s' r where "create now p s = (r, s')" "fs_sound ok sect reg f' s'" "fs_mounted s'"
    "r \<noteq> Err Full"
    "\<And>j. r = Ok j \<Longrightarrow> a_tree (view f s) j = None \<and> (\<exists>par nm. view f' s' =
        (view f s)\<lparr>a_tree := (a_tree (view f s))(j \<mapsto> \<lparr>a_kind = KIND_FILE, a_parent = par, a_name = nm, a_data = []\<rparr>)\<rparr>)"
proof -
  have "op_ok (OpCreate now p)" using assms(3) by simp
  then obtain r f' s' where st: "fs_step (OpCreate now p) s = (r, s')" "fs_sound ok sect reg f' s'" "fs_mounted s'"
    "a_step (OpCreate now p) (view f s) (r, view f' s')" using step_refines [OF assms(1,2)] unfolding refines_def by blast
  obtain q t where q: "create now p s = (q, t)" by (cases "create now p s")
  have t: "t = s'" using st(1) q by (cases q) simp_all
  have m: "a_make KIND_FILE p (view f s) = (r, view f' s')" using st(4) by simp
  show thesis
  proof (rule that)
    show "create now p s = (q, s')" using q t by simp
    show "q \<noteq> Err Full"
    proof
      assume "q = Err Full"
      then have "r = Err Full" using st(1) q by simp
      then show False using a_make_not_full [of KIND_FILE p "view f s"] m by simp
    qed
    show "a_tree (view f s) j = None \<and> (\<exists>par nm. view f' s' =
        (view f s)\<lparr>a_tree := (a_tree (view f s))(j \<mapsto> \<lparr>a_kind = KIND_FILE, a_parent = par, a_name = nm, a_data = []\<rparr>)\<rparr>)"
      if "q = Ok j" for j
    proof -
      have "r = Ok (j, [])" using st(1) q that by simp
      then show ?thesis using a_make_Ok [of KIND_FILE p "view f s" j] m by simp
    qed
  qed (use st in simp_all)
qed

lemma write_full_same:
  assumes "fs_sound ok sect reg f s" "fs_mounted s" "now < 2 ^ 32" "length data < 2 ^ 64"
    "fs_write now i 0 data s = (Err Full, s')"
  shows "s' = s"
proof -
  have w: "(0 + length data) mod 2 ^ 64 = length data" using assms(4) by simp
  have r: "refines ok sect reg f s (OpWrite now i 0 data)" by (rule write_refines [OF assms(1-3)]) (use assms(4) in simp)
  consider "\<not> (i < MAX_INODES \<and> kind_at s i = KIND_FILE)" | "i < MAX_INODES" "kind_at s i = KIND_FILE" by blast
  then show ?thesis
  proof cases
    case 1
    then have "fs_write now i 0 data s = (Err NotFound, s)" using assms(2) by (auto simp: fs_write_def inode_ref_def)
    then show ?thesis using assms(5) by simp
  next
    case 2
    show ?thesis
    proof (cases "length data \<le> MAX_FILE_SIZE \<and> fs_free s < block_count (length data) - block_count (size_at s i)")
      case True
      then have "fs_write now i 0 data s = (Err Full, s)" using fs_write_full [OF assms(1,2) 2, of 0 data now] by simp
      then show ?thesis using assms(5) by simp
    next
      case False
      obtain a f' t where st: "fs_step (OpWrite now i 0 data) s = (a, t)" "a_step (OpWrite now i 0 data) (view f s) (a, view f' t)"
        using r unfolding refines_def by blast
      have a: "a = Err Full" using st(1) assms(5) by simp
      have "size_at s i = length (file_data f s i)" using fs_read_ok [OF assms(1,2) 2] by (simp add: file_data_def)
      then have False using False st(2) 2 unfolding a
        by (auto simp: a_write_def view_file view_free Let_def split: if_splits)
      then show ?thesis ..
    qed
  qed
qed

lemma overwrite_runs:
  assumes "fs_sound ok sect reg f s" "fs_mounted s" "now < 2 ^ 32" "length data < 2 ^ 64"
    "lookup s p = Some i" "write_all now p data s = (Err Full, s')"
  shows "\<exists>f' j e. fs_sound ok sect reg f' s' \<and> fs_mounted s' \<and> a_kind e = KIND_FILE \<and> a_data e = [] \<and>
     a_tree (view f' s') = (a_tree (view f s))(i := None, j \<mapsto> e)"
proof -
  obtain e where e: "a_file (view f s) i = Some e"
    using assms(5) by (auto simp: lookup_def inode_ref_def view_file split: option.splits if_splits)
  obtain f1 s1 where rm: "remove i s = (Ok (), s1)" and s1: "fs_sound ok sect reg f1 s1" "fs_mounted s1"
    and v1: "view f1 s1 = (view f s)\<lparr>a_tree := (a_tree (view f s))(i := None), a_free := fs_free s + block_count (length (a_data e))\<rparr>"
    by (rule remove_runs [OF assms(1,2) e])
  obtain f2 s2 r where cr: "create now p s1 = (r, s2)" and s2: "fs_sound ok sect reg f2 s2" "fs_mounted s2" and nf: "r \<noteq> Err Full"
    and v2: "\<And>j. r = Ok j \<Longrightarrow> a_tree (view f1 s1) j = None \<and> (\<exists>par nm. view f2 s2 =
        (view f1 s1)\<lparr>a_tree := (a_tree (view f1 s1))(j \<mapsto> \<lparr>a_kind = KIND_FILE, a_parent = par, a_name = nm, a_data = []\<rparr>)\<rparr>)"
    by (rule create_runs [OF s1 assms(3), of p]) (rule that)
  have "and_then (r, s2) (\<lambda>index. fs_write now index 0 data) = (Err Full, s')"
    using assms(5,6) rm cr by (simp add: write_all_def)
  then obtain j where j: "r = Ok j" and w: "fs_write now j 0 data s2 = (Err Full, s')" using nf by (cases r) auto
  have eq: "s' = s2" by (rule write_full_same [OF s2 assms(3,4) w])
  obtain par nm where v: "view f2 s2 = (view f1 s1)\<lparr>a_tree := (a_tree (view f1 s1))(j \<mapsto> \<lparr>a_kind = KIND_FILE, a_parent = par, a_name = nm, a_data = []\<rparr>)\<rparr>"
    using v2 [OF j] by blast
  show ?thesis unfolding eq
    by (intro exI [of _ f2] exI [of _ j] exI [of _ "\<lparr>a_kind = KIND_FILE, a_parent = par, a_name = nm, a_data = []\<rparr>"])
      (simp add: s2 v v1)
qed

section \<open>Properties\<close>

text \<open>
  Property C22.  The files of the kernel image are safe from the disk: whatever sequence of operations
  runs on the name space, a file that was mounted from the image keeps its path, its contents and
  its place as the answer to a lookup, and writing or removing it is refused without a change.
\<close>

theorem image_files_safe:
  assumes "v_wf v" "vfs_lookup v p = Some i" "n_source (v_nodes v ! i) = Ram" "v' = vfs_run ops v"
  shows "vfs_lookup v' p = Some i \<and> v_nodes v' ! i = v_nodes v ! i \<and> write_file now p data v' = (Err Exists, v') \<and>
     write_at now i offset data v' = (Err NotFound, v') \<and> remove_file p v' = (Err NotFound, v')"
proof -
  have g: "table_grows v v'" unfolding assms(4) by (rule vfs_run_grows [OF assms(1)])
  note l = lookup_Some [OF assms(2)]
  have n: "v_nodes v' ! i = v_nodes v ! i" using g l assms(3) by (simp add: table_grows_def slot_kept_def)
  have l': "vfs_lookup v' p = Some i" by (rule lookup_kept [OF g assms(2)]) (simp add: n l)
  have a: "node_at v' i = Some (v_nodes v ! i)" using lookup_Some [OF l'] n by (simp add: node_at_Some)
  show ?thesis using l' a n assms(3) by (simp add: write_file_def vfs_source_def write_at_def remove_file_def)
qed

definition demo_vfs :: "(nat \<Rightarrow> byte list) vfs" where
  "demo_vfs = snd (mount_static demo_path [1, 2] (vfs_init demo_file))"

lemma demo_vfs_image: "v_wf demo_vfs \<and> vfs_lookup demo_vfs demo_path = Some 0 \<and> n_source (v_nodes demo_vfs ! 0) = Ram"
  by (simp add: demo_vfs_def mount_static_def vfs_init_def v_wf_def upd_node_def vfs_lookup_def find_slot.simps
      node_path_def set_path_def demo_path_def Let_def)

theorem image_files_safe_witness:
  "vfs_lookup (vfs_run [VWriteFile 9 demo_path [7], VRemove demo_path, VMountDisk] demo_vfs) demo_path = Some 0"
  using image_files_safe [of demo_vfs demo_path 0 _ "[VWriteFile 9 demo_path [7], VRemove demo_path, VMountDisk]"]
    demo_vfs_image by blast

text \<open>
  Overwriting a file is not atomic: when \<open>write_file\<close> answers \<open>Full\<close>, the old contents of
  the file are gone from the disk, an empty file stands under some inode number, and the table
  of nodes is as before, so the node of the path still names the inode that was released.
\<close>

theorem overwrite_full_loses:
  assumes "fs_sound ok sect reg f (v_fs v)" "fs_mounted (v_fs v)" "now < 2 ^ 32" "length data < 2 ^ 64"
    "lookup (v_fs v) p = Some i" "write_file now p data v = (Err Full, v')"
  shows "v_nodes v' = v_nodes v \<and>
     (\<exists>f' j e. fs_sound ok sect reg f' (v_fs v') \<and> a_kind e = KIND_FILE \<and> a_data e = [] \<and>
        a_tree (view f' (v_fs v')) = (a_tree (view f (v_fs v)))(i := None, j \<mapsto> e))"
proof -
  obtain r s where w: "write_all now p data (v_fs v) = (r, s)" by (cases "write_all now p data (v_fs v)")
  have "r = Err Full \<and> v' = v\<lparr>v_fs := s\<rparr>"
    using assms(6) w by (cases r) (simp_all add: write_file_def on_fs_def split: if_splits)
  then have r: "write_all now p data (v_fs v) = (Err Full, s)" and v': "v' = v\<lparr>v_fs := s\<rparr>" using w by simp_all
  from overwrite_runs [OF assms(1-5) r] show ?thesis unfolding v' by auto
qed

lemma demo_lookup: "lookup demo_file demo_path = Some 3"
proof -
  obtain f where inodes: "fs_inodes demo_file = demo_inodes[3 := entry_inode 7 KIND_FILE 0 [97]]" using demo_file_made by blast
  have at: "fs_inodes demo_file ! j = (if j = 0 then root_inode 7 else if j = 1 then entry_inode 7 KIND_DIR 0 home_name
      else if j = 2 then entry_inode 7 KIND_DIR 0 tmp_name else if j = 3 then entry_inode 7 KIND_FILE 0 [97] else inode_empty)"
    if "j < 64" for j
    using that by (simp add: inodes demo_inodes_def)
  have names: "name_of (entry_inode 7 KIND_DIR 0 home_name) = home_name" "name_of (entry_inode 7 KIND_DIR 0 tmp_name) = tmp_name"
    "name_of (entry_inode 7 KIND_FILE 0 [97]) = [97]"
    by (rule name_of_entry; simp add: skeleton_names)+
  have "child_of demo_file 0 [97] = Some 3"
    unfolding child_of_def
  proof (subst if_not_P, simp, rule find_slot_first)
    show "\<not> (let n = fs_inodes demo_file ! i in i_kind n \<noteq> KIND_FREE \<and> i_parent n = 0 \<and> i \<noteq> ROOT_INODE \<and> name_of n = [97])"
      if "0 \<le> i" "i < 3" for i
      using that by (cases "i = 1"; cases "i = 2") (simp_all add: at names Let_def, simp_all add: skeleton_names)
  qed (simp_all add: at names names(3) [unfolded One_nat_def] Let_def)
  then show ?thesis
    using resolve_top [of "[97]" demo_file] by (simp add: lookup_def demo_path_def at inode_ref_def root_inode_def)
qed

lemma demo_overwrite: "\<exists>s'. write_all 9 demo_path (replicate 9000 5) demo_file = (Err Full, s')"
proof -
  obtain f where f: "fs_sound ram_ok (\<lambda>d. d) (0, 5000) f demo_file" "fs_mounted demo_file" "fs_free demo_file = 2"
    and inodes: "fs_inodes demo_file = demo_inodes[3 := entry_inode 7 KIND_FILE 0 [97]]" using demo_file_made by blast
  have len: "length demo_inodes = 64" "demo_inodes ! 3 = inode_empty" by (simp_all add: demo_inodes_def)
  have "kind_at demo_file 3 = KIND_FILE" "size_at demo_file 3 = 0" using len by (simp_all add: inodes)
  with fs_remove_ok [OF f(1,2), of 3] f(3) obtain f1 s1 where
    rm: "remove 3 demo_file = (Ok (), s1)" "fs_sound ram_ok (\<lambda>d. d) (0, 5000) f1 s1" "fs_mounted s1"
    "fs_inodes s1 = (fs_inodes demo_file)[3 := inode_empty]" "fs_free s1 = 2" by (auto simp: block_count_def)
  have "fs_inodes s1 = demo_inodes" using len rm(4) inodes list_update_id [of demo_inodes 3] by simp
  from demo_create [OF rm(2,3) this, of 9] obtain f2 s2 where
    cr: "create 9 demo_path s1 = (Ok 3, s2)" "fs_sound ram_ok (\<lambda>d. d) (0, 5000) f2 s2"
    and eq: "s2 = s1\<lparr>fs_inodes := demo_inodes[3 := entry_inode 9 KIND_FILE 0 [97]], fs_blk := fs_blk s2\<rparr>" by auto
  have s2: "fs_mounted s2" "fs_free s2 = 2" "kind_at s2 3 = KIND_FILE" "size_at s2 3 = 0"
    by (subst eq, simp add: rm len)+
  have "fs_write 9 3 0 (replicate 9000 5) s2 = (Err Full, s2)"
    by (rule fs_write_full [OF cr(2) s2(1)]) (simp_all add: s2 block_count_def)
  then show ?thesis using rm(1) cr(1) demo_lookup by (simp add: write_all_def)
qed

theorem overwrite_full_loses_witness:
  "\<exists>f v' f' j e. write_file 9 demo_path (replicate 9000 5) (vfs_init demo_file) = (Err Full, v') \<and>
     v_nodes v' = v_nodes (vfs_init demo_file) \<and> a_kind e = KIND_FILE \<and> a_data e = [] \<and>
     a_tree (view f' (v_fs v')) = (a_tree (view f demo_file))(3 := None, j \<mapsto> e)"
proof -
  obtain f where f: "fs_sound ram_ok (\<lambda>d. d) (0, 5000) f (v_fs (vfs_init demo_file))" "fs_mounted (v_fs (vfs_init demo_file))"
    using demo_file_made by (auto simp: vfs_init_def)
  have l: "lookup (v_fs (vfs_init demo_file)) demo_path = Some 3" by (simp add: vfs_init_def demo_lookup)
  obtain s' where "write_all 9 demo_path (replicate 9000 5) demo_file = (Err Full, s')" using demo_overwrite by blast
  then have w: "write_file 9 demo_path (replicate 9000 5) (vfs_init demo_file) = (Err Full, (vfs_init demo_file)\<lparr>v_fs := s'\<rparr>)"
    by (simp add: write_file_def on_fs_def vfs_init_def vfs_lookup_def find_slot.simps)
  show ?thesis using overwrite_full_loses [OF f _ _ l w] w by (auto simp: vfs_init_def)
qed

end
