(* ===== verification/Wm.thy ===== *)
theory Wm imports Kmalloc Paging Ring begin

text \<open>
  The window manager and its input, \<^verbatim>\<open>kernel/src/level0a/wm.rs\<close>, \<^verbatim>\<open>gui_api.rs\<close>, \<^verbatim>\<open>input.rs\<close> and
  \<^verbatim>\<open>keyboard.rs\<close>: the table of windows with its drawing order, focus and drag, the key queue of each
  window, the event queue between the interrupts and the window manager, the decoding of mouse
  packets and scan codes.  What is drawn on the screen, and what the shell does with its keys, is
  left out.  The current task, its address space and the state of the framebuffer are arguments;
  the heap and the page tables are part of the state where a window is created.
\<close>

section \<open>State\<close>

abbreviation (input) MAX_WINDOWS :: nat where "MAX_WINDOWS \<equiv> 8"
abbreviation (input) TITLE_HEIGHT :: nat where "TITLE_HEIGHT \<equiv> 20"
abbreviation (input) MAX_TITLE :: nat where "MAX_TITLE \<equiv> 32"
abbreviation (input) WINDOW_MAP_BASE :: nat where "WINDOW_MAP_BASE \<equiv> 0xD00000"
abbreviation (input) WINDOW_MAP_SLOT :: nat where "WINDOW_MAP_SLOT \<equiv> 0x80000"
abbreviation (input) WINDOW_MAP_SLOTS :: nat where "WINDOW_MAP_SLOTS \<equiv> 4"
abbreviation (input) KEY_QUEUE :: nat where "KEY_QUEUE \<equiv> 16"
abbreviation (input) EVENT_QUEUE :: nat where "EVENT_QUEUE \<equiv> 64"
abbreviation (input) WINDOW_BG :: "32 word" where "WINDOW_BG \<equiv> 0xF0F0F0"
abbreviation (input) NO_WINDOW :: nat where "NO_WINDOW \<equiv> 2 ^ 64 - 1"
  \<comment> \<open>\<open>usize::MAX\<close>\<close>

record window =
  w_used :: bool
  w_x :: nat
  w_y :: nat
  w_width :: nat
  w_height :: nat
  w_buffer :: nat
  w_title :: "byte list"
  w_title_len :: nat
  w_system :: bool
  w_owner :: nat
  w_user_addr :: nat

definition window_empty :: window where
  "window_empty = \<lparr>w_used = False, w_x = 0, w_y = 0, w_width = 0, w_height = 0, w_buffer = 0,
     w_title = replicate MAX_TITLE 0, w_title_len = 0, w_system = False, w_owner = NO_WINDOW, w_user_addr = 0\<rparr>"

record gui =
  g_wins :: "window list"
  g_z :: "nat list"
  g_count :: nat
  g_focus :: nat
  g_active :: bool
  g_drag :: nat
  g_dx :: nat
  g_dy :: nat
  g_shell :: nat
  g_keys :: "byte list list"
  g_khead :: "nat list"
  g_ktail :: "nat list"

definition gui_init :: gui where
  "gui_init = \<lparr>g_wins = replicate MAX_WINDOWS window_empty, g_z = replicate MAX_WINDOWS 0, g_count = 0,
     g_focus = NO_WINDOW, g_active = False, g_drag = NO_WINDOW, g_dx = 0, g_dy = 0, g_shell = NO_WINDOW,
     g_keys = replicate MAX_WINDOWS (replicate KEY_QUEUE 0), g_khead = replicate MAX_WINDOWS 0,
     g_ktail = replicate MAX_WINDOWS 0\<rparr>"

definition upd_win :: "nat \<Rightarrow> (window \<Rightarrow> window) \<Rightarrow> gui \<Rightarrow> gui" where
  "upd_win i f g = g\<lparr>g_wins := (g_wins g)[i := f (g_wins g ! i)]\<rparr>"

section \<open>Windows\<close>

definition free_win :: "gui \<Rightarrow> nat \<Rightarrow> nat option" where
  "free_win g count = find_slot (\<lambda>i. \<not> w_used (g_wins g ! i)) 0 count"

definition owned_by :: "nat \<Rightarrow> window \<Rightarrow> bool" where
  "owned_by owner w \<longleftrightarrow> w_used w \<and> \<not> w_system w \<and> w_owner w = owner"

definition close_win :: "nat \<Rightarrow> gui \<Rightarrow> gui" where
  "close_win i g =
     (let g = upd_win i (\<lambda>w. w\<lparr>w_used := False, w_user_addr := 0\<rparr>) g;
          g = (if g_focus g = i then g\<lparr>g_focus := g_shell g\<rparr> else g)
      in if g_drag g = i then g\<lparr>g_drag := NO_WINDOW\<rparr> else g)"

definition close_owned_by :: "nat \<Rightarrow> gui \<Rightarrow> nat \<times> gui" where
  "close_owned_by owner g =
     fold (\<lambda>i (closed, g). if owned_by owner (g_wins g ! i) then (closed + 1, close_win i g) else (closed, g))
       [0..<g_count g] (0, g)"

definition first_window_of :: "nat \<Rightarrow> gui \<Rightarrow> nat option" where
  "first_window_of owner g = find_slot (\<lambda>i. owned_by owner (g_wins g ! i)) 0 (g_count g)"

definition owned_window_count :: "nat \<Rightarrow> gui \<Rightarrow> nat" where
  "owned_window_count owner g = length (filter (\<lambda>i. owned_by owner (g_wins g ! i)) [0..<g_count g])"

definition mark_shell :: "nat \<Rightarrow> gui \<Rightarrow> gui" where
  "mark_shell i g = g\<lparr>g_shell := i\<rparr>"

definition wm_start :: "bool \<Rightarrow> gui \<Rightarrow> gui" where
  \<comment> \<open>\<open>framebuffer\<close> is what \<open>gfx::available\<close> answers\<close>
  "wm_start framebuffer g = (if framebuffer then g\<lparr>g_active := True\<rparr> else g)"

text \<open>The loop that paints the fresh buffer, as one update of memory.\<close>

definition paint_buffer :: "nat \<Rightarrow> nat \<Rightarrow> 32 word \<Rightarrow> mmu \<Rightarrow> mmu" where
  "paint_buffer buffer pixels color s =
     s\<lparr>mm_fr := (mm_fr s)\<lparr>fr_mem := (\<lambda>a. if buffer \<le> a \<and> a < buffer + 4 * pixels
        then ucast (drop_bit (8 * ((a - buffer) mod 4)) color) else mm_mem s a)\<rparr>\<rparr>"

definition title_window :: "byte list \<Rightarrow> window \<Rightarrow> window" where
  "title_window title w =
     (let t = take MAX_TITLE title in w\<lparr>w_title := t @ drop (length t) (w_title w), w_title_len := length t\<rparr>)"

text \<open>
  \<open>owner\<close> and \<open>space\<close> are the current task and its address space; \<open>heap\<close> is the next free address of
  the kernel heap.
\<close>

definition wm_create ::
  "nat \<Rightarrow> nat \<Rightarrow> byte list \<Rightarrow> nat \<Rightarrow> nat \<Rightarrow> nat \<Rightarrow> nat \<Rightarrow> bool \<Rightarrow> gui \<times> usize \<times> mmu \<Rightarrow> nat option \<times> gui \<times> usize \<times> mmu" where
  "wm_create owner space title x y width height system = (\<lambda>(g, heap, s).
     let count = g_count g in
     if width = 0 \<or> height = 0 then (None, g, heap, s)
     else let slot = free_win g count in
     if slot = None \<and> count \<ge> MAX_WINDOWS then (None, g, heap, s)
     else let bytes = (width * height * 4) mod 2 ^ 64 in
     case kmalloc_aligned (of_nat bytes) 4096 heap of
       None \<Rightarrow> (None, g, heap, s)
     | Some (block, heap) \<Rightarrow>
         (let buffer = unat block;
              s = paint_buffer buffer ((width * height) mod 2 ^ 64) WINDOW_BG s;
              n = owned_window_count owner g; vaddr = WINDOW_MAP_BASE + n * WINDOW_MAP_SLOT;
              (mapped, user_addr, s) =
                (if space \<noteq> 0 \<and> \<not> system then
                   (if n \<ge> WINDOW_MAP_SLOTS \<or> bytes > WINDOW_MAP_SLOT then (False, 0, s)
                    else case map_user_frames space vaddr buffer bytes s of (ok, s) \<Rightarrow> (ok, vaddr, s))
                 else if \<not> system then (True, buffer, protect_user_range buffer bytes s)
                 else (True, 0, s))
          in if \<not> mapped then (None, g, heap, s)
             else let win = title_window title
                        (window_empty\<lparr>w_used := True, w_x := x, w_y := y, w_width := width, w_height := height,
                           w_buffer := buffer, w_system := system, w_owner := owner, w_user_addr := user_addr\<rparr>);
                      index = (case slot of Some i \<Rightarrow> i | None \<Rightarrow> count);
                      g = upd_win index (\<lambda>_. win) g;
                      g = (if slot = None then g\<lparr>g_z := (g_z g)[count := count], g_count := count + 1\<rparr> else g);
                      g = (if g_focus g = NO_WINDOW then g\<lparr>g_focus := index\<rparr> else g)
                  in (Some index, g, heap, s)))"

definition wm_get :: "nat \<Rightarrow> gui \<Rightarrow> window option" where
  "wm_get index g = (if index \<ge> g_count g then None else Some (g_wins g ! index))"

text \<open>The loop of \<open>raise\<close>: the entries behind position \<open>p\<close> move up by one.\<close>

definition shift_up :: "nat \<Rightarrow> nat \<Rightarrow> nat list \<Rightarrow> nat list" where
  "shift_up p count z = fold (\<lambda>i z. z[i := z ! (i + 1)]) [p..<count - 1] z"

definition raise_win :: "nat \<Rightarrow> gui \<Rightarrow> gui" where
  "raise_win index g =
     (let count = g_count g;
          g = (case find_slot (\<lambda>i. g_z g ! i = index) 0 count of
                 None \<Rightarrow> g
               | Some p \<Rightarrow> g\<lparr>g_z := (shift_up p count (g_z g))[count - 1 := index]\<rparr>)
      in g\<lparr>g_focus := index\<rparr>)"

definition wm_focus :: "nat \<Rightarrow> gui \<Rightarrow> gui" where
  "wm_focus index g = (if index < g_count g then raise_win index g else g)"

definition focused :: "gui \<Rightarrow> nat option" where
  "focused g = (if g_focus g = NO_WINDOW then None else Some (g_focus g))"

section \<open>Keys of a window\<close>

definition deliver_key :: "nat \<Rightarrow> byte \<Rightarrow> gui \<Rightarrow> gui" where
  "deliver_key i ascii g =
     (if i \<ge> MAX_WINDOWS then g
      else let head = g_khead g ! i; next_head = (head + 1) mod KEY_QUEUE in
      if next_head = g_ktail g ! i then g
      else g\<lparr>g_keys := (g_keys g)[i := (g_keys g ! i)[head := ascii]], g_khead := (g_khead g)[i := next_head]\<rparr>)"

definition has_key :: "nat \<Rightarrow> gui \<Rightarrow> bool" where
  "has_key i g \<longleftrightarrow> i < MAX_WINDOWS \<and> g_ktail g ! i \<noteq> g_khead g ! i"

definition poll_key :: "nat \<Rightarrow> gui \<Rightarrow> byte \<times> gui" where
  "poll_key i g =
     (if i \<ge> MAX_WINDOWS then (0, g)
      else let tail = g_ktail g ! i in
      if tail = g_khead g ! i then (0, g)
      else (g_keys g ! i ! tail, g\<lparr>g_ktail := (g_ktail g)[i := (tail + 1) mod KEY_QUEUE]\<rparr>))"

section \<open>The calls of programs\<close>

datatype gui_error = NoDisplay | TooManyWindows | BadWindow

definition create_window ::
  "nat \<Rightarrow> nat \<Rightarrow> byte list \<Rightarrow> nat \<Rightarrow> nat \<Rightarrow> nat \<Rightarrow> nat \<Rightarrow> gui \<times> usize \<times> mmu \<Rightarrow> (gui_error, nat) outcome \<times> gui \<times> usize \<times> mmu" where
  "create_window owner space title x y width height st =
     (if \<not> g_active (fst st) then (Err NoDisplay, st)
      else case wm_create owner space title x y width height False st of
        (None, st) \<Rightarrow> (Err TooManyWindows, st)
      | (Some i, st) \<Rightarrow> (Ok i, st))"

definition window_buffer :: "nat \<Rightarrow> nat \<Rightarrow> gui \<Rightarrow> (gui_error, nat) outcome" where
  "window_buffer caller i g =
     (case wm_get i g of None \<Rightarrow> Err BadWindow
      | Some w \<Rightarrow> if w_used w \<and> w_owner w = caller \<and> w_user_addr w \<noteq> 0 then Ok (w_user_addr w) else Err BadWindow)"

definition pack16 :: "nat \<Rightarrow> nat \<Rightarrow> nat" where
  "pack16 a b = unat (push_bit 16 (of_nat a :: usize) OR (of_nat b AND 0xFFFF))"

definition window_size :: "nat \<Rightarrow> gui \<Rightarrow> (gui_error, nat) outcome" where
  "window_size i g =
     (case wm_get i g of None \<Rightarrow> Err BadWindow
      | Some w \<Rightarrow> if w_used w then Ok (pack16 (w_width w) (w_height w)) else Err BadWindow)"

definition window_pos :: "nat \<Rightarrow> gui \<Rightarrow> (gui_error, nat) outcome" where
  "window_pos i g =
     (case wm_get i g of None \<Rightarrow> Err BadWindow
      | Some w \<Rightarrow> if w_used w then Ok (pack16 (w_x w) (w_y w)) else Err BadWindow)"

section \<open>The event queue, the mouse and the keyboard\<close>

datatype event = Key byte | Mouse nat nat bool

record input_state =
  in_queue :: "event option list"
  in_head :: nat
  in_tail :: nat
  mouse_px :: int
  mouse_py :: int
  mouse_btn :: bool
  mouse_packet :: "byte list"
  mouse_phase :: nat

definition input_init :: input_state where
  "input_init = \<lparr>in_queue = replicate EVENT_QUEUE None, in_head = 0, in_tail = 0, mouse_px = 400, mouse_py = 300,
     mouse_btn = False, mouse_packet = [0, 0, 0], mouse_phase = 0\<rparr>"

definition push_event :: "event \<Rightarrow> input_state \<Rightarrow> bool \<times> input_state" where
  \<comment> \<open>whether the event was queued, which the code does not report\<close>
  "push_event e s =
     (let head = in_head s; next_head = (head + 1) mod EVENT_QUEUE in
      if next_head = in_tail s then (False, s)
      else (True, s\<lparr>in_queue := (in_queue s)[head := Some e], in_head := next_head\<rparr>))"

definition poll_event :: "input_state \<Rightarrow> event option \<times> input_state" where
  "poll_event s =
     (let tail = in_tail s in
      if tail = in_head s then (None, s)
      else (in_queue s ! tail, s\<lparr>in_queue := (in_queue s)[tail := None], in_tail := (tail + 1) mod EVENT_QUEUE\<rparr>))"

definition mouse_x :: "input_state \<Rightarrow> nat" where "mouse_x s = nat (max 0 (mouse_px s))"
definition mouse_y :: "input_state \<Rightarrow> nat" where "mouse_y s = nat (max 0 (mouse_py s))"

definition input_on_key :: "byte \<Rightarrow> input_state \<Rightarrow> input_state" where
  "input_on_key ascii s = snd (push_event (Key ascii) s)"

definition clamp :: "int \<Rightarrow> int \<Rightarrow> int \<Rightarrow> int" where
  "clamp x lo hi = (if x < lo then lo else if x > hi then hi else x)"

text \<open>One byte of the mouse, on a screen of \<open>width\<close> by \<open>height\<close> pixels.\<close>

definition on_mouse_irq :: "nat \<Rightarrow> nat \<Rightarrow> byte \<Rightarrow> input_state \<Rightarrow> input_state" where
  "on_mouse_irq width height b s =
     (let phase = mouse_phase s in
      if phase = 0 \<and> b AND 0x08 = 0 then s
      else let s = s\<lparr>mouse_packet := (mouse_packet s)[phase := b]\<rparr> in
      if phase < 2 then s\<lparr>mouse_phase := phase + 1\<rparr>
      else let s = s\<lparr>mouse_phase := 0\<rparr>;
               flags = mouse_packet s ! 0; dx_raw = mouse_packet s ! 1; dy_raw = mouse_packet s ! 2 in
      if flags AND 0xC0 \<noteq> 0 then s
      else let dx = (if flags AND 0x10 \<noteq> 0 then uint dx_raw - 256 else uint dx_raw);
               dy = (if flags AND 0x20 \<noteq> 0 then uint dy_raw - 256 else uint dy_raw);
               x = clamp (mouse_px s + dx) 0 (int (width - 1));
               y = clamp (mouse_py s - dy) 0 (int (height - 1));
               left = (flags AND 1 \<noteq> 0)
           in snd (push_event (Mouse (nat x) (nat y) left) (s\<lparr>mouse_px := x, mouse_py := y, mouse_btn := left\<rparr>)))"

definition mouse_state :: "input_state \<Rightarrow> nat" where
  "mouse_state s =
     (let x = (of_nat (mouse_x s) :: usize) AND 0xFFF; y = of_nat (mouse_y s) AND 0xFFF
      in unat (push_bit 20 x OR push_bit 4 y OR (if mouse_btn s then 1 else 0)))"

definition SCANCODE_ASCII :: "byte list" where
  "SCANCODE_ASCII = [0, 0x1B] @ map (of_nat \<circ> of_char) ''1234567890-='' @ [8, 9] @
     map (of_nat \<circ> of_char) ''qwertyuiop[]'' @ [10, 0] @ map (of_nat \<circ> of_char) ''asdfghjkl;'' @ [39, 96, 0, 92] @
     map (of_nat \<circ> of_char) ''zxcvbnm,./'' @ [0, 42, 0, 32] @ replicate 70 0"

text \<open>One scan code of the keyboard; without a window manager the character is printed.\<close>

datatype key_action = KeyIgnored | KeyQueued byte | KeyEchoed byte

definition keyboard_irq :: "bool \<Rightarrow> byte \<Rightarrow> input_state \<Rightarrow> (key_action \<times> input_state) option" where
  \<comment> \<open>\<open>None\<close> would be an index out of bounds\<close>
  "keyboard_irq wm_owns scancode s =
     (if scancode AND 0x80 \<noteq> 0 then Some (KeyIgnored, s)
      else if \<not> unat scancode < length SCANCODE_ASCII then None
      else let ch = SCANCODE_ASCII ! unat scancode in
      if ch = 0 then Some (KeyIgnored, s)
      else if wm_owns then Some (KeyQueued ch, input_on_key ch s)
      else Some (KeyEchoed ch, s))"

section \<open>Events\<close>

definition wadd :: "nat \<Rightarrow> nat \<Rightarrow> nat" where
  \<comment> \<open>addition of \<open>usize\<close>\<close>
  "wadd a b = (a + b) mod 2 ^ 64"

definition hits :: "nat \<Rightarrow> nat \<Rightarrow> window \<Rightarrow> bool" where
  "hits mx my w \<longleftrightarrow> w_used w \<and> mx \<ge> w_x w \<and> mx < wadd (w_x w) (w_width w) \<and>
     my \<ge> w_y w \<and> my < wadd (w_y w) (wadd (w_height w) TITLE_HEIGHT)"

definition handle_mouse :: "nat \<Rightarrow> nat \<Rightarrow> bool \<Rightarrow> gui \<Rightarrow> gui" where
  "handle_mouse mx my left g =
     (if \<not> left then g\<lparr>g_drag := NO_WINDOW\<rparr>
      else if g_drag g \<noteq> NO_WINDOW
      then upd_win (g_drag g) (\<lambda>w. w\<lparr>w_x := mx - g_dx g, w_y := my - g_dy g\<rparr>) g
      else case find (\<lambda>i. hits mx my (g_wins g ! (g_z g ! i))) (rev [0..<g_count g]) of
        None \<Rightarrow> g
      | Some i \<Rightarrow>
          (let idx = g_z g ! i; w = g_wins g ! idx; g = raise_win idx g in
           if my < wadd (w_y w) TITLE_HEIGHT
           then g\<lparr>g_drag := idx, g_dx := mx - w_x w, g_dy := my - w_y w\<rparr>
           else g))"

text \<open>Keys of the focused window; those of the shell window are logged for it.\<close>

definition handle_event :: "event \<Rightarrow> gui \<times> byte list \<Rightarrow> gui \<times> byte list" where
  "handle_event e = (\<lambda>(g, shell_keys).
     case e of
       Mouse x y left \<Rightarrow> (handle_mouse x y left g, shell_keys)
     | Key ascii \<Rightarrow>
         (case focused g of
            None \<Rightarrow> (g, shell_keys)
          | Some f \<Rightarrow> if f = g_shell g then (g, shell_keys @ [ascii]) else (deliver_key f ascii g, shell_keys)))"

lemma filter_update_less:
  assumes "t < length xs" "P (xs ! t)" "\<not> P y"
  shows "length (filter P (xs[t := y])) < length (filter P xs)"
proof -
  have "length (filter P xs) = length (filter P (take t xs @ xs ! t # drop (Suc t) xs))"
    by (simp only: id_take_nth_drop [OF assms(1), symmetric])
  then show ?thesis using assms by (simp add: upd_conv_take_nth_drop)
qed

text \<open>
  \<open>handle_input\<close>: every turn takes an event out of the queue.  The test for a tail outside the array,
  which no operation produces, makes the definition total.
\<close>

function handle_input :: "input_state \<Rightarrow> gui \<times> byte list \<Rightarrow> input_state \<times> gui \<times> byte list" where
  "handle_input s gk =
     (if \<not> in_tail s < length (in_queue s) then (s, gk)
      else case poll_event s of (None, s) \<Rightarrow> (s, gk) | (Some e, s) \<Rightarrow> handle_input s (handle_event e gk))"
  by pat_completeness auto
termination
  by (relation "measure (\<lambda>(s, gk). length (filter (\<lambda>e. e \<noteq> None) (in_queue s)))")
    (auto simp: poll_event_def Let_def split: if_splits intro!: filter_update_less dest: sym)

declare handle_input.simps [simp del]

section \<open>Queues\<close>

definition input_inv :: "input_state \<Rightarrow> bool" where
  "input_inv s \<longleftrightarrow> length (in_queue s) = EVENT_QUEUE \<and> in_head s < EVENT_QUEUE \<and> in_tail s < EVENT_QUEUE \<and>
     (\<forall>e\<in>set (ring_list EVENT_QUEUE (in_queue s) (in_head s) (in_tail s)). e \<noteq> None) \<and>
     length (mouse_packet s) = 3 \<and> mouse_phase s < 3 \<and> 0 \<le> mouse_px s \<and> 0 \<le> mouse_py s"

definition events :: "input_state \<Rightarrow> event list" where
  "events s = map the (ring_list EVENT_QUEUE (in_queue s) (in_head s) (in_tail s))"

definition next_event :: "input_state \<Rightarrow> (event \<times> input_state) option" where
  "next_event s = (case poll_event s of (None, _) \<Rightarrow> None | (Some e, s) \<Rightarrow> Some (e, s))"

lemma input_inv_init: "input_inv input_init"
  by (simp add: input_inv_def input_init_def ring_empty)

lemma push_result:
  assumes "input_inv s" "push_event e s = (ok, s')"
  shows "ok = (length (events s) < 63) \<and> events s' = (if ok then events s @ [e] else events s)" and "input_inv s'"
    and "mouse_px s' = mouse_px s \<and> mouse_py s' = mouse_py s \<and> mouse_packet s' = mouse_packet s \<and> mouse_phase s' = mouse_phase s"
proof -
  have b: "length (in_queue s) = 64" "in_head s < 64" "in_tail s < 64" using assms(1) by (auto simp: input_inv_def)
  let ?r = "ring_list 64 (in_queue s) (in_head s) (in_tail s)"
  have full: "(in_head s + 1) mod 64 = in_tail s \<longleftrightarrow> length ?r = 63"
    using ring_full_iff [OF b(2,3)] by simp
  have le: "length ?r < 64" using ring_len_less [OF b(2)] by simp
  have put: "ring_list 64 ((in_queue s)[in_head s := Some e]) ((in_head s + 1) mod 64) (in_tail s) = ?r @ [Some e]"
    if "(in_head s + 1) mod 64 \<noteq> in_tail s" by (rule ring_put [OF b that])
  show "ok = (length (events s) < 63) \<and> events s' = (if ok then events s @ [e] else events s)"
  proof (cases "(in_head s + 1) mod 64 = in_tail s")
    case True
    then have "ok = False" "s' = s" using assms(2) by (simp_all add: push_event_def Let_def)
    then show ?thesis using full True by (simp add: events_def)
  next
    case False
    then have ok: "ok = True" "s' = s\<lparr>in_queue := (in_queue s)[in_head s := Some e], in_head := (in_head s + 1) mod 64\<rparr>"
      using assms(2) by (simp_all add: push_event_def Let_def)
    have "length ?r \<noteq> 63" using full False by blast
    then have "length ?r < 63" using le by linarith
    then show ?thesis unfolding ok using put [OF False] by (simp add: events_def)
  qed
  show "input_inv s'"
  proof (cases "(in_head s + 1) mod 64 = in_tail s")
    case True
    then show ?thesis using assms by (simp add: push_event_def Let_def)
  next
    case False
    then have "s' = s\<lparr>in_queue := (in_queue s)[in_head s := Some e], in_head := (in_head s + 1) mod 64\<rparr>"
      using assms(2) by (simp add: push_event_def Let_def)
    then show ?thesis using assms(1) put [OF False] by (auto simp: input_inv_def)
  qed
  show "mouse_px s' = mouse_px s \<and> mouse_py s' = mouse_py s \<and> mouse_packet s' = mouse_packet s \<and> mouse_phase s' = mouse_phase s"
    using assms(2) by (auto simp: push_event_def Let_def split: if_splits)
qed

lemma poll_event_result:
  assumes "input_inv s"
  shows "(events s = [] \<and> poll_event s = (None, s)) \<or>
     (\<exists>e s'. poll_event s = (Some e, s') \<and> events s = e # events s' \<and> input_inv s')"
proof (cases "in_tail s = in_head s")
  case True
  then show ?thesis using assms by (simp add: poll_event_def events_def ring_empty input_inv_def)
next
  case False
  have b: "length (in_queue s) = 64" "in_head s < 64" "in_tail s < 64" using assms by (auto simp: input_inv_def)
  let ?s = "s\<lparr>in_queue := (in_queue s)[in_tail s := None], in_tail := (in_tail s + 1) mod 64\<rparr>"
  have p: "poll_event s = (in_queue s ! in_tail s, ?s)" using False by (simp add: poll_event_def Let_def)
  note g = ring_get [OF b(2,3) False, of "in_queue s"] and c = ring_clear [OF b(2,3) False, of "in_queue s" None]
  have "\<forall>e\<in>set (ring_list 64 (in_queue s) (in_head s) (in_tail s)). e \<noteq> None" using assms by (simp add: input_inv_def)
  then obtain e where e: "in_queue s ! in_tail s = Some e"
    and r: "\<forall>e\<in>set (ring_list 64 (in_queue s) (in_head s) ((in_tail s + 1) mod 64)). e \<noteq> None" unfolding g by auto
  have "input_inv ?s" using assms r c by (simp add: input_inv_def)
  moreover have "events s = e # events ?s" using g c e by (simp add: events_def)
  ultimately show ?thesis using p e by auto
qed

interpretation event_queue: bounded_fifo input_inv events 63 push_event next_event
proof
  show "\<And>s x ok s'. input_inv s \<Longrightarrow> push_event x s = (ok, s') \<Longrightarrow>
      ok = (length (events s) < 63) \<and> events s' = (if ok then events s @ [x] else events s)" by (rule push_result(1))
  show "\<And>s x ok s'. input_inv s \<Longrightarrow> push_event x s = (ok, s') \<Longrightarrow> input_inv s'" by (rule push_result(2))
  show "\<And>s. input_inv s \<Longrightarrow> (case next_event s of None \<Rightarrow> events s = [] | Some (x, s') \<Rightarrow> events s = x # events s')"
    using poll_event_result by (fastforce simp: next_event_def)
  show "\<And>s x s'. input_inv s \<Longrightarrow> next_event s = Some (x, s') \<Longrightarrow> input_inv s'"
    using poll_event_result by (fastforce simp: next_event_def)
qed

text \<open>The keys of one window, on the three arrays of \<^verbatim>\<open>gui_api.rs\<close>.\<close>

definition keys_inv :: "gui \<Rightarrow> bool" where
  "keys_inv g \<longleftrightarrow> length (g_keys g) = MAX_WINDOWS \<and> length (g_khead g) = MAX_WINDOWS \<and> length (g_ktail g) = MAX_WINDOWS \<and>
     (\<forall>i<MAX_WINDOWS. length (g_keys g ! i) = KEY_QUEUE \<and> g_khead g ! i < KEY_QUEUE \<and> g_ktail g ! i < KEY_QUEUE)"

definition pending_keys :: "nat \<Rightarrow> gui \<Rightarrow> byte list" where
  "pending_keys i g = ring_list KEY_QUEUE (g_keys g ! i) (g_khead g ! i) (g_ktail g ! i)"

definition put_key :: "nat \<Rightarrow> byte \<Rightarrow> gui \<Rightarrow> bool \<times> gui" where
  "put_key i ascii g = ((g_khead g ! i + 1) mod KEY_QUEUE \<noteq> g_ktail g ! i, deliver_key i ascii g)"

definition get_key :: "nat \<Rightarrow> gui \<Rightarrow> (byte \<times> gui) option" where
  "get_key i g = (if has_key i g then Some (poll_key i g) else None)"

lemma keys_invD:
  "keys_inv g \<Longrightarrow> i < 8 \<Longrightarrow> length (g_keys g ! i) = 16 \<and> g_khead g ! i < 16 \<and> g_ktail g ! i < 16"
  "keys_inv g \<Longrightarrow> length (g_keys g) = 8 \<and> length (g_khead g) = 8 \<and> length (g_ktail g) = 8"
  by (auto simp: keys_inv_def)

lemma deliver_result:
  assumes "keys_inv g" "i < MAX_WINDOWS"
  shows "pending_keys i (deliver_key i k g) = (if length (pending_keys i g) < 15 then pending_keys i g @ [k] else pending_keys i g)"
    and "((g_khead g ! i + 1) mod KEY_QUEUE \<noteq> g_ktail g ! i) = (length (pending_keys i g) < 15)"
    and "keys_inv (deliver_key i k g)"
    and "\<And>j. j < MAX_WINDOWS \<Longrightarrow> j \<noteq> i \<Longrightarrow> pending_keys j (deliver_key i k g) = pending_keys j g"
proof -
  have b: "length (g_keys g ! i) = 16" "g_khead g ! i < 16" "g_ktail g ! i < 16" using keys_invD(1) [OF assms] by auto
  note l = keys_invD(2) [OF assms(1)]
  have full: "(g_khead g ! i + 1) mod 16 = g_ktail g ! i \<longleftrightarrow> length (pending_keys i g) = 15"
    using ring_full_iff [OF b(2,3)] by (simp add: pending_keys_def)
  have le: "length (pending_keys i g) < 16" using ring_len_less [OF b(2)] by (simp add: pending_keys_def)
  show f: "((g_khead g ! i + 1) mod KEY_QUEUE \<noteq> g_ktail g ! i) = (length (pending_keys i g) < 15)"
  proof -
    have "length (pending_keys i g) < 15 \<longleftrightarrow> length (pending_keys i g) \<noteq> 15" using le by linarith
    then show ?thesis using full by blast
  qed
  let ?g = "g\<lparr>g_keys := (g_keys g)[i := (g_keys g ! i)[g_khead g ! i := k]], g_khead := (g_khead g)[i := (g_khead g ! i + 1) mod 16]\<rparr>"
  have d: "deliver_key i k g = (if length (pending_keys i g) < 15 then ?g else g)"
    unfolding deliver_key_def Let_def using f assms(2) by auto
  have "pending_keys i ?g = pending_keys i g @ [k]" if "length (pending_keys i g) < 15"
    using ring_put [OF b, of k] f that assms(2) l by (simp add: pending_keys_def)
  then show "pending_keys i (deliver_key i k g) = (if length (pending_keys i g) < 15 then pending_keys i g @ [k] else pending_keys i g)"
    unfolding d by simp
  have "keys_inv ?g" using assms b by (auto simp: keys_inv_def nth_list_update)
  then show "keys_inv (deliver_key i k g)" unfolding d using assms(1) by simp
  show "pending_keys j (deliver_key i k g) = pending_keys j g" if "j < MAX_WINDOWS" "j \<noteq> i" for j
    unfolding d using that by (simp add: pending_keys_def)
qed

lemma poll_key_result:
  assumes "keys_inv g" "i < MAX_WINDOWS"
  shows "has_key i g = (pending_keys i g \<noteq> [])" "\<not> has_key i g \<Longrightarrow> poll_key i g = (0, g)"
    "has_key i g \<Longrightarrow> pending_keys i g = fst (poll_key i g) # pending_keys i (snd (poll_key i g))"
    "keys_inv (snd (poll_key i g))"
    "\<And>j. j < MAX_WINDOWS \<Longrightarrow> j \<noteq> i \<Longrightarrow> pending_keys j (snd (poll_key i g)) = pending_keys j g"
proof -
  have b: "length (g_keys g ! i) = 16" "g_khead g ! i < 16" "g_ktail g ! i < 16" using keys_invD(1) [OF assms] by auto
  note l = keys_invD(2) [OF assms(1)]
  have "length (pending_keys i g) = 0 \<longleftrightarrow> g_ktail g ! i = g_khead g ! i"
    using ring_len_0_iff [OF b(2,3)] by (simp add: pending_keys_def)
  then show "has_key i g = (pending_keys i g \<noteq> [])" using assms(2) by (simp add: has_key_def)
  show "\<not> has_key i g \<Longrightarrow> poll_key i g = (0, g)" by (simp add: has_key_def poll_key_def)
  show "pending_keys i g = fst (poll_key i g) # pending_keys i (snd (poll_key i g))" if "has_key i g"
  proof -
    have ne: "g_ktail g ! i \<noteq> g_khead g ! i" using that by (simp add: has_key_def)
    show ?thesis using ring_get [OF b(2,3) ne, of "g_keys g ! i"] ne assms(2) l by (simp add: pending_keys_def poll_key_def Let_def)
  qed
  show "keys_inv (snd (poll_key i g))" using assms by (auto simp: keys_inv_def poll_key_def Let_def nth_list_update)
  show "pending_keys j (snd (poll_key i g)) = pending_keys j g" if "j < MAX_WINDOWS" "j \<noteq> i" for j
    using that by (simp add: pending_keys_def poll_key_def Let_def)
qed

interpretation key_queue: bounded_fifo "\<lambda>g. keys_inv g \<and> i < MAX_WINDOWS" "pending_keys i" 15 "put_key i" "get_key i" for i
proof
  show "\<And>s x ok s'. keys_inv s \<and> i < 8 \<Longrightarrow> put_key i x s = (ok, s') \<Longrightarrow>
      ok = (length (pending_keys i s) < 15) \<and> pending_keys i s' = (if ok then pending_keys i s @ [x] else pending_keys i s)"
    using deliver_result(1,2) unfolding put_key_def by simp
  show "\<And>s. keys_inv s \<and> i < 8 \<Longrightarrow> (case get_key i s of None \<Rightarrow> pending_keys i s = [] | Some (x, s') \<Rightarrow> pending_keys i s = x # pending_keys i s')"
    using poll_key_result(1,3) [of _ i] by (auto simp: get_key_def split: prod.split) (metis fst_conv snd_conv)
  show "keys_inv s' \<and> i < 8" if "keys_inv s \<and> i < 8" "get_key i s = Some (x, s')" for s x s'
    using poll_key_result(4) [of s i] that unfolding get_key_def by (auto split: if_splits)
qed (use deliver_result(3) in \<open>auto simp: put_key_def\<close>)

section \<open>The stack of windows\<close>

definition z_stack :: "gui \<Rightarrow> nat list" where
  "z_stack g = take (g_count g) (g_z g)"

definition gui_inv :: "gui \<Rightarrow> bool" where
  "gui_inv g \<longleftrightarrow> length (g_wins g) = MAX_WINDOWS \<and> length (g_z g) = MAX_WINDOWS \<and> g_count g \<le> MAX_WINDOWS \<and>
     distinct (z_stack g) \<and> set (z_stack g) = {..<g_count g} \<and>
     (g_focus g = NO_WINDOW \<or> g_focus g < g_count g) \<and>
     (g_drag g = NO_WINDOW \<or> g_drag g < g_count g \<and> w_used (g_wins g ! g_drag g)) \<and>
     (g_shell g = NO_WINDOW \<or> g_shell g < g_count g \<and> w_used (g_wins g ! g_shell g) \<and> w_system (g_wins g ! g_shell g)) \<and>
     keys_inv g"

lemma gui_invD:
  assumes "gui_inv g"
  shows "length (g_wins g) = 8" "length (g_z g) = 8" "g_count g \<le> 8" "distinct (z_stack g)" "set (z_stack g) = {..<g_count g}"
    "keys_inv g" "length (z_stack g) = g_count g"
  using assms by (simp_all add: gui_inv_def z_stack_def)

lemma gui_inv_init: "gui_inv gui_init"
  by (simp add: gui_inv_def gui_init_def z_stack_def keys_inv_def)

lemma shift_up_nth:
  "p \<le> n \<Longrightarrow> n < length z \<Longrightarrow> fold (\<lambda>i z. z[i := z ! (i + 1)]) [p..<n] z ! j = (if p \<le> j \<and> j < n then z ! (j + 1) else z ! j) \<and>
     length (fold (\<lambda>i z. z[i := z ! (i + 1)]) [p..<n] z) = length z"
proof (induction n arbitrary: j)
  case (Suc n)
  show ?case
  proof (cases "p \<le> n")
    case True
    let ?f = "fold (\<lambda>i z. z[i := z ! (i + 1)]) [p..<n] z"
    have l: "length ?f = length z" and nth: "\<And>j. ?f ! j = (if p \<le> j \<and> j < n then z ! (j + 1) else z ! j)"
      using Suc True by simp_all
    have "fold (\<lambda>i z. z[i := z ! (i + 1)]) [p..<Suc n] z = ?f[n := z ! (n + 1)]"
      using True nth [of "n + 1"] by simp
    then show ?thesis using True Suc.prems l nth by (auto simp: nth_list_update)
  next
    case False
    then have "p = Suc n" using Suc.prems(1) by simp
    then show ?thesis by auto
  qed
qed simp

lemma raise_stack:
  assumes "gui_inv g" "z_stack g = lower @ f # upper"
  shows "raise_win f g = g\<lparr>g_z := g_z (raise_win f g), g_focus := f\<rparr> \<and> z_stack (raise_win f g) = lower @ upper @ [f] \<and>
    length (g_z (raise_win f g)) = length (g_z g)"
proof -
  note I = gui_invD [OF assms(1)]
  let ?c = "g_count g" and ?p = "length lower"
  have c: "?c = ?p + Suc (length upper)" using I(7) assms(2) by simp
  have zs: "\<And>i. i < ?c \<Longrightarrow> g_z g ! i = z_stack g ! i" by (simp add: z_stack_def)
  have f: "f \<notin> set lower" "f \<notin> set upper" using I(4) assms(2) by auto
  have pos: "find_slot (\<lambda>i. g_z g ! i = f) 0 ?c = Some ?p"
  proof (rule find_slot_first)
    show "g_z g ! ?p = f" using zs [of ?p] c assms(2) by simp
    show "g_z g ! j \<noteq> f" if "0 \<le> j" "j < ?p" for j
      using zs [of j] c that assms(2) f(1) by (simp add: nth_append) (metis nth_mem)
  qed (use c in simp_all)
  define z where "z = (shift_up ?p ?c (g_z g))[?c - 1 := f]"
  have r: "raise_win f g = g\<lparr>g_z := z, g_focus := f\<rparr>" by (simp add: raise_win_def Let_def pos z_def)
  have sh: "shift_up ?p ?c (g_z g) ! j = (if ?p \<le> j \<and> j < ?c - 1 then g_z g ! (j + 1) else g_z g ! j)"
    "length (shift_up ?p ?c (g_z g)) = length (g_z g)" for j
    unfolding shift_up_def using shift_up_nth [of ?p "?c - 1" "g_z g" j] c I(2,3) by auto
  have "take ?c z = lower @ upper @ [f]"
  proof (rule nth_equalityI)
    show "length (take ?c z) = length (lower @ upper @ [f])" using c I(2,3) sh(2) by (simp add: z_def)
    fix j assume j: "j < length (take ?c z)"
    then have jc: "j < ?c" by simp
    have st: "z_stack g ! i = (lower @ f # upper) ! i" for i using assms(2) by simp
    show "take ?c z ! j = (lower @ upper @ [f]) ! j"
    proof (cases "j = ?c - 1")
      case True
      then show ?thesis using c I(2,3) sh(2) by (simp add: z_def nth_append)
    next
      case False
      then have j1: "Suc j < ?c" "j < ?c - 1" using jc by linarith+
      have "take ?c z ! j = (if ?p \<le> j then z_stack g ! Suc j else z_stack g ! j)"
        using False jc j1 sh(1) [of j] zs by (simp add: z_def)
      then show ?thesis using j1 c unfolding st by (auto simp: nth_append Suc_diff_le)
    qed
  qed
  then have "z_stack (raise_win f g) = lower @ upper @ [f]" by (simp add: r z_stack_def)
  moreover have "length z = length (g_z g)" using sh(2) by (simp add: z_def)
  ultimately show ?thesis using r by simp
qed

lemma raise_inv:
  assumes "gui_inv g" "f < g_count g"
  shows "gui_inv (raise_win f g)" "g_wins (raise_win f g) = g_wins g" "g_count (raise_win f g) = g_count g"
    "g_drag (raise_win f g) = g_drag g"
proof -
  note I = gui_invD [OF assms(1)]
  have "f \<in> set (z_stack g)" using I(5) assms(2) by simp
  then obtain lower upper where s: "z_stack g = lower @ f # upper" by (meson split_list)
  note R = raise_stack [OF assms(1) s]
  have keep: "g_wins (raise_win f g) = g_wins g" "g_count (raise_win f g) = g_count g" "g_drag (raise_win f g) = g_drag g"
    "g_shell (raise_win f g) = g_shell g" "keys_inv (raise_win f g) = keys_inv g" "g_focus (raise_win f g) = f"
    by (subst R [THEN conjunct1], simp add: keys_inv_def)+
  show "g_wins (raise_win f g) = g_wins g" "g_count (raise_win f g) = g_count g" "g_drag (raise_win f g) = g_drag g"
    by (rule keep)+
  have "distinct (z_stack (raise_win f g))" "set (z_stack (raise_win f g)) = {..<g_count g}"
    using I(4,5) s R by auto
  then show "gui_inv (raise_win f g)" using assms R keep I by (simp add: gui_inv_def)
qed

section \<open>Operations keep the stack\<close>

lemma z_stack_upd [simp]: "z_stack (upd_win i f g) = z_stack g"
  by (simp add: z_stack_def upd_win_def)

lemma upd_win_fields [simp]:
  "g_z (upd_win i f g) = g_z g" "g_count (upd_win i f g) = g_count g" "g_focus (upd_win i f g) = g_focus g"
  "g_drag (upd_win i f g) = g_drag g" "g_shell (upd_win i f g) = g_shell g" "keys_inv (upd_win i f g) = keys_inv g"
  "g_khead (upd_win i f g) = g_khead g" "g_ktail (upd_win i f g) = g_ktail g" "g_keys (upd_win i f g) = g_keys g"
  "g_active (upd_win i f g) = g_active g"
  by (simp_all add: upd_win_def keys_inv_def)

lemma upd_win_at: "i < length (g_wins g) \<Longrightarrow> g_wins (upd_win i f g) ! j = (if j = i then f (g_wins g ! i) else g_wins g ! j)"
  by (simp add: upd_win_def)

lemma z_stack_cong: "g_z g = g_z g' \<Longrightarrow> g_count g = g_count g' \<Longrightarrow> z_stack g = z_stack g'"
  by (simp add: z_stack_def)

lemma keys_inv_cong: "g_keys g = g_keys g' \<Longrightarrow> g_khead g = g_khead g' \<Longrightarrow> g_ktail g = g_ktail g' \<Longrightarrow> keys_inv g = keys_inv g'"
  by (simp add: keys_inv_def)

lemma gui_inv_ptrs:
  assumes "gui_inv g"
  shows "g_focus g = NO_WINDOW \<or> g_focus g < g_count g"
    "g_drag g = NO_WINDOW \<or> g_drag g < g_count g \<and> w_used (g_wins g ! g_drag g)"
    "g_shell g = NO_WINDOW \<or> g_shell g < g_count g \<and> w_used (g_wins g ! g_shell g) \<and> w_system (g_wins g ! g_shell g)"
  using assms unfolding gui_inv_def by blast+

lemma gui_invI:
  assumes "length (g_wins g) = MAX_WINDOWS" "length (g_z g) = MAX_WINDOWS" "g_count g \<le> MAX_WINDOWS"
     "distinct (z_stack g)" "set (z_stack g) = {..<g_count g}"
     "g_focus g = NO_WINDOW \<or> g_focus g < g_count g"
     "g_drag g = NO_WINDOW \<or> g_drag g < g_count g \<and> w_used (g_wins g ! g_drag g)"
     "g_shell g = NO_WINDOW \<or> g_shell g < g_count g \<and> w_used (g_wins g ! g_shell g) \<and> w_system (g_wins g ! g_shell g)"
     "keys_inv g"
  shows "gui_inv g"
  unfolding gui_inv_def using assms by blast

lemma close_win_inv:
  assumes "gui_inv g" "i < g_count g" "\<not> w_system (g_wins g ! i)"
  shows "gui_inv (close_win i g)" "g_count (close_win i g) = g_count g"
    "\<And>j. g_wins (close_win i g) ! j = (if j = i then (g_wins g ! i)\<lparr>w_used := False, w_user_addr := 0\<rparr> else g_wins g ! j)"
    "g_keys (close_win i g) = g_keys g" "g_khead (close_win i g) = g_khead g" "g_ktail (close_win i g) = g_ktail g"
proof -
  note I = gui_invD [OF assms(1)]
  have i: "i < length (g_wins g)" using assms(2) I(1,3) by simp
  let ?g = "upd_win i (\<lambda>w. w\<lparr>w_used := False, w_user_addr := 0\<rparr>) g"
  have shape: "g_z (close_win i g) = g_z g" "g_count (close_win i g) = g_count g" "g_wins (close_win i g) = g_wins ?g"
    "g_focus (close_win i g) = (if g_focus g = i then g_shell g else g_focus g)"
    "g_drag (close_win i g) = (if g_drag g = i then NO_WINDOW else g_drag g)" "g_shell (close_win i g) = g_shell g"
    "g_keys (close_win i g) = g_keys g" "g_khead (close_win i g) = g_khead g" "g_ktail (close_win i g) = g_ktail g"
    by (simp_all add: close_win_def Let_def)
  show "g_count (close_win i g) = g_count g" "g_keys (close_win i g) = g_keys g" "g_khead (close_win i g) = g_khead g"
    "g_ktail (close_win i g) = g_ktail g" by (rule shape)+
  show w: "\<And>j. g_wins (close_win i g) ! j = (if j = i then (g_wins g ! i)\<lparr>w_used := False, w_user_addr := 0\<rparr> else g_wins g ! j)"
    unfolding shape by (rule upd_win_at [OF i])
  have "z_stack (close_win i g) = z_stack g" by (rule z_stack_cong) (simp_all add: shape)
  moreover have "keys_inv (close_win i g) = keys_inv g" by (rule keys_inv_cong) (simp_all add: shape)
  moreover have "length (g_wins (close_win i g)) = 8" unfolding shape by (simp add: upd_win_def I)
  moreover note P = gui_inv_ptrs [OF assms(1)]
  have "g_focus (close_win i g) = NO_WINDOW \<or> g_focus (close_win i g) < g_count (close_win i g)"
    unfolding shape using P(1,3) by (simp split: if_split) blast
  moreover have "g_drag (close_win i g) = NO_WINDOW \<or> g_drag (close_win i g) < g_count (close_win i g) \<and> w_used (g_wins (close_win i g) ! g_drag (close_win i g))"
    using P(2) by (simp add: w shape(2,5))
  moreover have "g_shell (close_win i g) = NO_WINDOW \<or> g_shell (close_win i g) < g_count (close_win i g) \<and>
      w_used (g_wins (close_win i g) ! g_shell (close_win i g)) \<and> w_system (g_wins (close_win i g) ! g_shell (close_win i g))"
    using P(3) assms(3) by (auto simp: w shape(2,6))
  ultimately show "gui_inv (close_win i g)"
    using I by (intro gui_invI) (simp_all add: shape)
qed

text \<open>Which windows a program has, and closing all of them.\<close>

definition owned :: "nat \<Rightarrow> gui \<Rightarrow> nat set" where
  "owned owner g = {i. i < g_count g \<and> owned_by owner (g_wins g ! i)}"

lemma owned_count: "owned_window_count owner g = card (owned owner g)"
proof -
  have "set (filter (\<lambda>i. owned_by owner (g_wins g ! i)) [0..<g_count g]) = owned owner g" by (auto simp: owned_def)
  then show ?thesis unfolding owned_window_count_def by (metis distinct_card distinct_filter distinct_upt)
qed

definition close_up_to :: "nat \<Rightarrow> nat \<Rightarrow> gui \<Rightarrow> nat \<times> gui" where
  "close_up_to owner n g =
     fold (\<lambda>i (closed, g). if owned_by owner (g_wins g ! i) then (closed + 1, close_win i g) else (closed, g)) [0..<n] (0, g)"

lemma close_up_to:
  assumes "gui_inv g" "n \<le> g_count g" "close_up_to owner n g = (k, g')"
  shows "gui_inv g' \<and> g_count g' = g_count g \<and> g_keys g' = g_keys g \<and> g_khead g' = g_khead g \<and> g_ktail g' = g_ktail g \<and>
    (\<forall>j. g_wins g' ! j = (if j < n \<and> owned_by owner (g_wins g ! j) then (g_wins g ! j)\<lparr>w_used := False, w_user_addr := 0\<rparr>
                          else g_wins g ! j))"
  using assms(2,3)
proof (induction n arbitrary: k g')
  case 0
  then show ?case using assms(1) by (simp add: close_up_to_def)
next
  case (Suc n)
  obtain k1 g1 where c: "close_up_to owner n g = (k1, g1)" by (cases "close_up_to owner n g")
  have IH: "gui_inv g1 \<and> g_count g1 = g_count g \<and> g_keys g1 = g_keys g \<and> g_khead g1 = g_khead g \<and> g_ktail g1 = g_ktail g \<and>
    (\<forall>j. g_wins g1 ! j = (if j < n \<and> owned_by owner (g_wins g ! j) then (g_wins g ! j)\<lparr>w_used := False, w_user_addr := 0\<rparr>
                          else g_wins g ! j))" using Suc.IH [OF _ c] Suc.prems(1) by simp
  have n1: "g_wins g1 ! n = g_wins g ! n" using IH by simp
  have s: "(k, g') = (if owned_by owner (g_wins g1 ! n) then (k1 + 1, close_win n g1) else (k1, g1))"
    using Suc.prems(2) c by (simp add: close_up_to_def)
  show ?case
  proof (cases "owned_by owner (g_wins g ! n)")
    case True
    then have g': "g' = close_win n g1" using s n1 by simp
    have "\<not> w_system (g_wins g1 ! n)" using True n1 by (simp add: owned_by_def)
    moreover have "n < g_count g1" using IH Suc.prems(1) by simp
    ultimately show ?thesis using close_win_inv [of g1 n] IH True n1 unfolding g' by (auto simp: less_Suc_eq)
  next
    case False
    then show ?thesis using s n1 IH by (auto simp: less_Suc_eq)
  qed
qed

lemma close_owned_by:
  assumes "gui_inv g" "close_owned_by owner g = (k, g')"
  shows "gui_inv g'" "g_count g' = g_count g" "pending_keys i g' = pending_keys i g"
    "\<And>j. j < g_count g \<Longrightarrow> g_wins g' ! j = (if owned_by owner (g_wins g ! j) then (g_wins g ! j)\<lparr>w_used := False, w_user_addr := 0\<rparr>
                          else g_wins g ! j)"
  using close_up_to [OF assms(1) order_refl, of owner k g'] assms(2)
  by (simp_all add: close_owned_by_def close_up_to_def pending_keys_def)

text \<open>What a successful creation does.\<close>

lemma title_window_fields [simp]:
  "w_used (title_window t w) = w_used w" "w_x (title_window t w) = w_x w" "w_y (title_window t w) = w_y w"
  "w_width (title_window t w) = w_width w" "w_height (title_window t w) = w_height w" "w_buffer (title_window t w) = w_buffer w"
  "w_system (title_window t w) = w_system w" "w_owner (title_window t w) = w_owner w" "w_user_addr (title_window t w) = w_user_addr w"
  by (simp_all add: title_window_def Let_def)

lemma wm_create_None: "wm_create owner space title x y width height system (g, heap, s) = (None, g', heap', s') \<Longrightarrow> g' = g"
  by (auto simp: wm_create_def Let_def split: option.splits if_splits prod.splits)

lemma wm_create_Some:
  assumes "wm_create owner space title x y width height system (g, heap, s) = (Some i, g', heap', s')"
  obtains win where "w_used win" "w_owner win = owner" "w_system win = system" "w_width win = width" "w_height win = height"
    "space \<noteq> 0 \<and> \<not> system \<longrightarrow> owned_window_count owner g < WINDOW_MAP_SLOTS \<and> width * height * 4 mod 2 ^ 64 \<le> WINDOW_MAP_SLOT \<and>
       w_user_addr win = WINDOW_MAP_BASE + owned_window_count owner g * WINDOW_MAP_SLOT"
    "free_win g (g_count g) = Some i \<and> g_z g' = g_z g \<and> g_count g' = g_count g \<or>
     free_win g (g_count g) = None \<and> i = g_count g \<and> i < MAX_WINDOWS \<and> g_z g' = (g_z g)[i := i] \<and> g_count g' = i + 1"
    "g_wins g' = (g_wins g)[i := win]" "g_focus g' = (if g_focus g = NO_WINDOW then i else g_focus g)"
    "g_drag g' = g_drag g" "g_shell g' = g_shell g" "g_keys g' = g_keys g" "g_khead g' = g_khead g" "g_ktail g' = g_ktail g"
proof -
  let ?n = "owned_window_count owner g" and ?slot = "free_win g (g_count g)" and ?bytes = "(width * height * 4) mod 2 ^ 64"
  have wh: "width \<noteq> 0" "height \<noteq> 0" "\<not> (?slot = None \<and> MAX_WINDOWS \<le> g_count g)"
    using assms by (auto simp: wm_create_def Let_def split: if_splits)
  obtain block h where k: "kmalloc_aligned (of_nat ?bytes) 4096 heap = Some (block, h)"
    using assms wh by (cases "kmalloc_aligned (of_nat ?bytes) 4096 heap") (auto simp: wm_create_def Let_def split: if_splits)
  define m where "m = (let s = paint_buffer (unat block) ((width * height) mod 2 ^ 64) WINDOW_BG s;
              vaddr = WINDOW_MAP_BASE + ?n * WINDOW_MAP_SLOT in
                (if space \<noteq> 0 \<and> \<not> system then
                   (if ?n \<ge> WINDOW_MAP_SLOTS \<or> ?bytes > WINDOW_MAP_SLOT then (False, 0, s)
                    else case map_user_frames space vaddr (unat block) ?bytes s of (ok, s) \<Rightarrow> (ok, vaddr, s))
                 else if \<not> system then (True, unat block, protect_user_range (unat block) ?bytes s)
                 else (True, 0, s)))"
  obtain ok addr t where m3: "m = (ok, addr, t)" by (cases m)
  define win where "win = title_window title
                        (window_empty\<lparr>w_used := True, w_x := x, w_y := y, w_width := width, w_height := height,
                           w_buffer := unat block, w_system := system, w_owner := owner, w_user_addr := addr\<rparr>)"
  define index where "index = (case ?slot of Some i \<Rightarrow> i | None \<Rightarrow> g_count g)"
  have step: "wm_create owner space title x y width height system (g, heap, s) =
      (if \<not> ok then (None, g, h, t)
       else (Some index, let g = upd_win index (\<lambda>_. win) g;
                      g = (if ?slot = None then g\<lparr>g_z := (g_z g)[g_count g := g_count g], g_count := g_count g + 1\<rparr> else g)
                  in (if g_focus g = NO_WINDOW then g\<lparr>g_focus := index\<rparr> else g), h, t))"
    using wh k m3 unfolding m_def wm_create_def Let_def win_def index_def by (auto simp: upd_win_def split: option.split)
  have ok: "ok" and i: "i = index" and g': "g' = (let g = upd_win index (\<lambda>_. win) g;
                      g = (if ?slot = None then g\<lparr>g_z := (g_z g)[g_count g := g_count g], g_count := g_count g + 1\<rparr> else g)
                  in (if g_focus g = NO_WINDOW then g\<lparr>g_focus := index\<rparr> else g))"
    using assms unfolding step by (auto split: if_splits)
  have addr: "?n < WINDOW_MAP_SLOTS \<and> ?bytes \<le> WINDOW_MAP_SLOT \<and> addr = WINDOW_MAP_BASE + ?n * WINDOW_MAP_SLOT" if "space \<noteq> 0" "\<not> system"
    using m3 ok that unfolding m_def Let_def by (auto split: if_splits prod.splits)
  show thesis
  proof (rule that [of win])
    show "?slot = Some i \<and> g_z g' = g_z g \<and> g_count g' = g_count g \<or>
     ?slot = None \<and> i = g_count g \<and> i < MAX_WINDOWS \<and> g_z g' = (g_z g)[i := i] \<and> g_count g' = i + 1"
      using wh by (cases ?slot) (auto simp: g' i index_def Let_def)
  qed (use addr in \<open>auto simp: win_def g' i Let_def upd_win_def\<close>)
qed

lemma free_win_Some: "free_win g n = Some i \<Longrightarrow> i < n \<and> \<not> w_used (g_wins g ! i)"
  unfolding free_win_def by (drule find_slot_Some) simp

lemma wm_create_inv:
  assumes "gui_inv g" "wm_create owner space title x y width height system (g, heap, s) = (r, g', heap', s')"
  shows "gui_inv g'"
proof (cases r)
  case None
  then show ?thesis using wm_create_None assms by blast
next
  case (Some i)
  note I = gui_invD [OF assms(1)]
  obtain win where win: "w_used win" "w_owner win = owner" "w_system win = system" "w_width win = width" "w_height win = height"
    "space \<noteq> 0 \<and> \<not> system \<longrightarrow> owned_window_count owner g < WINDOW_MAP_SLOTS \<and> width * height * 4 mod 2 ^ 64 \<le> WINDOW_MAP_SLOT \<and>
       w_user_addr win = WINDOW_MAP_BASE + owned_window_count owner g * WINDOW_MAP_SLOT"
    and slot: "free_win g (g_count g) = Some i \<and> g_z g' = g_z g \<and> g_count g' = g_count g \<or>
     free_win g (g_count g) = None \<and> i = g_count g \<and> i < MAX_WINDOWS \<and> g_z g' = (g_z g)[i := i] \<and> g_count g' = i + 1"
    and w: "g_wins g' = (g_wins g)[i := win]" and f: "g_focus g' = (if g_focus g = NO_WINDOW then i else g_focus g)"
    and rest: "g_drag g' = g_drag g" "g_shell g' = g_shell g" "g_keys g' = g_keys g" "g_khead g' = g_khead g" "g_ktail g' = g_ktail g"
    by (rule wm_create_Some [OF assms(2) [unfolded Some]])
  note P = gui_inv_ptrs [OF assms(1)]
  have k: "keys_inv g'" using keys_inv_cong [of g' g] rest I by simp
  have at: "g_wins g' ! j = (if j = i then win else g_wins g ! j)" if "j < 8" for j
    using that I by (auto simp: w nth_list_update)
  show ?thesis
    using slot
  proof (elim disjE conjE)
    assume s: "free_win g (g_count g) = Some i" "g_z g' = g_z g" "g_count g' = g_count g"
    have i: "i < g_count g" "\<not> w_used (g_wins g ! i)" using free_win_Some [OF s(1)] by auto
    have z: "z_stack g' = z_stack g" by (rule z_stack_cong) (simp_all add: s)
    have "j < g_count g \<Longrightarrow> w_used (g_wins g ! j) \<Longrightarrow> g_wins g' ! j = g_wins g ! j" for j using at [of j] i I(3) by auto
    note kept = this
    show ?thesis
    proof (rule gui_invI)
      show "g_focus g' = NO_WINDOW \<or> g_focus g' < g_count g'" using P(1) i(1) unfolding s f by (elim disjE) simp_all
      show "g_drag g' = NO_WINDOW \<or> g_drag g' < g_count g' \<and> w_used (g_wins g' ! g_drag g')"
        unfolding rest s using P(2) kept [of "g_drag g"] by (elim disjE) simp_all
      show "g_shell g' = NO_WINDOW \<or> g_shell g' < g_count g' \<and> w_used (g_wins g' ! g_shell g') \<and> w_system (g_wins g' ! g_shell g')"
        unfolding rest s using P(3) kept [of "g_shell g"] by (elim disjE) simp_all
    qed (use I k in \<open>simp_all add: z s w\<close>)
  next
    assume s: "free_win g (g_count g) = None" "i = g_count g" "i < 8" "g_z g' = (g_z g)[i := i]" "g_count g' = i + 1"
    have z: "z_stack g' = z_stack g @ [i]" using s I(2) by (simp add: z_stack_def take_Suc_conv_app_nth)
    have "j < g_count g \<Longrightarrow> g_wins g' ! j = g_wins g ! j" for j using at [of j] s by auto
    note kept = this
    show ?thesis
    proof (rule gui_invI)
      show "set (z_stack g') = {..<g_count g'}" unfolding z s(5) set_append I(5) s(2) by auto
      have "i \<notin> set (z_stack g)" unfolding I(5) s(2) by simp
      then show "distinct (z_stack g')" unfolding z using I(4) by auto
      show "g_focus g' = NO_WINDOW \<or> g_focus g' < g_count g'" using P(1) s(2,5) unfolding f by (elim disjE) simp_all
      show "g_drag g' = NO_WINDOW \<or> g_drag g' < g_count g' \<and> w_used (g_wins g' ! g_drag g')"
        unfolding rest s(5) using P(2) kept [of "g_drag g"] s(2) by (elim disjE) simp_all
      show "g_shell g' = NO_WINDOW \<or> g_shell g' < g_count g' \<and> w_used (g_wins g' ! g_shell g') \<and> w_system (g_wins g' ! g_shell g')"
        unfolding rest s(5) using P(3) kept [of "g_shell g"] s(2) by (elim disjE) simp_all
    qed (use I k s in \<open>simp_all add: w\<close>)
  qed
qed

lemma handle_mouse_inv:
  assumes "gui_inv g"
  shows "gui_inv (handle_mouse mx my left g)"
proof -
  note I = gui_invD [OF assms]
  consider "\<not> left" | "left" "g_drag g \<noteq> NO_WINDOW"
    | "left" "g_drag g = NO_WINDOW" "find (\<lambda>i. hits mx my (g_wins g ! (g_z g ! i))) (rev [0..<g_count g]) = None"
    | i where "left" "g_drag g = NO_WINDOW" "find (\<lambda>i. hits mx my (g_wins g ! (g_z g ! i))) (rev [0..<g_count g]) = Some i"
    by (cases "find (\<lambda>i. hits mx my (g_wins g ! (g_z g ! i))) (rev [0..<g_count g])") auto
  then show ?thesis
  proof cases
    case 1
    have "gui_inv (g\<lparr>g_drag := NO_WINDOW\<rparr>)"
      by (rule gui_invI) (use I gui_inv_ptrs [OF assms] in \<open>simp_all add: z_stack_def keys_inv_def\<close>)
    then show ?thesis using 1 by (simp add: handle_mouse_def)
  next
    case 2
    then have d: "g_drag g < g_count g" using assms by (simp add: gui_inv_def)
    then have "g_drag g < length (g_wins g)" using I by simp
    note at = upd_win_at [OF this]
    have "gui_inv (upd_win (g_drag g) (\<lambda>w. w\<lparr>w_x := mx - g_dx g, w_y := my - g_dy g\<rparr>) g)"
    proof (rule gui_invI)
      show "length (g_wins (upd_win (g_drag g) (\<lambda>w. w\<lparr>w_x := mx - g_dx g, w_y := my - g_dy g\<rparr>) g)) = 8" using I(1) by (simp add: upd_win_def)
      show "g_shell (upd_win (g_drag g) (\<lambda>w. w\<lparr>w_x := mx - g_dx g, w_y := my - g_dy g\<rparr>) g) = NO_WINDOW \<or>
          g_shell (upd_win (g_drag g) (\<lambda>w. w\<lparr>w_x := mx - g_dx g, w_y := my - g_dy g\<rparr>) g) < g_count (upd_win (g_drag g) (\<lambda>w. w\<lparr>w_x := mx - g_dx g, w_y := my - g_dy g\<rparr>) g) \<and>
          w_used (g_wins (upd_win (g_drag g) (\<lambda>w. w\<lparr>w_x := mx - g_dx g, w_y := my - g_dy g\<rparr>) g) ! g_shell (upd_win (g_drag g) (\<lambda>w. w\<lparr>w_x := mx - g_dx g, w_y := my - g_dy g\<rparr>) g)) \<and>
          w_system (g_wins (upd_win (g_drag g) (\<lambda>w. w\<lparr>w_x := mx - g_dx g, w_y := my - g_dy g\<rparr>) g) ! g_shell (upd_win (g_drag g) (\<lambda>w. w\<lparr>w_x := mx - g_dx g, w_y := my - g_dy g\<rparr>) g))"
        using gui_inv_ptrs(3) [OF assms] by (elim disjE) (auto simp: at)
    qed (use I gui_inv_ptrs [OF assms] in \<open>simp_all add: at split: if_split\<close>)
    then show ?thesis using 2 by (simp add: handle_mouse_def)
  next
    case 3
    then show ?thesis using assms by (simp add: handle_mouse_def)
  next
    case (4 i)
    have i: "i < g_count g" "hits mx my (g_wins g ! (g_z g ! i))" using find_Some_iff [THEN iffD1, OF 4(3)] by (auto simp: rev_nth)
    let ?f = "g_z g ! i"
    have "?f \<in> set (z_stack g)" using i(1) I(2,3) by (auto simp: z_stack_def in_set_conv_nth)
    then have f: "?f < g_count g" using I(5) by simp
    note R = raise_inv [OF assms f]
    have u: "w_used (g_wins g ! ?f)" using i(2) by (simp add: hits_def)
    let ?r = "raise_win ?f g"
    have "gui_inv (?r\<lparr>g_drag := ?f, g_dx := a, g_dy := b\<rparr>)" for a b
      by (rule gui_invI) (use gui_invD [OF R(1)] gui_inv_ptrs [OF R(1)] f u in \<open>simp_all add: R(2,3) z_stack_def keys_inv_def\<close>)
    then show ?thesis using 4 R(1) by (simp add: handle_mouse_def Let_def)
  qed
qed

end
