(* ===== verification/WmProps.thy ===== *)
theory WmProps imports Wm begin

text \<open>
  The properties of the window manager: the desktop stays consistent over any run, clicks find the
  frontmost window, windows of a task do not overlap in its memory, keys arrive in order, and
  outlive the window they were typed into.
\<close>

section \<open>Runs\<close>

datatype gui_op =
  GCreate nat nat "byte list" nat nat nat nat bool | GClose nat | GFocus nat | GMouse nat nat bool
  | GKey nat byte | GPoll nat | GShell nat | GStart bool

type_synonym desk = "gui \<times> usize \<times> mmu"

fun gui_step :: "gui_op \<Rightarrow> desk \<Rightarrow> desk" where
  "gui_step (GCreate owner space title x y width height system) st = snd (wm_create owner space title x y width height system st)"
| "gui_step (GClose owner) (g, r) = (snd (close_owned_by owner g), r)"
| "gui_step (GFocus i) (g, r) = (wm_focus i g, r)"
| "gui_step (GMouse mx my left) (g, r) = (handle_mouse mx my left g, r)"
| "gui_step (GKey i k) (g, r) = (deliver_key i k g, r)"
| "gui_step (GPoll i) (g, r) = (snd (poll_key i g), r)"
| "gui_step (GShell i) (g, r) = (mark_shell i g, r)"
| "gui_step (GStart fb) (g, r) = (wm_start fb g, r)"

text \<open>
  The callers: the shell marks a system window it made; a task that has an address space
  (\<open>spaced\<close>) always creates its windows in one.
\<close>

fun gui_op_ok :: "(nat \<Rightarrow> bool) \<Rightarrow> gui_op \<Rightarrow> gui \<Rightarrow> bool" where
  "gui_op_ok spaced (GCreate owner space title x y width height system) g \<longleftrightarrow> system \<or> spaced owner = (space \<noteq> 0)"
| "gui_op_ok spaced (GShell i) g \<longleftrightarrow> i < g_count g \<and> w_used (g_wins g ! i) \<and> w_system (g_wins g ! i)"
| "gui_op_ok spaced op g \<longleftrightarrow> True"

fun gui_run :: "(nat \<Rightarrow> bool) \<Rightarrow> gui_op list \<Rightarrow> desk \<Rightarrow> desk option" where
  "gui_run spaced [] st = Some st"
| "gui_run spaced (op # ops) st = (if gui_op_ok spaced op (fst st) then gui_run spaced ops (gui_step op st) else None)"

definition slots_ok :: "(nat \<Rightarrow> bool) \<Rightarrow> gui \<Rightarrow> bool" where
  "slots_ok spaced g \<longleftrightarrow> (\<forall>o'. spaced o' \<longrightarrow> card (owned o' g) \<le> WINDOW_MAP_SLOTS \<and>
     (\<lambda>i. w_user_addr (g_wins g ! i)) ` owned o' g = (\<lambda>k. WINDOW_MAP_BASE + k * WINDOW_MAP_SLOT) ` {..<card (owned o' g)} \<and>
     (\<forall>i\<in>owned o' g. w_width (g_wins g ! i) * w_height (g_wins g ! i) * 4 mod 2 ^ 64 \<le> WINDOW_MAP_SLOT))"

definition same_windows :: "gui \<Rightarrow> gui \<Rightarrow> bool" where
  "same_windows g g' \<longleftrightarrow> g_count g' = g_count g \<and> (\<forall>i<g_count g.
     w_used (g_wins g' ! i) = w_used (g_wins g ! i) \<and> w_system (g_wins g' ! i) = w_system (g_wins g ! i) \<and>
     w_owner (g_wins g' ! i) = w_owner (g_wins g ! i) \<and> w_user_addr (g_wins g' ! i) = w_user_addr (g_wins g ! i) \<and>
     w_width (g_wins g' ! i) = w_width (g_wins g ! i) \<and> w_height (g_wins g' ! i) = w_height (g_wins g ! i))"

lemma same_windows_owned: "same_windows g g' \<Longrightarrow> owned o' g' = owned o' g"
  by (auto simp: same_windows_def owned_def owned_by_def)

lemma slots_same:
  assumes "slots_ok spaced g" "same_windows g g'"
  shows "slots_ok spaced g'"
proof -
  have o: "owned o' g' = owned o' g" for o' by (rule same_windows_owned [OF assms(2)])
  have w: "w_user_addr (g_wins g' ! i) = w_user_addr (g_wins g ! i)" "w_width (g_wins g' ! i) = w_width (g_wins g ! i)"
    "w_height (g_wins g' ! i) = w_height (g_wins g ! i)" if "i \<in> owned o' g" for i o'
    using assms(2) that by (auto simp: same_windows_def owned_def)
  have "(\<lambda>i. w_user_addr (g_wins g' ! i)) ` owned o' g = (\<lambda>i. w_user_addr (g_wins g ! i)) ` owned o' g" for o'
    by (rule image_cong [OF refl]) (rule w)
  then show ?thesis using assms(1) w unfolding slots_ok_def o by simp
qed

lemma finite_owned [simp]: "finite (owned o' g)"
  by (simp add: owned_def)

lemma slots_close:
  assumes "gui_inv g" "slots_ok spaced g"
  shows "slots_ok spaced (snd (close_owned_by o1 g))"
proof -
  obtain k g' where c: "close_owned_by o1 g = (k, g')" by (cases "close_owned_by o1 g")
  note C = close_owned_by [OF assms(1) c]
  have o: "owned o' g' = (if o' = o1 then {} else owned o' g)" for o'
    using C(2,4) by (auto simp: owned_def owned_by_def split: if_splits)
  have w: "g_wins g' ! i = g_wins g ! i" if "i \<in> owned o' g" "o' \<noteq> o1" for i o'
    using C(4) [of i] that by (auto simp: owned_def owned_by_def)
  show ?thesis
    unfolding slots_ok_def c snd_conv
  proof (intro allI impI)
    fix o' assume "spaced o'"
    then have K: "card (owned o' g) \<le> WINDOW_MAP_SLOTS \<and>
     (\<lambda>i. w_user_addr (g_wins g ! i)) ` owned o' g = (\<lambda>k. WINDOW_MAP_BASE + k * WINDOW_MAP_SLOT) ` {..<card (owned o' g)} \<and>
     (\<forall>i\<in>owned o' g. w_width (g_wins g ! i) * w_height (g_wins g ! i) * 4 mod 2 ^ 64 \<le> WINDOW_MAP_SLOT)"
      using assms(2) unfolding slots_ok_def by blast
    show "card (owned o' g') \<le> WINDOW_MAP_SLOTS \<and>
     (\<lambda>i. w_user_addr (g_wins g' ! i)) ` owned o' g' = (\<lambda>k. WINDOW_MAP_BASE + k * WINDOW_MAP_SLOT) ` {..<card (owned o' g')} \<and>
     (\<forall>i\<in>owned o' g'. w_width (g_wins g' ! i) * w_height (g_wins g' ! i) * 4 mod 2 ^ 64 \<le> WINDOW_MAP_SLOT)"
    proof (cases "o' = o1")
      case True
      then show ?thesis by (simp add: o)
    next
      case False
      have "(\<lambda>i. w_user_addr (g_wins g' ! i)) ` owned o' g = (\<lambda>i. w_user_addr (g_wins g ! i)) ` owned o' g"
        by (rule image_cong [OF refl]) (simp add: w False)
      then show ?thesis using K False w by (simp add: o)
    qed
  qed
qed

lemma slots_create:
  assumes "gui_inv g" "slots_ok spaced g" "system \<or> spaced owner = (space \<noteq> 0)"
    "wm_create owner space title x y width height system (g, heap, s) = (r, g', heap', s')"
  shows "slots_ok spaced g'"
proof (cases r)
  case None
  then show ?thesis using wm_create_None assms by blast
next
  case (Some i)
  note I = gui_invD [OF assms(1)]
  obtain win where win: "w_used win" "w_owner win = owner" "w_system win = system" "w_width win = width" "w_height win = height"
    "space \<noteq> 0 \<and> \<not> system \<longrightarrow> owned_window_count owner g < WINDOW_MAP_SLOTS \<and> width * height * 4 mod 2 ^ 64 \<le> WINDOW_MAP_SLOT \<and>
       w_user_addr win = WINDOW_MAP_BASE + owned_window_count owner g * WINDOW_MAP_SLOT"
    and slot: "free_win g (g_count g) = Some i \<and> g_z g' = g_z g \<and> g_count g' = g_count g \<or>
     free_win g (g_count g) = None \<and> i = g_count g \<and> i < MAX_WINDOWS \<and> g_z g' = (g_z g)[i := i] \<and> g_count g' = i + 1"
    and w: "g_wins g' = (g_wins g)[i := win]" and f: "g_focus g' = (if g_focus g = NO_WINDOW then i else g_focus g)"
    and rest: "g_drag g' = g_drag g" "g_shell g' = g_shell g" "g_keys g' = g_keys g" "g_khead g' = g_khead g" "g_ktail g' = g_ktail g"
    by (rule wm_create_Some [OF assms(4) [unfolded Some]])
  have i8: "i < 8" and cnt: "g_count g \<le> g_count g'" "i < g_count g'" "\<And>j. j < g_count g' \<Longrightarrow> j = i \<or> j < g_count g"
    using slot free_win_Some [of g "g_count g" i] I(3) by auto
  have at: "g_wins g' ! j = (if j = i then win else g_wins g ! j)" for j
    using i8 I by (auto simp: w nth_list_update)
  have free: "i \<notin> owned o' g" for o' using slot free_win_Some [of g "g_count g" i] by (auto simp: owned_def owned_by_def)
  have o: "owned o' g' = (if o' = owner \<and> \<not> system then insert i (owned o' g) else owned o' g)" for o'
  proof (rule set_eqI)
    fix j
    show "j \<in> owned o' g' \<longleftrightarrow> j \<in> (if o' = owner \<and> \<not> system then insert i (owned o' g) else owned o' g)"
      using cnt at [of j] win free [of o'] by (cases "j = i") (auto simp: owned_def owned_by_def)
  qed
  have keep: "j \<in> owned o' g \<Longrightarrow> g_wins g' ! j = g_wins g ! j" for j o' using free [of o'] at [of j] by auto
  show ?thesis
    unfolding slots_ok_def
  proof (intro allI impI)
    fix o' assume sp: "spaced o'"
    then have K: "card (owned o' g) \<le> WINDOW_MAP_SLOTS \<and>
     (\<lambda>i. w_user_addr (g_wins g ! i)) ` owned o' g = (\<lambda>k. WINDOW_MAP_BASE + k * WINDOW_MAP_SLOT) ` {..<card (owned o' g)} \<and>
     (\<forall>i\<in>owned o' g. w_width (g_wins g ! i) * w_height (g_wins g ! i) * 4 mod 2 ^ 64 \<le> WINDOW_MAP_SLOT)"
      using assms(2) unfolding slots_ok_def by blast
    have img: "(\<lambda>i. w_user_addr (g_wins g' ! i)) ` owned o' g = (\<lambda>i. w_user_addr (g_wins g ! i)) ` owned o' g"
      by (rule image_cong [OF refl]) (simp add: keep)
    show "card (owned o' g') \<le> WINDOW_MAP_SLOTS \<and>
     (\<lambda>i. w_user_addr (g_wins g' ! i)) ` owned o' g' = (\<lambda>k. WINDOW_MAP_BASE + k * WINDOW_MAP_SLOT) ` {..<card (owned o' g')} \<and>
     (\<forall>i\<in>owned o' g'. w_width (g_wins g' ! i) * w_height (g_wins g' ! i) * 4 mod 2 ^ 64 \<le> WINDOW_MAP_SLOT)"
    proof (cases "o' = owner \<and> \<not> system")
      case False
      then have "owned o' g' = owned o' g" by (simp only: o if_False)
      then show ?thesis using K keep img by simp
    next
      case True
      then have n: "card (owned o' g) < 4" "w_user_addr win = WINDOW_MAP_BASE + card (owned o' g) * WINDOW_MAP_SLOT"
        "width * height * 4 mod 2 ^ 64 \<le> WINDOW_MAP_SLOT"
        using win(6) sp assms(3) by (auto simp: owned_count)
      have og: "owned o' g' = insert i (owned o' g)" using True by (simp add: o)
      have c: "card (owned o' g') = Suc (card (owned o' g))" unfolding og using free by simp
      have "(\<lambda>i. w_user_addr (g_wins g' ! i)) ` owned o' g' =
          insert (w_user_addr win) ((\<lambda>k. WINDOW_MAP_BASE + k * WINDOW_MAP_SLOT) ` {..<card (owned o' g)})"
        unfolding og using K img at [of i] by simp
      also have "\<dots> = (\<lambda>k. WINDOW_MAP_BASE + k * WINDOW_MAP_SLOT) ` {..<card (owned o' g')}"
        unfolding c lessThan_Suc image_insert n(2) ..
      finally have "(\<lambda>i. w_user_addr (g_wins g' ! i)) ` owned o' g' = (\<lambda>k. WINDOW_MAP_BASE + k * WINDOW_MAP_SLOT) ` {..<card (owned o' g')}" .
      moreover have "\<forall>j\<in>owned o' g'. w_width (g_wins g' ! j) * w_height (g_wins g' ! j) * 4 mod 2 ^ 64 \<le> WINDOW_MAP_SLOT"
        unfolding og using K keep at [of i] win(4,5) n(3) by auto
      ultimately show ?thesis using n(1) c by linarith
    qed
  qed
qed

lemma deliver_fields: "g_wins (deliver_key i k g) = g_wins g" "g_count (deliver_key i k g) = g_count g"
  by (simp_all add: deliver_key_def Let_def)

lemma deliver_inv: "gui_inv g \<Longrightarrow> gui_inv (deliver_key i k g)"
proof (cases "i < MAX_WINDOWS")
  case True
  assume g: "gui_inv g"
  have "z_stack (deliver_key i k g) = z_stack g" by (rule z_stack_cong) (simp_all add: deliver_key_def Let_def)
  then show ?thesis
    using gui_invD [OF g] gui_inv_ptrs [OF g] deliver_result(3) [OF gui_invD(6) [OF g] True]
    by (intro gui_invI) (simp_all add: deliver_fields, simp_all add: deliver_key_def Let_def)
qed (simp add: deliver_key_def)

lemma poll_inv: "gui_inv g \<Longrightarrow> gui_inv (snd (poll_key i g))"
proof (cases "i < MAX_WINDOWS")
  case True
  assume g: "gui_inv g"
  have "z_stack (snd (poll_key i g)) = z_stack g" by (rule z_stack_cong) (simp_all add: poll_key_def Let_def)
  then show ?thesis
    using gui_invD [OF g] gui_inv_ptrs [OF g] poll_key_result(4) [OF gui_invD(6) [OF g] True]
    by (intro gui_invI) (simp_all add: poll_key_def Let_def)
qed (simp add: poll_key_def)

lemma mouse_same: "gui_inv g \<Longrightarrow> same_windows g (handle_mouse mx my left g)"
proof -
  assume g: "gui_inv g"
  have r: "g_wins (raise_win f g) = g_wins g" "g_count (raise_win f g) = g_count g" for f
    by (simp_all add: raise_win_def Let_def split: option.split)
  have u: "same_windows g (upd_win i (\<lambda>w. w\<lparr>w_x := a, w_y := b\<rparr>) g)" if "i < length (g_wins g)" for i a b
    using that by (simp add: same_windows_def upd_win_at)
  show ?thesis
  proof (cases "left \<and> g_drag g \<noteq> NO_WINDOW")
    case True
    then have "g_drag g < length (g_wins g)" using gui_inv_ptrs(2) [OF g] gui_invD(1,3) [OF g] by linarith
    then show ?thesis using True u by (simp add: handle_mouse_def)
  next
    case False
    then show ?thesis by (auto simp: handle_mouse_def same_windows_def r Let_def split: option.split)
  qed
qed

lemma gui_step_inv:
  assumes "gui_inv (fst st)" "slots_ok spaced (fst st)" "gui_op_ok spaced op (fst st)"
  shows "gui_inv (fst (gui_step op st))" "slots_ok spaced (fst (gui_step op st))"
proof -
  obtain g heap s where st: "st = (g, heap, s)" by (cases st) auto
  have g: "gui_inv g" "slots_ok spaced g" using assms by (simp_all add: st)
  note I = gui_invD [OF g(1)]
  have same: "slots_ok spaced g'" if "g_wins g' = g_wins g" "g_count g' = g_count g" for g'
    by (rule slots_same [OF g(2)]) (simp add: same_windows_def that)
  have "gui_inv (fst (gui_step op st)) \<and> slots_ok spaced (fst (gui_step op st))"
  proof (cases op)
    case (GCreate owner space title x y width height system)
    obtain r g' heap' s' where c: "wm_create owner space title x y width height system (g, heap, s) = (r, g', heap', s')"
      by (cases "wm_create owner space title x y width height system (g, heap, s)")
    have "system \<or> spaced owner = (space \<noteq> 0)" using assms(3) GCreate by (simp add: st)
    then show ?thesis using wm_create_inv [OF g(1) c] slots_create [OF g _ c] GCreate c by (simp add: st)
  next
    case (GClose o1)
    obtain k g' where c: "close_owned_by o1 g = (k, g')" by (cases "close_owned_by o1 g")
    show ?thesis using close_owned_by(1) [OF g(1) c] slots_close [OF g, of o1] c GClose by (simp add: st)
  next
    case (GFocus i)
    then show ?thesis using raise_inv [OF g(1)] g same by (simp add: st wm_focus_def)
  next
    case (GMouse mx my left)
    then show ?thesis using handle_mouse_inv [OF g(1)] slots_same [OF g(2) mouse_same [OF g(1)]] by (simp add: st)
  next
    case (GKey i k)
    then show ?thesis using deliver_inv [OF g(1)] same deliver_fields by (simp add: st)
  next
    case (GPoll i)
    have "g_wins (snd (poll_key i g)) = g_wins g" "g_count (snd (poll_key i g)) = g_count g" by (simp_all add: poll_key_def Let_def)
    then show ?thesis using GPoll poll_inv [OF g(1)] same by (simp add: st)
  next
    case (GShell i)
    then have "i < g_count g \<and> w_used (g_wins g ! i) \<and> w_system (g_wins g ! i)" using assms(3) by (simp add: st)
    then have "gui_inv (mark_shell i g)"
      by (intro gui_invI) (use I gui_inv_ptrs [OF g(1)] in \<open>simp_all add: mark_shell_def z_stack_def keys_inv_def\<close>)
    then show ?thesis using GShell same by (simp add: st mark_shell_def)
  next
    case (GStart fb)
    have "gui_inv (wm_start fb g)"
      by (rule gui_invI) (use I gui_inv_ptrs [OF g(1)] in \<open>simp_all add: wm_start_def z_stack_def keys_inv_def\<close>)
    then show ?thesis using GStart same by (simp add: st wm_start_def)
  qed
  then show "gui_inv (fst (gui_step op st))" "slots_ok spaced (fst (gui_step op st))" by blast+
qed

lemma gui_run_inv:
  assumes "gui_run spaced ops st = Some st'" "gui_inv (fst st)" "slots_ok spaced (fst st)"
  shows "gui_inv (fst st') \<and> slots_ok spaced (fst st')"
  using assms
proof (induction ops arbitrary: st)
  case Nil
  then show ?case by simp
next
  case (Cons op ops)
  then have ok: "gui_op_ok spaced op (fst st)" and r: "gui_run spaced ops (gui_step op st) = Some st'" by (auto split: if_splits)
  show ?case by (rule Cons.IH [OF r gui_step_inv [OF Cons.prems(2,3) ok]])
qed

lemma slots_init: "slots_ok spaced gui_init"
  by (simp add: slots_ok_def owned_def gui_init_def)

section \<open>The path of a key\<close>

lemma key_step:
  assumes "input_inv s" "events s = map Key ks @ rest"
  shows "\<exists>s'. handle_input s gk = handle_input s' (fold (\<lambda>k. handle_event (Key k)) ks gk) \<and> input_inv s' \<and> events s' = rest"
  using assms
proof (induction ks arbitrary: s gk)
  case Nil
  then show ?case by auto
next
  case (Cons k ks)
  then obtain s1 where p: "poll_event s = (Some (Key k), s1)" "events s1 = map Key ks @ rest" "input_inv s1"
    using poll_event_result [OF Cons.prems(1)] by auto
  have "in_tail s < length (in_queue s)" using Cons.prems(1) by (simp add: input_inv_def)
  then have "handle_input s gk = handle_input s1 (handle_event (Key k) gk)" by (simp add: handle_input.simps [of s gk] p(1))
  then show ?case using Cons.IH [OF p(3,2), of "handle_event (Key k) gk"] by simp
qed

lemma handle_input_empty: "input_inv s \<Longrightarrow> events s = [] \<Longrightarrow> handle_input s gk = (s, gk)"
  using poll_event_result [of s] by (auto simp: handle_input.simps [of s gk])

lemma deliver_list:
  assumes "gui_inv g" "f < MAX_WINDOWS" "g_focus g = f" "f \<noteq> g_shell g" "length (pending_keys f g) + length ks \<le> 15"
  shows "\<exists>g'. fold (\<lambda>k. handle_event (Key k)) ks (g, sk) = (g', sk) \<and> gui_inv g' \<and> pending_keys f g' = pending_keys f g @ ks"
  using assms
proof (induction ks arbitrary: g)
  case (Cons k ks)
  let ?g = "deliver_key f k g"
  have foc: "focused g = Some f" using Cons.prems(2,3) by (simp add: focused_def)
  have step: "handle_event (Key k) (g, sk) = (?g, sk)" using foc Cons.prems(4) by (simp add: handle_event_def)
  have pk: "pending_keys f ?g = pending_keys f g @ [k]"
    using deliver_result(1) [OF gui_invD(6) [OF Cons.prems(1)] Cons.prems(2), of k] Cons.prems(5) by simp
  have same: "g_focus ?g = g_focus g" "g_shell ?g = g_shell g" by (simp_all add: deliver_key_def Let_def)
  have "\<exists>g'. fold (\<lambda>k. handle_event (Key k)) ks (?g, sk) = (g', sk) \<and> gui_inv g' \<and> pending_keys f g' = pending_keys f ?g @ ks"
    by (rule Cons.IH [OF deliver_inv [OF Cons.prems(1)] Cons.prems(2)]) (use Cons.prems(3-5) pk same in simp_all)
  then show ?case using step pk by simp
qed simp

text \<open>A program that takes the keys of its window, as many as it asks for at most.\<close>

fun take_keys :: "nat \<Rightarrow> nat \<Rightarrow> gui \<Rightarrow> byte list \<times> gui" where
  "take_keys 0 i g = ([], g)"
| "take_keys (Suc n) i g =
     (case poll_key i g of (k, g) \<Rightarrow> if k = 0 then ([], g) else case take_keys n i g of (ks, g) \<Rightarrow> (k # ks, g))"

lemma take_keys_all:
  assumes "keys_inv g" "i < MAX_WINDOWS" "pending_keys i g = ks" "0 \<notin> set ks" "length ks \<le> n"
  shows "fst (take_keys n i g) = ks"
  using assms
proof (induction n arbitrary: g ks)
  case (Suc n)
  note P = poll_key_result [OF Suc.prems(1,2)]
  show ?case
  proof (cases ks)
    case Nil
    then have "poll_key i g = (0, g)" using P(1,2) Suc.prems(3) by simp
    then show ?thesis using Nil by simp
  next
    case (Cons k ks')
    obtain k1 g1 where p: "poll_key i g = (k1, g1)" by (cases "poll_key i g")
    have "pending_keys i g = k1 # pending_keys i g1" using P(1,3) Suc.prems(3) Cons p by simp
    then have k: "k1 = k" "pending_keys i g1 = ks'" using Suc.prems(3) Cons by simp_all
    have "fst (take_keys n i g1) = ks'"
      by (rule Suc.IH) (use P(4) p k Suc.prems Cons in simp_all)
    then show ?thesis using p k Cons Suc.prems(4) by (auto split: prod.split)
  qed
qed simp

text \<open>The keyboard: scan codes of keys that print, below 128.\<close>

definition ascii_of :: "byte \<Rightarrow> byte" where
  "ascii_of c = SCANCODE_ASCII ! unat c"

definition type_keys :: "byte list \<Rightarrow> input_state \<Rightarrow> input_state" where
  "type_keys = fold (\<lambda>c s. case keyboard_irq True c s of None \<Rightarrow> s | Some (_, s) \<Rightarrow> s)"

lemma length_SCANCODE: "length SCANCODE_ASCII = 128"
  by (simp add: SCANCODE_ASCII_def)

lemma scan_make: "(c :: byte) AND 0x80 = 0 \<Longrightarrow> unat c < 128"
proof -
  assume a: "c AND 0x80 = 0"
  have "(0x80 :: byte) = push_bit 7 1" by simp
  then have "\<not> bit c 7" using a by (metis bit_iff_and_push_bit_not_eq_0)
  then have "\<not> bit (unat c) 7" by (simp add: bit_unsigned_iff)
  then have e: "even (unat c div 128)" by (simp add: bit_iff_odd)
  have "unat c < 256" using unsigned_less [of c, where 'a = nat] by simp
  then have "unat c div 128 < 2" by (simp add: less_mult_imp_div_less)
  then have "unat c div 128 = 0" using e by (cases "unat c div 128 = 1") auto
  then show ?thesis by (simp add: div_eq_0_iff)
qed

lemma type_keys_events:
  assumes "input_inv s" "events s = map Key ks" "\<forall>c\<in>set cs. c AND 0x80 = 0 \<and> ascii_of c \<noteq> 0" "length ks + length cs \<le> 63"
  shows "input_inv (type_keys cs s) \<and> events (type_keys cs s) = map Key (ks @ map ascii_of cs)"
  using assms
proof (induction cs arbitrary: s ks)
  case Nil
  then show ?case by (simp add: type_keys_def)
next
  case (Cons c cs)
  have c: "c AND 0x80 = 0" "ascii_of c \<noteq> 0" using Cons.prems(3) by simp_all
  obtain ok s1 where p: "push_event (Key (ascii_of c)) s = (ok, s1)" by (cases "push_event (Key (ascii_of c)) s")
  have irq: "keyboard_irq True c s = Some (KeyQueued (ascii_of c), s1)"
    using c scan_make [OF c(1)] p length_SCANCODE by (simp add: keyboard_irq_def Let_def ascii_of_def input_on_key_def)
  have s1: "input_inv s1" "events s1 = map Key (ks @ [ascii_of c])"
    using push_result(1,2) [OF Cons.prems(1) p] Cons.prems(2,4) by auto
  have "input_inv (type_keys cs s1) \<and> events (type_keys cs s1) = map Key ((ks @ [ascii_of c]) @ map ascii_of cs)"
    by (rule Cons.IH [OF s1]) (use Cons.prems in auto)
  then show ?case using irq by (simp add: type_keys_def)
qed

section \<open>Properties\<close>


text \<open>A run in which one task makes two windows; its address space is the kernel's, so every mapping succeeds.\<close>

definition demo_mmu :: mmu where
  "demo_mmu = \<lparr>mm_fr = frames_init (\<lambda>_. 0), mm_cr3 = 9, mm_kernel = 9, mm_owner = replicate 8 None, mm_split = 0, mm_wp = True\<rparr>"

definition demo_desk_run :: "gui_op list" where
  "demo_desk_run = [GStart True, GCreate 3 9 [97] 0 0 40 40 False, GCreate 3 9 [98] 30 30 40 40 False]"

lemma put_pte_kernel [simp]: "mm_kernel (put_pte t i v s) = mm_kernel s"
  by (simp add: put_pte_def put_word_def)

lemma fold_kernel: "(\<And>i s. mm_kernel (f i s) = mm_kernel s) \<Longrightarrow> mm_kernel (fold f xs s) = mm_kernel s"
  by (induction xs arbitrary: s) simp_all

lemma split_table_kernel: "split_table_for k s = (r, s') \<Longrightarrow> mm_kernel s' = mm_kernel s"
  by (auto simp: split_table_for_def split: option.splits)

lemma protect_tables_kernel: "protect_tables pd a b ks s = (r, s') \<Longrightarrow> mm_kernel s' = mm_kernel s"
proof (induction ks arbitrary: s)
  case (Cons k ks)
  have o: "mm_kernel (open_pages pt ps s) = mm_kernel s" "mm_kernel (fill_split pt k s) = mm_kernel s" for pt ps k s
    unfolding open_pages_def fill_split_def by (rule fold_kernel, simp)+
  show ?case using Cons.prems Cons.IH
    by (auto simp: Let_def o split: if_splits prod.splits option.splits dest: split_table_kernel)
qed simp

lemma protect_kernel: "mm_kernel (protect_user_range a n s) = mm_kernel s"
  by (auto simp: protect_user_range_def Let_def split: prod.split bool.split dest: protect_tables_kernel)

lemma create_kernel_space:
  assumes "kmalloc_aligned (of_nat (width * height * 4)) 4096 heap = Some (b, heap')" "width * height * 4 \<le> WINDOW_MAP_SLOT"
    "width \<noteq> 0" "height \<noteq> 0" "space = mm_kernel s" "space \<noteq> 0" "free_win g (g_count g) = None" "g_count g < MAX_WINDOWS"
    "owned_window_count owner g < WINDOW_MAP_SLOTS"
  shows "\<exists>g' s'. wm_create owner space title x y width height False (g, heap, s) = (Some (g_count g), g', heap', s') \<and>
     mm_kernel s' = mm_kernel s"
proof -
  have m: "(width * height * 4) mod 2 ^ 64 = width * height * 4" using assms(2) by simp
  have map: "map_user_frames space v p n t = (True, protect_user_range p n t)" if "n \<noteq> 0" "mm_kernel t = space" for v p n t
    using that by (simp add: map_user_frames_def)
  have k: "mm_kernel (paint_buffer p n c s) = mm_kernel s" for p n c by (simp add: paint_buffer_def)
  have n: "width * height * 4 \<noteq> 0" using assms(3,4) by simp
  show ?thesis unfolding wm_create_def Let_def m
    using assms map [OF n, of "paint_buffer (unat b) (width * height mod 2 ^ 64) WINDOW_BG s"] by (simp add: k protect_kernel)
qed

lemma demo_desk_runs:
  "\<exists>g heap' s'. gui_run (\<lambda>i. i = 3) demo_desk_run (gui_init, HEAP_START, demo_mmu) = Some (g, heap', s') \<and> owned 3 g = {0, 1}"
proof -
  have "is_power_of_two 4096" unfolding is_power_of_two_iff by (rule exI [of _ 12]) simp
  then have k: "kmalloc_aligned (of_nat (40 * 40 * 4)) 4096 HEAP_START = Some (8388608, 8395008)"
    "kmalloc_aligned (of_nat (40 * 40 * 4)) 4096 8395008 = Some (8396800, 8403200)"
    by (simp_all add: kmalloc_aligned_def checked_add_def)
  have r: "free_win g 0 = None" for g by (simp add: free_win_def find_slot.simps)
  define g0 where "g0 = wm_start True gui_init"
  have g0: "gui_inv g0" "g_count g0 = 0" "g_count g0 < MAX_WINDOWS"
    using gui_inv_init by (simp_all add: g0_def wm_start_def gui_init_def gui_inv_def z_stack_def keys_inv_def)
  have o0: "owned o' g0 = {}" for o' using g0(2) by (simp add: owned_def)
  obtain g1 s1 where c1: "wm_create 3 9 [97] 0 0 40 40 False (g0, HEAP_START, demo_mmu) = (Some 0, g1, 8395008, s1)" and s1: "mm_kernel s1 = 9"
    using create_kernel_space [OF k(1), of 9 demo_mmu g0 3 "[97]" 0 0] g0(2) r o0 by (auto simp: demo_mmu_def owned_count)
  have own: "owned owner g' = insert i (owned owner g) \<and> g_count g' = g_count g + 1 \<and> w_used (g_wins g' ! i) \<and>
      (\<forall>j<g_count g. w_used (g_wins g ! j) \<longrightarrow> w_used (g_wins g' ! j))"
    if A: "wm_create owner 9 title x y w h False (g, hp, s) = (Some i, g', hp', s')" and B: "free_win g (g_count g) = None" and C: "gui_inv g"
    for owner title x y w h g hp s i g' hp' s'
  proof -
    obtain win where win: "w_used win" "w_owner win = owner" "\<not> w_system win"
      and "free_win g (g_count g) = Some i \<and> g_z g' = g_z g \<and> g_count g' = g_count g \<or>
       free_win g (g_count g) = None \<and> i = g_count g \<and> i < MAX_WINDOWS \<and> g_z g' = (g_z g)[i := i] \<and> g_count g' = i + 1"
      and w: "g_wins g' = (g_wins g)[i := win]"
      by (rule wm_create_Some [OF A]) simp
    with B have i: "i = g_count g" "i < 8" "g_count g' = i + 1" by simp_all
    have "g_wins g' ! j = (if j = i then win else g_wins g ! j)" for j
      using i gui_invD(1) [OF C] by (auto simp: w nth_list_update)
    then show ?thesis using win i by (auto simp: owned_def owned_by_def less_Suc_eq)
  qed
  have g1: "gui_inv g1" by (rule wm_create_inv [OF g0(1) c1])
  have o1: "owned 3 g1 = {0}" "g_count g1 = 1" "w_used (g_wins g1 ! 0)" using own [OF c1 _ g0(1)] g0(2) r o0 by simp_all
  have f1: "free_win g1 (g_count g1) = None" using o1 by (simp add: free_win_def find_slot_None)
  obtain g2 s2 where c2: "wm_create 3 9 [98] 30 30 40 40 False (g1, 8395008, s1) = (Some 1, g2, 8403200, s2)"
    using create_kernel_space [OF k(2), of 9 s1 g1 3 "[98]" 30 30] f1 o1 s1 by (auto simp: owned_count)
  have o2: "owned 3 g2 = {0, 1}" using own [OF c2 f1 g1] o1 by auto
  have "gui_run (\<lambda>i. i = 3) demo_desk_run (gui_init, HEAP_START, demo_mmu) = Some (g2, 8403200, s2)"
    using c1 c2 by (simp add: demo_desk_run_def g0_def)
  then show ?thesis using o2 by blast
qed


lemma find_rev_upt: "p < n \<Longrightarrow> P p \<Longrightarrow> (\<And>i. p < i \<Longrightarrow> i < n \<Longrightarrow> \<not> P i) \<Longrightarrow> find P (rev [0..<n]) = Some p"
proof (induction n)
  case (Suc n)
  then show ?case by (cases "p = n") auto
qed simp

text \<open>
  Property C24.  A click goes to the frontmost window under the pointer: that window alone moves to the
  front and takes the focus, the others keep their order, and no window behind it is touched.  A
  click in its title starts a drag, and the next movement carries the window along with the
  pointer, at the distance it was grabbed.
\<close>

theorem click_raises_frontmost:
  assumes "gui_inv g" "g_drag g = NO_WINDOW" "z_stack g = lower @ f # upper" "hits mx my (g_wins g ! f)"
    "\<forall>a\<in>set upper. \<not> hits mx my (g_wins g ! a)" "g' = handle_mouse mx my True g"
  shows "z_stack g' = lower @ upper @ [f] \<and> g_focus g' = f \<and> g_wins g' = g_wins g \<and>
     (if my < wadd (w_y (g_wins g ! f)) TITLE_HEIGHT
      then g_drag g' = f \<and>
        g_wins (handle_mouse mx2 my2 True g') = (g_wins g)[f := (g_wins g ! f)
          \<lparr>w_x := mx2 - (mx - w_x (g_wins g ! f)), w_y := my2 - (my - w_y (g_wins g ! f))\<rparr>]
      else g_drag g' = NO_WINDOW)"
proof -
  note I = gui_invD [OF assms(1)]
  let ?P = "\<lambda>i. hits mx my (g_wins g ! (g_z g ! i))" and ?p = "length lower"
  have c: "g_count g = ?p + Suc (length upper)" using I(7) assms(3) by simp
  have zs: "\<And>i. i < g_count g \<Longrightarrow> g_z g ! i = (lower @ f # upper) ! i" using assms(3) by (metis nth_take z_stack_def)
  have fz: "g_z g ! ?p = f" using zs [of ?p] c by simp
  have up: "\<not> ?P i" if "?p < i" "i < g_count g" for i
  proof -
    have "g_z g ! i = upper ! (i - Suc ?p)" using zs [OF that(2)] that(1) by (simp add: nth_append nth_Cons')
    moreover have "i - Suc ?p < length upper" using that c by linarith
    ultimately show ?thesis using assms(5) by simp
  qed
  have fd: "find ?P (rev [0..<g_count g]) = Some ?p"
    by (rule find_rev_upt) (use c assms(4) fz up in simp_all)
  note R = raise_stack [OF assms(1,3)]
  have fc: "f < g_count g" using I(5) assms(3) by auto
  have rw: "g_wins (raise_win f g) = g_wins g" "g_drag (raise_win f g) = NO_WINDOW"
    using raise_inv [OF assms(1) fc] assms(2) by simp_all
  have rf: "g_focus (raise_win f g) = f" by (simp add: raise_win_def Let_def)
  have g': "g' = (if my < wadd (w_y (g_wins g ! f)) TITLE_HEIGHT
      then (raise_win f g)\<lparr>g_drag := f, g_dx := mx - w_x (g_wins g ! f), g_dy := my - w_y (g_wins g ! f)\<rparr> else raise_win f g)"
    using assms(2,6) fd fz by (simp add: handle_mouse_def Let_def)
  have f8: "f \<noteq> NO_WINDOW" using fc I(3) by auto
  have z: "z_stack (r\<lparr>g_drag := a, g_dx := b, g_dy := d\<rparr>) = z_stack r" for r a b d by (simp add: z_stack_def)
  show ?thesis
    using R rw rf f8 unfolding g' by (simp add: z handle_mouse_def upd_win_def)
qed

definition demo_desk :: gui where
  "demo_desk = gui_init\<lparr>g_wins := (g_wins gui_init)
       [0 := window_empty\<lparr>w_used := True, w_owner := 3, w_x := 10, w_y := 10, w_width := 100, w_height := 80\<rparr>,
        1 := window_empty\<lparr>w_used := True, w_owner := 3, w_x := 50, w_y := 50, w_width := 100, w_height := 80\<rparr>],
     g_z := [0, 1, 0, 0, 0, 0, 0, 0], g_count := 2, g_focus := 1\<rparr>"

theorem click_raises_frontmost_witness:
  "z_stack (handle_mouse 20 15 True demo_desk) = [1, 0] \<and> g_focus (handle_mouse 20 15 True demo_desk) = 0 \<and>
   w_x (g_wins (handle_mouse 220 15 True (handle_mouse 20 15 True demo_desk)) ! 0) = 210"
proof -
  have s: "z_stack demo_desk = [] @ 0 # [1]" by (simp add: z_stack_def demo_desk_def)
  have "gui_inv demo_desk"
    by (rule gui_invI) (auto simp: demo_desk_def z_stack_def gui_init_def keys_inv_def)
  from click_raises_frontmost [OF this _ s, of 20 15 _ 220 15]
  show ?thesis by (simp add: demo_desk_def hits_def wadd_def gui_init_def)
qed

text \<open>
  The windows a program has open are mapped at addresses of their own: in every reachable
  state of the desktop, two windows of one task that runs in its own address space lie in
  disjoint ranges of the region reserved for windows.
\<close>

theorem windows_separate:
  assumes "gui_run spaced ops (gui_init, heap, s) = Some (g, heap', s')" "spaced owner"
    "i \<in> owned owner g" "j \<in> owned owner g" "i \<noteq> j"
    "bytes = (\<lambda>k. w_width (g_wins g ! k) * w_height (g_wins g ! k) * 4 mod 2 ^ 64)" "addr = (\<lambda>k. w_user_addr (g_wins g ! k))"
  shows "WINDOW_MAP_BASE \<le> addr i \<and> addr i + bytes i \<le> WINDOW_MAP_BASE + WINDOW_MAP_SLOTS * WINDOW_MAP_SLOT \<and>
     (addr i + bytes i \<le> addr j \<or> addr j + bytes j \<le> addr i)"
proof -
  have "slots_ok spaced g" using gui_run_inv [OF assms(1)] gui_inv_init slots_init by simp
  then have S: "card (owned owner g) \<le> 4" "addr ` owned owner g = (\<lambda>k. WINDOW_MAP_BASE + k * WINDOW_MAP_SLOT) ` {..<card (owned owner g)}"
    "bytes i \<le> WINDOW_MAP_SLOT" "bytes j \<le> WINDOW_MAP_SLOT"
    using assms(2-4) unfolding slots_ok_def assms(6,7) by blast+
  have "inj_on (\<lambda>k. WINDOW_MAP_BASE + k * WINDOW_MAP_SLOT) {..<card (owned owner g)}" by (rule inj_onI) simp
  then have "card (addr ` owned owner g) = card (owned owner g)" unfolding S(2) by (simp add: card_image)
  then have "inj_on addr (owned owner g)" by (simp add: eq_card_imp_inj_on)
  then have ne: "addr i \<noteq> addr j" using assms(3-5) by (auto dest: inj_onD)
  have "addr i \<in> addr ` owned owner g" "addr j \<in> addr ` owned owner g" using assms(3,4) by auto
  then obtain a b where ab: "addr i = WINDOW_MAP_BASE + a * WINDOW_MAP_SLOT" "a < 4" "addr j = WINDOW_MAP_BASE + b * WINDOW_MAP_SLOT"
    using S(1) unfolding S(2) by auto
  have "a < b \<or> b < a" using ne ab by (metis linorder_neqE_nat)
  then show ?thesis using ab S(3,4) by linarith
qed

theorem windows_separate_witness:
  "\<exists>g heap' s'. gui_run (\<lambda>i. i = 3) demo_desk_run (gui_init, HEAP_START, demo_mmu) = Some (g, heap', s') \<and>
     (w_user_addr (g_wins g ! 0) + w_width (g_wins g ! 0) * w_height (g_wins g ! 0) * 4 mod 2 ^ 64 \<le> w_user_addr (g_wins g ! 1) \<or>
      w_user_addr (g_wins g ! 1) + w_width (g_wins g ! 1) * w_height (g_wins g ! 1) * 4 mod 2 ^ 64 \<le> w_user_addr (g_wins g ! 0))"
proof -
  obtain g heap' s' where r: "gui_run (\<lambda>i. i = 3) demo_desk_run (gui_init, HEAP_START, demo_mmu) = Some (g, heap', s')" "owned 3 g = {0, 1}"
    using demo_desk_runs by blast
  show ?thesis using windows_separate [OF r(1) _ _ _ _ refl refl, of 3 0 1] r by auto
qed

text \<open>
  Property C25.  What is typed reaches the program that has the focus, in order and complete, as long as
  the window's queue of 15 keys has room: from the scan codes of the keyboard interrupt through
  the event queue and the window manager to the calls that take the keys of the window.
\<close>

theorem typed_keys_reach_window:
  assumes "input_inv s" "events s = []" "gui_inv g" "g_focus g = f" "f < MAX_WINDOWS" "f \<noteq> g_shell g" "pending_keys f g = []"
    "\<forall>c\<in>set codes. c AND 0x80 = 0 \<and> ascii_of c \<noteq> 0" "length codes \<le> 15"
    "handle_input (type_keys codes s) (g, shell_keys) = (s', g', shell_keys')"
  shows "fst (take_keys 15 f g') = map ascii_of codes \<and> shell_keys' = shell_keys \<and> events s' = []"
proof -
  have t: "input_inv (type_keys codes s) \<and> events (type_keys codes s) = map Key (map ascii_of codes)"
    using type_keys_events [OF assms(1) _ assms(8), of "[]"] assms(2,9) by simp
  obtain s1 where h: "handle_input (type_keys codes s) (g, shell_keys) =
      handle_input s1 (fold (\<lambda>k. handle_event (Key k)) (map ascii_of codes) (g, shell_keys))" and s1: "input_inv s1" "events s1 = []"
    using key_step [of "type_keys codes s" "map ascii_of codes" "[]" "(g, shell_keys)"] t by auto
  obtain g1 where d: "fold (\<lambda>k. handle_event (Key k)) (map ascii_of codes) (g, shell_keys) = (g1, shell_keys)"
    and g1: "gui_inv g1" "pending_keys f g1 = map ascii_of codes"
    using deliver_list [OF assms(3,5,4,6), of "map ascii_of codes" shell_keys] assms(7,9) by auto
  have "handle_input (type_keys codes s) (g, shell_keys) = (s1, g1, shell_keys)"
    unfolding h d by (rule handle_input_empty [OF s1])
  then have eq: "s' = s1" "g' = g1" "shell_keys' = shell_keys" using assms(10) by simp_all
  have "fst (take_keys 15 f g1) = map ascii_of codes"
    by (rule take_keys_all [OF gui_invD(6) [OF g1(1)] assms(5) g1(2)]) (use assms(8,9) in auto)
  then show ?thesis using eq s1(2) by simp
qed

theorem typed_keys_reach_window_witness:
  "\<exists>s' g' k. handle_input (type_keys [0x23, 0x17] input_init) (demo_desk, []) = (s', g', k) \<and>
     fst (take_keys 15 1 g') = map ascii_of [0x23, 0x17]"
proof -
  have g: "gui_inv demo_desk"
    by (rule gui_invI) (auto simp: demo_desk_def z_stack_def gui_init_def keys_inv_def)
  obtain s' g' k where h: "handle_input (type_keys [0x23, 0x17] input_init) (demo_desk, []) = (s', g', k)"
    by (cases "handle_input (type_keys [0x23, 0x17] input_init) (demo_desk, [])")
  have "fst (take_keys 15 1 g') = map ascii_of [0x23, 0x17] \<and> k = [] \<and> events s' = []"
  proof (rule typed_keys_reach_window [OF input_inv_init _ g _ _ _ _ _ _ h])
    show "events input_init = []" by (simp add: events_def input_init_def ring_empty)
    show "pending_keys 1 demo_desk = []" by (simp add: pending_keys_def demo_desk_def gui_init_def ring_empty)
    show "\<forall>c\<in>set [0x23, 0x17]. c AND 0x80 = 0 \<and> ascii_of c \<noteq> 0" by (simp add: ascii_of_def SCANCODE_ASCII_def)
  qed (simp_all add: demo_desk_def gui_init_def)
  then show ?thesis using h by blast
qed

lemma take_keys_cong:
  assumes "keys_inv h" "keys_inv h'" "pending_keys i h = pending_keys i h'" "i < MAX_WINDOWS"
  shows "fst (take_keys k i h) = fst (take_keys k i h')"
  using assms(1-3)
proof (induction k arbitrary: h h')
  case (Suc k)
  note P = poll_key_result [OF Suc.prems(1) assms(4)] and Q = poll_key_result [OF Suc.prems(2) assms(4)]
  show ?case
  proof (cases "pending_keys i h = []")
    case True
    then show ?thesis using P(1,2) Q(1,2) Suc.prems(3) by simp
  next
    case False
    obtain a b where ab: "poll_key i h = (a, b)" by (cases "poll_key i h")
    obtain c d where cd: "poll_key i h' = (c, d)" by (cases "poll_key i h'")
    have e: "a # pending_keys i b = c # pending_keys i d" using P(1,3) Q(1,3) Suc.prems(3) False ab cd by simp
    have inv: "keys_inv b" "keys_inv d" using P(4) Q(4) ab cd by simp_all
    have "fst (take_keys k i b) = fst (take_keys k i d)" by (rule Suc.IH [OF inv]) (use e in simp)
    then show ?thesis using ab cd e by (auto split: prod.split)
  qed
qed simp

text \<open>
  Keys outlive the window they were typed into: closing the windows of a task leaves their
  queues as they are, so the next window that is created in the slot, of whatever task, receives
  the keys its predecessor did not take.
\<close>

theorem keys_outlive_window:
  assumes "gui_inv g" "close_owned_by old g = (n, g1)"
    "wm_create new space title x y width height system (g1, heap, s) = (Some i, g2, heap', s')" "i < MAX_WINDOWS"
  shows "fst (take_keys k i g2) = fst (take_keys k i g)"
proof (rule take_keys_cong [OF _ _ _ assms(4)])
  have "g_keys g2 = g_keys g1 \<and> g_khead g2 = g_khead g1 \<and> g_ktail g2 = g_ktail g1"
    by (rule wm_create_Some [OF assms(3)]) simp
  then show "pending_keys i g2 = pending_keys i g" using close_owned_by(3) [OF assms(1,2), of i] by (simp add: pending_keys_def)
  show "keys_inv g2" by (rule gui_invD(6) [OF wm_create_inv [OF close_owned_by(1) [OF assms(1,2)] assms(3)]])
  show "keys_inv g" by (rule gui_invD(6) [OF assms(1)])
qed

lemma create_system_window:
  assumes "kmalloc_aligned (of_nat (width * height * 4)) 4096 heap = Some (b, heap')" "width * height * 4 < 2 ^ 64"
    "width \<noteq> 0" "height \<noteq> 0" "free_win g (g_count g) = Some i"
  shows "\<exists>g' s'. wm_create owner space title x y width height True (g, heap, s) = (Some i, g', heap', s')"
proof -
  have m: "(width * height * 4) mod 2 ^ 64 = width * height * 4" using assms(2) by simp
  show ?thesis unfolding wm_create_def Let_def m using assms by simp
qed

theorem keys_outlive_window_witness:
  "\<exists>n g1 g2 heap' s'. close_owned_by 3 (deliver_key 0 65 demo_desk) = (n, g1) \<and>
     wm_create 5 0 [] 0 0 10 10 True (g1, HEAP_START, demo_mmu) = (Some 0, g2, heap', s') \<and> fst (take_keys 15 0 g2) = [65]"
proof -
  have g: "gui_inv demo_desk"
    by (rule gui_invI) (auto simp: demo_desk_def z_stack_def gui_init_def keys_inv_def)
  let ?g = "deliver_key 0 65 demo_desk"
  obtain n g1 where c: "close_owned_by 3 ?g = (n, g1)" by (cases "close_owned_by 3 ?g")
  have "g_count ?g = 2" "owned_by 3 (g_wins ?g ! 0)" by (simp_all add: deliver_fields) (simp_all add: demo_desk_def gui_init_def owned_by_def window_empty_def)
  then have "\<not> w_used (g_wins g1 ! 0)" "g_count g1 = 2" using close_owned_by(2,4) [OF deliver_inv [OF g] c] by simp_all
  then have f: "free_win g1 (g_count g1) = Some 0" unfolding free_win_def by (intro find_slot_first) simp_all
  have "is_power_of_two 4096" unfolding is_power_of_two_iff by (rule exI [of _ 12]) simp
  then have k: "kmalloc_aligned (of_nat (10 * 10 * 4)) 4096 HEAP_START = Some (8388608, 8389008)"
    by (simp add: kmalloc_aligned_def checked_add_def)
  obtain g2 s' where w: "wm_create 5 0 [] 0 0 10 10 True (g1, HEAP_START, demo_mmu) = (Some 0, g2, 8389008, s')"
    using create_system_window [OF k _ _ _ f, of 5 0 "[]" 0 0 demo_mmu] by auto
  have "pending_keys 0 ?g = [65]"
    using deliver_result(1) [OF gui_invD(6) [OF g], of 0 65] by (simp add: pending_keys_def demo_desk_def gui_init_def ring_empty)
  then have "fst (take_keys 15 0 ?g) = [65]" by (intro take_keys_all [OF gui_invD(6) [OF deliver_inv [OF g]]]) simp_all
  then show ?thesis using keys_outlive_window [OF deliver_inv [OF g] c w, of 15] c w by auto
qed

end
