(* ===== verification/Rtc.thy ===== *)
theory Rtc imports Prelude "HOL-Library.Signed_Division" begin

text \<open>
  The real-time clock, \<^verbatim>\<open>kernel/src/level0a/drivers/rtc.rs\<close>: reading the CMOS registers until two
  readings agree, and the conversion between dates and Unix time.  The CMOS is a parameter of the
  definitions: \<open>cmos t r\<close> is what the port answers to access number \<open>t\<close>, of register \<open>r\<close>; nothing is
  assumed of it.  Overflow of unsigned integers wraps, as in the release build.
\<close>

section \<open>Reading the clock\<close>

type_synonym cmos = "nat \<Rightarrow> byte \<Rightarrow> byte"

abbreviation (input) REG_SECOND :: byte where "REG_SECOND \<equiv> 0"
abbreviation (input) REG_MINUTE :: byte where "REG_MINUTE \<equiv> 2"
abbreviation (input) REG_HOUR :: byte where "REG_HOUR \<equiv> 4"
abbreviation (input) REG_DAY :: byte where "REG_DAY \<equiv> 7"
abbreviation (input) REG_MONTH :: byte where "REG_MONTH \<equiv> 8"
abbreviation (input) REG_YEAR :: byte where "REG_YEAR \<equiv> 9"
abbreviation (input) REG_STATUS_A :: byte where "REG_STATUS_A \<equiv> 10"
abbreviation (input) REG_STATUS_B :: byte where "REG_STATUS_B \<equiv> 11"
abbreviation (input) STATUS_A_UPDATING :: byte where "STATUS_A_UPDATING \<equiv> 128"
abbreviation (input) STATUS_B_BINARY :: byte where "STATUS_B_BINARY \<equiv> 4"
abbreviation (input) STATUS_B_24H :: byte where "STATUS_B_24H \<equiv> 2"
abbreviation (input) SPIN_LIMIT :: nat where "SPIN_LIMIT \<equiv> 1000000"

record date_time =
  dt_year :: "16 word"
  dt_month :: byte
  dt_day :: byte
  dt_hour :: byte
  dt_minute :: byte
  dt_second :: byte

record rtc =
  rtc_available :: bool
  rtc_boot_epoch :: nat

definition read_register :: "cmos \<Rightarrow> byte \<Rightarrow> nat \<Rightarrow> byte \<times> nat" where
  "read_register cmos register t = (cmos t register, t + 1)"

definition update_in_progress :: "cmos \<Rightarrow> nat \<Rightarrow> bool \<times> nat" where
  "update_in_progress cmos t = (let (status, t) = read_register cmos REG_STATUS_A t in (status AND STATUS_A_UPDATING \<noteq> 0, t))"

definition from_bcd :: "byte \<Rightarrow> byte" where
  "from_bcd value = (value AND 0x0F) + drop_bit 4 value * 10"

definition read_raw :: "cmos \<Rightarrow> nat \<Rightarrow> date_time \<times> nat" where
  "read_raw cmos t =
     (let (second, t) = read_register cmos REG_SECOND t;
          (minute, t) = read_register cmos REG_MINUTE t;
          (hour, t) = read_register cmos REG_HOUR t;
          (day, t) = read_register cmos REG_DAY t;
          (month, t) = read_register cmos REG_MONTH t;
          (year, t) = read_register cmos REG_YEAR t
      in (\<lparr>dt_year = ucast year, dt_month = month, dt_day = day, dt_hour = hour, dt_minute = minute, dt_second = second\<rparr>, t))"

text \<open>\<open>while update_in_progress()\<close>, with the count of turns that all loops of \<open>now\<close> share.\<close>

function wait_update :: "cmos \<Rightarrow> nat \<Rightarrow> nat \<Rightarrow> nat option \<times> nat" where
  "wait_update cmos spins t =
     (let (busy, t) = update_in_progress cmos t in
      if \<not> busy then (Some spins, t)
      else if spins + 1 > SPIN_LIMIT then (None, t)
      else wait_update cmos (spins + 1) t)"
  by pat_completeness auto
termination by (relation "measure (\<lambda>(_, spins, _). SPIN_LIMIT - spins)") auto

declare wait_update.simps [simp del]

lemma update_time: "update_in_progress cmos t = (b, t') \<Longrightarrow> t' = t + 1"
  by (simp add: update_in_progress_def read_register_def Let_def)

lemma read_raw_time: "read_raw cmos t = (d, t') \<Longrightarrow> t' = t + 6"
  by (auto simp: read_raw_def read_register_def Let_def)

lemma wait_update_bounds:
  "wait_update cmos spins t = (r, t') \<Longrightarrow> spins \<le> SPIN_LIMIT \<Longrightarrow>
     t' \<le> t + (SPIN_LIMIT + 1 - spins) \<and> (\<forall>n. r = Some n \<longrightarrow> spins \<le> n \<and> n \<le> SPIN_LIMIT \<and> t' = t + 1 + (n - spins))"
proof (induction cmos spins t rule: wait_update.induct)
  case (1 cmos spins t)
  obtain b u where bu: "update_in_progress cmos t = (b, u)" by (cases "update_in_progress cmos t")
  have u: "u = t + 1" by (rule update_time [OF bu])
  consider "\<not> b" | "b" "spins + 1 > 1000000" | "b" "spins + 1 \<le> 1000000" by linarith
  then show ?case
  proof cases
    case 1
    then show ?thesis using "1.prems" bu u by (auto simp: wait_update.simps [of cmos spins t])
  next
    case 2
    then show ?thesis using "1.prems" bu u by (auto simp: wait_update.simps [of cmos spins t])
  next
    case 3
    then have "wait_update cmos (spins + 1) u = (r, t')" using "1.prems"(1) bu by (simp add: wait_update.simps [of cmos spins t])
    from "1.IH" [OF bu [symmetric] refl _ _ this] 3 show ?thesis using u by force
  qed
qed

lemma wait_update_ge: "wait_update cmos spins t = (Some n, t') \<Longrightarrow> spins \<le> n"
proof (induction cmos spins t rule: wait_update.induct)
  case (1 cmos spins t)
  obtain b u where bu: "update_in_progress cmos t = (b, u)" by (cases "update_in_progress cmos t")
  show ?case
  proof (cases "b \<and> spins + 1 \<le> SPIN_LIMIT")
    case True
    then have "wait_update cmos (spins + 1) u = (Some n, t')" using "1.prems"(1) bu by (simp add: wait_update.simps [of cmos spins t])
    then show ?thesis using "1.IH" [OF bu [symmetric] refl] True by simp
  next
    case False
    then show ?thesis using "1.prems" bu by (auto simp: wait_update.simps [of cmos spins t] split: if_splits)
  qed
qed

text \<open>The loop that reads until two readings agree.\<close>

function read_stable :: "cmos \<Rightarrow> date_time \<Rightarrow> nat \<Rightarrow> nat \<Rightarrow> date_time option \<times> nat" where
  "read_stable cmos previous spins t =
     (case wait_update cmos spins t of
        (None, t) \<Rightarrow> (None, t)
      | (Some spins, t) \<Rightarrow>
          (let (current, t) = read_raw cmos t in
           if current = previous then (Some previous, t)
           else if spins + 1 > SPIN_LIMIT then (None, t)
           else read_stable cmos current (spins + 1) t))"
  by pat_completeness auto
termination
  by (relation "measure (\<lambda>(_, _, spins, _). SPIN_LIMIT + 1 - spins)") (auto dest!: wait_update_ge [OF sym])

declare read_stable.simps [simp del]

lemma read_stable_bounds:
  "read_stable cmos previous spins t = (r, t') \<Longrightarrow> spins \<le> SPIN_LIMIT \<Longrightarrow> t' \<le> t + 7 * (SPIN_LIMIT + 1 - spins)"
proof (induction cmos previous spins t rule: read_stable.induct)
  case (1 cmos previous spins t)
  obtain w u where w: "wait_update cmos spins t = (w, u)" by (cases "wait_update cmos spins t")
  note W = wait_update_bounds [OF w "1.prems"(2)]
  show ?case
  proof (cases w)
    case None
    then show ?thesis using "1.prems" w W by (simp add: read_stable.simps [of cmos previous spins t])
  next
    case (Some n)
    then have n: "spins \<le> n" "n \<le> 1000000" "u = t + 1 + (n - spins)" using W by auto
    obtain d v where d: "read_raw cmos u = (d, v)" by (cases "read_raw cmos u")
    have v: "v = u + 6" by (rule read_raw_time [OF d])
    consider "d = previous" | "d \<noteq> previous" "n + 1 > 1000000" | "d \<noteq> previous" "n + 1 \<le> 1000000" by linarith
    then show ?thesis
    proof cases
      case 3
      then have "read_stable cmos d (n + 1) v = (r, t')"
        using "1.prems"(1) w Some d by (simp add: read_stable.simps [of cmos previous spins t])
      from "1.IH" [OF w [symmetric] Some refl d [symmetric] _ _ this] 3 have "t' \<le> v + 7 * (1000001 - (n + 1))" by simp
      then show ?thesis using n v by linarith
    qed (use "1.prems" w Some d n v in \<open>auto simp: read_stable.simps [of cmos previous spins t]\<close>)
  qed
qed

section \<open>The time of day\<close>

definition decode_time :: "byte \<Rightarrow> date_time \<Rightarrow> date_time" where
  "decode_time status_b time =
     (let pm = (status_b AND STATUS_B_24H = 0 \<and> dt_hour time AND 0x80 \<noteq> 0);
          time = time\<lparr>dt_hour := dt_hour time AND 0x7F\<rparr>;
          time = (if status_b AND STATUS_B_BINARY = 0
                  then \<lparr>dt_year = ucast (from_bcd (ucast (dt_year time))), dt_month = from_bcd (dt_month time),
                        dt_day = from_bcd (dt_day time), dt_hour = from_bcd (dt_hour time),
                        dt_minute = from_bcd (dt_minute time), dt_second = from_bcd (dt_second time)\<rparr>
                  else time);
          time = (if pm \<and> dt_hour time < 12 then time\<lparr>dt_hour := dt_hour time + 12\<rparr> else time);
          time = (if status_b AND STATUS_B_24H = 0 \<and> \<not> pm \<and> dt_hour time = 12 then time\<lparr>dt_hour := 0\<rparr> else time)
      in time\<lparr>dt_year := dt_year time + 2000\<rparr>)"

definition rtc_now :: "cmos \<Rightarrow> rtc \<Rightarrow> nat \<Rightarrow> date_time option \<times> nat" where
  "rtc_now cmos s t =
     (if \<not> rtc_available s then (None, t)
      else case wait_update cmos 0 t of
        (None, t) \<Rightarrow> (None, t)
      | (Some spins, t) \<Rightarrow>
          (let (previous, t) = read_raw cmos t in
           case read_stable cmos previous spins t of
             (None, t) \<Rightarrow> (None, t)
           | (Some previous, t) \<Rightarrow>
               (let (status_b, t) = read_register cmos REG_STATUS_B t in (Some (decode_time status_b previous), t))))"

section \<open>The calendar\<close>

definition days_from_civil :: "nat \<Rightarrow> nat \<Rightarrow> nat \<Rightarrow> nat" where
  "days_from_civil year month day =
     (let y = (if month \<le> 2 then int year - 1 else int year);
          era = (if y \<ge> 0 then y else y - 399) sdiv 400;
          yoe = y - era * 400;
          m = int month;
          doy = (153 * (if m > 2 then m - 3 else m + 9) + 2) div 5 + int day - 1;
          doe = yoe * 365 + yoe div 4 - yoe div 100 + doy
      in nat ((era * 146097 + doe - 719468) mod 2 ^ 32))"

definition unix_time :: "cmos \<Rightarrow> rtc \<Rightarrow> nat \<Rightarrow> nat \<times> nat" where
  "unix_time cmos s t =
     (case rtc_now cmos s t of
        (Some d, t) \<Rightarrow> (w32 (days_from_civil (unat (dt_year d)) (unat (dt_month d)) (unat (dt_day d)) * 86400 +
                            unat (dt_hour d) * 3600 + unat (dt_minute d) * 60 + unat (dt_second d)), t)
      | (None, t) \<Rightarrow> (0, t))"

definition rtc_init :: "cmos \<Rightarrow> rtc \<Rightarrow> nat \<Rightarrow> bool \<times> rtc \<times> nat" where
  "rtc_init cmos s t =
     (let s = s\<lparr>rtc_available := True\<rparr>;
          (d, t) = rtc_now cmos s t;
          ok = (case d of
                  Some d \<Rightarrow> dt_month d \<ge> 1 \<and> dt_month d \<le> 12 \<and> dt_day d \<ge> 1 \<and> dt_day d \<le> 31 \<and> dt_hour d < 24
                | None \<Rightarrow> False);
          s = s\<lparr>rtc_available := ok\<rparr>
      in if ok then (let (e, t) = unix_time cmos s t in (ok, s\<lparr>rtc_boot_epoch := e\<rparr>, t)) else (ok, s, t))"

text \<open>\<open>epoch / 86400\<close> fits in an \<open>i32\<close>, so \<open>z\<close> is never negative and \<open>era\<close> takes its first branch.\<close>

definition from_unix :: "nat \<Rightarrow> date_time" where
  "from_unix epoch =
     (let days = epoch div 86400; seconds = epoch mod 86400;
          z = days + 719468;
          era = z div 146097;
          doe = z - era * 146097;
          yoe = (doe - doe div 1460 + doe div 36524 - doe div 146096) div 365;
          y = yoe + era * 400;
          doy = doe - (365 * yoe + yoe div 4 - yoe div 100);
          mp = (5 * doy + 2) div 153;
          day = doy - (153 * mp + 2) div 5 + 1;
          month = (if mp < 10 then mp + 3 else mp - 9)
      in \<lparr>dt_year = of_nat (if month \<le> 2 then y + 1 else y), dt_month = of_nat month, dt_day = of_nat day,
          dt_hour = of_nat (seconds div 3600), dt_minute = of_nat (seconds mod 3600 div 60), dt_second = of_nat (seconds mod 60)\<rparr>)"


section \<open>The reference calendar\<close>

definition leap :: "nat \<Rightarrow> bool" where
  "leap y \<longleftrightarrow> 4 dvd y \<and> (\<not> 100 dvd y \<or> 400 dvd y)"

definition month_len :: "nat \<Rightarrow> nat \<Rightarrow> nat" where
  "month_len y m = (if m = 2 then (if leap y then 29 else 28) else if m \<in> {4, 6, 9, 11} then 30 else 31)"

type_synonym ymd = "nat \<times> nat \<times> nat"

fun next_day :: "ymd \<Rightarrow> ymd" where
  "next_day (y, m, d) =
     (if d < month_len y m then (y, m, d + 1) else if m < 12 then (y, m + 1, 1) else (y + 1, 1, 1))"

fun valid_date :: "ymd \<Rightarrow> bool" where
  "valid_date (y, m, d) \<longleftrightarrow> 1 \<le> m \<and> m \<le> 12 \<and> 1 \<le> d \<and> d \<le> month_len y m"

definition date_after :: "nat \<Rightarrow> ymd" where
  \<comment> \<open>the date \<open>n\<close> days after 1 January 1970\<close>
  "date_after n = (next_day ^^ n) (1970, 1, 1)"

text \<open>The day of a year that starts in March, and the days before such a year.\<close>

definition march_year :: "nat \<Rightarrow> nat \<Rightarrow> nat" where
  "march_year y m = (if m \<le> 2 then y - 1 else y)"

definition month_start :: "nat \<Rightarrow> nat" where
  "month_start m = (153 * (if m > 2 then m - 3 else m + 9) + 2) div 5"

definition year_start :: "nat \<Rightarrow> nat" where
  "year_start y = 365 * y + y div 4 - y div 100 + y div 400"

definition day_number :: "ymd \<Rightarrow> nat" where
  "day_number t = (case t of (y, m, d) \<Rightarrow> year_start (march_year y m) + month_start m + d - 1)"

lemma year_start_Suc: "year_start (Suc y) = year_start y + 365 + (if leap (Suc y) then 1 else 0)"
proof -
  have d: "Suc y div n = (if n dvd Suc y then Suc (y div n) else y div n)" for n :: nat
    by (simp add: div_Suc dvd_eq_mod_eq_0)
  have i: "400 dvd Suc y \<Longrightarrow> 100 dvd Suc y" "100 dvd Suc y \<Longrightarrow> 4 dvd Suc y"
    by (auto elim!: dvd_trans [rotated])
  have le: "y div 100 \<le> y" by simp
  show ?thesis using i le by (auto simp: year_start_def leap_def d)
qed

lemma next_day_number: "valid_date t \<Longrightarrow> 1 \<le> fst t \<Longrightarrow> day_number (next_day t) = day_number t + 1"
proof (cases t)
  case (fields y m d)
  assume v: "valid_date t" "1 \<le> fst t"
  show ?thesis
  proof (cases "d < month_len y m")
    case True
    then show ?thesis using v by (simp add: fields day_number_def)
  next
    case False
    then have d: "d = month_len y m" using v by (simp add: fields)
    have "1 \<le> m" "m \<le> 12" using v by (simp_all add: fields)
    then have m: "m = 1 \<or> m = 2 \<or> m = 3 \<or> m = 4 \<or> m = 5 \<or> m = 6 \<or> m = 7 \<or> m = 8 \<or> m = 9 \<or> m = 10 \<or> m = 11 \<or> m = 12"
      by presburger
    have y: "Suc (y - 1) = y" using v by (simp add: fields)
    have ys: "year_start y = year_start (y - 1) + 365 + (if leap y then 1 else 0)" using year_start_Suc [of "y - 1"] y by simp
    show ?thesis using m ys
      by (elim disjE) (simp_all add: fields d day_number_def march_year_def month_start_def month_len_def)
  qed
qed

lemma next_day_valid: "valid_date t \<Longrightarrow> valid_date (next_day t) \<and> fst t \<le> fst (next_day t)"
  by (cases t) (auto simp: month_len_def)

lemma date_after_valid: "valid_date (date_after n) \<and> 1970 \<le> fst (date_after n) \<and> day_number (date_after n) = n + 719468"
proof (induction n)
  case 0
  then show ?case by (simp add: date_after_def month_len_def day_number_def year_start_def march_year_def month_start_def)
next
  case (Suc n)
  have s: "date_after (Suc n) = next_day (date_after n)" by (simp add: date_after_def)
  show ?case using Suc next_day_valid [of "date_after n"] next_day_number [of "date_after n"] s by auto
qed


section \<open>The conversion computes the calendar\<close>

text \<open>The year of a day of the 400-year cycle, from its century, its four-year cycle and its year.\<close>

lemma year_of_era:
  fixes b k j doy doe :: nat
  assumes "b \<le> 3" "k \<le> 24" "j \<le> 3" "doy \<le> 364 \<or> doy = 365 \<and> j = 3 \<and> (k < 24 \<or> b = 3)"
    "doe = 36524 * b + 1461 * k + 365 * j + doy"
  shows "doe < 146097" "(doe - doe div 1460 + doe div 36524 - doe div 146096) div 365 = 100 * b + 4 * k + j"
proof -
  define s where "s = 365 * j + doy"
  have s: "s \<le> 1460" using assms(3,4) by (auto simp: s_def)
  have doe: "doe = 36524 * b + 1461 * k + s" using assms(5) by (simp add: s_def)
  have sj: "j = 3 \<and> doy = 365 \<longleftrightarrow> s = 1460" using assms(3,4) by (auto simp: s_def)
  show lt: "doe < 146097" using doe assms(1,2) s by linarith
  show "(doe - doe div 1460 + doe div 36524 - doe div 146096) div 365 = 100 * b + 4 * k + j"
  proof (cases "doe = 146096")
    case True
    then have "b = 3" "k = 24" "s = 1460" using doe assms(1,2) s by linarith+
    then show ?thesis using True sj by simp
  next
    case False
    then have lt': "doe < 146096" using lt by simp
    have r: "1461 * k + s < 36524"
    proof (rule ccontr)
      assume "\<not> ?thesis"
      then have "k = 24" "s = 1460" using assms(2) s by linarith+
      then have "b = 3" using sj assms(4) by auto
      then show False using False doe \<open>k = 24\<close> \<open>s = 1460\<close> by simp
    qed
    have d1: "doe div 36524 = b" using r unfolding doe by simp
    have d2: "doe div 146096 = 0" using lt' by simp
    define c where "c = (24 * b + k + s) div 1460"
    have c: "c = (if 1460 \<le> 24 * b + k + s then 1 else 0)"
      unfolding c_def using assms(1,2) s by (auto simp: div_nat_eqI)
    have "doe = (24 * b + k + s) + 1460 * (25 * b + k)" using doe by simp
    then have d3: "doe div 1460 = 25 * b + k + c" by (simp only: div_mult_self2 c_def)
    have cs: "c \<le> s" using c assms(1,2) by (auto split: if_splits)
    have x: "doe - doe div 1460 + doe div 36524 - doe div 146096 = 365 * (100 * b + 4 * k) + (s - c)"
      unfolding d1 d2 d3 using doe cs by simp
    have "(s - c) div 365 = j"
    proof (cases "1460 \<le> 24 * b + k + s")
      case True
      then have "1364 \<le> s" using assms(1,2) by linarith
      then have "j = 3" using assms(3,4) by (auto simp: s_def)
      then show ?thesis using True c s \<open>1364 \<le> s\<close> by (auto intro!: div_nat_eqI)
    next
      case False
      then have "s \<noteq> 1460" by auto
      then have "doy \<le> 364" using sj assms(4) by auto
      then show ?thesis using c False by (auto intro!: div_nat_eqI simp: s_def)
    qed
    then show ?thesis unfolding x by simp
  qed
qed

text \<open>The parts of a year number.\<close>

lemma year_parts:
  fixes Y :: nat
  defines "e \<equiv> Y div 400" and "b \<equiv> (Y mod 400) div 100" and "k \<equiv> (Y mod 100) div 4" and "j \<equiv> Y mod 4"
  shows "Y = 400 * e + 100 * b + 4 * k + j" "b \<le> 3" "k \<le> 24" "j \<le> 3"
    "year_start Y = 146097 * e + 36524 * b + 1461 * k + 365 * j"
    "leap (Suc Y) \<longleftrightarrow> j = 3 \<and> (k < 24 \<or> b = 3)"
proof -
  show b: "b \<le> 3" and k: "k \<le> 24" and j: "j \<le> 3" by (simp_all add: b_def k_def j_def less_mult_imp_div_less flip: less_Suc_eq_le)
  have Y1: "Y = 400 * e + Y mod 400" by (simp add: e_def)
  have "Y mod 400 mod 100 = Y mod 100" by (simp add: mod_mod_cancel)
  then have Y2: "Y mod 400 = 100 * b + Y mod 100" by (metis b_def mult_div_mod_eq)
  have "Y mod 100 mod 4 = Y mod 4" by (simp add: mod_mod_cancel)
  then have Y3: "Y mod 100 = 4 * k + j" by (metis j_def k_def mult_div_mod_eq)
  show Y: "Y = 400 * e + 100 * b + 4 * k + j" using Y1 Y2 Y3 by linarith
  have d4: "Y div 4 = 100 * e + 25 * b + k" using j unfolding Y by simp
  have d100: "Y div 100 = 4 * e + b" using j k unfolding Y by simp
  have d400: "Y div 400 = e" by (simp add: e_def)
  show "year_start Y = 146097 * e + 36524 * b + 1461 * k + 365 * j"
    unfolding year_start_def d4 d100 d400 using Y by linarith
  have "4 dvd Suc Y \<longleftrightarrow> j = 3" using j by (simp add: j_def dvd_eq_mod_eq_0 mod_Suc)
  moreover have "100 dvd Suc Y \<longleftrightarrow> Y mod 100 = 99" by (simp add: dvd_eq_mod_eq_0 mod_Suc)
  moreover have "400 dvd Suc Y \<longleftrightarrow> Y mod 400 = 399" by (simp add: dvd_eq_mod_eq_0 mod_Suc)
  ultimately show "leap (Suc Y) \<longleftrightarrow> j = 3 \<and> (k < 24 \<or> b = 3)"
    unfolding leap_def Y2 Y3 using b j k by auto
qed

text \<open>Month and day of a day of the March year.\<close>

lemma month_day:
  assumes "1 \<le> m" "m \<le> 12" "1 \<le> d" "d \<le> 31" "m = 2 \<longrightarrow> d \<le> 29" "m \<in> {4, 6, 9, 11} \<longrightarrow> d \<le> 30"
    "doy = month_start m + d - 1" "mp = (5 * doy + 2) div 153"
  shows "(if mp < 10 then mp + 3 else mp - 9) = m" "doy - (153 * mp + 2) div 5 + 1 = d"
proof -
  have "m = 1 \<or> m = 2 \<or> m = 3 \<or> m = 4 \<or> m = 5 \<or> m = 6 \<or> m = 7 \<or> m = 8 \<or> m = 9 \<or> m = 10 \<or> m = 11 \<or> m = 12"
    using assms(1,2) by presburger
  then have mp: "mp = (if m > 2 then m - 3 else m + 9)"
    using assms(3-8) by (elim disjE) (simp_all add: month_start_def div_nat_eqI)
  then show "(if mp < 10 then mp + 3 else mp - 9) = m" using assms(1,2) by auto
  show "doy - (153 * mp + 2) div 5 + 1 = d" using assms(3,7) mp by (simp add: month_start_def)
qed

lemma year_divs:
  fixes b k j :: nat
  assumes "b \<le> 3" "k \<le> 24" "j \<le> 3"
  shows "(100 * b + 4 * k + j) div 4 = 25 * b + k" "(100 * b + 4 * k + j) div 100 = b"
  using assms by simp_all

lemma days_from_civil_number:
  assumes "valid_date (y, m, d)" "1 \<le> y"
  shows "days_from_civil y m d = nat ((int (day_number (y, m, d)) - 719468) mod 2 ^ 32)"
proof -
  define Y where "Y = march_year y m"
  have yy: "(if m \<le> 2 then int y - 1 else int y) = int Y" using assms(2) by (simp add: Y_def march_year_def of_nat_diff)
  define b k j where bkj: "b = Y mod 400 div 100" "k = Y mod 100 div 4" "j = Y mod 4"
  note p = year_parts [of Y, folded bkj]
  have era: "int Y sdiv 400 = int (Y div 400)" by (cases "Y = 0") (auto simp: signed_divide_int_def zdiv_int)
  have yoe: "int Y - int (Y div 400) * 400 = int (100 * b + 4 * k + j)" using p(1) by linarith
  have q: "int (100 * b + 4 * k + j) div 4 = int (25 * b + k)" "int (100 * b + 4 * k + j) div 100 = int b"
    using year_divs [OF p(2-4)] by (metis of_nat_numeral zdiv_int)+
  have ms: "(153 * (if int m > 2 then int m - 3 else int m + 9) + 2) div 5 = int (month_start m)"
    by (auto simp: month_start_def zdiv_int of_nat_diff)
  have nn: "(if 0 \<le> int Y then int Y else int Y - 399) = int Y" by simp
  have s: "int (Y div 400) * 146097 + (int (100 * b + 4 * k + j) * 365 + int (25 * b + k) - int b + (int (month_start m) + int d - 1)) =
      int (day_number (y, m, d))"
    using p(5) assms(1) by (simp add: day_number_def of_nat_diff flip: Y_def)
  show ?thesis unfolding days_from_civil_def Let_def yy nn era yoe q ms s ..
qed

lemma day_of_year:
  assumes "valid_date (y, m, d)" "1 \<le> y"
    "b = march_year y m mod 400 div 100" "k = march_year y m mod 100 div 4" "j = march_year y m mod 4"
    "doy = month_start m + d - 1"
  shows "doy \<le> 364 \<or> doy = 365 \<and> j = 3 \<and> (k < 24 \<or> b = 3)"
proof (cases "m = 2")
  case True
  then have y: "Suc (march_year y m) = y" using assms(2) by (simp add: march_year_def)
  have "leap y \<longleftrightarrow> j = 3 \<and> (k < 24 \<or> b = 3)"
    using year_parts(6) [of "march_year y m"] y assms(3-5) by simp
  then show ?thesis using assms(1,6) True by (auto simp: month_start_def month_len_def split: if_splits)
next
  case False
  have "1 \<le> m" "m \<le> 12" using assms(1) by simp_all
  then have "m = 1 \<or> m = 3 \<or> m = 4 \<or> m = 5 \<or> m = 6 \<or> m = 7 \<or> m = 8 \<or> m = 9 \<or> m = 10 \<or> m = 11 \<or> m = 12"
    using False by presburger
  then have "doy \<le> 364" using assms(1,6) by (elim disjE) (auto simp: month_start_def month_len_def)
  then show ?thesis by simp
qed

lemma year_bound: "day_number (y, m, d) < 800000 \<Longrightarrow> valid_date (y, m, d) \<Longrightarrow> y < 2200"
proof -
  assume a: "day_number (y, m, d) < 800000" "valid_date (y, m, d)"
  define Y where "Y = march_year y m"
  have "365 * Y \<le> year_start Y" using div_le_mono2 [of 4 100 Y] by (simp add: year_start_def)
  moreover have "year_start Y \<le> day_number (y, m, d)" using a(2) unfolding day_number_def prod.case Y_def valid_date.simps by linarith
  ultimately have "Y < 2192" using a(1) by linarith
  then show ?thesis by (simp add: Y_def march_year_def split: if_splits)
qed

lemma from_unix_date:
  assumes "date_after (n div 86400) = (y, m, d)"
  shows "from_unix n = \<lparr>dt_year = of_nat y, dt_month = of_nat m, dt_day = of_nat d,
     dt_hour = of_nat (n mod 86400 div 3600), dt_minute = of_nat (n mod 86400 mod 3600 div 60), dt_second = of_nat (n mod 86400 mod 60)\<rparr>"
proof -
  have v: "valid_date (y, m, d)" "1970 \<le> y" and z: "n div 86400 + 719468 = day_number (y, m, d)"
    using date_after_valid [of "n div 86400"] assms by auto
  define Y where "Y = march_year y m"
  define e b k j where ebkj: "e = Y div 400" "b = Y mod 400 div 100" "k = Y mod 100 div 4" "j = Y mod 4"
  define doy where "doy = month_start m + d - 1"
  define doe where "doe = 36524 * b + 1461 * k + 365 * j + doy"
  note p = year_parts [of Y, folded ebkj]
  have dy: "doy \<le> 364 \<or> doy = 365 \<and> j = 3 \<and> (k < 24 \<or> b = 3)"
    by (rule day_of_year [OF v(1) _ _ _ _ doy_def]) (use v(2) in \<open>simp_all add: ebkj Y_def\<close>)
  note yo = year_of_era [OF p(2-4) dy doe_def]
  have "day_number (y, m, d) = 146097 * e + doe"
    using v(1) by (simp add: day_number_def p(5) doe_def doy_def flip: Y_def)
  then have zz: "n div 86400 + 719468 = doe + 146097 * e" using z by simp
  have era: "(doe + 146097 * e) div 146097 = e" using yo(1) by (simp add: div_add1_eq)
  have q: "(100 * b + 4 * k + j) div 4 = 25 * b + k" "(100 * b + 4 * k + j) div 100 = b"
    by (rule year_divs [OF p(2-4)])+
  have dd: "doe - (365 * (100 * b + 4 * k + j) + (25 * b + k) - b) = doy" by (simp add: doe_def)
  have Yy: "100 * b + 4 * k + j + e * 400 = Y" using p(1) by linarith
  have bounds: "1 \<le> m" "m \<le> 12" "1 \<le> d" "d \<le> 31" "m = 2 \<longrightarrow> d \<le> 29" "m \<in> {4, 6, 9, 11} \<longrightarrow> d \<le> 30"
    using v(1) by (auto simp: month_len_def split: if_splits)
  note md = month_day [OF bounds doy_def refl]
  have yr: "(if m \<le> 2 then Y + 1 else Y) = y" using v(2) by (simp add: Y_def march_year_def)
  have e: "doe + 146097 * e - e * 146097 = doe" by simp
  show ?thesis
    unfolding from_unix_def Let_def zz era e yo(2) q dd Yy md yr ..
qed

section \<open>Properties\<close>

text \<open>
  Property C38.  Whatever the clock answers, reading it ends: with the two waiting loops and the loop
  that reads until two readings agree, \<open>now\<close> makes at most seven register reads for each of the
  \<open>SPIN_LIMIT\<close> turns the three loops share and fifteen more, and returns a date or \<open>None\<close>.
\<close>

theorem rtc_now_bounded: "snd (rtc_now cmos s t) \<le> t + 7 * (SPIN_LIMIT + 2) + 1"
proof (cases "rtc_available s")
  case True
  obtain w u where w: "wait_update cmos 0 t = (w, u)" by (cases "wait_update cmos 0 t")
  note W = wait_update_bounds [OF w]
  show ?thesis
  proof (cases w)
    case None
    then show ?thesis using True w W by (simp add: rtc_now_def)
  next
    case (Some n)
    obtain p v where p: "read_raw cmos u = (p, v)" by (cases "read_raw cmos u")
    obtain r z where r: "read_stable cmos p n v = (r, z)" by (cases "read_stable cmos p n v")
    have n: "n \<le> SPIN_LIMIT" "u = t + 1 + n" using W Some by auto
    have z: "z \<le> v + 7 * (SPIN_LIMIT + 1 - n)" by (rule read_stable_bounds [OF r n(1)])
    have "snd (rtc_now cmos s t) \<le> z + 1"
      using True w Some p r by (cases r) (simp_all add: rtc_now_def read_register_def)
    moreover have "z + 7 * n \<le> v + 7 * (SPIN_LIMIT + 1)" using z n(1) by simp
    ultimately show ?thesis using n(2) read_raw_time [OF p] by simp
  qed
qed (simp add: rtc_now_def)

text \<open>
  Property C37.  The conversions compute the calendar: for every 32-bit Unix time \<open>from_unix\<close> gives the
  date reached from 1 January 1970 by that many days of the Gregorian calendar (with its leap
  years) and the time within the day, and \<open>days_from_civil\<close> takes that date back to its day, so that
  \<open>unix_time\<close>'s formula gives the time it started from.
\<close>

theorem calendar_exact:
  assumes "n < 2 ^ 32" "D = from_unix n"
  shows "(unat (dt_year D), unat (dt_month D), unat (dt_day D)) = date_after (n div 86400) \<and>
     unat (dt_hour D) < 24 \<and> unat (dt_minute D) < 60 \<and> unat (dt_second D) < 60 \<and>
     days_from_civil (unat (dt_year D)) (unat (dt_month D)) (unat (dt_day D)) * 86400 +
       unat (dt_hour D) * 3600 + unat (dt_minute D) * 60 + unat (dt_second D) = n"
proof -
  obtain y m d where d: "date_after (n div 86400) = (y, m, d)" by (cases "date_after (n div 86400)")
  have v: "valid_date (y, m, d)" "1970 \<le> y" and z: "day_number (y, m, d) = n div 86400 + 719468"
    using date_after_valid [of "n div 86400"] d by auto
  have n: "n div 86400 < 49711" by (rule less_mult_imp_div_less) (use assms(1) in simp)
  have y: "y < 2200" by (rule year_bound [OF _ v(1)]) (use z n in simp)
  have md: "m \<le> 12" "d \<le> 31" using v(1) by (auto simp: month_len_def split: if_splits)
  define q hh mm ss where q: "q = n div 86400" and hms: "hh = n mod 86400 div 3600" "mm = n mod 86400 mod 3600 div 60" "ss = n mod 86400 mod 60"
  have h: "hh < 24" "mm < 60" "ss < 60" unfolding hms by (simp_all add: less_mult_imp_div_less)
  have u8: "unat (of_nat x :: byte) = x" if "x < 256" for x using that by (simp add: unat_of_nat take_bit_nat_eq_self)
  have "unat (of_nat y :: 16 word) = y" using y by (simp add: unat_of_nat take_bit_nat_eq_self)
  moreover have "m < 256" "d < 256" "hh < 256" "mm < 256" "ss < 256" using md h by linarith+
  ultimately have D: "unat (dt_year D) = y" "unat (dt_month D) = m" "unat (dt_day D) = d"
    "unat (dt_hour D) = hh" "unat (dt_minute D) = mm" "unat (dt_second D) = ss"
    unfolding assms(2) from_unix_date [OF d, folded hms] date_time.simps by (simp_all only: u8)
  have "int q < 2 ^ 32" "int (day_number (y, m, d)) = int q + 719468" using n z unfolding q by simp_all
  then have dn: "days_from_civil y m d = q" using days_from_civil_number [OF v(1)] v(2) by simp
  have "ss = n mod 86400 mod 3600 mod 60" unfolding hms by (rule mod_mod_cancel [symmetric]) simp
  then have "mm * 60 + ss = n mod 86400 mod 3600" unfolding hms(2) by (simp only: div_mult_mod_eq)
  then have "hh * 3600 + mm * 60 + ss = n mod 86400" unfolding hms(1) add.assoc by (simp only: div_mult_mod_eq)
  then have n: "q * 86400 + hh * 3600 + mm * 60 + ss = n" unfolding q add.assoc by (simp only: div_mult_mod_eq flip: add.assoc)
  show ?thesis
  proof (intro conjI)
    show "(unat (dt_year D), unat (dt_month D), unat (dt_day D)) = date_after (n div 86400)" using D d by simp
    show "unat (dt_hour D) < 24" "unat (dt_minute D) < 60" "unat (dt_second D) < 60" using D h by simp_all
    show "days_from_civil (unat (dt_year D)) (unat (dt_month D)) (unat (dt_day D)) * 86400 +
        unat (dt_hour D) * 3600 + unat (dt_minute D) * 60 + unat (dt_second D) = n"
      unfolding D dn by (rule n)
  qed
qed

theorem calendar_exact_witness:
  "(unat (dt_year (from_unix 951782400)), unat (dt_month (from_unix 951782400)), unat (dt_day (from_unix 951782400))) =
     date_after 11016"
  using calendar_exact [of 951782400 "from_unix 951782400"] by simp

end
