(* ===== verification/UserMem.thy ===== *)
theory UserMem imports Signal Paging begin

text \<open>
  Memory as the kernel sees it through the page tables of the running program, and the
  little-endian integers it reads and writes there.  A store through a raw pointer changes a range
  of addresses, whatever they are: whether the program may reach them is for the caller to check.
  The page faults of these accesses, which fill and copy pages, are the subject of \<open>Paging\<close>.
\<close>

section \<open>Ranges of memory\<close>

abbreviation (input) USER_MEM_SIZE :: nat where "USER_MEM_SIZE \<equiv> 2097152"

text \<open>The addresses reserved for the image, the heap and the stack of a program.\<close>

definition user_region :: "usize \<Rightarrow> bool" where
  "user_region x \<longleftrightarrow> USER_MEM_START \<le> unat x \<and> unat x < USER_MEM_START + USER_MEM_SIZE"

definition get_bytes :: "umem \<Rightarrow> usize \<Rightarrow> nat \<Rightarrow> byte list" where
  "get_bytes m a n = map (\<lambda>i. m (a + of_nat i)) [0..<n]"

definition put_bytes :: "usize \<Rightarrow> byte list \<Rightarrow> umem \<Rightarrow> umem" where
  "put_bytes a bs m x = (if unat (x - a) < length bs then bs ! unat (x - a) else m x)"

definition fill_bytes :: "usize \<Rightarrow> byte \<Rightarrow> nat \<Rightarrow> umem \<Rightarrow> umem" where
  "fill_bytes a b n m x = (if unat (x - a) < n then b else m x)"

definition in_range :: "usize \<Rightarrow> nat \<Rightarrow> usize \<Rightarrow> bool" where
  "in_range a n x \<longleftrightarrow> unat (x - a) < n"

text \<open>A store leaves every address outside a region as it was.\<close>

definition same_outside :: "(usize \<Rightarrow> bool) \<Rightarrow> umem \<Rightarrow> umem \<Rightarrow> bool" where
  "same_outside R m m' \<longleftrightarrow> (\<forall>x. \<not> R x \<longrightarrow> m' x = m x)"

lemma same_outside_refl [simp]: "same_outside R m m"
  by (simp add: same_outside_def)

lemma same_outside_trans: "same_outside R m m' \<Longrightarrow> same_outside R m' m'' \<Longrightarrow> same_outside R m m''"
  by (simp add: same_outside_def)

lemma same_outside_mono: "same_outside R m m' \<Longrightarrow> (\<And>x. R x \<Longrightarrow> Q x) \<Longrightarrow> same_outside Q m m'"
  unfolding same_outside_def by blast

lemma put_bytes_outside: "(\<And>x. in_range a (length bs) x \<Longrightarrow> R x) \<Longrightarrow> same_outside R m (put_bytes a bs m)"
  by (auto simp: same_outside_def put_bytes_def in_range_def)

lemma fill_bytes_outside: "(\<And>x. in_range a n x \<Longrightarrow> R x) \<Longrightarrow> same_outside R m (fill_bytes a b n m)"
  by (auto simp: same_outside_def fill_bytes_def in_range_def)

lemma unat_less_64: "unat (x :: usize) < 2 ^ 64"
  using unsigned_less [of x] by simp

text \<open>Ranges that do not wrap, as intervals of addresses.\<close>

lemma in_range_interval:
  assumes "a + n \<le> 2 ^ 64"
  shows "in_range (of_nat a) n x \<longleftrightarrow> a \<le> unat x \<and> unat x < a + n"
proof (cases "a < 2 ^ 64")
  case True
  then have a: "unat (of_nat a :: usize) = a" by (simp add: unat_of_nat take_bit_nat_eq_self)
  have x: "unat x < 2 ^ 64" using unsigned_less [of x] by simp
  show ?thesis
  proof (cases "a \<le> unat x")
    case True
    then have "unat (x - of_nat a) = unat x - a" using a by (simp add: unat_sub word_le_nat_alt)
    then show ?thesis using True by (auto simp: in_range_def)
  next
    case False
    have "unat (x - of_nat a) = 2 ^ 64 + unat x - a"
      using False a by (simp add: unat_sub_if_size word_size)
    then show ?thesis using False assms by (auto simp: in_range_def)
  qed
next
  case False
  then show ?thesis using assms unsigned_less [of x] by (auto simp: in_range_def)
qed

lemma length_get_bytes [simp]: "length (get_bytes m a n) = n"
  by (simp add: get_bytes_def)

lemma get_bytes_nth: "i < n \<Longrightarrow> get_bytes m a n ! i = m (a + of_nat i)"
  by (simp add: get_bytes_def)

lemma get_put_bytes: "length bs \<le> 2 ^ 64 \<Longrightarrow> get_bytes (put_bytes a bs m) a (length bs) = bs"
  by (rule nth_equalityI) (simp_all add: get_bytes_def put_bytes_def unat_of_nat take_bit_nat_eq_self)

lemma get_put_other:
  assumes "\<And>i. i < n \<Longrightarrow> \<not> in_range a (length bs) (b + of_nat i)"
  shows "get_bytes (put_bytes a bs m) b n = get_bytes m b n"
  using assms by (auto simp: get_bytes_def put_bytes_def in_range_def)

section \<open>Little-endian integers\<close>

lemma replicate_numeral: "replicate (numeral k) x = x # replicate (pred_numeral k) x"
  by (simp add: numeral_eq_Suc)

definition le_nat :: "byte list \<Rightarrow> nat" where
  "le_nat bs = foldr (\<lambda>b n. unat b + 256 * n) bs 0"

definition le_bytes :: "nat \<Rightarrow> nat \<Rightarrow> byte list" where
  "le_bytes n v = map (\<lambda>k. of_nat (v div 256 ^ k)) [0..<n]"

lemma le_nat_less: "le_nat bs < 256 ^ length bs"
proof (induction bs)
  case (Cons b bs)
  have "unat b < 256" using unsigned_less [of b] by simp
  then have "unat b + 256 * le_nat bs < 256 * (le_nat bs + 1)" by simp
  also have "\<dots> \<le> 256 * 256 ^ length bs" using Cons.IH by (intro mult_le_mono2) simp
  finally show ?case by (simp add: le_nat_def)
qed (simp add: le_nat_def)

lemma length_le_bytes [simp]: "length (le_bytes n v) = n"
  by (simp add: le_bytes_def)

lemma le_bytes_Suc: "le_bytes (Suc n) v = of_nat v # le_bytes n (v div 256)"
proof -
  have "[0..<Suc n] = 0 # map Suc [0..<n]" by (simp add: map_Suc_upt upt_conv_Cons)
  then show ?thesis by (simp add: le_bytes_def div_mult2_eq mult.commute)
qed

lemma le_bytes_numeral: "le_bytes (numeral k) v = of_nat v # le_bytes (pred_numeral k) (v div 256)"
  by (simp only: numeral_eq_Suc le_bytes_Suc)

lemma le_bytes_0: "le_bytes 0 v = []"
  by (simp add: le_bytes_def)

lemmas le_bytes_simps = le_bytes_numeral le_bytes_Suc le_bytes_0

lemma le_nat_le_bytes: "v < 256 ^ n \<Longrightarrow> le_nat (le_bytes n v) = v"
proof (induction n arbitrary: v)
  case (Suc n)
  have "v div 256 < 256 ^ n" by (rule less_mult_imp_div_less) (use Suc.prems in \<open>simp add: mult.commute\<close>)
  then have "le_nat (le_bytes n (v div 256)) = v div 256" by (rule Suc.IH)
  moreover have "unat (of_nat v :: byte) = v mod 256" by (simp add: unat_of_nat take_bit_eq_mod)
  ultimately show ?case by (simp add: le_bytes_Suc le_nat_def)
qed (simp add: le_nat_def le_bytes_def)

text \<open>An integer of \<open>n\<close> bytes in a list; \<open>None\<close> where the list ends before it (\<open>slice::get\<close>).\<close>

definition le_at :: "nat \<Rightarrow> byte list \<Rightarrow> nat \<Rightarrow> nat" where
  "le_at n bs off = le_nat (take n (drop off bs))"

definition le_get :: "nat \<Rightarrow> byte list \<Rightarrow> nat \<Rightarrow> nat option" where
  "le_get n bs off = (if off + n \<le> length bs then Some (le_at n bs off) else None)"

lemma le_at_less: "le_at n bs off < 256 ^ n"
proof -
  have "le_at n bs off < 256 ^ length (take n (drop off bs))" unfolding le_at_def by (rule le_nat_less)
  also have "\<dots> \<le> 256 ^ n" by (rule power_increasing) auto
  finally show ?thesis .
qed

lemma le_get_Some: "le_get n bs off = Some v \<Longrightarrow> off + n \<le> length bs \<and> v < 256 ^ n"
  using le_at_less [of n bs off] by (auto simp: le_get_def split: if_splits)

text \<open>The bytes of a string literal.\<close>

definition ascii :: "string \<Rightarrow> byte list" where
  "ascii s = map (\<lambda>c. of_nat (of_char c)) s"

end
