(* ===== verification/Elf64.thy ===== *)
theory Elf64 imports UserMem begin

text \<open>
  The loader of 64-bit ELF programs, \<^verbatim>\<open>kernel/src/level0b1/binary_loader/elf64.rs\<close>.  It reads the
  headers out of the bytes of the file and copies the segments to their addresses, which the page
  tables of the new program map.  Addresses and sizes are numbers with the wrap of \<open>usize\<close> written
  out, as the release build computes them; a header read outside the file is \<open>Panic\<close>.
\<close>

section \<open>Headers\<close>

definition ELF_MAGIC :: "byte list" where "ELF_MAGIC = [0x7F, 0x45, 0x4C, 0x46]"

abbreviation (input) ELFCLASS64 :: byte where "ELFCLASS64 \<equiv> 2"
abbreviation (input) ELFDATA2LSB :: byte where "ELFDATA2LSB \<equiv> 1"
abbreviation (input) ET_EXEC :: nat where "ET_EXEC \<equiv> 2"
abbreviation (input) EM_X86_64 :: nat where "EM_X86_64 \<equiv> 62"
abbreviation (input) PT_LOAD :: nat where "PT_LOAD \<equiv> 1"
abbreviation (input) EHDR_SIZE :: nat where "EHDR_SIZE \<equiv> 64"
abbreviation (input) PHDR_SIZE :: nat where "PHDR_SIZE \<equiv> 56"

text \<open>The fields of the two headers that the loader looks at, at their offsets in the C structures.\<close>

record elf_header =
  e_ident :: "byte list"
  e_type :: nat
  e_machine :: nat
  e_entry :: nat
  e_phoff :: nat
  e_phentsize :: nat
  e_phnum :: nat

record prog_header =
  p_type :: nat
  p_offset :: nat
  p_vaddr :: nat
  p_filesz :: nat
  p_memsz :: nat

definition read_ehdr :: "byte list \<Rightarrow> elf_header" where
  "read_ehdr img =
     \<lparr>e_ident = take 16 img, e_type = le_at 2 img 16, e_machine = le_at 2 img 18,
      e_entry = le_at 8 img 24, e_phoff = le_at 8 img 32, e_phentsize = le_at 2 img 54,
      e_phnum = le_at 2 img 56\<rparr>"

definition read_phdr :: "byte list \<Rightarrow> nat \<Rightarrow> prog_header" where
  "read_phdr img off =
     \<lparr>p_type = le_at 4 img off, p_offset = le_at 8 img (off + 8), p_vaddr = le_at 8 img (off + 16),
      p_filesz = le_at 8 img (off + 32), p_memsz = le_at 8 img (off + 40)\<rparr>"

datatype elf_error = TooSmall | BadMagic | NotElf64Le | NotExecutable | WrongArchitecture
  | SegmentOutOfBounds | SegmentOutsideUserMemory

record loaded_image =
  li_entry :: nat
  li_end :: nat

definition is_elf64 :: "byte list \<Rightarrow> bool" where
  "is_elf64 img \<longleftrightarrow> length img \<ge> 20 \<and> take 4 img = ELF_MAGIC \<and> img ! 4 = ELFCLASS64 \<and> img ! 5 = ELFDATA2LSB"

section \<open>Segments\<close>

text \<open>\<open>a.checked_add(b)\<close> on \<open>usize\<close>.\<close>

definition usize_add :: "nat \<Rightarrow> nat \<Rightarrow> nat option" where
  "usize_add a b = (if a + b < 2 ^ 64 then Some (a + b) else None)"

text \<open>The address of program header \<open>i\<close>, and whether its end passes the bounds test.\<close>

definition phdr_at :: "elf_header \<Rightarrow> nat \<Rightarrow> nat" where
  "phdr_at h i = (e_phoff h + i * e_phentsize h) mod 2 ^ 64"

text \<open>One segment: the file part is copied, the rest of its memory is zeroed.\<close>

definition place_segment :: "byte list \<Rightarrow> prog_header \<Rightarrow> umem \<Rightarrow> umem" where
  "place_segment img p m =
     (let m = put_bytes (of_nat (p_vaddr p)) (take (p_filesz p) (drop (p_offset p) img)) m;
          bss = wsub 64 (p_memsz p) (p_filesz p)
      in if bss > 0 then fill_bytes (of_nat (p_vaddr p) + of_nat (p_filesz p)) 0 bss m else m)"

definition load_segment :: "byte list \<Rightarrow> prog_header \<Rightarrow> nat \<Rightarrow> umem \<Rightarrow> (elf_error, nat) outcome \<times> umem" where
  \<comment> \<open>the body of the loop for one header; the answer is the new \<open>highest\<close>\<close>
  "load_segment img p highest m =
     (if p_type p \<noteq> PT_LOAD \<or> p_memsz p = 0 then (Ok highest, m)
      else case usize_add (p_offset p) (p_filesz p) of
        None \<Rightarrow> (Err SegmentOutOfBounds, m)
      | Some file_end \<Rightarrow>
          if file_end > length img then (Err SegmentOutOfBounds, m)
          else case usize_add (p_vaddr p) (p_memsz p) of
            None \<Rightarrow> (Err SegmentOutOfBounds, m)
          | Some vend \<Rightarrow>
              if p_vaddr p < USER_MEM_START \<or> vend > USER_MEM_START + USER_MEM_SIZE
              then (Err SegmentOutsideUserMemory, m)
              else (Ok (if vend > highest then vend else highest), place_segment img p m))"

fun load_segments :: "byte list \<Rightarrow> elf_header \<Rightarrow> nat list \<Rightarrow> nat \<Rightarrow> umem \<Rightarrow> (elf_error, nat) outcome \<times> umem" where
  "load_segments img h [] highest m = (Ok highest, m)"
| "load_segments img h (i # is) highest m =
     (let off = phdr_at h i in
      if (off + PHDR_SIZE) mod 2 ^ 64 > length img then (Err SegmentOutOfBounds, m)
      else if off + PHDR_SIZE > length img then (Panic, m)
      else case load_segment img (read_phdr img off) highest m of
        (Ok highest, m) \<Rightarrow> load_segments img h is highest m
      | r \<Rightarrow> r)"

definition elf_load :: "byte list \<Rightarrow> umem \<Rightarrow> (elf_error, loaded_image) outcome \<times> umem" where
  "elf_load img m =
     (if length img < EHDR_SIZE then (Err TooSmall, m)
      else let h = read_ehdr img in
      if take 4 (e_ident h) \<noteq> ELF_MAGIC then (Err BadMagic, m)
      else if e_ident h ! 4 \<noteq> ELFCLASS64 \<or> e_ident h ! 5 \<noteq> ELFDATA2LSB then (Err NotElf64Le, m)
      else if e_type h \<noteq> ET_EXEC then (Err NotExecutable, m)
      else if e_machine h \<noteq> EM_X86_64 then (Err WrongArchitecture, m)
      else case load_segments img h [0..<e_phnum h] 0 m of
        (Ok highest, m) \<Rightarrow>
          if highest = 0 then (Err SegmentOutOfBounds, m)
          else (Ok \<lparr>li_entry = e_entry h, li_end = highest\<rparr>, m)
      | (Err e, m) \<Rightarrow> (Err e, m)
      | (Panic, m) \<Rightarrow> (Panic, m))"

section \<open>Where segments go\<close>

definition loadable :: "prog_header \<Rightarrow> bool" where
  "loadable p \<longleftrightarrow> p_type p = PT_LOAD \<and> p_memsz p \<noteq> 0"

definition segment_range :: "prog_header \<Rightarrow> usize \<Rightarrow> bool" where
  "segment_range p = in_range (of_nat (p_vaddr p)) (p_memsz p)"

definition segment_bytes :: "byte list \<Rightarrow> prog_header \<Rightarrow> byte list" where
  "segment_bytes img p = take (p_filesz p) (drop (p_offset p) img) @ replicate (p_memsz p - p_filesz p) 0"

definition phdr :: "byte list \<Rightarrow> nat \<Rightarrow> prog_header" where
  "phdr img i = read_phdr img (phdr_at (read_ehdr img) i)"

text \<open>What the checks of one turn leave.\<close>

definition checked :: "byte list \<Rightarrow> prog_header \<Rightarrow> bool" where
  "checked img p \<longleftrightarrow> p_offset p + p_filesz p \<le> length img \<and> USER_MEM_START \<le> p_vaddr p \<and>
     p_vaddr p + p_memsz p \<le> USER_MEM_START + USER_MEM_SIZE"

lemma load_segment_Ok:
  assumes "load_segment img p highest m = (Ok hi, m')"
  shows "if loadable p then checked img p \<and> m' = place_segment img p m \<and> hi = max highest (p_vaddr p + p_memsz p)
    else m' = m \<and> hi = highest"
  using assms
  by (auto simp: load_segment_def loadable_def checked_def usize_add_def max_def split: if_splits option.splits)

lemma load_segment_not_Ok:
  assumes "load_segment img p highest m = (r, m')" "\<nexists>hi. r = Ok hi"
  shows "m' = m \<and> r \<noteq> Panic"
  using assms by (auto simp: load_segment_def split: if_splits option.splits)

lemma file_part_length: "checked img p \<Longrightarrow> length (take (p_filesz p) (drop (p_offset p) img)) = p_filesz p"
  by (auto simp: checked_def min_def)

lemma length_segment_bytes: "checked img p \<Longrightarrow> p_filesz p \<le> p_memsz p \<Longrightarrow> length (segment_bytes img p) = p_memsz p"
  using file_part_length [of img p] by (simp add: segment_bytes_def)

lemma bss_size: "a \<le> b \<Longrightarrow> b < 2 ^ 64 \<Longrightarrow> wsub 64 b a = b - a"
  by (rule wsub_le)

lemma place_segment_at:
  assumes "checked img p" "p_filesz p \<le> p_memsz p"
  shows "place_segment img p m = put_bytes (of_nat (p_vaddr p)) (segment_bytes img p) m"
proof
  fix x :: usize
  let ?d = "unat (x - of_nat (p_vaddr p))"
  have len: "length (take (p_filesz p) (drop (p_offset p) img)) = p_filesz p"
    by (rule file_part_length [OF assms(1)])
  have small: "p_memsz p < 2 ^ 64" "p_filesz p < 2 ^ 64" using assms by (auto simp: checked_def)
  have bss: "wsub 64 (p_memsz p) (p_filesz p) = p_memsz p - p_filesz p" by (rule bss_size [OF assms(2) small(1)])
  have "unat (x - (of_nat (p_vaddr p) + of_nat (p_filesz p))) < p_memsz p - p_filesz p \<longleftrightarrow> p_filesz p \<le> ?d \<and> ?d < p_memsz p"
  proof -
    have u: "unat (of_nat (p_filesz p) :: usize) = p_filesz p" using small by (simp add: unat_of_nat take_bit_nat_eq_self)
    have e: "x - (of_nat (p_vaddr p) + of_nat (p_filesz p)) = (x - of_nat (p_vaddr p)) - of_nat (p_filesz p)" by simp
    have d: "?d < 2 ^ 64" by (rule unat_less_64)
    show ?thesis
      unfolding e using small u d assms(2)
      by (auto simp add: unat_sub_if_size word_size)
  qed
  then show "place_segment img p m x = put_bytes (of_nat (p_vaddr p)) (segment_bytes img p) m x"
    using len assms(2) unfolding place_segment_def Let_def bss put_bytes_def segment_bytes_def fill_bytes_def
    by (auto simp: nth_append)
qed

lemma segment_in_region: "checked img p \<Longrightarrow> segment_range p x \<Longrightarrow> user_region x"
  unfolding segment_range_def checked_def user_region_def by (subst (asm) in_range_interval) auto

lemma place_segment_outside:
  assumes "checked img p" "p_filesz p \<le> p_memsz p"
  shows "same_outside (segment_range p) m (place_segment img p m)"
proof -
  show ?thesis using length_segment_bytes [OF assms] unfolding place_segment_at [OF assms] by (intro put_bytes_outside) (simp add: segment_range_def)
qed


lemma load_segments_Ok:
  assumes "load_segments img (read_ehdr img) is hi m = (Ok hi', m')"
    "\<And>i. i \<in> set is \<Longrightarrow> loadable (phdr img i) \<Longrightarrow> p_filesz (phdr img i) \<le> p_memsz (phdr img i)"
    "distinct is"
    "\<And>i j x. i \<in> set is \<Longrightarrow> j \<in> set is \<Longrightarrow> i \<noteq> j \<Longrightarrow> loadable (phdr img i) \<Longrightarrow> loadable (phdr img j) \<Longrightarrow>
       segment_range (phdr img i) x \<Longrightarrow> \<not> segment_range (phdr img j) x"
  shows "(\<forall>i\<in>set is. loadable (phdr img i) \<longrightarrow> checked img (phdr img i) \<and>
       get_bytes m' (of_nat (p_vaddr (phdr img i))) (p_memsz (phdr img i)) = segment_bytes img (phdr img i)) \<and>
     same_outside (\<lambda>x. \<exists>i\<in>set is. loadable (phdr img i) \<and> segment_range (phdr img i) x) m m' \<and>
     hi' = Max (insert hi ((\<lambda>i. p_vaddr (phdr img i) + p_memsz (phdr img i)) ` {i \<in> set is. loadable (phdr img i)}))"
  using assms
proof (induction "is" arbitrary: hi m)
  case (Cons i "is")
  let ?p = "phdr img i"
  from Cons.prems(1) obtain hi1 m1 where l: "load_segment img ?p hi m = (Ok hi1, m1)"
    and r: "load_segments img (read_ehdr img) is hi1 m1 = (Ok hi', m')"
    by (auto simp: phdr_def Let_def split: if_splits prod.splits outcome.splits)
  have "(\<forall>i\<in>set is. loadable (phdr img i) \<longrightarrow> checked img (phdr img i) \<and>
       get_bytes m' (of_nat (p_vaddr (phdr img i))) (p_memsz (phdr img i)) = segment_bytes img (phdr img i)) \<and>
     same_outside (\<lambda>x. \<exists>i\<in>set is. loadable (phdr img i) \<and> segment_range (phdr img i) x) m1 m' \<and>
     hi' = Max (insert hi1 ((\<lambda>i. p_vaddr (phdr img i) + p_memsz (phdr img i)) ` {i \<in> set is. loadable (phdr img i)}))"
  proof (rule Cons.IH [OF r])
    show "p_filesz (phdr img j) \<le> p_memsz (phdr img j)" if "j \<in> set is" "loadable (phdr img j)" for j
      using Cons.prems(2) [of j] that by simp
    show "distinct is" using Cons.prems(3) by simp
    show "\<not> segment_range (phdr img k) x" if "j \<in> set is" "k \<in> set is" "j \<noteq> k" "loadable (phdr img j)" "loadable (phdr img k)"
      "segment_range (phdr img j) x" for j k x
      using Cons.prems(4) [of j k x] that by simp
  qed
  then have IH: "\<forall>i\<in>set is. loadable (phdr img i) \<longrightarrow> checked img (phdr img i) \<and>
       get_bytes m' (of_nat (p_vaddr (phdr img i))) (p_memsz (phdr img i)) = segment_bytes img (phdr img i)"
     "same_outside (\<lambda>x. \<exists>i\<in>set is. loadable (phdr img i) \<and> segment_range (phdr img i) x) m1 m'"
     "hi' = Max (insert hi1 ((\<lambda>i. p_vaddr (phdr img i) + p_memsz (phdr img i)) ` {i \<in> set is. loadable (phdr img i)}))"
    by blast+
  show ?case
  proof (cases "loadable ?p")
    case False
    have eq: "m1 = m" "hi1 = hi" using load_segment_Ok [OF l] False by simp_all
    have set_eq: "{j \<in> set (i # is). loadable (phdr img j)} = {j \<in> set is. loadable (phdr img j)}" using False by auto
    have "same_outside (\<lambda>x. \<exists>i\<in>set (i # is). loadable (phdr img i) \<and> segment_range (phdr img i) x) m m'"
      using IH(2) unfolding eq by (rule same_outside_mono) auto
    then show ?thesis using IH(1,3) False unfolding set_eq eq by auto
  next
    case True
    have sz: "p_filesz ?p \<le> p_memsz ?p" using Cons.prems(2) True by simp
    have c: "checked img ?p" "m1 = place_segment img ?p m" "hi1 = max hi (p_vaddr ?p + p_memsz ?p)"
      using load_segment_Ok [OF l] True by simp_all
    have m1: "m1 = put_bytes (of_nat (p_vaddr ?p)) (segment_bytes img ?p) m" unfolding c(2) by (rule place_segment_at [OF c(1) sz])
    have len: "length (segment_bytes img ?p) = p_memsz ?p" by (rule length_segment_bytes [OF c(1) sz])
    have at1: "get_bytes m1 (of_nat (p_vaddr ?p)) (p_memsz ?p) = segment_bytes img ?p"
      unfolding m1 using get_put_bytes [of "segment_bytes img ?p" "of_nat (p_vaddr ?p)" m] len c(1) by (simp add: checked_def)
    have apart: "\<not> (\<exists>j\<in>set is. loadable (phdr img j) \<and> segment_range (phdr img j) x)" if "segment_range ?p x" for x
    proof
      assume "\<exists>j\<in>set is. loadable (phdr img j) \<and> segment_range (phdr img j) x"
      then obtain j where j: "j \<in> set is" "loadable (phdr img j)" "segment_range (phdr img j) x" by blast
      then have "i \<noteq> j" using Cons.prems(3) by auto
      then show False using Cons.prems(4) [of i j x] True j that by simp
    qed
    have "get_bytes m' (of_nat (p_vaddr ?p)) (p_memsz ?p) = get_bytes m1 (of_nat (p_vaddr ?p)) (p_memsz ?p)"
    proof (rule nth_equalityI)
      fix k assume "k < length (get_bytes m' (of_nat (p_vaddr ?p)) (p_memsz ?p))"
      then have k: "k < p_memsz ?p" by simp
      have "unat ((of_nat (p_vaddr ?p) + of_nat k) - of_nat (p_vaddr ?p) :: usize) = k"
        using k c(1) by (simp add: checked_def unat_of_nat take_bit_nat_eq_self)
      then have "segment_range ?p (of_nat (p_vaddr ?p) + of_nat k)" using k by (simp add: segment_range_def in_range_def)
      then have "m' (of_nat (p_vaddr ?p) + of_nat k) = m1 (of_nat (p_vaddr ?p) + of_nat k)"
        using apart IH(2) unfolding same_outside_def by blast
      then show "get_bytes m' (of_nat (p_vaddr ?p)) (p_memsz ?p) ! k = get_bytes m1 (of_nat (p_vaddr ?p)) (p_memsz ?p) ! k"
        using k by (simp add: get_bytes_nth)
    qed simp
    then have at: "get_bytes m' (of_nat (p_vaddr ?p)) (p_memsz ?p) = segment_bytes img ?p" using at1 by simp
    have out: "same_outside (\<lambda>x. \<exists>i\<in>set (i # is). loadable (phdr img i) \<and> segment_range (phdr img i) x) m m'"
    proof (rule same_outside_trans)
      show "same_outside (\<lambda>x. \<exists>i\<in>set (i # is). loadable (phdr img i) \<and> segment_range (phdr img i) x) m m1"
        using place_segment_outside [OF c(1) sz] unfolding c(2) by (rule same_outside_mono) (use True in auto)
      show "same_outside (\<lambda>x. \<exists>i\<in>set (i # is). loadable (phdr img i) \<and> segment_range (phdr img i) x) m1 m'"
        using IH(2) by (rule same_outside_mono) auto
    qed
    have set_eq: "{j \<in> set (i # is). loadable (phdr img j)} = insert i {j \<in> set is. loadable (phdr img j)}" using True by auto
    have "hi' = Max (insert hi ((\<lambda>i. p_vaddr (phdr img i) + p_memsz (phdr img i)) ` {j \<in> set (i # is). loadable (phdr img j)}))"
    proof -
      let ?V = "(\<lambda>i. p_vaddr (phdr img i) + p_memsz (phdr img i)) ` {j \<in> set is. loadable (phdr img j)}"
      have "Max (insert (max hi v) V) = Max (insert hi (insert v V))" if "finite V" for v :: nat and V
        using that by (cases "V = {}") (simp_all add: max.assoc)
      then show ?thesis unfolding set_eq IH(3) c(3) by simp
    qed
    then show ?thesis using IH(1) at out c(1) by auto
  qed
qed simp

text \<open>Whatever the file holds, no memory outside the user region changes.\<close>

lemma load_segments_confined:
  assumes "load_segments img (read_ehdr img) is hi m = (r, m')"
    "\<And>i. i \<in> set is \<Longrightarrow> loadable (phdr img i) \<Longrightarrow> p_filesz (phdr img i) \<le> p_memsz (phdr img i)"
  shows "same_outside user_region m m'"
  using assms
proof (induction "is" arbitrary: hi m)
  case (Cons i "is")
  let ?p = "phdr img i"
  obtain q m1 where l: "load_segment img ?p hi m = (q, m1)" by (cases "load_segment img ?p hi m")
  have same: "same_outside user_region m m1"
  proof (cases "\<exists>h. q = Ok h")
    case True
    then obtain h where h: "load_segment img ?p hi m = (Ok h, m1)" using l by blast
    show ?thesis
    proof (cases "loadable ?p")
      case True
      then show ?thesis using load_segment_Ok [OF h] place_segment_outside [of img ?p m] Cons.prems(2) [of i]
        by (auto intro: same_outside_mono dest: segment_in_region)
    qed (use load_segment_Ok [OF h] in simp)
  next
    case False
    then show ?thesis using load_segment_not_Ok [OF l] by simp
  qed
  have rest: "same_outside user_region m1 m'" if "load_segments img (read_ehdr img) is h m1 = (r, m')" for h
    by (rule Cons.IH [OF that Cons.prems(2)]) simp_all
  show ?case using Cons.prems(1) l same rest
    by (auto simp: phdr_def Let_def split: if_splits outcome.splits intro: same_outside_trans)
qed simp

lemma load_segments_checked:
  assumes "load_segments img (read_ehdr img) is hi m = (Ok hi', m')" "i \<in> set is" "loadable (phdr img i)"
  shows "checked img (phdr img i)"
  using assms(1,2)
proof (induction "is" arbitrary: hi m)
  case (Cons j "is")
  from Cons.prems(1) obtain hi1 m1 where l: "load_segment img (phdr img j) hi m = (Ok hi1, m1)"
    and r: "load_segments img (read_ehdr img) is hi1 m1 = (Ok hi', m')"
    by (auto simp: phdr_def Let_def split: if_splits prod.splits outcome.splits)
  show ?case using load_segment_Ok [OF l] Cons.IH [OF r] Cons.prems(2) assms(3) by auto
qed simp

lemma elf_load_Ok:
  assumes "elf_load img m = (Ok li, m')"
  shows "load_segments img (read_ehdr img) [0..<e_phnum (read_ehdr img)] 0 m = (Ok (li_end li), m') \<and>
     li_entry li = e_entry (read_ehdr img) \<and> li_end li \<noteq> 0"
  using assms by (auto simp: elf_load_def Let_def split: if_splits prod.splits outcome.splits)

lemma elf_load_confined:
  assumes "elf_load img m = (r, m')"
    "\<And>i. i < e_phnum (read_ehdr img) \<Longrightarrow> loadable (phdr img i) \<Longrightarrow> p_filesz (phdr img i) \<le> p_memsz (phdr img i)"
  shows "same_outside user_region m m'"
proof -
  obtain q m1 where l: "load_segments img (read_ehdr img) [0..<e_phnum (read_ehdr img)] 0 m = (q, m1)"
    by (cases "load_segments img (read_ehdr img) [0..<e_phnum (read_ehdr img)] 0 m")
  have "same_outside user_region m m1" by (rule load_segments_confined [OF l]) (use assms(2) in simp_all)
  moreover have "m' = m \<or> m' = m1" using assms(1) l by (auto simp: elf_load_def Let_def split: if_splits outcome.splits)
  ultimately show ?thesis by auto
qed

section \<open>Properties\<close>

text \<open>
  Property C26.  A program is loaded as its file says: when \<open>load\<close> succeeds on a file whose segments are
  not longer in the file than in memory and do not overlap, each segment holds its part of the
  file followed by zeros, no other byte of memory has changed, all of it lies in the user region,
  and the end reported is the end of the highest segment.
\<close>

theorem elf_places_segments:
  assumes "elf_load img m = (Ok li, m')" "S = {i. i < e_phnum (read_ehdr img) \<and> loadable (phdr img i)}"
    "\<forall>i\<in>S. p_filesz (phdr img i) \<le> p_memsz (phdr img i)"
    "\<forall>i\<in>S. \<forall>j\<in>S. i \<noteq> j \<longrightarrow> p_vaddr (phdr img i) + p_memsz (phdr img i) \<le> p_vaddr (phdr img j) \<or>
       p_vaddr (phdr img j) + p_memsz (phdr img j) \<le> p_vaddr (phdr img i)"
  shows "(\<forall>i\<in>S. get_bytes m' (of_nat (p_vaddr (phdr img i))) (p_memsz (phdr img i)) = segment_bytes img (phdr img i)) \<and>
     (\<forall>x. (\<forall>i\<in>S. \<not> segment_range (phdr img i) x) \<longrightarrow> m' x = m x) \<and>
     (\<forall>i\<in>S. \<forall>x. segment_range (phdr img i) x \<longrightarrow> user_region x) \<and>
     li_entry li = e_entry (read_ehdr img) \<and> li_end li = Max ((\<lambda>i. p_vaddr (phdr img i) + p_memsz (phdr img i)) ` S)"
proof -
  note L = elf_load_Ok [OF assms(1)]
  note l = conjunct1 [OF L]
  have c: "checked img (phdr img i)" if "i \<in> S" for i
    using load_segments_checked [OF l, of i] that assms(2) by simp
  have range: "segment_range (phdr img i) x \<longleftrightarrow> p_vaddr (phdr img i) \<le> unat x \<and> unat x < p_vaddr (phdr img i) + p_memsz (phdr img i)"
    if "i \<in> S" for i x
    unfolding segment_range_def by (rule in_range_interval) (use c [OF that] in \<open>simp add: checked_def\<close>)
  have S: "S = {i \<in> set [0..<e_phnum (read_ehdr img)]. loadable (phdr img i)}" unfolding assms(2) by auto
  have R: "(\<forall>i\<in>set [0..<e_phnum (read_ehdr img)]. loadable (phdr img i) \<longrightarrow> checked img (phdr img i) \<and>
       get_bytes m' (of_nat (p_vaddr (phdr img i))) (p_memsz (phdr img i)) = segment_bytes img (phdr img i)) \<and>
     same_outside (\<lambda>x. \<exists>i\<in>set [0..<e_phnum (read_ehdr img)]. loadable (phdr img i) \<and> segment_range (phdr img i) x) m m' \<and>
     li_end li = Max (insert 0 ((\<lambda>i. p_vaddr (phdr img i) + p_memsz (phdr img i)) `
       {i \<in> set [0..<e_phnum (read_ehdr img)]. loadable (phdr img i)}))"
  proof (rule load_segments_Ok [OF l])
    show "p_filesz (phdr img i) \<le> p_memsz (phdr img i)" if "i \<in> set [0..<e_phnum (read_ehdr img)]" "loadable (phdr img i)" for i
      using assms(2,3) that by auto
    show "\<not> segment_range (phdr img j) x" if "i \<in> set [0..<e_phnum (read_ehdr img)]" "j \<in> set [0..<e_phnum (read_ehdr img)]"
      "i \<noteq> j" "loadable (phdr img i)" "loadable (phdr img j)" "segment_range (phdr img i) x" for i j x
    proof -
      have ij: "i \<in> S" "j \<in> S" using that assms(2) by simp_all
      have "p_vaddr (phdr img i) + p_memsz (phdr img i) \<le> p_vaddr (phdr img j) \<or>
         p_vaddr (phdr img j) + p_memsz (phdr img j) \<le> p_vaddr (phdr img i)" using assms(4) ij that(3) by blast
      then show ?thesis using that(6) unfolding range [OF ij(1)] range [OF ij(2)] by linarith
    qed
  qed simp
  have "S \<noteq> {}"
  proof
    assume "S = {}"
    then have "li_end li = 0" using R unfolding S [symmetric] by simp
    then show False using L by simp
  qed
  moreover have "finite S" unfolding S by simp
  ultimately have hi: "li_end li = Max ((\<lambda>i. p_vaddr (phdr img i) + p_memsz (phdr img i)) ` S)"
    using R unfolding S [symmetric] by simp
  have same: "same_outside (\<lambda>x. \<exists>i\<in>S. segment_range (phdr img i) x) m m'"
    by (rule same_outside_mono [OF conjunct1 [OF conjunct2 [OF R]]]) (auto simp: S)
  have "\<forall>i\<in>S. get_bytes m' (of_nat (p_vaddr (phdr img i))) (p_memsz (phdr img i)) = segment_bytes img (phdr img i)"
    using conjunct1 [OF R] unfolding S by blast
  then show ?thesis using hi same c L unfolding same_outside_def by (auto dest: segment_in_region)
qed

definition demo_elf :: "nat \<Rightarrow> nat \<Rightarrow> byte list" where
  \<comment> \<open>a file with one segment, four bytes of data at its end\<close>
  "demo_elf filesz memsz =
     ELF_MAGIC @ [ELFCLASS64, ELFDATA2LSB] @ replicate 10 0 @ le_bytes 2 ET_EXEC @ le_bytes 2 EM_X86_64 @ le_bytes 4 1 @
     le_bytes 8 12582912 @ le_bytes 8 64 @ le_bytes 8 0 @ le_bytes 4 0 @ le_bytes 2 64 @ le_bytes 2 56 @ le_bytes 2 1 @
     replicate 6 0 @
     le_bytes 4 PT_LOAD @ le_bytes 4 7 @ le_bytes 8 120 @ le_bytes 8 12582912 @ le_bytes 8 12582912 @
     le_bytes 8 filesz @ le_bytes 8 memsz @ le_bytes 8 4096 @ [1, 2, 3, 4]"

lemma demo_elf_bytes:
  "demo_elf 4 6 = [0x7F, 0x45, 0x4C, 0x46, 2, 1, 0, 0, 0, 0, 0, 0, 0, 0, 0, 0, 2, 0, 62, 0, 1, 0, 0, 0,
     0, 0, 192, 0, 0, 0, 0, 0, 64, 0, 0, 0, 0, 0, 0, 0, 0, 0, 0, 0, 0, 0, 0, 0, 0, 0, 0, 0, 64, 0, 56, 0, 1, 0,
     0, 0, 0, 0, 0, 0, 1, 0, 0, 0, 7, 0, 0, 0, 120, 0, 0, 0, 0, 0, 0, 0, 0, 0, 192, 0, 0, 0, 0, 0, 0, 0, 192, 0, 0, 0, 0, 0,
     4, 0, 0, 0, 0, 0, 0, 0, 6, 0, 0, 0, 0, 0, 0, 0, 0, 16, 0, 0, 0, 0, 0, 0, 1, 2, 3, 4]"
  unfolding demo_elf_def ELF_MAGIC_def by (simp add: le_bytes_simps replicate_numeral)

lemma demo_elf_headers:
  "read_ehdr (demo_elf 4 6) = \<lparr>e_ident = ELF_MAGIC @ [ELFCLASS64, ELFDATA2LSB] @ replicate 10 0, e_type = 2, e_machine = 62,
     e_entry = 12582912, e_phoff = 64, e_phentsize = 56, e_phnum = 1\<rparr>"
  "read_phdr (demo_elf 4 6) 64 = \<lparr>p_type = 1, p_offset = 120, p_vaddr = 12582912, p_filesz = 4, p_memsz = 6\<rparr>"
  "length (demo_elf 4 6) = 124" "drop 120 (demo_elf 4 6) = [1, 2, 3, 4]"
  unfolding demo_elf_bytes by (simp_all add: read_ehdr_def read_phdr_def le_at_def le_nat_def ELF_MAGIC_def replicate_numeral)

lemma demo_elf_loads:
  "\<exists>m'. elf_load (demo_elf 4 6) m = (Ok \<lparr>li_entry = 12582912, li_end = 12582918\<rparr>, m')"
  using demo_elf_headers
  by (simp add: elf_load_def Let_def ELF_MAGIC_def phdr_at_def load_segment_def usize_add_def)

theorem elf_places_segments_witness:
  "\<exists>m'. elf_load (demo_elf 4 6) (\<lambda>_. 0xFF) = (Ok \<lparr>li_entry = 12582912, li_end = 12582918\<rparr>, m') \<and>
     get_bytes m' 12582912 6 = [1, 2, 3, 4, 0, 0] \<and> m' 0x100000 = 0xFF"
proof -
  let ?f = "demo_elf 4 6" and ?li = "\<lparr>li_entry = 12582912, li_end = 12582918\<rparr>"
  obtain m' where l: "elf_load ?f (\<lambda>_. 0xFF) = (Ok ?li, m')" using demo_elf_loads by blast
  have ph: "phdr ?f 0 = \<lparr>p_type = 1, p_offset = 120, p_vaddr = 12582912, p_filesz = 4, p_memsz = 6\<rparr>"
    using demo_elf_headers by (simp add: phdr_def phdr_at_def)
  have S: "{0} = {i. i < e_phnum (read_ehdr ?f) \<and> loadable (phdr ?f i)}"
    using ph demo_elf_headers(1) by (auto simp: loadable_def)
  have "segment_bytes ?f (phdr ?f 0) = [1, 2, 3, 4, 0, 0]" using ph demo_elf_headers(4) by (simp add: segment_bytes_def replicate_numeral)
  then show ?thesis using elf_places_segments [OF l S] l ph by (auto simp: segment_range_def in_range_def)
qed

lemma load_segment_zero:
  assumes "load_segment img p hi m = (Ok hi', m')" "\<not> in_range (of_nat (p_vaddr p)) (p_filesz p) x"
    "m x = 0 \<or> loadable p \<and> p_memsz p < p_filesz p"
  shows "m' x = 0"
proof (cases "loadable p")
  case True
  note L = load_segment_Ok [OF assms(1)]
  have c: "checked img p" "m' = place_segment img p m" using L True by simp_all
  let ?d = "unat (x - of_nat (p_vaddr p))"
  have far: "p_filesz p \<le> ?d" using assms(2) by (simp add: in_range_def)
  have part: "put_bytes (of_nat (p_vaddr p)) (take (p_filesz p) (drop (p_offset p) img)) m x = m x"
    using far file_part_length [OF c(1)] by (simp add: put_bytes_def)
  show ?thesis
  proof (cases "p_memsz p < p_filesz p")
    case False
    then have "m x = 0" using assms(3) by simp
    then show ?thesis unfolding c(2) place_segment_def Let_def using part by (simp add: fill_bytes_def)
  next
    case longer: True
    have d: "?d < 2 ^ 64" by (rule unat_less_64)
    have f: "p_filesz p < 2 ^ 64" using far d by linarith
    have bss: "wsub 64 (p_memsz p) (p_filesz p) = 2 ^ 64 - (p_filesz p - p_memsz p)" by (rule wsub_gt [OF longer f])
    have u: "unat (of_nat (p_filesz p) :: usize) = p_filesz p" using f by (simp add: unat_of_nat take_bit_nat_eq_self)
    have e: "x - (of_nat (p_vaddr p) + of_nat (p_filesz p)) = (x - of_nat (p_vaddr p)) - of_nat (p_filesz p)" by simp
    have at: "unat (x - (of_nat (p_vaddr p) + of_nat (p_filesz p))) = ?d - p_filesz p"
      unfolding e using far u by (simp add: unat_sub word_le_nat_alt)
    have "?d - p_filesz p < 2 ^ 64 - (p_filesz p - p_memsz p)" using d far longer by linarith
    then show ?thesis unfolding c(2) place_segment_def Let_def bss using f longer by (simp add: fill_bytes_def at)
  qed
qed (use load_segment_Ok [OF assms(1)] assms(3) in simp)

lemma load_segments_zero:
  assumes "load_segments img (read_ehdr img) is hi m = (Ok hi', m')"
    "\<And>j. j \<in> set is \<Longrightarrow> \<not> in_range (of_nat (p_vaddr (phdr img j))) (p_filesz (phdr img j)) x"
    "m x = 0 \<or> (\<exists>i\<in>set is. loadable (phdr img i) \<and> p_memsz (phdr img i) < p_filesz (phdr img i))"
  shows "m' x = 0"
  using assms
proof (induction "is" arbitrary: hi m)
  case (Cons j "is")
  from Cons.prems(1) obtain hi1 m1 where l: "load_segment img (phdr img j) hi m = (Ok hi1, m1)"
    and r: "load_segments img (read_ehdr img) is hi1 m1 = (Ok hi', m')"
    by (auto simp: phdr_def Let_def split: if_splits prod.splits outcome.splits)
  have "m1 x = 0 \<or> (\<exists>i\<in>set is. loadable (phdr img i) \<and> p_memsz (phdr img i) < p_filesz (phdr img i))"
    using load_segment_zero [OF l, of x] Cons.prems(2,3) by auto
  then show ?case using Cons.IH [OF r] Cons.prems(2) by simp
qed simp



end
