(* ===== verification/Dll.thy ===== *)
theory Dll imports UserMem begin

text \<open>
  The exports of the built-in DLLs and the code the loader writes for an imported function,
  \<^verbatim>\<open>kernel/src/level0b1/nt_subsystem/dll.rs\<close>, with the numbers of the services they call from
  \<^verbatim>\<open>nt_syscalls.rs\<close>.
\<close>

abbreviation (input) NT_EXIT_PROCESS_W32 :: nat where "NT_EXIT_PROCESS_W32 \<equiv> 0x3000"
abbreviation (input) NT_SLEEP_MS :: nat where "NT_SLEEP_MS \<equiv> 0x3001"
abbreviation (input) NT_GET_TICK_COUNT :: nat where "NT_GET_TICK_COUNT \<equiv> 0x3002"
abbreviation (input) NT_WIN32_CLOSE_HANDLE :: nat where "NT_WIN32_CLOSE_HANDLE \<equiv> 0x3003"
abbreviation (input) NT_WRITE_CONSOLE_A :: nat where "NT_WRITE_CONSOLE_A \<equiv> 0x3004"
abbreviation (input) NT_CREATE_FILE_A :: nat where "NT_CREATE_FILE_A \<equiv> 0x3005"
abbreviation (input) NT_READ_FILE_WIN32 :: nat where "NT_READ_FILE_WIN32 \<equiv> 0x3006"
abbreviation (input) NT_USER_CREATE_WINDOW_W32 :: nat where "NT_USER_CREATE_WINDOW_W32 \<equiv> 0x3010"
abbreviation (input) NT_GDI_GET_BITS_W32 :: nat where "NT_GDI_GET_BITS_W32 \<equiv> 0x3011"
abbreviation (input) NT_USER_CLIENT_RECT_W32 :: nat where "NT_USER_CLIENT_RECT_W32 \<equiv> 0x3012"
abbreviation (input) NT_USER_WINDOW_RECT_W32 :: nat where "NT_USER_WINDOW_RECT_W32 \<equiv> 0x3013"
abbreviation (input) NT_USER_FLUSH_WINDOW_W32 :: nat where "NT_USER_FLUSH_WINDOW_W32 \<equiv> 0x3014"
abbreviation (input) NT_USER_GET_MESSAGE_W32 :: nat where "NT_USER_GET_MESSAGE_W32 \<equiv> 0x3015"
abbreviation (input) NT_USER_CURSOR_POS_W32 :: nat where "NT_USER_CURSOR_POS_W32 \<equiv> 0x3016"

section \<open>Exports\<close>

record export =
  ex_name :: "byte list"
  ex_ordinal :: nat
  ex_service :: nat
  ex_stack_bytes :: nat

record dll =
  dll_name :: "byte list"
  dll_exports :: "export list"

definition mk_export :: "string \<Rightarrow> nat \<Rightarrow> nat \<Rightarrow> nat \<Rightarrow> export" where
  "mk_export name ordinal service bytes =
     \<lparr>ex_name = ascii name, ex_ordinal = ordinal, ex_service = service, ex_stack_bytes = bytes\<rparr>"

definition KERNEL32 :: "export list" where
  "KERNEL32 =
    [mk_export ''ExitProcess'' 1 NT_EXIT_PROCESS_W32 4, mk_export ''Sleep'' 2 NT_SLEEP_MS 4,
     mk_export ''GetTickCount'' 3 NT_GET_TICK_COUNT 0, mk_export ''CloseHandle'' 4 NT_WIN32_CLOSE_HANDLE 4,
     mk_export ''WriteConsoleA'' 5 NT_WRITE_CONSOLE_A 20, mk_export ''CreateFileA'' 6 NT_CREATE_FILE_A 28,
     mk_export ''ReadFile'' 7 NT_READ_FILE_WIN32 20]"

definition TCMKGUI :: "export list" where
  "TCMKGUI =
    [mk_export ''TcmkCreateWindow'' 1 NT_USER_CREATE_WINDOW_W32 20, mk_export ''TcmkGetWindowBits'' 2 NT_GDI_GET_BITS_W32 4,
     mk_export ''TcmkGetClientRect'' 3 NT_USER_CLIENT_RECT_W32 4, mk_export ''TcmkGetWindowRect'' 4 NT_USER_WINDOW_RECT_W32 4,
     mk_export ''TcmkUpdateWindow'' 5 NT_USER_FLUSH_WINDOW_W32 4, mk_export ''TcmkGetMessage'' 6 NT_USER_GET_MESSAGE_W32 4,
     mk_export ''TcmkGetCursorPos'' 7 NT_USER_CURSOR_POS_W32 0]"

definition DLLS :: "dll list" where
  "DLLS = [\<lparr>dll_name = ascii ''KERNEL32.dll'', dll_exports = KERNEL32\<rparr>, \<lparr>dll_name = ascii ''TCMKGUI.dll'', dll_exports = TCMKGUI\<rparr>]"

definition to_ascii_lowercase :: "byte \<Rightarrow> byte" where
  "to_ascii_lowercase b = (if 65 \<le> b \<and> b \<le> 90 then b + 32 else b)"

definition eq_ignore_case :: "byte list \<Rightarrow> byte list \<Rightarrow> bool" where
  "eq_ignore_case a b \<longleftrightarrow> length a = length b \<and> (\<forall>(x, y)\<in>set (zip a b). to_ascii_lowercase x = to_ascii_lowercase y)"

definition dll_resolve :: "byte list \<Rightarrow> byte list \<Rightarrow> export option" where
  "dll_resolve name function_name =
     (case find (\<lambda>d. eq_ignore_case (dll_name d) name) DLLS of None \<Rightarrow> None
      | Some d \<Rightarrow> find (\<lambda>e. ex_name e = function_name) (dll_exports d))"

definition dll_resolve_ordinal :: "byte list \<Rightarrow> nat \<Rightarrow> export option" where
  "dll_resolve_ordinal name ordinal =
     (case find (\<lambda>d. eq_ignore_case (dll_name d) name) DLLS of None \<Rightarrow> None
      | Some d \<Rightarrow> find (\<lambda>e. ex_ordinal e = ordinal) (dll_exports d))"

section \<open>Thunks\<close>

abbreviation (input) THUNK_SIZE :: nat where "THUNK_SIZE \<equiv> 48"

definition THUNK_CODE :: "byte list" where
  "THUNK_CODE =
    [0x48, 0x89, 0x4C, 0x24, 0x08, 0x48, 0x89, 0x54, 0x24, 0x10, 0x4C, 0x89, 0x44, 0x24, 0x18,
     0x4C, 0x89, 0x4C, 0x24, 0x20, 0xB8, 0x00, 0x00, 0x00, 0x00, 0x48, 0x8D, 0x54, 0x24, 0x08,
     0xCD, 0x2E, 0xC3]"

definition emit_thunk :: "nat \<Rightarrow> export \<Rightarrow> umem \<Rightarrow> umem" where
  "emit_thunk a e m =
     fill_bytes (of_nat (a + length THUNK_CODE)) 0xCC (THUNK_SIZE - length THUNK_CODE)
       (put_bytes (of_nat (a + 21)) (le_bytes 4 (ex_service e)) (put_bytes (of_nat a) THUNK_CODE m))"

lemma length_THUNK_CODE [simp]: "length THUNK_CODE = 33"
  by (simp add: THUNK_CODE_def)

text \<open>The bytes of the thunk, and that nothing else is written.\<close>

definition thunk_bytes :: "export \<Rightarrow> byte list" where
  "thunk_bytes e = take 21 THUNK_CODE @ le_bytes 4 (ex_service e) @ drop 25 THUNK_CODE @ replicate 15 0xCC"

lemma emit_thunk_eq:
  assumes "a + 48 \<le> 2 ^ 64"
  shows "emit_thunk a e m = put_bytes (of_nat a) (thunk_bytes e) m"
proof
  fix x :: usize
  let ?d = "unat (x - of_nat a)"
  have lt: "length (thunk_bytes e) = 48" by (simp add: thunk_bytes_def)
  have off: "unat (x - of_nat (a + k)) < n \<longleftrightarrow> k \<le> ?d \<and> ?d < k + n" "k \<le> ?d \<Longrightarrow> unat (x - of_nat (a + k)) = ?d - k"
    if "k + n \<le> 48" for k n
  proof -
    have u: "unat (of_nat k :: usize) = k" using that by (simp add: unat_of_nat take_bit_nat_eq_self)
    have e: "x - of_nat (a + k) = (x - of_nat a) - of_nat k" by simp
    have d: "?d < 2 ^ 64" by (rule unat_less_64)
    show "unat (x - of_nat (a + k)) < n \<longleftrightarrow> k \<le> ?d \<and> ?d < k + n"
      unfolding e using that u d by (auto simp: unat_sub_if_size word_size)
    show "k \<le> ?d \<Longrightarrow> unat (x - of_nat (a + k)) = ?d - k"
      unfolding e using u by (simp add: unat_sub word_le_nat_alt)
  qed
  have f: "unat (x - of_nat (a + 33)) < 15 \<longleftrightarrow> 33 \<le> ?d \<and> ?d < 48" using off(1) [of 33 15] by simp
  have p: "unat (x - of_nat (a + 21)) < 4 \<longleftrightarrow> 21 \<le> ?d \<and> ?d < 25" using off(1) [of 21 4] by simp
  have q: "21 \<le> ?d \<Longrightarrow> unat (x - of_nat (a + 21)) = ?d - 21" using off(2) [of 21 4] by simp
  show "emit_thunk a e m x = put_bytes (of_nat a) (thunk_bytes e) m x"
    using f p q lt unfolding emit_thunk_def fill_bytes_def put_bytes_def length_THUNK_CODE length_le_bytes
    by (auto simp: thunk_bytes_def nth_append)
qed

lemma length_thunk_bytes [simp]: "length (thunk_bytes e) = 48"
  by (simp add: thunk_bytes_def)

end
