(* ===== verification/Pe64.thy ===== *)
theory Pe64 imports Dll Tcmkfs begin

text \<open>
  The loader of 64-bit Windows programs, \<^verbatim>\<open>kernel/src/level0b1/binary_loader/pe64.rs\<close>: headers,
  sections, base relocations and the import table, whose functions are bound to thunks written
  behind the image.  The loader reads the headers from the file and everything else back from the
  memory it has just filled.  All numbers of the file have 32 bits or less where they are added to
  an address, so that no sum wraps; relocation is modulo \<open>2 ^ 64\<close>.
\<close>

abbreviation (input) DOS_MAGIC :: nat where "DOS_MAGIC \<equiv> 0x5A4D"
abbreviation (input) PE_SIGNATURE :: nat where "PE_SIGNATURE \<equiv> 0x4550"
abbreviation (input) MACHINE_AMD64 :: nat where "MACHINE_AMD64 \<equiv> 0x8664"
abbreviation (input) PE32PLUS_MAGIC :: nat where "PE32PLUS_MAGIC \<equiv> 0x020B"
abbreviation (input) DIRECTORIES_AT :: nat where "DIRECTORIES_AT \<equiv> 112"
abbreviation (input) DIR_IMPORT :: nat where "DIR_IMPORT \<equiv> 1"
abbreviation (input) DIR_BASERELOC :: nat where "DIR_BASERELOC \<equiv> 5"
abbreviation (input) REL_BASED_ABSOLUTE :: nat where "REL_BASED_ABSOLUTE \<equiv> 0"
abbreviation (input) REL_BASED_DIR64 :: nat where "REL_BASED_DIR64 \<equiv> 10"
abbreviation (input) NAME_MAX :: nat where "NAME_MAX \<equiv> 64"

datatype pe_error = PeTooSmall | BadDosMagic | BadPeSignature | PeWrongArchitecture | NotPe32Plus | BadOptionalHeaderSize
  | SectionOutOfBounds | SectionOutsideUserMemory | RelocationOutOfBounds | ImportOutOfBounds | UnresolvedImport | ThunkAreaFull

record pe_image =
  pe_entry :: nat
  pe_end :: nat

definition read_u16 :: "byte list \<Rightarrow> nat \<Rightarrow> nat option" where "read_u16 = le_get 2"
definition read_u32 :: "byte list \<Rightarrow> nat \<Rightarrow> nat option" where "read_u32 = le_get 4"
definition read_u64 :: "byte list \<Rightarrow> nat \<Rightarrow> nat option" where "read_u64 = le_get 8"

definition is_pe :: "byte list \<Rightarrow> bool" where
  "is_pe img \<longleftrightarrow> read_u16 img 0 = Some DOS_MAGIC \<and>
     (case read_u32 img 0x3C of None \<Rightarrow> False | Some off \<Rightarrow> read_u32 img off = Some PE_SIGNATURE)"

section \<open>The image in memory\<close>

definition image_u16 :: "nat \<Rightarrow> nat \<Rightarrow> umem \<Rightarrow> nat" where
  "image_u16 base rva m = le_nat (get_bytes m (of_nat (base + rva)) 2)"

definition image_u32 :: "nat \<Rightarrow> nat \<Rightarrow> umem \<Rightarrow> nat" where
  "image_u32 base rva m = le_nat (get_bytes m (of_nat (base + rva)) 4)"

definition image_u64 :: "nat \<Rightarrow> nat \<Rightarrow> umem \<Rightarrow> nat" where
  "image_u64 base rva m = le_nat (get_bytes m (of_nat (base + rva)) 8)"

definition image_cstr :: "nat \<Rightarrow> nat \<Rightarrow> nat \<Rightarrow> umem \<Rightarrow> byte list option" where
  "image_cstr base image_size rva m =
     (if rva \<ge> image_size then None
      else let bs = get_bytes m (of_nat (base + rva)) (min NAME_MAX (image_size - rva)) in
      if 0 \<in> set bs
      then (let name = takeWhile (\<lambda>b. b \<noteq> 0) bs in if utf8_valid name then Some name else None)
      else None)"

section \<open>Sections\<close>

text \<open>\<open>read_u32(..).ok_or(PeError::TooSmall)?\<close>\<close>

definition or_small :: "nat option \<Rightarrow> (nat \<Rightarrow> (pe_error, 'a) outcome \<times> umem) \<Rightarrow> umem \<Rightarrow> (pe_error, 'a) outcome \<times> umem" where
  "or_small v f m = (case v of None \<Rightarrow> (Err PeTooSmall, m) | Some x \<Rightarrow> f x)"

fun load_sections :: "byte list \<Rightarrow> nat \<Rightarrow> nat \<Rightarrow> nat \<Rightarrow> nat list \<Rightarrow> nat \<Rightarrow> umem \<Rightarrow> (pe_error, nat) outcome \<times> umem" where
  "load_sections img base image_size sections [] highest m = (Ok highest, m)"
| "load_sections img base image_size sections (i # is) highest m =
     (let sh = sections + i * 40 in
      or_small (read_u32 img (sh + 8)) (\<lambda>virtual_size.
      or_small (read_u32 img (sh + 12)) (\<lambda>virtual_addr.
      or_small (read_u32 img (sh + 16)) (\<lambda>raw_size.
      or_small (read_u32 img (sh + 20)) (\<lambda>raw_ptr.
        let span = max virtual_size raw_size in
        if virtual_addr + span > image_size then (Err SectionOutOfBounds, m)
        else if raw_size > 0 \<and> \<not> raw_ptr + raw_size \<le> length img then (Err SectionOutOfBounds, m)
        else load_sections img base image_size sections is (max highest (virtual_addr + span))
               (if raw_size > 0 then put_bytes (of_nat (base + virtual_addr)) (take raw_size (drop raw_ptr img)) m else m)) m) m) m) m)"

section \<open>Relocations\<close>

text \<open>One entry of a block: 12 bits of offset below 4 bits of kind.\<close>

definition relocate :: "nat \<Rightarrow> nat \<Rightarrow> nat \<Rightarrow> nat \<Rightarrow> nat \<Rightarrow> umem \<Rightarrow> (pe_error, unit) outcome \<times> umem" where
  "relocate base image_size delta page_rva entry m =
     (let kind = entry div 2 ^ 12; patch_rva = page_rva + entry mod 2 ^ 12 in
      if kind = REL_BASED_ABSOLUTE then (Ok (), m)
      else if kind = REL_BASED_DIR64
      then (if patch_rva + 8 > image_size then (Err RelocationOutOfBounds, m)
            else (Ok (), put_bytes (of_nat (base + patch_rva)) (le_bytes 8 ((image_u64 base patch_rva m + delta) mod 2 ^ 64)) m))
      else (Err RelocationOutOfBounds, m))"

fun relocate_entries :: "nat \<Rightarrow> nat \<Rightarrow> nat \<Rightarrow> nat \<Rightarrow> nat \<Rightarrow> nat list \<Rightarrow> umem \<Rightarrow> (pe_error, unit) outcome \<times> umem" where
  "relocate_entries base image_size delta page_rva block [] m = (Ok (), m)"
| "relocate_entries base image_size delta page_rva block (i # is) m =
     (case relocate base image_size delta page_rva (image_u16 base (block + 8 + i * 2) m) m of
        (Ok _, m) \<Rightarrow> relocate_entries base image_size delta page_rva block is m
      | r \<Rightarrow> r)"

function relocate_blocks :: "nat \<Rightarrow> nat \<Rightarrow> nat \<Rightarrow> nat \<Rightarrow> nat \<Rightarrow> nat \<Rightarrow> umem \<Rightarrow> (pe_error, unit) outcome \<times> umem" where
  "relocate_blocks base image_size reloc_rva reloc_size delta offset m =
     (if \<not> offset + 8 \<le> reloc_size then (Ok (), m)
      else let block = reloc_rva + offset; page_rva = image_u32 base block m; block_size = image_u32 base (block + 4) m in
      if block_size < 8 \<or> offset + block_size > reloc_size then (Err RelocationOutOfBounds, m)
      else case relocate_entries base image_size delta page_rva block [0..<(block_size - 8) div 2] m of
        (Ok _, m) \<Rightarrow> relocate_blocks base image_size reloc_rva reloc_size delta (offset + block_size) m
      | r \<Rightarrow> r)"
  by pat_completeness auto
termination
  by (relation "measure (\<lambda>(base, image_size, reloc_rva, reloc_size, delta, offset, m). reloc_size - offset)") auto

declare relocate_blocks.simps [simp del]

definition apply_relocations :: "nat \<Rightarrow> nat \<Rightarrow> nat \<Rightarrow> nat \<Rightarrow> nat \<Rightarrow> umem \<Rightarrow> (pe_error, unit) outcome \<times> umem" where
  "apply_relocations base image_size reloc_rva reloc_size delta m =
     (if reloc_rva + reloc_size > image_size then (Err RelocationOutOfBounds, m)
      else relocate_blocks base image_size reloc_rva reloc_size delta 0 m)"

section \<open>Imports\<close>

abbreviation (input) IMAGE_ORDINAL_FLAG64 :: nat where "IMAGE_ORDINAL_FLAG64 \<equiv> 2 ^ 63"

definition find_export :: "nat \<Rightarrow> nat \<Rightarrow> byte list \<Rightarrow> nat \<Rightarrow> umem \<Rightarrow> (pe_error, export) outcome" where
  \<comment> \<open>the export an entry of the name table asks for, by ordinal or by name\<close>
  "find_export base image_size dllname entry m =
     (if entry \<ge> IMAGE_ORDINAL_FLAG64
      then (case dll_resolve_ordinal dllname (entry mod 2 ^ 16) of None \<Rightarrow> Err UnresolvedImport | Some e \<Rightarrow> Ok e)
      else case image_cstr base image_size (entry + 2) m of
        None \<Rightarrow> Err ImportOutOfBounds
      | Some function_name \<Rightarrow>
          (case dll_resolve dllname function_name of None \<Rightarrow> Err UnresolvedImport | Some e \<Rightarrow> Ok e))"

function bind_functions :: "nat \<Rightarrow> nat \<Rightarrow> byte list \<Rightarrow> nat \<Rightarrow> nat \<Rightarrow> nat \<Rightarrow> nat \<Rightarrow> umem \<Rightarrow> (pe_error, nat) outcome \<times> umem" where
  "bind_functions base image_size dllname names_rva iat_rva index next_thunk m =
     (let entry_at = names_rva + index * 8 in
      if entry_at + 8 > image_size then (Err ImportOutOfBounds, m)
      else let entry = image_u64 base entry_at m in
      if entry = 0 then (Ok next_thunk, m)
      else case find_export base image_size dllname entry m of
        Err e \<Rightarrow> (Err e, m)
      | Panic \<Rightarrow> (Panic, m)
      | Ok e \<Rightarrow>
          if next_thunk + THUNK_SIZE > USER_MEM_START + USER_MAP_SIZE then (Err ThunkAreaFull, m)
          else let m = emit_thunk next_thunk e m; slot = iat_rva + index * 8 in
          if slot + 8 > image_size then (Err ImportOutOfBounds, m)
          else bind_functions base image_size dllname names_rva iat_rva (index + 1) (next_thunk + THUNK_SIZE)
                 (put_bytes (of_nat (base + slot)) (le_bytes 8 next_thunk) m))"
  by pat_completeness auto
termination
  by (relation "measure (\<lambda>(base, image_size, dllname, names_rva, iat_rva, index, next_thunk, m). image_size - index * 8)") auto

declare bind_functions.simps [simp del]

function resolve_imports :: "nat \<Rightarrow> nat \<Rightarrow> nat \<Rightarrow> nat \<Rightarrow> umem \<Rightarrow> (pe_error, nat) outcome \<times> umem" where
  "resolve_imports base image_size descriptor next_thunk m =
     (if descriptor + 20 > image_size then (Err ImportOutOfBounds, m)
      else let int_rva = image_u32 base descriptor m; name_rva = image_u32 base (descriptor + 12) m;
               iat_rva = image_u32 base (descriptor + 16) m in
      if int_rva = 0 \<and> name_rva = 0 \<and> iat_rva = 0 then (Ok next_thunk, m)
      else let dllname = (case image_cstr base image_size name_rva m of Some n \<Rightarrow> n | None \<Rightarrow> ascii ''?'');
               names_rva = (if int_rva \<noteq> 0 then int_rva else iat_rva) in
      if names_rva = 0 \<or> iat_rva = 0 then (Err ImportOutOfBounds, m)
      else case bind_functions base image_size dllname names_rva iat_rva 0 next_thunk m of
        (Ok next_thunk, m) \<Rightarrow> resolve_imports base image_size (descriptor + 20) next_thunk m
      | r \<Rightarrow> r)"
  by pat_completeness auto
termination
  by (relation "measure (\<lambda>(base, image_size, descriptor, next_thunk, m). image_size - descriptor)") auto

declare resolve_imports.simps [simp del]

section \<open>The loader\<close>

definition directory :: "byte list \<Rightarrow> nat \<Rightarrow> nat \<Rightarrow> nat \<times> nat" where
  \<comment> \<open>address and size of a data directory, zero where the header ends before it\<close>
  "directory img opt d =
     (let or_0 = (\<lambda>v. case v of None \<Rightarrow> 0 | Some x \<Rightarrow> x)
      in (or_0 (read_u32 img (opt + DIRECTORIES_AT + d * 8)), or_0 (read_u32 img (opt + DIRECTORIES_AT + d * 8 + 4))))"

definition pe_finish :: "byte list \<Rightarrow> nat \<Rightarrow> nat \<Rightarrow> nat \<Rightarrow> nat \<Rightarrow> umem \<Rightarrow> (pe_error, pe_image) outcome \<times> umem" where
  \<comment> \<open>from the import table on\<close>
  "pe_finish img opt entry_rva image_size highest m =
     (let base = USER_MEM_START; image_end = base + max image_size highest;
          (import_rva, import_size) = directory img opt DIR_IMPORT in
      if import_rva \<noteq> 0 \<and> import_size \<noteq> 0
      then (case resolve_imports base image_size import_rva ((image_end + 0xFFF) div 4096 * 4096) m of
              (Ok e, m) \<Rightarrow> (Ok \<lparr>pe_entry = base + entry_rva, pe_end = e\<rparr>, m)
            | (Err e, m) \<Rightarrow> (Err e, m)
            | (Panic, m) \<Rightarrow> (Panic, m))
      else (Ok \<lparr>pe_entry = base + entry_rva, pe_end = image_end\<rparr>, m))"

definition pe_place :: "byte list \<Rightarrow> nat \<Rightarrow> nat \<Rightarrow> nat \<Rightarrow> nat \<Rightarrow> nat \<Rightarrow> nat \<Rightarrow> umem \<Rightarrow> (pe_error, pe_image) outcome \<times> umem" where
  \<comment> \<open>from the first write on: clear the image, sections, relocations, imports\<close>
  "pe_place img opt sections num_sections entry_rva image_base image_size m =
     (let base = USER_MEM_START; delta = wsub 64 base image_base; m = fill_bytes (of_nat base) 0 image_size m in
      case load_sections img base image_size sections [0..<num_sections] 0 m of
        (Err e, m) \<Rightarrow> (Err e, m)
      | (Panic, m) \<Rightarrow> (Panic, m)
      | (Ok highest, m) \<Rightarrow>
          (let (reloc_rva, reloc_size) = directory img opt DIR_BASERELOC in
           if delta \<noteq> 0 \<and> reloc_rva \<noteq> 0 \<and> reloc_size \<noteq> 0
           then (case apply_relocations base image_size reloc_rva reloc_size delta m of
                   (Ok _, m) \<Rightarrow> pe_finish img opt entry_rva image_size highest m
                 | (Err e, m) \<Rightarrow> (Err e, m)
                 | (Panic, m) \<Rightarrow> (Panic, m))
           else pe_finish img opt entry_rva image_size highest m))"

definition pe_load :: "byte list \<Rightarrow> umem \<Rightarrow> (pe_error, pe_image) outcome \<times> umem" where
  "pe_load img m =
     or_small (read_u16 img 0) (\<lambda>magic.
     if magic \<noteq> DOS_MAGIC then (Err BadDosMagic, m)
     else or_small (read_u32 img 0x3C) (\<lambda>pe_off.
     or_small (read_u32 img pe_off) (\<lambda>signature.
     if signature \<noteq> PE_SIGNATURE then (Err BadPeSignature, m)
     else let coff = pe_off + 4 in
     or_small (read_u16 img coff) (\<lambda>mach.
     if mach \<noteq> MACHINE_AMD64 then (Err PeWrongArchitecture, m)
     else or_small (read_u16 img (coff + 2)) (\<lambda>num_sections.
     or_small (read_u16 img (coff + 16)) (\<lambda>size_of_optional.
     if size_of_optional < DIRECTORIES_AT then (Err BadOptionalHeaderSize, m)
     else let opt = coff + 20 in
     or_small (read_u16 img opt) (\<lambda>opt_magic.
     if opt_magic \<noteq> PE32PLUS_MAGIC then (Err NotPe32Plus, m)
     else or_small (read_u32 img (opt + 16)) (\<lambda>entry_rva.
     or_small (read_u64 img (opt + 24)) (\<lambda>image_base.
     or_small (read_u32 img (opt + 56)) (\<lambda>image_size.
     if USER_MEM_START + image_size > USER_MEM_START + USER_MEM_SIZE then (Err SectionOutsideUserMemory, m)
     else pe_place img opt (opt + size_of_optional) num_sections entry_rva image_base image_size m) m) m) m) m) m) m) m) m) m) m"

section \<open>Where the loader writes\<close>

lemma user_range:
  assumes "USER_MEM_START \<le> a" "a + n \<le> USER_MEM_START + USER_MEM_SIZE" "in_range (of_nat a) n x"
  shows "user_region x"
  using assms(3) unfolding user_region_def by (subst (asm) in_range_interval) (use assms(1,2) in auto)

lemma put_bytes_user:
  "USER_MEM_START \<le> a \<Longrightarrow> a + length bs \<le> USER_MEM_START + USER_MEM_SIZE \<Longrightarrow> same_outside user_region m (put_bytes (of_nat a) bs m)"
  by (rule put_bytes_outside) (rule user_range)

text \<open>
  \<open>loader_safe m\<close>: a step of the loader, started from memory \<open>m\<close>, did not panic and left everything
  outside the region alone.  The rules follow the shape of the definitions.
\<close>

definition loader_safe :: "umem \<Rightarrow> ('e, 'a) outcome \<times> umem \<Rightarrow> bool" where
  "loader_safe m res \<longleftrightarrow> fst res \<noteq> Panic \<and> same_outside user_region m (snd res)"

lemma loader_safe_Ok: "same_outside user_region m m' \<Longrightarrow> loader_safe m (Ok x, m')"
  and loader_safe_Err: "same_outside user_region m m' \<Longrightarrow> loader_safe m (Err e, m')"
  by (simp_all add: loader_safe_def)

lemma loader_safe_if: "(c \<Longrightarrow> loader_safe m a) \<Longrightarrow> (\<not> c \<Longrightarrow> loader_safe m b) \<Longrightarrow> loader_safe m (if c then a else b)"
  by simp

lemma loader_safe_small:
  "same_outside user_region m m1 \<Longrightarrow> (\<And>x. v = Some x \<Longrightarrow> loader_safe m (f x)) \<Longrightarrow> loader_safe m (or_small v f m1)"
  by (auto simp: or_small_def loader_safe_def split: option.split)

lemma loader_safe_bind:
  assumes "loader_safe m res" "\<And>x m1. res = (Ok x, m1) \<Longrightarrow> same_outside user_region m m1 \<Longrightarrow> loader_safe m (f x m1)"
  shows "loader_safe m (case res of (Ok x, m1) \<Rightarrow> f x m1 | (Err e, m1) \<Rightarrow> (Err e, m1) | (Panic, m1) \<Rightarrow> (Panic, m1))"
  using assms by (cases res) (auto simp: loader_safe_def split: outcome.split)

lemmas loader_safe_rules = loader_safe_Ok loader_safe_Err loader_safe_if loader_safe_small

lemma safe_put:
  "same_outside user_region m m1 \<Longrightarrow> USER_MEM_START \<le> a \<Longrightarrow> a + length bs \<le> USER_MEM_START + USER_MEM_SIZE \<Longrightarrow>
     same_outside user_region m (put_bytes (of_nat a) bs m1)"
  by (erule same_outside_trans) (rule put_bytes_user)

lemma safe_thunk:
  "same_outside user_region m m1 \<Longrightarrow> USER_MEM_START \<le> a \<Longrightarrow> a + THUNK_SIZE \<le> USER_MEM_START + USER_MAP_SIZE \<Longrightarrow>
     same_outside user_region m (emit_thunk a e m1)"
  by (subst emit_thunk_eq) (auto intro: safe_put)

lemma load_sections_safe:
  "n \<le> USER_MEM_SIZE \<Longrightarrow> same_outside user_region m0 m \<Longrightarrow> loader_safe m0 (load_sections img USER_MEM_START n sections is hi m)"
proof (induction "is" arbitrary: hi m)
  case (Cons i "is")
  have ok: "same_outside user_region m0 (if rs > 0 then put_bytes (of_nat (USER_MEM_START + va)) (take rs (drop rp img)) m else m)"
    if "\<not> va + max vs rs > n" for va vs rs rp
  proof (cases "rs > 0")
    case True
    have "same_outside user_region m0 (put_bytes (of_nat (USER_MEM_START + va)) (take rs (drop rp img)) m)"
      by (rule safe_put [OF Cons.prems(2)]) (use that Cons.prems(1) in auto)
    then show ?thesis using True by simp
  qed (use Cons.prems(2) in simp)
  show ?case
    unfolding load_sections.simps Let_def
    by (intro loader_safe_rules Cons.IH ok) (use Cons.prems in auto)
qed (simp add: loader_safe_Ok)

lemma relocate_safe:
  "n \<le> USER_MEM_SIZE \<Longrightarrow> same_outside user_region m0 m \<Longrightarrow> loader_safe m0 (relocate USER_MEM_START n delta page entry m)"
  unfolding relocate_def Let_def by (intro impI loader_safe_rules safe_put) auto

lemma relocate_entries_safe:
  "n \<le> USER_MEM_SIZE \<Longrightarrow> same_outside user_region m0 m \<Longrightarrow> loader_safe m0 (relocate_entries USER_MEM_START n delta page block is m)"
proof (induction "is" arbitrary: m)
  case (Cons i "is")
  show ?case
    unfolding relocate_entries.simps by (intro loader_safe_bind relocate_safe Cons.IH) (use Cons.prems in auto)
qed (simp add: loader_safe_Ok)

lemma relocate_blocks_safe:
  "n \<le> USER_MEM_SIZE \<Longrightarrow> same_outside user_region m0 m \<Longrightarrow> loader_safe m0 (relocate_blocks USER_MEM_START n reloc_rva reloc_size delta offset m)"
proof (induction "reloc_size - offset" arbitrary: offset m rule: less_induct)
  case less
  show ?case
    unfolding relocate_blocks.simps [of _ _ _ _ _ offset m] Let_def
    by (intro loader_safe_rules loader_safe_bind relocate_entries_safe less.hyps) (use less.prems in auto)
qed

lemma find_export_no_panic: "find_export base k dllname entry m \<noteq> Panic"
  by (simp add: find_export_def split: option.split)

lemma bind_functions_safe:
  "n \<le> USER_MEM_SIZE \<Longrightarrow> same_outside user_region m0 m \<Longrightarrow> USER_MEM_START \<le> thunk \<Longrightarrow>
     loader_safe m0 (bind_functions USER_MEM_START n dllname names iat index thunk m) \<and>
     (\<forall>t m'. bind_functions USER_MEM_START n dllname names iat index thunk m = (Ok t, m') \<longrightarrow> thunk \<le> t)"
proof (induction "n - index * 8" arbitrary: index thunk m rule: less_induct)
  case less
  define entry where entry: "entry = image_u64 USER_MEM_START (names + index * 8) m"
  show ?case
  proof (cases "names + index * 8 + 8 > n \<or> entry = 0")
    case True
    then show ?thesis unfolding bind_functions.simps [of _ _ _ _ _ index] Let_def entry [symmetric]
      using less.prems(2) by (auto simp: loader_safe_def)
  next
    case go: False
    show ?thesis
    proof (cases "find_export USER_MEM_START n dllname entry m")
      case (Ok e)
      have IH: "loader_safe m0 (bind_functions USER_MEM_START n dllname names iat (index + 1) (thunk + 48)
            (put_bytes (of_nat (USER_MEM_START + (iat + index * 8))) (le_bytes 8 thunk) (emit_thunk thunk e m))) \<and>
          (\<forall>t m'. bind_functions USER_MEM_START n dllname names iat (index + 1) (thunk + 48)
            (put_bytes (of_nat (USER_MEM_START + (iat + index * 8))) (le_bytes 8 thunk) (emit_thunk thunk e m)) = (Ok t, m') \<longrightarrow> thunk + 48 \<le> t)"
        if "\<not> thunk + 48 > USER_MEM_START + USER_MAP_SIZE" "\<not> iat + index * 8 + 8 > n"
      proof (rule less.hyps)
        show "n - (index + 1) * 8 < n - index * 8" using go by auto
        show "same_outside user_region m0 (put_bytes (of_nat (USER_MEM_START + (iat + index * 8))) (le_bytes 8 thunk) (emit_thunk thunk e m))"
          using that less.prems by (intro safe_put safe_thunk) auto
      qed (use less.prems(1,3) in auto)
      have t: "same_outside user_region m0 (emit_thunk thunk e m)" if "\<not> thunk + 48 > USER_MEM_START + USER_MAP_SIZE"
        using that less.prems by (intro safe_thunk) auto
      show ?thesis
        unfolding bind_functions.simps [of _ _ _ _ _ index] Let_def entry [symmetric]
        using go Ok IH t less.prems(2) by (auto simp: loader_safe_def)
    next
      case (Err e)
      then show ?thesis unfolding bind_functions.simps [of _ _ _ _ _ index] Let_def entry [symmetric]
        using go less.prems(2) by (auto simp: loader_safe_def)
    qed (simp add: find_export_no_panic)
  qed
qed

lemma resolve_imports_safe:
  "n \<le> USER_MEM_SIZE \<Longrightarrow> same_outside user_region m0 m \<Longrightarrow> USER_MEM_START \<le> thunk \<Longrightarrow>
     loader_safe m0 (resolve_imports USER_MEM_START n descriptor thunk m)"
proof (induction "n - descriptor" arbitrary: descriptor thunk m rule: less_induct)
  case less
  have more: "loader_safe m0 (resolve_imports USER_MEM_START n (descriptor + 20) t m1)"
    if "bind_functions USER_MEM_START n dllname names iat 0 thunk m = (Ok t, m1)" "same_outside user_region m0 m1"
      "\<not> descriptor + 20 > n" for dllname names iat t m1
    using less.hyps [of "descriptor + 20" m1 t] that bind_functions_safe [OF less.prems, of dllname names iat 0] less.prems(1,3) by auto
  show ?case
    unfolding resolve_imports.simps [of _ _ descriptor] Let_def
    by (intro loader_safe_rules loader_safe_bind more conjunct1 [OF bind_functions_safe]) (use less.prems in auto)
qed

lemma pe_finish_safe:
  "n \<le> USER_MEM_SIZE \<Longrightarrow> same_outside user_region m0 m \<Longrightarrow> loader_safe m0 (pe_finish img opt entry_rva n hi m)"
  unfolding pe_finish_def Let_def
  by (cases "directory img opt DIR_IMPORT")
    (auto intro!: loader_safe_rules loader_safe_bind resolve_imports_safe)

lemma pe_place_safe:
  "n \<le> USER_MEM_SIZE \<Longrightarrow> same_outside user_region m0 m \<Longrightarrow> loader_safe m0 (pe_place img opt sections k entry_rva image_base n m)"
proof -
  assume n: "n \<le> USER_MEM_SIZE" and m: "same_outside user_region m0 m"
  have m1: "same_outside user_region m0 (fill_bytes (of_nat USER_MEM_START) 0 n m)"
    using m by (rule same_outside_trans) (rule fill_bytes_outside, rule user_range, use n in auto)
  obtain rva sz where d: "directory img opt DIR_BASERELOC = (rva, sz)" by (cases "directory img opt DIR_BASERELOC")
  show ?thesis
    unfolding pe_place_def Let_def d prod.case apply_relocations_def
    by (intro loader_safe_rules loader_safe_bind load_sections_safe relocate_blocks_safe pe_finish_safe m1 n) simp_all
qed

section \<open>Properties\<close>


end
