(* ===== verification/Launcher.thy ===== *)
theory Launcher imports UserMem Tcmkfs Ring begin

text \<open>
  The two tables of \<^verbatim>\<open>kernel/src/level0a/launcher.rs\<close>: the queue of programs that wait for a task to
  start them, and the program each task asked to be replaced by (\<open>execve\<close>).  Paths are kept in
  slots of 64 bytes with their length beside them.  What starts a program is in \<open>Process\<close>.
\<close>

section \<open>State\<close>

abbreviation (input) MAX_PENDING :: nat where "MAX_PENDING \<equiv> 8"
abbreviation (input) LAUNCH_PATH :: nat where "LAUNCH_PATH \<equiv> 64"  \<comment> \<open>\<open>MAX_PATH\<close>\<close>

record launcher =
  l_pending :: "byte list list"
  l_pending_len :: "nat list"
  l_head :: nat
  l_tail :: nat
  l_exec :: "byte list list"
  l_exec_len :: "nat list"

definition launcher_init :: launcher where
  "launcher_init = \<lparr>l_pending = replicate MAX_PENDING (replicate LAUNCH_PATH 0), l_pending_len = replicate MAX_PENDING 0,
     l_head = 0, l_tail = 0, l_exec = replicate MAX_TASKS (replicate LAUNCH_PATH 0), l_exec_len = replicate MAX_TASKS 0\<rparr>"

definition copy_path :: "byte list \<Rightarrow> byte list \<Rightarrow> byte list" where
  \<comment> \<open>\<open>copy_nonoverlapping(path, slot, path.len())\<close>\<close>
  "copy_path path slot = path @ drop (length path) slot"

section \<open>The program a task is replaced by\<close>

definition request_exec :: "nat \<Rightarrow> byte list \<Rightarrow> launcher \<Rightarrow> bool \<times> launcher" where
  "request_exec task path l =
     (if task \<ge> MAX_TASKS \<or> path = [] \<or> length path \<ge> LAUNCH_PATH then (False, l)
      else (True, l\<lparr>l_exec := (l_exec l)[task := copy_path path (l_exec l ! task)],
                    l_exec_len := (l_exec_len l)[task := length path]\<rparr>))"

definition take_exec :: "nat \<Rightarrow> launcher \<Rightarrow> byte list option \<times> launcher" where
  "take_exec task l =
     (if task \<ge> MAX_TASKS then (None, l)
      else let len = l_exec_len l ! task in
      if len = 0 then (None, l)
      else let path = take len (l_exec l ! task); l = l\<lparr>l_exec_len := (l_exec_len l)[task := 0]\<rparr>
           in (if utf8_valid path then Some path else None, l))"

section \<open>The programs that wait for a task\<close>

definition push_pending :: "byte list \<Rightarrow> launcher \<Rightarrow> bool \<times> launcher" where
  "push_pending path l =
     (let head = l_head l; next_head = (head + 1) mod MAX_PENDING in
      if next_head = l_tail l then (False, l)
      else (True, l\<lparr>l_pending := (l_pending l)[head := copy_path path (l_pending l ! head)],
                    l_pending_len := (l_pending_len l)[head := length path], l_head := next_head\<rparr>))"

definition take_pending :: "launcher \<Rightarrow> byte list option \<times> launcher" where
  "take_pending l =
     (let tail = l_tail l in
      if tail = l_head l then (None, l)
      else let path = take (l_pending_len l ! tail) (l_pending l ! tail); l = l\<lparr>l_tail := (tail + 1) mod MAX_PENDING\<rparr>
           in (if utf8_valid path then Some path else None, l))"

section \<open>The queue\<close>

definition launcher_inv :: "launcher \<Rightarrow> bool" where
  "launcher_inv l \<longleftrightarrow> length (l_pending l) = MAX_PENDING \<and> length (l_pending_len l) = MAX_PENDING \<and>
     l_head l < MAX_PENDING \<and> l_tail l < MAX_PENDING \<and> (\<forall>s\<in>set (l_pending l). length s = LAUNCH_PATH) \<and>
     length (l_exec l) = MAX_TASKS \<and> length (l_exec_len l) = MAX_TASKS \<and> (\<forall>s\<in>set (l_exec l). length s = LAUNCH_PATH) \<and>
     (\<forall>n\<in>set (l_pending_len l). n < LAUNCH_PATH) \<and> (\<forall>n\<in>set (l_exec_len l). n < LAUNCH_PATH)"

definition slot_paths :: "launcher \<Rightarrow> byte list list" where
  "slot_paths l = map2 take (l_pending_len l) (l_pending l)"

definition waiting_paths :: "launcher \<Rightarrow> byte list list" where
  "waiting_paths l = ring_list MAX_PENDING (slot_paths l) (l_head l) (l_tail l)"

lemma launcher_invD:
  assumes "launcher_inv l"
  shows "length (l_pending l) = MAX_PENDING" "length (l_pending_len l) = MAX_PENDING" "l_head l < MAX_PENDING" "l_tail l < MAX_PENDING"
    "\<And>i. i < MAX_PENDING \<Longrightarrow> length (l_pending l ! i) = LAUNCH_PATH" "\<And>i. i < MAX_TASKS \<Longrightarrow> length (l_exec l ! i) = LAUNCH_PATH"
    "length (l_exec l) = MAX_TASKS" "length (l_exec_len l) = MAX_TASKS" "\<And>i. i < MAX_PENDING \<Longrightarrow> l_pending_len l ! i < LAUNCH_PATH"
    "\<And>i. i < MAX_TASKS \<Longrightarrow> l_exec_len l ! i < LAUNCH_PATH"
  using assms unfolding launcher_inv_def by (auto intro: nth_mem)

lemma length_copy_path: "length path \<le> length slot \<Longrightarrow> length (copy_path path slot) = length slot"
  by (simp add: copy_path_def)

lemma slot_paths_update:
  assumes "launcher_inv l" "i < MAX_PENDING" "length path < LAUNCH_PATH"
  shows "slot_paths (l\<lparr>l_pending := (l_pending l)[i := copy_path path (l_pending l ! i)],
     l_pending_len := (l_pending_len l)[i := length path]\<rparr>) = (slot_paths l)[i := path]"
  using launcher_invD(1,2,5) [OF assms(1)] assms(2,3)
  by (intro nth_equalityI) (auto simp: slot_paths_def nth_list_update copy_path_def nth_append)

lemma push_pending_result:
  assumes "launcher_inv l" "length path < LAUNCH_PATH" "push_pending path l = (ok, l')"
  shows "ok = (length (waiting_paths l) < MAX_PENDING - 1) \<and> waiting_paths l' = (if ok then waiting_paths l @ [path] else waiting_paths l)"
    and "launcher_inv l'"
proof -
  note I = launcher_invD [OF assms(1)]
  have len: "length (slot_paths l) = 8" using I(1,2) by (simp add: slot_paths_def)
  have full: "(l_head l + 1) mod 8 = l_tail l \<longleftrightarrow> length (waiting_paths l) = 7"
    using ring_full_iff [OF I(3,4)] by (simp add: waiting_paths_def)
  have le: "length (waiting_paths l) < 8" using ring_len_less [OF I(3)] by (simp add: waiting_paths_def)
  show "ok = (length (waiting_paths l) < MAX_PENDING - 1) \<and> waiting_paths l' = (if ok then waiting_paths l @ [path] else waiting_paths l)"
  proof (cases "(l_head l + 1) mod 8 = l_tail l")
    case True
    then show ?thesis using assms(3) full by (simp add: push_pending_def Let_def)
  next
    case False
    have l': "ok" "l' = l\<lparr>l_pending := (l_pending l)[l_head l := copy_path path (l_pending l ! l_head l)],
        l_pending_len := (l_pending_len l)[l_head l := length path], l_head := (l_head l + 1) mod 8\<rparr>"
      using assms(3) False by (simp_all add: push_pending_def Let_def)
    have sp: "slot_paths l' = (slot_paths l)[l_head l := path]"
      using slot_paths_update [OF assms(1) I(3) assms(2)] unfolding l' by (simp add: slot_paths_def)
    have "waiting_paths l' = waiting_paths l @ [path]"
      using ring_put [OF len I(3,4) False, of path] unfolding waiting_paths_def sp by (simp add: l')
    moreover have "length (waiting_paths l) < 7" using le full False by linarith
    ultimately show ?thesis using l'(1) by simp
  qed
  show "launcher_inv l'"
  proof (cases "(l_head l + 1) mod 8 = l_tail l")
    case True
    then show ?thesis using assms by (simp add: push_pending_def Let_def)
  next
    case False
    have "length (copy_path path (l_pending l ! l_head l)) = LAUNCH_PATH"
      using I(5) [OF I(3)] assms(2) by (simp add: length_copy_path)
    then show ?thesis using assms False by (auto simp: push_pending_def Let_def launcher_inv_def
      dest!: set_update_subset_insert [THEN subsetD])
  qed
qed

lemma take_pending_result:
  assumes "launcher_inv l"
  shows "waiting_paths l = [] \<and> take_pending l = (None, l) \<or>
     (\<exists>l'. take_pending l = (if utf8_valid (hd (waiting_paths l)) then Some (hd (waiting_paths l)) else None, l') \<and>
        waiting_paths l = hd (waiting_paths l) # waiting_paths l' \<and> launcher_inv l')"
proof -
  note I = launcher_invD [OF assms]
  have len: "length (slot_paths l) = 8" using I(1,2) by (simp add: slot_paths_def)
  show ?thesis
  proof (cases "l_tail l = l_head l")
    case True
    then show ?thesis using I(3) by (simp add: take_pending_def waiting_paths_def ring_empty)
  next
    case False
    let ?l = "l\<lparr>l_tail := (l_tail l + 1) mod 8\<rparr>"
    have at: "slot_paths l ! l_tail l = take (l_pending_len l ! l_tail l) (l_pending l ! l_tail l)"
      using I(1,2,4) by (simp add: slot_paths_def)
    have g: "waiting_paths l = slot_paths l ! l_tail l # waiting_paths ?l"
      using ring_get [OF I(3,4)] False by (simp add: waiting_paths_def slot_paths_def)
    have t: "take_pending l = (if utf8_valid (slot_paths l ! l_tail l) then Some (slot_paths l ! l_tail l) else None, ?l)"
      using False unfolding take_pending_def Let_def at by simp
    have "launcher_inv ?l" using assms by (simp add: launcher_inv_def)
    moreover have "hd (waiting_paths l) = slot_paths l ! l_tail l" by (subst g) simp
    ultimately show ?thesis using t g by (intro disjI2 exI [of _ ?l]) simp
  qed
qed

lemma launcher_inv_init: "launcher_inv launcher_init"
  by (simp add: launcher_inv_def launcher_init_def)

lemma request_exec_take:
  assumes "launcher_inv l" "task < MAX_TASKS" "request_exec task path l = (True, l')" "utf8_valid path"
  shows "fst (take_exec task l') = Some path \<and> fst (take_exec task (snd (take_exec task l'))) = None"
  using assms launcher_invD(6,7,8) [OF assms(1)]
  by (auto simp: request_exec_def take_exec_def Let_def copy_path_def split: if_splits)

end
