(* ===== verification/KernelApi.thy ===== *)
theory KernelApi imports Vfs WmProps Fd Launcher SchedFair Ipc begin

text \<open>
  The kernel interface behind both translators, \<^verbatim>\<open>kernel/src/level0a/kernel_api.rs\<close>: reading and
  writing through descriptors, opening and closing, what \<open>poll\<close> may report, the program break and the
  end of a task.  The record \<open>machine\<close> holds the state of every component the calls reach.

  The memory a call is given (\<open>from_raw_parts\<close>) is a list of bytes; the address of the buffer is an
  argument of its own, because only its being null is looked at.  The time of day is an argument, as
  in \<open>Vfs\<close>.  \<open>k_ram\<close> is memory outside the regions of programs, \<open>k_user\<close> the region of a program
  in each address space; \<open>memory\<close> is what the loaded page tables show.  \<open>k_child_context\<close> and
  \<open>k_child_pending\<close> are the tables of \<^verbatim>\<open>level0b1/fork.rs\<close>, \<open>k_console\<close> what programs wrote to the
  console; the messages the kernel prints are left out.
\<close>

section \<open>State\<close>

datatype kernel_error = BadFileDescriptor | FaultError | NotFoundError | TooManyOpenFiles | NotSupported

record program_break =
  pb_current :: nat
  pb_start :: nat
  pb_limit :: nat

definition break_new :: program_break where
  "break_new = \<lparr>pb_current = 0, pb_start = 0, pb_limit = 0\<rparr>"

record 'd machine =
  k_sched :: sched
  k_fds :: fds
  k_vfs :: "'d vfs"
  k_gui :: gui
  k_input :: input_state
  k_breaks :: "program_break list"
  k_mmu :: mmu
  k_ipc :: ipc
  k_sig :: signals
  k_launch :: launcher
  k_child_context :: "user_context list"
  k_child_pending :: "bool list"
  k_ram :: umem
  k_user :: "nat \<Rightarrow> umem"
  k_console :: "byte list"

abbreviation (input) FD_STDIN :: nat where "FD_STDIN \<equiv> 0"
abbreviation (input) FD_STDOUT :: nat where "FD_STDOUT \<equiv> 1"
abbreviation (input) FD_STDERR :: nat where "FD_STDERR \<equiv> 2"

text \<open>\<open>scheduler::current_id\<close>.\<close>

abbreviation current_id :: "'d machine \<Rightarrow> nat" where
  "current_id k \<equiv> current (k_sched k)"

text \<open>Memory under the loaded page tables.\<close>

definition in_own :: "'d machine \<Rightarrow> usize \<Rightarrow> bool" where
  "in_own k x \<longleftrightarrow> user_region x \<and> mm_cr3 (k_mmu k) \<noteq> mm_kernel (k_mmu k)"

definition memory :: "'d machine \<Rightarrow> umem" where
  "memory k x = (if in_own k x then k_user k (mm_cr3 (k_mmu k)) x else k_ram k x)"

definition set_memory :: "umem \<Rightarrow> 'd machine \<Rightarrow> 'd machine" where
  "set_memory m k =
     (let c = mm_cr3 (k_mmu k)
      in k\<lparr>k_ram := (\<lambda>x. if in_own k x then k_ram k x else m x),
           k_user := (k_user k)(c := (\<lambda>x. if in_own k x then m x else k_user k c x))\<rparr>)"

lemma memory_set_memory [simp]: "memory (set_memory m k) = m"
  by (rule ext) (simp add: memory_def set_memory_def in_own_def Let_def)

lemma set_memory_fields [simp]:
  "k_sched (set_memory m k) = k_sched k" "k_fds (set_memory m k) = k_fds k" "k_vfs (set_memory m k) = k_vfs k"
  "k_gui (set_memory m k) = k_gui k" "k_input (set_memory m k) = k_input k" "k_breaks (set_memory m k) = k_breaks k"
  "k_mmu (set_memory m k) = k_mmu k" "k_ipc (set_memory m k) = k_ipc k" "k_sig (set_memory m k) = k_sig k"
  "k_launch (set_memory m k) = k_launch k" "k_child_context (set_memory m k) = k_child_context k"
  "k_child_pending (set_memory m k) = k_child_pending k" "k_console (set_memory m k) = k_console k"
  by (simp_all add: set_memory_def Let_def)

section \<open>The program break\<close>

definition current_break :: "'d machine \<Rightarrow> program_break" where
  "current_break k = k_breaks k ! (current_id k mod MAX_TASKS)"

definition set_break :: "nat \<Rightarrow> program_break \<Rightarrow> 'd machine \<Rightarrow> 'd machine" where
  "set_break task b k = k\<lparr>k_breaks := (k_breaks k)[task := b]\<rparr>"

definition set_program_break :: "nat \<Rightarrow> nat \<Rightarrow> 'd machine \<Rightarrow> 'd machine" where
  "set_program_break start limit k =
     set_break (current_id k mod MAX_TASKS) \<lparr>pb_current = start, pb_start = start, pb_limit = limit\<rparr> k"

definition clone_program_break :: "nat \<Rightarrow> 'd machine \<Rightarrow> 'd machine" where
  "clone_program_break child k = (if child \<ge> MAX_TASKS then k else set_break child (current_break k) k)"

definition brk :: "nat \<Rightarrow> 'd machine \<Rightarrow> nat \<times> 'd machine" where
  "brk requested k =
     (let b = current_break k in
      if requested = 0 then (pb_current b, k)
      else if requested < pb_start b \<or> requested > pb_limit b then (pb_current b, k)
      else (requested, set_break (current_id k mod MAX_TASKS) (b\<lparr>pb_current := requested\<rparr>) k))"

section \<open>Descriptors\<close>

definition api_write :: "nat \<Rightarrow> nat \<Rightarrow> usize \<Rightarrow> byte list \<Rightarrow> 'd machine \<Rightarrow> (kernel_error, nat) outcome \<times> 'd machine" where
  "api_write now fd_num buf bytes k =
     (if buf = 0 then (Err FaultError, k)
      else case fd_get (current_id k) fd_num (k_fds k) of
        Some entry \<Rightarrow>
          (case fd_kind entry of
             PipeWrite \<Rightarrow>
               (case pipe_write (fd_node entry) bytes (fd_pipes (k_fds k)) of
                  (n, ps) \<Rightarrow> (Ok n, k\<lparr>k_fds := (k_fds k)\<lparr>fd_pipes := ps\<rparr>\<rparr>))
           | PipeRead \<Rightarrow> (Err BadFileDescriptor, k)
           | File \<Rightarrow>
               (case write_at now (fd_node entry) (fd_offset entry) bytes (k_vfs k) of
                  (Ok n, v) \<Rightarrow> (Ok n, k\<lparr>k_vfs := v, k_fds := fd_advance (current_id k) fd_num n (k_fds k)\<rparr>)
                | (Err _, v) \<Rightarrow> (Err NotSupported, k\<lparr>k_vfs := v\<rparr>)
                | (Panic, v) \<Rightarrow> (Panic, k\<lparr>k_vfs := v\<rparr>)))
      | None \<Rightarrow>
          if fd_num = FD_STDOUT \<or> fd_num = FD_STDERR
          then (Ok (length bytes), k\<lparr>k_console := k_console k @ bytes\<rparr>)
          else (Err BadFileDescriptor, k))"

definition api_open :: "nat \<Rightarrow> byte list \<Rightarrow> bool \<Rightarrow> 'd machine \<Rightarrow> (kernel_error, nat) outcome \<times> 'd machine" where
  "api_open now path creat k =
     (let alloc = (\<lambda>node k. case fd_allocate (current_id k) node (k_fds k) of
                     (None, f) \<Rightarrow> (Err TooManyOpenFiles, k\<lparr>k_fds := f\<rparr>)
                   | (Some fd, f) \<Rightarrow> (Ok fd, k\<lparr>k_fds := f\<rparr>))
      in case vfs_lookup (k_vfs k) path of
           Some node \<Rightarrow> alloc node k
         | None \<Rightarrow>
             if creat
             then (case create_file now path (k_vfs k) of
                     (Ok node, v) \<Rightarrow> alloc node (k\<lparr>k_vfs := v\<rparr>)
                   | (Err _, v) \<Rightarrow> (Err NotFoundError, k\<lparr>k_vfs := v\<rparr>)
                   | (Panic, v) \<Rightarrow> (Panic, k\<lparr>k_vfs := v\<rparr>))
             else (Err NotFoundError, k))"

text \<open>The caller's buffer comes back with what was read at its front.\<close>

definition api_read :: "nat \<Rightarrow> usize \<Rightarrow> byte list \<Rightarrow> 'd machine \<Rightarrow> (kernel_error, nat) outcome \<times> byte list \<times> 'd machine" where
  "api_read fd_num buf out_buf k =
     (if buf = 0 then (Err FaultError, out_buf, k)
      else case fd_get (current_id k) fd_num (k_fds k) of
        Some entry \<Rightarrow>
          (case fd_kind entry of
             PipeRead \<Rightarrow>
               (case pipe_read (fd_node entry) (length out_buf) (fd_pipes (k_fds k)) of
                  (out, ps) \<Rightarrow>
                    (Ok (length out), out @ drop (length out) out_buf, k\<lparr>k_fds := (k_fds k)\<lparr>fd_pipes := ps\<rparr>\<rparr>))
           | PipeWrite \<Rightarrow> (Err BadFileDescriptor, out_buf, k)
           | File \<Rightarrow>
               (case vfs_read (fd_node entry) (fd_offset entry) out_buf (k_vfs k) of
                  (Ok n, out_buf, v) \<Rightarrow>
                    (Ok n, out_buf, k\<lparr>k_vfs := v, k_fds := fd_advance (current_id k) fd_num n (k_fds k)\<rparr>)
                | (Err _, out_buf, v) \<Rightarrow> (Err BadFileDescriptor, out_buf, k\<lparr>k_vfs := v\<rparr>)
                | (Panic, out_buf, v) \<Rightarrow> (Panic, out_buf, k\<lparr>k_vfs := v\<rparr>)))
      | None \<Rightarrow>
          if fd_num = FD_STDIN
          then (case first_window_of (current_id k) (k_gui k) of
                  None \<Rightarrow> (Ok 0, out_buf, k)
                | Some window \<Rightarrow>
                    (case take_keys (length out_buf) window (k_gui k) of
                       (keys, g) \<Rightarrow> (Ok (length keys), keys @ drop (length keys) out_buf, k\<lparr>k_gui := g\<rparr>)))
          else (Err BadFileDescriptor, out_buf, k))"

definition api_pipe :: "'d machine \<Rightarrow> (kernel_error, nat \<times> nat) outcome \<times> 'd machine" where
  "api_pipe k =
     (case create_pipe (current_id k) (k_fds k) of
        (None, f) \<Rightarrow> (Err TooManyOpenFiles, k\<lparr>k_fds := f\<rparr>)
      | (Some fds, f) \<Rightarrow> (Ok fds, k\<lparr>k_fds := f\<rparr>))"

definition api_close :: "nat \<Rightarrow> 'd machine \<Rightarrow> (kernel_error, unit) outcome \<times> 'd machine" where
  "api_close fd_num k =
     (case fd_close (current_id k) fd_num (k_fds k) of
        (True, f) \<Rightarrow> (Ok (), k\<lparr>k_fds := f\<rparr>)
      | (False, f) \<Rightarrow> (Err BadFileDescriptor, k\<lparr>k_fds := f\<rparr>))"

section \<open>Readiness\<close>

abbreviation (input) POLLIN :: "16 word" where "POLLIN \<equiv> 0x001"
abbreviation (input) POLLOUT :: "16 word" where "POLLOUT \<equiv> 0x004"
abbreviation (input) POLLERR :: "16 word" where "POLLERR \<equiv> 0x008"
abbreviation (input) POLLHUP :: "16 word" where "POLLHUP \<equiv> 0x010"
abbreviation (input) POLLNVAL :: "16 word" where "POLLNVAL \<equiv> 0x020"

definition readiness :: "nat \<Rightarrow> 'd machine \<Rightarrow> 16 word" where
  "readiness fd_num k =
     (case fd_get (current_id k) fd_num (k_fds k) of
        Some entry \<Rightarrow>
          (case fd_kind entry of
             File \<Rightarrow> POLLIN OR POLLOUT
           | PipeRead \<Rightarrow>
               (case pipe_info 64 (fd_node entry) (fd_pipes (k_fds k)) of
                  Some (pending, writers, _) \<Rightarrow>
                    (if pending > 0 then POLLIN else 0) OR (if writers = 0 then POLLHUP else 0)
                | None \<Rightarrow> POLLNVAL)
           | PipeWrite \<Rightarrow>
               (case pipe_info 64 (fd_node entry) (fd_pipes (k_fds k)) of
                  Some (pending, _, readers) \<Rightarrow>
                    if readers = 0 then POLLERR else if pending < PIPE_CAPACITY then POLLOUT else 0
                | None \<Rightarrow> POLLNVAL))
      | None \<Rightarrow>
          if fd_num = FD_STDIN
          then (case first_window_of (current_id k) (k_gui k) of
                  Some window \<Rightarrow> if has_key window (k_gui k) then POLLIN else 0
                | None \<Rightarrow> 0)
          else if fd_num = FD_STDOUT \<or> fd_num = FD_STDERR then POLLOUT
          else POLLNVAL)"

section \<open>The end of a task\<close>

text \<open>
  What \<open>terminate_current\<close> and \<open>terminate\<close> of the scheduler do around their critical sections
  (\<open>mark_current_terminated\<close>, \<open>mark_terminated\<close>): the descriptors are closed, and for a task
  that is killed its windows and its address space go too.
\<close>

definition end_current :: "'d machine \<Rightarrow> 'd machine" where
  "end_current k =
     (let k = k\<lparr>k_fds := fd_close_all (current_id k) (k_fds k)\<rparr>
      in k\<lparr>k_sched := mark_current_terminated (k_sched k)\<rparr>)"

definition release_task :: "nat \<Rightarrow> nat \<Rightarrow> 'd machine \<Rightarrow> 'd machine" where
  "release_task index space k =
     (let k = k\<lparr>k_gui := snd (close_owned_by index (k_gui k)), k_fds := fd_close_all index (k_fds k)\<rparr>
      in if space \<noteq> 0 then k\<lparr>k_mmu := destroy_user_space space (k_mmu k)\<rparr> else k)"

definition terminate :: "nat \<Rightarrow> 'd machine \<Rightarrow> (string, unit) outcome \<times> 'd machine" where
  "terminate index k =
     (case mark_terminated index (k_sched k) of
        (Ok space, s) \<Rightarrow> (Ok (), release_task index space (k\<lparr>k_sched := s\<rparr>))
      | (Err e, s) \<Rightarrow> (Err e, k\<lparr>k_sched := s\<rparr>)
      | (Panic, s) \<Rightarrow> (Panic, k\<lparr>k_sched := s\<rparr>))"

text \<open>
  A program in Ring 3 leaves through the saved kernel context and its task goes on from the call
  that entered Ring 3; a task of the kernel is terminated here.
\<close>

datatype exit_path = LeaveRing3 | TerminateTask

definition exit_current_task :: "nat \<Rightarrow> 'd machine \<Rightarrow> exit_path \<times> 'd machine" where
  "exit_current_task code k =
     (let s = set_current_exit_code code (k_sched k);
          me = task_at s (current s);
          i = snd (post AppExit (current s) code 0 (t_name me) (ticks s) (k_ipc k));
          k = k\<lparr>k_sched := s, k_ipc := i\<rparr>
      in if t_in_user me then (LeaveRing3, k) else (TerminateTask, end_current k))"

end
