(* ===== verification/Process.thy ===== *)
theory Process imports KernelApi Elf64 Pe64 PagingProps begin

text \<open>
  How programs start, fork and end: \<^verbatim>\<open>kernel/src/level0b1/process.rs\<close>, \<^verbatim>\<open>level0b1/fork.rs\<close> and the task
  of \<^verbatim>\<open>level0a/launcher.rs\<close>.  A call that leaves for Ring 3 and goes on when the program has ended is
  split there: what it did before is the value \<open>Entered\<close> with the entry point and the stack, what it
  does afterwards is \<open>program_ended\<close>.  The loop of the launcher is a state machine with one step for
  each turn.
\<close>

section \<open>Loading\<close>

datatype binary_format = Elf64Format | Pe32Plus

datatype spawn_error = AddressSpaceBusy | ElfFailed elf_error | PeFailed pe_error | OutOfMemory | NoRoomForStack | ProgramNotFound

record prepared =
  pr_entry :: nat
  pr_end :: nat
  pr_format :: binary_format

definition prepared_elf :: "(spawn_error \<Rightarrow> spawn_error) \<Rightarrow> (elf_error, loaded_image) outcome \<times> umem \<Rightarrow> (spawn_error, prepared) outcome \<times> umem" where
  "prepared_elf f r =
     (case r of
        (Ok img, m) \<Rightarrow> (Ok \<lparr>pr_entry = li_entry img, pr_end = li_end img, pr_format = Elf64Format\<rparr>, m)
      | (Err e, m) \<Rightarrow> (Err (f (ElfFailed e)), m)
      | (Panic, m) \<Rightarrow> (Panic, m))"

definition detect_and_load :: "byte list \<Rightarrow> umem \<Rightarrow> (spawn_error, prepared) outcome \<times> umem" where
  "detect_and_load img m =
     (if is_pe img
      then (case pe_load img m of
              (Ok p, m) \<Rightarrow> (Ok \<lparr>pr_entry = pe_entry p, pr_end = pe_end p, pr_format = Pe32Plus\<rparr>, m)
            | (Err e, m) \<Rightarrow> prepared_elf (\<lambda>_. PeFailed e) (elf_load img m)
            | (Panic, m) \<Rightarrow> (Panic, m))
      else prepared_elf (\<lambda>e. e) (elf_load img m))"

section \<open>Address spaces of tasks\<close>

abbreviation (input) USER_STACK_SIZE :: nat where "USER_STACK_SIZE \<equiv> 8192"
abbreviation (input) KERNEL_STACK_SIZE :: nat where "KERNEL_STACK_SIZE \<equiv> 16384"

text \<open>\<open>mmu::switch_to\<close>: CR3 is one register, which the scheduler loads too.\<close>

definition load_space :: "nat \<Rightarrow> 'd machine \<Rightarrow> 'd machine" where
  "load_space c k =
     (let m = switch_to c (k_mmu k) in k\<lparr>k_mmu := m, k_sched := (k_sched k)\<lparr>cr3 := mm_cr3 m\<rparr>\<rparr>)"

definition release_space :: "nat option \<Rightarrow> 'd machine \<Rightarrow> 'd machine" where
  "release_space space k =
     (case space of None \<Rightarrow> k
      | Some c \<Rightarrow>
          (let k = k\<lparr>k_sched := set_current_address_space 0 (k_sched k)\<rparr>;
               k = load_space (mm_kernel (k_mmu k)) k
           in k\<lparr>k_mmu := destroy_user_space c (k_mmu k)\<rparr>))"

text \<open>A fresh space shows zeros in the region of programs, page by page as they are touched.\<close>

definition enter_space :: "nat \<Rightarrow> 'd machine \<Rightarrow> 'd machine" where
  "enter_space c k =
     (let k = load_space c k
      in k\<lparr>k_sched := set_current_address_space c (k_sched k), k_user := (k_user k)(c := (\<lambda>_. 0))\<rparr>)"

section \<open>Into Ring 3 and back\<close>

datatype start = Entered nat nat | Failed spawn_error | LoaderPanic

definition enter_ring3 :: "prepared \<Rightarrow> nat option \<Rightarrow> 'd machine \<Rightarrow> start \<times> 'd machine" where
  "enter_ring3 p space k =
     (let stack_bottom = (pr_end p + 0xFFF) div 4096 * 4096; stack_top = stack_bottom + USER_STACK_SIZE in
      if stack_top > USER_MEM_START + USER_MAP_SIZE then (Failed NoRoomForStack, k)
      else let k = (case space of Some _ \<Rightarrow> k
                    | None \<Rightarrow> k\<lparr>k_mmu := protect_user_range USER_MEM_START (stack_top - USER_MEM_START) (k_mmu k)\<rparr>);
               k = set_program_break (pr_end p) stack_bottom k;
               k = k\<lparr>k_sig := sig_reset (current_id k) (k_sig k)\<rparr> in
      case kmalloc_aligned (of_nat KERNEL_STACK_SIZE) 16 (next_free (k_sched k)) of
        None \<Rightarrow> (Failed OutOfMemory, k)
      | Some (kstack, h) \<Rightarrow>
          (let s = (k_sched k)\<lparr>next_free := h, hw_kstack := unat kstack + KERNEL_STACK_SIZE\<rparr>
           in (Entered (pr_entry p) (stack_top - 16), k\<lparr>k_sched := set_current_in_user_mode True s\<rparr>)))"

definition load_and_enter :: "byte list \<Rightarrow> nat option \<Rightarrow> 'd machine \<Rightarrow> start \<times> 'd machine" where
  \<comment> \<open>from \<open>detect_and_load\<close> on; the space is released when the program does not run\<close>
  "load_and_enter img space k =
     (case detect_and_load img (memory k) of
        (Err e, m) \<Rightarrow> (Failed e, release_space space (set_memory m k))
      | (Panic, m) \<Rightarrow> (LoaderPanic, set_memory m k)
      | (Ok p, m) \<Rightarrow>
          (case enter_ring3 p space (set_memory m k) of
             (Entered e sp, k) \<Rightarrow> (Entered e sp, k)
           | (r, k) \<Rightarrow> (r, release_space space k)))"

definition run_image :: "byte list \<Rightarrow> 'd machine \<Rightarrow> start \<times> nat option \<times> 'd machine" where
  \<comment> \<open>with the space the program runs in\<close>
  "run_image img k =
     (let (space, m) = create_user_space (k_mmu k); k = k\<lparr>k_mmu := m\<rparr> in
      if space = None \<and> user_task_count (k_sched k) > 0 then (Failed AddressSpaceBusy, space, k)
      else case space of
        None \<Rightarrow> (case load_and_enter img None k of (r, k) \<Rightarrow> (r, None, k))
      | Some c \<Rightarrow>
          (let k = enter_space c k; (ok, m) = reserve_user_range c USER_MEM_START USER_MAP_SIZE (k_mmu k);
               k = k\<lparr>k_mmu := m\<rparr> in
           if \<not> ok then (Failed OutOfMemory, space, release_space space k)
           else (case load_and_enter img space k of (r, k) \<Rightarrow> (r, space, k))))"

text \<open>The program has left Ring 3 (\<open>leave_user_mode\<close>) and \<open>run_image\<close> goes on.\<close>

definition program_ended :: "nat option \<Rightarrow> 'd machine \<Rightarrow> 'd machine" where
  "program_ended space k = release_space space (k\<lparr>k_sched := set_current_in_user_mode False (k_sched k)\<rparr>)"

definition run_from_vfs :: "byte list \<Rightarrow> 'd machine \<Rightarrow> start \<times> nat option \<times> 'd machine" where
  "run_from_vfs path k =
     (case vfs_lookup (k_vfs k) path of
        None \<Rightarrow> (Failed ProgramNotFound, None, k)
      | Some node \<Rightarrow>
          (case vfs_load node (next_free (k_sched k)) (k_vfs k) of
             (r, heap, v) \<Rightarrow>
               (let k = k\<lparr>k_vfs := v, k_sched := (k_sched k)\<lparr>next_free := heap\<rparr>\<rparr> in
                case r of Ok img \<Rightarrow> run_image img k
                | Err _ \<Rightarrow> (Failed ProgramNotFound, None, k)
                | Panic \<Rightarrow> (LoaderPanic, None, k))))"

section \<open>The launcher\<close>

definition KNOWN_APPS :: "(byte list \<times> byte list \<times> string) list" where
  "KNOWN_APPS =
     map (\<lambda>n. (ascii n, ascii (''/bin/'' @ n), n))
       [''paint'', ''plasma'', ''crash'', ''hog'', ''spin'', ''notes'', ''menu'', ''twins'', ''relay'', ''echo2'',
        ''sigdemo'', ''race'', ''reaper'', ''redirect'', ''mux''] @
     map (\<lambda>n. (ascii n, ascii (''/bin/'' @ n @ ''.exe''), n)) [''winclock'', ''winpad'']"

definition app_resolve :: "byte list \<Rightarrow> 'd machine \<Rightarrow> (byte list \<times> string) option" where
  "app_resolve path k =
     (case find (\<lambda>(short, full, _). short = path \<or> full = path) KNOWN_APPS of
        Some (_, full, task) \<Rightarrow> Some (full, task)
      | None \<Rightarrow> if vfs_lookup (k_vfs k) path \<noteq> None then Some (path, ''app'') else None)"

definition spawn_user_app :: "byte list \<Rightarrow> 'd machine \<Rightarrow> (string, unit) outcome \<times> 'd machine" where
  "spawn_user_app path k =
     (case app_resolve path k of
        None \<Rightarrow> (Err ''bilinmeyen uygulama ('apps'/'ls' ile listeleyin)'', k)
      | Some (resolved, task_name) \<Rightarrow>
          if length resolved \<ge> LAUNCH_PATH then (Err ''yol cok uzun'', k)
          else case push_pending resolved (k_launch k) of
            (False, l) \<Rightarrow> (Err ''baslatma kuyrugu dolu'', k\<lparr>k_launch := l\<rparr>)
          | (True, l) \<Rightarrow>
              (case spawn task_name (k_sched k) of
                 (None, s) \<Rightarrow> (Err ''gorev olusturulamadi'', k\<lparr>k_launch := l, k_sched := s\<rparr>)
               | (Some i, s) \<Rightarrow>
                   (Ok (), k\<lparr>k_launch := l, k_sched := s, k_ipc := snd (post AppStart i 0 0 task_name (ticks s) (k_ipc k))\<rparr>)))"

text \<open>
  The task that runs a program: waiting for its next turn with the program to start, if there is one;
  running it in Ring 3; or at its end.
\<close>

datatype app_state = AppLoop "byte list option" | AppRunning nat nat "nat option" | AppEnded | AppPanic

definition close_windows :: "'d machine \<Rightarrow> 'd machine" where
  "close_windows k = k\<lparr>k_gui := snd (close_owned_by (current_id k) (k_gui k))\<rparr>"

definition app_begin :: "'d machine \<Rightarrow> app_state \<times> 'd machine" where
  "app_begin k = (case take_pending (k_launch k) of (path, l) \<Rightarrow> (AppLoop path, k\<lparr>k_launch := l\<rparr>))"

definition app_next :: "'d machine \<Rightarrow> app_state \<times> 'd machine" where
  "app_next k =
     (case take_exec (current_id k) (k_launch k) of
        (None, l) \<Rightarrow> (AppLoop None, k\<lparr>k_launch := l\<rparr>)
      | (Some path, l) \<Rightarrow> (AppLoop (Some path), close_windows (k\<lparr>k_launch := l\<rparr>)))"

fun app_step :: "app_state \<Rightarrow> 'd machine \<Rightarrow> app_state \<times> 'd machine" where
  "app_step (AppLoop (Some path)) k =
     (case run_from_vfs path k of
        (Entered e sp, space, k) \<Rightarrow> (AppRunning e sp space, k)
      | (Failed _, _, k) \<Rightarrow> app_next k
      | (LoaderPanic, _, k) \<Rightarrow> (AppPanic, k))"
| "app_step (AppLoop None) k = (AppEnded, end_current (close_windows k))"
| "app_step (AppRunning e sp space) k = app_next (program_ended space k)"  \<comment> \<open>when the program has left Ring 3\<close>
| "app_step AppEnded k = (AppEnded, k)"
| "app_step AppPanic k = (AppPanic, k)"

section \<open>Fork\<close>

datatype fork_error = NotUserProcess | OutOfResources

definition fork :: "syscall_frame \<Rightarrow> 'd machine \<Rightarrow> (fork_error, nat) outcome \<times> 'd machine" where
  "fork frame k =
     (let parent = current_id k; parent_space = t_space (task_at (k_sched k) parent) in
      if parent_space = 0 \<or> \<not> t_in_user (task_at (k_sched k) parent) then (Err NotUserProcess, k)
      else case clone_user_space parent_space (k_mmu k) of
        (None, m) \<Rightarrow> (Err OutOfResources, k\<lparr>k_mmu := m\<rparr>)
      | (Some child_space, m) \<Rightarrow>
          (let k = k\<lparr>k_mmu := m, k_user := (k_user k)(child_space := k_user k parent_space)\<rparr> in
           case spawn_child ''fork'' (k_sched k) of
             (None, s) \<Rightarrow> (Err OutOfResources, k\<lparr>k_sched := s, k_mmu := destroy_user_space child_space (k_mmu k)\<rparr>)
           | (Some child, s) \<Rightarrow>
               (let k = k\<lparr>k_sched := s,
                          k_child_context := (k_child_context k)[child := (frame_user_context frame)\<lparr>uc_rax := 0\<rparr>],
                          k_child_pending := (k_child_pending k)[child := True],
                          k_fds := fd_clone_into parent child (k_fds k)\<rparr>;
                    k = clone_program_break child k;
                    k = k\<lparr>k_sig := clone_into child (k_sched k) (k_sig k)\<rparr>
                in (Ok child, k\<lparr>k_sched := set_address_space child child_space (k_sched k)\<rparr>))))"

text \<open>The task of the child, before Ring 3 and after it.\<close>

definition child_begin :: "'d machine \<Rightarrow> user_context option \<times> 'd machine" where
  "child_begin k =
     (let i = current_id k in
      if \<not> k_child_pending k ! i then (None, end_current k)
      else (Some (k_child_context k ! i),
            k\<lparr>k_child_pending := (k_child_pending k)[i := False], k_sched := set_current_in_user_mode True (k_sched k)\<rparr>))"

definition child_ended :: "'d machine \<Rightarrow> 'd machine" where
  "child_ended k =
     (let k = close_windows (k\<lparr>k_sched := set_current_in_user_mode False (k_sched k)\<rparr>);
          space = t_space (task_at (k_sched k) (current_id k))
      in end_current (if space = 0 then k else release_space (Some space) k))"

end
