(* ===== verification/KernelProps.thy ===== *)
theory KernelProps imports KernelApi begin

text \<open>
  Properties of the kernel interface: what \<open>poll\<close> reports is what a read or a write then does, except
  in a wrapped pipe; output sent to a pipe arrives at its other end; a file written through one
  descriptor is read through another; a task that is killed gives up what it held, and its pipes
  end for whoever reads them.
\<close>

section \<open>Descriptors through the interface\<close>

lemma fd_get_used:
  "fd_get t i s = Some e \<Longrightarrow> i < MAX_FDS \<and> fd_used e \<and> fd_at s t i = e"
  by (auto simp: fd_get_def split: if_splits)

lemma fd_get_pipes [simp]: "fd_get t i (s\<lparr>fd_pipes := ps\<rparr>) = fd_get t i s"
  by (simp add: fd_get_def)

lemma api_write_pipe:
  assumes "buf \<noteq> 0" "fd_get (current_id k) i (k_fds k) = Some e" "fd_kind e = PipeWrite"
    "pipe_write (fd_node e) bytes (fd_pipes (k_fds k)) = (n, ps)"
  shows "api_write now i buf bytes k = (Ok n, k\<lparr>k_fds := (k_fds k)\<lparr>fd_pipes := ps\<rparr>\<rparr>)"
  using assms by (simp add: api_write_def)

lemma api_read_pipe:
  assumes "buf \<noteq> 0" "fd_get (current_id k) i (k_fds k) = Some e" "fd_kind e = PipeRead"
    "pipe_read (fd_node e) (length into) (fd_pipes (k_fds k)) = (out, ps)"
  shows "api_read i buf into k =
     (Ok (length out), out @ drop (length out) into, k\<lparr>k_fds := (k_fds k)\<lparr>fd_pipes := ps\<rparr>\<rparr>)"
  using assms by (simp add: api_read_def)

text \<open>The pipe behind a descriptor is open, and the end the descriptor is has a holder.\<close>

lemma fd_pipe_open:
  assumes "fd_inv s" "t < FD_TASKS" "fd_get t i s = Some e" "fd_kind e = (if wr then PipeWrite else PipeRead)"
  shows "fd_node e < MAX_PIPES \<and> p_used (pipe_at (fd_pipes s) (fd_node e)) \<and> 0 < end_count wr (fd_pipes s) (fd_node e)"
proof -
  have g: "i < MAX_FDS" "fd_used e" "fd_at s t i = e" using fd_get_used [OF assms(3)] by auto
  then have "holds wr (fd_node e) (fd_at s t i)" using assms(4) by (simp add: holds_def)
  then have "0 < end_count wr (fd_pipes s) (fd_node e)"
    using fd_inv_backed [OF assms(1,2) g(1)] by (simp add: backed_def)
  then show ?thesis using end_count_used by blast
qed

lemma pipe_write_no_reader:
  "pipes_inv s \<Longrightarrow> i < MAX_PIPES \<Longrightarrow> p_readers (pipe_at s i) = 0 \<Longrightarrow> fst (pipe_write i bs s) = 0"
  by (simp add: pipe_write_def Let_def)

text \<open>The positions of a ring do not depend on who holds its ends.\<close>

definition ring_of :: "nat \<Rightarrow> fds \<Rightarrow> nat \<times> nat" where
  "ring_of p s = (p_head (pipe_at (fd_pipes s) p), p_tail (pipe_at (fd_pipes s) p))"

lemma set_pipe_ring:
  "p_head q = p_head (pipe_at s i) \<Longrightarrow> p_tail q = p_tail (pipe_at s i) \<Longrightarrow>
     p_head (pipe_at (set_pipe i q s) j) = p_head (pipe_at s j) \<and> p_tail (pipe_at (set_pipe i q s) j) = p_tail (pipe_at s j)"
  by (cases "i < length (pipe_tab s)") (auto simp: set_pipe_def nth_list_update list_update_beyond)

lemma pipe_end_ring [simp]:
  "p_head (pipe_at (pipe_close_end i wr s) j) = p_head (pipe_at s j)"
  "p_tail (pipe_at (pipe_close_end i wr s) j) = p_tail (pipe_at s j)"
  "p_head (pipe_at (pipe_add_ref i wr s) j) = p_head (pipe_at s j)"
  "p_tail (pipe_at (pipe_add_ref i wr s) j) = p_tail (pipe_at s j)"
  by (simp_all add: pipe_close_end_def pipe_add_ref_def Let_def set_pipe_ring)

lemma ring_of_simps [simp]:
  "ring_of p (fd_release e s) = ring_of p s" "ring_of p (fd_retain e s) = ring_of p s" "ring_of p (set_fd t i e s) = ring_of p s"
  by (simp_all add: ring_of_def fd_release_def fd_retain_def split: fd_kind.split)

lemma fd_dup2_ring: "fd_dup2 t i j s = (r, s') \<Longrightarrow> ring_of p s' = ring_of p s"
  by (auto simp: fd_dup2_def Let_def split: if_splits)

lemma pipe_close_end_content [simp]: "pipe_content (pipe_close_end i wr s) q = pipe_content s q"
  by (simp add: pipe_content_def pipe_len_def) (simp add: pipe_close_end_def Let_def set_pipe_def)

lemma fd_release_content [simp]: "pipe_content (fd_pipes (fd_release e s)) q = pipe_content (fd_pipes s) q"
  by (simp add: fd_release_def split: fd_kind.split)

lemma fd_close_all_content: "pipe_content (fd_pipes (fd_close_all t s)) q = pipe_content (fd_pipes s) q"
proof -
  have "pipe_content (fd_pipes (fold (fd_drop_entry t) is s)) q = pipe_content (fd_pipes s) q" for "is"
    by (induction "is" arbitrary: s) (simp_all add: fd_drop_entry_def Let_def)
  then show ?thesis by (simp add: fd_close_all_def)
qed

section \<open>Readiness\<close>

lemma readiness_read_end:
  assumes "fd_inv (k_fds k)" "current_id k < MAX_TASKS" "fd_get (current_id k) i (k_fds k) = Some e" "fd_kind e = PipeRead"
  defines "p \<equiv> pipe_at (fd_pipes (k_fds k)) (fd_node e)"
  shows "readiness i k =
     (if (if p_tail p \<le> p_head p then pipe_len p else (pipe_len p + 16) mod (PIPE_CAPACITY + 1)) > 0 then POLLIN else 0) OR
     (if holders True (fd_node e) (k_fds k) = 0 then POLLHUP else 0)"
proof -
  have o: "fd_node e < MAX_PIPES" "p_used p" using fd_pipe_open [OF assms(1,2,3), of False] assms(4) by (auto simp: p_def)
  have w: "p_writers p = holders True (fd_node e) (k_fds k)"
    using fd_inv_holders [OF assms(1), of True "fd_node e"] o by (simp add: end_count_def p_def)
  show ?thesis
    unfolding readiness_def assms(3) option.case assms(4) fd_kind.case
      pipe_info_pending [OF fd_inv_pipes [OF assms(1)] o(1) o(2) [unfolded p_def]] prod.case w [symmetric]
    by (simp add: p_def)
qed

lemma readiness_write_end:
  assumes "fd_inv (k_fds k)" "current_id k < MAX_TASKS" "fd_get (current_id k) i (k_fds k) = Some e" "fd_kind e = PipeWrite"
  defines "p \<equiv> pipe_at (fd_pipes (k_fds k)) (fd_node e)"
  shows "readiness i k =
     (if holders False (fd_node e) (k_fds k) = 0 then POLLERR
      else if (if p_tail p \<le> p_head p then pipe_len p else (pipe_len p + 16) mod (PIPE_CAPACITY + 1)) < PIPE_CAPACITY then POLLOUT else 0)"
proof -
  have o: "fd_node e < MAX_PIPES" "p_used p" using fd_pipe_open [OF assms(1,2,3), of True] assms(4) by (auto simp: p_def)
  have w: "p_readers p = holders False (fd_node e) (k_fds k)"
    using fd_inv_holders [OF assms(1), of False "fd_node e"] o by (simp add: end_count_def p_def)
  show ?thesis
    unfolding readiness_def assms(3) option.case assms(4) fd_kind.case
      pipe_info_pending [OF fd_inv_pipes [OF assms(1)] o(1) o(2) [unfolded p_def]] prod.case w [symmetric]
    by (simp add: p_def)
qed

lemma read_some_iff:
  assumes "fd_inv (k_fds k)" "current_id k < MAX_TASKS" "fd_get (current_id k) i (k_fds k) = Some e" "fd_kind e = PipeRead"
    "buf \<noteq> 0" "into \<noteq> []"
  shows "(\<exists>n. fst (api_read i buf into k) = Ok n \<and> 0 < n) \<longleftrightarrow> 0 < pipe_len (pipe_at (fd_pipes (k_fds k)) (fd_node e))"
proof -
  have o: "fd_node e < MAX_PIPES" "p_used (pipe_at (fd_pipes (k_fds k)) (fd_node e))"
    using fd_pipe_open [OF assms(1,2,3), of False] assms(4) by auto
  obtain out ps where r: "pipe_read (fd_node e) (length into) (fd_pipes (k_fds k)) = (out, ps)" by force
  have "out = take (length into) (pipe_content (fd_pipes (k_fds k)) (fd_node e))"
    by (rule pipe_read_result(1) [OF fd_inv_pipes [OF assms(1)] o r])
  then have "0 < length out \<longleftrightarrow> 0 < pipe_len (pipe_at (fd_pipes (k_fds k)) (fd_node e))"
    using assms(6) by auto
  then show ?thesis using api_read_pipe [OF assms(5,3,4) r] by simp
qed

lemma write_some_iff:
  assumes "fd_inv (k_fds k)" "current_id k < MAX_TASKS" "fd_get (current_id k) i (k_fds k) = Some e" "fd_kind e = PipeWrite"
    "buf \<noteq> 0" "bytes \<noteq> []"
  shows "(\<exists>n. fst (api_write now i buf bytes k) = Ok n \<and> 0 < n) \<longleftrightarrow>
     holders False (fd_node e) (k_fds k) \<noteq> 0 \<and> pipe_len (pipe_at (fd_pipes (k_fds k)) (fd_node e)) < PIPE_CAPACITY"
proof -
  let ?p = "pipe_at (fd_pipes (k_fds k)) (fd_node e)"
  have o: "fd_node e < MAX_PIPES" "p_used ?p" using fd_pipe_open [OF assms(1,2,3), of True] assms(4) by auto
  have w: "p_readers ?p = holders False (fd_node e) (k_fds k)"
    using fd_inv_holders [OF assms(1), of False "fd_node e"] o by (simp add: end_count_def)
  note pinv = fd_inv_pipes [OF assms(1)]
  obtain n ps where r: "pipe_write (fd_node e) bytes (fd_pipes (k_fds k)) = (n, ps)" by force
  have "0 < n \<longleftrightarrow> p_readers ?p \<noteq> 0 \<and> pipe_len ?p < PIPE_CAPACITY"
  proof (cases "p_readers ?p = 0")
    case True
    then show ?thesis using pipe_write_no_reader [OF pinv o(1) True, of bytes] r by simp
  next
    case False
    then have "n = min (length bytes) (PIPE_CAPACITY - pipe_len ?p)" using pipe_write_result(1) [OF pinv o _ r] by simp
    then show ?thesis using False assms(6) by auto
  qed
  then show ?thesis using api_write_pipe [OF assms(5,3,4) r] w by simp
qed

section \<open>Files\<close>

lemma lookup_upd:
  assumes "n_used (g (v_nodes v ! i)) = n_used (v_nodes v ! i)" "node_path (g (v_nodes v ! i)) = node_path (v_nodes v ! i)"
  shows "vfs_lookup (upd_node i g v) p = vfs_lookup v p"
  unfolding vfs_lookup_def
proof (subst find_slot_cong)
  fix j
  show "(n_used (v_nodes (upd_node i g v) ! j) \<and> node_path (v_nodes (upd_node i g v) ! j) = p) =
      (n_used (v_nodes v ! j) \<and> node_path (v_nodes v ! j) = p)"
    using assms by (cases "j = i \<and> i < length (v_nodes v)") (auto simp: upd_node_def nth_list_update list_update_beyond)
qed (simp add: upd_node_def)

section \<open>The end of a task\<close>

text \<open>What a kill leaves, component by component.\<close>

lemma mark_terminated_fields:
  assumes "mark_terminated v s = (Ok sp, s')"
  shows "current s' = current s" "v < MAX_TASKS" "v \<noteq> current s" "sp = t_space (task_at s v)"
    "v < length (tasks s) \<Longrightarrow> t_space (task_at s' v) = 0 \<and> state_at s' v \<in> {Terminated, Unused}"
proof -
  define u where "u = upd_task v (\<lambda>t. t\<lparr>t_space := 0\<rparr>) (set_state v Terminated s)"
  have g: "v \<noteq> 0" "v < MAX_TASKS" "v \<noteq> current s" "sp = t_space (task_at (set_state v Terminated s) v)"
    and s': "s' = (if \<not> t_waitable (task_at u v) then release_slot v u else u)"
    using assms by (auto simp: mark_terminated_def Let_def u_def split: if_splits task_state.splits)
  show "v < MAX_TASKS" "v \<noteq> current s" using g by simp_all
  show "sp = t_space (task_at s v)" using g(4) by (cases "v < length (tasks s)") (simp_all add: set_state_def upd_task_def list_update_beyond)
  show "current s' = current s" by (simp add: s' u_def release_slot_def set_state_def upd_task_def)
  show "t_space (task_at s' v) = 0 \<and> state_at s' v \<in> {Terminated, Unused}" if "v < length (tasks s)"
    using that by (simp add: s' u_def release_slot_def set_state_def upd_task_def)
qed

lemma terminate_Ok:
  assumes "terminate v k = (Ok (), k')"
  obtains s where "mark_terminated v (k_sched k) = (Ok (t_space (task_at (k_sched k) v)), s)" "k_sched k' = s"
    "k_fds k' = fd_close_all v (k_fds k)" "k_gui k' = snd (close_owned_by v (k_gui k))"
    "k_mmu k' = (if t_space (task_at (k_sched k) v) = 0 then k_mmu k else destroy_user_space (t_space (task_at (k_sched k) v)) (k_mmu k))"
proof -
  obtain r s where m: "mark_terminated v (k_sched k) = (r, s)" by force
  then obtain sp where r: "r = Ok sp" and k': "k' = release_task v sp (k\<lparr>k_sched := s\<rparr>)"
    using assms by (cases r) (auto simp: terminate_def)
  have sp: "sp = t_space (task_at (k_sched k) v)" using mark_terminated_fields(4) m r by simp
  show thesis by (rule that [of s]) (use m r sp k' in \<open>simp_all add: release_task_def Let_def\<close>)
qed

section \<open>A machine to show the properties on\<close>

text \<open>Task 2 runs and holds both ends of a pipe; the disk has one empty file, which the name space shows.\<close>

definition demo_nodes :: "(nat \<Rightarrow> byte list) vfs" where
  "demo_nodes = snd (attach_disk_node demo_path 3 0 (vfs_init demo_file))"

definition demo_machine :: "fds \<Rightarrow> (nat \<Rightarrow> byte list) machine" where
  "demo_machine f =
     \<lparr>k_sched = sig_sched, k_fds = f, k_vfs = demo_nodes, k_gui = gui_init, k_input = input_init,
      k_breaks = replicate MAX_TASKS break_new, k_mmu = demo_mmu, k_ipc = ipc_init, k_sig = signals_init,
      k_launch = launcher_init, k_child_context = [], k_child_pending = [], k_ram = (\<lambda>_. 0), k_user = (\<lambda>_ _. 0), k_console = []\<rparr>"

lemma demo_machine_fields [simp]:
  "k_sched (demo_machine f) = sig_sched" "k_fds (demo_machine f) = f" "k_vfs (demo_machine f) = demo_nodes"
  "k_gui (demo_machine f) = gui_init" "current sig_sched = 2" "k_console (demo_machine f) = []"
  by (simp_all add: demo_machine_def sig_sched_facts)

lemma demo_fds_others:
  "\<not> (t = 2 \<and> (i = 3 \<or> i = 4)) \<Longrightarrow> t < FD_TASKS \<Longrightarrow> i < MAX_FDS \<Longrightarrow> \<not> fd_used (fd_at demo_fds t i)"
  using create_pipe_cases [OF fd_init_inv _ demo_fds_open [unfolded boot_fds_def]]
  by (auto simp: pipe_opened_def fd_init_def fd_empty_def)

lemma demo_fds_get:
  "fd_get 2 3 demo_fds = Some \<lparr>fd_used = True, fd_kind = PipeRead, fd_node = 0, fd_offset = 0\<rparr>"
  "fd_get 2 4 demo_fds = Some \<lparr>fd_used = True, fd_kind = PipeWrite, fd_node = 0, fd_offset = 0\<rparr>"
  by (simp_all add: fd_get_def demo_fds_at)

lemma demo_fds_pipe: "pipe_at (fd_pipes demo_fds) 0 = \<lparr>p_used = True, p_head = 0, p_tail = 0, p_writers = 1, p_readers = 1\<rparr>"
proof -
  have "pipe_opened 2 3 4 boot_fds demo_fds"
    using create_pipe_cases [OF fd_init_inv _ demo_fds_open [unfolded boot_fds_def]] by (simp add: boot_fds_def)
  then have "pipe_create (fd_pipes boot_fds) = Some (0, fd_pipes demo_fds)" by (auto simp: pipe_opened_def demo_fds_at)
  then show ?thesis using pipe_create_Some [OF pipes_inv_init] by (simp add: boot_fds_def fd_init_def)
qed

section \<open>Properties\<close>

text \<open>
  Property C33.  What \<open>poll\<close> reports about a pipe is true: while the ring has not wrapped, a descriptor is
  reported readable exactly when a read with a buffer would return bytes, writable exactly when a
  write of something would take bytes, at its end exactly when no descriptor of any task holds
  the write end, and broken exactly when none holds the read end.
\<close>

theorem poll_truthful:
  assumes "fd_inv (k_fds k)" "current_id k < MAX_TASKS" "fd_get (current_id k) i (k_fds k) = Some e" "fd_kind e \<noteq> File"
    "p_tail (pipe_at (fd_pipes (k_fds k)) (fd_node e)) \<le> p_head (pipe_at (fd_pipes (k_fds k)) (fd_node e))"
    "buf \<noteq> 0" "bytes \<noteq> []"
  shows "(readiness i k AND POLLIN \<noteq> 0 \<longleftrightarrow> (\<exists>n. fst (api_read i buf bytes k) = Ok n \<and> 0 < n)) \<and>
     (readiness i k AND POLLOUT \<noteq> 0 \<longleftrightarrow> (\<exists>n. fst (api_write now i buf bytes k) = Ok n \<and> 0 < n)) \<and>
     (readiness i k AND POLLHUP \<noteq> 0 \<longleftrightarrow> fd_kind e = PipeRead \<and> holders True (fd_node e) (k_fds k) = 0) \<and>
     (readiness i k AND POLLERR \<noteq> 0 \<longleftrightarrow> fd_kind e = PipeWrite \<and> holders False (fd_node e) (k_fds k) = 0)"
proof (cases "fd_kind e")
  case PipeRead
  note r = readiness_read_end [OF assms(1-3) PipeRead]
  have "fst (api_write now i buf bytes k) = Err BadFileDescriptor" using assms(3,6) PipeRead by (simp add: api_write_def)
  then show ?thesis
    using r read_some_iff [OF assms(1-3) PipeRead assms(6,7)] assms(5) PipeRead by auto
next
  case PipeWrite
  note r = readiness_write_end [OF assms(1-3) PipeWrite]
  have "fst (api_read i buf bytes k) = Err BadFileDescriptor" using assms(3,6) PipeWrite by (simp add: api_read_def)
  then show ?thesis
    using r write_some_iff [OF assms(1-3) PipeWrite assms(6,7)] assms(5) PipeWrite by auto
qed (use assms(4) in simp)

theorem poll_truthful_witness:
  "readiness 3 (demo_machine demo_fds) AND POLLIN \<noteq> 0 \<longleftrightarrow>
     (\<exists>n. fst (api_read 3 4096 [0, 0] (demo_machine demo_fds)) = Ok n \<and> 0 < n)"
  using poll_truthful [of "demo_machine demo_fds" 3 _ 4096 "[0, 0]"] demo_fds_inv
  by (simp add: demo_fds_get demo_fds_pipe)

text \<open>
  In a wrapped pipe \<open>poll\<close> misses data: with 1009 bytes waiting, the count \<open>pipe::info\<close>
  gives is zero, so a reader that polls first is told that there is nothing, although a read would
  return all of them.
\<close>

theorem poll_misses_data:
  assumes "fd_inv (k_fds k)" "current_id k < MAX_TASKS" "fd_get (current_id k) i (k_fds k) = Some e" "fd_kind e = PipeRead"
    "p_head (pipe_at (fd_pipes (k_fds k)) (fd_node e)) < p_tail (pipe_at (fd_pipes (k_fds k)) (fd_node e))"
    "pipe_len (pipe_at (fd_pipes (k_fds k)) (fd_node e)) = 1009" "buf \<noteq> 0" "length into = 1009"
  shows "readiness i k AND POLLIN = 0 \<and> fst (api_read i buf into k) = Ok 1009"
proof -
  have o: "fd_node e < MAX_PIPES" "p_used (pipe_at (fd_pipes (k_fds k)) (fd_node e))"
    using fd_pipe_open [OF assms(1,2,3), of False] assms(4) by auto
  obtain out ps where r: "pipe_read (fd_node e) (length into) (fd_pipes (k_fds k)) = (out, ps)" by force
  have "out = take (length into) (pipe_content (fd_pipes (k_fds k)) (fd_node e))"
    by (rule pipe_read_result(1) [OF fd_inv_pipes [OF assms(1)] o r])
  then have "length out = 1009" using assms(6,8) by simp
  then show ?thesis using api_read_pipe [OF assms(7,3,4) r] readiness_read_end [OF assms(1-4)] assms(5,6) by simp
qed

definition wrapped_fds :: fds where
  "wrapped_fds = demo_fds\<lparr>fd_pipes := set_pipe 0 ((pipe_at (fd_pipes demo_fds) 0)\<lparr>p_head := 84, p_tail := 100\<rparr>) (fd_pipes demo_fds)\<rparr>"

lemma wrapped_fds_facts:
  "fd_inv wrapped_fds"
  "pipe_at (fd_pipes wrapped_fds) 0 = \<lparr>p_used = True, p_head = 84, p_tail = 100, p_writers = 1, p_readers = 1\<rparr>"
proof -
  let ?q = "(pipe_at (fd_pipes demo_fds) 0)\<lparr>p_head := 84, p_tail := 100\<rparr>"
  have i: "pipes_inv (set_pipe 0 ?q (fd_pipes demo_fds))"
    by (rule set_pipe_inv [OF fd_inv_pipes [OF demo_fds_inv]]) (simp_all add: demo_fds_pipe pipe_ok_def)
  have l: "length (pipe_tab (fd_pipes demo_fds)) = 4"
    using fd_inv_pipes [OF demo_fds_inv] by (simp add: pipes_inv_def)
  then show p: "pipe_at (fd_pipes wrapped_fds) 0 = \<lparr>p_used = True, p_head = 84, p_tail = 100, p_writers = 1, p_readers = 1\<rparr>"
    by (simp add: wrapped_fds_def set_pipe_def demo_fds_pipe)
  have "end_count wr (fd_pipes wrapped_fds) p = end_count wr (fd_pipes demo_fds) p" for wr p
    using l by (cases "p = 0") (simp_all add: end_count_def wrapped_fds_def set_pipe_def)
  then show "fd_inv wrapped_fds" using demo_fds_inv i
    by (simp add: fd_inv_def fd_shape_def) (simp add: wrapped_fds_def)
qed

theorem poll_misses_data_witness:
  "readiness 3 (demo_machine wrapped_fds) AND POLLIN = 0 \<and>
   fst (api_read 3 4096 (replicate 1009 0) (demo_machine wrapped_fds)) = Ok 1009"
proof -
  have g: "fd_get 2 3 wrapped_fds = Some \<lparr>fd_used = True, fd_kind = PipeRead, fd_node = 0, fd_offset = 0\<rparr>"
    by (simp add: wrapped_fds_def demo_fds_get)
  show ?thesis
    using poll_misses_data [of "demo_machine wrapped_fds" 3 _ 4096 "replicate 1009 0"] g
    by (simp add: wrapped_fds_facts pipe_len_def)
qed

text \<open>
  Property C34.  A shell pipeline carries its data: after a pipe is opened and its write end put in the place
  of standard output, what is written to standard output, up to 1024 bytes, does not reach the console
  and is what a read from the other end returns.
\<close>

theorem pipeline_roundtrip:
  assumes "fd_inv (k_fds k)" "current_id k < MAX_TASKS" "api_pipe k = (Ok (r, w), k1)"
    "fd_dup2 (current_id k) w FD_STDOUT (k_fds k1) = (res, f)" "buf \<noteq> 0" "buf' \<noteq> 0"
    "length bytes \<le> PIPE_CAPACITY" "length into = length bytes"
    "api_write now FD_STDOUT buf bytes (k1\<lparr>k_fds := f\<rparr>) = (res', k2)"
  shows "res = Some FD_STDOUT \<and> res' = Ok (length bytes) \<and> k_console k2 = k_console k \<and>
     (\<exists>k3. api_read r buf' into k2 = (Ok (length bytes), bytes, k3))"
proof -
  let ?c = "current_id k"
  obtain x s' where cp: "create_pipe ?c (k_fds k) = (x, s')" by force
  then have x: "x = Some (r, w)" and k1: "k1 = k\<lparr>k_fds := s'\<rparr>" using assms(3) by (cases x; auto simp: api_pipe_def)+
  note c = create_pipe_connects [OF assms(1,2) cp, unfolded x option.case prod.case]
  have i: "fd_inv s'" "pipe_opened ?c r w (k_fds k) s'" using c by auto
  from i(2) obtain p where p: "fd_at s' ?c r = \<lparr>fd_used = True, fd_kind = PipeRead, fd_node = p, fd_offset = 0\<rparr>"
    "fd_at s' ?c w = \<lparr>fd_used = True, fd_kind = PipeWrite, fd_node = p, fd_offset = 0\<rparr>" "3 \<le> r" "r < w" "w < 16"
    "pipe_create (fd_pipes (k_fds k)) = Some (p, fd_pipes s')"
    by (auto simp: pipe_opened_def)
  have u: "fd_used (fd_at s' ?c w)" using p by simp
  have w1: "w < 16" "(1 :: nat) < 16" "w \<noteq> 1" using p by auto
  have f: "fd_dup2 ?c w 1 s' = (res, f)" using assms(4) k1 by simp
  note d = fd_dup2_result [OF i(1) assms(2) w1(1,2) u w1(3), unfolded f fst_conv snd_conv]
  have g: "fd_get ?c 1 f = Some (fd_at s' ?c w)" "fd_get ?c r f = Some (fd_at s' ?c r)"
    using d(3) p(1-5) by (auto simp: fd_get_def)
  obtain n ps where pw: "pipe_write p bytes (fd_pipes f) = (n, ps)" by force
  note cr = pipe_create_Some [OF fd_inv_pipes [OF assms(1)] p(6)]
  have fi: "fd_inv f" using d(2) .
  have o: "p < MAX_PIPES" "p_used (pipe_at (fd_pipes f) p)" "0 < p_readers (pipe_at (fd_pipes f) p)"
    using fd_pipe_open [OF fi assms(2) g(2), of False] p(1) by (auto simp: end_count_def)
  have rg: "ring_of p f = ring_of p s'" using f by (rule fd_dup2_ring)
  have z: "pipe_len (pipe_at (fd_pipes f) p) = 0" "p_tail (pipe_at (fd_pipes f) p) = 0"
    using rg cr by (auto simp: ring_of_def pipe_len_def)
  note pi = fd_inv_pipes [OF fi]
  have n: "n = length bytes" using pipe_write_result(1) [OF pi o pw] z assms(7) by simp
  have ct: "pipe_content ps p = bytes"
    using pipe_write_content [OF pi o pw] z n assms(7) by (simp add: pipe_content_def)
  have ps: "pipes_inv ps" "p_used (pipe_at ps p)" using pipe_write_result(6,2) [OF pi o pw] o(2) by auto
  have wr: "res' = Ok n" "k2 = k1\<lparr>k_fds := f\<lparr>fd_pipes := ps\<rparr>\<rparr>"
    using assms(9) api_write_pipe [of buf "k1\<lparr>k_fds := f\<rparr>" 1 "fd_at s' ?c w" bytes n ps now] g(1) pw p(2) k1 assms(5)
    by simp_all
  obtain out ps' where rd: "pipe_read p (length into) ps = (out, ps')" by force
  have out: "out = bytes" using pipe_read_result(1) [OF ps(1) o(1) ps(2) rd] ct assms(8) by simp
  have "api_read r buf' into k2 = (Ok (length out), out @ drop (length out) into, k2\<lparr>k_fds := f\<lparr>fd_pipes := ps'\<rparr>\<rparr>)"
    using api_read_pipe [of buf' k2 r "fd_at s' ?c r" into out ps'] wr(2) k1 assms(6) p(1) g(2) rd by simp
  then show ?thesis using d(1) wr n out assms(8) k1 by simp
qed

theorem pipeline_roundtrip_witness:
  "\<exists>k1 f k2 k3. api_pipe (demo_machine boot_fds) = (Ok (3, 4), k1) \<and> fd_dup2 2 4 FD_STDOUT (k_fds k1) = (Some FD_STDOUT, f) \<and>
     api_write 9 FD_STDOUT 4096 [104, 105] (k1\<lparr>k_fds := f\<rparr>) = (Ok 2, k2) \<and> k_console k2 = [] \<and>
     api_read 3 8192 [0, 0] k2 = (Ok 2, [104, 105], k3)"
proof -
  let ?k1 = "(demo_machine boot_fds)\<lparr>k_fds := demo_fds\<rparr>"
  have p: "api_pipe (demo_machine boot_fds) = (Ok (3, 4), ?k1)" by (simp add: api_pipe_def demo_fds_open)
  obtain res f where f: "fd_dup2 2 4 FD_STDOUT demo_fds = (res, f)" by force
  obtain res' k2 where w: "api_write 9 FD_STDOUT 4096 [104, 105] (?k1\<lparr>k_fds := f\<rparr>) = (res', k2)" by force
  have "fd_inv (k_fds (demo_machine boot_fds))" using fd_init_inv by (simp add: boot_fds_def)
  from pipeline_roundtrip [OF this _ p _ _ _ _ _ w, of res 8192 "[0, 0]"] f w p show ?thesis by auto
qed

text \<open>
  A kill leaves nothing behind: a task that is killed owns no window and no descriptor
  afterwards, its address space is destroyed and forgotten, every counter of a pipe end is again the
  number of its holders, and windows and descriptors of all other tasks are as they were.
\<close>

theorem kill_releases:
  assumes "sched_inv (k_sched k)" "fd_inv (k_fds k)" "gui_inv (k_gui k)" "terminate v k = (Ok (), k')"
  shows "sched_inv (k_sched k') \<and> fd_inv (k_fds k') \<and> gui_inv (k_gui k') \<and>
     state_at (k_sched k') v \<in> {Terminated, Unused} \<and> t_space (task_at (k_sched k') v) = 0 \<and>
     owned v (k_gui k') = {} \<and> (\<forall>i. fd_get v i (k_fds k') = None) \<and>
     (\<forall>t. t \<noteq> v \<longrightarrow> owned t (k_gui k') = owned t (k_gui k) \<and> (\<forall>i. fd_get t i (k_fds k') = fd_get t i (k_fds k))) \<and>
     k_mmu k' = (if t_space (task_at (k_sched k) v) = 0 then k_mmu k
                 else destroy_user_space (t_space (task_at (k_sched k) v)) (k_mmu k))"
proof -
  from assms(4) obtain s where s: "mark_terminated v (k_sched k) = (Ok (t_space (task_at (k_sched k) v)), s)" "k_sched k' = s"
    "k_fds k' = fd_close_all v (k_fds k)" "k_gui k' = snd (close_owned_by v (k_gui k))"
    "k_mmu k' = (if t_space (task_at (k_sched k) v) = 0 then k_mmu k else destroy_user_space (t_space (task_at (k_sched k) v)) (k_mmu k))"
    by (rule terminate_Ok)
  note m = mark_terminated_fields [OF s(1)]
  have v: "v < length (tasks (k_sched k))" using m(2) sched_invD [OF assms(1)] by simp
  have i: "sched_inv s" using mark_terminated_inv [OF assms(1) s(1)] by simp
  note f = fd_close_all_result [OF assms(2) m(2)]
  obtain c g where g: "close_owned_by v (k_gui k) = (c, g)" by force
  note w = close_owned_by [OF assms(3) g]
  have by': "owned_by t (g_wins g ! j) \<longleftrightarrow> t \<noteq> v \<and> owned_by t (g_wins (k_gui k) ! j)" if "j < g_count (k_gui k)" for t j
    unfolding w(4) [OF that] by (auto simp: owned_by_def)
  have own: "owned v g = {}" "\<And>t. t \<noteq> v \<Longrightarrow> owned t g = owned t (k_gui k)"
    using w(2) by' by (auto simp: owned_def)
  have fd: "\<And>i. fd_get v i (fd_close_all v (k_fds k)) = None"
    "\<And>t i. t \<noteq> v \<Longrightarrow> fd_get t i (fd_close_all v (k_fds k)) = fd_get t i (k_fds k)"
    using f(2,3) by (auto simp: fd_get_def)
  show ?thesis using s i f(1) w(1) m(5) [OF v] own fd g by simp
qed

lemma demo_kill: "\<exists>k'. terminate 1 (demo_machine f) = (Ok (), k')"
  by (simp add: terminate_def mark_terminated_def Let_def sig_sched_def task_empty_def set_state_def upd_task_def)

theorem kill_releases_witness:
  "\<exists>k'. terminate 1 (demo_machine demo_fds) = (Ok (), k') \<and> owned 1 (k_gui k') = {} \<and> fd_get 2 3 (k_fds k') = fd_get 2 3 demo_fds"
proof -
  obtain k' where "terminate 1 (demo_machine demo_fds) = (Ok (), k')" using demo_kill by blast
  from kill_releases [OF _ _ _ this] this show ?thesis by (simp add: sig_sched_inv demo_fds_inv gui_inv_init)
qed

text \<open>
  Property C35.  The death of a writer is seen by the reader: if only the killed task held the write end of a
  pipe, then \<open>poll\<close> reports the end of the pipe to a reader afterwards, and the bytes that waited in
  the pipe are still there for it.
\<close>

theorem killed_writer_ends_pipe:
  assumes "fd_inv (k_fds k)" "gui_inv (k_gui k)" "current_id k < MAX_TASKS" "terminate v k = (Ok (), k')"
    "fd_get (current_id k) i (k_fds k) = Some e" "fd_kind e = PipeRead"
    "\<forall>t<MAX_TASKS. \<forall>j<MAX_FDS. holds True (fd_node e) (fd_at (k_fds k) t j) \<longrightarrow> t = v"
  shows "readiness i k' AND POLLHUP \<noteq> 0 \<and> pipe_content (fd_pipes (k_fds k')) (fd_node e) = pipe_content (fd_pipes (k_fds k)) (fd_node e)"
proof -
  from assms(4) obtain s where s: "mark_terminated v (k_sched k) = (Ok (t_space (task_at (k_sched k) v)), s)" "k_sched k' = s"
    "k_fds k' = fd_close_all v (k_fds k)" by (rule terminate_Ok)
  note m = mark_terminated_fields [OF s(1)] and f = fd_close_all_result [OF assms(1) mark_terminated_fields(2) [OF s(1)]]
  have c: "current_id k' = current_id k" using m(1) s(2) by simp
  have g: "fd_get (current_id k') i (k_fds k') = Some e" using assms(5) unfolding c s(3) fd_get_def f(3) [OF m(3) [symmetric]] .
  have no: "\<not> holds True (fd_node e) (fd_at (k_fds k') t j)" if "t < MAX_TASKS" "j < MAX_FDS" for t j
  proof (cases "t = v")
    case True
    then show ?thesis unfolding s(3) using holds_cases(4) [OF f(2) [OF that(2)]] by blast
  next
    case False
    then show ?thesis unfolding s(3) f(3) [OF False] using assms(7) that by blast
  qed
  have "{x \<in> {..<FD_TASKS} \<times> {..<MAX_FDS}. holds True (fd_node e) (fd_at (k_fds k') (fst x) (snd x))} = {}"
    by (rule equals0I) (use no in \<open>auto simp only: mem_Collect_eq mem_Times_iff lessThan_iff\<close>)
  then have h: "holders True (fd_node e) (k_fds k') = 0" unfolding holders_def by (simp only: card.empty)
  have inv: "fd_inv (k_fds k')" using f(1) s(3) by simp
  have "readiness i k' AND POLLHUP \<noteq> 0"
    using readiness_read_end [OF inv _ g assms(6)] h c assms(3) by simp
  moreover have "pipe_content (fd_pipes (k_fds k')) q = pipe_content (fd_pipes (k_fds k)) q" for q
    by (simp add: s(3) fd_close_all_content)
  ultimately show ?thesis by simp
qed

definition writer_fds :: fds where
  \<comment> \<open>task 1 inherited the pipe of task 2, which then closed its write end\<close>
  "writer_fds = snd (fd_close 2 4 (fd_clone_into 2 1 demo_fds))"

lemma writer_fds_facts:
  "fd_inv writer_fds" "fd_get 2 3 writer_fds = Some \<lparr>fd_used = True, fd_kind = PipeRead, fd_node = 0, fd_offset = 0\<rparr>"
  "\<forall>t<MAX_TASKS. \<forall>j<MAX_FDS. holds True 0 (fd_at writer_fds t j) \<longrightarrow> t = 1"
proof -
  have t: "(2 :: nat) < 8" "(1 :: nat) < 8" "(2 :: nat) \<noteq> 1" by simp_all
  have "\<forall>i<MAX_FDS. \<not> fd_used (fd_at demo_fds 1 i)" using demo_fds_others by simp
  note c = fd_clone_into_result [OF demo_fds_inv t this]
  have u: "fd_at (fd_clone_into 2 1 demo_fds) 2 i = fd_at demo_fds 2 i" for i using c(3) by simp
  show "fd_inv writer_fds" unfolding writer_fds_def by (rule fd_close_inv [OF c(1) t(1)])
  have w: "writer_fds = set_fd 2 4 fd_empty (fd_release (fd_at demo_fds 2 4) (fd_clone_into 2 1 demo_fds))"
    unfolding writer_fds_def fd_close_def Let_def u by (simp add: demo_fds_at)
  have sh: "fd_shape (fd_release (fd_at demo_fds 2 4) (fd_clone_into 2 1 demo_fds))"
    using fd_inv_shape [OF \<open>fd_inv writer_fds\<close>] unfolding w by (auto simp: fd_shape_def set_fd_def nth_list_update split: if_splits)
  have at: "fd_at writer_fds t j = (if t = 2 \<and> j = 4 then fd_empty else fd_at (fd_clone_into 2 1 demo_fds) t j)" for t j
    unfolding w using fd_at_set [OF sh] by simp
  show "fd_get 2 3 writer_fds = Some \<lparr>fd_used = True, fd_kind = PipeRead, fd_node = 0, fd_offset = 0\<rparr>"
    unfolding fd_get_def at u demo_fds_at by simp
  show "\<forall>t<MAX_TASKS. \<forall>j<MAX_FDS. holds True 0 (fd_at writer_fds t j) \<longrightarrow> t = 1"
  proof (intro allI impI)
    fix t j assume a: "t < 8" "j < 16" "holds True 0 (fd_at writer_fds t j)"
    show "t = 1"
    proof (rule ccontr)
      assume "t \<noteq> 1"
      then have h: "holds True 0 (fd_at demo_fds t j)" "\<not> (t = 2 \<and> j = 4)" using a(3) c(3) by (auto simp: at split: if_splits)
      then have "\<not> (t = 2 \<and> (j = 3 \<or> j = 4))" using demo_fds_at by auto
      then show False using demo_fds_others a(1,2) h(1) by (auto simp: holds_def)
    qed
  qed
qed

theorem killed_writer_ends_pipe_witness:
  "\<exists>k'. terminate 1 (demo_machine writer_fds) = (Ok (), k') \<and> readiness 3 k' AND POLLHUP \<noteq> 0"
proof -
  obtain k' where k: "terminate 1 (demo_machine writer_fds) = (Ok (), k')" using demo_kill by blast
  have "readiness 3 k' AND POLLHUP \<noteq> 0"
    using killed_writer_ends_pipe [OF _ _ _ k, of 3] writer_fds_facts by (simp add: gui_inv_init)
  then show ?thesis using k by blast
qed

text \<open>
  Property C36.  A file written through one descriptor is read through another: after a write at the start of
  a file of the disk, a program that opens the path of that file reads what was written.
\<close>

theorem file_written_is_read:
  assumes "fs_sound ok sect reg f (v_fs (k_vfs k))" "fs_mounted (v_fs (k_vfs k))" "now < 2 ^ 32" "length bytes < 2 ^ 64"
    "fd_shape (k_fds k)" "current_id k < MAX_TASKS" "fd_get (current_id k) i (k_fds k) = Some e" "fd_kind e = File" "fd_offset e = 0"
    "v_wf (k_vfs k)" "vfs_lookup (k_vfs k) path = Some (fd_node e)" "n_source (v_nodes (k_vfs k) ! fd_node e) = Disk"
    "api_write now i buf bytes k = (Ok n, k1)" "api_open now' path c k1 = (Ok j, k2)" "buf' \<noteq> 0" "length into = length bytes"
  shows "n = length bytes \<and> j \<noteq> i \<and> (\<exists>k3. api_read j buf' into k2 = (Ok n, bytes, k3))"
proof -
  let ?v = "k_vfs k" and ?t = "current_id k"
  define nd where "nd = v_nodes ?v ! fd_node e"
  have nd: "node_at ?v (fd_node e) = Some nd" "n_source nd = Disk"
    using lookup_Some [OF assms(11)] assms(12) by (simp_all add: node_at_def nd_def)
  have buf: "buf \<noteq> 0" using assms(13) by (auto simp: api_write_def)
  obtain r s1 where w: "fs_write now (n_inode nd) 0 bytes (v_fs ?v) = (r, s1)" by force
  let ?v1 = "upd_node (fd_node e) (\<lambda>m. m\<lparr>n_size := case entry_size s1 (n_inode nd) of None \<Rightarrow> 0 | Some k \<Rightarrow> k\<rparr>) (?v\<lparr>v_fs := s1\<rparr>)"
  have wa: "r = Ok n" "k1 = k\<lparr>k_vfs := ?v1, k_fds := fd_advance ?t i n (k_fds k)\<rparr>"
    using assms(13) buf assms(7-9) nd w by (cases r; simp add: api_write_def write_at_def on_fs_def)+
  have wr: "fs_write now (n_inode nd) 0 bytes (v_fs ?v) = (Ok n, s1)" using w wa(1) by simp
  have "0 + length bytes < 2 ^ 64" using assms(4) by simp
  from write_read_back [OF assms(1-3) this wr assms(16)] obtain s2 where
    n: "n = length bytes" and rd: "fs_read (n_inode nd) 0 into s1 = (Ok (length bytes), bytes, s2)" by blast
  have u: "fd_used e" "i < MAX_FDS" using fd_get_used [OF assms(7)] by auto
  have l1: "vfs_lookup ?v1 path = Some (fd_node e)"
    by (subst lookup_upd) (use assms(11) in \<open>simp_all add: node_path_def\<close>)
  have al: "fd_allocate ?t (fd_node e) (fd_advance ?t i n (k_fds k)) = (Some j, k_fds k2)" "k_vfs k2 = ?v1" "k_sched k2 = k_sched k"
    using assms(14) l1 unfolding wa(2) by (auto simp: api_open_def split: prod.splits option.splits)
  let ?f = "fd_advance ?t i n (k_fds k)"
  have sh: "fd_shape ?f" using assms(5,6) by (simp add: fd_advance_def)
  have fr: "fd_free_slot ?t ?f = Some j" and k2: "k_fds k2 = set_fd ?t j \<lparr>fd_used = True, fd_kind = File, fd_node = fd_node e, fd_offset = 0\<rparr> ?f"
    using al(1) by (auto simp: fd_allocate_def split: option.splits)
  note j = fd_free_slot_Some [OF fr]
  have "fd_used (fd_at ?f ?t i)" using fd_get_used [OF assms(7)] fd_at_set [OF assms(5,6) u(2)] by (simp add: fd_advance_def)
  then have ne: "j \<noteq> i" using j by auto
  have g: "fd_get ?t j (k_fds k2) = Some \<lparr>fd_used = True, fd_kind = File, fd_node = fd_node e, fd_offset = 0\<rparr>"
    using fd_at_set [OF sh assms(6), of j] j by (simp add: fd_get_def k2)
  have nd1: "node_at ?v1 (fd_node e) = Some (nd\<lparr>n_size := case entry_size s1 (n_inode nd) of None \<Rightarrow> 0 | Some k \<Rightarrow> k\<rparr>)"
    using nd(1) lookup_Some [OF l1] assms(10) by (simp add: node_at_def upd_node_def nth_list_update nd_def v_wf_def split: if_splits)
  have "vfs_read (fd_node e) 0 into ?v1 = (Ok (length bytes), bytes, ?v1\<lparr>v_fs := s2\<rparr>)"
    unfolding vfs_read_def nd1 using nd(2) rd by (simp add: upd_node_def)
  then show ?thesis using n ne g al assms(15) by (simp add: api_read_def)
qed

lemma demo_nodes_facts:
  "v_wf demo_nodes" "vfs_lookup demo_nodes demo_path = Some 0" "node_at demo_nodes 0 = Some (v_nodes demo_nodes ! 0)"
  "n_source (v_nodes demo_nodes ! 0) = Disk" "n_inode (v_nodes demo_nodes ! 0) = 3" "v_fs demo_nodes = demo_file"
  by (simp_all add: demo_nodes_def attach_disk_node_def vfs_init_def v_wf_def upd_node_def vfs_lookup_def find_slot.simps
      node_path_def set_path_def demo_path_def node_at_def Let_def)

definition file_fds :: fds where
  "file_fds = snd (fd_allocate 2 0 demo_fds)"

lemma file_fds_facts:
  "fd_inv file_fds" "fd_get 2 5 file_fds = Some \<lparr>fd_used = True, fd_kind = File, fd_node = 0, fd_offset = 0\<rparr>"
  "\<not> fd_used (fd_at file_fds 2 6)"
proof -
  have "fd_free_slot 2 demo_fds = Some 5"
    unfolding fd_free_slot_def
  proof (rule find_slot_first)
    fix j assume "3 \<le> j" "j < (5 :: nat)"
    then have "j = 3 \<or> j = 4" by auto
    then show "\<not> \<not> fd_used (fd_at demo_fds 2 j)" by (auto simp: demo_fds_at)
  qed (simp_all add: demo_fds_others)
  then have f: "file_fds = set_fd 2 5 \<lparr>fd_used = True, fd_kind = File, fd_node = 0, fd_offset = 0\<rparr> demo_fds"
    by (simp add: file_fds_def fd_allocate_def)
  show "fd_inv file_fds" unfolding file_fds_def by (rule fd_allocate_inv [OF demo_fds_inv]) simp
  note at = fd_at_set [OF fd_inv_shape [OF demo_fds_inv], of 2 5, folded f]
  show "fd_get 2 5 file_fds = Some \<lparr>fd_used = True, fd_kind = File, fd_node = 0, fd_offset = 0\<rparr>"
    "\<not> fd_used (fd_at file_fds 2 6)"
    unfolding f using fd_at_set [OF fd_inv_shape [OF demo_fds_inv], of 2 5] demo_fds_others [of 2 6] by (simp_all add: fd_get_def)
qed

theorem file_written_is_read_witness:
  "\<exists>k1 j k2 k3. api_write 9 5 4096 [5, 6] (demo_machine file_fds) = (Ok 2, k1) \<and>
     api_open 9 demo_path False k1 = (Ok j, k2) \<and> api_read j 8192 [0, 0] k2 = (Ok 2, [5, 6], k3)"
proof -
  let ?k = "demo_machine file_fds"
  obtain f where f: "fs_sound ram_ok (\<lambda>d. d) (0, 5000) f demo_file" "fs_mounted demo_file" "fs_free demo_file = 2"
    "kind_at demo_file 3 = KIND_FILE" "size_at demo_file 3 = 0" using demo_file_sound by blast
  have "\<exists>f' s'. fs_write 9 3 0 [5, 6] demo_file = (Ok (length [5, 6 :: byte]), s')"
    using fs_write_ok [OF f(1,2) _ f(4), of 0 "[5, 6]" 9] f(3,5) by (auto simp: block_count_def)
  then obtain s1 where w: "fs_write 9 3 0 [5, 6] demo_file = (Ok 2, s1)" by auto
  then obtain v1 where "write_at 9 0 0 [5, 6] demo_nodes = (Ok 2, v1)" and v1: "vfs_lookup v1 demo_path = Some 0"
    by (auto simp: write_at_def demo_nodes_facts on_fs_def lookup_upd node_path_def)
  then have k1: "api_write 9 5 4096 [5, 6] ?k = (Ok 2, ?k\<lparr>k_vfs := v1, k_fds := fd_advance 2 5 2 file_fds\<rparr>)" (is "_ = (_, ?k1)")
    by (simp add: api_write_def file_fds_facts)
  have "fd_at (fd_advance 2 5 2 file_fds) 2 6 = fd_at file_fds 2 6"
    using fd_at_set [OF fd_inv_shape [OF file_fds_facts(1)], of 2 5] by (simp add: fd_advance_def)
  then have "fd_free_slot 2 (fd_advance 2 5 2 file_fds) \<noteq> None"
    unfolding fd_free_slot_None using file_fds_facts(3) by (auto intro!: exI [of _ 6])
  then obtain j where "fd_free_slot 2 (fd_advance 2 5 2 file_fds) = Some j" by blast
  then obtain k2 where k2: "api_open 9 demo_path False ?k1 = (Ok j, k2)"
    using v1 by (simp add: api_open_def fd_allocate_def)
  from file_written_is_read [OF _ _ _ _ _ _ _ _ _ _ _ _ k1 k2, of ram_ok "\<lambda>d. d" "(0, 5000)" f _ 8192 "[0, 0]"] f k1 k2
  show ?thesis by (auto simp: demo_nodes_facts file_fds_facts fd_inv_shape)
qed

end
