(* ===== verification/Machine.thy ===== *)
theory Machine imports Process KernelProps begin

text \<open>
  The machine as a whole: the calls of programs, the start, fork and end of tasks and the scheduler as
  steps on one state, and the invariant that holds in every reachable state.  It joins the
  invariants of the components and adds what ties them together: a dead task holds no descriptor
  and no address space, every address space has one owner, and the loaded page tables are those of
  the running task.
\<close>

section \<open>A new task\<close>

lemma spawn_inner_Some:
  assumes inv: "sched_inv s" and sp: "spawn_inner name w s = (Some i, s')"
  shows "i < MAX_TASKS" "state_at s i = Unused" "state_at s' i = Ready" "t_parent (task_at s' i) = current s"
    "t_waitable (task_at s' i) = w" "t_space (task_at s' i) = 0" "\<not> t_in_user (task_at s' i)"
    "current s' = current s" "cr3 s' = cr3 s" "ticks s' = ticks s" "sched_inv s'"
    "\<And>j. j \<noteq> i \<Longrightarrow> task_at s' j = task_at s j"
proof -
  note d = sched_invD [OF inv]
  obtain s1 where s1: "spawn_slot s = Some (i, s1)"
    using sp by (auto simp: spawn_inner_def split: option.splits prod.splits)
  have t1: "tasks s1 = tasks s" "current s1 = current s" "cr3 s1 = cr3 s" "ticks s1 = ticks s"
    using s1 by (auto simp: spawn_slot_def Let_def split: option.splits if_splits)
  have i: "i < MAX_TASKS \<and> state_at s i = Unused"
  proof (cases "find_slot (\<lambda>i. state_at s i = Unused) 0 (task_count s)")
    case None
    then have "i = task_count s" "task_count s < MAX_TASKS" using s1 by (auto simp: spawn_slot_def Let_def split: if_splits)
    then show ?thesis using d(5) by simp
  next
    case (Some j)
    then show ?thesis using s1 find_slot_Some [OF Some] d(3) by (auto simp: spawn_slot_def Let_def)
  qed
  then show "i < MAX_TASKS" "state_at s i = Unused" by simp_all
  obtain r s2 where s2: "spawn_stacks i s1 = (r, s2)" by force
  have t2: "tasks s2 = tasks s1" "current s2 = current s1" "cr3 s2 = cr3 s1" "ticks s2 = ticks s1"
    using s2 by (auto simp: spawn_stacks_def split: option.splits if_splits prod.splits)
  have l: "i < length (tasks s2)" using t1 t2 d(1) i by simp
  obtain f where f: "s' = upd_task i f s2" "\<And>t. t_state (f t) = Ready" "\<And>t. t_parent (f t) = current s2"
    "\<And>t. t_waitable (f t) = w" "\<And>t. t_space (f t) = 0" "\<And>t. \<not> t_in_user (f t)"
    using sp s1 s2 by (auto simp: spawn_inner_def split: option.splits prod.splits)
  show "task_at s' j = task_at s j" if "j \<noteq> i" for j using f(1) t1 t2 that by (simp add: upd_task_def)
  show "state_at s' i = Ready" "t_parent (task_at s' i) = current s" "t_waitable (task_at s' i) = w"
    "t_space (task_at s' i) = 0" "\<not> t_in_user (task_at s' i)" "current s' = current s" "cr3 s' = cr3 s" "ticks s' = ticks s"
    using l f t1 t2 by (simp_all add: upd_task_def)
  show "sched_inv s'" by (rule spawn_inner_inv [OF inv sp])
qed
section \<open>What the scheduler keeps\<close>

definition dead :: "sched \<Rightarrow> nat \<Rightarrow> bool" where
  "dead s t \<longleftrightarrow> state_at s t = Unused \<or> state_at s t = Terminated"

text \<open>No task dies, changes its address space or is switched to.\<close>

definition kept_tasks :: "sched \<Rightarrow> sched \<Rightarrow> bool" where
  "kept_tasks s s' \<longleftrightarrow> kernel_cr3 s' = kernel_cr3 s \<and>
     (\<forall>t<MAX_TASKS. t_space (task_at s' t) = t_space (task_at s t) \<and> (dead s' t \<longrightarrow> dead s t))"

definition kept :: "sched \<Rightarrow> sched \<Rightarrow> bool" where
  "kept s s' \<longleftrightarrow> kept_tasks s s' \<and> current s' = current s \<and> cr3 s' = cr3 s"

lemma kept_refl [simp]: "kept s s"
  by (simp add: kept_def kept_tasks_def)

lemma kept_trans: "kept s t \<Longrightarrow> kept t u \<Longrightarrow> kept s u"
  by (simp add: kept_def kept_tasks_def)

lemma kept_ctl: "tasks s' = tasks s \<Longrightarrow> kernel_cr3 s' = kernel_cr3 s \<Longrightarrow> current s' = current s \<Longrightarrow> cr3 s' = cr3 s \<Longrightarrow> kept s s'"
  by (simp add: kept_def kept_tasks_def dead_def)

lemma kept_upd:
  assumes "t_space (f (task_at s i)) = t_space (task_at s i)"
    "t_state (f (task_at s i)) \<in> {Unused, Terminated} \<Longrightarrow> state_at s i \<in> {Unused, Terminated}"
  shows "kept s (upd_task i f s)"
  using assms by (cases "i < length (tasks s)") (auto simp: kept_def kept_tasks_def dead_def upd_task_def nth_list_update list_update_beyond)

lemma kept_set_state: "st \<notin> {Unused, Terminated} \<Longrightarrow> kept s (set_state i st s)"
  unfolding set_state_def by (rule kept_upd) simp_all

lemma kept_release: "state_at s i = Terminated \<Longrightarrow> kept s (release_slot i s)"
  unfolding release_slot_def by (rule kept_upd) simp_all

lemma kept_fold: "(\<And>i t. kept t (f i t)) \<Longrightarrow> kept s (fold f is s)"
  by (induction "is" arbitrary: s) (auto intro: kept_trans)

lemma kept_reap_orphans: "kept s (reap_orphans s)"
  unfolding reap_orphans_def Let_def by (rule kept_fold) (simp add: kept_release)

lemma kept_wake_io: "kept s (snd (wake_io_waiters s))"
proof -
  have "kept s (snd (fold (\<lambda>i (woken, s). if state_at s i = IoWait then (woken + 1 :: nat, set_state i Ready s) else (woken, s)) is (n, s)))"
    for "is" n
  proof (induction "is" arbitrary: s n)
    case (Cons i "is")
    show ?case
    proof (cases "state_at s i = IoWait")
      case True
      have "kept s (set_state i Ready s)" by (rule kept_set_state) simp
      from kept_trans [OF this Cons] show ?thesis using True by simp
    qed (simp add: Cons)
  qed simp
  then show ?thesis by (simp add: wake_io_waiters_def)
qed

lemma kept_wait_begin: "kept s (snd (wait_for_task_begin c s))"
  by (auto simp: wait_for_task_begin_def Let_def intro!: kept_release kept_upd)

lemma kept_reap_child: "kept s (snd (reap_finished_child p s))"
proof (cases "finished_child p s")
  case (Some i)
  then show ?thesis using find_slot_Some [OF Some [unfolded finished_child_def]] by (simp add: reap_finished_child_def kept_release)
qed (simp add: reap_finished_child_def)

lemma kept_wait_any: "kept s (snd (wait_for_any_begin s))"
proof -
  obtain r s1 where r: "reap_finished_child (current s) s = (r, s1)" by force
  have k: "kept s s1" using kept_reap_child [of s "current s"] r by simp
  have "kept s (snd (wait_for_task_begin i s1))" for i by (rule kept_trans [OF k kept_wait_begin])
  then show ?thesis using r k by (auto simp: wait_for_any_begin_def Let_def split: option.split prod.split wait_result.split)
      (metis snd_conv)+
qed

text \<open>The calls of the scheduler that only wait, wake and account.\<close>

fun quiet :: "sched_op \<Rightarrow> bool" where
  "quiet (OYield rsp) = False" | "quiet (OPreempt rsp) = False" | "quiet OExit = False" | "quiet (OKill i) = False"
| "quiet (OSpace c) = False" | "quiet (OSetSpace i c) = False" | "quiet (OWaitAgain c) = False" | "quiet _ = True"

lemma kept_spawn:
  assumes "sched_inv s" "\<forall>t<MAX_TASKS. dead s t \<longrightarrow> t_space (task_at s t) = 0"
  shows "kept s (snd (spawn_inner name w s))"
proof -
  obtain r s' where sp: "spawn_inner name w s = (r, s')" by force
  show ?thesis
  proof (cases r)
    case None
    have "tasks s' = tasks s \<and> kernel_cr3 s' = kernel_cr3 s \<and> current s' = current s \<and> cr3 s' = cr3 s"
      using sp None by (auto simp: spawn_inner_def spawn_slot_def spawn_stacks_def Let_def split: option.splits prod.splits if_splits)
    then show ?thesis using sp by (simp add: kept_ctl)
  next
    case (Some i)
    note S = spawn_inner_Some [OF assms(1) sp [unfolded Some]]
    have "kernel_cr3 s' = kernel_cr3 s"
      using sp by (auto simp: spawn_inner_def spawn_slot_def spawn_stacks_def upd_task_def Let_def split: option.splits prod.splits if_splits)
    moreover have "t_space (task_at s' t) = t_space (task_at s t) \<and> (dead s' t \<longrightarrow> dead s t)" if "t < MAX_TASKS" for t
      using S(2,3,6) S(12) [of t] assms(2) that by (cases "t = i") (auto simp: dead_def)
    ultimately show ?thesis using S(8,9) sp by (simp add: kept_def kept_tasks_def)
  qed
qed

lemma kept_quiet:
  assumes "sched_inv s" "\<forall>t<MAX_TASKS. dead s t \<longrightarrow> t_space (task_at s t) = 0" "quiet a"
  shows "kept s (sched_do a s)"
proof (cases a)
  case OTick
  have "kept s (s\<lparr>ticks := w32 (ticks s + 1)\<rparr>)" by (rule kept_ctl) simp_all
  moreover have "kept u (on_timer_tick u)" for u
  proof -
    have a: "kept u (upd_task (current u) (\<lambda>t. t\<lparr>t_cpu_ticks := w32 (t_cpu_ticks t + 1)\<rparr>) u)" (is "kept u ?v") by (rule kept_upd) simp_all
    have b: "kept ?v (upd_task (current u) (\<lambda>t. t\<lparr>t_credits := t_credits t - 1\<rparr>) ?v)" by (rule kept_upd) simp_all
    have c: "kept ?v (upd_task (current u) (\<lambda>t. t\<lparr>t_credits := 0\<rparr>) ?v)" (is "kept ?v ?w") by (rule kept_upd) simp_all
    have d: "kept ?w (?w\<lparr>need_resched := True\<rparr>)" by (rule kept_ctl) simp_all
    show ?thesis using kept_trans [OF a b] kept_trans [OF kept_trans [OF a c] d] by (simp add: on_timer_tick_def Let_def)
  qed
  ultimately show ?thesis using OTick by (auto simp: pit_on_tick_def intro: kept_trans)
next
  case (OSpawn n)
  then show ?thesis using kept_spawn [OF assms(1,2)] by (simp add: spawn_def)
next
  case (OSpawnChild n)
  then show ?thesis using kept_spawn [OF assms(1,2)] by (simp add: spawn_child_def)
next
  case (OIoWait r n)
  have "kept u (set_state (current u) IoWait u)" for u by (rule kept_set_state) simp
  then have "kept u ((set_state (current u) IoWait u)\<lparr>io_waits := j\<rparr>)" for u j by (rule kept_trans) (rule kept_ctl; simp)
  then show ?thesis using OIoWait by (simp add: wait_for_io_begin_def io_arm_def)
next
  case (OIoAgain r d)
  have "kept u (set_state (current u) IoWait u)" for u by (rule kept_set_state) simp
  then have "kept u ((set_state (current u) IoWait u)\<lparr>io_waits := j\<rparr>)" for u j by (rule kept_trans) (rule kept_ctl; simp)
  then show ?thesis using OIoAgain by (simp add: wait_for_io_resume_def io_arm_def kept_set_state)
next
  case (OSleep n)
  then show ?thesis by (auto simp: sleep_begin_def Let_def intro!: kept_upd)
next
  case (ONice i v)
  then show ?thesis by (auto simp: set_nice_def Let_def intro!: kept_upd)
qed (use assms(3) in \<open>auto simp: preempt_disable_def preempt_enable_def sleep_resume_def kept_wake_io kept_wait_begin kept_wait_any
     kept_reap_child set_current_in_user_mode_def set_current_exit_code_def suppress_heartbeat_def kept_set_state
     intro!: kept_upd kept_ctl\<close>)

text \<open>A switch changes the running task and loads its address space, and no task dies in it.\<close>

lemma kernel_cr3_upd [simp]:
  "kernel_cr3 (upd_task i f s) = kernel_cr3 s" "kernel_cr3 (set_state i st s) = kernel_cr3 s" "kernel_cr3 (refill_credits n s) = kernel_cr3 s"
proof -
  have "kernel_cr3 (fold (\<lambda>i. upd_task i g) is s) = kernel_cr3 s" for g "is"
    by (induction "is" arbitrary: s) (simp_all add: upd_task_def)
  then show "kernel_cr3 (refill_credits n s) = kernel_cr3 s" by (simp add: refill_credits_def)
qed (simp_all add: upd_task_def set_state_def)

lemma switch_to_task_cr3:
  "cr3 (switch_to_task rsp cur n s) =
     (if t_space (task_at (switch_to_task rsp cur n s) n) = 0 then kernel_cr3 s else t_space (task_at (switch_to_task rsp cur n s) n))"
  "kernel_cr3 (switch_to_task rsp cur n s) = kernel_cr3 s"
proof -
  have sp: "t_space (task_at (upd_task cur (\<lambda>t. t\<lparr>t_sp := rsp\<rparr>) v) n) = t_space (task_at v n)" for v
    by (cases "cur = n"; cases "cur < length (tasks v)") (simp_all add: upd_task_def list_update_beyond)
  have c: "cr3 (upd_task cur f v) = cr3 v" for f v by (simp add: upd_task_def)
  show "cr3 (switch_to_task rsp cur n s) =
     (if t_space (task_at (switch_to_task rsp cur n s) n) = 0 then kernel_cr3 s else t_space (task_at (switch_to_task rsp cur n s) n))"
    unfolding switch_to_task_def Let_def sp c by simp
  show "kernel_cr3 (switch_to_task rsp cur n s) = kernel_cr3 s"
    unfolding switch_to_task_def Let_def by simp
qed

lemma yield_keeps:
  assumes inv: "sched_inv s" and ld: "cr3 s = (if t_space (task_at s (current s)) = 0 then kernel_cr3 s else t_space (task_at s (current s)))"
  shows "kept_tasks s (yield_now rsp s) \<and>
     cr3 (yield_now rsp s) = (if t_space (task_at (yield_now rsp s) (current (yield_now rsp s))) = 0 then kernel_cr3 s
                              else t_space (task_at (yield_now rsp s) (current (yield_now rsp s))))"
proof -
  obtain n s1 s2 where s1: "s1 = beat (s\<lparr>need_resched := False\<rparr>)" "sched_inv s1" "tasks s1 = tasks s" "current s1 = current s"
      "task_count s1 = task_count s" "ticks s1 = ticks s"
    and p: "pick_next (current s1) s1 = (n, s2)"
    and s2: "sched_inv s2" "current s2 = current s" "task_count s2 = task_count s" "n < task_count s"
    and y: "yield_now rsp s = (if n = current s then s2 else switch_to_task rsp (current s2) n s2)"
    by (rule yield_now_cases [OF inv, of rsp])
  note r = pick_next_result [OF s1(2) p] and d = sched_invD [OF inv] and d2 = sched_invD [OF s2(1)]
  have c1: "kernel_cr3 s1 = kernel_cr3 s" "cr3 s1 = cr3 s" by (simp_all add: s1(1) beat_def)
  have "s2 = s1\<lparr>tasks := tasks s2\<rparr>" using r(1) by (simp add: same_ctl_def)
  then have "kernel_cr3 s2 = kernel_cr3 (s1\<lparr>tasks := tasks s2\<rparr>)" "cr3 s2 = cr3 (s1\<lparr>tasks := tasks s2\<rparr>)" by metis+
  then have c2: "kernel_cr3 s2 = kernel_cr3 s" "cr3 s2 = cr3 s" using c1 by simp_all
  have wk: "t_space (woken s1 i) = t_space (task_at s1 i) \<and> (t_state (woken s1 i) \<in> {Unused, Terminated} \<longrightarrow> dead s i)" for i
    by (auto simp: woken_def Let_def dead_def s1(3) split: task_state.splits)
  have k2: "t_space (task_at s2 i) = t_space (task_at s i) \<and> (dead s2 i \<longrightarrow> dead s i)" if "i < MAX_TASKS" for i
    using r(3) [OF that] wk [of i] by (auto simp: picked_task_def dead_def s1(3) split: if_splits)
  show ?thesis
  proof (cases "n = current s")
    case True
    have "current s < MAX_TASKS" using d(3,4) by simp
    then show ?thesis using y True k2 c2 s2(2) ld by (simp add: kept_tasks_def)
  next
    case False
    have m: "current s2 < MAX_TASKS" "n < MAX_TASKS" "n \<noteq> current s2" using s2 d(3,4) False by simp_all
    note sw = switch_to_task_result [OF d2(1,3) m, where rsp = rsp]
    let ?t = "switch_to_task rsp (current s2) n s2"
    have sp: "t_space (task_at ?t i) = t_space (task_at s i) \<and> (dead ?t i \<longrightarrow> dead s i)" if "i < MAX_TASKS" for i
      using sw(5) [OF that] k2 [OF that] by (auto simp: switched_task_def dead_def Let_def split: if_splits)
    have "cr3 ?t = (if t_space (task_at ?t n) = 0 then kernel_cr3 s2 else t_space (task_at ?t n)) \<and> kernel_cr3 ?t = kernel_cr3 s2"
      using switch_to_task_cr3 by blast
    then show ?thesis using y False sp sw(1) c2 by (simp add: kept_tasks_def)
  qed
qed
section \<open>Consistent machines\<close>

definition spaces_in_use :: "sched \<Rightarrow> nat set" where
  "spaces_in_use s = {t_space (task_at s t) | t. t < MAX_TASKS \<and> t_space (task_at s t) \<noteq> 0}"

definition paging_ok :: "sched \<Rightarrow> mmu \<Rightarrow> bool" where
  "paging_ok s m \<longleftrightarrow> preach (spaces_in_use s, m) \<and> cr3 s = mm_cr3 m \<and> kernel_cr3 s = mm_kernel m \<and>
     cr3 s = (if t_space (task_at s (current s)) = 0 then kernel_cr3 s else t_space (task_at s (current s))) \<and>
     (\<forall>t<MAX_TASKS. \<forall>u<MAX_TASKS. t \<noteq> u \<and> t_space (task_at s t) \<noteq> 0 \<longrightarrow> t_space (task_at s u) \<noteq> t_space (task_at s t))"

definition tasks_ok :: "sched \<Rightarrow> fds \<Rightarrow> bool" where
  "tasks_ok s f \<longleftrightarrow> (\<forall>t<MAX_TASKS. dead s t \<longrightarrow> t_space (task_at s t) = 0 \<and> (\<forall>i. fd_get t i f = None))"

definition machine_ok :: "'d machine \<Rightarrow> bool" where
  "machine_ok k \<longleftrightarrow> sched_inv (k_sched k) \<and> fd_inv (k_fds k) \<and> gui_inv (k_gui k) \<and> sig_inv (k_sig k) \<and>
     launcher_inv (k_launch k) \<and> length (k_breaks k) = MAX_TASKS \<and> length (k_child_context k) = MAX_TASKS \<and>
     length (k_child_pending k) = MAX_TASKS \<and> tasks_ok (k_sched k) (k_fds k) \<and> paging_ok (k_sched k) (k_mmu k)"

lemma machine_okD:
  assumes "machine_ok k"
  shows "sched_inv (k_sched k)" "fd_inv (k_fds k)" "gui_inv (k_gui k)" "sig_inv (k_sig k)" "launcher_inv (k_launch k)"
    "length (k_breaks k) = MAX_TASKS" "length (k_child_context k) = MAX_TASKS" "length (k_child_pending k) = MAX_TASKS"
    "tasks_ok (k_sched k) (k_fds k)" "paging_ok (k_sched k) (k_mmu k)" "current_id k < MAX_TASKS"
  using assms sched_invD(3,4) [of "k_sched k"] by (auto simp: machine_ok_def)

lemma paging_okD:
  assumes "paging_ok s m"
  shows "preach (spaces_in_use s, m)" "cr3 s = mm_cr3 m" "kernel_cr3 s = mm_kernel m"
    "cr3 s = (if t_space (task_at s (current s)) = 0 then kernel_cr3 s else t_space (task_at s (current s)))"
    "\<And>t u. t < MAX_TASKS \<Longrightarrow> u < MAX_TASKS \<Longrightarrow> t \<noteq> u \<Longrightarrow> t_space (task_at s t) \<noteq> 0 \<Longrightarrow> t_space (task_at s u) \<noteq> t_space (task_at s t)"
  using assms unfolding paging_ok_def by blast+

lemma space_in_use: "t < MAX_TASKS \<Longrightarrow> t_space (task_at s t) = c \<Longrightarrow> c \<in> spaces_in_use s \<or> c = 0"
  by (auto simp: spaces_in_use_def)

lemma spaces_in_use_cong:
  "(\<And>t. t < MAX_TASKS \<Longrightarrow> t_space (task_at s' t) = t_space (task_at s t)) \<Longrightarrow> spaces_in_use s' = spaces_in_use s"
  unfolding spaces_in_use_def by (metis (lifting))

lemma kept_paging:
  assumes "paging_ok s m" "kept_tasks s s'" "cr3 s' = (if t_space (task_at s' (current s')) = 0 then kernel_cr3 s' else t_space (task_at s' (current s')))"
    "mm_cr3 m' = cr3 s'" "mm_kernel m' = mm_kernel m" "preach (spaces_in_use s, m) \<Longrightarrow> preach (spaces_in_use s, m')"
  shows "paging_ok s' m'"
proof -
  have sp: "t_space (task_at s' t) = t_space (task_at s t)" if "t < MAX_TASKS" for t
    using assms(2) that by (simp add: kept_tasks_def)
  have "spaces_in_use s' = spaces_in_use s" by (rule spaces_in_use_cong) (rule sp)
  then show ?thesis using assms sp by (simp add: paging_ok_def kept_tasks_def)
qed

lemma tasks_ok_sub:
  assumes "tasks_ok s f"
    "\<And>t. t < MAX_TASKS \<Longrightarrow> dead s' t \<Longrightarrow> dead s t \<and> t_space (task_at s' t) = t_space (task_at s t) \<and> (\<forall>i. fd_get t i f' = fd_get t i f)"
  shows "tasks_ok s' f'"
  using assms unfolding tasks_ok_def by simp

lemma kept_tasks_ok: "tasks_ok s f \<Longrightarrow> kept_tasks s s' \<Longrightarrow> tasks_ok s' f"
  by (simp add: tasks_ok_def kept_tasks_def)

lemma kept_machine:
  assumes "machine_ok k" "kept (k_sched k) s'" "sched_inv s'"
  shows "machine_ok (k\<lparr>k_sched := s'\<rparr>)"
proof -
  note K = machine_okD [OF assms(1)]
  have k: "kept_tasks (k_sched k) s'" "current s' = current_id k" "cr3 s' = cr3 (k_sched k)" "kernel_cr3 s' = kernel_cr3 (k_sched k)"
    using assms(2) by (simp_all add: kept_def kept_tasks_def)
  have "t_space (task_at s' (current s')) = t_space (task_at (k_sched k) (current_id k))"
    using k(1,2) K(11) by (simp add: kept_tasks_def)
  then have "cr3 s' = (if t_space (task_at s' (current s')) = 0 then kernel_cr3 s' else t_space (task_at s' (current s')))"
    using paging_okD(4) [OF K(10)] k(2-4) by simp
  then have "paging_ok s' (k_mmu k)" by (rule kept_paging [OF K(10) k(1)]) (simp_all add: k paging_okD(2) [OF K(10)])
  then show ?thesis using assms(1,3) kept_tasks_ok [OF K(9) k(1)] by (simp add: machine_ok_def)
qed

lemma quiet_machine:
  assumes "machine_ok k" "quiet a" "sched_op_ok a (k_sched k)"
  shows "machine_ok (k\<lparr>k_sched := sched_do a (k_sched k)\<rparr>)"
proof (rule kept_machine [OF assms(1)])
  note K = machine_okD [OF assms(1)]
  show "kept (k_sched k) (sched_do a (k_sched k))"
    using K(9) by (intro kept_quiet [OF K(1) _ assms(2)]) (simp add: tasks_ok_def)
  show "sched_inv (sched_do a (k_sched k))" by (rule sched_do_inv [OF K(1) assms(3)])
qed

text \<open>The switch of tasks: the scheduler's, with the page tables of the next task loaded.\<close>

definition switch_task :: "nat \<Rightarrow> 'd machine \<Rightarrow> 'd machine" where
  "switch_task rsp k =
     (let s = yield_now rsp (k_sched k) in k\<lparr>k_sched := s, k_mmu := (k_mmu k)\<lparr>mm_cr3 := cr3 s\<rparr>\<rparr>)"

lemma preach_switch: "preach (L, m) \<Longrightarrow> c \<in> L \<or> c = 0 \<Longrightarrow> preach (L, switch_to c m)"
  by (rule preach.intros(2) [OF _ pstep.switch])

lemma switch_machine:
  assumes "machine_ok k"
  shows "machine_ok (switch_task rsp k)"
proof -
  note K = machine_okD [OF assms]
  let ?s = "yield_now rsp (k_sched k)" let ?c = "t_space (task_at ?s (current ?s))"
  have P: "cr3 (k_sched k) = (if t_space (task_at (k_sched k) (current_id k)) = 0 then kernel_cr3 (k_sched k)
      else t_space (task_at (k_sched k) (current_id k)))" "kernel_cr3 (k_sched k) = mm_kernel (k_mmu k)"
    using K(10) by (simp_all add: paging_ok_def)
  have inv: "sched_inv ?s" by (rule yield_now_inv [OF K(1)])
  have cur: "current ?s < MAX_TASKS" using sched_invD(3,4) [OF inv] by simp
  note y = yield_keeps [OF K(1) P(1), of rsp]
  have ke: "kernel_cr3 ?s = mm_kernel (k_mmu k)" using y P(2) by (simp add: kept_tasks_def)
  have sp: "t_space (task_at (k_sched k) (current ?s)) = ?c" using y cur by (simp add: kept_tasks_def)
  have sw: "(k_mmu k)\<lparr>mm_cr3 := cr3 ?s\<rparr> = switch_to ?c (k_mmu k)" using y P(2) by (simp add: switch_to_def)
  have "?c \<in> spaces_in_use (k_sched k) \<or> ?c = 0" by (rule space_in_use [OF cur sp])
  then have pr: "preach (spaces_in_use (k_sched k), k_mmu k) \<Longrightarrow> preach (spaces_in_use (k_sched k), (k_mmu k)\<lparr>mm_cr3 := cr3 ?s\<rparr>)"
    unfolding sw by (rule preach_switch [rotated])
  have "cr3 ?s = (if ?c = 0 then kernel_cr3 ?s else ?c)" using y P(2) ke by simp
  then have "paging_ok ?s ((k_mmu k)\<lparr>mm_cr3 := cr3 ?s\<rparr>)"
    by (rule kept_paging [OF K(10) y [THEN conjunct1] _ _ _ pr]) simp_all
  then show ?thesis using assms inv kept_tasks_ok [OF K(9)] y by (simp add: machine_ok_def switch_task_def Let_def)
qed
section \<open>Address spaces\<close>

text \<open>What the operations on address spaces do to the set of the living ones.\<close>

lemma preach_space:
  assumes "preach (L, m)" "c \<in> L"
  shows "c \<noteq> 0" "c \<noteq> mm_kernel m"
proof -
  obtain C where P: "pinv C (L, m)" using preach_inv [OF assms(1)] by blast
  obtain x where x: "x \<in> C" "c = cr3_of x" using pinvD(1) [OF P] assms(2) by blast
  note c = cr3_not_kernel [OF pinvD(3) [OF P] paging_invD(3) [OF pinvD(2) [OF P] x(1)]]
  show "c \<noteq> 0" "c \<noteq> mm_kernel m" using c x(2) by simp_all
qed

text \<open>Operations that write page frames of the pool only leave the registers alone.\<close>

definition same_regs :: "mmu \<Rightarrow> mmu \<Rightarrow> bool" where
  "same_regs m m' \<longleftrightarrow> mm_cr3 m' = mm_cr3 m \<and> mm_kernel m' = mm_kernel m"

lemma keeps_regs: "keeps C m m' \<Longrightarrow> same_regs m m'"
  using keepsD(2) writesD(1,2) by (metis same_regs_def)

lemma space_create:
  assumes "preach (L, m)" "create_user_space m = (r, m')"
  shows "preach (case r of None \<Rightarrow> L | Some c \<Rightarrow> insert c L, m')" "same_regs m m'" "r = Some c \<Longrightarrow> c \<notin> L"
proof -
  obtain C where P: "pinv C (L, m)" using preach_inv [OF assms(1)] by blast
  have st: "pstep (Create r) (L, m) (case r of None \<Rightarrow> L | Some c \<Rightarrow> insert c L, m')" by (rule pstep.create [OF assms(2)])
  show "preach (case r of None \<Rightarrow> L | Some c \<Rightarrow> insert c L, m')" by (rule preach.intros(2) [OF assms(1) st])
  show "same_regs m m'"
    using create_keeps [OF pinvD(2-4) [OF P]] assms(2) by (auto split: option.splits intro: keeps_regs)
  show "c \<notin> L" if "r = Some c"
  proof -
    have "good_step (Create r) (L, m) (case r of None \<Rightarrow> L | Some c \<Rightarrow> insert c L, m')" using step_good [OF assms(1) st] by blast
    then show ?thesis using that by (auto simp: good_step_def abs_pstate_def spaces_def split: if_splits)
  qed
qed

lemma space_clone:
  assumes "preach (L, m)" "src \<in> L" "clone_user_space src m = (r, m')"
  shows "preach (case r of None \<Rightarrow> L | Some c \<Rightarrow> insert c L, m')" "same_regs m m'" "r = Some c \<Longrightarrow> c \<notin> L"
    "r = Some c \<Longrightarrow> spaces (insert c L, m') = (spaces (L, m))(c \<mapsto> child_page \<circ> the (spaces (L, m) src))"
    "r = None \<Longrightarrow> spaces (L, m') = spaces (L, m)"
proof -
  obtain C where P: "pinv C (L, m)" using preach_inv [OF assms(1)] by blast
  obtain x where x: "x \<in> C" "src = cr3_of x" using pinvD(1) [OF P] assms(2) by blast
  have st: "pstep (Clone src r) (L, m) (case r of None \<Rightarrow> L | Some c \<Rightarrow> insert c L, m')" by (rule pstep.clone [OF assms(2,3)])
  show "preach (case r of None \<Rightarrow> L | Some c \<Rightarrow> insert c L, m')" by (rule preach.intros(2) [OF assms(1) st])
  show "same_regs m m'"
    using clone_keeps [OF pinvD(2-4) [OF P] x(1)] assms(3) x(2) by (auto split: option.splits intro: keeps_regs)
  have g: "a_pstep (Clone src r) (abs_pstate (L, m)) (abs_pstate (case r of None \<Rightarrow> L | Some c \<Rightarrow> insert c L, m'))"
    using step_good [OF assms(1) st] by (simp add: good_step_def)
  show "c \<notin> L" if "r = Some c" using g that by (auto simp: abs_pstate_def spaces_def split: if_splits)
  show "spaces (insert c L, m') = (spaces (L, m))(c \<mapsto> child_page \<circ> the (spaces (L, m) src))" if "r = Some c"
    using g that by (auto simp: abs_pstate_def comp_def)
  show "spaces (L, m') = spaces (L, m)" if "r = None" using g that by (auto simp: abs_pstate_def)
qed

lemma space_destroy:
  assumes "preach (L, m)" "c \<in> L" "c \<noteq> mm_cr3 m"
  shows "preach (L - {c}, destroy_user_space c m)" "same_regs m (destroy_user_space c m)"
    "spaces (L - {c}, destroy_user_space c m) = (spaces (L, m))(c := None)"
proof -
  obtain C where P: "pinv C (L, m)" using preach_inv [OF assms(1)] by blast
  obtain x where x: "x \<in> C" "c = cr3_of x" using pinvD(1) [OF P] assms(2) by blast
  have st: "pstep (Destroy c) (L, m) (L - {c}, destroy_user_space c m)" by (rule pstep.destroy [OF assms(2,3)])
  show "preach (L - {c}, destroy_user_space c m)" by (rule preach.intros(2) [OF assms(1) st])
  show "same_regs m (destroy_user_space c m)" using destroy_keeps(2) [OF pinvD(2-4) [OF P] x(1)] x(2) by (simp add: keeps_regs)
  show "spaces (L - {c}, destroy_user_space c m) = (spaces (L, m))(c := None)"
    using step_good [OF assms(1) st] by (simp add: good_step_def abs_pstate_def)
qed

lemma space_reserve:
  assumes "preach (L, m)" "c \<in> L" "reserve_user_range c start len m = (r, m')"
  shows "preach (L, m')" "same_regs m m'"
proof -
  obtain C where P: "pinv C (L, m)" using preach_inv [OF assms(1)] by blast
  obtain x where x: "x \<in> C" "c = cr3_of x" using pinvD(1) [OF P] assms(2) by blast
  show "preach (L, m')" by (rule preach.intros(2) [OF assms(1) pstep.reserve [OF assms(2,3)]])
  obtain s' where s': "reserve_pages c (range_pages start len) m = (all_named (range_pages start len), s')"
    "\<exists>W\<subseteq>{..<POOL_FRAMES}. writes W m s'"
    using reserve_keeps [OF pinvD(2-4) [OF P] x(1), of "range_pages start len", folded x(2)] by (elim exE conjE) (rule that; blast)
  have "reserve_user_range c start len m = reserve_pages c (range_pages start len) m"
    by (simp add: reserve_user_range_def range_pages_def)
  then have "m' = s'" using s'(1) assms(3) by simp
  then show "same_regs m m'" using s'(2) writesD(1,2) by (metis same_regs_def)
qed
section \<open>Killing and forking\<close>

lemma mark_terminated_others:
  assumes "mark_terminated v s = (r, s')"
  shows "t \<noteq> v \<Longrightarrow> task_at s' t = task_at s t" "cr3 s' = cr3 s" "kernel_cr3 s' = kernel_cr3 s" "\<not> is_ok r \<Longrightarrow> s' = s"
  using assms by (auto simp: mark_terminated_def Let_def set_state_def upd_task_def release_slot_def split: if_splits task_state.splits)

lemma terminate_machine:
  assumes K: "machine_ok k" and t: "terminate v k = (r, k')"
  shows "machine_ok k'"
proof (cases r)
  case (Ok u)
  note K' = machine_okD [OF K] and P = paging_okD [OF machine_okD(10) [OF K]]
  have t': "terminate v k = (Ok (), k')" using t Ok by simp
  note R = kill_releases [OF K'(1-3) t']
  obtain s where s: "mark_terminated v (k_sched k) = (Ok (t_space (task_at (k_sched k) v)), s)" "k_sched k' = s"
    by (rule terminate_Ok [OF t'])
  note m = mark_terminated_fields [OF s(1)] and o = mark_terminated_others [OF s(1)]
  have rest: "k_sig k' = k_sig k" "k_launch k' = k_launch k" "k_breaks k' = k_breaks k" "k_child_context k' = k_child_context k"
    "k_child_pending k' = k_child_pending k"
    using t' by (auto simp: terminate_def release_task_def Let_def split: prod.splits outcome.splits if_splits)
  let ?c = "t_space (task_at (k_sched k) v)" let ?L = "spaces_in_use (k_sched k)"
  have sp: "t_space (task_at s t) = (if t = v then 0 else t_space (task_at (k_sched k) t))" for t
    using o(1) R s(2) by auto
  have L: "spaces_in_use s = ?L - {?c}" if "?c \<noteq> 0"
  proof (intro set_eqI iffI)
    fix x assume "x \<in> spaces_in_use s"
    then obtain t where t: "t < MAX_TASKS" "x = t_space (task_at (k_sched k) t)" "x \<noteq> 0" "t \<noteq> v"
      by (auto simp: spaces_in_use_def sp split: if_splits)
    then show "x \<in> ?L - {?c}" using P(5) [OF m(2) t(1) t(4) [symmetric] that] by (auto simp: spaces_in_use_def)
  next
    fix x assume "x \<in> ?L - {?c}"
    then obtain t where "t < MAX_TASKS" "x = t_space (task_at (k_sched k) t)" "x \<noteq> 0" "t \<noteq> v"
      by (auto simp: spaces_in_use_def)
    then show "x \<in> spaces_in_use s" using sp [of t] by (force simp: spaces_in_use_def)
  qed
  have L0: "spaces_in_use s = ?L" if "?c = 0"
    by (rule spaces_in_use_cong) (use that sp in simp)
  have cur: "t_space (task_at s (current s)) = t_space (task_at (k_sched k) (current_id k))" using m(1,3) sp by simp
  have pr: "preach (spaces_in_use s, k_mmu k') \<and> same_regs (k_mmu k) (k_mmu k')"
  proof (cases "?c = 0")
    case True
    then show ?thesis using R P(1) L0 by (simp add: same_regs_def)
  next
    case False
    have cL: "?c \<in> ?L" using False m(2) by (auto simp: spaces_in_use_def)
    have "?c \<noteq> mm_cr3 (k_mmu k)" using P(2-4) P(5) [OF m(2) K'(11) m(3) False] preach_space(2) [OF P(1) cL] by (auto split: if_splits)
    from space_destroy [OF P(1) cL this] show ?thesis using R False L by simp
  qed
  have "paging_ok s (k_mmu k')"
    unfolding paging_ok_def
  proof (intro conjI allI impI)
    show "preach (spaces_in_use s, k_mmu k')" "cr3 s = mm_cr3 (k_mmu k')" "kernel_cr3 s = mm_kernel (k_mmu k')"
      using pr o(2,3) P(2,3) by (simp_all add: same_regs_def)
    show "cr3 s = (if t_space (task_at s (current s)) = 0 then kernel_cr3 s else t_space (task_at s (current s)))"
      unfolding cur o(2,3) by (rule P(4))
    fix t u assume a: "t < MAX_TASKS" "u < MAX_TASKS" "t \<noteq> u \<and> t_space (task_at s t) \<noteq> 0"
    then have "t \<noteq> v" "t_space (task_at (k_sched k) t) \<noteq> 0" using sp [of t] by (auto split: if_splits)
    then show "t_space (task_at s u) \<noteq> t_space (task_at s t)"
      using P(5) [OF a(1,2), OF a(3) [THEN conjunct1]] sp [of t] sp [of u] by simp
  qed
  moreover have "tasks_ok s (k_fds k')"
    unfolding tasks_ok_def
  proof (intro allI impI)
    fix t assume a: "t < MAX_TASKS" "dead s t"
    show "t_space (task_at s t) = 0 \<and> (\<forall>i. fd_get t i (k_fds k') = None)"
    proof (cases "t = v")
      case False
      then have "dead (k_sched k) t" using a(2) o(1) by (simp add: dead_def)
      then show ?thesis using False K'(9) a(1) R sp [of t] by (simp add: tasks_ok_def)
    qed (use R sp in simp)
  qed
  ultimately show ?thesis using R K' rest s(2) by (simp add: machine_ok_def)
qed (use K t mark_terminated_others(4) in \<open>force simp: terminate_def split: prod.splits outcome.splits\<close>)+

text \<open>What a fork that succeeds has done.\<close>

lemma fork_Ok:
  assumes K: "machine_ok k" and run: "\<not> dead (k_sched k) (current_id k)" and f: "fork frame k = (Ok child, k')"
  obtains c m s where "clone_user_space (t_space (task_at (k_sched k) (current_id k))) (k_mmu k) = (Some c, m)"
    "spawn_child ''fork'' (k_sched k) = (Some child, s)" "child < MAX_TASKS" "child \<noteq> current_id k" "dead (k_sched k) child"
    "t_space (task_at (k_sched k) (current_id k)) \<noteq> 0"
    "k_sched k' = set_address_space child c s" "k_mmu k' = m" "k_fds k' = fd_clone_into (current_id k) child (k_fds k)"
    "k_breaks k' = (k_breaks k)[child := current_break k]" "k_sig k' = clone_into child s (k_sig k)"
    "k_child_context k' = (k_child_context k)[child := (frame_user_context frame)\<lparr>uc_rax := 0\<rparr>]"
    "k_child_pending k' = (k_child_pending k)[child := True]" "k_gui k' = k_gui k" "k_launch k' = k_launch k" "k_vfs k' = k_vfs k"
    "k_user k' = (k_user k)(c := k_user k (t_space (task_at (k_sched k) (current_id k))))" "k_ram k' = k_ram k"
proof -
  let ?p = "current_id k" let ?sp = "t_space (task_at (k_sched k) ?p)"
  note K' = machine_okD [OF K]
  have g: "?sp \<noteq> 0" using f by (auto simp: fork_def Let_def split: if_splits)
  obtain q m where q: "clone_user_space ?sp (k_mmu k) = (q, m)" by force
  obtain c where c: "q = Some c" using f g q by (cases q) (auto simp: fork_def Let_def split: if_splits)
  obtain w s where w: "spawn_child ''fork'' (k_sched k) = (w, s)" by force
  have wc: "w = Some child" using f g q c w by (cases w) (auto simp: fork_def Let_def split: if_splits)
  note S = spawn_inner_Some [OF K'(1) w [unfolded wc spawn_child_def]]
  have ch: "child < MAX_TASKS" "dead (k_sched k) child" "child \<noteq> ?p" using S(1,2) run by (auto simp: dead_def)
  show thesis
    by (rule that [OF q [unfolded c] w [unfolded wc] ch(1,3,2) g])
      (use f g q c w wc ch S(8) in \<open>auto simp: fork_def Let_def clone_program_break_def set_break_def current_break_def split: if_splits\<close>)
qed
lemma in_use_insert:
  assumes "\<And>t. t < MAX_TASKS \<Longrightarrow> t_space (task_at s' t) = (if t = v then c else t_space (task_at s t))"
    "v < MAX_TASKS" "t_space (task_at s v) = 0" "c \<noteq> 0"
  shows "spaces_in_use s' = insert c (spaces_in_use s)"
proof (intro set_eqI iffI)
  fix x assume "x \<in> spaces_in_use s'"
  then obtain t where "t < MAX_TASKS" "x = t_space (task_at s' t)" "x \<noteq> 0" by (auto simp: spaces_in_use_def)
  then show "x \<in> insert c (spaces_in_use s)" using assms(1) [of t] by (auto simp: spaces_in_use_def split: if_splits)
next
  fix x assume x: "x \<in> insert c (spaces_in_use s)"
  have v: "t_space (task_at s' v) = c" using assms(1) [OF assms(2)] by simp
  show "x \<in> spaces_in_use s'"
  proof (cases "x = c")
    case True
    then show ?thesis using v assms(2,4) by (auto simp: spaces_in_use_def)
  next
    case False
    then obtain t where t: "t < MAX_TASKS" "x = t_space (task_at s t)" "x \<noteq> 0" using x by (auto simp: spaces_in_use_def)
    then have "t_space (task_at s' t) = x" using assms(1) [OF t(1)] assms(3) by (auto split: if_splits)
    then show ?thesis using t(1,3) by (auto simp: spaces_in_use_def)
  qed
qed

text \<open>A task without an address space gets a new one: the table of tasks \<open>s'\<close> with the tables \<open>m'\<close>.\<close>

lemma paging_ok_insert:
  assumes P: "paging_ok s m" and v: "v < MAX_TASKS" "t_space (task_at s v) = 0" and c: "c \<notin> spaces_in_use s"
    and m': "preach (insert c (spaces_in_use s), m')" "mm_kernel m' = mm_kernel m" "kernel_cr3 s' = kernel_cr3 s" "mm_cr3 m' = cr3 s'"
    and sp: "\<And>t. t < MAX_TASKS \<Longrightarrow> t_space (task_at s' t) = (if t = v then c else t_space (task_at s t))"
    and ld: "cr3 s' = (if t_space (task_at s' (current s')) = 0 then kernel_cr3 s' else t_space (task_at s' (current s')))"
  shows "paging_ok s' m'"
  unfolding paging_ok_def
proof (intro conjI allI impI)
  note p = paging_okD [OF P]
  have c0: "c \<noteq> 0" using preach_space(1) [OF m'(1)] by simp
  show "preach (spaces_in_use s', m')" using m'(1) in_use_insert [OF sp v c0] by simp
  show "cr3 s' = mm_cr3 m'" "kernel_cr3 s' = mm_kernel m'" using m'(2-4) p(3) by simp_all
  show "cr3 s' = (if t_space (task_at s' (current s')) = 0 then kernel_cr3 s' else t_space (task_at s' (current s')))" by (rule ld)
  fix t u assume a: "t < MAX_TASKS" "u < MAX_TASKS" "t \<noteq> u \<and> t_space (task_at s' t) \<noteq> 0"
  have n: "t_space (task_at s x) \<noteq> c" if "x < MAX_TASKS" for x using space_in_use [OF that refl] c c0 by metis
  show "t_space (task_at s' u) \<noteq> t_space (task_at s' t)"
    using a n [OF a(1)] n [OF a(2)] p(5) [OF a(1,2)] sp [OF a(1)] sp [OF a(2)] by (auto split: if_splits)
qed

lemma no_space_dead: "machine_ok k \<Longrightarrow> \<forall>t<MAX_TASKS. dead (k_sched k) t \<longrightarrow> t_space (task_at (k_sched k) t) = 0"
  using machine_okD(9) by (auto simp: tasks_ok_def)

text \<open>A fork that finds no task gives its copy of the address space back.\<close>

lemma fork_undone:
  assumes K: "machine_ok k" and q: "clone_user_space (t_space (task_at (k_sched k) (current_id k))) (k_mmu k) = (Some c, m)"
    and w: "spawn_child n (k_sched k) = (None, s)" and sp: "t_space (task_at (k_sched k) (current_id k)) \<noteq> 0"
  shows "machine_ok (k\<lparr>k_user := u, k_sched := s, k_mmu := destroy_user_space c m\<rparr>)"
proof -
  let ?L = "spaces_in_use (k_sched k)"
  note K' = machine_okD [OF K] and P = paging_okD [OF machine_okD(10) [OF K]]
  have inL: "t_space (task_at (k_sched k) (current_id k)) \<in> ?L" using sp K'(11) by (auto simp: spaces_in_use_def)
  note C = space_clone [OF P(1) inL q, simplified]
  have "mm_cr3 m \<in> ?L" using P(2,4) sp inL C(2) by (simp add: same_regs_def)
  then have "c \<noteq> mm_cr3 m" using C(3) by blast
  from space_destroy [OF C(1) _ this] have d: "preach (?L, destroy_user_space c m)" "same_regs (k_mmu k) (destroy_user_space c m)"
    using C(2,3) by (simp_all add: same_regs_def)
  have kp: "kept (k_sched k) s" using kept_spawn [OF K'(1) no_space_dead [OF K], of n True] w by (simp add: spawn_child_def)
  have ko: "machine_ok (k\<lparr>k_sched := s\<rparr>)" by (rule kept_machine [OF K kp spawn_inner_inv [OF K'(1) w [unfolded spawn_child_def]]])
  have "spaces_in_use s = ?L" by (rule spaces_in_use_cong) (use kp in \<open>simp add: kept_def kept_tasks_def\<close>)
  then have "paging_ok s (destroy_user_space c m)"
    using paging_okD [OF machine_okD(10) [OF ko]] d by (auto simp: paging_ok_def same_regs_def)
  then show ?thesis using ko by (simp add: machine_ok_def)
qed

lemma fork_made:
  assumes K: "machine_ok k" and run: "\<not> dead (k_sched k) (current_id k)" and f: "fork frame k = (Ok child, k')"
  shows "machine_ok k'"
proof -
  let ?p = "current_id k" let ?sp = "t_space (task_at (k_sched k) ?p)" let ?L = "spaces_in_use (k_sched k)"
  note K' = machine_okD [OF K] and P = paging_okD [OF machine_okD(10) [OF K]]
  from K run f obtain c m s where F: "clone_user_space ?sp (k_mmu k) = (Some c, m)"
    "spawn_child ''fork'' (k_sched k) = (Some child, s)" "child < MAX_TASKS" "child \<noteq> ?p" "dead (k_sched k) child" "?sp \<noteq> 0"
    "k_sched k' = set_address_space child c s" "k_mmu k' = m" "k_fds k' = fd_clone_into ?p child (k_fds k)"
    "k_breaks k' = (k_breaks k)[child := current_break k]" "k_sig k' = clone_into child s (k_sig k)"
    "k_child_context k' = (k_child_context k)[child := (frame_user_context frame)\<lparr>uc_rax := 0\<rparr>]"
    "k_child_pending k' = (k_child_pending k)[child := True]" "k_gui k' = k_gui k" "k_launch k' = k_launch k"
    by (rule fork_Ok)
  have inL: "?sp \<in> ?L" using F(6) K'(11) by (auto simp: spaces_in_use_def)
  note C = space_clone [OF P(1) inL F(1), simplified]
  note S = spawn_inner_Some [OF K'(1) F(2) [unfolded spawn_child_def]]
  have l: "length (tasks s) = MAX_TASKS" using sched_invD(1) [OF S(11)] .
  have s': "k_sched k' = upd_task child (\<lambda>t. t\<lparr>t_space := c\<rparr>) s" using F(7) F(3) by (simp add: set_address_space_def)
  have ta: "task_at (k_sched k') t = (if t = child then (task_at s t)\<lparr>t_space := c\<rparr> else task_at (k_sched k) t)" for t
    using l F(3) S(12) [of t] by (simp add: s' upd_task_def)
  have ctl: "current (k_sched k') = ?p" "cr3 (k_sched k') = cr3 (k_sched k)" "kernel_cr3 (k_sched k') = kernel_cr3 (k_sched k)"
    using S(8,9) kept_spawn [OF K'(1) no_space_dead [OF K], of "''fork''" True] F(2)
    by (simp_all add: s' upd_task_def kept_def kept_tasks_def spawn_child_def)
  have z: "t_space (task_at (k_sched k) child) = 0" "\<forall>i. fd_get child i (k_fds k) = None"
    using K'(9) F(3,5) unfolding tasks_ok_def by blast+
  have "sched_inv (k_sched k')" unfolding s' by (rule neutral_upd_inv [OF S(11) F(3)]) simp_all
  moreover have "paging_ok (k_sched k') m"
    by (rule paging_ok_insert [OF K'(10) F(3) z(1) C(3,1) _ ctl(3)])
      (use C(2) P(2-4) ctl F(4) ta in \<open>auto simp: same_regs_def\<close>)
  moreover have "\<forall>i<MAX_FDS. \<not> fd_used (fd_at (k_fds k) child i)" using z(2) by (auto simp: fd_get_def split: if_splits)
  note cl = fd_clone_into_result [OF K'(2,11) F(3) F(4) [symmetric] this]
  have "tasks_ok (k_sched k') (k_fds k')"
  proof (rule tasks_ok_sub [OF K'(9)])
    fix t assume a: "t < MAX_TASKS" "dead (k_sched k') t"
    have "t \<noteq> child" using a(2) S(3) by (auto simp: dead_def ta)
    then show "dead (k_sched k) t \<and> t_space (task_at (k_sched k') t) = t_space (task_at (k_sched k) t) \<and>
        (\<forall>i. fd_get t i (k_fds k') = fd_get t i (k_fds k))"
      using a(2) cl(3) [of t] by (simp add: dead_def ta fd_get_def F(9))
  qed
  ultimately show ?thesis using K' F cl(1) by (auto simp: machine_ok_def sig_inv_clone)
qed

lemma fork_machine:
  assumes K: "machine_ok k" and run: "\<not> dead (k_sched k) (current_id k)" and f: "fork frame k = (r, k')"
  shows "machine_ok k'"
proof (cases "is_ok r")
  case True
  then show ?thesis using fork_made [OF K run] f by (cases r) auto
next
  case False
  let ?sp = "t_space (task_at (k_sched k) (current_id k))"
  note K' = machine_okD [OF K] and P = paging_okD [OF machine_okD(10) [OF K]]
  obtain q m where q: "clone_user_space ?sp (k_mmu k) = (q, m)" by force
  obtain w s where w: "spawn_child ''fork'' (k_sched k) = (w, s)" by force
  show ?thesis
  proof (cases "?sp = 0 \<or> \<not> t_in_user (task_at (k_sched k) (current_id k))")
    case True
    then show ?thesis using f K by (auto simp: fork_def Let_def)
  next
    case sp: False
    then have "?sp \<in> spaces_in_use (k_sched k)" using K'(11) by (auto simp: spaces_in_use_def)
    note C = space_clone [OF P(1) this q]
    show ?thesis
    proof (cases q)
      case None
      have "paging_ok (k_sched k) m" using C(1,2) None P by (auto simp: paging_ok_def same_regs_def)
      then show ?thesis using f sp q None K by (auto simp: fork_def Let_def machine_ok_def)
    next
      case (Some c)
      have wn: "w = None" using f sp q w False Some by (cases w) (auto simp: fork_def Let_def)
      show ?thesis using fork_undone [OF K q [unfolded Some] w [unfolded wn]] f sp q Some w wn
        by (auto simp: fork_def Let_def)
    qed
  qed
qed
end
