(* ===== verification/System.thy ===== *)
theory System imports Machine begin

text \<open>
  The whole system as a transition system: the machine of \<open>Machine\<close> with the point each task has
  reached in its own code.  A step is a call of the running task, the next part of its program
  (start, end, fork), a kill, an interrupt or a switch.
\<close>

section \<open>Calls on descriptors\<close>

fun own_fd :: "nat \<Rightarrow> fd_op \<Rightarrow> bool" where
  "own_fd t (FdOpen c n) = (c = t)" | "own_fd t (FdPipe c) = (c = t)" | "own_fd t (FdDup c i) = (c = t)"
| "own_fd t (FdDup2 c i j) = (c = t)" | "own_fd t (FdAdvance c i d) = (c = t)" | "own_fd t (FdClose c i) = (c = t)"
| "own_fd t _ = False"

lemma set_fd_row: "t' \<noteq> t \<Longrightarrow> fd_tables (set_fd t i e s) ! t' = fd_tables s ! t'"
  by (simp add: set_fd_def)

lemma pipe_end_tables [simp]: "fd_tables (fd_retain e s) = fd_tables s" "fd_tables (fd_release e s) = fd_tables s"
  by (simp_all add: fd_retain_def fd_release_def split: fd_kind.split)

lemma own_fd_row:
  assumes "own_fd t op" "t' \<noteq> t"
  shows "fd_tables (fd_do op s) ! t' = fd_tables s ! t'"
  using assms
  by (cases op) (auto simp: fd_allocate_def create_pipe_def fd_dup_def fd_dup2_def fd_advance_def fd_close_def fd_allocate_pipe_def
      set_fd_row Let_def split: option.splits prod.splits if_splits)

lemma fd_machine:
  assumes K: "machine_ok k" and run: "\<not> dead (k_sched k) (current_id k)"
    and f: "fd_inv f" "\<And>t. t \<noteq> current_id k \<Longrightarrow> fd_tables f ! t = fd_tables (k_fds k) ! t"
  shows "machine_ok (k\<lparr>k_fds := f\<rparr>)"
proof -
  note K' = machine_okD [OF K]
  have "tasks_ok (k_sched k) f"
  proof (rule tasks_ok_sub [OF K'(9)])
    fix t assume "t < MAX_TASKS" "dead (k_sched k) t"
    then have "t \<noteq> current_id k" using run by auto
    from f(2) [OF this] show "dead (k_sched k) t \<and> t_space (task_at (k_sched k) t) = t_space (task_at (k_sched k) t) \<and>
        (\<forall>i. fd_get t i f = fd_get t i (k_fds k))"
      using \<open>dead (k_sched k) t\<close> by (simp add: fd_get_def)
  qed
  then show ?thesis using K f(1) by (simp add: machine_ok_def)
qed

lemma own_fd_machine:
  assumes "machine_ok k" "\<not> dead (k_sched k) (current_id k)" "own_fd (current_id k) op"
  shows "machine_ok (k\<lparr>k_fds := fd_do op (k_fds k)\<rparr>)"
proof (rule fd_machine [OF assms(1,2)])
  note K' = machine_okD [OF assms(1)]
  have "fd_op_ok op (k_fds k)" using assms(3) K'(11) by (cases op) auto
  then show "fd_inv (fd_do op (k_fds k))" by (rule fd_do_inv [OF K'(2)])
qed (rule own_fd_row [OF assms(3)])

text \<open>A pipe that carries bytes keeps its ends.\<close>

lemma pipe_io_keeps:
  assumes "fd_inv f"
  shows "fd_inv (f\<lparr>fd_pipes := snd (pipe_write p bs (fd_pipes f))\<rparr>)" "fd_inv (f\<lparr>fd_pipes := snd (pipe_read p n (fd_pipes f))\<rparr>)"
proof -
  have I: "pipes_inv (fd_pipes f)" by (rule fd_inv_pipes [OF assms])
  let ?same = "\<lambda>q q'. p_used q = p_used q' \<and> p_writers q = p_writers q' \<and> p_readers q = p_readers q'"
  have *: "fd_inv (f\<lparr>fd_pipes := ps\<rparr>)" if "pipes_inv ps" "\<And>j. ?same (pipe_at ps j) (pipe_at (fd_pipes f) j)" for ps
  proof -
    have "end_count wr ps j = end_count wr (fd_pipes f) j" for wr j using that(2) [of j] by (auto simp: end_count_def)
    then show ?thesis
      using assms fd_pipes_shape [OF fd_inv_shape [OF assms] that(1)] by (simp add: fd_inv_def holders_def)
  qed
  obtain w s where w: "pipe_write p bs (fd_pipes f) = (w, s)" by force
  show "fd_inv (f\<lparr>fd_pipes := snd (pipe_write p bs (fd_pipes f))\<rparr>)"
  proof (cases "p < MAX_PIPES \<and> p_used (pipe_at (fd_pipes f) p) \<and> 0 < p_readers (pipe_at (fd_pipes f) p)")
    case True
    note r = pipe_write_result [OF I _ _ _ w]
    have "?same (pipe_at s j) (pipe_at (fd_pipes f) j)" for j using r(2) r(3) [of j] True by (cases "j = p") simp_all
    then show ?thesis using * [OF r(6)] True w by simp
  next
    case False
    then have "s = fd_pipes f" using w by (auto simp: pipe_write_def Let_def split: if_splits prod.splits)
    then show ?thesis using assms w by simp
  qed
  obtain out s where w: "pipe_read p n (fd_pipes f) = (out, s)" by force
  show "fd_inv (f\<lparr>fd_pipes := snd (pipe_read p n (fd_pipes f))\<rparr>)"
  proof (cases "p < MAX_PIPES \<and> p_used (pipe_at (fd_pipes f) p)")
    case True
    note r = pipe_read_result [OF I _ _ w]
    have "?same (pipe_at s j) (pipe_at (fd_pipes f) j)" for j using r(2) r(3) [of j] True by (cases "j = p") simp_all
    then show ?thesis using * [OF r(6)] True w by simp
  next
    case False
    then have "s = fd_pipes f" using w by (auto simp: pipe_read_def Let_def split: if_splits prod.splits)
    then show ?thesis using assms w by simp
  qed
qed

lemma quiet_fields:
  assumes "machine_ok k"
  shows "machine_ok (k\<lparr>k_vfs := v\<rparr>)" "machine_ok (k\<lparr>k_input := i\<rparr>)" "machine_ok (k\<lparr>k_ipc := j\<rparr>)"
    "machine_ok (k\<lparr>k_console := c\<rparr>)" "machine_ok (set_memory m k)" "machine_ok (k\<lparr>k_user := u\<rparr>)"
    "gui_inv g \<Longrightarrow> machine_ok (k\<lparr>k_gui := g\<rparr>)" "sig_inv sg \<Longrightarrow> machine_ok (k\<lparr>k_sig := sg\<rparr>)"
    "launcher_inv l \<Longrightarrow> machine_ok (k\<lparr>k_launch := l\<rparr>)" "machine_ok (set_break t b k)"
    "machine_ok (k\<lparr>k_child_context := (k_child_context k)[t := x]\<rparr>)" "machine_ok (k\<lparr>k_child_pending := (k_child_pending k)[t := y]\<rparr>)"
  using assms by (simp_all add: machine_ok_def set_break_def)

lemma take_keys_inv: "gui_inv g \<Longrightarrow> gui_inv (snd (take_keys n i g))"
proof (induction n arbitrary: g)
  case (Suc n)
  have "gui_inv (snd (poll_key i g))" by (rule poll_inv [OF Suc.prems])
  from this Suc.IH [OF this] show ?case by (auto split: prod.split)
qed simp

lemma fd_tables_pipes [simp]: "fd_tables (f\<lparr>fd_pipes := ps\<rparr>) = fd_tables f"
  by simp

lemma advance_machine:
  assumes "machine_ok k" "\<not> dead (k_sched k) (current_id k)"
  shows "machine_ok (k\<lparr>k_fds := fd_advance (current_id k) i n (k_fds k)\<rparr>)"
  using own_fd_machine [OF assms, of "FdAdvance (current_id k) i n"] by simp

text \<open>Reading, writing, opening and closing leave the machine consistent.\<close>

lemma write_machine:
  assumes K: "machine_ok k" and run: "\<not> dead (k_sched k) (current_id k)" and w: "api_write now i buf bs k = (r, k')"
  shows "machine_ok k'"
proof -
  have v: "machine_ok (k\<lparr>k_vfs := v, k_fds := fd_advance (current_id k) i n (k_fds k)\<rparr>)" for v n
    using advance_machine [OF K run, of i n] by (simp add: machine_ok_def)
  have p: "machine_ok (k\<lparr>k_fds := (k_fds k)\<lparr>fd_pipes := ps\<rparr>\<rparr>)" if "pipe_write j bs (fd_pipes (k_fds k)) = (n, ps)" for j n ps
    using fd_machine [OF K run pipe_io_keeps(1) [OF machine_okD(2) [OF K], of j bs]] that by simp
  show ?thesis using w v p quiet_fields(1,4) [OF K] K
    by (auto simp: api_write_def split: if_splits option.splits fd_kind.splits prod.splits outcome.splits)
qed

lemma read_machine:
  assumes K: "machine_ok k" and run: "\<not> dead (k_sched k) (current_id k)" and w: "api_read i buf bs k = (r, out, k')"
  shows "machine_ok k'"
proof -
  have v: "machine_ok (k\<lparr>k_vfs := v, k_fds := fd_advance (current_id k) i n (k_fds k)\<rparr>)" for v n
    using advance_machine [OF K run, of i n] by (simp add: machine_ok_def)
  have p: "machine_ok (k\<lparr>k_fds := (k_fds k)\<lparr>fd_pipes := ps\<rparr>\<rparr>)" if "pipe_read j m (fd_pipes (k_fds k)) = (n, ps)" for j m n ps
    using fd_machine [OF K run pipe_io_keeps(2) [OF machine_okD(2) [OF K], of j m]] that by simp
  have g: "machine_ok (k\<lparr>k_gui := g\<rparr>)" if "take_keys m j (k_gui k) = (x, g)" for m j x g
    using quiet_fields(7) [OF K] take_keys_inv [OF machine_okD(3) [OF K], of m j] that by simp
  show ?thesis using w v p g quiet_fields(1) [OF K] K
    by (auto simp: api_read_def split: if_splits option.splits fd_kind.splits prod.splits outcome.splits)
qed

lemma descriptor_machine:
  assumes K: "machine_ok k" and run: "\<not> dead (k_sched k) (current_id k)"
  shows "api_open now path creat k = (r, k') \<Longrightarrow> machine_ok k'" "api_pipe k = (q, k') \<Longrightarrow> machine_ok k'"
    "api_close i k = (p, k') \<Longrightarrow> machine_ok k'"
    "machine_ok (k\<lparr>k_fds := snd (fd_dup (current_id k) i (k_fds k))\<rparr>)"
    "machine_ok (k\<lparr>k_fds := snd (fd_dup2 (current_id k) i j (k_fds k))\<rparr>)"
proof -
  let ?c = "current_id k"
  have o: "machine_ok (k\<lparr>k_vfs := v, k_fds := f\<rparr>)" if "fd_allocate ?c node (k_fds k) = (x, f)" for v node x f
    using own_fd_machine [OF K run, of "FdOpen ?c node"] that by (simp add: machine_ok_def)
  have o': "machine_ok (k\<lparr>k_fds := f\<rparr>)" if "fd_allocate ?c node (k_fds k) = (x, f)" for node x f
    using own_fd_machine [OF K run, of "FdOpen ?c node"] that by simp
  show "api_open now path creat k = (r, k') \<Longrightarrow> machine_ok k'" using o o' quiet_fields(1) [OF K] K
    by (auto simp: api_open_def Let_def split: if_splits option.splits prod.splits outcome.splits)
  show "api_pipe k = (q, k') \<Longrightarrow> machine_ok k'" using own_fd_machine [OF K run, of "FdPipe ?c"]
    by (auto simp: api_pipe_def split: option.splits prod.splits)
  show "api_close i k = (p, k') \<Longrightarrow> machine_ok k'" using own_fd_machine [OF K run, of "FdClose ?c i"]
    by (auto simp: api_close_def split: bool.splits prod.splits)
  show "machine_ok (k\<lparr>k_fds := snd (fd_dup ?c i (k_fds k))\<rparr>)" using own_fd_machine [OF K run, of "FdDup ?c i"] by simp
  show "machine_ok (k\<lparr>k_fds := snd (fd_dup2 ?c i j (k_fds k))\<rparr>)" using own_fd_machine [OF K run, of "FdDup2 ?c i j"] by simp
qed

lemma brk_machine: "machine_ok k \<Longrightarrow> brk n k = (r, k') \<Longrightarrow> machine_ok k'"
  by (auto simp: brk_def Let_def quiet_fields(10) split: if_splits)

lemma desk_machine:
  assumes K: "machine_ok k" and op: "op \<in> {GFocus i, GMouse mx my left, GKey i key, GPoll i}"
  shows "machine_ok (k\<lparr>k_gui := fst (gui_step op (k_gui k, next_free (k_sched k), k_mmu k))\<rparr>)"
proof (rule quiet_fields(7) [OF K])
  have "slots_ok (\<lambda>_. False) (k_gui k)" "gui_op_ok (\<lambda>_. False) op (k_gui k)" using op by (auto simp: slots_ok_def)
  then show "gui_inv (fst (gui_step op (k_gui k, next_free (k_sched k), k_mmu k)))"
    using gui_step_inv(1) [of "(k_gui k, next_free (k_sched k), k_mmu k)" "\<lambda>_. False" op] machine_okD(3) [OF K] by simp
qed

lemma mmu_op_regs [simp]:
  "mm_alloc m = Some (p, m') \<Longrightarrow> mm_cr3 m' = mm_cr3 m" "mm_alloc m = Some (p, m') \<Longrightarrow> mm_kernel m' = mm_kernel m"
  "mm_cr3 (mm_free p m) = mm_cr3 m" "mm_kernel (mm_free p m) = mm_kernel m"
  by (auto simp: mm_alloc_def mm_free_def Let_def split: option.splits prod.splits)

lemma fault_regs: "page_fault err va m = (r, m') \<Longrightarrow> same_regs m m'"
  by (auto simp: page_fault_def handle_demand_fault_def handle_cow_fault_def same_regs_def Let_def split: if_splits option.splits prod.splits)

lemma fault_machine:
  assumes K: "machine_ok k" and f: "page_fault err va (k_mmu k) = (r, m)"
  shows "machine_ok (k\<lparr>k_mmu := m\<rparr>)"
proof -
  note P = paging_okD [OF machine_okD(10) [OF K]]
  have "preach (spaces_in_use (k_sched k), m)" by (rule preach.intros(2) [OF P(1) pstep.fault [OF f]])
  then have "paging_ok (k_sched k) m" using P fault_regs [OF f] by (auto simp: paging_ok_def same_regs_def)
  then show ?thesis using K by (simp add: machine_ok_def)
qed

section \<open>The start and the end of programs\<close>

text \<open>What a task does to itself when it enters and leaves the address space of a program.\<close>

definition own_change :: "sched \<Rightarrow> sched \<Rightarrow> bool" where
  "own_change s s' \<longleftrightarrow> current s' = current s \<and>
     (\<forall>t<MAX_TASKS. (t \<noteq> current s \<longrightarrow> t_space (task_at s' t) = t_space (task_at s t)) \<and> (dead s' t \<longleftrightarrow> dead s t))"

lemma spaces_in_useI: "t < MAX_TASKS \<Longrightarrow> x = t_space (task_at s t) \<Longrightarrow> x \<noteq> 0 \<Longrightarrow> x \<in> spaces_in_use s"
  by (auto simp: spaces_in_use_def)

lemma own_change_refl [simp]: "own_change s s"
  by (simp add: own_change_def)

lemma own_change_trans: "own_change s t \<Longrightarrow> own_change t u \<Longrightarrow> own_change s u"
  by (simp add: own_change_def)

lemma own_change_ctl: "tasks s' = tasks s \<Longrightarrow> current s' = current s \<Longrightarrow> own_change s s'"
  by (simp add: own_change_def dead_def)

lemma own_change_upd:
  "sched_inv s \<Longrightarrow> t_state (f (task_at s (current s))) = state_at s (current s) \<Longrightarrow> own_change s (upd_task (current s) f s)"
  using current_less [of s] sched_invD(1) [of s] by (simp add: own_change_def dead_def)

lemma own_tasks_ok:
  assumes "tasks_ok s f" "own_change s s'" "\<not> dead s (current s)"
  shows "tasks_ok s' f"
proof (rule tasks_ok_sub [OF assms(1)])
  fix t assume "t < MAX_TASKS" "dead s' t"
  then show "dead s t \<and> t_space (task_at s' t) = t_space (task_at s t) \<and> (\<forall>i. fd_get t i f = fd_get t i f)"
    using assms(2,3) unfolding own_change_def by metis
qed

lemma enter_space_machine:
  assumes K: "machine_ok k" and run: "\<not> dead (k_sched k) (current_id k)" "t_space (task_at (k_sched k) (current_id k)) = 0"
    and c: "create_user_space (k_mmu k) = (Some c, m)"
  shows "machine_ok (enter_space c (k\<lparr>k_mmu := m\<rparr>))" "own_change (k_sched k) (k_sched (enter_space c (k\<lparr>k_mmu := m\<rparr>)))"
    "t_space (task_at (k_sched (enter_space c (k\<lparr>k_mmu := m\<rparr>))) (current_id k)) = c" "c \<noteq> 0"
proof -
  note K' = machine_okD [OF K] and P = paging_okD [OF machine_okD(10) [OF K]]
  note C = space_create [OF P(1) c, simplified]
  show c0: "c \<noteq> 0" by (rule preach_space(1) [OF C(1)]) simp
  let ?s = "(k_sched k)\<lparr>cr3 := c\<rparr>" let ?k = "enter_space c (k\<lparr>k_mmu := m\<rparr>)"
  have sw: "mm_cr3 (switch_to c m) = c" using c0 by (simp add: switch_to_def)
  have s': "k_sched ?k = upd_task (current_id k) (\<lambda>t. t\<lparr>t_space := c\<rparr>) ?s"
    unfolding enter_space_def load_space_def Let_def set_current_address_space_def by (simp add: sw)
  have m': "k_mmu ?k = switch_to c m" by (simp add: enter_space_def load_space_def Let_def)
  have inv: "sched_inv ?s" using K'(1) by simp
  have inv': "sched_inv (k_sched ?k)" unfolding s' by (rule neutral_upd_inv [OF inv K'(11)]) simp_all
  have ta: "task_at (k_sched ?k) t = (if t = current_id k then (task_at (k_sched k) t)\<lparr>t_space := c\<rparr> else task_at (k_sched k) t)" for t
    unfolding s' using sched_invD(1) [OF K'(1)] K'(11) by simp
  have ctl: "current_id ?k = current_id k" "cr3 (k_sched ?k) = c" "kernel_cr3 (k_sched ?k) = kernel_cr3 (k_sched k)"
    by (simp_all add: s' upd_task_def)
  show o: "own_change (k_sched k) (k_sched ?k)" by (simp add: own_change_def ctl ta dead_def)
  show "t_space (task_at (k_sched ?k) (current_id k)) = c" by (simp add: ta)
  have "paging_ok (k_sched ?k) (k_mmu ?k)"
    by (rule paging_ok_insert [OF K'(10) K'(11) run(2) C(3)])
      (use preach_switch [OF C(1), of c] C(2) ctl ta c0 in \<open>auto simp: m' switch_to_def same_regs_def\<close>)
  moreover have "tasks_ok (k_sched ?k) (k_fds k)" by (rule own_tasks_ok [OF K'(9) o run(1)])
  ultimately show "machine_ok ?k" using K inv' by (simp add: machine_ok_def) (simp add: enter_space_def load_space_def Let_def)
qed

lemma release_space_machine:
  assumes K: "machine_ok k" and run: "\<not> dead (k_sched k) (current_id k)"
    and c: "space = (if t_space (task_at (k_sched k) (current_id k)) = 0 then None else Some (t_space (task_at (k_sched k) (current_id k))))"
  shows "machine_ok (release_space space k)" "own_change (k_sched k) (k_sched (release_space space k))"
    "t_space (task_at (k_sched (release_space space k)) (current_id k)) = 0"
proof -
  note K' = machine_okD [OF K] and P = paging_okD [OF machine_okD(10) [OF K]]
  let ?c = "t_space (task_at (k_sched k) (current_id k))" let ?k = "release_space space k" let ?L = "spaces_in_use (k_sched k)"
  have "machine_ok ?k \<and> own_change (k_sched k) (k_sched ?k) \<and> t_space (task_at (k_sched ?k) (current_id k)) = 0"
  proof (cases "?c = 0")
    case True
    then show ?thesis using K c by (simp add: release_space_def)
  next
    case False
    have cL: "?c \<in> ?L" using False K'(11) by (auto simp: spaces_in_use_def)
    let ?m = "switch_to 0 (k_mmu k)" let ?s0 = "upd_task (current_id k) (\<lambda>t. t\<lparr>t_space := 0\<rparr>) (k_sched k)"
    have sw: "switch_to (mm_kernel (k_mmu k)) (k_mmu k) = ?m" by (simp add: switch_to_def)
    have s': "k_sched ?k = ?s0\<lparr>cr3 := mm_kernel (k_mmu k)\<rparr>" and m': "k_mmu ?k = destroy_user_space ?c ?m"
      and rest: "k_fds ?k = k_fds k" "k_gui ?k = k_gui k" "k_sig ?k = k_sig k" "k_launch ?k = k_launch k" "k_breaks ?k = k_breaks k"
        "k_child_context ?k = k_child_context k" "k_child_pending ?k = k_child_pending k"
      unfolding release_space_def load_space_def Let_def using c False
      by (simp_all add: sw set_current_address_space_def) (simp_all add: switch_to_def)
    have ta: "task_at (k_sched ?k) t = (if t = current_id k then (task_at (k_sched k) t)\<lparr>t_space := 0\<rparr> else task_at (k_sched k) t)" for t
      unfolding s' using sched_invD(1) [OF K'(1)] K'(11) by simp
    have ctl: "current_id ?k = current_id k" "cr3 (k_sched ?k) = mm_kernel (k_mmu k)" "kernel_cr3 (k_sched ?k) = kernel_cr3 (k_sched k)"
      by (simp_all add: s' upd_task_def)
    have o: "own_change (k_sched k) (k_sched ?k)" by (simp add: own_change_def ctl ta dead_def)
    have "sched_inv ?s0" by (rule neutral_upd_inv [OF K'(1,11)]) simp_all
    then have inv': "sched_inv (k_sched ?k)" unfolding s' by simp
    have pm: "preach (?L, ?m)" by (rule preach_switch [OF P(1)]) simp
    have "?c \<noteq> mm_cr3 ?m" using preach_space(2) [OF P(1) cL] by (simp add: switch_to_def)
    note D = space_destroy [OF pm cL this]
    have uses: "t_space (task_at (k_sched k) t) = ?c \<longleftrightarrow> t = current_id k" if "t < MAX_TASKS" for t
      using P(5) [OF K'(11) that] False that by metis
    have "spaces_in_use (k_sched ?k) = ?L - {?c}"
    proof (intro set_eqI iffI)
      fix x assume "x \<in> spaces_in_use (k_sched ?k)"
      then show "x \<in> ?L - {?c}" using uses by (auto simp: spaces_in_use_def ta split: if_splits)
    next
      fix x assume "x \<in> ?L - {?c}"
      then obtain t where "t < MAX_TASKS" "x = t_space (task_at (k_sched k) t)" "x \<noteq> 0" "t \<noteq> current_id k"
        by (auto simp: spaces_in_use_def)
      then show "x \<in> spaces_in_use (k_sched ?k)" using ta [of t] by (intro spaces_in_useI [of t]) auto
    qed
    moreover have "t_space (task_at (k_sched ?k) u) \<noteq> t_space (task_at (k_sched ?k) t)"
      if "t < MAX_TASKS" "u < MAX_TASKS" "t \<noteq> u \<and> t_space (task_at (k_sched ?k) t) \<noteq> 0" for t u
      using P(5) [OF that(1,2)] that(3) by (auto simp: ta split: if_splits)
    ultimately have "paging_ok (k_sched ?k) (k_mmu ?k)"
      using D P ctl m' by (simp add: paging_ok_def same_regs_def ta) (simp add: switch_to_def)
    moreover have "tasks_ok (k_sched ?k) (k_fds k)" by (rule own_tasks_ok [OF K'(9) o run])
    ultimately show ?thesis using K inv' o rest by (simp add: machine_ok_def ta)
  qed
  then show "machine_ok ?k" "own_change (k_sched k) (k_sched ?k)" "t_space (task_at (k_sched ?k) (current_id k)) = 0" by blast+
qed


lemma set_break_fields [simp]: "k_sched (set_break t b k) = k_sched k" "k_sig (set_break t b k) = k_sig k"
  by (simp_all add: set_break_def)

lemma load_and_enter_machine:
  assumes K: "machine_ok k" and run: "\<not> dead (k_sched k) (current_id k)" and c: "t_space (task_at (k_sched k) (current_id k)) = c" "c \<noteq> 0"
    and r: "load_and_enter img (Some c) k = (r, k')"
  shows "machine_ok k'" "own_change (k_sched k) (k_sched k')"
    "t_space (task_at (k_sched k') (current_id k)) = (case r of Failed e \<Rightarrow> 0 | _ \<Rightarrow> c)"
proof -
  let ?ok = "\<lambda>k'. machine_ok k' \<and> own_change (k_sched k) (k_sched k') \<and> t_space (task_at (k_sched k') (current_id k)) = c"
  let ?out = "\<lambda>k'. machine_ok k' \<and> own_change (k_sched k) (k_sched k') \<and> t_space (task_at (k_sched k') (current_id k)) = 0"
  have out: "?out (release_space (Some c) h)" if h: "?ok h" for h
  proof -
    have cur: "current_id h = current_id k" and d: "\<not> dead (k_sched h) (current_id k)"
      using h run machine_okD(11) [OF K] unfolding own_change_def by metis+
    have s: "Some c = (if t_space (task_at (k_sched h) (current_id h)) = 0 then None else Some (t_space (task_at (k_sched h) (current_id h))))"
      using h c(2) cur by simp
    note R = release_space_machine [OF conjunct1 [OF h] d [folded cur] s]
    show ?thesis using R h own_change_trans cur by metis
  qed
  have enter: "case q of Entered e sp \<Rightarrow> ?ok h | _ \<Rightarrow> ?ok h" if q: "enter_ring3 p (Some c) (set_memory m k) = (q, h)" for p m q h
  proof -
    let ?b = "\<lambda>b. set_break (current_id k mod MAX_TASKS) b (set_memory m k)"
    have k1: "machine_ok ((?b b)\<lparr>k_sig := sig_reset (current_id k) (k_sig k)\<rparr>)" for b
      using K sig_inv_reset [OF machine_okD(4) [OF K]] by (simp add: machine_ok_def set_break_def)
    have k2: "?ok ((?b b)\<lparr>k_sig := sig_reset (current_id k) (k_sig k)\<rparr>)" for b
      using k1 c by (simp add: set_break_def)
    have k3: "?ok ((?b b)\<lparr>k_sig := sig_reset (current_id k) (k_sig k),
        k_sched := set_current_in_user_mode True ((k_sched k)\<lparr>next_free := n, hw_kstack := j\<rparr>)\<rparr>)" for b n j
    proof -
      let ?s = "(k_sched k)\<lparr>next_free := n, hw_kstack := j\<rparr>" let ?t = "set_current_in_user_mode True ?s"
      have i: "sched_inv ?s" using machine_okD(1) [OF K] by simp
      have u: "kept ?s ?t" "sched_inv ?t" "own_change ?s ?t"
        unfolding set_current_in_user_mode_def
        by (rule kept_upd own_change_upd [OF i] neutral_upd_inv [OF i]; use machine_okD(11) [OF K] in simp)+
      have v: "kept (k_sched k) ?t" by (rule kept_trans [OF kept_ctl u(1)]) simp_all
      have "own_change (k_sched k) ?t" by (rule own_change_trans [OF own_change_ctl u(3)]) simp_all
      moreover have "t_space (task_at ?t (current_id k)) = c"
        using v c(1) machine_okD(11) [OF K] by (simp add: kept_def kept_tasks_def)
      ultimately show ?thesis using kept_machine [OF k1 [of b] _ u(2)] v by (simp add: set_break_def)
    qed
    show ?thesis using q k2 k3 K c
      by (auto simp: enter_ring3_def set_program_break_def Let_def quiet_fields(5) split: if_splits option.splits)
  qed
  obtain q m where l: "detect_and_load img (memory k) = (q, m)" by force
  have m: "?ok (set_memory m k)" using K c by (simp add: quiet_fields(5))
  have "case r of Failed e \<Rightarrow> ?out k' | _ \<Rightarrow> ?ok k'"
  proof (cases q)
    case (Ok p)
    obtain e h where e: "enter_ring3 p (Some c) (set_memory m k) = (e, h)" by force
    have "?ok h" using enter [OF e] by (cases e) simp_all
    moreover have "e \<noteq> LoaderPanic" using e by (auto simp: enter_ring3_def Let_def split: if_splits option.splits)
    ultimately show ?thesis using r l Ok e out [of h] by (cases e) (auto simp: load_and_enter_def)
  next
    case (Err e)
    then show ?thesis using r l out [OF m] by (auto simp: load_and_enter_def)
  next
    case Panic
    then show ?thesis using r l m by (auto simp: load_and_enter_def)
  qed
  then show "machine_ok k'" "own_change (k_sched k) (k_sched k')"
    "t_space (task_at (k_sched k') (current_id k)) = (case r of Failed e \<Rightarrow> 0 | _ \<Rightarrow> c)"
    by (cases r; simp)+
qed


text \<open>
  A program starts in an address space of its own, unless there is no frame for one and no other
  program runs; then it is loaded into the shared region of the kernel's own tables.
\<close>

definition own_start :: "'d machine \<Rightarrow> bool" where
  "own_start k \<longleftrightarrow> fst (create_user_space (k_mmu k)) \<noteq> None \<or> user_task_count (k_sched k) > 0"

definition started :: "start \<Rightarrow> nat option \<Rightarrow> nat \<Rightarrow> bool" where
  "started r space c \<longleftrightarrow>
     (case r of Entered e sp \<Rightarrow> c \<noteq> 0 \<and> space = Some c | Failed e \<Rightarrow> c = 0 | LoaderPanic \<Rightarrow> True)"

lemma run_image_machine:
  assumes K: "machine_ok k" and run: "\<not> dead (k_sched k) (current_id k)" "t_space (task_at (k_sched k) (current_id k)) = 0"
    and own: "own_start k" and r: "run_image img k = (r, space, k')"
  shows "machine_ok k' \<and> own_change (k_sched k) (k_sched k') \<and> started r space (t_space (task_at (k_sched k') (current_id k)))"
proof -
  note P = paging_okD [OF machine_okD(10) [OF K]]
  obtain q m where q: "create_user_space (k_mmu k) = (q, m)" by force
  show ?thesis
  proof (cases q)
    case None
    note C = space_create [OF P(1) q [unfolded None], simplified]
    have "paging_ok (k_sched k) m" using C(1,2) P by (auto simp: paging_ok_def same_regs_def)
    then have "machine_ok (k\<lparr>k_mmu := m\<rparr>)" using K by (simp add: machine_ok_def)
    then show ?thesis using r q None own run(2) by (auto simp: run_image_def own_start_def started_def)
  next
    case (Some c)
    note E = enter_space_machine [OF K run q [unfolded Some]]
    let ?k = "enter_space c (k\<lparr>k_mmu := m\<rparr>)"
    have cur: "current_id ?k = current_id k" "\<not> dead (k_sched ?k) (current_id k)"
      using E(2) run(1) machine_okD(11) [OF K] by (auto simp: own_change_def)
    obtain ok m2 where ok: "reserve_user_range c USER_MEM_START USER_MAP_SIZE (k_mmu ?k) = (ok, m2)" by force
    let ?h = "?k\<lparr>k_mmu := m2\<rparr>"
    note P2 = paging_okD [OF machine_okD(10) [OF E(1)]]
    have inL: "c \<in> spaces_in_use (k_sched ?k)"
      by (rule spaces_in_useI [OF machine_okD(11) [OF K]]) (use E(3,4) in simp_all)
    have "paging_ok (k_sched ?k) m2" using space_reserve [OF P2(1) inL ok] P2 by (auto simp: paging_ok_def same_regs_def)
    then have h: "machine_ok ?h" using E(1) by (simp add: machine_ok_def)
    show ?thesis
    proof (cases ok)
      case True
      obtain a b where l: "load_and_enter img (Some c) ?h = (a, b)" by force
      have "machine_ok b \<and> own_change (k_sched ?h) (k_sched b) \<and>
          t_space (task_at (k_sched b) (current_id ?h)) = (case a of Failed e \<Rightarrow> 0 | _ \<Rightarrow> c)"
        using load_and_enter_machine [OF h _ _ E(4) l] cur E(3) by simp
      then show ?thesis using r q Some ok True l cur own_change_trans [OF E(2)] E(4)
        by (auto simp: run_image_def Let_def started_def split: start.splits)
    next
      case False
      have sp: "Some c = (if t_space (task_at (k_sched ?h) (current_id ?h)) = 0 then None else Some (t_space (task_at (k_sched ?h) (current_id ?h))))"
        using cur E(3,4) by simp
      have "\<not> dead (k_sched ?h) (current_id ?h)" using cur by simp
      note R = release_space_machine [OF h this sp]
      have o: "own_change (k_sched ?k) (k_sched (release_space (Some c) ?h))" using R(2) by simp
      have z: "t_space (task_at (k_sched (release_space (Some c) ?h)) (current_id k)) = 0" using R(3) cur by simp
      show ?thesis using r q Some ok False R(1) z own_change_trans [OF E(2) o]
        by (auto simp: run_image_def Let_def started_def)
    qed
  qed
qed

lemma run_from_vfs_machine:
  assumes K: "machine_ok k" and run: "\<not> dead (k_sched k) (current_id k)" "t_space (task_at (k_sched k) (current_id k)) = 0"
    and own: "own_start k" and r: "run_from_vfs path k = (r, space, k')"
  shows "machine_ok k' \<and> own_change (k_sched k) (k_sched k') \<and> started r space (t_space (task_at (k_sched k') (current_id k)))"
proof (cases "vfs_lookup (k_vfs k) path")
  case None
  then show ?thesis using r K run by (auto simp: run_from_vfs_def started_def)
next
  case (Some node)
  obtain q heap v where l: "vfs_load node (next_free (k_sched k)) (k_vfs k) = (q, heap, v)" by (metis prod_cases3)
  let ?s = "(k_sched k)\<lparr>next_free := heap\<rparr>" let ?k = "k\<lparr>k_vfs := v, k_sched := ?s\<rparr>"
  have "machine_ok (k\<lparr>k_sched := ?s\<rparr>)"
    by (rule kept_machine [OF K kept_ctl]) (use machine_okD(1) [OF K] in simp_all)
  then have k: "machine_ok ?k" by (simp add: machine_ok_def)
  have o: "own_change (k_sched k) ?s" by (rule own_change_ctl) simp_all
  have u: "own_start ?k" using own by (simp add: own_start_def user_task_count_def)
  have d: "\<not> dead (k_sched ?k) (current_id ?k)" "t_space (task_at (k_sched ?k) (current_id ?k)) = 0"
    using run by (simp_all add: dead_def)
  show ?thesis
  proof (cases q)
    case (Ok img)
    then have "run_image img ?k = (r, space, k')" using r Some l by (simp add: run_from_vfs_def Let_def)
    from run_image_machine [OF k d u this] own_change_trans [OF o] show ?thesis by simp
  qed (use r Some l k o run in \<open>auto simp: run_from_vfs_def Let_def started_def\<close>)
qed

text \<open>The end of the running task, when it has left its address space.\<close>

lemma end_current_machine:
  assumes K: "machine_ok k" and cur: "current_id k \<noteq> IDLE_TASK" "t_space (task_at (k_sched k) (current_id k)) = 0"
  shows "machine_ok (end_current k)" "current_id (end_current k) = current_id k"
    "t < MAX_TASKS \<Longrightarrow> t_space (task_at (k_sched (end_current k)) t) = t_space (task_at (k_sched k) t)"
    "t < MAX_TASKS \<Longrightarrow> dead (k_sched (end_current k)) t \<Longrightarrow> t = current_id k \<or> dead (k_sched k) t"
proof -
  note K' = machine_okD [OF K]
  let ?i = "current_id k" let ?s = "k_sched k" let ?a = "set_state ?i Terminated ?s"
  let ?b = "if \<not> t_waitable (task_at ?a ?i) then release_slot ?i ?a else ?a"
  let ?f = "fd_close_all ?i (k_fds k)" let ?e = "end_current k"
  have e: "k_sched ?e = reap_orphans ?b" "k_fds ?e = ?f"
    by (simp_all add: end_current_def mark_current_terminated_def Let_def)
  have l: "?i < length (tasks ?s)" using sched_invD(1) [OF K'(1)] K'(11) by simp
  have b: "current ?b = ?i" "cr3 ?b = cr3 ?s" "kernel_cr3 ?b = kernel_cr3 ?s"
    by (simp_all add: set_state_def release_slot_def upd_task_def)
  have bt: "t_space (task_at ?b t) = t_space (task_at ?s t)" "t \<noteq> ?i \<Longrightarrow> task_at ?b t = task_at ?s t" for t
    using l by (auto simp: release_slot_def)
  have r: "kept_tasks ?b (k_sched ?e)" "current_id ?e = current ?b" "cr3 (k_sched ?e) = cr3 ?b"
    using kept_reap_orphans [of ?b] unfolding e kept_def by blast+
  show c: "current_id ?e = ?i" using r(2) b(1) by simp
  have sp: "t_space (task_at (k_sched ?e) t) = t_space (task_at ?s t)" if "t < MAX_TASKS" for t
    using r(1) bt(1) that unfolding kept_tasks_def by metis
  then show "t < MAX_TASKS \<Longrightarrow> t_space (task_at (k_sched ?e) t) = t_space (task_at ?s t)" .
  have dd: "t = ?i \<or> dead ?s t" if "t < MAX_TASKS" "dead (k_sched ?e) t" for t
  proof -
    have "dead ?b t" using r(1) that unfolding kept_tasks_def by blast
    then show ?thesis using bt(2) [of t] unfolding dead_def by metis
  qed
  then show "t < MAX_TASKS \<Longrightarrow> dead (k_sched ?e) t \<Longrightarrow> t = ?i \<or> dead ?s t" .
  note F = fd_close_all_result [OF K'(2,11)]
  have get: "fd_get t i ?f = (if t = ?i then None else fd_get t i (k_fds k))" for t i
    using F(2) [of i] F(3) [of t i] by (auto simp: fd_get_def)
  have "tasks_ok (k_sched ?e) ?f"
    unfolding tasks_ok_def
  proof (intro allI impI)
    fix t assume a: "t < MAX_TASKS" "dead (k_sched ?e) t"
    show "t_space (task_at (k_sched ?e) t) = 0 \<and> (\<forall>i. fd_get t i ?f = None)"
      using dd [OF a] sp [OF a(1)] get cur(2) K'(9) a(1) by (auto simp: tasks_ok_def)
  qed
  moreover have "paging_ok (k_sched ?e) (k_mmu k)"
  proof -
    note P = paging_okD [OF K'(10)]
    have "spaces_in_use (k_sched ?e) = spaces_in_use ?s" by (rule spaces_in_use_cong) (rule sp)
    moreover have "kernel_cr3 (k_sched ?e) = kernel_cr3 ?s" using r(1) b(3) unfolding kept_tasks_def by metis
    moreover have "cr3 (k_sched ?e) = cr3 ?s" using r(3) b(2) by metis
    ultimately have "preach (spaces_in_use (k_sched ?e), k_mmu k) \<and> cr3 (k_sched ?e) = mm_cr3 (k_mmu k) \<and> kernel_cr3 (k_sched ?e) = mm_kernel (k_mmu k)"
      and ld: "cr3 (k_sched ?e) = (if t_space (task_at (k_sched ?e) (current_id ?e)) = 0 then kernel_cr3 (k_sched ?e)
        else t_space (task_at (k_sched ?e) (current_id ?e)))"
      using P(1-4) by (simp_all only: c sp [OF K'(11)])
    moreover note P(5)
    ultimately show ?thesis using sp unfolding paging_ok_def by simp
  qed
  moreover have "sched_inv (k_sched ?e)"
    using mark_current_terminated_inv [OF K'(1) cur(1)] by (simp add: end_current_def Let_def)
  ultimately show "machine_ok ?e" using K F(1) by (simp add: machine_ok_def end_current_def Let_def)
qed


section \<open>The points of tasks\<close>

text \<open>
  Where a task is in its own code: before the first turn of the launcher's loop, in it, before and
  in the program of a forked child, in code of the kernel, or at its end.
\<close>

datatype point = AppFirst | App app_state | ChildStart | ChildRunning | Kernel | Ended

fun point_ok :: "point \<Rightarrow> nat \<Rightarrow> bool" where
  "point_ok ChildStart c = True"
| "point_ok ChildRunning c = True"
| "point_ok (App (AppRunning e sp space)) c = (c \<noteq> 0 \<and> space = Some c)"
| "point_ok (App AppPanic) c = True"
| "point_ok _ c = (c = 0)"

type_synonym 'd system = "'d machine \<times> (nat \<Rightarrow> point)"

definition points_ok :: "sched \<Rightarrow> (nat \<Rightarrow> point) \<Rightarrow> bool" where
  "points_ok s p \<longleftrightarrow> p IDLE_TASK = Kernel \<and>
     (\<forall>t<MAX_TASKS. point_ok (p t) (t_space (task_at s t)) \<and> (dead s t \<longrightarrow> p t = Ended))"

definition system_ok :: "'d system \<Rightarrow> bool" where
  "system_ok st \<longleftrightarrow> machine_ok (fst st) \<and> points_ok (k_sched (fst st)) (snd st)"

lemma points_okD:
  assumes "points_ok s p"
  shows "p IDLE_TASK = Kernel" "\<And>t. t < MAX_TASKS \<Longrightarrow> point_ok (p t) (t_space (task_at s t))"
    "\<And>t. t < MAX_TASKS \<Longrightarrow> p t \<noteq> Ended \<Longrightarrow> \<not> dead s t"
  using assms by (auto simp: points_ok_def)

lemma points_kept: "points_ok s p \<Longrightarrow> kept_tasks s s' \<Longrightarrow> points_ok s' p"
  by (auto simp: points_ok_def kept_tasks_def)

text \<open>The running task goes to its next point.\<close>

lemma points_own:
  assumes "points_ok s p" "own_change s s'" "p (current s) \<noteq> Ended" "current s < MAX_TASKS" "p (current s) \<noteq> Kernel"
    "point_ok q (t_space (task_at s' (current s)))"
  shows "points_ok s' (p(current s := q))"
proof -
  note d = points_okD [OF assms(1)]
  have "point_ok (if t = current s then q else p t) (t_space (task_at s' t)) \<and> (dead s' t \<longrightarrow> (if t = current s then q else p t) = Ended)"
    if "t < MAX_TASKS" for t
  proof (cases "t = current s")
    case True
    then show ?thesis using assms(2,6) d(3) [OF assms(4,3)] that by (simp add: own_change_def)
  next
    case False
    then show ?thesis using assms(1,2) that by (auto simp: own_change_def points_ok_def)
  qed
  then show ?thesis using d(1) assms(5) by (auto simp: points_ok_def)
qed

text \<open>A new task begins at \<open>q\<close>.\<close>

definition born :: "point \<Rightarrow> nat option \<Rightarrow> (nat \<Rightarrow> point) \<Rightarrow> nat \<Rightarrow> point" where
  "born q i p = (case i of None \<Rightarrow> p | Some i \<Rightarrow> p(i := q))"

lemma points_born:
  assumes K: "machine_ok k" and p: "points_ok (k_sched k) p" and sp: "spawn_inner name w (k_sched k) = (i, s)" and q: "point_ok q 0"
  shows "points_ok s (born q i p)" "machine_ok (k\<lparr>k_sched := s\<rparr>)"
proof -
  note K' = machine_okD [OF K]
  have kp: "kept (k_sched k) s" using kept_spawn [OF K'(1) no_space_dead [OF K], of name w] sp by simp
  show "machine_ok (k\<lparr>k_sched := s\<rparr>)" by (rule kept_machine [OF K kp spawn_inner_inv [OF K'(1) sp]])
  have ps: "points_ok s p" by (rule points_kept [OF p]) (use kp in \<open>simp add: kept_def\<close>)
  show "points_ok s (born q i p)"
  proof (cases i)
    case (Some j)
    note S = spawn_inner_Some [OF K'(1) sp [unfolded Some]]
    have "state_at (k_sched k) 0 \<noteq> Unused" using sched_invD(6) [OF K'(1)] by (simp split: if_splits)
    then have "j \<noteq> 0" using S(2) by metis
    then show ?thesis using ps S(3,6) q Some by (auto simp: born_def points_ok_def dead_def)
  qed (simp add: born_def ps)
qed

section \<open>Signals of the machine\<close>

text \<open>
  \<open>signal::raise\<close> with the whole of \<open>scheduler::terminate\<close> behind \<open>SIGKILL\<close>, and the delivery on the way
  back to Ring 3, which writes the frame of the handler into the memory of the program.
\<close>

definition send_signal :: "nat \<Rightarrow> nat \<Rightarrow> 'd machine \<Rightarrow> (signal_error, unit) outcome flow \<times> 'd machine" where
  "send_signal target signo k =
     (case sig_raise target signo (k_sched k) (k_sig k) of (flow, _, sg) \<Rightarrow>
        let k = k\<lparr>k_sig := sg\<rparr> in
        if signo = SIGKILL \<and> flow = Returns (Ok ()) then (flow, snd (terminate target k)) else (flow, k))"

definition deliver_signals :: "paging \<Rightarrow> syscall_frame \<Rightarrow> 'd machine \<Rightarrow> unit flow \<times> syscall_frame \<times> 'd machine" where
  "deliver_signals pg frame k =
     (case deliver_pending pg (k_sched k) frame (k_sig k) (memory k) of
        (flow, frame, sg, m) \<Rightarrow> (flow, frame, set_memory m (k\<lparr>k_sig := sg\<rparr>)))"

definition return_from_handler :: "syscall_frame \<Rightarrow> 'd machine \<Rightarrow> bool \<times> syscall_frame \<times> 'd machine" where
  "return_from_handler frame k = (case sigreturn (k_sched k) frame (k_sig k) of (ok, frame, sg) \<Rightarrow> (ok, frame, k\<lparr>k_sig := sg\<rparr>))"

lemma send_signal_cases:
  assumes "send_signal v signo k = (flow, k')"
  obtains sg where "sig_inv (k_sig k) \<Longrightarrow> sig_inv sg"
    "signo = SIGKILL \<and> flow = Returns (Ok ()) \<and> terminate v (k\<lparr>k_sig := sg\<rparr>) = (Ok (), k') \<or>
     \<not> (signo = SIGKILL \<and> flow = Returns (Ok ())) \<and> k' = k\<lparr>k_sig := sg\<rparr>"
proof -
  obtain s sg where r: "sig_raise v signo (k_sched k) (k_sig k) = (flow, s, sg)"
    using assms by (auto simp: send_signal_def Let_def split: prod.splits if_splits)
  have i: "sig_inv (k_sig k) \<Longrightarrow> sig_inv sg" using sig_inv_raise [of "k_sig k" v signo "k_sched k"] r by simp
  show thesis
  proof (cases "signo = SIGKILL \<and> flow = Returns (Ok ())")
    case True
    then obtain sp where "mark_terminated v (k_sched k) = (Ok sp, s)"
      using r by (auto simp: sig_raise_def Let_def split: if_splits prod.splits outcome.splits)
    then have "terminate v (k\<lparr>k_sig := sg\<rparr>) = (Ok (), snd (terminate v (k\<lparr>k_sig := sg\<rparr>)))" by (simp add: terminate_def)
    moreover have "k' = snd (terminate v (k\<lparr>k_sig := sg\<rparr>))" using r assms True by (simp add: send_signal_def)
    ultimately show thesis using that [of sg] i True by metis
  next
    case False
    then have "k' = k\<lparr>k_sig := sg\<rparr>" using r assms by (auto simp: send_signal_def Let_def)
    then show thesis using that [of sg] i False by metis
  qed
qed

section \<open>Steps\<close>

text \<open>
  Interrupts and waits (\<open>interrupt\<close>, \<open>switch\<close>, \<open>fault\<close>, \<open>desk\<close>), new tasks, kills, the calls of the
  running task and the parts of its own code.  A program that would be loaded into the shared
  region is outside (\<open>own_start\<close>).
\<close>

inductive system_step :: "'d system \<Rightarrow> 'd system \<Rightarrow> bool" where
  interrupt: "quiet a \<Longrightarrow> a \<notin> range OSpawn \<union> range OSpawnChild \<union> range OUserMode \<Longrightarrow> sched_op_ok a (k_sched k) \<Longrightarrow>
     system_step (k, p) (k\<lparr>k_sched := sched_do a (k_sched k)\<rparr>, p)"
| switch: "system_step (k, p) (switch_task rsp k, p)"
| fault: "page_fault err va (k_mmu k) = (r, m) \<Longrightarrow> system_step (k, p) (k\<lparr>k_mmu := m\<rparr>, p)"
| desk: "op \<in> {GFocus i, GMouse mx my left, GKey i key, GPoll i} \<Longrightarrow>
     system_step (k, p) (k\<lparr>k_gui := fst (gui_step op (k_gui k, next_free (k_sched k), k_mmu k))\<rparr>, p)"
| kernel_task: "spawn name (k_sched k) = (i, s) \<Longrightarrow> system_step (k, p) (k\<lparr>k_sched := s\<rparr>, born Kernel i p)"
| launch: "spawn_user_app path k = (r, k') \<Longrightarrow>
     i = (if r = Ok () then fst (spawn (snd (the (app_resolve path k))) (k_sched k)) else None) \<Longrightarrow>
     system_step (k, p) (k', born AppFirst i p)"
| kill: "terminate v k = (r, k') \<Longrightarrow> system_step (k, p) (k', if r = Ok () then p(v := Ended) else p)"
| call_write: "p (current_id k) \<noteq> Ended \<Longrightarrow> api_write now i buf bs k = (r, k') \<Longrightarrow> system_step (k, p) (k', p)"
| call_read: "p (current_id k) \<noteq> Ended \<Longrightarrow> api_read i buf bs k = (r, out, k') \<Longrightarrow> system_step (k, p) (k', p)"
| call_open: "p (current_id k) \<noteq> Ended \<Longrightarrow> api_open now path creat k = (r, k') \<Longrightarrow> system_step (k, p) (k', p)"
| call_pipe: "p (current_id k) \<noteq> Ended \<Longrightarrow> api_pipe k = (r, k') \<Longrightarrow> system_step (k, p) (k', p)"
| call_close: "p (current_id k) \<noteq> Ended \<Longrightarrow> api_close i k = (r, k') \<Longrightarrow> system_step (k, p) (k', p)"
| call_dup: "p (current_id k) \<noteq> Ended \<Longrightarrow> system_step (k, p) (k\<lparr>k_fds := snd (fd_dup (current_id k) i (k_fds k))\<rparr>, p)"
| call_dup2: "p (current_id k) \<noteq> Ended \<Longrightarrow> system_step (k, p) (k\<lparr>k_fds := snd (fd_dup2 (current_id k) i j (k_fds k))\<rparr>, p)"
| call_brk: "brk n k = (x, k') \<Longrightarrow> system_step (k, p) (k', p)"
| call_exec: "request_exec (current_id k) path (k_launch k) = (ok, l) \<Longrightarrow> system_step (k, p) (k\<lparr>k_launch := l\<rparr>, p)"
| call_kill: "send_signal v signo k = (flow, k') \<Longrightarrow>
     system_step (k, p) (k', if signo = SIGKILL \<and> flow = Returns (Ok ()) then p(v := Ended) else p)"
| call_sigaction: "set_handler pg (current_id k) signo h e (k_sig k) = (r, sg) \<Longrightarrow> system_step (k, p) (k\<lparr>k_sig := sg\<rparr>, p)"
| deliver: "deliver_signals pg frame k = (flow, frame', k') \<Longrightarrow> system_step (k, p) (k', p)"
| call_sigreturn: "return_from_handler frame k = (ok, frame', k') \<Longrightarrow> system_step (k, p) (k', p)"
| call_fork: "p (current_id k) \<noteq> Ended \<Longrightarrow> fork frame k = (r, k') \<Longrightarrow>
     system_step (k, p) (k', born ChildStart (case r of Ok child \<Rightarrow> Some child | _ \<Rightarrow> None) p)"
| call_exit: "exit_current_task code k = (LeaveRing3, k') \<Longrightarrow> system_step (k, p) (k', p)"
| kernel_exit: "p (current_id k) = Kernel \<Longrightarrow> current_id k \<noteq> IDLE_TASK \<Longrightarrow> exit_current_task code k = (TerminateTask, k') \<Longrightarrow>
     system_step (k, p) (k', p(current_id k := Ended))"
| app_begin: "p (current_id k) = AppFirst \<Longrightarrow> app_begin k = (st, k') \<Longrightarrow> system_step (k, p) (k', p(current_id k := App st))"
| app: "p (current_id k) = App st \<Longrightarrow> own_start k \<Longrightarrow> app_step st k = (st', k') \<Longrightarrow>
     system_step (k, p) (k', p(current_id k := if st' = AppEnded then Ended else App st'))"
| child_begin: "p (current_id k) = ChildStart \<Longrightarrow> child_begin k = (Some ctx, k') \<Longrightarrow>
     system_step (k, p) (k', p(current_id k := ChildRunning))"
| child_end: "p (current_id k) = ChildRunning \<Longrightarrow> system_step (k, p) (child_ended k, p(current_id k := Ended))"

text \<open>After the components are initialised, with the frame pool and the boot stub's tables given.\<close>

definition system_boot :: "'d system \<Rightarrow> bool" where
  "system_boot st \<longleftrightarrow> (case st of (k, p) \<Rightarrow>
     (\<exists>heap. k_sched k = sched_init (sched_boot heap (mm_kernel (k_mmu k)))) \<and>
     k_fds k = fd_init \<lparr>fd_tables = [], fd_pipes = pipes_init\<rparr> \<and> k_gui k = gui_init \<and> k_sig k = signals_init \<and>
     k_launch k = launcher_init \<and> k_breaks k = replicate MAX_TASKS break_new \<and> length (k_child_context k) = MAX_TASKS \<and>
     k_child_pending k = replicate MAX_TASKS False \<and> pinit ({}, k_mmu k) \<and> p = (\<lambda>t. Ended)(IDLE_TASK := Kernel))"

inductive system_reachable :: "'d system \<Rightarrow> bool" where
  "system_boot st \<Longrightarrow> system_reachable st"
| "system_reachable st \<Longrightarrow> system_step st st' \<Longrightarrow> system_reachable st'"

lemma system_boot_ok:
  assumes "system_boot (k, p)"
  shows "system_ok (k, p)"
proof -
  define m where "m = k_mmu k"
  obtain heap where sk: "k_sched k = sched_init (sched_boot heap (mm_kernel m))"
    using assms by (auto simp: system_boot_def m_def)
  define s where "s = sched_init (sched_boot heap (mm_kernel m))"
  have k: "k_sched k = s" "k_fds k = fd_init \<lparr>fd_tables = [], fd_pipes = pipes_init\<rparr>" "pinit ({}, m)"
    "p = (\<lambda>t. Ended)(IDLE_TASK := Kernel)"
    using assms sk by (simp_all add: system_boot_def m_def s_def)
  have ta: "t_space (task_at s t) = 0" "dead s t = (t \<noteq> 0)" if "t < MAX_TASKS" for t
    using that by (auto simp: s_def sched_init_def sched_boot_def upd_task_def task_empty_def nth_list_update dead_def)
  have ctl: "cr3 s = mm_kernel m" "kernel_cr3 s = mm_kernel m" "current s = 0"
    by (simp_all add: s_def sched_init_def sched_boot_def upd_task_def)
  have su: "spaces_in_use s = {}" using ta(1) by (auto simp: spaces_in_use_def)
  have "mm_cr3 m = mm_kernel m" using k(3) by (auto simp: pinit_def mmu_init_def)
  then have P: "paging_ok s m" using preach.intros(1) [OF k(3)] ta(1) by (simp add: paging_ok_def su ctl)
  have f0: "fd_get t i (k_fds k) = None" if "t < MAX_TASKS" for t i
    using that by (simp add: k(2) fd_get_def fd_init_def fd_empty_def)
  have T: "tasks_ok s (k_fds k)" using ta f0 by (simp add: tasks_ok_def)
  have F: "fd_inv (k_fds k)" unfolding k(2) by (rule fd_init_inv)
  have S: "sched_inv s" unfolding s_def by (rule sched_init_inv)
  have R: "k_gui k = gui_init" "k_sig k = signals_init" "k_launch k = launcher_init" "length (k_breaks k) = MAX_TASKS"
    "length (k_child_context k) = MAX_TASKS" "length (k_child_pending k) = MAX_TASKS"
    using assms by (simp_all add: system_boot_def)
  have "machine_ok k"
    unfolding machine_ok_def R(1-3) k(1) m_def [symmetric]
    using P T F S R(4-6) gui_inv_init sig_inv_init launcher_inv_init by blast
  moreover have "points_ok s p" using ta unfolding points_ok_def k(4) by simp
  ultimately show ?thesis unfolding system_ok_def fst_conv snd_conv k(1) by blast
qed


section \<open>The invariant\<close>

lemma exec_inv:
  assumes "launcher_inv l"
  shows "request_exec t path l = (ok, l') \<Longrightarrow> launcher_inv l'" "take_exec t l = (r, l') \<Longrightarrow> launcher_inv l'"
proof -
  show "launcher_inv l'" if "request_exec t path l = (ok, l')"
  proof (cases "t < MAX_TASKS \<and> length path < LAUNCH_PATH")
    case True
    have "length (copy_path path (l_exec l ! t)) = LAUNCH_PATH"
      using launcher_invD(6) [OF assms, of t] True by (simp add: length_copy_path)
    then show ?thesis using that assms True
      by (auto simp: request_exec_def launcher_inv_def dest!: set_update_subset_insert [THEN subsetD] split: if_splits)
  next
    case False
    then show ?thesis using that assms by (auto simp: request_exec_def)
  qed
  show "launcher_inv l'" if "take_exec t l = (r, l')"
    using that assms
    by (auto simp: take_exec_def Let_def launcher_inv_def dest!: set_update_subset_insert [THEN subsetD] split: if_splits)
qed

lemma system_same: "system_ok (k, p) \<Longrightarrow> machine_ok k' \<Longrightarrow> k_sched k' = k_sched k \<Longrightarrow> system_ok (k', p)"
  by (simp add: system_ok_def)

lemma system_kept: "system_ok (k, p) \<Longrightarrow> machine_ok k' \<Longrightarrow> kept_tasks (k_sched k) (k_sched k') \<Longrightarrow> system_ok (k', p)"
  using points_kept by (auto simp: system_ok_def)

lemma system_own:
  assumes "system_ok (k, p)" "machine_ok k'" "own_change (k_sched k) (k_sched k')" "p (current_id k) \<notin> {Ended, Kernel}"
    "point_ok q (t_space (task_at (k_sched k') (current_id k)))"
  shows "system_ok (k', p(current_id k := q))"
  using points_own [of "k_sched k" p "k_sched k'" q] assms machine_okD(11) [of k] by (auto simp: system_ok_def)

text \<open>The calls that start tasks and end them.\<close>

lemma launch_machine:
  assumes K: "system_ok (k, p)" and c: "spawn_user_app path k = (r, k')"
    "i = (if r = Ok () then fst (spawn (snd (the (app_resolve path k))) (k_sched k)) else None)"
  shows "system_ok (k', born AppFirst i p)"
proof -
  have K': "machine_ok k" "points_ok (k_sched k) p" using K by (simp_all add: system_ok_def)
  have refused: "system_ok (k', born AppFirst i p)" if "k' = k" "r \<noteq> Ok ()" for e
    using K that c(2) by (simp add: born_def)
  show ?thesis
  proof (cases "app_resolve path k")
    case None
    then show ?thesis using c refused by (auto simp: spawn_user_app_def)
  next
    case (Some x)
    obtain full name where x: "x = (full, name)" by force
    obtain ok l where q: "push_pending full (k_launch k) = (ok, l)" by force
    obtain j s where sp: "spawn name (k_sched k) = (j, s)" by force
    note B = points_born [OF K' sp [unfolded spawn_def], of AppFirst]
    show ?thesis
    proof (cases "length full < LAUNCH_PATH")
      case short: True
      have L: "launcher_inv l" by (rule push_pending_result(2) [OF machine_okD(5) [OF K'(1)] short q])
      have ks: "machine_ok (k\<lparr>k_launch := l, k_sched := s\<rparr>)" using B(2) L by (simp add: machine_ok_def)
      have ki: "machine_ok (k\<lparr>k_launch := l, k_sched := s, k_ipc := y\<rparr>)" for y using quiet_fields(3) [OF ks] by simp
      show ?thesis
      proof (cases ok)
        case True
        show ?thesis
        proof (cases j)
          case None
          then have k': "k' = k\<lparr>k_launch := l, k_sched := s\<rparr>" "i = None"
            using c Some x q sp short True by (auto simp: spawn_user_app_def)
          show ?thesis using B(1) ks by (simp add: k' system_ok_def born_def None)
        next
          case (Some t)
          then have k': "k' = k\<lparr>k_launch := l, k_sched := s, k_ipc := snd (post AppStart t 0 0 name (ticks s) (k_ipc k))\<rparr>" "i = Some t"
            using c \<open>app_resolve path k = Some x\<close> x q sp short True by (auto simp: spawn_user_app_def)
          show ?thesis using B(1) ki by (simp add: k' system_ok_def Some)
        qed
      next
        case False
        then have k': "k' = k\<lparr>k_launch := l\<rparr>" "i = None" using c Some x q short by (auto simp: spawn_user_app_def)
        show ?thesis using system_same [OF K quiet_fields(9) [OF K'(1) L]] by (simp add: k' born_def)
      qed
    qed (use c Some x refused in \<open>auto simp: spawn_user_app_def\<close>)
  qed
qed

lemma kill_system:
  assumes K: "system_ok (k, p)" and t: "terminate v k = (Ok (), k')"
  shows "system_ok (k', p(v := Ended))"
proof -
  have K': "machine_ok k" "points_ok (k_sched k) p" using K by (simp_all add: system_ok_def)
  obtain s where s: "mark_terminated v (k_sched k) = (Ok (t_space (task_at (k_sched k) v)), s)" "k_sched k' = s"
    by (rule terminate_Ok [OF t])
  note m = mark_terminated_fields [OF s(1)] and o = mark_terminated_others [OF s(1)]
  have v0: "v \<noteq> 0" using s(1) by (cases "v = 0") (simp_all add: mark_terminated_def)
  have sp: "t_space (task_at s v) = 0" using m(5) m(2) sched_invD(1) [OF machine_okD(1) [OF K'(1)]] by simp
  have "points_ok s (p(v := Ended))" using K'(2) o(1) v0 sp by (auto simp: points_ok_def dead_def)
  then show ?thesis using terminate_machine [OF K'(1) t] s(2) by (simp add: system_ok_def)
qed

lemma kill_refused: "terminate v k = (r, k') \<Longrightarrow> r \<noteq> Ok () \<Longrightarrow> k' = k"
  using mark_terminated_others(4) by (fastforce simp: terminate_def split: prod.splits outcome.splits)

lemma end_system:
  assumes K: "machine_ok k" "points_ok (k_sched k) (p(current_id k := q))" and cur: "current_id k \<noteq> IDLE_TASK" "t_space (task_at (k_sched k) (current_id k)) = 0"
  shows "system_ok (end_current k, p(current_id k := Ended))"
proof -
  note E = end_current_machine [OF K(1) cur] and d = K(2) [unfolded points_ok_def]
  have "point_ok (if t = current_id k then Ended else p t) (t_space (task_at (k_sched (end_current k)) t)) \<and>
      (dead (k_sched (end_current k)) t \<longrightarrow> (if t = current_id k then Ended else p t) = Ended)" if t: "t < MAX_TASKS" for t
  proof (cases "t = current_id k")
    case True
    then show ?thesis using E(3) [OF t] cur(2) by simp
  next
    case False
    then show ?thesis using E(3,4) [OF t] d t by fastforce
  qed
  moreover have "p 0 = Kernel" using d cur(1) by simp
  ultimately show ?thesis using E(1) cur(1) by (simp add: system_ok_def points_ok_def)
qed


lemma user_mode_machine:
  assumes "machine_ok k"
  shows "machine_ok (k\<lparr>k_sched := set_current_in_user_mode b (k_sched k)\<rparr>)"
    "kept (k_sched k) (set_current_in_user_mode b (k_sched k))" "own_change (k_sched k) (set_current_in_user_mode b (k_sched k))"
proof -
  note K = machine_okD [OF assms]
  show k: "kept (k_sched k) (set_current_in_user_mode b (k_sched k))"
    unfolding set_current_in_user_mode_def by (rule kept_upd) simp_all
  show "own_change (k_sched k) (set_current_in_user_mode b (k_sched k))"
    unfolding set_current_in_user_mode_def by (rule own_change_upd [OF K(1)]) simp
  show "machine_ok (k\<lparr>k_sched := set_current_in_user_mode b (k_sched k)\<rparr>)"
    by (rule kept_machine [OF assms k]) (unfold set_current_in_user_mode_def, rule neutral_upd_inv [OF K(1,11)], simp_all)
qed

lemma windows_machine:
  assumes "machine_ok k"
  shows "machine_ok (close_windows k)" "k_sched (close_windows k) = k_sched k"
proof -
  have "gui_inv (snd (close_owned_by (current_id k) (k_gui k)))"
    by (rule close_owned_by(1) [OF machine_okD(3) [OF assms] prod.collapse [symmetric]])
  then show "machine_ok (close_windows k)" unfolding close_windows_def by (rule quiet_fields(7) [OF assms])
qed (simp add: close_windows_def)

lemma next_machine:
  assumes "machine_ok k" "app_next k = (st, k')"
  shows "machine_ok k' \<and> k_sched k' = k_sched k \<and> (\<exists>path. st = AppLoop path)"
proof -
  obtain q l where l: "take_exec (current_id k) (k_launch k) = (q, l)" by force
  note L = quiet_fields(9) [OF assms(1) exec_inv(2) [OF machine_okD(5) [OF assms(1)] l]]
  show ?thesis using assms(2) l L windows_machine [OF L] by (cases q) (auto simp: app_next_def)
qed

lemma run_system:
  assumes K: "system_ok (k, p)" and c: "p (current_id k) = App (AppLoop (Some path))" "own_start k"
    and r: "run_from_vfs path k = (r, space, k')"
  shows "machine_ok k'" "own_change (k_sched k) (k_sched k')" "started r space (t_space (task_at (k_sched k') (current_id k)))"
proof -
  have K': "machine_ok k" "points_ok (k_sched k) p" using K by (simp_all add: system_ok_def)
  note d = points_okD(2,3) [OF K'(2) machine_okD(11) [OF K'(1)]]
  have "\<not> dead (k_sched k) (current_id k)" "t_space (task_at (k_sched k) (current_id k)) = 0" using d c(1) by simp_all
  from run_from_vfs_machine [OF K'(1) this c(2) r]
  show "machine_ok k'" "own_change (k_sched k) (k_sched k')" "started r space (t_space (task_at (k_sched k') (current_id k)))" by blast+
qed

lemma app_system:
  assumes K: "system_ok (k, p)" and c: "p (current_id k) = App st" "own_start k" "app_step st k = (st', k')"
  shows "system_ok (k', p(current_id k := if st' = AppEnded then Ended else App st'))"
proof -
  have K': "machine_ok k" "points_ok (k_sched k) p" using K by (simp_all add: system_ok_def)
  note d = points_okD(2,3) [OF K'(2) machine_okD(11) [OF K'(1)]]
  have run: "p (current_id k) \<notin> {Ended, Kernel}" "\<not> dead (k_sched k) (current_id k)" using c(1) d by simp_all
  have "current_id k \<noteq> IDLE_TASK" using points_okD(1) [OF K'(2)] c(1) by (cases "current_id k = 0") simp_all
  note run = run this
  show ?thesis
  proof (cases st)
    case (AppLoop path)
    have z: "t_space (task_at (k_sched k) (current_id k)) = 0" using d c(1) AppLoop by simp
    show ?thesis
    proof (cases path)
      case (Some path)
      obtain r space h where r: "run_from_vfs path k = (r, space, h)" by (metis prod_cases3)
      note R = run_system [OF K c(1) [unfolded AppLoop Some] c(2) r]
      show ?thesis
      proof (cases r)
        case (Entered e sp)
        then have "st' = AppRunning e sp space" "k' = h" using c(3) AppLoop Some r by auto
        then show ?thesis using system_own [OF K R(1,2) run(1), of "App st'"] R(3) Entered by (simp add: started_def)
      next
        case (Failed e)
        then have n: "app_next h = (st', k')" using c(3) AppLoop Some r by simp
        note N = next_machine [OF R(1) n]
        then show ?thesis using system_own [OF K _ _ run(1), of k' "App st'"] R(2,3) Failed by (auto simp: started_def)
      next
        case LoaderPanic
        then show ?thesis using system_own [OF K R(1,2) run(1), of "App AppPanic"] c(3) AppLoop Some r by auto
      qed
    next
      case None
      note W = windows_machine [OF K'(1)]
      have "k' = end_current (close_windows k)" "st' = AppEnded" using c(3) AppLoop None by simp_all
      then show ?thesis using end_system [OF W(1), of p "p (current_id k)"] W(2) K'(2) run(3) z by simp
    qed
  next
    case (AppRunning e sp space)
    have sp: "t_space (task_at (k_sched k) (current_id k)) \<noteq> 0" "space = Some (t_space (task_at (k_sched k) (current_id k)))"
      using d c(1) AppRunning by simp_all
    let ?u = "k\<lparr>k_sched := set_current_in_user_mode False (k_sched k)\<rparr>"
    note U = user_mode_machine [OF K'(1), of False]
    have cu: "current_id ?u = current_id k" "\<not> dead (k_sched ?u) (current_id k)"
      "t_space (task_at (k_sched ?u) (current_id k)) = t_space (task_at (k_sched k) (current_id k))"
      using U(2,3) run(2) machine_okD(11) [OF K'(1)] by (auto simp: own_change_def kept_def kept_tasks_def)
    have pe: "program_ended space k = release_space space ?u" by (simp add: program_ended_def)
    have "\<not> dead (k_sched ?u) (current_id ?u)" using cu by simp
    moreover have "space = (if t_space (task_at (k_sched ?u) (current_id ?u)) = 0 then None else Some (t_space (task_at (k_sched ?u) (current_id ?u))))"
      using cu(1,3) sp by simp
    ultimately have R: "machine_ok (program_ended space k)" "own_change (k_sched ?u) (k_sched (program_ended space k))"
      "t_space (task_at (k_sched (program_ended space k)) (current_id k)) = 0"
      using release_space_machine [OF U(1)] cu(1) unfolding pe by metis+
    have n: "app_next (program_ended space k) = (st', k')" using c(3) AppRunning by simp
    have "own_change (k_sched k) (k_sched (program_ended space k))" using own_change_trans [OF U(3)] R(2) by simp
    with next_machine [OF R(1) n] show ?thesis using system_own [OF K _ _ run(1), of k' "App st'"] R(3) by auto
  next
    case AppEnded
    then show ?thesis using d c(1,3) system_own [OF K K'(1) own_change_refl run(1), of Ended] by auto
  next
    case AppPanic
    then show ?thesis using c(3) system_own [OF K K'(1) own_change_refl run(1), of "App AppPanic"] by auto
  qed
qed


lemma child_system:
  assumes K: "system_ok (k, p)"
  shows "p (current_id k) = ChildStart \<Longrightarrow> child_begin k = (Some ctx, k') \<Longrightarrow> system_ok (k', p(current_id k := ChildRunning))"
    "p (current_id k) = ChildRunning \<Longrightarrow> system_ok (child_ended k, p(current_id k := Ended))"
proof -
  have K': "machine_ok k" "points_ok (k_sched k) p" using K by (simp_all add: system_ok_def)
  note d = points_okD(2,3) [OF K'(2) machine_okD(11) [OF K'(1)]]
  show "system_ok (k', p(current_id k := ChildRunning))" if a: "p (current_id k) = ChildStart" "child_begin k = (Some ctx, k')"
  proof -
    note U = user_mode_machine [OF K'(1), of True]
    have k': "k' = (k\<lparr>k_sched := set_current_in_user_mode True (k_sched k)\<rparr>)\<lparr>k_child_pending := (k_child_pending k)[current_id k := False]\<rparr>"
      using a(2) by (auto simp: child_begin_def Let_def split: if_splits)
    have "machine_ok k'" using quiet_fields(12) [OF U(1), of "current_id k" False] by (simp add: k')
    then show ?thesis using system_own [OF K, of k' ChildRunning] U(3) a(1) by (simp add: k')
  qed
  show "system_ok (child_ended k, p(current_id k := Ended))" if a: "p (current_id k) = ChildRunning"
  proof -
    let ?u = "k\<lparr>k_sched := set_current_in_user_mode False (k_sched k)\<rparr>"
    note U = user_mode_machine [OF K'(1), of False]
    note W = windows_machine [OF U(1)]
    define h where "h = close_windows ?u"
    have hs: "k_sched h = k_sched ?u" and hm: "machine_ok h" using W by (simp_all add: h_def)
    have cu: "current_id h = current_id k" using U(2) hs by (simp add: kept_def)
    have "\<not> dead (k_sched k) (current_id k)" using d a by simp
    then have dh: "\<not> dead (k_sched h) (current_id h)"
      using U(3) machine_okD(11) [OF K'(1)] unfolding cu hs by (simp add: own_change_def)
    let ?sp = "t_space (task_at (k_sched h) (current_id h))"
    let ?r = "if ?sp = 0 then h else release_space (Some ?sp) h"
    have R: "machine_ok ?r" "own_change (k_sched h) (k_sched ?r)" "t_space (task_at (k_sched ?r) (current_id h)) = 0"
      using release_space_machine [OF hm dh refl] hm by (cases "?sp = 0"; simp)+
    have o: "own_change (k_sched k) (k_sched ?r)" by (rule own_change_trans [OF _ R(2)]) (use U(3) hs in simp)
    have cr: "current_id ?r = current_id k" using o by (simp add: own_change_def)
    have ps: "system_ok (?r, p(current_id k := AppFirst))"
      by (rule system_own [OF K R(1) o]) (use a R(3) cu in simp_all)
    have "current_id k \<noteq> IDLE_TASK" using points_okD(1) [OF K'(2)] a by (cases "current_id k = 0") simp_all
    moreover have "child_ended k = end_current ?r" by (simp add: child_ended_def Let_def h_def)
    ultimately show ?thesis using end_system [OF R(1), of p AppFirst] ps cr R(3) cu by (simp add: system_ok_def)
  qed
qed

lemma exit_system:
  assumes K: "system_ok (k, p)" and e: "exit_current_task code k = (x, k')"
  shows "x = LeaveRing3 \<Longrightarrow> system_ok (k', p)"
    "x = TerminateTask \<Longrightarrow> p (current_id k) = Kernel \<Longrightarrow> current_id k \<noteq> IDLE_TASK \<Longrightarrow> system_ok (k', p(current_id k := Ended))"
proof -
  have K': "machine_ok k" "points_ok (k_sched k) p" using K by (simp_all add: system_ok_def)
  let ?s = "set_current_exit_code code (k_sched k)"
  define h where "h = k\<lparr>k_sched := ?s, k_ipc := snd (post AppExit (current ?s) code 0 (t_name (task_at ?s (current ?s))) (ticks ?s) (k_ipc k))\<rparr>"
  have kp: "kept (k_sched k) ?s" unfolding set_current_exit_code_def by (rule kept_upd) simp_all
  have "machine_ok (k\<lparr>k_sched := ?s\<rparr>)"
    by (rule kept_machine [OF K'(1) kp])
      (unfold set_current_exit_code_def, rule neutral_upd_inv [OF machine_okD(1,11) [OF K'(1)]], simp_all)
  from quiet_fields(3) [OF this] have h: "machine_ok h" by (simp add: h_def)
  have sh: "kept (k_sched k) (k_sched h)" using kp by (simp add: h_def)
  have ps: "system_ok (h, p)" by (rule system_kept [OF K h]) (use sh in \<open>simp add: kept_def\<close>)
  have x: "(x, k') = (if t_in_user (task_at ?s (current ?s)) then (LeaveRing3, h) else (TerminateTask, end_current h))"
    using e [symmetric] unfolding exit_current_task_def Let_def h_def .
  show "system_ok (k', p)" if "x = LeaveRing3" using x that ps by (simp split: if_splits)
  show "system_ok (k', p(current_id k := Ended))" if a: "x = TerminateTask" "p (current_id k) = Kernel" "current_id k \<noteq> IDLE_TASK"
  proof -
    have c: "current_id h = current_id k" using sh by (simp add: kept_def)
    have "t_space (task_at (k_sched h) (current_id h)) = 0"
      using points_okD(2) [of "k_sched h" p "current_id k"] ps a(2) machine_okD(11) [OF h] c by (simp add: system_ok_def)
    then have "system_ok (end_current h, p(current_id h := Ended))"
      using end_system [OF h, of p "p (current_id h)"] ps a(3) c by (simp add: system_ok_def)
    then show ?thesis using x a(1) c by (simp split: if_splits)
  qed
qed

lemma fork_system:
  assumes K: "system_ok (k, p)" and run: "p (current_id k) \<noteq> Ended" and f: "fork frame k = (r, k')"
  shows "system_ok (k', born ChildStart (case r of Ok child \<Rightarrow> Some child | _ \<Rightarrow> None) p)"
proof -
  have K': "machine_ok k" "points_ok (k_sched k) p" using K by (simp_all add: system_ok_def)
  have d: "\<not> dead (k_sched k) (current_id k)" using points_okD(3) [OF K'(2) machine_okD(11) [OF K'(1)] run] .
  have M: "machine_ok k'" by (rule fork_machine [OF K'(1) d f])
  show ?thesis
  proof (cases "is_ok r")
    case True
    then obtain c where r: "r = Ok c" by (cases r) auto
    obtain q m s where F: "spawn_child ''fork'' (k_sched k) = (Some c, s)" "c < MAX_TASKS" "k_sched k' = set_address_space c q s"
      using fork_Ok [OF K'(1) d f [unfolded r]] by metis
    note B = points_born(1) [OF K' F(1) [unfolded spawn_child_def], of ChildStart]
    have l: "length (tasks s) = MAX_TASKS" using spawn_inner_Some(11) [OF machine_okD(1) [OF K'(1)] F(1) [unfolded spawn_child_def]] sched_invD(1) by blast
    have ta: "task_at (k_sched k') t = (if t = c then (task_at s t)\<lparr>t_space := q\<rparr> else task_at s t)" for t
      using F(2) l by (simp add: F(3) set_address_space_def)
    have "points_ok (k_sched k') (born ChildStart (Some c) p)"
      using B by (auto simp: points_ok_def ta dead_def born_def split: if_splits)
    then show ?thesis using M r by (simp add: system_ok_def)
  next
    case False
    then have nb: "born ChildStart (case r of Ok child \<Rightarrow> Some child | _ \<Rightarrow> None) p = p" by (cases r) (simp_all add: born_def)
    have "kept_tasks (k_sched k) (k_sched k')"
    proof (cases "k_sched k' = k_sched k")
      case False
      then obtain s where "spawn_child ''fork'' (k_sched k) = (None, s)" "k_sched k' = s"
        using f \<open>\<not> is_ok r\<close> by (auto simp: fork_def Let_def split: if_splits option.splits prod.splits)
      then show ?thesis using kept_spawn [OF machine_okD(1) [OF K'(1)] no_space_dead [OF K'(1)], of "''fork''" True]
        by (simp add: spawn_child_def kept_def)
    qed (simp add: kept_tasks_def)
    from system_kept [OF K M this] show ?thesis by (simp add: nb)
  qed
qed


lemma kept_sig: "system_ok (k, p) \<Longrightarrow> sig_inv sg \<Longrightarrow> system_ok (k\<lparr>k_sig := sg\<rparr>, p)"
  using quiet_fields(8) [of k sg] by (simp add: system_ok_def)

lemma deliver_system:
  assumes K: "system_ok (k, p)"
  shows "deliver_signals pg frame k = (flow, frame', k') \<Longrightarrow> system_ok (k', p)"
    "return_from_handler frame k = (ok, frame', k') \<Longrightarrow> system_ok (k', p)"
proof -
  have S: "sig_inv (k_sig k)" using K machine_okD(4) by (auto simp: system_ok_def)
  show "system_ok (k', p)" if d: "deliver_signals pg frame k = (flow, frame', k')"
  proof -
    obtain sg m where r: "deliver_pending pg (k_sched k) frame (k_sig k) (memory k) = (flow, frame', sg, m)"
      and k': "k' = set_memory m (k\<lparr>k_sig := sg\<rparr>)"
      using d by (auto simp: deliver_signals_def split: prod.splits)
    have "system_ok (k\<lparr>k_sig := sg\<rparr>, p)" using kept_sig [OF K sig_inv_deliver [OF S, of pg "k_sched k" frame "memory k"]] r by simp
    then show ?thesis using quiet_fields(5) [of "k\<lparr>k_sig := sg\<rparr>" m] by (simp add: k' system_ok_def)
  qed
  show "system_ok (k', p)" if "return_from_handler frame k = (ok, frame', k')"
    using that kept_sig [OF K sig_inv_sigreturn [OF S, of "k_sched k" frame]] by (auto simp: return_from_handler_def split: prod.splits)
qed

lemma kill_signal_system:
  assumes K: "system_ok (k, p)" and f: "send_signal v signo k = (flow, k')"
  shows "system_ok (k', if signo = SIGKILL \<and> flow = Returns (Ok ()) then p(v := Ended) else p)"
proof -
  obtain sg where sg: "sig_inv (k_sig k) \<Longrightarrow> sig_inv sg"
    "signo = SIGKILL \<and> flow = Returns (Ok ()) \<and> terminate v (k\<lparr>k_sig := sg\<rparr>) = (Ok (), k') \<or>
     \<not> (signo = SIGKILL \<and> flow = Returns (Ok ())) \<and> k' = k\<lparr>k_sig := sg\<rparr>"
    using send_signal_cases [OF f] by metis
  have "sig_inv sg" using sg(1) K machine_okD(4) by (auto simp: system_ok_def)
  then have s: "system_ok (k\<lparr>k_sig := sg\<rparr>, p)" by (rule kept_sig [OF K])
  show ?thesis using sg(2) s kill_system [OF s] by auto
qed

lemma calls_sched:
  "api_write now i buf bs k = (r, k') \<Longrightarrow> k_sched k' = k_sched k"
  "api_read i buf bs k = (r, out, k') \<Longrightarrow> k_sched k' = k_sched k"
  "api_open now path creat k = (r, k') \<Longrightarrow> k_sched k' = k_sched k"
  "api_pipe k = (q, k') \<Longrightarrow> k_sched k' = k_sched k" "api_close i k = (c, k') \<Longrightarrow> k_sched k' = k_sched k"
  "brk n k = (x, k') \<Longrightarrow> k_sched k' = k_sched k"
  by (auto simp: api_write_def api_read_def api_open_def api_pipe_def api_close_def brk_def set_break_def Let_def
      split: if_splits option.splits fd_kind.splits prod.splits outcome.splits bool.splits)

text \<open>A call of the running task.\<close>

lemma call_system:
  assumes "system_ok (k, p)" "p (current_id k) \<noteq> Ended"
    "\<lbrakk>machine_ok k; \<not> dead (k_sched k) (current_id k)\<rbrakk> \<Longrightarrow> machine_ok h" "k_sched h = k_sched k"
  shows "system_ok (h, p)"
proof (rule system_same [OF assms(1) _ assms(4)])
  have K: "machine_ok k" "points_ok (k_sched k) p" using assms(1) by (simp_all add: system_ok_def)
  show "machine_ok h" by (rule assms(3) [OF K(1) points_okD(3) [OF K(2) machine_okD(11) [OF K(1)] assms(2)]])
qed

lemma system_step_ok:
  assumes "system_step st st'" "system_ok st"
  shows "system_ok st'"
  using assms
proof (induction rule: system_step.induct)
  case (interrupt a k p)
  have K: "machine_ok k" using interrupt.prems by (simp add: system_ok_def)
  have "kept (k_sched k) (sched_do a (k_sched k))"
    by (rule kept_quiet [OF machine_okD(1) [OF K] no_space_dead [OF K] interrupt.hyps(1)])
  then show ?case by (intro system_kept [OF interrupt.prems quiet_machine [OF K interrupt.hyps(1,3)]]) (simp add: kept_def)
next
  case (switch k p rsp)
  have K: "machine_ok k" using switch.prems by (simp add: system_ok_def)
  have "kept_tasks (k_sched k) (k_sched (switch_task rsp k))"
    using yield_keeps [OF machine_okD(1) [OF K]] paging_okD(4) [OF machine_okD(10) [OF K]] by (simp add: switch_task_def Let_def)
  then show ?case by (rule system_kept [OF switch.prems switch_machine [OF K]])
next
  case (kernel_task name k i s p)
  then show ?case using points_born [of k p name False i s Kernel] by (simp add: system_ok_def spawn_def)
next
  case (launch path k r k' i p)
  show ?case by (rule launch_machine [OF launch.prems launch.hyps])
next
  case (kill v k r k' p)
  then show ?case using kill_system [OF kill.prems, of v k'] kill_refused [OF kill.hyps] by (cases "r = Ok ()") simp_all
next
  case (call_kill v signo k flow k' p)
  show ?case by (rule kill_signal_system [OF call_kill.prems call_kill.hyps])
next
  case (call_fork p k frame r k')
  show ?case by (rule fork_system [OF call_fork.prems call_fork.hyps])
next
  case (call_exit code k k' p)
  show ?case by (rule exit_system(1) [OF call_exit.prems call_exit.hyps refl])
next
  case (kernel_exit p k code k')
  show ?case by (rule exit_system(2) [OF kernel_exit.prems kernel_exit.hyps(3) refl kernel_exit.hyps(1,2)])
next
  case (app_begin p k st k')
  have K: "machine_ok k" "points_ok (k_sched k) p" using app_begin.prems by (simp_all add: system_ok_def)
  obtain q l where l: "take_pending (k_launch k) = (q, l)" by force
  have "launcher_inv l" using take_pending_result [OF machine_okD(5) [OF K(1)]] l machine_okD(5) [OF K(1)] by auto
  note L = quiet_fields(9) [OF K(1) this]
  have z: "t_space (task_at (k_sched k) (current_id k)) = 0"
    using points_okD(2) [OF K(2) machine_okD(11) [OF K(1)]] app_begin.hyps(1) by simp
  have s: "st = AppLoop q" "k' = k\<lparr>k_launch := l\<rparr>" using app_begin.hyps(2) l by (auto simp: app_begin_def)
  have o: "own_change (k_sched k) (k_sched k')" by (simp add: s)
  have m: "machine_ok k'" using L by (simp add: s)
  show ?case by (rule system_own [OF app_begin.prems m o]) (use app_begin.hyps(1) z s in simp_all)
next
  case (app p k st st' k')
  show ?case by (rule app_system [OF app.prems app.hyps])
next
  case (child_begin p k ctx k')
  show ?case by (rule child_system(1) [OF child_begin.prems child_begin.hyps])
next
  case (child_end p k)
  show ?case by (rule child_system(2) [OF child_end.prems child_end.hyps])
next
  case (fault err va k r m p)
  have K: "machine_ok k" using fault.prems by (simp add: system_ok_def)
  show ?case by (rule system_same [OF fault.prems fault_machine [OF K fault.hyps]]) simp
next
  case (desk op i mx my left key k p)
  have K: "machine_ok k" using desk.prems by (simp add: system_ok_def)
  show ?case by (rule system_same [OF desk.prems desk_machine [OF K desk.hyps]]) simp
next
  case (call_write p k now i buf bs r k')
  show ?case by (rule call_system [OF call_write.prems call_write.hyps(1) write_machine [OF _ _ call_write.hyps(2)] calls_sched(1) [OF call_write.hyps(2)]])
next
  case (call_read p k i buf bs r out k')
  show ?case by (rule call_system [OF call_read.prems call_read.hyps(1) read_machine [OF _ _ call_read.hyps(2)] calls_sched(2) [OF call_read.hyps(2)]])
next
  case (call_open p k now path creat r k')
  show ?case by (rule call_system [OF call_open.prems call_open.hyps(1) descriptor_machine(1) [OF _ _ call_open.hyps(2)] calls_sched(3) [OF call_open.hyps(2)]])
next
  case (call_pipe p k r k')
  show ?case by (rule call_system [OF call_pipe.prems call_pipe.hyps(1) descriptor_machine(2) [OF _ _ call_pipe.hyps(2)] calls_sched(4) [OF call_pipe.hyps(2)]])
next
  case (call_close p k i r k')
  show ?case by (rule call_system [OF call_close.prems call_close.hyps(1) descriptor_machine(3) [OF _ _ call_close.hyps(2)] calls_sched(5) [OF call_close.hyps(2)]])
next
  case (call_dup p k i)
  show ?case by (rule call_system [OF call_dup.prems call_dup.hyps descriptor_machine(4)]) simp_all
next
  case (call_dup2 p k i j)
  show ?case by (rule call_system [OF call_dup2.prems call_dup2.hyps descriptor_machine(5)]) simp_all
next
  case (call_brk n k x k' p)
  have K: "machine_ok k" using call_brk.prems by (simp add: system_ok_def)
  show ?case by (rule system_same [OF call_brk.prems brk_machine [OF K call_brk.hyps] calls_sched(6) [OF call_brk.hyps]])
next
  case (call_exec k path ok l p)
  have K: "machine_ok k" using call_exec.prems by (simp add: system_ok_def)
  show ?case by (rule system_same [OF call_exec.prems quiet_fields(9) [OF K exec_inv(1) [OF machine_okD(5) [OF K] call_exec.hyps]]]) simp
next
  case (call_sigaction pg k signo h e r sg p)
  have K: "machine_ok k" using call_sigaction.prems by (simp add: system_ok_def)
  have "sig_inv sg" using sig_inv_set_handler [OF machine_okD(4) [OF K], of pg "current_id k" signo h e] call_sigaction.hyps by simp
  then show ?case by (rule kept_sig [OF call_sigaction.prems])
next
  case (deliver pg frame k flow frame' k' p)
  show ?case by (rule deliver_system(1) [OF deliver.prems deliver.hyps])
next
  case (call_sigreturn frame k ok frame' k' p)
  show ?case by (rule deliver_system(2) [OF call_sigreturn.prems call_sigreturn.hyps])
qed

end
