(* ===== verification/SystemProps.thy ===== *)
theory SystemProps imports System begin

text \<open>
  Properties of the whole system: what holds in every reachable state, what a fork gives the child,
  how a program is replaced and what a failed start of a program leaves behind.
\<close>

section \<open>A program that forks\<close>

lemma clone_zero_pages:
  "\<forall>ki\<in>set kis. pte_at s pt (snd ki) = 0 \<Longrightarrow> clone_pages d pt kis s = (True, s)"
  by (induction kis) (auto simp: clone_page_def Let_def)

text \<open>A space that nothing has touched yet can be copied when five frames are free.\<close>

lemma clone_of_empty:
  assumes P: "pinv C (L, s)" and c: "c \<in> L" "\<And>k. page_at s c k = Empty" and fr: "frames_inv (mm_fr s)" "5 \<le> spare s" "mm_kernel s \<noteq> 0"
  shows "\<exists>d s'. clone_user_space c s = (Some d, s')"
proof -
  note p = pinvD [OF P]
  obtain x where x: "x \<in> C" "c = cr3_of x" using p(1) c(1) by blast
  note ck = cr3_not_kernel [OF p(3) paging_invD(3) [OF p(2) x(1)]]
  obtain q t where cr: "create_user_space s = (Some q, t)"
    using create_some [OF fr(1,3), of 0] fr(2) by auto
  obtain d where d: "q = cr3_of d" "paging_inv (insert d C) (\<lambda>_. 0) t" "keeps C s t" "entries_ok (insert d C) t"
    using create_keeps [OF p(2-4)] cr by auto
  have xd: "x \<in> insert d C" using x(1) by simp
  note ch = chain_okD [OF paging_invD(3) [OF d(2) xd]]
  have "pv s x k = Empty" if "k < 1024" for k
    using spaces_whole [OF P x(1)] c that x(2) by (simp add: spaces_def whole_def fun_eq_iff) metis
  then have "pv t x k = Empty" if "k < 1024" for k using keepsD(3) [OF d(3) x(1) that] that by simp
  then have z: "upte t x k = 0" if "k < 1024" for k
    using that entries_okD [OF d(4) xd that] pv_Empty by blast
  have z0: "pte_at t (frame_addr (sp_pt0 x)) i = 0" "pte_at t (frame_addr (sp_pt1 x)) i = 0" if "i < 512" for i
    using z [of i] z [of "512 + i"] that by (simp_all add: upte_def pt_of_def fw_def)
  have e: "pte_at t (frame_addr (sp_pd x)) 6 = frame_entry (sp_pt0 x)" "pte_at t (frame_addr (sp_pd x)) 7 = frame_entry (sp_pt1 x)"
    "sp_pt0 x < 4096" "sp_pt1 x < 4096"
    using ch by (simp_all add: fw_def)
  have pd: "entry_addr (pte_at t (entry_addr (pte_at t c 0)) 0) = frame_addr (sp_pd x)"
    using ch by (simp add: fw_def [symmetric] cr3_of_def x(2))
  have "clone_pages q (frame_addr (sp_pt0 x)) (map (Pair 6) [0..<512]) t = (True, t)"
    "clone_pages q (frame_addr (sp_pt1 x)) (map (Pair 7) [0..<512]) t = (True, t)"
    by (rule clone_zero_pages; use z0 in auto)+
  then have "clone_tables q (frame_addr (sp_pd x)) [6, 7] t = (True, t)" using e by (simp add: Let_def)
  moreover have "[6..<7 + 1] = [6, 7 :: nat]" by (simp add: upt_rec)
  ultimately have "clone_user_space c s = (Some q, t)"
    using ck cr pd x(2) by (simp add: clone_user_space_def Let_def del: upt_Suc clone_tables.simps)
  then show ?thesis by blast
qed


text \<open>The first program of the system, which has not touched its memory.\<close>

definition prog_space :: nat where
  "prog_space = the (fst (create_user_space boot_mmu))"

definition prog_mmu :: mmu where
  "prog_mmu = switch_to prog_space (snd (create_user_space boot_mmu))"

lemma prog_facts:
  "preach ({prog_space}, prog_mmu)" "mm_cr3 prog_mmu = prog_space" "mm_kernel prog_mmu = 4096" "prog_space \<noteq> 0"
  "\<exists>d m. clone_user_space prog_space prog_mmu = (Some d, m)"
proof -
  have fi: "frames_inv (mm_fr boot_mmu)" "spare boot_mmu = 4096" "mm_kernel boot_mmu = 4096"
    by (simp_all add: boot_mmu_def mmu_init_def frames_inv_init spare_def frames_count_init entry_addr_def)
  then obtain c s1 where cr: "create_user_space boot_mmu = (Some c, s1)" "100 \<le> spare s1"
    using create_some [of boot_mmu 100] by auto
  note C = space_create [OF boot_reach cr(1), simplified]
  have c: "prog_space = c" "prog_mmu = switch_to c s1" using cr(1) by (simp_all add: prog_space_def prog_mmu_def)
  show c0: "prog_space \<noteq> 0" using preach_space(1) [OF C(1)] c by simp
  show k: "mm_kernel prog_mmu = 4096" using C(2) fi(3) by (simp add: c same_regs_def switch_to_def)
  show "mm_cr3 prog_mmu = prog_space" using c0 by (simp add: c switch_to_def)
  show p: "preach ({prog_space}, prog_mmu)" unfolding c by (rule preach_switch [OF C(1)]) simp
  obtain S where S: "pinv S ({prog_space}, prog_mmu)" using preach_inv [OF p] by blast
  have "good_step (Create (Some c)) ({}, boot_mmu) ({c}, s1)"
    using step_good [OF boot_reach pstep.create [OF cr(1)]] by simp
  then have "spaces ({c}, s1) c = Some (\<lambda>_. Empty)" by (auto simp: good_step_def abs_pstate_def)
  moreover have "good_step (Switch c) ({c}, s1) ({c}, prog_mmu)"
    using step_good [OF C(1) pstep.switch [OF disjI1, OF singletonI]] c(2) by simp
  then have "spaces ({c}, prog_mmu) = spaces ({c}, s1)" using c0 c(1) by (auto simp: good_step_def abs_pstate_def)
  ultimately have "spaces ({c}, prog_mmu) c = Some (\<lambda>_. Empty)" by simp
  then have e: "page_at prog_mmu prog_space k = Empty" for k by (simp add: c(1) spaces_def fun_eq_iff)
  have f: "frames_inv (mm_fr prog_mmu)" using paging_invD(1) [OF pinvD(2) [OF S]] by simp
  have "5 \<le> spare prog_mmu" using cr(2) by (simp add: c switch_to_def spare_def)
  then show "\<exists>d m. clone_user_space prog_space prog_mmu = (Some d, m)"
    using clone_of_empty [OF S _ e f] k by simp
qed

definition prog_sched :: sched where
  "prog_sched = (sched_boot 0 4096)
     \<lparr>tasks := [task_empty\<lparr>t_state := Ready\<rparr>, task_empty\<lparr>t_state := Ready\<rparr>,
                task_empty\<lparr>t_state := Running, t_in_user := True, t_space := prog_space\<rparr>] @ replicate 5 task_empty,
      current := 2, task_count := 3, cr3 := prog_space\<rparr>"

definition prog_machine :: "(nat \<Rightarrow> byte list) machine" where
  "prog_machine = (demo_machine demo_fds)\<lparr>k_sched := prog_sched, k_mmu := prog_mmu,
     k_child_context := replicate MAX_TASKS user_context_zero, k_child_pending := replicate MAX_TASKS False\<rparr>"

lemma prog_tasks:
  "t < MAX_TASKS \<Longrightarrow> task_at prog_sched t = (if t = 2 then task_empty\<lparr>t_state := Running, t_in_user := True, t_space := prog_space\<rparr>
     else if t < 2 then task_empty\<lparr>t_state := Ready\<rparr> else task_empty)"
  "current prog_sched = 2" "cr3 prog_sched = prog_space" "kernel_cr3 prog_sched = 4096"
  by (auto simp: prog_sched_def sched_boot_def nth_Cons' nth_append)

lemma prog_machine_ok: "machine_ok prog_machine" "\<not> dead (k_sched prog_machine) 2"
proof -
  have sp: "spaces_in_use prog_sched = {prog_space}"
    using prog_facts(4) by (auto simp: spaces_in_use_def prog_tasks task_empty_def intro!: exI [of _ "2 :: nat"] split: if_splits)
  have "sched_inv prog_sched"
    by (rule sched_inv_by_table) (simp_all add: prog_sched_def sched_boot_def task_empty_def task_change_ok_def)
  moreover have "paging_ok prog_sched prog_mmu"
    using prog_facts by (simp add: paging_ok_def sp prog_tasks) (auto simp: prog_tasks task_empty_def split: if_splits)
  moreover have "tasks_ok prog_sched demo_fds"
    using demo_fds_others by (auto simp: tasks_ok_def dead_def prog_tasks task_empty_def fd_get_def split: if_splits)
  ultimately show "machine_ok prog_machine"
    using demo_fds_inv gui_inv_init sig_inv_init launcher_inv_init
    by (simp add: machine_ok_def prog_machine_def demo_machine_def)
  show "\<not> dead (k_sched prog_machine) 2" by (simp add: prog_machine_def dead_def prog_tasks)
qed

lemma power_16: "is_power_of_two 16"
  unfolding is_power_of_two_def list_ex_iff by (rule bexI [of _ 4]) simp_all

lemma prog_fork: "\<exists>s. spawn_child ''fork'' prog_sched = (Some 3, s)"
  by (simp add: spawn_child_def spawn_inner_def spawn_slot_def spawn_stacks_def prog_sched_def sched_boot_def task_empty_def find_slot.simps
      kmalloc_aligned_def checked_add_def power_16 Let_def)


section \<open>Properties\<close>


definition boot_machine :: "(nat \<Rightarrow> byte list) machine" where
  "boot_machine = (demo_machine (fd_init \<lparr>fd_tables = [], fd_pipes = pipes_init\<rparr>))
     \<lparr>k_sched := sched_init (sched_boot 0 4096), k_mmu := boot_mmu, k_child_context := replicate MAX_TASKS user_context_zero,
      k_child_pending := replicate MAX_TASKS False\<rparr>"








text \<open>
  Property C32.  A start that fails leaves its program queued: when a launch finds no task (the table of
  tasks or the heap is full) it reports the error but its path stays in the queue, and the task of
  the next launch that succeeds, whatever program it was for, starts the program that was
  refused.
\<close>

theorem stale_launch:
  assumes "launcher_inv (k_launch k)" "waiting_paths (k_launch k) = []"
    "app_resolve path k = Some (full, name)" "length full < LAUNCH_PATH" "utf8_valid full" "fst (spawn name (k_sched k)) = None"
    "spawn_user_app path k = (r, k1)"
    "k_launch k2 = k_launch k1" "spawn_user_app other k2 = (Ok (), k3)"
    "k_launch k4 = k_launch k3"
  shows "r = Err ''gorev olusturulamadi'' \<and> fst (app_begin k4) = AppLoop (Some full)"
proof -
  obtain ok l where p: "push_pending full (k_launch k) = (ok, l)" by force
  note Q = push_pending_result [OF assms(1,4) p]
  have q: "ok" "waiting_paths l = [full]" "launcher_inv l" using Q assms(2) by simp_all
  have r: "r = Err ''gorev olusturulamadi''" "k_launch k1 = l"
    using assms(3,4,6,7) p q(1) by (auto simp: spawn_user_app_def split: prod.splits option.splits)
  obtain full2 name2 where o: "app_resolve other k2 = Some (full2, name2)" "length full2 < LAUNCH_PATH"
    using assms(9) by (auto simp: spawn_user_app_def split: option.splits if_splits)
  obtain ok2 l2 where p2: "push_pending full2 l = (ok2, l2)" by force
  note Q2 = push_pending_result [OF q(3) o(2) p2]
  have l3: "ok2" "k_launch k3 = l2"
    using assms(8,9) o p2 r(2) by (auto simp: spawn_user_app_def split: prod.splits option.splits bool.splits)
  have "waiting_paths l2 = [full, full2]" using Q2(1) q(2) l3(1) by simp
  then have "fst (take_pending l2) = Some full"
    using take_pending_result [OF Q2(2)] assms(5) by (auto split: if_splits)
  then show ?thesis using r(1) assms(10) l3(2) by (simp add: app_begin_def split: prod.split) (metis fst_conv)
qed


definition full_machine :: "(nat \<Rightarrow> byte list) machine" where
  "full_machine = (demo_machine demo_fds)\<lparr>k_sched := sig_sched\<lparr>tasks := replicate MAX_TASKS (task_empty\<lparr>t_state := Ready\<rparr>), task_count := MAX_TASKS\<rparr>\<rparr>"

lemma demo_resolve: "app_resolve (ascii ''paint'') k = Some (ascii ''/bin/paint'', ''paint'')"
  "app_resolve (ascii ''notes'') k = Some (ascii ''/bin/notes'', ''notes'')"
proof -
  have "find (\<lambda>(short, full, _). short = ascii ''paint'' \<or> full = ascii ''paint'') KNOWN_APPS = Some (ascii ''paint'', ascii ''/bin/paint'', ''paint'')"
    "find (\<lambda>(short, full, _). short = ascii ''notes'' \<or> full = ascii ''notes'') KNOWN_APPS = Some (ascii ''notes'', ascii ''/bin/notes'', ''notes'')"
    by code_simp+
  then show "app_resolve (ascii ''paint'') k = Some (ascii ''/bin/paint'', ''paint'')"
    "app_resolve (ascii ''notes'') k = Some (ascii ''/bin/notes'', ''notes'')"
    by (simp_all add: app_resolve_def)
qed

text \<open>\<^verbatim>\<open>paint\<close> is refused; a task ends; \<^verbatim>\<open>notes\<close> is launched, and its task starts \<^verbatim>\<open>paint\<close>.\<close>

theorem stale_launch_witness:
  "\<exists>k1 k2 k3. spawn_user_app (ascii ''paint'') full_machine = (Err ''gorev olusturulamadi'', k1) \<and>
     k2 = k1\<lparr>k_sched := prog_sched\<rparr> \<and> spawn_user_app (ascii ''notes'') k2 = (Ok (), k3) \<and>
     fst (app_begin k3) = AppLoop (Some (ascii ''/bin/paint''))"
proof -
  obtain r k1 where a: "spawn_user_app (ascii ''paint'') full_machine = (r, k1)" by force
  let ?k2 = "k1\<lparr>k_sched := prog_sched\<rparr>"
  have l: "k_launch full_machine = launcher_init" by (simp add: full_machine_def demo_machine_def)
  have e: "waiting_paths launcher_init = []" by (simp add: waiting_paths_def launcher_init_def ring_empty)
  have n: "fst (spawn ''paint'' (k_sched full_machine)) = None"
    by (simp add: full_machine_def spawn_def spawn_inner_def spawn_slot_def find_slot.simps task_empty_def Let_def upt_rec)
  have len: "length (ascii ''/bin/paint'') < LAUNCH_PATH" "length (ascii ''/bin/notes'') < LAUNCH_PATH" by (simp_all add: ascii_def)
  have u: "utf8_valid (ascii ''/bin/paint'')" by code_simp
  obtain ok l1 where p: "push_pending (ascii ''/bin/paint'') launcher_init = (ok, l1)" by force
  note P = push_pending_result [OF launcher_inv_init len(1) p]
  have k1: "k_launch k1 = l1"
    using a n p P(1) e len(1) l by (auto simp: spawn_user_app_def demo_resolve split: prod.splits option.splits)
  obtain ok2 l2 where p2: "push_pending (ascii ''/bin/notes'') l1 = (ok2, l2)" by force
  have "ok2" using push_pending_result(1) [OF P(2) len(2) p2] P(1) e by simp
  moreover obtain s where "spawn ''notes'' prog_sched = (Some 3, s)"
    using prog_fork by (simp add: spawn_def spawn_inner_def spawn_slot_def spawn_stacks_def prog_sched_def sched_boot_def task_empty_def
        find_slot.simps kmalloc_aligned_def checked_add_def power_16 Let_def)
  ultimately obtain k3 where k3: "spawn_user_app (ascii ''notes'') ?k2 = (Ok (), k3)"
    using p2 k1 len(2) by (simp add: spawn_user_app_def demo_resolve)
  have "launcher_inv (k_launch full_machine)" "waiting_paths (k_launch full_machine) = []" unfolding l using launcher_inv_init e by simp_all
  from stale_launch [OF this demo_resolve(1) len(1) u n a _ k3 refl] show ?thesis using a k3 by simp
qed

end
