(* ===== verification/Spec2Isabelle.thy ===== *)
theory Spec2Isabelle imports Frames Fd SchedFair Monitor Signal TcmkfsProps PagingProps Vfs WmProps Rtc Elf64 Pe64 SystemProps begin

text \<open>
  A verification development for The Cursed Moon Kernel, a Rust kernel with POSIX and Windows NT
  programs in Ring 3, a core in Ring 0 (Level-0a), translation layers for the two kinds of
  program (Level-0b1) and a controller every call passes through (Level-0b2).  The sources are
  under \<^verbatim>\<open>kernel/src\<close>; the 64-bit build (x86-64) is modelled where the two builds differ.

  \<^bold>\<open>The parts and their theories\<close>

  \<^item> Memory.  \<open>Frames\<close> (\<^verbatim>\<open>level0a/core/frames.rs\<close>): the page-frame pool with its bitmap and owner
    counts.  \<open>Kmalloc\<close> (\<^verbatim>\<open>level0a/core/kmalloc.rs\<close>): the kernel heap.  \<open>Mmu\<close>
    (\<^verbatim>\<open>level0a/core/mmu_x86_64.rs\<close>): the page walk that checks user addresses.
  \<^item> Tasks.  \<open>Sched\<close>, \<open>SchedInv\<close>, \<open>SchedFair\<close> (\<^verbatim>\<open>level0a/core/scheduler.rs\<close>, \<^verbatim>\<open>level0a/pit.rs\<close>): the task
    table, the timer tick, waiting and waking; its invariant over all reachable states; fairness.
    \<open>Signal\<close> (\<^verbatim>\<open>level0b1/signal.rs\<close>, \<^verbatim>\<open>arch/x86_64/regs.rs\<close>, \<^verbatim>\<open>arch/x86_64/usermode.rs\<close>): signals, the
    register frames of a system call, and the frame a handler runs on.
  \<^item> Descriptors.  \<open>Pipe\<close> (\<^verbatim>\<open>level0a/core/pipe.rs\<close>) and \<open>Fd\<close> (\<^verbatim>\<open>level0a/core/fd.rs\<close>, \<open>create_pipe\<close> of
    \<^verbatim>\<open>level0a/kernel_api.rs\<close>): the byte rings, and the per-task tables that count references to
    them.
  \<^item> Storage.  \<open>Block\<close> (\<^verbatim>\<open>level0a/drivers/block.rs\<close>): the table of functions a disk driver registers,
    and what it means that a device is healthy.  \<open>Tcmkfs\<close> (\<^verbatim>\<open>level0a/core/tcmkfs.rs\<close>): the file
    system; its on-disk form (\<open>TcmkfsDisk\<close>), its block allocator (\<open>TcmkfsAlloc\<close>), the data of files
    (\<open>TcmkfsData\<close>), whole operations (\<open>TcmkfsRun\<close>, \<open>TcmkfsOps\<close>), the abstract file system they
    refine (\<open>TcmkfsSpec\<close>) and the properties (\<open>TcmkfsProps\<close>).
  \<^item> Level-0b2.  \<open>Ipc\<close> (\<^verbatim>\<open>level0b2/ipc.rs\<close>): the shared area and the message ring.  \<open>LoadBalancer\<close>
    (\<^verbatim>\<open>level0b2/load_balancer.rs\<close>): call rates and quotas.  \<open>Monitor\<close> (\<^verbatim>\<open>level0b2/state_monitor.rs\<close>,
    \<^verbatim>\<open>fallback.rs\<close>, \<^verbatim>\<open>dispatcher.rs\<close>): the health verdict, the fallback table, the dispatcher.
  \<^item> \<open>Prelude\<close> holds the types and lemmas all of them share, \<open>Interfaces\<close> the contracts: \<open>slot_pool\<close>
    (a first-fit table of slots, interpreted by the page frames, the pipes and the disk blocks),
    \<open>ref_counted\<close> (owner counts, by the page frames and the pipe ends) and \<open>bounded_fifo\<close> (by the
    message ring).

  \<^bold>\<open>How the model reads\<close>

  The statics of a file are the fields of one record, a function of the file is one definition
  that takes the record and returns it changed, and its early returns are the branches.  A
  \<open>Result\<close> or \<open>Option\<close> is \<open>outcome\<close> or \<open>option\<close>; an index out of bounds, or a raw access outside
  its array, is \<open>Panic\<close>.  Registers, page-table entries and heap addresses are words; counters
  and indices are naturals with the wrap written out (\<open>w32\<close>, \<open>wsub\<close>, \<open>mod\<close>) where the code can reach
  it.  A call that gives the processor away is split there in two definitions.  What a component
  does not own is an argument: the clock, the current task, the memory of the calling program,
  the disk driver.  A driver is any record of functions; the theorems on the file system assume
  \<open>healthy\<close>, that sectors inside a region are stored and returned, and the witnesses run them on a
  disk in memory.

  \<^bold>\<open>What the lemmas show\<close>

  Every component has an invariant that all its operations keep (\<open>frames_inv\<close>, \<open>sched_inv\<close>,
  \<open>fs_sound\<close> and others), and the reachable states of the frame pool, the scheduler, the
  descriptor tables and the signals satisfy it.  On it rest the properties: isolation of fresh
  frames and heap blocks; order and loss of pipe data; fairness, waking and waiting of tasks;
  reference counts across fork, \<open>dup2\<close> and exit; delivery and return of signals; exact quotas
  and verdicts.  The file system is proved against an abstract one: a run of operations on a
  healthy device answers and does what the abstract file system may, never panics, touches no
  sector outside its partition, loses no block, and is found again by the next mount.

  \<^bold>\<open>Bounds\<close>

  No definition carries fuel.  The loops are structural or end by a measure written in the code
  (the bytes left of a transfer, the slots left of a table); a polling loop of the code that
  has a budget has it in the model.

  \<^bold>\<open>Not modelled\<close>

  The assembly of entry, exit and context switch; the programming of devices (VGA, console,
  framebuffer, keyboard, mouse, PIC, PIT, RTC, ATA); the boot chain and the installer; the shell
  and the window manager; the address-space part of the MMU, the program loaders, \<open>fork\<close> and
  \<open>execve\<close>, the virtual file system and the bodies of the system calls; the 32-bit variants of
  the architecture files; the programs in Ring 3.  The first group is hardware access with no
  state of its own; the rest is left for later.
\<close>

end
